(* ===== verification/Lab_Interfaces.thy ===== *)
theory Lab_Interfaces
  imports Lab_Prelude
begin

text \<open>
  The interfaces the components share, as locales. A client lemma is proved once inside the
  locale; each component interprets the locale on its own operations, in its own theory.

  \<^item> \<open>guarded_machine\<close>: operations that either raise and leave the state alone (a rolled-back
    transaction, an exception before any write) or return a new state that keeps an invariant;
    \<open>ok\<close> restricts the inputs the environment supplies, such as clock readings.
  \<^item> \<open>stable_machine\<close>: such a machine with facts that no step takes back.
  \<^item> \<open>budget_ledger\<close>: such a machine with a charge that is never refunded and a fixed limit.
  \<^item> \<open>append_log\<close>: such a machine with a log that only grows at its end.
  \<^item> \<open>row_hash\<close>: a running hash that folds keys into a table row.
\<close>

section \<open>Sequences of guarded calls\<close>

text \<open>
  A caller that catches the exception keeps the old state: each call of a sequence either
  commits or has no effect.
\<close>

definition try_step :: "('op \<Rightarrow> 's \<Rightarrow> 'e + 's) \<Rightarrow> 's \<Rightarrow> 'op \<Rightarrow> 's" where
  "try_step step s op = (case step op s of Inl e \<Rightarrow> s | Inr s' \<Rightarrow> s')"

definition run_ops :: "('op \<Rightarrow> 's \<Rightarrow> 'e + 's) \<Rightarrow> 's \<Rightarrow> 'op list \<Rightarrow> 's" where
  "run_ops step s ops = foldl (try_step step) s ops"

lemma run_ops_Nil [simp]: "run_ops step s [] = s"
  by (simp add: run_ops_def)

lemma run_ops_Cons: "run_ops step s (op # ops) = run_ops step (try_step step s op) ops"
  by (simp add: run_ops_def)

lemma run_ops_snoc: "run_ops step s (ops @ [op]) = try_step step (run_ops step s ops) op"
  by (simp add: run_ops_def)

locale guarded_machine =
  fixes step :: "'op \<Rightarrow> 's \<Rightarrow> 'e + 's"
    and inv :: "'s \<Rightarrow> bool"
    and ok :: "'op \<Rightarrow> bool"
  assumes step_inv: "inv s \<Longrightarrow> ok op \<Longrightarrow> step op s = Inr s' \<Longrightarrow> inv s'"
begin

lemma try_step_inv: "inv s \<Longrightarrow> ok op \<Longrightarrow> inv (try_step step s op)"
  by (auto simp: try_step_def intro: step_inv split: sum.splits)

lemma run_inv: "inv s \<Longrightarrow> list_all ok ops \<Longrightarrow> inv (run_ops step s ops)"
  by (induction ops arbitrary: s) (simp_all add: run_ops_Cons try_step_inv)

end

text \<open>A machine with facts about its state that no step takes back.\<close>

locale stable_machine = guarded_machine step inv ok
  for step :: "'op \<Rightarrow> 's \<Rightarrow> 'e + 's" and inv :: "'s \<Rightarrow> bool" and ok :: "'op \<Rightarrow> bool" +
  fixes fact :: "'f \<Rightarrow> 's \<Rightarrow> bool"
  assumes step_keeps: "inv s \<Longrightarrow> ok op \<Longrightarrow> step op s = Inr s' \<Longrightarrow> fact f s \<Longrightarrow> fact f s'"
begin

lemma fact_lasts: "inv s \<Longrightarrow> ok op \<Longrightarrow> fact f s \<Longrightarrow> fact f (try_step step s op)"
  by (auto simp: try_step_def intro: step_keeps split: sum.splits)

lemma facts_last: "inv s \<Longrightarrow> list_all ok ops \<Longrightarrow> fact f s \<Longrightarrow> fact f (run_ops step s ops)"
  by (induction ops arbitrary: s) (simp_all add: run_ops_Cons fact_lasts try_step_inv)

end

section \<open>Ledgers\<close>

locale budget_ledger = guarded_machine step inv ok
  for step :: "'op \<Rightarrow> 's \<Rightarrow> 'e + 's" and inv :: "'s \<Rightarrow> bool" and ok :: "'op \<Rightarrow> bool" +
  fixes charged :: "'s \<Rightarrow> int"
    and limit :: "'s \<Rightarrow> int"
  assumes within: "inv s \<Longrightarrow> charged s \<le> limit s"
    and never_refund: "inv s \<Longrightarrow> ok op \<Longrightarrow> step op s = Inr s' \<Longrightarrow> charged s \<le> charged s'"
    and fixed_limit: "inv s \<Longrightarrow> ok op \<Longrightarrow> step op s = Inr s' \<Longrightarrow> limit s' = limit s"
begin

lemma run_limit: "inv s \<Longrightarrow> list_all ok ops \<Longrightarrow> limit (run_ops step s ops) = limit s"
proof (induction ops arbitrary: s)
  case Nil
  show ?case by simp
next
  case (Cons op ops)
  have "limit (try_step step s op) = limit s"
    using Cons.prems by (auto simp: try_step_def intro: fixed_limit split: sum.splits)
  then show ?case
    using Cons.IH [OF try_step_inv] Cons.prems by (simp add: run_ops_Cons)
qed

lemma run_never_refund: "inv s \<Longrightarrow> list_all ok ops \<Longrightarrow> charged s \<le> charged (run_ops step s ops)"
proof (induction ops arbitrary: s)
  case Nil
  show ?case by simp
next
  case (Cons op ops)
  have "charged s \<le> charged (try_step step s op)"
    using Cons.prems by (auto simp: try_step_def intro: never_refund split: sum.splits)
  also have "\<dots> \<le> charged (run_ops step (try_step step s op) ops)"
    using Cons.IH [OF try_step_inv] Cons.prems by simp
  finally show ?case by (simp add: run_ops_Cons)
qed

lemma run_within: "inv s \<Longrightarrow> list_all ok ops \<Longrightarrow> charged (run_ops step s ops) \<le> limit s"
  using within [OF run_inv] run_limit by metis

end

section \<open>Append-only logs\<close>

locale append_log = guarded_machine step inv ok
  for step :: "'op \<Rightarrow> 's \<Rightarrow> 'e + 's" and inv :: "'s \<Rightarrow> bool" and ok :: "'op \<Rightarrow> bool" +
  fixes log :: "'s \<Rightarrow> 'a list"
  assumes log_grows: "inv s \<Longrightarrow> ok op \<Longrightarrow> step op s = Inr s' \<Longrightarrow> prefix (log s) (log s')"
begin

lemma run_log_grows: "inv s \<Longrightarrow> list_all ok ops \<Longrightarrow> prefix (log s) (log (run_ops step s ops))"
proof (induction ops arbitrary: s)
  case Nil
  show ?case by simp
next
  case (Cons op ops)
  have "prefix (log s) (log (try_step step s op))"
    using Cons.prems by (auto simp: try_step_def intro: log_grows split: sum.splits)
  also have "prefix \<dots> (log (run_ops step (try_step step s op) ops))"
    using Cons.IH [OF try_step_inv] Cons.prems by simp
  finally show ?case by (simp add: run_ops_Cons)
qed

end

section \<open>Running hashes\<close>

locale row_hash =
  fixes rows :: int
    and start :: int
    and mix :: "int \<Rightarrow> int \<Rightarrow> int"
    and settled :: "int \<Rightarrow> bool"
    and finish :: "int \<Rightarrow> int"
  assumes start_nonneg: "0 < rows \<Longrightarrow> 0 \<le> start"
    and mix_settles: "0 < rows \<Longrightarrow> 0 \<le> a \<Longrightarrow> 0 \<le> t \<Longrightarrow> settled (mix a t) \<and> 0 \<le> mix a t"
    and finish_row: "0 < rows \<Longrightarrow> settled a \<Longrightarrow> 0 \<le> finish a \<and> finish a < rows"
begin

lemma fold_settles:
  assumes "0 < rows" and "0 \<le> a" and "\<forall>t \<in> set key. 0 \<le> t" and "key \<noteq> []"
  shows "settled (foldl mix a key)"
  using assms
proof (induction key rule: rev_induct)
  case Nil
  then show ?case by simp
next
  case (snoc t key)
  have "0 \<le> foldl mix a key"
    using snoc.prems(1-3) by (induction key arbitrary: a) (auto simp: mix_settles)
  then show ?case
    using snoc.prems(1,3) by (simp add: mix_settles)
qed

lemma row_in_range:
  assumes "0 < rows" and "\<forall>t \<in> set key. 0 \<le> t" and "key \<noteq> []"
  shows "0 \<le> finish (foldl mix start key) \<and> finish (foldl mix start key) < rows"
  by (rule finish_row [OF assms(1) fold_settles [OF assms(1) start_nonneg [OF assms(1)] assms(2,3)]])

end

end
