(* ===== verification/Json.thy ===== *)
theory Json
  imports Lab_Prelude
begin

text \<open>
  JSON-native values as Python holds them after \<open>json.loads\<close>: \<open>null\<close>, Booleans, integers,
  strings, lists and objects with string keys. Objects are association lists in insertion
  order (a Python dict), looked up by key. Floating-point numbers do not occur in the records
  modelled with this type.
\<close>

datatype json = JNull | JBool bool | JInt int | JStr string | JList "json list"
  | JObj "(string \<times> json) list"

definition json_get :: "json \<Rightarrow> string \<Rightarrow> json option" where
  "json_get v k = (case v of JObj kvs \<Rightarrow> map_of kvs k | _ \<Rightarrow> None)"

text \<open>
  \<open>reject_duplicate_keys\<close>: the \<open>object_pairs_hook\<close> of every authenticated read. The fold
  keeps the dict built so far and refuses a key that is already in it.
\<close>

datatype json_error = DuplicateKey string

definition reject_duplicate_keys :: "(string \<times> 'v) list \<Rightarrow> json_error + (string \<times> 'v) list" where
  "reject_duplicate_keys pairs =
     foldE (\<lambda>result (key, value).
       if key \<in> fst ` set result then Inl (DuplicateKey key)
       else Inr (result @ [(key, value)])) [] pairs"

lemma reject_duplicate_keys_fold:
  assumes "distinct (map fst acc)"
  shows "foldE (\<lambda>result (key, value).
       if key \<in> fst ` set result then Inl (DuplicateKey key)
       else Inr (result @ [(key, value)])) acc pairs = Inr out
     \<longleftrightarrow> out = acc @ pairs \<and> distinct (map fst (acc @ pairs))"
  using assms
proof (induction pairs arbitrary: acc)
  case Nil
  then show ?case by auto
next
  case (Cons p pairs)
  obtain k v where p: "p = (k, v)" by (cases p)
  show ?case
  proof (cases "k \<in> fst ` set acc")
    case True
    then show ?thesis by (auto simp: p)
  next
    case False
    then show ?thesis
      using Cons.IH [of "acc @ [(k, v)]"] Cons.prems by (simp add: p)
  qed
qed

end
