(* ===== verification/Address_Hash.thy ===== *)
theory Address_Hash
  imports Lab_Interfaces Json "HOL-Library.Word"
begin

text \<open>
  Memory-table addresses: \<open>src/sparselab/address_hash.py\<close> and the arithmetic part of
  \<open>src/sparselab/data/byte_hash.py\<close>. A token n-gram key is folded newest token first into a
  running address, by the legacy recurrence (v1) when the head's multiplier is coprime to the
  table size and in the prime field \<open>2^31 - 1\<close> (v2) otherwise. Raw bytes are hashed the same
  two ways. All values are Python integers; the bounds at the end say that the same arithmetic
  on int64 tensors does not overflow.
\<close>

section \<open>Definitions\<close>

definition LEGACY_BASE :: int where
  "LEGACY_BASE = 257"

definition MIX_MODULUS :: int where
  "MIX_MODULUS = 2 ^ 31 - 1"

definition MIX_MULTIPLIER :: int where
  "MIX_MULTIPLIER = 1103515245"

datatype scheme = TOKEN_SCHEME_V1 | TOKEN_SCHEME_V2 | BYTE_SCHEME_V1 | BYTE_SCHEME_V2

datatype addr_error = TableSizeNotPositive | HeadNegative | UnhashableKind

definition positive :: "int \<Rightarrow> addr_error + int" where
  "positive table_size = (if table_size \<le> 0 then Inl TableSizeNotPositive else Inr table_size)"

definition token_multiplier :: "int \<Rightarrow> addr_error + int" where
  "token_multiplier head = (if head < 0 then Inl HeadNegative else Inr (LEGACY_BASE + 2 * head))"

definition token_uses_legacy :: "int \<Rightarrow> int \<Rightarrow> addr_error + bool" where
  "token_uses_legacy table_size head =
     bindE (token_multiplier head) (\<lambda>m.
     bindE (positive table_size) (\<lambda>t. Inr (gcd m t = 1)))"

definition token_scheme :: "int \<Rightarrow> int \<Rightarrow> addr_error + scheme" where
  "token_scheme table_size head =
     bindE (token_uses_legacy table_size head)
       (\<lambda>legacy. Inr (if legacy then TOKEN_SCHEME_V1 else TOKEN_SCHEME_V2))"

definition token_address_init :: "int \<Rightarrow> addr_error + int" where
  "token_address_init head = bindE (token_multiplier head) (\<lambda>_. Inr (head + 1))"

definition token_address_step :: "int \<Rightarrow> int \<Rightarrow> int \<Rightarrow> int \<Rightarrow> addr_error + int" where
  "token_address_step address token table_size head =
     bindE (token_uses_legacy table_size head) (\<lambda>legacy.
       if legacy then
         bindE (token_multiplier head) (\<lambda>m. Inr ((address * m + token) mod table_size))
       else
         Inr ((address * (MIX_MULTIPLIER + 2 * head) + token + 1) mod MIX_MODULUS))"

definition token_address_finish :: "int \<Rightarrow> int \<Rightarrow> int \<Rightarrow> addr_error + int" where
  "token_address_finish address table_size head =
     bindE (token_uses_legacy table_size head) (\<lambda>legacy.
       if legacy then Inr address else Inr (address mod table_size))"

definition token_ngram_address :: "int list \<Rightarrow> int \<Rightarrow> int \<Rightarrow> addr_error + int" where
  "token_ngram_address key table_size head =
     bindE (token_address_init head) (\<lambda>address.
     bindE (foldE (\<lambda>a token. token_address_step a token table_size head) address key)
       (\<lambda>address. token_address_finish address table_size head))"

definition byte_uses_legacy :: "int \<Rightarrow> addr_error + bool" where
  "byte_uses_legacy table_size = bindE (positive table_size) (\<lambda>t. Inr (gcd LEGACY_BASE t = 1))"

definition byte_scheme :: "int \<Rightarrow> addr_error + scheme" where
  "byte_scheme table_size =
     bindE (byte_uses_legacy table_size)
       (\<lambda>legacy. Inr (if legacy then BYTE_SCHEME_V1 else BYTE_SCHEME_V2))"

text \<open>A Python \<open>bytes\<close> value is a list of 8-bit words; iterating it yields their values.\<close>

type_synonym bytes = "8 word list"

definition mixed_byte_address :: "bytes \<Rightarrow> int \<Rightarrow> addr_error + int" where
  "mixed_byte_address value table_size =
     bindE (positive table_size) (\<lambda>_.
       let address = foldl (\<lambda>a b. (a * MIX_MULTIPLIER + uint b + 1) mod MIX_MODULUS) 1 value;
           address = (address * MIX_MULTIPLIER) mod MIX_MODULUS
       in Inr (address mod table_size))"

definition hash_bytes :: "bytes \<Rightarrow> int" where
  "hash_bytes value = foldl (\<lambda>result b. result * LEGACY_BASE + uint b + 1) 0 value * LEGACY_BASE"

definition table_address :: "bytes \<Rightarrow> int \<Rightarrow> addr_error + int" where
  "table_address value table_size =
     (if table_size \<le> 0 then Inl TableSizeNotPositive
      else bindE (byte_uses_legacy table_size) (\<lambda>legacy.
        if \<not> legacy then mixed_byte_address value table_size
        else Inr (hash_bytes value mod table_size)))"

text \<open>
  The memory section of a model configuration, as \<open>memory_schemes\<close> reads it. A value that is
  not an integer (a JSON Boolean included) falls back to the default.
\<close>

definition model_int :: "json \<Rightarrow> string \<Rightarrow> int \<Rightarrow> int" where
  "model_int model key dflt = (case json_get model key of Some (JInt n) \<Rightarrow> n | _ \<Rightarrow> dflt)"

datatype schemes = NoSchemes | ByteSchemes scheme | TokenSchemes "scheme list"

fun unhashable :: "json \<Rightarrow> bool" where
  "unhashable (JList _) = True"
| "unhashable (JObj _) = True"
| "unhashable _ = False"

definition heads_upto :: "int \<Rightarrow> int list" where
  "heads_upto heads = map int [0..<nat heads]"

definition memory_schemes :: "json \<Rightarrow> bool \<Rightarrow> addr_error + schemes" where
  "memory_schemes model legacy =
     (let kind = (case json_get model ''memory'' of None \<Rightarrow> JStr ''none'' | Some v \<Rightarrow> v);
          table_size = model_int model ''memory_table_size'' 0
      in if kind = JStr ''none'' \<or> table_size \<le> 0 then Inr NoSchemes
         else if unhashable kind then Inl UnhashableKind
         else if kind = JStr ''byte'' \<or> kind = JStr ''portable'' then
           (if legacy then Inr (ByteSchemes BYTE_SCHEME_V1)
            else bindE (byte_scheme table_size) (\<lambda>s. Inr (ByteSchemes s)))
         else if kind = JStr ''ngram'' then
           (let heads = max (model_int model ''memory_hash_heads'' 1) 1
            in bindE (mapE (\<lambda>head. if legacy then Inr TOKEN_SCHEME_V1
                                   else token_scheme table_size head) (heads_upto heads))
                 (\<lambda>ss. Inr (TokenSchemes ss)))
         else Inr NoSchemes)"

definition memory_addressing_identity :: "json \<Rightarrow> addr_error + schemes option" where
  "memory_addressing_identity model =
     bindE (memory_schemes model False) (\<lambda>current.
     bindE (memory_schemes model True) (\<lambda>old.
       Inr (if current \<noteq> old then Some current else None)))"

definition token_addressing_marker :: "int \<Rightarrow> int \<Rightarrow> addr_error + scheme list option" where
  "token_addressing_marker table_size hash_heads =
     bindE (mapE (token_scheme table_size) (heads_upto (max hash_heads 1))) (\<lambda>schemes.
       Inr (if list_all (\<lambda>s. s = TOKEN_SCHEME_V1) schemes then None else Some schemes))"

lemmas addr_defs = LEGACY_BASE_def MIX_MODULUS_def MIX_MULTIPLIER_def positive_def
  token_multiplier_def token_uses_legacy_def token_scheme_def token_address_init_def
  token_address_step_def token_address_finish_def token_ngram_address_def
  byte_uses_legacy_def byte_scheme_def


section \<open>The recurrences as total functions\<close>

definition token_mix :: "int \<Rightarrow> int \<Rightarrow> int \<Rightarrow> int \<Rightarrow> int" where
  "token_mix t h a tok =
     (if gcd (257 + 2 * h) t = 1 then (a * (257 + 2 * h) + tok) mod t
      else (a * (1103515245 + 2 * h) + tok + 1) mod 2147483647)"

definition token_close :: "int \<Rightarrow> int \<Rightarrow> int \<Rightarrow> int" where
  "token_close t h a = (if gcd (257 + 2 * h) t = 1 then a else a mod t)"

definition token_settled :: "int \<Rightarrow> int \<Rightarrow> int \<Rightarrow> bool" where
  "token_settled t h a \<longleftrightarrow> 0 \<le> a \<and> (gcd (257 + 2 * h) t = 1 \<longrightarrow> a < t)"

lemma token_address_step_eq:
  "0 < t \<Longrightarrow> 0 \<le> h \<Longrightarrow> token_address_step a tok t h = Inr (token_mix t h a tok)"
  by (simp add: addr_defs token_mix_def add.commute)

lemma token_ngram_address_eq:
  assumes "0 < t" and "0 \<le> h"
  shows "token_ngram_address key t h = Inr (token_close t h (foldl (token_mix t h) (h + 1) key))"
proof -
  have "foldE (\<lambda>a token. token_address_step a token t h) a key = Inr (foldl (token_mix t h) a key)"
    for a
    by (induction key arbitrary: a) (simp_all add: token_address_step_eq assms)
  then show ?thesis
    using assms by (simp add: token_ngram_address_def token_address_init_def
      token_address_finish_def token_multiplier_def token_uses_legacy_def positive_def
      token_close_def LEGACY_BASE_def)
qed

interpretation token_rows: row_hash t "int h + 1" "token_mix t (int h)" "token_settled t (int h)"
  "token_close t (int h)" for t :: int and h :: nat
  by unfold_locales (auto simp: token_mix_def token_settled_def token_close_def)

definition byte_close :: "int \<Rightarrow> int \<Rightarrow> int" where
  "byte_close t a =
     (if gcd 257 t = 1 then (a * 257) mod t else (a * 1103515245) mod 2147483647 mod t)"

definition byte_mix :: "int \<Rightarrow> int \<Rightarrow> int \<Rightarrow> int" where
  "byte_mix t a b =
     (if gcd 257 t = 1 then a * 257 + b + 1 else (a * 1103515245 + b + 1) mod 2147483647)"

definition byte_start :: "int \<Rightarrow> int" where
  "byte_start t = (if gcd 257 t = 1 then 0 else 1)"

lemma table_address_eq:
  assumes "0 < t"
  shows "table_address v t = Inr (byte_close t (foldl (byte_mix t) (byte_start t) (map uint v)))"
proof (cases "gcd 257 t = 1")
  case True
  have "byte_mix t = (\<lambda>a b. a * 257 + b + 1)" by (simp add: fun_eq_iff byte_mix_def True)
  with True assms show ?thesis
    by (simp add: table_address_def byte_uses_legacy_def positive_def LEGACY_BASE_def
      hash_bytes_def byte_close_def byte_start_def foldl_map add.assoc)
next
  case False
  have "byte_mix t = (\<lambda>a b. (a * 1103515245 + b + 1) mod 2147483647)"
    by (simp add: fun_eq_iff byte_mix_def False)
  with False assms show ?thesis
    by (simp add: table_address_def byte_uses_legacy_def positive_def LEGACY_BASE_def
      mixed_byte_address_def MIX_MODULUS_def MIX_MULTIPLIER_def byte_close_def byte_start_def
      foldl_map Let_def add.assoc)
qed

section \<open>Every key lands in the table\<close>

text \<open>
  For a positive table size and a non-negative head, hashing a nonempty key of non-negative
  token ids succeeds and gives a row of the table, whichever scheme the size selects.
\<close>

theorem token_ngram_address_row:
  assumes "0 < t" and "0 \<le> h" and "key \<noteq> []" and "\<forall>tok \<in> set key. 0 \<le> tok"
  shows "\<exists>row. token_ngram_address key t h = Inr row \<and> 0 \<le> row \<and> row < t"
proof -
  have "h = int (nat h)" using assms(2) by simp
  then show ?thesis
    using token_rows.row_in_range [of t key "nat h"] token_ngram_address_eq [OF assms(1,2)] assms
    by auto
qed

theorem token_ngram_address_row_witness:
  "\<exists>row. token_ngram_address [7, 300] 514 0 = Inr row \<and> 0 \<le> row \<and> row < 514"
  by (rule token_ngram_address_row) simp_all

section \<open>The recurrences separate addresses\<close>

lemma coprime_step_inj:
  fixes m t a b :: int
  assumes "gcd m t = 1" and "(a * m + c) mod t = (b * m + c) mod t"
    and "0 \<le> a" and "a < t" and "0 \<le> b" and "b < t"
  shows "a = b"
proof -
  have "t dvd (a - b) * m"
    using assms(2) by (simp add: mod_eq_dvd_iff left_diff_distrib)
  moreover have "coprime t m"
    using assms(1) by (simp add: coprime_iff_gcd_eq_1 gcd.commute)
  ultimately have "t dvd a - b"
    by (simp add: coprime_dvd_mult_left_iff)
  then show "a = b"
    using assms(3-6) by (simp add: mod_eq_dvd_iff [symmetric])
qed

text \<open>
  Where the legacy recurrence is used, one step with a fixed token is a bijection on the
  rows: every row comes from exactly one previous address, so no step forgets the address.
\<close>

theorem token_step_bijective:
  assumes "token_uses_legacy t h = Inr True" and "0 \<le> b" and "b < t"
  shows "\<exists>!a. 0 \<le> a \<and> a < t \<and> token_address_step a tok t h = Inr b"
proof -
  from assms(1) have h: "0 \<le> h" and t: "0 < t" and g: "gcd (257 + 2 * h) t = 1"
    by (auto simp: addr_defs split: if_splits)
  let ?f = "\<lambda>a. (a * (257 + 2 * h) + tok) mod t"
  have inj: "inj_on ?f {0..<t}"
    by (rule inj_onI, rule coprime_step_inj [OF g, of _ tok]) auto
  have step: "token_address_step a tok t h = Inr b \<longleftrightarrow> ?f a = b" for a
    using t h g by (simp add: token_address_step_eq token_mix_def)
  have "?f ` {0..<t} \<subseteq> {0..<t}"
    using t by (simp add: image_subset_iff)
  then have "?f ` {0..<t} = {0..<t}"
    by (rule endo_inj_surj [OF finite_atLeastLessThan_int _ inj])
  with assms(2,3) have "b \<in> ?f ` {0..<t}"
    by simp
  then obtain a where a: "a \<in> {0..<t}" "?f a = b"
    by (rule imageE) (rule that, simp_all)
  show ?thesis
  proof (rule ex1I [of _ a])
    show "0 \<le> a \<and> a < t \<and> token_address_step a tok t h = Inr b"
      using a step by simp
    fix a' assume "0 \<le> a' \<and> a' < t \<and> token_address_step a' tok t h = Inr b"
    then show "a' = a"
      using a step coprime_step_inj [OF g, of a' tok a] by simp
  qed
qed

theorem token_step_bijective_witness:
  "\<exists>!a. 0 \<le> a \<and> a < 1024 \<and> token_address_step a 5 1024 3 = Inr 17"
  by (rule token_step_bijective) (simp_all add: addr_defs gcd_non_0_int)

section \<open>The byte hash before reduction\<close>

definition byte_fold :: "bytes \<Rightarrow> int" where
  "byte_fold v = foldl (\<lambda>r b. r * 257 + uint b + 1) 0 v"

lemma byte_fold_snoc: "byte_fold (v @ [b]) = byte_fold v * 257 + uint b + 1"
  by (simp add: byte_fold_def)

lemma byte_fold_Nil: "byte_fold [] = 0"
  by (simp add: byte_fold_def)

lemma byte_fold_nonneg: "0 \<le> byte_fold v"
  by (induction v rule: rev_induct) (simp_all add: byte_fold_Nil byte_fold_snoc)

lemma byte_fold_pos: "v \<noteq> [] \<Longrightarrow> 0 < byte_fold v"
  by (cases v rule: rev_cases) (use byte_fold_nonneg in \<open>auto simp: byte_fold_snoc add_nonneg_pos\<close>)

lemma hash_bytes_eq: "hash_bytes v = byte_fold v * 257"
  by (simp add: hash_bytes_def byte_fold_def LEGACY_BASE_def)

lemma uint8_lt: "uint (b :: 8 word) < 256"
  using uint_lt2p [of b] by simp

lemma base_257_digits:
  fixes r s :: int and b c :: "8 word"
  assumes "r * 257 + uint b + 1 = s * 257 + uint c + 1"
  shows "r = s \<and> b = c"
proof -
  have "uint b - uint c = (s - r) * 257"
    using assms by (simp add: algebra_simps)
  moreover have "\<bar>uint b - uint c\<bar> < 257"
    using uint8_lt [of b] uint8_lt [of c] uint_ge_0 [of b] uint_ge_0 [of c] by linarith
  ultimately have "s = r" by (auto simp: abs_mult)
  then show ?thesis using assms by (simp add: word_uint_eq_iff)
qed

lemma byte_fold_inj: "byte_fold v = byte_fold w \<Longrightarrow> v = w"
proof (induction v arbitrary: w rule: rev_induct)
  case Nil
  then show ?case using byte_fold_pos [of w] by (cases "w = []") (simp_all add: byte_fold_Nil)
next
  case (snoc b v)
  then have "w \<noteq> []" using byte_fold_pos [of "v @ [b]"] by (auto simp: byte_fold_Nil)
  then obtain u c where w: "w = u @ [c]" by (cases w rule: rev_cases) auto
  have "byte_fold v = byte_fold u \<and> b = c"
    by (rule base_257_digits) (use snoc.prems in \<open>simp only: w byte_fold_snoc\<close>)
  then show ?case using snoc.IH w by simp
qed

text \<open>
  Before the reduction to a table row the legacy byte hash is injective: different byte
  strings, of any lengths, have different hashes.
\<close>

theorem hash_bytes_injective: "hash_bytes v = hash_bytes w \<longleftrightarrow> v = w"
  using byte_fold_inj by (auto simp: hash_bytes_eq)

text \<open>
  At a table size that is a multiple of 257 the legacy hash would reach only the rows that
  are multiples of 257 (row 0 alone at size 257 itself, but not at size 514, where the byte
  string \<open>[0]\<close> would go to row 257), and the code never uses it there.
\<close>

theorem legacy_byte_rows_at_257_multiples:
  "(\<forall>v k. 257 dvd hash_bytes v mod (257 * k)) \<and> (\<forall>v. hash_bytes v mod 257 = 0)
   \<and> hash_bytes [0] mod 514 = 257
   \<and> (\<forall>k. byte_uses_legacy (257 * k) \<noteq> Inr True)"
proof (intro conjI allI)
  fix v and k :: int
  show "257 dvd hash_bytes v mod (257 * k)"
    by (simp add: hash_bytes_eq dvd_mod_iff)
  show "byte_uses_legacy (257 * k) \<noteq> Inr True"
    by (simp add: addr_defs)
qed (simp_all add: hash_bytes_eq byte_fold_def)

section \<open>Which configurations carry a marker\<close>

lemma token_scheme_eq:
  "0 < t \<Longrightarrow> 0 \<le> h \<Longrightarrow> token_scheme t h =
     Inr (if gcd (257 + 2 * h) t = 1 then TOKEN_SCHEME_V1 else TOKEN_SCHEME_V2)"
  by (simp add: addr_defs)

lemma heads_upto_iff: "h \<in> set (heads_upto n) \<longleftrightarrow> 0 \<le> h \<and> h < n"
  by (auto simp: heads_upto_def image_iff intro: bexI [of _ "nat h"])

lemma mapE_token_scheme:
  assumes "0 < t"
  shows "mapE (token_scheme t) (heads_upto n) =
    Inr (map (\<lambda>h. if gcd (257 + 2 * h) t = 1 then TOKEN_SCHEME_V1 else TOKEN_SCHEME_V2) (heads_upto n))"
  by (rule mapE_eq_Inr_map) (simp add: token_scheme_eq assms heads_upto_iff)

lemma mapE_const: "mapE (\<lambda>h. Inr c) xs = Inr (map (\<lambda>_. c) xs)"
  by (rule mapE_eq_Inr_map) simp

text \<open>
  The marker bound into a model's architecture identity is absent exactly when no address
  of the model's memory tables changed: every hash head of an n-gram memory, or the byte table
  of a byte or portable memory, still uses the legacy scheme.
\<close>

theorem ngram_identity_unchanged_iff:
  assumes "json_get model ''memory'' = Some (JStr ''ngram'')"
    and "json_get model ''memory_table_size'' = Some (JInt t)" and "0 < t"
    and "json_get model ''memory_hash_heads'' = Some (JInt n)"
  shows "memory_addressing_identity model = Inr None \<longleftrightarrow>
    (\<forall>h. 0 \<le> h \<and> h < max n 1 \<longrightarrow> token_uses_legacy t h = Inr True)"
proof -
  let ?new = "map (\<lambda>h. if gcd (257 + 2 * h) t = 1 then TOKEN_SCHEME_V1 else TOKEN_SCHEME_V2)
      (heads_upto (max n 1))"
  have "memory_addressing_identity model = Inr None \<longleftrightarrow>
      ?new = map (\<lambda>_. TOKEN_SCHEME_V1) (heads_upto (max n 1))"
    using assms by (simp add: memory_addressing_identity_def memory_schemes_def model_int_def
        Let_def mapE_token_scheme mapE_const)
  also have "\<dots> \<longleftrightarrow> (\<forall>h. 0 \<le> h \<and> h < max n 1 \<longrightarrow> gcd (257 + 2 * h) t = 1)"
    by (auto simp: heads_upto_iff)
  also have "\<dots> \<longleftrightarrow> (\<forall>h. 0 \<le> h \<and> h < max n 1 \<longrightarrow> token_uses_legacy t h = Inr True)"
    using assms(3) by (auto simp: addr_defs)
  finally show ?thesis .
qed

theorem ngram_identity_unchanged_iff_witness:
  "memory_addressing_identity (JObj [(''memory'', JStr ''ngram''),
      (''memory_table_size'', JInt 1024), (''memory_hash_heads'', JInt 2)]) = Inr None \<longleftrightarrow>
    (\<forall>h. 0 \<le> h \<and> h < max 2 1 \<longrightarrow> token_uses_legacy 1024 h = Inr True)"
  by (rule ngram_identity_unchanged_iff) (simp_all add: json_get_def)

section \<open>No overflow on int64 tensors\<close>

lemma word64_exact: "0 \<le> x \<Longrightarrow> x < 2 ^ 62 \<Longrightarrow> sint (word_of_int x :: 64 word) = x"
  by (simp add: sint_sbintrunc' signed_take_bit_int_eq_self)

lemma mult_lt_2_62:
  fixes a m :: int
  assumes "0 \<le> a" "a \<le> 2 ^ 31" "0 \<le> m" "m + 1 < 2 ^ 31 - 1"
    and "0 \<le> tok" "tok < 2 ^ 31"
  shows "a * m + tok + 1 < 2 ^ 62"
proof -
  have "a * m \<le> 2 ^ 31 * m" using assms by (intro mult_right_mono) auto
  moreover have "2 ^ 31 * m \<le> 2 ^ 31 * (2 ^ 31 - 3)" using assms by (intro mult_left_mono) auto
  ultimately show ?thesis using assms(6) by simp
qed

text \<open>
  The value both recurrences reduce is computed without overflow in signed 64-bit
  arithmetic: for table sizes and token ids below \<open>2^31\<close>, heads below \<open>2^28\<close> and a running
  address below \<open>2^31\<close>, the wrapped 64-bit product and sum equal the exact integers.
\<close>

theorem token_step_no_int64_overflow:
  assumes "0 \<le> a" and "a \<le> 2 ^ 31" and "0 \<le> h" and "h < 2 ^ 28" and "0 \<le> tok" and "tok < 2 ^ 31"
    and "token_multiplier h = Inr m"
  shows "sint (word_of_int a * word_of_int m + word_of_int tok :: 64 word) = a * m + tok
    \<and> sint (word_of_int a * word_of_int (MIX_MULTIPLIER + 2 * h) + word_of_int tok + 1 :: 64 word)
        = a * (MIX_MULTIPLIER + 2 * h) + tok + 1"
proof -
  from assms(3,7) have m: "m = 257 + 2 * h" by (simp add: token_multiplier_def LEGACY_BASE_def)
  have 1: "a * m + tok + 1 < 2 ^ 62"
    by (rule mult_lt_2_62) (use assms m in auto)
  have 2: "a * (MIX_MULTIPLIER + 2 * h) + tok + 1 < 2 ^ 62"
    by (rule mult_lt_2_62) (use assms in \<open>auto simp: MIX_MULTIPLIER_def\<close>)
  have 3: "0 \<le> a * m + tok" "0 \<le> a * (MIX_MULTIPLIER + 2 * h) + tok + 1"
    using assms m by (auto simp: MIX_MULTIPLIER_def)
  have "sint (word_of_int (a * m + tok) :: 64 word) = a * m + tok"
    by (rule word64_exact) (use 1 3 in auto)
  moreover have "sint (word_of_int (a * (MIX_MULTIPLIER + 2 * h) + tok + 1) :: 64 word)
      = a * (MIX_MULTIPLIER + 2 * h) + tok + 1"
    by (rule word64_exact) (use 2 3 in auto)
  ultimately show ?thesis by (simp only: of_int_add of_int_mult of_int_1)
qed

theorem token_step_no_int64_overflow_witness:
  "sint (word_of_int 2147483646 * word_of_int 263 + word_of_int 50256 :: 64 word)
     = 2147483646 * 263 + 50256
   \<and> sint (word_of_int 2147483646 * word_of_int (MIX_MULTIPLIER + 2 * 3) + word_of_int 50256 + 1 :: 64 word)
     = 2147483646 * (MIX_MULTIPLIER + 2 * 3) + 50256 + 1"
  by (rule token_step_no_int64_overflow) (simp_all add: token_multiplier_def LEGACY_BASE_def)

end
