(* ===== verification/Stage_History.thy ===== *)
theory Stage_History
  imports Lab_Interfaces Json
begin

text \<open>
  \<open>src/sparselab/training/stages.py\<close>: the append-only record of a run's stages. Completed
  intervals are kept in \<open>records\<close>, the active interval in \<open>current\<close>; \<open>start\<close> opens an
  interval if the transition table allows it, \<open>finish\<close> closes it. The wall-clock strings the
  code takes from \<open>datetime.now\<close> are arguments of the operations.
\<close>

section \<open>Definitions\<close>

datatype experiment_stage = CONFIGURED | INSPECTED | VALIDATED | SMOKE_TEST | WARMUP | TRAINING
  | EVALUATING | CHECKPOINTED | COMPLETE | FAILED | INTERRUPTED

record stage_record =
  stage :: experiment_stage
  status :: string
  started_at :: string
  finished_at :: "string option"
  step :: int
  tokens_seen :: int
  reason :: "string option"
  payload :: "json option"

record stage_history =
  records :: "stage_record list"
  current :: "stage_record option"

datatype stage_error = StillActive experiment_stage | CountersBackward
  | IllegalTransition "experiment_stage option" experiment_stage | CountersNegative
  | NoActiveStage | UnsupportedStatus string

text \<open>
  The class variable \<open>_next\<close>. A stage that is not a key (\<open>COMPLETE\<close>, \<open>FAILED\<close>,
  \<open>INTERRUPTED\<close>) gives \<open>None\<close>.
\<close>

fun next_stages :: "experiment_stage option \<Rightarrow> experiment_stage list option" where
  "next_stages None = Some [CONFIGURED]"
| "next_stages (Some CONFIGURED) = Some [INSPECTED]"
| "next_stages (Some INSPECTED) = Some [VALIDATED]"
| "next_stages (Some VALIDATED) = Some [SMOKE_TEST, TRAINING]"
| "next_stages (Some SMOKE_TEST) = Some [WARMUP, TRAINING]"
| "next_stages (Some WARMUP) = Some [TRAINING]"
| "next_stages (Some TRAINING) = Some [EVALUATING, CHECKPOINTED]"
| "next_stages (Some EVALUATING) = Some [CHECKPOINTED, TRAINING]"
| "next_stages (Some CHECKPOINTED) = Some [TRAINING, COMPLETE, INTERRUPTED]"
| "next_stages (Some s) = None"

definition new_history :: stage_history where
  "new_history = \<lparr>records = [], current = None\<rparr>"

definition last_record :: "stage_history \<Rightarrow> stage_record option" where
  "last_record h = (if records h = [] then None else Some (last (records h)))"

text \<open>The local variable \<open>allowed\<close> of \<open>start\<close>, after both restrictions.\<close>

definition allowed_stages :: "stage_record option \<Rightarrow> experiment_stage set" where
  "allowed_stages prev =
     (let previous = map_option stage prev;
          allowed = (case next_stages previous of None \<Rightarrow> {} | Some ss \<Rightarrow> set ss);
          allowed = (if next_stages previous \<noteq> None \<and> previous \<noteq> None
                     then allowed \<union> {FAILED, INTERRUPTED} else allowed)
      in case prev of
           None \<Rightarrow> allowed
         | Some r \<Rightarrow> if status r = ''failed'' then allowed \<inter> {FAILED}
                     else if status r = ''interrupted'' then allowed \<inter> {INTERRUPTED}
                     else allowed)"

definition start_stage :: "stage_history \<Rightarrow> experiment_stage \<Rightarrow> int \<Rightarrow> int \<Rightarrow> json option \<Rightarrow> string
    \<Rightarrow> stage_error + stage_history" where
  "start_stage h stg stp toks pay now =
     (case current h of
        Some r \<Rightarrow> Inl (StillActive (stage r))
      | None \<Rightarrow>
          let prev = last_record h in
          if (case prev of None \<Rightarrow> False | Some r \<Rightarrow> stp < step r \<or> toks < tokens_seen r)
          then Inl CountersBackward
          else if stg \<notin> allowed_stages prev then Inl (IllegalTransition (map_option stage prev) stg)
          else if stp < 0 \<or> toks < 0 then Inl CountersNegative
          else Inr (h\<lparr>current := Some \<lparr>stage = stg, status = ''running'', started_at = now,
                     finished_at = None, step = stp, tokens_seen = toks, reason = None,
                     payload = pay\<rparr>\<rparr>))"

definition finish_stage :: "stage_history \<Rightarrow> string \<Rightarrow> string option \<Rightarrow> int option \<Rightarrow> int option
    \<Rightarrow> json option \<Rightarrow> string \<Rightarrow> stage_error + stage_history" where
  "finish_stage h sta rea stp toks pay now =
     (case current h of
        None \<Rightarrow> Inl NoActiveStage
      | Some r \<Rightarrow>
          if sta \<notin> {''complete'', ''failed'', ''interrupted''} then Inl (UnsupportedStatus sta)
          else
            let final_step = (case stp of None \<Rightarrow> step r | Some n \<Rightarrow> n);
                final_tokens = (case toks of None \<Rightarrow> tokens_seen r | Some n \<Rightarrow> n)
            in if final_step < step r \<or> final_tokens < tokens_seen r then Inl CountersBackward
               else Inr \<lparr>records = records h @ [\<lparr>stage = stage r, status = sta,
                           started_at = started_at r, finished_at = Some now,
                           step = final_step, tokens_seen = final_tokens, reason = rea,
                           payload = (case pay of None \<Rightarrow> payload r | Some p \<Rightarrow> Some p)\<rparr>],
                         current = None\<rparr>)"

text \<open>One call on the history.\<close>

datatype stage_op =
    Start experiment_stage int int "json option" string
  | Finish string "string option" "int option" "int option" "json option" string

fun stage_step :: "stage_op \<Rightarrow> stage_history \<Rightarrow> stage_error + stage_history" where
  "stage_step (Start s n t p now) h = start_stage h s n t p now"
| "stage_step (Finish s r n t p now) h = finish_stage h s r n t p now"

section \<open>The invariant\<close>

text \<open>
  Two adjacent records: the later stage was allowed after the earlier record, and neither
  counter went back. The first record is \<open>CONFIGURED\<close>. The active interval, if any, stands in
  the same relation to the last record.
\<close>

definition follows :: "stage_record option \<Rightarrow> stage_record \<Rightarrow> bool" where
  "follows prev r \<longleftrightarrow> stage r \<in> allowed_stages prev \<and> 0 \<le> step r \<and> 0 \<le> tokens_seen r
     \<and> (case prev of None \<Rightarrow> True | Some p \<Rightarrow> step p \<le> step r \<and> tokens_seen p \<le> tokens_seen r)"

fun chain :: "stage_record option \<Rightarrow> stage_record list \<Rightarrow> bool" where
  "chain prev [] = True"
| "chain prev (r # rs) = (follows prev r \<and> chain (Some r) rs)"

definition closed_status :: "stage_record \<Rightarrow> bool" where
  "closed_status r \<longleftrightarrow> status r \<in> {''complete'', ''failed'', ''interrupted''}"

definition history_inv :: "stage_history \<Rightarrow> bool" where
  "history_inv h \<longleftrightarrow> chain None (records h) \<and> list_all closed_status (records h)
     \<and> (case current h of None \<Rightarrow> True | Some r \<Rightarrow> follows (last_record h) r \<and> status r = ''running'')"

lemma chain_snoc:
  "chain prev (rs @ [r]) \<longleftrightarrow>
     chain prev rs \<and> follows (if rs = [] then prev else Some (last rs)) r"
  by (induction rs arbitrary: prev) auto

lemma start_stage_Inr [inversions]:
  assumes "start_stage h stg stp toks pay now = Inr h'"
  obtains r where "current h = None" "h' = h\<lparr>current := Some r\<rparr>" "stage r = stg"
    "status r = ''running''" "follows (last_record h) r" "step r = stp" "tokens_seen r = toks"
  using assms by (fastforce simp: start_stage_def Let_def follows_def split: option.splits if_splits)

lemma finish_stage_Inr [inversions]:
  assumes "finish_stage h sta rea stp toks pay now = Inr h'"
  obtains r f where "current h = Some r" "h' = \<lparr>records = records h @ [f], current = None\<rparr>"
    "stage f = stage r" "closed_status f" "status f = sta" "step r \<le> step f" "tokens_seen r \<le> tokens_seen f"
  using assms by (fastforce simp: finish_stage_def Let_def closed_status_def split: option.splits if_splits)

lemma follows_finish:
  "follows prev r \<Longrightarrow> stage f = stage r \<Longrightarrow> step r \<le> step f \<Longrightarrow> tokens_seen r \<le> tokens_seen f
     \<Longrightarrow> follows prev f"
  by (auto simp: follows_def split: option.splits)

lemma stage_step_inv:
  assumes "history_inv h" and "stage_step op h = Inr h'"
  shows "history_inv h'"
proof (cases op)
  case (Start s n t p now)
  with assms show ?thesis
    by (auto simp: history_inv_def last_record_def elim!: start_stage_Inr)
next
  case (Finish s r n t p now)
  with assms(2) have "finish_stage h s r n t p now = Inr h'" by simp
  then show ?thesis
  proof (cases rule: finish_stage_Inr)
    case (1 r f)
    have "follows (last_record h) f"
      using assms(1) 1 by (auto simp: history_inv_def intro: follows_finish)
    then show ?thesis
      using assms(1) 1 by (simp add: history_inv_def chain_snoc last_record_def)
  qed
qed

lemma stage_step_log: "stage_step op h = Inr h' \<Longrightarrow> prefix (records h) (records h')"
  by (cases op) (auto elim!: start_stage_Inr finish_stage_Inr)

interpretation history: append_log stage_step history_inv "\<lambda>_. True" records
  by unfold_locales (auto intro: stage_step_inv stage_step_log)

lemma new_history_inv: "history_inv new_history"
  by (simp add: history_inv_def new_history_def)

lemma reached_inv: "history_inv (run_ops stage_step new_history ops)"
  by (rule history.run_inv [OF new_history_inv]) (simp add: list_all_iff)


section \<open>Properties of every recorded history\<close>

lemma chain_counters:
  "chain prev rs \<Longrightarrow>
     sorted (map step rs) \<and> sorted (map tokens_seen rs) \<and>
     (\<forall>r \<in> set rs. 0 \<le> step r \<and> 0 \<le> tokens_seen r) \<and>
     (case prev of None \<Rightarrow> True
      | Some p \<Rightarrow> \<forall>r \<in> set rs. step p \<le> step r \<and> tokens_seen p \<le> tokens_seen r)"
proof (induction rs arbitrary: prev)
  case Nil
  then show ?case by (simp split: option.splits)
next
  case (Cons r rs)
  then show ?case
    using Cons.IH [of "Some r"] by (fastforce simp: follows_def split: option.splits)
qed

text \<open>
  However the two operations are called, and whichever calls raise: recorded intervals are
  never changed or removed by later calls, their counters never go back, and every recorded
  interval is closed with one of the three statuses.
\<close>

theorem recorded_history_append_only:
  fixes ops more
  defines "h \<equiv> run_ops stage_step new_history ops"
  shows "prefix (records h) (records (run_ops stage_step h more))
    \<and> sorted (map step (records h)) \<and> sorted (map tokens_seen (records h))
    \<and> list_all closed_status (records h)"
proof -
  have "history_inv h" unfolding h_def by (rule reached_inv)
  then show ?thesis
    using history.run_log_grows [of h more] chain_counters [of None "records h"] by (auto simp: history_inv_def list_all_iff)
qed

definition terminal_stage :: "experiment_stage \<Rightarrow> bool" where
  "terminal_stage s \<longleftrightarrow> s \<in> {COMPLETE, FAILED, INTERRUPTED}"

lemma allowed_after_terminal:
  "terminal_stage (stage r) \<Longrightarrow> allowed_stages (Some r) = {}"
  by (auto simp: terminal_stage_def allowed_stages_def Let_def)

lemma stuck_after_terminal:
  assumes "current h = None" and "records h \<noteq> []" and "terminal_stage (stage (last (records h)))"
  shows "try_step stage_step h op = h"
proof -
  have "stage_step op h = Inl e \<Longrightarrow> ?thesis" for e
    by (simp add: try_step_def)
  moreover have "\<exists>e. stage_step op h = Inl e"
    using assms by (cases op) (auto simp: start_stage_def finish_stage_def last_record_def
        allowed_after_terminal Let_def)
  ultimately show ?thesis by blast
qed

text \<open>
  A run that has closed a \<open>COMPLETE\<close>, \<open>FAILED\<close> or \<open>INTERRUPTED\<close> interval is over: no
  sequence of calls changes the history any more.
\<close>

theorem terminal_history_frozen:
  assumes "current h = None" and "records h \<noteq> []" and "terminal_stage (stage (last (records h)))"
  shows "run_ops stage_step h ops = h"
  by (induction ops) (simp_all add: run_ops_Cons stuck_after_terminal [OF assms])

definition failed_history :: stage_history where
  "failed_history = run_ops stage_step new_history
     [Start CONFIGURED 0 0 None ''t0'', Finish ''failed'' None None None None ''t1'',
      Start FAILED 0 0 None ''t2'', Finish ''failed'' (Some ''oom'') None None None ''t3'']"

lemmas stage_eval = run_ops_Cons try_step_def start_stage_def finish_stage_def new_history_def
  last_record_def allowed_stages_def

theorem terminal_history_frozen_witness:
  "run_ops stage_step failed_history [Start TRAINING 5 5 None ''t4''] = failed_history
   \<and> length (records failed_history) = 2"
proof -
  have "current failed_history = None" "length (records failed_history) = 2"
    "terminal_stage (stage (last (records failed_history)))"
    by (simp_all add: failed_history_def stage_eval terminal_stage_def)
  moreover from this have "records failed_history \<noteq> []" by auto
  ultimately show ?thesis
    using terminal_history_frozen [of failed_history "[Start TRAINING 5 5 None ''t4'']"] by simp
qed

text \<open>
  What the stages of a chain that ends in a given stage must contain: by induction from the
  end, with one case per edge of the transition table.
\<close>

definition passed :: "stage_record list \<Rightarrow> experiment_stage \<Rightarrow> bool" where
  "passed rs s \<longleftrightarrow> (\<exists>r \<in> set rs. stage r = s \<and> status r = ''complete'')"

definition gate_inv :: "stage_record list \<Rightarrow> bool" where
  "gate_inv rs \<longleftrightarrow> (rs \<noteq> [] \<longrightarrow> (case stage (last rs) of
       CONFIGURED \<Rightarrow> length rs = 1
     | INSPECTED \<Rightarrow> passed rs CONFIGURED \<and> length rs = 2
     | VALIDATED \<Rightarrow> passed rs CONFIGURED \<and> passed rs INSPECTED \<and> length rs = 3
     | FAILED \<Rightarrow> True
     | INTERRUPTED \<Rightarrow> True
     | COMPLETE \<Rightarrow> passed rs CONFIGURED \<and> passed rs INSPECTED \<and> passed rs VALIDATED
         \<and> passed rs TRAINING \<and> passed rs CHECKPOINTED
     | s \<Rightarrow> passed rs CONFIGURED \<and> passed rs INSPECTED \<and> passed rs VALIDATED
         \<and> (s = EVALUATING \<or> s = CHECKPOINTED \<longrightarrow> passed rs TRAINING)))"

lemma passed_snoc: "passed rs s \<Longrightarrow> passed (rs @ [r]) s"
  by (auto simp: passed_def)

lemma passed_last: "rs \<noteq> [] \<Longrightarrow> status (last rs) = ''complete'' \<Longrightarrow> passed (rs @ [r]) (stage (last rs))"
  using last_in_set by (auto simp: passed_def)

lemma advancing_needs_complete:
  assumes "stage r \<in> allowed_stages (Some p)" and "closed_status p"
    and "stage r \<notin> {FAILED, INTERRUPTED}"
  shows "status p = ''complete'' \<and> stage r \<in> set (the (next_stages (Some (stage p))))
    \<and> next_stages (Some (stage p)) \<noteq> None"
  using assms by (auto simp: allowed_stages_def closed_status_def Let_def split: if_splits option.splits)

lemma gate_inv_snoc:
  assumes "gate_inv rs" and "follows (if rs = [] then None else Some (last rs)) r"
    and "list_all closed_status rs"
  shows "gate_inv (rs @ [r])"
proof (cases "rs = []")
  case True
  then show ?thesis
    using assms(2) by (auto simp: gate_inv_def follows_def allowed_stages_def Let_def)
next
  case False
  have closed: "closed_status (last rs)"
    using assms(3) False by (simp add: list_all_iff)
  have allowed: "stage r \<in> allowed_stages (Some (last rs))"
    using assms(2) False by (simp add: follows_def)
  show ?thesis
  proof (cases "stage r \<in> {FAILED, INTERRUPTED}")
    case True
    then show ?thesis by (auto simp: gate_inv_def)
  next
    case neither: False
    note adv = advancing_needs_complete [OF allowed closed neither]
    have "passed (rs @ [r]) (stage (last rs))"
      using passed_last [OF False] adv by blast
    then show ?thesis
      using assms(1) False adv
      by (cases "stage (last rs)") (auto simp: gate_inv_def intro: passed_snoc)
  qed
qed

lemma chain_gate: "chain None rs \<Longrightarrow> list_all closed_status rs \<Longrightarrow> gate_inv rs"
proof (induction rs rule: rev_induct)
  case Nil
  then show ?case by (simp add: gate_inv_def)
next
  case (snoc r rs)
  then show ?case by (auto simp: chain_snoc intro: gate_inv_snoc)
qed

text \<open>
  Completion is gated: a run whose last recorded interval is \<open>COMPLETE\<close> has, before it,
  recorded configuration, inspection, validation, training and a checkpoint, each closed with
  status \<open>complete\<close>.
\<close>

theorem completion_is_gated:
  assumes "h = run_ops stage_step new_history ops" and "records h \<noteq> []"
    and "stage (last (records h)) = COMPLETE"
  shows "\<forall>s \<in> {CONFIGURED, INSPECTED, VALIDATED, TRAINING, CHECKPOINTED}.
    \<exists>r \<in> set (records h). stage r = s \<and> status r = ''complete''"
proof -
  have "gate_inv (records h)"
    using reached_inv [of ops] assms(1) by (simp add: history_inv_def chain_gate)
  then show ?thesis
    using assms(2,3) by (simp add: gate_inv_def passed_def)
qed

definition complete_ops :: "stage_op list" where
  "complete_ops = concat (map (\<lambda>s. [Start s 3 9 None ''a'', Finish ''complete'' None None None None ''b''])
     [CONFIGURED, INSPECTED, VALIDATED, TRAINING, CHECKPOINTED, COMPLETE])"

theorem completion_is_gated_witness:
  "(\<exists>r \<in> set (records (run_ops stage_step new_history complete_ops)).
      stage r = TRAINING \<and> status r = ''complete'')
    \<and> (\<exists>r \<in> set (records (run_ops stage_step new_history complete_ops)).
      stage r = CHECKPOINTED \<and> status r = ''complete'')"
proof -
  have "\<forall>s \<in> {CONFIGURED, INSPECTED, VALIDATED, TRAINING, CHECKPOINTED}.
    \<exists>r \<in> set (records (run_ops stage_step new_history complete_ops)).
      stage r = s \<and> status r = ''complete''"
    by (rule completion_is_gated [OF refl]) (simp_all add: complete_ops_def stage_eval)
  then show ?thesis by blast
qed

end
