(* ===== verification/Attempt_Budget.thy ===== *)
theory Attempt_Budget
  imports Lab_Interfaces
begin

text \<open>
  \<open>src/sparselab/training/attempt_budget.py\<close>: the durable ledger that limits a bounded test
  attempt. A contract fixes four limits (optimizer updates, target positions, generation calls,
  generated tokens), a deadline and, optionally, limits on nontraining forward positions; work
  reserves its declared maximum before it starts and the charge is never refunded.

  The SQLite file is the record \<open>ledger\<close>: the one row of \<open>budget\<close>, the rows of
  \<open>reservations\<close>, and the rows of \<open>forward_reservations\<close> when that table exists. Each public
  operation runs in one \<open>BEGIN IMMEDIATE\<close> transaction under \<open>with connection\<close>, which commits
  on return and rolls back on an exception: an operation is a function into \<open>error + ledger\<close>.
  The columns are typed (\<open>int\<close>, \<open>string\<close>, optional for nullable ones), so the code's
  \<open>type(value) is int\<close> tests on them always hold.

  Outside the source are the hash, the contract parser (pydantic) and the contract file; they
  and the clock readings are arguments. A tuple of the four counters is the record
  \<open>counters\<close>; \<open>vec\<close> lists it in the order the code zips over.
\<close>

section \<open>The contract\<close>

text \<open>
  The fields of \<open>AttemptContract\<close>, in its order. \<open>max_wall_seconds\<close> is a positive float that the ledger only uses as
  whole nanoseconds, \<open>int(max_wall_seconds * 1_000_000_000)\<close>: the field holds this number, which may be zero for a tiny
  float, so that the rounding of the product stays outside the model. Of the Boolean fields the ledger reads the two on inspection and on the
  monitor; the others bind the callers.
\<close>

record attempt_contract =
  contract_version :: int
  max_optimizer_updates :: int
  max_actual_target_positions :: int
  max_generation_calls :: int
  max_generated_tokens :: int
  max_fixed_profile_forward_positions :: "int option"
  max_nontraining_forward_positions :: "int option"
  max_operational_validation_batches :: "int option"
  max_operational_validation_forward_positions :: "int option"
  max_wall_ns :: int \<comment> \<open>\<open>int(max_wall_seconds * 1_000_000_000)\<close>\<close>
  content_identity_sha256 :: string
  monitor_policy_sha256 :: string
  workspace_baseline_sha256 :: string
  acquisition_project_sha256 :: "string option"
  preparation_acquisition_identity_sha256 :: "string option"
  preparation_normalizer :: "string option"
  admission_lock_sha256 :: "string option"
  admission_policy_sha256 :: "string option"
  admission_selection_sha256 :: "string option"
  fixed_profile_sha256 :: "string option"
  fixed_family_inventory_sha256 :: "string option"
  preparation_monitor_policy_sha256 :: "string option"
  evaluation_monitor_policy_sha256 :: "string option"
  require_resolved_train_config_binding :: bool
  require_evaluation_baseline_binding :: bool
  require_release_acceptance_binding :: bool
  require_admission_inspection_binding :: bool
  require_preledger_monitor_binding :: bool
  offline_retained_sources_only :: bool
  preparation_only :: bool

datatype attempt_error =
    InvalidContractField | NormalizerNotPaired | IncompleteInspection | ForwardLimitsNotPaired
  | FixedLimitExceedsTotal | ValidationLimitsNotPaired | ValidationExceedsTotal
  | ContractUnreadable | ContractDigestMismatch | ContractChanged | IncompleteMonitorBinding
  | MonitorBindingRequired | MonitorBindingInvalid | ParentMissing | ClockRange | LedgerExists
  | LedgerSchemaDisagrees | InvalidForwardRows | ForwardTotalExceeds | UnsupportedVersion
  | InvalidOrExpired | InvalidCounters | StoredDigestMismatch | LimitsDisagree
  | DeadlineDisagrees | ReservationsDisagree | ClockBackwards | WallLimitReached
  | BadRequest | IdentityDiffers | DuplicateLabel | LimitReached nat | NoForwardAllocation
  | FixedForwardLimit | TotalForwardLimit | ValidationForwardLimit | ReservationMissing
  | ActualExceedsReservation | ActualDiffers | NoAttemptBinding | NoModelAllocation

fun nonneg_opt :: "int option \<Rightarrow> bool" where
  "nonneg_opt None = True"
| "nonneg_opt (Some n) = (0 \<le> n)"

fun sha_opt :: "string option \<Rightarrow> bool" where
  "sha_opt None = True"
| "sha_opt (Some s) = is_sha256 s"

text \<open>The field constraints and the two digest validators of \<open>AttemptContract\<close>.\<close>

definition valid_contract_fields :: "attempt_contract \<Rightarrow> bool" where
  "valid_contract_fields c \<longleftrightarrow>
     contract_version c = 1
     \<and> 0 \<le> max_optimizer_updates c \<and> 0 \<le> max_actual_target_positions c
     \<and> 0 \<le> max_generation_calls c \<and> 0 \<le> max_generated_tokens c
     \<and> nonneg_opt (max_fixed_profile_forward_positions c)
     \<and> nonneg_opt (max_nontraining_forward_positions c)
     \<and> nonneg_opt (max_operational_validation_batches c)
     \<and> nonneg_opt (max_operational_validation_forward_positions c)
     \<and> 0 \<le> max_wall_ns c
     \<and> is_sha256 (content_identity_sha256 c) \<and> is_sha256 (monitor_policy_sha256 c)
     \<and> is_sha256 (workspace_baseline_sha256 c)
     \<and> preparation_normalizer c \<in> {None, Some ''normalizer-structure-v2'', Some ''normalizer-structure-v3''}
     \<and> sha_opt (preparation_monitor_policy_sha256 c) \<and> sha_opt (evaluation_monitor_policy_sha256 c)
     \<and> sha_opt (acquisition_project_sha256 c) \<and> sha_opt (preparation_acquisition_identity_sha256 c)
     \<and> sha_opt (admission_lock_sha256 c) \<and> sha_opt (admission_policy_sha256 c)
     \<and> sha_opt (admission_selection_sha256 c) \<and> sha_opt (fixed_profile_sha256 c)
     \<and> sha_opt (fixed_family_inventory_sha256 c)"

definition complete_forward_limits :: "attempt_contract \<Rightarrow> attempt_error + attempt_contract" where
  "complete_forward_limits c =
     (let fixed = max_fixed_profile_forward_positions c;
          total = max_nontraining_forward_positions c;
          batches = max_operational_validation_batches c;
          validation = max_operational_validation_forward_positions c
      in if (preparation_acquisition_identity_sha256 c = None) \<noteq> (preparation_normalizer c = None)
         then Inl NormalizerNotPaired
         else if require_admission_inspection_binding c
           \<and> (admission_lock_sha256 c = None \<or> admission_policy_sha256 c = None
              \<or> admission_selection_sha256 c = None \<or> preparation_normalizer c = None)
         then Inl IncompleteInspection
         else if (fixed = None) \<noteq> (total = None) then Inl ForwardLimitsNotPaired
         else if (case (fixed, total) of (Some f, Some t) \<Rightarrow> f > t | _ \<Rightarrow> False)
         then Inl FixedLimitExceedsTotal
         else if (batches = None) \<noteq> (validation = None) then Inl ValidationLimitsNotPaired
         else if (case validation of None \<Rightarrow> False
                  | Some v \<Rightarrow> (case total of None \<Rightarrow> True | Some t \<Rightarrow> v > t))
         then Inl ValidationExceedsTotal
         else Inr c)"

definition validate_contract :: "attempt_contract \<Rightarrow> attempt_error + attempt_contract" where
  "validate_contract c =
     (if valid_contract_fields c then complete_forward_limits c else Inl InvalidContractField)"

text \<open>
  The world outside the ledger: SHA-256, the JSON decoding of a contract (before validation)
  and the readable absolute regular file behind a path.
\<close>

record attempt_env =
  sha256_hex :: "string \<Rightarrow> string"
  decode_contract :: "string \<Rightarrow> attempt_contract option"
  contract_file :: "string \<Rightarrow> string option"

definition model_validate_json :: "attempt_env \<Rightarrow> string \<Rightarrow> attempt_error + attempt_contract" where
  "model_validate_json env raw =
     (case decode_contract env raw of None \<Rightarrow> Inl InvalidContractField
      | Some c \<Rightarrow> validate_contract c)"

definition load_attempt_contract ::
    "attempt_env \<Rightarrow> string \<Rightarrow> string \<Rightarrow> attempt_error + attempt_contract" where
  "load_attempt_contract env path expected =
     (case contract_file env path of None \<Rightarrow> Inl ContractUnreadable
      | Some raw \<Rightarrow>
          if sha256_hex env raw \<noteq> expected then Inl ContractDigestMismatch
          else model_validate_json env raw)"

section \<open>The ledger\<close>

record budget_row =
  b_version :: int
  max_updates :: int
  used_updates :: int
  started_ns :: int
  deadline_ns :: int
  last_checked_ns :: int
  max_targets :: int
  used_targets :: int
  max_calls :: int
  used_calls :: int
  max_tokens :: int
  used_tokens :: int
  contract_path :: string
  contract_sha256 :: string
  contract_json :: string

record counters =
  n_updates :: int
  n_targets :: int
  n_calls :: int
  n_tokens :: int

record reservation =
  r_label :: string
  r_amounts :: counters
  r_identity :: string
  r_reserved_ns :: int
  r_actual :: "counters option" \<comment> \<open>the four \<open>actual_*\<close> columns, always written together\<close>
  r_completed_ns :: "int option"

record forward_row =
  f_label :: string
  f_kind :: string
  f_positions :: int
  f_identity :: string
  f_reserved_ns :: int

record ledger =
  budget :: "budget_row option"
  reservations :: "reservation list"
  forward_table :: "forward_row list option"

definition vec :: "counters \<Rightarrow> int list" where
  "vec c = [n_updates c, n_targets c, n_calls c, n_tokens c]"

definition maximum :: "budget_row \<Rightarrow> counters" where
  "maximum b = \<lparr>n_updates = max_updates b, n_targets = max_targets b, n_calls = max_calls b,
     n_tokens = max_tokens b\<rparr>"

definition used :: "budget_row \<Rightarrow> counters" where
  "used b = \<lparr>n_updates = used_updates b, n_targets = used_targets b, n_calls = used_calls b,
     n_tokens = used_tokens b\<rparr>"

definition contract_limits :: "attempt_contract \<Rightarrow> counters" where
  "contract_limits c = \<lparr>n_updates = max_optimizer_updates c,
     n_targets = max_actual_target_positions c, n_calls = max_generation_calls c,
     n_tokens = max_generated_tokens c\<rparr>"

text \<open>\<open>SELECT COALESCE(SUM(updates), 0), ... FROM reservations\<close>\<close>

definition charges :: "reservation list \<Rightarrow> counters" where
  "charges rs = \<lparr>n_updates = (\<Sum>r\<leftarrow>rs. n_updates (r_amounts r)),
     n_targets = (\<Sum>r\<leftarrow>rs. n_targets (r_amounts r)),
     n_calls = (\<Sum>r\<leftarrow>rs. n_calls (r_amounts r)),
     n_tokens = (\<Sum>r\<leftarrow>rs. n_tokens (r_amounts r))\<rparr>"

definition nonneg :: "counters \<Rightarrow> bool" where
  "nonneg c \<longleftrightarrow> list_all (\<lambda>n. 0 \<le> n) (vec c)"

definition within_counters :: "counters \<Rightarrow> counters \<Rightarrow> bool" where
  "within_counters a b \<longleftrightarrow> list_all (\<lambda>(x, y). 0 \<le> x \<and> x \<le> y) (zip (vec a) (vec b))"

definition add_counters :: "counters \<Rightarrow> counters \<Rightarrow> counters" where
  "add_counters a b = \<lparr>n_updates = n_updates a + n_updates b, n_targets = n_targets a + n_targets b,
     n_calls = n_calls a + n_calls b, n_tokens = n_tokens a + n_tokens b\<rparr>"

definition sub_counters :: "counters \<Rightarrow> counters \<Rightarrow> counters" where
  "sub_counters a b = \<lparr>n_updates = n_updates a - n_updates b, n_targets = n_targets a - n_targets b,
     n_calls = n_calls a - n_calls b, n_tokens = n_tokens a - n_tokens b\<rparr>"

section \<open>Verification of the ledger\<close>

text \<open>
  \<open>_forward_state\<close>: the totals of the forward table, or \<open>None\<close> when the contract has no
  forward allocation.
\<close>

definition forward_kinds :: "string list" where
  "forward_kinds = [''fixed_profile'', ''operational_validation'', ''generation'']"

definition forward_row_ok :: "attempt_contract \<Rightarrow> forward_row \<Rightarrow> bool" where
  "forward_row_ok c r \<longleftrightarrow> \<not> blank (f_label r) \<and> f_kind r \<in> set forward_kinds \<and> 0 < f_positions r
     \<and> f_identity r = content_identity_sha256 c \<and> 0 < f_reserved_ns r"

definition forward_sum :: "forward_row list \<Rightarrow> string option \<Rightarrow> int" where
  "forward_sum rows kind =
     (\<Sum>r\<leftarrow>filter (\<lambda>r. kind = None \<or> kind = Some (f_kind r)) rows. f_positions r)"

definition forward_count :: "forward_row list \<Rightarrow> string \<Rightarrow> int" where
  "forward_count rows kind = int (length (filter (\<lambda>r. f_kind r = kind) rows))"

fun exceeds :: "int \<Rightarrow> int option \<Rightarrow> bool" where
  "exceeds n None = False"
| "exceeds n (Some limit) = (n > limit)"

definition forward_state ::
    "ledger \<Rightarrow> attempt_contract \<Rightarrow> attempt_error + (int \<times> int \<times> int \<times> int) option" where
  "forward_state L c =
     (let enabled = max_nontraining_forward_positions c \<noteq> None
      in if (forward_table L \<noteq> None) \<noteq> enabled then Inl LedgerSchemaDisagrees
         else case forward_table L of
           None \<Rightarrow> Inr None
         | Some rows \<Rightarrow>
             if \<not> list_all (forward_row_ok c) rows \<or> \<not> distinct (map f_label rows)
             then Inl InvalidForwardRows
             else
               let fixed = forward_sum rows (Some ''fixed_profile'');
                   total = forward_sum rows None;
                   batches = forward_count rows ''operational_validation'';
                   validation = forward_sum rows (Some ''operational_validation'')
               in if max_fixed_profile_forward_positions c = None
                    \<or> exceeds fixed (max_fixed_profile_forward_positions c)
                    \<or> exceeds total (max_nontraining_forward_positions c)
                    \<or> exceeds batches (max_operational_validation_batches c)
                    \<or> exceeds validation (max_operational_validation_forward_positions c)
                  then Inl ForwardTotalExceeds
                  else Inr (Some (fixed, total, batches, validation)))"

definition check_version :: "ledger \<Rightarrow> attempt_error + unit" where
  "check_version L = (case budget L of
       None \<Rightarrow> Inl UnsupportedVersion
     | Some b \<Rightarrow> if b_version b \<noteq> 2 then Inl UnsupportedVersion else Inr ())"

definition reservation_ok :: "attempt_contract \<Rightarrow> reservation \<Rightarrow> bool" where
  "reservation_ok c r \<longleftrightarrow> nonneg (r_amounts r) \<and> r_identity r = content_identity_sha256 c
     \<and> (case r_actual r of
          None \<Rightarrow> r_completed_ns r = None
        | Some a \<Rightarrow> within_counters a (r_amounts r) \<and> r_completed_ns r \<noteq> None)"

text \<open>\<open>_row_v2\<close>: the whole consistency check, with the code's order of tests.\<close>

definition row_v2 ::
    "attempt_env \<Rightarrow> ledger \<Rightarrow> attempt_error + attempt_contract \<times> budget_row" where
  "row_v2 env L =
     (case budget L of
        None \<Rightarrow> Inl InvalidOrExpired
      | Some b \<Rightarrow>
          if b_version b \<noteq> 2 \<or> deadline_ns b \<le> last_checked_ns b then Inl InvalidOrExpired
          else if \<not> nonneg (maximum b) \<or> \<not> within_counters (used b) (maximum b)
          then Inl InvalidCounters
          else if sha256_hex env (contract_json b) \<noteq> contract_sha256 b then Inl StoredDigestMismatch
          else
            bindE (model_validate_json env (contract_json b)) (\<lambda>c.
            bindE (load_attempt_contract env (contract_path b) (contract_sha256 b)) (\<lambda>c'.
              if c' \<noteq> c then Inl ContractChanged
              else if maximum b \<noteq> contract_limits c then Inl LimitsDisagree
              else if deadline_ns b - started_ns b \<noteq> max_wall_ns c then Inl DeadlineDisagrees
              else if charges (reservations L) \<noteq> used b
                   \<or> \<not> list_all (reservation_ok c) (reservations L)
              then Inl ReservationsDisagree
              else bindE (forward_state L c) (\<lambda>_. Inr (c, b)))))"

text \<open>\<open>_check_v2\<close>: the same, plus the clock; it records the reading.\<close>

definition check_v2 ::
    "attempt_env \<Rightarrow> int \<Rightarrow> ledger \<Rightarrow> attempt_error + attempt_contract \<times> budget_row \<times> int \<times> ledger" where
  "check_v2 env now_ns L =
     bindE (row_v2 env L) (\<lambda>(c, b).
       if now_ns < last_checked_ns b then Inl ClockBackwards
       else if now_ns \<ge> deadline_ns b then Inl WallLimitReached
       else Inr (c, b, deadline_ns b - now_ns, L\<lparr>budget := Some (b\<lparr>last_checked_ns := now_ns\<rparr>)\<rparr>))"

definition remaining_ns :: "attempt_env \<Rightarrow> int \<Rightarrow> ledger \<Rightarrow> attempt_error + int \<times> ledger" where
  "remaining_ns env now_ns L =
     bindE (check_version L) (\<lambda>_.
     bindE (check_v2 env now_ns L) (\<lambda>(c, b, remaining, L'). Inr (remaining, L')))"


section \<open>Operations\<close>

text \<open>
  The first counter whose charge would pass its limit, in the order of the code's zip; the
  error carries its position.
\<close>

fun first_exceeding :: "nat \<Rightarrow> (int \<times> int \<times> int) list \<Rightarrow> nat option" where
  "first_exceeding i [] = None"
| "first_exceeding i ((amount, charged, limit) # rest) =
     (if charged + amount > limit then Some i else first_exceeding (Suc i) rest)"

definition set_used :: "budget_row \<Rightarrow> counters \<Rightarrow> budget_row" where
  "set_used b u = b\<lparr>used_updates := n_updates u, used_targets := n_targets u,
     used_calls := n_calls u, used_tokens := n_tokens u\<rparr>"

definition reserve_vector :: "attempt_env \<Rightarrow> int \<Rightarrow> int \<Rightarrow> string \<Rightarrow> counters \<Rightarrow> string \<Rightarrow> ledger
    \<Rightarrow> attempt_error + counters \<times> ledger" where
  "reserve_vector env now_ns reserved_at label requested identity L =
     (if blank label \<or> \<not> nonneg requested then Inl BadRequest
      else
        bindE (check_version L) (\<lambda>_.
        bindE (check_v2 env now_ns L) (\<lambda>(c, b, _, L').
          if identity \<noteq> content_identity_sha256 c then Inl IdentityDiffers
          else if label \<in> r_label ` set (reservations L') then Inl DuplicateLabel
          else case first_exceeding 0 (zip (vec requested) (zip (vec (used b)) (vec (maximum b)))) of
            Some i \<Rightarrow> Inl (LimitReached i)
          | None \<Rightarrow>
              let next_used = add_counters (used b) requested
              in Inr (sub_counters (maximum b) next_used,
                   L'\<lparr>budget := map_option (\<lambda>b'. set_used b' next_used) (budget L'),
                      reservations := reservations L' @
                        [\<lparr>r_label = label, r_amounts = requested, r_identity = identity,
                          r_reserved_ns = reserved_at, r_actual = None, r_completed_ns = None\<rparr>]\<rparr>))))"

definition reserve_forward_positions :: "attempt_env \<Rightarrow> int \<Rightarrow> int \<Rightarrow> string \<Rightarrow> string \<Rightarrow> int \<Rightarrow> string
    \<Rightarrow> ledger \<Rightarrow> attempt_error + (int \<times> int) \<times> ledger" where
  "reserve_forward_positions env now_ns reserved_at label kind positions identity L =
     (if blank label \<or> kind \<notin> set forward_kinds \<or> positions \<le> 0 then Inl BadRequest
      else
        bindE (check_version L) (\<lambda>_.
        bindE (check_v2 env now_ns L) (\<lambda>(c, _, _, L').
          if identity \<noteq> content_identity_sha256 c then Inl IdentityDiffers
          else bindE (forward_state L' c) (\<lambda>state.
            case (state, forward_table L', max_fixed_profile_forward_positions c,
                  max_nontraining_forward_positions c) of
              (Some (fixed, total_pos, batches, validation), Some rows, Some fixed_limit, Some total_limit) \<Rightarrow>
                if label \<in> f_label ` set rows then Inl DuplicateLabel
                else
                  let next_fixed = fixed + (if kind = ''fixed_profile'' then positions else 0);
                      next_total = total_pos + positions
                  in if next_fixed > fixed_limit then Inl FixedForwardLimit
                     else if next_total > total_limit then Inl TotalForwardLimit
                     else if kind = ''operational_validation''
                       \<and> (exceeds (batches + 1) (max_operational_validation_batches c)
                          \<or> exceeds (validation + positions)
                               (max_operational_validation_forward_positions c))
                     then Inl ValidationForwardLimit
                     else Inr ((fixed_limit - next_fixed, total_limit - next_total),
                            L'\<lparr>forward_table := Some (rows @
                              [\<lparr>f_label = label, f_kind = kind, f_positions = positions,
                                f_identity = identity, f_reserved_ns = reserved_at\<rparr>])\<rparr>)
            | _ \<Rightarrow> Inl NoForwardAllocation))))"

fun replace_first :: "('a \<Rightarrow> bool) \<Rightarrow> ('a \<Rightarrow> 'a) \<Rightarrow> 'a list \<Rightarrow> 'a list" where
  "replace_first P f [] = []"
| "replace_first P f (x # xs) = (if P x then f x # xs else x # replace_first P f xs)"

text \<open>\<open>_record_verified_actual\<close>: labels are unique, so \<open>WHERE label = ?\<close> is one row.\<close>

definition record_verified_actual :: "attempt_env \<Rightarrow> int \<Rightarrow> int \<Rightarrow> string \<Rightarrow> counters \<Rightarrow> string \<Rightarrow> ledger
    \<Rightarrow> attempt_error + ledger" where
  "record_verified_actual env now_ns completed_at label actual identity L =
     (if blank label \<or> \<not> nonneg actual then Inl BadRequest
      else
        bindE (check_version L) (\<lambda>_.
        bindE (check_v2 env now_ns L) (\<lambda>(c, _, _, L').
          if identity \<noteq> content_identity_sha256 c then Inl IdentityDiffers
          else case find (\<lambda>r. r_label r = label) (reservations L') of
            None \<Rightarrow> Inl ReservationMissing
          | Some r \<Rightarrow>
              if list_ex (\<lambda>(observed, reserved). observed > reserved)
                   (zip (vec actual) (vec (r_amounts r))) then Inl ActualExceedsReservation
              else case r_actual r of
                Some a \<Rightarrow> if a \<noteq> actual then Inl ActualDiffers else Inr L'
              | None \<Rightarrow> Inr (L'\<lparr>reservations := replace_first (\<lambda>r. r_label r = label)
                    (\<lambda>r. r\<lparr>r_actual := Some actual, r_completed_ns := Some completed_at\<rparr>)
                    (reservations L')\<rparr>))))"

text \<open>
  \<open>reserve_generation_from_environment\<close>: two transactions. When the second one raises, the
  first stays committed. An unset or empty environment variable is \<open>[]\<close>.
\<close>

definition reserve_generation :: "attempt_env \<Rightarrow> int \<Rightarrow> int \<Rightarrow> string \<Rightarrow> string \<Rightarrow> string \<Rightarrow> string \<Rightarrow> int
    \<Rightarrow> int \<Rightarrow> ledger \<Rightarrow> (attempt_error + int \<times> int) \<times> ledger" where
  "reserve_generation env now1 now2 path identity phase label requested_tokens forward_positions L =
     (if path = [] \<or> identity = [] \<or> phase = [] then (Inl NoAttemptBinding, L)
      else case reserve_vector env now1 now1 (phase @ '':'' @ label @ '':request'')
             \<lparr>n_updates = 0, n_targets = 0, n_calls = 1, n_tokens = requested_tokens\<rparr> identity L of
        Inl e \<Rightarrow> (Inl e, L)
      | Inr (_, L1) \<Rightarrow>
          (case reserve_forward_positions env now2 now2 (phase @ '':'' @ label @ '':input'')
             ''generation'' forward_positions identity L1 of
             Inl e \<Rightarrow> (Inl e, L1)
           | Inr (left, L2) \<Rightarrow> (Inr left, L2)))"

text \<open>
  \<open>require_fixed_evaluation_allocation_from_environment\<close>: the admission test before a model
  is loaded. The four environment values are the ledger path, the content identity, the phase
  label and the activity. The clock reading is committed before the comparison, so it stays
  recorded when the comparison raises.
\<close>

definition require_fixed_evaluation_allocation :: "attempt_env \<Rightarrow> int \<Rightarrow> string \<Rightarrow> string \<Rightarrow> string
    \<Rightarrow> string \<Rightarrow> int \<Rightarrow> int \<Rightarrow> int \<Rightarrow> int \<Rightarrow> ledger \<Rightarrow> (attempt_error + unit) \<times> ledger" where
  "require_fixed_evaluation_allocation env now_ns path identity phase activity
       fixed_positions total_positions calls tokens L =
     (if path = [] \<and> identity = [] \<and> phase = [] \<and> activity = [] then (Inr (), L)
      else if path = [] \<or> identity = [] \<or> phase = [] \<or> activity \<noteq> ''evaluate''
      then (Inl NoAttemptBinding, L)
      else
        case bindE (check_v2 env now_ns L) (\<lambda>(c, b, _, L').
             bindE (forward_state L' c) (\<lambda>forward. Inr (c, b, forward, L'))) of
          Inl e \<Rightarrow> (Inl e, L)
        | Inr (c, b, forward, L') \<Rightarrow>
            (case (forward, max_fixed_profile_forward_positions c, max_nontraining_forward_positions c) of
               (Some (fixed, total_pos, _, _), Some fixed_limit, Some total_limit) \<Rightarrow>
                 if identity \<noteq> content_identity_sha256 c
                    \<or> \<not> list_ex (\<lambda>r. r_label r = phase \<and> r_actual r = None) (reservations L')
                    \<or> fixed + fixed_positions > fixed_limit
                    \<or> total_pos + total_positions > total_limit
                    \<or> used_calls b + calls > max_generation_calls c
                    \<or> used_tokens b + tokens > max_generated_tokens c
                 then (Inl NoModelAllocation, L')
                 else (Inr (), L')
             | _ \<Rightarrow> (Inl NoModelAllocation, L')))"

text \<open>
  \<open>create_contract\<close>. \<open>monitor\<close> is the pre-ledger monitor binding: \<open>None\<close> when no path was
  provided, \<open>Some None\<close> when only some were, \<open>Some (Some r)\<close> with the result \<open>r\<close> of
  \<open>validate_contract_monitor_inputs\<close> otherwise. The exclusive creation fails when the path
  already exists.
\<close>

definition create_contract :: "attempt_env \<Rightarrow> int \<Rightarrow> string \<Rightarrow> string \<Rightarrow> bool option option \<Rightarrow> bool \<Rightarrow> bool
    \<Rightarrow> attempt_error + ledger" where
  "create_contract env now_ns path expected monitor parent_is_dir ledger_exists =
     bindE (load_attempt_contract env path expected) (\<lambda>c.
       if (case monitor of None \<Rightarrow> False | Some m \<Rightarrow> m = None) then Inl IncompleteMonitorBinding
       else if monitor = Some (Some False) then Inl MonitorBindingInvalid
       else if monitor = None \<and> require_preledger_monitor_binding c then Inl MonitorBindingRequired
       else case contract_file env path of
         None \<Rightarrow> Inl ContractUnreadable
       | Some raw \<Rightarrow>
           if sha256_hex env raw \<noteq> expected then Inl ContractChanged
           else if \<not> parent_is_dir then Inl ParentMissing
           else
             let deadline = now_ns + max_wall_ns c
             in if deadline \<le> now_ns \<or> deadline > 2 ^ 63 - 1 then Inl ClockRange
                else if ledger_exists then Inl LedgerExists
                else Inr \<lparr>budget = Some \<lparr>b_version = 2,
                      max_updates = max_optimizer_updates c, used_updates = 0,
                      started_ns = now_ns, deadline_ns = deadline, last_checked_ns = now_ns,
                      max_targets = max_actual_target_positions c, used_targets = 0,
                      max_calls = max_generation_calls c, used_calls = 0,
                      max_tokens = max_generated_tokens c, used_tokens = 0,
                      contract_path = path, contract_sha256 = expected, contract_json = raw\<rparr>,
                    reservations = [],
                    forward_table = (if max_nontraining_forward_positions c \<noteq> None
                                     then Some [] else None)\<rparr>)"


section \<open>What a verified ledger is\<close>

definition contract_of :: "attempt_env \<Rightarrow> budget_row \<Rightarrow> attempt_contract \<Rightarrow> bool" where
  "contract_of env b c \<longleftrightarrow> sha256_hex env (contract_json b) = contract_sha256 b
     \<and> model_validate_json env (contract_json b) = Inr c
     \<and> load_attempt_contract env (contract_path b) (contract_sha256 b) = Inr c"

lemma row_v2_Inr [inversions]:
  "row_v2 env L = Inr (c, b) \<longleftrightarrow>
     budget L = Some b \<and> b_version b = 2 \<and> last_checked_ns b < deadline_ns b
     \<and> nonneg (maximum b) \<and> within_counters (used b) (maximum b) \<and> contract_of env b c
     \<and> maximum b = contract_limits c \<and> deadline_ns b - started_ns b = max_wall_ns c
     \<and> charges (reservations L) = used b \<and> list_all (reservation_ok c) (reservations L)
     \<and> (\<exists>f. forward_state L c = Inr f)"
  by (cases "budget L") (auto simp: row_v2_def contract_of_def)

lemma contract_of_update [simp]:
  "contract_of env (b\<lparr>last_checked_ns := t\<rparr>) c = contract_of env b c"
  "contract_of env (set_used b u) c = contract_of env b c"
  by (simp_all add: contract_of_def set_used_def)

lemma forward_state_update [simp]:
  "forward_state (L\<lparr>budget := x\<rparr>) c = forward_state L c"
  "forward_state (L\<lparr>reservations := rs\<rparr>) c = forward_state L c"
  by (cases L; simp only: forward_state_def ledger.select_convs ledger.update_convs)+

lemma row_update [simp]:
  "maximum (b\<lparr>last_checked_ns := t\<rparr>) = maximum b" "used (b\<lparr>last_checked_ns := t\<rparr>) = used b"
  "maximum (set_used b u) = maximum b" "used (set_used b u) = u"
  "last_checked_ns (set_used b u) = last_checked_ns b" "deadline_ns (set_used b u) = deadline_ns b"
  "started_ns (set_used b u) = started_ns b" "b_version (set_used b u) = b_version b"
  by (simp_all add: maximum_def used_def set_used_def)

lemma check_v2_Inr [inversions]:
  "check_v2 env now_ns L = Inr (c, b, rest, L') \<longleftrightarrow>
     row_v2 env L = Inr (c, b) \<and> last_checked_ns b \<le> now_ns \<and> now_ns < deadline_ns b
     \<and> rest = deadline_ns b - now_ns \<and> L' = L\<lparr>budget := Some (b\<lparr>last_checked_ns := now_ns\<rparr>)\<rparr>"
  by (cases "row_v2 env L") (auto simp: check_v2_def split: if_splits)

definition valid_ledger :: "attempt_env \<Rightarrow> ledger \<Rightarrow> bool" where
  "valid_ledger env L \<longleftrightarrow> (\<exists>c b. row_v2 env L = Inr (c, b)) \<and> distinct (map r_label (reservations L))"

lemmas counter_simps = vec_def nonneg_def within_counters_def add_counters_def sub_counters_def
  maximum_def used_def charges_def contract_limits_def set_used_def

lemma row_v2_clock:
  assumes "row_v2 env L = Inr (c, b)" and "now_ns < deadline_ns b"
  shows "row_v2 env (L\<lparr>budget := Some (b\<lparr>last_checked_ns := now_ns\<rparr>)\<rparr>)
    = Inr (c, b\<lparr>last_checked_ns := now_ns\<rparr>)"
  using assms by (auto simp: row_v2_Inr)

lemma valid_after_check:
  assumes "valid_ledger env L" and "check_v2 env now_ns L = Inr (c, b, rest, L')"
  shows "valid_ledger env L'"
  using assms row_v2_clock by (fastforce simp: check_v2_Inr valid_ledger_def)

lemma first_exceeding_None:
  "first_exceeding i xs = None \<longleftrightarrow> list_all (\<lambda>(amount, charged, limit). charged + amount \<le> limit) xs"
  by (induction i xs rule: first_exceeding.induct) auto

section \<open>Reservations\<close>

definition new_reservation :: "string \<Rightarrow> counters \<Rightarrow> string \<Rightarrow> int \<Rightarrow> reservation" where
  "new_reservation label amounts identity at = \<lparr>r_label = label, r_amounts = amounts,
     r_identity = identity, r_reserved_ns = at, r_actual = None, r_completed_ns = None\<rparr>"

lemma reserve_vector_Inr [inversions]:
  "reserve_vector env now_ns at label req identity L = Inr (left, L') \<longleftrightarrow>
     (\<exists>c b. row_v2 env L = Inr (c, b) \<and> last_checked_ns b \<le> now_ns \<and> now_ns < deadline_ns b
       \<and> \<not> blank label \<and> nonneg req \<and> identity = content_identity_sha256 c
       \<and> label \<notin> r_label ` set (reservations L)
       \<and> within_counters (add_counters (used b) req) (maximum b)
       \<and> left = sub_counters (maximum b) (add_counters (used b) req)
       \<and> L' = L\<lparr>budget := Some (set_used (b\<lparr>last_checked_ns := now_ns\<rparr>) (add_counters (used b) req)),
               reservations := reservations L @ [new_reservation label req identity at]\<rparr>)"
proof (cases "blank label \<or> \<not> nonneg req")
  case True
  then show ?thesis by (auto simp: reserve_vector_def)
next
  case ok: False
  show ?thesis
  proof (cases "row_v2 env L")
    case (Inl e)
    then show ?thesis by (auto simp: reserve_vector_def check_v2_def)
  next
    case (Inr cb)
    then obtain c b where row: "row_v2 env L = Inr (c, b)" by (cases cb) auto
    then have version: "check_version L = Inr ()"
      by (auto simp: row_v2_Inr check_version_def)
    have fits: "first_exceeding 0 (zip (vec req) (zip (vec (used b)) (vec (maximum b)))) = None \<longleftrightarrow>
        within_counters (add_counters (used b) req) (maximum b)"
      using ok row by (auto simp: first_exceeding_None row_v2_Inr counter_simps)
    show ?thesis
      using ok fits by (auto simp: reserve_vector_def version check_v2_def row new_reservation_def Let_def
          split: option.splits)
  qed
qed


lemma charges_snoc: "charges (rs @ [r]) = add_counters (charges rs) (r_amounts r)"
  by (simp add: charges_def add_counters_def)

lemma forward_sum_snoc:
  "forward_sum (rows @ [r]) k = forward_sum rows k
     + (if k = None \<or> k = Some (f_kind r) then f_positions r else 0)"
  by (simp add: forward_sum_def)

lemma forward_count_snoc:
  "forward_count (rows @ [r]) k = forward_count rows k + (if f_kind r = k then 1 else 0)"
  by (simp add: forward_count_def)

lemma reserve_vector_row:
  assumes "reserve_vector env now_ns at label req identity L = Inr (left, L')"
  shows "\<exists>c b b'. row_v2 env L = Inr (c, b) \<and> row_v2 env L' = Inr (c, b')
    \<and> used b' = add_counters (used b) req \<and> maximum b' = maximum b
    \<and> deadline_ns b' = deadline_ns b"
proof -
  from assms obtain c b where r: "row_v2 env L = Inr (c, b)" "now_ns < deadline_ns b"
      "within_counters (add_counters (used b) req) (maximum b)" "nonneg req"
      "identity = content_identity_sha256 c"
    and L': "L' = L\<lparr>budget := Some (set_used (b\<lparr>last_checked_ns := now_ns\<rparr>) (add_counters (used b) req)),
         reservations := reservations L @ [new_reservation label req identity at]\<rparr>"
    by (auto simp: reserve_vector_Inr)
  then have "row_v2 env L' = Inr (c, set_used (b\<lparr>last_checked_ns := now_ns\<rparr>) (add_counters (used b) req))"
    by (auto simp: row_v2_Inr charges_snoc new_reservation_def reservation_ok_def)
  then show ?thesis using r by auto
qed

lemma reserve_vector_valid:
  assumes "valid_ledger env L" and "reserve_vector env now_ns at label req identity L = Inr (left, L')"
  shows "valid_ledger env L'"
proof -
  have "distinct (map r_label (reservations L'))"
    using assms by (auto simp: reserve_vector_Inr valid_ledger_def new_reservation_def)
  then show ?thesis
    using reserve_vector_row [OF assms(2)] by (auto simp: valid_ledger_def)
qed

section \<open>Forward reservations\<close>

lemma forward_state_Some [inversions]:
  "forward_state L c = Inr (Some (fixed, all_pos, batches, validation)) \<longleftrightarrow>
     (\<exists>rows. forward_table L = Some rows \<and> max_nontraining_forward_positions c \<noteq> None
       \<and> max_fixed_profile_forward_positions c \<noteq> None
       \<and> list_all (forward_row_ok c) rows \<and> distinct (map f_label rows)
       \<and> fixed = forward_sum rows (Some ''fixed_profile'') \<and> all_pos = forward_sum rows None
       \<and> batches = forward_count rows ''operational_validation''
       \<and> validation = forward_sum rows (Some ''operational_validation'')
       \<and> \<not> exceeds fixed (max_fixed_profile_forward_positions c)
       \<and> \<not> exceeds all_pos (max_nontraining_forward_positions c)
       \<and> \<not> exceeds batches (max_operational_validation_batches c)
       \<and> \<not> exceeds validation (max_operational_validation_forward_positions c))"
  by (cases "forward_table L") (auto simp: forward_state_def Let_def)

definition new_forward_row :: "string \<Rightarrow> string \<Rightarrow> int \<Rightarrow> string \<Rightarrow> int \<Rightarrow> forward_row" where
  "new_forward_row label kind positions identity at = \<lparr>f_label = label, f_kind = kind,
     f_positions = positions, f_identity = identity, f_reserved_ns = at\<rparr>"

definition forward_fits :: "attempt_contract \<Rightarrow> forward_row list \<Rightarrow> bool" where
  "forward_fits c rows \<longleftrightarrow>
     \<not> exceeds (forward_sum rows (Some ''fixed_profile'')) (max_fixed_profile_forward_positions c)
     \<and> \<not> exceeds (forward_sum rows None) (max_nontraining_forward_positions c)
     \<and> \<not> exceeds (forward_count rows ''operational_validation'') (max_operational_validation_batches c)
     \<and> \<not> exceeds (forward_sum rows (Some ''operational_validation''))
          (max_operational_validation_forward_positions c)"

lemma reserve_forward_Inr [inversions]:
  assumes "reserve_forward_positions env now_ns at label kind positions identity L = Inr (left, L')"
  obtains c b rows where "row_v2 env L = Inr (c, b)" "last_checked_ns b \<le> now_ns"
    "now_ns < deadline_ns b" "\<not> blank label" "kind \<in> set forward_kinds" "0 < positions"
    "identity = content_identity_sha256 c" "forward_table L = Some rows" "label \<notin> f_label ` set rows"
    "forward_fits c (rows @ [new_forward_row label kind positions identity at])"
    "L' = L\<lparr>budget := Some (b\<lparr>last_checked_ns := now_ns\<rparr>),
        forward_table := Some (rows @ [new_forward_row label kind positions identity at])\<rparr>"
    "\<exists>s. forward_state L c = Inr (Some s)"
proof -
  from assms obtain c b L1 where "check_v2 env now_ns L = Inr (c, b, deadline_ns b - now_ns, L1)"
    by (auto simp: reserve_forward_positions_def check_v2_Inr split: if_splits)
  then have row: "row_v2 env L = Inr (c, b)" "last_checked_ns b \<le> now_ns" "now_ns < deadline_ns b"
    by (auto simp: check_v2_Inr)
  then have version: "check_version L = Inr ()" by (auto simp: row_v2_Inr check_version_def)
  have req: "\<not> blank label" "kind \<in> set forward_kinds" "0 < positions"
    using assms by (auto simp: reserve_forward_positions_def split: if_splits)
  have "\<exists>s. forward_state L c = Inr (Some s)"
  proof (cases "forward_state L c")
    case (Inl e)
    with assms row version req show ?thesis
      by (auto simp: reserve_forward_positions_def check_v2_def split: if_splits)
  next
    case (Inr s)
    with assms row version req show ?thesis
      by (cases s) (auto simp: reserve_forward_positions_def check_v2_def split: if_splits)
  qed
  then obtain fx al bt vl where st: "forward_state L c = Inr (Some (fx, al, bt, vl))" by auto
  then obtain rows where rows: "forward_table L = Some rows"
      "fx = forward_sum rows (Some ''fixed_profile'')" "al = forward_sum rows None"
      "bt = forward_count rows ''operational_validation''"
      "vl = forward_sum rows (Some ''operational_validation'')"
      "\<not> exceeds bt (max_operational_validation_batches c)"
      "\<not> exceeds vl (max_operational_validation_forward_positions c)"
    and "max_nontraining_forward_positions c \<noteq> None" "max_fixed_profile_forward_positions c \<noteq> None"
    by (auto simp: forward_state_Some)
  then obtain fl tl where lim: "max_fixed_profile_forward_positions c = Some fl"
      "max_nontraining_forward_positions c = Some tl" by auto
  let ?new = "new_forward_row label kind positions identity at"
  let ?nf = "fx + (if kind = ''fixed_profile'' then positions else 0)"
  let ?over = "kind = ''operational_validation''
         \<and> (exceeds (bt + 1) (max_operational_validation_batches c)
           \<or> exceeds (vl + positions) (max_operational_validation_forward_positions c))"
  have "reserve_forward_positions env now_ns at label kind positions identity L =
     (if identity \<noteq> content_identity_sha256 c then Inl IdentityDiffers
      else if label \<in> f_label ` set rows then Inl DuplicateLabel
      else if ?nf > fl then Inl FixedForwardLimit
      else if al + positions > tl then Inl TotalForwardLimit
      else if ?over then Inl ValidationForwardLimit
      else Inr ((fl - ?nf, tl - (al + positions)),
        L\<lparr>budget := Some (b\<lparr>last_checked_ns := now_ns\<rparr>), forward_table := Some (rows @ [?new])\<rparr>))"
    using row version req st rows(1) lim
    by (simp add: reserve_forward_positions_def check_v2_def Let_def new_forward_row_def not_less not_le) blast
  with assms have rest: "identity = content_identity_sha256 c" "label \<notin> f_label ` set rows"
      "\<not> ?nf > fl" "\<not> al + positions > tl" "\<not> ?over"
      "L' = L\<lparr>budget := Some (b\<lparr>last_checked_ns := now_ns\<rparr>), forward_table := Some (rows @ [?new])\<rparr>"
    by (simp_all only: split: if_splits) simp_all
  then have "forward_fits c (rows @ [new_forward_row label kind positions identity at])"
    using rows lim
    by (cases "kind = ''operational_validation''"; cases "kind = ''fixed_profile''")
       (simp_all add: forward_fits_def forward_sum_snoc forward_count_snoc new_forward_row_def)
  then show thesis
    using that row req rest rows(1) st by blast
qed

lemma reserve_forward_row:
  assumes "reserve_forward_positions env now_ns at label kind positions identity L = Inr (left, L')"
    and "0 < at"
  shows "\<exists>c b. row_v2 env L = Inr (c, b) \<and> row_v2 env L' = Inr (c, b\<lparr>last_checked_ns := now_ns\<rparr>)
    \<and> reservations L' = reservations L"
  using assms(1)
proof (cases rule: reserve_forward_Inr)
  case (1 c b rows)
  then obtain fx al bt vl where st: "forward_state L c = Inr (Some (fx, al, bt, vl))" by auto
  let ?new = "new_forward_row label kind positions identity at"
  have "forward_row_ok c ?new"
    using 1 assms(2) by (simp add: forward_row_ok_def new_forward_row_def)
  then have "\<exists>s. forward_state L' c = Inr (Some s)"
    using st 1 by (auto simp: forward_state_Some forward_fits_def new_forward_row_def)
  then show ?thesis
    using 1 by (auto simp: row_v2_Inr)
qed


section \<open>Actual counters\<close>

lemma replace_first_cong:
  "(\<And>x. g (f x) = g x) \<Longrightarrow> map g (replace_first P f xs) = map g xs"
  by (induction xs) auto

lemma replace_first_all:
  "list_all Q xs \<Longrightarrow> (\<And>x. find P xs = Some x \<Longrightarrow> Q (f x)) \<Longrightarrow> list_all Q (replace_first P f xs)"
  by (induction xs) auto

lemma charges_cong: "map r_amounts rs' = map r_amounts rs \<Longrightarrow> charges rs' = charges rs"
proof -
  assume eq: "map r_amounts rs' = map r_amounts rs"
  have "map (\<lambda>r. f (r_amounts r)) rs' = map (\<lambda>r. f (r_amounts r)) rs" for f :: "counters \<Rightarrow> int"
    using arg_cong [OF eq, of "map f"] by (simp add: comp_def)
  then show ?thesis by (simp only: charges_def)
qed

definition set_actual :: "counters \<Rightarrow> int \<Rightarrow> reservation \<Rightarrow> reservation" where
  "set_actual a t r = r\<lparr>r_actual := Some a, r_completed_ns := Some t\<rparr>"

lemma within_countersI:
  "nonneg a \<Longrightarrow> \<not> list_ex (\<lambda>(x, y). x > y) (zip (vec a) (vec b)) \<Longrightarrow> within_counters a b"
  by (auto simp: counter_simps)

lemma record_actual_Inr [inversions]:
  assumes "record_verified_actual env now_ns at label actual identity L = Inr L'"
  obtains c b r where "row_v2 env L = Inr (c, b)" "last_checked_ns b \<le> now_ns" "now_ns < deadline_ns b"
    "find (\<lambda>r. r_label r = label) (reservations L) = Some r" "within_counters actual (r_amounts r)"
    "r_actual r = Some actual \<and> L' = L\<lparr>budget := Some (b\<lparr>last_checked_ns := now_ns\<rparr>)\<rparr>
     \<or> r_actual r = None \<and> L' = L\<lparr>budget := Some (b\<lparr>last_checked_ns := now_ns\<rparr>),
        reservations := replace_first (\<lambda>r. r_label r = label) (set_actual actual at) (reservations L)\<rparr>"
proof -
  have req: "\<not> blank label" "nonneg actual"
    using assms by (auto simp: record_verified_actual_def split: if_splits)
  from assms obtain c b where row: "row_v2 env L = Inr (c, b)" "last_checked_ns b \<le> now_ns" "now_ns < deadline_ns b"
    by (auto simp: record_verified_actual_def check_v2_Inr split: if_splits)
  then have version: "check_version L = Inr ()" by (auto simp: row_v2_Inr check_version_def)
  have set_actual_eq: "(\<lambda>r. r\<lparr>r_actual := Some actual, r_completed_ns := Some at\<rparr>) = set_actual actual at"
    by (simp add: fun_eq_iff set_actual_def)
  from assms req row version obtain r where r: "find (\<lambda>r. r_label r = label) (reservations L) = Some r"
    by (auto simp: record_verified_actual_def check_v2_def split: if_splits option.splits)
  with assms req row version have "\<not> list_ex (\<lambda>(x, y). x > y) (zip (vec actual) (vec (r_amounts r)))"
    by (auto simp: record_verified_actual_def check_v2_def split: if_splits)
  with req(2) have w: "within_counters actual (r_amounts r)" by (rule within_countersI)
  from assms req row version r have "r_actual r = Some actual \<and> L' = L\<lparr>budget := Some (b\<lparr>last_checked_ns := now_ns\<rparr>)\<rparr>
     \<or> r_actual r = None \<and> L' = L\<lparr>budget := Some (b\<lparr>last_checked_ns := now_ns\<rparr>),
        reservations := replace_first (\<lambda>r. r_label r = label) (set_actual actual at) (reservations L)\<rparr>"
    by (auto simp: record_verified_actual_def check_v2_def set_actual_eq split: if_splits option.splits)
  with that row r w show thesis by blast
qed

lemma record_actual_row:
  assumes "record_verified_actual env now_ns at label actual identity L = Inr L'"
  shows "\<exists>c b. row_v2 env L = Inr (c, b) \<and> row_v2 env L' = Inr (c, b\<lparr>last_checked_ns := now_ns\<rparr>)
    \<and> map r_label (reservations L') = map r_label (reservations L)
    \<and> map r_amounts (reservations L') = map r_amounts (reservations L)"
  using assms
proof (cases rule: record_actual_Inr)
  case (1 c b r)
  let ?rs = "replace_first (\<lambda>r. r_label r = label) (set_actual actual at) (reservations L)"
  have maps: "map r_label ?rs = map r_label (reservations L)"
    "map r_amounts ?rs = map r_amounts (reservations L)"
    by (simp_all add: replace_first_cong set_actual_def)
  from 1 have all_ok: "list_all (reservation_ok c) (reservations L)" by (auto simp: row_v2_Inr)
  then have "reservation_ok c r"
    using 1(4) by (auto simp: list_all_iff dest: find_Some_mem)
  then have "reservation_ok c (set_actual actual at r)"
    using 1(5) by (simp add: reservation_ok_def set_actual_def split: option.splits)
  then have "list_all (reservation_ok c) ?rs"
    using all_ok 1(4) by (intro replace_first_all) auto
  then show ?thesis
    using 1 maps charges_cong [OF maps(2)] by (auto simp: row_v2_Inr)
qed

section \<open>The ledger as a machine\<close>

datatype attempt_op =
    ReserveVector int int string counters string
  | ReserveForward int int string string int string
  | RecordActual int int string counters string
  | Remaining int

fun attempt_step :: "attempt_env \<Rightarrow> attempt_op \<Rightarrow> ledger \<Rightarrow> attempt_error + ledger" where
  "attempt_step env (ReserveVector now at label req identity) L =
     bindE (reserve_vector env now at label req identity L) (\<lambda>(left, L'). Inr L')"
| "attempt_step env (ReserveForward now at label kind positions identity) L =
     bindE (reserve_forward_positions env now at label kind positions identity L) (\<lambda>(left, L'). Inr L')"
| "attempt_step env (RecordActual now at label actual identity) L =
     record_verified_actual env now at label actual identity L"
| "attempt_step env (Remaining now) L = bindE (remaining_ns env now L) (\<lambda>(left, L'). Inr L')"

text \<open>The clock reading that a forward row stores is a time since the epoch.\<close>

fun positive_clock :: "attempt_op \<Rightarrow> bool" where
  "positive_clock (ReserveForward now at label kind positions identity) = (0 < at)"
| "positive_clock _ = True"

text \<open>What any committed call does to the verified row.\<close>

lemma attempt_step_row:
  assumes "attempt_step env op L = Inr L'" and "positive_clock op"
  shows "\<exists>c b b'. row_v2 env L = Inr (c, b) \<and> row_v2 env L' = Inr (c, b') \<and> maximum b' = maximum b
    \<and> deadline_ns b' = deadline_ns b
    \<and> (used b' = used b \<and> map r_label (reservations L') = map r_label (reservations L)
         \<and> map r_amounts (reservations L') = map r_amounts (reservations L)
      \<or> (\<exists>req r. nonneg req \<and> used b' = add_counters (used b) req \<and> reservations L' = reservations L @ [r]
          \<and> r_label r \<notin> r_label ` set (reservations L)))"
proof (cases op)
  case (ReserveVector now at label req identity)
  with assms(1) obtain left where r: "reserve_vector env now at label req identity L = Inr (left, L')"
    by (auto split: prod.splits)
  then have "nonneg req" "\<exists>x. reservations L' = reservations L @ [x] \<and> r_label x \<notin> r_label ` set (reservations L)"
    by (auto simp: reserve_vector_Inr new_reservation_def)
  then show ?thesis using reserve_vector_row [OF r] by blast
next
  case (ReserveForward now at label kind positions identity)
  with assms obtain left where "reserve_forward_positions env now at label kind positions identity L = Inr (left, L')"
      "0 < at"
    by (auto split: prod.splits)
  from reserve_forward_row [OF this] show ?thesis by auto
next
  case (RecordActual now at label actual identity)
  with assms(1) have "record_verified_actual env now at label actual identity L = Inr L'" by simp
  from record_actual_row [OF this] show ?thesis by auto
next
  case (Remaining now)
  with assms(1) obtain c b where "row_v2 env L = Inr (c, b)" "now < deadline_ns b"
      "L' = L\<lparr>budget := Some (b\<lparr>last_checked_ns := now\<rparr>)\<rparr>"
    by (auto simp: remaining_ns_def check_v2_Inr split: prod.splits)
  then show ?thesis using row_v2_clock by auto
qed

lemma attempt_step_valid:
  assumes "valid_ledger env L" and "positive_clock op" and "attempt_step env op L = Inr L'"
  shows "valid_ledger env L'"
proof -
  from attempt_step_row [OF assms(3,2)] have row: "\<exists>c b'. row_v2 env L' = Inr (c, b')" by auto
  from attempt_step_row [OF assms(3,2)] have "distinct (map r_label (reservations L'))"
    using assms(1) by (auto simp: valid_ledger_def)
  with row show ?thesis by (simp add: valid_ledger_def)
qed

definition charged :: "nat \<Rightarrow> ledger \<Rightarrow> int" where
  "charged i L = (case budget L of None \<Rightarrow> 0 | Some b \<Rightarrow> vec (used b) ! i)"

definition limit :: "nat \<Rightarrow> ledger \<Rightarrow> int" where
  "limit i L = (case budget L of None \<Rightarrow> 0 | Some b \<Rightarrow> vec (maximum b) ! i)"

text \<open>The four counters, numbered 0 to 3 (any other number stands for the last).\<close>

abbreviation counter_ix :: "nat \<Rightarrow> nat" where
  "counter_ix i \<equiv> min i 3"

lemma counter_ix_cases: "counter_ix i = 0 \<or> counter_ix i = 1 \<or> counter_ix i = 2 \<or> counter_ix i = 3"
  by arith

interpretation attempt: budget_ledger "attempt_step env" "valid_ledger env" positive_clock
  "charged (counter_ix i)" "limit (counter_ix i)" for env :: attempt_env and i :: nat
proof unfold_locales
  fix L op L'
  assume valid: "valid_ledger env L"
  then obtain c b where row: "row_v2 env L = Inr (c, b)" by (auto simp: valid_ledger_def)
  show "charged (counter_ix i) L \<le> limit (counter_ix i) L"
    using row counter_ix_cases [of i] by (auto simp: charged_def limit_def row_v2_Inr counter_simps)
  assume op: "positive_clock op" "attempt_step env op L = Inr L'"
  show "valid_ledger env L'" by (rule attempt_step_valid [OF valid op])
  show "charged (counter_ix i) L \<le> charged (counter_ix i) L'"
    using attempt_step_row [OF op(2,1)] counter_ix_cases [of i]
    by (auto simp: charged_def row_v2_Inr counter_simps)
  show "limit (counter_ix i) L' = limit (counter_ix i) L"
    using attempt_step_row [OF op(2,1)] by (auto simp: limit_def row_v2_Inr)
qed


lemma attempt_step_forward:
  assumes "attempt_step env op L = Inr L'"
  shows "forward_table L' = forward_table L \<or> (\<exists>rows r. forward_table L = Some rows
    \<and> forward_table L' = Some (rows @ [r]) \<and> 0 < f_positions r)"
proof (cases op)
  case (ReserveForward now at label kind positions identity)
  with assms obtain left where "reserve_forward_positions env now at label kind positions identity L = Inr (left, L')"
    by (auto split: prod.splits)
  then show ?thesis
    by (cases rule: reserve_forward_Inr) (simp add: new_forward_row_def)
next
  case (RecordActual now at label actual identity)
  with assms have "record_verified_actual env now at label actual identity L = Inr L'" by simp
  then show ?thesis by (cases rule: record_actual_Inr) auto
qed (use assms in \<open>auto simp: reserve_vector_Inr remaining_ns_def check_v2_Inr split: prod.splits\<close>)

definition forward_charged :: "ledger \<Rightarrow> int" where
  "forward_charged L = (case forward_table L of None \<Rightarrow> 0 | Some rows \<Rightarrow> forward_sum rows None)"

definition forward_limit :: "attempt_env \<Rightarrow> ledger \<Rightarrow> int" where
  "forward_limit env L = (case row_v2 env L of Inl e \<Rightarrow> 0
     | Inr (c, b) \<Rightarrow> (case max_nontraining_forward_positions c of None \<Rightarrow> 0 | Some t \<Rightarrow> t))"

lemma forward_charged_le:
  assumes "valid_ledger env L"
  shows "forward_charged L \<le> forward_limit env L"
proof -
  from assms obtain c b f where row: "row_v2 env L = Inr (c, b)" and st: "forward_state L c = Inr f"
    by (auto simp: valid_ledger_def row_v2_Inr)
  show ?thesis
  proof (cases f)
    case None
    with st have "forward_table L = None" "max_nontraining_forward_positions c = None"
      by (auto simp: forward_state_def Let_def split: if_splits option.splits)
    with row show ?thesis by (simp add: forward_charged_def forward_limit_def)
  next
    case (Some s)
    with st row show ?thesis
      by (cases s) (auto simp: forward_state_Some forward_charged_def forward_limit_def)
  qed
qed

interpretation forward: budget_ledger "attempt_step env" "valid_ledger env" positive_clock
  forward_charged "forward_limit env" for env :: attempt_env
proof unfold_locales
  fix L op L'
  assume valid: "valid_ledger env L"
  show "forward_charged L \<le> forward_limit env L" by (rule forward_charged_le [OF valid])
  assume op: "positive_clock op" "attempt_step env op L = Inr L'"
  show "forward_charged L \<le> forward_charged L'"
    using attempt_step_forward [OF op(2)] by (auto simp: forward_charged_def forward_sum_snoc)
  show "forward_limit env L' = forward_limit env L"
    using attempt_step_row [OF op(2,1)] by (auto simp: forward_limit_def)
qed

lemma attempt_step_labels:
  "positive_clock op \<Longrightarrow> attempt_step env op L = Inr L' \<Longrightarrow>
    prefix (map r_label (reservations L)) (map r_label (reservations L'))"
  using attempt_step_row [of env op L L'] by auto

interpretation attempt_labels: append_log "attempt_step env" "valid_ledger env" positive_clock
  "\<lambda>L. map r_label (reservations L)" for env :: attempt_env
  by unfold_locales (auto intro: attempt_step_labels)

section \<open>Properties\<close>

lemma model_validate_fields:
  assumes "model_validate_json env raw = Inr c"
  shows "nonneg (contract_limits c)"
    and "(max_fixed_profile_forward_positions c = None) = (max_nontraining_forward_positions c = None)"
    and "nonneg_opt (max_fixed_profile_forward_positions c)"
    and "nonneg_opt (max_nontraining_forward_positions c)"
    and "nonneg_opt (max_operational_validation_batches c)"
    and "nonneg_opt (max_operational_validation_forward_positions c)"
  using assms
  by (auto simp: model_validate_json_def validate_contract_def complete_forward_limits_def
      valid_contract_fields_def counter_simps Let_def split: option.splits if_splits)

lemma exceeds_0: "nonneg_opt l \<Longrightarrow> \<not> exceeds 0 l"
  by (cases l) auto

lemma forward_state_empty:
  assumes "model_validate_json env raw = Inr c"
    and "forward_table L = (if max_nontraining_forward_positions c \<noteq> None then Some [] else None)"
  shows "\<exists>f. forward_state L c = Inr f"
  using model_validate_fields [OF assms(1)] assms(2)
  by (cases "max_nontraining_forward_positions c")
     (auto simp: forward_state_def forward_sum_def forward_count_def exceeds_0)

lemma create_contract_Inr:
  assumes "create_contract env now_ns path expected monitor parent_is_dir exists = Inr L"
  obtains c raw b where "contract_file env path = Some raw" "sha256_hex env raw = expected"
    "model_validate_json env raw = Inr c" "load_attempt_contract env path expected = Inr c"
    "0 < max_wall_ns c" "reservations L = []" "budget L = Some b"
    "forward_table L = (if max_nontraining_forward_positions c \<noteq> None then Some [] else None)"
    "maximum b = contract_limits c" "vec (used b) = [0, 0, 0, 0]" "b_version b = 2"
    "last_checked_ns b = now_ns" "started_ns b = now_ns" "deadline_ns b = now_ns + max_wall_ns c"
    "contract_path b = path" "contract_sha256 b = expected" "contract_json b = raw"
  using assms
  by (auto simp: create_contract_def load_attempt_contract_def counter_simps Let_def
      split: option.splits if_splits)

lemma created_row:
  assumes "create_contract env now_ns path expected monitor parent_is_dir exists = Inr L"
  shows "\<exists>c b. row_v2 env L = Inr (c, b) \<and> maximum b = contract_limits c
    \<and> vec (used b) = [0, 0, 0, 0] \<and> deadline_ns b = now_ns + max_wall_ns c
    \<and> load_attempt_contract env path expected = Inr c \<and> reservations L = []"
  using assms
proof (cases rule: create_contract_Inr)
  case (1 c raw b)
  have "within_counters (used b) (maximum b)"
    using 1 model_validate_fields(1) [OF 1(3)] by (auto simp: counter_simps)
  moreover have "charges (reservations L) = used b"
    using 1 by (simp add: counter_simps)
  moreover have "contract_of env b c"
    using 1 by (simp add: contract_of_def)
  ultimately have "row_v2 env L = Inr (c, b)"
    using 1 model_validate_fields(1) [OF 1(3)] forward_state_empty [OF 1(3,8)]
    by (auto simp: row_v2_Inr)
  then show ?thesis using 1 by blast
qed

lemma created_valid_ledger:
  assumes "create_contract env now_ns path expected monitor parent_is_dir exists = Inr L"
  shows "valid_ledger env L"
  using created_row [OF assms] by (auto simp: valid_ledger_def)

section \<open>A concrete contract\<close>

definition zero_sha :: string where
  "zero_sha = replicate 64 CHR ''0''"

definition sample_contract :: attempt_contract where
  "sample_contract = \<lparr>contract_version = 1, max_optimizer_updates = 10,
     max_actual_target_positions = 4096, max_generation_calls = 2, max_generated_tokens = 64,
     max_fixed_profile_forward_positions = Some 100, max_nontraining_forward_positions = Some 300,
     max_operational_validation_batches = Some 2,
     max_operational_validation_forward_positions = Some 150, max_wall_ns = 1000,
     content_identity_sha256 = zero_sha, monitor_policy_sha256 = zero_sha,
     workspace_baseline_sha256 = zero_sha, acquisition_project_sha256 = None,
     preparation_acquisition_identity_sha256 = None, preparation_normalizer = None,
     admission_lock_sha256 = None, admission_policy_sha256 = None, admission_selection_sha256 = None,
     fixed_profile_sha256 = None, fixed_family_inventory_sha256 = None,
     preparation_monitor_policy_sha256 = None, evaluation_monitor_policy_sha256 = None,
     require_resolved_train_config_binding = False, require_evaluation_baseline_binding = False,
     require_release_acceptance_binding = False, require_admission_inspection_binding = False,
     require_preledger_monitor_binding = False, offline_retained_sources_only = False, preparation_only = False\<rparr>"

definition sample_env :: attempt_env where
  "sample_env = \<lparr>sha256_hex = \<lambda>_. zero_sha,
     decode_contract = \<lambda>raw. if raw = ''contract'' then Some sample_contract else None,
     contract_file = \<lambda>path. if path = ''/c.json'' then Some ''contract'' else None\<rparr>"

definition sample_ledger :: ledger where
  "sample_ledger = (case create_contract sample_env 5 ''/c.json'' zero_sha None True False of
      Inr L \<Rightarrow> L | Inl _ \<Rightarrow> \<lparr>budget = None, reservations = [], forward_table = None\<rparr>)"

definition one_update :: counters where
  "one_update = \<lparr>n_updates = 1, n_targets = 512, n_calls = 0, n_tokens = 0\<rparr>"

lemma sample_contract_valid: "model_validate_json sample_env ''contract'' = Inr sample_contract"
  by code_simp

lemma sample_created:
  "create_contract sample_env 5 ''/c.json'' zero_sha None True False = Inr sample_ledger"
  by code_simp

lemma sample_row: "\<exists>b. row_v2 sample_env sample_ledger = Inr (sample_contract, b) \<and> last_checked_ns b = 5
    \<and> deadline_ns b = 1005 \<and> used b = charges [] \<and> maximum b = contract_limits sample_contract"
  by (rule exI [of _ "the (budget sample_ledger)"]) code_simp

lemma sample_valid: "valid_ledger sample_env sample_ledger"
  by (rule created_valid_ledger [OF sample_created])

section \<open>Properties of runs\<close>

lemma valid_within:
  assumes "valid_ledger env L" and "row_v2 env L = Inr (c, b)"
  shows "within_counters (charges (reservations L)) (contract_limits c)"
  using assms by (auto simp: row_v2_Inr)

lemma within_ix:
  "within_counters a b \<longleftrightarrow> (\<forall>i. 0 \<le> vec a ! counter_ix i \<and> vec a ! counter_ix i \<le> vec b ! counter_ix i)"
proof
  assume w: "within_counters a b"
  show "\<forall>i. 0 \<le> vec a ! counter_ix i \<and> vec a ! counter_ix i \<le> vec b ! counter_ix i"
  proof
    fix i :: nat
    show "0 \<le> vec a ! counter_ix i \<and> vec a ! counter_ix i \<le> vec b ! counter_ix i"
      using w counter_ix_cases [of i] by (auto simp: counter_simps)
  qed
next
  assume all: "\<forall>i. 0 \<le> vec a ! counter_ix i \<and> vec a ! counter_ix i \<le> vec b ! counter_ix i"
  then show "within_counters a b"
    using spec [OF all, of 0] spec [OF all, of 1] spec [OF all, of 2] spec [OF all, of 3]
    by (simp add: counter_simps numeral_2_eq_2 numeral_3_eq_3)
qed

lemma run_contract:
  assumes "row_v2 env L = Inr (c, b)" and "list_all positive_clock ops"
  shows "\<exists>b'. row_v2 env (run_ops (attempt_step env) L ops) = Inr (c, b')"
  using assms
proof (induction ops arbitrary: L b)
  case Nil
  then show ?case by simp
next
  case (Cons op ops)
  show ?case
  proof (cases "attempt_step env op L")
    case (Inl e)
    with Cons.IH [OF Cons.prems(1)] Cons.prems(2) show ?thesis
      by (simp add: run_ops_Cons try_step_def)
  next
    case (Inr L')
    with Cons.prems have "positive_clock op" by simp
    from attempt_step_row [OF Inr this] Cons.prems(1) obtain b' where "row_v2 env L' = Inr (c, b')" by auto
    from Cons.IH [OF this] Cons.prems(2) Inr show ?thesis
      by (simp add: run_ops_Cons try_step_def)
  qed
qed

lemma charged_charges:
  "row_v2 env L = Inr (c, b) \<Longrightarrow> charged i L = vec (charges (reservations L)) ! i"
  by (auto simp: row_v2_Inr charged_def)

text \<open>
  C6. An attempt can never overspend its contract. A ledger is created from a contract whose
  bytes match the expected digest; after any sequence of reservations, forward reservations,
  actual-counter records and deadline checks (failed calls included, with any clock readings
  and any requested amounts), the contract still authenticates and validates as the same one,
  and the recorded reservations, summed per counter, lie between 0 and the contract's limits.
\<close>

theorem attempt_never_overspends:
  assumes "create_contract env now_ns path expected monitor parent_is_dir exists = Inr L"
    and "list_all positive_clock ops"
  shows "\<exists>c b. load_attempt_contract env path expected = Inr c
    \<and> row_v2 env (run_ops (attempt_step env) L ops) = Inr (c, b)
    \<and> within_counters (charges (reservations (run_ops (attempt_step env) L ops))) (contract_limits c)"
proof -
  from created_row [OF assms(1)] obtain c b where
    c: "row_v2 env L = Inr (c, b)" "load_attempt_contract env path expected = Inr c" by auto
  from run_contract [OF c(1) assms(2)] obtain b' where
    b': "row_v2 env (run_ops (attempt_step env) L ops) = Inr (c, b')" by auto
  from attempt.run_inv [OF created_valid_ledger [OF assms(1)] assms(2)]
  have "within_counters (charges (reservations (run_ops (attempt_step env) L ops))) (contract_limits c)"
    using b' by (rule valid_within)
  with c b' show ?thesis by blast
qed

definition sample_ops :: "attempt_op list" where
  "sample_ops = [ReserveVector 6 6 ''train:0'' one_update zero_sha,
     ReserveForward 7 7 ''eval:0'' ''fixed_profile'' 60 zero_sha,
     ReserveForward 8 8 ''eval:1'' ''fixed_profile'' 60 zero_sha,
     ReserveVector 9 9 ''train:0'' one_update zero_sha,
     RecordActual 10 10 ''train:0'' one_update zero_sha, Remaining 11]"

lemma sample_ops_clock: "list_all positive_clock sample_ops"
  by code_simp

theorem attempt_never_overspends_witness:
  "\<exists>c b. load_attempt_contract sample_env ''/c.json'' zero_sha = Inr c
    \<and> row_v2 sample_env (run_ops (attempt_step sample_env) sample_ledger sample_ops) = Inr (c, b)
    \<and> within_counters (charges (reservations (run_ops (attempt_step sample_env) sample_ledger sample_ops)))
        (contract_limits c)"
  by (rule attempt_never_overspends [OF sample_created sample_ops_clock])

text \<open>
  Charges are never refunded: over any sequence of calls on a valid ledger no counter's
  total ever goes down, and the reservation labels recorded so far stay recorded, in order.
\<close>

theorem attempt_never_refunds:
  assumes "valid_ledger env L" and "list_all positive_clock ops"
  shows "prefix (map r_label (reservations L))
      (map r_label (reservations (run_ops (attempt_step env) L ops)))
    \<and> vec (charges (reservations L)) ! min i 3
      \<le> vec (charges (reservations (run_ops (attempt_step env) L ops))) ! min i 3"
proof
  show "prefix (map r_label (reservations L))
      (map r_label (reservations (run_ops (attempt_step env) L ops)))"
    by (rule attempt_labels.run_log_grows [OF assms])
  have "valid_ledger env (run_ops (attempt_step env) L ops)"
    by (rule attempt.run_inv [OF assms])
  with assms(1) obtain c b c' b' where "row_v2 env L = Inr (c, b)"
      "row_v2 env (run_ops (attempt_step env) L ops) = Inr (c', b')"
    by (auto simp: valid_ledger_def)
  then show "vec (charges (reservations L)) ! min i 3
      \<le> vec (charges (reservations (run_ops (attempt_step env) L ops))) ! min i 3"
    using attempt.run_never_refund [OF assms, of i] by (simp add: charged_charges)
qed

theorem attempt_never_refunds_witness:
  "prefix (map r_label (reservations sample_ledger))
      (map r_label (reservations (run_ops (attempt_step sample_env) sample_ledger sample_ops)))
    \<and> vec (charges (reservations sample_ledger)) ! min 1 3
      \<le> vec (charges (reservations (run_ops (attempt_step sample_env) sample_ledger sample_ops))) ! min 1 3"
  by (rule attempt_never_refunds [OF sample_valid sample_ops_clock])

text \<open>
  A reservation label is charged at most once. When \<open>reserve_vector\<close> has committed a label,
  every later reservation under that label is refused and leaves the ledger as it was, whatever
  was called in between and whatever the retry asks for.
\<close>

theorem label_charged_once:
  assumes "valid_ledger env L" and "reserve_vector env now_ns at label req identity L = Inr (left, L')"
    and "list_all positive_clock ops"
  shows "label \<in> r_label ` set (reservations (run_ops (attempt_step env) L' ops))
    \<and> (\<exists>e. reserve_vector env now2 at2 label req2 identity2 (run_ops (attempt_step env) L' ops) = Inl e)"
proof -
  have "label \<in> set (map r_label (reservations L'))"
    using assms(2) by (auto simp: reserve_vector_Inr new_reservation_def)
  moreover have "prefix (map r_label (reservations L'))
      (map r_label (reservations (run_ops (attempt_step env) L' ops)))"
    by (rule attempt_labels.run_log_grows [OF reserve_vector_valid [OF assms(1,2)] assms(3)])
  ultimately have kept: "label \<in> r_label ` set (reservations (run_ops (attempt_step env) L' ops))"
    by (auto simp: prefix_def simp flip: set_map)
  then have "\<nexists>l M. reserve_vector env now2 at2 label req2 identity2
      (run_ops (attempt_step env) L' ops) = Inr (l, M)"
    by (auto simp: reserve_vector_Inr)
  with kept show ?thesis
    by (cases "reserve_vector env now2 at2 label req2 identity2 (run_ops (attempt_step env) L' ops)") auto
qed

definition sample_reserved :: ledger where
  "sample_reserved = try_step (attempt_step sample_env) sample_ledger
     (ReserveVector 6 6 ''train:0'' one_update zero_sha)"

lemma sample_reserve: "reserve_vector sample_env 6 6 ''train:0'' one_update zero_sha sample_ledger
    = Inr (\<lparr>n_updates = 9, n_targets = 3584, n_calls = 2, n_tokens = 64\<rparr>, sample_reserved)"
  by code_simp

theorem label_charged_once_witness:
  "''train:0'' \<in> r_label ` set (reservations (run_ops (attempt_step sample_env) sample_reserved sample_ops))
    \<and> (\<exists>e. reserve_vector sample_env 20 20 ''train:0'' one_update zero_sha
          (run_ops (attempt_step sample_env) sample_reserved sample_ops) = Inl e)"
  by (rule label_charged_once [OF sample_valid sample_reserve sample_ops_clock])

text \<open>
  What \<open>reserve_vector\<close> admits, exactly. On a verified ledger read before its deadline a
  reservation under a fresh, nonblank label with the contract's identity and nonnegative
  amounts succeeds if and only if no counter would pass its limit; the result is what is left
  of each limit, and the refused counter is the first one that does not fit.
\<close>

theorem reserve_vector_admits:
  assumes "row_v2 env L = Inr (c, b)" and "last_checked_ns b \<le> now_ns" and "now_ns < deadline_ns b"
    and "\<not> blank label" and "nonneg req" and "label \<notin> r_label ` set (reservations L)"
    and "identity = content_identity_sha256 c"
  shows "(if within_counters (add_counters (used b) req) (maximum b)
     then \<exists>L'. reserve_vector env now_ns at label req identity L
            = Inr (sub_counters (maximum b) (add_counters (used b) req), L')
          \<and> reservations L' = reservations L @ [new_reservation label req identity at]
          \<and> charges (reservations L') = add_counters (charges (reservations L)) req
     else \<exists>i < 4. reserve_vector env now_ns at label req identity L = Inl (LimitReached i)
          \<and> vec (used b) ! i + vec req ! i > vec (maximum b) ! i
          \<and> (\<forall>j < i. vec (used b) ! j + vec req ! j \<le> vec (maximum b) ! j))"
proof (cases "within_counters (add_counters (used b) req) (maximum b)")
  case True
  with assms show ?thesis
    by (auto simp: reserve_vector_Inr charges_snoc new_reservation_def)
next
  case False
  from assms(1) have version: "check_version L = Inr ()" by (auto simp: row_v2_Inr check_version_def)
  let ?z = "zip (vec req) (zip (vec (used b)) (vec (maximum b)))"
  have "\<not> list_all (\<lambda>(amount, charged, limit). charged + amount \<le> limit) ?z"
    using False assms(1,5) by (auto simp: row_v2_Inr counter_simps)
  then obtain i where i: "first_exceeding 0 ?z = Some i"
    by (cases "first_exceeding 0 ?z") (auto simp: first_exceeding_None)
  then have "reserve_vector env now_ns at label req identity L = Inl (LimitReached i)"
    using assms version by (simp add: reserve_vector_def check_v2_def)
  moreover have "i < 4 \<and> vec (used b) ! i + vec req ! i > vec (maximum b) ! i
      \<and> (\<forall>j < i. vec (used b) ! j + vec req ! j \<le> vec (maximum b) ! j)"
    using i by (auto simp: vec_def less_Suc_eq split: if_splits)
  ultimately show ?thesis using False by auto
qed

definition two_calls :: counters where
  "two_calls = \<lparr>n_updates = 0, n_targets = 0, n_calls = 3, n_tokens = 65\<rparr>"

theorem reserve_vector_admits_witness:
  "\<exists>i < 4. reserve_vector sample_env 6 6 ''g'' two_calls zero_sha sample_ledger = Inl (LimitReached i)"
proof -
  obtain b where b: "row_v2 sample_env sample_ledger = Inr (sample_contract, b)" "last_checked_ns b = 5"
      "deadline_ns b = 1005" "used b = charges []" "maximum b = contract_limits sample_contract"
    using sample_row by auto
  have "\<not> within_counters (add_counters (charges []) two_calls) (contract_limits sample_contract)"
    by code_simp
  moreover have "\<not> blank ''g''" "nonneg two_calls" "''g'' \<notin> r_label ` set (reservations sample_ledger)"
      "zero_sha = content_identity_sha256 sample_contract"
    by code_simp+
  ultimately show ?thesis
    using reserve_vector_admits [OF b(1), of 6 "''g''" two_calls zero_sha 6] b(2-5)
    by auto
qed

text \<open>
  Forward positions have their own ceiling. After any sequence of calls on a created ledger
  the positions of all forward rows sum to at most the contract's
  \<open>max_nontraining_forward_positions\<close>, those of kind \<open>fixed_profile\<close> to at most its fixed limit,
  and the validation rows respect their two limits.
\<close>

theorem forward_never_overspends:
  assumes "create_contract env now_ns path expected monitor parent_is_dir exists = Inr L"
    and "list_all positive_clock ops"
    and "load_attempt_contract env path expected = Inr c"
    and "forward_table (run_ops (attempt_step env) L ops) = Some rows"
  shows "forward_fits c rows \<and> forward_sum rows (Some ''fixed_profile'') \<le> forward_sum rows None
    \<and> distinct (map f_label rows)"
proof -
  from created_row [OF assms(1)] assms(3) obtain b where "row_v2 env L = Inr (c, b)" by auto
  from run_contract [OF this assms(2)] obtain b' f where
    "row_v2 env (run_ops (attempt_step env) L ops) = Inr (c, b')"
    "forward_state (run_ops (attempt_step env) L ops) c = Inr f"
    by (auto simp: row_v2_Inr)
  with assms(4) obtain s where "forward_state (run_ops (attempt_step env) L ops) c = Inr (Some s)"
    by (cases f) (auto simp: forward_state_def Let_def split: if_splits)
  with assms(4) have rows: "forward_fits c rows" "list_all (forward_row_ok c) rows" "distinct (map f_label rows)"
    by (cases s; simp add: forward_state_Some forward_fits_def)+
  from rows(2) have "forward_sum rows (Some ''fixed_profile'') \<le> forward_sum rows None"
    by (induction rows) (auto simp: forward_sum_def forward_row_ok_def)
  with rows show ?thesis by blast
qed

definition sample_forward_rows :: "forward_row list" where
  "sample_forward_rows = [new_forward_row ''eval:0'' ''fixed_profile'' 60 zero_sha 7]"

theorem forward_never_overspends_witness:
  "forward_fits sample_contract sample_forward_rows
    \<and> forward_sum sample_forward_rows (Some ''fixed_profile'') \<le> forward_sum sample_forward_rows None
    \<and> distinct (map f_label sample_forward_rows)"
proof (rule forward_never_overspends [OF sample_created sample_ops_clock])
  show "load_attempt_contract sample_env ''/c.json'' zero_sha = Inr sample_contract" by code_simp
  show "forward_table (run_ops (attempt_step sample_env) sample_ledger sample_ops) = Some sample_forward_rows"
    by code_simp
qed

lemma find_replace_first:
  "(\<And>x. P (f x) = P x) \<Longrightarrow> find P (replace_first P f xs) = map_option f (find P xs)"
  by (induction xs) auto

lemma record_actual_requires:
  assumes "record_verified_actual env now_ns at label actual identity L = Inr L'"
    and "row_v2 env L = Inr (c, b)"
  shows "\<not> blank label \<and> nonneg actual \<and> identity = content_identity_sha256 c"
  using assms by (auto simp: record_verified_actual_def check_v2_def split: if_splits)

lemma record_actual_stored:
  assumes "record_verified_actual env now_ns at label actual identity L = Inr L'"
  shows "\<exists>r. find (\<lambda>r. r_label r = label) (reservations L') = Some r \<and> r_actual r = Some actual
    \<and> within_counters actual (r_amounts r)"
  using assms
proof (cases rule: record_actual_Inr)
  case (1 c b r)
  then show ?thesis
    by (elim disjE) (simp_all add: find_replace_first set_actual_def)
qed

lemma record_actual_again:
  assumes "row_v2 env L = Inr (c, b)" and "last_checked_ns b \<le> now_ns" and "now_ns < deadline_ns b"
    and "\<not> blank label" and "identity = content_identity_sha256 c"
    and "find (\<lambda>r. r_label r = label) (reservations L) = Some r" and "r_actual r = Some actual"
    and "within_counters actual (r_amounts r)" and "nonneg other"
  shows "record_verified_actual env now_ns at label other identity L =
    (if other = actual then Inr (L\<lparr>budget := Some (b\<lparr>last_checked_ns := now_ns\<rparr>)\<rparr>)
     else if list_ex (\<lambda>(x, y). x > y) (zip (vec other) (vec (r_amounts r)))
     then Inl ActualExceedsReservation else Inl ActualDiffers)"
proof -
  have version: "check_version L = Inr ()" using assms(1) by (auto simp: row_v2_Inr check_version_def)
  have "\<not> list_ex (\<lambda>(x, y). x > y) (zip (vec actual) (vec (r_amounts r)))"
    using assms(8) by (auto simp: counter_simps)
  with version assms show ?thesis
    by (simp add: record_verified_actual_def check_v2_def)
qed

text \<open>
  Recording the verified actual counters is idempotent and final: once recorded, the same
  values are accepted again without changing any reservation, different values are refused,
  and no record changes what the reservations charge.
\<close>

theorem verified_actual_is_final:
  assumes "record_verified_actual env now_ns at label actual identity L = Inr L'"
    and "now_ns \<le> now2" and "\<exists>b. budget L' = Some b \<and> now2 < deadline_ns b" and "nonneg other"
  shows "charges (reservations L') = charges (reservations L)
    \<and> (\<exists>b. record_verified_actual env now2 at2 label actual identity L'
        = Inr (L'\<lparr>budget := Some (b\<lparr>last_checked_ns := now2\<rparr>)\<rparr>))
    \<and> (other \<noteq> actual \<longrightarrow> record_verified_actual env now2 at2 label other identity L'
        \<in> {Inl ActualExceedsReservation, Inl ActualDiffers})"
proof -
  from record_actual_row [OF assms(1)] obtain c b where
    row: "row_v2 env L = Inr (c, b)" "row_v2 env L' = Inr (c, b\<lparr>last_checked_ns := now_ns\<rparr>)"
      "charges (reservations L') = charges (reservations L)"
    using charges_cong by metis
  from record_actual_stored [OF assms(1)] obtain r where
    r: "find (\<lambda>r. r_label r = label) (reservations L') = Some r" "r_actual r = Some actual"
      "within_counters actual (r_amounts r)" by auto
  note req = record_actual_requires [OF assms(1) row(1)]
  have "now2 < deadline_ns (b\<lparr>last_checked_ns := now_ns\<rparr>)"
    using assms(3) row(2) by (auto simp: row_v2_Inr)
  then have "record_verified_actual env now2 at2 label x identity L' =
      (if x = actual then Inr (L'\<lparr>budget := Some (b\<lparr>last_checked_ns := now_ns, last_checked_ns := now2\<rparr>)\<rparr>)
       else if list_ex (\<lambda>(x, y). x > y) (zip (vec x) (vec (r_amounts r)))
       then Inl ActualExceedsReservation else Inl ActualDiffers)" if "nonneg x" for x
    using record_actual_again [OF row(2) _ _ _ _ r that, of now2] req assms(2) by simp
  with req assms(4) row(3) show ?thesis by auto
qed

definition sample_recorded :: ledger where
  "sample_recorded = try_step (attempt_step sample_env) sample_reserved
     (RecordActual 7 7 ''train:0'' one_update zero_sha)"

lemma sample_record: "record_verified_actual sample_env 7 7 ''train:0'' one_update zero_sha sample_reserved
    = Inr sample_recorded"
  by code_simp

theorem verified_actual_is_final_witness:
  "charges (reservations sample_recorded) = charges (reservations sample_reserved)
    \<and> (\<exists>b. record_verified_actual sample_env 8 9 ''train:0'' one_update zero_sha sample_recorded
        = Inr (sample_recorded\<lparr>budget := Some (b\<lparr>last_checked_ns := 8\<rparr>)\<rparr>))
    \<and> record_verified_actual sample_env 8 9 ''train:0'' two_calls zero_sha sample_recorded
        \<in> {Inl ActualExceedsReservation, Inl ActualDiffers}"
proof -
  have "nonneg two_calls" "two_calls \<noteq> one_update" by code_simp+
  have "map_option deadline_ns (budget sample_recorded) = Some 1005" by code_simp
  then have "\<exists>b. budget sample_recorded = Some b \<and> 8 < deadline_ns b" by auto
  from verified_actual_is_final [OF sample_record _ this \<open>nonneg two_calls\<close>] \<open>two_calls \<noteq> one_update\<close>
  show ?thesis by simp
qed

text \<open>
  A model call is charged before it is made, in two transactions. When the second one, the
  reservation of its input positions, is refused, the first stays committed: one call and the
  requested tokens are charged and no forward row is added.
\<close>

theorem generation_charges_first:
  assumes "reserve_generation env now1 now2 path identity phase label tokens positions L = (Inl e, L')"
    and "valid_ledger env L"
  shows "L' = L \<or> (n_calls (charges (reservations L')) = n_calls (charges (reservations L)) + 1
      \<and> n_tokens (charges (reservations L')) = n_tokens (charges (reservations L)) + tokens
      \<and> forward_table L' = forward_table L \<and> valid_ledger env L'
      \<and> reserve_forward_positions env now2 now2 (phase @ '':'' @ label @ '':input'') ''generation''
          positions identity L' = Inl e)"
proof -
  let ?req = "\<lparr>n_updates = 0, n_targets = 0, n_calls = 1, n_tokens = tokens\<rparr>"
  let ?first = "reserve_vector env now1 now1 (phase @ '':'' @ label @ '':request'') ?req identity L"
  show ?thesis
  proof (cases ?first)
    case (Inl e1)
    with assms(1) show ?thesis by (simp add: reserve_generation_def split: if_splits)
  next
    case (Inr p)
    then obtain left L1 where first: "?first = Inr (left, L1)" by (cases p) auto
    show ?thesis
    proof (cases "path = [] \<or> identity = [] \<or> phase = []")
      case True
      with assms(1) show ?thesis by (simp add: reserve_generation_def)
    next
      case False
      with assms(1) first have "L' = L1 \<and> reserve_forward_positions env now2 now2
          (phase @ '':'' @ label @ '':input'') ''generation'' positions identity L1 = Inl e"
        by (auto simp: reserve_generation_def split: sum.splits)
      with reserve_vector_valid [OF assms(2) first] first show ?thesis
        by (auto simp: reserve_vector_Inr charges_snoc new_reservation_def add_counters_def)
    qed
  qed
qed

definition sample_generation :: ledger where
  "sample_generation = snd (reserve_generation sample_env 6 7 ''db'' zero_sha ''p'' ''g'' 8 500 sample_ledger)"

theorem generation_charges_first_witness:
  "sample_generation = sample_ledger \<or>
    (n_calls (charges (reservations sample_generation)) = n_calls (charges (reservations sample_ledger)) + 1
      \<and> n_tokens (charges (reservations sample_generation)) = n_tokens (charges (reservations sample_ledger)) + 8
      \<and> forward_table sample_generation = forward_table sample_ledger \<and> valid_ledger sample_env sample_generation
      \<and> reserve_forward_positions sample_env 7 7 (''p'' @ '':'' @ ''g'' @ '':input'') ''generation''
          500 zero_sha sample_generation = Inl TotalForwardLimit)"
proof (rule generation_charges_first [OF _ sample_valid])
  show "reserve_generation sample_env 6 7 ''db'' zero_sha ''p'' ''g'' 8 500 sample_ledger
      = (Inl TotalForwardLimit, sample_generation)"
    by code_simp
qed

end
