(* ===== verification/Project_Spec.thy ===== *)
theory Project_Spec
  imports Json Lab_Interfaces "HOL-Library.Char_ord" "HOL-Library.List_Lexorder"
begin

text \<open>
  \<open>src/sparselab/corpus/project.py\<close>: the declarations of a corpus project that bounded
  acquisition reads (exact Git blobs, exact Hugging Face shards, the transport budget, the
  effect declared for each source) with their validators, and the traversal that rejects
  cyclic transform inputs.

  A declaration is a record whose fields have the model's types, so pydantic's type and
  strictness checks hold by construction; its \<open>Field\<close> bounds and model validators are the
  functions \<open>valid_*\<close>, with one error per message. The order on strings is the order on code
  points that Python's \<open>sorted\<close> uses.
\<close>

datatype project_error =
    FieldOutOfRange | UnsafePath | BadObjectId | NotTextBlob | EmptyInclude | NotExactBlobs
  | BadTreeId | BlobsNotSorted | BlobsExceedMax | NotExactShard | BadShardSuffix | BadChecksum
  | ConfigSplitNotPaired | BlankValue | BadRemainders | SnapshotNotAbsolute | BadSnapshotPin
  | RetainedTooLarge | QualificationNeedsShards | IncludeOrShards | DuplicateShardPath
  | ShardMetadataContradicts | ShardOutsideConfig | ShardOutsideSplit | GateNeedsLargerTotal
  | BadAttemptId | BadEffectBinding | ReuseNeedsOrigin | AcquiredHasOrigin | BadProjectId
  | ReferencesNotUnique | ReferencesNotSorted | BadDeclarationPath | EffectsNotSorted
  | EffectsIncomplete | EffectMismatch string | ReuseNotImmutable
  | CyclicInputs | UnknownInput string

section \<open>Names\<close>

fun split_on :: "'a \<Rightarrow> 'a list \<Rightarrow> 'a list list" where
  "split_on c [] = [[]]"
| "split_on c (x # xs) =
     (if x = c then [] # split_on c xs
      else case split_on c xs of [] \<Rightarrow> [[x]] | p # ps \<Rightarrow> (x # p) # ps)"

fun join_on :: "'a \<Rightarrow> 'a list list \<Rightarrow> 'a list" where
  "join_on c [] = []"
| "join_on c [p] = p"
| "join_on c (p # ps) = p @ c # join_on c ps"

definition starts_with :: "string \<Rightarrow> string \<Rightarrow> bool" where
  "starts_with p s \<longleftrightarrow> take (length p) s = p"

definition ends_with :: "string \<Rightarrow> string \<Rightarrow> bool" where
  "ends_with p s \<longleftrightarrow> length p \<le> length s \<and> drop (length s - length p) s = p"

text \<open>\<open>PurePosixPath(value).as_posix()\<close> of a relative path: empty and \<open>.\<close> parts disappear.\<close>

definition as_posix :: "string \<Rightarrow> string" where
  "as_posix s = (let parts = filter (\<lambda>p. p \<noteq> [] \<and> p \<noteq> ''.'') (split_on CHR ''/'' s)
     in if parts = [] then ''.'' else join_on CHR ''/'' parts)"

definition safe_name :: "string \<Rightarrow> bool" where
  "safe_name value \<longleftrightarrow> \<not> (value = [] \<or> starts_with ''/'' value \<or> CHR 0x5C \<in> set value
     \<or> list_ex (\<lambda>part. part \<in> {[], ''.'', ''..''}) (split_on CHR ''/'' value)
     \<or> as_posix value \<noteq> value)"

text \<open>\<open>[a-z][a-z0-9_-]*\<close>, \<open>[0-9a-fA-F]{64}\<close> and \<open>[0-9a-fA-F]{40}\<close>\<close>

fun config_id :: "string \<Rightarrow> bool" where
  "config_id [] = False"
| "config_id (c # cs) = (is_lower_alpha c
     \<and> list_all (\<lambda>x. is_lower_alpha x \<or> is_digit x \<or> x = CHR ''_'' \<or> x = CHR ''-'') cs)"

definition any_hex :: "char \<Rightarrow> bool" where
  "any_hex c \<longleftrightarrow> is_hex c \<or> 65 \<le> (of_char c :: nat) \<and> (of_char c :: nat) \<le> 70"

definition hex_of_length :: "nat \<Rightarrow> string \<Rightarrow> bool" where
  "hex_of_length n s \<longleftrightarrow> length s = n \<and> list_all any_hex s"

definition strictly_sorted :: "string list \<Rightarrow> bool" where
  "strictly_sorted xs \<longleftrightarrow> sorted xs \<and> distinct xs"

section \<open>Git and Hugging Face acquisitions\<close>

record git_blob =
  gb_path :: string
  gb_oid :: string
  gb_max_bytes :: int

record git_acq =
  ga_include :: "string list"
  ga_exclude :: "string list"
  ga_max_bytes :: int
  ga_tree_oid :: "string option"
  ga_blobs :: "git_blob list option"

definition valid_git_blob :: "git_blob \<Rightarrow> project_error + unit" where
  "valid_git_blob b =
     (if \<not> 0 < gb_max_bytes b then Inl FieldOutOfRange
      else if \<not> safe_name (gb_path b) then Inl UnsafePath
      else if \<not> hex_of_length 40 (gb_oid b) then Inl BadObjectId
      else if \<not> list_ex (\<lambda>e. ends_with e (gb_path b)) [''.md'', ''.markdown'', ''.txt'']
              \<and> gb_path b \<notin> {''LICENSE'', ''README.md''} then Inl NotTextBlob
      else Inr ())"

definition plain_pattern :: "string \<Rightarrow> string" where
  "plain_pattern p = map (\<lambda>c. if c = CHR ''*'' \<or> c = CHR 0x3F then CHR ''x'' else c) p"

definition valid_git_acq :: "git_acq \<Rightarrow> project_error + unit" where
  "valid_git_acq a =
     bindE (guardE (0 < ga_max_bytes a) FieldOutOfRange) (\<lambda>_.
     bindE (guardE (list_all (\<lambda>p. safe_name (plain_pattern p)) (ga_include a @ ga_exclude a)) UnsafePath) (\<lambda>_.
     bindE (case ga_blobs a of None \<Rightarrow> Inr [] | Some bs \<Rightarrow> mapE valid_git_blob bs) (\<lambda>_.
       case ga_blobs a of
         None \<Rightarrow> guardE (ga_include a \<noteq> [] \<and> ga_tree_oid a = None) EmptyInclude
       | Some bs \<Rightarrow>
           if ga_include a \<noteq> [] \<or> ga_exclude a \<noteq> [] \<or> bs = [] then Inl NotExactBlobs
           else if (case ga_tree_oid a of None \<Rightarrow> True | Some t \<Rightarrow> \<not> hex_of_length 40 t) then Inl BadTreeId
           else if \<not> strictly_sorted (map gb_path bs) then Inl BlobsNotSorted
           else if (\<Sum>b\<leftarrow>bs. gb_max_bytes b) > ga_max_bytes a then Inl BlobsExceedMax
           else Inr ())))"

record hf_shard =
  hs_path :: string
  hs_sha256 :: string
  hs_max_bytes :: int
  hs_max_rows :: int
  hs_modulus :: int
  hs_remainders :: "int list"
  hs_config :: "string option"
  hs_split :: "string option"

definition valid_hf_shard :: "hf_shard \<Rightarrow> project_error + unit" where
  "valid_hf_shard s =
     (if \<not> (0 < hs_max_bytes s \<and> 0 < hs_max_rows s \<and> 0 < hs_modulus s) then Inl FieldOutOfRange
      else if \<not> safe_name (hs_path s) then Inl UnsafePath
      else if list_ex (\<lambda>c. c \<in> set ''*?[]'') (hs_path s) then Inl NotExactShard
      else if \<not> list_ex (\<lambda>e. ends_with e (hs_path s)) [''.parquet'', ''.jsonl'', ''.jsonl.gz'', ''.json.gz'']
      then Inl BadShardSuffix
      else if \<not> hex_of_length 64 (hs_sha256 s) then Inl BadChecksum
      else if (hs_config s = None) \<noteq> (hs_split s = None) then Inl ConfigSplitNotPaired
      else if (case (hs_config s, hs_split s) of (Some c, Some p) \<Rightarrow> blank c \<or> blank p | _ \<Rightarrow> False)
      then Inl BlankValue
      else if hs_remainders s = [] \<or> \<not> distinct (hs_remainders s)
              \<or> \<not> list_all (\<lambda>n. 0 \<le> n \<and> n < hs_modulus s) (hs_remainders s) then Inl BadRemainders
      else Inr ())"

definition RETAINED_MAX_ROWS :: int where "RETAINED_MAX_ROWS = 30000"
definition RETAINED_MAX_BYTES :: int where "RETAINED_MAX_BYTES = 100 * 1024 ^ 2"

record retained_subset =
  rs_path :: string
  rs_snapshot_sha256 :: string
  rs_manifest_sha256 :: string
  rs_profile_id :: string
  rs_seed :: int
  rs_max_record_bytes :: int

definition valid_retained_subset :: "retained_subset \<Rightarrow> project_error + unit" where
  "valid_retained_subset r =
     (if \<not> (0 < rs_max_record_bytes r \<and> rs_max_record_bytes r \<le> 262144) then Inl FieldOutOfRange
      else if \<not> starts_with ''/'' (rs_path r) then Inl SnapshotNotAbsolute
      else if \<not> (hex_of_length 64 (rs_snapshot_sha256 r) \<and> hex_of_length 64 (rs_manifest_sha256 r))
      then Inl BadSnapshotPin
      else if blank (rs_profile_id r) then Inl BlankValue
      else Inr ())"

text \<open>
  \<open>hf_qualified\<close> says whether the declaration carries a row qualification; the qualification's
  own rules are in another module.
\<close>

record hf_acq =
  hf_retained :: "retained_subset option"
  hf_qualified :: bool
  hf_config :: string
  hf_split :: string
  hf_include :: "string list"
  hf_shards :: "hf_shard list option"
  hf_text_field :: string
  hf_max_rows :: int
  hf_max_bytes :: int
  hf_max_decompressed_bytes :: "int option"

fun shard_list :: "hf_shard list option \<Rightarrow> hf_shard list" where
  "shard_list None = []"
| "shard_list (Some xs) = xs"

definition shard_placed :: "hf_acq \<Rightarrow> hf_shard \<Rightarrow> project_error + unit" where
  "shard_placed a s =
     (case (hs_config s, hs_split s) of
        (Some c, p) \<Rightarrow>
          if (Some c, p) \<noteq> (Some (hf_config a), Some (hf_split a)) then Inl ShardMetadataContradicts
          else Inr ()
      | (None, _) \<Rightarrow>
          let parts = split_on CHR ''/'' (hs_path s)
          in if hf_config a \<notin> set parts \<and> \<not> starts_with (hf_config a @ ''-'') (last parts)
             then Inl ShardOutsideConfig
             else if hf_split a \<notin> set parts
               \<and> \<not> list_ex (\<lambda>p. starts_with (hf_split a @ ''-'') p \<or> starts_with (hf_split a @ ''.'') p) parts
             then Inl ShardOutsideSplit
             else Inr ())"

definition valid_hf_acq :: "hf_acq \<Rightarrow> project_error + unit" where
  "valid_hf_acq a =
     bindE (guardE (0 < hf_max_rows a \<and> 0 < hf_max_bytes a
       \<and> (case hf_max_decompressed_bytes a of None \<Rightarrow> True | Some n \<Rightarrow> 0 < n)) FieldOutOfRange) (\<lambda>_.
     bindE (case hf_retained a of None \<Rightarrow> Inr () | Some r \<Rightarrow> valid_retained_subset r) (\<lambda>_.
     bindE (mapE valid_hf_shard (shard_list (hf_shards a))) (\<lambda>_.
       let shards = shard_list (hf_shards a)
       in if hf_retained a \<noteq> None \<and> (shards = [] \<or> length shards \<noteq> 1
              \<or> hf_max_rows a > RETAINED_MAX_ROWS \<or> hf_max_bytes a > RETAINED_MAX_BYTES)
          then Inl RetainedTooLarge
          else if hf_qualified a \<and> shards = [] then Inl QualificationNeedsShards
          else if (hf_include a \<noteq> []) = (shards \<noteq> []) then Inl IncludeOrShards
          else if \<not> list_all (\<lambda>p. safe_name (plain_pattern p)) (hf_include a) then Inl UnsafePath
          else if \<not> distinct (map hs_path shards) then Inl DuplicateShardPath
          else
            bindE (mapE (shard_placed a) shards) (\<lambda>_.
              guardE (\<not> blank (hf_config a) \<and> \<not> blank (hf_split a) \<and> \<not> blank (hf_text_field a))
                BlankValue))))"

section \<open>The transport budget and the source effects\<close>

record transport_spec =
  attempt_id :: string
  max_source_body_bytes :: int
  max_metadata_body_bytes :: int
  max_transfers :: int
  max_retries_per_shard :: int
  max_wall_seconds :: int
  max_disk_bytes :: int
  max_total_body_bytes :: "int option"
  initial_body_bytes :: "int option"

fun positive_opt :: "int option \<Rightarrow> bool" where
  "positive_opt None = True"
| "positive_opt (Some n) = (0 < n)"

definition valid_transport_spec :: "transport_spec \<Rightarrow> project_error + unit" where
  "valid_transport_spec s =
     (if \<not> (0 < max_source_body_bytes s \<and> 0 < max_metadata_body_bytes s \<and> 0 < max_transfers s
          \<and> 0 \<le> max_retries_per_shard s \<and> 0 < max_wall_seconds s \<and> 0 < max_disk_bytes s
          \<and> positive_opt (max_total_body_bytes s) \<and> positive_opt (initial_body_bytes s))
      then Inl FieldOutOfRange
      else if \<not> config_id (attempt_id s) then Inl BadAttemptId
      else case initial_body_bytes s of
        None \<Rightarrow> Inr ()
      | Some i \<Rightarrow> (case max_total_body_bytes s of
            None \<Rightarrow> Inl GateNeedsLargerTotal
          | Some t \<Rightarrow> if i \<ge> t then Inl GateNeedsLargerTotal else Inr ()))"

datatype effect_kind = ReuseOnly | Acquire

record source_effect =
  se_source_id :: string
  se_declaration_sha256 :: string
  se_effect :: effect_kind
  se_origin_project_id :: "string option"
  se_snapshot_sha256 :: "string option"

definition valid_source_effect :: "source_effect \<Rightarrow> project_error + unit" where
  "valid_source_effect e =
     (if \<not> config_id (se_source_id e) \<or> \<not> hex_of_length 64 (se_declaration_sha256 e)
      then Inl BadEffectBinding
      else case se_effect e of
        ReuseOnly \<Rightarrow>
          (case (se_origin_project_id e, se_snapshot_sha256 e) of
             (Some origin, Some snapshot) \<Rightarrow>
               if config_id origin \<and> hex_of_length 64 snapshot then Inr () else Inl ReuseNeedsOrigin
           | _ \<Rightarrow> Inl ReuseNeedsOrigin)
      | Acquire \<Rightarrow>
          if se_origin_project_id e \<noteq> None \<or> se_snapshot_sha256 e \<noteq> None then Inl AcquiredHasOrigin
          else Inr ())"

section \<open>The project\<close>

text \<open>
  The acquisition of a source is one of the code's acquisition models; only the two bounded
  ones are opened here, the others keep their kind.
\<close>

datatype acquisition = GitAcquisition git_acq | HuggingFaceAcquisition hf_acq | OtherAcquisition

record source_declaration =
  source_id :: string
  source_kind :: string
  canonical_uri :: string
  revision :: string
  redistribution :: "string option"
  acquisition_spec :: acquisition

definition git_bounded :: "source_declaration \<Rightarrow> (git_acq \<times> git_blob list) option" where
  "git_bounded s = (if source_kind s = ''git'' then
       (case acquisition_spec s of
          GitAcquisition a \<Rightarrow> map_option (\<lambda>bs. (a, bs)) (ga_blobs a) | _ \<Rightarrow> None) else None)"

definition hf_bounded :: "source_declaration \<Rightarrow> (hf_acq \<times> hf_shard list) option" where
  "hf_bounded s = (if source_kind s = ''huggingface_dataset'' then
       (case acquisition_spec s of
          HuggingFaceAcquisition a \<Rightarrow> map_option (\<lambda>xs. (a, xs)) (hf_shards a) | _ \<Rightarrow> None) else None)"

record project_config =
  config_project_id :: string
  config_sources :: "string list"
  config_transforms :: "string list"
  config_splits :: string
  config_release :: string
  config_transport_budget :: "transport_spec option"
  config_source_effects :: "source_effect list option"

definition declaration_path_ok :: "string \<Rightarrow> string \<Rightarrow> bool" where
  "declaration_path_ok folder path \<longleftrightarrow>
     starts_with (folder @ ''/'') path \<and> ends_with ''.yaml'' path"

definition valid_project_config :: "project_config \<Rightarrow> project_error + unit" where
  "valid_project_config c =
     bindE (guardE (config_id (config_project_id c)) BadProjectId) (\<lambda>_.
     bindE (guardE (config_sources c \<noteq> [] \<and> distinct (config_sources c)
         \<and> distinct (config_transforms c)) ReferencesNotUnique) (\<lambda>_.
     bindE (guardE (config_sources c = sort (config_sources c)) ReferencesNotSorted) (\<lambda>_.
     bindE (mapE (\<lambda>p. if \<not> safe_name p then Inl UnsafePath
         else guardE (declaration_path_ok ''sources'' p) BadDeclarationPath) (config_sources c)) (\<lambda>_.
     bindE (mapE (\<lambda>p. if \<not> safe_name p then Inl UnsafePath
         else guardE (declaration_path_ok ''transforms'' p) BadDeclarationPath) (config_transforms c)) (\<lambda>_.
     bindE (guardE (safe_name (config_splits c) \<and> safe_name (config_release c)) UnsafePath) (\<lambda>_.
       case config_source_effects c of
         None \<Rightarrow> Inr ()
       | Some es \<Rightarrow> guardE (es \<noteq> [] \<and> strictly_sorted (map se_source_id es)) EffectsNotSorted))))))"

record project =
  p_config :: project_config
  p_sources :: "source_declaration list"

text \<open>A Python dict built from a list of items: the last item of a key wins.\<close>

definition effects_by_id :: "source_effect list \<Rightarrow> string \<Rightarrow> source_effect option" where
  "effects_by_id es = map_of (rev (map (\<lambda>e. (se_source_id e, e)) es))"

text \<open>
  The part of \<open>rights_protocol_consistent\<close> about source effects; \<open>declaration_sha256\<close> is the
  digest of a source's canonical declaration.
\<close>

definition effects_consistent :: "(source_declaration \<Rightarrow> string) \<Rightarrow> project \<Rightarrow> project_error + unit" where
  "effects_consistent declaration_sha256 p =
     (case config_source_effects (p_config p) of
        None \<Rightarrow> Inr ()
      | Some es \<Rightarrow>
          if set (map se_source_id es) \<noteq> set (map source_id (p_sources p)) then Inl EffectsIncomplete
          else foldE (\<lambda>_ s. case effects_by_id es (source_id s) of
                 None \<Rightarrow> Inl EffectsIncomplete
               | Some e \<Rightarrow>
                   if se_declaration_sha256 e \<noteq> declaration_sha256 s then Inl (EffectMismatch (source_id s))
                   else if se_effect e = ReuseOnly
                     \<and> source_kind s \<notin> {''git'', ''huggingface_dataset'', ''wikimedia_dump''}
                   then Inl ReuseNotImmutable else Inr ()) () (p_sources p))"

section \<open>Transform inputs\<close>

text \<open>
  \<open>check_inputs\<close> of \<open>load_project\<close>: a depth-first traversal with a set of nodes on the current
  path and a set of finished nodes. The inputs of a transform are a map (a dict by transform
  id). The recursion is bounded by the number of transforms, because a node on the path is
  never entered again; \<open>fuel\<close> is that bound, and running out of it is the value \<open>None\<close>.
\<close>

fun check_inputs :: "nat \<Rightarrow> (string \<Rightarrow> string list option) \<Rightarrow> string list \<Rightarrow> string list \<Rightarrow> string list
    \<Rightarrow> string \<Rightarrow> (project_error + string list) option"
and check_each :: "nat \<Rightarrow> (string \<Rightarrow> string list option) \<Rightarrow> string list \<Rightarrow> string list \<Rightarrow> string list
    \<Rightarrow> string list \<Rightarrow> (project_error + string list) option" where
  "check_inputs 0 inputs sources visiting visited t = None"
| "check_inputs (Suc fuel) inputs sources visiting visited t =
     (if t \<in> set visiting then Some (Inl CyclicInputs)
      else if t \<in> set visited then Some (Inr visited)
      else case inputs t of
        None \<Rightarrow> Some (Inl (UnknownInput t))
      | Some ins \<Rightarrow>
          (case check_each fuel inputs sources (t # visiting) visited ins of
             None \<Rightarrow> None
           | Some (Inl e) \<Rightarrow> Some (Inl e)
           | Some (Inr visited') \<Rightarrow> Some (Inr (t # visited'))))"
| "check_each fuel inputs sources visiting visited [] = Some (Inr visited)"
| "check_each fuel inputs sources visiting visited (i # rest) =
     (case (if inputs i \<noteq> None then check_inputs fuel inputs sources visiting visited i
            else if i \<notin> set sources then Some (Inl (UnknownInput i))
            else Some (Inr visited)) of
        None \<Rightarrow> None
      | Some (Inl e) \<Rightarrow> Some (Inl e)
      | Some (Inr visited') \<Rightarrow> check_each fuel inputs sources visiting visited' rest)"

fun check_transforms :: "nat \<Rightarrow> (string \<Rightarrow> string list option) \<Rightarrow> string list \<Rightarrow> string list
    \<Rightarrow> string list \<Rightarrow> (project_error + string list) option" where
  "check_transforms fuel inputs sources visited [] = Some (Inr visited)"
| "check_transforms fuel inputs sources visited (t # ts) =
     (case check_inputs fuel inputs sources [] visited t of
        None \<Rightarrow> None
      | Some (Inl e) \<Rightarrow> Some (Inl e)
      | Some (Inr visited') \<Rightarrow> check_transforms fuel inputs sources visited' ts)"

text \<open>
  The whole test: the declared transforms as \<open>(id, inputs)\<close> pairs, every one checked in order.
\<close>

definition check_project_inputs :: "string list \<Rightarrow> (string \<times> string list) list \<Rightarrow> (project_error + string list) option" where
  "check_project_inputs sources transforms =
     check_transforms (Suc (length transforms)) (map_of transforms) sources [] (map fst transforms)"

section \<open>The traversal rejects exactly the cyclic projects\<close>

definition input_edges :: "(string \<Rightarrow> string list option) \<Rightarrow> (string \<times> string) set" where
  "input_edges inputs = {(t, i). \<exists>ins. inputs t = Some ins \<and> i \<in> set ins \<and> inputs i \<noteq> None}"

definition inputs_known :: "(string \<Rightarrow> string list option) \<Rightarrow> string list \<Rightarrow> bool" where
  "inputs_known inputs sources \<longleftrightarrow>
     (\<forall>t ins. inputs t = Some ins \<longrightarrow> (\<forall>i \<in> set ins. inputs i \<noteq> None \<or> i \<in> set sources))"

text \<open>Finished nodes are listed so that the inputs of a node stand behind it.\<close>

fun finished :: "(string \<Rightarrow> string list option) \<Rightarrow> string list \<Rightarrow> string list \<Rightarrow> bool" where
  "finished inputs sources [] = True"
| "finished inputs sources (t # ts) = (finished inputs sources ts \<and> t \<notin> set ts
     \<and> (\<exists>ins. inputs t = Some ins
         \<and> (\<forall>i \<in> set ins. if inputs i \<noteq> None then i \<in> set ts else i \<in> set sources)))"

lemma finished_closed:
  "finished inputs sources V \<Longrightarrow> t \<in> set V \<Longrightarrow> (t, i) \<in> input_edges inputs \<Longrightarrow> i \<in> set V"
  by (induction V) (fastforce simp: input_edges_def split: if_splits)+

lemma finished_closed_trancl:
  assumes "(t, i) \<in> (input_edges inputs)\<^sup>+" and "finished inputs sources V" and "t \<in> set V"
  shows "i \<in> set V"
  using assms by (induction rule: trancl_induct) (auto dest: finished_closed)

lemma finished_acyclic:
  "finished inputs sources V \<Longrightarrow> t \<in> set V \<Longrightarrow> (t, t) \<notin> (input_edges inputs)\<^sup>+"
proof (induction V)
  case Nil
  then show ?case by simp
next
  case (Cons s V)
  show ?case
  proof (cases "t \<in> set V")
    case True
    with Cons show ?thesis by simp
  next
    case False
    with Cons.prems have t: "t = s" "finished inputs sources V" "t \<notin> set V" by auto
    show ?thesis
    proof
      assume "(t, t) \<in> (input_edges inputs)\<^sup>+"
      then obtain i where i: "(t, i) \<in> input_edges inputs" "(i, t) \<in> (input_edges inputs)\<^sup>*"
        by (auto dest: tranclD)
      with Cons.prems(1) t have "i \<in> set V"
        by (auto simp: input_edges_def split: if_splits)
      with i(2) t have "t \<in> set V"
        by (auto simp: rtrancl_eq_or_trancl dest: finished_closed_trancl)
      with t show False by simp
    qed
  qed
qed

text \<open>What the two functions of the traversal return when they accept.\<close>

definition grows :: "(string \<Rightarrow> string list option) \<Rightarrow> string list \<Rightarrow> string list \<Rightarrow> string list
    \<Rightarrow> string list \<Rightarrow> bool" where
  "grows inputs sources visiting V V' \<longleftrightarrow>
     finished inputs sources V' \<and> set V \<subseteq> set V' \<and> set visiting \<inter> set V' = {}"

lemma check_accepts:
  "check_inputs fuel inputs sources visiting V t = Some (Inr V') \<Longrightarrow>
     finished inputs sources V \<Longrightarrow> set visiting \<inter> set V = {} \<Longrightarrow>
     grows inputs sources visiting V V' \<and> t \<in> set V'"
  "check_each fuel inputs sources visiting V ins = Some (Inr V') \<Longrightarrow>
     finished inputs sources V \<Longrightarrow> set visiting \<inter> set V = {} \<Longrightarrow>
     grows inputs sources visiting V V'
     \<and> (\<forall>i \<in> set ins. if inputs i \<noteq> None then i \<in> set V' else i \<in> set sources)"
proof (induction fuel inputs sources visiting V t and fuel inputs sources visiting V ins
    arbitrary: V' and V' rule: check_inputs_check_each.induct)
  case (1 inputs sources visiting visited t)
  then show ?case by simp
next
  case (2 fuel inputs sources visiting visited t)
  then have nv: "t \<notin> set visiting" by (auto split: if_splits)
  show ?case
  proof (cases "t \<in> set visited")
    case True
    with 2(2-4) nv show ?thesis by (auto simp: grows_def)
  next
    case False
    with 2(2) nv obtain ins U where u: "inputs t = Some ins"
      "check_each fuel inputs sources (t # visiting) visited ins = Some (Inr U)" "V' = t # U"
      by (auto split: option.splits sum.splits)
    from 2(1) [OF nv False u(1,2) 2(3)] 2(4) False
    have g: "grows inputs sources (t # visiting) visited U"
      "\<forall>i \<in> set ins. if inputs i \<noteq> None then i \<in> set U else i \<in> set sources" by auto
    with u nv show ?thesis by (auto simp: grows_def)
  qed
next
  case (3 fuel inputs sources visiting visited)
  then show ?case by (auto simp: grows_def)
next
  case (4 fuel inputs sources visiting visited i rest)
  let ?head = "if inputs i \<noteq> None then check_inputs fuel inputs sources visiting visited i
     else if i \<notin> set sources then Some (Inl (UnknownInput i)) else Some (Inr visited)"
  from 4(3) obtain U where u: "?head = Some (Inr U)"
    "check_each fuel inputs sources visiting U rest = Some (Inr V')"
    by (auto split: option.splits sum.splits)
  have "grows inputs sources visiting visited U
      \<and> (if inputs i \<noteq> None then i \<in> set U else i \<in> set sources)"
    using u(1) 4(1) 4(4,5) by (auto simp: grows_def split: if_splits)
  moreover from this 4(2) [OF u(1) refl u(2)] have "grows inputs sources visiting U V'
     \<and> (\<forall>i \<in> set rest. if inputs i \<noteq> None then i \<in> set V' else i \<in> set sources)"
    by (auto simp: grows_def)
  ultimately show ?case by (auto simp: grows_def split: if_splits)
qed

text \<open>A refusal is justified by a cycle or by an undeclared input.\<close>

definition refusal_justified :: "(string \<Rightarrow> string list option) \<Rightarrow> string list \<Rightarrow> bool" where
  "refusal_justified inputs sources \<longleftrightarrow> \<not> acyclic (input_edges inputs) \<or> \<not> inputs_known inputs sources"

lemma check_refuses:
  "check_inputs fuel inputs sources visiting V t = Some (Inl e) \<Longrightarrow> inputs t \<noteq> None \<Longrightarrow>
     (\<forall>v \<in> set visiting. (v, t) \<in> (input_edges inputs)\<^sup>+) \<Longrightarrow> refusal_justified inputs sources"
  "check_each fuel inputs sources visiting V ins = Some (Inl e) \<Longrightarrow>
     visiting \<noteq> [] \<and> (\<exists>all. inputs (hd visiting) = Some all \<and> set ins \<subseteq> set all) \<Longrightarrow>
     (\<forall>v \<in> set (tl visiting). (v, hd visiting) \<in> (input_edges inputs)\<^sup>+) \<Longrightarrow> refusal_justified inputs sources"
proof (induction fuel inputs sources visiting V t and fuel inputs sources visiting V ins
    rule: check_inputs_check_each.induct)
  case (1 inputs sources visiting visited t)
  then show ?case by simp
next
  case (2 fuel inputs sources visiting visited t)
  show ?case
  proof (cases "t \<in> set visiting")
    case True
    with 2(4) show ?thesis by (auto simp: refusal_justified_def acyclic_def)
  next
    case nv: False
    with 2(2) have nd: "t \<notin> set visited" by (auto split: if_splits)
    from 2(3) obtain ins where ins: "inputs t = Some ins" by auto
    with 2(2) nv nd have each: "check_each fuel inputs sources (t # visiting) visited ins = Some (Inl e)"
      by (auto split: option.splits sum.splits)
    show ?thesis
      by (rule 2(1) [OF nv nd ins each]) (use ins 2(4) in auto)
  qed
next
  case (3 fuel inputs sources visiting visited)
  then show ?case by simp
next
  case (4 fuel inputs sources visiting visited i rest)
  from 4(4) obtain v vs ins where v: "visiting = v # vs" "inputs v = Some ins" "i \<in> set ins" "set rest \<subseteq> set ins"
    by (cases visiting) auto
  consider (head) "inputs i \<noteq> None" "check_inputs fuel inputs sources visiting visited i = Some (Inl e)"
    | (unknown) "inputs i = None" "i \<notin> set sources"
    | (rest) U where "(if inputs i \<noteq> None then check_inputs fuel inputs sources visiting visited i
        else if i \<notin> set sources then Some (Inl (UnknownInput i)) else Some (Inr visited)) = Some (Inr U)"
        "check_each fuel inputs sources visiting U rest = Some (Inl e)"
    using 4(3) by (auto split: option.splits sum.splits if_splits)
  then show ?case
  proof cases
    case head
    then have "(v, i) \<in> input_edges inputs" using v by (auto simp: input_edges_def)
    then have "\<forall>x \<in> set visiting. (x, i) \<in> (input_edges inputs)\<^sup>+"
      using 4(5) v(1) by (auto intro: trancl.intros)
    then show ?thesis using 4(1) [OF head(1,2) head(1)] by simp
  next
    case unknown
    then show ?thesis using v by (auto simp: refusal_justified_def inputs_known_def)
  next
    case rest
    then show ?thesis using 4(2) [OF rest(1) refl rest(2)] 4(5) v by auto
  qed
qed

text \<open>The traversal is total with the fuel that \<open>check_project_inputs\<close> gives it.\<close>

lemma check_total:
  "distinct visiting \<Longrightarrow> set visiting \<subseteq> D \<Longrightarrow> card D < length visiting + fuel \<Longrightarrow>
     (\<And>x. inputs x \<noteq> None \<Longrightarrow> x \<in> D) \<Longrightarrow> finite D \<Longrightarrow>
     check_inputs fuel inputs sources visiting V t \<noteq> None"
  "distinct visiting \<Longrightarrow> set visiting \<subseteq> D \<Longrightarrow> card D < length visiting + fuel \<Longrightarrow>
     (\<And>x. inputs x \<noteq> None \<Longrightarrow> x \<in> D) \<Longrightarrow> finite D \<Longrightarrow>
     check_each fuel inputs sources visiting V ins \<noteq> None"
proof (induction fuel inputs sources visiting V t and fuel inputs sources visiting V ins
    rule: check_inputs_check_each.induct)
  case (1 inputs sources visiting visited t)
  then show ?case using card_mono [of D "set visiting"] by (auto simp: distinct_card)
next
  case (2 fuel inputs sources visiting visited t)
  show ?case
  proof (cases "t \<in> set visiting \<or> t \<in> set visited \<or> inputs t = None")
    case True
    then show ?thesis by auto
  next
    case False
    then obtain ins where ins: "t \<notin> set visiting" "t \<notin> set visited" "inputs t = Some ins" by auto
    have "check_each fuel inputs sources (t # visiting) visited ins \<noteq> None"
      by (rule 2(1) [OF ins]) (use 2(2-6) ins in auto)
    with ins show ?thesis by (auto split: option.splits sum.splits)
  qed
next
  case (3 fuel inputs sources visiting visited)
  then show ?case by simp
next
  case (4 fuel inputs sources visiting visited i rest)
  have "\<exists>r. (if inputs i \<noteq> None then check_inputs fuel inputs sources visiting visited i
     else if i \<notin> set sources then Some (Inl (UnknownInput i)) else Some (Inr visited)) = Some r"
    using 4(1) [OF _ 4(3-7)] by auto
  then obtain r where r: "(if inputs i \<noteq> None then check_inputs fuel inputs sources visiting visited i
     else if i \<notin> set sources then Some (Inl (UnknownInput i)) else Some (Inr visited)) = Some r" ..
  show ?case
  proof (cases r)
    case (Inl e)
    with r show ?thesis by simp
  next
    case (Inr U)
    with r 4(2) [OF r [unfolded Inr] refl 4(3-7)] show ?thesis by simp
  qed
qed

lemma check_transforms_result:
  assumes "\<And>x. inputs x \<noteq> None \<longleftrightarrow> x \<in> D" and "finite D" and "card D < fuel"
    and "set ts \<subseteq> D" and "finished inputs sources V"
  shows "\<exists>r. check_transforms fuel inputs sources V ts = Some r
    \<and> (case r of Inl e \<Rightarrow> refusal_justified inputs sources
       | Inr V' \<Rightarrow> finished inputs sources V' \<and> set V \<subseteq> set V' \<and> set ts \<subseteq> set V')"
  using assms(4,5)
proof (induction ts arbitrary: V)
  case Nil
  then show ?case by simp
next
  case (Cons t ts)
  have "check_inputs fuel inputs sources [] V t \<noteq> None"
    by (rule check_total(1) [of "[]" D]) (use assms(1-3) in auto)
  then obtain r where r: "check_inputs fuel inputs sources [] V t = Some r" by auto
  show ?case
  proof (cases r)
    case (Inl e)
    have "inputs t \<noteq> None" using Cons.prems(1) assms(1) by simp
    from check_refuses(1) [OF r [unfolded Inl] this] have "refusal_justified inputs sources" by simp
    with r Inl show ?thesis by simp
  next
    case (Inr U)
    from check_accepts(1) [OF r [unfolded Inr] Cons.prems(2)]
    have U: "finished inputs sources U" "set V \<subseteq> set U" "t \<in> set U" by (auto simp: grows_def)
    from Cons.IH [OF _ U(1)] Cons.prems(1) obtain r' where r':
      "check_transforms fuel inputs sources U ts = Some r'"
      "case r' of Inl e \<Rightarrow> refusal_justified inputs sources
       | Inr V' \<Rightarrow> finished inputs sources V' \<and> set U \<subseteq> set V' \<and> set ts \<subseteq> set V'" by auto
    with r Inr U show ?thesis by (auto split: sum.splits)
  qed
qed

lemma finished_all:
  assumes "finished inputs sources V" and "\<And>x. inputs x \<noteq> None \<Longrightarrow> x \<in> set V"
  shows "acyclic (input_edges inputs) \<and> inputs_known inputs sources"
proof
  show "acyclic (input_edges inputs)"
  proof (rule acyclicI, rule allI, rule notI)
    fix t assume cycle: "(t, t) \<in> (input_edges inputs)\<^sup>+"
    then have "inputs t \<noteq> None" by (induction rule: converse_trancl_induct) (auto simp: input_edges_def)
    with assms cycle show False by (auto dest: finished_acyclic)
  qed
  have known: "finished inputs sources W \<Longrightarrow> t \<in> set W \<Longrightarrow> inputs t = Some ins \<Longrightarrow>
      \<forall>i \<in> set ins. inputs i \<noteq> None \<or> i \<in> set sources" for W t ins
    by (induction W) (auto split: if_splits)
  show "inputs_known inputs sources"
    unfolding inputs_known_def using known [OF assms(1)] assms(2) by auto
qed

section \<open>Properties\<close>

text \<open>
  C14. Loading a project rejects its transforms exactly when it should. For transforms with
  distinct ids the traversal always returns, and it accepts if and only if every input of a
  transform is a declared source or transform and the input graph has no cycle; on acceptance
  the finished nodes are all the transforms, inputs before the transforms that use them.
\<close>

theorem transform_inputs_accepted_iff_acyclic:
  assumes "distinct (map fst transforms)"
  shows "\<exists>r. check_project_inputs sources transforms = Some r
    \<and> ((\<exists>V. r = Inr V) \<longleftrightarrow>
         acyclic (input_edges (map_of transforms)) \<and> inputs_known (map_of transforms) sources)
    \<and> (\<forall>V. r = Inr V \<longrightarrow> finished (map_of transforms) sources V \<and> set (map fst transforms) \<subseteq> set V)"
proof -
  let ?D = "set (map fst transforms)"
  have D: "map_of transforms x \<noteq> None \<longleftrightarrow> x \<in> ?D" for x
    by (simp add: map_of_eq_None_iff)
  have "card ?D < Suc (length transforms)"
    using card_length [of "map fst transforms"] by simp
  from check_transforms_result [OF D _ this, of "map fst transforms" sources "[]"]
  obtain r0 where "check_project_inputs sources transforms = Some r0"
      "case r0 of Inl e \<Rightarrow> refusal_justified (map_of transforms) sources
       | Inr V' \<Rightarrow> finished (map_of transforms) sources V' \<and> set [] \<subseteq> set V' \<and> ?D \<subseteq> set V'"
    unfolding check_project_inputs_def by auto
  then have "\<exists>r. check_project_inputs sources transforms = Some r
      \<and> (case r of Inl e \<Rightarrow> refusal_justified (map_of transforms) sources
        | Inr V \<Rightarrow> finished (map_of transforms) sources V \<and> ?D \<subseteq> set V)"
    by (cases r0) auto
  then obtain r where
    r: "check_project_inputs sources transforms = Some r"
       "case r of Inl e \<Rightarrow> refusal_justified (map_of transforms) sources
        | Inr V \<Rightarrow> finished (map_of transforms) sources V \<and> ?D \<subseteq> set V"
    by blast
  show ?thesis
  proof (cases r)
    case (Inl e)
    with r show ?thesis by (auto simp: refusal_justified_def)
  next
    case (Inr V)
    with r have V: "finished (map_of transforms) sources V" "?D \<subseteq> set V" by auto
    with finished_all [OF V(1)] D have "acyclic (input_edges (map_of transforms))
        \<and> inputs_known (map_of transforms) sources" by blast
    with r Inr V show ?thesis by auto
  qed
qed

definition sample_transforms :: "(string \<times> string list) list" where
  "sample_transforms = [(''merge'', [''clean'', ''web'']), (''clean'', [''web''])]"

theorem transform_inputs_accepted_iff_acyclic_witness:
  "acyclic (input_edges (map_of sample_transforms))
    \<and> inputs_known (map_of sample_transforms) [''web'']"
proof -
  have "distinct (map fst sample_transforms)" by code_simp
  from transform_inputs_accepted_iff_acyclic [OF this, of "[''web'']"] obtain r where
    "check_project_inputs [''web''] sample_transforms = Some r"
    "(\<exists>V. r = Inr V) \<longleftrightarrow> acyclic (input_edges (map_of sample_transforms))
       \<and> inputs_known (map_of sample_transforms) [''web'']" by auto
  moreover have "check_project_inputs [''web''] sample_transforms = Some (Inr [''merge'', ''clean''])"
    by code_simp
  ultimately show ?thesis by auto
qed

lemma join_split [simp]: "join_on c (split_on c s) = s"
proof (induction s)
  case Nil
  show ?case by simp
next
  case (Cons x s)
  then show ?case by (cases "split_on c s"; cases "tl (split_on c s)") (auto split: list.splits)
qed

lemma split_on_not_Nil [simp]: "split_on c s \<noteq> []"
  by (cases s) (auto split: list.splits)

lemma split_part: "p \<in> set (split_on c s) \<Longrightarrow> c \<notin> set p"
proof (induction s arbitrary: p)
  case Nil
  then show ?case by simp
next
  case (Cons x s)
  then show ?case by (cases "split_on c s") (auto split: if_splits)
qed

lemma starts_with_char: "starts_with [c] s \<Longrightarrow> [] \<in> set (split_on c s)"
  by (cases s) (auto simp: starts_with_def)

text \<open>
  \<open>safe_name\<close> accepts exactly the paths that stay below their root: one or more parts
  separated by single slashes, none of them empty, \<open>.\<close> or \<open>..\<close>, and no backslash. The last
  test of the code, that normalisation leaves the path as it is, never decides.
\<close>

theorem safe_name_exact:
  "safe_name value \<longleftrightarrow> CHR 0x5C \<notin> set value
     \<and> (\<forall>part \<in> set (split_on CHR ''/'' value). part \<noteq> [] \<and> part \<noteq> ''.'' \<and> part \<noteq> ''..'')"
proof
  assume "safe_name value"
  then show "CHR 0x5C \<notin> set value
     \<and> (\<forall>part \<in> set (split_on CHR ''/'' value). part \<noteq> [] \<and> part \<noteq> ''.'' \<and> part \<noteq> ''..'')"
    by (auto simp: safe_name_def list_ex_iff)
next
  assume ok: "CHR 0x5C \<notin> set value
     \<and> (\<forall>part \<in> set (split_on CHR ''/'' value). part \<noteq> [] \<and> part \<noteq> ''.'' \<and> part \<noteq> ''..'')"
  then have keep: "filter (\<lambda>p. p \<noteq> [] \<and> p \<noteq> ''.'') (split_on CHR ''/'' value) = split_on CHR ''/'' value"
    by (simp add: filter_id_conv)
  have posix: "as_posix value = value"
    unfolding as_posix_def Let_def keep by simp
  have "value \<noteq> []" using ok by (metis list.set_intros(1) split_on.simps(1))
  moreover have "\<not> starts_with ''/'' value"
    using ok starts_with_char by blast
  moreover have "\<not> list_ex (\<lambda>part. part \<in> {[], ''.'', ''..''}) (split_on CHR ''/'' value)"
    using ok by (simp add: list_ex_iff)
  ultimately show "safe_name value"
    using ok posix unfolding safe_name_def by blast
qed

end
