(* ===== verification/Transport_Budget.thy ===== *)
theory Transport_Budget
  imports Project_Spec Complex_Main
begin

text \<open>
  \<open>src/sparselab/corpus/transport_budget.py\<close>: the durable ledger of response-body bytes of one
  corpus acquisition. A transfer reserves its declared maximum before the request; the bytes
  that arrive are charged against the reservation; a reservation is never given back.

  The SQLite file holds one JSON document, here the record \<open>tstate\<close>. Keys that may be absent
  are options, and a mode key that is absent reads as \<open>enforced\<close>, as the code reads it. Each
  mutation is one \<open>BEGIN IMMEDIATE\<close> transaction over read, validation, update and write, so it
  is a function into \<open>error + result \<times> state\<close> and an exception leaves the document alone. Times
  are finite floats in the code and rationals here. Clock readings, free disk space and the
  digests are arguments.

  The model is the class itself; the subclass \<open>DatasetTransport\<close> is not modelled, so the
  tests \<open>type(self) is TransportBudget\<close> hold.
\<close>

section \<open>The document\<close>

datatype transfer_status = Started | Interrupted | Failed | Complete

record readings =
  expanded_bytes :: "int option"
  peak_staging_bytes :: int
  peak_staging_inodes :: int

record transfer =
  x_key :: string
  x_reserved :: int
  x_actual :: int
  x_status :: transfer_status
  x_verified :: "bool option" \<comment> \<open>\<open>sha256_verified\<close>\<close>
  x_started :: "(rat \<times> rat) option" \<comment> \<open>\<open>started_at_unix\<close>, \<open>started_monotonic_seconds\<close>\<close>
  x_last_progress :: "rat option"
  x_ended :: "(rat \<times> rat \<times> rat option) option" \<comment> \<open>end time, elapsed, bytes per second\<close>
  x_resources :: "readings option"

record network_limits =
  l_source :: int
  l_metadata :: int
  l_total :: "int option"
  l_initial :: "int option"
  l_retries :: int
  l_transfers :: int

record observation =
  o_owner :: string
  o_reference :: string
  o_selected_at :: rat

record time_observation = observation +
  o_planned_deadline :: rat

record storage_observation = observation +
  o_planned_max_disk_bytes :: int
  o_min_free_bytes :: int

record network_observation = observation +
  o_planned_limits :: network_limits

record gate_review =
  g_receipt_sha256 :: string
  g_report_sha256 :: string
  g_approval_reference :: string
  g_stopped :: "(string \<times> string) list option"

record failure =
  fail_source :: string
  fail_type :: string
  fail_message :: string

record tstate =
  t_binding :: string
  created_at :: rat
  deadline :: rat
  wall_clock_mode :: string
  wall_clock_observation :: "time_observation option"
  storage_mode :: string
  storage_obs :: "storage_observation option"
  network_mode :: string
  network_obs :: "network_observation option"
  source_charged :: int
  source_actual :: int
  metadata_charged :: int
  metadata_actual :: int
  transfers :: "transfer list"
  failures :: "failure list"
  t_gate :: "gate_review option"

datatype transport_error =
    NoBudget | UnaccountedSource | MissingEffect | NothingBounded | LedgerAlreadyExists
  | BindingChanged | CountersInvalid | TotalExceeded | InitialGateExceeded | GateReviewInvalid
  | ResourcesInvalid | ClockBackward | DeadlineExceeded | MetadataCapExceeded
  | BadProvenance | AlreadyObservational | ActiveTransfer | FreeSpaceFloor | DiskAllowance
  | InsufficientDisk | BadAmount | CombinedExhausted | GateNotReleased | ShardTerminal
  | RetriesExhausted | TransfersExhausted | SourceExhausted | TransferMissing | BodyCapExceeded
  | TransferEnded | MetadataExhausted | MetadataAccounting | GateFiles | GateReport | GateDecision
  | GateAbsent | GateStale | GateEvidence | NoSuchSource

section \<open>The binding and the scope\<close>

fun json_opt :: "('a \<Rightarrow> json) \<Rightarrow> 'a option \<Rightarrow> json" where
  "json_opt f None = JNull"
| "json_opt f (Some x) = f x"

fun optional_key :: "string \<Rightarrow> int option \<Rightarrow> (string \<times> json) list" where
  "optional_key k None = []"
| "optional_key k (Some n) = [(k, JInt n)]"

text \<open>\<open>model_dump(mode="json")\<close> of the three models in the binding.\<close>

definition dump_spec :: "transport_spec \<Rightarrow> json" where
  "dump_spec s = JObj ([(''attempt_id'', JStr (attempt_id s)),
     (''max_source_body_bytes'', JInt (max_source_body_bytes s)),
     (''max_metadata_body_bytes'', JInt (max_metadata_body_bytes s)),
     (''max_transfers'', JInt (max_transfers s)),
     (''max_retries_per_shard'', JInt (max_retries_per_shard s)),
     (''max_wall_seconds'', JInt (max_wall_seconds s)),
     (''max_disk_bytes'', JInt (max_disk_bytes s))]
     @ optional_key ''max_total_body_bytes'' (max_total_body_bytes s)
     @ optional_key ''initial_body_bytes'' (initial_body_bytes s))"

definition dump_blob :: "git_blob \<Rightarrow> json" where
  "dump_blob b = JObj [(''path'', JStr (gb_path b)), (''git_blob_oid'', JStr (gb_oid b)),
     (''max_bytes'', JInt (gb_max_bytes b))]"

fun effect_name :: "effect_kind \<Rightarrow> string" where
  "effect_name ReuseOnly = ''reuse_only''"
| "effect_name Acquire = ''acquire''"

definition dump_effect :: "source_effect \<Rightarrow> json" where
  "dump_effect e = JObj [(''source_id'', JStr (se_source_id e)),
     (''declaration_sha256'', JStr (se_declaration_sha256 e)),
     (''effect'', JStr (effect_name (se_effect e))),
     (''origin_project_id'', json_opt JStr (se_origin_project_id e)),
     (''snapshot_sha256'', json_opt JStr (se_snapshot_sha256 e))]"

definition dump_shard :: "hf_shard \<Rightarrow> json" where
  "dump_shard s = JObj [(''path'', JStr (hs_path s)), (''sha256'', JStr (to_lower (hs_sha256 s))),
     (''max_bytes'', JInt (hs_max_bytes s))]"

definition hf_value :: "source_declaration \<Rightarrow> json option" where
  "hf_value s = map_option (\<lambda>(a, shards). JObj [(''id'', JStr (source_id s)),
     (''uri'', JStr (canonical_uri s)), (''revision'', JStr (revision s)),
     (''shards'', JList (map dump_shard shards))]) (hf_bounded s)"

definition git_value :: "source_declaration \<Rightarrow> json option" where
  "git_value s = map_option (\<lambda>(a, blobs). JObj [(''id'', JStr (source_id s)),
     (''uri'', JStr (canonical_uri s)), (''revision'', JStr (revision s)),
     (''tree_oid'', json_opt JStr (ga_tree_oid a)), (''blobs'', JList (map dump_blob blobs))]) (git_bounded s)"

text \<open>\<open>_binding\<close>; the digest is of the canonical JSON of this value.\<close>

definition binding_value :: "transport_spec \<Rightarrow> project \<Rightarrow> json" where
  "binding_value spec p = JObj ([(''project'', JStr (config_project_id (p_config p))),
     (''budget'', dump_spec spec),
     (''sources'', JList (List.map_filter hf_value (p_sources p) @ List.map_filter git_value (p_sources p)))]
     @ (case config_source_effects (p_config p) of
          None \<Rightarrow> [] | Some es \<Rightarrow> [(''source_effects'', JList (map dump_effect es))]))"

definition lookup_effect :: "project \<Rightarrow> source_declaration \<Rightarrow> transport_error + effect_kind option" where
  "lookup_effect p s = (case config_source_effects (p_config p) of
       None \<Rightarrow> Inr None
     | Some es \<Rightarrow> (case effects_by_id es (source_id s) of
          None \<Rightarrow> Inl MissingEffect | Some e \<Rightarrow> Inr (Some (se_effect e))))"

definition exempt_kinds :: "string list" where
  "exempt_kinds = [''local'', ''deterministic_generator'', ''inference_generator'']"

definition validate_scope :: "project \<Rightarrow> transport_error + unit" where
  "validate_scope p = foldE (\<lambda>_ s.
     bindE (lookup_effect p s) (\<lambda>e.
       if e = Some ReuseOnly then Inr ()
       else if redistribution s = Some ''rejected'' \<or> source_kind s \<in> set exempt_kinds then Inr ()
       else if hf_bounded s = None \<and> git_bounded s = None then Inl UnaccountedSource
       else Inr ())) () (p_sources p)"

text \<open>\<open>projected_disk_bytes\<close>: payloads, the largest single part, and the metadata allowance.\<close>

definition projected_disk_bytes :: "project \<Rightarrow> string option \<Rightarrow> transport_error + int" where
  "projected_disk_bytes p only =
     bindE (mapE (\<lambda>s. bindE (lookup_effect p s) (\<lambda>e.
         Inr ((e = None \<or> e = Some Acquire) \<and> (only = None \<or> only = Some (source_id s)))))
       (p_sources p)) (\<lambda>keep.
     let transferring = map fst (filter snd (zip (p_sources p) keep));
         hf = List.map_filter hf_bounded transferring;
         git = List.map_filter git_bounded transferring;
         parts = concat (map (\<lambda>(a, shards). map hs_max_bytes shards) hf)
               @ concat (map (\<lambda>(a, blobs). map gb_max_bytes blobs) git)
     in Inr ((\<Sum>(a, _)\<leftarrow>hf. hf_max_bytes a) + (\<Sum>(a, _)\<leftarrow>git. ga_max_bytes a)
         + (if parts = [] then 0 else Max (set parts)) + 65536))"

section \<open>Validation of the document\<close>

text \<open>The world outside the document, fixed for one open ledger.\<close>

record transport_env =
  spec :: transport_spec
  bound_to :: string \<comment> \<open>\<open>self.binding\<close>\<close>
  state_digest :: "tstate \<Rightarrow> string" \<comment> \<open>\<open>canonical_digest(state)\<close>\<close>
  bounded_storage :: bool
  encoded_size :: "tstate \<Rightarrow> nat" \<comment> \<open>\<open>len(json.dumps(state).encode())\<close>\<close>

definition valid_time_provenance :: "string \<Rightarrow> string \<Rightarrow> bool" where
  "valid_time_provenance owner reference \<longleftrightarrow>
     list_all (\<lambda>(value, maximum). 1 \<le> length (strip value) \<and> length (strip value) \<le> maximum
       \<and> value = strip value \<and> CHR 0x00 \<notin> set value) [(owner, 128), (reference, 512)]"

definition spec_network_limits :: "transport_spec \<Rightarrow> network_limits" where
  "spec_network_limits s = \<lparr>l_source = max_source_body_bytes s, l_metadata = max_metadata_body_bytes s,
     l_total = max_total_body_bytes s, l_initial = initial_body_bytes s,
     l_retries = max_retries_per_shard s, l_transfers = max_transfers s\<rparr>"

definition observes_network :: "tstate \<Rightarrow> bool" where
  "observes_network st \<longleftrightarrow> network_mode st = ''observational''"

definition valid_wall_clock :: "transport_env \<Rightarrow> tstate \<Rightarrow> bool" where
  "valid_wall_clock env st = (case wall_clock_observation st of
       None \<Rightarrow> wall_clock_mode st = ''enforced''
     | Some ob \<Rightarrow> wall_clock_mode st = ''observational''
         \<and> valid_time_provenance (o_owner ob) (o_reference ob)
         \<and> o_selected_at ob \<ge> created_at st
         \<and> o_planned_deadline ob = created_at st + of_int (max_wall_seconds (spec env)))"

definition valid_storage :: "transport_env \<Rightarrow> tstate \<Rightarrow> bool" where
  "valid_storage env st = (case storage_obs st of
       None \<Rightarrow> storage_mode st = ''enforced''
     | Some ob \<Rightarrow> storage_mode st = ''observational''
         \<and> valid_time_provenance (o_owner ob) (o_reference ob)
         \<and> o_selected_at ob \<ge> created_at st
         \<and> o_planned_max_disk_bytes ob = max_disk_bytes (spec env)
         \<and> 0 < o_min_free_bytes ob)"

definition valid_network :: "transport_env \<Rightarrow> tstate \<Rightarrow> bool" where
  "valid_network env st = (case network_obs st of
       None \<Rightarrow> network_mode st = ''enforced''
     | Some ob \<Rightarrow> network_mode st = ''observational''
         \<and> valid_time_provenance (o_owner ob) (o_reference ob)
         \<and> o_selected_at ob \<ge> created_at st
         \<and> o_planned_limits ob = spec_network_limits (spec env))"

definition valid_counters :: "transport_env \<Rightarrow> tstate \<Rightarrow> bool" where
  "valid_counters env st \<longleftrightarrow>
     valid_network env st \<and> valid_wall_clock env st \<and> valid_storage env st
     \<and> deadline st = created_at st + of_int (max_wall_seconds (spec env))
     \<and> (observes_network st \<or> int (length (transfers st)) \<le> max_transfers (spec env))
     \<and> source_charged st = (\<Sum>x\<leftarrow>transfers st. x_reserved x)
     \<and> source_actual st = (\<Sum>x\<leftarrow>transfers st. x_actual x)
     \<and> 0 \<le> source_actual st \<and> source_actual st \<le> source_charged st
     \<and> (observes_network st \<or> source_charged st \<le> max_source_body_bytes (spec env))
     \<and> 0 \<le> metadata_actual st \<and> metadata_actual st \<le> metadata_charged st
     \<and> (observes_network st \<or> metadata_charged st \<le> max_metadata_body_bytes (spec env))
     \<and> list_all (\<lambda>x. 0 \<le> x_actual x \<and> x_actual x \<le> x_reserved x) (transfers st)"

fun over :: "int \<Rightarrow> int option \<Rightarrow> bool" where
  "over n None = False"
| "over n (Some limit) = (n > limit)"

definition valid_stop_evidence :: "(string \<times> string) list \<Rightarrow> bool" where
  "valid_stop_evidence stopped \<longleftrightarrow> list_all (\<lambda>(key, reference). \<not> blank key \<and> \<not> blank reference) stopped"

definition valid_gate :: "transport_env \<Rightarrow> gate_review \<Rightarrow> bool" where
  "valid_gate env g \<longleftrightarrow> initial_body_bytes (spec env) \<noteq> None
     \<and> valid_stop_evidence (case g_stopped g of None \<Rightarrow> [] | Some s \<Rightarrow> s)
     \<and> \<not> blank (g_receipt_sha256 g) \<and> \<not> blank (g_report_sha256 g) \<and> \<not> blank (g_approval_reference g)"

definition valid_readings :: "readings \<Rightarrow> bool" where
  "valid_readings r \<longleftrightarrow> (case expanded_bytes r of None \<Rightarrow> True | Some n \<Rightarrow> 0 \<le> n)
     \<and> 0 \<le> peak_staging_bytes r \<and> 0 \<le> peak_staging_inodes r"

definition validate_state :: "transport_env \<Rightarrow> tstate \<Rightarrow> transport_error + unit" where
  "validate_state env st =
     (let charged = source_charged st + metadata_charged st
      in if t_binding st \<noteq> bound_to env then Inl BindingChanged
         else if \<not> valid_counters env st then Inl CountersInvalid
         else if \<not> observes_network st \<and> over charged (max_total_body_bytes (spec env))
         then Inl TotalExceeded
         else if \<not> observes_network st \<and> t_gate st = None \<and> over charged (initial_body_bytes (spec env))
         then Inl InitialGateExceeded
         else if (case t_gate st of None \<Rightarrow> False | Some g \<Rightarrow> \<not> valid_gate env g) then Inl GateReviewInvalid
         else if \<not> list_all (\<lambda>x. case x_resources x of None \<Rightarrow> True | Some r \<Rightarrow> valid_readings r) (transfers st)
         then Inl ResourcesInvalid
         else Inr ())"

definition initialize :: "(json \<Rightarrow> string) \<Rightarrow> rat \<Rightarrow> project \<Rightarrow> bool \<Rightarrow> transport_error + tstate" where
  "initialize digest now p ledger_exists =
     (case config_transport_budget (p_config p) of
        None \<Rightarrow> Inl NoBudget
      | Some sp \<Rightarrow>
          bindE (validate_scope p) (\<lambda>_.
          bindE (mapE (lookup_effect p) (p_sources p)) (\<lambda>effects.
            if \<not> list_ex (\<lambda>(e, s). (e = None \<or> e = Some Acquire)
                 \<and> (hf_bounded s \<noteq> None \<or> git_bounded s \<noteq> None)) (zip effects (p_sources p))
            then Inl NothingBounded
            else if ledger_exists then Inl LedgerAlreadyExists
            else Inr \<lparr>t_binding = digest (binding_value sp p), created_at = now,
              deadline = now + of_int (max_wall_seconds sp),
              wall_clock_mode = ''enforced'', wall_clock_observation = None,
              storage_mode = ''enforced'', storage_obs = None,
              network_mode = ''enforced'', network_obs = None,
              source_charged = 0, source_actual = 0, metadata_charged = 0, metadata_actual = 0,
              transfers = [], failures = [], t_gate = None\<rparr>)))"

definition read_state :: "transport_env \<Rightarrow> rat \<Rightarrow> tstate \<Rightarrow> transport_error + tstate" where
  "read_state env now st =
     bindE (validate_state env st) (\<lambda>_. if now < created_at st then Inl ClockBackward else Inr st)"

text \<open>\<open>_mutate\<close>: validation, the clock, the update, the size cap of a bounded step.\<close>

definition mutate :: "transport_env \<Rightarrow> rat \<Rightarrow> bool \<Rightarrow> (tstate \<Rightarrow> transport_error + 'a \<times> tstate) \<Rightarrow> tstate
    \<Rightarrow> transport_error + 'a \<times> tstate" where
  "mutate env now check_deadline update st =
     bindE (validate_state env st) (\<lambda>_.
       if now < created_at st \<or> (check_deadline \<and> wall_clock_mode st = ''enforced'' \<and> now \<ge> deadline st)
       then Inl DeadlineExceeded
       else bindE (update st) (\<lambda>(result, st').
         if bounded_storage env \<and> encoded_size env st' > 16 * 1024 ^ 2 then Inl MetadataCapExceeded
         else Inr (result, st')))"

definition http_operation_timeout :: rat where
  "http_operation_timeout = 30"

definition remaining_seconds :: "transport_env \<Rightarrow> rat \<Rightarrow> rat \<Rightarrow> tstate \<Rightarrow> transport_error + rat" where
  "remaining_seconds env now1 now2 st =
     bindE (read_state env now1 st) (\<lambda>st.
       if wall_clock_mode st = ''observational'' then Inr http_operation_timeout
       else if deadline st - now2 \<le> 0 then Inl DeadlineExceeded else Inr (deadline st - now2))"

section \<open>Operations\<close>

definition active :: "tstate \<Rightarrow> bool" where
  "active st \<longleftrightarrow> list_ex (\<lambda>x. x_status x = Started) (transfers st)"

definition observe_network :: "transport_env \<Rightarrow> rat \<Rightarrow> rat \<Rightarrow> string \<Rightarrow> string \<Rightarrow> tstate
    \<Rightarrow> transport_error + network_observation \<times> tstate" where
  "observe_network env now wall owner reference st =
     (if \<not> valid_time_provenance owner reference then Inl BadProvenance
      else mutate env now False (\<lambda>st.
        if observes_network st then Inl AlreadyObservational
        else if active st then Inl ActiveTransfer
        else
          let ob = \<lparr>o_owner = owner, o_reference = reference, o_selected_at = wall,
                o_planned_limits = spec_network_limits (spec env)\<rparr>;
              st' = st\<lparr>network_mode := ''observational'', network_obs := Some ob\<rparr>
          in bindE (validate_state env st') (\<lambda>_. Inr (ob, st'))) st)"

definition observe_storage :: "transport_env \<Rightarrow> rat \<Rightarrow> rat \<Rightarrow> string \<Rightarrow> string \<Rightarrow> int \<Rightarrow> tstate
    \<Rightarrow> transport_error + storage_observation \<times> tstate" where
  "observe_storage env now wall owner reference min_free st =
     (if \<not> valid_time_provenance owner reference \<or> min_free \<le> 0 then Inl BadProvenance
      else mutate env now False (\<lambda>st.
        if storage_mode st = ''observational'' then Inl AlreadyObservational
        else if active st then Inl ActiveTransfer
        else
          let ob = \<lparr>o_owner = owner, o_reference = reference, o_selected_at = wall,
                o_planned_max_disk_bytes = max_disk_bytes (spec env), o_min_free_bytes = min_free\<rparr>;
              st' = st\<lparr>storage_mode := ''observational'', storage_obs := Some ob\<rparr>
          in bindE (validate_state env st') (\<lambda>_. Inr (ob, st'))) st)"

definition observe_time :: "transport_env \<Rightarrow> rat \<Rightarrow> rat \<Rightarrow> string \<Rightarrow> string \<Rightarrow> tstate
    \<Rightarrow> transport_error + time_observation \<times> tstate" where
  "observe_time env now wall owner reference st =
     (if \<not> valid_time_provenance owner reference then Inl BadProvenance
      else mutate env now False (\<lambda>st.
        if wall_clock_mode st = ''observational'' then Inl AlreadyObservational
        else if active st then Inl ActiveTransfer
        else
          let ob = \<lparr>o_owner = owner, o_reference = reference, o_selected_at = wall,
                o_planned_deadline = deadline st\<rparr>
          in Inr (ob, st\<lparr>wall_clock_mode := ''observational'', wall_clock_observation := Some ob\<rparr>)) st)"

definition check_disk :: "transport_env \<Rightarrow> rat \<Rightarrow> int \<Rightarrow> int \<Rightarrow> tstate \<Rightarrow> transport_error + unit" where
  "check_disk env now free projected st =
     bindE (read_state env now st) (\<lambda>st.
       case (if storage_mode st = ''observational'' then storage_obs st else None) of
         Some ob \<Rightarrow> if free < o_min_free_bytes ob then Inl FreeSpaceFloor else Inr ()
       | None \<Rightarrow>
           if projected > max_disk_bytes (spec env) then Inl DiskAllowance
           else if free < projected then Inl InsufficientDisk
           else Inr ())"

definition check_combined :: "transport_env \<Rightarrow> tstate \<Rightarrow> int \<Rightarrow> transport_error + unit" where
  "check_combined env st amount =
     (let charged = source_charged st + metadata_charged st + amount
      in if amount < 0 then Inl BadAmount
         else if \<not> observes_network st \<and> over charged (max_total_body_bytes (spec env))
         then Inl CombinedExhausted
         else if \<not> observes_network st \<and> t_gate st = None \<and> over charged (initial_body_bytes (spec env))
         then Inl GateNotReleased
         else Inr ())"

definition check_transfer :: "transport_env \<Rightarrow> tstate \<Rightarrow> string \<Rightarrow> int \<Rightarrow> bool \<Rightarrow> transport_error + unit" where
  "check_transfer env st key nbytes allow_verified_retry =
     bindE (check_combined env st nbytes) (\<lambda>_.
       let prior = filter (\<lambda>x. x_key x = key) (transfers st)
       in if list_ex (\<lambda>x. x_status x = Failed \<or> x_status x = Complete
                 \<and> (\<not> allow_verified_retry \<or> x_verified x \<noteq> Some True)) prior
          then Inl ShardTerminal
          else if \<not> observes_network st \<and> int (length prior) > max_retries_per_shard (spec env)
          then Inl RetriesExhausted
          else if \<not> observes_network st \<and> int (length (transfers st)) \<ge> max_transfers (spec env)
          then Inl TransfersExhausted
          else if \<not> observes_network st \<and> nbytes > max_source_body_bytes (spec env) - source_charged st
          then Inl SourceExhausted
          else Inr ())"

definition interrupt_started :: "(transfer \<Rightarrow> bool) \<Rightarrow> transfer list \<Rightarrow> transfer list" where
  "interrupt_started P xs =
     map (\<lambda>x. if P x \<and> x_status x = Started then x\<lparr>x_status := Interrupted\<rparr> else x) xs"

definition new_transfer :: "string \<Rightarrow> int \<Rightarrow> transfer" where
  "new_transfer key nbytes = \<lparr>x_key = key, x_reserved = nbytes, x_actual = 0, x_status = Started,
     x_verified = None, x_started = None, x_last_progress = None, x_ended = None, x_resources = None\<rparr>"

definition transfer_key :: "string \<Rightarrow> string \<Rightarrow> string" where
  "transfer_key source path = source @ '':'' @ path"

text \<open>\<open>wall\<close> and \<open>tick\<close> are the two clocks read for a transfer under network observation.\<close>

definition reserve_transfer :: "transport_env \<Rightarrow> rat \<Rightarrow> rat \<Rightarrow> rat \<Rightarrow> string \<Rightarrow> string \<Rightarrow> int \<Rightarrow> bool \<Rightarrow> tstate
    \<Rightarrow> transport_error + nat \<times> tstate" where
  "reserve_transfer env now wall tick source path nbytes allow_verified_retry st =
     (let key = transfer_key source path
      in mutate env now True (\<lambda>st.
        bindE (check_transfer env st key nbytes allow_verified_retry) (\<lambda>_.
          let new = new_transfer key nbytes;
              new' = (if observes_network st then new\<lparr>x_started := Some (wall, tick)\<rparr> else new);
              xs = interrupt_started (\<lambda>x. x_key x = key) (transfers st) @ [new']
          in Inr (length xs - 1,
               st\<lparr>source_charged := source_charged st + nbytes, transfers := xs\<rparr>))) st)"

definition assert_transfer_available :: "transport_env \<Rightarrow> rat \<Rightarrow> rat \<Rightarrow> string \<Rightarrow> string \<Rightarrow> int \<Rightarrow> bool \<Rightarrow> tstate
    \<Rightarrow> transport_error + unit" where
  "assert_transfer_available env now1 now2 source path nbytes allow_verified_retry st =
     bindE (remaining_seconds env now1 now2 st) (\<lambda>_.
     bindE (read_state env now2 st) (\<lambda>st.
       check_transfer env st (transfer_key source path) nbytes allow_verified_retry))"

text \<open>
  The dry run over all shards of one source, on a copy of the document that is never written.
  The appended entries have only a key and a status in the code; the other fields are not read.
\<close>

definition simulate_shard :: "transport_env \<Rightarrow> string \<Rightarrow> tstate \<Rightarrow> hf_shard \<Rightarrow> transport_error + tstate" where
  "simulate_shard env source st shard =
     (let key = transfer_key source (hs_path shard)
      in bindE (check_transfer env st key (hs_max_bytes shard) False) (\<lambda>_.
        Inr (st\<lparr>source_charged := source_charged st + hs_max_bytes shard,
                transfers := transfers st @ [new_transfer key (hs_max_bytes shard)]\<rparr>)))"

definition assert_source_available :: "transport_env \<Rightarrow> project \<Rightarrow> rat \<Rightarrow> rat \<Rightarrow> string \<Rightarrow> tstate
    \<Rightarrow> transport_error + unit" where
  "assert_source_available env p now1 now2 source st =
     bindE (remaining_seconds env now1 now2 st) (\<lambda>_.
     bindE (read_state env now2 st) (\<lambda>st.
       case find (\<lambda>s. source_id s = source) (p_sources p) of
         None \<Rightarrow> Inl NoSuchSource
       | Some s \<Rightarrow> (case hf_bounded s of
            None \<Rightarrow> Inl NoSuchSource
          | Some (a, shards) \<Rightarrow> bindE (foldE (simulate_shard env source) st shards) (\<lambda>_. Inr ()))))"

text \<open>\<open>transfers[index]\<close>: Python indices may be negative, and an index out of range raises.\<close>

definition py_index :: "'a list \<Rightarrow> int \<Rightarrow> nat option" where
  "py_index xs i = (let n = int (length xs); j = (if i < 0 then i + n else i)
     in if 0 \<le> j \<and> j < n then Some (nat j) else None)"

definition charge_transfer_actual :: "transport_env \<Rightarrow> rat \<Rightarrow> rat \<Rightarrow> int \<Rightarrow> int \<Rightarrow> tstate
    \<Rightarrow> transport_error + unit \<times> tstate" where
  "charge_transfer_actual env now wall index amount st =
     mutate env now False (\<lambda>st.
       case py_index (transfers st) index of
         None \<Rightarrow> Inl TransferMissing
       | Some i \<Rightarrow>
           let x = transfers st ! i
           in if x_status x \<noteq> Started \<or> amount > x_reserved x - x_actual x then Inl BodyCapExceeded
              else
                let x' = x\<lparr>x_actual := x_actual x + amount\<rparr>;
                    x'' = (if amount \<noteq> 0 \<and> x_started x \<noteq> None then x'\<lparr>x_last_progress := Some wall\<rparr> else x')
                in Inr ((), st\<lparr>transfers := (transfers st)[i := x''],
                     source_actual := source_actual st + amount\<rparr>)) st"

definition finish_transfer :: "transport_env \<Rightarrow> rat \<Rightarrow> rat \<Rightarrow> rat \<Rightarrow> int \<Rightarrow> bool \<Rightarrow> bool \<Rightarrow> tstate
    \<Rightarrow> transport_error + unit \<times> tstate" where
  "finish_transfer env now wall tick index success interrupted st =
     mutate env now False (\<lambda>st.
       case py_index (transfers st) index of
         None \<Rightarrow> Inl TransferMissing
       | Some i \<Rightarrow>
           let x = transfers st ! i
           in if x_status x \<noteq> Started then Inl TransferEnded
              else
                let x' = x\<lparr>x_status := (if success then Complete else if interrupted then Interrupted else Failed),
                         x_verified := Some success\<rparr>;
                    x'' = (case x_started x of
                        None \<Rightarrow> x'
                      | Some (_, tick0) \<Rightarrow>
                          let elapsed = max 0 (tick - tick0)
                          in x'\<lparr>x_ended := Some (wall, elapsed,
                               if elapsed = 0 then None else Some (of_int (x_actual x) / elapsed))\<rparr>)
                in Inr ((), st\<lparr>transfers := (transfers st)[i := x'']\<rparr>)) st"

definition record_failure :: "transport_env \<Rightarrow> rat \<Rightarrow> string \<Rightarrow> string \<Rightarrow> string \<Rightarrow> tstate
    \<Rightarrow> transport_error + unit \<times> tstate" where
  "record_failure env now source kind message st =
     mutate env now False (\<lambda>st. Inr ((), st\<lparr>failures := failures st @
       [\<lparr>fail_source = source, fail_type = kind, fail_message = take 300 message\<rparr>]\<rparr>)) st"

definition reserve_metadata :: "transport_env \<Rightarrow> rat \<Rightarrow> int \<Rightarrow> tstate \<Rightarrow> transport_error + unit \<times> tstate" where
  "reserve_metadata env now amount st =
     mutate env now True (\<lambda>st.
       bindE (check_combined env st amount) (\<lambda>_.
         if \<not> observes_network st \<and> amount > max_metadata_body_bytes (spec env) - metadata_charged st
         then Inl MetadataExhausted
         else Inr ((), st\<lparr>metadata_charged := metadata_charged st + amount\<rparr>))) st"

definition charge_metadata_actual :: "transport_env \<Rightarrow> rat \<Rightarrow> int \<Rightarrow> tstate \<Rightarrow> transport_error + unit \<times> tstate" where
  "charge_metadata_actual env now amount st =
     mutate env now False (\<lambda>st.
       let st' = st\<lparr>metadata_actual := metadata_actual st + amount\<rparr>
       in if metadata_actual st' > metadata_charged st' then Inl MetadataAccounting
          else Inr ((), st')) st"

definition record_resources :: "transport_env \<Rightarrow> rat \<Rightarrow> int \<Rightarrow> readings \<Rightarrow> tstate \<Rightarrow> transport_error + unit \<times> tstate" where
  "record_resources env now index r st =
     mutate env now False (\<lambda>st.
       case py_index (transfers st) index of
         None \<Rightarrow> Inl TransferMissing
       | Some i \<Rightarrow>
           let st' = st\<lparr>transfers := (transfers st)[i := (transfers st ! i)\<lparr>x_resources := Some r\<rparr>]\<rparr>
           in bindE (validate_state env st') (\<lambda>_. Inr ((), st'))) st"

text \<open>
  The two files of \<open>release_gate\<close> as the code reads them: \<open>None\<close> for a document of the wrong
  shape (not an object, or other keys). \<open>report_status\<close> is \<open>findings.get("status")\<close>,
  \<open>report_digest\<close> the SHA-256 of the report's bytes.
\<close>

record gate_report =
  ledger_receipt :: tstate
  report_status :: "string option"

record gate_decision =
  d_decision :: string
  d_report_sha256 :: string
  d_approval_reference :: string
  d_stopped :: "(string \<times> string) list option"

definition release_gate :: "transport_env \<Rightarrow> rat \<Rightarrow> bool \<Rightarrow> string \<Rightarrow> gate_report option \<Rightarrow> gate_decision option
    \<Rightarrow> tstate \<Rightarrow> transport_error + gate_review \<times> tstate" where
  "release_gate env now files_ok report_digest report review st =
     (if \<not> files_ok then Inl GateFiles
      else case report of
        None \<Rightarrow> Inl GateReport
      | Some rep \<Rightarrow>
          if report_status rep \<noteq> Some ''ready'' then Inl GateReport
          else (case review of
            None \<Rightarrow> Inl GateDecision
          | Some d \<Rightarrow>
              let stopped = (case d_stopped d of None \<Rightarrow> [] | Some s \<Rightarrow> s)
              in if \<not> valid_stop_evidence stopped \<or> d_decision d \<noteq> ''continue''
                    \<or> d_report_sha256 d \<noteq> report_digest \<or> blank (d_approval_reference d)
                 then Inl GateDecision
                 else mutate env now True (\<lambda>st.
                   if initial_body_bytes (spec env) = None \<or> t_gate st \<noteq> None then Inl GateAbsent
                   else if st \<noteq> ledger_receipt rep then Inl GateStale
                   else if source_charged st \<le> 0
                     \<or> set (map fst stopped) \<noteq> x_key ` set (filter (\<lambda>x. x_status x = Started) (transfers st))
                   then Inl GateEvidence
                   else
                     let g = \<lparr>g_receipt_sha256 = state_digest env st,
                           g_report_sha256 = d_report_sha256 d,
                           g_approval_reference = d_approval_reference d,
                           g_stopped = (if stopped = [] then None else Some stopped)\<rparr>
                     in Inr (g, st\<lparr>t_gate := Some g,
                          transfers := (if stopped = [] then transfers st
                            else interrupt_started (\<lambda>_. True) (transfers st))\<rparr>)) st))"

section \<open>What validation and a committed mutation imply\<close>

definition within_totals :: "transport_env \<Rightarrow> tstate \<Rightarrow> bool" where
  "within_totals env st \<longleftrightarrow> observes_network st
     \<or> \<not> over (source_charged st + metadata_charged st) (max_total_body_bytes (spec env))
       \<and> (t_gate st \<noteq> None \<or> \<not> over (source_charged st + metadata_charged st) (initial_body_bytes (spec env)))"

definition readings_ok :: "transfer \<Rightarrow> bool" where
  "readings_ok x \<longleftrightarrow> (case x_resources x of None \<Rightarrow> True | Some r \<Rightarrow> valid_readings r)"

definition gate_ok :: "transport_env \<Rightarrow> tstate \<Rightarrow> bool" where
  "gate_ok env st \<longleftrightarrow> (case t_gate st of None \<Rightarrow> True | Some g \<Rightarrow> valid_gate env g)"

definition good :: "transport_env \<Rightarrow> tstate \<Rightarrow> bool" where
  "good env st \<longleftrightarrow> validate_state env st = Inr ()"

lemma good_iff: "good env st \<longleftrightarrow> t_binding st = bound_to env \<and> valid_counters env st
    \<and> within_totals env st \<and> gate_ok env st \<and> list_all readings_ok (transfers st)"
  unfolding good_def validate_state_def within_totals_def gate_ok_def readings_ok_def Let_def
  by (auto split: if_splits option.splits)

text \<open>Which fields the parts of the validation read.\<close>

lemma frame [simp]:
  "valid_network env (st\<lparr>wall_clock_mode := v_wall_clock_mode\<rparr>) = valid_network env st"
  "valid_network env (st\<lparr>wall_clock_observation := v_wall_clock_observation\<rparr>) = valid_network env st"
  "valid_network env (st\<lparr>source_charged := v_source_charged\<rparr>) = valid_network env st"
  "valid_network env (st\<lparr>source_actual := v_source_actual\<rparr>) = valid_network env st"
  "valid_network env (st\<lparr>metadata_charged := v_metadata_charged\<rparr>) = valid_network env st"
  "valid_network env (st\<lparr>metadata_actual := v_metadata_actual\<rparr>) = valid_network env st"
  "valid_network env (st\<lparr>transfers := v_transfers\<rparr>) = valid_network env st"
  "valid_network env (st\<lparr>failures := v_failures\<rparr>) = valid_network env st"
  "valid_network env (st\<lparr>t_gate := v_t_gate\<rparr>) = valid_network env st"
  "valid_storage env (st\<lparr>wall_clock_mode := v_wall_clock_mode\<rparr>) = valid_storage env st"
  "valid_storage env (st\<lparr>wall_clock_observation := v_wall_clock_observation\<rparr>) = valid_storage env st"
  "valid_storage env (st\<lparr>source_charged := v_source_charged\<rparr>) = valid_storage env st"
  "valid_storage env (st\<lparr>source_actual := v_source_actual\<rparr>) = valid_storage env st"
  "valid_storage env (st\<lparr>metadata_charged := v_metadata_charged\<rparr>) = valid_storage env st"
  "valid_storage env (st\<lparr>metadata_actual := v_metadata_actual\<rparr>) = valid_storage env st"
  "valid_storage env (st\<lparr>transfers := v_transfers\<rparr>) = valid_storage env st"
  "valid_storage env (st\<lparr>failures := v_failures\<rparr>) = valid_storage env st"
  "valid_storage env (st\<lparr>t_gate := v_t_gate\<rparr>) = valid_storage env st"
  "observes_network (st\<lparr>wall_clock_mode := v_wall_clock_mode\<rparr>) = observes_network st"
  "observes_network (st\<lparr>wall_clock_observation := v_wall_clock_observation\<rparr>) = observes_network st"
  "observes_network (st\<lparr>source_charged := v_source_charged\<rparr>) = observes_network st"
  "observes_network (st\<lparr>source_actual := v_source_actual\<rparr>) = observes_network st"
  "observes_network (st\<lparr>metadata_charged := v_metadata_charged\<rparr>) = observes_network st"
  "observes_network (st\<lparr>metadata_actual := v_metadata_actual\<rparr>) = observes_network st"
  "observes_network (st\<lparr>transfers := v_transfers\<rparr>) = observes_network st"
  "observes_network (st\<lparr>failures := v_failures\<rparr>) = observes_network st"
  "observes_network (st\<lparr>t_gate := v_t_gate\<rparr>) = observes_network st"
  "valid_wall_clock env (st\<lparr>source_charged := v_source_charged\<rparr>) = valid_wall_clock env st"
  "valid_wall_clock env (st\<lparr>source_actual := v_source_actual\<rparr>) = valid_wall_clock env st"
  "valid_wall_clock env (st\<lparr>metadata_charged := v_metadata_charged\<rparr>) = valid_wall_clock env st"
  "valid_wall_clock env (st\<lparr>metadata_actual := v_metadata_actual\<rparr>) = valid_wall_clock env st"
  "valid_wall_clock env (st\<lparr>transfers := v_transfers\<rparr>) = valid_wall_clock env st"
  "valid_wall_clock env (st\<lparr>failures := v_failures\<rparr>) = valid_wall_clock env st"
  "valid_wall_clock env (st\<lparr>t_gate := v_t_gate\<rparr>) = valid_wall_clock env st"
  by (simp_all add: valid_network_def valid_storage_def valid_wall_clock_def observes_network_def
      split: option.splits)

lemma mutate_Inr [inversions]:
  "mutate env now cd update st = Inr (r, st') \<longleftrightarrow>
     good env st \<and> created_at st \<le> now
     \<and> (cd \<and> wall_clock_mode st = ''enforced'' \<longrightarrow> now < deadline st)
     \<and> update st = Inr (r, st')
     \<and> \<not> (bounded_storage env \<and> encoded_size env st' > 16 * 1024 ^ 2)"
  unfolding mutate_def good_def
  by (cases "validate_state env st"; cases "update st") (auto split: if_splits prod.splits)

lemma read_state_Inr [inversions]:
  "read_state env now st = Inr st' \<longleftrightarrow> good env st \<and> created_at st \<le> now \<and> st' = st"
  unfolding read_state_def good_def by (cases "validate_state env st") auto

lemma interrupt_maps [simp]:
  "map x_key (interrupt_started P xs) = map x_key xs"
  "map x_reserved (interrupt_started P xs) = map x_reserved xs"
  "map x_actual (interrupt_started P xs) = map x_actual xs"
  "length (interrupt_started P xs) = length xs"
  by (simp_all add: interrupt_started_def)

lemma interrupt_all:
  "list_all readings_ok (interrupt_started P xs) = list_all readings_ok xs"
  "list_all (\<lambda>x. 0 \<le> x_actual x \<and> x_actual x \<le> x_reserved x) (interrupt_started P xs)
     = list_all (\<lambda>x. 0 \<le> x_actual x \<and> x_actual x \<le> x_reserved x) xs"
  by (induction xs) (auto simp: interrupt_started_def readings_ok_def)

lemma check_combined_Inr [inversions]:
  "check_combined env st amount = Inr u \<longleftrightarrow> 0 \<le> amount
     \<and> (observes_network st
        \<or> \<not> over (source_charged st + metadata_charged st + amount) (max_total_body_bytes (spec env))
          \<and> (t_gate st \<noteq> None
             \<or> \<not> over (source_charged st + metadata_charged st + amount) (initial_body_bytes (spec env))))"
  by (auto simp: check_combined_def Let_def)

definition prior :: "tstate \<Rightarrow> string \<Rightarrow> transfer list" where
  "prior st key = filter (\<lambda>x. x_key x = key) (transfers st)"

definition retriable :: "bool \<Rightarrow> transfer \<Rightarrow> bool" where
  "retriable allow x \<longleftrightarrow> x_status x \<noteq> Failed
     \<and> (x_status x = Complete \<longrightarrow> allow \<and> x_verified x = Some True)"

lemma check_transfer_Inr [inversions]:
  "check_transfer env st key nbytes allow = Inr u \<longleftrightarrow>
     check_combined env st nbytes = Inr () \<and> list_all (retriable allow) (prior st key)
     \<and> (observes_network st \<or> int (length (prior st key)) \<le> max_retries_per_shard (spec env)
          \<and> int (length (transfers st)) < max_transfers (spec env)
          \<and> source_charged st + nbytes \<le> max_source_body_bytes (spec env))"
proof -
  have terminal: "list_ex (\<lambda>x. x_status x = Failed \<or> x_status x = Complete
       \<and> (\<not> allow \<or> x_verified x \<noteq> Some True)) xs \<longleftrightarrow> \<not> list_all (retriable allow) xs" for xs
    by (induction xs) (auto simp: retriable_def)
  show ?thesis
    unfolding check_transfer_def Let_def terminal prior_def [symmetric]
    by (cases "check_combined env st nbytes") (auto split: if_splits)
qed

lemma py_index_Some: "py_index xs i = Some j \<Longrightarrow> j < length xs"
  by (auto simp: py_index_def Let_def split: if_splits)

lemma over_mono: "n \<le> m \<Longrightarrow> over n l \<Longrightarrow> over m l"
  by (cases l) auto

section \<open>Every operation keeps the document valid\<close>

lemma observe_network_Inr [inversions]:
  assumes "observe_network env now wall owner reference st = Inr (ob, st')"
  shows "good env st \<and> good env st' \<and> \<not> observes_network st \<and> \<not> active st
    \<and> st' = st\<lparr>network_mode := ''observational'', network_obs := Some ob\<rparr>"
  using assms by (auto simp: observe_network_def mutate_Inr Let_def good_def split: if_splits)

lemma observe_storage_Inr [inversions]:
  assumes "observe_storage env now wall owner reference min_free st = Inr (ob, st')"
  shows "good env st \<and> good env st' \<and> storage_mode st \<noteq> ''observational'' \<and> \<not> active st
    \<and> st' = st\<lparr>storage_mode := ''observational'', storage_obs := Some ob\<rparr>"
  using assms by (auto simp: observe_storage_def mutate_Inr Let_def good_def split: if_splits)

lemma observe_time_Inr [inversions]:
  assumes "observe_time env now wall owner reference st = Inr (ob, st')"
  shows "good env st \<and> wall_clock_mode st \<noteq> ''observational'' \<and> \<not> active st
    \<and> valid_time_provenance owner reference \<and> created_at st \<le> now
    \<and> ob = \<lparr>o_owner = owner, o_reference = reference, o_selected_at = wall, o_planned_deadline = deadline st\<rparr>
    \<and> st' = st\<lparr>wall_clock_mode := ''observational'', wall_clock_observation := Some ob\<rparr>"
  using assms by (auto simp: observe_time_def mutate_Inr Let_def split: if_splits)

lemma observe_time_good:
  assumes "observe_time env now wall owner reference st = Inr (ob, st')" and "now \<le> wall"
  shows "good env st'"
proof -
  note ob = observe_time_Inr [OF assms(1)]
  then have "valid_wall_clock env st'"
    using assms(2) by (auto simp: valid_wall_clock_def good_iff valid_counters_def)
  with ob show ?thesis
    by (auto simp: good_iff valid_counters_def within_totals_def gate_ok_def)
qed

lemma reserve_transfer_Inr [inversions]:
  assumes "reserve_transfer env now wall tick source path nbytes allow st = Inr (i, st')"
  obtains new where "good env st" "created_at st \<le> now"
    "wall_clock_mode st = ''enforced'' \<longrightarrow> now < deadline st"
    "check_transfer env st (transfer_key source path) nbytes allow = Inr ()"
    "i = length (transfers st)"
    "st' = st\<lparr>source_charged := source_charged st + nbytes,
        transfers := interrupt_started (\<lambda>x. x_key x = transfer_key source path) (transfers st) @ [new]\<rparr>"
    "x_key new = transfer_key source path" "x_reserved new = nbytes" "x_actual new = 0"
    "x_status new = Started" "x_resources new = None"
  using assms
  by (auto simp: reserve_transfer_def mutate_Inr Let_def new_transfer_def split: if_splits)

lemma reserve_transfer_good:
  assumes "reserve_transfer env now wall tick source path nbytes allow st = Inr (i, st')"
  shows "good env st'"
  using assms
proof (cases rule: reserve_transfer_Inr)
  case (1 new)
  have amount: "0 \<le> nbytes" using 1(4) by (simp add: check_transfer_Inr check_combined_Inr)
  have "within_totals env st'"
    using 1(1,4,6) by (auto simp: within_totals_def check_transfer_Inr check_combined_Inr
        ac_simps)
  moreover have "valid_counters env st'"
    using 1 amount
    by (auto simp: good_iff valid_counters_def check_transfer_Inr interrupt_all)
  ultimately show ?thesis
    using 1 by (simp add: good_iff gate_ok_def interrupt_all readings_ok_def)
qed

lemma map_update_same: "i < length xs \<Longrightarrow> f v = f (xs ! i) \<Longrightarrow> map f (xs[i := v]) = map f xs"
  by (metis list_update_id map_update nth_map)

lemma charge_transfer_actual_Inr [inversions]:
  assumes "charge_transfer_actual env now wall index amount st = Inr (u, st')"
  obtains i x' where "good env st" "py_index (transfers st) index = Some i" "i < length (transfers st)"
    "x_status (transfers st ! i) = Started"
    "amount \<le> x_reserved (transfers st ! i) - x_actual (transfers st ! i)"
    "st' = st\<lparr>transfers := (transfers st)[i := x'], source_actual := source_actual st + amount\<rparr>"
    "x_key x' = x_key (transfers st ! i)" "x_reserved x' = x_reserved (transfers st ! i)"
    "x_actual x' = x_actual (transfers st ! i) + amount" "x_status x' = Started"
    "x_resources x' = x_resources (transfers st ! i)"
proof -
  from assms obtain i where i: "good env st" "py_index (transfers st) index = Some i"
    by (auto simp: charge_transfer_actual_def mutate_Inr split: option.splits)
  let ?x = "transfers st ! i"
  let ?x1 = "?x\<lparr>x_actual := x_actual ?x + amount\<rparr>"
  let ?x2 = "if amount \<noteq> 0 \<and> x_started ?x \<noteq> None then ?x1\<lparr>x_last_progress := Some wall\<rparr> else ?x1"
  from assms i have "x_status ?x = Started" "amount \<le> x_reserved ?x - x_actual ?x"
      "st' = st\<lparr>transfers := (transfers st)[i := ?x2], source_actual := source_actual st + amount\<rparr>"
    by (auto simp: charge_transfer_actual_def mutate_Inr Let_def split: if_splits)
  with that [OF i py_index_Some [OF i(2)], of ?x2] show thesis by simp
qed

lemma charge_transfer_actual_good:
  assumes "charge_transfer_actual env now wall index amount st = Inr (u, st')" and "0 \<le> amount"
  shows "good env st'"
  using assms(1)
proof (cases rule: charge_transfer_actual_Inr)
  case (1 i x')
  let ?xs = "transfers st"
  have ok: "0 \<le> x_actual (?xs ! i) \<and> x_actual (?xs ! i) \<le> x_reserved (?xs ! i)" "readings_ok (?xs ! i)"
    using 1(1,3) by (auto simp: good_iff valid_counters_def list_all_length)
  have all_ok: "list_all (\<lambda>x. 0 \<le> x_actual x \<and> x_actual x \<le> x_reserved x) (?xs[i := x'])"
    using 1 ok assms(2) by (intro list_all_update) (auto simp: good_iff valid_counters_def)
  have maps: "(\<Sum>x\<leftarrow>?xs[i := x']. x_reserved x) = (\<Sum>x\<leftarrow>?xs. x_reserved x)"
    "(\<Sum>x\<leftarrow>?xs[i := x']. x_actual x) = (\<Sum>x\<leftarrow>?xs. x_actual x) + amount"
    using 1 by (simp_all add: sum_list_map_update)
  have "(\<Sum>x\<leftarrow>?xs[i := x']. x_actual x) \<le> (\<Sum>x\<leftarrow>?xs[i := x']. x_reserved x)"
    using all_ok by (intro sum_list_mono) (auto simp: list_all_iff)
  moreover have "list_all readings_ok (?xs[i := x'])"
    using 1 ok by (intro list_all_update) (auto simp: good_iff readings_ok_def)
  moreover have "good env st" by (rule 1(1))
  ultimately show ?thesis
    using 1(6) all_ok maps assms(2)
    by (auto simp: good_iff valid_counters_def within_totals_def gate_ok_def)
qed

lemma finish_transfer_Inr [inversions]:
  assumes "finish_transfer env now wall tick index success interrupted st = Inr (u, st')"
  obtains i x' where "good env st" "py_index (transfers st) index = Some i" "i < length (transfers st)"
    "x_status (transfers st ! i) = Started" "st' = st\<lparr>transfers := (transfers st)[i := x']\<rparr>"
    "x_key x' = x_key (transfers st ! i)" "x_reserved x' = x_reserved (transfers st ! i)"
    "x_actual x' = x_actual (transfers st ! i)"
    "x_status x' = (if success then Complete else if interrupted then Interrupted else Failed)"
    "x_verified x' = Some success" "x_resources x' = x_resources (transfers st ! i)"
proof -
  from assms obtain i where i: "good env st" "py_index (transfers st) index = Some i"
    by (auto simp: finish_transfer_def mutate_Inr split: option.splits)
  let ?x = "transfers st ! i"
  let ?s = "if success then Complete else if interrupted then Interrupted else Failed"
  let ?x1 = "?x\<lparr>x_status := ?s, x_verified := Some success\<rparr>"
  let ?x2 = "case x_started ?x of None \<Rightarrow> ?x1 | Some (_, tick0) \<Rightarrow>
      (let elapsed = max 0 (tick - tick0) in ?x1\<lparr>x_ended := Some (wall, elapsed,
         if elapsed = 0 then None else Some (of_int (x_actual ?x) / elapsed))\<rparr>)"
  from assms i have "x_status ?x = Started" "st' = st\<lparr>transfers := (transfers st)[i := ?x2]\<rparr>"
    by (auto simp: finish_transfer_def mutate_Inr Let_def split: if_splits)
  with that [OF i py_index_Some [OF i(2)], of ?x2] show thesis
    by (auto simp: Let_def split: option.splits)
qed

lemma finish_transfer_good:
  assumes "finish_transfer env now wall tick index success interrupted st = Inr (u, st')"
  shows "good env st'"
  using assms
proof (cases rule: finish_transfer_Inr)
  case (1 i x')
  let ?xs = "transfers st"
  have ok: "0 \<le> x_actual (?xs ! i) \<and> x_actual (?xs ! i) \<le> x_reserved (?xs ! i)" "readings_ok (?xs ! i)"
    using 1(1,3) by (auto simp: good_iff valid_counters_def list_all_length)
  have maps: "map x_reserved (?xs[i := x']) = map x_reserved ?xs" "map x_actual (?xs[i := x']) = map x_actual ?xs"
    using 1 by (simp_all add: map_update_same)
  have "list_all (\<lambda>x. 0 \<le> x_actual x \<and> x_actual x \<le> x_reserved x) (?xs[i := x'])"
       "list_all readings_ok (?xs[i := x'])"
    using 1 ok by (auto intro!: list_all_update simp: good_iff valid_counters_def readings_ok_def)
  with 1(1,5) maps show ?thesis
    by (auto simp: good_iff valid_counters_def within_totals_def gate_ok_def)
qed

lemma record_failure_Inr [inversions]:
  assumes "record_failure env now source kind message st = Inr (u, st')"
  shows "good env st \<and> (\<exists>f. st' = st\<lparr>failures := failures st @ [f]\<rparr>)"
  using assms by (auto simp: record_failure_def mutate_Inr)

lemma record_failure_good: "record_failure env now source kind message st = Inr (u, st') \<Longrightarrow> good env st'"
  by (drule record_failure_Inr) (auto simp: good_iff valid_counters_def within_totals_def gate_ok_def)

lemma reserve_metadata_Inr [inversions]:
  assumes "reserve_metadata env now amount st = Inr (u, st')"
  shows "good env st \<and> check_combined env st amount = Inr ()
    \<and> (observes_network st \<or> metadata_charged st + amount \<le> max_metadata_body_bytes (spec env))
    \<and> st' = st\<lparr>metadata_charged := metadata_charged st + amount\<rparr>"
  using assms by (auto simp: reserve_metadata_def mutate_Inr split: if_splits)

lemma reserve_metadata_good:
  assumes "reserve_metadata env now amount st = Inr (u, st')"
  shows "good env st'"
  using reserve_metadata_Inr [OF assms]
  by (auto simp: good_iff valid_counters_def within_totals_def gate_ok_def check_combined_Inr ac_simps)

lemma charge_metadata_Inr [inversions]:
  assumes "charge_metadata_actual env now amount st = Inr (u, st')"
  shows "good env st \<and> metadata_actual st + amount \<le> metadata_charged st
    \<and> st' = st\<lparr>metadata_actual := metadata_actual st + amount\<rparr>"
  using assms by (auto simp: charge_metadata_actual_def mutate_Inr Let_def split: if_splits)

lemma charge_metadata_good:
  assumes "charge_metadata_actual env now amount st = Inr (u, st')" and "0 \<le> amount"
  shows "good env st'"
  using charge_metadata_Inr [OF assms(1)] assms(2)
  by (auto simp: good_iff valid_counters_def within_totals_def gate_ok_def)

lemma record_resources_Inr [inversions]:
  assumes "record_resources env now index r st = Inr (u, st')"
  shows "good env st \<and> good env st' \<and> (\<exists>i < length (transfers st). st' = st\<lparr>transfers :=
     (transfers st)[i := (transfers st ! i)\<lparr>x_resources := Some r\<rparr>]\<rparr>)"
  using assms
  by (auto simp: record_resources_def mutate_Inr Let_def good_def dest: py_index_Some split: option.splits)

lemma release_gate_Inr [inversions]:
  assumes "release_gate env now files_ok report_digest report review st = Inr (g, st')"
  obtains stopped where "good env st" "t_gate st = None" "initial_body_bytes (spec env) \<noteq> None"
    "0 < source_charged st" "valid_stop_evidence stopped" "\<not> blank (g_approval_reference g)"
    "set (map fst stopped) = x_key ` set (filter (\<lambda>x. x_status x = Started) (transfers st))"
    "g_receipt_sha256 g = state_digest env st" "g_report_sha256 g = report_digest"
    "g_stopped g = (if stopped = [] then None else Some stopped)"
    "st' = st\<lparr>t_gate := Some g, transfers := (if stopped = [] then transfers st
        else interrupt_started (\<lambda>_. True) (transfers st))\<rparr>"
proof -
  from assms obtain rep d where rd: "report = Some rep" "review = Some d"
    by (auto simp: release_gate_def split: if_splits option.splits)
  define stopped where "stopped = (case d_stopped d of None \<Rightarrow> [] | Some s \<Rightarrow> s)"
  define after where "after = st\<lparr>t_gate := Some g, transfers := (if stopped = [] then transfers st
        else interrupt_started (\<lambda>_. True) (transfers st))\<rparr>"
  from assms rd have ok: "valid_stop_evidence stopped" "\<not> blank (d_approval_reference d)"
      "d_report_sha256 d = report_digest"
    by (auto simp: release_gate_def Let_def stopped_def split: if_splits)
  from assms rd ok have m: "mutate env now True (\<lambda>st.
       if initial_body_bytes (spec env) = None \<or> t_gate st \<noteq> None then Inl GateAbsent
       else if st \<noteq> ledger_receipt rep then Inl GateStale
       else if source_charged st \<le> 0
         \<or> set (map fst stopped) \<noteq> x_key ` set (filter (\<lambda>x. x_status x = Started) (transfers st))
       then Inl GateEvidence
       else let g = \<lparr>g_receipt_sha256 = state_digest env st, g_report_sha256 = d_report_sha256 d,
               g_approval_reference = d_approval_reference d,
               g_stopped = (if stopped = [] then None else Some stopped)\<rparr>
         in Inr (g, st\<lparr>t_gate := Some g, transfers := (if stopped = [] then transfers st
            else interrupt_started (\<lambda>_. True) (transfers st))\<rparr>)) st = Inr (g, st')"
    by (simp add: release_gate_def Let_def stopped_def [symmetric] split: if_splits)
  then have "good env st" "initial_body_bytes (spec env) \<noteq> None" "t_gate st = None" "0 < source_charged st"
      "set (map fst stopped) = x_key ` set (filter (\<lambda>x. x_status x = Started) (transfers st))"
      "g = \<lparr>g_receipt_sha256 = state_digest env st, g_report_sha256 = d_report_sha256 d,
         g_approval_reference = d_approval_reference d,
         g_stopped = (if stopped = [] then None else Some stopped)\<rparr>" "st' = after"
    unfolding mutate_Inr Let_def after_def by (clarsimp simp: not_le split: if_splits; auto)+
  with ok show thesis
    by (intro that [of stopped]) (simp_all add: after_def)
qed

lemma release_gate_good:
  assumes "release_gate env now files_ok report_digest report review st = Inr (g, st')"
    and "\<not> blank report_digest" and "\<not> blank (state_digest env st)"
  shows "good env st'"
  using assms(1)
proof (cases rule: release_gate_Inr)
  case (1 stopped)
  then have "valid_gate env g"
    using assms(2,3) by (auto simp: valid_gate_def valid_stop_evidence_def)
  with 1(1,11) show ?thesis
    by (auto simp: good_iff valid_counters_def within_totals_def gate_ok_def interrupt_all)
qed

end
