(* ===== verification/Transport_Runs.thy ===== *)
theory Transport_Runs
  imports Transport_Budget
begin

text \<open>
  Runs of the transport ledger of \<open>Transport_Budget\<close>: its mutations as one step function, the
  interfaces it satisfies, and what holds after any sequence of calls, failed ones included.
\<close>

section \<open>The ledger as a machine\<close>

datatype transport_op =
    ObserveNetwork rat rat string string
  | ObserveStorage rat rat string string int
  | ObserveTime rat rat string string
  | ReserveTransfer rat rat rat string string int bool
  | ChargeTransfer rat rat int int
  | FinishTransfer rat rat rat int bool bool
  | RecordFailure rat string string string
  | ReserveMetadata rat int
  | ChargeMetadata rat int
  | RecordResources rat int readings
  | ReleaseGate rat bool string "gate_report option" "gate_decision option"

definition committed :: "transport_error + 'a \<times> tstate \<Rightarrow> transport_error + tstate" where
  "committed r = bindE r (\<lambda>(_, st). Inr st)"

lemma committed_Inr [simp]: "committed r = Inr st \<longleftrightarrow> (\<exists>x. r = Inr (x, st))"
  by (auto simp: committed_def)

fun transport_step :: "transport_env \<Rightarrow> transport_op \<Rightarrow> tstate \<Rightarrow> transport_error + tstate" where
  "transport_step env (ObserveNetwork now wall owner reference) st =
     committed (observe_network env now wall owner reference st)"
| "transport_step env (ObserveStorage now wall owner reference min_free) st =
     committed (observe_storage env now wall owner reference min_free st)"
| "transport_step env (ObserveTime now wall owner reference) st =
     committed (observe_time env now wall owner reference st)"
| "transport_step env (ReserveTransfer now wall tick source path nbytes allow) st =
     committed (reserve_transfer env now wall tick source path nbytes allow st)"
| "transport_step env (ChargeTransfer now wall index amount) st =
     committed (charge_transfer_actual env now wall index amount st)"
| "transport_step env (FinishTransfer now wall tick index success interrupted) st =
     committed (finish_transfer env now wall tick index success interrupted st)"
| "transport_step env (RecordFailure now source kind message) st =
     committed (record_failure env now source kind message st)"
| "transport_step env (ReserveMetadata now amount) st = committed (reserve_metadata env now amount st)"
| "transport_step env (ChargeMetadata now amount) st = committed (charge_metadata_actual env now amount st)"
| "transport_step env (RecordResources now index r) st = committed (record_resources env now index r st)"
| "transport_step env (ReleaseGate now files_ok report_digest report review) st =
     committed (release_gate env now files_ok report_digest report review st)"

text \<open>
  What the environment guarantees: received byte counts are lengths, a clock read later in a
  call is not earlier, and hex digests are not blank.
\<close>

fun sound :: "transport_env \<Rightarrow> transport_op \<Rightarrow> bool" where
  "sound env (ObserveTime now wall owner reference) = (now \<le> wall)"
| "sound env (ChargeTransfer now wall index amount) = (0 \<le> amount)"
| "sound env (ChargeMetadata now amount) = (0 \<le> amount)"
| "sound env (ReleaseGate now files_ok report_digest report review) =
     (\<not> blank report_digest \<and> (\<forall>st. \<not> blank (state_digest env st)))"
| "sound env _ = True"

fun keeps_enforcing :: "transport_op \<Rightarrow> bool" where
  "keeps_enforcing (ObserveNetwork now wall owner reference) = False"
| "keeps_enforcing _ = True"

lemma transport_step_good:
  assumes "transport_step env op st = Inr st'" and "sound env op"
  shows "good env st \<and> good env st'"
proof (cases op)
  case (ReserveTransfer now wall tick source path nbytes allow)
  with assms show ?thesis
    by (auto dest: reserve_transfer_good elim: reserve_transfer_Inr)
next
  case (ChargeTransfer now wall index amount)
  with assms show ?thesis
    by (auto dest: charge_transfer_actual_good elim: charge_transfer_actual_Inr)
next
  case (FinishTransfer now wall tick index success interrupted)
  with assms show ?thesis
    by (auto dest: finish_transfer_good elim: finish_transfer_Inr)
next
  case (ReleaseGate now files_ok report_digest report review)
  with assms show ?thesis
    by (auto dest: release_gate_good elim: release_gate_Inr)
qed (use assms in \<open>auto dest: observe_network_Inr observe_storage_Inr observe_time_Inr observe_time_good
    record_failure_Inr record_failure_good reserve_metadata_Inr reserve_metadata_good
    charge_metadata_Inr charge_metadata_good record_resources_Inr\<close>)

definition key_log :: "tstate \<Rightarrow> (string \<times> int) list" where
  "key_log st = map (\<lambda>x. (x_key x, x_reserved x)) (transfers st)"

text \<open>What one committed call does to the fields the properties speak of.\<close>

definition advances :: "transport_env \<Rightarrow> transport_op \<Rightarrow> tstate \<Rightarrow> tstate \<Rightarrow> bool" where
  "advances env op st st' \<longleftrightarrow>
     prefix (key_log st) (key_log st')
     \<and> source_charged st \<le> source_charged st' \<and> metadata_charged st \<le> metadata_charged st'
     \<and> source_actual st \<le> source_actual st' \<and> metadata_actual st \<le> metadata_actual st'
     \<and> (keeps_enforcing op \<longrightarrow> network_mode st' = network_mode st)
     \<and> (\<forall>g. t_gate st = Some g \<longrightarrow> t_gate st' = Some g)
     \<and> deadline st' = deadline st"

lemma key_log_interrupt: "key_log (st\<lparr>transfers := interrupt_started P (transfers st)\<rparr>) = key_log st"
  by (simp add: key_log_def interrupt_started_def)

lemma key_log_update:
  "i < length (transfers st) \<Longrightarrow> x_key x' = x_key (transfers st ! i) \<Longrightarrow>
   x_reserved x' = x_reserved (transfers st ! i) \<Longrightarrow>
   map (\<lambda>x. (x_key x, x_reserved x)) ((transfers st)[i := x']) = key_log st"
  by (simp add: key_log_def map_update_same)

lemma map_interrupt: "map (\<lambda>x. (x_key x, x_reserved x)) (interrupt_started P xs)
    = map (\<lambda>x. (x_key x, x_reserved x)) xs"
  by (simp add: interrupt_started_def)

lemma transport_step_advances:
  assumes "transport_step env op st = Inr st'" and "sound env op"
  shows "advances env op st st'"
proof (cases op)
  case (ReserveTransfer now wall tick source path nbytes allow)
  with assms obtain i where r: "reserve_transfer env now wall tick source path nbytes allow st = Inr (i, st')"
    by auto
  then show ?thesis
  proof (cases rule: reserve_transfer_Inr)
    case (1 new)
    have "0 \<le> nbytes" using 1(4) by (simp add: check_transfer_Inr check_combined_Inr)
    with 1 show ?thesis
      by (simp add: advances_def key_log_def map_interrupt)
  qed
next
  case (ChargeTransfer now wall index amount)
  with assms have "charge_transfer_actual env now wall index amount st = Inr ((), st')" "0 \<le> amount" by auto
  then show ?thesis
    by (elim charge_transfer_actual_Inr) (simp add: advances_def key_log_update, simp add: key_log_def key_log_update)
next
  case (FinishTransfer now wall tick index success interrupted)
  with assms have "finish_transfer env now wall tick index success interrupted st = Inr ((), st')" by auto
  then show ?thesis
    by (elim finish_transfer_Inr) (simp add: advances_def key_log_def map_update_same)
next
  case (ReleaseGate now files_ok report_digest report review)
  with assms obtain g where "release_gate env now files_ok report_digest report review st = Inr (g, st')" by auto
  then show ?thesis
    by (elim release_gate_Inr) (simp add: advances_def key_log_def map_interrupt)
next
  case (RecordResources now index r)
  with assms have "record_resources env now index r st = Inr ((), st')" by auto
  then show ?thesis
    by (auto dest!: record_resources_Inr simp: advances_def key_log_def map_update_same)
next
  case (ReserveMetadata now amount)
  with assms have "reserve_metadata env now amount st = Inr ((), st')" by auto
  then show ?thesis
    by (auto dest!: reserve_metadata_Inr simp: advances_def key_log_def check_combined_Inr)
qed (use assms in \<open>auto dest!: observe_network_Inr observe_storage_Inr observe_time_Inr
    record_failure_Inr charge_metadata_Inr simp: advances_def key_log_def\<close>)

section \<open>Interfaces\<close>

interpretation transport: append_log "transport_step env" "good env" "sound env" key_log
  for env :: transport_env
proof unfold_locales
  fix st op st'
  assume step: "good env st" "sound env op" "transport_step env op st = Inr st'"
  show "good env st'" using transport_step_good [OF step(3,2)] by simp
  show "prefix (key_log st) (key_log st')"
    using transport_step_advances [OF step(3,2)] by (simp add: advances_def)
qed

definition enforced :: "transport_env \<Rightarrow> tstate \<Rightarrow> bool" where
  "enforced env st \<longleftrightarrow> good env st \<and> \<not> observes_network st"

definition enforcing_op :: "transport_env \<Rightarrow> transport_op \<Rightarrow> bool" where
  "enforcing_op env op \<longleftrightarrow> sound env op \<and> keeps_enforcing op"

lemma enforced_step:
  assumes "enforced env st" and "enforcing_op env op" and "transport_step env op st = Inr st'"
  shows "enforced env st'"
  using assms transport_step_good [OF assms(3)] transport_step_advances [OF assms(3)]
  by (auto simp: enforced_def enforcing_op_def advances_def observes_network_def)

text \<open>The limit on source and metadata bytes together: the declared total, or the two limits.\<close>

definition total_limit :: "transport_env \<Rightarrow> int" where
  "total_limit env = (case max_total_body_bytes (spec env) of
       Some t \<Rightarrow> t | None \<Rightarrow> max_source_body_bytes (spec env) + max_metadata_body_bytes (spec env))"

interpretation source_body: budget_ledger "transport_step env" "enforced env" "enforcing_op env"
  source_charged "\<lambda>_. max_source_body_bytes (spec env)" for env :: transport_env
proof unfold_locales
  fix st op st'
  assume st: "enforced env st"
  then show "source_charged st \<le> max_source_body_bytes (spec env)"
    by (auto simp: enforced_def good_iff valid_counters_def)
  assume op: "enforcing_op env op" "transport_step env op st = Inr st'"
  show "enforced env st'" by (rule enforced_step [OF st op])
  show "source_charged st \<le> source_charged st'"
    using transport_step_advances [OF op(2)] op(1) by (simp add: enforcing_op_def advances_def)
qed simp

interpretation total_body: budget_ledger "transport_step env" "enforced env" "enforcing_op env"
  "\<lambda>st. source_charged st + metadata_charged st" "\<lambda>_. total_limit env" for env :: transport_env
proof unfold_locales
  fix st op st'
  assume st: "enforced env st"
  then show "source_charged st + metadata_charged st \<le> total_limit env"
    by (auto simp: enforced_def good_iff valid_counters_def within_totals_def total_limit_def
        split: option.splits)
  assume op: "enforcing_op env op" "transport_step env op st = Inr st'"
  show "source_charged st + metadata_charged st \<le> source_charged st' + metadata_charged st'"
    using transport_step_advances [OF op(2)] op(1) by (auto simp: enforcing_op_def advances_def)
qed simp

section \<open>A created ledger\<close>

definition opened :: "(json \<Rightarrow> string) \<Rightarrow> (tstate \<Rightarrow> string) \<Rightarrow> transport_spec \<Rightarrow> project \<Rightarrow> transport_env" where
  "opened digest sdigest sp p = \<lparr>spec = sp, bound_to = digest (binding_value sp p), state_digest = sdigest,
     bounded_storage = False, encoded_size = (\<lambda>_. 0)\<rparr>"

lemma initialize_enforced:
  assumes "initialize digest now p exists = Inr st" and "config_transport_budget (p_config p) = Some sp"
    and "valid_transport_spec sp = Inr ()"
  shows "enforced (opened digest sdigest sp p) st"
proof -
  have sp: "0 < max_source_body_bytes sp" "0 < max_metadata_body_bytes sp" "0 < max_transfers sp"
      "positive_opt (max_total_body_bytes sp)" "positive_opt (initial_body_bytes sp)"
    using assms(3) by (auto simp: valid_transport_spec_def split: if_splits)
  have pos: "\<not> over 0 l" if "positive_opt l" for l using that by (cases l) auto
  from assms(1,2) show ?thesis
    by (auto simp: initialize_def enforced_def opened_def good_iff valid_counters_def valid_network_def
        valid_wall_clock_def valid_storage_def observes_network_def within_totals_def gate_ok_def
        sp pos less_imp_le split: if_splits)
qed

section \<open>A concrete project\<close>

definition sample_shard :: "string \<Rightarrow> hf_shard" where
  "sample_shard path = \<lparr>hs_path = path, hs_sha256 = replicate 64 CHR ''a'', hs_max_bytes = 100,
     hs_max_rows = 10, hs_modulus = 1, hs_remainders = [0], hs_config = None, hs_split = None\<rparr>"

definition sample_source :: source_declaration where
  "sample_source = \<lparr>source_id = ''web'', source_kind = ''huggingface_dataset'',
     canonical_uri = ''https://h/d'', revision = replicate 40 CHR ''0'', redistribution = None,
     acquisition_spec = HuggingFaceAcquisition \<lparr>hf_retained = None, hf_qualified = False,
       hf_config = ''en'', hf_split = ''train'', hf_include = [],
       hf_shards = Some [sample_shard ''en/train/a.parquet'', sample_shard ''en/train/b.parquet''],
       hf_text_field = ''text'', hf_max_rows = 20, hf_max_bytes = 200, hf_max_decompressed_bytes = None\<rparr>\<rparr>"

definition sample_spec :: transport_spec where
  "sample_spec = \<lparr>attempt_id = ''a1'', max_source_body_bytes = 500, max_metadata_body_bytes = 50,
     max_transfers = 4, max_retries_per_shard = 1, max_wall_seconds = 60, max_disk_bytes = 100000,
     max_total_body_bytes = Some 520, initial_body_bytes = Some 250\<rparr>"

definition sample_project :: project where
  "sample_project = \<lparr>p_config = \<lparr>config_project_id = ''demo'', config_sources = [''sources/web.yaml''],
     config_transforms = [], config_splits = ''splits.yaml'', config_release = ''release.yaml'',
     config_transport_budget = Some sample_spec, config_source_effects = None\<rparr>,
     p_sources = [sample_source]\<rparr>"

definition sample_tenv :: transport_env where
  "sample_tenv = opened (\<lambda>_. ''b'') (\<lambda>_. ''r'') sample_spec sample_project"

definition sample_tstate :: tstate where
  "sample_tstate = (case initialize (\<lambda>_. ''b'') 10 sample_project False of Inr st \<Rightarrow> st
     | Inl _ \<Rightarrow> \<lparr>t_binding = [], created_at = 0, deadline = 0, wall_clock_mode = [],
         wall_clock_observation = None, storage_mode = [], storage_obs = None, network_mode = [],
         network_obs = None, source_charged = 0, source_actual = 0, metadata_charged = 0,
         metadata_actual = 0, transfers = [], failures = [], t_gate = None\<rparr>)"

lemma sample_initialized: "initialize (\<lambda>_. ''b'') 10 sample_project False = Inr sample_tstate"
  by code_simp

lemma sample_spec_valid: "valid_transport_spec sample_spec = Inr ()"
  by code_simp

lemma sample_spec_declared: "config_transport_budget (p_config sample_project) = Some sample_spec"
  by (simp add: sample_project_def)

lemma sample_enforced: "enforced sample_tenv sample_tstate"
  unfolding sample_tenv_def
  by (rule initialize_enforced [OF sample_initialized sample_spec_declared sample_spec_valid])

definition sample_tops :: "transport_op list" where
  "sample_tops = [ReserveTransfer 11 11 11 ''web'' ''en/train/a.parquet'' 100 False,
     ChargeTransfer 12 12 0 40, ReserveMetadata 13 20, ChargeMetadata 13 20,
     FinishTransfer 14 14 14 0 False True, ReserveTransfer 15 15 15 ''web'' ''en/train/a.parquet'' 100 False,
     ReserveTransfer 16 16 16 ''web'' ''en/train/b.parquet'' 100 False, ChargeTransfer 17 17 (-1) 101]"

lemma sample_tops_sound: "list_all (enforcing_op sample_tenv) sample_tops"
  by (simp add: sample_tops_def enforcing_op_def)

section \<open>Properties\<close>

text \<open>
  C1. Acquisition never exceeds its declared bytes. From a ledger created for a valid budget,
  after any sequence of calls that does not switch to network observation, the bytes received
  are within the bytes reserved, the reservations are within the source, metadata and total
  limits, the number of transfers is within its limit, and as long as the gate has not been
  released the reservations are within the initial allowance.
\<close>

theorem acquisition_within_budget:
  assumes "initialize digest now p exists = Inr st" and "config_transport_budget (p_config p) = Some sp"
    and "valid_transport_spec sp = Inr ()" and "list_all (enforcing_op (opened digest sdigest sp p)) ops"
    and "final = run_ops (transport_step (opened digest sdigest sp p)) st ops"
  shows "source_actual final + metadata_actual final \<le> source_charged final + metadata_charged final
    \<and> source_charged final \<le> max_source_body_bytes sp
    \<and> metadata_charged final \<le> max_metadata_body_bytes sp
    \<and> int (length (transfers final)) \<le> max_transfers sp
    \<and> \<not> over (source_charged final + metadata_charged final) (max_total_body_bytes sp)
    \<and> (t_gate final \<noteq> None
       \<or> \<not> over (source_charged final + metadata_charged final) (initial_body_bytes sp))"
proof -
  let ?env = "opened digest sdigest sp p"
  have "enforced ?env final"
    unfolding assms(5) by (rule source_body.run_inv [OF initialize_enforced [OF assms(1-3)] assms(4)])
  moreover have "spec ?env = sp" by (simp add: opened_def)
  ultimately show ?thesis
    unfolding enforced_def good_iff valid_counters_def within_totals_def by auto
qed

theorem acquisition_within_budget_witness:
  "\<exists>final. final = run_ops (transport_step sample_tenv) sample_tstate sample_tops
    \<and> source_actual final + metadata_actual final \<le> source_charged final + metadata_charged final
    \<and> source_charged final \<le> 500"
  using acquisition_within_budget [OF sample_initialized sample_spec_declared sample_spec_valid
      sample_tops_sound [unfolded sample_tenv_def] refl]
  by (auto simp: sample_tenv_def sample_spec_def)

text \<open>
  Nothing recorded is taken back. Over any sequence of calls the sequence of reserved
  transfers (shard and bytes) only grows at its end, and from a state under enforcement the
  total charge stays within the one limit and never goes down.
\<close>

theorem reservations_never_taken_back:
  assumes "enforced env st" and "list_all (enforcing_op env) ops"
  shows "prefix (map (\<lambda>x. (x_key x, x_reserved x)) (transfers st))
      (map (\<lambda>x. (x_key x, x_reserved x)) (transfers (run_ops (transport_step env) st ops)))
    \<and> source_charged st + metadata_charged st
      \<le> source_charged (run_ops (transport_step env) st ops) + metadata_charged (run_ops (transport_step env) st ops)
    \<and> source_charged (run_ops (transport_step env) st ops) + metadata_charged (run_ops (transport_step env) st ops)
      \<le> total_limit env"
proof -
  have "list_all (sound env) ops" "good env st"
    using assms by (auto simp: list_all_iff enforcing_op_def enforced_def)
  from transport.run_log_grows [OF this(2,1)] show ?thesis
    using total_body.run_never_refund [OF assms] total_body.run_within [OF assms]
    by (simp add: key_log_def)
qed

theorem reservations_never_taken_back_witness:
  "source_charged sample_tstate + metadata_charged sample_tstate
    \<le> source_charged (run_ops (transport_step sample_tenv) sample_tstate sample_tops)
      + metadata_charged (run_ops (transport_step sample_tenv) sample_tstate sample_tops)"
  using reservations_never_taken_back [OF sample_enforced sample_tops_sound] by blast

section \<open>Retries and terminal shards\<close>

definition tries :: "string \<Rightarrow> tstate \<Rightarrow> nat" where
  "tries key st = length (prior st key)"

lemma tries_log: "tries key st = length (filter (\<lambda>(k, n). k = key) (key_log st))"
proof -
  have "length (filter (\<lambda>x. x_key x = key) xs)
      = length (filter (\<lambda>(k, n). k = key) (map (\<lambda>x. (x_key x, x_reserved x)) xs))" for xs
    by (induction xs) auto
  then show ?thesis by (simp add: tries_def prior_def key_log_def)
qed

definition tries_ok :: "transport_env \<Rightarrow> tstate \<Rightarrow> bool" where
  "tries_ok env st \<longleftrightarrow> enforced env st
     \<and> (\<forall>key. int (tries key st) \<le> max_retries_per_shard (spec env) + 1)"

text \<open>Only a reservation adds to the log, and only one entry.\<close>

lemma key_log_step:
  assumes "transport_step env op st = Inr st'" and "sound env op"
  shows "key_log st' = key_log st \<or> (\<exists>key nbytes allow. key_log st' = key_log st @ [(key, nbytes)]
    \<and> check_transfer env st key nbytes allow = Inr ())"
proof (cases op)
  case (ReserveTransfer now wall tick source path nbytes allow)
  with assms obtain i where "reserve_transfer env now wall tick source path nbytes allow st = Inr (i, st')"
    by auto
  then show ?thesis
    by (elim reserve_transfer_Inr) (auto simp: key_log_def map_interrupt)
next
  case (ChargeTransfer now wall index amount)
  with assms have "charge_transfer_actual env now wall index amount st = Inr ((), st')" by auto
  then show ?thesis
    by (elim charge_transfer_actual_Inr) (simp add: key_log_def map_update_same)
next
  case (FinishTransfer now wall tick index success interrupted)
  with assms have "finish_transfer env now wall tick index success interrupted st = Inr ((), st')" by auto
  then show ?thesis
    by (elim finish_transfer_Inr) (simp add: key_log_def map_update_same)
next
  case (ReleaseGate now files_ok report_digest report review)
  with assms obtain g where "release_gate env now files_ok report_digest report review st = Inr (g, st')" by auto
  then show ?thesis
    by (elim release_gate_Inr) (simp add: key_log_def map_interrupt)
next
  case (RecordResources now index r)
  with assms have "record_resources env now index r st = Inr ((), st')" by auto
  then show ?thesis
    by (auto dest!: record_resources_Inr simp: key_log_def map_update_same)
qed (use assms in \<open>auto dest!: observe_network_Inr observe_storage_Inr observe_time_Inr
    record_failure_Inr charge_metadata_Inr reserve_metadata_Inr simp: key_log_def\<close>)

interpretation retries: guarded_machine "transport_step env" "tries_ok env" "enforcing_op env"
  for env :: transport_env
proof unfold_locales
  fix st op st'
  assume st: "tries_ok env st" and op: "enforcing_op env op" "transport_step env op st = Inr st'"
  from st have enforcing: "enforced env st" by (simp add: tries_ok_def)
  have "int (tries key st') \<le> max_retries_per_shard (spec env) + 1" for key
    using key_log_step [OF op(2)] op(1) st enforcing
    by (auto simp: enforcing_op_def tries_ok_def tries_log check_transfer_Inr enforced_def
        simp flip: tries_def)
  with enforced_step [OF enforcing op] show "tries_ok env st'" by (simp add: tries_ok_def)
qed

text \<open>
  A shard is requested at most \<open>max_retries_per_shard + 1\<close> times. From a created ledger
  under enforcement, whatever the callers do, no shard ever has more reservations than that.
\<close>

theorem retry_allowance_holds:
  assumes "initialize digest now p exists = Inr st" and "config_transport_budget (p_config p) = Some sp"
    and "valid_transport_spec sp = Inr ()" and "list_all (enforcing_op (opened digest sdigest sp p)) ops"
  shows "int (length (filter (\<lambda>x. x_key x = key)
      (transfers (run_ops (transport_step (opened digest sdigest sp p)) st ops)))) \<le> max_retries_per_shard sp + 1"
proof -
  let ?env = "opened digest sdigest sp p"
  have sp: "spec ?env = sp" by (simp add: opened_def)
  have "0 \<le> max_retries_per_shard sp"
    using assms(3) by (auto simp: valid_transport_spec_def split: if_splits)
  moreover have "transfers st = []"
    using assms(1,2) by (auto simp: initialize_def split: if_splits)
  ultimately have "tries_ok ?env st"
    using initialize_enforced [OF assms(1-3)] sp by (simp add: tries_ok_def tries_def prior_def)
  from retries.run_inv [OF this assms(4)] show ?thesis
    unfolding tries_ok_def tries_def prior_def sp by blast
qed

theorem retry_allowance_holds_witness:
  "int (length (filter (\<lambda>x. x_key x = ''web:en/train/a.parquet'')
      (transfers (run_ops (transport_step sample_tenv) sample_tstate sample_tops)))) \<le> 2"
  using retry_allowance_holds [OF sample_initialized sample_spec_declared sample_spec_valid
      sample_tops_sound [unfolded sample_tenv_def], of "''web:en/train/a.parquet''"]
  by (simp add: sample_tenv_def sample_spec_def)

definition spoiled :: "string \<Rightarrow> tstate \<Rightarrow> bool" where
  "spoiled key st \<longleftrightarrow> list_ex (\<lambda>x. x_key x = key \<and> x_status x \<noteq> Started \<and> \<not> retriable False x) (transfers st)"

lemma spoiled_update:
  assumes "spoiled key st" and "x_status (transfers st ! i) = Started" and "i < length (transfers st)"
  shows "list_ex (\<lambda>x. x_key x = key \<and> x_status x \<noteq> Started \<and> \<not> retriable False x) ((transfers st)[i := v])"
proof -
  from assms(1) obtain j where j: "j < length (transfers st)" "x_key (transfers st ! j) = key"
      "x_status (transfers st ! j) \<noteq> Started" "\<not> retriable False (transfers st ! j)"
    by (auto simp: spoiled_def list_ex_length)
  with assms(2) have "i \<noteq> j" by auto
  with j show ?thesis by (auto simp: list_ex_length intro!: exI [of _ j])
qed

lemma spoiled_interrupt:
  "list_ex (\<lambda>x. x_key x = key \<and> x_status x \<noteq> Started \<and> \<not> retriable False x) xs \<Longrightarrow>
   list_ex (\<lambda>x. x_key x = key \<and> x_status x \<noteq> Started \<and> \<not> retriable False x) (interrupt_started P xs)"
  by (induction xs) (auto simp: interrupt_started_def)

lemma spoiled_step:
  assumes "transport_step env op st = Inr st'" and "sound env op" and "spoiled key st"
  shows "spoiled key st'"
proof (cases op)
  case (ReserveTransfer now wall tick source path nbytes allow)
  with assms obtain i where "reserve_transfer env now wall tick source path nbytes allow st = Inr (i, st')"
    by auto
  then show ?thesis
    using assms(3) by (elim reserve_transfer_Inr) (simp add: spoiled_def spoiled_interrupt)
next
  case (ChargeTransfer now wall index amount)
  with assms have "charge_transfer_actual env now wall index amount st = Inr ((), st')" by auto
  then show ?thesis
  proof (cases rule: charge_transfer_actual_Inr)
    case (1 i x')
    with spoiled_update [OF assms(3) 1(4,3), of x'] show ?thesis by (simp add: spoiled_def)
  qed
next
  case (FinishTransfer now wall tick index success interrupted)
  with assms have "finish_transfer env now wall tick index success interrupted st = Inr ((), st')" by auto
  then show ?thesis
  proof (cases rule: finish_transfer_Inr)
    case (1 i x')
    with spoiled_update [OF assms(3) 1(4,3), of x'] show ?thesis by (simp add: spoiled_def)
  qed
next
  case (ReleaseGate now files_ok report_digest report review)
  with assms obtain g where "release_gate env now files_ok report_digest report review st = Inr (g, st')" by auto
  then show ?thesis
    using assms(3) by (elim release_gate_Inr) (simp add: spoiled_def spoiled_interrupt)
next
  case (RecordResources now index r)
  with assms have "record_resources env now index r st = Inr ((), st')" by auto
  then obtain i where i: "i < length (transfers st)"
      "st' = st\<lparr>transfers := (transfers st)[i := (transfers st ! i)\<lparr>x_resources := Some r\<rparr>]\<rparr>"
    by (auto dest!: record_resources_Inr)
  let ?bad = "\<lambda>x. x_key x = key \<and> x_status x \<noteq> Started \<and> \<not> retriable False x"
  have same: "?bad (x\<lparr>x_resources := Some r\<rparr>) = ?bad x" for x by (simp add: retriable_def)
  from assms(3) obtain j where "j < length (transfers st)" "?bad (transfers st ! j)"
    by (auto simp: spoiled_def list_ex_length)
  then have "?bad ((transfers st)[i := (transfers st ! i)\<lparr>x_resources := Some r\<rparr>] ! j)"
    using i(1) same by (cases "i = j") auto
  with i \<open>j < length (transfers st)\<close> show ?thesis
    by (auto simp: spoiled_def list_ex_length)
qed (use assms in \<open>auto dest!: observe_network_Inr observe_storage_Inr observe_time_Inr
    record_failure_Inr charge_metadata_Inr reserve_metadata_Inr simp: spoiled_def\<close>)

interpretation terminal: guarded_machine "transport_step env" "spoiled key" "sound env"
  for env :: transport_env and key :: string
  by unfold_locales (rule spoiled_step)

text \<open>
  A failed or completed shard is terminal. Once a transfer of a shard has ended as failed or
  complete, no sequence of calls, not even switching to network observation or releasing the
  gate, makes an ordinary reservation of that shard succeed again.
\<close>

theorem ended_shard_is_terminal:
  assumes "finish_transfer env now wall tick index success False st = Inr ((), st1)"
    and "py_index (transfers st) index = Some i" and "x_key (transfers st ! i) = transfer_key source path"
    and "list_all (sound env) ops"
  shows "\<exists>e. reserve_transfer env now2 wall2 tick2 source path nbytes False
      (run_ops (transport_step env) st1 ops) = Inl e"
proof -
  have "spoiled (transfer_key source path) st1"
    using assms(1)
  proof (cases rule: finish_transfer_Inr)
    case (1 j x')
    with assms(2,3) have "x_key x' = transfer_key source path" "x_status x' \<noteq> Started" "\<not> retriable False x'"
        "i < length (transfers st)" "j = i"
      by (auto simp: retriable_def)
    with 1 show ?thesis
      by (auto simp: spoiled_def list_ex_length intro!: exI [of _ i])
  qed
  from terminal.run_inv [OF this assms(4)]
  have "\<not> list_all (retriable False) (prior (run_ops (transport_step env) st1 ops) (transfer_key source path))"
    by (auto simp: spoiled_def prior_def list_ex_iff list_all_iff)
  then have "\<nexists>i st2. reserve_transfer env now2 wall2 tick2 source path nbytes False
      (run_ops (transport_step env) st1 ops) = Inr (i, st2)"
    by (auto elim!: reserve_transfer_Inr simp: check_transfer_Inr)
  then show ?thesis
    by (cases "reserve_transfer env now2 wall2 tick2 source path nbytes False
      (run_ops (transport_step env) st1 ops)") auto
qed

definition sample_started :: tstate where
  "sample_started = try_step (transport_step sample_tenv) sample_tstate
     (ReserveTransfer 11 11 11 ''web'' ''en/train/a.parquet'' 100 False)"

definition sample_failed :: tstate where
  "sample_failed = try_step (transport_step sample_tenv) sample_started (FinishTransfer 12 12 12 0 False False)"

theorem ended_shard_is_terminal_witness:
  "\<exists>e. reserve_transfer sample_tenv 20 20 20 ''web'' ''en/train/a.parquet'' 100 False
      (run_ops (transport_step sample_tenv) sample_failed sample_tops) = Inl e"
proof (rule ended_shard_is_terminal)
  show "finish_transfer sample_tenv 12 12 12 0 False False sample_started = Inr ((), sample_failed)"
    by code_simp
  show "py_index (transfers sample_started) 0 = Some 0" by code_simp
  show "x_key (transfers sample_started ! 0) = transfer_key ''web'' ''en/train/a.parquet''" by code_simp
  show "list_all (sound sample_tenv) sample_tops" by (simp add: sample_tops_def)
qed

section \<open>The initial gate\<close>

lemma gate_kept_step:
  "transport_step env op st = Inr st' \<Longrightarrow> sound env op \<Longrightarrow> t_gate st = Some g \<Longrightarrow> t_gate st' = Some g"
  using transport_step_advances by (auto simp: advances_def)

interpretation gate: guarded_machine "transport_step env" "\<lambda>st. t_gate st = Some g" "sound env"
  for env :: transport_env and g :: gate_review
  by unfold_locales (rule gate_kept_step)

text \<open>
  The gate is released once and resets nothing. A release needs charged source bytes and
  stop evidence for exactly the started transfers; it leaves every counter, reservation and the
  deadline as they are, leaves no transfer started, and after it the same review stays recorded
  and every further release is refused.
\<close>

theorem gate_released_once:
  assumes "release_gate env now files_ok rdigest report review st = Inr (g, st1)"
    and "list_all (sound env) ops"
  shows "(source_charged st1, source_actual st1, metadata_charged st1, metadata_actual st1, deadline st1)
       = (source_charged st, source_actual st, metadata_charged st, metadata_actual st, deadline st)
    \<and> key_log st1 = key_log st \<and> list_all (\<lambda>x. x_status x \<noteq> Started) (transfers st1)
    \<and> t_gate (run_ops (transport_step env) st1 ops) = Some g
    \<and> (\<exists>e. release_gate env now2 files_ok2 rdigest2 report2 review2 (run_ops (transport_step env) st1 ops) = Inl e)"
  using assms(1)
proof (cases rule: release_gate_Inr)
  case (1 stopped)
  then have kept: "t_gate (run_ops (transport_step env) st1 ops) = Some g"
    by (intro gate.run_inv [OF _ assms(2)]) simp
  then have "release_gate env now2 files_ok2 rdigest2 report2 review2 (run_ops (transport_step env) st1 ops)
      \<noteq> Inr (g2, st2)" for g2 st2
    by (auto elim: release_gate_Inr)
  then have refused: "\<exists>e. release_gate env now2 files_ok2 rdigest2 report2 review2
      (run_ops (transport_step env) st1 ops) = Inl e"
    by (cases "release_gate env now2 files_ok2 rdigest2 report2 review2 (run_ops (transport_step env) st1 ops)")
       auto
  have "list_all (\<lambda>x. x_status x \<noteq> Started) (transfers st1)"
    using 1(7,11) by (auto simp: list_all_iff interrupt_started_def)
  with 1(11) kept refused show ?thesis
    by (simp add: key_log_def map_interrupt)
qed

definition sample_stopped :: "(string \<times> string) list" where
  "sample_stopped = [(''web:en/train/a.parquet'', ''ticket'')]"

definition sample_released :: "gate_review \<times> tstate" where
  "sample_released = (let g = \<lparr>g_receipt_sha256 = ''r'', g_report_sha256 = ''d'', g_approval_reference = ''ok'',
       g_stopped = Some sample_stopped\<rparr>
     in (g, sample_started\<lparr>t_gate := Some g,
           transfers := interrupt_started (\<lambda>_. True) (transfers sample_started)\<rparr>))"

lemma sample_release: "release_gate sample_tenv 12 True ''d''
    (Some \<lparr>ledger_receipt = sample_started, report_status = Some ''ready''\<rparr>)
    (Some \<lparr>d_decision = ''continue'', d_report_sha256 = ''d'', d_approval_reference = ''ok'',
       d_stopped = Some sample_stopped\<rparr>) sample_started = Inr (fst sample_released, snd sample_released)"
  by code_simp

theorem gate_released_once_witness:
  "\<exists>e. release_gate sample_tenv 20 True ''d'' None None
      (run_ops (transport_step sample_tenv) (snd sample_released) sample_tops) = Inl e"
proof -
  have "list_all (sound sample_tenv) sample_tops" by (simp add: sample_tops_def)
  from gate_released_once [OF sample_release this] show ?thesis by blast
qed

section \<open>Admission of a whole source\<close>

text \<open>What a transfer check reads of the document.\<close>

definition check_view :: "tstate \<Rightarrow> int \<times> int \<times> bool \<times> bool \<times> (string \<times> bool) list" where
  "check_view st = (source_charged st, metadata_charged st, observes_network st, t_gate st = None,
     map (\<lambda>x. (x_key x, retriable False x)) (transfers st))"

lemma prior_view:
  "length (prior st key) = length (filter (\<lambda>(k, ok). k = key) (map (\<lambda>x. (x_key x, retriable False x)) (transfers st)))"
  "list_all (retriable False) (prior st key)
     \<longleftrightarrow> list_all (\<lambda>(k, ok). k = key \<longrightarrow> ok) (map (\<lambda>x. (x_key x, retriable False x)) (transfers st))"
proof -
  have "length (filter (\<lambda>x. x_key x = key) xs)
      = length (filter (\<lambda>(k, ok). k = key) (map (\<lambda>x. (x_key x, retriable False x)) xs))" for xs
    by (induction xs) auto
  then show "length (prior st key)
      = length (filter (\<lambda>(k, ok). k = key) (map (\<lambda>x. (x_key x, retriable False x)) (transfers st)))"
    by (simp add: prior_def)
  show "list_all (retriable False) (prior st key)
     \<longleftrightarrow> list_all (\<lambda>(k, ok). k = key \<longrightarrow> ok) (map (\<lambda>x. (x_key x, retriable False x)) (transfers st))"
    by (auto simp: prior_def list_all_iff)
qed

lemma check_transfer_view:
  assumes "check_view st = check_view st'"
  shows "check_transfer env st key nbytes False = Inr () \<longleftrightarrow> check_transfer env st' key nbytes False = Inr ()"
proof -
  let ?v = "\<lambda>st. map (\<lambda>x. (x_key x, retriable False x)) (transfers st)"
  have v: "?v st = ?v st'" "source_charged st = source_charged st'" "metadata_charged st = metadata_charged st'"
    "observes_network st = observes_network st'" "(t_gate st = None) = (t_gate st' = None)"
    using assms by (simp_all add: check_view_def)
  have len: "length (transfers st) = length (transfers st')"
    using v(1) by (metis length_map)
  show ?thesis
    unfolding check_transfer_Inr check_combined_Inr prior_view v(1-4) len using v(5) by auto
qed

lemma interrupt_view:
  "map (\<lambda>x. (x_key x, retriable False x)) (interrupt_started P xs) = map (\<lambda>x. (x_key x, retriable False x)) xs"
  by (simp add: interrupt_started_def retriable_def)

definition reserve_shard :: "transport_env \<Rightarrow> rat \<Rightarrow> string \<Rightarrow> tstate \<Rightarrow> hf_shard \<Rightarrow> transport_error + tstate" where
  "reserve_shard env now source st shard =
     committed (reserve_transfer env now now now source (hs_path shard) (hs_max_bytes shard) False st)"

lemma reserve_when_checked:
  assumes "good env st" and "created_at st \<le> now"
    and "wall_clock_mode st = ''enforced'' \<longrightarrow> now < deadline st" and "\<not> bounded_storage env"
    and "check_transfer env st (transfer_key source path) nbytes False = Inr ()"
  shows "\<exists>i st'. reserve_transfer env now now now source path nbytes False st = Inr (i, st')"
  using assms by (auto simp: reserve_transfer_def mutate_Inr Let_def)

lemma simulate_shard_Inr: "simulate_shard env source st shard = Inr st' \<longleftrightarrow>
    check_transfer env st (transfer_key source (hs_path shard)) (hs_max_bytes shard) False = Inr ()
    \<and> st' = st\<lparr>source_charged := source_charged st + hs_max_bytes shard,
        transfers := transfers st @ [new_transfer (transfer_key source (hs_path shard)) (hs_max_bytes shard)]\<rparr>"
  by (auto simp: simulate_shard_def Let_def)

lemma simulated_reserve:
  assumes "foldE (simulate_shard env source) sim shards = Inr sim'" and "check_view sim = check_view st"
    and "good env st" and "created_at st \<le> now"
    and "wall_clock_mode st = ''enforced'' \<longrightarrow> now < deadline st" and "\<not> bounded_storage env"
  shows "\<exists>st'. foldE (reserve_shard env now source) st shards = Inr st' \<and> check_view sim' = check_view st'"
  using assms(1-5)
proof (induction shards arbitrary: sim st)
  case Nil
  then show ?case by simp
next
  case (Cons shard shards)
  let ?key = "transfer_key source (hs_path shard)"
  from Cons.prems(1) have check: "check_transfer env sim ?key (hs_max_bytes shard) False = Inr ()"
    and rest: "foldE (simulate_shard env source) (sim\<lparr>source_charged := source_charged sim + hs_max_bytes shard,
        transfers := transfers sim @ [new_transfer ?key (hs_max_bytes shard)]\<rparr>) shards = Inr sim'"
    by (auto simp: simulate_shard_Inr)
  then have "check_transfer env st ?key (hs_max_bytes shard) False = Inr ()"
    using check_transfer_view [OF Cons.prems(2)] by blast
  from reserve_when_checked [OF Cons.prems(3-5) assms(6) this] obtain i st1 where
    r: "reserve_transfer env now now now source (hs_path shard) (hs_max_bytes shard) False st = Inr (i, st1)"
    by blast
  have view: "check_view (sim\<lparr>source_charged := source_charged sim + hs_max_bytes shard,
        transfers := transfers sim @ [new_transfer ?key (hs_max_bytes shard)]\<rparr>) = check_view st1"
    and clock: "created_at st1 \<le> now" "wall_clock_mode st1 = ''enforced'' \<longrightarrow> now < deadline st1"
  proof -
    from r show "check_view (sim\<lparr>source_charged := source_charged sim + hs_max_bytes shard,
        transfers := transfers sim @ [new_transfer ?key (hs_max_bytes shard)]\<rparr>) = check_view st1"
    proof (cases rule: reserve_transfer_Inr)
      case (1 new)
      then have "retriable False new" by (simp add: retriable_def)
      moreover have "retriable False (new_transfer ?key (hs_max_bytes shard))"
        "x_key (new_transfer ?key (hs_max_bytes shard)) = ?key"
        by (simp_all add: retriable_def new_transfer_def)
      ultimately show ?thesis
        using 1 Cons.prems(2) by (simp add: check_view_def interrupt_view)
    qed
    show "created_at st1 \<le> now" "wall_clock_mode st1 = ''enforced'' \<longrightarrow> now < deadline st1"
      using r by (elim reserve_transfer_Inr, simp)+
  qed
  from Cons.IH [OF rest view reserve_transfer_good [OF r] clock] r show ?case
    by (simp add: reserve_shard_def committed_def)
qed

text \<open>
  The read-only admission of a source is sound. When \<open>assert_source_available\<close> accepts a
  source on some document, then reserving all its shards one after the other on that document,
  at any time before the deadline, succeeds: no cap is met halfway.
\<close>

theorem admitted_source_can_be_reserved:
  assumes "assert_source_available env p now1 now2 source st = Inr ()"
    and "find (\<lambda>s. source_id s = source) (p_sources p) = Some s" and "hf_bounded s = Some (a, shards)"
    and "created_at st \<le> now" and "wall_clock_mode st = ''enforced'' \<longrightarrow> now < deadline st"
    and "\<not> bounded_storage env"
  shows "\<exists>st'. foldE (reserve_shard env now source) st shards = Inr st'
    \<and> source_charged st' = source_charged st + (\<Sum>x\<leftarrow>shards. hs_max_bytes x)"
proof -
  from assms(1-3) obtain sim where "good env st" and sim: "foldE (simulate_shard env source) st shards = Inr sim"
    by (auto simp: assert_source_available_def read_state_Inr)
  with simulated_reserve [OF sim refl _ assms(4-6)] obtain st' where
    st': "foldE (reserve_shard env now source) st shards = Inr st'" "check_view sim = check_view st'" by blast
  have "foldE (simulate_shard env source) t xs = Inr t' \<Longrightarrow>
      source_charged t' = source_charged t + (\<Sum>x\<leftarrow>xs. hs_max_bytes x)" for t t' xs
    by (induction xs arbitrary: t) (auto simp: simulate_shard_Inr)
  from this [OF sim] st' show ?thesis by (auto simp: check_view_def)
qed

theorem admitted_source_can_be_reserved_witness:
  "\<exists>st'. foldE (reserve_shard sample_tenv 12 ''web'') sample_tstate
      [sample_shard ''en/train/a.parquet'', sample_shard ''en/train/b.parquet''] = Inr st'
    \<and> source_charged st' = source_charged sample_tstate + 200"
proof -
  have "assert_source_available sample_tenv sample_project 11 11 ''web'' sample_tstate = Inr ()" by code_simp
  moreover have "find (\<lambda>s. source_id s = ''web'') (p_sources sample_project) = Some sample_source"
    by (simp add: sample_project_def sample_source_def)
  moreover have "\<exists>a. hf_bounded sample_source
      = Some (a, [sample_shard ''en/train/a.parquet'', sample_shard ''en/train/b.parquet''])"
    by (simp add: hf_bounded_def sample_source_def)
  moreover have "created_at sample_tstate \<le> 12 \<and> 12 < deadline sample_tstate"
    by code_simp
  moreover have "\<not> bounded_storage sample_tenv" by (simp add: sample_tenv_def opened_def)
  ultimately show ?thesis
    using admitted_source_can_be_reserved [of sample_tenv sample_project 11 11 "''web''" sample_tstate _ _
        "[sample_shard ''en/train/a.parquet'', sample_shard ''en/train/b.parquet'']" 12]
    by (fastforce simp: sample_shard_def)
qed

section \<open>The binding\<close>

lemma optional_key_inj:
  "optional_key k a @ optional_key k' b = optional_key k a' @ optional_key k' b' \<Longrightarrow> k \<noteq> k' \<Longrightarrow> a = a' \<and> b = b'"
  by (cases a; cases b; cases a'; cases b') auto

lemma dump_spec_inj:
  assumes "dump_spec s = dump_spec s'"
  shows "s = s'"
proof -
  have "optional_key ''max_total_body_bytes'' (max_total_body_bytes s)
        @ optional_key ''initial_body_bytes'' (initial_body_bytes s)
      = optional_key ''max_total_body_bytes'' (max_total_body_bytes s')
        @ optional_key ''initial_body_bytes'' (initial_body_bytes s')"
    using assms by (simp add: dump_spec_def)
  from optional_key_inj [OF this] assms show ?thesis
    by (simp add: dump_spec_def transport_spec.equality)
qed

lemma json_opt_JStr: "json_opt JStr a = json_opt JStr b \<Longrightarrow> a = b"
  by (cases a; cases b) auto

lemma effect_name_inj: "effect_name a = effect_name b \<Longrightarrow> a = b"
  by (cases a; cases b) auto

lemma dump_effect_inj: "dump_effect e = dump_effect e' \<Longrightarrow> e = e'"
  by (auto simp: dump_effect_def intro!: source_effect.equality dest: json_opt_JStr effect_name_inj)

lemma binding_value_inj:
  assumes "binding_value sp p = binding_value sp' p'"
  shows "sp = sp' \<and> config_project_id (p_config p) = config_project_id (p_config p')
    \<and> config_source_effects (p_config p) = config_source_effects (p_config p')
    \<and> List.map_filter hf_value (p_sources p) @ List.map_filter git_value (p_sources p)
      = List.map_filter hf_value (p_sources p') @ List.map_filter git_value (p_sources p')"
proof -
  have "inj dump_effect" by (auto simp: inj_on_def dest: dump_effect_inj)
  then have "config_source_effects (p_config p) = config_source_effects (p_config p')"
    using assms by (auto simp: binding_value_def inj_map_eq_map split: option.splits)
  with assms dump_spec_inj show ?thesis
    by (simp add: binding_value_def)
qed

text \<open>
  A ledger cannot be continued under another budget. When a document created for one
  project and budget validates for another, and the digests of the two declarations do not
  collide, then every number of the budget, the project id, the declared source effects and
  the bounded shards and blobs (paths, checksums up to case, maximum bytes) are the same.
\<close>

theorem binding_pins_the_budget:
  assumes "initialize digest now p exists = Inr st" and "config_transport_budget (p_config p) = Some sp"
    and "validate_state (opened digest sdigest sp' p') st = Inr ()"
    and "digest (binding_value sp p) = digest (binding_value sp' p') \<Longrightarrow>
         binding_value sp p = binding_value sp' p'"
  shows "sp' = sp \<and> config_project_id (p_config p') = config_project_id (p_config p)
    \<and> config_source_effects (p_config p') = config_source_effects (p_config p)
    \<and> List.map_filter hf_value (p_sources p') @ List.map_filter git_value (p_sources p')
      = List.map_filter hf_value (p_sources p) @ List.map_filter git_value (p_sources p)"
proof -
  have "t_binding st = digest (binding_value sp p)"
    using assms(1,2) by (auto simp: initialize_def split: if_splits)
  moreover have "t_binding st = digest (binding_value sp' p')"
    using assms(3) good_iff [of "opened digest sdigest sp' p'" st] by (simp add: good_def opened_def)
  ultimately show ?thesis
    using binding_value_inj [OF assms(4)] by simp
qed

definition upper_shard :: "string \<Rightarrow> hf_shard" where
  "upper_shard path = (sample_shard path)\<lparr>hs_sha256 := replicate 64 CHR ''A''\<rparr>"

definition upper_project :: project where
  "upper_project = sample_project\<lparr>p_sources := [sample_source\<lparr>acquisition_spec := HuggingFaceAcquisition
     \<lparr>hf_retained = None, hf_qualified = False, hf_config = ''en'', hf_split = ''train'', hf_include = [],
       hf_shards = Some [upper_shard ''en/train/a.parquet'', upper_shard ''en/train/b.parquet''],
       hf_text_field = ''text'', hf_max_rows = 20, hf_max_bytes = 200, hf_max_decompressed_bytes = None\<rparr>\<rparr>]\<rparr>"

theorem binding_pins_the_budget_witness:
  "List.map_filter hf_value (p_sources upper_project) @ List.map_filter git_value (p_sources upper_project)
    = List.map_filter hf_value (p_sources sample_project) @ List.map_filter git_value (p_sources sample_project)"
proof -
  have "validate_state (opened (\<lambda>_. ''b'') (\<lambda>_. ''r'') sample_spec upper_project) sample_tstate = Inr ()"
    by code_simp
  moreover have "binding_value sample_spec sample_project = binding_value sample_spec upper_project"
    by code_simp
  ultimately show ?thesis
    using binding_pins_the_budget [OF sample_initialized sample_spec_declared] by blast
qed

end
