(* ===== verification/Campaign_Policy.thy ===== *)
theory Campaign_Policy
  imports Lab_Prelude Complex_Main "HOL-Library.Char_ord" "HOL-Library.List_Lexorder"
    "HOL-Library.Product_Lexorder"
begin

text \<open>
  \<open>src/sparselab/campaign/policy.py\<close>: the declared thresholds of corpus readiness, and the
  decision that compares them with measured amounts.

  Dicts are association lists in insertion order with distinct keys. Mixture weights are finite
  decimals, here rationals. What the verified release and the measurement modules deliver (the
  counts per domain, the rows of the release's ledgers) is an argument.
\<close>

datatype policy_error =
    PolicyField | NoMixtureDomains | WeightsNotOne | NoRequirement | BlankLabel
  | DuplicateLanguage | DuplicateShape | ReceiptNotPaired | ReceiptNeedsTokenPolicy
  | AncillaryMissing | SelectedMissing

section \<open>The policy\<close>

datatype pass_basis = Bytes | Tokens

record source_pass =
  basis :: pass_basis
  requested_total :: int
  mixture :: "(string \<times> rat) list"
  max_required :: int

definition valid_source_pass :: "source_pass \<Rightarrow> policy_error + unit" where
  "valid_source_pass s =
     (if \<not> (0 < requested_total s \<and> 0 < max_required s \<and> list_all (\<lambda>(_, w). 0 < w) (mixture s))
      then Inl PolicyField
      else if mixture s = [] \<or> list_ex (\<lambda>(domain, _). blank domain) (mixture s) then Inl NoMixtureDomains
      else if (\<Sum>(_, w)\<leftarrow>mixture s. w) \<noteq> 1 then Inl WeightsNotOne
      else Inr ())"

record readiness_policy =
  min_bytes_by_domain :: "(string \<times> int) list"
  min_tokens_by_domain :: "(string \<times> int) list"
  required_languages :: "string list"
  required_shapes :: "string list"
  min_heldout_families :: int
  passes :: "source_pass option"

definition valid_readiness_policy :: "readiness_policy \<Rightarrow> policy_error + unit" where
  "valid_readiness_policy p =
     bindE (case passes p of None \<Rightarrow> Inr () | Some s \<Rightarrow> valid_source_pass s) (\<lambda>_.
     if \<not> (list_all (\<lambda>(_, n). 0 \<le> n) (min_bytes_by_domain p) \<and> list_all (\<lambda>(_, n). 0 \<le> n) (min_tokens_by_domain p)
          \<and> 0 \<le> min_heldout_families p) then Inl PolicyField
     else if min_bytes_by_domain p = [] \<and> min_tokens_by_domain p = [] \<and> required_languages p = []
          \<and> required_shapes p = [] \<and> min_heldout_families p = 0 \<and> passes p = None then Inl NoRequirement
     else if list_ex blank (map fst (min_bytes_by_domain p) @ map fst (min_tokens_by_domain p)
          @ required_languages p @ required_shapes p) then Inl BlankLabel
     else if \<not> distinct (required_languages p) then Inl DuplicateLanguage
     else if \<not> distinct (required_shapes p) then Inl DuplicateShape
     else Inr ())"

definition passes_on :: "pass_basis \<Rightarrow> readiness_policy \<Rightarrow> bool" where
  "passes_on b p \<longleftrightarrow> (case passes p of None \<Rightarrow> False | Some s \<Rightarrow> basis s = b)"

definition need_tokens :: "readiness_policy \<Rightarrow> bool" where
  "need_tokens p \<longleftrightarrow> min_tokens_by_domain p \<noteq> [] \<or> passes_on Tokens p"

definition token_only :: "readiness_policy \<Rightarrow> bool" where
  "token_only p \<longleftrightarrow> need_tokens p \<and> \<not> (min_bytes_by_domain p \<noteq> [] \<or> required_languages p \<noteq> []
     \<or> required_shapes p \<noteq> [] \<or> min_heldout_families p \<noteq> 0 \<or> passes_on Bytes p)"

section \<open>Ancillary facts of a release\<close>

record document_row =
  doc_split :: string
  doc_dropped :: bool
  doc_domains :: "string list"
  doc_content_sha256 :: string
  doc_language :: string

record lineage_row =
  lin_record_id :: string
  lin_split :: string
  lin_dropped :: bool
  lin_shape :: string
  lin_families :: "string list"

text \<open>\<open>counts[key] += 1\<close> on a \<open>defaultdict(int)\<close>\<close>

fun bump :: "string \<Rightarrow> (string \<times> int) list \<Rightarrow> (string \<times> int) list" where
  "bump k [] = [(k, 1)]"
| "bump k ((k', n) # rest) = (if k' = k then (k', n + 1) # rest else (k', n) # bump k rest)"

text \<open>The three tables of the scratch database: digests seen, selected records, heldout families.\<close>

definition count_languages :: "document_row list \<Rightarrow> string list \<times> (string \<times> int) list" where
  "count_languages rows = foldl (\<lambda>(seen, counts) row.
     if doc_split row \<noteq> ''train'' \<or> doc_dropped row \<or> doc_domains row = [] then (seen, counts)
     else if doc_content_sha256 row \<in> set seen then (seen, counts)
     else (seen @ [doc_content_sha256 row], bump (doc_language row) counts)) ([], []) rows"

definition insert_or_ignore :: "'a list \<Rightarrow> 'a \<Rightarrow> 'a list" where
  "insert_or_ignore xs x = (if x \<in> set xs then xs else xs @ [x])"

definition selected_records :: "string list list \<Rightarrow> string list" where
  "selected_records views = foldl insert_or_ignore [] (concat views)"

fun join_lineage :: "string list \<Rightarrow> string list \<times> (string \<times> int) list \<times> string list \<Rightarrow> lineage_row
    \<Rightarrow> string list \<times> (string \<times> int) list \<times> string list" where
  "join_lineage selected (matched, shapes, heldout) row =
     (let hit = lin_record_id row \<in> set selected \<and> lin_record_id row \<notin> set matched
      in (if hit then matched @ [lin_record_id row] else matched,
          if hit then bump (lin_shape row) shapes else shapes,
          if lin_split row = ''test'' \<and> \<not> lin_dropped row
          then foldl insert_or_ignore heldout (filter (\<lambda>f. f \<noteq> []) (lin_families row))
          else heldout))"

definition ancillary_facts :: "document_row list \<Rightarrow> string list list \<Rightarrow> lineage_row list
    \<Rightarrow> policy_error + (string \<times> int) list \<times> (string \<times> int) list \<times> int" where
  "ancillary_facts documents views lineage =
     (let languages = snd (count_languages documents);
          selected = selected_records views;
          (matched, shapes, heldout) = foldl (join_lineage selected) ([], [], []) lineage
      in if \<exists>r \<in> set selected. r \<notin> set matched then Inl SelectedMissing
         else Inr (languages, shapes, int (length heldout)))"

section \<open>The decision\<close>

record domain_counts =
  eligible_documents :: int
  source_bytes :: int
  source_tokens :: int

record deficit =
  dimension :: string
  observed :: "int option"
  required :: int
  deficit_domain :: "string option"

definition deficient :: "string \<Rightarrow> int option \<Rightarrow> int \<Rightarrow> string option \<Rightarrow> deficit list" where
  "deficient what have_n need_n domain =
     (if (case have_n of None \<Rightarrow> True | Some n \<Rightarrow> n < need_n)
      then [\<lparr>dimension = what, observed = have_n, required = need_n, deficit_domain = domain\<rparr>]
      else [])"

fun get_or_zero :: "(string \<times> int) list \<Rightarrow> string \<Rightarrow> int" where
  "get_or_zero m k = (case map_of m k of None \<Rightarrow> 0 | Some n \<Rightarrow> n)"

text \<open>\<open>(target + available - 1) // available\<close> with the weight as an integer ratio\<close>

definition required_passes :: "int \<Rightarrow> rat \<Rightarrow> int \<Rightarrow> int" where
  "required_passes requested weight amount =
     (let (numerator, denominator) = quotient_of weight;
          target = requested * numerator;
          available = amount * denominator
      in (target + available - 1) div available)"

definition pass_entry :: "source_pass \<Rightarrow> (string \<times> int) list \<Rightarrow> bool \<Rightarrow> string \<times> rat
    \<Rightarrow> (string \<times> int option) \<times> deficit list" where
  "pass_entry s amounts measurable = (\<lambda>(domain, weight).
     let amount = (if measurable then Some (get_or_zero amounts domain) else None)
     in if amount = None \<or> amount = Some 0
        then ((domain, None), deficient ''passes'' None (max_required s) (Some domain))
        else
          let n = required_passes (requested_total s) weight (the amount)
          in ((domain, Some n),
              if n > max_required s
              then [\<lparr>dimension = ''passes'', observed = Some n, required = max_required s,
                     deficit_domain = Some domain\<rparr>]
              else []))"

record readiness =
  r_complete :: bool \<comment> \<open>COMPLETE / READY_FOR_TOKENIZER, or BLOCKED / EXPAND_MORE\<close>
  r_deficits :: "deficit list"
  r_unique_bytes :: "(string \<times> int) list"
  r_unique_tokens :: "(string \<times> int) list option"
  r_languages :: "(string \<times> int) list option"
  r_shapes :: "(string \<times> int) list option"
  r_heldout :: "int option"
  r_passes :: "(string \<times> int option) list"

definition deficit_key :: "deficit \<Rightarrow> string \<times> string" where
  "deficit_key d = (dimension d, case deficit_domain d of None \<Rightarrow> [] | Some s \<Rightarrow> s)"

definition readiness_guard :: "readiness_policy \<Rightarrow> bool \<Rightarrow> bool \<Rightarrow> bool \<Rightarrow> policy_error + unit" where
  "readiness_guard p has_receipt has_receipt_sha has_tokenizer =
     (if has_receipt \<noteq> has_receipt_sha then Inl ReceiptNotPaired
      else if has_receipt \<and> (\<not> token_only p \<or> \<not> has_tokenizer) then Inl ReceiptNeedsTokenPolicy
      else Inr ())"

definition all_deficits :: "readiness_policy \<Rightarrow> bool \<Rightarrow> (string \<times> int) list \<Rightarrow> (string \<times> int) list
    \<Rightarrow> (string \<times> int) list option \<Rightarrow> (string \<times> int) list option \<Rightarrow> int option \<Rightarrow> deficit list" where
  "all_deficits p tok ubytes utokens languages shapes heldout =
     concat (map (\<lambda>(d, n). deficient ''unique_train_bytes'' (map_of ubytes d) n (Some d)) (min_bytes_by_domain p))
     @ concat (map (\<lambda>(d, n). deficient ''unique_train_tokens'' (if tok then map_of utokens d else None) n (Some d))
         (min_tokens_by_domain p))
     @ concat (map (\<lambda>l. deficient ''train_language'' (Some (get_or_zero (the languages) l)) 1 (Some l))
         (required_languages p))
     @ concat (map (\<lambda>s. deficient ''train_shape'' (Some (get_or_zero (the shapes) s)) 1 (Some s))
         (required_shapes p))
     @ (case heldout of None \<Rightarrow> [] | Some n \<Rightarrow> deficient ''heldout_families'' (Some n) (min_heldout_families p) None)
     @ (case passes p of None \<Rightarrow> []
        | Some s \<Rightarrow> concat (map (snd \<circ> pass_entry s (if basis s = Bytes then ubytes else utokens)
              (basis s = Bytes \<or> tok)) (mixture s)))"

text \<open>
  \<open>measure_readiness\<close> after the measurement: \<open>tok\<close> says whether a tokenizer was given, \<open>measured\<close>
  are the counts per domain, \<open>facts\<close> the ancillary facts, absent for a token-only policy.
\<close>

definition measure_readiness :: "readiness_policy \<Rightarrow> bool \<Rightarrow> (string \<times> domain_counts) list
    \<Rightarrow> ((string \<times> int) list \<times> (string \<times> int) list \<times> int) option \<Rightarrow> policy_error + readiness" where
  "measure_readiness p tok measured facts =
     (let included = filter (\<lambda>(_, c). token_only p \<or> 0 < eligible_documents c) measured;
          ubytes = map (\<lambda>(d, c). (d, source_bytes c)) included;
          utokens = (if need_tokens p \<and> tok then map (\<lambda>(d, c). (d, source_tokens c)) included else []);
          used_facts = (if token_only p then None else facts);
          languages = map_option fst used_facts;
          shapes = map_option (fst \<circ> snd) used_facts;
          heldout = map_option (snd \<circ> snd) used_facts
      in if (required_languages p \<noteq> [] \<and> languages = None) \<or> (required_shapes p \<noteq> [] \<and> shapes = None)
         then Inl AncillaryMissing
         else
           let deficits = sort_key deficit_key (all_deficits p tok ubytes utokens languages shapes heldout);
               projected = (case passes p of None \<Rightarrow> []
                 | Some s \<Rightarrow> map (fst \<circ> pass_entry s (if basis s = Bytes then ubytes else utokens)
                     (basis s = Bytes \<or> tok)) (mixture s))
           in Inr \<lparr>r_complete = (deficits = []), r_deficits = deficits,
                r_unique_bytes = sort_key fst ubytes,
                r_unique_tokens = (if need_tokens p \<and> tok then Some (sort_key fst utokens) else None),
                r_languages = map_option (sort_key fst) languages,
                r_shapes = map_option (sort_key fst) shapes, r_heldout = heldout,
                r_passes = sort_key fst projected\<rparr>)"

section \<open>What the decision means\<close>

lemma deficient_Nil [simp]: "deficient what have_n need_n domain = [] \<longleftrightarrow> (\<exists>n. have_n = Some n \<and> need_n \<le> n)"
  by (cases have_n) (auto simp: deficient_def)

lemma ceiling_div_le:
  fixes t a m :: int
  assumes "0 < a"
  shows "(t + a - 1) div a \<le> m \<longleftrightarrow> t \<le> m * a"
proof
  assume "(t + a - 1) div a \<le> m"
  then have "((t + a - 1) div a) * a \<le> m * a" using assms by (simp add: mult_right_mono)
  moreover have "((t + a - 1) div a) * a = t + a - 1 - (t + a - 1) mod a"
    by (simp add: minus_mod_eq_div_mult)
  moreover have "(t + a - 1) mod a < a" using assms by simp
  ultimately show "t \<le> m * a" by linarith
next
  assume "t \<le> m * a"
  then have "(t + a - 1) div a \<le> (m * a + (a - 1)) div a" using assms by (intro zdiv_mono1) auto
  also have "\<dots> = m" using assms by simp
  finally show "(t + a - 1) div a \<le> m" .
qed

lemma required_passes_le:
  assumes "0 < amount"
  shows "required_passes requested weight amount \<le> m
    \<longleftrightarrow> of_int requested * weight \<le> of_int m * of_int amount"
proof -
  obtain n d where q: "quotient_of weight = (n, d)" by (cases "quotient_of weight")
  then have d: "0 < d" and w: "weight = of_int n / of_int d"
    by (auto dest: quotient_of_denom_pos quotient_of_div)
  have "required_passes requested weight amount \<le> m \<longleftrightarrow> requested * n \<le> m * (amount * d)"
    using q d assms by (simp add: required_passes_def Let_def ceiling_div_le)
  also have "\<dots> \<longleftrightarrow> (of_int (requested * n) :: rat) \<le> of_int (m * (amount * d))"
    by (simp only: of_int_le_iff)
  also have "\<dots> \<longleftrightarrow> of_int requested * weight \<le> of_int m * of_int amount"
    using d by (simp add: w field_simps)
  finally show ?thesis .
qed

definition pass_met :: "source_pass \<Rightarrow> (string \<times> int) list \<Rightarrow> string \<times> rat \<Rightarrow> bool" where
  "pass_met s amounts = (\<lambda>(domain, weight). 0 < get_or_zero amounts domain
     \<and> of_int (requested_total s) * weight \<le> of_int (max_required s) * of_int (get_or_zero amounts domain))"

lemma pass_entry_ok:
  assumes "\<forall>(d, n) \<in> set amounts. 0 \<le> n"
  shows "snd (pass_entry s amounts True (domain, weight)) = [] \<longleftrightarrow> pass_met s amounts (domain, weight)"
proof -
  have "0 \<le> get_or_zero amounts domain"
    using assms by (auto split: option.splits dest: map_of_SomeD)
  then consider "get_or_zero amounts domain = 0" | "0 < get_or_zero amounts domain" by linarith
  then show ?thesis
    by cases (simp_all add: pass_entry_def pass_met_def Let_def not_less del: get_or_zero.simps flip: required_passes_le)
qed

lemma sort_key_Nil [simp]: "sort_key f xs = [] \<longleftrightarrow> xs = []"
  by (metis length_0_conv length_sort)

definition thresholds_met :: "readiness_policy \<Rightarrow> bool \<Rightarrow> (string \<times> int) list \<Rightarrow> (string \<times> int) list
    \<Rightarrow> (string \<times> int) list \<Rightarrow> (string \<times> int) list \<Rightarrow> int option \<Rightarrow> bool" where
  "thresholds_met p tok ubytes utokens languages shapes heldout \<longleftrightarrow>
     (\<forall>(d, n) \<in> set (min_bytes_by_domain p). \<exists>k. map_of ubytes d = Some k \<and> n \<le> k)
     \<and> (\<forall>(d, n) \<in> set (min_tokens_by_domain p). tok \<and> (\<exists>k. map_of utokens d = Some k \<and> n \<le> k))
     \<and> (\<forall>l \<in> set (required_languages p). 1 \<le> get_or_zero languages l)
     \<and> (\<forall>x \<in> set (required_shapes p). 1 \<le> get_or_zero shapes x)
     \<and> (\<forall>n. heldout = Some n \<longrightarrow> min_heldout_families p \<le> n)
     \<and> (\<forall>s. passes p = Some s \<longrightarrow> (basis s = Bytes \<or> tok)
         \<and> (\<forall>e \<in> set (mixture s). pass_met s (if basis s = Bytes then ubytes else utokens) e))"

definition included_counts :: "readiness_policy \<Rightarrow> (string \<times> domain_counts) list \<Rightarrow> (string \<times> domain_counts) list" where
  "included_counts p measured = filter (\<lambda>(_, c). token_only p \<or> 0 < eligible_documents c) measured"

lemma pass_entry_unmeasured: "snd (pass_entry s amounts False e) \<noteq> []"
  by (cases e) (simp add: pass_entry_def Let_def)

lemma all_deficits_Nil:
  assumes "\<forall>(d, n) \<in> set ubytes. 0 \<le> n" and "\<forall>(d, n) \<in> set utokens. 0 \<le> n"
    and "\<And>s. passes p = Some s \<Longrightarrow> mixture s \<noteq> []"
  shows "all_deficits p tok ubytes utokens languages shapes heldout = []
    \<longleftrightarrow> thresholds_met p tok ubytes utokens (the languages) (the shapes) heldout"
proof -
  have passes_part: "(case passes p of None \<Rightarrow> []
      | Some s \<Rightarrow> concat (map (snd \<circ> pass_entry s (if basis s = Bytes then ubytes else utokens)
            (basis s = Bytes \<or> tok)) (mixture s))) = []
    \<longleftrightarrow> (\<forall>s. passes p = Some s \<longrightarrow> (basis s = Bytes \<or> tok)
         \<and> (\<forall>e \<in> set (mixture s). pass_met s (if basis s = Bytes then ubytes else utokens) e))"
  proof (cases "passes p")
    case None
    then show ?thesis by simp
  next
    case (Some s)
    let ?am = "if basis s = Bytes then ubytes else utokens"
    have nonneg: "\<forall>(d, n) \<in> set ?am. 0 \<le> n" using assms(1,2) by simp
    show ?thesis
    proof (cases "basis s = Bytes \<or> tok")
      case True
      have "snd (pass_entry s ?am True e) = [] \<longleftrightarrow> pass_met s ?am e" for e
        using pass_entry_ok [OF nonneg] by (cases e) blast
      with True Some show ?thesis by (simp add: comp_def)
    next
      case False
      obtain e es where "mixture s = e # es" using assms(3) [OF Some] by (cases "mixture s") auto
      with False Some pass_entry_unmeasured [of s ?am e] show ?thesis by (simp add: comp_def)
    qed
  qed
  show ?thesis
    unfolding all_deficits_def thresholds_met_def append_is_Nil_conv passes_part
    by (auto split: option.splits if_splits)
qed

text \<open>
  A corpus is declared ready exactly when every declared requirement is met by the measured
  amounts: each minimum of unique bytes and of unique tokens by a domain that occurs, each
  required language and shape by at least one, the heldout families, and for each mixture
  domain a positive amount with requested total times weight at most the allowed number of
  passes over it. Otherwise the result is blocked and lists the deficits.
\<close>

theorem readiness_complete_iff_thresholds:
  assumes "valid_readiness_policy p = Inr ()"
    and "\<forall>(d, c) \<in> set measured. 0 \<le> source_bytes c \<and> 0 \<le> source_tokens c"
    and "measure_readiness p tok measured (Some (languages, shapes, heldout)) = Inr r"
  shows "(r_complete r \<longleftrightarrow> thresholds_met p tok
       (map (\<lambda>(d, c). (d, source_bytes c)) (included_counts p measured))
       (if need_tokens p \<and> tok then map (\<lambda>(d, c). (d, source_tokens c)) (included_counts p measured) else [])
       languages shapes (if token_only p then None else Some heldout))
    \<and> (r_complete r \<longleftrightarrow> r_deficits r = [])"
proof -
  let ?ub = "map (\<lambda>(d, c). (d, source_bytes c)) (included_counts p measured)"
  let ?ut = "if need_tokens p \<and> tok then map (\<lambda>(d, c). (d, source_tokens c)) (included_counts p measured) else []"
  let ?f = "if token_only p then None else Some (languages, shapes, heldout)"
  have nonneg: "\<forall>(d, n) \<in> set ?ub. 0 \<le> n" "\<forall>(d, n) \<in> set ?ut. 0 \<le> n"
    using assms(2) by (auto simp: included_counts_def)
  have mix: "mixture s \<noteq> []" if "passes p = Some s" for s
    using assms(1) that by (auto simp: valid_readiness_policy_def valid_source_pass_def split: if_splits)
  have r: "r_complete r = (r_deficits r = [])"
      "r_deficits r = sort_key deficit_key (all_deficits p tok ?ub ?ut (map_option fst ?f)
         (map_option (fst \<circ> snd) ?f) (map_option (snd \<circ> snd) ?f))"
    using assms(3) by (auto simp: measure_readiness_def included_counts_def Let_def split: if_splits)
  have ancillary: "required_languages p = [] \<and> required_shapes p = []" if "token_only p"
    using that by (simp add: token_only_def)
  show ?thesis
    using r all_deficits_Nil [OF nonneg mix, where tok = tok and p = p and languages = "map_option fst ?f"
        and shapes = "map_option (fst \<circ> snd) ?f" and heldout = "map_option (snd \<circ> snd) ?f"] ancillary
    by (cases "token_only p") (simp_all add: thresholds_met_def)
qed

definition sample_pass :: source_pass where
  "sample_pass = \<lparr>basis = Bytes, requested_total = 1000, mixture = [(''code'', 1 / 4), (''text'', 3 / 4)],
     max_required = 3\<rparr>"

definition sample_policy :: readiness_policy where
  "sample_policy = \<lparr>min_bytes_by_domain = [(''code'', 100)], min_tokens_by_domain = [],
     required_languages = [''en''], required_shapes = [], min_heldout_families = 1,
     passes = Some sample_pass\<rparr>"

definition sample_measured :: "(string \<times> domain_counts) list" where
  "sample_measured = [(''text'', \<lparr>eligible_documents = 5, source_bytes = 250, source_tokens = 60\<rparr>),
     (''code'', \<lparr>eligible_documents = 2, source_bytes = 120, source_tokens = 30\<rparr>)]"

theorem readiness_complete_iff_thresholds_witness:
  "thresholds_met sample_policy False
     (map (\<lambda>(d, c). (d, source_bytes c)) (included_counts sample_policy sample_measured))
     (if need_tokens sample_policy \<and> False then map (\<lambda>(d, c). (d, source_tokens c))
        (included_counts sample_policy sample_measured) else [])
     [(''en'', 7)] [] (if token_only sample_policy then None else Some 2)"
proof -
  have "valid_readiness_policy sample_policy = Inr ()" by code_simp
  moreover have "\<forall>(d, c) \<in> set sample_measured. 0 \<le> source_bytes c \<and> 0 \<le> source_tokens c"
    by (simp add: sample_measured_def)
  moreover have "\<exists>r. measure_readiness sample_policy False sample_measured (Some ([(''en'', 7)], [], 2)) = Inr r
      \<and> r_deficits r = []"
    by (rule exI [of _ "projr (measure_readiness sample_policy False sample_measured (Some ([(''en'', 7)], [], 2)))"])
       code_simp
  ultimately show ?thesis
    using readiness_complete_iff_thresholds by blast
qed

section \<open>What the ancillary counts are\<close>

definition total_count :: "(string \<times> int) list \<Rightarrow> int" where
  "total_count counts = (\<Sum>(k, n)\<leftarrow>counts. n)"

lemma total_count_bump [simp]: "total_count (bump k counts) = total_count counts + 1"
  by (induction k counts rule: bump.induct) (auto simp: total_count_def)

lemma insert_or_ignore_distinct [simp]: "distinct xs \<Longrightarrow> distinct (insert_or_ignore xs x)"
  by (simp add: insert_or_ignore_def)

lemma insert_or_ignore_set [simp]: "set (insert_or_ignore xs x) = insert x (set xs)"
  by (auto simp: insert_or_ignore_def)

lemma foldl_insert_or_ignore:
  "distinct xs \<Longrightarrow> distinct (foldl insert_or_ignore xs ys) \<and> set (foldl insert_or_ignore xs ys) = set xs \<union> set ys"
  by (induction ys arbitrary: xs) auto

definition trainable :: "document_row \<Rightarrow> bool" where
  "trainable row \<longleftrightarrow> doc_split row = ''train'' \<and> \<not> doc_dropped row \<and> doc_domains row \<noteq> []"

definition language_step :: "string list \<times> (string \<times> int) list \<Rightarrow> document_row \<Rightarrow> string list \<times> (string \<times> int) list" where
  "language_step = (\<lambda>(seen, counts) row.
     if doc_split row \<noteq> ''train'' \<or> doc_dropped row \<or> doc_domains row = [] then (seen, counts)
     else if doc_content_sha256 row \<in> set seen then (seen, counts)
     else (seen @ [doc_content_sha256 row], bump (doc_language row) counts))"

lemma language_fold:
  assumes "foldl language_step (seen, counts) rows = (seen', counts')" and "distinct seen"
    and "total_count counts = int (length seen)"
  shows "distinct seen' \<and> total_count counts' = int (length seen')
    \<and> set seen' = set seen \<union> doc_content_sha256 ` set (filter trainable rows)"
  using assms
proof (induction rows arbitrary: seen counts)
  case Nil
  then show ?case by simp
next
  case (Cons row rows)
  obtain seen1 counts1 where step: "language_step (seen, counts) row = (seen1, counts1)"
    by (cases "language_step (seen, counts) row")
  then have "distinct seen1" "total_count counts1 = int (length seen1)"
      "set seen1 = set seen \<union> (if trainable row then {doc_content_sha256 row} else {})"
    using Cons.prems(2,3) by (auto simp: language_step_def trainable_def split: if_splits)
  with Cons.IH [of seen1 counts1] Cons.prems(1) step show ?case
    by (auto split: if_splits)
qed

lemma join_lineage_fold:
  assumes "foldl (join_lineage selected) (matched, shapes, heldout) rows = (matched', shapes', heldout')"
    and "distinct matched" and "distinct heldout" and "total_count shapes = int (length matched)"
  shows "distinct matched' \<and> distinct heldout' \<and> total_count shapes' = int (length matched')
    \<and> set matched' = set matched \<union> (lin_record_id ` set rows \<inter> set selected)
    \<and> set heldout' = set heldout \<union> {f. f \<noteq> [] \<and> (\<exists>row \<in> set rows. lin_split row = ''test''
         \<and> \<not> lin_dropped row \<and> f \<in> set (lin_families row))}"
  using assms
proof (induction rows arbitrary: matched shapes heldout)
  case Nil
  then show ?case by simp
next
  case (Cons row rows)
  obtain m1 s1 h1 where step: "join_lineage selected (matched, shapes, heldout) row = (m1, s1, h1)"
    by (cases "join_lineage selected (matched, shapes, heldout) row")
  then have "distinct m1" "total_count s1 = int (length m1)"
      "set m1 = set matched \<union> ({lin_record_id row} \<inter> set selected)"
    using Cons.prems(2,4) by (auto simp: Let_def split: if_splits)
  moreover have "h1 = (if lin_split row = ''test'' \<and> \<not> lin_dropped row
      then foldl insert_or_ignore heldout (filter (\<lambda>f. f \<noteq> []) (lin_families row)) else heldout)"
    using step by (auto simp: Let_def)
  then have "distinct h1 \<and> set h1 = set heldout \<union> {f. f \<noteq> [] \<and> lin_split row = ''test''
      \<and> \<not> lin_dropped row \<and> f \<in> set (lin_families row)}"
    using foldl_insert_or_ignore [OF Cons.prems(3)] Cons.prems(3) by auto
  ultimately show ?case
    using Cons.IH [of m1 s1 h1] Cons.prems(1) step by auto
qed

text \<open>
  The ancillary facts count what they should. The join succeeds exactly when every selected
  record occurs in the release's ledger; then the language counts add up to the number of
  distinct contents of trainable documents, the shape counts to the number of distinct selected
  records, and the heldout count is the number of distinct nonempty families of kept test rows.
\<close>

theorem ancillary_facts_counts:
  "(case ancillary_facts documents views lineage of
      Inl e \<Rightarrow> \<not> set (concat views) \<subseteq> lin_record_id ` set lineage
    | Inr (languages, shapes, heldout) \<Rightarrow>
        set (concat views) \<subseteq> lin_record_id ` set lineage
        \<and> total_count languages = int (card (doc_content_sha256 ` set (filter trainable documents)))
        \<and> total_count shapes = int (card (set (concat views)))
        \<and> heldout = int (card {f. f \<noteq> [] \<and> (\<exists>row \<in> set lineage. lin_split row = ''test''
             \<and> \<not> lin_dropped row \<and> f \<in> set (lin_families row))}))"
proof -
  let ?sel = "selected_records views"
  have sel: "distinct ?sel" "set ?sel = set (concat views)"
    using foldl_insert_or_ignore [of "[]" "concat views"] by (simp_all add: selected_records_def)
  obtain seen languages where lang: "count_languages documents = (seen, languages)"
    by (cases "count_languages documents")
  then have "foldl language_step ([], []) documents = (seen, languages)"
    by (simp add: count_languages_def language_step_def)
  from language_fold [OF this] have L: "total_count languages = int (length seen)" "distinct seen"
      "set seen = doc_content_sha256 ` set (filter trainable documents)"
    by (simp_all add: total_count_def)
  obtain matched shapes heldout where join: "foldl (join_lineage ?sel) ([], [], []) lineage = (matched, shapes, heldout)"
    by (cases "foldl (join_lineage ?sel) ([], [], []) lineage")
  from join_lineage_fold [OF this] have J: "distinct matched" "distinct heldout"
      "total_count shapes = int (length matched)"
      "set matched = lin_record_id ` set lineage \<inter> set ?sel"
      "set heldout = {f. f \<noteq> [] \<and> (\<exists>row \<in> set lineage. lin_split row = ''test''
         \<and> \<not> lin_dropped row \<and> f \<in> set (lin_families row))}"
    by (simp_all add: total_count_def)
  have "\<forall>r \<in> set ?sel. r \<in> set matched \<Longrightarrow> set matched = set (concat views)"
    using J(4) sel(2) by auto
  then show ?thesis
    using L J sel(2)
    by (auto simp: ancillary_facts_def lang join Let_def distinct_card [symmetric] simp flip: set_concat)
qed

end
