(* ===== verification/Campaign_Plan.thy ===== *)
theory Campaign_Plan
  imports Campaign_Policy Project_Spec
begin

text \<open>
  \<open>src/sparselab/campaign/plan.py\<close>, with \<open>safe_path\<close> of \<open>declaration_context.py\<close> and \<open>Artifact\<close> of
  \<open>experiments/plan.py\<close>: the declaration of a campaign, the typing of the references between its
  stages, and the dependency order.

  A stage is a record of the fields all stages share and a body, one constructor per stage class.
  \<open>Literal\<close> types other than the scope are datatypes or checked strings. The file system is a
  record of what path validation asks of it.
\<close>

section \<open>Paths\<close>

text \<open>\<open>Path(reference).parts\<close> and \<open>bool(PureWindowsPath(reference).drive)\<close>\<close>

definition path_parts :: "string \<Rightarrow> string list" where
  "path_parts s = (if starts_with ''/'' s then [''/''] else [])
     @ filter (\<lambda>p. p \<noteq> [] \<and> p \<noteq> ''.'') (split_on CHR ''/'' s)"

definition windows_drive :: "string \<Rightarrow> bool" where
  "windows_drive s \<longleftrightarrow> take 1 (drop 1 s) = '':'' \<or> starts_with ''//'' s"

record path_world =
  base_parts :: "string list"
  is_symlink :: "string list \<Rightarrow> bool"

definition prefixes_of :: "'a list \<Rightarrow> 'a list list" where
  "prefixes_of xs = map (\<lambda>n. take n xs) [0 ..< Suc (length xs)]"

text \<open>
  \<open>safe_path\<close>. With no \<open>..\<close> and no symbolic link on the way, resolving the target is the identity,
  so the last test of the code, that the target stays under the base, holds.
\<close>

definition safe_path :: "path_world \<Rightarrow> string \<Rightarrow> bool" where
  "safe_path w reference \<longleftrightarrow>
     \<not> (reference = [] \<or> CHR 0x5C \<in> set reference \<or> CHR 0x00 \<in> set reference
        \<or> starts_with ''/'' reference \<or> windows_drive reference
        \<or> ''..'' \<in> set (path_parts reference) \<or> path_parts reference = [])
     \<and> list_all (\<lambda>c. \<not> is_symlink w (base_parts w @ c)) (prefixes_of (path_parts reference))"

definition operational_path :: "path_world \<Rightarrow> string \<Rightarrow> bool" where
  "operational_path w reference \<longleftrightarrow>
     \<not> (reference = [] \<or> CHR 0x00 \<in> set reference \<or> CHR 0x5C \<in> set reference
        \<or> windows_drive reference \<or> ''..'' \<in> set (path_parts reference) \<or> path_parts reference = [])
     \<and> (let target = (if starts_with ''/'' reference then path_parts reference
                      else base_parts w @ path_parts reference)
        in list_all (\<lambda>c. \<not> is_symlink w c) (prefixes_of target))"

section \<open>Stages\<close>

record artifact =
  a_kind :: string
  a_version :: int
  a_producer :: string
  a_identifier :: string
  a_sha256 :: "string option"
  a_path :: "string option"
  a_from_phase :: "string option"
  a_selector :: "string option"
  a_state :: "string option"

datatype plan_error =
    ArtifactField | ArtifactIdentity | ArtifactExternal | ArtifactSelects | ArtifactPlannedPath
  | ArtifactPlannedSelector | StageId | StageRequirements | NotVerifiable | ScopeMismatch
  | MeasurementPaired | MeasurementSha | MeasurementPolicy | NotTokenizer | LockMode
  | RuntimeSource | RuntimeExclusive | EmptyCell | EvaluationsNotUnique | CpuRuntime
  | AcceleratorRuntime | UnsafePlanPath | ApprovalBind | ReadinessPolicy policy_error
  | CampaignId | NoStages | DuplicateStage | SelfDependency string | UnknownRequirement string string
  | InputNotRequired string string | WrongProducer string string | TokenizerNeeded string
  | BindNeedsPrepare | RuntimeOtherPlan string | RunOtherPlan string | FinalEvaluation
  | EvaluationOtherPlan | PanelOtherCollection | PanelOtherPlan | NotAncestor string string
  | StageKeyError string | DependencyCycle

definition valid_artifact :: "artifact \<Rightarrow> plan_error + unit" where
  "valid_artifact a =
     (if \<not> 1 \<le> a_version a then Inl ArtifactField
      else if \<not> safe_id (a_identifier a) \<or> a_producer a = [] then Inl ArtifactIdentity
      else if a_from_phase a = None then
        (if a_path a = None \<or> (case a_sha256 a of None \<Rightarrow> True | Some h \<Rightarrow> \<not> is_sha256 h) then Inl ArtifactExternal
         else if a_selector a \<noteq> None then Inl ArtifactSelects
         else Inr ())
      else if a_path a \<noteq> None \<or> a_sha256 a \<noteq> None then Inl ArtifactPlannedPath
      else if a_kind a \<noteq> ''checkpoint'' \<or> a_selector a = None then Inl ArtifactPlannedSelector
      else Inr ())"

datatype plan_mode = LockMode_lock | LockMode_reference | LockMode_bind

datatype stage_body =
    ArtifactReference artifact
  | CorpusRelease string
  | DatasetSnapshot string string string bool
  | TokenizerTrain string "string option"
  | DataPrepare string string "string option"
  | CorpusReadiness string readiness_policy "string option" "string option" "string option"
  | TokenizerReference artifact
  | TokenMeasurement string string
  | ExperimentPlanStage string plan_mode "string option" string string "string option"
  | RuntimeAcceptance string "string option" "string option"
  | ExperimentRun string string string
  | ExperimentCollect string string "string list"
  | Evaluation string string "string option" "string option"
  | GenerationPanel string string string string "string option"
  | ModelReadiness string string "string option" "string option"
  | Approval "string list"

record stage =
  stage_id :: string
  stage_scope :: string
  requires :: "string list"
  body :: stage_body

fun stage_kind :: "stage_body \<Rightarrow> string" where
  "stage_kind (ArtifactReference a) = ''artifact_reference''"
| "stage_kind (CorpusRelease project) = ''corpus_release''"
| "stage_kind (DatasetSnapshot lock output cache_dir resume) = ''dataset_snapshot''"
| "stage_kind (TokenizerTrain cfg snapshot) = ''tokenizer_train''"
| "stage_kind (DataPrepare cfg tokenizer snapshot) = ''data_prepare''"
| "stage_kind (CorpusReadiness corpus policy tokenizer receipt sha) = ''corpus_readiness''"
| "stage_kind (TokenizerReference a) = ''tokenizer_reference''"
| "stage_kind (TokenMeasurement corpus tokenizer) = ''token_measurement''"
| "stage_kind (ExperimentPlanStage source mode lock tokenizer prepared corpus) = ''experiment_plan''"
| "stage_kind (RuntimeAcceptance plan profile worker) = ''runtime_acceptance''"
| "stage_kind (ExperimentRun plan runtime cell) = ''experiment_run''"
| "stage_kind (ExperimentCollect plan run evaluations) = ''experiment_collect''"
| "stage_kind (Evaluation collect suite backend runtime) = ''evaluation''"
| "stage_kind (GenerationPanel collect evaluation runtime panel backend) = ''generation_panel''"
| "stage_kind (ModelReadiness evaluation policy review scores) = ''model_readiness''"
| "stage_kind (Approval bound) = ''approval''"

definition artifact_scopes :: "(string \<times> string) list" where
  "artifact_scopes = [(''source_snapshot'', ''corpus''), (''dataset_snapshot'', ''corpus''),
     (''corpus_build'', ''corpus''), (''corpus_release'', ''corpus''), (''corpus_export'', ''corpus''),
     (''tokenizer'', ''tokenizer''), (''prepared_data'', ''model''), (''stage_bundle'', ''model''),
     (''checkpoint'', ''model''), (''capability_card'', ''evaluation''), (''prompt_set'', ''evaluation'')]"

text \<open>The \<open>scope\<close> literal of each class; an artifact reference and an approval have several.\<close>

fun scopes_of :: "stage_body \<Rightarrow> string list" where
  "scopes_of (ArtifactReference a) =
     [''corpus'', ''tokenizer'', ''model'', ''runtime'', ''evaluation'', ''release'']"
| "scopes_of (Approval bound) = [''release'', ''model'']"
| "scopes_of b = (if stage_kind b \<in> {''corpus_release'', ''dataset_snapshot'', ''corpus_readiness''} then [''corpus'']
     else if stage_kind b \<in> {''tokenizer_train'', ''tokenizer_reference'', ''token_measurement''} then [''tokenizer'']
     else if stage_kind b \<in> {''data_prepare'', ''experiment_plan'', ''experiment_run'', ''model_readiness''} then [''model'']
     else if stage_kind b = ''runtime_acceptance'' then [''runtime''] else [''evaluation''])"

definition runtime_source_id :: "string \<Rightarrow> bool" where
  "runtime_source_id s \<longleftrightarrow> (case s of [] \<Rightarrow> False
     | c # cs \<Rightarrow> is_alnum c \<and> length cs \<le> 127
         \<and> list_all (\<lambda>x. is_alnum x \<or> x = CHR ''.'' \<or> x = CHR ''_'' \<or> x = CHR ''-'') cs)"

definition optional_ok :: "('a \<Rightarrow> bool) \<Rightarrow> 'a option \<Rightarrow> bool" where
  "optional_ok P x \<longleftrightarrow> (case x of None \<Rightarrow> True | Some v \<Rightarrow> P v)"

definition token_only_measurement :: "readiness_policy \<Rightarrow> bool" where
  "token_only_measurement p \<longleftrightarrow>
     \<not> (min_bytes_by_domain p \<noteq> [] \<or> required_languages p \<noteq> [] \<or> required_shapes p \<noteq> []
        \<or> min_heldout_families p \<noteq> 0 \<or> passes_on Bytes p
        \<or> \<not> (min_tokens_by_domain p \<noteq> [] \<or> passes_on Tokens p))"

fun valid_body :: "path_world \<Rightarrow> string \<Rightarrow> stage_body \<Rightarrow> plan_error + unit" where
  "valid_body w scope (ArtifactReference a) =
     bindE (valid_artifact a) (\<lambda>_.
       case map_of artifact_scopes (a_kind a) of
         None \<Rightarrow> Inl NotVerifiable
       | Some s \<Rightarrow> if a_from_phase a \<noteq> None then Inl NotVerifiable
                   else if scope \<noteq> s then Inl ScopeMismatch else Inr ())"
| "valid_body w scope (TokenizerReference a) =
     bindE (valid_artifact a) (\<lambda>_.
       if a_kind a \<noteq> ''tokenizer'' \<or> a_from_phase a \<noteq> None then Inl NotTokenizer else Inr ())"
| "valid_body w scope (CorpusReadiness corpus policy tokenizer receipt sha) =
     (case valid_readiness_policy policy of
        Inl e \<Rightarrow> Inl (ReadinessPolicy e)
      | Inr _ \<Rightarrow>
          if (receipt = None) \<noteq> (sha = None) then Inl MeasurementPaired
          else if receipt \<noteq> None \<and> \<not> optional_ok is_sha256 sha then Inl MeasurementSha
          else if receipt \<noteq> None \<and> \<not> token_only_measurement policy then Inl MeasurementPolicy
          else Inr ())"
| "valid_body w scope (ExperimentPlanStage source mode lock tokenizer prepared corpus) =
     (if (mode = LockMode_reference) \<noteq> (lock \<noteq> None) then Inl LockMode else Inr ())"
| "valid_body w scope (RuntimeAcceptance plan profile worker) =
     (if \<not> optional_ok runtime_source_id profile \<or> \<not> optional_ok runtime_source_id worker then Inl RuntimeSource
      else if profile \<noteq> None \<and> worker \<noteq> None then Inl RuntimeExclusive else Inr ())"
| "valid_body w scope (ExperimentRun plan runtime cell) = (if cell = [] then Inl EmptyCell else Inr ())"
| "valid_body w scope (ExperimentCollect plan run evaluations) =
     (if \<not> distinct evaluations then Inl EvaluationsNotUnique else Inr ())"
| "valid_body w scope (Evaluation collect suite backend runtime) =
     (if \<not> safe_path w suite then Inl UnsafePlanPath
      else if backend = Some ''cpu'' \<and> runtime \<noteq> None then Inl CpuRuntime
      else if backend \<notin> {None, Some ''cpu''} \<and> runtime = None then Inl AcceleratorRuntime
      else Inr ())"
| "valid_body w scope (GenerationPanel collect evaluation runtime panel backend) =
     (if \<not> safe_path w panel then Inl UnsafePlanPath else Inr ())"
| "valid_body w scope (ModelReadiness evaluation policy review scores) =
     (if \<not> optional_ok (operational_path w) review \<or> \<not> optional_ok (operational_path w) scores
        \<or> \<not> safe_path w policy then Inl UnsafePlanPath else Inr ())"
| "valid_body w scope (Approval bound) =
     (if bound = [] \<or> \<not> list_all safe_id bound \<or> \<not> distinct bound then Inl ApprovalBind else Inr ())"
| "valid_body w scope b = Inr ()"

definition valid_stage :: "path_world \<Rightarrow> stage \<Rightarrow> plan_error + unit" where
  "valid_stage w s =
     (if \<not> safe_id (stage_id s) then Inl StageId
      else if stage_scope s \<notin> set (scopes_of (body s)) then Inl ScopeMismatch
      else if \<not> list_all safe_id (requires s) \<or> \<not> distinct (requires s) then Inl StageRequirements
      else valid_body w (stage_scope s) (body s))"

section \<open>References between stages\<close>

record campaign_plan =
  campaign_id :: string
  stages :: "stage list"
  recovery :: "string option"

text \<open>\<open>by_id\<close>: the dict of the stages; ids are distinct when it is used.\<close>

definition by_id :: "stage list \<Rightarrow> string \<Rightarrow> stage option" where
  "by_id ss = map_of (map (\<lambda>s. (stage_id s, s)) ss)"

fun artifact_of :: "stage_body \<Rightarrow> string option" where
  "artifact_of (ArtifactReference a) = Some (a_kind a)"
| "artifact_of (TokenizerReference a) = Some (a_kind a)"
| "artifact_of b = None"

definition input_is :: "stage list \<Rightarrow> stage \<Rightarrow> string \<Rightarrow> (string \<times> string option) list \<Rightarrow> plan_error + unit" where
  "input_is ss s reference allowed =
     (if reference \<notin> set (requires s) then Inl (InputNotRequired (stage_id s) reference)
      else case by_id ss reference of
        None \<Rightarrow> Inl (StageKeyError reference)
      | Some up \<Rightarrow>
          if list_ex (\<lambda>(kind, art). stage_kind (body up) = kind \<and> (art = None \<or> artifact_of (body up) = art)) allowed
          then Inr () else Inl (WrongProducer (stage_id s) reference))"

definition release_producers :: "(string \<times> string option) list" where
  "release_producers = [(''corpus_release'', None), (''artifact_reference'', Some ''corpus_release'')]"

definition tokenizer_producers :: "(string \<times> string option) list" where
  "tokenizer_producers = [(''tokenizer_reference'', None), (''artifact_reference'', Some ''tokenizer''),
     (''tokenizer_train'', None)]"

definition snapshot_producers :: "(string \<times> string option) list" where
  "snapshot_producers = [(''dataset_snapshot'', None), (''artifact_reference'', Some ''dataset_snapshot'')]"

definition optional_input :: "stage list \<Rightarrow> stage \<Rightarrow> string option \<Rightarrow> (string \<times> string option) list \<Rightarrow> plan_error + unit" where
  "optional_input ss s reference allowed =
     (case reference of None \<Rightarrow> Inr () | Some r \<Rightarrow> input_is ss s r allowed)"

text \<open>The \<open>plan\<close> and \<open>collect\<close> attributes of the stages that have them.\<close>

fun plan_of :: "stage_body \<Rightarrow> string option" where
  "plan_of (RuntimeAcceptance plan profile worker) = Some plan"
| "plan_of (ExperimentRun plan runtime cell) = Some plan"
| "plan_of (ExperimentCollect plan run evaluations) = Some plan"
| "plan_of b = None"

fun collect_of :: "stage_body \<Rightarrow> string option" where
  "collect_of (Evaluation collect suite backend runtime) = Some collect"
| "collect_of (GenerationPanel collect evaluation runtime panel backend) = Some collect"
| "collect_of b = None"

definition attr :: "(stage_body \<Rightarrow> string option) \<Rightarrow> stage list \<Rightarrow> string \<Rightarrow> string option" where
  "attr f ss i = Option.bind (by_id ss i) (f \<circ> body)"

text \<open>
  The ancestor loop of an approval: a work list popped from its end. The \<open>KeyError\<close> of an
  unknown id is a branch; \<open>fuel\<close> bounds the pops, and running out of it is \<open>None\<close>.
\<close>

fun ancestor_loop :: "nat \<Rightarrow> (string \<Rightarrow> string list option) \<Rightarrow> string list \<Rightarrow> string list
    \<Rightarrow> (plan_error + string list) option" where
  "ancestor_loop 0 req ancestors pending = None"
| "ancestor_loop (Suc fuel) req ancestors pending =
     (if pending = [] then Some (Inr ancestors)
      else case req (last pending) of
        None \<Rightarrow> Some (Inl (StageKeyError (last pending)))
      | Some rs \<Rightarrow>
          let new = remdups (filter (\<lambda>r. r \<notin> set ancestors) rs)
          in ancestor_loop fuel req (ancestors @ new) (butlast pending @ new))"

definition requires_of :: "stage list \<Rightarrow> string \<Rightarrow> string list option" where
  "requires_of ss i = map_option requires (by_id ss i)"

definition ancestor_fuel :: "stage list \<Rightarrow> stage \<Rightarrow> nat" where
  "ancestor_fuel ss s = Suc (length (requires s) + (\<Sum>x\<leftarrow>ss. length (requires x)))"

section \<open>The dependency order\<close>

lemma length_remove1_found: "find P xs = Some x \<Longrightarrow> length (remove1 x xs) < length xs"
  by (induction xs) (auto split: if_splits)

function ordered_from :: "stage list \<Rightarrow> string list \<Rightarrow> plan_error + stage list" where
  "ordered_from remaining completed =
     (if remaining = [] then Inr []
      else case find (\<lambda>s. set (requires s) \<subseteq> set completed) remaining of
        None \<Rightarrow> Inl DependencyCycle
      | Some s \<Rightarrow> bindE (ordered_from (remove1 s remaining) (stage_id s # completed)) (\<lambda>rest. Inr (s # rest)))"
  by pat_completeness auto
termination
  by (relation "measure (\<lambda>(remaining, completed). length remaining)") (auto dest: length_remove1_found)

declare ordered_from.simps [simp del]

definition ordered_stages :: "stage list \<Rightarrow> plan_error + stage list" where
  "ordered_stages ss = ordered_from ss []"

section \<open>The whole plan\<close>

definition bound_ancestors :: "stage list \<Rightarrow> stage \<Rightarrow> string list \<Rightarrow> plan_error + unit" where
  "bound_ancestors ss s bound =
     (case ancestor_loop (ancestor_fuel ss s) (requires_of ss) (requires s) (requires s) of
        None \<Rightarrow> Inl DependencyCycle \<comment> \<open>never: the fuel is enough\<close>
      | Some (Inl e) \<Rightarrow> Inl e
      | Some (Inr ancestors) \<Rightarrow>
          (case find (\<lambda>r. r \<notin> set ancestors) bound of
             None \<Rightarrow> Inr () | Some r \<Rightarrow> Inl (NotAncestor (stage_id s) r)))"

definition same_attr :: "(stage_body \<Rightarrow> string option) \<Rightarrow> stage list \<Rightarrow> string \<Rightarrow> string \<Rightarrow> plan_error \<Rightarrow> plan_error + unit" where
  "same_attr f ss i v e = guardE (attr f ss i = Some v) e"

definition final_evaluation :: "stage list \<Rightarrow> stage \<Rightarrow> string \<Rightarrow> string \<Rightarrow> plan_error + unit" where
  "final_evaluation ss s plan reference =
     bindE (input_is ss s reference [(''evaluation'', None)]) (\<lambda>_.
       case Option.bind (attr collect_of ss reference) (by_id ss) of
         None \<Rightarrow> Inl FinalEvaluation
       | Some up \<Rightarrow> (case body up of
            ExperimentCollect up_plan run evaluations \<Rightarrow>
              if up_plan \<noteq> plan \<or> evaluations \<noteq> [] then Inl FinalEvaluation else Inr ()
          | _ \<Rightarrow> Inl FinalEvaluation))"

fun inputs_typed :: "stage list \<Rightarrow> stage \<Rightarrow> stage_body \<Rightarrow> plan_error + unit" where
  "inputs_typed ss s (TokenizerTrain cfg snapshot) = optional_input ss s snapshot snapshot_producers"
| "inputs_typed ss s (DataPrepare cfg tokenizer snapshot) =
     bindE (optional_input ss s snapshot snapshot_producers) (\<lambda>_. input_is ss s tokenizer tokenizer_producers)"
| "inputs_typed ss s (TokenMeasurement corpus tokenizer) =
     bindE (input_is ss s corpus release_producers) (\<lambda>_. input_is ss s tokenizer tokenizer_producers)"
| "inputs_typed ss s (CorpusReadiness corpus policy tokenizer receipt sha) =
     bindE (input_is ss s corpus release_producers) (\<lambda>_.
     bindE (optional_input ss s tokenizer tokenizer_producers) (\<lambda>_.
       if (min_tokens_by_domain policy \<noteq> [] \<or> passes_on Tokens policy) \<and> tokenizer = None
       then Inl (TokenizerNeeded (stage_id s)) else Inr ()))"
| "inputs_typed ss s (ExperimentPlanStage source mode lock tokenizer prepared corpus) =
     bindE (input_is ss s tokenizer tokenizer_producers) (\<lambda>_.
     bindE (input_is ss s prepared [(''artifact_reference'', Some ''prepared_data''), (''data_prepare'', None)]) (\<lambda>_.
       if mode = LockMode_bind \<and> map_option (stage_kind \<circ> body) (by_id ss prepared) \<noteq> Some ''data_prepare''
       then Inl BindNeedsPrepare
       else optional_input ss s corpus release_producers))"
| "inputs_typed ss s (RuntimeAcceptance plan profile worker) = input_is ss s plan [(''experiment_plan'', None)]"
| "inputs_typed ss s (ExperimentRun plan runtime cell) =
     bindE (input_is ss s plan [(''experiment_plan'', None)]) (\<lambda>_.
     bindE (input_is ss s runtime [(''runtime_acceptance'', None)]) (\<lambda>_.
       same_attr plan_of ss runtime plan (RuntimeOtherPlan (stage_id s))))"
| "inputs_typed ss s (ExperimentCollect plan run evaluations) =
     bindE (input_is ss s plan [(''experiment_plan'', None)]) (\<lambda>_.
     bindE (input_is ss s run [(''experiment_run'', None)]) (\<lambda>_.
     bindE (same_attr plan_of ss run plan (RunOtherPlan (stage_id s))) (\<lambda>_.
       foldE (\<lambda>_ r. final_evaluation ss s plan r) () evaluations)))"
| "inputs_typed ss s (Evaluation collect suite backend runtime) =
     bindE (input_is ss s collect [(''experiment_collect'', None)]) (\<lambda>_.
       case runtime of
         None \<Rightarrow> Inr ()
       | Some r \<Rightarrow>
           bindE (input_is ss s r [(''runtime_acceptance'', None)]) (\<lambda>_.
             guardE (attr plan_of ss r = attr plan_of ss collect) EvaluationOtherPlan))"
| "inputs_typed ss s (GenerationPanel collect evaluation runtime panel backend) =
     bindE (input_is ss s collect [(''experiment_collect'', None)]) (\<lambda>_.
     bindE (input_is ss s evaluation [(''evaluation'', None)]) (\<lambda>_.
     bindE (input_is ss s runtime [(''runtime_acceptance'', None)]) (\<lambda>_.
     bindE (same_attr collect_of ss evaluation collect PanelOtherCollection) (\<lambda>_.
       guardE (attr plan_of ss runtime = attr plan_of ss collect) PanelOtherPlan))))"
| "inputs_typed ss s (ModelReadiness evaluation policy review scores) =
     input_is ss s evaluation [(''evaluation'', None)]"
| "inputs_typed ss s (Approval bound) = bound_ancestors ss s bound"
| "inputs_typed ss s b = Inr ()"

definition check_stage :: "stage list \<Rightarrow> stage \<Rightarrow> plan_error + unit" where
  "check_stage ss s =
     (if stage_id s \<in> set (requires s) then Inl (SelfDependency (stage_id s))
      else case find (\<lambda>r. by_id ss r = None) (requires s) of
        Some r \<Rightarrow> Inl (UnknownRequirement (stage_id s) r)
      | None \<Rightarrow> inputs_typed ss s (body s))"

definition valid_plan :: "path_world \<Rightarrow> campaign_plan \<Rightarrow> plan_error + unit" where
  "valid_plan w p =
     bindE (mapE (valid_stage w) (stages p)) (\<lambda>_.
       if stages p = [] then Inl NoStages
       else if \<not> optional_ok (safe_path w) (recovery p) then Inl UnsafePlanPath
       else if \<not> safe_id (campaign_id p) then Inl CampaignId
       else if \<not> distinct (map stage_id (stages p)) then Inl DuplicateStage
       else
         bindE (mapE (check_stage (stages p)) (stages p)) (\<lambda>_.
         bindE (ordered_stages (stages p)) (\<lambda>_. Inr ())))"

text \<open>The path checks that \<open>load_campaign\<close> adds after validation, per stage.\<close>

fun load_paths_ok :: "path_world \<Rightarrow> stage_body \<Rightarrow> bool" where
  "load_paths_ok w (ArtifactReference a) = optional_ok (operational_path w) (a_path a)"
| "load_paths_ok w (TokenizerReference a) = optional_ok (operational_path w) (a_path a)"
| "load_paths_ok w (CorpusReadiness corpus policy tokenizer receipt sha) = optional_ok (operational_path w) receipt"
| "load_paths_ok w (CorpusRelease project) = safe_path w project"
| "load_paths_ok w (DatasetSnapshot lock output cache_dir resume) =
     (operational_path w lock \<and> operational_path w output \<and> operational_path w cache_dir)"
| "load_paths_ok w (TokenizerTrain cfg snapshot) = safe_path w cfg"
| "load_paths_ok w (DataPrepare cfg tokenizer snapshot) = safe_path w cfg"
| "load_paths_ok w (ExperimentPlanStage source mode lock tokenizer prepared corpus) =
     (safe_path w source \<and> optional_ok (operational_path w) lock)"
| "load_paths_ok w (Evaluation collect suite backend runtime) = safe_path w suite"
| "load_paths_ok w (GenerationPanel collect evaluation runtime panel backend) = safe_path w panel"
| "load_paths_ok w (ModelReadiness evaluation policy review scores) =
     (safe_path w policy \<and> optional_ok (operational_path w) review)"
| "load_paths_ok w b = True"

definition load_campaign :: "path_world \<Rightarrow> path_world \<Rightarrow> campaign_plan \<Rightarrow> plan_error + campaign_plan" where
  "load_campaign here parent p =
     bindE (valid_plan here p) (\<lambda>_.
       if list_all (\<lambda>s. load_paths_ok parent (body s)) (stages p) \<and> optional_ok (safe_path parent) (recovery p)
       then Inr p else Inl UnsafePlanPath)"

section \<open>The order is a topological one\<close>

abbreviation dependency_edges :: "stage list \<Rightarrow> (string \<times> string) set" where
  "dependency_edges ss \<equiv> input_edges (requires_of ss)"

definition requirements_known :: "stage list \<Rightarrow> bool" where
  "requirements_known ss \<longleftrightarrow> (\<forall>s \<in> set ss. \<forall>r \<in> set (requires s). r \<in> stage_id ` set ss)"

fun deps_first :: "string list \<Rightarrow> stage list \<Rightarrow> bool" where
  "deps_first completed [] = True"
| "deps_first completed (s # ss) =
     (set (requires s) \<subseteq> set completed \<and> deps_first (stage_id s # completed) ss)"

lemma by_id_Some:
  "distinct (map stage_id ss) \<Longrightarrow> by_id ss i = Some s \<longleftrightarrow> s \<in> set ss \<and> stage_id s = i"
  unfolding by_id_def by (subst map_of_eq_Some_iff) (auto simp: comp_def)

lemma by_id_None: "by_id ss i = None \<longleftrightarrow> i \<notin> stage_id ` set ss"
  by (auto simp: by_id_def map_of_eq_None_iff image_image)

lemma requires_of_Some:
  assumes "distinct (map stage_id ss)"
  shows "requires_of ss i = Some rs \<longleftrightarrow> (\<exists>s \<in> set ss. stage_id s = i \<and> requires s = rs)"
  by (auto simp: requires_of_def by_id_Some [OF assms])

lemma requires_of_known: "requires_of ss r \<noteq> None \<longleftrightarrow> r \<in> stage_id ` set ss"
  using by_id_None [of ss r] by (cases "by_id ss r") (simp_all add: requires_of_def)

lemma dependency_edges_iff:
  assumes "distinct (map stage_id ss)" and "requirements_known ss"
  shows "(i, r) \<in> dependency_edges ss \<longleftrightarrow> (\<exists>s \<in> set ss. stage_id s = i \<and> r \<in> set (requires s))"
proof -
  have "(i, r) \<in> dependency_edges ss \<longleftrightarrow>
      (\<exists>ins. requires_of ss i = Some ins \<and> r \<in> set ins \<and> r \<in> stage_id ` set ss)"
    unfolding input_edges_def requires_of_known [symmetric] by simp
  with assms(2) show ?thesis
    unfolding requires_of_Some [OF assms(1)] requirements_known_def by blast
qed

lemma ordered_from_Nil: "ordered_from [] completed = Inr []"
  by (subst ordered_from.simps) simp

lemma ordered_from_None:
  "remaining \<noteq> [] \<Longrightarrow> find (\<lambda>s. set (requires s) \<subseteq> set completed) remaining = None \<Longrightarrow>
   ordered_from remaining completed = Inl DependencyCycle"
  by (subst ordered_from.simps) simp

lemma ordered_from_Some:
  "find (\<lambda>s. set (requires s) \<subseteq> set completed) remaining = Some s \<Longrightarrow>
   ordered_from remaining completed
     = bindE (ordered_from (remove1 s remaining) (stage_id s # completed)) (\<lambda>rest. Inr (s # rest))"
  by (subst ordered_from.simps) auto

lemma ordered_from_cases:
  obtains (Nil) "remaining = []" "ordered_from remaining completed = Inr []"
  | (None) "remaining \<noteq> []" "find (\<lambda>s. set (requires s) \<subseteq> set completed) remaining = None"
      "ordered_from remaining completed = Inl DependencyCycle"
  | (Some) s where "remaining \<noteq> []" "find (\<lambda>s. set (requires s) \<subseteq> set completed) remaining = Some s"
      "ordered_from remaining completed
         = bindE (ordered_from (remove1 s remaining) (stage_id s # completed)) (\<lambda>rest. Inr (s # rest))"
proof (cases "remaining = []")
  case True
  with Nil ordered_from_Nil show thesis by simp
next
  case False
  show thesis
  proof (cases "find (\<lambda>s. set (requires s) \<subseteq> set completed) remaining")
    case None
    with that(2) False ordered_from_None show thesis by blast
  next
    case (Some s)
    with that(3) False ordered_from_Some show thesis by blast
  qed
qed

lemma ordered_from_perm:
  "ordered_from remaining completed = Inr out \<Longrightarrow> mset out = mset remaining \<and> deps_first completed out"
proof (induction remaining completed arbitrary: out rule: ordered_from.induct)
  case (1 remaining completed)
  show ?case
  proof (cases remaining completed rule: ordered_from_cases)
    case (Some s)
    with 1(2) obtain rest where rest: "ordered_from (remove1 s remaining) (stage_id s # completed) = Inr rest"
      "out = s # rest" by auto
    from 1(1) [OF Some(1,2) rest(1)] find_Some_mem [OF Some(2)] rest(2) show ?thesis by simp
  qed (use 1(2) in auto)
qed

lemma ordered_from_cycle: "ordered_from remaining completed = Inl e \<Longrightarrow> e = DependencyCycle"
proof (induction remaining completed rule: ordered_from.induct)
  case (1 remaining completed)
  show ?case
  proof (cases remaining completed rule: ordered_from_cases)
    case (Some s)
    with 1(2) have "ordered_from (remove1 s remaining) (stage_id s # completed) = Inl e"
      by (simp add: bindE_eq_Inl)
    from 1(1) [OF Some(1,2) this] show ?thesis .
  qed (use 1(2) in auto)
qed

lemma ordered_from_total:
  assumes "acyclic E" and "finite E"
    and "\<And>s r. s \<in> set remaining \<Longrightarrow> r \<in> set (requires s) \<Longrightarrow>
          (stage_id s, r) \<in> E \<and> (r \<in> stage_id ` set remaining \<or> r \<in> set completed)"
  shows "\<exists>out. ordered_from remaining completed = Inr out"
  using assms(3)
proof (induction remaining completed rule: ordered_from.induct)
  case (1 remaining completed)
  show ?case
  proof (cases remaining completed rule: ordered_from_cases)
    case Nil
    then show ?thesis by simp
  next
    case None
    let ?Q = "stage_id ` set remaining"
    have "wf (E\<inverse>)" by (rule finite_acyclic_wf_converse [OF assms(2,1)])
    moreover have "stage_id (hd remaining) \<in> ?Q" using None(1) by simp
    ultimately obtain z where z: "z \<in> ?Q" "\<forall>y. (y, z) \<in> E\<inverse> \<longrightarrow> y \<notin> ?Q"
      unfolding wf_eq_minimal by blast
    then obtain t where t: "t \<in> set remaining" "stage_id t = z" by auto
    then have "set (requires t) \<subseteq> set completed"
      using 1(2) z(2) by blast
    with t(1) None(2) show ?thesis by (auto simp: find_None_all)
  next
    case (Some s)
    have "\<exists>out. ordered_from (remove1 s remaining) (stage_id s # completed) = Inr out"
    proof (rule 1(1) [OF Some(1,2)])
      fix x r assume x: "x \<in> set (remove1 s remaining)" "r \<in> set (requires x)"
      then have "x \<in> set remaining" using set_remove1_subset by fast
      note known = 1(2) [OF this x(2)]
      have "r \<in> stage_id ` set (remove1 s remaining)" if "r \<in> stage_id ` set remaining" "r \<noteq> stage_id s"
      proof -
        from that obtain t where "t \<in> set remaining" "t \<noteq> s" "r = stage_id t" by auto
        then show ?thesis by (metis image_eqI in_set_remove1)
      qed
      with known show "(stage_id x, r) \<in> E
          \<and> (r \<in> stage_id ` set (remove1 s remaining) \<or> r \<in> set (stage_id s # completed))"
        by (cases "r = stage_id s") auto
    qed
    with Some show ?thesis by auto
  qed
qed

lemma deps_first_snoc: "deps_first completed (xs @ [s]) \<longleftrightarrow>
    deps_first completed xs \<and> set (requires s) \<subseteq> set completed \<union> stage_id ` set xs"
  by (induction xs arbitrary: completed) auto

lemma deps_first_prefix: "deps_first completed (xs @ ys) \<Longrightarrow> deps_first completed xs"
  by (induction xs arbitrary: completed) auto

lemma deps_first_finished:
  assumes "distinct (map stage_id ss)" and "set out \<subseteq> set ss" and "distinct (map stage_id out)"
    and "deps_first [] out" and "requirements_known ss"
  shows "finished (requires_of ss) [] (rev (map stage_id out))"
  using assms(2-4)
proof (induction out rule: rev_induct)
  case Nil
  then show ?case by simp
next
  case (snoc s out)
  then have "requires_of ss (stage_id s) = Some (requires s)"
    by (auto simp: requires_of_Some [OF assms(1)])
  moreover have "requires_of ss r \<noteq> None" if "r \<in> set (requires s)" for r
    using snoc.prems(1) assms(5) that by (auto simp: requirements_known_def requires_of_def by_id_None)
  ultimately show ?case
    using snoc by (auto simp: deps_first_snoc)
qed

text \<open>
  C12. \<open>ordered_stages\<close> orders a campaign exactly when it can be ordered. For stages with distinct
  ids whose requirements are all declared, it returns a permutation of the stages in which
  every stage comes after all its requirements, and it reports a dependency cycle if and only
  if the requirements are cyclic.
\<close>

theorem ordered_stages_topological:
  assumes "distinct (map stage_id ss)" and "requirements_known ss"
  shows "(case ordered_stages ss of
      Inr out \<Rightarrow> mset out = mset ss \<and> deps_first [] out \<and> acyclic (dependency_edges ss)
    | Inl e \<Rightarrow> e = DependencyCycle \<and> \<not> acyclic (dependency_edges ss))"
proof -
  let ?E = "dependency_edges ss"
  have "?E \<subseteq> (stage_id ` set ss) \<times> (\<Union>s \<in> set ss. set (requires s))"
    by (auto simp: dependency_edges_iff [OF assms])
  then have "finite ?E" by (rule finite_subset) auto
  have total: "\<exists>out. ordered_stages ss = Inr out" if "acyclic ?E"
    unfolding ordered_stages_def
    by (rule ordered_from_total [OF that \<open>finite ?E\<close>])
       (use assms in \<open>auto simp: dependency_edges_iff requirements_known_def\<close>)
  show ?thesis
  proof (cases "ordered_stages ss")
    case (Inl e)
    from Inl total ordered_from_cycle show ?thesis by (auto simp: ordered_stages_def)
  next
    case (Inr out)
    then have out: "mset out = mset ss" "deps_first [] out"
      by (auto simp: ordered_stages_def dest: ordered_from_perm)
    then have sets: "set out = set ss" by (metis set_mset_mset)
    have "mset (map stage_id out) = mset (map stage_id ss)" using out(1) by simp
    then have dist: "distinct (map stage_id out)"
      using assms(1) by (metis mset_eq_imp_distinct_iff)
    have "finished (requires_of ss) [] (rev (map stage_id out))"
      by (rule deps_first_finished [OF assms(1) _ dist out(2) assms(2)]) (simp add: sets)
    moreover have "requires_of ss x \<noteq> None \<Longrightarrow> x \<in> set (rev (map stage_id out))" for x
      unfolding requires_of_known by (simp add: sets)
    ultimately have "acyclic ?E" by (blast dest: finished_all)
    with Inr out show ?thesis by simp
  qed
qed

lemma find_filter: "find P (filter Q xs) = find (\<lambda>x. Q x \<and> P x) xs"
  by (induction xs) auto

lemma ordered_from_stable:
  assumes "ordered_from remaining completed = Inr (xs @ s # ys)" and "distinct remaining"
  shows "find (\<lambda>t. t \<notin> set xs \<and> set (requires t) \<subseteq> set completed \<union> stage_id ` set xs) remaining = Some s"
  using assms
proof (induction xs arbitrary: remaining completed)
  case Nil
  then show ?case
    by (cases remaining completed rule: ordered_from_cases) auto
next
  case (Cons x xs)
  show ?case
  proof (cases remaining completed rule: ordered_from_cases)
    case (Some z)
    with Cons.prems(1) have x: "z = x" "ordered_from (remove1 x remaining) (stage_id x # completed) = Inr (xs @ s # ys)"
      by auto
    from Cons.IH [OF x(2)] Cons.prems(2)
    have "find (\<lambda>t. t \<notin> set xs \<and> set (requires t) \<subseteq> insert (stage_id x) (set completed) \<union> stage_id ` set xs)
        (remove1 x remaining) = Some s" by simp
    moreover have "remove1 x remaining = filter (\<lambda>t. t \<noteq> x) remaining"
      using Cons.prems(2) by (simp add: distinct_remove1_removeAll removeAll_filter_not_eq comp_def eq_commute)
    ultimately show ?thesis
      by (simp add: find_filter insert_commute conj_ac)
  qed (use Cons.prems in auto)
qed

lemma deps_first_ordered:
  "deps_first completed ss \<Longrightarrow> ordered_from ss completed = Inr ss"
proof (induction ss arbitrary: completed)
  case Nil
  then show ?case by (simp add: ordered_from_Nil)
next
  case (Cons s ss)
  then show ?case by (simp add: ordered_from_Some)
qed

text \<open>
  The order is stable: authored order decides among the stages that are ready. Each stage of
  the order is the first authored stage that has not run and whose requirements have all run;
  in particular a campaign authored in dependency order keeps its order.
\<close>

theorem ordered_stages_stable:
  assumes "distinct (map stage_id ss)" and "ordered_stages ss = Inr (xs @ s # ys)"
  shows "find (\<lambda>t. t \<notin> set xs \<and> set (requires t) \<subseteq> stage_id ` set xs) ss = Some s
    \<and> (deps_first [] ss \<longrightarrow> ordered_stages ss = Inr ss)"
proof
  have "distinct ss" using assms(1) by (simp add: distinct_map)
  with ordered_from_stable [of ss "[]" xs s ys] assms(2)
  show "find (\<lambda>t. t \<notin> set xs \<and> set (requires t) \<subseteq> stage_id ` set xs) ss = Some s"
    by (simp add: ordered_stages_def)
  show "deps_first [] ss \<longrightarrow> ordered_stages ss = Inr ss"
    by (simp add: ordered_stages_def deps_first_ordered)
qed

section \<open>Ancestors\<close>

definition required_ids :: "stage list \<Rightarrow> string set" where
  "required_ids ss = (\<Union>s \<in> set ss. set (requires s))"

lemma ancestor_loop_reaches:
  assumes "distinct (map stage_id ss)" and "requirements_known ss"
    and "set pending \<subseteq> set ancestors" and "set ancestors \<subseteq> (dependency_edges ss)\<^sup>+ `` {i}"
    and "(dependency_edges ss) `` (set ancestors - set pending) \<subseteq> set ancestors"
    and "(dependency_edges ss) `` {i} \<subseteq> set ancestors" and "distinct ancestors"
    and "length pending + card (required_ids ss - set ancestors) < fuel"
  shows "\<exists>out. ancestor_loop fuel (requires_of ss) ancestors pending = Some (Inr out)
    \<and> set out = (dependency_edges ss)\<^sup>+ `` {i}"
  using assms(3-8)
proof (induction fuel arbitrary: ancestors pending)
  case 0
  then show ?case by simp
next
  case (Suc fuel)
  let ?E = "dependency_edges ss"
  show ?case
  proof (cases "pending = []")
    case True
    have "(i, a) \<in> ?E\<^sup>+ \<Longrightarrow> a \<in> set ancestors" for a
      by (induction rule: trancl_induct) (use Suc.prems(3,4) True in auto)
    with Suc.prems(2) True show ?thesis by auto
  next
    case False
    let ?p = "last pending"
    have "?p \<in> set pending" using False by simp
    then have "?p \<in> (?E)\<^sup>+ `` {i}" using Suc.prems(1,2) by blast
    then have "?p \<in> stage_id ` set ss"
      by (auto elim!: tranclE simp: input_edges_def requires_of_known simp flip: requires_of_known)
    then obtain s where s: "s \<in> set ss" "stage_id s = ?p" by auto
    then have req: "requires_of ss ?p = Some (requires s)"
      by (auto simp: requires_of_Some [OF assms(1)])
    let ?new = "remdups (filter (\<lambda>r. r \<notin> set ancestors) (requires s))"
    have succ: "?E `` {?p} = set (requires s)"
      using req s(1) assms(2) unfolding input_edges_def requires_of_known requirements_known_def by auto
    have card: "card (required_ids ss - set (ancestors @ ?new)) + length ?new = card (required_ids ss - set ancestors)"
    proof -
      have "finite (required_ids ss - set ancestors)" by (simp add: required_ids_def)
      moreover have "set ?new \<subseteq> required_ids ss - set ancestors" using s by (auto simp: required_ids_def)
      moreover have "required_ids ss - set (ancestors @ ?new) = (required_ids ss - set ancestors) - set ?new" by auto
      ultimately show ?thesis
        using card_mono [of "required_ids ss - set ancestors" "set ?new"]
        by (simp add: card_Diff_subset distinct_card del: set_remdups)
    qed
    have "\<exists>out. ancestor_loop fuel (requires_of ss) (ancestors @ ?new) (butlast pending @ ?new) = Some (Inr out)
        \<and> set out = ?E\<^sup>+ `` {i}"
    proof (rule Suc.IH)
      show "set (butlast pending @ ?new) \<subseteq> set (ancestors @ ?new)"
        using Suc.prems(1) by (auto dest: in_set_butlastD)
      have "?E `` {?p} \<subseteq> ?E\<^sup>+ `` {i}"
        using \<open>?p \<in> (?E)\<^sup>+ `` {i}\<close> by (auto intro: trancl_into_trancl)
      with Suc.prems(2) succ show "set (ancestors @ ?new) \<subseteq> ?E\<^sup>+ `` {i}" by auto
      have "set pending = insert ?p (set (butlast pending))"
        using False by (metis append_butlast_last_id list.simps(15) rotate1.simps(2) set_rotate1)
      then have "set (ancestors @ ?new) - set (butlast pending @ ?new) \<subseteq> (set ancestors - set pending) \<union> {?p}" by auto
      then have "?E `` (set (ancestors @ ?new) - set (butlast pending @ ?new))
          \<subseteq> ?E `` (set ancestors - set pending) \<union> ?E `` {?p}" by blast
      also have "\<dots> \<subseteq> set ancestors \<union> set (requires s)" using Suc.prems(3) succ by blast
      also have "\<dots> \<subseteq> set (ancestors @ ?new)" by auto
      finally show "?E `` (set (ancestors @ ?new) - set (butlast pending @ ?new)) \<subseteq> set (ancestors @ ?new)" .
      show "?E `` {i} \<subseteq> set (ancestors @ ?new)" using Suc.prems(4) by auto
      show "distinct (ancestors @ ?new)" using Suc.prems(5) by auto
      show "length (butlast pending @ ?new) + card (required_ids ss - set (ancestors @ ?new)) < fuel"
      proof -
        have "0 < length pending" using False by simp
        moreover have "length (butlast pending @ ?new) = length pending - 1 + length ?new" by simp
        ultimately show ?thesis using Suc.prems(6) card by linarith
      qed
    qed
    with req False show ?thesis by (simp add: Let_def)
  qed
qed

lemma card_required_ids: "card (required_ids ss) \<le> (\<Sum>x\<leftarrow>ss. length (requires x))"
proof (induction ss)
  case Nil
  then show ?case by (simp add: required_ids_def)
next
  case (Cons s ss)
  have "card (required_ids (s # ss)) \<le> card (set (requires s)) + card (required_ids ss)"
    by (simp add: required_ids_def card_Un_le)
  with Cons card_length [of "requires s"] show ?case by simp
qed

lemma ancestors_of_stage:
  assumes "distinct (map stage_id ss)" and "requirements_known ss" and "s \<in> set ss" and "distinct (requires s)"
  shows "\<exists>out. ancestor_loop (ancestor_fuel ss s) (requires_of ss) (requires s) (requires s) = Some (Inr out)
    \<and> set out = (dependency_edges ss)\<^sup>+ `` {stage_id s}"
proof (rule ancestor_loop_reaches [OF assms(1,2)])
  have "requires_of ss (stage_id s) = Some (requires s)"
    using assms(3) by (auto simp: requires_of_Some [OF assms(1)])
  then have succ: "dependency_edges ss `` {stage_id s} = set (requires s)"
    using assms(2,3) unfolding input_edges_def requires_of_known requirements_known_def by auto
  then show "set (requires s) \<subseteq> (dependency_edges ss)\<^sup>+ `` {stage_id s}" by auto
  show "dependency_edges ss `` {stage_id s} \<subseteq> set (requires s)" using succ by simp
  have "card (required_ids ss - set (requires s)) \<le> card (required_ids ss)"
    by (rule card_mono) (auto simp: required_ids_def)
  with card_required_ids [of ss]
  show "length (requires s) + card (required_ids ss - set (requires s)) < ancestor_fuel ss s"
    by (simp add: ancestor_fuel_def)
qed (use assms(4) in auto)

lemma find_None_iff': "find P xs = None \<longleftrightarrow> list_all (\<lambda>x. \<not> P x) xs"
  by (induction xs) auto

lemma mapE_Inr_all: "mapE f xs = Inr ys \<Longrightarrow> x \<in> set xs \<Longrightarrow> \<exists>y. f x = Inr y"
  by (induction xs arbitrary: ys) auto

lemma check_stage_Inr:
  assumes "check_stage ss s = Inr ()"
  shows "stage_id s \<notin> set (requires s)" and "\<forall>r \<in> set (requires s). by_id ss r \<noteq> None"
    and "inputs_typed ss s (body s) = Inr ()"
proof -
  show "stage_id s \<notin> set (requires s)" using assms by (auto simp: check_stage_def)
  then have none: "find (\<lambda>r. by_id ss r = None) (requires s) = None"
    using assms by (cases "find (\<lambda>r. by_id ss r = None) (requires s)") (simp_all add: check_stage_def)
  then show "\<forall>r \<in> set (requires s). by_id ss r \<noteq> None" by (simp only: find_None_all)
  show "inputs_typed ss s (body s) = Inr ()"
    using assms none \<open>stage_id s \<notin> set (requires s)\<close> by (simp add: check_stage_def)
qed

lemma valid_plan_Inr:
  assumes "valid_plan w p = Inr ()"
  shows "distinct (map stage_id (stages p))" and "requirements_known (stages p)"
    and "\<And>s. s \<in> set (stages p) \<Longrightarrow> valid_stage w s = Inr () \<and> check_stage (stages p) s = Inr ()"
    and "\<exists>out. ordered_stages (stages p) = Inr out"
proof -
  from assms obtain us vs out where p: "mapE (valid_stage w) (stages p) = Inr us"
      "distinct (map stage_id (stages p))" "mapE (check_stage (stages p)) (stages p) = Inr vs"
      "ordered_stages (stages p) = Inr out"
    by (auto simp: valid_plan_def split: if_splits)
  show "distinct (map stage_id (stages p))" by (rule p(2))
  show all: "s \<in> set (stages p) \<Longrightarrow> valid_stage w s = Inr () \<and> check_stage (stages p) s = Inr ()" for s
    using mapE_Inr_all [OF p(1)] mapE_Inr_all [OF p(3)] by fastforce
  show "\<exists>out. ordered_stages (stages p) = Inr out" using p(4) by blast
  show "requirements_known (stages p)"
    unfolding requirements_known_def
  proof (intro ballI)
    fix s r assume "s \<in> set (stages p)" "r \<in> set (requires s)"
    then have "by_id (stages p) r \<noteq> None"
      using check_stage_Inr(2) [of "stages p" s] all [of s] by simp
    then show "r \<in> stage_id ` set (stages p)" by (simp only: by_id_None not_not)
  qed
qed

text \<open>
  An approval can only bind what it waits for. In an accepted plan every stage that an
  approval binds is an ancestor of it in the requirement graph, and in any order that respects
  the requirements it has run before the approval.
\<close>

theorem approval_binds_ancestors:
  assumes "valid_plan w p = Inr ()" and "s \<in> set (stages p)" and "body s = Approval bound" and "r \<in> set bound"
  shows "(stage_id s, r) \<in> (dependency_edges (stages p))\<^sup>+
    \<and> (\<exists>xs ys. ordered_stages (stages p) = Inr (xs @ s # ys) \<and> r \<in> stage_id ` set xs)"
proof -
  let ?ss = "stages p" and ?E = "dependency_edges (stages p)"
  note plan = valid_plan_Inr [OF assms(1)]
  have "distinct (requires s)"
    using plan(3) [OF assms(2)] by (auto simp: valid_stage_def split: if_splits)
  from ancestors_of_stage [OF plan(1,2) assms(2) this] obtain anc where
    anc: "ancestor_loop (ancestor_fuel ?ss s) (requires_of ?ss) (requires s) (requires s) = Some (Inr anc)"
    "set anc = ?E\<^sup>+ `` {stage_id s}" by blast
  have "bound_ancestors ?ss s bound = Inr ()"
    using check_stage_Inr(3) [of ?ss s] plan(3) [OF assms(2)] assms(3) by simp
  with anc assms(4) have reach: "(stage_id s, r) \<in> ?E\<^sup>+"
    by (auto simp: bound_ancestors_def find_None_all split: option.splits)
  from plan(4) obtain out where out: "ordered_stages ?ss = Inr out" by blast
  from ordered_from_perm [OF this [unfolded ordered_stages_def]] have o: "mset out = mset ?ss" "deps_first [] out" by auto
  then have "s \<in> set out" using assms(2) by (metis set_mset_mset)
  then obtain xs ys where split: "out = xs @ s # ys" by (auto simp: in_set_conv_decomp)
  have prefix: "deps_first [] (xs @ [s])"
    using o(2) deps_first_prefix [of "[]" "xs @ [s]" ys] by (simp add: split)
  have sub: "set (xs @ [s]) \<subseteq> set ?ss" using o(1) split by (metis Un_upper1 append.assoc append_Cons append_Nil set_append set_mset_mset)
  have "mset (map stage_id out) = mset (map stage_id ?ss)" using o(1) by simp
  then have "distinct (map stage_id out)" using plan(1) by (metis mset_eq_imp_distinct_iff)
  then have dist: "distinct (map stage_id (xs @ [s]))" by (simp add: split)
  have fin: "finished (requires_of ?ss) [] (rev (map stage_id (xs @ [s])))"
    by (rule deps_first_finished [OF plan(1) sub dist prefix plan(2)])
  have "r \<in> set (rev (map stage_id (xs @ [s])))"
    by (rule finished_closed_trancl [OF reach fin]) simp
  moreover have "r \<noteq> stage_id s"
    using finished_acyclic [OF fin, of "stage_id s"] reach by auto
  ultimately have "r \<in> stage_id ` set xs" by auto
  with reach out split show ?thesis by blast
qed

section \<open>Typed references\<close>

lemma input_is_Inr:
  assumes "distinct (map stage_id ss)" and "input_is ss s reference allowed = Inr ()"
  shows "reference \<in> set (requires s) \<and> (\<exists>up \<in> set ss. stage_id up = reference \<and> by_id ss reference = Some up
    \<and> list_ex (\<lambda>(kind, art). stage_kind (body up) = kind \<and> (art = None \<or> artifact_of (body up) = art)) allowed)"
proof -
  from assms(2) obtain up where "reference \<in> set (requires s)" "by_id ss reference = Some up"
      "list_ex (\<lambda>(kind, art). stage_kind (body up) = kind \<and> (art = None \<or> artifact_of (body up) = art)) allowed"
    by (auto simp: input_is_def split: if_splits option.splits)
  with by_id_Some [OF assms(1)] show ?thesis by auto
qed

lemma kind_run: "stage_kind b = ''experiment_run'' \<Longrightarrow> \<exists>plan runtime cell. b = ExperimentRun plan runtime cell"
  by (cases b) auto

lemma kind_runtime: "stage_kind b = ''runtime_acceptance'' \<Longrightarrow> \<exists>plan profile worker. b = RuntimeAcceptance plan profile worker"
  by (cases b) auto

lemma kind_plan: "stage_kind b = ''experiment_plan'' \<Longrightarrow>
    \<exists>source mode lock tokenizer prepared corpus. b = ExperimentPlanStage source mode lock tokenizer prepared corpus"
  by (cases b) auto

lemma valid_run:
  assumes "valid_plan w p = Inr ()" and "s \<in> set (stages p)" and "body s = ExperimentRun plan runtime cell"
  shows "\<exists>rt \<in> set (stages p). stage_id rt = runtime \<and> runtime \<in> set (requires s) \<and> plan \<in> set (requires s)
    \<and> (\<exists>profile worker. body rt = RuntimeAcceptance plan profile worker)"
proof -
  note plan = valid_plan_Inr [OF assms(1)]
  have "inputs_typed (stages p) s (body s) = Inr ()"
    using check_stage_Inr(3) plan(3) [OF assms(2)] by blast
  then have i: "input_is (stages p) s plan [(''experiment_plan'', None)] = Inr ()"
      "input_is (stages p) s runtime [(''runtime_acceptance'', None)] = Inr ()"
      "attr plan_of (stages p) runtime = Some plan"
    by (auto simp: assms(3) same_attr_def)
  from input_is_Inr [OF plan(1) i(2)] obtain rt where rt: "rt \<in> set (stages p)" "stage_id rt = runtime"
      "by_id (stages p) runtime = Some rt" "stage_kind (body rt) = ''runtime_acceptance''" "runtime \<in> set (requires s)"
    by auto
  then have "\<exists>profile worker. body rt = RuntimeAcceptance plan profile worker"
    using i(3) kind_runtime [OF rt(4)] by (auto simp: attr_def)
  with rt input_is_Inr [OF plan(1) i(1)] show ?thesis by auto
qed

text \<open>
  Results are collected for the plan that ran. In an accepted plan a collection of plan P
  refers to a run of P, that run refers to a runtime accepted for P, and P is an
  \<open>experiment_plan\<close> stage; all of them are required by the stages that use them.
\<close>

theorem collection_chain_has_one_plan:
  assumes "valid_plan w p = Inr ()" and "s \<in> set (stages p)"
    and "body s = ExperimentCollect plan run evaluations"
  shows "\<exists>r \<in> set (stages p). \<exists>rt \<in> set (stages p). \<exists>pl \<in> set (stages p). \<exists>cell.
      stage_id r = run \<and> run \<in> set (requires s) \<and> body r = ExperimentRun plan (stage_id rt) cell
    \<and> stage_id rt \<in> set (requires r) \<and> (\<exists>profile worker. body rt = RuntimeAcceptance plan profile worker)
    \<and> stage_id pl = plan \<and> plan \<in> set (requires s) \<and> stage_kind (body pl) = ''experiment_plan''"
proof -
  note plan = valid_plan_Inr [OF assms(1)]
  have "inputs_typed (stages p) s (body s) = Inr ()"
    using check_stage_Inr(3) plan(3) [OF assms(2)] by blast
  then have i: "input_is (stages p) s plan [(''experiment_plan'', None)] = Inr ()"
      "input_is (stages p) s run [(''experiment_run'', None)] = Inr ()"
      "attr plan_of (stages p) run = Some plan"
    by (auto simp: assms(3) same_attr_def)
  from input_is_Inr [OF plan(1) i(2)] obtain r where r: "r \<in> set (stages p)" "stage_id r = run"
      "by_id (stages p) run = Some r" "stage_kind (body r) = ''experiment_run''" "run \<in> set (requires s)"
    by auto
  then obtain runtime cell where b: "body r = ExperimentRun plan runtime cell"
    using i(3) kind_run [OF r(4)] by (auto simp: attr_def)
  from valid_run [OF assms(1) r(1) b] obtain rt where rt: "rt \<in> set (stages p)" "stage_id rt = runtime"
      "runtime \<in> set (requires r)" "\<exists>profile worker. body rt = RuntimeAcceptance plan profile worker"
    by blast
  from input_is_Inr [OF plan(1) i(1)] obtain pl where pl: "pl \<in> set (stages p)" "stage_id pl = plan"
      "stage_kind (body pl) = ''experiment_plan''" "plan \<in> set (requires s)"
    by auto
  show ?thesis
    using r(1,2,5) b rt pl by blast
qed

section \<open>A concrete campaign\<close>

definition here :: path_world where
  "here = \<lparr>base_parts = [''/'', ''lab''], is_symlink = \<lambda>_. False\<rparr>"

definition stage_of :: "string \<Rightarrow> string \<Rightarrow> string list \<Rightarrow> stage_body \<Rightarrow> stage" where
  "stage_of i scope req b = \<lparr>stage_id = i, stage_scope = scope, requires = req, body = b\<rparr>"

definition sample_approval :: stage where
  "sample_approval = stage_of ''ok'' ''release'' [''collect''] (Approval [''rel'', ''run''])"

definition sample_collect :: stage where
  "sample_collect = stage_of ''collect'' ''evaluation'' [''plan'', ''run''] (ExperimentCollect ''plan'' ''run'' [])"

definition sample_run :: stage where
  "sample_run = stage_of ''run'' ''model'' [''plan'', ''rt''] (ExperimentRun ''plan'' ''rt'' ''c'')"

definition sample_earlier :: "stage list" where
  "sample_earlier = [stage_of ''rel'' ''corpus'' [] (CorpusRelease ''p.yaml''),
     stage_of ''tok'' ''tokenizer'' [] (TokenizerTrain ''t.yaml'' None),
     stage_of ''prep'' ''model'' [''tok''] (DataPrepare ''r.yaml'' ''tok'' None),
     stage_of ''plan'' ''model'' [''tok'', ''prep'', ''rel'']
       (ExperimentPlanStage ''e.yaml'' LockMode_bind None ''tok'' ''prep'' (Some ''rel'')),
     stage_of ''rt'' ''runtime'' [''plan''] (RuntimeAcceptance ''plan'' None None)]"

definition sample_plan :: campaign_plan where
  "sample_plan = \<lparr>campaign_id = ''c1'', stages = sample_approval # sample_collect # sample_run # sample_earlier,
     recovery = None\<rparr>"

definition sample_order :: "stage list" where
  "sample_order = sample_earlier @ [sample_run, sample_collect, sample_approval]"

lemma sample_plan_valid: "valid_plan here sample_plan = Inr ()"
  by code_simp

lemma sample_ordered: "ordered_stages (stages sample_plan) = Inr sample_order"
  by code_simp

lemma sample_ids: "distinct (map stage_id (stages sample_plan))"
  by code_simp

theorem ordered_stages_topological_witness:
  "deps_first [] sample_order \<and> acyclic (dependency_edges (stages sample_plan))"
  using ordered_stages_topological [OF sample_ids valid_plan_Inr(2) [OF sample_plan_valid]]
  by (simp add: sample_ordered)

theorem ordered_stages_stable_witness:
  "find (\<lambda>t. t \<notin> set sample_earlier \<and> set (requires t) \<subseteq> stage_id ` set sample_earlier) (stages sample_plan)
    = Some sample_run"
  using ordered_stages_stable [OF sample_ids, of sample_earlier sample_run "[sample_collect, sample_approval]"]
    sample_ordered by (simp add: sample_order_def)

theorem approval_binds_ancestors_witness:
  "(''ok'', ''rel'') \<in> (dependency_edges (stages sample_plan))\<^sup>+"
proof -
  have m: "sample_approval \<in> set (stages sample_plan)" by (simp add: sample_plan_def)
  have b: "body sample_approval = Approval [''rel'', ''run'']" by (simp add: sample_approval_def stage_of_def)
  have r: "''rel'' \<in> set [''rel'', ''run'']" by simp
  have i: "stage_id sample_approval = ''ok''" by (simp add: sample_approval_def stage_of_def)
  show ?thesis
    using conjunct1 [OF approval_binds_ancestors [OF sample_plan_valid m b r]] unfolding i .
qed

theorem collection_chain_has_one_plan_witness:
  "\<exists>r \<in> set (stages sample_plan). \<exists>rt \<in> set (stages sample_plan). \<exists>cell.
      stage_id r = ''run'' \<and> body r = ExperimentRun ''plan'' (stage_id rt) cell
    \<and> (\<exists>profile worker. body rt = RuntimeAcceptance ''plan'' profile worker)"
proof -
  have "sample_collect \<in> set (stages sample_plan)" by (simp add: sample_plan_def)
  moreover have "body sample_collect = ExperimentCollect ''plan'' ''run'' []"
    by (simp add: sample_collect_def stage_of_def)
  ultimately show ?thesis
    using collection_chain_has_one_plan [OF sample_plan_valid] by blast
qed

end
