(* ===== verification/Packing.thy ===== *)
theory Packing
  imports Address_Hash
begin

text \<open>
  \<open>src/sparselab/data/packing.py\<close>: how tokenized documents become one packed array of token ids
  with an aligned supervision mask (and byte addresses), and how training blocks are cut from it.

  The tokenizer is third-party: \<open>encode\<close>, \<open>token_bytes\<close> and the id of \<open><eos>\<close> are arguments. A
  numpy array of ids or Booleans is a list; progress reports and timings are left out. Texts are
  lists of characters, their UTF-8 bytes come from the argument \<open>utf8\<close>.
\<close>

section \<open>Documents\<close>

record rendered =
  r_text :: string
  r_spans :: "(int \<times> int) list"
  r_loss_mode :: string

record encoding =
  e_ids :: "int list"
  e_offsets :: "(int \<times> int) list"

record tokenizer =
  encode :: "string \<Rightarrow> encoding"
  token_bytes :: "int \<Rightarrow> bytes"
  eos_id :: "int option"
  utf8 :: "string \<Rightarrow> bytes"

datatype pack_error =
    NoEos | PiecesDiffer | BadAddress addr_error | NoSpecialTokens | InvalidTargetRow
  | ReceiptDiffers | Misaligned

definition supervision_for_encoding :: "rendered option \<Rightarrow> (int \<times> int) list \<Rightarrow> nat \<Rightarrow> bool list" where
  "supervision_for_encoding document offsets token_count =
     (case document of
        None \<Rightarrow> replicate token_count True
      | Some d \<Rightarrow>
          if r_loss_mode d = ''all_tokens'' then replicate token_count True
          else map (\<lambda>(start, end).
              list_ex (\<lambda>(span_start, span_end). start < end \<and> span_start \<le> start \<and> end \<le> span_end) (r_spans d))
            (take token_count offsets))"

definition encoded_token_bytes :: "tokenizer \<Rightarrow> int list \<Rightarrow> string \<Rightarrow> pack_error + bytes list" where
  "encoded_token_bytes tk ids document =
     (let pieces = map (token_bytes tk) ids
      in if concat pieces \<noteq> utf8 tk document then Inl PiecesDiffer else Inr pieces)"

section \<open>Collecting a split\<close>

text \<open>\<open>prefix[-n:]\<close> of a byte string (\<open>n = 0\<close> is the whole string)\<close>

definition last_bytes :: "nat \<Rightarrow> bytes \<Rightarrow> bytes" where
  "last_bytes n xs = (if n = 0 then xs else drop (length xs - n) xs)"

fun address_pieces :: "nat \<Rightarrow> int \<Rightarrow> bytes \<Rightarrow> bytes list \<Rightarrow> pack_error + int list" where
  "address_pieces n table_size before [] = Inr []"
| "address_pieces n table_size before (piece # pieces) =
     (let before' = before @ piece
      in case table_address (last_bytes n before') table_size of
           Inl e \<Rightarrow> Inl (BadAddress e)
         | Inr a \<Rightarrow> bindE (address_pieces n table_size before' pieces) (\<lambda>rest. Inr (a # rest)))"

record split_state =
  acquired :: nat
  retained :: nat
  skipped :: nat
  truncated :: nat
  s_values :: "int list"
  s_supervision :: "bool list"
  s_addresses :: "int list option" \<comment> \<open>\<open>None\<close> without a byte table\<close>

record split_limits =
  max_documents :: nat
  max_tokens :: nat
  byte_table :: "(int \<times> nat) option" \<comment> \<open>table size and n-gram size\<close>

text \<open>
  One document of \<open>_collect\<close> after it has been acquired, when at least two positions remain.
\<close>

definition collect_document :: "tokenizer \<Rightarrow> int \<Rightarrow> split_limits \<Rightarrow> rendered \<Rightarrow> split_state
    \<Rightarrow> pack_error + split_state" where
  "collect_document tk eos lim d st =
     (let enc = encode tk (r_text d);
          remaining = max_tokens lim - length (s_values st);
          count = min (length (e_ids enc)) (remaining - 1);
          selected = take count (e_ids enc) @ [eos];
          sup = supervision_for_encoding (Some d) (e_offsets enc) count
            @ [r_loss_mode d = ''all_tokens'' \<or> (count = length (e_ids enc) \<and> r_spans d \<noteq> [])]
      in bindE (case (byte_table lim, s_addresses st) of
             (Some (table_size, n), Some old) \<Rightarrow>
               bindE (encoded_token_bytes tk (e_ids enc) (r_text d)) (\<lambda>pieces.
               bindE (address_pieces n table_size [] (take count pieces)) (\<lambda>new.
                 Inr (Some (old @ new @ [0]))))
           | _ \<Rightarrow> Inr (s_addresses st)) (\<lambda>addresses.
         Inr (st\<lparr>retained := retained st + 1,
           truncated := truncated st + (if count < length (e_ids enc) then 1 else 0),
           s_values := s_values st @ selected, s_supervision := s_supervision st @ sup,
           s_addresses := addresses\<rparr>)))"

fun collect_loop :: "tokenizer \<Rightarrow> int \<Rightarrow> split_limits \<Rightarrow> rendered list \<Rightarrow> split_state
    \<Rightarrow> pack_error + split_state" where
  "collect_loop tk eos lim [] st = Inr st"
| "collect_loop tk eos lim (d # ds) st =
     (if \<not> (acquired st < max_documents lim \<and> length (s_values st) < max_tokens lim) then Inr st
      else
        let st1 = st\<lparr>acquired := acquired st + 1\<rparr>
        in if r_text d = [] then collect_loop tk eos lim ds (st1\<lparr>skipped := skipped st + 1\<rparr>)
           else if max_tokens lim - length (s_values st) \<le> 1 then Inr st1
           else bindE (collect_document tk eos lim d st1) (\<lambda>st2. collect_loop tk eos lim ds st2))"

definition collect :: "tokenizer \<Rightarrow> split_limits \<Rightarrow> rendered list \<Rightarrow> pack_error + split_state" where
  "collect tk lim documents =
     (case eos_id tk of
        None \<Rightarrow> Inl NoEos
      | Some eos \<Rightarrow> collect_loop tk eos lim documents
          \<lparr>acquired = 0, retained = 0, skipped = 0, truncated = 0, s_values = [], s_supervision = [],
           s_addresses = (if byte_table lim = None then None else Some [])\<rparr>)"

section \<open>The array spool\<close>

record 'a spool =
  raw :: "'a list"
  buffer :: "'a list"
  count :: nat

definition spool_limit :: nat where
  "spool_limit = 65536"

definition new_spool :: "'a spool" where
  "new_spool = \<lparr>raw = [], buffer = [], count = 0\<rparr>"

definition spool_flush :: "'a spool \<Rightarrow> 'a spool" where
  "spool_flush s = (if buffer s = [] then s else s\<lparr>raw := raw s @ buffer s, buffer := []\<rparr>)"

definition spool_append :: "'a list \<Rightarrow> 'a spool \<Rightarrow> 'a spool" where
  "spool_append xs s =
     (let s' = s\<lparr>buffer := buffer s @ xs, count := count s + length xs\<rparr>
      in if length (buffer s') \<ge> spool_limit then spool_flush s' else s')"

text \<open>The file that \<open>finish\<close> writes: the shape in its header and the raw values.\<close>

definition spool_finish :: "'a spool \<Rightarrow> nat \<times> 'a list" where
  "spool_finish s = (let s' = spool_flush s in (count s', raw s'))"

section \<open>The token mixture\<close>

record mixture_row =
  m_tokens :: "int list"
  m_stratum :: string

record mixture_receipt =
  actual_target_tokens :: "(string \<times> nat) list"
  receipt_records :: nat
  stream_matches :: bool \<comment> \<open>the SHA-256 of the rows is the receipt's\<close>

fun add_count :: "string \<Rightarrow> nat \<Rightarrow> (string \<times> nat) list \<Rightarrow> (string \<times> nat) list" where
  "add_count k n [] = [(k, n)]"
| "add_count k n ((k', m) # rest) = (if k' = k then (k', m + n) # rest else (k', m) # add_count k n rest)"

definition row_ok :: "int \<Rightarrow> int \<Rightarrow> nat \<Rightarrow> nat \<Rightarrow> mixture_row \<Rightarrow> bool" where
  "row_ok eos vocab target cursor row \<longleftrightarrow>
     m_tokens row \<noteq> [] \<and> last (m_tokens row) = eos
     \<and> list_all (\<lambda>v. 0 \<le> v \<and> v < vocab) (m_tokens row)
     \<and> cursor + length (m_tokens row) \<le> target + 1"

text \<open>
  The loop of \<open>_collect_token_mixture\<close>, in both of its modes. \<open>resumed\<close> is the number of records
  a chunked run has already stored (0 for a fresh one; storing a record advances both counters, so
  the comparison is with the number at the start); \<open>out\<close> is what is appended, ids with mask.
  A row is the parsed JSON object of a line; the byte cap of a line and blank lines are refused
  before it exists.
\<close>

fun mixture_loop :: "int \<Rightarrow> int \<Rightarrow> int \<Rightarrow> int \<Rightarrow> nat \<Rightarrow> nat \<Rightarrow> nat \<Rightarrow> nat option \<Rightarrow> mixture_row list \<Rightarrow> nat \<Rightarrow> nat
    \<Rightarrow> (string \<times> nat) list \<Rightarrow> (int \<times> bool) list
    \<Rightarrow> pack_error + nat \<times> nat \<times> (string \<times> nat) list \<times> (int \<times> bool) list" where
  "mixture_loop bos eos pad vocab target padded total_records resumed [] cursor records strata out =
     Inr (cursor, records, strata, out)"
| "mixture_loop bos eos pad vocab target padded total_records resumed (row # rows) cursor records strata out =
     (if \<not> row_ok eos vocab target cursor row then Inl InvalidTargetRow
      else
        let chunk = map (\<lambda>v. (v, True)) (m_tokens row);
            added = (case resumed of
                None \<Rightarrow> chunk
              | Some stored \<Rightarrow>
                  if records \<ge> stored then
                    (if records = 0 then [(bos, False)] else []) @ chunk
                    @ (if records + 1 = total_records then replicate (padded - target) (pad, False) else [])
                  else [])
        in mixture_loop bos eos pad vocab target padded total_records resumed rows
             (cursor + length (m_tokens row)) (records + 1)
             (add_count (m_stratum row) (length (m_tokens row)) strata) (out @ added))"

definition same_counts :: "(string \<times> nat) list \<Rightarrow> (string \<times> nat) list \<Rightarrow> bool" where
  "same_counts a b \<longleftrightarrow> list_all (\<lambda>k. map_of a k = map_of b k) (map fst a @ map fst b)"

definition collect_token_mixture :: "int option \<times> int option \<times> int option \<Rightarrow> int \<Rightarrow> nat \<Rightarrow> mixture_receipt
    \<Rightarrow> nat option \<Rightarrow> mixture_row list \<Rightarrow> pack_error + (int \<times> bool) list" where
  "collect_token_mixture specials vocab seq_len receipt resumed rows =
     (case specials of
        (Some bos, Some eos, Some pad) \<Rightarrow>
          let target = (\<Sum>(k, n)\<leftarrow>actual_target_tokens receipt. n);
              padded = ((target + seq_len - 1) div seq_len) * seq_len
          in bindE (mixture_loop bos eos pad vocab target padded (receipt_records receipt) resumed rows 1 0 []
               (if resumed = None then [(bos, False)] else [])) (\<lambda>(cursor, records, strata, out).
             if cursor \<noteq> target + 1 \<or> records \<noteq> receipt_records receipt
                \<or> \<not> same_counts strata (actual_target_tokens receipt) \<or> \<not> stream_matches receipt
             then Inl ReceiptDiffers
             else Inr (if resumed = None then out @ replicate (padded - target) (pad, False) else out))
      | _ \<Rightarrow> Inl NoSpecialTokens)"

section \<open>Training blocks\<close>

text \<open>
  The arrays of a prepared split beside its ids: the dtype checks of the constructor are the types
  here (an owner code is a byte, a semantic query a vector of the embedding's own type \<open>'q\<close>).
\<close>

record 'q block_dataset =
  b_ids :: "int list"
  b_seq_len :: nat
  b_supervision :: "bool list option"
  b_addresses :: "int list option"
  b_owner_ids :: "nat list option"
  b_queries :: "'q list option"
  b_query_mask :: "bool list option"
  block_indices :: "nat list"

definition slice :: "nat \<Rightarrow> nat \<Rightarrow> 'a list \<Rightarrow> 'a list" where
  "slice start stop xs = take (stop - start) (drop start xs)"

text \<open>\<open>(len(ids) - 1) // seq_len\<close>, with negative counts read as 0 by \<open>range\<close> and \<open>max\<close>\<close>

definition full_blocks :: "'a list \<Rightarrow> nat \<Rightarrow> nat" where
  "full_blocks ids seq_len = nat ((int (length ids) - 1) div int seq_len)"

definition aligned :: "nat \<Rightarrow> 'a list option \<Rightarrow> bool" where
  "aligned n xs \<longleftrightarrow> (case xs of None \<Rightarrow> True | Some ys \<Rightarrow> length ys = n)"

definition token_block_dataset :: "int list \<Rightarrow> nat \<Rightarrow> int list option \<Rightarrow> bool list option \<Rightarrow> nat list option
    \<Rightarrow> 'q list option \<Rightarrow> bool list option \<Rightarrow> pack_error + 'q block_dataset" where
  "token_block_dataset ids seq_len addresses supervision owners queries qmask =
     (if \<not> aligned (length ids) supervision \<or> \<not> aligned (length ids) addresses
         \<or> \<not> aligned (length ids) owners
         \<or> (queries \<noteq> None \<and> (\<not> aligned (length ids) queries \<or> qmask = None))
         \<or> \<not> aligned (length ids) qmask then Inl Misaligned
      else Inr \<lparr>b_ids = ids, b_seq_len = seq_len, b_supervision = supervision, b_addresses = addresses,
        b_owner_ids = owners, b_queries = queries, b_query_mask = qmask,
        block_indices = (case supervision of
            None \<Rightarrow> [0 ..< full_blocks ids seq_len]
          | Some m \<Rightarrow> filter (\<lambda>b. list_ex id (slice (b * seq_len + 1) ((b + 1) * seq_len + 1) m))
              [0 ..< full_blocks ids seq_len])\<rparr>)"

record exposure_supply =
  raw_packed_positions :: nat
  supply_full_blocks :: nat
  eligible_blocks :: nat
  zero_target_blocks_skipped :: nat
  trailing_target_positions :: nat
  usable_supervised_targets :: nat

definition exposure_supply_of :: "'q block_dataset \<Rightarrow> exposure_supply" where
  "exposure_supply_of ds =
     (let full = full_blocks (b_ids ds) (b_seq_len ds);
          end = 1 + full * b_seq_len ds
      in \<lparr>raw_packed_positions = length (b_ids ds), supply_full_blocks = full,
          eligible_blocks = length (block_indices ds),
          zero_target_blocks_skipped = full - length (block_indices ds),
          trailing_target_positions = length (b_ids ds) - end,
          usable_supervised_targets = (case b_supervision ds of
              None \<Rightarrow> full * b_seq_len ds
            | Some m \<Rightarrow> length (filter id (slice 1 end m)))\<rparr>)"

definition ignored_target :: int where
  "ignored_target = -100"

text \<open>\<open>numpy_block\<close>: inputs, targets with \<open>-100\<close> where the mask is off, addresses.\<close>

definition numpy_block :: "'q block_dataset \<Rightarrow> nat \<Rightarrow> int list \<times> int list \<times> int list option" where
  "numpy_block ds index =
     (let n = b_seq_len ds;
          start = (block_indices ds ! index) * n;
          vals = slice start (start + n + 1) (b_ids ds);
          targets = (case b_supervision ds of
              None \<Rightarrow> tl vals
            | Some m \<Rightarrow> map (\<lambda>(v, on). if on then v else ignored_target)
                (zip (tl vals) (slice (start + 1) (start + n + 1) m)))
      in (butlast vals, targets, map_option (slice start (start + n)) (b_addresses ds)))"

definition numpy_microblock :: "'q block_dataset \<Rightarrow> nat \<Rightarrow> (int list \<times> int list \<times> int list option)
    \<times> nat list option \<times> 'q list option \<times> bool list option" where
  "numpy_microblock ds index =
     (let n = b_seq_len ds;
          start = (block_indices ds ! index) * n
      in (numpy_block ds index, map_option (slice (start + 1) (start + n + 1)) (b_owner_ids ds),
          map_option (slice start (start + n)) (b_queries ds),
          map_option (slice start (start + n)) (b_query_mask ds)))"

section \<open>What a collected split is\<close>

definition offsets_aligned :: "tokenizer \<Rightarrow> bool" where
  "offsets_aligned tk \<longleftrightarrow> (\<forall>text. length (e_offsets (encode tk text)) = length (e_ids (encode tk text)))"

text \<open>The stream a split is cut from: every nonempty document, ended by \<open><eos>\<close>.\<close>

definition token_stream :: "tokenizer \<Rightarrow> int \<Rightarrow> rendered list \<Rightarrow> int list" where
  "token_stream tk eos ds = concat (map (\<lambda>d. e_ids (encode tk (r_text d)) @ [eos]) (filter (\<lambda>d. r_text d \<noteq> []) ds))"

definition split_aligned :: "split_limits \<Rightarrow> split_state \<Rightarrow> bool" where
  "split_aligned lim st \<longleftrightarrow> length (s_supervision st) = length (s_values st)
     \<and> (case s_addresses st of None \<Rightarrow> byte_table lim = None
        | Some a \<Rightarrow> byte_table lim \<noteq> None \<and> length a = length (s_values st))
     \<and> length (s_values st) \<le> max_tokens lim \<and> acquired st \<le> max_documents lim"

lemma address_pieces_length:
  "address_pieces n table_size before pieces = Inr out \<Longrightarrow> length out = length pieces"
  by (induction n table_size before pieces arbitrary: out rule: address_pieces.induct)
     (auto simp: Let_def split: sum.splits)

lemma supervision_length:
  "length offsets \<ge> n \<Longrightarrow> length (supervision_for_encoding d offsets n) = n"
  by (auto simp: supervision_for_encoding_def split: option.splits)

lemma collect_document_values:
  assumes "collect_document tk eos lim d st = Inr st'"
  shows "\<exists>n. n = min (length (e_ids (encode tk (r_text d)))) (max_tokens lim - length (s_values st) - 1)
    \<and> s_values st' = s_values st @ take n (e_ids (encode tk (r_text d))) @ [eos]
    \<and> truncated st' = truncated st + (if n < length (e_ids (encode tk (r_text d))) then 1 else 0)
    \<and> retained st' = retained st + 1 \<and> acquired st' = acquired st \<and> skipped st' = skipped st"
  using assms by (auto simp: collect_document_def Let_def)

lemma collect_document_aligned:
  assumes "collect_document tk eos lim d st = Inr st'" and "split_aligned lim st" and "offsets_aligned tk"
    and "1 < max_tokens lim - length (s_values st)"
  shows "split_aligned lim st'"
proof -
  let ?enc = "encode tk (r_text d)"
  let ?n = "min (length (e_ids ?enc)) (max_tokens lim - length (s_values st) - 1)"
  have sup: "length (supervision_for_encoding (Some d) (e_offsets ?enc) ?n) = ?n"
    using assms(3) by (intro supervision_length) (simp add: offsets_aligned_def)
  have "length (s_values st') = length (s_values st) + ?n + 1"
    using collect_document_values [OF assms(1)] by auto
  moreover have "length (s_supervision st') = length (s_supervision st) + ?n + 1"
    using assms(1) sup by (auto simp: collect_document_def Let_def)
  moreover have "acquired st' = acquired st" using collect_document_values [OF assms(1)] by auto
  moreover have "case s_addresses st' of None \<Rightarrow> byte_table lim = None
      | Some a \<Rightarrow> byte_table lim \<noteq> None \<and> length a = length (s_values st) + ?n + 1"
  proof (cases "s_addresses st")
    case None
    with assms(1,2) show ?thesis
      by (auto simp: collect_document_def Let_def split_aligned_def split: option.splits)
  next
    case (Some old)
    with assms(2) obtain t m where bt: "byte_table lim = Some (t, m)" and old: "length old = length (s_values st)"
      by (auto simp: split_aligned_def)
    from assms(1) Some bt obtain pieces new where p:
      "encoded_token_bytes tk (e_ids ?enc) (r_text d) = Inr pieces"
      "address_pieces m t [] (take ?n pieces) = Inr new" "s_addresses st' = Some (old @ new @ [0])"
      by (auto simp: collect_document_def Let_def)
    from p(1) have "length pieces = length (e_ids ?enc)"
      by (auto simp: encoded_token_bytes_def Let_def split: if_splits)
    with address_pieces_length [OF p(2)] have "length new = ?n" by simp
    with p(3) bt old show ?thesis by simp
  qed
  ultimately show ?thesis
    using assms(2,4) by (auto simp: split_aligned_def split: option.splits)
qed

lemma collect_loop_stops:
  "max_tokens lim \<le> length (s_values st) \<Longrightarrow> collect_loop tk eos lim ds st = Inr st"
  by (cases ds) simp_all

definition extends :: "tokenizer \<Rightarrow> int \<Rightarrow> rendered list \<Rightarrow> split_state \<Rightarrow> split_state \<Rightarrow> bool" where
  "extends tk eos ds st st' \<longleftrightarrow> (\<exists>chunk. s_values st' = s_values st @ chunk
     \<and> (chunk \<noteq> [] \<longrightarrow> last chunk = eos \<and> prefix (butlast chunk) (token_stream tk eos ds))
     \<and> (truncated st' = truncated st \<longrightarrow> prefix chunk (token_stream tk eos ds))
     \<and> truncated st \<le> truncated st' \<and> truncated st' \<le> truncated st + 1)"

lemma extends_refl: "s_values st' = s_values st \<Longrightarrow> truncated st' = truncated st \<Longrightarrow> extends tk eos ds st st'"
  by (simp add: extends_def)

lemma collect_loop_Cons:
  assumes "collect_loop tk eos lim (d # ds) st = Inr st'"
  obtains (stop) "st' = st"
  | (cut) "acquired st < max_documents lim" "st' = st\<lparr>acquired := acquired st + 1\<rparr>"
  | (skip) "acquired st < max_documents lim" "r_text d = []"
      "collect_loop tk eos lim ds (st\<lparr>acquired := acquired st + 1, skipped := skipped st + 1\<rparr>) = Inr st'"
  | (doc) st2 where "acquired st < max_documents lim" "r_text d \<noteq> []" "1 < max_tokens lim - length (s_values st)"
      "collect_document tk eos lim d (st\<lparr>acquired := acquired st + 1\<rparr>) = Inr st2"
      "collect_loop tk eos lim ds st2 = Inr st'"
proof (cases "acquired st < max_documents lim \<and> length (s_values st) < max_tokens lim")
  case False
  with assms have "st' = st" by simp
  then show thesis by (rule stop)
next
  case True
  show thesis
  proof (cases "r_text d = []")
    case empty: True
    with True assms show thesis by (intro skip) (simp_all add: Let_def)
  next
    case nonempty: False
    show thesis
    proof (cases "max_tokens lim - length (s_values st) \<le> 1")
      case last: True
      with True nonempty assms show thesis by (intro cut) (simp_all add: Let_def)
    next
      case False
      with True nonempty assms obtain st2 where
        "collect_document tk eos lim d (st\<lparr>acquired := acquired st + 1\<rparr>) = Inr st2"
        "collect_loop tk eos lim ds st2 = Inr st'" by (auto simp: Let_def)
      with True nonempty False show thesis by (intro doc) simp_all
    qed
  qed
qed

lemma collect_loop_extends:
  "collect_loop tk eos lim ds st = Inr st' \<Longrightarrow> extends tk eos ds st st'"
proof (induction ds arbitrary: st)
  case Nil
  then show ?case by (simp add: extends_refl)
next
  case (Cons d ds)
  let ?ids = "e_ids (encode tk (r_text d))"
  from Cons.prems show ?case
  proof (cases rule: collect_loop_Cons)
    case stop
    then show ?thesis by (simp add: extends_refl)
  next
    case cut
    then show ?thesis by (simp add: extends_refl)
  next
    case skip
    with Cons.IH [OF skip(3)] show ?thesis by (simp add: extends_def token_stream_def)
  next
    case (doc st2)
    from collect_document_values [OF doc(4)] obtain n where n:
      "n = min (length ?ids) (max_tokens lim - length (s_values st) - 1)"
      "s_values st2 = s_values st @ take n ?ids @ [eos]"
      "truncated st2 = truncated st + (if n < length ?ids then 1 else 0)" by auto
    have stream: "token_stream tk eos (d # ds) = ?ids @ [eos] @ token_stream tk eos ds"
      using doc(2) by (simp add: token_stream_def)
    show ?thesis
    proof (cases "n < length ?ids")
      case True
      with n doc(3) have "length (s_values st2) = max_tokens lim" by simp
      with doc(5) have "st' = st2" by (simp add: collect_loop_stops)
      with n True show ?thesis
        unfolding extends_def stream
        by (intro exI [of _ "take n ?ids @ [eos]"]) (simp add: take_is_prefix)
    next
      case False
      with n(1) have "take n ?ids = ?ids" by simp
      with n False have v: "s_values st2 = s_values st @ ?ids @ [eos]" "truncated st2 = truncated st" by simp_all
      from Cons.IH [OF doc(5)] obtain chunk where c: "s_values st' = s_values st2 @ chunk"
        "chunk \<noteq> [] \<longrightarrow> last chunk = eos \<and> prefix (butlast chunk) (token_stream tk eos ds)"
        "truncated st' = truncated st2 \<longrightarrow> prefix chunk (token_stream tk eos ds)"
        "truncated st2 \<le> truncated st'" "truncated st' \<le> truncated st2 + 1"
        by (auto simp: extends_def)
      with v show ?thesis
        unfolding extends_def stream
        by (intro exI [of _ "?ids @ [eos] @ chunk"]) (auto simp: butlast_append prefix_def)
    qed
  qed
qed

lemma collect_loop_aligned:
  assumes "offsets_aligned tk"
  shows "collect_loop tk eos lim ds st = Inr st' \<Longrightarrow> split_aligned lim st \<Longrightarrow> split_aligned lim st'
    \<and> acquired st' + retained st + skipped st \<le> acquired st + retained st' + skipped st' + 1
    \<and> retained st' + skipped st' + acquired st \<le> retained st + skipped st + acquired st'"
proof (induction ds arbitrary: st)
  case Nil
  then show ?case by simp
next
  case (Cons d ds)
  from Cons.prems(1) show ?case
  proof (cases rule: collect_loop_Cons)
    case stop
    with Cons.prems(2) show ?thesis by simp
  next
    case cut
    with Cons.prems(2) show ?thesis by (simp add: split_aligned_def split: option.splits)
  next
    case skip
    have "split_aligned lim (st\<lparr>acquired := acquired st + 1, skipped := skipped st + 1\<rparr>)"
      using Cons.prems(2) skip(1) by (simp add: split_aligned_def split: option.splits)
    from Cons.IH [OF skip(3) this] show ?thesis by simp
  next
    case (doc st2)
    have "split_aligned lim (st\<lparr>acquired := acquired st + 1\<rparr>)"
      using Cons.prems(2) doc(1) by (simp add: split_aligned_def split: option.splits)
    from collect_document_aligned [OF doc(4) this assms] doc(3) have "split_aligned lim st2" by simp
    from Cons.IH [OF doc(5) this] collect_document_values [OF doc(4)] show ?thesis by auto
  qed
qed

text \<open>
  A packed split is a faithful cut of its documents. The mask and the byte addresses have
  one entry per token, the token and document limits hold, and the ids are a prefix of the
  stream of documents, each followed by \<open><eos>\<close>, except that the last document may be cut to
  make room for its own \<open><eos>\<close>; at most one document is truncated and at most one is read and
  neither kept nor skipped.
\<close>

theorem collected_split_faithful:
  assumes "collect tk lim documents = Inr st" and "offsets_aligned tk" and "eos_id tk = Some eos"
  shows "split_aligned lim st
    \<and> (s_values st \<noteq> [] \<longrightarrow> last (s_values st) = eos \<and> prefix (butlast (s_values st)) (token_stream tk eos documents))
    \<and> (truncated st = 0 \<longrightarrow> prefix (s_values st) (token_stream tk eos documents))
    \<and> truncated st \<le> 1
    \<and> retained st + skipped st \<le> acquired st \<and> acquired st \<le> retained st + skipped st + 1"
proof -
  let ?st0 = "\<lparr>acquired = 0, retained = 0, skipped = 0, truncated = 0, s_values = [], s_supervision = [],
           s_addresses = (if byte_table lim = None then None else Some [])\<rparr> :: split_state"
  have loop: "collect_loop tk eos lim documents ?st0 = Inr st"
    using assms(1,3) by (simp add: collect_def)
  have "split_aligned lim ?st0" by (simp add: split_aligned_def)
  from collect_loop_aligned [OF assms(2) loop this]
  have a: "split_aligned lim st" "retained st + skipped st \<le> acquired st" "acquired st \<le> retained st + skipped st + 1"
    by simp_all
  from collect_loop_extends [OF loop] obtain chunk where "s_values st = chunk"
      "chunk \<noteq> [] \<longrightarrow> last chunk = eos \<and> prefix (butlast chunk) (token_stream tk eos documents)"
      "truncated st = 0 \<longrightarrow> prefix chunk (token_stream tk eos documents)" "truncated st \<le> 1"
    unfolding extends_def by auto
  with a show ?thesis by blast
qed


text \<open>A tokenizer for the example: one token per character, its byte the character's code.\<close>

definition char_tokenizer :: tokenizer where
  "char_tokenizer = \<lparr>encode = (\<lambda>t. \<lparr>e_ids = map (\<lambda>c. int (of_char c)) t,
       e_offsets = map (\<lambda>i. (int i, int i + 1)) [0 ..< length t]\<rparr>),
     token_bytes = (\<lambda>i. [word_of_int i]), eos_id = Some 0, utf8 = map (\<lambda>c. of_char c)\<rparr>"

theorem collected_split_faithful_witness:
  "let lim = \<lparr>max_documents = 9, max_tokens = 5, byte_table = None\<rparr>;
       docs = map (\<lambda>t. \<lparr>r_text = t, r_spans = [], r_loss_mode = ''all_tokens''\<rparr>) [''ab'', [], ''cd'', ''e'']
   in \<exists>st. collect char_tokenizer lim docs = Inr st \<and> s_values st = [97, 98, 0, 99, 0]
        \<and> truncated st = 1 \<and> skipped st = 1 \<and> split_aligned lim st \<and> truncated st \<le> 1"
proof -
  let ?lim = "\<lparr>max_documents = 9, max_tokens = 5, byte_table = None\<rparr>"
  let ?docs = "map (\<lambda>t. \<lparr>r_text = t, r_spans = [], r_loss_mode = ''all_tokens''\<rparr>) [''ab'', [], ''cd'', ''e'']"
  have run: "\<exists>st. collect char_tokenizer ?lim ?docs = Inr st \<and> s_values st = [97, 98, 0, 99, 0]
      \<and> truncated st = 1 \<and> skipped st = 1"
    by (simp add: collect_def char_tokenizer_def collect_document_def supervision_for_encoding_def Let_def
        upt_rec)
  have "offsets_aligned char_tokenizer" "eos_id char_tokenizer = Some 0"
    by (simp_all add: offsets_aligned_def char_tokenizer_def)
  with run collected_split_faithful [of char_tokenizer ?lim ?docs _ 0] show ?thesis
    unfolding Let_def by blast
qed

section \<open>The spool is a list\<close>

text \<open>What a spool holds: the values on disk, then those in memory.\<close>

definition spool_contents :: "'a spool \<Rightarrow> 'a list" where
  "spool_contents s = raw s @ buffer s"

definition spool_ok :: "'a spool \<Rightarrow> bool" where
  "spool_ok s \<longleftrightarrow> count s = length (spool_contents s) \<and> length (buffer s) < spool_limit"

lemma spool_append_contents [simp]: "spool_contents (spool_append xs s) = spool_contents s @ xs"
  by (simp add: spool_contents_def spool_append_def spool_flush_def Let_def)

lemma spool_append_ok: "spool_ok s \<Longrightarrow> spool_ok (spool_append xs s)"
  by (auto simp: spool_ok_def spool_append_def spool_flush_def spool_contents_def spool_limit_def Let_def)

lemma spool_appends:
  "spool_ok s \<Longrightarrow> spool_ok (fold spool_append xss s)
    \<and> spool_contents (fold spool_append xss s) = spool_contents s @ concat xss"
  by (induction xss arbitrary: s) (simp_all add: spool_append_ok)

lemma new_spool_ok: "spool_ok new_spool" "spool_contents new_spool = []"
  by (simp_all add: spool_ok_def new_spool_def spool_contents_def spool_limit_def)

lemma spool_finish_contents: "spool_ok s \<Longrightarrow> spool_finish s = (length (spool_contents s), spool_contents s)"
  by (auto simp: spool_finish_def spool_flush_def spool_ok_def spool_contents_def Let_def)

text \<open>
  The spool is a list on disk: whatever the sizes of the appended chunks, the finished array
  holds exactly the concatenation of what was appended, its header has the matching shape, and no
  more than the spool limit is ever kept in memory between two appends.
\<close>

theorem spool_is_list:
  "spool_finish (fold spool_append xss new_spool) = (length (concat xss), concat xss)
   \<and> length (buffer (fold spool_append xss new_spool)) < spool_limit
   \<and> count (fold spool_append xss new_spool) = length (concat xss)"
  using spool_appends [OF new_spool_ok(1), of xss] new_spool_ok(2)
  by (auto simp: spool_finish_contents spool_ok_def)

section \<open>A resumed mixture\<close>

definition row_chunk :: "mixture_row \<Rightarrow> (int \<times> bool) list" where
  "row_chunk row = map (\<lambda>v. (v, True)) (m_tokens row)"

text \<open>What a chunked run stores for the record of an index.\<close>

definition stored_record :: "int \<Rightarrow> int \<Rightarrow> nat \<Rightarrow> nat \<Rightarrow> nat \<times> mixture_row \<Rightarrow> (int \<times> bool) list" where
  "stored_record bos pad fill records_total = (\<lambda>(i, row). (if i = 0 then [(bos, False)] else []) @ row_chunk row
     @ (if i + 1 = records_total then replicate fill (pad, False) else []))"

lemma mixture_loop_modes:
  assumes "mixture_loop bos eos pad vocab target padded n None rows cursor records strata out
    = Inr (cursor', records', strata', out')"
  shows "out' = out @ concat (map row_chunk rows) \<and> records' = records + length rows
    \<and> cursor' = cursor + length (concat (map m_tokens rows))
    \<and> mixture_loop bos eos pad vocab target padded n (Some k) rows cursor records strata out2
       = Inr (cursor', records', strata', out2 @ concat (map (\<lambda>x. if k \<le> fst x
            then stored_record bos pad (padded - target) n x else []) (enumerate records rows)))"
  using assms
proof (induction rows arbitrary: cursor records strata out out2)
  case Nil
  then show ?case by simp
next
  case (Cons row rows)
  from Cons.prems have ok: "row_ok eos vocab target cursor row" by (auto split: if_splits)
  with Cons.prems have "mixture_loop bos eos pad vocab target padded n None rows (cursor + length (m_tokens row))
      (records + 1) (add_count (m_stratum row) (length (m_tokens row)) strata) (out @ row_chunk row)
      = Inr (cursor', records', strata', out')" by (simp add: row_chunk_def)
  from Cons.IH [OF this] ok show ?case
    by (simp add: stored_record_def row_chunk_def)
qed

lemma stored_from:
  "concat (map (\<lambda>x. if k \<le> fst x then f x else []) (enumerate r rows)) = concat (drop (k - r) (map f (enumerate r rows)))"
proof (induction rows arbitrary: r)
  case Nil
  then show ?case by simp
next
  case (Cons row rows)
  then show ?case by (cases "k \<le> r") (simp_all add: Suc_diff_Suc [symmetric] not_le)
qed

lemma stored_records_all:
  "rows \<noteq> [] \<Longrightarrow> r + length rows = n \<Longrightarrow> concat (map (stored_record bos pad fill n) (enumerate r rows))
     = (if r = 0 then [(bos, False)] else []) @ concat (map row_chunk rows) @ replicate fill (pad, False)"
proof (induction rows arbitrary: r)
  case Nil
  then show ?case by simp
next
  case (Cons row rows)
  then show ?case
    by (cases "rows = []"; cases rows) (auto simp: stored_record_def)
qed

lemma collect_token_mixtureE:
  assumes "collect_token_mixture specials vocab seq_len receipt None rows = Inr out"
  obtains bos eos pad strata where "specials = (Some bos, Some eos, Some pad)"
    "mixture_loop bos eos pad vocab (\<Sum>(k, n)\<leftarrow>actual_target_tokens receipt. n)
       (((\<Sum>(k, n)\<leftarrow>actual_target_tokens receipt. n) + seq_len - 1) div seq_len * seq_len)
       (receipt_records receipt) None rows 1 0 [] [(bos, False)]
     = Inr ((\<Sum>(k, n)\<leftarrow>actual_target_tokens receipt. n) + 1, receipt_records receipt, strata,
         (bos, False) # concat (map row_chunk rows))"
    "length (concat (map m_tokens rows)) = (\<Sum>(k, n)\<leftarrow>actual_target_tokens receipt. n)"
    "length rows = receipt_records receipt"
    "same_counts strata (actual_target_tokens receipt)" "stream_matches receipt"
    "out = (bos, False) # concat (map row_chunk rows) @ replicate
       ((((\<Sum>(k, n)\<leftarrow>actual_target_tokens receipt. n) + seq_len - 1) div seq_len) * seq_len
         - (\<Sum>(k, n)\<leftarrow>actual_target_tokens receipt. n)) (pad, False)"
proof -
  let ?t = "\<Sum>(k, n)\<leftarrow>actual_target_tokens receipt. n"
  let ?p = "((?t + seq_len - 1) div seq_len) * seq_len"
  obtain b e p where specials: "specials = (b, e, p)" by (cases specials)
  with assms obtain bos eos pad where sp: "specials = (Some bos, Some eos, Some pad)"
    by (cases b; cases e; cases p) (simp_all add: collect_token_mixture_def)
  with assms obtain c r strata o1 where loop: "mixture_loop bos eos pad vocab ?t ?p (receipt_records receipt)
      None rows 1 0 [] [(bos, False)] = Inr (c, r, strata, o1)"
    and ok: "c = ?t + 1" "r = receipt_records receipt" "same_counts strata (actual_target_tokens receipt)"
      "stream_matches receipt" "out = o1 @ replicate (?p - ?t) (pad, False)"
    by (auto simp: collect_token_mixture_def Let_def bindE_def split: sum.splits if_splits)
  from mixture_loop_modes [OF loop, of 0 "[]"] ok(1,2) have
    "o1 = (bos, False) # concat (map row_chunk rows)" "length rows = receipt_records receipt"
    "length (concat (map m_tokens rows)) = ?t" by simp_all
  note shape = this
  have loop': "mixture_loop bos eos pad vocab ?t ?p (receipt_records receipt) None rows 1 0 [] [(bos, False)]
      = Inr (?t + 1, receipt_records receipt, strata, (bos, False) # concat (map row_chunk rows))"
    using loop by (simp only: ok(1,2) shape(1))
  have out': "out = (bos, False) # concat (map row_chunk rows) @ replicate (?p - ?t) (pad, False)"
    by (simp only: ok(5) shape(1) append_Cons append_assoc)
  show thesis by (rule that [OF sp loop' shape(3,2) ok(3,4) out'])
qed

lemma padded_bounds:
  assumes "0 < (s::nat)"
  shows "t \<le> (t + s - 1) div s * s" "(t + s - 1) div s * s < t + s"
proof -
  have *: "(t + s - 1) div s * s + (t + s - 1) mod s = t + s - 1" by (rule div_mult_mod_eq)
  moreover have "(t + s - 1) mod s < s" using assms by simp
  ultimately show "t \<le> (t + s - 1) div s * s" "(t + s - 1) div s * s < t + s" using assms by linarith+
qed

text \<open>
  The packed mixture: one masked \<open><bos>\<close>, then the tokens of all rows in order and all
  supervised, exactly as many as the receipt declares, then less than one block of masked
  \<open><pad>\<close>, so that the targets after the first position fill whole blocks.
\<close>

theorem mixture_layout:
  assumes "collect_token_mixture specials vocab seq_len receipt None rows = Inr out" and "0 < seq_len"
  shows "\<exists>bos pad fill. out = (bos, False) # map (\<lambda>v. (v, True)) (concat (map m_tokens rows)) @ replicate fill (pad, False)
    \<and> fill < seq_len \<and> seq_len dvd (length out - 1)
    \<and> length (filter snd out) = (\<Sum>(k, n)\<leftarrow>actual_target_tokens receipt. n)
    \<and> length rows = receipt_records receipt"
  using assms(1)
proof (cases rule: collect_token_mixtureE)
  case (1 bos eos pad strata)
  let ?t = "\<Sum>(k, n)\<leftarrow>actual_target_tokens receipt. n"
  let ?fill = "((?t + seq_len - 1) div seq_len) * seq_len - ?t"
  have chunks: "concat (map row_chunk rows) = map (\<lambda>v. (v, True)) (concat (map m_tokens rows))"
    by (simp add: row_chunk_def [abs_def] map_concat comp_def)
  have out: "out = (bos, False) # map (\<lambda>v. (v, True)) (concat (map m_tokens rows)) @ replicate ?fill (pad, False)"
    using 1(7) by (simp only: chunks)
  have "length out - 1 = ((?t + seq_len - 1) div seq_len) * seq_len"
    using padded_bounds(1) [OF assms(2), of ?t] 1(3) by (simp only: out list.size length_append length_map length_replicate)
  then have "seq_len dvd (length out - 1)" by (simp only: dvd_triv_right)
  moreover have "?fill < seq_len" using padded_bounds [OF assms(2), of ?t] assms(2) by linarith
  moreover have "length (filter snd out) = ?t"
    using 1(3) by (simp only: out) (simp add: filter_map comp_def)
  ultimately show ?thesis using out 1(4) by blast
qed

text \<open>
  Resuming a chunked mixture is exact: the rows have stored records whose concatenation is
  what an unchunked run writes, and a run that finds the first \<open>k\<close> records stored succeeds and
  appends precisely the remaining ones.
\<close>

theorem mixture_resumes_exactly:
  assumes "collect_token_mixture specials vocab seq_len receipt None rows = Inr out" and "rows \<noteq> []"
  shows "\<exists>records. length records = length rows \<and> concat records = out
    \<and> (\<forall>k. collect_token_mixture specials vocab seq_len receipt (Some k) rows = Inr (concat (drop k records)))"
  using assms(1)
proof (cases rule: collect_token_mixtureE)
  case (1 bos eos pad strata)
  let ?t = "\<Sum>(k, n)\<leftarrow>actual_target_tokens receipt. n"
  let ?p = "((?t + seq_len - 1) div seq_len) * seq_len"
  let ?records = "map (stored_record bos pad (?p - ?t) (receipt_records receipt)) (enumerate 0 rows)"
  have "concat ?records = out"
    using stored_records_all [OF assms(2), of 0] 1(4,7) by simp
  moreover have "collect_token_mixture specials vocab seq_len receipt (Some k) rows = Inr (concat (drop k ?records))" for k
  proof -
    have "mixture_loop bos eos pad vocab ?t ?p (receipt_records receipt) (Some k) rows 1 0 [] []
        = Inr (?t + 1, receipt_records receipt, strata, concat (drop k ?records))"
      using mixture_loop_modes [OF 1(2), of k "[]", THEN conjunct2, THEN conjunct2, THEN conjunct2]
      by (simp only: stored_from append_Nil diff_zero)
    then show ?thesis using 1(1,5,6) by (simp add: collect_token_mixture_def Let_def)
  qed
  ultimately show ?thesis by (intro exI [of _ ?records]) simp
qed

text \<open>Two rows of five tokens in blocks of four: two padding positions.\<close>

definition example_receipt :: mixture_receipt where
  "example_receipt = \<lparr>actual_target_tokens = [(''a'', 2), (''b'', 4)], receipt_records = 2, stream_matches = True\<rparr>"

definition example_rows :: "mixture_row list" where
  "example_rows = [\<lparr>m_tokens = [5, 2], m_stratum = ''a''\<rparr>, \<lparr>m_tokens = [6, 7, 8, 2], m_stratum = ''b''\<rparr>]"

definition example_packed :: "(int \<times> bool) list" where
  "example_packed = [(1, False), (5, True), (2, True), (6, True), (7, True), (8, True), (2, True), (0, False), (0, False)]"

lemma example_mixture:
  "collect_token_mixture (Some 1, Some 2, Some 0) 10 4 example_receipt None example_rows = Inr example_packed"
  by code_simp

theorem mixture_layout_witness:
  "collect_token_mixture (Some 1, Some 2, Some 0) 10 4 example_receipt None example_rows = Inr example_packed
     \<and> 4 dvd (length example_packed - 1) \<and> length (filter snd example_packed) = 6"
proof -
  have "(\<Sum>(k, n)\<leftarrow>actual_target_tokens example_receipt. n) = 6" by (simp add: example_receipt_def)
  with mixture_layout [OF example_mixture] example_mixture show ?thesis by auto
qed

theorem mixture_resumes_exactly_witness:
  "\<exists>records. length records = 2 \<and>
     collect_token_mixture (Some 1, Some 2, Some 0) 10 4 example_receipt (Some 1) example_rows
       = Inr (concat (drop 1 records))"
proof -
  have rows: "example_rows \<noteq> []" "length example_rows = 2" by (simp_all add: example_rows_def)
  from mixture_resumes_exactly [OF example_mixture rows(1)] rows(2) show ?thesis by metis
qed

section \<open>What the training blocks hold\<close>

lemma slice_append: "a \<le> b \<Longrightarrow> b \<le> c \<Longrightarrow> slice a c xs = slice a b xs @ slice b c xs"
  using take_add [of "b - a" "c - b" "drop a xs"] by (simp add: slice_def)

lemma length_slice: "stop \<le> length xs \<Longrightarrow> start \<le> stop \<Longrightarrow> length (slice start stop xs) = stop - start"
  by (simp add: slice_def)

lemma set_slice: "set (slice start stop xs) \<subseteq> set xs"
  unfolding slice_def by (meson dual_order.trans set_drop_subset set_take_subset)

lemma full_blocks_nat: "0 < n \<Longrightarrow> full_blocks xs n = (length xs - 1) div n"
proof (cases "length xs")
  case 0
  assume "0 < n"
  with 0 show ?thesis by (simp add: full_blocks_def div_eq_minus1)
next
  case (Suc m)
  then show ?thesis by (simp add: full_blocks_def zdiv_int [symmetric])
qed

lemma full_blocks_fit:
  assumes "0 < n" and "b < full_blocks xs n"
  shows "(b + 1) * n + 1 \<le> length xs"
proof -
  have "(b + 1) * n \<le> (length xs - 1) div n * n"
    using assms by (intro mult_le_mono1) (simp add: full_blocks_nat)
  also have "\<dots> \<le> length xs - 1" by (rule div_times_less_eq_dividend)
  finally have "(b + 1) * n \<le> length xs - 1" .
  moreover have "0 < (b + 1) * n" using assms(1) by simp
  ultimately show ?thesis by linarith
qed

lemma masked_targets:
  "length vs = length ms \<Longrightarrow> ignored_target \<notin> set vs \<Longrightarrow>
     length (filter (\<lambda>v. v \<noteq> ignored_target) (map (\<lambda>(v, on). if on then v else ignored_target) (zip vs ms)))
       = length (filter id ms)"
  by (induction vs ms rule: list_induct2) auto

lemma block_sum:
  "length (filter id (slice 1 (1 + k * n) m)) = (\<Sum>b\<leftarrow>[0 ..< k]. length (filter id (slice (b * n + 1) ((b + 1) * n + 1) m)))"
proof (induction k)
  case 0
  then show ?case by (simp add: slice_def)
next
  case (Suc k)
  have "slice 1 (1 + Suc k * n) m = slice 1 (1 + k * n) m @ slice (k * n + 1) ((k + 1) * n + 1) m"
    using slice_append [of 1 "1 + k * n" "1 + Suc k * n" m] by (simp add: add.commute)
  with Suc show ?case by simp
qed

lemma sum_filter_positive:
  "(\<And>b. \<not> P b \<Longrightarrow> f b = (0::nat)) \<Longrightarrow> (\<Sum>b\<leftarrow>filter P xs. f b) = (\<Sum>b\<leftarrow>xs. f b)"
  by (induction xs) auto

lemma sum_by_index: "(\<Sum>i\<leftarrow>[0 ..< length xs]. f (xs ! i)) = (\<Sum>x\<leftarrow>xs. f x)"
proof -
  have "map (\<lambda>i. f (xs ! i)) [0 ..< length xs] = map f xs" by (rule nth_equalityI) simp_all
  then show ?thesis by simp
qed

definition target_count :: "'q block_dataset \<Rightarrow> nat \<Rightarrow> nat" where
  "target_count ds i = length (filter (\<lambda>v. v \<noteq> ignored_target) (fst (snd (numpy_block ds i))))"

lemma tl_slice: "tl (slice s (s + n + 1) xs) = slice (s + 1) (s + n + 1) xs"
  by (simp add: slice_def tl_take drop_Suc [symmetric] tl_drop)

lemma list_ex_length_filter: "list_ex id xs \<longleftrightarrow> 0 < length (filter id xs)"
  by (induction xs) auto

lemma numpy_block_shape:
  assumes "token_block_dataset ids n addresses supervision owners queries qmask = Inr ds" and "0 < n"
    and "i < length (block_indices ds)"
  shows "\<exists>b. b = block_indices ds ! i \<and> b < full_blocks ids n
    \<and> fst (numpy_block ds i) = slice (b * n) ((b + 1) * n) ids
    \<and> fst (snd (numpy_block ds i)) = (case supervision of
          None \<Rightarrow> slice (b * n + 1) ((b + 1) * n + 1) ids
        | Some m \<Rightarrow> map (\<lambda>(v, on). if on then v else ignored_target)
            (zip (slice (b * n + 1) ((b + 1) * n + 1) ids) (slice (b * n + 1) ((b + 1) * n + 1) m)))"
proof -
  let ?b = "block_indices ds ! i"
  have "?b \<in> set (block_indices ds)" using assms(3) by simp
  moreover have "set (block_indices ds) \<subseteq> {0 ..< full_blocks ids n}"
    using assms(1) by (auto simp: token_block_dataset_def split: if_splits option.splits)
  ultimately have b: "?b < full_blocks ids n" by auto
  have fit: "?b * n + n + 1 \<le> length ids" using full_blocks_fit [OF assms(2) b] by simp
  have ds: "b_ids ds = ids" "b_seq_len ds = n" "b_supervision ds = supervision"
    using assms(1) by (auto simp: token_block_dataset_def split: if_splits)
  have "butlast (slice (?b * n) (?b * n + n + 1) ids) = slice (?b * n) (?b * n + n) ids"
    using fit by (simp add: slice_def butlast_take)
  moreover have "?b * n + n = (?b + 1) * n" "?b * n + n + 1 = (?b + 1) * n + 1" by simp_all
  ultimately show ?thesis
    using b tl_slice [of "?b * n" n ids]
    by (intro exI [of _ ?b] conjI) (simp_all only: numpy_block_def Let_def ds fst_conv snd_conv refl)
qed

text \<open>
  What the trainer is promised is what it gets: the supervised targets that
  \<open>exposure_supply\<close> counts over the mask are exactly the targets other than \<open>-100\<close> that the blocks
  return, summed over one pass; skipped and eligible blocks make up the full blocks; and each
  returned block lies inside the arrays, with \<open>seq_len\<close> inputs and \<open>seq_len\<close> targets of which at
  least one is supervised.
\<close>

theorem exposure_supply_is_delivered:
  assumes "token_block_dataset ids n addresses supervision owners queries qmask = Inr ds" and "0 < n"
    and "ignored_target \<notin> set ids"
  shows "usable_supervised_targets (exposure_supply_of ds) = (\<Sum>i\<leftarrow>[0 ..< length (block_indices ds)]. target_count ds i)
    \<and> eligible_blocks (exposure_supply_of ds) + zero_target_blocks_skipped (exposure_supply_of ds) = full_blocks ids n
    \<and> (\<forall>i < length (block_indices ds). length (fst (numpy_block ds i)) = n
        \<and> length (fst (snd (numpy_block ds i))) = n \<and> 0 < target_count ds i)"
proof -
  define g where "g b = (case supervision of None \<Rightarrow> n
      | Some m \<Rightarrow> length (filter id (slice (b * n + 1) ((b + 1) * n + 1) m)))" for b
  have ds: "b_ids ds = ids" "b_seq_len ds = n" "b_supervision ds = supervision"
    and idx: "block_indices ds = filter (\<lambda>b. 0 < g b) [0 ..< full_blocks ids n]"
    and al: "aligned (length ids) supervision"
    using assms(1,2) by (auto simp: token_block_dataset_def g_def list_ex_length_filter split: if_splits option.splits)
  have block: "length (fst (numpy_block ds i)) = n \<and> length (fst (snd (numpy_block ds i))) = n
      \<and> target_count ds i = g (block_indices ds ! i)" if i: "i < length (block_indices ds)" for i
  proof -
    from numpy_block_shape [OF assms(1,2) i] obtain b where b: "b = block_indices ds ! i" "b < full_blocks ids n"
      "fst (numpy_block ds i) = slice (b * n) ((b + 1) * n) ids"
      "fst (snd (numpy_block ds i)) = (case supervision of
          None \<Rightarrow> slice (b * n + 1) ((b + 1) * n + 1) ids
        | Some m \<Rightarrow> map (\<lambda>(v, on). if on then v else ignored_target)
            (zip (slice (b * n + 1) ((b + 1) * n + 1) ids) (slice (b * n + 1) ((b + 1) * n + 1) m)))" by blast
    have fit: "(b + 1) * n + 1 \<le> length ids" by (rule full_blocks_fit [OF assms(2) b(2)])
    have len: "length (slice (b * n) ((b + 1) * n) ids) = n"
      "length (slice (b * n + 1) ((b + 1) * n + 1) ids) = n"
      using fit by (simp_all add: length_slice)
    have clean: "ignored_target \<notin> set (slice (b * n + 1) ((b + 1) * n + 1) ids)"
      using set_slice assms(3) by (rule contra_subsetD)
    show ?thesis
    proof (cases supervision)
      case None
      have "filter (\<lambda>v. v \<noteq> ignored_target) (slice (b * n + 1) ((b + 1) * n + 1) ids)
          = slice (b * n + 1) ((b + 1) * n + 1) ids" using clean by (intro filter_True) auto
      with None b len show ?thesis by (simp add: target_count_def g_def)
    next
      case (Some m)
      with al have "length (slice (b * n + 1) ((b + 1) * n + 1) m) = n"
        using fit by (simp add: aligned_def length_slice)
      with masked_targets [OF _ clean, of "slice (b * n + 1) ((b + 1) * n + 1) m"] Some b len show ?thesis
        by (simp add: target_count_def g_def)
    qed
  qed
  have "usable_supervised_targets (exposure_supply_of ds) = (\<Sum>b\<leftarrow>[0 ..< full_blocks ids n]. g b)"
  proof (cases supervision)
    case None
    then show ?thesis by (simp add: exposure_supply_of_def Let_def ds g_def sum_list_triv)
  next
    case (Some m)
    then show ?thesis
      by (simp only: exposure_supply_of_def Let_def ds g_def option.case exposure_supply.simps block_sum)
  qed
  also have "\<dots> = (\<Sum>b\<leftarrow>block_indices ds. g b)"
    unfolding idx by (rule sum_filter_positive [symmetric]) simp
  also have "\<dots> = (\<Sum>i\<leftarrow>[0 ..< length (block_indices ds)]. g (block_indices ds ! i))"
    by (rule sum_by_index [symmetric])
  also have "\<dots> = (\<Sum>i\<leftarrow>[0 ..< length (block_indices ds)]. target_count ds i)"
    using block by (intro arg_cong [where f = sum_list] map_cong) simp_all
  finally have total_count: "usable_supervised_targets (exposure_supply_of ds)
      = (\<Sum>i\<leftarrow>[0 ..< length (block_indices ds)]. target_count ds i)" .
  have "length (block_indices ds) \<le> full_blocks ids n"
    unfolding idx using length_filter_le [of _ "[0 ..< full_blocks ids n]"] by simp
  then have "eligible_blocks (exposure_supply_of ds) + zero_target_blocks_skipped (exposure_supply_of ds) = full_blocks ids n"
    by (simp add: exposure_supply_of_def Let_def ds)
  moreover have "0 < target_count ds i" if "i < length (block_indices ds)" for i
    using block [OF that] nth_mem [OF that] by (auto simp: idx)
  ultimately show ?thesis using total_count block by blast
qed

theorem exposure_supply_is_delivered_witness:
  "let ds = (case token_block_dataset [1, 5, 6, 2, 7, 8, 2] 2 None
                    (Some [False, False, False, True, False, True, True]) None None None of Inr d \<Rightarrow> d)
            :: nat block_dataset
   in block_indices ds = [1, 2] \<and> usable_supervised_targets (exposure_supply_of ds) = 3
      \<and> (\<Sum>i\<leftarrow>[0 ..< 2]. target_count ds i) = 3"
proof -
  let ?d = "token_block_dataset [1, 5, 6, 2, 7, 8, 2] 2 None
      (Some [False, False, False, True, False, True, True]) None None None :: pack_error + nat block_dataset"
  obtain ds where ds: "?d = Inr ds" "block_indices ds = [1, 2]"
      "usable_supervised_targets (exposure_supply_of ds) = 3"
    by (simp add: token_block_dataset_def aligned_def full_blocks_def slice_def upt_rec exposure_supply_of_def
        numeral_eq_Suc Let_def)
  have clean: "ignored_target \<notin> set [1, 5, 6, 2, 7, 8, 2]" by (simp add: ignored_target_def)
  from exposure_supply_is_delivered [OF ds(1) _ clean] ds show ?thesis by (simp add: Let_def numeral_eq_Suc)
qed

end
