(* ===== verification/Leases.thy ===== *)
theory Leases
  imports Lab_Prelude
begin

text \<open>
  \<open>src/sparselab/workers/leases.py\<close>: host-wide leases of worker slots and accelerators. A lease
  is a handful of \<open>flock\<close>s: an exclusive lock on the worker's slot, and for an accelerator a
  shared lock on the host gate with an exclusive lock on the device, or, when the device has no
  reported identity, an exclusive lock on the gate.

  The operating system's side is modelled as documented in \<open>flock(2)\<close>: a lock belongs to an open
  file description, a description lives as long as some process has a descriptor for it, and a
  shared lock is compatible with shared locks only. Processes enter as owners of copies of a
  lease: a staging child inherits the descriptors of its parent and closes its own copies. The
  heartbeat rewrites the content of the locked file in place and is left out, as are process
  identities; strings are lists of characters.

  On the host the processes interleave: an acquisition takes its locks one \<open>flock\<close> after the other, and an acquisition that
  fails and a lease that is closed release theirs one after the other, with steps of other processes in between.
\<close>

section \<open>Keys\<close>

definition lock_safe :: "char \<Rightarrow> bool" where
  "lock_safe c \<longleftrightarrow> is_alnum c \<or> c \<in> set ''_.-''"

text \<open>\<open>_SAFE_LOCK.sub("_", raw)\<close>: every maximal run of other characters becomes one underscore.\<close>

function lock_sub :: "string \<Rightarrow> string" where
  "lock_sub [] = []"
| "lock_sub (c # cs) = (if lock_safe c then c # lock_sub cs
     else CHR ''_'' # lock_sub (dropWhile (\<lambda>x. \<not> lock_safe x) cs))"
  by pat_completeness auto
termination
  by (relation "measure length") (auto simp: less_Suc_eq_le length_dropWhile_le)

definition accelerator_gate :: string where
  "accelerator_gate = ''accelerator-host-wide''"

record lease_request =
  worker_id :: string
  backend :: string
  device :: "string option" \<comment> \<open>\<open>physical_device_id\<close>\<close>

text \<open>An empty identity is as unknown as none.\<close>

definition known_device :: "lease_request \<Rightarrow> bool" where
  "known_device r \<longleftrightarrow> device r \<noteq> None \<and> device r \<noteq> Some []"

definition lease_key :: "lease_request \<Rightarrow> string" where
  "lease_key r = lock_sub (
     if backend r = ''cpu'' then ''worker-'' @ worker_id r
     else if known_device r then
       (if backend r \<in> {''mps'', ''metal''} then ''physical-apple-metal'' else ''physical-'' @ the (device r))
     else accelerator_gate)"

definition slot_key :: "lease_request \<Rightarrow> string" where
  "slot_key r = lease_key \<lparr>worker_id = worker_id r, backend = ''cpu'', device = None\<rparr>"

section \<open>Descriptions and locks\<close>

datatype lock_mode = Shared | Exclusive

definition compatible :: "lock_mode \<Rightarrow> lock_mode \<Rightarrow> bool" where
  "compatible a b \<longleftrightarrow> a = Shared \<and> b = Shared"

record description =
  d_file :: string
  d_mode :: lock_mode
  d_refs :: nat

record lock_world =
  descs :: "nat \<Rightarrow> description option"
  next_id :: nat

definition blocked :: "lock_world \<Rightarrow> string \<Rightarrow> lock_mode \<Rightarrow> bool" where
  "blocked w k m \<longleftrightarrow> list_ex (\<lambda>i. case descs w i of None \<Rightarrow> False
     | Some d \<Rightarrow> d_file d = k \<and> \<not> compatible (d_mode d) m) [0 ..< next_id w]"

text \<open>\<open>take\<close>: open the lock file, lock the new description or close it again.\<close>

definition take_lock :: "lock_world \<Rightarrow> string \<Rightarrow> lock_mode \<Rightarrow> (nat \<times> lock_world) option" where
  "take_lock w k m = (if blocked w k m then None
     else Some (next_id w, w\<lparr>descs := (descs w)(next_id w := Some \<lparr>d_file = k, d_mode = m, d_refs = 1\<rparr>),
       next_id := next_id w + 1\<rparr>))"

definition drop_ref :: "description option \<Rightarrow> description option" where
  "drop_ref x = (case x of None \<Rightarrow> None
     | Some d \<Rightarrow> if d_refs d \<le> 1 then None else Some (d\<lparr>d_refs := d_refs d - 1\<rparr>))"

definition close_fd :: "nat \<Rightarrow> lock_world \<Rightarrow> lock_world" where
  "close_fd i w = w\<lparr>descs := (descs w)(i := drop_ref (descs w i))\<rparr>"

definition inherit_fd :: "nat \<Rightarrow> lock_world \<Rightarrow> lock_world" where
  "inherit_fd i w = w\<lparr>descs := (descs w)(i := map_option (\<lambda>d. d\<lparr>d_refs := d_refs d + 1\<rparr>) (descs w i))\<rparr>"

section \<open>Acquiring and closing a lease\<close>

record device_lease =
  l_key :: string
  l_fd :: "nat option" \<comment> \<open>\<open>None\<close> for -1, after closing\<close>
  l_gate :: "nat option"
  l_slot :: "nat option"

definition inherited_fds :: "device_lease \<Rightarrow> nat list" where
  "inherited_fds l = List.map_filter id [l_fd l, l_gate l, l_slot l]"

text \<open>The locks of a request, in the order in which \<open>acquire_lease\<close> takes them.\<close>

definition lock_order :: "lease_request \<Rightarrow> (string \<times> lock_mode) list" where
  "lock_order r = (slot_key r, Exclusive) #
     (if backend r = ''cpu'' then []
      else if known_device r then [(accelerator_gate, Shared), (lease_key r, Exclusive)]
      else [(accelerator_gate, Exclusive)])"

text \<open>Locks are taken one after the other; when one is busy those held are closed in reverse.\<close>

fun take_all :: "lock_world \<Rightarrow> nat list \<Rightarrow> (string \<times> lock_mode) list \<Rightarrow> nat list option \<times> lock_world" where
  "take_all w held [] = (Some held, w)"
| "take_all w held ((k, m) # rest) = (case take_lock w k m of
      None \<Rightarrow> (None, fold close_fd (rev held) w)
    | Some (i, w') \<Rightarrow> take_all w' (held @ [i]) rest)"

fun lease_of :: "lease_request \<Rightarrow> nat list \<Rightarrow> device_lease" where
  "lease_of r [slot] = \<lparr>l_key = lease_key r, l_fd = Some slot, l_gate = None, l_slot = None\<rparr>"
| "lease_of r [slot, gate] = \<lparr>l_key = lease_key r, l_fd = Some gate, l_gate = None, l_slot = Some slot\<rparr>"
| "lease_of r (slot # gate # dev # _) = \<lparr>l_key = lease_key r, l_fd = Some dev, l_gate = Some gate, l_slot = Some slot\<rparr>"
| "lease_of r [] = \<lparr>l_key = lease_key r, l_fd = None, l_gate = None, l_slot = None\<rparr>"

definition acquire_lease :: "lock_world \<Rightarrow> lease_request \<Rightarrow> device_lease option \<times> lock_world" where
  "acquire_lease w r = (case take_all w [] (lock_order r) of
     (None, w') \<Rightarrow> (None, w') | (Some held, w') \<Rightarrow> (Some (lease_of r held), w'))"

definition close_lease :: "device_lease \<Rightarrow> lock_world \<Rightarrow> device_lease \<times> lock_world" where
  "close_lease l w = (l\<lparr>l_fd := None, l_gate := None, l_slot := None\<rparr>, fold close_fd (inherited_fds l) w)"

section \<open>The host\<close>

text \<open>
  Every process that has a copy of a lease's descriptors is an owner. An acquisition under way holds the descriptions of the
  locks it has taken so far; when a lock is busy, or on any other error, it releases them from the last one on. An owner that
  closes its copy releases the descriptors in their order.
\<close>

datatype phase = Taking | Releasing

record host =
  locks :: lock_world
  owners :: "(lease_request \<times> device_lease) list"
  underway :: "(lease_request \<times> phase \<times> nat list) list"

definition idle_host :: host where
  "idle_host = \<lparr>locks = \<lparr>descs = (\<lambda>_. None), next_id = 0\<rparr>, owners = [], underway = []\<rparr>"

inductive lease_step :: "host \<Rightarrow> host \<Rightarrow> bool" where
  begun: "lease_step s \<lparr>locks = locks s, owners = owners s, underway = (r, Taking, []) # underway s\<rparr>"
| taken: "underway s = xs @ (r, Taking, held) # ys \<Longrightarrow> length held < length (lock_order r) \<Longrightarrow> lock_order r ! length held = (k, m) \<Longrightarrow>
    take_lock (locks s) k m = Some (i, w) \<Longrightarrow>
    lease_step s \<lparr>locks = w, owners = owners s, underway = xs @ (r, Taking, held @ [i]) # ys\<rparr>"
| granted: "underway s = xs @ (r, Taking, held) # ys \<Longrightarrow> length held = length (lock_order r) \<Longrightarrow>
    lease_step s \<lparr>locks = locks s, owners = (r, lease_of r held) # owners s, underway = xs @ ys\<rparr>"
| failed: "underway s = xs @ (r, Taking, held) # ys \<Longrightarrow>
    lease_step s \<lparr>locks = locks s, owners = owners s, underway = xs @ (r, Releasing, held) # ys\<rparr>"
| released: "underway s = xs @ (r, Releasing, held @ [i]) # ys \<Longrightarrow>
    lease_step s \<lparr>locks = close_fd i (locks s), owners = owners s, underway = xs @ (r, Releasing, held) # ys\<rparr>"
| ended: "underway s = xs @ (r, Releasing, []) # ys \<Longrightarrow>
    lease_step s \<lparr>locks = locks s, owners = owners s, underway = xs @ ys\<rparr>"
| inherited: "(r, l) \<in> set (owners s) \<Longrightarrow>
    lease_step s \<lparr>locks = fold inherit_fd (inherited_fds l) (locks s), owners = (r, l) # owners s, underway = underway s\<rparr>"
| closed: "owners s = xs @ (r, l) # ys \<Longrightarrow>
    lease_step s \<lparr>locks = locks s, owners = xs @ ys, underway = (r, Releasing, rev (inherited_fds l)) # underway s\<rparr>"

inductive reachable_host :: "host \<Rightarrow> bool" where
  idle: "reachable_host idle_host"
| moved: "reachable_host s \<Longrightarrow> lease_step s s' \<Longrightarrow> reachable_host s'"

inductive_cases lease_stepE: "lease_step s s'"

text \<open>What the leases mean: which requests may not hold leases at the same time.\<close>

definition accelerated :: "lease_request \<Rightarrow> bool" where
  "accelerated r \<longleftrightarrow> backend r \<noteq> ''cpu''"

definition conflicting :: "lease_request \<Rightarrow> lease_request \<Rightarrow> bool" where
  "conflicting r q \<longleftrightarrow> slot_key r = slot_key q
     \<or> (accelerated r \<and> accelerated q
        \<and> (\<not> known_device r \<or> \<not> known_device q \<or> lease_key r = lease_key q))"

section \<open>Uninterrupted runs\<close>

text \<open>Without other processes in between the steps are \<open>acquire_lease\<close> and \<open>close_lease\<close>.\<close>

lemma reachable_star: "lease_step\<^sup>*\<^sup>* s s' \<Longrightarrow> reachable_host s \<Longrightarrow> reachable_host s'"
  by (induction rule: rtranclp_induct) (auto intro: reachable_host.moved)

lemma releasing_run:
  "lease_step\<^sup>*\<^sup>* \<lparr>locks = w, owners = os, underway = (r, Releasing, held) # us\<rparr> \<lparr>locks = fold close_fd (rev held) w, owners = os, underway = us\<rparr>"
proof (induction held arbitrary: w rule: rev_induct)
  case Nil
  have "lease_step \<lparr>locks = w, owners = os, underway = (r, Releasing, []) # us\<rparr> \<lparr>locks = w, owners = os, underway = us\<rparr>"
    using lease_step.ended [of "\<lparr>locks = w, owners = os, underway = (r, Releasing, []) # us\<rparr>" "[]" r us] by simp
  then show ?case by simp
next
  case (snoc i held)
  have "lease_step \<lparr>locks = w, owners = os, underway = (r, Releasing, held @ [i]) # us\<rparr>
      \<lparr>locks = close_fd i w, owners = os, underway = (r, Releasing, held) # us\<rparr>"
    using lease_step.released [of "\<lparr>locks = w, owners = os, underway = (r, Releasing, held @ [i]) # us\<rparr>" "[]" r held i us] by simp
  from converse_rtranclp_into_rtranclp [OF this snoc.IH] show ?case by simp
qed

lemma taking_run:
  assumes "take_all w held qs = (x, w')" and "lock_order r = before @ qs" and "length before = length held"
  shows "lease_step\<^sup>*\<^sup>* \<lparr>locks = w, owners = os, underway = (r, Taking, held) # us\<rparr>
    (case x of None \<Rightarrow> \<lparr>locks = w', owners = os, underway = us\<rparr> | Some ids \<Rightarrow> \<lparr>locks = w', owners = (r, lease_of r ids) # os, underway = us\<rparr>)"
  using assms
proof (induction qs arbitrary: w held before)
  case Nil
  then have "lease_step \<lparr>locks = w, owners = os, underway = (r, Taking, held) # us\<rparr> \<lparr>locks = w, owners = (r, lease_of r held) # os, underway = us\<rparr>"
    using lease_step.granted [of "\<lparr>locks = w, owners = os, underway = (r, Taking, held) # us\<rparr>" "[]" r held us] by simp
  with Nil.prems(1) show ?case by auto
next
  case (Cons q qs)
  obtain k m where q: "q = (k, m)" by (cases q)
  let ?s = "\<lparr>locks = w, owners = os, underway = (r, Taking, held) # us\<rparr>"
  show ?case
  proof (cases "take_lock w k m")
    case None
    have "lease_step ?s \<lparr>locks = w, owners = os, underway = (r, Releasing, held) # us\<rparr>"
      using lease_step.failed [of ?s "[]" r held us] by simp
    from converse_rtranclp_into_rtranclp [OF this releasing_run] None Cons.prems(1) q show ?thesis by auto
  next
    case (Some y)
    obtain i w1 where y: "y = (i, w1)" by (cases y)
    have "lease_step ?s \<lparr>locks = w1, owners = os, underway = (r, Taking, held @ [i]) # us\<rparr>"
      using lease_step.taken [of ?s "[]" r held us k m i w1] Cons.prems(2) q Some y by (simp add: Cons.prems(3) [symmetric])
    moreover have "take_all w1 (held @ [i]) qs = (x, w')" using Cons.prems(1) q Some y by simp
    from Cons.IH [OF this, of "before @ [q]"] Cons.prems(2,3)
    have "lease_step\<^sup>*\<^sup>* \<lparr>locks = w1, owners = os, underway = (r, Taking, held @ [i]) # us\<rparr>
      (case x of None \<Rightarrow> \<lparr>locks = w', owners = os, underway = us\<rparr> | Some ids \<Rightarrow> \<lparr>locks = w', owners = (r, lease_of r ids) # os, underway = us\<rparr>)" by simp
    ultimately show ?thesis by (rule converse_rtranclp_into_rtranclp)
  qed
qed

lemma acquire_run:
  assumes "acquire_lease (locks s) r = (x, w)"
  shows "lease_step\<^sup>*\<^sup>* s \<lparr>locks = w, owners = (case x of None \<Rightarrow> owners s | Some l \<Rightarrow> (r, l) # owners s), underway = underway s\<rparr>"
proof -
  obtain y where y: "take_all (locks s) [] (lock_order r) = (y, w)" "x = map_option (lease_of r) y"
    using assms by (auto simp: acquire_lease_def split: prod.splits option.splits)
  from taking_run [OF y(1), of r "[]" "owners s" "underway s"]
  have "lease_step\<^sup>*\<^sup>* \<lparr>locks = locks s, owners = owners s, underway = (r, Taking, []) # underway s\<rparr>
      \<lparr>locks = w, owners = (case x of None \<Rightarrow> owners s | Some l \<Rightarrow> (r, l) # owners s), underway = underway s\<rparr>"
    by (cases y) (simp_all add: y(2))
  with lease_step.begun [of s r] show ?thesis by (rule converse_rtranclp_into_rtranclp)
qed

lemma close_run:
  assumes "owners s = xs @ (r, l) # ys"
  shows "lease_step\<^sup>*\<^sup>* s \<lparr>locks = snd (close_lease l (locks s)), owners = xs @ ys, underway = underway s\<rparr>"
  using converse_rtranclp_into_rtranclp [OF lease_step.closed [OF assms] releasing_run] by (simp add: close_lease_def)

section \<open>The keys of one request are different files\<close>

lemma lock_sub_word: "list_all lock_safe xs \<Longrightarrow> lock_sub (xs @ ys) = xs @ lock_sub ys"
  by (induction xs) simp_all

lemma lock_sub_safe: "list_all lock_safe (lock_sub xs)"
  by (induction xs rule: lock_sub.induct) (auto simp: lock_safe_def)

lemma lock_sub_id: "list_all lock_safe xs \<Longrightarrow> lock_sub xs = xs"
  using lock_sub_word [of xs "[]"] by simp

lemma slot_key_eq: "slot_key r = ''worker-'' @ lock_sub (worker_id r)"
proof -
  have "list_all lock_safe ''worker-''" by code_simp
  from lock_sub_word [OF this] show ?thesis by (simp add: slot_key_def lease_key_def)
qed

lemma device_key_prefix:
  assumes "accelerated r" and "known_device r"
  shows "\<exists>rest. lease_key r = ''physical-'' @ rest"
proof -
  have safe: "list_all lock_safe ''physical-''" by code_simp
  have "lease_key r = lock_sub (''physical-'' @ (if backend r \<in> {''mps'', ''metal''} then ''apple-metal'' else the (device r)))"
    using assms by (simp add: lease_key_def accelerated_def)
  then show ?thesis unfolding lock_sub_word [OF safe] by blast
qed

lemma cpu_lease_key: "\<not> accelerated r \<Longrightarrow> lease_key r = slot_key r"
  by (simp add: lease_key_def slot_key_def accelerated_def)

lemma unknown_lease_key: "accelerated r \<Longrightarrow> \<not> known_device r \<Longrightarrow> lease_key r = accelerator_gate"
proof -
  have "list_all lock_safe accelerator_gate" unfolding accelerator_gate_def by code_simp
  from lock_sub_id [OF this] show "accelerated r \<Longrightarrow> \<not> known_device r \<Longrightarrow> lease_key r = accelerator_gate"
    by (simp add: lease_key_def accelerated_def)
qed

lemma gate_not_slot: "accelerator_gate \<noteq> slot_key r" "slot_key r \<noteq> accelerator_gate"
  by (simp_all add: slot_key_eq accelerator_gate_def)

lemma device_not_slot:
  assumes "accelerated r" and "known_device r"
  shows "lease_key r \<noteq> slot_key q" "lease_key r \<noteq> accelerator_gate"
  using device_key_prefix [OF assms] by (auto simp: slot_key_eq accelerator_gate_def)

section \<open>The invariant of the host\<close>

definition view :: "lock_world \<Rightarrow> nat \<Rightarrow> (string \<times> lock_mode) option" where
  "view w i = map_option (\<lambda>d. (d_file d, d_mode d)) (descs w i)"

definition holders :: "(lease_request \<times> device_lease) list \<Rightarrow> nat \<Rightarrow> nat" where
  "holders os i = length (filter (\<lambda>(r, l). i \<in> set (inherited_fds l)) os)"

definition held_by :: "(lease_request \<times> phase \<times> nat list) list \<Rightarrow> nat \<Rightarrow> nat" where
  "held_by us i = length (filter (\<lambda>(r, p, held). i \<in> set held) us)"

lemma holders_simps [simp]:
  "holders [] i = 0" "holders ((r, l) # os) i = (if i \<in> set (inherited_fds l) then 1 else 0) + holders os i"
  "holders (os @ os') i = holders os i + holders os' i"
  by (simp_all add: holders_def)

lemma held_by_simps [simp]:
  "held_by [] i = 0" "held_by ((r, p, held) # us) i = (if i \<in> set held then 1 else 0) + held_by us i"
  "held_by (us @ us') i = held_by us i + held_by us' i"
  by (simp_all add: held_by_def)

lemma holders_0: "holders os i = 0 \<longleftrightarrow> (\<forall>(r, l) \<in> set os. i \<notin> set (inherited_fds l))"
  by (auto simp: holders_def filter_empty_conv)

lemma held_by_pos: "(r, p, held) \<in> set us \<Longrightarrow> i \<in> set held \<Longrightarrow> held_by us i \<noteq> 0"
  by (induction us) auto

lemma held_by_0: "held_by us i = 0 \<longleftrightarrow> (\<forall>(r, p, held) \<in> set us. i \<notin> set held)"
  by (auto simp: held_by_def filter_empty_conv)

definition world_ok :: "lock_world \<Rightarrow> bool" where
  "world_ok w \<longleftrightarrow> (\<forall>i d. descs w i = Some d \<longrightarrow> i < next_id w)
     \<and> (\<forall>i j d e. descs w i = Some d \<longrightarrow> descs w j = Some e \<longrightarrow> i \<noteq> j \<longrightarrow> d_file d = d_file e
          \<longrightarrow> compatible (d_mode d) (d_mode e))"

definition refs_match :: "description option \<Rightarrow> nat \<Rightarrow> bool" where
  "refs_match x n \<longleftrightarrow> (case x of None \<Rightarrow> n = 0 | Some d \<Rightarrow> d_refs d = n \<and> 0 < n)"

lemma refs_match_simps [simp]:
  "refs_match None n \<longleftrightarrow> n = 0" "refs_match (Some d) n \<longleftrightarrow> d_refs d = n \<and> 0 < n"
  by (auto simp: refs_match_def)

text \<open>The references to a description; what an acquisition under way has taken is its own.\<close>

definition claims :: "host \<Rightarrow> nat \<Rightarrow> nat" where
  "claims s i = holders (owners s) i + held_by (underway s) i"

definition underway_ok :: "host \<Rightarrow> lease_request \<Rightarrow> phase \<Rightarrow> nat list \<Rightarrow> bool" where
  "underway_ok s r p held \<longleftrightarrow> distinct held \<and> (p = Taking \<longrightarrow>
     map (view (locks s)) held = map Some (take (length held) (lock_order r)) \<and> (\<forall>i \<in> set held. claims s i = 1))"

definition host_ok :: "host \<Rightarrow> bool" where
  "host_ok s \<longleftrightarrow> world_ok (locks s)
     \<and> (\<forall>i. refs_match (descs (locks s) i) (claims s i))
     \<and> (\<forall>(r, l) \<in> set (owners s). distinct (inherited_fds l)
          \<and> map (view (locks s)) (inherited_fds l) = map Some (rev (lock_order r)))
     \<and> (\<forall>(r, l) \<in> set (owners s). \<forall>(q, k) \<in> set (owners s).
          set (inherited_fds l) \<inter> set (inherited_fds k) \<noteq> {} \<longrightarrow> r = q \<and> l = k)
     \<and> (\<forall>(r, p, held) \<in> set (underway s). underway_ok s r p held)"

lemma blocked_iff:
  "world_ok w \<Longrightarrow> blocked w k m \<longleftrightarrow> (\<exists>i d. descs w i = Some d \<and> d_file d = k \<and> \<not> compatible (d_mode d) m)"
  unfolding blocked_def world_ok_def list_ex_iff
  by (force split: option.splits)

lemma compatible_sym: "compatible a b = compatible b a"
  by (auto simp: compatible_def)

lemma take_lock_Some:
  assumes "take_lock w k m = Some (i, w')" and "world_ok w"
  shows "i = next_id w" "next_id w' = Suc (next_id w)" "descs w i = None"
    "descs w' = (descs w)(i := Some \<lparr>d_file = k, d_mode = m, d_refs = 1\<rparr>)" "world_ok w'"
proof -
  from assms(1) have nb: "\<not> blocked w k m" and w': "i = next_id w"
    "w' = w\<lparr>descs := (descs w)(i := Some \<lparr>d_file = k, d_mode = m, d_refs = 1\<rparr>), next_id := next_id w + 1\<rparr>"
    by (auto simp: take_lock_def split: if_splits)
  from nb have free: "descs w j = Some d \<Longrightarrow> d_file d = k \<Longrightarrow> compatible (d_mode d) m" for j d
    using blocked_iff [OF assms(2)] by blast
  show "i = next_id w" "next_id w' = Suc (next_id w)"
    "descs w' = (descs w)(i := Some \<lparr>d_file = k, d_mode = m, d_refs = 1\<rparr>)" using w' by simp_all
  show "descs w i = None"
    using assms(2) w'(1) by (cases "descs w i") (auto simp: world_ok_def)
  show "world_ok w'"
    using assms(2) w' free compatible_sym unfolding world_ok_def by (auto simp: less_Suc_eq)
qed

lemma descs_fold_close:
  "distinct is \<Longrightarrow> descs (fold close_fd is w) i = (if i \<in> set is then drop_ref (descs w i) else descs w i)"
  by (induction "is" arbitrary: w) (auto simp: close_fd_def)

lemma next_id_fold_close [simp]: "next_id (fold close_fd is w) = next_id w"
  by (induction "is" arbitrary: w) (simp_all add: close_fd_def)

lemma descs_fold_inherit:
  "distinct is \<Longrightarrow> descs (fold inherit_fd is w) i
     = (if i \<in> set is then map_option (\<lambda>d. d\<lparr>d_refs := d_refs d + 1\<rparr>) (descs w i) else descs w i)"
  by (induction "is" arbitrary: w) (auto simp: inherit_fd_def)

lemma next_id_fold_inherit [simp]: "next_id (fold inherit_fd is w) = next_id w"
  by (induction "is" arbitrary: w) (simp_all add: inherit_fd_def)

text \<open>
  While a request takes its locks the table is the one it started from, plus a fresh unshared
  description for each lock held.
\<close>

definition holding :: "lock_world \<Rightarrow> nat list \<Rightarrow> (string \<times> lock_mode) list \<Rightarrow> lock_world \<Rightarrow> bool" where
  "holding base held qs w \<longleftrightarrow> world_ok w \<and> distinct held
     \<and> (\<forall>i. i \<notin> set held \<longrightarrow> descs w i = descs base i)
     \<and> (\<forall>i \<in> set held. descs base i = None)
     \<and> map (descs w) held = map (\<lambda>(k, m). Some \<lparr>d_file = k, d_mode = m, d_refs = 1\<rparr>) qs"

lemma holding_take:
  assumes "holding base held qs w" and "take_lock w k m = Some (i, w')"
  shows "holding base (held @ [i]) (qs @ [(k, m)]) w'"
proof -
  have ok: "world_ok w" using assms(1) by (simp add: holding_def)
  note t = take_lock_Some [OF assms(2) ok]
  have "j \<in> set held \<Longrightarrow> descs w j \<noteq> None" for j
  proof -
    assume "j \<in> set held"
    then have "descs w j \<in> set (map (descs w) held)" by simp
    then show ?thesis using assms(1) unfolding holding_def by auto
  qed
  with t(3) have new: "i \<notin> set held" by blast
  then have "map (descs w') held = map (descs w) held" unfolding t(4) by (intro map_cong) auto
  with assms(1) t new show ?thesis unfolding holding_def by auto
qed

lemma holding_close:
  assumes "holding base held qs w"
  shows "descs (fold close_fd (rev held) w) = descs base"
proof
  fix i
  have one: "drop_ref (descs w i) = None" if "i \<in> set held"
  proof -
    from that have "descs w i \<in> set (map (descs w) held)" by simp
    then show ?thesis using assms unfolding holding_def by (auto simp: drop_ref_def)
  qed
  show "descs (fold close_fd (rev held) w) i = descs base i"
    using assms one unfolding holding_def by (subst descs_fold_close) auto
qed

definition busy :: "lock_world \<Rightarrow> string \<times> lock_mode \<Rightarrow> bool" where
  "busy w = (\<lambda>(k, m). \<exists>i d. descs w i = Some d \<and> d_file d = k \<and> \<not> compatible (d_mode d) m)"

lemma holding_busy:
  assumes "holding base held qs w" and "k \<notin> fst ` set qs"
  shows "blocked w k m \<longleftrightarrow> busy base (k, m)"
proof -
  have ok: "world_ok w" using assms(1) by (simp add: holding_def)
  have other: "d_file d \<noteq> k" if "i \<in> set held" "descs w i = Some d" for i d
  proof -
    from that have "Some d \<in> set (map (descs w) held)" by force
    then show ?thesis using assms unfolding holding_def by (auto simp: image_iff)
  qed
  have "(\<exists>i d. descs w i = Some d \<and> d_file d = k \<and> \<not> compatible (d_mode d) m)
      \<longleftrightarrow> (\<exists>i d. descs base i = Some d \<and> d_file d = k \<and> \<not> compatible (d_mode d) m)"
    using assms(1) other unfolding holding_def by (metis option.distinct(1))
  with blocked_iff [OF ok] show ?thesis by (simp add: busy_def)
qed

lemma take_all_result:
  assumes "holding base held done w" and "distinct (map fst (done @ qs))"
  shows "case take_all w held qs of
      (None, w') \<Rightarrow> descs w' = descs base \<and> next_id w \<le> next_id w' \<and> (\<exists>q \<in> set qs. busy base q)
    | (Some ids, w') \<Rightarrow> holding base ids (done @ qs) w' \<and> next_id w \<le> next_id w' \<and> (\<forall>q \<in> set qs. \<not> busy base q)"
  using assms
proof (induction qs arbitrary: w held "done")
  case Nil
  then show ?case by simp
next
  case (Cons q qs)
  obtain k m where q: "q = (k, m)" by (cases q)
  have nk: "k \<notin> fst ` set done" using Cons.prems(2) q by auto
  note busy = holding_busy [OF Cons.prems(1) nk, of m]
  show ?case
  proof (cases "take_lock w k m")
    case None
    then have "busy base (k, m)" using busy by (simp add: take_lock_def split: if_splits)
    with None holding_close [OF Cons.prems(1)] q show ?thesis by auto
  next
    case (Some x)
    obtain i w1 where x: "x = (i, w1)" by (cases x)
    have t: "take_lock w k m = Some (i, w1)" using Some x by simp
    have "\<not> busy base (k, m)" using t busy by (auto simp: take_lock_def split: if_splits)
    moreover have "next_id w \<le> next_id w1"
      using t by (auto simp: take_lock_def split: if_splits)
    moreover have "case take_all w1 (held @ [i]) qs of
      (None, w') \<Rightarrow> descs w' = descs base \<and> next_id w1 \<le> next_id w' \<and> (\<exists>q \<in> set qs. busy base q)
    | (Some ids, w') \<Rightarrow> holding base ids ((done @ [(k, m)]) @ qs) w' \<and> next_id w1 \<le> next_id w' \<and> (\<forall>q \<in> set qs. \<not> busy base q)"
      using Cons.prems(2) q by (intro Cons.IH [OF holding_take [OF Cons.prems(1) t]]) simp
    ultimately show ?thesis using t q by (auto split: option.splits prod.splits)
  qed
qed

section \<open>Every step keeps the invariant\<close>

lemma lock_order_distinct: "distinct (map fst (lock_order r))"
  using device_not_slot [of r] gate_not_slot [of r] device_not_slot(1) [of r r, THEN not_sym]
  by (auto simp: lock_order_def accelerated_def)

lemma lock_order_length: "length (lock_order r) \<in> {1, 2, 3}"
  by (simp add: lock_order_def)

lemma lease_of_fds:
  "length ids = length (lock_order r) \<Longrightarrow> inherited_fds (lease_of r ids) = rev ids \<and> l_key (lease_of r ids) = lease_key r"
  using lock_order_length [of r]
  by (cases ids; cases "tl ids"; cases "tl (tl ids)") (auto simp: inherited_fds_def map_filter_simps)

lemma holding_self: "world_ok w \<Longrightarrow> holding w [] [] w"
  by (simp add: holding_def)

lemma acquire_cases:
  assumes "world_ok w"
  obtains (refused) w' where "acquire_lease w r = (None, w')" "descs w' = descs w" "next_id w \<le> next_id w'"
      "\<exists>q \<in> set (lock_order r). busy w q"
  | (granted) ids w' where "acquire_lease w r = (Some (lease_of r ids), w')" "holding w ids (lock_order r) w'"
      "\<forall>q \<in> set (lock_order r). \<not> busy w q" "inherited_fds (lease_of r ids) = rev ids"
proof -
  have result: "case take_all w [] (lock_order r) of
      (None, w') \<Rightarrow> descs w' = descs w \<and> next_id w \<le> next_id w' \<and> (\<exists>q \<in> set (lock_order r). busy w q)
    | (Some ids, w') \<Rightarrow> holding w ids (lock_order r) w' \<and> next_id w \<le> next_id w' \<and> (\<forall>q \<in> set (lock_order r). \<not> busy w q)"
    using take_all_result [OF holding_self [OF assms], of "lock_order r", unfolded append_Nil, OF lock_order_distinct] .
  obtain x w' where t: "take_all w [] (lock_order r) = (x, w')" by fastforce
  show thesis
  proof (cases x)
    case None
    with result t show thesis by (intro refused [of w']) (simp_all add: acquire_lease_def)
  next
    case (Some ids)
    with result t have h: "holding w ids (lock_order r) w'" "\<forall>q \<in> set (lock_order r). \<not> busy w q" by simp_all
    then have "length ids = length (lock_order r)" unfolding holding_def by (metis length_map)
    with h Some t show thesis by (intro granted [of ids w']) (simp_all add: acquire_lease_def lease_of_fds)
  qed
qed

lemma host_ok_owner:
  assumes "host_ok s" and "(r, l) \<in> set (owners s)"
  shows "distinct (inherited_fds l)" "map (view (locks s)) (inherited_fds l) = map Some (rev (lock_order r))"
  using assms unfolding host_ok_def by fast+

lemma host_ok_shared:
  assumes "host_ok s" and "(r, l) \<in> set (owners s)" and "(q, k) \<in> set (owners s)"
    and "i \<in> set (inherited_fds l)" and "i \<in> set (inherited_fds k)"
  shows "r = q \<and> l = k"
  using assms unfolding host_ok_def by fast

lemma host_ok_underway: "host_ok s \<Longrightarrow> (r, p, held) \<in> set (underway s) \<Longrightarrow> underway_ok s r p held"
  unfolding host_ok_def by fast

lemma host_ok_taking:
  assumes "host_ok s" and "(r, Taking, held) \<in> set (underway s)"
  shows "distinct held" "map (view (locks s)) held = map Some (take (length held) (lock_order r))" "\<And>i. i \<in> set held \<Longrightarrow> claims s i = 1"
  using host_ok_underway [OF assms] by (simp_all add: underway_ok_def)

lemma host_ok_refs: "host_ok s \<Longrightarrow> refs_match (descs (locks s) i) (claims s i)"
  unfolding host_ok_def by blast

lemma host_ok_world: "host_ok s \<Longrightarrow> world_ok (locks s)"
  by (simp add: host_ok_def)

lemma host_ok_intro:
  assumes "world_ok (locks s)"
    and "\<And>i. refs_match (descs (locks s) i) (claims s i)"
    and "\<And>r l. (r, l) \<in> set (owners s) \<Longrightarrow> distinct (inherited_fds l)"
    and "\<And>r l. (r, l) \<in> set (owners s) \<Longrightarrow> map (view (locks s)) (inherited_fds l) = map Some (rev (lock_order r))"
    and "\<And>r l q k i. (r, l) \<in> set (owners s) \<Longrightarrow> (q, k) \<in> set (owners s) \<Longrightarrow> i \<in> set (inherited_fds l)
      \<Longrightarrow> i \<in> set (inherited_fds k) \<Longrightarrow> r = q \<and> l = k"
    and "\<And>r p held. (r, p, held) \<in> set (underway s) \<Longrightarrow> underway_ok s r p held"
  shows "host_ok s"
  using assms(1-4,6) unfolding host_ok_def by (auto dest: assms(5))

lemma host_ok_view:
  assumes "host_ok s" and "(r, l) \<in> set (owners s)" and "i \<in> set (inherited_fds l)"
  obtains d where "descs (locks s) i = Some d" "(d_file d, d_mode d) \<in> set (lock_order r)"
proof -
  from assms(1,2) have "map (view (locks s)) (inherited_fds l) = map Some (rev (lock_order r))"
    unfolding host_ok_def by fast
  then have "view (locks s) ` set (inherited_fds l) = Some ` set (lock_order r)"
    by (metis image_set set_rev)
  with assms(3) have "view (locks s) i \<in> Some ` set (lock_order r)" by blast
  then show thesis by (auto simp: view_def intro: that)
qed

text \<open>Changing reference counts alone.\<close>

definition same_locks :: "lock_world \<Rightarrow> lock_world \<Rightarrow> bool" where
  "same_locks w w' \<longleftrightarrow> next_id w \<le> next_id w' \<and> (\<forall>i. view w' i = view w i \<or> view w' i = None)"

lemma same_locks_refl [simp]: "same_locks w w"
  by (simp add: same_locks_def)

lemma world_ok_view: "world_ok w \<longleftrightarrow> (\<forall>i v. view w i = Some v \<longrightarrow> i < next_id w)
   \<and> (\<forall>i j k m m'. view w i = Some (k, m) \<longrightarrow> view w j = Some (k, m') \<longrightarrow> i \<noteq> j \<longrightarrow> compatible m m')"
  unfolding world_ok_def view_def by (auto simp: map_option_case split: option.splits)

lemma same_locks_ok: "world_ok w \<Longrightarrow> same_locks w w' \<Longrightarrow> world_ok w'"
  unfolding world_ok_view same_locks_def
  by (metis (no_types, lifting) less_le_trans option.distinct(1))

lemma host_okI:
  assumes "host_ok s" and "same_locks (locks s) (locks s')" and "set (owners s') \<subseteq> set (owners s)"
    and "\<And>i. refs_match (descs (locks s') i) (claims s' i)"
    and "\<And>r p held. (r, p, held) \<in> set (underway s') \<Longrightarrow> distinct held"
    and "\<And>r held i. (r, Taking, held) \<in> set (underway s') \<Longrightarrow> i \<in> set held \<Longrightarrow> (r, Taking, held) \<in> set (underway s) \<and> claims s' i = 1"
  shows "host_ok s'"
proof -
  have same: "view (locks s') i = view (locks s) i" if "claims s' i \<noteq> 0" for i
  proof -
    from that assms(4) [of i] have "view (locks s') i \<noteq> None" by (cases "descs (locks s') i") (simp_all add: view_def)
    with assms(2) show ?thesis by (auto simp: same_locks_def)
  qed
  have "claims s' i \<noteq> 0" if "(r, l) \<in> set (owners s')" "i \<in> set (inherited_fds l)" for r l i
    using that by (auto simp: claims_def holders_0)
  with same have "map (view (locks s')) (inherited_fds l) = map (view (locks s)) (inherited_fds l)"
    if "(r, l) \<in> set (owners s')" for r l using that by (simp only: map_eq_conv) blast
  then have own: "distinct (inherited_fds l) \<and> map (view (locks s')) (inherited_fds l) = map Some (rev (lock_order r))"
    if "(r, l) \<in> set (owners s')" for r l
    using host_ok_owner [OF assms(1), of r l] assms(3) that by (metis subsetD)
  show ?thesis
  proof (rule host_ok_intro)
    show "world_ok (locks s')" by (rule same_locks_ok [OF host_ok_world [OF assms(1)] assms(2)])
    show "refs_match (descs (locks s') i) (claims s' i)" for i by (rule assms(4))
    show "distinct (inherited_fds l)" "map (view (locks s')) (inherited_fds l) = map Some (rev (lock_order r))"
      if "(r, l) \<in> set (owners s')" for r l using own [OF that] by simp_all
    show "r = q \<and> l = k" if "(r, l) \<in> set (owners s')" "(q, k) \<in> set (owners s')" "i \<in> set (inherited_fds l)" "i \<in> set (inherited_fds k)"
      for r l q k i using that assms(3) host_ok_shared [OF assms(1), of r l q k i] by blast
    fix r p held assume u: "(r, p, held) \<in> set (underway s')"
    show "underway_ok s' r p held"
    proof (cases "p = Taking \<and> held \<noteq> []")
      case False
      with assms(5) [OF u] show ?thesis by (auto simp: underway_ok_def)
    next
      case True
      with u assms(6) have one: "claims s' i = 1" if "i \<in> set held" for i using that by blast
      have old: "(r, Taking, held) \<in> set (underway s)" using True u assms(6) [of r held "hd held"] by auto
      have "map (view (locks s')) held = map (view (locks s)) held" using same one by simp
      then show ?thesis using assms(5) [OF u] one host_ok_taking(2) [OF assms(1) old] True by (simp add: underway_ok_def)
    qed
  qed
qed

text \<open>Steps that only move entries.\<close>

lemma moved_host:
  assumes "host_ok s" and "locks s' = locks s" and "set (owners s') \<subseteq> set (owners s)" and "\<And>i. claims s' i = claims s i"
    and "\<And>r p held. (r, p, held) \<in> set (underway s') \<Longrightarrow> distinct held"
    and "\<And>r held. (r, Taking, held) \<in> set (underway s') \<Longrightarrow> held = [] \<or> (r, Taking, held) \<in> set (underway s)"
  shows "host_ok s'"
proof (rule host_okI [OF assms(1)])
  show "refs_match (descs (locks s') i) (claims s' i)" for i using host_ok_refs [OF assms(1)] by (simp add: assms(2,4))
  show "(r, Taking, held) \<in> set (underway s) \<and> claims s' i = 1" if "(r, Taking, held) \<in> set (underway s')" "i \<in> set held" for r held i
    using assms(6) [OF that(1)] that(2) host_ok_taking(3) [OF assms(1)] by (auto simp: assms(4))
qed (use assms in simp_all)

lemma underway_distinct: "host_ok s \<Longrightarrow> (r, p, held) \<in> set (underway s) \<Longrightarrow> distinct held"
  using host_ok_underway by (fastforce simp: underway_ok_def)

lemma released_host:
  assumes "host_ok s" and "underway s = xs @ (r, Releasing, held @ [i]) # ys"
  shows "host_ok \<lparr>locks = close_fd i (locks s), owners = owners s, underway = xs @ (r, Releasing, held) # ys\<rparr>"
proof (rule host_okI [OF assms(1)])
  let ?s' = "\<lparr>locks = close_fd i (locks s), owners = owners s, underway = xs @ (r, Releasing, held) # ys\<rparr>"
  have e: "(r, Releasing, held @ [i]) \<in> set (underway s)" by (simp add: assms(2))
  then have new: "i \<notin> set held" using underway_distinct [OF assms(1) e] by simp
  have claims: "claims s j = (if j = i then 1 else 0) + claims ?s' j" for j
    using new by (auto simp: claims_def assms(2))
  show "same_locks (locks s) (locks ?s')"
    by (auto simp: same_locks_def close_fd_def view_def drop_ref_def split: option.splits)
  show "refs_match (descs (locks ?s') j) (claims ?s' j)" for j
  proof (cases "j = i")
    case True
    with claims [of j] have "claims s i = Suc (claims ?s' i)" by simp
    with host_ok_refs [OF assms(1), of i] obtain d where "descs (locks s) i = Some d" "d_refs d = Suc (claims ?s' i)"
      by (cases "descs (locks s) i") simp_all
    then show ?thesis unfolding True by (cases "claims ?s' i") (simp_all add: close_fd_def drop_ref_def)
  next
    case False
    with claims [of j] have "claims ?s' j = claims s j" by simp
    then show ?thesis using host_ok_refs [OF assms(1), of j] False by (simp add: close_fd_def)
  qed
  show "distinct h" if "(q, p, h) \<in> set (underway ?s')" for q p h
  proof (cases "(q, p, h) = (r, Releasing, held)")
    case True
    then show ?thesis using underway_distinct [OF assms(1) e] by simp
  next
    case False
    with that have "(q, p, h) \<in> set (underway s)" by (auto simp: assms(2))
    then show ?thesis by (rule underway_distinct [OF assms(1)])
  qed
  show "(q, Taking, h) \<in> set (underway s) \<and> claims ?s' j = 1" if u: "(q, Taking, h) \<in> set (underway ?s')" "j \<in> set h" for q h j
  proof -
    from u(1) have old: "(q, Taking, h) \<in> set (underway s)" and side: "(q, Taking, h) \<in> set xs \<union> set ys" by (auto simp: assms(2))
    have "held_by xs j + held_by ys j \<noteq> 0" using side held_by_pos [OF _ u(2), of q Taking] by fastforce
    then have "claims ?s' j \<noteq> 0" by (auto simp: claims_def)
    with claims [of j] host_ok_taking(3) [OF assms(1) old u(2)] old show ?thesis by (auto split: if_splits)
  qed
qed simp

lemma inherited_host:
  assumes "host_ok s" and "(r, l) \<in> set (owners s)"
  shows "host_ok \<lparr>locks = fold inherit_fd (inherited_fds l) (locks s), owners = (r, l) # owners s, underway = underway s\<rparr>"
proof (rule host_okI [OF assms(1)])
  let ?s' = "\<lparr>locks = fold inherit_fd (inherited_fds l) (locks s), owners = (r, l) # owners s, underway = underway s\<rparr>"
  note d = descs_fold_inherit [OF host_ok_owner(1) [OF assms]]
  have claims: "claims ?s' i = (if i \<in> set (inherited_fds l) then 1 else 0) + claims s i" for i by (simp add: claims_def)
  show "same_locks (locks s) (locks ?s')" by (auto simp: same_locks_def view_def d option.map_comp comp_def)
  show "set (owners ?s') \<subseteq> set (owners s)" using assms(2) by simp
  show "refs_match (descs (locks ?s') i) (claims ?s' i)" for i
  proof (cases "i \<in> set (inherited_fds l)")
    case True
    from host_ok_view [OF assms True] obtain x where x: "descs (locks s) i = Some x" by blast
    with host_ok_refs [OF assms(1), of i] True claims [of i] show ?thesis by (simp add: d)
  next
    case False
    with host_ok_refs [OF assms(1), of i] claims [of i] show ?thesis by (simp add: d)
  qed
  show "distinct h" if "(q, p, h) \<in> set (underway ?s')" for q p h using that underway_distinct [OF assms(1)] by simp
  show "(q, Taking, h) \<in> set (underway s) \<and> claims ?s' i = 1" if u: "(q, Taking, h) \<in> set (underway ?s')" "i \<in> set h" for q h i
  proof -
    from u(1) have old: "(q, Taking, h) \<in> set (underway s)" by simp
    have one: "claims s i = 1" by (rule host_ok_taking(3) [OF assms(1) old u(2)])
    have "held_by (underway s) i \<noteq> 0" by (rule held_by_pos [OF old u(2)])
    with one have "holders (owners s) i = 0" by (simp add: claims_def)
    with assms(2) have "i \<notin> set (inherited_fds l)" by (auto simp: holders_0)
    with one claims [of i] old show ?thesis by simp
  qed
qed

lemma taken_host:
  assumes "host_ok s" and "underway s = xs @ (r, Taking, held) # ys" and "length held < length (lock_order r)"
    and "lock_order r ! length held = (k, m)" and "take_lock (locks s) k m = Some (i, w)"
  shows "host_ok \<lparr>locks = w, owners = owners s, underway = xs @ (r, Taking, held @ [i]) # ys\<rparr>"
proof -
  let ?s' = "\<lparr>locks = w, owners = owners s, underway = xs @ (r, Taking, held @ [i]) # ys\<rparr>"
  note t = take_lock_Some [OF assms(5) host_ok_world [OF assms(1)]]
  have e: "(r, Taking, held) \<in> set (underway s)" by (simp add: assms(2))
  have free: "claims s i = 0" using host_ok_refs [OF assms(1), of i] t(3) by simp
  then have unheld: "i \<notin> set held" "\<And>q l. (q, l) \<in> set (owners s) \<Longrightarrow> i \<notin> set (inherited_fds l)"
    "\<And>q p h. (q, p, h) \<in> set (underway s) \<Longrightarrow> i \<notin> set h"
    using e by (auto simp: claims_def holders_0 held_by_0)
  have claims: "claims ?s' j = (if j = i then 1 else 0) + claims s j" for j
    using unheld(1) by (auto simp: claims_def assms(2))
  have view: "view w j = view (locks s) j" if "j \<noteq> i" for j using that by (simp add: view_def t(4))
  have views: "map (view w) is = map (view (locks s)) is" if "i \<notin> set is" for "is" by (rule map_cong [OF refl]) (use that in \<open>metis view\<close>)
  show ?thesis
  proof (rule host_ok_intro)
    show "world_ok (locks ?s')" using t(5) by simp
    show "refs_match (descs (locks ?s') j) (claims ?s' j)" for j
      using host_ok_refs [OF assms(1), of j] free claims [of j] by (simp add: t(4))
    show "distinct (inherited_fds l)" if "(q, l) \<in> set (owners ?s')" for q l using that host_ok_owner(1) [OF assms(1)] by simp
    show "map (view (locks ?s')) (inherited_fds l) = map Some (rev (lock_order q))" if "(q, l) \<in> set (owners ?s')" for q l
      using that views [OF unheld(2)] host_ok_owner(2) [OF assms(1)] by simp
    show "q = q' \<and> l = l'" if "(q, l) \<in> set (owners ?s')" "(q', l') \<in> set (owners ?s')" "j \<in> set (inherited_fds l)" "j \<in> set (inherited_fds l')"
      for q l q' l' j using that host_ok_shared [OF assms(1), of q l q' l' j] by simp
    fix q p h assume u: "(q, p, h) \<in> set (underway ?s')"
    show "underway_ok ?s' q p h"
    proof (cases "(q, p, h) = (r, Taking, held @ [i])")
      case True
      have "map (view w) held = map Some (take (length held) (lock_order r))"
        using views [OF unheld(1)] host_ok_taking(2) [OF assms(1) e] by simp
      moreover have "view w i = Some (lock_order r ! length held)" by (simp add: view_def t(4) assms(4))
      ultimately have "map (view w) (held @ [i]) = map Some (take (length (held @ [i])) (lock_order r))"
        using assms(3) by (simp add: take_Suc_conv_app_nth)
      moreover have "claims ?s' j = 1" if "j \<in> set (held @ [i])" for j
        using that claims [of j] free host_ok_taking(3) [OF assms(1) e, of j] unheld(1) by auto
      ultimately show ?thesis using True unheld(1) host_ok_taking(1) [OF assms(1) e] by (simp add: underway_ok_def)
    next
      case False
      with u have old: "(q, p, h) \<in> set (underway s)" by (auto simp: assms(2))
      have "i \<notin> set h" by (rule unheld(3) [OF old])
      then have same: "map (view w) h = map (view (locks s)) h" "\<forall>j \<in> set h. claims ?s' j = claims s j" using views [of h] claims by (simp, auto)
      then show ?thesis using host_ok_underway [OF assms(1) old] unfolding underway_ok_def host.select_convs same(1) by auto
    qed
  qed
qed

lemma granted_host:
  assumes "host_ok s" and "underway s = xs @ (r, Taking, held) # ys" and "length held = length (lock_order r)"
  shows "host_ok \<lparr>locks = locks s, owners = (r, lease_of r held) # owners s, underway = xs @ ys\<rparr>"
proof -
  let ?s' = "\<lparr>locks = locks s, owners = (r, lease_of r held) # owners s, underway = xs @ ys\<rparr>"
  have e: "(r, Taking, held) \<in> set (underway s)" by (simp add: assms(2))
  have fds: "inherited_fds (lease_of r held) = rev held" using lease_of_fds [OF assms(3)] by simp
  note own = host_ok_taking [OF assms(1) e]
  have claims: "claims ?s' i = claims s i" for i by (simp add: claims_def assms(2) fds)
  have apart: "i \<notin> set (inherited_fds l)" if "i \<in> set held" "(q, l) \<in> set (owners s)" for i q l
  proof -
    have "held_by (underway s) i \<noteq> 0" by (rule held_by_pos [OF e that(1)])
    with own(3) [OF that(1)] have "holders (owners s) i = 0" by (simp add: claims_def)
    with that(2) show ?thesis by (auto simp: holders_0)
  qed
  show ?thesis
  proof (rule host_ok_intro)
    show "world_ok (locks ?s')" using host_ok_world [OF assms(1)] by simp
    show "refs_match (descs (locks ?s') i) (claims ?s' i)" for i using host_ok_refs [OF assms(1)] by (simp add: claims)
    have "map (view (locks s)) (rev held) = map Some (rev (lock_order r))"
      using own(2) assms(3) by (simp add: rev_map [symmetric])
    then show "distinct (inherited_fds l)" "map (view (locks ?s')) (inherited_fds l) = map Some (rev (lock_order q))"
      if "(q, l) \<in> set (owners ?s')" for q l
      using that host_ok_owner [OF assms(1), of q l] own(1) by (auto simp: fds)
    show "q = q' \<and> l = l'" if "(q, l) \<in> set (owners ?s')" "(q', l') \<in> set (owners ?s')" "i \<in> set (inherited_fds l)" "i \<in> set (inherited_fds l')"
      for q l q' l' i
      using that apart [of i] host_ok_shared [OF assms(1), of q l q' l' i] by (auto simp: fds)
    fix q p h assume "(q, p, h) \<in> set (underway ?s')"
    then have "(q, p, h) \<in> set (underway s)" by (auto simp: assms(2))
    from host_ok_underway [OF assms(1) this] claims show "underway_ok ?s' q p h" by (simp add: underway_ok_def)
  qed
qed

lemma step_host: "host_ok s \<Longrightarrow> lease_step s s' \<Longrightarrow> host_ok s'"
proof (erule lease_stepE)
  fix r assume ok: "host_ok s" and s': "s' = \<lparr>locks = locks s, owners = owners s, underway = (r, Taking, []) # underway s\<rparr>"
  show "host_ok s'" by (rule moved_host [OF ok]) (use underway_distinct [OF ok] in \<open>auto simp: s' claims_def\<close>)
next
  fix xs r held ys assume ok: "host_ok s" and u: "underway s = xs @ (r, Taking, held) # ys"
    and s': "s' = \<lparr>locks = locks s, owners = owners s, underway = xs @ (r, Releasing, held) # ys\<rparr>"
  have "distinct held" by (rule underway_distinct [OF ok, of r Taking]) (simp add: u)
  then show "host_ok s'" by (intro moved_host [OF ok]) (use underway_distinct [OF ok] in \<open>auto simp: s' u claims_def\<close>)
next
  fix xs r ys assume ok: "host_ok s" and u: "underway s = xs @ (r, Releasing, []) # ys"
    and s': "s' = \<lparr>locks = locks s, owners = owners s, underway = xs @ ys\<rparr>"
  show "host_ok s'" by (rule moved_host [OF ok]) (use underway_distinct [OF ok] in \<open>auto simp: s' u claims_def\<close>)
next
  fix xs r l ys assume ok: "host_ok s" and os: "owners s = xs @ (r, l) # ys"
    and s': "s' = \<lparr>locks = locks s, owners = xs @ ys, underway = (r, Releasing, rev (inherited_fds l)) # underway s\<rparr>"
  have "distinct (inherited_fds l)" by (rule host_ok_owner(1) [OF ok, of r]) (simp add: os)
  then show "host_ok s'" by (intro moved_host [OF ok]) (use underway_distinct [OF ok] in \<open>auto simp: s' os claims_def\<close>)
qed (auto intro: inherited_host taken_host granted_host released_host)

lemma reachable_ok: "reachable_host s \<Longrightarrow> host_ok s"
proof (induction rule: reachable_host.induct)
  case idle
  show ?case by (simp add: host_ok_def idle_host_def world_ok_def claims_def)
next
  case (moved s s')
  then show ?case by (blast intro: step_host)
qed

section \<open>Leases exclude exactly what conflicts\<close>

lemma conflict_busy:
  "(\<exists>q \<in> set (lock_order r). \<exists>k m. (k, m) \<in> set (lock_order p) \<and> k = fst q \<and> \<not> compatible m (snd q))
     \<longleftrightarrow> conflicting r p"
proof -
  have lo: "lock_order x = (slot_key x, Exclusive) # (if \<not> accelerated x then []
      else if known_device x then [(accelerator_gate, Shared), (lease_key x, Exclusive)]
      else [(accelerator_gate, Exclusive)])" for x
    by (simp add: lock_order_def accelerated_def)
  note files = gate_not_slot [of r] gate_not_slot [of p] device_not_slot [of r] device_not_slot [of p]
    device_not_slot(1) [of r p, THEN not_sym] device_not_slot(1) [of p r, THEN not_sym]
    device_not_slot(2) [of r, THEN not_sym] device_not_slot(2) [of p, THEN not_sym]
  show ?thesis
    by (cases "accelerated r"; cases "accelerated p"; cases "known_device r"; cases "known_device p")
       (use files in \<open>auto simp: lo conflicting_def compatible_def\<close>)
qed

lemma owner_locks:
  assumes "host_ok s" and "underway s = []"
  shows "(\<exists>i d. descs (locks s) i = Some d \<and> (d_file d, d_mode d) = v)
    \<longleftrightarrow> (\<exists>(r, l) \<in> set (owners s). v \<in> set (lock_order r))"
proof
  assume "\<exists>i d. descs (locks s) i = Some d \<and> (d_file d, d_mode d) = v"
  then obtain i d where d: "descs (locks s) i = Some d" "(d_file d, d_mode d) = v" by blast
  with host_ok_refs [OF assms(1), of i] assms(2) have "holders (owners s) i \<noteq> 0" by (simp add: claims_def)
  then obtain r l where rl: "(r, l) \<in> set (owners s)" "i \<in> set (inherited_fds l)" by (auto simp: holders_0)
  from host_ok_view [OF assms(1) rl] d show "\<exists>(r, l) \<in> set (owners s). v \<in> set (lock_order r)"
    using rl(1) by (metis (no_types, lifting) case_prodI option.inject)
next
  assume "\<exists>(r, l) \<in> set (owners s). v \<in> set (lock_order r)"
  then obtain r l where rl: "(r, l) \<in> set (owners s)" "v \<in> set (lock_order r)" by blast
  have "view (locks s) ` set (inherited_fds l) = Some ` set (lock_order r)"
    using host_ok_owner(2) [OF assms(1) rl(1)] by (metis image_set set_rev)
  with rl(2) obtain i where "view (locks s) i = Some v" by (metis (no_types, lifting) image_iff)
  then show "\<exists>i d. descs (locks s) i = Some d \<and> (d_file d, d_mode d) = v" by (auto simp: view_def)
qed

lemma busy_iff_conflict:
  assumes "host_ok s" and "underway s = []"
  shows "(\<exists>q \<in> set (lock_order r). busy (locks s) q) \<longleftrightarrow> (\<exists>(p, l) \<in> set (owners s). conflicting r p)"
proof -
  have "busy (locks s) (k, m) \<longleftrightarrow> (\<exists>m'. (\<exists>i d. descs (locks s) i = Some d \<and> (d_file d, d_mode d) = (k, m'))
      \<and> \<not> compatible m' m)" for k m
    by (auto simp: busy_def)
  then have "busy (locks s) (k, m) \<longleftrightarrow> (\<exists>(p, l) \<in> set (owners s). \<exists>m'. (k, m') \<in> set (lock_order p) \<and> \<not> compatible m' m)" for k m
    unfolding owner_locks [OF assms] by blast
  then have "(\<exists>q \<in> set (lock_order r). busy (locks s) q) \<longleftrightarrow> (\<exists>(p, l) \<in> set (owners s).
      \<exists>q \<in> set (lock_order r). \<exists>k m. (k, m) \<in> set (lock_order p) \<and> k = fst q \<and> \<not> compatible m (snd q))"
    by (simp add: Bex_def split_paired_Ex) blast
  then show ?thesis unfolding conflict_busy .
qed

text \<open>
  A lease is granted exactly when it may be. On every reachable host on which no other acquisition or closing is under way, whatever
  processes have done before, a request is refused if and only if some process
  still owns a lease of a conflicting request, and a refusal leaves no lock behind.
\<close>

theorem lease_granted_iff:
  assumes "reachable_host s" and "underway s = []"
  shows "case acquire_lease (locks s) r of
      (None, w) \<Rightarrow> (\<exists>(p, l) \<in> set (owners s). conflicting r p) \<and> descs w = descs (locks s)
    | (Some l, w) \<Rightarrow> l_key l = lease_key r \<and> \<not> (\<exists>(p, k) \<in> set (owners s). conflicting r p)"
proof -
  have ok: "host_ok s" by (rule reachable_ok [OF assms(1)])
  have "world_ok (locks s)" using ok by (simp add: host_ok_def)
  then show ?thesis
  proof (cases rule: acquire_cases [where r = r])
    case (refused w')
    with busy_iff_conflict [OF ok assms(2), of r] show ?thesis by simp
  next
    case (granted ids w')
    then have "length ids = length (lock_order r)" unfolding holding_def by (metis length_map)
    with granted busy_iff_conflict [OF ok assms(2), of r] show ?thesis by (simp add: lease_of_fds)
  qed
qed

text \<open>
  C15. Leases exclude each other. On every reachable host two owners either hold copies of one
  and the same lease, or their requests do not conflict: no two leases share a worker slot or a
  device, and a lease of an unidentified accelerator excludes every other accelerator lease. Acquisitions and closings interleave
  lock by lock.
\<close>

theorem leases_exclude:
  assumes "reachable_host s" and "(r, l) \<in> set (owners s)" and "(q, k) \<in> set (owners s)"
    and "conflicting r q"
  shows "r = q \<and> l = k"
proof -
  from assms(4) obtain f m m' where f: "(f, m) \<in> set (lock_order r)" "(f, m') \<in> set (lock_order q)" "\<not> compatible m' m"
    unfolding conflict_busy [symmetric] by auto
  have ok: "host_ok s" by (rule reachable_ok [OF assms(1)])
  have fds: "\<exists>i \<in> set (inherited_fds y). view (locks s) i = Some v"
    if "(x, y) \<in> set (owners s)" "v \<in> set (lock_order x)" for x y v
  proof -
    have "view (locks s) ` set (inherited_fds y) = Some ` set (lock_order x)"
      using host_ok_owner(2) [OF ok that(1)] by (metis image_set set_rev)
    with that(2) show ?thesis by (metis (no_types, lifting) image_iff)
  qed
  from fds [OF assms(2) f(1)] obtain i where i: "i \<in> set (inherited_fds l)" "view (locks s) i = Some (f, m)" by blast
  from fds [OF assms(3) f(2)] obtain j where j: "j \<in> set (inherited_fds k)" "view (locks s) j = Some (f, m')" by blast
  have "world_ok (locks s)" using ok by (simp add: host_ok_def)
  with i(2) j(2) f(3) compatible_sym have "i = j" unfolding world_ok_view by blast
  with host_ok_shared [OF ok assms(2,3) i(1)] j(1) show "r = q \<and> l = k" by simp
qed

text \<open>
  A lease outlives the process that took it. When one owner closes its copy of a lease and nothing else is under way, a
  request is granted afterwards exactly when no owner that is left conflicts with it: as long as
  a staging child still holds the descriptors the device stays taken, and with the last copy it
  becomes free.
\<close>

theorem lease_survives_in_children:
  assumes "reachable_host s" and "owners s = xs @ (r, l) # ys" and "underway s = []"
  shows "fst (acquire_lease (snd (close_lease l (locks s))) q) \<noteq> None
    \<longleftrightarrow> \<not> (\<exists>(p, k) \<in> set (xs @ ys). conflicting q p)"
proof -
  let ?s = "\<lparr>locks = snd (close_lease l (locks s)), owners = xs @ ys, underway = underway s\<rparr>"
  have ok: "host_ok ?s" by (rule reachable_ok [OF reachable_star [OF close_run [OF assms(2)] assms(1)]])
  then have "world_ok (locks ?s)" by (simp add: host_ok_def)
  then show ?thesis
    by (cases rule: acquire_cases [where r = q]) (use busy_iff_conflict [OF ok, of q] assms(3) in auto)
qed

section \<open>An example\<close>

definition gpu_request :: lease_request where
  "gpu_request = \<lparr>worker_id = ''w1'', backend = ''cuda'', device = Some ''GPU-0''\<rparr>"

definition unknown_request :: lease_request where
  "unknown_request = \<lparr>worker_id = ''w2'', backend = ''rocm'', device = None\<rparr>"

definition gpu_lease :: device_lease where
  "gpu_lease = the (fst (acquire_lease (locks idle_host) gpu_request))"

definition gpu_host :: host where
  "gpu_host = \<lparr>locks = snd (acquire_lease (locks idle_host) gpu_request), owners = [(gpu_request, gpu_lease)], underway = []\<rparr>"

lemma gpu_host_reachable: "reachable_host gpu_host"
proof -
  have "fst (acquire_lease (locks idle_host) gpu_request) \<noteq> None" by code_simp
  then have "acquire_lease (locks idle_host) gpu_request = (Some gpu_lease, locks gpu_host)"
    by (simp add: gpu_lease_def gpu_host_def prod_eq_iff)
  from acquire_run [OF this] have "lease_step\<^sup>*\<^sup>* idle_host gpu_host"
    by (simp add: gpu_host_def idle_host_def)
  from reachable_star [OF this reachable_host.idle] show ?thesis .
qed

lemma gpu_owner: "owners gpu_host = [] @ (gpu_request, gpu_lease) # []" "underway gpu_host = []"
  by (simp_all add: gpu_host_def)

lemma gpu_conflicts: "conflicting unknown_request gpu_request"
  by code_simp

theorem lease_granted_iff_witness:
  "fst (acquire_lease (locks gpu_host) unknown_request) = None"
  using lease_granted_iff [OF gpu_host_reachable gpu_owner(2), of unknown_request] gpu_conflicts gpu_owner
  by (auto split: prod.splits option.splits)

definition cpu_request :: lease_request where
  "cpu_request = \<lparr>worker_id = ''w2'', backend = ''cpu'', device = None\<rparr>"

definition cpu_lease :: device_lease where
  "cpu_lease = the (fst (acquire_lease (locks gpu_host) cpu_request))"

definition shared_host :: host where
  "shared_host = \<lparr>locks = snd (acquire_lease (locks gpu_host) cpu_request),
     owners = [(cpu_request, cpu_lease), (gpu_request, gpu_lease)], underway = []\<rparr>"

lemma shared_host_reachable: "reachable_host shared_host"
proof -
  have "fst (acquire_lease (locks gpu_host) cpu_request) \<noteq> None" by code_simp
  then have "acquire_lease (locks gpu_host) cpu_request = (Some cpu_lease, locks shared_host)"
    unfolding cpu_lease_def shared_host_def host.simps by (cases "acquire_lease (locks gpu_host) cpu_request") simp
  from acquire_run [OF this] have "lease_step\<^sup>*\<^sup>* gpu_host shared_host"
    by (simp add: shared_host_def gpu_owner)
  from reachable_star [OF this gpu_host_reachable] show ?thesis .
qed

theorem leases_exclude_witness:
  "reachable_host shared_host \<and> \<not> conflicting gpu_request cpu_request"
proof -
  have "gpu_request \<noteq> cpu_request" by (simp add: gpu_request_def cpu_request_def)
  have two: "set (owners shared_host) = {(cpu_request, cpu_lease), (gpu_request, gpu_lease)}"
    by (simp only: shared_host_def host.simps list.set)
  have "\<not> conflicting gpu_request cpu_request"
  proof
    assume "conflicting gpu_request cpu_request"
    from leases_exclude [OF shared_host_reachable _ _ this, of gpu_lease cpu_lease] two
    have "gpu_request = cpu_request" by blast
    with \<open>gpu_request \<noteq> cpu_request\<close> show False by contradiction
  qed
  with shared_host_reachable show ?thesis by (rule conjI)
qed

theorem lease_survives_in_children_witness:
  "fst (acquire_lease (snd (close_lease gpu_lease (locks gpu_host))) unknown_request) \<noteq> None"
  using lease_survives_in_children [OF gpu_host_reachable gpu_owner(1,2), of unknown_request] by simp

end
