(* ===== verification/Retention.thy ===== *)
theory Retention
  imports Lab_Prelude Complex_Main "HOL-Library.List_Lexorder" "HOL-Library.Char_ord" "HOL-Library.Product_Lexorder"
begin

text \<open>
  \<open>src/sparselab/training/retention.py\<close>: which verified checkpoints a run keeps, with the policy
  \<open>CheckpointRetention\<close> of \<open>config/models.py\<close> and the projection of \<open>training/checkpoints.py\<close> that
  prunes the rest.

  Verified generations, the inherited references and the bytes of directories come from the file
  system and are arguments. A validation loss is a finite float in the code (saving refuses any
  other) and a rational here.
\<close>

section \<open>The policy\<close>

record milestone =
  ms_name :: string
  ms_step :: int
  ms_targets :: int \<comment> \<open>\<open>committed_targets\<close>\<close>

record retention_policy =
  milestones :: "milestone list"
  terminal_step :: int
  terminal_targets :: int
  max_generations :: int
  max_generation_bytes :: int
  max_retained_bytes :: int
  max_peak_bytes :: int
  reserve_free_bytes :: int

datatype retention_error =
    FieldRange | NamesNotUnique | BeyondTerminal | LimitsTooSmall
  | NoParentSelections | MilestoneDiffers | NoMilestoneSelection
  | PreviousMissing | InheritedTooLarge | CheckpointTooLarge | KeepSetTooLarge | PeakExceeded
  | NoPeakRoom | NoFreeBytes | UnsafePath

definition retained_upper :: "retention_policy \<Rightarrow> int" where
  "retained_upper p = int (length (milestones p)) + 4"

text \<open>The names match \<open>[a-z][a-z0-9_-]{0,63}\<close>.\<close>

definition milestone_name :: "string \<Rightarrow> bool" where
  "milestone_name n \<longleftrightarrow> n \<noteq> [] \<and> length n \<le> 64 \<and> is_lower_alpha (hd n)
     \<and> list_all (\<lambda>c. is_lower_alpha c \<or> is_digit c \<or> c \<in> set ''_-'') (tl n)"

definition valid_policy :: "retention_policy \<Rightarrow> retention_error + unit" where
  "valid_policy p =
     (if \<not> (list_all (\<lambda>m. milestone_name (ms_name m) \<and> 0 \<le> ms_step m \<and> 0 \<le> ms_targets m) (milestones p)
            \<and> length (milestones p) \<le> 128 \<and> 0 < terminal_step p \<and> 0 < terminal_targets p
            \<and> 0 < max_generations p \<and> max_generations p \<le> 1024 \<and> 0 < max_generation_bytes p
            \<and> 0 < max_retained_bytes p \<and> 0 < max_peak_bytes p \<and> 0 \<le> reserve_free_bytes p)
      then Inl FieldRange
      else if \<not> distinct (map ms_name (milestones p)) then Inl NamesNotUnique
      else if list_ex (\<lambda>m. ms_step m > terminal_step p \<or> ms_targets m > terminal_targets p) (milestones p)
      then Inl BeyondTerminal
      else if max_generations p < retained_upper p
          \<or> max_retained_bytes p < retained_upper p * max_generation_bytes p
          \<or> max_peak_bytes p < (retained_upper p + 1) * max_generation_bytes p
      then Inl LimitsTooSmall
      else Inr ())"

section \<open>Records and roles\<close>

record checkpoint =
  generation_id :: int
  relative_path :: string
  manifest_sha256 :: string
  c_step :: int
  c_tokens :: int
  validation_loss :: "rat option"

record reference =
  verified_location :: string
  r_manifest :: string
  r_step :: int
  r_tokens :: int
  r_roles :: "string list"

definition milestone_role :: "string \<Rightarrow> string" where
  "milestone_role name = ''milestone:'' @ name"

section \<open>Milestones of a parent run\<close>

text \<open>
  The parent's \<open>retention.json\<close>: its declared milestones and its retained rows. The dict
  \<open>selected\<close> is a list of references in insertion order, keyed by location.
\<close>

fun add_role :: "reference \<Rightarrow> string \<Rightarrow> reference list \<Rightarrow> reference list" where
  "add_role row role [] = [row\<lparr>r_roles := [role]\<rparr>]"
| "add_role row role (t # ts) =
     (if verified_location t = verified_location row then t\<lparr>r_roles := r_roles t @ [role]\<rparr> # ts
      else t # add_role row role ts)"

definition inherit_one :: "milestone list \<Rightarrow> reference list \<Rightarrow> int \<Rightarrow> int \<Rightarrow> reference list \<Rightarrow> milestone
    \<Rightarrow> retention_error + reference list" where
  "inherit_one declared retained_rows step tokens selected item =
     (let role = milestone_role (ms_name item)
      in if map_of (rev (map (\<lambda>m. (ms_name m, m)) declared)) (ms_name item) \<noteq> Some item then Inl MilestoneDiffers
         else case filter (\<lambda>row. role \<in> set (r_roles row) \<and> r_step row \<le> step \<and> r_tokens row \<le> tokens) retained_rows of
              [row] \<Rightarrow> Inr (add_role row role selected)
            | _ \<Rightarrow> Inl NoMilestoneSelection)"

definition inherited_milestones :: "(milestone list \<times> reference list) option \<Rightarrow> retention_policy \<Rightarrow> int \<Rightarrow> int
    \<Rightarrow> retention_error + reference list" where
  "inherited_milestones evidence p step tokens =
     (let reached = filter (\<lambda>m. step \<ge> ms_step m \<and> tokens \<ge> ms_targets m) (milestones p)
      in if reached = [] then Inr []
         else case evidence of
           None \<Rightarrow> Inl NoParentSelections
         | Some (declared, rows) \<Rightarrow> foldE (inherit_one declared rows step tokens) [] reached)"

section \<open>Selecting the keep-set\<close>

definition record_key :: "checkpoint \<Rightarrow> int \<times> int" where
  "record_key r = (c_step r, generation_id r)"

fun first_min :: "('a \<Rightarrow> 'b :: linorder) \<Rightarrow> 'a list \<Rightarrow> 'a option" where
  "first_min key [] = None"
| "first_min key (x # xs) = Some (foldl (\<lambda>b r. if key r < key b then r else b) x xs)"

definition loss_key :: "checkpoint \<Rightarrow> rat \<times> int" where
  "loss_key r = (the (validation_loss r), generation_id r)"

definition best_record :: "checkpoint list \<Rightarrow> checkpoint option" where
  "best_record rs = first_min loss_key (filter (\<lambda>r. validation_loss r \<noteq> None) rs)"

definition reaches :: "checkpoint \<Rightarrow> milestone \<Rightarrow> bool" where
  "reaches r m \<longleftrightarrow> c_step r \<ge> ms_step m \<and> c_tokens r \<ge> ms_targets m"

definition milestone_record :: "checkpoint list \<Rightarrow> milestone \<Rightarrow> checkpoint option" where
  "milestone_record rs m = find (\<lambda>r. reaches r m) rs"

definition terminal_record :: "retention_policy \<Rightarrow> checkpoint list \<Rightarrow> checkpoint option" where
  "terminal_record p rs = find (\<lambda>r. c_step r \<ge> terminal_step p \<or> c_tokens r \<ge> terminal_targets p) rs"

definition local_milestones :: "retention_policy \<Rightarrow> string list \<Rightarrow> milestone list" where
  "local_milestones p inherited_roles = filter (\<lambda>m. milestone_role (ms_name m) \<notin> set inherited_roles) (milestones p)"

definition opt_role :: "string \<Rightarrow> checkpoint option \<Rightarrow> (checkpoint \<times> string) list" where
  "opt_role role x = (case x of None \<Rightarrow> [] | Some r \<Rightarrow> [(r, role)])"

text \<open>The calls of \<open>keep\<close> in order, on records sorted by step and generation.\<close>

definition keeps :: "retention_policy \<Rightarrow> string list \<Rightarrow> checkpoint list \<Rightarrow> (checkpoint \<times> string) list" where
  "keeps p inherited_roles rs =
     (if rs = [] then [] else [(last rs, ''latest'')])
     @ (if length rs > 1 then [(rs ! (length rs - 2), ''previous'')] else [])
     @ opt_role ''best'' (best_record rs)
     @ concat (map (\<lambda>m. opt_role (milestone_role (ms_name m)) (milestone_record rs m)) (local_milestones p inherited_roles))
     @ opt_role ''terminal'' (terminal_record p rs)"

definition roles_of :: "(checkpoint \<times> string) list \<Rightarrow> string \<Rightarrow> string list" where
  "roles_of ks path = sort (map snd (filter (\<lambda>(r, _). relative_path r = path) ks))"

definition kept_path :: "(checkpoint \<times> string) list \<Rightarrow> string \<Rightarrow> bool" where
  "kept_path ks path \<longleftrightarrow> path \<in> relative_path ` fst ` set ks"

section \<open>The plan\<close>

text \<open>The part of a written \<open>retention.json\<close> that the next plan checks: local rows by path, others by location.\<close>

record previous_row =
  pr_local :: bool
  pr_key :: string
  pr_manifest :: string

record retention_report =
  retained_local :: "(checkpoint \<times> string list \<times> int) list" \<comment> \<open>roles and directory bytes\<close>
  retained_inherited :: "(reference \<times> int) list"
  pending :: "milestone list"
  terminal_reached :: bool
  retained_bytes :: int
  observed_peak :: int
  pruned :: "string list"

definition last_of :: "('a \<times> 'b) list \<Rightarrow> 'a \<Rightarrow> 'b option" where
  "last_of xs = map_of (rev xs)"

definition plan_retention :: "retention_policy \<Rightarrow> checkpoint list \<Rightarrow> (reference \<times> int) list \<Rightarrow> previous_row list
    \<Rightarrow> (checkpoint \<Rightarrow> int) \<Rightarrow> int \<Rightarrow> retention_error + retention_report" where
  "plan_retention p records inherited previous directory_bytes root_bytes =
     (let rs = sort_key record_key records;
          identities = last_of (map (\<lambda>r. (relative_path r, manifest_sha256 r)) rs);
          inherited_identities = last_of (map (\<lambda>(i, _). (verified_location i, r_manifest i)) inherited)
      in if list_ex (\<lambda>row. (if pr_local row then identities (pr_key row) else inherited_identities (pr_key row))
              \<noteq> Some (pr_manifest row)) previous
         then Inl PreviousMissing
         else
           let inherited_roles = concat (map (r_roles \<circ> fst) inherited);
               ks = keeps p inherited_roles rs;
               kept = filter (\<lambda>r. kept_path ks (relative_path r)) rs
           in if list_ex (\<lambda>(_, n). n > max_generation_bytes p) inherited then Inl InheritedTooLarge
              else if list_ex (\<lambda>r. directory_bytes r > max_generation_bytes p) kept then Inl CheckpointTooLarge
              else
                let total_bytes = (\<Sum>(_, n)\<leftarrow>inherited. n) + (\<Sum>r\<leftarrow>kept. directory_bytes r);
                    observed = root_bytes + (\<Sum>(_, n)\<leftarrow>inherited. n)
                in if int (length inherited + length kept) > max_generations p \<or> total_bytes > max_retained_bytes p
                   then Inl KeepSetTooLarge
                   else if observed > max_peak_bytes p then Inl PeakExceeded
                   else Inr \<lparr>retained_local = map (\<lambda>r. (r, roles_of ks (relative_path r), directory_bytes r)) kept,
                     retained_inherited = inherited,
                     pending = filter (\<lambda>m. milestone_record rs m = None) (local_milestones p inherited_roles),
                     terminal_reached = terminal_record p rs \<noteq> None,
                     retained_bytes = total_bytes, observed_peak = observed,
                     pruned = map relative_path (filter (\<lambda>r. \<not> kept_path ks (relative_path r)) rs)\<rparr>)"

text \<open>\<open>admit_write\<close>: may another generation be staged next to what is there?\<close>

definition admit_write :: "retention_policy \<Rightarrow> int \<Rightarrow> int \<Rightarrow> retention_error + int \<times> int" where
  "admit_write p existing available =
     (let required = max (max_generation_bytes p) (max_peak_bytes p - existing) + reserve_free_bytes p
      in if existing + max_generation_bytes p > max_peak_bytes p then Inl NoPeakRoom
         else if available < required then Inl NoFreeBytes
         else Inr (required, existing + max_generation_bytes p))"

text \<open>
  \<open>footprint\<close>: the bytes below the checkpoint root, one directory deep. An entry is a link, a file
  or a directory with its members.
\<close>

datatype fs_member = MemberFile int | MemberOther
datatype fs_entry = Link | PlainFile int | Directory "fs_member list" | OtherEntry

definition entry_members :: "fs_entry \<Rightarrow> fs_member list" where
  "entry_members e = (case e of PlainFile n \<Rightarrow> [MemberFile n] | Directory ms \<Rightarrow> ms | _ \<Rightarrow> [MemberOther])"

definition count_member :: "nat \<times> int \<Rightarrow> fs_member \<Rightarrow> retention_error + nat \<times> int" where
  "count_member = (\<lambda>(n, bytes) m. case m of
      MemberOther \<Rightarrow> Inl UnsafePath
    | MemberFile k \<Rightarrow> if n + 1 > 65536 then Inl UnsafePath else Inr (n + 1, bytes + k))"

definition footprint :: "fs_entry list \<Rightarrow> retention_error + int" where
  "footprint es = bindE (foldE (\<lambda>(n, bytes) e.
       if n + 1 > 65536 \<or> e = Link then Inl UnsafePath
       else foldE count_member (n + 1, bytes) (entry_members e)) (0, 0) es) (\<lambda>(_, bytes). Inr bytes)"

section \<open>Projection and pruning\<close>

text \<open>What \<open>_project_records\<close> leaves of the verified records.\<close>

definition project_records :: "(retention_policy \<times> (checkpoint list \<Rightarrow> retention_error + retention_report)) option
    \<Rightarrow> bool \<Rightarrow> checkpoint list \<Rightarrow> retention_error + checkpoint list" where
  "project_records retention keep_periodic records =
     (let rs = sort_key record_key records
      in bindE (case retention of None \<Rightarrow> Inr None
           | Some (_, plan) \<Rightarrow> bindE (plan rs) (\<lambda>rep. Inr (Some rep))) (\<lambda>rep.
         if rs = [] then Inr [] else if keep_periodic then Inr rs
         else
           let protected = (case rep of
               None \<Rightarrow> relative_path ` set (drop (length rs - 2) rs)
                 \<union> (case best_record rs of None \<Rightarrow> {} | Some b \<Rightarrow> {relative_path b})
             | Some rp \<Rightarrow> relative_path ` fst ` set (retained_local rp))
           in Inr (filter (\<lambda>r. relative_path r \<in> protected) rs)))"

section \<open>Selections survive pruning\<close>

lemma foldl_min:
  fixes key :: "'a \<Rightarrow> 'b :: linorder"
  shows "foldl (\<lambda>b r. if key r < key b then r else b) x xs \<in> set (x # xs)"
    "\<forall>y \<in> set (x # xs). key (foldl (\<lambda>b r. if key r < key b then r else b) x xs) \<le> key y"
proof (induction xs arbitrary: x)
  case Nil
  {
    case 1
    show ?case by simp
  next
    case 2
    show ?case by simp
  }
next
  case (Cons y ys)
  {
    case 1
    show ?case using Cons.IH(1) [of "if key y < key x then y else x"] by auto
  next
    case 2
    show ?case using Cons.IH(2) [of "if key y < key x then y else x"]
      by (auto split: if_splits dest: order_trans less_imp_le)
  }
qed

lemma first_min_append:
  "first_min key (xs @ ys) = (case first_min key xs of None \<Rightarrow> first_min key ys
     | Some a \<Rightarrow> Some (foldl (\<lambda>b r. if key r < key b then r else b) a ys))"
  by (cases xs) simp_all

lemma foldl_min_filter:
  fixes key :: "'a \<Rightarrow> 'b :: linorder"
  assumes "P (foldl (\<lambda>b r. if key r < key b then r else b) x xs)"
  shows "first_min key (filter P (x # xs)) = Some (foldl (\<lambda>b r. if key r < key b then r else b) x xs)"
  using assms
proof (induction xs rule: rev_induct)
  case Nil
  then show ?case by simp
next
  case (snoc y ys)
  let ?f = "\<lambda>b r. if key r < key b then r else b"
  let ?m = "foldl ?f x ys"
  show ?case
  proof (cases "key y < key ?m")
    case False
    with snoc have "P ?m" by simp
    with snoc.IH have ih: "first_min key (filter P (x # ys)) = Some ?m" by simp
    have "filter P (x # ys @ [y]) = filter P (x # ys) @ filter P [y]" by simp
    with ih False show ?thesis by (simp add: first_min_append)
  next
    case True
    with snoc.prems have "P y" by simp
    have split: "filter P (x # ys @ [y]) = filter P (x # ys) @ [y]" using \<open>P y\<close> by simp
    show ?thesis
    proof (cases "filter P (x # ys)")
      case Nil
      with split True show ?thesis by simp
    next
      case (Cons z zs)
      have "foldl ?f z zs \<in> set (filter P (x # ys))" unfolding Cons by (rule foldl_min(1))
      then have "foldl ?f z zs \<in> set (x # ys)" unfolding set_filter by blast
      then have "key ?m \<le> key (foldl ?f z zs)" using foldl_min(2) [of x ys key] by blast
      with True have "key y < key (foldl ?f z zs)" by simp
      with split Cons True show ?thesis by simp
    qed
  qed
qed

lemma first_min_keep:
  fixes key :: "'a \<Rightarrow> 'b :: linorder"
  assumes "\<And>a. first_min key xs = Some a \<Longrightarrow> P a"
  shows "first_min key (filter P xs @ ys) = first_min key (xs @ ys)"
proof (cases xs)
  case Nil
  then show ?thesis by simp
next
  case (Cons z zs)
  with assms have "P (foldl (\<lambda>b r. if key r < key b then r else b) z zs)" by simp
  from foldl_min_filter [where P = P and key = key and x = z and xs = zs, OF this] Cons show ?thesis
    by (simp only: first_min_append first_min.simps)
qed

lemma find_keep:
  assumes "\<And>a. find Q xs = Some a \<Longrightarrow> P a"
  shows "find Q (filter P xs @ ys) = find Q (xs @ ys)"
  using assms
proof (induction xs)
  case Nil
  then show ?case by simp
next
  case (Cons x xs)
  then show ?case by (cases "Q x") auto
qed

lemma last_two_keep:
  assumes "xs \<noteq> [] \<Longrightarrow> P (last xs)" and "length xs > 1 \<Longrightarrow> P (xs ! (length xs - 2))"
  shows "(filter P xs @ ys = []) = (xs @ ys = [])" "last (filter P xs @ ys) = last (xs @ ys)"
    "(length (filter P xs @ ys) > 1) = (length (xs @ ys) > 1)"
    "length (xs @ ys) > 1 \<Longrightarrow> (filter P xs @ ys) ! (length (filter P xs @ ys) - 2) = (xs @ ys) ! (length (xs @ ys) - 2)"
proof -
  consider "xs = []" | x where "xs = [x]" | zs a b where "xs = zs @ [a, b]"
  proof (cases xs rule: rev_cases)
    case Nil
    then show ?thesis by (rule that(1))
  next
    case (snoc ys b)
    then show ?thesis by (cases ys rule: rev_cases) (auto intro: that(2,3))
  qed
  then have "(filter P xs @ ys = []) = (xs @ ys = []) \<and> last (filter P xs @ ys) = last (xs @ ys)
    \<and> (length (filter P xs @ ys) > 1) = (length (xs @ ys) > 1)
    \<and> (length (xs @ ys) > 1 \<longrightarrow> (filter P xs @ ys) ! (length (filter P xs @ ys) - 2) = (xs @ ys) ! (length (xs @ ys) - 2))"
  proof cases
    case 1
    then show ?thesis by simp
  next
    case (2 x)
    with assms(1) show ?thesis by simp
  next
    case (3 zs a b)
    with assms have "P a" "P b" by (simp_all add: nth_append)
    have two: "(us @ a # b # ys) ! (length (us @ a # b # ys) - 2) = (a # b # ys) ! length ys" for us
      by (simp add: nth_append)
    from 3 \<open>P a\<close> \<open>P b\<close> two [of "filter P zs"] two [of zs] show ?thesis by simp
  qed
  then show "(filter P xs @ ys = []) = (xs @ ys = [])" "last (filter P xs @ ys) = last (xs @ ys)"
    "(length (filter P xs @ ys) > 1) = (length (xs @ ys) > 1)"
    "length (xs @ ys) > 1 \<Longrightarrow> (filter P xs @ ys) ! (length (filter P xs @ ys) - 2) = (xs @ ys) ! (length (xs @ ys) - 2)"
    by blast+
qed

definition prune :: "retention_policy \<Rightarrow> string list \<Rightarrow> checkpoint list \<Rightarrow> checkpoint list" where
  "prune p inherited_roles rs = filter (\<lambda>r. kept_path (keeps p inherited_roles rs) (relative_path r)) rs"

lemma kept_pathI: "(r, role) \<in> set ks \<Longrightarrow> kept_path ks (relative_path r)"
  by (force simp: kept_path_def)

lemma keeps_mem: "(r, role) \<in> set (keeps p inh rs) \<longleftrightarrow>
    (rs \<noteq> [] \<and> r = last rs \<and> role = ''latest'')
    \<or> (length rs > 1 \<and> r = rs ! (length rs - 2) \<and> role = ''previous'')
    \<or> (best_record rs = Some r \<and> role = ''best'')
    \<or> (\<exists>m \<in> set (local_milestones p inh). milestone_record rs m = Some r \<and> role = milestone_role (ms_name m))
    \<or> (terminal_record p rs = Some r \<and> role = ''terminal'')"
proof -
  have "(r, role) \<in> set (opt_role x y) \<longleftrightarrow> y = Some r \<and> role = x" for x y
    by (auto simp: opt_role_def split: option.splits)
  then show ?thesis by (auto simp: keeps_def)
qed

lemma keeps_cong:
  assumes "(xs = []) = (ys = [])" and "last xs = last ys" and "(length xs > 1) = (length ys > 1)"
    and "length ys > 1 \<Longrightarrow> xs ! (length xs - 2) = ys ! (length ys - 2)"
    and "best_record xs = best_record ys" and "terminal_record p xs = terminal_record p ys"
    and "map (\<lambda>m. opt_role (milestone_role (ms_name m)) (milestone_record xs m)) (local_milestones p inh)
      = map (\<lambda>m. opt_role (milestone_role (ms_name m)) (milestone_record ys m)) (local_milestones p inh)"
  shows "keeps p inh xs = keeps p inh ys"
proof -
  have "(if xs = [] then [] else [(last xs, ''latest'')]) = (if ys = [] then [] else [(last ys, ''latest'')])"
    using assms(1,2) by (simp only:)
  moreover have "(if length xs > 1 then [(xs ! (length xs - 2), ''previous'')] else [])
      = (if length ys > 1 then [(ys ! (length ys - 2), ''previous'')] else [])"
    using assms(3,4) by (cases "length ys > 1") (simp_all only: if_True if_False)
  ultimately show ?thesis unfolding keeps_def by (simp only: assms(5-7))
qed

lemma keeps_prune: "keeps p inh (prune p inh rs @ new) = keeps p inh (rs @ new)"
proof -
  let ?P = "\<lambda>r. kept_path (keeps p inh rs) (relative_path r)"
  have last: "rs \<noteq> [] \<Longrightarrow> ?P (last rs)"
    by (rule kept_pathI [of _ "''latest''"]) (simp add: keeps_mem)
  have prev: "length rs > 1 \<Longrightarrow> ?P (rs ! (length rs - 2))"
    by (rule kept_pathI [of _ "''previous''"]) (simp add: keeps_mem)
  have best: "?P a" if "best_record rs = Some a" for a
    using that by (intro kept_pathI [of _ "''best''"]) (simp add: keeps_mem)
  have mile: "?P a" if "milestone_record rs m = Some a" "m \<in> set (local_milestones p inh)" for a m
    by (rule kept_pathI [of _ "milestone_role (ms_name m)"]) (unfold keeps_mem, use that in blast)
  have ends: "?P a" if "terminal_record p rs = Some a" for a
    using that by (intro kept_pathI [of _ "''terminal''"]) (simp add: keeps_mem)
  note two = last_two_keep [of rs ?P new, OF last prev]
  have "best_record (filter ?P rs @ new) = best_record (rs @ new)"
    using first_min_keep [of loss_key "filter (\<lambda>r. validation_loss r \<noteq> None) rs" ?P] best
    by (simp add: best_record_def filter_filter conj_commute)
  moreover have "milestone_record (filter ?P rs @ new) m = milestone_record (rs @ new) m"
    if "m \<in> set (local_milestones p inh)" for m
    unfolding milestone_record_def using mile [unfolded milestone_record_def] that by (intro find_keep) blast
  then have "map (\<lambda>m. opt_role (milestone_role (ms_name m)) (milestone_record (filter ?P rs @ new) m)) (local_milestones p inh)
      = map (\<lambda>m. opt_role (milestone_role (ms_name m)) (milestone_record (rs @ new) m)) (local_milestones p inh)"
    by (intro map_cong) simp_all
  moreover have "terminal_record p (filter ?P rs @ new) = terminal_record p (rs @ new)"
    unfolding terminal_record_def using ends [unfolded terminal_record_def] by (intro find_keep) blast
  ultimately show ?thesis
    unfolding prune_def using two by (intro keeps_cong)
qed

section \<open>Rounds of saving and pruning\<close>

record save_round =
  new_records :: "checkpoint list"
  previous_rows :: "previous_row list"
  bytes_of :: "checkpoint \<Rightarrow> int"
  root_bytes :: int

text \<open>One projection of a run with a policy: the store, the new generations, the pruned store.\<close>

definition retention_round :: "retention_policy \<Rightarrow> (reference \<times> int) list \<Rightarrow> checkpoint list \<Rightarrow> save_round
    \<Rightarrow> retention_error + checkpoint list" where
  "retention_round p inherited store s = project_records
     (Some (p, \<lambda>rs. plan_retention p rs inherited (previous_rows s) (bytes_of s) (root_bytes s))) False
     (store @ new_records s)"

definition role_names :: "(reference \<times> int) list \<Rightarrow> string list" where
  "role_names inherited = concat (map (r_roles \<circ> fst) inherited)"

lemma plan_retention_Inr:
  assumes "plan_retention p records inherited previous bytes at_root = Inr rep"
  shows "map fst (retained_local rep) = prune p (role_names inherited) (sort_key record_key records)"
    "pruned rep = map relative_path (filter (\<lambda>r. \<not> kept_path (keeps p (role_names inherited) (sort_key record_key records))
        (relative_path r)) (sort_key record_key records))"
    "retained_bytes rep = (\<Sum>(_, n)\<leftarrow>inherited. n) + (\<Sum>r\<leftarrow>map fst (retained_local rep). bytes r)"
    "retained_bytes rep \<le> max_retained_bytes p" "observed_peak rep \<le> max_peak_bytes p"
    "int (length inherited + length (retained_local rep)) \<le> max_generations p"
    "\<forall>(r, roles, n) \<in> set (retained_local rep). n = bytes r \<and> n \<le> max_generation_bytes p
        \<and> roles = roles_of (keeps p (role_names inherited) (sort_key record_key records)) (relative_path r)"
  using assms
  by (auto simp: plan_retention_def Let_def prune_def role_names_def comp_def list_ex_iff not_less split: if_splits)

lemma sort_key_sorted: "sorted (map record_key xs) \<Longrightarrow> sort_key record_key xs = xs"
  by (rule sort_key_id_if_sorted)

lemma retention_round_Inr:
  assumes "retention_round p inherited store s = Inr store'" and "sorted (map record_key (store @ new_records s))"
  shows "store' = prune p (role_names inherited) (store @ new_records s)"
proof -
  let ?rs = "store @ new_records s"
  have srt: "sort_key record_key ?rs = ?rs" by (rule sort_key_sorted [OF assms(2)])
  from assms(1) obtain rep where rep: "plan_retention p ?rs inherited (previous_rows s) (bytes_of s) (root_bytes s) = Inr rep"
    and st: "store' = (if ?rs = [] then [] else filter (\<lambda>r. relative_path r \<in> relative_path ` fst ` set (retained_local rep)) ?rs)"
    by (auto simp: retention_round_def project_records_def srt Let_def split: if_splits)
  have kept: "fst ` set (retained_local rep) = set (prune p (role_names inherited) ?rs)"
    using plan_retention_Inr(1) [OF rep] srt by (metis image_set)
  have "relative_path r \<in> relative_path ` set (prune p (role_names inherited) ?rs)
      \<longleftrightarrow> kept_path (keeps p (role_names inherited) ?rs) (relative_path r)" if "r \<in> set ?rs" for r
    using that by (auto simp: prune_def)
  then have "filter (\<lambda>r. relative_path r \<in> relative_path ` fst ` set (retained_local rep)) ?rs = prune p (role_names inherited) ?rs"
    unfolding kept by (subst prune_def) (rule filter_cong, simp_all)
  then show ?thesis using st by (auto simp: prune_def)
qed

lemma keeps_subset: "fst ` set (keeps p inh rs) \<subseteq> set rs"
proof -
  have "r \<in> set rs" if "(r, role) \<in> set (keeps p inh rs)" for r role
  proof -
    have best: "best_record rs = Some r \<Longrightarrow> r \<in> set rs"
    proof -
      assume b: "best_record rs = Some r"
      then obtain x xs where x: "filter (\<lambda>r. validation_loss r \<noteq> None) rs = x # xs"
        by (cases "filter (\<lambda>r. validation_loss r \<noteq> None) rs") (simp_all add: best_record_def)
      with b foldl_min(1) [of loss_key x xs] have "r \<in> set (x # xs)" by (simp add: best_record_def)
      then show ?thesis unfolding x [symmetric] by simp
    qed
    from that show ?thesis
      unfolding keeps_mem
      by (elim disjE conjE bexE) (auto simp: milestone_record_def terminal_record_def best dest: find_Some_mem)
  qed
  then show ?thesis by auto
qed

lemma rounds_store:
  assumes "foldE (retention_round p inherited) store rounds = Inr store'"
    and "sorted (map record_key (history @ concat (map new_records rounds)))"
    and "set store \<subseteq> set history" and "sorted (map record_key store)"
    and "\<forall>new. keeps p (role_names inherited) (store @ new) = keeps p (role_names inherited) (history @ new)"
  shows "set store' \<subseteq> set (history @ concat (map new_records rounds))
    \<and> (\<forall>new. keeps p (role_names inherited) (store' @ new)
         = keeps p (role_names inherited) (history @ concat (map new_records rounds) @ new))
    \<and> (rounds \<noteq> [] \<longrightarrow> fst ` set (keeps p (role_names inherited) (history @ concat (map new_records rounds))) \<subseteq> set store')"
  using assms
proof (induction rounds arbitrary: store history)
  case Nil
  then show ?case by simp
next
  case (Cons s rounds)
  let ?k = "keeps p (role_names inherited)"
  from Cons.prems(1) obtain mid where mid: "retention_round p inherited store s = Inr mid"
    "foldE (retention_round p inherited) mid rounds = Inr store'" by auto
  have srt: "sorted (map record_key (store @ new_records s))"
    using Cons.prems(2,3,4) by (auto simp: sorted_append)
  have pm: "mid = prune p (role_names inherited) (store @ new_records s)" by (rule retention_round_Inr [OF mid(1) srt])
  have keep: "\<forall>new. ?k (mid @ new) = ?k ((history @ new_records s) @ new)"
    unfolding pm keeps_prune using Cons.prems(5) by simp
  have sub: "set mid \<subseteq> set (history @ new_records s)" using Cons.prems(3) by (auto simp: pm prune_def)
  have smid: "sorted (map record_key mid)" unfolding pm prune_def by (rule sorted_filter [OF srt])
  have hist: "sorted (map record_key ((history @ new_records s) @ concat (map new_records rounds)))"
    using Cons.prems(2) by simp
  note ih = Cons.IH [OF mid(2) hist sub smid keep]
  have "fst ` set (?k (history @ new_records s)) \<subseteq> set mid"
  proof
    fix r
    assume "r \<in> fst ` set (?k (history @ new_records s))"
    moreover have "?k (history @ new_records s) = ?k (store @ new_records s)" using Cons.prems(5) by simp
    ultimately obtain role where "(r, role) \<in> set (?k (store @ new_records s))" by auto
    then show "r \<in> set mid"
      using keeps_subset [of p "role_names inherited" "store @ new_records s"]
      by (auto simp: pm prune_def intro: kept_pathI)
  qed
  with ih mid(2) show ?case by (cases rounds) auto
qed

text \<open>
  C17. Pruning loses nothing. However many rounds of saving and pruning a run has gone through,
  the records chosen as latest, previous, best, milestones and terminal are exactly those that
  would be chosen if nothing had ever been deleted, all of them are still in the store, and the
  same holds for whatever is saved next. The records are saved in ascending order of step and generation, as a
  trainer saves them.
\<close>

theorem pruning_loses_nothing:
  assumes "foldE (retention_round p inherited) [] rounds = Inr store" and "rounds \<noteq> []"
    and "sorted (map record_key (concat (map new_records rounds)))"
  shows "fst ` set (keeps p (role_names inherited) (concat (map new_records rounds))) \<subseteq> set store
    \<and> set store \<subseteq> set (concat (map new_records rounds))
    \<and> keeps p (role_names inherited) (store @ new)
      = keeps p (role_names inherited) (concat (map new_records rounds) @ new)"
  using rounds_store [OF assms(1), of "[]"] assms(2,3) by simp

section \<open>The keep-set always fits\<close>

text \<open>Inherited references each carry roles, no role twice, all of declared milestones.\<close>

definition sound_references :: "retention_policy \<Rightarrow> (reference \<times> int) list \<Rightarrow> bool" where
  "sound_references p inherited \<longleftrightarrow> list_all (\<lambda>(i, n). r_roles i \<noteq> []) inherited
     \<and> distinct (role_names inherited)
     \<and> set (role_names inherited) \<subseteq> set (map (milestone_role \<circ> ms_name) (milestones p))"

lemma sum_list_bound:
  fixes f :: "'a \<Rightarrow> int"
  shows "(\<And>x. x \<in> set xs \<Longrightarrow> f x \<le> b) \<Longrightarrow> (\<Sum>x\<leftarrow>xs. f x) \<le> int (length xs) * b"
proof (induction xs)
  case Nil
  then show ?case by simp
next
  case (Cons x xs)
  then have "f x \<le> b" "(\<Sum>x\<leftarrow>xs. f x) \<le> int (length xs) * b" by simp_all
  then show ?case by (simp add: algebra_simps)
qed

lemma length_keeps: "length (keeps p inh rs) \<le> 4 + length (local_milestones p inh)"
proof -
  have one: "length (opt_role r x) \<le> 1" for r x by (simp add: opt_role_def split: option.splits)
  have "length (concat (map (\<lambda>m. opt_role (milestone_role (ms_name m)) (milestone_record rs m)) ms)) \<le> length ms" for ms
  proof (induction ms)
    case Nil
    then show ?case by simp
  next
    case (Cons m ms)
    with one [of "milestone_role (ms_name m)" "milestone_record rs m"] show ?case by simp
  qed
  note ms = this [of "local_milestones p inh"]
  have "length (if rs = [] then [] else [(last rs, ''latest'')]) \<le> 1"
    "length (if length rs > 1 then [(rs ! (length rs - 2), ''previous'')] else []) \<le> 1" by simp_all
  with ms one [of "''best''" "best_record rs"] one [of "''terminal''" "terminal_record p rs"]
  show ?thesis unfolding keeps_def length_append by linarith
qed

lemma length_prune:
  assumes "distinct (map relative_path rs)"
  shows "length (prune p inh rs) \<le> length (keeps p inh rs)"
proof -
  have "distinct (map relative_path (prune p inh rs))" unfolding prune_def by (rule distinct_map_filter [OF assms])
  then have "length (prune p inh rs) = card (set (map relative_path (prune p inh rs)))"
    by (metis distinct_card length_map)
  also have "\<dots> \<le> card (relative_path ` fst ` set (keeps p inh rs))"
    by (rule card_mono) (auto simp: prune_def kept_path_def)
  also have "\<dots> \<le> card (fst ` set (keeps p inh rs))" by (rule card_image_le) simp
  also have "\<dots> \<le> card (set (keeps p inh rs))" by (rule card_image_le) simp
  also have "\<dots> \<le> length (keeps p inh rs)" by (rule card_length)
  finally show ?thesis .
qed

lemma length_role_names: "list_all (\<lambda>(i, n). r_roles i \<noteq> []) inherited \<Longrightarrow> length inherited \<le> length (role_names inherited)"
proof (induction inherited)
  case Nil
  then show ?case by simp
next
  case (Cons x inherited)
  then have "r_roles (fst x) \<noteq> []" "length inherited \<le> length (role_names inherited)" by (auto simp: case_prod_beta)
  then show ?case by (cases "r_roles (fst x)") (simp_all add: role_names_def)
qed

lemma mset_map_partition:
  "mset (map f (filter P xs)) + mset (map f (filter (\<lambda>x. \<not> P x) xs)) = mset (map f xs)"
  by (induction xs) auto

lemma length_references:
  assumes "sound_references p inherited"
  shows "length inherited + length (local_milestones p (role_names inherited)) \<le> length (milestones p)"
proof -
  let ?S = "role_names inherited" and ?role = "milestone_role \<circ> ms_name"
  have "length inherited \<le> length ?S"
    using assms by (intro length_role_names) (simp add: sound_references_def)
  also have "\<dots> = card (set ?S)" using assms by (simp add: sound_references_def distinct_card)
  also have "\<dots> \<le> card (?role ` set (filter (\<lambda>m. ?role m \<in> set ?S) (milestones p)))"
    using assms by (intro card_mono) (auto simp: sound_references_def)
  also have "\<dots> \<le> card (set (filter (\<lambda>m. ?role m \<in> set ?S) (milestones p)))" by (rule card_image_le) simp
  also have "\<dots> \<le> length (filter (\<lambda>m. ?role m \<in> set ?S) (milestones p))" by (rule card_length)
  finally show ?thesis
    using sum_length_filter_compl [of "\<lambda>m. ?role m \<in> set ?S" "milestones p"] by (simp add: local_milestones_def)
qed

text \<open>
  A valid policy never has to refuse its own keep-set. For a valid policy and verified
  generations with distinct directories, planning never fails for the number or the bytes of what
  is kept: it either names a lost or an oversized checkpoint or an exceeded peak, or returns a
  plan that keeps or prunes every record, within the declared limits.
\<close>

theorem keep_set_always_fits:
  assumes "valid_policy p = Inr ()" and "sound_references p inherited" and "distinct (map relative_path records)"
  shows "case plan_retention p records inherited previous directory_bytes at_root of
      Inl e \<Rightarrow> e \<in> {PreviousMissing, InheritedTooLarge, CheckpointTooLarge, PeakExceeded}
    | Inr rep \<Rightarrow> mset (map relative_path records) = mset (map (relative_path \<circ> fst) (retained_local rep)) + mset (pruned rep)
        \<and> int (length inherited + length (retained_local rep)) \<le> retained_upper p
        \<and> retained_bytes rep \<le> max_retained_bytes p"
proof -
  let ?rs = "sort_key record_key records" and ?inh = "role_names inherited"
  let ?kept = "prune p ?inh ?rs"
  have d: "distinct (map relative_path ?rs)"
    using assms(3) by (metis mset_map mset_sort mset_eq_imp_distinct_iff)
  have pol: "0 < max_generation_bytes p" "retained_upper p \<le> max_generations p"
    "retained_upper p * max_generation_bytes p \<le> max_retained_bytes p"
    using assms(1) by (auto simp: valid_policy_def split: if_splits)
  have count: "int (length inherited + length ?kept) \<le> retained_upper p"
    using length_prune [OF d, of p ?inh] length_keeps [of p ?inh ?rs] length_references [OF assms(2)]
    by (simp add: retained_upper_def)
  have bytes: "(\<Sum>(_, n)\<leftarrow>inherited. n) + (\<Sum>r\<leftarrow>?kept. directory_bytes r) \<le> max_retained_bytes p"
    if "\<not> list_ex (\<lambda>(_, n). n > max_generation_bytes p) inherited"
      "\<not> list_ex (\<lambda>r. directory_bytes r > max_generation_bytes p) ?kept"
  proof -
    have "(\<Sum>(_, n)\<leftarrow>inherited. n) \<le> int (length inherited) * max_generation_bytes p"
      using that(1) by (intro sum_list_bound) (auto simp: list_ex_iff not_less)
    moreover have "(\<Sum>r\<leftarrow>?kept. directory_bytes r) \<le> int (length ?kept) * max_generation_bytes p"
      using that(2) by (intro sum_list_bound) (auto simp: list_ex_iff not_less)
    moreover have "int (length inherited + length ?kept) * max_generation_bytes p \<le> retained_upper p * max_generation_bytes p"
      using count pol(1) by (intro mult_right_mono) simp_all
    ultimately show ?thesis using pol(3) by (simp add: algebra_simps)
  qed
  show ?thesis
  proof (cases "plan_retention p records inherited previous directory_bytes at_root")
    case (Inl e)
    have "e \<noteq> KeepSetTooLarge"
    proof
      assume "e = KeepSetTooLarge"
      with Inl have "\<not> list_ex (\<lambda>(_, n). n > max_generation_bytes p) inherited"
        "\<not> list_ex (\<lambda>r. directory_bytes r > max_generation_bytes p) ?kept"
        "int (length inherited + length ?kept) > max_generations p
          \<or> (\<Sum>(_, n)\<leftarrow>inherited. n) + (\<Sum>r\<leftarrow>?kept. directory_bytes r) > max_retained_bytes p"
        by (auto simp: plan_retention_def Let_def prune_def role_names_def comp_def split: if_splits)
      with bytes count pol(2) show False by linarith
    qed
    with Inl show ?thesis by (auto simp: plan_retention_def Let_def split: if_splits)
  next
    case (Inr rep)
    note r = plan_retention_Inr [OF Inr]
    have "mset (map relative_path ?rs) = mset (map relative_path ?kept) + mset (pruned rep)"
        unfolding r(2) prune_def by (rule mset_map_partition [symmetric])
    then have "mset (map relative_path records) = mset (map (relative_path \<circ> fst) (retained_local rep)) + mset (pruned rep)"
      using r(1) by (metis list.map_comp mset_map mset_sort)
    moreover have "length (retained_local rep) = length ?kept" using r(1) by (metis length_map)
    ultimately show ?thesis using Inr r(4) count by simp
  qed
qed

section \<open>References inherited from a parent\<close>

definition refs_ok :: "int \<Rightarrow> int \<Rightarrow> reference list \<Rightarrow> string list \<Rightarrow> bool" where
  "refs_ok step tokens refs roles \<longleftrightarrow> mset (concat (map r_roles refs)) = mset roles
     \<and> distinct (map verified_location refs)
     \<and> list_all (\<lambda>i. r_roles i \<noteq> [] \<and> r_step i \<le> step \<and> r_tokens i \<le> tokens) refs"

lemma add_role_locations:
  "set (map verified_location (add_role row role ts)) = insert (verified_location row) (set (map verified_location ts))"
  by (induction row role ts rule: add_role.induct) auto

lemma add_role_ok:
  assumes "refs_ok step tokens ts roles" and "r_step row \<le> step" and "r_tokens row \<le> tokens"
  shows "refs_ok step tokens (add_role row role ts) (roles @ [role])"
proof -
  have "mset (concat (map r_roles (add_role row role ts))) = mset (concat (map r_roles ts)) + {#role#}"
    by (induction row role ts rule: add_role.induct) auto
  moreover have "distinct (map verified_location ts) \<Longrightarrow> distinct (map verified_location (add_role row role ts))"
  proof (induction row role ts rule: add_role.induct)
    case (1 row role)
    then show ?case by simp
  next
    case (2 row role t ts)
    then show ?case using add_role_locations [of row role ts] by auto
  qed
  moreover have "list_all (\<lambda>i. r_roles i \<noteq> [] \<and> r_step i \<le> step \<and> r_tokens i \<le> tokens) ts
      \<Longrightarrow> list_all (\<lambda>i. r_roles i \<noteq> [] \<and> r_step i \<le> step \<and> r_tokens i \<le> tokens) (add_role row role ts)"
    using assms(2,3) by (induction row role ts rule: add_role.induct) auto
  ultimately show ?thesis using assms(1) by (simp add: refs_ok_def)
qed

lemma inherit_one_Inr:
  assumes "inherit_one declared rows step tokens selected item = Inr selected'"
  obtains row where "row \<in> set rows" "r_step row \<le> step" "r_tokens row \<le> tokens"
    "selected' = add_role row (milestone_role (ms_name item)) selected"
proof -
  from assms obtain row where row: "filter (\<lambda>row. milestone_role (ms_name item) \<in> set (r_roles row) \<and> r_step row \<le> step
      \<and> r_tokens row \<le> tokens) rows = [row]" "selected' = add_role row (milestone_role (ms_name item)) selected"
    by (auto simp: inherit_one_def Let_def split: if_splits list.splits)
  have "row \<in> set (filter (\<lambda>row. milestone_role (ms_name item) \<in> set (r_roles row) \<and> r_step row \<le> step
      \<and> r_tokens row \<le> tokens) rows)" unfolding row(1) by simp
  with row(2) show thesis by (intro that) auto
qed

lemma inherit_fold:
  "foldE (inherit_one declared rows step tokens) selected items = Inr refs \<Longrightarrow> refs_ok step tokens selected roles
     \<Longrightarrow> refs_ok step tokens refs (roles @ map (milestone_role \<circ> ms_name) items)"
proof (induction items arbitrary: selected roles)
  case Nil
  then show ?case by simp
next
  case (Cons item items)
  from Cons.prems(1) obtain mid where mid: "inherit_one declared rows step tokens selected item = Inr mid"
    "foldE (inherit_one declared rows step tokens) mid items = Inr refs" by auto
  from mid(1) obtain row where "r_step row \<le> step" "r_tokens row \<le> tokens"
    "mid = add_role row (milestone_role (ms_name item)) selected" by (rule inherit_one_Inr)
  with add_role_ok [OF Cons.prems(2)] have "refs_ok step tokens mid (roles @ [milestone_role (ms_name item)])" by simp
  from Cons.IH [OF mid(2) this] show ?case by simp
qed

text \<open>
  A resumed run inherits exactly the milestones it has passed. When the references of a
  parent are accepted, their roles are the roles of the milestones reached at the resumed
  counters, each once; no location occurs twice, no reference lies beyond the resumed counters;
  and such references are always within the limits of a valid policy.
\<close>

theorem inherited_exactly_reached:
  assumes "inherited_milestones evidence p step tokens = Inr refs" and "valid_policy p = Inr ()"
  shows "mset (concat (map r_roles refs)) = mset (map (milestone_role \<circ> ms_name)
        (filter (\<lambda>m. step \<ge> ms_step m \<and> tokens \<ge> ms_targets m) (milestones p)))
    \<and> distinct (map verified_location refs)
    \<and> list_all (\<lambda>i. r_step i \<le> step \<and> r_tokens i \<le> tokens) refs
    \<and> sound_references p (map (\<lambda>i. (i, bytes i)) refs)"
proof -
  let ?reached = "filter (\<lambda>m. step \<ge> ms_step m \<and> tokens \<ge> ms_targets m) (milestones p)"
  have "refs_ok step tokens refs (map (milestone_role \<circ> ms_name) ?reached)"
  proof (cases "?reached = []")
    case True
    with assms(1) show ?thesis by (simp add: inherited_milestones_def refs_ok_def)
  next
    case False
    with assms(1) obtain declared rows where "foldE (inherit_one declared rows step tokens) [] ?reached = Inr refs"
      by (auto simp: inherited_milestones_def Let_def split: option.splits)
    from inherit_fold [OF this, of "[]"] show ?thesis by (simp add: refs_ok_def)
  qed
  note ok = this [unfolded refs_ok_def]
  have names: "distinct (map ms_name (milestones p))" using assms(2) by (auto simp: valid_policy_def split: if_splits)
  then have "distinct (map (milestone_role \<circ> ms_name) (milestones p))"
    by (simp add: distinct_map inj_on_def milestone_role_def)
  then have "distinct (map (milestone_role \<circ> ms_name) ?reached)" by (rule distinct_map_filter)
  then have "distinct (concat (map r_roles refs))" using ok by (metis mset_eq_imp_distinct_iff)
  moreover have "set (concat (map r_roles refs)) = set (map (milestone_role \<circ> ms_name) ?reached)"
    using ok by (metis set_mset_mset)
  moreover have "role_names (map (\<lambda>i. (i, bytes i)) refs) = concat (map r_roles refs)"
    by (simp add: role_names_def comp_def)
  ultimately have "sound_references p (map (\<lambda>i. (i, bytes i)) refs)"
    using ok by (auto simp: sound_references_def list_all_iff)
  with ok show ?thesis by (auto simp: list_all_iff)
qed

text \<open>
  An admitted checkpoint fits. When a write is admitted, staging one generation of at most the
  declared size keeps the root within its peak and leaves the reserve free on the disk, and the
  whole unused part of the peak plan is available beside the reserve.
\<close>

theorem admitted_write_fits:
  assumes "admit_write p existing available = Inr (required, projected)" and "written \<le> max_generation_bytes p"
  shows "existing + written \<le> max_peak_bytes p \<and> available - written \<ge> reserve_free_bytes p
    \<and> available - (max_peak_bytes p - existing) \<ge> reserve_free_bytes p
    \<and> projected = existing + max_generation_bytes p \<and> projected \<le> max_peak_bytes p"
  using assms by (auto simp: admit_write_def Let_def split: if_splits)

section \<open>An example\<close>

definition sample_policy :: retention_policy where
  "sample_policy = \<lparr>milestones = [\<lparr>ms_name = ''half'', ms_step = 2, ms_targets = 20\<rparr>], terminal_step = 9,
     terminal_targets = 90, max_generations = 5, max_generation_bytes = 10, max_retained_bytes = 50,
     max_peak_bytes = 60, reserve_free_bytes = 1\<rparr>"

definition sample_checkpoint :: "int \<Rightarrow> string \<Rightarrow> rat \<Rightarrow> checkpoint" where
  "sample_checkpoint n path loss = \<lparr>generation_id = n, relative_path = path, manifest_sha256 = path, c_step = n,
     c_tokens = 10 * n, validation_loss = Some loss\<rparr>"

definition sample_rounds :: "save_round list" where
  "sample_rounds = map (\<lambda>(n, path, loss). \<lparr>new_records = [sample_checkpoint n path loss], previous_rows = [],
     bytes_of = (\<lambda>_. 10), root_bytes = 50\<rparr>) [(1, ''a'', 3), (2, ''b'', 1), (3, ''c'', 2), (4, ''d'', 2), (5, ''e'', 2)]"

definition sample_store :: "checkpoint list" where
  "sample_store = [sample_checkpoint 2 ''b'' 1, sample_checkpoint 4 ''d'' 2, sample_checkpoint 5 ''e'' 2]"

lemma sample_run: "foldE (retention_round sample_policy []) [] sample_rounds = Inr sample_store"
  by code_simp

theorem pruning_loses_nothing_witness:
  "milestone_record sample_store \<lparr>ms_name = ''half'', ms_step = 2, ms_targets = 20\<rparr> = Some (sample_checkpoint 2 ''b'' 1)
   \<and> keeps sample_policy [] sample_store = keeps sample_policy [] (concat (map new_records sample_rounds))"
proof -
  have "sorted (map record_key (concat (map new_records sample_rounds)))" "sample_rounds \<noteq> []" by code_simp+
  from pruning_loses_nothing [OF sample_run this(2,1), of "[]"] show ?thesis
    by (simp add: role_names_def sample_store_def milestone_record_def reaches_def sample_checkpoint_def)
qed

lemma sample_policy_valid: "valid_policy sample_policy = Inr ()"
  by code_simp

theorem keep_set_always_fits_witness:
  "plan_retention sample_policy sample_store [] [] (\<lambda>_. 10) 50 \<noteq> Inl KeepSetTooLarge"
proof -
  have "sound_references sample_policy []" "distinct (map relative_path sample_store)" by code_simp+
  from keep_set_always_fits [OF sample_policy_valid this, of "[]" "\<lambda>_. 10" 50] show ?thesis
    by (auto split: sum.splits)
qed

definition sample_parent :: "milestone list \<times> reference list" where
  "sample_parent = (milestones sample_policy, [\<lparr>verified_location = ''/p/b'', r_manifest = ''b'', r_step = 2, r_tokens = 20,
     r_roles = [''best'', ''milestone:half'']\<rparr>])"

theorem inherited_exactly_reached_witness:
  "\<exists>refs. inherited_milestones (Some sample_parent) sample_policy 4 40 = Inr refs \<and> length refs = 1
     \<and> sound_references sample_policy (map (\<lambda>i. (i, 10)) refs)"
proof -
  have e: "inherited_milestones (Some sample_parent) sample_policy 4 40 = Inr [\<lparr>verified_location = ''/p/b'',
      r_manifest = ''b'', r_step = 2, r_tokens = 20, r_roles = [''milestone:half'']\<rparr>]"
    by code_simp
  from inherited_exactly_reached [OF e sample_policy_valid, of "\<lambda>_. 10"] e show ?thesis by simp
qed

theorem admitted_write_fits_witness:
  "admit_write sample_policy 50 100 = Inr (11, 60) \<and> 100 - 10 \<ge> reserve_free_bytes sample_policy"
proof -
  have a: "admit_write sample_policy 50 100 = Inr (11, 60)" by code_simp
  from admitted_write_fits [OF a, of 10] a show ?thesis by (simp add: sample_policy_def)
qed

end
