(* ===== verification/Split_Lookup.thy ===== *)
theory Split_Lookup
  imports Lab_Prelude "HOL-Library.List_Lexorder"
begin

text \<open>
  \<open>src/sparselab/corpus/split_lookup.py\<close>: a read-only map from document ids to their split, kept
  as three byte arrays (the UTF-8 keys one after the other, their offsets as little-endian 64-bit
  integers, one byte per split) and searched by bisection.

  A Python string is the list of its code points, a byte is a natural number below 256, both
  ordered lexicographically as Python orders them. The rows come parsed from a JSONL file; a value
  that is not an object with the two keys is \<open>None\<close>. The change stamp of the file is an argument.
\<close>

section \<open>UTF-8 and packed integers\<close>

type_synonym code_points = "nat list"
type_synonym byte_list = "nat list"

definition surrogate :: "nat \<Rightarrow> bool" where
  "surrogate c \<longleftrightarrow> 55296 \<le> c \<and> c \<le> 57343"

definition utf8_char :: "nat \<Rightarrow> byte_list" where
  "utf8_char c =
     (if c < 128 then [c]
      else if c < 2048 then [192 + c div 64, 128 + c mod 64]
      else if c < 65536 then [224 + c div 4096, 128 + c div 64 mod 64, 128 + c mod 64]
      else [240 + c div 262144, 128 + c div 4096 mod 64, 128 + c div 64 mod 64, 128 + c mod 64])"

definition encodable :: "code_points \<Rightarrow> bool" where
  "encodable s \<longleftrightarrow> list_all (\<lambda>c. c < 1114112 \<and> \<not> surrogate c) s"

definition utf8 :: "code_points \<Rightarrow> byte_list" where
  "utf8 s = concat (map utf8_char s)"

definition pack_q :: "nat \<Rightarrow> byte_list" where
  "pack_q n = map (\<lambda>i. n div 256 ^ i mod 256) [0 ..< 8]"

fun from_le :: "byte_list \<Rightarrow> nat" where
  "from_le [] = 0"
| "from_le (b # bs) = b + 256 * from_le bs"

definition unpack_q :: "byte_list \<Rightarrow> nat \<Rightarrow> nat" where
  "unpack_q bs start = from_le (take 8 (drop start bs))"

section \<open>Building the lookup\<close>

definition split_names :: "string list" where
  "split_names = [''train'', ''validation'', ''test'']"

datatype split_error = BadAssignment | NotEncodable | OffsetOverflow | CountMismatch | SourceChanged | KeyMissing

type_synonym split_row = "(code_points \<times> string) option"

record lookup =
  key_bytes :: byte_list
  offset_bytes :: byte_list
  split_bytes :: byte_list
  row_count :: nat

record build_state =
  building :: lookup
  previous :: "code_points option"
  position :: nat

fun index_of :: "'a \<Rightarrow> 'a list \<Rightarrow> nat" where
  "index_of x [] = 0"
| "index_of x (y # ys) = (if y = x then 0 else Suc (index_of x ys))"

definition pack_offset :: "nat \<Rightarrow> split_error + byte_list" where
  "pack_offset n = (if n < 2 ^ 64 then Inr (pack_q n) else Inl OffsetOverflow)"

definition add_row :: "build_state \<Rightarrow> split_row \<Rightarrow> split_error + build_state" where
  "add_row st row = (case row of
      None \<Rightarrow> Inl BadAssignment
    | Some (document_id, split) \<Rightarrow>
        if document_id = [] \<or> split \<notin> set split_names
           \<or> (case previous st of None \<Rightarrow> False | Some p \<Rightarrow> document_id \<le> p)
        then Inl BadAssignment
        else if \<not> encodable document_id then Inl NotEncodable
        else bindE (pack_offset (position st)) (\<lambda>offset.
          let l = building st; encoded = utf8 document_id
          in Inr \<lparr>building = \<lparr>key_bytes = key_bytes l @ encoded, offset_bytes = offset_bytes l @ offset,
                 split_bytes = split_bytes l @ [index_of split split_names], row_count = row_count l + 1\<rparr>,
               previous = Some document_id, position = position st + length encoded\<rparr>))"

definition build_lookup :: "split_row list \<Rightarrow> nat \<Rightarrow> bool \<Rightarrow> split_error + lookup" where
  "build_lookup rows reference_rows stamp_unchanged =
     bindE (foldE add_row \<lparr>building = \<lparr>key_bytes = [], offset_bytes = [], split_bytes = [], row_count = 0\<rparr>,
         previous = None, position = 0\<rparr> rows) (\<lambda>st.
     bindE (pack_offset (position st)) (\<lambda>offset.
       let l = building st
       in if row_count l \<noteq> reference_rows then Inl CountMismatch
          else if \<not> stamp_unchanged then Inl SourceChanged
          else Inr (l\<lparr>offset_bytes := offset_bytes l @ offset\<rparr>)))"

section \<open>Searching it\<close>

definition key_at :: "lookup \<Rightarrow> nat \<Rightarrow> byte_list" where
  "key_at l i = (let start = unpack_q (offset_bytes l) (8 * i); stop = unpack_q (offset_bytes l) (8 * (i + 1))
     in take (stop - start) (drop start (key_bytes l)))"

function bisect :: "lookup \<Rightarrow> byte_list \<Rightarrow> nat \<Rightarrow> nat \<Rightarrow> nat" where
  "bisect l encoded left right =
     (if left < right then
        let middle = (left + right) div 2
        in if key_at l middle < encoded then bisect l encoded (middle + 1) right
           else bisect l encoded left middle
      else left)"
  by pat_completeness auto
termination
  by (relation "measure (\<lambda>(l, encoded, left, right). right - left)") auto

declare bisect.simps [simp del]

definition get_split :: "lookup \<Rightarrow> code_points \<Rightarrow> split_error + string" where
  "get_split l key =
     (if \<not> encodable key then Inl NotEncodable
      else let encoded = utf8 key; i = bisect l encoded 0 (row_count l)
        in if i = row_count l \<or> key_at l i \<noteq> encoded then Inl KeyMissing
           else Inr (split_names ! (split_bytes l ! i)))"

definition lookup_keys :: "lookup \<Rightarrow> byte_list list" where
  "lookup_keys l = map (key_at l) [0 ..< row_count l]"

section \<open>UTF-8 keeps the order\<close>

lemma list_less_append: "(xs @ ys :: nat list) < xs @ zs \<longleftrightarrow> ys < zs"
  by (induction xs) simp_all

lemma utf8_char_not_Nil [simp]: "utf8_char c \<noteq> []"
  by (simp add: utf8_char_def)

lemma div_mod_order:
  fixes c d :: nat
  assumes "c < d"
  shows "c div 64 < d div 64 \<or> (c div 64 = d div 64 \<and> c mod 64 < d mod 64)"
proof -
  have "c div 64 \<le> d div 64" using assms by (intro div_le_mono) simp
  moreover have "c = 64 * (c div 64) + c mod 64" "d = 64 * (d div 64) + d mod 64" by simp_all
  ultimately show ?thesis using assms by linarith
qed

lemma div_order: "(c::nat) \<le> d \<Longrightarrow> c div k \<le> d div k"
  by (rule div_le_mono)

lemma utf8_char_forms:
  "c < 128 \<Longrightarrow> utf8_char c = [c]"
  "\<not> c < 128 \<Longrightarrow> c < 2048 \<Longrightarrow> utf8_char c = [192 + c div 64, 128 + c mod 64]"
  "\<not> c < 2048 \<Longrightarrow> c < 65536 \<Longrightarrow> utf8_char c = [224 + c div 4096, 128 + c div 64 mod 64, 128 + c mod 64]"
  "\<not> c < 65536 \<Longrightarrow> utf8_char c
     = [240 + c div 262144, 128 + c div 4096 mod 64, 128 + c div 64 mod 64, 128 + c mod 64]"
  unfolding utf8_char_def by (simp_all del: div_less)

text \<open>The lead byte tells the length of the encoding, and longer encodings have larger ones.\<close>

lemma lead_bytes:
  fixes c x :: nat
  shows "c < 128 \<Longrightarrow> c < 192 + x" "c < 2048 \<Longrightarrow> 192 + c div 64 < 224 + x" "c < 65536 \<Longrightarrow> 224 + c div 4096 < 240 + x"
proof -
  show "c < 128 \<Longrightarrow> c < 192 + x" by simp
  assume "c < 2048"
  then have "c div 64 < 32" by (simp add: div_less_iff_less_mult)
  then show "192 + c div 64 < 224 + x" by linarith
next
  assume "c < 65536"
  then have "c div 4096 < 16" by (simp add: div_less_iff_less_mult)
  then show "224 + c div 4096 < 240 + x" by linarith
qed

lemma Cons_less: "(x # xs :: nat list) < y # ys \<longleftrightarrow> x < y \<or> (x = y \<and> xs < ys)"
  by simp

lemma utf8_char_less:
  assumes "c < d"
  shows "utf8_char c @ xs < utf8_char d @ ys"
proof -
  have 1: "c div 64 < d div 64 \<or> (c div 64 = d div 64 \<and> c mod 64 < d mod 64)"
    by (rule div_mod_order [OF assms])
  have 2: "c div 4096 = c div 64 div 64" "d div 4096 = d div 64 div 64"
    "c div 262144 = c div 4096 div 64" "d div 262144 = d div 4096 div 64" by (simp_all add: div_mult2_eq [symmetric])
  have 3: "c div 4096 < d div 4096 \<or> (c div 4096 = d div 4096 \<and> (c div 64 mod 64 < d div 64 mod 64
      \<or> (c div 64 = d div 64 \<and> c mod 64 < d mod 64)))" unfolding 2 using 1 div_mod_order by metis
  have 4: "c div 262144 < d div 262144 \<or> (c div 262144 = d div 262144 \<and> (c div 4096 mod 64 < d div 4096 mod 64
      \<or> (c div 4096 = d div 4096 \<and> (c div 64 mod 64 < d div 64 mod 64
        \<or> (c div 64 = d div 64 \<and> c mod 64 < d mod 64)))))" unfolding 2(3,4) using 3 div_mod_order by metis
  have two: "c < 2048 \<Longrightarrow> c div 64 < 32" by (simp add: div_less_iff_less_mult)
  consider "d < 128" | "\<not> d < 128" "d < 2048" | "\<not> d < 2048" "d < 65536" | "\<not> d < 65536" by blast
  then show ?thesis
  proof cases
    case 1
    with assms show ?thesis by (simp add: utf8_char_forms)
  next
    case d: 2
    show ?thesis
    proof (cases "c < 128")
      case True
      with lead_bytes(1) show ?thesis
        by (simp only: utf8_char_forms(1) utf8_char_forms(2) [OF d] append.simps Cons_less simp_thms)
    next
      case False
      have c: "c < 2048" using assms d by simp
      with False 1 show ?thesis
        by (simp only: utf8_char_forms(2) [OF False c] utf8_char_forms(2) [OF d] append.simps Cons_less
            add_less_cancel_left add_left_cancel) blast
    qed
  next
    case d: 3
    consider "c < 128" | "\<not> c < 128" "c < 2048" | "\<not> c < 2048" "c < 65536" using assms d by linarith
    then show ?thesis
    proof cases
      case c: 1
      then have "c < 224 + d div 4096" by simp
      with c show ?thesis
        by (simp only: utf8_char_forms(1) utf8_char_forms(3) [OF d] append.simps Cons_less simp_thms)
    next
      case c: 2
      with lead_bytes(2) show ?thesis
        by (simp only: utf8_char_forms(2) [OF c] utf8_char_forms(3) [OF d] append.simps Cons_less simp_thms)
    next
      case c: 3
      with 3 show ?thesis
        by (simp only: utf8_char_forms(3) [OF c] utf8_char_forms(3) [OF d] append.simps Cons_less
            add_less_cancel_left add_left_cancel) metis
    qed
  next
    case d: 4
    consider "c < 128" | "\<not> c < 128" "c < 2048" | "\<not> c < 2048" "c < 65536" | "\<not> c < 65536" by blast
    then show ?thesis
    proof cases
      case c: 1
      then have "c < 240 + d div 262144" by simp
      with c show ?thesis
        by (simp only: utf8_char_forms(1) utf8_char_forms(4) [OF d] append.simps Cons_less simp_thms)
    next
      case c: 2
      with two have "192 + c div 64 < 240 + d div 262144" by linarith
      then show ?thesis
        by (simp only: utf8_char_forms(2) [OF c] utf8_char_forms(4) [OF d] append.simps Cons_less simp_thms)
    next
      case c: 3
      with lead_bytes(3) show ?thesis
        by (simp only: utf8_char_forms(3) [OF c] utf8_char_forms(4) [OF d] append.simps Cons_less simp_thms)
    next
      case c: 4
      with 4 show ?thesis
        by (simp only: utf8_char_forms(4) [OF c] utf8_char_forms(4) [OF d] append.simps Cons_less
            add_less_cancel_left add_left_cancel) metis
    qed
  qed
qed

lemma utf8_less_iff: "utf8 xs < utf8 ys \<longleftrightarrow> xs < ys"
proof (induction xs arbitrary: ys)
  case Nil
  have "[] < utf8_char a @ bs" for a bs
    by (cases "utf8_char a") simp_all
  then show ?case by (cases ys) (simp_all add: utf8_def)
next
  case (Cons x xs)
  show ?case
  proof (cases ys)
    case Nil
    then show ?thesis by (simp add: utf8_def)
  next
    case (Cons y ys')
    consider "x < y" | "x = y" | "y < x" by linarith
    then show ?thesis
    proof cases
      case 1
      with utf8_char_less [OF 1] Cons show ?thesis by (simp add: utf8_def)
    next
      case 2
      with Cons Cons.IH [of ys'] show ?thesis by (simp add: utf8_def list_less_append)
    next
      case 3
      with utf8_char_less [OF 3, of "utf8 ys'" "utf8 xs"] Cons show ?thesis by (auto simp: utf8_def)
    qed
  qed
qed

lemma utf8_eq_iff [simp]: "utf8 xs = utf8 ys \<longleftrightarrow> xs = ys"
  by (metis utf8_less_iff neq_iff)

section \<open>The arrays hold the rows\<close>

lemma from_le_pack: "n < 256 ^ k \<Longrightarrow> from_le (map (\<lambda>i. n div 256 ^ i mod 256) [0 ..< k]) = n"
proof (induction k arbitrary: n)
  case 0
  then show ?case by simp
next
  case (Suc k)
  have "map (\<lambda>i. n div 256 ^ i mod 256) [0 ..< Suc k] = n mod 256 # map (\<lambda>i. n div 256 div 256 ^ i mod 256) [0 ..< k]"
    by (simp add: map_upt_Suc div_mult2_eq del: upt_Suc)
  moreover have "n div 256 < 256 ^ k" using Suc.prems by (simp add: div_less_iff_less_mult mult.commute)
  ultimately show ?case using Suc.IH [of "n div 256"] by simp
qed

lemma pack_q_length [simp]: "length (pack_q n) = 8"
  by (simp add: pack_q_def)

lemma unpack_packed:
  assumes "i < length ns" and "\<forall>n \<in> set ns. n < 2 ^ 64"
  shows "unpack_q (concat (map pack_q ns)) (8 * i) = ns ! i"
proof -
  have "drop (8 * i) (concat (map pack_q ns)) = concat (map pack_q (drop i ns))"
  proof (induction ns arbitrary: i)
    case Nil
    then show ?case by simp
  next
    case (Cons n ns)
    then show ?case by (cases i) simp_all
  qed
  also have "\<dots> = pack_q (ns ! i) @ concat (map pack_q (drop (Suc i) ns))"
    using assms(1) by (simp add: Cons_nth_drop_Suc [symmetric])
  finally have "unpack_q (concat (map pack_q ns)) (8 * i) = from_le (pack_q (ns ! i))"
    by (simp add: unpack_q_def)
  moreover have "ns ! i < 256 ^ 8" using assms by (auto dest: nth_mem)
  ultimately show ?thesis using from_le_pack [of "ns ! i" 8] by (simp add: pack_q_def)
qed

text \<open>The offsets of a list of keys: the start of each and the end of the last.\<close>

fun starts :: "nat \<Rightarrow> byte_list list \<Rightarrow> nat list" where
  "starts n [] = []"
| "starts n (k # ks) = n # starts (n + length k) ks"

definition holds_rows :: "lookup \<Rightarrow> (code_points \<times> string) list \<Rightarrow> bool" where
  "holds_rows l rs \<longleftrightarrow> key_bytes l = concat (map (utf8 \<circ> fst) rs)
     \<and> split_bytes l = map (\<lambda>(_, s). index_of s split_names) rs \<and> row_count l = length rs"

definition rows_sorted :: "(code_points \<times> string) list \<Rightarrow> bool" where
  "rows_sorted rs \<longleftrightarrow> sorted_wrt (<) (map fst rs)
     \<and> list_all (\<lambda>(i, s). i \<noteq> [] \<and> s \<in> set split_names \<and> encodable i) rs"

definition built :: "(code_points \<times> string) list \<Rightarrow> build_state \<Rightarrow> bool" where
  "built rs st \<longleftrightarrow> holds_rows (building st) rs \<and> rows_sorted rs
     \<and> offset_bytes (building st) = concat (map pack_q (starts 0 (map (utf8 \<circ> fst) rs)))
     \<and> list_all (\<lambda>n. n < 2 ^ 64) (starts 0 (map (utf8 \<circ> fst) rs))
     \<and> position st = length (key_bytes (building st))
     \<and> previous st = (if rs = [] then None else Some (fst (last rs)))"

lemma starts_snoc: "starts n (ks @ [k]) = starts n ks @ [n + length (concat ks)]"
  by (induction ks arbitrary: n) (simp_all add: add.assoc)

lemma sorted_wrt_snoc_last:
  "sorted_wrt (<) (xs @ [x :: code_points]) \<longleftrightarrow> sorted_wrt (<) xs \<and> (xs = [] \<or> last xs < x)"
proof (cases xs rule: rev_cases)
  case Nil
  then show ?thesis by simp
next
  case (snoc ys y)
  then show ?thesis by (auto simp: sorted_wrt_append)
qed

lemma add_row_cases:
  assumes "built rs st"
  shows "case add_row st row of
      Inr st' \<Rightarrow> (\<exists>i s. row = Some (i, s) \<and> built (rs @ [(i, s)]) st')
    | Inl e \<Rightarrow> (\<exists>i s. row = Some (i, s) \<and> rows_sorted (rs @ [(i, s)])) \<longrightarrow> e = OffsetOverflow"
proof (cases row)
  case None
  then show ?thesis by (simp add: add_row_def)
next
  case (Some r)
  obtain i s where r: "r = (i, s)" by (cases r)
  have prev: "(case previous st of None \<Rightarrow> False | Some p \<Rightarrow> i \<le> p) \<longleftrightarrow> rs \<noteq> [] \<and> i \<le> fst (last rs)"
    using assms by (auto simp: built_def)
  have good: "rows_sorted (rs @ [(i, s)]) \<longleftrightarrow> i \<noteq> [] \<and> s \<in> set split_names \<and> encodable i
      \<and> \<not> (rs \<noteq> [] \<and> i \<le> fst (last rs))"
    using assms by (cases "rs = []") (auto simp: built_def rows_sorted_def sorted_wrt_snoc_last last_map not_le)
  show ?thesis
  proof (cases "rows_sorted (rs @ [(i, s)])")
    case False
    then show ?thesis using good by (auto simp: add_row_def Some r prev Let_def)
  next
    case True
    have row: "add_row st row = bindE (pack_offset (position st)) (\<lambda>offset.
          let l = building st; encoded = utf8 i
          in Inr \<lparr>building = \<lparr>key_bytes = key_bytes l @ encoded, offset_bytes = offset_bytes l @ offset,
                 split_bytes = split_bytes l @ [index_of s split_names], row_count = row_count l + 1\<rparr>,
               previous = Some i, position = position st + length encoded\<rparr>)"
      using True good by (auto simp: add_row_def Some r prev)
    have pos: "position st = length (concat (map (utf8 \<circ> fst) rs))"
      using assms by (simp add: built_def holds_rows_def)
    show ?thesis
    proof (cases "position st < 2 ^ 64")
      case False
      then show ?thesis by (simp add: row pack_offset_def)
    next
      case fits: True
      let ?l = "building st"
      let ?st = "\<lparr>building = \<lparr>key_bytes = key_bytes ?l @ utf8 i, offset_bytes = offset_bytes ?l @ pack_q (position st),
          split_bytes = split_bytes ?l @ [index_of s split_names], row_count = row_count ?l + 1\<rparr>,
        previous = Some i, position = position st + length (utf8 i)\<rparr>"
      have "built (rs @ [(i, s)]) ?st"
        unfolding built_def
      proof (intro conjI)
        show "holds_rows (building ?st) (rs @ [(i, s)])" using assms by (simp add: built_def holds_rows_def)
        show "rows_sorted (rs @ [(i, s)])" by (rule True)
        have snoc: "starts 0 (map (utf8 \<circ> fst) (rs @ [(i, s)])) = starts 0 (map (utf8 \<circ> fst) rs) @ [position st]"
          using pos by (simp add: starts_snoc)
        show "offset_bytes (building ?st) = concat (map pack_q (starts 0 (map (utf8 \<circ> fst) (rs @ [(i, s)]))))"
          unfolding snoc using assms by (simp add: built_def)
        show "list_all (\<lambda>n. n < 2 ^ 64) (starts 0 (map (utf8 \<circ> fst) (rs @ [(i, s)])))"
          unfolding snoc using assms fits by (simp add: built_def)
        show "position ?st = length (key_bytes (building ?st))" using assms by (simp add: built_def)
        show "previous ?st = (if rs @ [(i, s)] = [] then None else Some (fst (last (rs @ [(i, s)]))))" by simp
      qed
      moreover have "add_row st row = Inr ?st" using fits by (simp add: row pack_offset_def Let_def)
      ultimately show ?thesis using Some r by simp
    qed
  qed
qed

definition empty_build :: build_state where
  "empty_build = \<lparr>building = \<lparr>key_bytes = [], offset_bytes = [], split_bytes = [], row_count = 0\<rparr>,
     previous = None, position = 0\<rparr>"

lemma build_lookup_eq: "build_lookup rows n same =
     bindE (foldE add_row empty_build rows) (\<lambda>st. bindE (pack_offset (position st)) (\<lambda>offset.
       if row_count (building st) \<noteq> n then Inl CountMismatch else if \<not> same then Inl SourceChanged
       else Inr ((building st)\<lparr>offset_bytes := offset_bytes (building st) @ offset\<rparr>)))"
  by (simp add: build_lookup_def empty_build_def Let_def)

lemma empty_built: "built [] empty_build"
  by (simp add: built_def empty_build_def holds_rows_def rows_sorted_def)

lemma add_rows_built:
  "built rs st \<Longrightarrow> foldE add_row st rows = Inr st' \<Longrightarrow> \<exists>qs. rows = map Some qs \<and> built (rs @ qs) st'"
proof (induction rows arbitrary: rs st)
  case Nil
  then show ?case by auto
next
  case (Cons row rows)
  from Cons.prems(2) obtain st1 where st1: "add_row st row = Inr st1" "foldE add_row st1 rows = Inr st'" by auto
  with add_row_cases [OF Cons.prems(1), of row] obtain i s where "row = Some (i, s)" "built (rs @ [(i, s)]) st1"
    by auto
  moreover from Cons.IH [OF this(2) st1(2)] obtain qs where "rows = map Some qs" "built ((rs @ [(i, s)]) @ qs) st'"
    by blast
  ultimately show ?case by (intro exI [of _ "(i, s) # qs"]) simp
qed

lemma rows_sorted_prefix: "rows_sorted (rs @ qs) \<Longrightarrow> rows_sorted rs"
  by (simp add: rows_sorted_def sorted_wrt_append)

lemma add_rows_accepts:
  "built rs st \<Longrightarrow> rows_sorted (rs @ qs) \<Longrightarrow> length (concat (map (utf8 \<circ> fst) (rs @ qs))) < 2 ^ 64
     \<Longrightarrow> \<exists>st'. foldE add_row st (map Some qs) = Inr st' \<and> built (rs @ qs) st'"
proof (induction qs arbitrary: rs st)
  case Nil
  then show ?case by simp
next
  case (Cons q qs)
  obtain i s where q: "q = (i, s)" by (cases q)
  have srt: "rows_sorted (rs @ [(i, s)])"
    using rows_sorted_prefix [of "rs @ [(i, s)]" qs] Cons.prems(2) q by simp
  have "length (concat (map (utf8 \<circ> fst) rs)) < 2 ^ 64"
    using Cons.prems(3) unfolding map_append concat_append length_append by (rule add_lessD1)
  then have pos: "position st < 2 ^ 64"
    using Cons.prems(1) unfolding built_def holds_rows_def by (elim conjE) (simp only:)
  have "add_row st (Some q) \<noteq> Inl OffsetOverflow"
    using pos by (auto simp: add_row_def q pack_offset_def Let_def split: option.splits)
  with add_row_cases [OF Cons.prems(1), of "Some q"] srt q obtain st1 where
    st1: "add_row st (Some q) = Inr st1" "built (rs @ [(i, s)]) st1"
    by (cases "add_row st (Some q)") auto
  from Cons.IH [OF st1(2)] Cons.prems(2,3) q st1(1) show ?case by simp
qed

section \<open>Bisection finds the key\<close>

lemma starts_nth:
  "i \<le> length ks \<Longrightarrow> (starts n ks @ [n + length (concat ks)]) ! i = n + length (concat (take i ks))"
proof (induction ks arbitrary: n i)
  case Nil
  then show ?case by simp
next
  case (Cons k ks)
  then show ?case using Cons.IH [of "i - 1" "n + length k"] by (cases i) (simp_all add: add.assoc)
qed

lemma starts_length [simp]: "length (starts n ks) = length ks"
  by (induction ks arbitrary: n) simp_all

lemma nth_of_concat:
  assumes "i < length ks"
  shows "take (length (concat (take (Suc i) ks)) - length (concat (take i ks))) (drop (length (concat (take i ks))) (concat ks)) = ks ! i"
proof -
  have "concat ks = concat (take i ks) @ ks ! i @ concat (drop (Suc i) ks)"
    by (metis assms concat.simps(2) concat_append id_take_nth_drop)
  moreover have "length (concat (take (Suc i) ks)) = length (concat (take i ks)) + length (ks ! i)"
    using assms by (simp add: take_Suc_conv_app_nth)
  ultimately show ?thesis by simp
qed

definition finished_lookup :: "(code_points \<times> string) list \<Rightarrow> lookup \<Rightarrow> bool" where
  "finished_lookup rs l \<longleftrightarrow> holds_rows l rs \<and> rows_sorted rs \<and> length (key_bytes l) < 2 ^ 64
     \<and> (\<forall>n \<in> set (starts 0 (map (utf8 \<circ> fst) rs)). n < 2 ^ 64)
     \<and> offset_bytes l = concat (map pack_q (starts 0 (map (utf8 \<circ> fst) rs) @ [length (key_bytes l)]))"

lemma key_at_finished:
  assumes "finished_lookup rs l" and "i < length rs"
  shows "key_at l i = utf8 (fst (rs ! i))"
proof -
  let ?ks = "map (utf8 \<circ> fst) rs"
  let ?ns = "starts 0 ?ks @ [0 + length (concat ?ks)]"
  have keys: "key_bytes l = concat ?ks" using assms(1) by (simp add: finished_lookup_def holds_rows_def)
  then have offs: "offset_bytes l = concat (map pack_q ?ns)" and small: "\<forall>n \<in> set ?ns. n < 2 ^ 64"
    using assms(1) by (auto simp: finished_lookup_def)
  have at: "unpack_q (offset_bytes l) (8 * j) = length (concat (take j ?ks))" if "j \<le> length rs" for j
    using unpack_packed [OF _ small, of j] starts_nth [of j ?ks 0] that by (simp add: offs)
  show ?thesis
    using at [of i] at [of "Suc i"] nth_of_concat [of i ?ks] assms(2)
    by (simp add: key_at_def keys Let_def del: take_map)
qed

lemma bisect_step: "left < right \<Longrightarrow> bisect l e left right =
    (if key_at l ((left + right) div 2) < e then bisect l e ((left + right) div 2 + 1) right
     else bisect l e left ((left + right) div 2))"
  by (subst bisect.simps) (simp add: Let_def)

lemma bisect_stop: "\<not> left < right \<Longrightarrow> bisect l e left right = left"
  by (subst bisect.simps) simp

definition cuts :: "lookup \<Rightarrow> nat \<Rightarrow> byte_list \<Rightarrow> nat \<Rightarrow> nat \<Rightarrow> bool" where
  "cuts l n e left right \<longleftrightarrow> left \<le> right \<and> right \<le> n \<and> (\<forall>i < left. key_at l i < e)
     \<and> (\<forall>i < n. right \<le> i \<longrightarrow> \<not> key_at l i < e)"

lemma bisect_cuts:
  assumes "\<And>i j. i < j \<Longrightarrow> j < n \<Longrightarrow> key_at l i < key_at l j"
  shows "cuts l n e left right \<Longrightarrow> cuts l n e (bisect l e left right) (bisect l e left right)"
proof (induction "right - left" arbitrary: left right rule: less_induct)
  case less
  show ?case
  proof (cases "left < right")
    case False
    then show ?thesis using less.prems by (simp add: bisect_stop cuts_def)
  next
    case True
    let ?m = "(left + right) div 2"
    have m: "left \<le> ?m" "?m < right" "right \<le> n" using True less.prems by (auto simp: cuts_def)
    show ?thesis
    proof (cases "key_at l ?m < e")
      case below: True
      have "key_at l i < e" if "i < ?m + 1" for i
        using assms [of i ?m] that below m by (cases "i = ?m") (auto intro: less_trans)
      then have "cuts l n e (?m + 1) right" using less.prems m by (simp add: cuts_def)
      with less.hyps [OF _ this] m show ?thesis by (simp add: bisect_step [OF True] below)
    next
      case above: False
      have "\<not> key_at l i < e" if "?m \<le> i" "i < n" for i
        using assms [of ?m i] that above by (cases "i = ?m") (auto dest: less_trans)
      then have "cuts l n e left ?m" using less.prems m by (simp add: cuts_def)
      with less.hyps [OF _ this] m show ?thesis by (simp add: bisect_step [OF True] above)
    qed
  qed
qed

lemma get_split_finished:
  assumes "finished_lookup rs l" and "encodable key"
  shows "get_split l key = (case map_of rs key of None \<Rightarrow> Inl KeyMissing | Some s \<Rightarrow> Inr s)"
proof -
  let ?e = "utf8 key" and ?n = "length rs"
  let ?i = "bisect l ?e 0 ?n"
  have n: "row_count l = ?n" and splits: "split_bytes l = map (\<lambda>(_, s). index_of s split_names) rs"
    and srt: "sorted_wrt (<) (map fst rs)" and names: "\<forall>(i, s) \<in> set rs. s \<in> set split_names"
    using assms(1) by (auto simp: finished_lookup_def holds_rows_def rows_sorted_def list_all_iff)
  have order: "key_at l i < key_at l j" if "i < j" "j < ?n" for i j
    using that key_at_finished [OF assms(1)] sorted_wrt_nth_less [OF srt, of i j] by (simp add: utf8_less_iff)
  have start: "cuts l ?n ?e 0 ?n" by (simp add: cuts_def)
  have cut: "cuts l ?n ?e ?i ?i" by (rule bisect_cuts [OF order start])
  have dist: "distinct (map fst rs)" using srt by (simp add: strict_sorted_iff)
  have found: "?i < ?n \<and> key_at l ?i = ?e \<longleftrightarrow> (\<exists>j < ?n. fst (rs ! j) = key)"
  proof
    assume "?i < ?n \<and> key_at l ?i = ?e"
    then show "\<exists>j < ?n. fst (rs ! j) = key" using key_at_finished [OF assms(1)] by auto
  next
    assume "\<exists>j < ?n. fst (rs ! j) = key"
    then obtain j where j: "j < ?n" "key_at l j = ?e" using key_at_finished [OF assms(1)] by auto
    then have "\<not> j < ?i" using cut by (auto simp: cuts_def)
    moreover have "\<not> ?i < j" using cut j order [of ?i j] by (auto simp: cuts_def)
    ultimately show "?i < ?n \<and> key_at l ?i = ?e" using j by (metis linorder_neqE_nat)
  qed
  have le: "?i \<le> ?n" using cut by (simp add: cuts_def)
  show ?thesis
  proof (cases "?i < ?n \<and> key_at l ?i = ?e")
    case True
    then have key: "fst (rs ! ?i) = key" using key_at_finished [OF assms(1), of ?i] by simp
    have m: "rs ! ?i \<in> set rs" using True by simp
    obtain s where s: "rs ! ?i = (key, s)" using key by (cases "rs ! ?i") simp
    have "map_of rs key = Some s" using dist m s by simp
    moreover have "split_names ! index_of s split_names = s"
      using names m s by (auto simp: split_names_def)
    ultimately show ?thesis using True s assms(2) by (simp add: get_split_def n splits Let_def)
  next
    case False
    then have "\<forall>j < ?n. fst (rs ! j) \<noteq> key" using found by blast
    then have "x \<in> set rs \<Longrightarrow> fst x \<noteq> key" for x unfolding in_set_conv_nth by blast
    then have "key \<notin> fst ` set rs" by blast
    then have "map_of rs key = None" by (simp add: map_of_eq_None_iff)
    with False le assms(2) show ?thesis by (auto simp: get_split_def n Let_def)
  qed
qed

text \<open>
  UTF-8 keeps the order of strings: comparing two encodings byte by byte decides as
  comparing the code points does, which is why a search by bytes may trust rows that were
  checked to be in order as strings.
\<close>

theorem utf8_order: "utf8 s < utf8 t \<longleftrightarrow> s < t"
  by (rule utf8_less_iff)

lemma build_lookup_Inr:
  assumes "build_lookup rows n same = Inr l"
  shows "\<exists>rs. rows = map Some rs \<and> n = length rs \<and> same \<and> finished_lookup rs l"
proof -
  from assms obtain st where st: "foldE add_row empty_build rows = Inr st" "position st < 2 ^ 64"
      "row_count (building st) = n" same "l = (building st)\<lparr>offset_bytes := offset_bytes (building st) @ pack_q (position st)\<rparr>"
    by (auto simp: build_lookup_eq pack_offset_def split: if_splits)
  from add_rows_built [OF empty_built st(1)] obtain rs where rs: "rows = map Some rs" "built rs st" by auto
  then have "finished_lookup rs l" using st(2,5)
    by (auto simp: finished_lookup_def built_def holds_rows_def list_all_iff)
  with rs st show ?thesis by (auto simp: built_def holds_rows_def)
qed

lemma build_lookup_accepts:
  assumes "rows_sorted rs" and "length (concat (map (utf8 \<circ> fst) rs)) < 2 ^ 64"
  shows "\<exists>l. build_lookup (map Some rs) (length rs) True = Inr l"
proof -
  from add_rows_accepts [OF empty_built, of rs] assms obtain st where
    st: "foldE add_row empty_build (map Some rs) = Inr st" "built rs st" by auto
  then have "position st < 2 ^ 64" "row_count (building st) = length rs"
    using assms(2) unfolding built_def holds_rows_def by simp_all
  with st(1) show ?thesis by (simp add: build_lookup_eq pack_offset_def)
qed

text \<open>
  The compact arrays are the map they were built from. Building succeeds exactly for rows
  with distinct ids in ascending order, known splits and encodable nonempty ids, of the declared
  number and with less than \<open>2^64\<close> bytes of keys; then the keys read back are the ids in order and
  every lookup by bisection returns the split of the row.
\<close>

theorem lookup_is_map:
  "case build_lookup rows n same of
      Inl e \<Rightarrow> \<not> (\<exists>rs. rows = map Some rs \<and> rows_sorted rs \<and> n = length rs \<and> same
        \<and> length (concat (map (utf8 \<circ> fst) rs)) < 2 ^ 64)
    | Inr l \<Rightarrow> \<exists>rs. rows = map Some rs \<and> rows_sorted rs \<and> n = length rs \<and> same
        \<and> lookup_keys l = map (utf8 \<circ> fst) rs \<and> row_count l = length rs
        \<and> map (get_split l \<circ> fst) rs = map (Inr \<circ> snd) rs"
proof (cases "build_lookup rows n same")
  case (Inl e)
  with build_lookup_accepts show ?thesis by fastforce
next
  case (Inr l)
  from build_lookup_Inr [OF Inr] obtain rs where rs: "rows = map Some rs" "n = length rs" same "finished_lookup rs l"
    by blast
  have "lookup_keys l = map (utf8 \<circ> fst) rs"
    using key_at_finished [OF rs(4)] rs(4)
    by (intro nth_equalityI) (auto simp: lookup_keys_def finished_lookup_def holds_rows_def)
  moreover have "rows_sorted rs" "row_count l = length rs" using rs(4) by (simp_all add: finished_lookup_def holds_rows_def)
  moreover have "get_split l i = Inr s" if "(i, s) \<in> set rs" for i s
  proof -
    have "encodable i" "distinct (map fst rs)"
      using that \<open>rows_sorted rs\<close> by (auto simp: rows_sorted_def list_all_iff strict_sorted_iff)
    with get_split_finished [OF rs(4), of i] that show ?thesis by simp
  qed
  then have "map (get_split l \<circ> fst) rs = map (Inr \<circ> snd) rs" by auto
  ultimately show ?thesis
    unfolding Inr sum.case using rs(1-3) by (intro exI [of _ rs] conjI)
qed

text \<open>
  C16. Every question gets its answer: in a lookup that was built from rows, an id that occurs
  among them is found with its split, and any other id that can be encoded raises \<open>KeyError\<close>.
\<close>

theorem lookup_answers:
  assumes "build_lookup (map Some rs) n same = Inr l" and "encodable key"
  shows "get_split l key = (case map_of rs key of None \<Rightarrow> Inl KeyMissing | Some s \<Rightarrow> Inr s)"
proof -
  from build_lookup_Inr [OF assms(1)] obtain qs where "map Some rs = map Some qs" "finished_lookup qs l" by blast
  then have "finished_lookup rs l" by (simp add: inj_map_eq_map inj_Some)
  then show ?thesis by (rule get_split_finished [OF _ assms(2)])
qed

definition sample_rows :: "(code_points \<times> string) list" where
  "sample_rows = [([97], ''train''), ([97, 233], ''test''), ([8364], ''validation'')]"

theorem lookup_answers_witness:
  "\<exists>l. build_lookup (map Some sample_rows) 3 True = Inr l \<and> get_split l [97, 233] = Inr ''test''
     \<and> get_split l [98] = Inl KeyMissing"
proof -
  have "rows_sorted sample_rows"
    by (simp add: sample_rows_def rows_sorted_def split_names_def encodable_def surrogate_def)
  moreover have "length (concat (map (utf8 \<circ> fst) sample_rows)) < 2 ^ 64"
    by (simp add: sample_rows_def utf8_def utf8_char_def)
  ultimately have "\<exists>l. build_lookup (map Some sample_rows) (length sample_rows) True = Inr l"
    by (rule build_lookup_accepts)
  moreover have "length sample_rows = 3" by (simp add: sample_rows_def)
  ultimately obtain l where l: "build_lookup (map Some sample_rows) 3 True = Inr l" by auto
  have "encodable [97, 233]" "encodable [98]" by (simp_all add: encodable_def surrogate_def)
  from lookup_answers [OF l this(1)] lookup_answers [OF l this(2)] l show ?thesis by (auto simp: sample_rows_def)
qed

end
