(* ===== verification/Selection.thy ===== *)
theory Selection
  imports Lab_Prelude Complex_Main "HOL-Library.AList" "HOL-Library.Char_ord"
    "HOL-Library.List_Lexorder" "HOL-Library.Product_Lexorder"
begin

unbundle bit_operations_syntax

text \<open>
  \<open>src/sparselab/corpus/selection.py\<close>: choosing whole candidate documents whose tokens meet two
  exact budgets (human-written and generated) and which together cover every source family, by a
  dynamic program over (total, covered families) states.

  A candidate has the fields the code reads. The generated share is the fraction that
  \<open>Fraction(str(share))\<close> denotes. A Python dict is the association list of its entries in
  insertion order, where an update keeps the place of its key; a set of families is the bit mask
  the code builds.
\<close>

section \<open>Candidates and their masks\<close>

record candidate =
  record_id :: string
  tokens :: int
  source_family_ids :: "string list"
  origin :: string

definition primary :: "candidate \<Rightarrow> bool" where
  "primary c \<longleftrightarrow> origin c \<in> {''primary_source'', ''human_authored''}"

datatype selection_error =
    BadBudget | ShareNotIntegral | DuplicateRecord | TooManyFamilies | BadTokenCount
  | TooManyStates | Infeasible

type_synonym entry = "string \<times> int \<times> nat"
type_synonym states = "((int \<times> nat) \<times> string list) list"

definition MAX_STATES :: nat where
  "MAX_STATES = 100000"

definition families_of :: "candidate list \<Rightarrow> string list" where
  "families_of cs = sort (remdups (concat (map source_family_ids cs)))"

fun family_index :: "'a \<Rightarrow> 'a list \<Rightarrow> nat" where
  "family_index x [] = 0"
| "family_index x (y # ys) = (if x = y then 0 else Suc (family_index x ys))"

definition family_mask :: "string list \<Rightarrow> candidate \<Rightarrow> nat" where
  "family_mask families c =
     foldl (\<lambda>bits f. bits OR push_bit (family_index f families) 1) 0 (source_family_ids c)"

definition entry_of :: "string list \<Rightarrow> candidate \<Rightarrow> entry" where
  "entry_of families c = (record_id c, tokens c, family_mask families c)"

text \<open>The loop over the candidates: each lands in the partition of its origin.\<close>

definition place :: "string list \<Rightarrow> entry list \<times> entry list \<Rightarrow> candidate
    \<Rightarrow> selection_error + entry list \<times> entry list" where
  "place families ps c =
     (if tokens c \<le> 0 then Inl BadTokenCount
      else if primary c then Inr (fst ps @ [entry_of families c], snd ps)
      else Inr (fst ps, snd ps @ [entry_of families c]))"

section \<open>The dynamic program\<close>

definition offer :: "int \<Rightarrow> entry \<Rightarrow> states \<Rightarrow> (int \<times> nat) \<times> string list \<Rightarrow> states" where
  "offer target e states st =
     (case (e, st) of ((identifier, cost, bits), (tokens_so_far, covered), chosen) \<Rightarrow>
       (let next_total = tokens_so_far + cost;
            key = (next_total, covered OR bits);
            replacement = chosen @ [identifier]
        in if target < next_total then states
           else case map_of states key of
             None \<Rightarrow> AList.update key replacement states
           | Some old \<Rightarrow> if replacement < old then AList.update key replacement states else states))"

fun grow :: "int \<Rightarrow> states \<Rightarrow> entry list \<Rightarrow> selection_error + states" where
  "grow target states [] = Inr states"
| "grow target states (e # es) =
     (let states' = foldl (offer target e) states states
      in if MAX_STATES < length states' then Inl TooManyStates else grow target states' es)"

definition possibilities :: "entry list \<Rightarrow> int \<Rightarrow> selection_error + (nat \<times> string list) list" where
  "possibilities entries target =
     bindE (grow target [((0, 0), [])] (sort entries)) (\<lambda>states.
       Inr (map (\<lambda>((tokens_so_far, m), chosen). (m, chosen)) (filter (\<lambda>((tokens_so_far, m), chosen). tokens_so_far = target) states)))"

fun least_of :: "'a :: linorder list \<Rightarrow> 'a option" where
  "least_of [] = None"
| "least_of (x # xs) = Some (foldl min x xs)"

definition matches :: "nat \<Rightarrow> (nat \<times> string list) list \<Rightarrow> (nat \<times> string list) list \<Rightarrow> string list list" where
  "matches required ps gs =
     concat (map (\<lambda>(lm, l). map (\<lambda>(rm, r). l @ r) (filter (\<lambda>(rm, r). lm OR rm = required) gs)) ps)"

definition generated_target :: "rat \<Rightarrow> int \<Rightarrow> rat" where
  "generated_target share n = share * of_int n"

definition select_fraction :: "candidate list \<Rightarrow> rat \<Rightarrow> int \<Rightarrow> selection_error + string set" where
  "select_fraction cs share n =
     (if n \<le> 0 \<or> \<not> (0 \<le> share \<and> share \<le> 1) then Inl BadBudget
      else if snd (quotient_of (generated_target share n)) \<noteq> 1 then Inl ShareNotIntegral
      else let generated_tokens = fst (quotient_of (generated_target share n));
               primary_tokens = n - generated_tokens;
               ids = map record_id cs;
               families = families_of cs
           in if \<not> distinct ids then Inl DuplicateRecord
              else if 20 < length families then Inl TooManyFamilies
              else bindE (foldE (place families) ([], []) cs) (\<lambda>ps.
                bindE (possibilities (fst ps) primary_tokens) (\<lambda>ls.
                bindE (possibilities (snd ps) generated_tokens) (\<lambda>rs.
                  case least_of (matches (push_bit (length families) 1 - 1) ls rs) of
                    None \<Rightarrow> Inl Infeasible
                  | Some chosen \<Rightarrow> Inr (set chosen)))))"

section \<open>Least elements\<close>

text \<open>The least element of a finite set, and when a smaller set has the same one.\<close>

definition least :: "'a :: linorder set \<Rightarrow> 'a option" where
  "least S = (if S = {} then None else Some (Min S))"

fun min_opt :: "'a :: linorder option \<Rightarrow> 'a option \<Rightarrow> 'a option" where
  "min_opt None y = y"
| "min_opt (Some x) None = Some x"
| "min_opt (Some x) (Some y) = Some (min x y)"

lemma least_empty [simp]: "least {} = None"
  by (simp add: least_def)

lemma least_single [simp]: "least {x} = Some x"
  by (simp add: least_def)

lemma least_Un: "finite A \<Longrightarrow> finite B \<Longrightarrow> least (A \<union> B) = min_opt (least A) (least B)"
  by (auto simp: least_def Min_Un)

lemma least_Some_iff: "finite S \<Longrightarrow> least S = Some x \<longleftrightarrow> x \<in> S \<and> (\<forall>y \<in> S. x \<le> y)"
  by (auto simp: least_def intro: Min_eqI Min_in)

lemma least_ex: "x \<in> S \<Longrightarrow> \<exists>y. least S = Some y"
  by (auto simp: least_def)

lemma least_dominated:
  assumes "finite A" and "B \<subseteq> A" and "\<And>a. a \<in> A \<Longrightarrow> \<exists>b \<in> B. b \<le> a"
  shows "least B = least A"
proof (cases "A = {}")
  case True
  with assms(2) show ?thesis by simp
next
  case False
  then have "Min A \<in> A" using assms(1) by simp
  then obtain b where b: "b \<in> B" "b \<le> Min A" using assms(3) by blast
  have "Min B = Min A"
  proof (rule Min_eqI)
    show "finite B" using assms(1,2) finite_subset by blast
    show "Min A \<in> B" using b assms(1,2) by (metis Min_le antisym subsetD)
    show "\<And>y. y \<in> B \<Longrightarrow> Min A \<le> y" using assms(1,2) by (auto intro: Min_le)
  qed
  with False b(1) show ?thesis by (auto simp: least_def)
qed

lemma least_of_set: "least_of xs = least (set xs)"
proof (cases xs)
  case (Cons x ys)
  have swap: "(\<lambda>a s. min s a) = (min :: 'a \<Rightarrow> 'a \<Rightarrow> 'a)" by (intro ext) (rule min.commute)
  have "foldl min x ys = Min (set (x # ys))"
    by (simp only: Min.set_eq_fold foldl_conv_fold swap)
  with Cons show ?thesis by (simp add: least_def)
qed simp

section \<open>What the program computes\<close>

definition selections :: "(string \<Rightarrow> int) \<Rightarrow> (string \<Rightarrow> nat) \<Rightarrow> string list \<Rightarrow> int \<times> nat \<Rightarrow> string list set" where
  "selections cost bits ids key =
     {s. subseq s ids \<and> sum_list (map cost s) = fst key \<and> foldl (OR) 0 (map bits s) = snd key}"

lemma finite_selections [simp, intro]: "finite (selections cost bits ids key)"
proof (rule finite_subset)
  show "selections cost bits ids key \<subseteq> set (subseqs ids)"
    by (auto simp: selections_def subseqs_powset in_set_subseqs)
qed simp

lemma subseq_snoc: "subseq s (xs @ [x]) \<longleftrightarrow> subseq s xs \<or> (\<exists>r. s = r @ [x] \<and> subseq r xs)"
proof
  assume "subseq s (xs @ [x])"
  then obtain u v where uv: "s = u @ v" "subseq u xs" "subseq v [x]"
    by (auto simp: subseq_append_iff)
  from uv(3) have "v \<in> set (subseqs [x])" by (simp only: in_set_subseqs)
  then have "v = [] \<or> v = [x]" by auto
  with uv show "subseq s xs \<or> (\<exists>r. s = r @ [x] \<and> subseq r xs)" by auto
next
  assume "subseq s xs \<or> (\<exists>r. s = r @ [x] \<and> subseq r xs)"
  then show "subseq s (xs @ [x])" by (auto intro: list_emb_append_mono simp: subseq_append_iff)
qed

lemma subseq_mem: "subseq s t \<Longrightarrow> x \<in> set s \<Longrightarrow> x \<in> set t"
  by (auto elim: list_emb_set)

lemma subseq_Nil: "subseq s [] \<longleftrightarrow> s = []"
  by (cases s) auto

lemma selections_snoc:
  "selections cost bits (ids @ [i]) key =
     selections cost bits ids key \<union>
     {s @ [i] | s m. s \<in> selections cost bits ids (fst key - cost i, m) \<and> m OR bits i = snd key}"
  by (auto simp: selections_def subseq_snoc)

lemma less_after_same_start:
  fixes a b :: "'a :: linorder"
  shows "a < b \<Longrightarrow> p @ a # v < p @ b # w"
  by (induction p) simp_all

lemma append_keeps_order:
  fixes s t :: "'a :: linorder list"
  assumes "s < t" and "\<nexists>v. v \<noteq> [] \<and> t = s @ v"
  shows "s @ u < t @ w"
proof -
  from assms(1) have "(\<exists>a v. t = s @ a # v) \<or> (\<exists>p a b v w. a < b \<and> s = p @ a # v \<and> t = p @ b # w)"
    by (auto simp: list_less_def lexord_def)
  with assms(2) obtain p a b v w' where "a < b" "s = p @ a # v" "t = p @ b # w'"
    by blast
  then show ?thesis by (simp add: less_after_same_start)
qed

lemma positive_sum:
  fixes cost :: "'a \<Rightarrow> int"
  assumes "\<forall>i \<in> set s. 0 < cost i"
  shows "0 \<le> sum_list (map cost s) \<and> (s \<noteq> [] \<longrightarrow> 0 < sum_list (map cost s))"
  using assms by (induction s) auto

text \<open>Two selections of the same number of tokens are never one a beginning of the other.\<close>

lemma same_sum_no_prefix:
  fixes cost :: "'a \<Rightarrow> int"
  assumes "sum_list (map cost s) = sum_list (map cost t)" and "\<forall>i \<in> set t. 0 < cost i"
  shows "\<nexists>v. v \<noteq> [] \<and> t = s @ v"
proof
  assume "\<exists>v. v \<noteq> [] \<and> t = s @ v"
  then obtain v where v: "v \<noteq> []" "t = s @ v" by blast
  with assms(2) have "0 < sum_list (map cost v)"
    using positive_sum [of v cost] by auto
  with assms(1) v(2) show False by simp
qed

lemma same_sum_append_mono:
  fixes cost :: "string \<Rightarrow> int"
  assumes "s \<le> t" and "sum_list (map cost s) = sum_list (map cost t)"
    and "\<forall>i \<in> set t. 0 < cost i"
  shows "s @ u \<le> t @ u"
proof (cases "s = t")
  case False
  with assms(1) have "s < t" by simp
  from append_keeps_order [OF this same_sum_no_prefix [OF assms(2,3)], of u u] show ?thesis by simp
qed simp

section \<open>Each state holds the least selection of its key\<close>

definition offered :: "int \<Rightarrow> entry \<Rightarrow> (int \<times> nat) \<times> string list \<Rightarrow> int \<times> nat \<Rightarrow> string list set" where
  "offered target e st key =
     (case (e, st) of ((identifier, cost, bits), (sofar, covered), chosen) \<Rightarrow>
       if sofar + cost \<le> target \<and> key = (sofar + cost, covered OR bits) then {chosen @ [identifier]} else {})"

lemma min_opt_assoc: "min_opt (min_opt a b) c = min_opt a (min_opt b c)"
  by (cases a; cases b; cases c) (simp_all add: min.assoc)

lemma min_opt_None [simp]: "min_opt a None = a"
  by (cases a) simp_all

lemma finite_offered [simp]: "finite (offered target e st key)"
  by (auto simp: offered_def split: prod.splits)

lemma offer_map:
  "map_of (offer target e states st) key = min_opt (map_of states key) (least (offered target e st key))"
proof -
  obtain i c b sofar cov ch where [simp]: "e = (i, c, b)" "st = ((sofar, cov), ch)"
    by (metis prod_cases3 surj_pair)
  show ?thesis
    by (cases "map_of states (sofar + c, cov OR b)")
       (auto simp: offer_def offered_def Let_def update_conv' min_def)
qed

lemma offers_map:
  "map_of (foldl (offer target e) states sts) key =
     min_opt (map_of states key) (least (\<Union>st \<in> set sts. offered target e st key))"
proof (induction sts arbitrary: states)
  case (Cons st sts)
  show ?case
    by (simp add: Cons.IH offer_map min_opt_assoc least_Un)
qed simp

lemma offers_distinct:
  "distinct (map fst states) \<Longrightarrow> distinct (map fst (foldl (offer target e) states sts))"
proof (induction sts arbitrary: states)
  case (Cons st sts)
  have "distinct (map fst (offer target e states st))"
    using Cons.prems by (auto simp: offer_def Let_def distinct_update split: prod.splits option.splits)
  then show ?case using Cons.IH by simp
qed simp

text \<open>The invariant of the table after the entries of \<open>ids\<close>.\<close>

definition table_ok :: "int \<Rightarrow> (string \<Rightarrow> int) \<Rightarrow> (string \<Rightarrow> nat) \<Rightarrow> string list \<Rightarrow> states \<Rightarrow> bool" where
  "table_ok target cost bits ids states \<longleftrightarrow> distinct (map fst states)
     \<and> (\<forall>key. map_of states key = (if fst key \<le> target then least (selections cost bits ids key) else None))"

lemma table_okD:
  assumes "table_ok target cost bits ids states"
  shows table_ok_distinct: "distinct (map fst states)"
    and table_ok_map: "map_of states key = (if fst key \<le> target then least (selections cost bits ids key) else None)"
  using assms unfolding table_ok_def by blast+

lemma table_ok_mem:
  assumes "table_ok target cost bits ids states"
  shows "(key, chosen) \<in> set states \<longleftrightarrow> fst key \<le> target \<and> least (selections cost bits ids key) = Some chosen"
proof -
  from assms have "(key, chosen) \<in> set states \<longleftrightarrow> map_of states key = Some chosen"
    using map_of_eq_Some_iff [OF table_ok_distinct [OF assms]] by simp
  then show ?thesis by (simp add: table_ok_map [OF assms])
qed

lemma step_dominates:
  assumes ok: "table_ok target cost bits ids states" and pos: "\<forall>i \<in> set (ids @ [x]). 0 < cost i"
    and key: "fst key \<le> target"
  shows "least (selections cost bits ids key \<union> (\<Union>st \<in> set states. offered target (x, cost x, bits x) st key))
    = least (selections cost bits (ids @ [x]) key)" (is "least ?B = least ?A")
proof (rule least_dominated)
  show "finite ?A" by simp
  show "?B \<subseteq> ?A"
    by (auto simp: offered_def selections_snoc table_ok_mem [OF ok] least_Some_iff split: if_splits)
  fix a assume "a \<in> ?A"
  then consider "a \<in> selections cost bits ids key"
    | s m where "a = s @ [x]" "s \<in> selections cost bits ids (fst key - cost x, m)" "m OR bits x = snd key"
    unfolding selections_snoc by blast
  then show "\<exists>b \<in> ?B. b \<le> a"
  proof cases
    case 1
    then show ?thesis by blast
  next
    case 2
    let ?k = "(fst key - cost x, m)"
    obtain r where r: "least (selections cost bits ids ?k) = Some r"
      using least_ex [OF 2(2)] by blast
    then have "r \<in> selections cost bits ids ?k" and "r \<le> s"
      using 2(2) by (simp_all add: least_Some_iff)
    moreover have "\<forall>i \<in> set s. 0 < cost i"
      using 2(2) pos by (auto simp: selections_def dest: subseq_mem)
    ultimately have "r @ [x] \<le> s @ [x]"
      using 2(2) by (intro same_sum_append_mono [of _ _ cost]) (simp_all add: selections_def)
    moreover have "(?k, r) \<in> set states"
      using r pos key by (simp add: table_ok_mem [OF ok])
    then have "r @ [x] \<in> ?B"
      using key 2(3) by (intro UnI2 UN_I) (auto simp: offered_def)
    ultimately show ?thesis using 2(1) by blast
  qed
qed

lemma offers_table:
  assumes ok: "table_ok target cost bits ids states" and pos: "\<forall>i \<in> set (ids @ [x]). 0 < cost i"
  shows "table_ok target cost bits (ids @ [x]) (foldl (offer target (x, cost x, bits x)) states states)"
  unfolding table_ok_def
proof (intro conjI allI)
  show "distinct (map fst (foldl (offer target (x, cost x, bits x)) states states))"
    by (rule offers_distinct [OF table_ok_distinct [OF ok]])
  fix key
  let ?new = "\<Union>st \<in> set states. offered target (x, cost x, bits x) st key"
  have "map_of (foldl (offer target (x, cost x, bits x)) states states) key
      = min_opt (map_of states key) (least ?new)"
    by (rule offers_map)
  also have "\<dots> = (if fst key \<le> target then least (selections cost bits (ids @ [x]) key) else None)"
  proof (cases "fst key \<le> target")
    case True
    then have "min_opt (map_of states key) (least ?new) = least (selections cost bits ids key \<union> ?new)"
      by (simp add: table_ok_map [OF ok] least_Un)
    with True step_dominates [OF ok pos True] show ?thesis by simp
  next
    case False
    then have "?new = {}" by (auto simp: offered_def split: if_splits)
    with False show ?thesis by (simp only: table_ok_map [OF ok] if_False least_empty min_opt_None)
  qed
  finally show "map_of (foldl (offer target (x, cost x, bits x)) states states) key
    = (if fst key \<le> target then least (selections cost bits (ids @ [x]) key) else None)" .
qed

lemma grow_table:
  assumes "grow target states (map (\<lambda>i. (i, cost i, bits i)) js) = Inr states'"
    and "table_ok target cost bits ids states" and "\<forall>i \<in> set (ids @ js). 0 < cost i"
  shows "table_ok target cost bits (ids @ js) states'"
  using assms
proof (induction js arbitrary: ids states)
  case (Cons j js)
  let ?next = "foldl (offer target (j, cost j, bits j)) states states"
  from Cons.prems(1) have "grow target ?next (map (\<lambda>i. (i, cost i, bits i)) js) = Inr states'"
    by (simp add: Let_def split: if_splits)
  from Cons.IH [OF this offers_table [OF Cons.prems(2)]] Cons.prems(3) show ?case by simp
qed simp

lemma grow_error: "grow target states es = Inl e \<Longrightarrow> e = TooManyStates"
  by (induction es arbitrary: states) (auto simp: Let_def split: if_splits)

lemma selections_Nil: "selections cost bits [] key = (if key = (0, 0) then {[]} else {})"
  by (cases key) (auto simp: selections_def subseq_Nil)

lemma initial_table: "0 \<le> target \<Longrightarrow> table_ok target cost bits [] [((0, 0), [])]"
  by (auto simp: table_ok_def selections_Nil)

text \<open>Sorting the entries is sorting their identifiers.\<close>

lemma sort_entries:
  "sort (map (\<lambda>i. (i, cost i, bits i)) ids) = map (\<lambda>i. (i, cost i, bits i)) (sort ids)" (is "sort (map ?f ids) = _")
proof (rule properties_for_sort)
  show "mset (map ?f (sort ids)) = mset (map ?f ids)" by simp
  have "sorted_wrt (\<lambda>i j. ?f i \<le> ?f j) (sort ids)"
    by (rule sorted_wrt_mono_rel [OF _ sorted_sort]) (auto simp: less_eq_prod_def le_less)
  then show "sorted (map ?f (sort ids))" by (simp add: sorted_wrt_map)
qed

lemma possibilities_exact:
  assumes "possibilities (map (\<lambda>i. (i, cost i, bits i)) ids) target = Inr ps"
    and "0 \<le> target" and "\<forall>i \<in> set ids. 0 < cost i"
  shows "(m, chosen) \<in> set ps \<longleftrightarrow> least (selections cost bits (sort ids) (target, m)) = Some chosen"
proof -
  from assms(1) obtain states where grown: "grow target [((0, 0), [])] (map (\<lambda>i. (i, cost i, bits i)) (sort ids)) = Inr states"
    and ps: "ps = map (\<lambda>((t, m), chosen). (m, chosen)) (filter (\<lambda>((t, m), chosen). t = target) states)"
    by (auto simp: possibilities_def sort_entries)
  have "table_ok target cost bits (sort ids) states"
    using grow_table [OF grown initial_table [OF assms(2)]] assms(3) by simp
  then have "((target, m), chosen) \<in> set states \<longleftrightarrow> least (selections cost bits (sort ids) (target, m)) = Some chosen"
    using table_ok_mem by fastforce
  then show ?thesis by (force simp: ps)
qed

text \<open>A table never holds more states than there are subsequences, so few candidates never exceed it.\<close>

lemma length_update_le: "length (AList.update k v al) \<le> Suc (length al)"
  by (induction al) auto

lemma offers_length: "length (foldl (offer target e) states sts) \<le> length states + length sts"
proof (induction sts arbitrary: states)
  case (Cons st sts)
  have "length (offer target e states st) \<le> Suc (length states)"
    by (auto simp: offer_def Let_def length_update_le split: prod.splits option.splits)
  with Cons.IH [of "offer target e states st"] show ?case by simp
qed simp

lemma grow_small:
  "length states * 2 ^ length es \<le> MAX_STATES \<Longrightarrow> \<exists>states'. grow target states es = Inr states'"
proof (induction es arbitrary: states)
  case (Cons e es)
  let ?next = "foldl (offer target e) states states"
  have "length ?next \<le> 2 * length states"
    using offers_length [of target e states states] by simp
  then have "length ?next * 2 ^ length es \<le> length states * 2 ^ length (e # es)"
    by (simp add: mult.assoc [symmetric] mult.commute)
  with Cons.prems have small: "length ?next * 2 ^ length es \<le> MAX_STATES" by linarith
  then have "length ?next \<le> MAX_STATES"
    by (rule le_trans [rotated]) simp
  then show ?case using Cons.IH [OF small] by (simp add: Let_def)
qed simp

section \<open>Masks are sets of families\<close>

lemma bit_foldl_or: "bit (foldl (OR) a bs) k \<longleftrightarrow> bit (a :: nat) k \<or> (\<exists>b \<in> set bs. bit b k)"
  by (induction bs arbitrary: a) (auto simp: bit_or_iff)

lemma bit_family_mask: "bit (family_mask families c) k \<longleftrightarrow> (\<exists>f \<in> set (source_family_ids c). family_index f families = k)"
proof -
  have "bit (foldl (\<lambda>bits f. bits OR push_bit (family_index f families) 1) a fs) k
      \<longleftrightarrow> bit (a :: nat) k \<or> (\<exists>f \<in> set fs. family_index f families = k)" for a fs
    by (induction fs arbitrary: a) (auto simp: bit_or_iff bit_exp_iff)
  then show ?thesis by (simp add: family_mask_def)
qed

lemma family_index_nth: "distinct xs \<Longrightarrow> k < length xs \<Longrightarrow> family_index f xs = k \<longleftrightarrow> f = xs ! k"
proof (induction xs arbitrary: k)
  case (Cons x xs)
  then show ?case by (cases k) auto
qed simp

lemma family_index_less: "f \<in> set xs \<Longrightarrow> family_index f xs < length xs"
  by (induction xs) auto

lemma covers_all_iff:
  assumes "distinct families" and "(\<Union>c \<in> C. set (source_family_ids c)) \<subseteq> set families"
  shows "(\<forall>k. (\<exists>c \<in> C. bit (family_mask families c) k) \<longleftrightarrow> k < length families)
    \<longleftrightarrow> (\<Union>c \<in> C. set (source_family_ids c)) = set families" (is "?masks \<longleftrightarrow> ?fams = _")
proof
  assume m: ?masks
  have "set families \<subseteq> ?fams"
  proof
    fix f assume "f \<in> set families"
    then obtain k where k: "k < length families" "f = families ! k" by (auto simp: in_set_conv_nth)
    with m obtain c where "c \<in> C" "bit (family_mask families c) k" by blast
    with k assms(1) show "f \<in> ?fams" by (auto simp: bit_family_mask family_index_nth)
  qed
  with assms(2) show "?fams = set families" by blast
next
  assume all: "?fams = set families"
  show ?masks
  proof (intro allI iffI)
    fix k assume "\<exists>c \<in> C. bit (family_mask families c) k"
    then show "k < length families" using assms(2) by (auto simp: bit_family_mask intro: family_index_less)
  next
    fix k assume k: "k < length families"
    then have "families ! k \<in> ?fams" using all by simp
    then show "\<exists>c \<in> C. bit (family_mask families c) k"
      using k assms(1) by (auto simp: bit_family_mask family_index_nth)
  qed
qed

lemma required_mask: "(x :: nat) = push_bit n 1 - 1 \<longleftrightarrow> (\<forall>k. bit x k \<longleftrightarrow> k < n)"
proof -
  have "push_bit n (1 :: nat) - 1 = mask n" by (simp add: push_bit_eq_mult mask_eq_exp_minus_1)
  then show ?thesis by (simp add: bit_eq_iff bit_mask_iff)
qed

section \<open>Partitions and whole selections\<close>

definition named :: "candidate list \<Rightarrow> string \<Rightarrow> candidate" where
  "named cs i = the (map_of (map (\<lambda>c. (record_id c, c)) cs) i)"

lemma named_id:
  assumes "distinct (map record_id cs)" and "c \<in> set cs"
  shows "named cs (record_id c) = c"
proof -
  have "map_of (map (\<lambda>c. (record_id c, c)) cs) (record_id c) = Some c"
    by (rule map_of_is_SomeI) (use assms in \<open>auto simp: comp_def\<close>)
  then show ?thesis by (simp add: named_def)
qed

lemma place_all:
  "foldE (place families) (ps, gs) cs =
     (if \<forall>c \<in> set cs. 0 < tokens c
      then Inr (ps @ map (entry_of families) (filter primary cs),
                gs @ map (entry_of families) (filter (\<lambda>c. \<not> primary c) cs))
      else Inl BadTokenCount)"
  by (induction cs arbitrary: ps gs) (auto simp: place_def)

lemma subseq_distinct_filter: "distinct xs \<Longrightarrow> subseq s xs \<Longrightarrow> s = filter (\<lambda>x. x \<in> set s) xs"
proof (induction xs arbitrary: s)
  case Nil
  then show ?case by (simp add: subseq_Nil)
next
  case (Cons x xs)
  from Cons.prems(2) consider "subseq s xs" | r where "s = x # r" "subseq r xs"
    by (cases s) (auto split: if_splits)
  then show ?case
  proof cases
    case 1
    with Cons.prems(1) have "x \<notin> set s" by (auto dest: subseq_mem)
    with Cons.IH [OF _ 1] Cons.prems(1) show ?thesis by simp
  next
    case 2
    with Cons.prems(1) have "x \<notin> set r" by (auto dest: subseq_mem)
    moreover have "filter (\<lambda>y. y = x \<or> y \<in> set r) xs = filter (\<lambda>y. y \<in> set r) xs"
      using Cons.prems(1) by (intro filter_cong) auto
    ultimately show ?thesis using Cons.IH [OF _ 2(2)] Cons.prems(1) 2(1) by simp
  qed
qed

text \<open>
  What is asked for: a set of record ids whose primary candidates have exactly \<open>p\<close> tokens, whose
  other candidates have exactly \<open>g\<close> tokens, and whose candidates have every family of the pool.
  Two such sets are compared by their sorted ids, the primary ones first.
\<close>

definition tokens_in :: "string set \<Rightarrow> candidate list \<Rightarrow> int" where
  "tokens_in A xs = sum_list (map tokens (filter (\<lambda>c. record_id c \<in> A) xs))"

definition covered_families :: "string set \<Rightarrow> candidate list \<Rightarrow> string set" where
  "covered_families A cs = (\<Union>c \<in> {c \<in> set cs. record_id c \<in> A}. set (source_family_ids c))"

definition feasible :: "candidate list \<Rightarrow> int \<Rightarrow> int \<Rightarrow> string set \<Rightarrow> bool" where
  "feasible cs p g A \<longleftrightarrow> A \<subseteq> record_id ` set cs \<and> tokens_in A (filter primary cs) = p
     \<and> tokens_in A (filter (\<lambda>c. \<not> primary c) cs) = g
     \<and> covered_families A cs = (\<Union>c \<in> set cs. set (source_family_ids c))"

definition chosen_ids :: "string set \<Rightarrow> candidate list \<Rightarrow> string list" where
  "chosen_ids A xs = sort (filter (\<lambda>i. i \<in> A) (map record_id xs))"

definition rank :: "candidate list \<Rightarrow> string set \<Rightarrow> string list" where
  "rank cs A = chosen_ids A (filter primary cs) @ chosen_ids A (filter (\<lambda>c. \<not> primary c) cs)"

definition cost_of :: "candidate list \<Rightarrow> string \<Rightarrow> int" where
  "cost_of cs i = tokens (named cs i)"

definition bits_of :: "candidate list \<Rightarrow> string \<Rightarrow> nat" where
  "bits_of cs i = family_mask (families_of cs) (named cs i)"

lemma entries_by_id:
  "distinct (map record_id cs) \<Longrightarrow> set xs \<subseteq> set cs \<Longrightarrow>
     map (entry_of (families_of cs)) xs = map (\<lambda>i. (i, cost_of cs i, bits_of cs i)) (map record_id xs)"
  by (auto simp: entry_of_def cost_of_def bits_of_def named_id subset_iff)

lemma set_chosen_ids [simp]: "set (chosen_ids A xs) = {i \<in> record_id ` set xs. i \<in> A}"
  by (auto simp: chosen_ids_def)

lemma set_rank: "set (rank cs A) = {i \<in> record_id ` set cs. i \<in> A}"
  by (auto simp: rank_def)

lemma sum_list_sort:
  fixes f :: "'a :: linorder \<Rightarrow> int"
  shows "sum_list (map f (sort xs)) = sum_list (map f xs)"
  by (metis mset_map mset_sort sum_mset_sum_list)

lemma chosen_cost:
  assumes "distinct (map record_id cs)" and "set xs \<subseteq> set cs"
  shows "sum_list (map (cost_of cs) (chosen_ids A xs)) = tokens_in A xs"
proof -
  have "sum_list (map (cost_of cs) (chosen_ids A xs)) = sum_list (map (cost_of cs) (filter (\<lambda>i. i \<in> A) (map record_id xs)))"
    unfolding chosen_ids_def by (rule sum_list_sort)
  also have "map (cost_of cs) (filter (\<lambda>i. i \<in> A) (map record_id xs)) = map tokens (filter (\<lambda>c. record_id c \<in> A) xs)"
    using assms(2) by (auto simp: filter_map comp_def cost_of_def named_id [OF assms(1)] subset_iff)
  finally show ?thesis by (simp only: tokens_in_def)
qed

lemma chosen_subseq: "subseq (chosen_ids A xs) (sort (map record_id xs))"
  by (simp add: chosen_ids_def filter_sort flip: filter_sort)

lemma chosen_of_subseq:
  assumes "distinct (map record_id xs)" and "subseq s (sort (map record_id xs))"
    and "set s = {i \<in> record_id ` set xs. i \<in> A}"
  shows "s = chosen_ids A xs"
proof -
  have "s = filter (\<lambda>i. i \<in> set s) (sort (map record_id xs))"
    using assms(1,2) by (intro subseq_distinct_filter) simp_all
  also have "\<dots> = filter (\<lambda>i. i \<in> A) (sort (map record_id xs))"
    using assms(3) by (intro filter_cong) auto
  finally show ?thesis by (simp add: chosen_ids_def filter_sort)
qed

definition masks_cover :: "candidate list \<Rightarrow> string list \<Rightarrow> string list \<Rightarrow> bool" where
  "masks_cover cs l r \<longleftrightarrow> foldl (OR) 0 (map (bits_of cs) l) OR foldl (OR) 0 (map (bits_of cs) r)
     = push_bit (length (families_of cs)) 1 - 1"

lemma masks_cover_iff:
  assumes "distinct (map record_id cs)" and "set l \<union> set r = {i \<in> record_id ` set cs. i \<in> A}"
  shows "masks_cover cs l r \<longleftrightarrow> covered_families A cs = (\<Union>c \<in> set cs. set (source_family_ids c))"
proof -
  let ?C = "{c \<in> set cs. record_id c \<in> A}"
  have all: "set (families_of cs) = (\<Union>c \<in> set cs. set (source_family_ids c))"
    by (simp add: families_of_def)
  have mem: "(\<exists>i \<in> set l \<union> set r. P (named cs i)) \<longleftrightarrow> (\<exists>c \<in> ?C. P c)" for P
    unfolding assms(2) by (auto simp: named_id [OF assms(1)])
  have "masks_cover cs l r \<longleftrightarrow> (\<forall>k. (\<exists>i \<in> set l \<union> set r. bit (bits_of cs i) k) \<longleftrightarrow> k < length (families_of cs))"
    unfolding masks_cover_def required_mask by (simp add: bit_or_iff bit_foldl_or bex_Un)
  also have "\<dots> \<longleftrightarrow> (\<forall>k. (\<exists>c \<in> ?C. bit (family_mask (families_of cs) c) k) \<longleftrightarrow> k < length (families_of cs))"
    by (simp only: bits_of_def mem [where P = "\<lambda>c. bit (family_mask (families_of cs) c) k" for k])
  also have "\<dots> \<longleftrightarrow> covered_families A cs = set (families_of cs)"
    unfolding covered_families_def by (rule covers_all_iff) (auto simp: families_of_def)
  finally show ?thesis by (simp only: all)
qed

text \<open>All the answers: concatenations of two selections whose masks cover, ranked sets that are feasible.\<close>

definition answers :: "candidate list \<Rightarrow> int \<Rightarrow> int \<Rightarrow> string list set" where
  "answers cs p g = {l @ r | l r lm rm.
     l \<in> selections (cost_of cs) (bits_of cs) (sort (map record_id (filter primary cs))) (p, lm)
     \<and> r \<in> selections (cost_of cs) (bits_of cs) (sort (map record_id (filter (\<lambda>c. \<not> primary c) cs))) (g, rm)
     \<and> lm OR rm = push_bit (length (families_of cs)) 1 - 1}"

lemma answers_feasible:
  assumes dist: "distinct (map record_id cs)"
  shows "answers cs p g = rank cs ` {A. feasible cs p g A}"
proof (intro equalityI subsetI)
  let ?P = "filter primary cs" and ?G = "filter (\<lambda>c. \<not> primary c) cs"
  have parts: "set ?P \<subseteq> set cs" "set ?G \<subseteq> set cs" by auto
  have dparts: "distinct (map record_id ?P)" "distinct (map record_id ?G)"
    using dist by (simp_all add: distinct_map_filter)
  have disj: "record_id ` set ?P \<inter> record_id ` set ?G = {}"
  proof -
    have "inj_on record_id (set cs)" using dist by (simp add: distinct_map)
    then show ?thesis by (auto simp: inj_on_def)
  qed
  {
    fix x assume "x \<in> answers cs p g"
    then obtain l r where x: "x = l @ r" and l: "subseq l (sort (map record_id ?P))" "sum_list (map (cost_of cs) l) = p"
      and r: "subseq r (sort (map record_id ?G))" "sum_list (map (cost_of cs) r) = g" and cov: "masks_cover cs l r"
      by (auto simp: answers_def selections_def masks_cover_def)
    let ?A = "set l \<union> set r"
    have sub: "set l \<subseteq> record_id ` set ?P" "set r \<subseteq> record_id ` set ?G"
      using l(1) r(1) by (auto dest: subseq_mem)
    have "set l = {i \<in> record_id ` set ?P. i \<in> ?A}" "set r = {i \<in> record_id ` set ?G. i \<in> ?A}"
      using sub disj by auto
    then have eqs: "l = chosen_ids ?A ?P" "r = chosen_ids ?A ?G"
      using chosen_of_subseq [OF dparts(1) l(1)] chosen_of_subseq [OF dparts(2) r(1)] by blast+
    have inA: "?A = {i \<in> record_id ` set cs. i \<in> ?A}" using sub by auto
    have "feasible cs p g ?A"
      unfolding feasible_def
    proof (intro conjI)
      show "?A \<subseteq> record_id ` set cs" using sub by auto
      show "tokens_in ?A ?P = p" using l(2) chosen_cost [OF dist parts(1), of ?A] eqs(1) by simp
      show "tokens_in ?A ?G = g" using r(2) chosen_cost [OF dist parts(2), of ?A] eqs(2) by simp
      show "covered_families ?A cs = (\<Union>c \<in> set cs. set (source_family_ids c))"
        using cov masks_cover_iff [OF dist inA] by blast
    qed
    moreover have "x = rank cs ?A" using x eqs by (simp add: rank_def)
    ultimately show "x \<in> rank cs ` {A. feasible cs p g A}" by blast
  next
    fix x assume "x \<in> rank cs ` {A. feasible cs p g A}"
    then obtain A where A: "feasible cs p g A" and x: "x = chosen_ids A ?P @ chosen_ids A ?G"
      by (auto simp: rank_def)
    have u: "set (chosen_ids A ?P) \<union> set (chosen_ids A ?G) = {i \<in> record_id ` set cs. i \<in> A}" by auto
    have "masks_cover cs (chosen_ids A ?P) (chosen_ids A ?G)"
      using A masks_cover_iff [OF dist u] by (simp add: feasible_def)
    with A x show "x \<in> answers cs p g"
      using chosen_cost [OF dist parts(1), of A] chosen_cost [OF dist parts(2), of A]
      unfolding answers_def selections_def masks_cover_def feasible_def
      by (intro CollectI exI [of _ "chosen_ids A ?P"] exI [of _ "chosen_ids A ?G"] exI conjI refl)
         (auto intro: chosen_subseq)
  }
qed

lemma finite_answers: "distinct (map record_id cs) \<Longrightarrow> finite (answers cs p g)"
proof -
  assume dist: "distinct (map record_id cs)"
  have "{A. feasible cs p g A} \<subseteq> Pow (record_id ` set cs)" by (auto simp: feasible_def)
  then have "finite {A. feasible cs p g A}" by (rule finite_subset) simp
  then show ?thesis by (simp add: answers_feasible [OF dist])
qed

lemma matches_mem: "x \<in> set (matches req ls rs) \<longleftrightarrow>
    (\<exists>lm l rm r. (lm, l) \<in> set ls \<and> (rm, r) \<in> set rs \<and> lm OR rm = req \<and> x = l @ r)"
  unfolding matches_def by (force split: prod.splits)

lemma matches_least:
  assumes dist: "distinct (map record_id cs)" and pos: "\<forall>c \<in> set cs. 0 < tokens c"
    and ls: "\<And>m s. (m, s) \<in> set ls \<longleftrightarrow> least (selections (cost_of cs) (bits_of cs)
        (sort (map record_id (filter primary cs))) (p, m)) = Some s"
    and rs: "\<And>m s. (m, s) \<in> set rs \<longleftrightarrow> least (selections (cost_of cs) (bits_of cs)
        (sort (map record_id (filter (\<lambda>c. \<not> primary c) cs))) (g, m)) = Some s"
  shows "least_of (matches (push_bit (length (families_of cs)) 1 - 1) ls rs) = least (answers cs p g)"
  unfolding least_of_set
proof (rule least_dominated [OF finite_answers [OF dist]])
  let ?req = "push_bit (length (families_of cs)) (1 :: nat) - 1"
  let ?L = "\<lambda>m. selections (cost_of cs) (bits_of cs) (sort (map record_id (filter primary cs))) (p, m)"
  let ?R = "\<lambda>m. selections (cost_of cs) (bits_of cs) (sort (map record_id (filter (\<lambda>c. \<not> primary c) cs))) (g, m)"
  show "set (matches ?req ls rs) \<subseteq> answers cs p g"
  proof
    fix x assume "x \<in> set (matches ?req ls rs)"
    then obtain lm l rm r where "(lm, l) \<in> set ls" "(rm, r) \<in> set rs" "lm OR rm = ?req" "x = l @ r"
      unfolding matches_mem by blast
    then show "x \<in> answers cs p g"
      unfolding ls rs answers_def by (auto simp: least_Some_iff)
  qed
  fix a assume "a \<in> answers cs p g"
  then obtain l r lm rm where a: "a = l @ r" "l \<in> ?L lm" "r \<in> ?R rm" "lm OR rm = ?req"
    unfolding answers_def by blast
  obtain l' r' where l': "least (?L lm) = Some l'" and r': "least (?R rm) = Some r'"
    using least_ex [OF a(2)] least_ex [OF a(3)] by blast
  then have le: "l' \<in> ?L lm" "l' \<le> l" "r' \<le> r"
    using a(2,3) by (simp_all add: least_Some_iff)
  have "l' @ r' \<in> set (matches ?req ls rs)"
    using l' r' a(4) unfolding matches_mem ls rs by blast
  moreover have "l' @ r' \<le> l @ r"
  proof (cases "l' = l")
    case True
    have "r' \<le> r \<Longrightarrow> q @ r' \<le> q @ r" for q :: "string list" by (induction q) simp_all
    with le(3) True show ?thesis by simp
  next
    case False
    have "\<forall>i \<in> set l. 0 < cost_of cs i"
      using a(2) pos by (auto simp: selections_def cost_of_def named_id [OF dist] dest!: subseq_mem)
    then have "\<nexists>v. v \<noteq> [] \<and> l = l' @ v"
      using a(2) le(1) by (intro same_sum_no_prefix [of "cost_of cs"]) (simp_all add: selections_def)
    moreover have "l' < l" using False le(2) by simp
    ultimately have "l' @ r' < l @ r" by (intro append_keeps_order)
    then show ?thesis by simp
  qed
  ultimately show "\<exists>b \<in> set (matches ?req ls rs). b \<le> a" using a(1) by blast
qed

section \<open>The selection is the least feasible one\<close>

lemma possibilities_error: "possibilities es target = Inl e \<Longrightarrow> e = TooManyStates"
  by (auto simp: possibilities_def bindE_eq_Inl dest: grow_error)

lemma possibilities_small:
  assumes "possibilities es target = Inl e"
  shows "16 < length es"
proof (rule ccontr)
  assume "\<not> 16 < length es"
  then have "(2 :: nat) ^ length (sort es) \<le> 2 ^ 16" by (intro power_increasing) simp_all
  then have "length [((0 :: int, 0 :: nat), [] :: string list)] * 2 ^ length (sort es) \<le> MAX_STATES"
    by (simp add: MAX_STATES_def)
  from grow_small [OF this, of target] obtain states where "grow target [((0, 0), [])] (sort es) = Inr states" ..
  with assms show False by (simp add: possibilities_def)
qed

lemma select_fraction_eq:
  assumes "distinct (map record_id cs)" and "\<forall>c \<in> set cs. 0 < tokens c" and "length (families_of cs) \<le> 20"
    and "0 < n" and "0 \<le> share" and "share \<le> 1" and "share * of_int n = of_int g"
  shows "select_fraction cs share n =
    bindE (possibilities (map (entry_of (families_of cs)) (filter primary cs)) (n - g)) (\<lambda>ls.
    bindE (possibilities (map (entry_of (families_of cs)) (filter (\<lambda>c. \<not> primary c) cs)) g) (\<lambda>rs.
      case least_of (matches (push_bit (length (families_of cs)) 1 - 1) ls rs) of
        None \<Rightarrow> Inl Infeasible | Some chosen \<Rightarrow> Inr (set chosen)))"
  using assms
  by (simp add: select_fraction_def generated_target_def quotient_of_int place_all Let_def)

lemma share_bounds:
  fixes share :: rat
  assumes "0 < n" "0 \<le> share" "share \<le> 1" "share * of_int n = of_int g"
  shows "0 \<le> g \<and> g \<le> n"
proof -
  have "(0 :: rat) \<le> of_int g" using assms by (simp flip: assms(4))
  moreover have "(of_int g :: rat) \<le> of_int n"
    using assms mult_right_mono [of share 1 "of_int n"] by (simp flip: assms(4))
  ultimately show ?thesis by simp
qed

lemma partition_least:
  assumes dist: "distinct (map record_id cs)" and pos: "\<forall>c \<in> set cs. 0 < tokens c"
    and ps: "possibilities (map (entry_of (families_of cs)) xs) t = Inr ps" and "0 \<le> t" and "set xs \<subseteq> set cs"
  shows "(m, s) \<in> set ps \<longleftrightarrow>
    least (selections (cost_of cs) (bits_of cs) (sort (map record_id xs)) (t, m)) = Some s"
proof (rule possibilities_exact [OF _ assms(4)])
  show "possibilities (map (\<lambda>i. (i, cost_of cs i, bits_of cs i)) (map record_id xs)) t = Inr ps"
    using ps by (simp only: entries_by_id [OF dist assms(5)])
  show "\<forall>i \<in> set (map record_id xs). 0 < cost_of cs i"
    using pos assms(5) by (auto simp: cost_of_def named_id [OF dist] subset_iff)
qed

lemma least_answers:
  assumes dist: "distinct (map record_id cs)"
  shows "case least (answers cs p g) of
      None \<Rightarrow> \<nexists>B. feasible cs p g B
    | Some x \<Rightarrow> feasible cs p g (set x) \<and> (\<forall>B. feasible cs p g B \<longrightarrow> rank cs (set x) \<le> rank cs B)"
proof (cases "least (answers cs p g)")
  case None
  then show ?thesis by (auto simp: least_def answers_feasible [OF dist] split: if_splits)
next
  case (Some x)
  then have "x \<in> answers cs p g" "\<forall>y \<in> answers cs p g. x \<le> y"
    by (simp_all add: least_Some_iff [OF finite_answers [OF dist]])
  then have x: "x \<in> rank cs ` {A. feasible cs p g A}" and low: "\<forall>B. feasible cs p g B \<longrightarrow> x \<le> rank cs B"
    unfolding answers_feasible [OF dist] by blast+
  from x obtain A where A: "feasible cs p g A" "x = rank cs A" by blast
  then have "set x = A" by (auto simp: set_rank feasible_def)
  with A low Some show ?thesis by simp
qed

text \<open>
  C11. The selection is exact and least. For a pool of candidates with distinct ids and positive
  token counts, at most twenty families and a share that is a whole number \<open>g\<close> of the \<open>n\<close> training
  tokens: a returned set of records has exactly \<open>n - g\<close> primary tokens, exactly \<open>g\<close> other tokens and
  every family, and no other such set comes before it in the order of sorted ids; "infeasible" is
  raised only if no such set exists; and the bounded table can only give up on a pool in which one
  side has more than sixteen candidates.
\<close>

theorem selection_is_least_feasible:
  assumes dist: "distinct (map record_id cs)" and pos: "\<forall>c \<in> set cs. 0 < tokens c"
    and fams: "length (families_of cs) \<le> 20"
    and req: "0 < n" "0 \<le> share" "share \<le> 1" "share * of_int n = of_int g"
  shows "case select_fraction cs share n of
      Inr A \<Rightarrow> feasible cs (n - g) g A \<and> (\<forall>B. feasible cs (n - g) g B \<longrightarrow> rank cs A \<le> rank cs B)
    | Inl e \<Rightarrow> e = Infeasible \<and> (\<nexists>B. feasible cs (n - g) g B)
        \<or> e = TooManyStates \<and> (16 < length (filter primary cs) \<or> 16 < length (filter (\<lambda>c. \<not> primary c) cs))"
proof -
  let ?P = "filter primary cs" and ?G = "filter (\<lambda>c. \<not> primary c) cs"
  let ?e = "map (entry_of (families_of cs))"
  have g: "0 \<le> g" "0 \<le> n - g" using share_bounds [OF req] by simp_all
  note eq = select_fraction_eq [OF dist pos fams req]
  show ?thesis
  proof (cases "possibilities (?e ?P) (n - g)")
    case (Inl e)
    then show ?thesis
      using possibilities_error [OF Inl] possibilities_small [OF Inl]
      by (simp add: eq Inl)
  next
    case ls: (Inr ls)
    show ?thesis
    proof (cases "possibilities (?e ?G) g")
      case (Inl e)
      then show ?thesis
        using possibilities_error [OF Inl] possibilities_small [OF Inl] ls
        by (simp add: eq Inl)
    next
      case rs: (Inr rs)
      have least: "least_of (matches (push_bit (length (families_of cs)) 1 - 1) ls rs) = least (answers cs (n - g) g)"
        by (rule matches_least [OF dist pos partition_least [OF dist pos ls g(2)] partition_least [OF dist pos rs g(1)]]) auto
      show ?thesis
        using least_answers [OF dist, of "n - g" g]
        unfolding eq ls rs bindE_Inr least by (cases "least (answers cs (n - g) g)") simp_all
    qed
  qed
qed

definition sample_pool :: "candidate list" where
  "sample_pool =
     [\<lparr>record_id = ''p2'', tokens = 4, source_family_ids = [''f''], origin = ''human_authored''\<rparr>,
      \<lparr>record_id = ''p1'', tokens = 2, source_family_ids = [''f''], origin = ''primary_source''\<rparr>,
      \<lparr>record_id = ''p3'', tokens = 2, source_family_ids = [''g''], origin = ''primary_source''\<rparr>,
      \<lparr>record_id = ''g1'', tokens = 4, source_family_ids = [''g'', ''f''], origin = ''generated''\<rparr>]"

lemma covered_as_list:
  "covered_families A cs = set (concat (map source_family_ids (filter (\<lambda>c. record_id c \<in> A) cs)))"
  by (auto simp: covered_families_def)

lemma sample_feasible: "feasible sample_pool 4 4 {''p1'', ''p3'', ''g1''}"
proof -
  have "covered_families {''p1'', ''p3'', ''g1''} sample_pool = {''f'', ''g''}"
    unfolding covered_as_list by (simp add: sample_pool_def insert_commute)
  then show ?thesis
    unfolding feasible_def by (simp add: tokens_in_def sample_pool_def primary_def insert_commute)
qed

theorem selection_is_least_feasible_witness:
  "\<exists>A. select_fraction sample_pool (1 / 2) 8 = Inr A \<and> feasible sample_pool 4 4 A
     \<and> rank sample_pool A \<le> [''p1'', ''p3'', ''g1'']"
proof -
  have pool: "distinct (map record_id sample_pool)" "\<forall>c \<in> set sample_pool. 0 < tokens c"
    "length (families_of sample_pool) \<le> 20"
    by (simp_all add: sample_pool_def families_of_def)
  have few: "length (filter primary sample_pool) \<le> 16" "length (filter (\<lambda>c. \<not> primary c) sample_pool) \<le> 16"
    by (simp_all add: sample_pool_def primary_def)
  have "rank sample_pool {''p1'', ''p3'', ''g1''} = [''p1'', ''p3'', ''g1'']"
    by (simp add: rank_def chosen_ids_def sample_pool_def primary_def)
  then show ?thesis
    using selection_is_least_feasible [OF pool, of 8 "1 / 2" 4] sample_feasible few
    by (auto split: sum.splits)
qed

end
