(* ===== verification/Disk_Program.thy ===== *)
theory Disk_Program
  imports Lab_Prelude "HOL-Library.AList"
begin

text \<open>
  Programs over one directory whose writes can be cut short. A directory is an association list
  from file names to contents; a program reads it, performs atomic actions (put a file, rename,
  unlink) one after the other and ends with a value or an exception. The actions are recorded in
  order, so a crash is a prefix of them.

  \<open>wp\<close> is the weakest precondition of a program for a crash condition and a postcondition: every
  prefix of the actions leaves a directory with the crash condition, the program returns (it does
  not raise), and the result satisfies the postcondition.
\<close>

section \<open>Directories and actions\<close>

type_synonym ('f, 'c) dir = "('f \<times> 'c) list"

datatype ('f, 'c) action = Put 'f 'c | Rename 'f 'f | Unlink 'f

fun apply_action :: "('f, 'c) action \<Rightarrow> ('f, 'c) dir \<Rightarrow> ('f, 'c) dir" where
  "apply_action (Put f c) d = AList.update f c d"
| "apply_action (Rename f g) d =
     (case map_of d f of None \<Rightarrow> d | Some c \<Rightarrow> AList.update g c (AList.delete f d))"
| "apply_action (Unlink f) d = AList.delete f d"

definition after :: "('f, 'c) dir \<Rightarrow> ('f, 'c) action list \<Rightarrow> ('f, 'c) dir" where
  "after d acts = fold apply_action acts d"

lemma after_Nil [simp]: "after d [] = d"
  by (simp add: after_def)

lemma after_Cons [simp]: "after d (a # acts) = after (apply_action a d) acts"
  by (simp add: after_def)

lemma after_append [simp]: "after d (xs @ ys) = after (after d xs) ys"
  by (simp add: after_def)

lemma map_of_put [simp]: "map_of (apply_action (Put f c) d) = (map_of d)(f \<mapsto> c)"
  by (simp add: update_conv')

lemma map_of_unlink [simp]: "map_of (apply_action (Unlink f) d) = (map_of d)(f := None)"
  by (simp add: delete_conv')

lemma map_of_rename [simp]:
  "map_of (apply_action (Rename f g) d) =
     (case map_of d f of None \<Rightarrow> map_of d | Some c \<Rightarrow> ((map_of d)(f := None))(g \<mapsto> c))"
  by (simp add: update_conv' delete_conv' split: option.split)

declare apply_action.simps [simp del]

section \<open>Programs\<close>

type_synonym ('f, 'c, 'e, 'a) disk_program = "('f, 'c) dir \<Rightarrow> ('f, 'c) action list \<times> ('e + 'a)"

definition return_io :: "'a \<Rightarrow> ('f, 'c, 'e, 'a) disk_program" where
  "return_io x = (\<lambda>d. ([], Inr x))"

definition raise_io :: "'e \<Rightarrow> ('f, 'c, 'e, 'a) disk_program" where
  "raise_io e = (\<lambda>d. ([], Inl e))"

definition lift_io :: "'e + 'a \<Rightarrow> ('f, 'c, 'e, 'a) disk_program" where
  "lift_io r = (\<lambda>d. ([], r))"

definition act :: "('f, 'c) action \<Rightarrow> ('f, 'c, 'e, unit) disk_program" where
  "act a = (\<lambda>d. ([a], Inr ()))"

definition look :: "(('f, 'c) dir \<Rightarrow> 'e + 'a) \<Rightarrow> ('f, 'c, 'e, 'a) disk_program" where
  "look f = (\<lambda>d. ([], f d))"

definition bind_io :: "('f, 'c, 'e, 'a) disk_program \<Rightarrow> ('a \<Rightarrow> ('f, 'c, 'e, 'b) disk_program)
    \<Rightarrow> ('f, 'c, 'e, 'b) disk_program" where
  "bind_io p q = (\<lambda>d. case p d of
     (acts, Inl e) \<Rightarrow> (acts, Inl e)
   | (acts, Inr x) \<Rightarrow> (case q x (after d acts) of (more, r) \<Rightarrow> (acts @ more, r)))"

fun for_io :: "('a \<Rightarrow> ('f, 'c, 'e, unit) disk_program) \<Rightarrow> 'a list \<Rightarrow> ('f, 'c, 'e, unit) disk_program" where
  "for_io p [] = return_io ()"
| "for_io p (x # xs) = bind_io (p x) (\<lambda>_. for_io p xs)"

lemma bind_lift_Inr: "bind_io (lift_io (Inr x)) p = p x"
  by (simp add: bind_io_def lift_io_def)

text \<open>Programs that write nothing.\<close>

lemma silent_simps: "fst (return_io x d) = []" "fst (raise_io e d) = []" "fst (lift_io r d) = []" "fst (look f d) = []"
  by (simp_all add: return_io_def raise_io_def lift_io_def look_def)

lemma silent_bind:
  assumes "fst (p d) = []" and "\<And>x. fst (q x d) = []"
  shows "fst (bind_io p q d) = []"
proof -
  obtain r where p: "p d = ([], r)" using assms(1) by (metis prod.collapse)
  show ?thesis
  proof (cases r)
    case (Inr x)
    with p assms(2) [of x] show ?thesis by (cases "q x d") (simp add: bind_io_def)
  qed (simp add: bind_io_def p)
qed

lemma silent_for: "(\<And>x. fst (p x d) = []) \<Longrightarrow> fst (for_io p xs d) = []"
  by (induction xs) (simp_all add: silent_bind silent_simps)

section \<open>Weakest preconditions with a crash condition\<close>

definition wp :: "('f, 'c, 'e, 'a) disk_program \<Rightarrow> (('f, 'c) dir \<Rightarrow> bool) \<Rightarrow> ('a \<Rightarrow> ('f, 'c) dir \<Rightarrow> bool)
    \<Rightarrow> ('f, 'c) dir \<Rightarrow> bool" where
  "wp p C Q d \<longleftrightarrow> (\<forall>k. C (after d (take k (fst (p d)))))
     \<and> (\<exists>x. snd (p d) = Inr x \<and> Q x (after d (fst (p d))))"

named_theorems wp_simps \<open>weakest preconditions of the program constructs\<close>

lemma wp_return [wp_simps]: "wp (return_io x) C Q d \<longleftrightarrow> C d \<and> Q x d"
  by (simp add: wp_def return_io_def)

lemma wp_raise [wp_simps]: "wp (raise_io e) C Q d \<longleftrightarrow> False"
  by (simp add: wp_def raise_io_def)

lemma wp_lift [wp_simps]: "wp (lift_io r) C Q d \<longleftrightarrow> C d \<and> (\<exists>x. r = Inr x \<and> Q x d)"
  by (simp add: wp_def lift_io_def)

lemma wp_look [wp_simps]: "wp (look f) C Q d \<longleftrightarrow> C d \<and> (\<exists>x. f d = Inr x \<and> Q x d)"
  by (simp add: wp_def look_def)

lemma wp_act [wp_simps]: "wp (act a) C Q d \<longleftrightarrow> C d \<and> C (apply_action a d) \<and> Q () (apply_action a d)"
proof -
  have "(\<forall>k. C (after d (take k [a]))) \<longleftrightarrow> C d \<and> C (apply_action a d)"
    by (metis after_Cons after_Nil take_0 take_Suc_Cons take_Nil not0_implies_Suc)
  then show ?thesis by (auto simp: wp_def act_def)
qed

lemma wp_bind [wp_simps]: "wp (bind_io p q) C Q d \<longleftrightarrow> wp p C (\<lambda>x. wp (q x) C Q) d"
proof -
  obtain acts r where p: "p d = (acts, r)" by fastforce
  show ?thesis
  proof (cases r)
    case (Inl e)
    with p show ?thesis by (simp add: wp_def bind_io_def)
  next
    case (Inr x)
    obtain more s where q: "q x (after d acts) = (more, s)" by fastforce
    have "(\<forall>k. C (after d (take k (acts @ more)))) \<longleftrightarrow>
        (\<forall>k. C (after d (take k acts))) \<and> (\<forall>k. C (after (after d acts) (take k more)))" (is "?l \<longleftrightarrow> ?r")
    proof
      assume l: ?l
      have "C (after (after d acts) (take k more))" for k
        using l [rule_format, of "length acts + k"] by simp
      moreover have "C (after d (take k acts))" for k
        using l [rule_format, of "min k (length acts)"] by (simp add: min_def split: if_splits)
      ultimately show ?r by blast
    next
      assume r: ?r
      show ?l
      proof
        fix k
        show "C (after d (take k (acts @ more)))"
          using r by (cases "k \<le> length acts") simp_all
      qed
    qed
    with p q Inr show ?thesis by (auto simp: wp_def bind_io_def)
  qed
qed

lemma wp_mono:
  "wp p C Q d \<Longrightarrow> (\<And>d. C d \<Longrightarrow> C' d) \<Longrightarrow> (\<And>x d. Q x d \<Longrightarrow> Q' x d) \<Longrightarrow> wp p C' Q' d"
  unfolding wp_def by blast

lemma wp_crash: "wp p C Q d \<Longrightarrow> C (after d (take k (fst (p d))))"
  by (simp add: wp_def)

lemma wp_start: "wp p C Q d \<Longrightarrow> C d"
  using wp_crash [of p C Q d 0] by simp

lemma wp_result: "wp p C Q d \<Longrightarrow> p d = (acts, Inr x) \<Longrightarrow> Q x (after d acts)"
  by (auto simp: wp_def)

lemma wp_returns: "wp p C Q d \<Longrightarrow> \<exists>x. snd (p d) = Inr x \<and> Q x (after d (fst (p d)))"
  by (simp add: wp_def)

text \<open>The rule for loops: an assertion for each position of the list.\<close>

lemma wp_for:
  assumes "I [] d" and "\<And>done d. I done d \<Longrightarrow> C d"
    and "\<And>before x rest d. xs = before @ x # rest \<Longrightarrow> I before d \<Longrightarrow> wp (p x) C (\<lambda>_. I (before @ [x])) d"
    and "\<And>d. I xs d \<Longrightarrow> Q () d"
  shows "wp (for_io p xs) C Q d"
proof -
  have "wp (for_io p rest) C Q d" if "xs = before @ rest" "I before d" for before rest d
    using that
  proof (induction rest arbitrary: before d)
    case Nil
    with assms(2,4) show ?case by (simp add: wp_simps)
  next
    case (Cons x rest)
    have "wp (p x) C (\<lambda>_. I (before @ [x])) d" using assms(3) Cons.prems by blast
    then show ?case
      unfolding for_io.simps wp_bind
      by (rule wp_mono) (use Cons in \<open>auto\<close>)
  qed
  from this [of "[]" xs d] assms(1) show ?thesis by simp
qed

end
