(* ===== verification/Chunks.thy ===== *)
theory Chunks
  imports Disk_Program
begin

text \<open>
  \<open>src/sparselab/data/preparation_chunks.py\<close>: the staging directory in which prepared arrays grow
  chunk by chunk. A chunk is committed by its receipt; a process that starts again finds the
  committed chunks, discards the unfinished one and goes on after the last committed record.

  A staging directory is a \<open>Disk_Program\<close> directory. A file name is a constructor: \<open>Receipt sp i\<close> is
  \<open><sp>-<i, six digits>.receipt.json\<close>, \<open>Raw sp i n\<close> is \<open><sp>-<i>.<n>.raw\<close>, each with its \<open>.tmp\<close>
  form, \<open>Final sp n\<close> the published array. Six digits sort like the numbers they stand for, so the
  model agrees with the code up to a million chunks of a split. A stored document is \<open>Sealed r\<close> or
  \<open>OwnerDoc o\<close> when it is canonical and its checksum holds and \<open>Bytes b\<close> otherwise. \<open>Root\<close> stands for the
  directory itself, between its creation and the first file.

  Arguments of the model: the bytes numpy makes of a list of integers (\<open>None\<close> when it raises), the
  NPY header, SHA-256. Only this process writes the directory while it runs, so the fingerprints of
  the code (device, inode, size, time) never differ and are left out, as are telemetry and the test
  hooks. The search for a sibling directory with the same binding, the worker scratch directories (\<open>work_chunks\<close>, \<open>adopt\<close>) and the cleanup of a published
  directory are not modelled.
\<close>

section \<open>Data\<close>

type_synonym byte_string = "nat list"

record array_type =
  dtype :: string
  itemsize :: int

record chunk_env =
  arrays :: "(string \<times> array_type) list"
  record_limit :: int
  raw_byte_limit :: int
  owner_document :: string
  tobytes :: "array_type \<Rightarrow> int list \<Rightarrow> byte_string option"
  npy_header :: "array_type \<Rightarrow> int \<Rightarrow> byte_string"
  sha256 :: "byte_string \<Rightarrow> string"

record counts =
  acquired_documents :: int
  retained_documents :: int
  skipped_documents :: int
  truncated_documents :: int
  output_tokens :: int

record array_meta =
  meta_dtype :: string
  meta_length :: int
  meta_sha256 :: string

record receipt =
  receipt_split :: string
  receipt_index :: int
  first_acquired_index :: int
  receipt_counts :: counts
  receipt_arrays :: "(string \<times> array_meta) list"

datatype chunk_file =
    Root | Marker | MarkerTmp | Receipt string nat | ReceiptTmp string nat
  | Raw string nat string | RawTmp string nat string
  | Final string string | FinalTmp string string | Manifest | ManifestTmp | OtherFile string

datatype content = Bytes byte_string | Sealed receipt | OwnerDoc string

datatype chunk_error =
    BadArrays | BadLimits | BadDtypes | MissingFile chunk_file | NotCanonical chunk_file | OwnerMismatch
  | NoncontiguousChunk | BadReceipt | BadReceiptField | BadCounts | BadTokenCount | BadArrayNames
  | BadRawMetadata | RawLengthMismatch | ExceedsRawLimit | UnexpectedEntry | NoncontiguousRecords
  | ChunkChanged | UnknownSplit | NoncontiguousRecord | SidecarsMismatch | BadValues | SidecarLengths
  | DocumentTooLarge | FileExists

type_synonym 'a staging = "(chunk_file, content, chunk_error, 'a) disk_program"
type_synonym staging_dir = "(chunk_file, content) dir"

definition splits :: "string list" where
  "splits = [''train'', ''validation'']"

definition no_counts :: counts where
  "no_counts = \<lparr>acquired_documents = 0, retained_documents = 0, skipped_documents = 0,
     truncated_documents = 0, output_tokens = 0\<rparr>"

definition add_counts :: "counts \<Rightarrow> counts \<Rightarrow> counts" where
  "add_counts a b = \<lparr>acquired_documents = acquired_documents a + acquired_documents b,
     retained_documents = retained_documents a + retained_documents b,
     skipped_documents = skipped_documents a + skipped_documents b,
     truncated_documents = truncated_documents a + truncated_documents b,
     output_tokens = output_tokens a + output_tokens b\<rparr>"

section \<open>Checks of the owner and of receipts\<close>

definition check_owner :: "chunk_env \<Rightarrow> chunk_error + unit" where
  "check_owner env =
     (if arrays env = [] \<or> \<not> fst ` set (arrays env) \<subseteq> {''ids'', ''byte_addresses'', ''supervision''}
         \<or> ''ids'' \<notin> fst ` set (arrays env) then Inl BadArrays
      else if record_limit env < 1 \<or> raw_byte_limit env < 1 then Inl BadLimits
      else if \<exists>t \<in> snd ` set (arrays env). itemsize t < 1 then Inl BadDtypes
      else Inr ())"

definition check_array :: "receipt \<Rightarrow> int \<Rightarrow> string \<times> array_type \<Rightarrow> chunk_error + int" where
  "check_array r sofar a =
     (case map_of (receipt_arrays r) (fst a) of
        None \<Rightarrow> Inl BadRawMetadata
      | Some entry \<Rightarrow>
          if meta_dtype entry \<noteq> dtype (snd a) \<or> meta_length entry < 0 \<or> length (meta_sha256 entry) \<noteq> 64
          then Inl BadRawMetadata
          else if meta_length entry \<noteq> output_tokens (receipt_counts r) * itemsize (snd a) then Inl RawLengthMismatch
          else Inr (sofar + meta_length entry))"

definition validate_receipt :: "chunk_env \<Rightarrow> string \<Rightarrow> nat \<Rightarrow> receipt \<Rightarrow> chunk_error + unit" where
  "validate_receipt env sp i r =
     (let c = receipt_counts r in
      if receipt_split r \<noteq> sp \<or> receipt_index r \<noteq> int i then Inl BadReceipt
      else if first_acquired_index r < 0 \<or> acquired_documents c < 0 \<or> retained_documents c < 0
          \<or> skipped_documents c < 0 \<or> truncated_documents c < 0 \<or> output_tokens c < 0 then Inl BadReceiptField
      else if acquired_documents c < 1 \<or> record_limit env < acquired_documents c
          \<or> retained_documents c + skipped_documents c \<noteq> acquired_documents c
          \<or> truncated_documents c \<noteq> 0 then Inl BadCounts
      else if output_tokens c < retained_documents c then Inl BadTokenCount
      else if fst ` set (receipt_arrays r) \<noteq> fst ` set (arrays env) then Inl BadArrayNames
      else bindE (foldE (check_array r) 0 (arrays env)) (\<lambda>total_length.
        if raw_byte_limit env < total_length then Inl ExceedsRawLimit else Inr ()))"

section \<open>File operations\<close>

definition present :: "chunk_file \<Rightarrow> (bool) staging" where
  "present f = look (\<lambda>d. Inr (map_of d f \<noteq> None))"

definition read_file :: "chunk_file \<Rightarrow> content staging" where
  "read_file f = look (\<lambda>d. case map_of d f of None \<Rightarrow> Inl (MissingFile f) | Some c \<Rightarrow> Inr c)"

text \<open>\<open>open("xb")\<close>: the file must not exist.\<close>

definition create_new :: "chunk_file \<Rightarrow> unit staging" where
  "create_new f = bind_io (present f) (\<lambda>there. if there then raise_io FileExists else act (Put f (Bytes [])))"

definition replace_file :: "chunk_file \<Rightarrow> chunk_file \<Rightarrow> unit staging" where
  "replace_file f g = bind_io (present f) (\<lambda>there. if there then act (Rename f g) else raise_io (MissingFile f))"

definition store_document :: "chunk_file \<Rightarrow> chunk_file \<Rightarrow> content \<Rightarrow> unit staging" where
  "store_document temporary path document =
     bind_io (create_new temporary) (\<lambda>_. bind_io (act (Put temporary document)) (\<lambda>_. replace_file temporary path))"

definition sealed_document :: "chunk_file \<Rightarrow> receipt staging" where
  "sealed_document f = bind_io (read_file f) (\<lambda>c. case c of Sealed r \<Rightarrow> return_io r | _ \<Rightarrow> raise_io (NotCanonical f))"

section \<open>Opening the directory\<close>

definition receipt_indices :: "staging_dir \<Rightarrow> string \<Rightarrow> nat list" where
  "receipt_indices d sp = sort (List.map_filter (\<lambda>(f, c). case f of Receipt q i \<Rightarrow> if q = sp then Some i else None | _ \<Rightarrow> None) d)"

definition check_receipts :: "chunk_env \<Rightarrow> string \<Rightarrow> nat staging" where
  "check_receipts env sp =
     bind_io (look (\<lambda>d. Inr (receipt_indices d sp))) (\<lambda>found.
     bind_io (for_io (\<lambda>(k, i). if i \<noteq> k then raise_io NoncontiguousChunk
         else bind_io (sealed_document (Receipt sp i)) (\<lambda>r. lift_io (validate_receipt env sp i r)))
       (zip [0 ..< length found] found)) (\<lambda>_. return_io (length found)))"

definition allowed :: "chunk_env \<Rightarrow> (string \<Rightarrow> nat) \<Rightarrow> chunk_file \<Rightarrow> bool" where
  "allowed env n f = (let names = fst ` set (arrays env) in case f of
     Receipt sp i \<Rightarrow> sp \<in> set splits \<and> i < n sp
   | ReceiptTmp sp i \<Rightarrow> sp \<in> set splits \<and> i = n sp
   | Raw sp i a \<Rightarrow> sp \<in> set splits \<and> i \<le> n sp \<and> a \<in> names
   | RawTmp sp i a \<Rightarrow> sp \<in> set splits \<and> i = n sp \<and> a \<in> names
   | Final sp a \<Rightarrow> sp \<in> set splits \<and> a \<in> names
   | FinalTmp sp a \<Rightarrow> sp \<in> set splits \<and> a \<in> names
   | OtherFile s \<Rightarrow> False
   | MarkerTmp \<Rightarrow> False
   | _ \<Rightarrow> True)"

definition of_chunk :: "string \<Rightarrow> nat \<Rightarrow> chunk_file \<Rightarrow> bool" where
  "of_chunk sp i f = (case f of Receipt q j \<Rightarrow> q = sp \<and> j = i | ReceiptTmp q j \<Rightarrow> q = sp \<and> j = i
     | Raw q j a \<Rightarrow> q = sp \<and> j = i | RawTmp q j a \<Rightarrow> q = sp \<and> j = i | _ \<Rightarrow> False)"

definition discard_chunk :: "string \<Rightarrow> nat \<Rightarrow> unit staging" where
  "discard_chunk sp i = bind_io (look (\<lambda>d. Inr (filter (of_chunk sp i) (map fst d)))) (\<lambda>stale.
     for_io (\<lambda>f. act (Unlink f)) stale)"

definition inspect_inventory :: "chunk_env \<Rightarrow> unit staging" where
  "inspect_inventory env =
     bind_io (check_receipts env ''train'') (\<lambda>n.
     bind_io (check_receipts env ''validation'') (\<lambda>m.
     bind_io (look (\<lambda>d. if list_all (allowed env (\<lambda>sp. if sp = ''train'' then n else m)) (map fst d)
                        then Inr () else Inl UnexpectedEntry)) (\<lambda>_.
     bind_io (discard_chunk ''train'' n) (\<lambda>_.
     bind_io (discard_chunk ''validation'' m) (\<lambda>_.
     bind_io (act (Unlink Manifest)) (\<lambda>_. act (Unlink ManifestTmp)))))))"

definition open_chunks :: "chunk_env \<Rightarrow> unit staging" where
  "open_chunks env =
     bind_io (lift_io (check_owner env)) (\<lambda>_.
     bind_io (present Root) (\<lambda>exists.
     bind_io
       (if exists then bind_io (read_file Marker) (\<lambda>c. case c of
            OwnerDoc o' \<Rightarrow> if o' = owner_document env then return_io () else raise_io OwnerMismatch
          | _ \<Rightarrow> raise_io (NotCanonical Marker))
        else bind_io (act (Put Root (Bytes []))) (\<lambda>_.
             store_document MarkerTmp Marker (OwnerDoc (owner_document env)))) (\<lambda>_.
     inspect_inventory env)))"

section \<open>A split\<close>

text \<open>
  \<open>fed\<close> is what the open streams and their hash objects received: the code keeps the length, the
  running hash and the file, which always agree.
\<close>

record split_chunks =
  split_name :: string
  sealed :: "receipt list"
  state :: counts
  pending :: counts
  streaming :: bool
  fed :: "(string \<times> byte_string) list"

definition fed_of :: "split_chunks \<Rightarrow> string \<Rightarrow> byte_string" where
  "fed_of s a = (case map_of (fed s) a of None \<Rightarrow> [] | Some b \<Rightarrow> b)"

definition sizes :: "chunk_env \<Rightarrow> split_chunks \<Rightarrow> int" where
  "sizes env s = sum_list (map (\<lambda>(a, t). int (length (fed_of s a))) (arrays env))"

text \<open>One committed chunk of \<open>SplitChunks.__init__\<close>: its receipt and the hash of each raw file.\<close>

definition check_raw :: "chunk_env \<Rightarrow> string \<Rightarrow> nat \<Rightarrow> receipt \<Rightarrow> string \<Rightarrow> unit staging" where
  "check_raw env sp i r a =
     bind_io (read_file (Raw sp i a)) (\<lambda>c. case (c, map_of (receipt_arrays r) a) of
       (Bytes b, Some entry) \<Rightarrow>
         if int (length b) \<noteq> meta_length entry then raise_io RawLengthMismatch
         else if sha256 env b \<noteq> meta_sha256 entry then raise_io ChunkChanged
         else return_io ()
     | _ \<Rightarrow> raise_io ChunkChanged)"

definition max_chunks :: nat where
  "max_chunks = 1000000000"

function load_chunks :: "chunk_env \<Rightarrow> string \<Rightarrow> nat \<Rightarrow> receipt list \<Rightarrow> counts \<Rightarrow> (receipt list \<times> counts) staging" where
  "load_chunks env sp i rs c =
     (if max_chunks \<le> i then return_io (rs, c)
      else bind_io (present (Receipt sp i)) (\<lambda>there.
        if \<not> there then return_io (rs, c)
        else bind_io (sealed_document (Receipt sp i)) (\<lambda>r.
          bind_io (lift_io (validate_receipt env sp i r)) (\<lambda>_.
          if first_acquired_index r \<noteq> acquired_documents c + 1 then raise_io NoncontiguousRecords
          else bind_io (for_io (\<lambda>(a, t). check_raw env sp i r a) (arrays env)) (\<lambda>_.
            load_chunks env sp (Suc i) (rs @ [r]) (add_counts c (receipt_counts r)))))))"
  by pat_completeness auto
termination
  by (relation "measure (\<lambda>(env, sp, i, rs, c). max_chunks - i)") auto

definition open_split :: "chunk_env \<Rightarrow> string \<Rightarrow> split_chunks staging" where
  "open_split env sp =
     (if sp \<notin> set splits then raise_io UnknownSplit
      else bind_io (load_chunks env sp 0 [] no_counts) (\<lambda>(rs, c). return_io
        \<lparr>split_name = sp, sealed = rs, state = c, pending = no_counts, streaming = False, fed = []\<rparr>))"

section \<open>Appending and sealing\<close>

type_synonym record_values = "(string \<times> int list) list"

definition encode_record :: "chunk_env \<Rightarrow> record_values \<Rightarrow> chunk_error + (string \<times> byte_string) list" where
  "encode_record env vs =
     (if fst ` set vs \<noteq> fst ` set (arrays env) then Inl SidecarsMismatch
      else bindE (mapE (\<lambda>(a, t). case map_of vs a of
            None \<Rightarrow> Inl BadValues
          | Some xs \<Rightarrow> (case tobytes env t xs of None \<Rightarrow> Inl BadValues | Some b \<Rightarrow> Inr (a, b))) (arrays env))
        (\<lambda>data.
          let ids = the (map_of data ''ids'');
              elements = (\<lambda>a b. int (length b) div itemsize (the (map_of (arrays env) a)))
          in if ids = [] \<or> (\<exists>(a, b) \<in> set data. elements a b \<noteq> elements ''ids'' ids) then Inl SidecarLengths
             else if raw_byte_limit env < sum_list (map (\<lambda>(a, b). int (length b)) data) then Inl DocumentTooLarge
             else Inr data))"

definition receipt_of :: "chunk_env \<Rightarrow> split_chunks \<Rightarrow> receipt" where
  "receipt_of env s =
     \<lparr>receipt_split = split_name s, receipt_index = int (length (sealed s)),
      first_acquired_index = acquired_documents (state s) + 1, receipt_counts = pending s,
      receipt_arrays = map (\<lambda>(a, t). (a, \<lparr>meta_dtype = dtype t, meta_length = int (length (fed_of s a)),
        meta_sha256 = sha256 env (fed_of s a)\<rparr>)) (arrays env)\<rparr>"

definition seal :: "chunk_env \<Rightarrow> split_chunks \<Rightarrow> split_chunks staging" where
  "seal env s =
     (if acquired_documents (pending s) = 0 then return_io s
      else let sp = split_name s; i = length (sealed s) in
        bind_io (for_io (\<lambda>(a, t). replace_file (RawTmp sp i a) (Raw sp i a)) (arrays env)) (\<lambda>_.
        bind_io (lift_io (validate_receipt env sp i (receipt_of env s))) (\<lambda>_.
        bind_io (store_document (ReceiptTmp sp i) (Receipt sp i) (Sealed (receipt_of env s))) (\<lambda>_.
        return_io (s\<lparr>sealed := sealed s @ [receipt_of env s], state := add_counts (state s) (pending s),
          pending := no_counts, streaming := False, fed := []\<rparr>)))))"

definition open_streams :: "chunk_env \<Rightarrow> split_chunks \<Rightarrow> split_chunks staging" where
  "open_streams env s =
     (if streaming s then return_io s
      else bind_io (for_io (\<lambda>(a, t). create_new (RawTmp (split_name s) (length (sealed s)) a)) (arrays env)) (\<lambda>_.
        return_io (s\<lparr>streaming := True, fed := map (\<lambda>(a, t). (a, [])) (arrays env)\<rparr>)))"

definition write_stream :: "split_chunks \<Rightarrow> string \<times> byte_string \<Rightarrow> unit staging" where
  "write_stream s ab = act (Put (RawTmp (split_name s) (length (sealed s)) (fst ab)) (Bytes (fed_of s (fst ab) @ snd ab)))"

definition skip_count :: counts where
  "skip_count = no_counts\<lparr>acquired_documents := 1, skipped_documents := 1\<rparr>"

definition keep_count :: "chunk_env \<Rightarrow> (string \<times> byte_string) list \<Rightarrow> counts" where
  "keep_count env data = no_counts\<lparr>acquired_documents := 1, retained_documents := 1,
     output_tokens := int (length (the (map_of data ''ids''))) div itemsize (the (map_of (arrays env) ''ids''))\<rparr>"

definition feed :: "split_chunks \<Rightarrow> (string \<times> byte_string) list \<Rightarrow> (string \<times> byte_string) list" where
  "feed s data = map (\<lambda>(a, b). (a, b @ (case map_of data a of None \<Rightarrow> [] | Some extra \<Rightarrow> extra))) (fed s)"

definition append_record :: "chunk_env \<Rightarrow> split_chunks \<Rightarrow> int \<Rightarrow> record_values option \<Rightarrow> split_chunks staging" where
  "append_record env s acquired_index vs =
     (if acquired_index \<noteq> acquired_documents (state s) + acquired_documents (pending s) + 1
      then raise_io NoncontiguousRecord
      else bind_io (lift_io (case vs of None \<Rightarrow> Inr None | Some v \<Rightarrow> bindE (encode_record env v) (\<lambda>data. Inr (Some data))))
        (\<lambda>data. let additional = (case data of None \<Rightarrow> 0 | Some bs \<Rightarrow> sum_list (map (\<lambda>(a, b). int (length b)) bs)) in
          bind_io (if acquired_documents (pending s) \<noteq> 0
                      \<and> (acquired_documents (pending s) = record_limit env
                         \<or> raw_byte_limit env < sizes env s + additional)
                   then seal env s else return_io s) (\<lambda>s'.
          bind_io (open_streams env s') (\<lambda>s''.
          case data of
            None \<Rightarrow> return_io (s''\<lparr>pending := add_counts (pending s'') skip_count\<rparr>)
          | Some bs \<Rightarrow> bind_io (for_io (write_stream s'') bs) (\<lambda>_.
              return_io (s''\<lparr>pending := add_counts (pending s'') (keep_count env bs), fed := feed s'' bs\<rparr>))))))"

section \<open>Finishing\<close>

definition copy_raw :: "split_chunks \<Rightarrow> string \<Rightarrow> nat \<Rightarrow> receipt \<Rightarrow> byte_string \<Rightarrow> byte_string staging" where
  "copy_raw s a i r sofar =
     bind_io (read_file (Raw (split_name s) i a)) (\<lambda>c. case (c, map_of (receipt_arrays r) a) of
       (Bytes b, Some entry) \<Rightarrow> if int (length b) \<noteq> meta_length entry then raise_io ChunkChanged else return_io (sofar @ b)
     | _ \<Rightarrow> raise_io ChunkChanged)"

fun copy_chunks :: "split_chunks \<Rightarrow> string \<Rightarrow> nat \<Rightarrow> receipt list \<Rightarrow> byte_string \<Rightarrow> byte_string staging" where
  "copy_chunks s a i [] sofar = return_io sofar"
| "copy_chunks s a i (r # rs) sofar = bind_io (copy_raw s a i r sofar) (\<lambda>b. copy_chunks s a (Suc i) rs b)"

definition finish_array :: "chunk_env \<Rightarrow> split_chunks \<Rightarrow> string \<times> array_type \<Rightarrow> unit staging" where
  "finish_array env s at =
     (let path = Final (split_name s) (fst at); temporary = FinalTmp (split_name s) (fst at) in
      bind_io (act (Unlink path)) (\<lambda>_. bind_io (act (Unlink temporary)) (\<lambda>_.
      bind_io (create_new temporary) (\<lambda>_.
      bind_io (copy_chunks s (fst at) 0 (sealed s) (npy_header env (snd at) (output_tokens (state s)))) (\<lambda>b.
      bind_io (act (Put temporary (Bytes b))) (\<lambda>_. replace_file temporary path))))))"

text \<open>The size and hash of what was written, and the counts.\<close>

definition written_proofs :: "chunk_env \<Rightarrow> string \<Rightarrow> (string \<times> int \<times> string) list staging" where
  "written_proofs env sp = look (\<lambda>d. mapE (\<lambda>(a, t). case map_of d (Final sp a) of
     Some (Bytes b) \<Rightarrow> Inr (a, int (length b), sha256 env b) | _ \<Rightarrow> Inl (MissingFile (Final sp a))) (arrays env))"

definition finish :: "chunk_env \<Rightarrow> split_chunks \<Rightarrow> (split_chunks \<times> (string \<times> int \<times> string) list) staging" where
  "finish env s = bind_io (seal env s) (\<lambda>s'.
     bind_io (for_io (finish_array env s') (arrays env)) (\<lambda>_.
     bind_io (written_proofs env (split_name s')) (\<lambda>proofs. return_io (s', proofs))))"

end
