(* ===== verification/Chunk_Programs.thy ===== *)
theory Chunk_Programs
  imports Chunks
begin

text \<open>
  The operations of \<open>Chunks\<close> as programs with a crash condition: what each leaves on disk when it is
  cut short, and what it does when it runs to its end. \<open>layout\<close> is the exact content of a split
  during an operation, \<open>split_ok\<close> what a crash may leave; \<open>holds\<close> relates the process to the source
  records it has taken. None of the operations raises on admissible records.
\<close>

section \<open>What is committed\<close>

type_synonym source = "record_values option list"

definition enc_values :: "chunk_env \<Rightarrow> string \<Rightarrow> array_type \<Rightarrow> record_values \<Rightarrow> byte_string" where
  "enc_values env a t v = the (tobytes env t (the (map_of v a)))"

definition raw_bytes :: "chunk_env \<Rightarrow> string \<Rightarrow> array_type \<Rightarrow> source \<Rightarrow> byte_string" where
  "raw_bytes env a t rs = concat (map (\<lambda>r. case r of None \<Rightarrow> [] | Some v \<Rightarrow> enc_values env a t v) rs)"

definition tokens_of :: "record_values \<Rightarrow> int" where
  "tokens_of v = int (length (the (map_of v ''ids'')))"

definition counts_of :: "source \<Rightarrow> counts" where
  "counts_of rs = \<lparr>acquired_documents = int (length rs),
     retained_documents = int (length (filter (\<lambda>r. r \<noteq> None) rs)),
     skipped_documents = int (length (filter (\<lambda>r. r = None) rs)), truncated_documents = 0,
     output_tokens = sum_list (map (\<lambda>r. case r of None \<Rightarrow> 0 | Some v \<Rightarrow> tokens_of v) rs)\<rparr>"

definition admissible :: "chunk_env \<Rightarrow> record_values option \<Rightarrow> bool" where
  "admissible env r \<longleftrightarrow> (case r of None \<Rightarrow> True | Some v \<Rightarrow> \<exists>data. encode_record env v = Inr data)"

text \<open>What the code relies on: numpy writes a fixed width, SHA-256 has 64 hexadecimal digits.\<close>

definition env_ok :: "chunk_env \<Rightarrow> bool" where
  "env_ok env \<longleftrightarrow> check_owner env = Inr () \<and> distinct (map fst (arrays env))
     \<and> (\<forall>b. length (sha256 env b) = 64)
     \<and> (\<forall>t xs b. tobytes env t xs = Some b \<longrightarrow> int (length b) = itemsize t * int (length xs))"

definition raw_size :: "chunk_env \<Rightarrow> source \<Rightarrow> int" where
  "raw_size env rs = sum_list (map (\<lambda>(a, t). int (length (raw_bytes env a t rs))) (arrays env))"

definition chunk_ok :: "chunk_env \<Rightarrow> source \<Rightarrow> bool" where
  "chunk_ok env rs \<longleftrightarrow> rs \<noteq> [] \<and> int (length rs) \<le> record_limit env \<and> list_all (admissible env) rs
     \<and> raw_size env rs \<le> raw_byte_limit env"

definition meta_for :: "chunk_env \<Rightarrow> source \<Rightarrow> (string \<times> array_meta) list" where
  "meta_for env rs = map (\<lambda>(a, t). (a, \<lparr>meta_dtype = dtype t, meta_length = int (length (raw_bytes env a t rs)),
     meta_sha256 = sha256 env (raw_bytes env a t rs)\<rparr>)) (arrays env)"

definition receipt_for :: "chunk_env \<Rightarrow> string \<Rightarrow> source list \<Rightarrow> source \<Rightarrow> receipt" where
  "receipt_for env sp before rs = \<lparr>receipt_split = sp, receipt_index = int (length before),
     first_acquired_index = int (length (concat before)) + 1, receipt_counts = counts_of rs,
     receipt_arrays = meta_for env rs\<rparr>"

lemma counts_of_Nil [simp]: "counts_of [] = no_counts"
  by (simp add: counts_of_def no_counts_def)

lemma counts_of_append: "counts_of (xs @ ys) = add_counts (counts_of xs) (counts_of ys)"
  by (simp add: counts_of_def add_counts_def)

lemma add_no_counts [simp]: "add_counts no_counts c = c" "add_counts c no_counts = c"
  by (simp_all add: add_counts_def no_counts_def)

lemma raw_bytes_Nil [simp]: "raw_bytes env a t [] = []"
  by (simp add: raw_bytes_def)

lemma raw_bytes_append: "raw_bytes env a t (xs @ ys) = raw_bytes env a t xs @ raw_bytes env a t ys"
  by (simp add: raw_bytes_def)

lemma array_type_pos: "env_ok env \<Longrightarrow> (a, t) \<in> set (arrays env) \<Longrightarrow> 1 \<le> itemsize t"
  by (force simp: env_ok_def check_owner_def split: if_splits)

lemma ids_array:
  assumes "env_ok env"
  obtains t where "(''ids'', t) \<in> set (arrays env)"
  using assms by (force simp: env_ok_def check_owner_def split: if_splits)

lemma map_of_array: "env_ok env \<Longrightarrow> (a, t) \<in> set (arrays env) \<Longrightarrow> map_of (arrays env) a = Some t"
  by (simp add: env_ok_def)

lemma map_of_by_key: "map_of (map (\<lambda>(a, t). (a, f a t)) xs) a = map_option (f a) (map_of xs a)"
  by (induction xs) auto

lemma map_of_array_image:
  "env_ok env \<Longrightarrow> (a, t) \<in> set (arrays env) \<Longrightarrow> map_of (map (\<lambda>(a, t). (a, f a t)) (arrays env)) a = Some (f a t)"
  by (simp add: map_of_by_key map_of_array)

lemma encode_record_Inr:
  assumes "encode_record env v = Inr data"
  shows "data = map (\<lambda>(a, t). (a, enc_values env a t v)) (arrays env)"
    and "(a, t) \<in> set (arrays env) \<Longrightarrow> tobytes env t (the (map_of v a)) = Some (enc_values env a t v)"
proof -
  let ?F = "\<lambda>(a, t). case map_of v a of
      None \<Rightarrow> Inl BadValues
    | Some xs \<Rightarrow> (case tobytes env t xs of None \<Rightarrow> Inl BadValues | Some b \<Rightarrow> Inr (a, b))"
  from assms have m: "mapE ?F (arrays env) = Inr data"
    by (auto simp: encode_record_def Let_def split: if_splits)
  have each: "\<exists>y. F x = Inr y" if "mapE F xs = Inr ys" "x \<in> set xs" for F :: "'a \<Rightarrow> 'e + 'b" and xs ys x
    using that by (induction xs arbitrary: ys) auto
  have stored: "?F (b, u) = Inr (b, enc_values env b u v) \<and> tobytes env u (the (map_of v b)) = Some (enc_values env b u v)"
    if bu: "(b, u) \<in> set (arrays env)" for b u
    using each [OF m bu] by (auto simp: enc_values_def split: option.splits)
  then have "mapE ?F (arrays env) = Inr (map (\<lambda>(a, t). (a, enc_values env a t v)) (arrays env))"
    by (intro mapE_eq_Inr_map) auto
  with m show "data = map (\<lambda>(a, t). (a, enc_values env a t v)) (arrays env)" by simp
  show "(a, t) \<in> set (arrays env) \<Longrightarrow> tobytes env t (the (map_of v a)) = Some (enc_values env a t v)"
    using stored by blast
qed

lemma encode_record_checks:
  assumes "encode_record env v = Inr data"
  shows "the (map_of data ''ids'') \<noteq> []"
    and "(a, b) \<in> set data \<Longrightarrow> int (length b) div itemsize (the (map_of (arrays env) a))
      = int (length (the (map_of data ''ids''))) div itemsize (the (map_of (arrays env) ''ids''))"
    and "sum_list (map (\<lambda>(a, b). int (length b)) data) \<le> raw_byte_limit env"
  using assms unfolding encode_record_def
  by (auto simp: Let_def split: if_splits)

lemma admissible_encode:
  assumes env: "env_ok env" and ok: "admissible env (Some v)"
  shows "encode_record env v = Inr (map (\<lambda>(a, t). (a, enc_values env a t v)) (arrays env))"
    and "(a, t) \<in> set (arrays env) \<Longrightarrow> int (length (enc_values env a t v)) = itemsize t * tokens_of v"
    and "1 \<le> tokens_of v"
    and "raw_size env [Some v] \<le> raw_byte_limit env"
proof -
  let ?data = "map (\<lambda>(a, t). (a, enc_values env a t v)) (arrays env)"
  from ok obtain data where "encode_record env v = Inr data" by (auto simp: admissible_def)
  then show enc: "encode_record env v = Inr ?data" using encode_record_Inr(1) by blast
  have len: "int (length (enc_values env b u v)) = itemsize u * int (length (the (map_of v b)))"
    if "(b, u) \<in> set (arrays env)" for b u
    using encode_record_Inr(2) [OF enc that] env by (auto simp: env_ok_def)
  obtain ti where ti: "(''ids'', ti) \<in> set (arrays env)" using env by (rule ids_array)
  have ids: "map_of ?data ''ids'' = Some (enc_values env ''ids'' ti v)" using map_of_array_image [OF env ti] .
  show toks: "1 \<le> tokens_of v"
  proof -
    have "length (enc_values env ''ids'' ti v) \<noteq> 0"
      using encode_record_checks(1) [OF enc] ids by simp
    with len [OF ti] show ?thesis by (cases "the (map_of v ''ids'')") (auto simp: tokens_of_def)
  qed
  have quot: "int (length (enc_values env b u v)) div itemsize u = int (length (the (map_of v b)))"
    if "(b, u) \<in> set (arrays env)" for b u
    using len [OF that] array_type_pos [OF env that] by simp
  have "int (length (the (map_of v b))) = tokens_of v" if bu: "(b, u) \<in> set (arrays env)" for b u
  proof -
    have "(b, enc_values env b u v) \<in> set ?data" using bu by force
    from encode_record_checks(2) [OF enc this] quot [OF bu] quot [OF ti] ids show ?thesis
      by (simp add: map_of_array [OF env bu] map_of_array [OF env ti] tokens_of_def)
  qed
  then show "(a, t) \<in> set (arrays env) \<Longrightarrow> int (length (enc_values env a t v)) = itemsize t * tokens_of v"
    using len by simp
  show "raw_size env [Some v] \<le> raw_byte_limit env"
    using encode_record_checks(3) [OF enc] by (simp add: raw_size_def raw_bytes_def comp_def case_prod_unfold)
qed

section \<open>Receipts of good chunks are valid\<close>

lemma raw_length:
  assumes env: "env_ok env" and "list_all (admissible env) rs" and at: "(a, t) \<in> set (arrays env)"
  shows "int (length (raw_bytes env a t rs)) = itemsize t * output_tokens (counts_of rs)"
  using assms(2)
proof (induction rs)
  case Nil
  show ?case by (simp add: no_counts_def)
next
  case (Cons r rs)
  have "int (length (raw_bytes env a t [r])) = itemsize t * output_tokens (counts_of [r])"
    using admissible_encode(2) [OF env _ at] Cons.prems
    by (cases r) (simp_all add: raw_bytes_def counts_of_def)
  then show ?case
    using Cons raw_bytes_append [of env a t "[r]" rs] counts_of_append [of "[r]" rs]
    by (simp add: add_counts_def algebra_simps)
qed

lemma retained_le_tokens:
  assumes "env_ok env" and "list_all (admissible env) rs"
  shows "retained_documents (counts_of rs) \<le> output_tokens (counts_of rs)"
  using assms(2)
proof (induction rs)
  case (Cons r rs)
  have "retained_documents (counts_of [r]) \<le> output_tokens (counts_of [r])"
    using admissible_encode(3) [OF assms(1)] Cons.prems by (cases r) (simp_all add: counts_of_def)
  then show ?case
    using Cons counts_of_append [of "[r]" rs] by (simp add: add_counts_def)
qed (simp add: no_counts_def)

lemma counts_split: "retained_documents (counts_of rs) + skipped_documents (counts_of rs) = int (length rs)"
proof -
  have "length (filter (\<lambda>r. r \<noteq> None) rs) + length (filter (\<lambda>r. r = None) rs) = length rs"
    using sum_length_filter_compl [of "\<lambda>r. r = None" rs] by simp
  then show ?thesis by (simp add: counts_of_def)
qed

lemma raw_size_append: "raw_size env (xs @ ys) = raw_size env xs + raw_size env ys"
  by (simp add: raw_size_def raw_bytes_append case_prod_unfold sum_list_addf)

lemma check_array_meta:
  assumes env: "env_ok env" and good: "list_all (admissible env) rs" and r: "receipt_counts r = counts_of rs" "receipt_arrays r = meta_for env rs"
    and "set as \<subseteq> set (arrays env)"
  shows "foldE (check_array r) n as = Inr (n + sum_list (map (\<lambda>(a, t). int (length (raw_bytes env a t rs))) as))"
  using assms(5)
proof (induction as arbitrary: n)
  case (Cons at as)
  obtain a t where at: "at = (a, t)" "(a, t) \<in> set (arrays env)" using Cons.prems by (cases at) auto
  have "map_of (receipt_arrays r) a = Some \<lparr>meta_dtype = dtype t, meta_length = int (length (raw_bytes env a t rs)),
     meta_sha256 = sha256 env (raw_bytes env a t rs)\<rparr>"
    unfolding r(2) meta_for_def by (rule map_of_array_image [OF env at(2)])
  then have "check_array r n at = Inr (n + int (length (raw_bytes env a t rs)))"
    using env raw_length [OF env good at(2)] by (simp add: check_array_def at(1) r(1) env_ok_def mult.commute)
  then show ?case using Cons.IH Cons.prems at(1) by (simp add: add.assoc)
qed simp

lemma receipt_valid:
  assumes env: "env_ok env" and ok: "chunk_ok env rs"
  shows "validate_receipt env sp (length before) (receipt_for env sp before rs) = Inr ()"
proof -
  let ?r = "receipt_for env sp before rs"
  have good: "list_all (admissible env) rs" using ok by (simp add: chunk_ok_def)
  have "foldE (check_array ?r) 0 (arrays env) = Inr (raw_size env rs)"
    using check_array_meta [OF env good, of ?r "arrays env" 0] by (simp add: receipt_for_def raw_size_def)
  moreover have "fst ` set (receipt_arrays ?r) = fst ` set (arrays env)"
    by (force simp: receipt_for_def meta_for_def)
  moreover have "0 \<le> retained_documents (counts_of rs)" "0 \<le> skipped_documents (counts_of rs)"
    "truncated_documents (counts_of rs) = 0" "acquired_documents (counts_of rs) = int (length rs)" "1 \<le> int (length rs)"
    using ok by (auto simp: counts_of_def chunk_ok_def Suc_le_eq)
  moreover have "receipt_split ?r = sp" "receipt_index ?r = int (length before)" "receipt_counts ?r = counts_of rs"
    "first_acquired_index ?r = int (length (concat before)) + 1"
    by (simp_all add: receipt_for_def)
  ultimately show ?thesis
    using ok retained_le_tokens [OF env good] counts_split [of rs]
    unfolding validate_receipt_def Let_def by (simp add: chunk_ok_def)
qed

section \<open>The layout of a split on disk\<close>

text \<open>
  \<open>c\<close> are the committed chunks. Of the next chunk, \<open>tmp\<close> and \<open>raw\<close> give the unsealed and the renamed
  raw files and \<open>rt\<close> the temporary receipt.
\<close>

definition owned :: "string \<Rightarrow> chunk_file \<Rightarrow> bool" where
  "owned sp f = (case f of Receipt q i \<Rightarrow> q = sp | ReceiptTmp q i \<Rightarrow> q = sp | Raw q i a \<Rightarrow> q = sp
     | RawTmp q i a \<Rightarrow> q = sp | _ \<Rightarrow> False)"

definition outputs :: "string \<Rightarrow> chunk_file \<Rightarrow> bool" where
  "outputs sp f = (case f of Final q a \<Rightarrow> q = sp | FinalTmp q a \<Rightarrow> q = sp | _ \<Rightarrow> False)"

definition committed_raw :: "chunk_env \<Rightarrow> source list \<Rightarrow> nat \<Rightarrow> string \<Rightarrow> content option" where
  "committed_raw env c i a = map_option (\<lambda>t. Bytes (raw_bytes env a t (c ! i))) (map_of (arrays env) a)"

definition committed_receipt :: "chunk_env \<Rightarrow> string \<Rightarrow> source list \<Rightarrow> nat \<Rightarrow> content" where
  "committed_receipt env sp c i = Sealed (receipt_for env sp (take i c) (c ! i))"

definition layout :: "chunk_env \<Rightarrow> string \<Rightarrow> source list \<Rightarrow> (string \<Rightarrow> byte_string option)
    \<Rightarrow> (string \<Rightarrow> byte_string option) \<Rightarrow> content option \<Rightarrow> staging_dir \<Rightarrow> bool" where
  "layout env sp c tmp raw rt d \<longleftrightarrow>
     (\<forall>i. map_of d (Receipt sp i) = (if i < length c then Some (committed_receipt env sp c i) else None))
     \<and> (\<forall>i. map_of d (ReceiptTmp sp i) = (if i = length c then rt else None))
     \<and> (\<forall>i a. map_of d (Raw sp i a) = (if i < length c then committed_raw env c i a
            else if i = length c then map_option Bytes (raw a) else None))
     \<and> (\<forall>i a. map_of d (RawTmp sp i a) = (if i = length c then map_option Bytes (tmp a) else None))
     \<and> (\<forall>f. outputs sp f \<longrightarrow> map_of d f \<noteq> None \<longrightarrow> allowed env (\<lambda>_. 0) f)"

text \<open>What a crash may leave behind: files of the next chunk with any content.\<close>

definition split_ok :: "chunk_env \<Rightarrow> string \<Rightarrow> source list \<Rightarrow> staging_dir \<Rightarrow> bool" where
  "split_ok env sp c d \<longleftrightarrow> list_all (chunk_ok env) c
     \<and> (\<forall>i < length c. map_of d (Receipt sp i) = Some (committed_receipt env sp c i)
          \<and> (\<forall>a. map_of d (Raw sp i a) = committed_raw env c i a))
     \<and> (\<forall>f. owned sp f \<or> outputs sp f \<longrightarrow> map_of d f \<noteq> None \<longrightarrow> allowed env (\<lambda>_. length c) f)"

lemma map_of_key: "map_of xs a = Some y \<Longrightarrow> a \<in> fst ` set xs"
  by (force dest: map_of_SomeD)

lemma allowed_outputs: "outputs sp f \<Longrightarrow> allowed env n f \<longleftrightarrow> allowed env m f"
  by (cases f) (simp_all add: outputs_def allowed_def)

lemma layout_split_ok:
  assumes lay: "layout env sp c tmp raw rt d" and "list_all (chunk_ok env) c" and sp: "sp \<in> set splits"
    and doms: "dom tmp \<subseteq> fst ` set (arrays env)" "dom raw \<subseteq> fst ` set (arrays env)"
  shows "split_ok env sp c d"
proof -
  have "allowed env (\<lambda>_. length c) f" if own: "owned sp f" and there: "map_of d f \<noteq> None" for f
  proof (cases f)
    case (Receipt q i)
    then show ?thesis using own there lay sp by (auto simp: owned_def layout_def allowed_def split: if_splits)
  next
    case (ReceiptTmp q i)
    then show ?thesis using own there lay sp by (auto simp: owned_def layout_def allowed_def split: if_splits)
  next
    case (Raw q i a)
    then show ?thesis using own there lay sp doms
      by (auto simp: owned_def layout_def allowed_def committed_raw_def dest: map_of_key split: if_splits)
  next
    case (RawTmp q i a)
    then show ?thesis using own there lay sp doms by (auto simp: owned_def layout_def allowed_def split: if_splits)
  qed (use own in \<open>simp_all add: owned_def\<close>)
  moreover have "allowed env (\<lambda>_. length c) f" if "outputs sp f" "map_of d f \<noteq> None" for f
    using lay that allowed_outputs [OF that(1)] unfolding layout_def by blast
  ultimately show ?thesis
    using assms(1,2) unfolding split_ok_def layout_def by auto
qed

lemma layout_put_tmp:
  "layout env sp c tmp raw rt d \<Longrightarrow>
     layout env sp c (tmp(a \<mapsto> b)) raw rt (apply_action (Put (RawTmp sp (length c) a) (Bytes b)) d)"
  unfolding layout_def by (auto simp: outputs_def)

lemma layout_rename_raw:
  "layout env sp c tmp raw rt d \<Longrightarrow> tmp a = Some b \<Longrightarrow>
     layout env sp c (tmp(a := None)) (raw(a \<mapsto> b)) rt (apply_action (Rename (RawTmp sp (length c) a) (Raw sp (length c) a)) d)"
  unfolding layout_def by (auto simp: outputs_def)

lemma layout_put_receipt:
  "layout env sp c tmp raw rt d \<Longrightarrow>
     layout env sp c tmp raw (Some x) (apply_action (Put (ReceiptTmp sp (length c)) x) d)"
  unfolding layout_def by (auto simp: outputs_def)

definition chunk_raw :: "chunk_env \<Rightarrow> source \<Rightarrow> string \<Rightarrow> byte_string option" where
  "chunk_raw env cur a = map_option (\<lambda>t. raw_bytes env a t cur) (map_of (arrays env) a)"

lemma layout_commit:
  assumes lay: "layout env sp c Map.empty (chunk_raw env cur) (Some (Sealed (receipt_for env sp c cur))) d"
  shows "layout env sp (c @ [cur]) Map.empty Map.empty None
    (apply_action (Rename (ReceiptTmp sp (length c)) (Receipt sp (length c))) d)"
proof -
  have rt: "map_of d (ReceiptTmp sp (length c)) = Some (Sealed (receipt_for env sp c cur))"
    using lay by (simp add: layout_def)
  have "committed_raw env (c @ [cur]) (length c) a = map_option Bytes (chunk_raw env cur a)" for a
    by (simp add: committed_raw_def chunk_raw_def option.map_comp comp_def)
  moreover have "committed_raw env (c @ [cur]) i a = committed_raw env c i a" if "i < length c" for i a
    using that by (simp add: committed_raw_def nth_append)
  moreover have "committed_receipt env sp (c @ [cur]) i = committed_receipt env sp c i" if "i < length c" for i
    using that by (simp add: committed_receipt_def nth_append)
  moreover have "committed_receipt env sp (c @ [cur]) (length c) = Sealed (receipt_for env sp c cur)"
    by (simp add: committed_receipt_def)
  ultimately show ?thesis
    using lay unfolding layout_def by (auto simp: rt outputs_def less_Suc_eq)
qed

text \<open>What an operation on one split may change.\<close>

definition keeps_rest :: "string \<Rightarrow> staging_dir \<Rightarrow> staging_dir \<Rightarrow> bool" where
  "keeps_rest sp d d' \<longleftrightarrow> distinct (map fst d')
     \<and> (\<forall>f. \<not> owned sp f \<and> \<not> outputs sp f \<longrightarrow> map_of d' f = map_of d f)"

fun touches :: "(chunk_file, content) action \<Rightarrow> chunk_file set" where
  "touches (Put f c) = {f}"
| "touches (Rename f g) = {f, g}"
| "touches (Unlink f) = {f}"

lemma apply_distinct: "distinct (map fst d) \<Longrightarrow> distinct (map fst (apply_action a d))"
  by (cases a) (auto simp: apply_action.simps distinct_update distinct_delete split: option.splits)

lemma keeps_rest_step:
  assumes "keeps_rest sp d d'" and "\<forall>f \<in> touches a. owned sp f \<or> outputs sp f"
  shows "keeps_rest sp d (apply_action a d')"
  using assms apply_distinct [of d' a] unfolding keeps_rest_def
  by (cases a) (auto split: option.splits)

definition crash_ok :: "chunk_env \<Rightarrow> string \<Rightarrow> source list set \<Rightarrow> staging_dir \<Rightarrow> staging_dir \<Rightarrow> bool" where
  "crash_ok env sp cs d d' \<longleftrightarrow> keeps_rest sp d d' \<and> (\<exists>c \<in> cs. split_ok env sp c d')"

lemma crash_okI: "keeps_rest sp d d' \<Longrightarrow> split_ok env sp c d' \<Longrightarrow> c \<in> cs \<Longrightarrow> crash_ok env sp cs d d'"
  by (auto simp: crash_ok_def)

section \<open>The process and its files\<close>

definition receipts :: "chunk_env \<Rightarrow> string \<Rightarrow> source list \<Rightarrow> receipt list" where
  "receipts env sp c = map (\<lambda>i. receipt_for env sp (take i c) (c ! i)) [0 ..< length c]"

definition holds :: "chunk_env \<Rightarrow> string \<Rightarrow> source list \<Rightarrow> source \<Rightarrow> split_chunks \<Rightarrow> bool" where
  "holds env sp c cur s \<longleftrightarrow> split_name s = sp \<and> sealed s = receipts env sp c \<and> state s = counts_of (concat c)
     \<and> pending s = counts_of cur \<and> streaming s = (cur \<noteq> [])
     \<and> fed s = (if cur = [] then [] else map (\<lambda>(a, t). (a, raw_bytes env a t cur)) (arrays env))"

definition on_disk :: "chunk_env \<Rightarrow> string \<Rightarrow> source list \<Rightarrow> source \<Rightarrow> staging_dir \<Rightarrow> bool" where
  "on_disk env sp c cur = layout env sp c (if cur = [] then Map.empty else chunk_raw env cur) Map.empty None"

lemma length_receipts [simp]: "length (receipts env sp c) = length c"
  by (simp add: receipts_def)

lemma receipts_snoc: "receipts env sp (c @ [cur]) = receipts env sp c @ [receipt_for env sp c cur]"
  by (simp add: receipts_def nth_append)

lemma fed_of_holds:
  assumes "env_ok env" "holds env sp c cur s" "cur \<noteq> []" "(a, t) \<in> set (arrays env)"
  shows "fed_of s a = raw_bytes env a t cur"
  using assms(2,3) map_of_array_image [OF assms(1,4), of "\<lambda>a t. raw_bytes env a t cur"]
  by (simp add: holds_def fed_of_def)

lemma receipt_of_holds:
  assumes "env_ok env" "holds env sp c cur s" "cur \<noteq> []"
  shows "receipt_of env s = receipt_for env sp c cur"
proof -
  have "map (\<lambda>(a, t). (a, \<lparr>meta_dtype = dtype t, meta_length = int (length (fed_of s a)),
      meta_sha256 = sha256 env (fed_of s a)\<rparr>)) (arrays env) = meta_for env cur"
    unfolding meta_for_def by (rule map_cong [OF refl]) (auto simp: fed_of_holds [OF assms])
  then show ?thesis
    using assms(2) by (simp add: receipt_of_def receipt_for_def holds_def) (simp add: counts_of_def)
qed

lemma sizes_holds:
  assumes "env_ok env" "holds env sp c cur s" "cur \<noteq> []"
  shows "sizes env s = raw_size env cur"
  unfolding sizes_def raw_size_def
  by (rule arg_cong [of _ _ sum_list], rule map_cong [OF refl]) (auto simp: fed_of_holds [OF assms])

lemma dom_chunk_raw: "dom (chunk_raw env cur) = fst ` set (arrays env)"
  by (auto simp: chunk_raw_def dom_map_of_conv_image_fst [symmetric])

lemma chunk_raw_None: "a \<notin> fst ` set (arrays env) \<Longrightarrow> chunk_raw env cur a = None"
  by (simp add: chunk_raw_def map_of_eq_None_iff)

lemma wp_present [wp_simps]: "wp (present f) C Q d \<longleftrightarrow> C d \<and> Q (map_of d f \<noteq> None) d"
  by (simp add: present_def wp_simps)

lemma wp_read_file [wp_simps]: "wp (read_file f) C Q d \<longleftrightarrow> C d \<and> (\<exists>c. map_of d f = Some c \<and> Q c d)"
  by (auto simp: read_file_def wp_simps split: option.splits)

lemma wp_create_new: "map_of d f = None \<Longrightarrow> wp (create_new f) C Q d \<longleftrightarrow>
    C d \<and> C (apply_action (Put f (Bytes [])) d) \<and> Q () (apply_action (Put f (Bytes [])) d)"
  by (simp add: create_new_def wp_simps)

lemma wp_replace_file: "map_of d f \<noteq> None \<Longrightarrow> wp (replace_file f g) C Q d \<longleftrightarrow>
    C d \<and> C (apply_action (Rename f g) d) \<and> Q () (apply_action (Rename f g) d)"
  by (simp add: replace_file_def wp_simps)

lemma wp_if: "wp (if b then p else q) C Q d \<longleftrightarrow> (if b then wp p C Q d else wp q C Q d)"
  by simp

text \<open>Renaming the raw files of the open chunk.\<close>

lemma wp_rename_raws:
  assumes env: "env_ok env" and sp: "sp \<in> set splits" and ok: "list_all (chunk_ok env) c"
    and lay: "layout env sp c (chunk_raw env cur) Map.empty None d" and keep: "keeps_rest sp d0 d"
    and C: "\<And>d'. keeps_rest sp d0 d' \<Longrightarrow> split_ok env sp c d' \<Longrightarrow> C d'"
    and Q: "\<And>d'. keeps_rest sp d0 d' \<Longrightarrow> layout env sp c Map.empty (chunk_raw env cur) None d' \<Longrightarrow> Q () d'"
  shows "wp (for_io (\<lambda>(a, t). replace_file (RawTmp sp (length c) a) (Raw sp (length c) a)) (arrays env)) C Q d"
proof (rule wp_for)
  let ?tmp = "\<lambda>ats a. if a \<in> fst ` set ats then None else chunk_raw env cur a"
  let ?raw = "\<lambda>ats a. if a \<in> fst ` set ats then chunk_raw env cur a else None"
  let ?I = "\<lambda>ats d'. keeps_rest sp d0 d' \<and> layout env sp c (?tmp ats) (?raw ats) None d'"
  have crash: "C d'" if "?I ats d'" for ats d'
  proof (rule C)
    show "keeps_rest sp d0 d'" using that by simp
    show "split_ok env sp c d'"
      using that dom_chunk_raw [of env cur]
      by (intro layout_split_ok [where tmp = "?tmp ats" and raw = "?raw ats", OF _ ok sp]) (auto simp: dom_def split: if_splits)
  qed
  show "?I [] d" using lay keep by simp
  show "\<And>ats d'. ?I ats d' \<Longrightarrow> C d'" by (rule crash)
  show "Q () d'" if "?I (arrays env) d'" for d'
  proof (rule Q)
    have "?tmp (arrays env) = Map.empty" "?raw (arrays env) = chunk_raw env cur"
      by (auto simp: fun_eq_iff chunk_raw_None)
    then show "layout env sp c Map.empty (chunk_raw env cur) None d'" using that by simp
  qed (use that in simp)
  fix before x rest d'
  assume arr: "arrays env = before @ x # rest" and I: "?I before d'"
  obtain a t where x: "x = (a, t)" by (cases x)
  have at: "(a, t) \<in> set (arrays env)" "a \<notin> fst ` set before"
    using arr x env by (auto simp: env_ok_def)
  then have tmp: "?tmp before a = Some (raw_bytes env a t cur)"
    by (simp add: chunk_raw_def map_of_array [OF env])
  let ?d = "apply_action (Rename (RawTmp sp (length c) a) (Raw sp (length c) a)) d'"
  have there: "map_of d' (RawTmp sp (length c) a) \<noteq> None" using I tmp by (simp add: layout_def)
  have "(?tmp before)(a := None) = ?tmp (before @ [x])" "(?raw before)(a \<mapsto> raw_bytes env a t cur) = ?raw (before @ [x])"
    using tmp at(2) by (auto simp: x fun_eq_iff)
  then have "?I (before @ [x]) ?d"
    using layout_rename_raw [OF I [THEN conjunct2], of a, OF tmp] keeps_rest_step [OF I [THEN conjunct1]]
    by (simp add: owned_def)
  then show "wp (case x of (a, t) \<Rightarrow> replace_file (RawTmp sp (length c) a) (Raw sp (length c) a)) C (\<lambda>_. ?I (before @ [x])) d'"
    unfolding x prod.case wp_replace_file [OF there] using crash I by blast
qed

lemma store_receipt_wp:
  assumes env: "env_ok env" and sp: "sp \<in> set splits" and ok: "list_all (chunk_ok env) c" "chunk_ok env cur"
    and lay: "layout env sp c Map.empty (chunk_raw env cur) None d" and keep: "keeps_rest sp d0 d"
    and Q: "\<And>d'. keeps_rest sp d0 d' \<Longrightarrow> layout env sp (c @ [cur]) Map.empty Map.empty None d' \<Longrightarrow> Q () d'"
  shows "wp (store_document (ReceiptTmp sp (length c)) (Receipt sp (length c)) (Sealed (receipt_for env sp c cur)))
    (crash_ok env sp {c, c @ [cur]} d0) Q d"
proof -
  let ?t = "ReceiptTmp sp (length c)" and ?r = "Sealed (receipt_for env sp c cur)"
  let ?d1 = "apply_action (Put ?t (Bytes [])) d"
  let ?d2 = "apply_action (Put ?t ?r) ?d1"
  let ?d3 = "apply_action (Rename ?t (Receipt sp (length c))) ?d2"
  have d: "map_of d ?t = None" using lay by (simp add: layout_def)
  have l1: "layout env sp c Map.empty (chunk_raw env cur) (Some (Bytes [])) ?d1" by (rule layout_put_receipt [OF lay])
  have l2: "layout env sp c Map.empty (chunk_raw env cur) (Some ?r) ?d2" by (rule layout_put_receipt [OF l1])
  have l3: "layout env sp (c @ [cur]) Map.empty Map.empty None ?d3" by (rule layout_commit [OF l2])
  have k: "keeps_rest sp d0 ?d1" "keeps_rest sp d0 ?d2" "keeps_rest sp d0 ?d3"
    using keep by (auto intro!: keeps_rest_step simp: owned_def)
  have s: "split_ok env sp c d" "split_ok env sp c ?d1" "split_ok env sp c ?d2"
    using lay l1 l2 dom_chunk_raw [of env cur] by (auto intro: layout_split_ok [OF _ ok(1) sp])
  have s3: "split_ok env sp (c @ [cur]) ?d3"
    using ok by (intro layout_split_ok [OF l3 _ sp]) simp_all
  have there: "map_of ?d2 ?t \<noteq> None" by simp
  show ?thesis
    unfolding store_document_def wp_bind wp_create_new [OF d] wp_act wp_replace_file [OF there]
    using keep k s s3 Q [OF k(3) l3] by (auto intro: crash_okI)
qed

lemma seal_wp:
  assumes env: "env_ok env" and sp: "sp \<in> set splits" and ok: "list_all (chunk_ok env) c" "cur \<noteq> [] \<longrightarrow> chunk_ok env cur"
    and s: "holds env sp c cur s" and d: "on_disk env sp c cur d" and keep: "keeps_rest sp d0 d"
    and Q: "\<And>s' d'. keeps_rest sp d0 d' \<Longrightarrow> holds env sp (if cur = [] then c else c @ [cur]) [] s'
      \<Longrightarrow> on_disk env sp (if cur = [] then c else c @ [cur]) [] d' \<Longrightarrow> Q s' d'"
  shows "wp (seal env s) (crash_ok env sp {c, c @ [cur]} d0) Q d"
proof (cases "cur = []")
  case True
  then have "layout env sp c Map.empty Map.empty None d" using d by (simp add: on_disk_def)
  then have "split_ok env sp c d" by (rule layout_split_ok [OF _ ok(1) sp]) simp_all
  with True s keep d show ?thesis
    by (auto simp: seal_def holds_def no_counts_def wp_simps intro: crash_okI Q)
next
  case False
  then have full: "chunk_ok env cur" using ok(2) by simp
  have lay: "layout env sp c (chunk_raw env cur) Map.empty None d" using d False by (simp add: on_disk_def)
  have pend: "acquired_documents (pending s) \<noteq> 0" using s False by (simp add: holds_def counts_of_def)
  have parts: "split_name s = sp" "length (sealed s) = length c" using s by (simp_all add: holds_def)
  let ?s = "s\<lparr>sealed := sealed s @ [receipt_of env s], state := add_counts (state s) (pending s),
    pending := no_counts, streaming := False, fed := []\<rparr>"
  have after: "holds env sp (c @ [cur]) [] ?s"
    using s unfolding receipt_of_holds [OF env s False]
    by (simp add: holds_def receipts_snoc counts_of_append)
  show ?thesis
    unfolding seal_def Let_def parts
    unfolding if_not_P [OF pend] wp_bind
  proof (rule wp_rename_raws [OF env sp ok(1) lay keep])
    show "crash_ok env sp {c, c @ [cur]} d0 d'" if "keeps_rest sp d0 d'" "split_ok env sp c d'" for d'
      using that by (auto intro: crash_okI)
    fix d' assume d': "keeps_rest sp d0 d'" "layout env sp c Map.empty (chunk_raw env cur) None d'"
    then have "split_ok env sp c d'"
      using dom_chunk_raw [of env cur] by (intro layout_split_ok [OF _ ok(1) sp]) auto
    then have crash: "crash_ok env sp {c, c @ [cur]} d0 d'" using d'(1) by (auto intro: crash_okI)
    show "wp (lift_io (validate_receipt env sp (length c) (receipt_of env s))) (crash_ok env sp {c, c @ [cur]} d0)
      (\<lambda>x. wp (store_document (ReceiptTmp sp (length c)) (Receipt sp (length c)) (Sealed (receipt_of env s)))
        (crash_ok env sp {c, c @ [cur]} d0) (\<lambda>x. wp (return_io ?s) (crash_ok env sp {c, c @ [cur]} d0) Q)) d'"
      unfolding wp_lift receipt_of_holds [OF env s False]
    proof (intro conjI exI, rule crash, rule receipt_valid [OF env full], rule store_receipt_wp [OF env sp ok(1) full d'(2,1)])
      fix e assume e: "keeps_rest sp d0 e" "layout env sp (c @ [cur]) Map.empty Map.empty None e"
      have "split_ok env sp (c @ [cur]) e" using ok(1) full by (intro layout_split_ok [OF e(2) _ sp]) simp_all
      then have "crash_ok env sp {c, c @ [cur]} d0 e" using e(1) by (auto intro: crash_okI)
      moreover have "Q ?s e" using Q [of e ?s] e after False by (simp add: on_disk_def)
      ultimately show "wp (return_io (s\<lparr>sealed := sealed s @ [receipt_for env sp c cur], state := add_counts (state s) (pending s),
          pending := no_counts, streaming := False, fed := []\<rparr>)) (crash_ok env sp {c, c @ [cur]} d0) Q e"
        by (simp add: wp_return receipt_of_holds [OF env s False])
    qed
  qed
qed

section \<open>Appending\<close>

definition holds_open :: "chunk_env \<Rightarrow> string \<Rightarrow> source list \<Rightarrow> source \<Rightarrow> split_chunks \<Rightarrow> bool" where
  "holds_open env sp c cur s \<longleftrightarrow> split_name s = sp \<and> sealed s = receipts env sp c \<and> state s = counts_of (concat c)
     \<and> pending s = counts_of cur \<and> streaming s \<and> fed s = map (\<lambda>(a, t). (a, raw_bytes env a t cur)) (arrays env)"

lemma holds_open_holds: "holds_open env sp c cur s \<Longrightarrow> cur \<noteq> [] \<Longrightarrow> holds env sp c cur s"
  by (simp add: holds_open_def holds_def)

text \<open>A loop over the arrays that turns the temporary files from one content into another.\<close>

lemma wp_put_tmps:
  assumes env: "env_ok env" and sp: "sp \<in> set splits" and ok: "list_all (chunk_ok env) c"
    and lay: "layout env sp c from_tmp Map.empty None d" and keep: "keeps_rest sp d0 d"
    and doms: "dom from_tmp \<subseteq> fst ` set (arrays env)" and xs: "map fst xs = map fst (arrays env)"
    and step: "\<And>a x d' C Q. (a, x) \<in> set xs \<Longrightarrow> map_of d' (RawTmp sp (length c) a) = map_option Bytes (from_tmp a)
      \<Longrightarrow> C d' \<Longrightarrow> C (apply_action (Put (RawTmp sp (length c) a) (Bytes (new a))) d')
      \<Longrightarrow> Q () (apply_action (Put (RawTmp sp (length c) a) (Bytes (new a))) d') \<Longrightarrow> wp (p (a, x)) C Q d'"
    and C: "\<And>d'. keeps_rest sp d0 d' \<Longrightarrow> split_ok env sp c d' \<Longrightarrow> C d'"
    and Q: "\<And>d'. keeps_rest sp d0 d'
      \<Longrightarrow> layout env sp c (\<lambda>a. if a \<in> fst ` set (arrays env) then Some (new a) else None) Map.empty None d' \<Longrightarrow> Q () d'"
  shows "wp (for_io p xs) C Q d"
proof (rule wp_for)
  let ?tmp = "\<lambda>ats a. if a \<in> fst ` set ats then Some (new a) else from_tmp a"
  let ?I = "\<lambda>ats d'. fst ` set ats \<subseteq> fst ` set (arrays env) \<and> keeps_rest sp d0 d' \<and> layout env sp c (?tmp ats) Map.empty None d'"
  have crash: "C d'" if "?I ats d'" for ats d'
  proof (rule C)
    show "keeps_rest sp d0 d'" using that by simp
    have "dom (?tmp ats) \<subseteq> fst ` set ats \<union> dom from_tmp" by (auto split: if_splits)
    also have "\<dots> \<subseteq> fst ` set (arrays env)" by (rule Un_least [OF that [THEN conjunct1] doms])
    finally have "dom (?tmp ats) \<subseteq> fst ` set (arrays env)" .
    moreover have "layout env sp c (?tmp ats) Map.empty None d'" using that by (elim conjE)
    ultimately show "split_ok env sp c d'"
      using layout_split_ok [where tmp = "?tmp ats" and raw = Map.empty and rt = None, OF _ ok sp] by blast
  qed
  have keys: "fst ` set xs = fst ` set (arrays env)" using xs by (metis list.set_map)
  show "?I [] d" using lay keep by simp
  show "\<And>ats d'. ?I ats d' \<Longrightarrow> C d'" by (rule crash)
  show "Q () d'" if I: "?I xs d'" for d'
  proof (rule Q)
    have "?tmp xs = (\<lambda>a. if a \<in> fst ` set (arrays env) then Some (new a) else None)"
      using doms keys by (auto simp: fun_eq_iff)
    then show "layout env sp c (\<lambda>a. if a \<in> fst ` set (arrays env) then Some (new a) else None) Map.empty None d'"
      using I by simp
  qed (use I in simp)
  fix before y rest d'
  assume arr: "xs = before @ y # rest" and I: "?I before d'"
  obtain a x where y: "y = (a, x)" by (cases y)
  have "distinct (map fst xs)" using env xs by (simp add: env_ok_def)
  then have at: "(a, x) \<in> set xs" "a \<notin> fst ` set before" using arr y by auto
  have a: "a \<in> fst ` set (arrays env)" using at(1) keys by force
  let ?d = "apply_action (Put (RawTmp sp (length c) a) (Bytes (new a))) d'"
  have "(?tmp before)(a \<mapsto> new a) = ?tmp (before @ [y])" by (auto simp: y fun_eq_iff)
  then have next_I: "?I (before @ [y]) ?d"
    using layout_put_tmp [OF I [THEN conjunct2, THEN conjunct2], of a "new a"] keeps_rest_step [of sp d0 d'] I a
    by (simp add: owned_def y)
  have there: "map_of d' (RawTmp sp (length c) a) = map_option Bytes (from_tmp a)"
    using I at(2) by (simp add: layout_def)
  show "wp (p y) C (\<lambda>_. ?I (before @ [y])) d'"
    unfolding y by (rule step [OF at(1) there]) (use crash I next_I y in blast)+
qed

lemma chunk_raw_fun: "env_ok env \<Longrightarrow>
  chunk_raw env cur = (\<lambda>a. if a \<in> fst ` set (arrays env) then Some (raw_bytes env a (the (map_of (arrays env) a)) cur) else None)"
  by (auto simp: fun_eq_iff chunk_raw_None) (auto simp: chunk_raw_def map_of_array)

lemma open_streams_wp:
  assumes env: "env_ok env" and sp: "sp \<in> set splits" and ok: "list_all (chunk_ok env) c"
    and s: "holds env sp c cur s" and d: "on_disk env sp c cur d" and keep: "keeps_rest sp d0 d"
    and C: "\<And>d'. keeps_rest sp d0 d' \<Longrightarrow> split_ok env sp c d' \<Longrightarrow> C d'"
    and Q: "\<And>s' d'. keeps_rest sp d0 d' \<Longrightarrow> holds_open env sp c cur s'
      \<Longrightarrow> layout env sp c (chunk_raw env cur) Map.empty None d' \<Longrightarrow> Q s' d'"
  shows "wp (open_streams env s) C Q d"
proof (cases "cur = []")
  case False
  then have lay: "layout env sp c (chunk_raw env cur) Map.empty None d" using d by (simp add: on_disk_def)
  then have "split_ok env sp c d"
    using dom_chunk_raw [of env cur] by (intro layout_split_ok [OF _ ok sp]) auto
  moreover have "streaming s" "holds_open env sp c cur s" using s False by (simp_all add: holds_def holds_open_def)
  ultimately show ?thesis using C Q keep lay by (simp add: open_streams_def wp_simps)
next
  case True
  then have lay: "layout env sp c Map.empty Map.empty None d" using d by (simp add: on_disk_def)
  have parts: "\<not> streaming s" "split_name s = sp" "length (sealed s) = length c" using s True by (simp_all add: holds_def)
  let ?s = "s\<lparr>streaming := True, fed := map (\<lambda>(a, t). (a, [])) (arrays env)\<rparr>"
  have new: "holds_open env sp c cur ?s" using s True by (simp add: holds_def holds_open_def)
  show ?thesis
    unfolding open_streams_def if_not_P [OF parts(1)] parts(2,3) wp_bind
  proof (rule wp_put_tmps [OF env sp ok lay keep, where new = "\<lambda>a. []"])
    fix a x and d' :: staging_dir and C' :: "staging_dir \<Rightarrow> bool" and Q' :: "unit \<Rightarrow> staging_dir \<Rightarrow> bool"
    assume "map_of d' (RawTmp sp (length c) a) = map_option Bytes (Map.empty a)" "C' d'"
      "C' (apply_action (Put (RawTmp sp (length c) a) (Bytes [])) d')"
      "Q' () (apply_action (Put (RawTmp sp (length c) a) (Bytes [])) d')"
    then show "wp (case (a, x) of (a, t) \<Rightarrow> create_new (RawTmp sp (length c) a)) C' Q' d'"
      by (simp add: wp_create_new)
  next
    fix d' assume k: "keeps_rest sp d0 d'"
      and l: "layout env sp c (\<lambda>a. if a \<in> fst ` set (arrays env) then Some [] else None) Map.empty None d'"
    then have lay': "layout env sp c (chunk_raw env cur) Map.empty None d'"
      by (simp add: chunk_raw_fun [OF env] True cong: if_cong)
    then have "split_ok env sp c d'"
      using dom_chunk_raw [of env cur] by (intro layout_split_ok [OF _ ok sp]) auto
    with k lay' new show "wp (return_io ?s) C Q d'" by (simp add: wp_return C Q)
  qed (simp_all add: C)
qed

lemma holds_after_write:
  assumes env: "env_ok env" and s: "holds_open env sp c cur s" and ok: "admissible env (Some v)"
  defines "bs \<equiv> map (\<lambda>(a, t). (a, enc_values env a t v)) (arrays env)"
  shows "holds env sp c (cur @ [Some v]) (s\<lparr>pending := add_counts (pending s) (keep_count env bs), fed := feed s bs\<rparr>)"
proof -
  obtain ti where ti: "(''ids'', ti) \<in> set (arrays env)" using env by (rule ids_array)
  have "the (map_of bs ''ids'') = enc_values env ''ids'' ti v"
    using map_of_array_image [OF env ti, of "\<lambda>a t. enc_values env a t v"] by (simp add: bs_def)
  moreover have "int (length (enc_values env ''ids'' ti v)) div itemsize ti = tokens_of v"
    using admissible_encode(2) [OF env ok ti] array_type_pos [OF env ti] by simp
  ultimately have "keep_count env bs = counts_of [Some v]"
    by (simp add: keep_count_def counts_of_def no_counts_def map_of_array [OF env ti])
  moreover have "feed s bs = map (\<lambda>(a, t). (a, raw_bytes env a t (cur @ [Some v]))) (arrays env)"
  proof -
    have "map_of bs a = Some (enc_values env a t v)" if "(a, t) \<in> set (arrays env)" for a t
      using map_of_array_image [OF env that, of "\<lambda>a t. enc_values env a t v"] by (simp add: bs_def)
    then show ?thesis
      using s by (auto simp: feed_def holds_open_def raw_bytes_append raw_bytes_def)
  qed
  ultimately show ?thesis
    using s by (simp add: holds_open_def holds_def counts_of_append)
qed

lemma holds_after_skip:
  assumes s: "holds_open env sp c cur s"
  shows "holds env sp c (cur @ [None]) (s\<lparr>pending := add_counts (pending s) skip_count\<rparr>)"
proof -
  have "skip_count = counts_of [None]" by (simp add: skip_count_def counts_of_def no_counts_def)
  then show ?thesis
    using s by (auto simp: holds_open_def holds_def counts_of_append raw_bytes_append raw_bytes_def)
qed

lemma write_wp:
  assumes env: "env_ok env" and sp: "sp \<in> set splits" and ok: "list_all (chunk_ok env) c"
    and s: "holds_open env sp c cur s" and v: "admissible env (Some v)"
    and lay: "layout env sp c (chunk_raw env cur) Map.empty None d" and keep: "keeps_rest sp d0 d"
    and C: "\<And>d'. keeps_rest sp d0 d' \<Longrightarrow> split_ok env sp c d' \<Longrightarrow> C d'"
    and Q: "\<And>d'. keeps_rest sp d0 d' \<Longrightarrow> on_disk env sp c (cur @ [Some v]) d' \<Longrightarrow> Q () d'"
  shows "wp (for_io (write_stream s) (map (\<lambda>(a, t). (a, enc_values env a t v)) (arrays env))) C Q d"
proof (rule wp_put_tmps [OF env sp ok lay keep,
    where new = "\<lambda>a. raw_bytes env a (the (map_of (arrays env) a)) (cur @ [Some v])"])
  show "dom (chunk_raw env cur) \<subseteq> fst ` set (arrays env)" by (simp add: dom_chunk_raw)
  show "map fst (map (\<lambda>(a, t). (a, enc_values env a t v)) (arrays env)) = map fst (arrays env)" by auto
  fix a x and d' :: staging_dir and C' :: "staging_dir \<Rightarrow> bool" and Q' :: "unit \<Rightarrow> staging_dir \<Rightarrow> bool"
  let ?new = "raw_bytes env a (the (map_of (arrays env) a)) (cur @ [Some v])"
  assume "(a, x) \<in> set (map (\<lambda>(a, t). (a, enc_values env a t v)) (arrays env))"
    and c: "C' d'" "C' (apply_action (Put (RawTmp sp (length c) a) (Bytes ?new)) d')"
      "Q' () (apply_action (Put (RawTmp sp (length c) a) (Bytes ?new)) d')"
  then obtain t where t: "(a, t) \<in> set (arrays env)" "x = enc_values env a t v" by auto
  have "map_of (fed s) a = Some (raw_bytes env a t cur)"
    using s map_of_array_image [OF env t(1), of "\<lambda>a t. raw_bytes env a t cur"] by (simp add: holds_open_def)
  then have "fed_of s a @ x = ?new"
    by (simp add: fed_of_def map_of_array [OF env t(1)] t(2) raw_bytes_append) (simp add: raw_bytes_def)
  moreover have "split_name s = sp" "length (sealed s) = length c" using s by (simp_all add: holds_open_def)
  ultimately show "wp (write_stream s (a, x)) C' Q' d'" using c by (simp add: write_stream_def wp_act)
next
  fix d' assume "keeps_rest sp d0 d'" and "layout env sp c (\<lambda>a. if a \<in> fst ` set (arrays env)
      then Some (raw_bytes env a (the (map_of (arrays env) a)) (cur @ [Some v])) else None) Map.empty None d'"
  then show "Q () d'" by (intro Q) (simp_all add: on_disk_def chunk_raw_fun [OF env])
qed (simp add: C)

definition encoded :: "chunk_env \<Rightarrow> record_values option \<Rightarrow> (string \<times> byte_string) list option" where
  "encoded env r = map_option (\<lambda>v. map (\<lambda>(a, t). (a, enc_values env a t v)) (arrays env)) r"

definition store_data :: "chunk_env \<Rightarrow> (string \<times> byte_string) list option \<Rightarrow> split_chunks \<Rightarrow> split_chunks staging" where
  "store_data env data s'' = (case data of
     None \<Rightarrow> return_io (s''\<lparr>pending := add_counts (pending s'') skip_count\<rparr>)
   | Some bs \<Rightarrow> bind_io (for_io (write_stream s'') bs) (\<lambda>_.
       return_io (s''\<lparr>pending := add_counts (pending s'') (keep_count env bs), fed := feed s'' bs\<rparr>)))"

lemma append_tail_wp:
  assumes env: "env_ok env" and sp: "sp \<in> set splits" and ok: "list_all (chunk_ok env) c"
    and s: "holds env sp c cur s" and d: "on_disk env sp c cur d" and keep: "keeps_rest sp d0 d"
    and r: "admissible env r"
    and C: "\<And>d'. keeps_rest sp d0 d' \<Longrightarrow> split_ok env sp c d' \<Longrightarrow> C d'"
    and Q: "\<And>s' d'. keeps_rest sp d0 d' \<Longrightarrow> holds env sp c (cur @ [r]) s' \<Longrightarrow> on_disk env sp c (cur @ [r]) d' \<Longrightarrow> Q s' d'"
  shows "wp (open_streams env s) C (\<lambda>s'. wp (store_data env (encoded env r) s') C Q) d"
proof (rule open_streams_wp [OF env sp ok s d keep C])
  fix s' d'
  assume k: "keeps_rest sp d0 d'" and s': "holds_open env sp c cur s'"
    and lay: "layout env sp c (chunk_raw env cur) Map.empty None d'"
  have crash: "C d''" if "keeps_rest sp d0 d''" "layout env sp c (chunk_raw env x) Map.empty None d''" for x d''
    using that dom_chunk_raw [of env x] by (intro C layout_split_ok [OF _ ok sp]) auto
  show "wp (store_data env (encoded env r) s') C Q d'"
  proof (cases r)
    case None
    have "chunk_raw env (cur @ [None]) = chunk_raw env cur"
      by (simp add: fun_eq_iff chunk_raw_def raw_bytes_append) (simp add: raw_bytes_def)
    then have "on_disk env sp c (cur @ [None]) d'" using lay by (simp add: on_disk_def)
    then have "Q (s'\<lparr>pending := add_counts (pending s') skip_count\<rparr>) d'"
      using Q k holds_after_skip [OF s'] None by blast
    then show ?thesis
      by (simp add: None encoded_def store_data_def wp_return crash [OF k lay])
  next
    case (Some v)
    then have v: "admissible env (Some v)" using r by simp
    show ?thesis
      unfolding Some encoded_def store_data_def option.map option.case wp_bind
    proof (rule write_wp [OF env sp ok s' v lay k C])
      fix e assume e: "keeps_rest sp d0 e" "on_disk env sp c (cur @ [Some v]) e"
      then have "C e" by (intro crash [of e "cur @ [Some v]"]) (simp_all add: on_disk_def)
      then show "wp (return_io (s'\<lparr>pending := add_counts (pending s') (keep_count env (map (\<lambda>(a, t). (a, enc_values env a t v)) (arrays env))),
          fed := feed s' (map (\<lambda>(a, t). (a, enc_values env a t v)) (arrays env))\<rparr>)) C Q e"
        unfolding wp_return using Q [OF e(1) _ ] e(2) holds_after_write [OF env s' v] Some by blast
    qed
  qed
qed

lemma append_record_eq:
  assumes env: "env_ok env" and r: "admissible env r" and s: "holds env sp c cur s"
    and idx: "i = int (length (concat c)) + int (length cur) + 1"
  shows "append_record env s i r =
    bind_io (if acquired_documents (pending s) \<noteq> 0 \<and> (acquired_documents (pending s) = record_limit env
        \<or> raw_byte_limit env < sizes env s + raw_size env [r]) then seal env s else return_io s)
      (\<lambda>s'. bind_io (open_streams env s') (store_data env (encoded env r)))"
proof -
  have guard: "i = acquired_documents (state s) + acquired_documents (pending s) + 1"
    using s idx by (simp add: holds_def) (simp add: counts_of_def)
  have data: "(case r of None \<Rightarrow> Inr None | Some v \<Rightarrow> bindE (encode_record env v) (\<lambda>data. Inr (Some data))) = Inr (encoded env r)"
    using admissible_encode(1) [OF env] r by (cases r) (simp_all add: encoded_def)
  have size: "raw_size env [r] = (case encoded env r of None \<Rightarrow> 0 | Some bs \<Rightarrow> sum_list (map (\<lambda>(a, b). int (length b)) bs))"
    by (cases r) (simp_all add: encoded_def raw_size_def raw_bytes_def comp_def case_prod_unfold)
  show ?thesis
    unfolding append_record_def data Let_def bind_lift_Inr size store_data_def [abs_def]
    using guard by simp
qed

lemma append_wp:
  assumes env: "env_ok env" and sp: "sp \<in> set splits" and ok: "list_all (chunk_ok env) c" "cur \<noteq> [] \<longrightarrow> chunk_ok env cur"
    and s: "holds env sp c cur s" and d: "on_disk env sp c cur d" and keep: "keeps_rest sp d0 d"
    and r: "admissible env r" and idx: "i = int (length (concat c)) + int (length cur) + 1"
    and Q: "\<And>c' cur' s' d'. c' = c \<or> c' = c @ [cur] \<Longrightarrow> concat c' @ cur' = concat c @ cur @ [r] \<Longrightarrow> list_all (chunk_ok env) c'
      \<Longrightarrow> chunk_ok env cur' \<Longrightarrow> holds env sp c' cur' s' \<Longrightarrow> on_disk env sp c' cur' d' \<Longrightarrow> keeps_rest sp d0 d' \<Longrightarrow> Q s' d'"
  shows "wp (append_record env s i r) (crash_ok env sp {c, c @ [cur]} d0) Q d"
proof -
  let ?full = "acquired_documents (pending s) \<noteq> 0 \<and> (acquired_documents (pending s) = record_limit env
    \<or> raw_byte_limit env < sizes env s + raw_size env [r])"
  let ?C = "crash_ok env sp {c, c @ [cur]} d0"
  have pend: "acquired_documents (pending s) = int (length cur)" using s by (simp add: holds_def counts_of_def)
  have single: "chunk_ok env [r]"
  proof -
    have "1 \<le> record_limit env" "1 \<le> raw_byte_limit env"
      using env by (auto simp: env_ok_def check_owner_def split: if_splits)
    moreover have "raw_size env [None] = 0" by (simp add: raw_size_def raw_bytes_def case_prod_unfold)
    ultimately show ?thesis using r admissible_encode(4) [OF env] by (cases r) (simp_all add: chunk_ok_def)
  qed
  show ?thesis
    unfolding append_record_eq [OF env r s idx] wp_bind
  proof (cases ?full)
    case True
    then have cur: "cur \<noteq> []" using pend by auto
    show "wp (if ?full then seal env s else return_io s) ?C
        (\<lambda>x. wp (open_streams env x) ?C (\<lambda>y. wp (store_data env (encoded env r) y) ?C Q)) d"
      unfolding if_P [OF True]
    proof (rule seal_wp [OF env sp ok s d keep])
      fix s' d'
      assume k: "keeps_rest sp d0 d'" and s': "holds env sp (if cur = [] then c else c @ [cur]) [] s'"
        and d': "on_disk env sp (if cur = [] then c else c @ [cur]) [] d'"
      have ok': "list_all (chunk_ok env) (c @ [cur])" using ok cur by simp
      show "wp (open_streams env s') ?C (\<lambda>y. wp (store_data env (encoded env r) y) ?C Q) d'"
      proof (rule append_tail_wp [OF env sp ok' _ _ k r, of "[]"])
        show "holds env sp (c @ [cur]) [] s'" "on_disk env sp (c @ [cur]) [] d'" using s' d' cur by simp_all
        show "?C e" if "keeps_rest sp d0 e" "split_ok env sp (c @ [cur]) e" for e
          using that by (rule crash_okI) simp
        show "Q t e" if "keeps_rest sp d0 e" "holds env sp (c @ [cur]) ([] @ [r]) t" "on_disk env sp (c @ [cur]) ([] @ [r]) e" for t e
          by (rule Q [of "c @ [cur]" "[r]"]) (use that ok' single in simp_all)
      qed
    qed
  next
    case False
    have "chunk_ok env (cur @ [r])"
    proof (cases "cur = []")
      case False
      then have "int (length cur) < record_limit env" "raw_size env cur + raw_size env [r] \<le> raw_byte_limit env"
        using \<open>\<not> ?full\<close> ok(2) pend sizes_holds [OF env s False] by (auto simp: chunk_ok_def)
      then show ?thesis using ok(2) False r by (simp add: chunk_ok_def raw_size_append)
    qed (use single in simp)
    then have good: "chunk_ok env (cur @ [r])" .
    have "split_ok env sp c d"
      using d dom_chunk_raw [of env cur] unfolding on_disk_def
      by (intro layout_split_ok [OF _ ok(1) sp]) (auto split: if_splits)
    from crash_okI [OF keep this] have C: "?C d" by simp
    show "wp (if ?full then seal env s else return_io s) ?C
        (\<lambda>x. wp (open_streams env x) ?C (\<lambda>y. wp (store_data env (encoded env r) y) ?C Q)) d"
      unfolding if_not_P [OF False] wp_return
    proof (intro conjI C append_tail_wp [OF env sp ok(1) s d keep r])
      show "?C e" if "keeps_rest sp d0 e" "split_ok env sp c e" for e
        using that by (rule crash_okI) simp
      show "Q t e" if "keeps_rest sp d0 e" "holds env sp c (cur @ [r]) t" "on_disk env sp c (cur @ [r]) e" for t e
        by (rule Q [of c "cur @ [r]"]) (use that ok(1) good in simp_all)
    qed
  qed
qed

section \<open>Finishing\<close>

definition final_bytes :: "chunk_env \<Rightarrow> source \<Rightarrow> string \<Rightarrow> array_type \<Rightarrow> byte_string" where
  "final_bytes env rs a t = npy_header env t (output_tokens (counts_of rs)) @ raw_bytes env a t rs"

lemma layout_output:
  "layout env sp c tmp raw rt d \<Longrightarrow> outputs sp f \<Longrightarrow> allowed env (\<lambda>_. 0) f \<Longrightarrow>
     layout env sp c tmp raw rt (apply_action (Put f x) d)"
  "layout env sp c tmp raw rt d \<Longrightarrow> outputs sp f \<Longrightarrow> layout env sp c tmp raw rt (apply_action (Unlink f) d)"
  unfolding layout_def by (auto simp: outputs_def)

lemma layout_output_rename:
  assumes "layout env sp c tmp raw rt d" and "outputs sp f" and "outputs sp g" and "allowed env (\<lambda>_. 0) g"
  shows "layout env sp c tmp raw rt (apply_action (Rename f g) d)"
proof (cases "map_of d f")
  case (Some x)
  then have "map_of (apply_action (Rename f g) d) = map_of (apply_action (Put g x) (apply_action (Unlink f) d))" by simp
  moreover have "layout env sp c tmp raw rt (apply_action (Put g x) (apply_action (Unlink f) d))"
    using assms by (intro layout_output)
  ultimately show ?thesis unfolding layout_def by simp
qed (use assms(1) in \<open>simp add: layout_def\<close>)

lemma copy_chunks_wp:
  assumes env: "env_ok env" and at: "(a, t) \<in> set (arrays env)" and s: "split_name s = sp"
    and lay: "layout env sp c tmp raw rt d" and C: "C d" and c: "c = before @ rest"
    and Q: "Q (sofar @ raw_bytes env a t (concat rest)) d"
  shows "wp (copy_chunks s a (length before) (map (\<lambda>i. receipt_for env sp (take i c) (c ! i)) [length before ..< length c]) sofar) C Q d"
  using c Q
proof (induction rest arbitrary: before sofar)
  case Nil
  then show ?case using C by (simp add: wp_return)
next
  case (Cons x rest)
  let ?i = "length before"
  have i: "?i < length c" "c ! ?i = x" using Cons.prems(1) by simp_all
  have "map_of d (Raw sp ?i a) = Some (Bytes (raw_bytes env a t x))"
    using lay i by (simp add: layout_def committed_raw_def map_of_array [OF env at])
  moreover have "map_of (receipt_arrays (receipt_for env sp (take ?i c) (c ! ?i))) a =
      Some \<lparr>meta_dtype = dtype t, meta_length = int (length (raw_bytes env a t x)), meta_sha256 = sha256 env (raw_bytes env a t x)\<rparr>"
    unfolding receipt_for_def meta_for_def i(2) receipt.simps by (rule map_of_array_image [OF env at])
  moreover have "wp (copy_chunks s a (Suc ?i) (map (\<lambda>i. receipt_for env sp (take i c) (c ! i)) [Suc ?i ..< length c])
      (sofar @ raw_bytes env a t x)) C Q d"
    using Cons.IH [of "before @ [x]" "sofar @ raw_bytes env a t x"] Cons.prems by (simp add: raw_bytes_append)
  ultimately show ?case
    using C unfolding upt_conv_Cons [OF i(1)] list.map copy_chunks.simps copy_raw_def wp_bind wp_read_file s
    by (simp add: wp_return)
qed

lemma finish_array_wp:
  assumes env: "env_ok env" and sp: "sp \<in> set splits" and ok: "list_all (chunk_ok env) c" and s: "holds env sp c [] s"
    and lay: "layout env sp c Map.empty Map.empty None d" and keep: "keeps_rest sp d0 d" and at: "(a, t) \<in> set (arrays env)"
    and C: "\<And>d'. keeps_rest sp d0 d' \<Longrightarrow> split_ok env sp c d' \<Longrightarrow> C d'"
    and Q: "\<And>d'. keeps_rest sp d0 d' \<Longrightarrow> layout env sp c Map.empty Map.empty None d'
      \<Longrightarrow> (\<forall>f. f \<noteq> Final sp a \<and> f \<noteq> FinalTmp sp a \<longrightarrow> map_of d' f = map_of d f)
      \<Longrightarrow> map_of d' (Final sp a) = Some (Bytes (final_bytes env (concat c) a t)) \<Longrightarrow> Q () d'"
  shows "wp (finish_array env s (a, t)) C Q d"
proof -
  let ?f = "Final sp a" and ?t = "FinalTmp sp a"
  have out: "outputs sp ?f" "outputs sp ?t" by (simp_all add: outputs_def)
  have "a \<in> fst ` set (arrays env)" using at by force
  then have al: "allowed env (\<lambda>_. 0) ?f" "allowed env (\<lambda>_. 0) ?t" using sp by (simp_all add: allowed_def)
  let ?d1 = "apply_action (Unlink ?f) d" let ?d2 = "apply_action (Unlink ?t) ?d1"
  let ?d3 = "apply_action (Put ?t (Bytes [])) ?d2"
  let ?d4 = "apply_action (Put ?t (Bytes (final_bytes env (concat c) a t))) ?d3"
  let ?d5 = "apply_action (Rename ?t ?f) ?d4"
  let ?L = "layout env sp c Map.empty Map.empty None"
  have l: "?L ?d1" "?L ?d2" "?L ?d3" "?L ?d4" "?L ?d5"
    using lay out al by (auto intro!: layout_output layout_output_rename)
  have k: "keeps_rest sp d0 ?d1" "keeps_rest sp d0 ?d2" "keeps_rest sp d0 ?d3" "keeps_rest sp d0 ?d4" "keeps_rest sp d0 ?d5"
    using keep out by (auto intro!: keeps_rest_step)
  have crash: "C e" if "keeps_rest sp d0 e" "?L e" for e
    using that by (intro C layout_split_ok [OF _ ok sp]) auto
  have none: "map_of ?d2 ?t = None" and there: "map_of ?d4 ?t \<noteq> None" by simp_all
  have parts: "split_name s = sp" "sealed s = map (\<lambda>i. receipt_for env sp (take i c) (c ! i)) [0 ..< length c]"
    "output_tokens (state s) = output_tokens (counts_of (concat c))"
    using s by (simp_all add: holds_def receipts_def)
  have rest: "wp (act (Put ?t (Bytes (final_bytes env (concat c) a t)))) C (\<lambda>_. wp (replace_file ?t ?f) C Q) ?d3"
    unfolding wp_act wp_replace_file [OF there]
    using crash l k Q [OF k(5) l(5)] by simp
  have copied: "wp (copy_chunks s a 0 (sealed s) (npy_header env t (output_tokens (state s)))) C
      (\<lambda>b. wp (act (Put ?t (Bytes b))) C (\<lambda>_. wp (replace_file ?t ?f) C Q)) ?d3"
    unfolding parts(2,3)
    using copy_chunks_wp [where C = C and before = "[]" and rest = c, OF env at parts(1) l(3) crash [OF k(3) l(3)]] rest
    by (simp add: final_bytes_def)
  show ?thesis
    unfolding finish_array_def Let_def fst_conv snd_conv parts(1) wp_bind wp_act wp_create_new [OF none]
    using crash [OF keep lay] crash [OF k(1) l(1)] crash [OF k(2) l(2)] crash [OF k(3) l(3)] copied [unfolded wp_act]
    by simp
qed

lemma finish_arrays_wp:
  assumes env: "env_ok env" and sp: "sp \<in> set splits" and ok: "list_all (chunk_ok env) c" and s: "holds env sp c [] s"
    and lay: "layout env sp c Map.empty Map.empty None d" and keep: "keeps_rest sp d0 d"
    and C: "\<And>d'. keeps_rest sp d0 d' \<Longrightarrow> split_ok env sp c d' \<Longrightarrow> C d'"
    and Q: "\<And>d'. keeps_rest sp d0 d' \<Longrightarrow> layout env sp c Map.empty Map.empty None d'
      \<Longrightarrow> \<forall>(a, t) \<in> set (arrays env). map_of d' (Final sp a) = Some (Bytes (final_bytes env (concat c) a t)) \<Longrightarrow> Q () d'"
  shows "wp (for_io (finish_array env s) (arrays env)) C Q d"
proof (rule wp_for)
  let ?I = "\<lambda>ats d'. keeps_rest sp d0 d' \<and> layout env sp c Map.empty Map.empty None d'
    \<and> (\<forall>(a, t) \<in> set ats. map_of d' (Final sp a) = Some (Bytes (final_bytes env (concat c) a t)))"
  show "?I [] d" using lay keep by simp
  show "\<And>ats d'. ?I ats d' \<Longrightarrow> C d'" by (intro C layout_split_ok [OF _ ok sp]) auto
  show "\<And>d'. ?I (arrays env) d' \<Longrightarrow> Q () d'" by (elim conjE) (rule Q)
  fix before x rest d'
  assume arr: "arrays env = before @ x # rest" and I: "?I before d'"
  obtain a t where x: "x = (a, t)" by (cases x)
  have at: "(a, t) \<in> set (arrays env)" "a \<notin> fst ` set before"
    using arr x env by (auto simp: env_ok_def)
  show "wp (finish_array env s x) C (\<lambda>_. ?I (before @ [x])) d'"
    unfolding x
  proof (rule finish_array_wp [OF env sp ok s _ _ at(1)])
    fix e assume e: "keeps_rest sp d0 e" "layout env sp c Map.empty Map.empty None e"
      "\<forall>f. f \<noteq> Final sp a \<and> f \<noteq> FinalTmp sp a \<longrightarrow> map_of e f = map_of d' f"
      "map_of e (Final sp a) = Some (Bytes (final_bytes env (concat c) a t))"
    have "map_of e (Final sp b) = Some (Bytes (final_bytes env (concat c) b u))" if "(b, u) \<in> set (before @ [(a, t)])" for b u
    proof (cases "b = a")
      case True
      then show ?thesis using that at(2) e(4) by force
    next
      case False
      then show ?thesis using that e(3) I by auto
    qed
    with e(1,2) show "?I (before @ [(a, t)]) e" by blast
  qed (use I C in simp_all)
qed

lemma finish_wp:
  assumes env: "env_ok env" and sp: "sp \<in> set splits" and ok: "list_all (chunk_ok env) c" "cur \<noteq> [] \<longrightarrow> chunk_ok env cur"
    and s: "holds env sp c cur s" and d: "on_disk env sp c cur d" and keep: "keeps_rest sp d0 d"
    and Q: "\<And>c' s' d'. c' = (if cur = [] then c else c @ [cur]) \<Longrightarrow> keeps_rest sp d0 d' \<Longrightarrow> holds env sp c' [] s' \<Longrightarrow> on_disk env sp c' [] d'
      \<Longrightarrow> \<forall>(a, t) \<in> set (arrays env). map_of d' (Final sp a) = Some (Bytes (final_bytes env (concat c') a t))
      \<Longrightarrow> Q (s', map (\<lambda>(a, t). (a, int (length (final_bytes env (concat c') a t)), sha256 env (final_bytes env (concat c') a t))) (arrays env)) d'"
  shows "wp (finish env s) (crash_ok env sp {c, c @ [cur]} d0) Q d"
  unfolding finish_def wp_bind
proof (rule seal_wp [OF env sp ok s d keep])
  let ?c = "if cur = [] then c else c @ [cur]"
  let ?C = "crash_ok env sp {c, c @ [cur]} d0"
  fix s' d'
  assume k: "keeps_rest sp d0 d'" and s': "holds env sp ?c [] s'" and d': "on_disk env sp ?c [] d'"
  have ok': "list_all (chunk_ok env) ?c" using ok by simp
  have lay: "layout env sp ?c Map.empty Map.empty None d'" using d' by (simp add: on_disk_def)
  have C: "?C e" if "keeps_rest sp d0 e" "split_ok env sp ?c e" for e
    by (rule crash_okI [OF that]) simp
  show "wp (for_io (finish_array env s') (arrays env)) ?C
    (\<lambda>_. wp (written_proofs env (split_name s')) ?C (\<lambda>proofs. wp (return_io (s', proofs)) ?C Q)) d'"
  proof (rule finish_arrays_wp [OF env sp ok' s' lay k C])
    fix e assume e: "keeps_rest sp d0 e" "layout env sp ?c Map.empty Map.empty None e"
      and fin: "\<forall>(a, t) \<in> set (arrays env). map_of e (Final sp a) = Some (Bytes (final_bytes env (concat ?c) a t))"
    have "?C e" using e by (intro C layout_split_ok [OF _ ok' sp]) auto
    moreover have "mapE (\<lambda>(a, t). case map_of e (Final sp a) of
         Some (Bytes b) \<Rightarrow> Inr (a, int (length b), sha256 env b) | _ \<Rightarrow> Inl (MissingFile (Final sp a))) (arrays env)
      = Inr (map (\<lambda>(a, t). (a, int (length (final_bytes env (concat ?c) a t)), sha256 env (final_bytes env (concat ?c) a t))) (arrays env))"
      by (rule mapE_eq_Inr_map) (use fin in auto)
    moreover have "on_disk env sp ?c [] e" using e(2) by (simp add: on_disk_def)
    ultimately show "wp (written_proofs env (split_name s')) ?C (\<lambda>proofs. wp (return_io (s', proofs)) ?C Q) e"
      using Q [OF refl e(1) s' _ fin] s' by (simp add: written_proofs_def wp_look wp_return holds_def)
  qed
qed

section \<open>Loading a split\<close>

declare load_chunks.simps [simp del]

lemma wp_for_same:
  assumes "C d" and "\<And>x. x \<in> set xs \<Longrightarrow> wp (p x) C (\<lambda>_ d'. d' = d) d" and "Q () d"
  shows "wp (for_io p xs) C Q d"
  by (rule wp_for [where I = "\<lambda>_ d'. d' = d"]) (use assms in auto)

lemma check_raw_wp:
  assumes env: "env_ok env" and at: "(a, t) \<in> set (arrays env)" and i: "i < length c"
    and d: "split_ok env sp c d" and C: "C d" and Q: "Q () d"
  shows "wp (check_raw env sp i (receipt_for env sp (take i c) (c ! i)) a) C Q d"
proof -
  have "map_of d (Raw sp i a) = Some (Bytes (raw_bytes env a t (c ! i)))"
    using d i by (simp add: split_ok_def committed_raw_def map_of_array [OF env at])
  moreover have "map_of (receipt_arrays (receipt_for env sp (take i c) (c ! i))) a =
      Some \<lparr>meta_dtype = dtype t, meta_length = int (length (raw_bytes env a t (c ! i))), meta_sha256 = sha256 env (raw_bytes env a t (c ! i))\<rparr>"
    unfolding receipt_for_def meta_for_def receipt.simps by (rule map_of_array_image [OF env at])
  ultimately show ?thesis
    using C Q unfolding check_raw_def wp_bind wp_read_file by (simp add: wp_return)
qed

lemma committed_file: "split_ok env sp c d \<Longrightarrow> i < length c \<Longrightarrow>
    map_of d (Receipt sp i) = Some (Sealed (receipt_for env sp (take i c) (c ! i)))"
  by (simp add: split_ok_def committed_receipt_def)

lemma uncommitted_file: "split_ok env sp c d \<Longrightarrow> length c \<le> i \<Longrightarrow> map_of d (Receipt sp i) = None"
  unfolding split_ok_def by (force simp: owned_def allowed_def)

lemma load_chunks_wp:
  assumes env: "env_ok env" and d: "split_ok env sp c d" and few: "length c < max_chunks" and C: "C d"
    and Q: "Q (receipts env sp c, counts_of (concat c)) d"
  shows "i \<le> length c \<Longrightarrow> wp (load_chunks env sp i (map (\<lambda>i. receipt_for env sp (take i c) (c ! i)) [0 ..< i])
    (counts_of (concat (take i c)))) C Q d"
proof (induction "length c - i" arbitrary: i)
  case 0
  then have i: "i = length c" by simp
  have "map_of d (Receipt sp i) = None" using uncommitted_file [OF d] i by simp
  moreover have "\<not> max_chunks \<le> i" using few i by simp
  ultimately show ?case
    using C Q i unfolding load_chunks.simps [of env sp i] by (simp add: wp_simps receipts_def)
next
  case (Suc n)
  then have i: "i < length c" by simp
  let ?r = "receipt_for env sp (take i c) (c ! i)"
  have "chunk_ok env (c ! i)" using d i by (simp add: split_ok_def list_all_length)
  from receipt_valid [OF env this, of sp "take i c"] have valid: "validate_receipt env sp i ?r = Inr ()" using i by simp
  have first: "\<not> first_acquired_index ?r \<noteq> acquired_documents (counts_of (concat (take i c))) + 1"
    by (simp add: receipt_for_def) (simp add: counts_of_def)
  have "wp (load_chunks env sp (Suc i) (map (\<lambda>i. receipt_for env sp (take i c) (c ! i)) [0 ..< Suc i])
      (counts_of (concat (take (Suc i) c)))) C Q d"
    using Suc.hyps(1) [of "Suc i"] Suc.hyps(2) i by simp
  moreover have "counts_of (concat (take (Suc i) c)) = add_counts (counts_of (concat (take i c))) (receipt_counts ?r)"
    by (simp add: take_Suc_conv_app_nth [OF i] counts_of_append receipt_for_def)
  ultimately have rest: "wp (load_chunks env sp (Suc i) (map (\<lambda>i. receipt_for env sp (take i c) (c ! i)) [0 ..< i] @ [?r])
      (add_counts (counts_of (concat (take i c))) (receipt_counts ?r))) C Q d"
    by simp
  have raws: "wp (for_io (\<lambda>(a, t). check_raw env sp i ?r a) (arrays env)) C
      (\<lambda>_. wp (load_chunks env sp (Suc i) (map (\<lambda>i. receipt_for env sp (take i c) (c ! i)) [0 ..< i] @ [?r])
      (add_counts (counts_of (concat (take i c))) (receipt_counts ?r))) C Q) d"
    by (rule wp_for_same) (use C rest in \<open>auto intro: check_raw_wp [OF env _ i d]\<close>)
  have "\<not> max_chunks \<le> i" using few i by simp
  then show ?case
    unfolding load_chunks.simps [of env sp i] sealed_document_def wp_if wp_bind wp_present wp_read_file wp_lift
    using C committed_file [OF d i] valid first raws
    by (simp add: wp_simps)
qed

lemma open_split_wp:
  assumes env: "env_ok env" and sp: "sp \<in> set splits" and d: "split_ok env sp c d" and few: "length c < max_chunks"
    and C: "C d" and Q: "\<And>s. holds env sp c [] s \<Longrightarrow> Q s d"
  shows "wp (open_split env sp) C Q d"
proof -
  have "wp (load_chunks env sp 0 [] no_counts) C (\<lambda>(rs, n). wp (return_io
      \<lparr>split_name = sp, sealed = rs, state = n, pending = no_counts, streaming = False, fed = []\<rparr>) C Q) d"
    using load_chunks_wp [OF env d few, of C "\<lambda>(rs, n). wp (return_io
      \<lparr>split_name = sp, sealed = rs, state = n, pending = no_counts, streaming = False, fed = []\<rparr>) C Q" 0] C Q
    by (simp add: wp_return holds_def)
  then show ?thesis
    using sp by (simp add: open_split_def wp_bind case_prod_unfold)
qed

end
