(* ===== verification/Chunk_Recovery.thy ===== *)
theory Chunk_Recovery
  imports Chunk_Programs
begin

text \<open>
  What the staging directory of \<open>Chunks\<close> guarantees: whatever write a crash cuts short, the directory
  opens again with whole chunks of the source, nothing committed is lost, and a finished array is
  the encoding of the whole source.
\<close>

section \<open>The whole directory\<close>

definition staged :: "chunk_env \<Rightarrow> (string \<Rightarrow> source list) \<Rightarrow> staging_dir \<Rightarrow> bool" where
  "staged env cs d \<longleftrightarrow> distinct (map fst d) \<and> map_of d Root \<noteq> None
     \<and> map_of d Marker = Some (OwnerDoc (owner_document env))
     \<and> (\<forall>sp \<in> set splits. split_ok env sp (cs sp) d)
     \<and> (\<forall>f. (\<forall>sp \<in> set splits. \<not> owned sp f \<and> \<not> outputs sp f) \<longrightarrow> map_of d f \<noteq> None
          \<longrightarrow> f \<in> {Root, Marker, Manifest, ManifestTmp})"

definition clean :: "chunk_env \<Rightarrow> string \<Rightarrow> source list \<Rightarrow> staging_dir \<Rightarrow> bool" where
  "clean env sp c = layout env sp c Map.empty Map.empty None"

lemma stagedD:
  assumes "staged env cs d"
  shows staged_distinct: "distinct (map fst d)" and staged_root: "map_of d Root \<noteq> None"
    and staged_marker: "map_of d Marker = Some (OwnerDoc (owner_document env))"
    and staged_split: "sp \<in> set splits \<Longrightarrow> split_ok env sp (cs sp) d"
    and staged_rest: "(\<forall>sp \<in> set splits. \<not> owned sp f \<and> \<not> outputs sp f) \<Longrightarrow> map_of d f \<noteq> None
      \<Longrightarrow> f \<in> {Root, Marker, Manifest, ManifestTmp}"
  using assms unfolding staged_def by blast+

lemma keeps_rest_refl: "distinct (map fst d) \<Longrightarrow> keeps_rest sp d d"
  by (simp add: keeps_rest_def)

lemma owned_other: "owned q f \<or> outputs q f \<Longrightarrow> q \<noteq> sp \<Longrightarrow> \<not> owned sp f \<and> \<not> outputs sp f"
  by (cases f) (auto simp: owned_def outputs_def)

lemma split_ok_frame:
  assumes "split_ok env q c d" and "\<And>f. owned q f \<or> outputs q f \<Longrightarrow> map_of d' f = map_of d f"
  shows "split_ok env q c d'"
proof -
  have "map_of d' (Receipt q i) = map_of d (Receipt q i)" "map_of d' (Raw q i a) = map_of d (Raw q i a)" for i a
    by (simp_all add: assms(2) owned_def)
  with assms show ?thesis unfolding split_ok_def by auto
qed

lemma layout_frame:
  assumes "layout env q c tmp raw rt d" and "\<And>f. owned q f \<or> outputs q f \<Longrightarrow> map_of d' f = map_of d f"
  shows "layout env q c tmp raw rt d'"
proof -
  have "map_of d' (Receipt q i) = map_of d (Receipt q i)" "map_of d' (ReceiptTmp q i) = map_of d (ReceiptTmp q i)"
    "map_of d' (Raw q i a) = map_of d (Raw q i a)" "map_of d' (RawTmp q i a) = map_of d (RawTmp q i a)" for i a
    by (simp_all add: assms(2) owned_def)
  with assms show ?thesis unfolding layout_def by auto
qed

lemma keeps_other: "keeps_rest sp d d' \<Longrightarrow> q \<noteq> sp \<Longrightarrow> owned q f \<or> outputs q f \<Longrightarrow> map_of d' f = map_of d f"
  using owned_other [of q f sp] by (simp add: keeps_rest_def)

lemma staged_step:
  assumes d: "staged env cs d" and k: "keeps_rest sp d d'" and sp: "sp \<in> set splits" and ok: "split_ok env sp c d'"
  shows "staged env (cs(sp := c)) d'"
  unfolding staged_def
proof (intro conjI ballI allI impI)
  show "distinct (map fst d')" using k by (simp add: keeps_rest_def)
  have "\<not> owned sp f \<and> \<not> outputs sp f" if "f \<in> {Root, Marker}" for f
    using that by (auto simp: owned_def outputs_def)
  then have "map_of d' f = map_of d f" if "f \<in> {Root, Marker}" for f
    using that k unfolding keeps_rest_def by blast
  then show "map_of d' Root \<noteq> None" "map_of d' Marker = Some (OwnerDoc (owner_document env))"
    using staged_root [OF d] staged_marker [OF d] by auto
  show "split_ok env q ((cs(sp := c)) q) d'" if "q \<in> set splits" for q
  proof (cases "q = sp")
    case False
    have "split_ok env q (cs q) d" using d that by (simp add: staged_def)
    then show ?thesis using split_ok_frame keeps_other [OF k False] False by fastforce
  qed (use ok in simp)
  fix f assume "\<forall>q \<in> set splits. \<not> owned q f \<and> \<not> outputs q f" and "map_of d' f \<noteq> None"
  moreover from this sp have "map_of d' f = map_of d f" using k by (simp add: keeps_rest_def)
  ultimately show "f \<in> {Root, Marker, Manifest, ManifestTmp}" using d unfolding staged_def by metis
qed

section \<open>Opening a staged directory\<close>

lemma receipt_indices_exact:
  assumes dist: "distinct (map fst d)" and mem: "\<And>i. map_of d (Receipt sp i) \<noteq> None \<longleftrightarrow> i < n"
  shows "receipt_indices d sp = [0 ..< n]"
proof -
  let ?g = "\<lambda>(f, c). case f of Receipt q i \<Rightarrow> if q = sp then Some i else None | _ \<Rightarrow> None"
  have sub: "i \<in> set (List.map_filter ?g e) \<longleftrightarrow> Receipt sp i \<in> fst ` set e" for i and e :: staging_dir
    by (induction e) (auto simp: List.map_filter_simps split: chunk_file.splits if_splits option.splits)
  have "distinct (List.map_filter ?g e)" if "distinct (map fst e)" for e :: staging_dir
    using that
  proof (induction e)
    case Nil
    show ?case by (simp add: List.map_filter_simps)
  next
    case (Cons x e)
    show ?case
    proof (cases "?g x")
      case None
      then show ?thesis using Cons by (simp add: List.map_filter_simps)
    next
      case (Some i)
      then have "fst x = Receipt sp i" by (cases x) (auto split: chunk_file.splits if_splits)
      then have "i \<notin> set (List.map_filter ?g e)" using Cons.prems unfolding sub by auto
      then show ?thesis using Some Cons by (simp add: List.map_filter_simps)
    qed
  qed
  then have "distinct (List.map_filter ?g d)" using dist .
  moreover have "set (List.map_filter ?g d) = {..<n}"
    using mem unfolding sub set_eq_iff by (auto simp: map_of_eq_None_iff)
  ultimately show ?thesis
    unfolding receipt_indices_def
    by (intro sorted_distinct_set_unique) (auto simp: lessThan_atLeast0)
qed

lemma check_receipts_wp:
  assumes env: "env_ok env" and d: "split_ok env sp c d" and dist: "distinct (map fst d)" and C: "C d" and Q: "Q (length c) d"
  shows "wp (check_receipts env sp) C Q d"
proof -
  have "map_of d (Receipt sp i) \<noteq> None \<longleftrightarrow> i < length c" for i
    using committed_file [OF d, of i] uncommitted_file [OF d, of i] by (cases "i < length c") auto
  from receipt_indices_exact [OF dist this] have idx: "receipt_indices d sp = [0 ..< length c]" .
  have each: "wp (case x of (k, i) \<Rightarrow> if i \<noteq> k then raise_io NoncontiguousChunk
      else bind_io (sealed_document (Receipt sp i)) (\<lambda>r. lift_io (validate_receipt env sp i r))) C (\<lambda>_ d'. d' = d) d"
    if "x \<in> set (zip [0 ..< length c] [0 ..< length c])" for x
  proof -
    from that obtain i where x: "x = (i, i)" and i: "i < length c"
      unfolding set_zip by auto
    have "chunk_ok env (c ! i)" using d i by (simp add: split_ok_def list_all_length)
    from receipt_valid [OF env this, of sp "take i c"] i
    have "validate_receipt env sp i (receipt_for env sp (take i c) (c ! i)) = Inr ()" by simp
    then show ?thesis
      using C committed_file [OF d i] by (simp add: x sealed_document_def wp_simps)
  qed
  have "wp (for_io (\<lambda>(k, i). if i \<noteq> k then raise_io NoncontiguousChunk
      else bind_io (sealed_document (Receipt sp i)) (\<lambda>r. lift_io (validate_receipt env sp i r)))
      (zip [0 ..< length c] [0 ..< length c])) C (\<lambda>_. wp (return_io (length c)) C Q) d"
    by (rule wp_for_same) (use C Q each in \<open>simp_all add: wp_return\<close>)
  then show ?thesis
    using C idx unfolding check_receipts_def wp_bind wp_look by simp
qed

lemma split_ok_unlink:
  assumes "split_ok env sp c d" and "of_chunk sp (length c) f"
  shows "split_ok env sp c (apply_action (Unlink f) d)"
  using assms unfolding split_ok_def by (auto simp: of_chunk_def)

lemma of_chunk_owned: "of_chunk sp i f \<Longrightarrow> owned sp f"
  by (cases f) (auto simp: of_chunk_def owned_def)

lemma fun_upd_same: "cs(sp := cs sp) = cs"
  by simp

lemma discard_wp:
  assumes d: "staged env cs d" and sp: "sp \<in> set splits"
    and Q: "\<And>d'. staged env cs d' \<Longrightarrow> keeps_rest sp d d' \<Longrightarrow> (\<forall>f. of_chunk sp (length (cs sp)) f \<longrightarrow> map_of d' f = None) \<Longrightarrow> Q () d'"
  shows "wp (discard_chunk sp (length (cs sp))) (staged env cs) Q d"
proof -
  let ?of = "of_chunk sp (length (cs sp))"
  let ?I = "\<lambda>gone d'. staged env cs d' \<and> keeps_rest sp d d' \<and> (\<forall>f. map_of d' f = (if f \<in> set gone then None else map_of d f))"
  have "wp (for_io (\<lambda>f. act (Unlink f)) (filter ?of (map fst d))) (staged env cs) Q d"
  proof (rule wp_for [where I = ?I])
    show "?I [] d" using d keeps_rest_refl [OF staged_distinct [OF d]] by simp
    show "Q () d'" if I: "?I (filter ?of (map fst d)) d'" for d'
    proof (rule Q)
      show "\<forall>f. ?of f \<longrightarrow> map_of d' f = None"
        using I by (auto simp: map_of_eq_None_iff)
    qed (use I in simp_all)
    fix before f rest d'
    assume fs: "filter ?of (map fst d) = before @ f # rest" and I: "?I before d'"
    have of: "?of f"
    proof -
      have "f \<in> set (filter ?of (map fst d))" unfolding fs by simp
      then show ?thesis by simp
    qed
    have k: "keeps_rest sp d (apply_action (Unlink f) d')" "keeps_rest sp d' (apply_action (Unlink f) d')"
      using I of_chunk_owned [OF of] keeps_rest_refl [OF staged_distinct, of env cs d']
      by (auto intro!: keeps_rest_step)
    have "split_ok env sp (cs sp) (apply_action (Unlink f) d')"
      using I sp of by (intro split_ok_unlink staged_split) auto
    from staged_step [OF _ k(2) sp this, of cs] I have "staged env cs (apply_action (Unlink f) d')" by simp
    then show "wp (act (Unlink f)) (staged env cs) (\<lambda>_. ?I (before @ [f])) d'"
      using I k(1) by (simp add: wp_act)
  qed simp
  then show ?thesis using d by (simp add: discard_chunk_def wp_bind wp_look)
qed

lemma clean_split:
  assumes "split_ok env sp c d" and "\<forall>f. of_chunk sp (length c) f \<longrightarrow> map_of d f = None"
  shows "clean env sp c d"
proof -
  have gone: "map_of d f = None" if "of_chunk sp (length c) f" for f using assms(2) that by blast
  have al: "allowed env (\<lambda>_. length c) f" if "owned sp f \<or> outputs sp f" "map_of d f \<noteq> None" for f
    using assms(1) that unfolding split_ok_def by blast
  have absent: "map_of d f = None" if "owned sp f" "\<not> allowed env (\<lambda>_. length c) f" for f
    using al [of f] that by blast
  have "map_of d (Receipt sp i) = (if i < length c then Some (committed_receipt env sp c i) else None)" for i
    using assms(1) uncommitted_file [OF assms(1), of i] by (simp add: split_ok_def)
  moreover have "map_of d (ReceiptTmp sp i) = None" for i
    by (cases "i = length c") (simp_all add: gone absent of_chunk_def owned_def allowed_def)
  moreover have "map_of d (Raw sp i a) = (if i < length c then committed_raw env c i a else None)" for i a
    using assms(1) by (cases i "length c" rule: linorder_cases)
      (simp_all add: gone absent of_chunk_def owned_def allowed_def split_ok_def)
  moreover have "map_of d (RawTmp sp i a) = None" for i a
    by (cases "i = length c") (simp_all add: gone absent of_chunk_def owned_def allowed_def)
  moreover have "allowed env (\<lambda>_. 0) f" if "outputs sp f" "map_of d f \<noteq> None" for f
    using al [of f] allowed_outputs [OF that(1)] that by blast
  ultimately show ?thesis unfolding clean_def layout_def by auto
qed

lemma allowed_split: "owned sp f \<or> outputs sp f \<Longrightarrow> allowed env (\<lambda>_. n sp) f \<longleftrightarrow> allowed env n f"
  by (cases f) (auto simp: owned_def outputs_def allowed_def)

lemma staged_allowed:
  assumes d: "staged env cs d" and n: "\<And>sp. sp \<in> set splits \<Longrightarrow> n sp = length (cs sp)" and f: "map_of d f \<noteq> None"
  shows "allowed env n f"
proof (cases "\<exists>sp \<in> set splits. owned sp f \<or> outputs sp f")
  case True
  then obtain sp where sp: "sp \<in> set splits" "owned sp f \<or> outputs sp f" by blast
  then have "allowed env (\<lambda>_. length (cs sp)) f"
    using staged_split [OF d sp(1)] f unfolding split_ok_def by blast
  with sp n show ?thesis using allowed_split [OF sp(2), of env n] by simp
next
  case False
  then have "f \<in> {Root, Marker, Manifest, ManifestTmp}" using staged_rest [OF d _ f] by blast
  then show ?thesis by (auto simp: allowed_def)
qed

lemma staged_unlink_manifest:
  assumes d: "staged env cs d" and f: "f = Manifest \<or> f = ManifestTmp"
  shows "staged env cs (apply_action (Unlink f) d)"
    and "clean env sp c d \<Longrightarrow> clean env sp c (apply_action (Unlink f) d)"
proof -
  let ?d = "apply_action (Unlink f) d"
  have same: "map_of ?d g = map_of d g" if "owned q g \<or> outputs q g" for q g
    using f that by (auto simp: owned_def outputs_def)
  show "staged env cs ?d"
    unfolding staged_def
  proof (intro conjI ballI allI impI)
    show "distinct (map fst ?d)" by (rule apply_distinct [OF staged_distinct [OF d]])
    show "map_of ?d Root \<noteq> None" "map_of ?d Marker = Some (OwnerDoc (owner_document env))"
      using staged_root [OF d] staged_marker [OF d] f by auto
    show "split_ok env q (cs q) ?d" if "q \<in> set splits" for q
      by (rule split_ok_frame [OF staged_split [OF d that] same])
    fix g assume "\<forall>q \<in> set splits. \<not> owned q g \<and> \<not> outputs q g" and "map_of ?d g \<noteq> None"
    then show "g \<in> {Root, Marker, Manifest, ManifestTmp}"
      using staged_rest [OF d, of g] by (cases "g = f") simp_all
  qed
  show "clean env sp c d \<Longrightarrow> clean env sp c ?d"
    unfolding clean_def by (erule layout_frame) (rule same)
qed

lemma inspect_wp:
  assumes env: "env_ok env" and d: "staged env cs d"
    and Q: "\<And>d'. staged env cs d' \<Longrightarrow> (\<forall>sp \<in> set splits. clean env sp (cs sp) d') \<Longrightarrow> Q () d'"
  shows "wp (inspect_inventory env) (staged env cs) Q d"
proof -
  let ?t = "''train''" and ?v = "''validation''"
  let ?C = "staged env cs"
  have sp: "?t \<in> set splits" "?v \<in> set splits" by (simp_all add: splits_def)
  have "map_of d f \<noteq> None \<Longrightarrow> allowed env (\<lambda>sp. if sp = ?t then length (cs ?t) else length (cs ?v)) f" for f
    by (rule staged_allowed [OF d]) (auto simp: splits_def)
  then have al: "list_all (allowed env (\<lambda>sp. if sp = ?t then length (cs ?t) else length (cs ?v))) (map fst d)"
    by (auto simp: list_all_iff map_of_eq_None_iff)
  have last: "wp (act (Unlink Manifest)) ?C (\<lambda>_. wp (act (Unlink ManifestTmp)) ?C Q) e"
    if e: "staged env cs e" "clean env ?t (cs ?t) e" "clean env ?v (cs ?v) e" for e
  proof -
    let ?e = "apply_action (Unlink Manifest) e"
    have 1: "staged env cs ?e" "clean env ?t (cs ?t) ?e" "clean env ?v (cs ?v) ?e"
      using staged_unlink_manifest [OF e(1), of Manifest] e(2,3) by simp_all
    have 2: "staged env cs (apply_action (Unlink ManifestTmp) ?e)" "clean env ?t (cs ?t) (apply_action (Unlink ManifestTmp) ?e)"
      "clean env ?v (cs ?v) (apply_action (Unlink ManifestTmp) ?e)"
      using staged_unlink_manifest [OF 1(1), of ManifestTmp] 1(2,3) by simp_all
    show ?thesis unfolding wp_act using e(1) 1(1) 2 Q [OF 2(1)] by (simp add: splits_def)
  qed
  have second: "wp (discard_chunk ?v (length (cs ?v))) ?C (\<lambda>_. wp (act (Unlink Manifest)) ?C (\<lambda>_. wp (act (Unlink ManifestTmp)) ?C Q)) e"
    if e: "staged env cs e" "clean env ?t (cs ?t) e" for e
  proof (rule discard_wp [OF e(1) sp(2)])
    fix e' assume e': "staged env cs e'" "keeps_rest ?v e e'" "\<forall>f. of_chunk ?v (length (cs ?v)) f \<longrightarrow> map_of e' f = None"
    have "clean env ?t (cs ?t) e'"
      using e(2) unfolding clean_def by (rule layout_frame) (rule keeps_other [OF e'(2)], simp_all)
    moreover have "clean env ?v (cs ?v) e'" by (rule clean_split [OF staged_split [OF e'(1) sp(2)] e'(3)])
    ultimately show "wp (act (Unlink Manifest)) ?C (\<lambda>_. wp (act (Unlink ManifestTmp)) ?C Q) e'" by (rule last [OF e'(1)])
  qed
  have first: "wp (discard_chunk ?t (length (cs ?t))) ?C (\<lambda>_. wp (discard_chunk ?v (length (cs ?v))) ?C
      (\<lambda>_. wp (act (Unlink Manifest)) ?C (\<lambda>_. wp (act (Unlink ManifestTmp)) ?C Q))) d"
  proof (rule discard_wp [OF d sp(1)])
    fix e' assume e': "staged env cs e'" "keeps_rest ?t d e'" "\<forall>f. of_chunk ?t (length (cs ?t)) f \<longrightarrow> map_of e' f = None"
    have "clean env ?t (cs ?t) e'" by (rule clean_split [OF staged_split [OF e'(1) sp(1)] e'(3)])
    then show "wp (discard_chunk ?v (length (cs ?v))) ?C (\<lambda>_. wp (act (Unlink Manifest)) ?C (\<lambda>_. wp (act (Unlink ManifestTmp)) ?C Q)) e'"
      by (rule second [OF e'(1)])
  qed
  show ?thesis
    unfolding inspect_inventory_def wp_bind
  proof (rule check_receipts_wp [where C = ?C, OF env staged_split [OF d sp(1)] staged_distinct [OF d] d],
      rule check_receipts_wp [where C = ?C, OF env staged_split [OF d sp(2)] staged_distinct [OF d] d])
    show "wp (look (\<lambda>d. if list_all (allowed env (\<lambda>sp. if sp = ?t then length (cs ?t) else length (cs ?v))) (map fst d)
          then Inr () else Inl UnexpectedEntry)) ?C
        (\<lambda>_. wp (discard_chunk ?t (length (cs ?t))) ?C (\<lambda>_. wp (discard_chunk ?v (length (cs ?v))) ?C
        (\<lambda>_. wp (act (Unlink Manifest)) ?C (\<lambda>_. wp (act (Unlink ManifestTmp)) ?C Q)))) d"
      unfolding wp_look using d al first by simp
  qed
qed

lemma open_chunks_wp:
  assumes env: "env_ok env" and d: "staged env cs d"
    and Q: "\<And>d'. staged env cs d' \<Longrightarrow> (\<forall>sp \<in> set splits. clean env sp (cs sp) d') \<Longrightarrow> Q () d'"
  shows "wp (open_chunks env) (staged env cs) Q d"
proof -
  have "check_owner env = Inr ()" using env by (simp add: env_ok_def)
  moreover have "wp (inspect_inventory env) (staged env cs) Q d" by (rule inspect_wp [OF env d]) (rule Q)
  ultimately show ?thesis
    using d staged_root [OF d] staged_marker [OF d]
    unfolding open_chunks_def wp_bind wp_lift wp_present
    by (simp add: wp_simps)
qed

section \<open>Creating the directory\<close>

definition creation :: "chunk_env \<Rightarrow> (chunk_file, content) action list" where
  "creation env = [Put Root (Bytes []), Put MarkerTmp (Bytes []), Put MarkerTmp (OwnerDoc (owner_document env)),
     Rename MarkerTmp Marker]"

lemma create_marker:
  "bind_io (act (Put Root (Bytes []))) (\<lambda>_. store_document MarkerTmp Marker (OwnerDoc (owner_document env))) [] =
     (creation env, Inr ())"
  by (simp add: bind_io_def act_def store_document_def create_new_def present_def look_def replace_file_def
      raise_io_def creation_def)

lemma open_fresh:
  assumes "env_ok env"
  shows "open_chunks env [] =
    (creation env @ fst (inspect_inventory env (after [] (creation env))), snd (inspect_inventory env (after [] (creation env))))"
proof -
  have "open_chunks env [] = bind_io (\<lambda>d. (creation env, Inr ())) (\<lambda>_ :: unit. inspect_inventory env) []"
    using assms create_marker [of env]
    by (simp add: open_chunks_def env_ok_def bind_lift_Inr) (simp add: bind_io_def present_def look_def)
  then show ?thesis by (simp add: bind_io_def case_prod_unfold)
qed

lemma created_staged: "staged env (\<lambda>_. []) (after [] (creation env))"
proof -
  have m: "map_of (after [] (creation env)) = [Root \<mapsto> Bytes [], Marker \<mapsto> OwnerDoc (owner_document env)]"
    by (auto simp: creation_def fun_eq_iff)
  have "distinct (map fst (after [] (creation env)))"
    by (simp add: creation_def apply_distinct)
  then show ?thesis
    unfolding staged_def split_ok_def m by (auto simp: owned_def outputs_def)
qed

section \<open>Runs with crashes\<close>

text \<open>
  A world is the directory and, while a process runs, its open splits. A process takes the records of
  each split from its source in order; a crash keeps the directory after any prefix of the writes of
  the operation under way.
\<close>

datatype chunk_op = OpenSplit string | Append string | Finish string

type_synonym processes = "string \<Rightarrow> split_chunks option"
type_synonym chunk_world = "staging_dir \<times> processes option"

definition next_index :: "split_chunks \<Rightarrow> int" where
  "next_index s = acquired_documents (state s) + acquired_documents (pending s) + 1"

fun perform :: "chunk_env \<Rightarrow> (string \<Rightarrow> source) \<Rightarrow> processes \<Rightarrow> chunk_op \<Rightarrow> processes staging" where
  "perform env src ps (OpenSplit sp) = (case ps sp of
     Some s \<Rightarrow> return_io ps
   | None \<Rightarrow> bind_io (open_split env sp) (\<lambda>s. return_io (ps(sp \<mapsto> s))))"
| "perform env src ps (Append sp) = (case ps sp of
     Some s \<Rightarrow> (if nat (next_index s) \<le> length (src sp)
       then bind_io (append_record env s (next_index s) (src sp ! (nat (next_index s) - 1))) (\<lambda>s'. return_io (ps(sp \<mapsto> s')))
       else return_io ps)
   | None \<Rightarrow> return_io ps)"
| "perform env src ps (Finish sp) = (case ps sp of
     Some s \<Rightarrow> bind_io (finish env s) (\<lambda>(s', proofs). return_io (ps(sp \<mapsto> s')))
   | None \<Rightarrow> return_io ps)"

inductive chunk_step :: "chunk_env \<Rightarrow> (string \<Rightarrow> source) \<Rightarrow> chunk_world \<Rightarrow> chunk_world \<Rightarrow> bool"
  for env src where
  performed: "perform env src ps op d = (acts, Inr ps') \<Longrightarrow> chunk_step env src (d, Some ps) (after d acts, Some ps')"
| crashed: "chunk_step env src (d, Some ps) (after d (take k (fst (perform env src ps op d))), None)"
| restarted: "open_chunks env d = (acts, Inr ()) \<Longrightarrow> chunk_step env src (d, None) (after d acts, Some Map.empty)"
| restart_crashed: "chunk_step env src (d, None) (after d (take k (fst (open_chunks env d))), None)"

definition first_world :: "chunk_env \<Rightarrow> chunk_world" where
  "first_world env = (after [] (fst (open_chunks env [])), Some Map.empty)"

definition source_ok :: "chunk_env \<Rightarrow> (string \<Rightarrow> source) \<Rightarrow> bool" where
  "source_ok env src \<longleftrightarrow> (\<forall>sp \<in> set splits. list_all (admissible env) (src sp) \<and> length (src sp) < 1000000)"

definition at_record :: "chunk_env \<Rightarrow> source \<Rightarrow> string \<Rightarrow> source list \<Rightarrow> source \<Rightarrow> split_chunks \<Rightarrow> staging_dir \<Rightarrow> bool" where
  "at_record env rs sp c cur s d \<longleftrightarrow> holds env sp c cur s \<and> on_disk env sp c cur d
     \<and> (cur \<noteq> [] \<longrightarrow> chunk_ok env cur) \<and> prefix (concat c @ cur) rs"

definition processes_ok :: "chunk_env \<Rightarrow> (string \<Rightarrow> source) \<Rightarrow> (string \<Rightarrow> source list) \<Rightarrow> staging_dir \<Rightarrow> processes \<Rightarrow> bool" where
  "processes_ok env src cs d ps \<longleftrightarrow> (\<forall>sp. case ps sp of
     None \<Rightarrow> sp \<in> set splits \<longrightarrow> clean env sp (cs sp) d
   | Some s \<Rightarrow> sp \<in> set splits \<and> (\<exists>cur. at_record env (src sp) sp (cs sp) cur s d))"

definition stored :: "chunk_env \<Rightarrow> (string \<Rightarrow> source) \<Rightarrow> (string \<Rightarrow> source list) \<Rightarrow> staging_dir \<Rightarrow> bool" where
  "stored env src cs d \<longleftrightarrow> staged env cs d \<and> (\<forall>sp \<in> set splits. prefix (concat (cs sp)) (src sp))"

definition grows :: "(string \<Rightarrow> source list) \<Rightarrow> (string \<Rightarrow> source list) \<Rightarrow> bool" where
  "grows cs cs' \<longleftrightarrow> (\<forall>sp. prefix (cs sp) (cs' sp))"

lemma grows_refl [simp]: "grows cs cs"
  by (simp add: grows_def)

lemma grows_trans: "grows a b \<Longrightarrow> grows b c \<Longrightarrow> grows a c"
  by (auto simp: grows_def intro: prefix_order.trans)

lemma chunks_le_records: "list_all (chunk_ok env) c \<Longrightarrow> length c \<le> length (concat c)"
proof (induction c)
  case (Cons x c)
  then have "1 \<le> length x" by (cases x) (simp_all add: chunk_ok_def)
  with Cons show ?case by simp
qed simp

lemma few_chunks:
  assumes "staged env cs d" and "sp \<in> set splits" and "source_ok env src" and "prefix (concat (cs sp)) (src sp)"
  shows "length (cs sp) < max_chunks"
proof -
  have "list_all (chunk_ok env) (cs sp)" using staged_split [OF assms(1,2)] by (simp add: split_ok_def)
  then have "length (cs sp) \<le> length (concat (cs sp))" by (rule chunks_le_records)
  also have "\<dots> \<le> length (src sp)" by (rule prefix_length_le [OF assms(4)])
  also have "\<dots> < 1000000" using assms(2,3) by (simp add: source_ok_def)
  finally show ?thesis by (simp add: max_chunks_def)
qed

lemma stored_step:
  assumes d: "stored env src cs d" and sp: "sp \<in> set splits" and k: "keeps_rest sp d d'" and ok: "split_ok env sp c d'"
    and c: "prefix (cs sp) c" "prefix (concat c) (src sp)"
  shows "stored env src (cs(sp := c)) d' \<and> grows cs (cs(sp := c))"
  using d c staged_step [OF _ k sp ok, of cs] by (auto simp: stored_def grows_def)

lemma processes_step:
  assumes ps: "processes_ok env src cs d ps" and sp: "sp \<in> set splits" and k: "keeps_rest sp d d'"
    and s: "at_record env (src sp) sp c cur s d'"
  shows "processes_ok env src (cs(sp := c)) d' (ps(sp \<mapsto> s))"
  unfolding processes_ok_def
proof
  fix q
  show "case (ps(sp \<mapsto> s)) q of None \<Rightarrow> q \<in> set splits \<longrightarrow> clean env q ((cs(sp := c)) q) d'
    | Some s \<Rightarrow> q \<in> set splits \<and> (\<exists>cur. at_record env (src q) q ((cs(sp := c)) q) cur s d')"
  proof (cases "q = sp")
    case True
    with sp s show ?thesis by auto
  next
    case False
    have same: "map_of d' f = map_of d f" if "owned q f \<or> outputs q f" for f by (rule keeps_other [OF k False that])
    have old: "case ps q of None \<Rightarrow> q \<in> set splits \<longrightarrow> clean env q (cs q) d
      | Some s \<Rightarrow> q \<in> set splits \<and> (\<exists>cur. at_record env (src q) q (cs q) cur s d)"
      using ps by (simp add: processes_ok_def)
    have frame: "layout env q (cs q) tmp Map.empty None d'" if "layout env q (cs q) tmp Map.empty None d" for tmp
      by (rule layout_frame [OF that same])
    show ?thesis
    proof (cases "ps q")
      case None
      with old False frame show ?thesis by (simp add: clean_def)
    next
      case (Some t)
      with old obtain cur' where "q \<in> set splits" "at_record env (src q) q (cs q) cur' t d" by auto
      then have "at_record env (src q) q (cs q) cur' t d'"
        using frame by (simp add: at_record_def on_disk_def)
      with \<open>q \<in> set splits\<close> Some False show ?thesis by auto
    qed
  qed
qed

text \<open>From what an operation does to its own split to what it does to the world.\<close>

lemma split_op_wp:
  assumes d: "stored env src cs d" and ps: "processes_ok env src cs d ps" and sp: "sp \<in> set splits"
    and cur: "prefix (concat (cs sp) @ cur) (src sp)"
    and run: "\<And>Q. (\<And>s' d' c' cur'. keeps_rest sp d d' \<Longrightarrow> c' = cs sp \<or> c' = cs sp @ [cur]
        \<Longrightarrow> split_ok env sp c' d' \<Longrightarrow> at_record env (src sp) sp c' cur' (split_of s') d' \<Longrightarrow> Q s' d')
      \<Longrightarrow> wp p (crash_ok env sp {cs sp, cs sp @ [cur]} d) Q d"
  shows "wp (bind_io p (\<lambda>s'. return_io (ps(sp \<mapsto> split_of s'))))
    (\<lambda>d'. \<exists>cs'. stored env src cs' d' \<and> grows cs cs')
    (\<lambda>ps' d'. \<exists>cs'. stored env src cs' d' \<and> grows cs cs' \<and> processes_ok env src cs' d' ps') d"
proof -
  have pre: "prefix (cs sp) c' \<and> prefix (concat c') (src sp)" if "c' = cs sp \<or> c' = cs sp @ [cur]" for c'
    using that cur append_prefixD by auto
  have grow: "stored env src (cs(sp := c')) d' \<and> grows cs (cs(sp := c'))"
    if "keeps_rest sp d d'" "split_ok env sp c' d'" "c' = cs sp \<or> c' = cs sp @ [cur]" for c' d'
    using stored_step [OF d sp that(1,2)] pre [OF that(3)] by blast
  have "wp p (crash_ok env sp {cs sp, cs sp @ [cur]} d)
      (\<lambda>s' d'. \<exists>cs'. stored env src cs' d' \<and> grows cs cs' \<and> processes_ok env src cs' d' (ps(sp \<mapsto> split_of s'))) d"
  proof (rule run)
    fix s' d' c' cur'
    assume k: "keeps_rest sp d d'" and c': "c' = cs sp \<or> c' = cs sp @ [cur]" and ok: "split_ok env sp c' d'"
      and at: "at_record env (src sp) sp c' cur' (split_of s') d'"
    show "\<exists>cs'. stored env src cs' d' \<and> grows cs cs' \<and> processes_ok env src cs' d' (ps(sp \<mapsto> split_of s'))"
      using grow [OF k ok c'] processes_step [OF ps sp k at] by blast
  qed
  then show ?thesis
    unfolding wp_bind wp_return
    by (rule wp_mono) (use grow in \<open>auto simp: crash_ok_def\<close>)
qed

lemma on_disk_split_ok:
  assumes "on_disk env sp c cur d" and "list_all (chunk_ok env) c" and "sp \<in> set splits"
  shows "split_ok env sp c d"
proof (rule layout_split_ok [OF _ assms(2,3)])
  show "layout env sp c (if cur = [] then Map.empty else chunk_raw env cur) Map.empty None d"
    using assms(1) by (simp only: on_disk_def)
qed (simp_all add: dom_chunk_raw)

lemma at_record_intro:
  "holds env sp c cur s \<Longrightarrow> on_disk env sp c cur d \<Longrightarrow> (cur \<noteq> [] \<Longrightarrow> chunk_ok env cur) \<Longrightarrow> prefix (concat c @ cur) rs
    \<Longrightarrow> at_record env rs sp c cur s d"
  by (simp add: at_record_def)

lemma prefix_next: "prefix xs ys \<Longrightarrow> length xs < length ys \<Longrightarrow> prefix (xs @ [ys ! length xs]) ys"
  by (auto simp: prefix_def nth_append neq_Nil_conv)

abbreviation crash_world :: "chunk_env \<Rightarrow> (string \<Rightarrow> source) \<Rightarrow> (string \<Rightarrow> source list) \<Rightarrow> staging_dir \<Rightarrow> bool" where
  "crash_world env src cs d' \<equiv> \<exists>cs'. stored env src cs' d' \<and> grows cs cs'"

abbreviation next_world :: "chunk_env \<Rightarrow> (string \<Rightarrow> source) \<Rightarrow> (string \<Rightarrow> source list) \<Rightarrow> processes \<Rightarrow> staging_dir \<Rightarrow> bool" where
  "next_world env src cs ps' d' \<equiv> \<exists>cs'. stored env src cs' d' \<and> grows cs cs' \<and> processes_ok env src cs' d' ps'"

lemma stored_chunks: "stored env src cs d \<Longrightarrow> sp \<in> set splits \<Longrightarrow> list_all (chunk_ok env) (cs sp)"
  using staged_split by (auto simp: stored_def split_ok_def)

lemma stored_keeps: "stored env src cs d \<Longrightarrow> keeps_rest sp d d"
  by (auto simp: stored_def intro: keeps_rest_refl staged_distinct)

lemma open_op_wp:
  assumes env: "env_ok env" and src: "source_ok env src" and d: "stored env src cs d" and ps: "processes_ok env src cs d ps"
    and sp: "sp \<in> set splits" and None: "ps sp = None"
  shows "wp (bind_io (open_split env sp) (\<lambda>s'. return_io (ps(sp \<mapsto> s')))) (crash_world env src cs) (next_world env src cs) d"
proof (rule split_op_wp [where split_of = "\<lambda>s. s" and cur = "[]", OF d ps sp])
  have disk: "on_disk env sp (cs sp) [] d"
    using ps sp None unfolding processes_ok_def by (auto simp: clean_def on_disk_def dest!: spec [of _ sp])
  have ok: "split_ok env sp (cs sp) d" using d sp by (auto simp: stored_def intro: staged_split)
  have few: "length (cs sp) < max_chunks" and pre: "prefix (concat (cs sp)) (src sp)"
    using d sp src by (auto simp: stored_def intro!: few_chunks)
  show "prefix (concat (cs sp) @ []) (src sp)" using pre by simp
  fix Q assume Q: "\<And>s' d' c' cur'. keeps_rest sp d d' \<Longrightarrow> c' = cs sp \<or> c' = cs sp @ [[]] \<Longrightarrow> split_ok env sp c' d'
    \<Longrightarrow> at_record env (src sp) sp c' cur' s' d' \<Longrightarrow> Q s' d'"
  show "wp (open_split env sp) (crash_ok env sp {cs sp, cs sp @ [[]]} d) Q d"
  proof (rule open_split_wp [OF env sp ok few])
    show "crash_ok env sp {cs sp, cs sp @ [[]]} d d" by (rule crash_okI [OF stored_keeps [OF d] ok]) simp
    show "Q s d" if "holds env sp (cs sp) [] s" for s
      by (rule Q [OF stored_keeps [OF d] _ ok at_record_intro [OF that disk]]) (use pre in simp_all)
  qed
qed

lemma append_op_wp:
  assumes env: "env_ok env" and src: "source_ok env src" and d: "stored env src cs d" and ps: "processes_ok env src cs d ps"
    and sp: "sp \<in> set splits" and at: "at_record env (src sp) sp (cs sp) cur s d" and more: "nat (next_index s) \<le> length (src sp)"
  shows "wp (bind_io (append_record env s (next_index s) (src sp ! (nat (next_index s) - 1))) (\<lambda>s'. return_io (ps(sp \<mapsto> s'))))
    (crash_world env src cs) (next_world env src cs) d"
proof (rule split_op_wp [where split_of = "\<lambda>s. s" and cur = cur, OF d ps sp])
  let ?n = "length (concat (cs sp) @ cur)"
  show pre: "prefix (concat (cs sp) @ cur) (src sp)" using at by (simp add: at_record_def)
  have s: "holds env sp (cs sp) cur s" and disk: "on_disk env sp (cs sp) cur d" and full: "cur \<noteq> [] \<longrightarrow> chunk_ok env cur"
    using at by (simp_all add: at_record_def)
  have idx: "next_index s = int (length (concat (cs sp))) + int (length cur) + 1"
    using s by (simp add: next_index_def holds_def) (simp add: counts_of_def)
  then have n: "nat (next_index s) - 1 = ?n" "?n < length (src sp)" using more by simp_all
  let ?r = "src sp ! (nat (next_index s) - 1)"
  have r: "admissible env ?r" using src sp n by (simp add: source_ok_def list_all_length)
  have longer: "prefix ((concat (cs sp) @ cur) @ [?r]) (src sp)" unfolding n(1) by (rule prefix_next [OF pre n(2)])
  fix Q assume Q: "\<And>s' d' c' cur'. keeps_rest sp d d' \<Longrightarrow> c' = cs sp \<or> c' = cs sp @ [cur] \<Longrightarrow> split_ok env sp c' d'
    \<Longrightarrow> at_record env (src sp) sp c' cur' s' d' \<Longrightarrow> Q s' d'"
  show "wp (append_record env s (next_index s) ?r) (crash_ok env sp {cs sp, cs sp @ [cur]} d) Q d"
  proof (rule append_wp [OF env sp stored_chunks [OF d sp] full s disk stored_keeps [OF d] r idx])
    fix c' cur' s' d'
    assume c': "c' = cs sp \<or> c' = cs sp @ [cur]" and eq: "concat c' @ cur' = concat (cs sp) @ cur @ [?r]"
      and ok: "list_all (chunk_ok env) c'" and cur': "chunk_ok env cur'" and h: "holds env sp c' cur' s'"
      and e: "on_disk env sp c' cur' d'" and k: "keeps_rest sp d d'"
    show "Q s' d'"
    proof (rule Q [OF k c' on_disk_split_ok [OF e ok sp] at_record_intro [OF h e cur']])
      show "prefix (concat c' @ cur') (src sp)" using longer eq by simp
    qed
  qed
qed

lemma finish_op_wp:
  assumes env: "env_ok env" and d: "stored env src cs d" and ps: "processes_ok env src cs d ps"
    and sp: "sp \<in> set splits" and at: "at_record env (src sp) sp (cs sp) cur s d"
  shows "wp (bind_io (finish env s) (\<lambda>r. return_io (ps(sp \<mapsto> fst r)))) (crash_world env src cs) (next_world env src cs) d"
proof (rule split_op_wp [where split_of = fst and cur = cur, OF d ps sp])
  show pre: "prefix (concat (cs sp) @ cur) (src sp)" using at by (simp add: at_record_def)
  have s: "holds env sp (cs sp) cur s" and disk: "on_disk env sp (cs sp) cur d" and full: "cur \<noteq> [] \<longrightarrow> chunk_ok env cur"
    using at by (simp_all add: at_record_def)
  fix Q :: "split_chunks \<times> (string \<times> int \<times> string) list \<Rightarrow> staging_dir \<Rightarrow> bool"
  assume Q: "\<And>s' d' c' cur'. keeps_rest sp d d' \<Longrightarrow> c' = cs sp \<or> c' = cs sp @ [cur] \<Longrightarrow> split_ok env sp c' d'
    \<Longrightarrow> at_record env (src sp) sp c' cur' (fst s') d' \<Longrightarrow> Q s' d'"
  show "wp (finish env s) (crash_ok env sp {cs sp, cs sp @ [cur]} d) Q d"
  proof (rule finish_wp [OF env sp stored_chunks [OF d sp] full s disk stored_keeps [OF d]])
    fix c' s' d'
    assume c': "c' = (if cur = [] then cs sp else cs sp @ [cur])" and k: "keeps_rest sp d d'"
      and h: "holds env sp c' [] s'" and e: "on_disk env sp c' [] d'"
    have ok: "list_all (chunk_ok env) c'" using stored_chunks [OF d sp] full c' by simp
    have "prefix (concat c' @ []) (src sp)" using pre by (cases "cur = []") (simp_all add: c')
    then have "at_record env (src sp) sp c' [] s' d'" by (intro at_record_intro [OF h e]) simp_all
    moreover have "c' = cs sp \<or> c' = cs sp @ [cur]" using c' by simp
    ultimately show "Q (s', map (\<lambda>(a, t). (a, int (length (final_bytes env (concat c') a t)), sha256 env (final_bytes env (concat c') a t))) (arrays env)) d'"
      by (intro Q [OF k _ on_disk_split_ok [OF e ok sp]]) simp_all
  qed
qed

lemma perform_wp:
  assumes env: "env_ok env" and src: "source_ok env src" and d: "stored env src cs d" and ps: "processes_ok env src cs d ps"
    and op: "\<And>sp. op = OpenSplit sp \<Longrightarrow> sp \<in> set splits"
  shows "wp (perform env src ps op) (crash_world env src cs) (next_world env src cs) d"
proof -
  have "crash_world env src cs d" "next_world env src cs ps d" using d ps grows_refl by blast+
  then have idle: "wp (return_io ps) (crash_world env src cs) (next_world env src cs) d" by (simp add: wp_return)
  have open_at: "\<exists>cur. sp \<in> set splits \<and> at_record env (src sp) sp (cs sp) cur s d" if "ps sp = Some s" for sp s
    using ps that by (auto simp: processes_ok_def dest!: spec [of _ sp])
  show ?thesis
  proof (cases op)
    case (OpenSplit sp)
    then show ?thesis
      using idle open_op_wp [OF env src d ps, of sp] op by (cases "ps sp") simp_all
  next
    case (Append sp)
    then show ?thesis
      using idle append_op_wp [OF env src d ps] open_at by (cases "ps sp") fastforce+
  next
    case (Finish sp)
    show ?thesis
    proof (cases "ps sp")
      case (Some s)
      with open_at obtain cur where "sp \<in> set splits" "at_record env (src sp) sp (cs sp) cur s d" by blast
      from finish_op_wp [OF env d ps this] show ?thesis by (simp add: Finish Some case_prod_unfold)
    qed (use idle in \<open>simp add: Finish\<close>)
  qed
qed

text \<open>The invariant of all worlds, and what a step does to the committed chunks.\<close>

definition world_ok :: "chunk_env \<Rightarrow> (string \<Rightarrow> source) \<Rightarrow> (string \<Rightarrow> source list) \<Rightarrow> chunk_world \<Rightarrow> bool" where
  "world_ok env src cs w \<longleftrightarrow> stored env src cs (fst w)
     \<and> (case snd w of None \<Rightarrow> True | Some ps \<Rightarrow> processes_ok env src cs (fst w) ps)"

lemma unknown_split:
  assumes "processes_ok env src cs d ps" and "sp \<notin> set splits"
  shows "perform env src ps (OpenSplit sp) d = ([], Inl UnknownSplit)"
proof -
  have "ps sp = None" using assms by (cases "ps sp") (auto simp: processes_ok_def dest!: spec [of _ sp])
  with assms(2) show ?thesis by (simp add: open_split_def raise_io_def bind_io_def)
qed

lemma fresh_processes: "\<forall>sp \<in> set splits. clean env sp (cs sp) d \<Longrightarrow> processes_ok env src cs d Map.empty"
  by (simp add: processes_ok_def)

lemma stored_fresh: "staged env cs d' \<Longrightarrow> stored env src cs d \<Longrightarrow> stored env src cs d'"
  by (simp add: stored_def)

lemma restart_wp:
  assumes env: "env_ok env" and d: "stored env src cs d"
  shows "wp (open_chunks env) (stored env src cs) (\<lambda>_ d'. world_ok env src cs (d', Some Map.empty)) d"
proof (rule wp_mono)
  have "staged env cs d" using d by (simp add: stored_def)
  then show "wp (open_chunks env) (staged env cs) (\<lambda>_ d'. staged env cs d' \<and> (\<forall>sp \<in> set splits. clean env sp (cs sp) d')) d"
    by (rule open_chunks_wp [OF env]) simp
qed (use stored_fresh [OF _ d] fresh_processes in \<open>auto simp: world_ok_def\<close>)

lemma chunk_step_cases:
  assumes "chunk_step env src w w'"
  obtains (performed) d ps op acts ps' where "w = (d, Some ps)" "w' = (after d acts, Some ps')" "perform env src ps op d = (acts, Inr ps')"
  | (crashed) d ps op k where "w = (d, Some ps)" "w' = (after d (take k (fst (perform env src ps op d))), None)"
  | (restarted) d acts where "w = (d, None)" "w' = (after d acts, Some Map.empty)" "open_chunks env d = (acts, Inr ())"
  | (restart_crashed) d k where "w = (d, None)" "w' = (after d (take k (fst (open_chunks env d))), None)"
proof (rule chunk_step.cases [OF assms], goal_cases)
  case 1
  show ?case by (rule 1(1) [OF 1(5,6,7)])
next
  case 2
  show ?case by (rule 2(2) [OF 2(5,6)])
next
  case 3
  show ?case by (rule 3(3) [OF 3(5,6,7)])
next
  case 4
  show ?case by (rule 4(4) [OF 4(5,6)])
qed

lemma chunk_step_ok:
  assumes env: "env_ok env" and src: "source_ok env src" and w: "world_ok env src cs w" and step: "chunk_step env src w w'"
  shows "\<exists>cs'. world_ok env src cs' w' \<and> grows cs cs'"
  using step
proof (cases rule: chunk_step_cases)
  case (performed d ps op acts ps')
  then have d: "stored env src cs d" "processes_ok env src cs d ps" using w by (simp_all add: world_ok_def)
  have "sp \<in> set splits" if "op = OpenSplit sp" for sp
    using unknown_split [OF d(2), of sp] performed that by (cases "sp \<in> set splits") simp_all
  from wp_result [OF perform_wp [OF env src d this] performed(3)] show ?thesis
    using performed by (auto simp: world_ok_def)
next
  case (crashed d ps op k)
  then have d: "stored env src cs d" "processes_ok env src cs d ps" using w by (simp_all add: world_ok_def)
  show ?thesis
  proof (cases "\<exists>sp. op = OpenSplit sp \<and> sp \<notin> set splits")
    case True
    then have "fst (perform env src ps op d) = []" using unknown_split [OF d(2)] by auto
    then show ?thesis using crashed d(1) grows_refl by (auto simp: world_ok_def)
  next
    case False
    then have "\<And>sp. op = OpenSplit sp \<Longrightarrow> sp \<in> set splits" by blast
    from wp_crash [OF perform_wp [OF env src d this], where k = k] show ?thesis
      using crashed by (auto simp: world_ok_def)
  qed
next
  case (restarted d acts)
  then have "stored env src cs d" using w by (simp add: world_ok_def)
  from wp_result [OF restart_wp [OF env this] restarted(3)] show ?thesis using restarted grows_refl by auto
next
  case (restart_crashed d k)
  then have "stored env src cs d" using w by (simp add: world_ok_def)
  from wp_crash [OF restart_wp [OF env this], where k = k] show ?thesis using restart_crashed grows_refl by (auto simp: world_ok_def)
qed

lemma first_world_ok:
  assumes env: "env_ok env"
  shows "world_ok env src (\<lambda>_. []) (first_world env)" and "snd (open_chunks env []) = Inr ()"
proof -
  let ?d = "after [] (creation env)"
  have "stored env src (\<lambda>_. []) ?d" using created_staged by (simp add: stored_def)
  have wp: "wp (inspect_inventory env) (staged env (\<lambda>_. []))
      (\<lambda>_ d'. staged env (\<lambda>_. []) d' \<and> (\<forall>sp \<in> set splits. clean env sp [] d')) ?d"
    using inspect_wp [OF env created_staged, of "\<lambda>_ d'. staged env (\<lambda>_. []) d' \<and> (\<forall>sp \<in> set splits. clean env sp [] d')"]
    by simp
  from wp_returns [OF wp] show "snd (open_chunks env []) = Inr ()"
    by (auto simp: open_fresh [OF env])
  from wp_returns [OF wp] show "world_ok env src (\<lambda>_. []) (first_world env)"
    by (auto simp: first_world_def open_fresh [OF env] world_ok_def stored_def intro: fresh_processes)
qed

definition reachable_world :: "chunk_env \<Rightarrow> (string \<Rightarrow> source) \<Rightarrow> chunk_world \<Rightarrow> bool" where
  "reachable_world env src w \<longleftrightarrow> (chunk_step env src)\<^sup>*\<^sup>* (first_world env) w"

lemma chunk_steps_ok:
  assumes env: "env_ok env" and src: "source_ok env src" and w: "world_ok env src cs w" and steps: "(chunk_step env src)\<^sup>*\<^sup>* w w'"
  shows "\<exists>cs'. world_ok env src cs' w' \<and> grows cs cs'"
  using steps
proof (induction rule: rtranclp_induct)
  case base
  then show ?case using w grows_refl by blast
next
  case (step v v')
  then obtain cs' where "world_ok env src cs' v" "grows cs cs'" by blast
  with chunk_step_ok [OF env src this(1) step.hyps(2)] show ?case by (meson grows_trans)
qed

lemma reachable_world_ok:
  assumes "env_ok env" and "source_ok env src" and "reachable_world env src w"
  obtains cs where "world_ok env src cs w"
  using chunk_steps_ok [OF assms(1,2) first_world_ok(1) [OF assms(1)]] assms(3) unfolding reachable_world_def by blast

section \<open>Guarantees\<close>

lemma silent_file [simp]: "fst (present f d) = []" "fst (read_file f d) = []"
  by (simp_all add: present_def read_file_def silent_simps)

lemma silent_check_raw: "fst (check_raw env sp i r a d) = []"
  unfolding check_raw_def by (intro silent_bind) (auto simp: silent_simps split: content.splits option.splits)

lemma silent_document: "fst (sealed_document f d) = []"
  unfolding sealed_document_def by (intro silent_bind) (auto simp: silent_simps split: content.splits)

lemma load_chunks_silent: "fst (load_chunks env sp i rs c d) = []"
proof (induction "max_chunks - i" arbitrary: i rs c)
  case 0
  then show ?case unfolding load_chunks.simps [of env sp i] by (simp add: silent_simps)
next
  case (Suc n)
  then have "fst (load_chunks env sp (Suc i) rs c d) = []" for rs c by simp
  then show ?case
    unfolding load_chunks.simps [of env sp i]
    by (auto intro!: silent_bind silent_for silent_check_raw silent_document simp: silent_simps split: if_splits)
qed

lemma open_split_silent: "fst (open_split env sp d) = []"
  unfolding open_split_def by (auto intro!: silent_bind load_chunks_silent simp: silent_simps)

lemma prefix_take: "prefix xs ys \<Longrightarrow> take (length xs) ys = xs"
  by (auto simp: prefix_def)

lemma reachable_pair:
  assumes "env_ok env" and "source_ok env src" and "reachable_world env src (d, p)"
  obtains cs where "stored env src cs d" and "\<And>ps. p = Some ps \<Longrightarrow> processes_ok env src cs d ps"
proof -
  from reachable_world_ok [OF assms] obtain cs where w: "world_ok env src cs (d, p)" .
  show thesis by (rule that [of cs]) (use w in \<open>auto simp: world_ok_def\<close>)
qed

text \<open>
  C4. A staging directory always opens again. Whatever operations ran on it and whatever writes
  crashes cut short, opening succeeds, and loading a split succeeds with exactly the counts of a
  prefix of its source and nothing pending: the next process can skip that many records and go on.
\<close>

theorem staging_always_reopens:
  assumes env: "env_ok env" and src: "source_ok env src" and "reachable_world env src (d, p)" and sp: "sp \<in> set splits"
  shows "\<exists>acts s k. open_chunks env d = (acts, Inr ()) \<and> open_split env sp (after d acts) = ([], Inr s)
    \<and> k \<le> length (src sp) \<and> state s = counts_of (take k (src sp)) \<and> pending s = no_counts"
proof -
  from reachable_pair [OF assms(1-3)] obtain cs where d: "stored env src cs d" by blast
  from wp_returns [OF restart_wp [OF env d]] obtain acts where acts: "open_chunks env d = (acts, Inr ())"
    and e: "stored env src cs (after d acts)" by (cases "open_chunks env d") (auto simp: world_ok_def)
  have ok: "split_ok env sp (cs sp) (after d acts)" using e sp by (auto simp: stored_def intro: staged_split)
  have pre: "prefix (concat (cs sp)) (src sp)" and few: "length (cs sp) < max_chunks"
    using e sp src by (auto simp: stored_def intro!: few_chunks)
  have "wp (open_split env sp) (\<lambda>d'. d' = after d acts) (\<lambda>s d'. holds env sp (cs sp) [] s) (after d acts)"
    by (rule open_split_wp [OF env sp ok few]) simp_all
  from wp_returns [OF this] obtain s where s: "snd (open_split env sp (after d acts)) = Inr s" "holds env sp (cs sp) [] s" by blast
  have "fst (open_split env sp (after d acts)) = []" by (rule open_split_silent)
  then have "open_split env sp (after d acts) = ([], Inr s)" using s(1) by (simp add: prod_eq_iff)
  moreover have "state s = counts_of (take (length (concat (cs sp))) (src sp))" "pending s = no_counts"
    using s(2) by (simp_all add: holds_def prefix_take [OF pre])
  ultimately show ?thesis using acts prefix_length_le [OF pre] by blast
qed

text \<open>
  A committed chunk is never lost or changed: once its receipt is in the directory, the receipt
  and every raw file of the chunk stay as they are through all later operations and crashes.
\<close>

theorem committed_chunks_stay:
  assumes env: "env_ok env" and src: "source_ok env src" and w: "reachable_world env src w"
    and steps: "(chunk_step env src)\<^sup>*\<^sup>* w w'" and sp: "sp \<in> set splits"
    and r: "map_of (fst w) (Receipt sp i) = Some r"
  shows "map_of (fst w') (Receipt sp i) = Some r \<and> map_of (fst w') (Raw sp i a) = map_of (fst w) (Raw sp i a)"
proof -
  from reachable_world_ok [OF env src w] obtain cs where w_ok: "world_ok env src cs w" .
  from chunk_steps_ok [OF env src w_ok steps] obtain cs' where w'_ok: "world_ok env src cs' w'" and "grows cs cs'" by blast
  have ok: "split_ok env sp (cs sp) (fst w)" "split_ok env sp (cs' sp) (fst w')"
    using w_ok w'_ok sp by (auto simp: world_ok_def stored_def intro: staged_split)
  obtain more where more: "cs' sp = cs sp @ more" using \<open>grows cs cs'\<close> by (auto simp: grows_def prefix_def)
  have i: "i < length (cs sp)"
    using uncommitted_file [OF ok(1), of i] r by (cases "i < length (cs sp)") simp_all
  have "committed_raw env (cs' sp) i a = committed_raw env (cs sp) i a"
    using i more by (simp add: committed_raw_def nth_append)
  moreover have "map_of (fst w') (Raw sp i a) = committed_raw env (cs' sp) i a" "map_of (fst w) (Raw sp i a) = committed_raw env (cs sp) i a"
    using ok i more by (simp_all add: split_ok_def)
  moreover have "map_of (fst w') (Receipt sp i) = map_of (fst w) (Receipt sp i)"
    using committed_file [OF ok(1) i] committed_file [OF ok(2), of i] i more by (simp add: nth_append)
  ultimately show ?thesis using r by simp
qed

text \<open>Progress: a process can be started again and can take record after record.\<close>

lemma can_open:
  assumes env: "env_ok env" and src: "source_ok env src" and w: "reachable_world env src w" and sp: "sp \<in> set splits"
  shows "\<exists>d ps s. (chunk_step env src)\<^sup>*\<^sup>* w (d, Some ps) \<and> ps sp = Some s \<and> 1 \<le> next_index s"
proof -
  obtain d p where w_eq: "w = (d, p)" by fastforce
  have down: "(chunk_step env src)\<^sup>*\<^sup>* w (d, None)"
  proof (cases p)
    case (Some ps)
    have "chunk_step env src (d, Some ps) (d, None)"
      using chunk_step.crashed [of env src d ps 0 "Finish sp"] by simp
    then show ?thesis using w_eq Some by simp
  qed (use w_eq in simp)
  from staging_always_reopens [OF env src w [unfolded w_eq] sp] obtain acts s k where
    r: "open_chunks env d = (acts, Inr ())" "open_split env sp (after d acts) = ([], Inr s)"
      "state s = counts_of (take k (src sp))" "pending s = no_counts" by blast
  have "chunk_step env src (d, None) (after d acts, Some Map.empty)" by (rule chunk_step.restarted [OF r(1)])
  moreover have "perform env src Map.empty (OpenSplit sp) (after d acts) = ([], Inr [sp \<mapsto> s])"
    using r(2) by (simp add: bind_io_def return_io_def)
  then have "chunk_step env src (after d acts, Some Map.empty) (after d acts, Some [sp \<mapsto> s])"
    using chunk_step.performed [of env src Map.empty "OpenSplit sp" "after d acts" "[]"] by simp
  moreover have "1 \<le> next_index s" using r(3,4) by (simp add: next_index_def) (simp add: counts_of_def no_counts_def)
  ultimately show ?thesis
    using down by (intro exI [of _ "after d acts"] exI [of _ "[sp \<mapsto> s]"] exI [of _ s])
      (auto intro: rtranclp.rtrancl_into_rtrancl)
qed

lemma can_append:
  assumes env: "env_ok env" and src: "source_ok env src" and w: "reachable_world env src (d, Some ps)"
    and s: "ps sp = Some s" and more: "nat (next_index s) \<le> length (src sp)"
  shows "\<exists>d' ps' s'. chunk_step env src (d, Some ps) (d', Some ps') \<and> ps' sp = Some s' \<and> next_index s' = next_index s + 1"
proof -
  from reachable_pair [OF env src w] obtain cs where d: "stored env src cs d" and ps: "processes_ok env src cs d ps" by blast
  from ps s obtain cur where sp: "sp \<in> set splits" and at: "at_record env (src sp) sp (cs sp) cur s d"
    by (auto simp: processes_ok_def dest!: spec [of _ sp])
  then have h: "holds env sp (cs sp) cur s" and e: "on_disk env sp (cs sp) cur d" and full: "cur \<noteq> [] \<longrightarrow> chunk_ok env cur"
    by (simp_all add: at_record_def)
  have idx: "next_index s = int (length (concat (cs sp))) + int (length cur) + 1"
    using h by (simp add: next_index_def holds_def) (simp add: counts_of_def)
  let ?r = "src sp ! (nat (next_index s) - 1)"
  have r: "admissible env ?r" using src sp more idx by (simp add: source_ok_def list_all_length)
  have "wp (append_record env s (next_index s) ?r) (crash_ok env sp {cs sp, cs sp @ [cur]} d) (\<lambda>s' _. next_index s' = next_index s + 1) d"
  proof (rule append_wp [OF env sp stored_chunks [OF d sp] full h e stored_keeps [OF d] r idx])
    fix c' cur' s' d'
    assume eq: "concat c' @ cur' = concat (cs sp) @ cur @ [?r]" and h': "holds env sp c' cur' s'"
    have "length (concat c') + length cur' = length (concat (cs sp)) + length cur + 1"
      using arg_cong [OF eq, of length] by (simp only: length_append) simp
    then show "next_index s' = next_index s + 1"
      using h' idx by (simp add: next_index_def holds_def) (simp add: counts_of_def)
  qed
  from wp_returns [OF this] obtain acts s' where a: "append_record env s (next_index s) ?r d = (acts, Inr s')" "next_index s' = next_index s + 1"
    by (metis prod.collapse)
  have "perform env src ps (Append sp) d = (acts, Inr (ps(sp \<mapsto> s')))"
    using s more a(1) by (simp add: bind_io_def return_io_def)
  from chunk_step.performed [OF this] a(2) show ?thesis by (intro exI conjI) (assumption, simp_all)
qed

lemma next_index_le:
  assumes env: "env_ok env" and src: "source_ok env src" and w: "reachable_world env src (d, Some ps)" and s: "ps sp = Some s"
  shows "next_index s \<le> int (length (src sp)) + 1"
proof -
  from reachable_pair [OF env src w] obtain cs where ps: "processes_ok env src cs d ps" by blast
  from ps s obtain cur where at: "at_record env (src sp) sp (cs sp) cur s d"
    by (auto simp: processes_ok_def dest!: spec [of _ sp])
  then have "length (concat (cs sp) @ cur) \<le> length (src sp)"
    by (intro prefix_length_le) (simp add: at_record_def)
  with at show ?thesis by (simp add: at_record_def next_index_def holds_def) (simp add: counts_of_def)
qed

lemma can_take_all:
  assumes env: "env_ok env" and src: "source_ok env src" and "reachable_world env src (d, Some ps)"
    and "ps sp = Some s" and "1 \<le> next_index s" and "next_index s \<le> int (length (src sp)) + 1"
  shows "\<exists>d' ps' s'. (chunk_step env src)\<^sup>*\<^sup>* (d, Some ps) (d', Some ps') \<and> ps' sp = Some s'
    \<and> next_index s' = int (length (src sp)) + 1"
  using assms(3-6)
proof (induction "nat (int (length (src sp)) + 1 - next_index s)" arbitrary: d ps s)
  case 0
  then show ?case by (intro exI conjI) (rule rtranclp.rtrancl_refl, simp_all)
next
  case (Suc n)
  then have "nat (next_index s) \<le> length (src sp)" by simp
  from can_append [OF env src Suc.prems(1,2) this] obtain d' ps' s' where
    step: "chunk_step env src (d, Some ps) (d', Some ps')" "ps' sp = Some s'" "next_index s' = next_index s + 1" by blast
  have "reachable_world env src (d', Some ps')"
    using Suc.prems(1) step(1) unfolding reachable_world_def by (rule rtranclp.rtrancl_into_rtrancl)
  moreover have "n = nat (int (length (src sp)) + 1 - next_index s')" "1 \<le> next_index s'"
    "next_index s' \<le> int (length (src sp)) + 1"
    using Suc.hyps(2) Suc.prems(3) step(3) by simp_all
  ultimately obtain e qs t where
    "(chunk_step env src)\<^sup>*\<^sup>* (d', Some ps') (e, Some qs)" "qs sp = Some t" "next_index t = int (length (src sp)) + 1"
    using Suc.hyps(1) [where d = d' and ps = ps' and s = s'] step(2) by blast
  with step(1) show ?case by (intro exI conjI) (erule (1) converse_rtranclp_into_rtranclp, simp_all)
qed

text \<open>
  C13. A finished array is the whole source, each record exactly once. When the process has taken all
  records of a split, whatever chunks and crashes there were before, finishing succeeds; each array
  of the split is the NPY header for the number of tokens followed by the encodings of the records
  in order, the counts are those of the source, and the reported sizes and hashes are those of the
  written files.
\<close>

theorem finished_array_is_source:
  assumes env: "env_ok env" and src: "source_ok env src" and "reachable_world env src (d, Some ps)"
    and s: "ps sp = Some s" and all: "next_index s = int (length (src sp)) + 1"
  shows "\<exists>acts s' proofs. finish env s d = (acts, Inr (s', proofs)) \<and> state s' = counts_of (src sp)
    \<and> (\<forall>(a, t) \<in> set (arrays env). map_of (after d acts) (Final sp a) = Some (Bytes (final_bytes env (src sp) a t)))
    \<and> proofs = map (\<lambda>(a, t). (a, int (length (final_bytes env (src sp) a t)), sha256 env (final_bytes env (src sp) a t))) (arrays env)"
proof -
  from reachable_pair [OF assms(1-3)] obtain cs where d: "stored env src cs d" and ps: "processes_ok env src cs d ps" by blast
  from ps s obtain cur where sp: "sp \<in> set splits" and at: "at_record env (src sp) sp (cs sp) cur s d"
    by (auto simp: processes_ok_def dest!: spec [of _ sp])
  then have h: "holds env sp (cs sp) cur s" and e: "on_disk env sp (cs sp) cur d" and full: "cur \<noteq> [] \<longrightarrow> chunk_ok env cur"
    and pre: "prefix (concat (cs sp) @ cur) (src sp)" by (simp_all add: at_record_def)
  have "length (concat (cs sp) @ cur) = length (src sp)"
    using all h by (simp add: next_index_def holds_def) (simp add: counts_of_def)
  with prefix_take [OF pre] have whole: "concat (cs sp) @ cur = src sp" by simp
  then have whole': "concat (if cur = [] then cs sp else cs sp @ [cur]) = src sp" by auto
  have "wp (finish env s) (crash_ok env sp {cs sp, cs sp @ [cur]} d) (\<lambda>(s', proofs) d'. state s' = counts_of (src sp)
      \<and> (\<forall>(a, t) \<in> set (arrays env). map_of d' (Final sp a) = Some (Bytes (final_bytes env (src sp) a t)))
      \<and> proofs = map (\<lambda>(a, t). (a, int (length (final_bytes env (src sp) a t)), sha256 env (final_bytes env (src sp) a t))) (arrays env)) d"
    by (rule finish_wp [OF env sp stored_chunks [OF d sp] full h e stored_keeps [OF d]])
       (use whole' in \<open>simp add: holds_def\<close>)
  from wp_returns [OF this] show ?thesis
    by (cases "finish env s d") auto
qed

lemma open_without_marker:
  assumes "env_ok env" and "map_of d Root \<noteq> None" and "map_of d Marker = None"
  shows "open_chunks env d = ([], Inl (MissingFile Marker))"
proof -
  have "check_owner env = Inr ()" using assms(1) by (simp add: env_ok_def)
  then show ?thesis
    using assms(2,3) by (simp add: open_chunks_def bind_lift_Inr) (simp add: bind_io_def present_def read_file_def look_def)
qed

text \<open>
  C40. A crash while the directory is being created is not recoverable. If the process stops after
  the directory was made and before its owner marker was renamed into place, every later attempt to
  open that staging directory raises before it changes anything: the guarantee above starts only
  with the marker.
\<close>

theorem interrupted_creation_is_stuck:
  assumes "env_ok env" and "0 < k" and "k < 4"
  shows "open_chunks env (after [] (take k (fst (open_chunks env [])))) = ([], Inl (MissingFile Marker))"
proof -
  have prefix_only: "take k (fst (open_chunks env [])) = take k (creation env)"
    using assms(3) by (simp add: open_fresh [OF assms(1)]) (simp add: creation_def)
  have k: "k = 1 \<or> k = 2 \<or> k = 3" using assms(2,3) by auto
  have root: "map_of (after [] (take k (creation env))) Root \<noteq> None"
    and marker: "map_of (after [] (take k (creation env))) Marker = None"
    using k by (auto simp: creation_def)
  show ?thesis unfolding prefix_only by (rule open_without_marker [OF assms(1) root marker])
qed

section \<open>An example\<close>

definition sample_env :: chunk_env where
  "sample_env = \<lparr>arrays = [(''ids'', \<lparr>dtype = ''|u1'', itemsize = 1\<rparr>)], record_limit = 2, raw_byte_limit = 3,
     owner_document = ''owner'',
     tobytes = (\<lambda>t xs. if itemsize t = 1 \<and> list_all (\<lambda>x. 0 \<le> x \<and> x < 256) xs then Some (map nat xs) else None),
     npy_header = (\<lambda>t n. [147, nat n]), sha256 = (\<lambda>b. replicate 64 CHR ''0'')\<rparr>"

definition sample_source :: "string \<Rightarrow> source" where
  "sample_source sp = (if sp = ''train'' then [Some [(''ids'', [7, 8])], None, Some [(''ids'', [9])]] else [])"

lemma sample_env_ok: "env_ok sample_env"
  by (auto simp: env_ok_def sample_env_def check_owner_def split: if_splits)

lemma sample_source_ok: "source_ok sample_env sample_source"
  by (auto simp: source_ok_def sample_source_def admissible_def encode_record_def sample_env_def splits_def)

definition sample_crashed :: chunk_world where
  "sample_crashed = (after (fst (first_world sample_env))
     (take 3 (fst (perform sample_env sample_source Map.empty (Append ''train'') (fst (first_world sample_env))))), None)"

lemma sample_crashed_reachable: "reachable_world sample_env sample_source sample_crashed"
  unfolding reachable_world_def sample_crashed_def first_world_def fst_conv
  by (intro r_into_rtranclp chunk_step.crashed)

theorem staging_always_reopens_witness:
  "\<exists>acts s k. open_chunks sample_env (fst sample_crashed) = (acts, Inr ())
    \<and> open_split sample_env ''train'' (after (fst sample_crashed) acts) = ([], Inr s)
    \<and> k \<le> length (sample_source ''train'') \<and> state s = counts_of (take k (sample_source ''train'')) \<and> pending s = no_counts"
  using staging_always_reopens [OF sample_env_ok sample_source_ok, of "fst sample_crashed" "snd sample_crashed" "''train''"]
    sample_crashed_reachable
  by (simp add: splits_def)

lemma sample_taken:
  obtains d ps s where "reachable_world sample_env sample_source (d, Some ps)" and "ps ''train'' = Some s" and "next_index s = 4"
proof -
  have train: "''train'' \<in> set splits" by (simp add: splits_def)
  from can_open [OF sample_env_ok sample_source_ok sample_crashed_reachable train] obtain d ps s where
    o: "(chunk_step sample_env sample_source)\<^sup>*\<^sup>* sample_crashed (d, Some ps)" "ps ''train'' = Some s" "1 \<le> next_index s" by blast
  have r: "reachable_world sample_env sample_source (d, Some ps)"
    using sample_crashed_reachable o(1) unfolding reachable_world_def by (rule rtranclp_trans)
  from next_index_le [OF sample_env_ok sample_source_ok r o(2)]
    can_take_all [OF sample_env_ok sample_source_ok r o(2,3)] obtain d' ps' s' where
    t: "(chunk_step sample_env sample_source)\<^sup>*\<^sup>* (d, Some ps) (d', Some ps')" "ps' ''train'' = Some s'"
      "next_index s' = int (length (sample_source ''train'')) + 1" by blast
  have "reachable_world sample_env sample_source (d', Some ps')"
    using r t(1) unfolding reachable_world_def by (rule rtranclp_trans)
  moreover have "next_index s' = 4" using t(3) by (simp add: sample_source_def)
  ultimately show thesis by (rule that [where d = d' and ps = ps' and s = s', OF _ t(2)])
qed

theorem finished_array_is_source_witness:
  "\<exists>d s acts s' proofs. finish sample_env s d = (acts, Inr (s', proofs)) \<and> acquired_documents (state s') = 3
    \<and> map_of (after d acts) (Final ''train'' ''ids'') = Some (Bytes [147, 3, 7, 8, 9])"
proof -
  obtain d ps s where w: "reachable_world sample_env sample_source (d, Some ps)" "ps ''train'' = Some s" "next_index s = 4"
    by (rule sample_taken)
  have "next_index s = int (length (sample_source ''train'')) + 1" using w(3) by (simp add: sample_source_def)
  from finished_array_is_source [OF sample_env_ok sample_source_ok w(1,2) this] obtain acts s' proofs where
    f: "finish sample_env s d = (acts, Inr (s', proofs))" "state s' = counts_of (sample_source ''train'')"
      "\<forall>(a, t) \<in> set (arrays sample_env). map_of (after d acts) (Final ''train'' a) =
        Some (Bytes (final_bytes sample_env (sample_source ''train'') a t))" by blast
  have "final_bytes sample_env (sample_source ''train'') ''ids'' \<lparr>dtype = ''|u1'', itemsize = 1\<rparr> = [147, 3, 7, 8, 9]"
    by (simp add: final_bytes_def raw_bytes_def enc_values_def counts_of_def tokens_of_def sample_env_def sample_source_def)
  moreover have "acquired_documents (counts_of (sample_source ''train'')) = 3"
    by (simp add: counts_of_def sample_source_def)
  moreover have "(''ids'', \<lparr>dtype = ''|u1'', itemsize = 1\<rparr>) \<in> set (arrays sample_env)" by (simp add: sample_env_def)
  ultimately show ?thesis using f by fastforce
qed

lemma sample_committed:
  assumes w: "reachable_world sample_env sample_source (d, Some ps)" and s: "ps ''train'' = Some s" "next_index s = 4"
  shows "\<exists>r. map_of d (Receipt ''train'' 0) = Some r"
proof -
  from reachable_pair [OF sample_env_ok sample_source_ok w] obtain cs where
    d: "stored sample_env sample_source cs d" and ps: "processes_ok sample_env sample_source cs d ps" by blast
  from ps s obtain cur where at: "at_record sample_env (sample_source ''train'') ''train'' (cs ''train'') cur s d"
    by (auto simp: processes_ok_def dest!: spec [of _ "''train''"])
  then have "holds sample_env ''train'' (cs ''train'') cur s" and full: "cur \<noteq> [] \<longrightarrow> chunk_ok sample_env cur"
    by (simp_all add: at_record_def)
  then have "length (concat (cs ''train'')) + length cur = 3"
    using s(2) by (simp add: next_index_def holds_def) (simp add: counts_of_def)
  moreover have "length cur \<le> 2" using full by (cases "cur = []") (simp_all add: chunk_ok_def sample_env_def)
  ultimately have "cs ''train'' \<noteq> []" by auto
  moreover have "split_ok sample_env ''train'' (cs ''train'') d"
    using d by (auto simp: stored_def splits_def intro!: staged_split)
  ultimately show ?thesis using committed_file [of sample_env "''train''" "cs ''train''" d 0] by auto
qed

theorem committed_chunks_stay_witness:
  "\<exists>d ps r. map_of d (Receipt ''train'' 0) = Some r
    \<and> map_of (after d (take 5 (fst (perform sample_env sample_source ps (Finish ''train'') d)))) (Receipt ''train'' 0) = Some r"
proof -
  obtain d ps s where w: "reachable_world sample_env sample_source (d, Some ps)" "ps ''train'' = Some s" "next_index s = 4"
    by (rule sample_taken)
  obtain r where r: "map_of d (Receipt ''train'' 0) = Some r" using sample_committed [OF w] by blast
  have "(chunk_step sample_env sample_source)\<^sup>*\<^sup>* (d, Some ps)
      (after d (take 5 (fst (perform sample_env sample_source ps (Finish ''train'') d))), None)"
    by (intro r_into_rtranclp chunk_step.crashed)
  from committed_chunks_stay [OF sample_env_ok sample_source_ok w(1) this, of "''train''" 0 r] r show ?thesis
    by (auto simp: splits_def)
qed

theorem interrupted_creation_is_stuck_witness:
  "open_chunks sample_env (after [] (take 2 (fst (open_chunks sample_env [])))) = ([], Inl (MissingFile Marker))"
  by (rule interrupted_creation_is_stuck [OF sample_env_ok]) simp_all

end
