(* ===== verification/Campaign_Store.thy ===== *)
theory Campaign_Store
  imports Campaign_Plan Disk_Program Json
begin

text \<open>
  \<open>src/sparselab/campaign/state.py\<close>: the records a campaign keeps on disk. The index
  \<open>state.json\<close> holds one row per stage and is replaced atomically; a finished stage publishes an
  immutable receipt under \<open>receipts/<stage>/<input sha>.json\<close>, a decided gate one under
  \<open>approvals/<stage>/<binding>.json\<close>. \<open>reconcile\<close> brings a read index up to date with the receipts.

  A record with a fixed set of keys is a HOL record; keys that may be absent are options, and the
  other keys of a row are its dict \<open>row_extra\<close>. JSON values the store only stores and compares have
  the type \<open>'j\<close>. A file is either such a record with its signature, or \<open>Broken\<close>: a symbolic link, or
  bytes that \<open>read_canonical\<close> or the check of the key set refuses. The checks that a value has its
  JSON type are the typing of the model. The digests of the four domains and
  \<open>datetime.fromisoformat\<close> are fields of the store.
\<close>

section \<open>Rows\<close>

record output_identity =
  o_kind :: string
  o_identifier :: string
  o_sha :: string

record 'j row =
  row_id :: string
  row_kind :: string
  row_scope :: string
  row_requires :: "string list"
  row_state :: string
  row_attempts :: "'j list"
  row_observations :: "'j list"
  row_outputs :: "output_identity list"
  row_availability :: 'j
  row_outcome :: "string option"
  row_reason :: "string option"
  row_deficits :: "'j list option"
  row_input :: "string option"
  row_verified_at :: "string option"
  row_verification :: "string option"
  row_receipt :: "string option"
  row_extra :: "(string \<times> 'j) list"

definition campaign_states :: "string list" where
  "campaign_states = [''NOT_STARTED'', ''READY'', ''RUNNING'', ''COMPLETE'', ''BLOCKED'',
     ''AWAITING_APPROVAL'', ''INTERRUPTED'', ''FAILED'', ''INCONCLUSIVE'']"

definition campaign_outcomes :: "string list" where
  "campaign_outcomes = [''EXPAND_MORE'', ''DESCRIPTIVE_EVIDENCE'', ''READY_FOR_TOKENIZER'',
     ''READY_FOR_NEXT_STAGE'', ''DO_NOT_ADVANCE'', ''INCONCLUSIVE'']"

definition committed_states :: "string list" where
  "committed_states = [''COMPLETE'', ''BLOCKED'', ''FAILED'', ''INCONCLUSIVE'', ''INTERRUPTED'']"

definition reserved_keys :: "string list" where
  "reserved_keys = [''id'', ''kind'', ''scope'', ''requires'', ''state'', ''attempts'', ''observations'',
     ''outputs'', ''availability'', ''outcome'', ''reason'', ''deficits'', ''stage_input_sha256'',
     ''verified_at'', ''verification'', ''receipt'']"

text \<open>Equality of Python dicts, and \<open>{**d, **e}\<close>.\<close>

definition same_dict :: "(string \<times> 'j) list \<Rightarrow> (string \<times> 'j) list \<Rightarrow> bool" where
  "same_dict d e \<longleftrightarrow> list_all (\<lambda>k. map_of d k = map_of e k) (map fst d @ map fst e)"

lemma same_dict_iff: "same_dict d e \<longleftrightarrow> map_of d = map_of e"
proof
  assume s: "same_dict d e"
  show "map_of d = map_of e"
  proof
    fix k
    show "map_of d k = map_of e k"
    proof (cases "k \<in> set (map fst d @ map fst e)")
      case True
      with s show ?thesis unfolding same_dict_def list_all_iff by blast
    next
      case False
      then have "map_of d k = None" "map_of e k = None" by (simp_all add: map_of_eq_None_iff)
      then show ?thesis by simp
    qed
  qed
qed (simp add: same_dict_def list_all_iff)

definition merge_dict :: "(string \<times> 'j) list \<Rightarrow> (string \<times> 'j) list \<Rightarrow> (string \<times> 'j) list" where
  "merge_dict d e = foldl (\<lambda>m (k, v). AList.update k v m) d e"

datatype store_error =
    InventoryMismatch string | InvalidState string | InvalidOutput string | MachineLocalPath string
  | InvalidSha | InvalidOutcome string | ReceiptReference string | InvalidTimestamp
  | VerificationMarker string | LacksTimestamp string | DeclarationMismatch | InventoryLength
  | ChecksumMismatch | UnreadableRecord | UnknownStage string | DependencyIncomplete string
  | ReceiptIdentity | InvalidCommitted | InvalidResult | OverridesIdentity | NotTerminal | NoInput
  | UntypedOutcome | ConflictingReceipt | ConflictingCommitted string | ReceiptMissing string
  | UnexpectedReceipt | MultipleReceipts string | ReceiptInput string | IndexReceiptInput string
  | IndexReceipt string | PlanOrder | InvalidDecision | InvalidApproval | ConflictingApproval

section \<open>Records on disk\<close>

record 'j next_action =
  na_action :: string
  na_reason :: string
  na_identities :: "'j option"

record 'j campaign_index =
  ix_format :: string
  ix_id :: string
  ix_declaration :: string
  ix_rows :: "'j row list"
  ix_next :: "'j next_action"

record 'j stage_receipt =
  rc_format :: string
  rc_declaration :: string
  rc_id :: string
  rc_kind :: string
  rc_scope :: string
  rc_requires :: "string list"
  rc_input :: string
  rc_state :: string
  rc_outcome :: "string option"
  rc_reason :: string
  rc_deficits :: "'j list"
  rc_outputs :: "output_identity list"
  rc_availability :: 'j
  rc_observations :: "'j list"
  rc_verified_at :: string
  rc_data :: "(string \<times> 'j) list"

record 'j approval_receipt =
  ap_format :: string
  ap_declaration :: string
  ap_id :: string
  ap_binding :: string
  ap_decision :: string
  ap_note :: "string option"
  ap_identities :: 'j
  ap_verified_at :: string

datatype location = StateJson | ReceiptsDir | ReceiptAt string string | ApprovalAt string string
  | TempOf location string

datatype 'j campaign_file = Directory | Broken | IndexFile "'j campaign_index" string
  | ReceiptFile "'j stage_receipt" string | ApprovalFile "'j approval_receipt" string

type_synonym 'j campaign_dir = "(location, 'j campaign_file) dir"
type_synonym ('j, 'a) store_program = "(location, 'j campaign_file, store_error, 'a) disk_program"

record 'j campaign_store =
  s_plan :: campaign_plan
  s_declaration :: string
  input_digest :: "string \<Rightarrow> stage \<Rightarrow> (string \<times> string \<times> output_identity list) list \<Rightarrow> string"
  receipt_digest :: "'j stage_receipt \<Rightarrow> string"
  index_digest :: "'j campaign_index \<Rightarrow> string"
  approval_digest :: "'j approval_receipt \<Rightarrow> string"
  iso_datetime :: "string \<Rightarrow> bool"

abbreviation s_stages :: "'j campaign_store \<Rightarrow> stage list" where
  "s_stages S \<equiv> stages (s_plan S)"

section \<open>Validation\<close>

definition is_utc :: "'j campaign_store \<Rightarrow> string \<Rightarrow> bool" where
  "is_utc S t \<longleftrightarrow> ends_with ''Z'' t \<and> iso_datetime S t"

text \<open>\<open>PureWindowsPath(s).is_absolute()\<close>: a drive and a root, or two leading separators.\<close>

definition windows_absolute :: "string \<Rightarrow> bool" where
  "windows_absolute s \<longleftrightarrow> (let p = map (\<lambda>c. if c = CHR ''/'' then CHR 0x5C else c) (take 3 s) in
     take 2 p = [CHR 0x5C, CHR 0x5C] \<or> drop 1 p = [CHR '':'', CHR 0x5C])"

definition valid_output :: "string \<Rightarrow> output_identity \<Rightarrow> store_error + unit" where
  "valid_output i item =
     (if o_kind item = [] \<or> o_identifier item = [] then Inl (InvalidOutput i)
      else if starts_with ''/'' (o_identifier item) \<or> windows_absolute (o_identifier item)
        then Inl (MachineLocalPath i)
      else guardE (is_sha256 (o_sha item)) InvalidSha)"

definition receipt_reference :: "string \<Rightarrow> string option \<Rightarrow> string" where
  "receipt_reference i h = ''receipts/'' @ i @ ''/'' @ (case h of None \<Rightarrow> ''None'' | Some s \<Rightarrow> s) @ ''.json''"

definition in_inventory :: "'j row \<Rightarrow> stage \<Rightarrow> bool" where
  "in_inventory row s \<longleftrightarrow> row_id row = stage_id s \<and> row_kind row = stage_kind (body s)
     \<and> row_scope row = stage_scope s \<and> row_requires row = requires s"

definition valid_row :: "'j campaign_store \<Rightarrow> 'j row \<Rightarrow> stage \<Rightarrow> store_error + unit" where
  "valid_row S row s = (let i = stage_id s in
     bindE (guardE (in_inventory row s) (InventoryMismatch i)) (\<lambda>_.
     bindE (guardE (row_state row \<in> set campaign_states) (InvalidState i)) (\<lambda>_.
     bindE (foldE (\<lambda>_ item. valid_output i item) () (row_outputs row)) (\<lambda>_.
     bindE (guardE (optional_ok (\<lambda>x. x \<in> set campaign_outcomes) (row_outcome row)) (InvalidOutcome i)) (\<lambda>_.
     bindE (guardE (optional_ok is_sha256 (row_input row)) InvalidSha) (\<lambda>_.
     bindE (guardE (optional_ok (\<lambda>r. r = receipt_reference i (row_input row)) (row_receipt row)) (ReceiptReference i)) (\<lambda>_.
     bindE (guardE (optional_ok (is_utc S) (row_verified_at row)) InvalidTimestamp) (\<lambda>_.
     bindE (guardE (row_verified_at row \<noteq> None \<longrightarrow> row_verification row = Some ''last_committed'') (VerificationMarker i)) (\<lambda>_.
     guardE (row_verification row \<noteq> None \<longrightarrow> row_verified_at row \<noteq> None) (LacksTimestamp i))))))))))"

fun valid_rows :: "'j campaign_store \<Rightarrow> 'j row list \<Rightarrow> stage list \<Rightarrow> store_error + unit" where
  "valid_rows S (row # rows) (s # ss) = bindE (valid_row S row s) (\<lambda>_. valid_rows S rows ss)"
| "valid_rows S _ _ = Inr ()"

definition valid_index :: "'j campaign_store \<Rightarrow> 'j campaign_index \<Rightarrow> string option \<Rightarrow> store_error + unit" where
  "valid_index S ix signature =
     bindE (guardE (ix_format ix = ''campaign-state-v1'' \<and> ix_id ix = campaign_id (s_plan S)
       \<and> ix_declaration ix = s_declaration S) DeclarationMismatch) (\<lambda>_.
     bindE (guardE (length (ix_rows ix) = length (s_stages S)) InventoryLength) (\<lambda>_.
     bindE (valid_rows S (ix_rows ix) (s_stages S)) (\<lambda>_.
     case signature of None \<Rightarrow> Inr ()
     | Some g \<Rightarrow> bindE (guardE (is_sha256 g) InvalidSha) (\<lambda>_. guardE (g = index_digest S ix) ChecksumMismatch))))"

text \<open>The empty object and the object of the declaration digest are arguments.\<close>

definition initial :: "'j campaign_store \<Rightarrow> 'j \<Rightarrow> 'j \<Rightarrow> 'j campaign_index" where
  "initial S empty_object identities =
     \<lparr>ix_format = ''campaign-state-v1'', ix_id = campaign_id (s_plan S), ix_declaration = s_declaration S,
      ix_rows = map (\<lambda>s. \<lparr>row_id = stage_id s, row_kind = stage_kind (body s), row_scope = stage_scope s,
        row_requires = requires s, row_state = ''NOT_STARTED'', row_attempts = [], row_observations = [],
        row_outputs = [], row_availability = empty_object, row_outcome = None, row_reason = None,
        row_deficits = None, row_input = None, row_verified_at = None, row_verification = None,
        row_receipt = None, row_extra = []\<rparr>) (s_stages S),
      ix_next = \<lparr>na_action = ''apply'', na_reason = ''campaign not started'',
        na_identities = Some identities\<rparr>\<rparr>"

section \<open>The identity of a stage's input\<close>

definition dependency :: "'j campaign_store \<Rightarrow> (string \<Rightarrow> 'j row option) \<Rightarrow> string
    \<Rightarrow> store_error + string \<times> string \<times> output_identity list" where
  "dependency S rows name = (case rows name of None \<Rightarrow> Inl (UnknownStage name) | Some dep \<Rightarrow>
     (case row_input dep of None \<Rightarrow> Inl InvalidSha | Some h \<Rightarrow>
       bindE (guardE (is_sha256 h) InvalidSha) (\<lambda>_.
       bindE (case by_id (s_stages S) name of None \<Rightarrow> Inl (UnknownStage name) | Some t \<Rightarrow> valid_row S dep t) (\<lambda>_.
       bindE (guardE (row_state dep = ''COMPLETE'') (DependencyIncomplete name)) (\<lambda>_.
       Inr (name, h, row_outputs dep))))))"

definition input_sha :: "'j campaign_store \<Rightarrow> stage \<Rightarrow> (string \<Rightarrow> 'j row option) \<Rightarrow> store_error + string" where
  "input_sha S s rows = bindE (mapE (dependency S rows) (sort (requires s)))
     (\<lambda>deps. Inr (input_digest S (s_declaration S) s deps))"

section \<open>Receipts\<close>

definition receipt_row :: "'j stage_receipt \<Rightarrow> 'j row" where
  "receipt_row rc = \<lparr>row_id = rc_id rc, row_kind = rc_kind rc, row_scope = rc_scope rc,
     row_requires = rc_requires rc, row_state = rc_state rc, row_attempts = [],
     row_observations = rc_observations rc, row_outputs = rc_outputs rc,
     row_availability = rc_availability rc, row_outcome = rc_outcome rc, row_reason = Some (rc_reason rc),
     row_deficits = Some (rc_deficits rc), row_input = Some (rc_input rc),
     row_verified_at = Some (rc_verified_at rc), row_verification = Some ''last_committed'',
     row_receipt = Some (receipt_reference (rc_id rc) (Some (rc_input rc))), row_extra = rc_data rc\<rparr>"

definition read_receipt :: "'j campaign_store \<Rightarrow> 'j campaign_file option \<Rightarrow> stage \<Rightarrow> string \<Rightarrow> store_error + 'j row" where
  "read_receipt S c s stem = (case c of
     Some (ReceiptFile rc signature) \<Rightarrow>
       (case reject_duplicate_keys (rc_data rc) of Inl e \<Rightarrow> Inl UnreadableRecord | Inr pairs \<Rightarrow>
       bindE (guardE (is_sha256 signature) InvalidSha) (\<lambda>_.
       bindE (guardE (signature = receipt_digest S rc) ChecksumMismatch) (\<lambda>_.
       bindE (guardE (rc_format rc = ''campaign-stage-receipt-v1'' \<and> rc_declaration rc = s_declaration S
         \<and> rc_id rc = stage_id s \<and> rc_kind rc = stage_kind (body s) \<and> rc_scope rc = stage_scope s
         \<and> rc_requires rc = requires s \<and> rc_input rc = stem) ReceiptIdentity) (\<lambda>_.
       bindE (guardE (rc_state rc \<in> set committed_states) InvalidCommitted) (\<lambda>_.
       bindE (guardE (case rc_outcome rc of None \<Rightarrow> False | Some x \<Rightarrow> x \<in> set campaign_outcomes) InvalidResult) (\<lambda>_.
       bindE (guardE (is_utc S (rc_verified_at rc)) InvalidTimestamp) (\<lambda>_.
       bindE (guardE (list_all (\<lambda>(k, v). k \<notin> set reserved_keys) (rc_data rc)) OverridesIdentity) (\<lambda>_.
       bindE (valid_row S (receipt_row rc) s) (\<lambda>_. Inr (receipt_row rc))))))))))
   | _ \<Rightarrow> Inl UnreadableRecord)"

definition compare_committed :: "'j row \<Rightarrow> 'j row \<Rightarrow> store_error + unit" where
  "compare_committed row previous =
     bindE (guardE (row_state row = row_state previous) (ConflictingCommitted ''state'')) (\<lambda>_.
     bindE (guardE (row_outcome row = row_outcome previous) (ConflictingCommitted ''outcome'')) (\<lambda>_.
     bindE (guardE (Some (case row_reason row of None \<Rightarrow> [] | Some r \<Rightarrow> r) = row_reason previous) (ConflictingCommitted ''reason'')) (\<lambda>_.
     bindE (guardE (Some (case row_deficits row of None \<Rightarrow> [] | Some r \<Rightarrow> r) = row_deficits previous) (ConflictingCommitted ''deficits'')) (\<lambda>_.
     bindE (guardE (row_outputs row = row_outputs previous) (ConflictingCommitted ''outputs'')) (\<lambda>_.
     bindE (guardE (row_availability row = row_availability previous) (ConflictingCommitted ''availability'')) (\<lambda>_.
     bindE (guardE (row_observations row = row_observations previous) (ConflictingCommitted ''observations'')) (\<lambda>_.
     guardE (same_dict (row_extra row) (row_extra previous)) (ConflictingCommitted ''result data''))))))))"

definition payload :: "'j campaign_store \<Rightarrow> stage \<Rightarrow> 'j row \<Rightarrow> string \<Rightarrow> string \<Rightarrow> 'j stage_receipt" where
  "payload S s row h now = \<lparr>rc_format = ''campaign-stage-receipt-v1'', rc_declaration = s_declaration S,
     rc_id = stage_id s, rc_kind = stage_kind (body s), rc_scope = stage_scope s, rc_requires = requires s,
     rc_input = h, rc_state = row_state row, rc_outcome = row_outcome row,
     rc_reason = (case row_reason row of None \<Rightarrow> [] | Some r \<Rightarrow> r),
     rc_deficits = (case row_deficits row of None \<Rightarrow> [] | Some r \<Rightarrow> r), rc_outputs = row_outputs row,
     rc_availability = row_availability row, rc_observations = row_observations row,
     rc_verified_at = now, rc_data = row_extra row\<rparr>"

section \<open>Writing\<close>

text \<open>
  The temporary file of \<open>mkstemp\<close> is created empty and then filled: until it is complete its bytes
  are not a record. \<open>os.link\<close> fails when the path exists.
\<close>

definition atomic :: "location \<Rightarrow> 'j campaign_file \<Rightarrow> string \<Rightarrow> ('j, unit) store_program" where
  "atomic loc c tmp = bind_io (act (Put (TempOf loc tmp) Broken)) (\<lambda>_.
     bind_io (act (Put (TempOf loc tmp) c)) (\<lambda>_. act (Rename (TempOf loc tmp) loc)))"

fun parent_dirs :: "location \<Rightarrow> (location, 'j campaign_file) action list" where
  "parent_dirs (ReceiptAt i h) = [Put ReceiptsDir Directory]"
| "parent_dirs _ = []"

definition replayed :: "'j campaign_file \<Rightarrow> 'j campaign_file \<Rightarrow> store_error + 'j campaign_file" where
  "replayed previous c = (if previous = Broken \<or> previous = Directory then Inl UnreadableRecord
     else if previous \<noteq> c then Inl ConflictingReceipt else Inr previous)"

definition publish_immutable :: "location \<Rightarrow> 'j campaign_file \<Rightarrow> string \<Rightarrow> ('j, 'j campaign_file) store_program" where
  "publish_immutable loc c tmp =
     bind_io (for_io act (parent_dirs loc)) (\<lambda>_.
     bind_io (act (Put (TempOf loc tmp) Broken)) (\<lambda>_.
     bind_io (act (Put (TempOf loc tmp) c)) (\<lambda>_.
     bind_io (look (\<lambda>d. Inr (map_of d loc))) (\<lambda>found. case found of
       None \<Rightarrow> bind_io (act (Put loc c)) (\<lambda>_. bind_io (act (Unlink (TempOf loc tmp))) (\<lambda>_. return_io c))
     | Some previous \<Rightarrow> bind_io (act (Unlink (TempOf loc tmp))) (\<lambda>_. lift_io (replayed previous c))))))"

fun read_index :: "'j campaign_store \<Rightarrow> 'j campaign_file option \<Rightarrow> store_error + 'j campaign_index option" where
  "read_index S None = Inr None"
| "read_index S (Some (IndexFile ix signature)) = bindE (valid_index S ix (Some signature)) (\<lambda>_. Inr (Some ix))"
| "read_index S (Some _) = Inl UnreadableRecord"

definition read_campaign :: "'j campaign_store \<Rightarrow> 'j campaign_dir \<Rightarrow> store_error + 'j campaign_index option" where
  "read_campaign S d = read_index S (map_of d StateJson)"

definition save :: "'j campaign_store \<Rightarrow> 'j campaign_index \<Rightarrow> string \<Rightarrow> ('j, unit) store_program" where
  "save S ix tmp =
     bind_io (lift_io (valid_index S ix None)) (\<lambda>_. let signed = IndexFile ix (index_digest S ix) in
     bind_io (look (\<lambda>d. Inr (map_of d StateJson))) (\<lambda>found.
     if found = Some signed then return_io ()
     else bind_io (lift_io (read_index S found)) (\<lambda>_. atomic StateJson signed tmp)))"

definition stamped :: "'j row \<Rightarrow> string option \<Rightarrow> string option \<Rightarrow> 'j row" where
  "stamped row verified receipt =
     row\<lparr>row_verified_at := verified, row_verification := Some ''last_committed'', row_receipt := receipt\<rparr>"

fun content_verified_at :: "'j campaign_file \<Rightarrow> string option" where
  "content_verified_at (ReceiptFile rc signature) = Some (rc_verified_at rc)"
| "content_verified_at _ = None"

definition commit :: "'j campaign_store \<Rightarrow> stage \<Rightarrow> 'j row \<Rightarrow> string \<Rightarrow> string \<Rightarrow> ('j, 'j row) store_program" where
  "commit S s row now tmp =
     bind_io (lift_io (valid_row S row s)) (\<lambda>_.
     bind_io (lift_io (guardE (row_state row \<in> set committed_states) NotTerminal)) (\<lambda>_.
     bind_io (lift_io (case row_input row of None \<Rightarrow> Inl NoInput | Some h \<Rightarrow> bindE (guardE (is_sha256 h) InvalidSha) (\<lambda>_. Inr h))) (\<lambda>h.
     let path = ReceiptAt (stage_id s) h; rc = payload S s row h now in
     bind_io (look (\<lambda>d. Inr (map_of d path))) (\<lambda>found.
     if found \<noteq> None then
       bind_io (lift_io (read_receipt S found s h)) (\<lambda>previous.
       bind_io (lift_io (compare_committed row previous)) (\<lambda>_.
       return_io (stamped row (row_verified_at previous) (row_receipt previous))))
     else
       bind_io (lift_io (guardE (case rc_outcome rc of None \<Rightarrow> False | Some x \<Rightarrow> x \<in> set campaign_outcomes) UntypedOutcome)) (\<lambda>_.
       bind_io (publish_immutable path (ReceiptFile rc (receipt_digest S rc)) tmp) (\<lambda>committed.
       bind_io (look (\<lambda>d. read_receipt S (map_of d path) s h)) (\<lambda>previous.
       bind_io (lift_io (compare_committed row previous)) (\<lambda>_.
       return_io (stamped row (content_verified_at committed) (row_receipt previous))))))))))"

section \<open>Reconciliation\<close>

fun in_receipts :: "location \<Rightarrow> bool" where
  "in_receipts (ReceiptAt i h) \<longleftrightarrow> True"
| "in_receipts (TempOf loc tmp) \<longleftrightarrow> in_receipts loc"
| "in_receipts _ \<longleftrightarrow> False"

fun entry_path :: "location \<Rightarrow> string \<times> string" where
  "entry_path (ReceiptAt i h) = (i, h @ ''.json'')"
| "entry_path (TempOf loc tmp) = (fst (entry_path loc), ''.'' @ snd (entry_path loc) @ ''.'' @ tmp)"
| "entry_path _ = ([], [])"

definition discover_one :: "'j campaign_store \<Rightarrow> 'j campaign_dir \<Rightarrow> (string \<Rightarrow> 'j row option) \<Rightarrow> location
    \<Rightarrow> store_error + (string \<Rightarrow> 'j row option)" where
  "discover_one S d found loc = (case loc of
     ReceiptAt i h \<Rightarrow> (case by_id (s_stages S) i of None \<Rightarrow> Inl UnexpectedReceipt | Some s \<Rightarrow>
       bindE (read_receipt S (map_of d loc) s h) (\<lambda>record.
       if found i \<noteq> None then Inl (MultipleReceipts i) else Inr (found(i \<mapsto> record))))
   | _ \<Rightarrow> Inl UnexpectedReceipt)"

definition discover :: "'j campaign_store \<Rightarrow> 'j campaign_dir \<Rightarrow> store_error + (string \<Rightarrow> 'j row option)" where
  "discover S d = foldE (discover_one S d) Map.empty (sort_key entry_path (filter in_receipts (remdups (map fst d))))"

definition merge_row :: "'j row \<Rightarrow> 'j row \<Rightarrow> 'j row" where
  "merge_row existing receipt = receipt\<lparr>row_attempts := row_attempts existing,
     row_extra := merge_dict (row_extra existing) (row_extra receipt)\<rparr>"

definition lost_receipt :: "'j row \<Rightarrow> bool" where
  "lost_receipt row \<longleftrightarrow> row_receipt row \<noteq> None \<or> row_state row = ''COMPLETE''
     \<or> row_state row \<in> {''FAILED'', ''INCONCLUSIVE''} \<and> row_input row \<noteq> None"

definition agrees :: "'j row \<Rightarrow> 'j row \<Rightarrow> store_error + unit" where
  "agrees existing receipt = (let i = row_id existing in
     bindE (guardE (row_input existing = None \<or> row_input existing = row_input receipt) (IndexReceiptInput i)) (\<lambda>_.
     if row_receipt existing \<noteq> None then
       bindE (compare_committed existing receipt) (\<lambda>_.
       guardE (row_receipt existing = row_receipt receipt \<and> row_verified_at existing = row_verified_at receipt) (IndexReceipt i))
     else if row_state existing \<in> {''COMPLETE'', ''BLOCKED'', ''FAILED'', ''INCONCLUSIVE''}
       then compare_committed existing receipt
     else Inr ()))"

definition merge_stage :: "'j campaign_store \<Rightarrow> (string \<Rightarrow> 'j row option) \<Rightarrow> (string \<Rightarrow> 'j row option) \<Rightarrow> stage
    \<Rightarrow> store_error + (string \<Rightarrow> 'j row option)" where
  "merge_stage S discovered rows s = (let i = stage_id s in case rows i of None \<Rightarrow> Inl (UnknownStage i)
   | Some existing \<Rightarrow> (case discovered i of
       None \<Rightarrow> if lost_receipt existing then Inl (ReceiptMissing i) else Inr rows
     | Some receipt \<Rightarrow>
         bindE (input_sha S s (if requires s \<noteq> [] then rows else Map.empty)) (\<lambda>expected.
         bindE (guardE (row_input receipt = Some expected) (ReceiptInput i)) (\<lambda>_.
         bindE (agrees existing receipt) (\<lambda>_. Inr (rows(i \<mapsto> merge_row existing receipt)))))))"

definition rows_by_id :: "'j row list \<Rightarrow> string \<Rightarrow> 'j row option" where
  "rows_by_id rows = map_of (map (\<lambda>r. (row_id r, r)) rows)"

definition reconcile :: "'j campaign_store \<Rightarrow> 'j campaign_dir \<Rightarrow> 'j campaign_index \<Rightarrow> store_error + 'j campaign_index" where
  "reconcile S d ix =
     bindE (valid_index S ix None) (\<lambda>_.
     if map_of d ReceiptsDir = None then
       (case find (\<lambda>row. row_receipt row \<noteq> None
           \<or> row_state row \<in> {''COMPLETE'', ''FAILED'', ''INCONCLUSIVE''} \<and> row_input row \<noteq> None) (ix_rows ix) of
          Some row \<Rightarrow> Inl (ReceiptMissing (row_id row)) | None \<Rightarrow> Inr ix)
     else bindE (discover S d) (\<lambda>discovered.
       case ordered_stages (s_stages S) of Inl e \<Rightarrow> Inl PlanOrder | Inr ordered \<Rightarrow>
       bindE (foldE (merge_stage S discovered) (rows_by_id (ix_rows ix)) ordered) (\<lambda>rows.
       bindE (mapE (\<lambda>s. case rows (stage_id s) of None \<Rightarrow> Inl (UnknownStage (stage_id s)) | Some row \<Rightarrow> Inr row) (s_stages S)) (\<lambda>rs.
       Inr (ix\<lparr>ix_rows := rs\<rparr>)))))"

section \<open>Approvals\<close>

definition read_approval :: "'j campaign_store \<Rightarrow> stage \<Rightarrow> string \<Rightarrow> 'j campaign_file option
    \<Rightarrow> store_error + 'j approval_receipt option" where
  "read_approval S s binding c = bindE (guardE (is_sha256 binding) InvalidSha) (\<lambda>_. case c of
     None \<Rightarrow> Inr None
   | Some (ApprovalFile ap signature) \<Rightarrow>
       bindE (guardE (is_sha256 signature) InvalidSha) (\<lambda>_.
       bindE (guardE (signature = approval_digest S ap \<and> ap_format ap = ''campaign-approval-receipt-v1''
         \<and> ap_declaration ap = s_declaration S \<and> ap_id ap = stage_id s \<and> ap_binding ap = binding
         \<and> ap_decision ap \<in> {''approve'', ''reject''}) InvalidApproval) (\<lambda>_.
       bindE (guardE (is_utc S (ap_verified_at ap)) InvalidTimestamp) (\<lambda>_. Inr (Some ap))))
   | Some _ \<Rightarrow> Inl UnreadableRecord)"

definition same_decision :: "'j approval_receipt \<Rightarrow> string \<Rightarrow> 'j \<Rightarrow> store_error + 'j approval_receipt" where
  "same_decision ap decision identities =
     (if ap_decision ap \<noteq> decision \<or> ap_identities ap \<noteq> identities then Inl ConflictingApproval else Inr ap)"

definition approval :: "'j campaign_store \<Rightarrow> stage \<Rightarrow> string \<Rightarrow> string \<Rightarrow> string option \<Rightarrow> 'j \<Rightarrow> string \<Rightarrow> string
    \<Rightarrow> ('j, 'j approval_receipt) store_program" where
  "approval S s binding decision note identities now tmp = (let path = ApprovalAt (stage_id s) binding in
     bind_io (lift_io (guardE (stage_kind (body s) = ''approval'' \<and> decision \<in> {''approve'', ''reject''}) InvalidDecision)) (\<lambda>_.
     bind_io (look (\<lambda>d. read_approval S s binding (map_of d path))) (\<lambda>old. case old of
       Some ap \<Rightarrow> lift_io (same_decision ap decision identities)
     | None \<Rightarrow>
         let ap = \<lparr>ap_format = ''campaign-approval-receipt-v1'', ap_declaration = s_declaration S,
           ap_id = stage_id s, ap_binding = binding, ap_decision = decision, ap_note = note,
           ap_identities = identities, ap_verified_at = now\<rparr> in
         bind_io (publish_immutable path (ApprovalFile ap (approval_digest S ap)) tmp) (\<lambda>_.
         bind_io (look (\<lambda>d. read_approval S s binding (map_of d path))) (\<lambda>old. case old of
           None \<Rightarrow> raise_io InvalidApproval
         | Some ap \<Rightarrow> lift_io (same_decision ap decision identities))))))"

end
