(* ===== verification/Campaign_Reconcile.thy ===== *)
theory Campaign_Reconcile
  imports Campaign_Store
begin

text \<open>
  What reconciliation of a campaign index with its receipts decides: the pass over the ordered
  stages is a condition on each stage alone, its result is supported by receipts all the way up
  the requirements, and a second pass changes nothing.
\<close>

section \<open>Validation and comparison as propositions\<close>

lemma foldE_units [simp]: "foldE (\<lambda>_. f) () xs = Inr () \<longleftrightarrow> (\<forall>x \<in> set xs. f x = Inr ())"
  by (induction xs) auto

lemma mapE_cong: "(\<And>x. x \<in> set xs \<Longrightarrow> f x = g x) \<Longrightarrow> mapE f xs = mapE g xs"
  by (induction xs) simp_all

lemma mapE_mem:
  assumes "mapE f xs = Inr ys" and "x \<in> set xs"
  obtains y where "f x = Inr y"
  using assms by (induction xs arbitrary: ys) auto

definition same_result :: "'j row \<Rightarrow> 'j row \<Rightarrow> bool" where
  "same_result row previous \<longleftrightarrow> row_state row = row_state previous \<and> row_outcome row = row_outcome previous
     \<and> Some (case row_reason row of None \<Rightarrow> [] | Some r \<Rightarrow> r) = row_reason previous
     \<and> Some (case row_deficits row of None \<Rightarrow> [] | Some r \<Rightarrow> r) = row_deficits previous
     \<and> row_outputs row = row_outputs previous \<and> row_availability row = row_availability previous
     \<and> row_observations row = row_observations previous
     \<and> map_of (row_extra row) = map_of (row_extra previous)"

lemma compare_committed_iff [simp]: "compare_committed row previous = Inr () \<longleftrightarrow> same_result row previous"
  by (simp add: compare_committed_def same_result_def same_dict_iff)

definition row_ok :: "'j campaign_store \<Rightarrow> 'j row \<Rightarrow> stage \<Rightarrow> bool" where
  "row_ok S row s \<longleftrightarrow> valid_row S row s = Inr ()"

lemmas row_checks = row_ok_def valid_row_def Let_def

lemma row_okD:
  assumes "row_ok S row s"
  shows row_ok_inventory: "in_inventory row s" and row_ok_input: "row_input row = Some h \<Longrightarrow> is_sha256 h"
    and row_ok_receipt: "row_receipt row = Some p \<Longrightarrow> p = receipt_reference (stage_id s) (row_input row)"
  using assms by (simp_all add: row_checks optional_ok_def)

lemma row_ok_id: "row_ok S row s \<Longrightarrow> row_id row = stage_id s"
  by (drule row_ok_inventory) (simp add: in_inventory_def)

lemma valid_rows_iff:
  "length rows = length ss \<Longrightarrow> valid_rows S rows ss = Inr () \<longleftrightarrow> list_all2 (row_ok S) rows ss"
  by (induction rows ss rule: list_induct2) (simp_all add: row_ok_def)

definition index_ok :: "'j campaign_store \<Rightarrow> 'j campaign_index \<Rightarrow> bool" where
  "index_ok S ix \<longleftrightarrow> ix_format ix = ''campaign-state-v1'' \<and> ix_id ix = campaign_id (s_plan S)
     \<and> ix_declaration ix = s_declaration S \<and> list_all2 (row_ok S) (ix_rows ix) (s_stages S)"

lemma valid_index_iff: "valid_index S ix None = Inr () \<longleftrightarrow> index_ok S ix"
proof (cases "length (ix_rows ix) = length (s_stages S)")
  case True
  then show ?thesis by (simp add: valid_index_def index_ok_def valid_rows_iff)
next
  case False
  then have "\<not> list_all2 (row_ok S) (ix_rows ix) (s_stages S)" by (blast dest: list_all2_lengthD)
  with False show ?thesis by (simp add: valid_index_def index_ok_def)
qed

definition plan_ok :: "'j campaign_store \<Rightarrow> bool" where
  "plan_ok S \<longleftrightarrow> distinct (map stage_id (s_stages S)) \<and> requirements_known (s_stages S)
     \<and> (\<exists>out. ordered_stages (s_stages S) = Inr out)"

lemma plan_okI: "valid_plan w (s_plan S) = Inr () \<Longrightarrow> plan_ok S"
  unfolding plan_ok_def using valid_plan_Inr by blast

lemma plan_okD:
  assumes "plan_ok S"
  shows plan_distinct: "distinct (map stage_id (s_stages S))"
    and plan_requires: "s \<in> set (s_stages S) \<Longrightarrow> i \<in> set (requires s) \<Longrightarrow> \<exists>t \<in> set (s_stages S). stage_id t = i"
  using assms by (auto simp: plan_ok_def requirements_known_def image_iff eq_commute)

lemma plan_order:
  assumes "plan_ok S"
  obtains out where "ordered_stages (s_stages S) = Inr out" and "set out = set (s_stages S)"
    and "distinct (map stage_id out)" and "deps_first [] out"
proof -
  from assms obtain out where out: "ordered_stages (s_stages S) = Inr out" by (auto simp: plan_ok_def)
  then have perm: "mset out = mset (s_stages S)" "deps_first [] out"
    by (auto simp: ordered_stages_def dest: ordered_from_perm)
  then have "mset (map stage_id out) = mset (map stage_id (s_stages S))" by simp
  then have "distinct (map stage_id out)" using plan_distinct [OF assms] by (metis mset_eq_imp_distinct_iff)
  then show thesis using that out perm mset_eq_setD by blast
qed

lemma other_stage: "s \<in> set ss \<Longrightarrow> distinct (map stage_id (t # ss)) \<Longrightarrow> stage_id s \<noteq> stage_id t"
  using imageI [of s "set ss" stage_id] by (metis distinct.simps(2) list.set_map list.simps(9))

lemma rows_by_id_stage:
  assumes "list_all2 (row_ok S) rows ss" and "distinct (map stage_id ss)" and "s \<in> set ss"
  obtains r where "rows_by_id rows (stage_id s) = Some r" and "row_ok S r s"
  using assms
proof (induction rows ss arbitrary: thesis rule: list_all2_induct)
  case Nil
  then show ?case by simp
next
  case (Cons r rows t ss)
  have id: "row_id r = stage_id t" by (rule row_ok_id) (rule Cons.hyps(1))
  show ?case
  proof (cases "s = t")
    case True
    with Cons.prems(1) [of r] Cons.hyps(1) id show ?thesis by (simp add: rows_by_id_def)
  next
    case False
    with Cons.prems(3) have "s \<in> set ss" by simp
    moreover from this Cons.prems(2) have "stage_id s \<noteq> stage_id t" by (rule other_stage)
    moreover note id
    ultimately show ?thesis using Cons.IH [of thesis] Cons.prems(1,2) by (auto simp: rows_by_id_def)
  qed
qed

lemma rows_by_id_map:
  assumes "distinct (map stage_id ss)" and "s \<in> set ss" and "\<And>t. t \<in> set ss \<Longrightarrow> row_id (f t) = stage_id t"
  shows "rows_by_id (map f ss) (stage_id s) = Some (f s)"
proof -
  have "map (\<lambda>r. (row_id r, r)) (map f ss) = map (\<lambda>t. (stage_id t, f t)) ss" using assms(3) by simp
  moreover have "map_of (map (\<lambda>t. (stage_id t, f t)) ss) (stage_id s) = Some (f s)"
    by (rule map_of_is_SomeI) (use assms(1,2) in \<open>auto simp: comp_def\<close>)
  ultimately show ?thesis by (simp only: rows_by_id_def)
qed

section \<open>Input digests\<close>

lemma dependency_cong: "rows name = rows' name \<Longrightarrow> dependency S rows name = dependency S rows' name"
  by (simp add: dependency_def)

lemma input_sha_cong:
  assumes "\<And>i. i \<in> set (requires s) \<Longrightarrow> rows i = rows' i"
  shows "input_sha S s rows = input_sha S s rows'"
proof -
  have "mapE (dependency S rows) (sort (requires s)) = mapE (dependency S rows') (sort (requires s))"
    by (rule mapE_cong) (rule dependency_cong, simp add: assms)
  then show ?thesis by (simp add: input_sha_def)
qed

lemma input_sha_root: "input_sha S s (if requires s \<noteq> [] then rows else Map.empty) = input_sha S s rows"
  by (rule input_sha_cong) (auto split: if_splits)

lemma input_sha_requires:
  assumes "input_sha S s rows = Inr h" and "i \<in> set (requires s)"
  obtains dep where "rows i = Some dep" and "row_state dep = ''COMPLETE''" and "row_input dep \<noteq> None"
proof -
  from assms(1) obtain deps where "mapE (dependency S rows) (sort (requires s)) = Inr deps"
    by (auto simp: input_sha_def)
  then obtain y where "dependency S rows i = Inr y"
    using assms(2) by (auto elim: mapE_mem)
  then show thesis using that by (auto simp: dependency_def split: option.splits)
qed

section \<open>The pass over the stages\<close>

text \<open>The row a stage ends with, and what the pass requires of it.\<close>

definition merged :: "(string \<Rightarrow> 'j row option) \<Rightarrow> (string \<Rightarrow> 'j row option) \<Rightarrow> string \<Rightarrow> 'j row option" where
  "merged discovered rows i = (case rows i of None \<Rightarrow> None | Some existing \<Rightarrow>
     (case discovered i of None \<Rightarrow> Some existing | Some receipt \<Rightarrow> Some (merge_row existing receipt)))"

definition stage_agrees :: "'j campaign_store \<Rightarrow> (string \<Rightarrow> 'j row option) \<Rightarrow> (string \<Rightarrow> 'j row option) \<Rightarrow> stage \<Rightarrow> bool" where
  "stage_agrees S discovered rows s \<longleftrightarrow> (case rows (stage_id s) of None \<Rightarrow> False | Some existing \<Rightarrow>
     (case discovered (stage_id s) of None \<Rightarrow> \<not> lost_receipt existing | Some receipt \<Rightarrow>
        (\<exists>h. input_sha S s (merged discovered rows) = Inr h \<and> row_input receipt = Some h)
        \<and> agrees existing receipt = Inr ()))"

lemma merge_stage_iff:
  assumes "\<And>i. i \<in> set (requires s) \<Longrightarrow> now i = merged discovered rows i" and "now (stage_id s) = rows (stage_id s)"
  shows "merge_stage S discovered now s = Inr out \<longleftrightarrow> stage_agrees S discovered rows s
    \<and> out = now(stage_id s := merged discovered rows (stage_id s))"
proof -
  have sha: "input_sha S s (if requires s \<noteq> [] then now else Map.empty) = input_sha S s (merged discovered rows)"
    using input_sha_root input_sha_cong assms(1) by metis
  show ?thesis
    unfolding merge_stage_def stage_agrees_def sha Let_def assms(2)
    using assms(2) by (auto simp: merged_def fun_upd_idem_iff split: option.splits)
qed

lemma merge_pass_iff:
  assumes "deps_first completed out" and "distinct (completed @ map stage_id out)"
  shows "foldE (merge_stage S discovered) (\<lambda>i. if i \<in> set completed then merged discovered rows i else rows i) out = Inr final
    \<longleftrightarrow> (\<forall>s \<in> set out. stage_agrees S discovered rows s)
      \<and> final = (\<lambda>i. if i \<in> set completed \<union> stage_id ` set out then merged discovered rows i else rows i)"
  using assms
proof (induction out arbitrary: completed)
  case Nil
  show ?case by auto
next
  case (Cons s out)
  let ?now = "\<lambda>i. if i \<in> set completed then merged discovered rows i else rows i"
  let ?next = "\<lambda>i. if i \<in> set (stage_id s # completed) then merged discovered rows i else rows i"
  have step: "merge_stage S discovered ?now s = Inr now' \<longleftrightarrow> stage_agrees S discovered rows s \<and> now' = ?next" for now'
  proof -
    have "?now(stage_id s := merged discovered rows (stage_id s)) = ?next" by auto
    moreover have "i \<in> set (requires s) \<Longrightarrow> ?now i = merged discovered rows i" for i
      using Cons.prems(1) by auto
    ultimately show ?thesis
      using merge_stage_iff [of s ?now discovered rows S now'] Cons.prems(2) by auto
  qed
  have "foldE (merge_stage S discovered) ?now (s # out) = Inr final
      \<longleftrightarrow> stage_agrees S discovered rows s \<and> foldE (merge_stage S discovered) ?next out = Inr final"
    by (auto simp: step)
  also have "foldE (merge_stage S discovered) ?next out = Inr final \<longleftrightarrow> (\<forall>s \<in> set out. stage_agrees S discovered rows s)
      \<and> final = (\<lambda>i. if i \<in> set (stage_id s # completed) \<union> stage_id ` set out then merged discovered rows i else rows i)"
    by (rule Cons.IH) (use Cons.prems in auto)
  finally show ?case by (simp add: Un_assoc insert_commute)
qed

section \<open>The receipts of a directory\<close>

definition receipt_at :: "'j campaign_store \<Rightarrow> 'j campaign_dir \<Rightarrow> string \<Rightarrow> string \<Rightarrow> 'j row option" where
  "receipt_at S d i h = (case by_id (s_stages S) i of None \<Rightarrow> None
   | Some s \<Rightarrow> (case read_receipt S (map_of d (ReceiptAt i h)) s h of Inl e \<Rightarrow> None | Inr r \<Rightarrow> Some r))"

lemma receipt_at_present: "receipt_at S d i h = Some r \<Longrightarrow> map_of d (ReceiptAt i h) \<noteq> None"
  by (auto simp: receipt_at_def read_receipt_def split: option.splits)

lemma discover_one_iff:
  "discover_one S d found loc = Inr found' \<longleftrightarrow>
     (\<exists>i h r. loc = ReceiptAt i h \<and> receipt_at S d i h = Some r \<and> found i = None \<and> found' = found(i \<mapsto> r))"
  by (cases loc) (auto simp: discover_one_def receipt_at_def split: option.splits sum.splits)

lemma discover_fold:
  assumes "foldE (discover_one S d) found locs = Inr out"
  shows "(\<forall>loc \<in> set locs. \<exists>i h r. loc = ReceiptAt i h \<and> receipt_at S d i h = Some r \<and> found i = None \<and> out i = Some r)
    \<and> (\<forall>i. (\<forall>h. ReceiptAt i h \<notin> set locs) \<longrightarrow> out i = found i)
    \<and> (\<forall>i h h'. ReceiptAt i h \<in> set locs \<longrightarrow> ReceiptAt i h' \<in> set locs \<longrightarrow> h = h')"
  using assms
proof (induction locs arbitrary: found)
  case Nil
  then show ?case by simp
next
  case (Cons loc locs)
  from Cons.prems obtain found' where one: "discover_one S d found loc = Inr found'"
    and rest: "foldE (discover_one S d) found' locs = Inr out" by auto
  from one obtain i h r where loc: "loc = ReceiptAt i h" "receipt_at S d i h = Some r" "found i = None"
    and found': "found' = found(i \<mapsto> r)" by (auto simp: discover_one_iff)
  note ih = Cons.IH [OF rest]
  have none: "ReceiptAt i h' \<notin> set locs" for h'
    using ih found' by fastforce
  have "out i = Some r" using ih none found' by simp
  then show ?case using ih loc found' none by (auto split: if_splits)
qed

lemma discover_total:
  assumes "\<forall>loc \<in> set locs. \<exists>i h. loc = ReceiptAt i h \<and> receipt_at S d i h \<noteq> None \<and> found i = None"
    and "\<forall>i h h'. ReceiptAt i h \<in> set locs \<longrightarrow> ReceiptAt i h' \<in> set locs \<longrightarrow> h = h'" and "distinct locs"
  shows "\<exists>out. foldE (discover_one S d) found locs = Inr out"
  using assms
proof (induction locs arbitrary: found)
  case Nil
  then show ?case by simp
next
  case (Cons loc locs)
  from Cons.prems(1) obtain i h r where loc: "loc = ReceiptAt i h" "receipt_at S d i h = Some r" "found i = None" by auto
  have other: "ReceiptAt i h' \<notin> set locs" for h' using Cons.prems(2,3) loc(1) by auto
  have "\<exists>out. foldE (discover_one S d) (found(i \<mapsto> r)) locs = Inr out"
  proof (rule Cons.IH)
    show "\<forall>loc \<in> set locs. \<exists>j h. loc = ReceiptAt j h \<and> receipt_at S d j h \<noteq> None \<and> (found(i \<mapsto> r)) j = None"
      using Cons.prems(1) other by fastforce
  qed (use Cons.prems in auto)
  then show ?case using loc by (simp add: discover_one_iff [THEN iffD2])
qed

text \<open>The receipts of a directory are those found: one readable receipt per stage, nothing else.\<close>

definition receipts_are :: "'j campaign_store \<Rightarrow> 'j campaign_dir \<Rightarrow> (string \<Rightarrow> 'j row option) \<Rightarrow> bool" where
  "receipts_are S d found \<longleftrightarrow>
     (\<forall>loc. map_of d loc \<noteq> None \<longrightarrow> in_receipts loc \<longrightarrow> (\<exists>i h r. loc = ReceiptAt i h \<and> receipt_at S d i h = Some r \<and> found i = Some r))
     \<and> (\<forall>i r. found i = Some r \<longrightarrow> (\<exists>h. receipt_at S d i h = Some r))
     \<and> (\<forall>i h h'. map_of d (ReceiptAt i h) \<noteq> None \<longrightarrow> map_of d (ReceiptAt i h') \<noteq> None \<longrightarrow> h = h')"

lemma receipts_areD:
  assumes "receipts_are S d found"
  shows receipts_are_file: "map_of d loc \<noteq> None \<Longrightarrow> in_receipts loc \<Longrightarrow>
      \<exists>i h r. loc = ReceiptAt i h \<and> receipt_at S d i h = Some r \<and> found i = Some r"
    and receipts_are_found: "found i = Some r \<Longrightarrow> \<exists>h. receipt_at S d i h = Some r"
    and receipts_are_unique: "map_of d (ReceiptAt i h) \<noteq> None \<Longrightarrow> map_of d (ReceiptAt i h') \<noteq> None \<Longrightarrow> h = h'"
  using assms unfolding receipts_are_def by blast+

lemma listed: "loc \<in> set (sort_key entry_path (filter in_receipts (remdups (map fst d)))) \<longleftrightarrow>
    in_receipts loc \<and> map_of d loc \<noteq> None"
  by (auto simp: map_of_eq_None_iff)

lemma discover_iff: "discover S d = Inr found \<longleftrightarrow> receipts_are S d found"
proof
  let ?locs = "sort_key entry_path (filter in_receipts (remdups (map fst d)))"
  assume "discover S d = Inr found"
  then have fold: "foldE (discover_one S d) Map.empty ?locs = Inr found" by (simp add: discover_def)
  note facts = discover_fold [OF fold, unfolded listed]
  have "\<exists>i h r. loc = ReceiptAt i h \<and> receipt_at S d i h = Some r \<and> found i = Some r"
    if "map_of d loc \<noteq> None" "in_receipts loc" for loc
    using facts listed that by blast
  note present = this
  show "receipts_are S d found"
    unfolding receipts_are_def
  proof (intro conjI allI impI)
    fix i r assume "found i = Some r"
    then obtain h where "map_of d (ReceiptAt i h) \<noteq> None" using facts by fastforce
    with facts have "receipt_at S d i h = found i" by (metis in_receipts.simps(1) location.inject(1) listed)
    with \<open>found i = Some r\<close> show "\<exists>h. receipt_at S d i h = Some r" by metis
  next
    fix loc assume "map_of d loc \<noteq> None" "in_receipts loc"
    then show "\<exists>i h r. loc = ReceiptAt i h \<and> receipt_at S d i h = Some r \<and> found i = Some r" by (rule present)
  next
    fix i h h' assume "map_of d (ReceiptAt i h) \<noteq> None" "map_of d (ReceiptAt i h') \<noteq> None"
    with facts show "h = h'" by simp
  qed
next
  let ?locs = "sort_key entry_path (filter in_receipts (remdups (map fst d)))"
  assume r: "receipts_are S d found"
  have "\<exists>out. foldE (discover_one S d) Map.empty ?locs = Inr out"
  proof (rule discover_total)
    show "\<forall>loc \<in> set ?locs. \<exists>i h. loc = ReceiptAt i h \<and> receipt_at S d i h \<noteq> None \<and> Map.empty i = None"
    proof
      fix loc assume "loc \<in> set ?locs"
      then have "in_receipts loc" "map_of d loc \<noteq> None" unfolding listed by simp_all
      with receipts_are_file [OF r] show "\<exists>i h. loc = ReceiptAt i h \<and> receipt_at S d i h \<noteq> None \<and> Map.empty i = None"
        by fastforce
    qed
    show "\<forall>i h h'. ReceiptAt i h \<in> set ?locs \<longrightarrow> ReceiptAt i h' \<in> set ?locs \<longrightarrow> h = h'"
      unfolding listed using receipts_are_unique [OF r] by blast
  qed simp
  then obtain out where fold: "foldE (discover_one S d) Map.empty ?locs = Inr out" by blast
  note facts = discover_fold [OF fold, unfolded listed]
  have "out i = found i" for i
  proof (cases "\<exists>h. map_of d (ReceiptAt i h) \<noteq> None")
    case True
    then obtain h where h: "map_of d (ReceiptAt i h) \<noteq> None" by blast
    then have "ReceiptAt i h \<in> set ?locs" unfolding listed by simp
    then obtain x where "receipt_at S d i h = Some x" "out i = Some x" using facts by blast
    moreover from receipts_are_file [OF r h] have "found i = receipt_at S d i h" by auto
    ultimately show ?thesis by simp
  next
    case False
    then have "found i = None"
      using receipts_are_found [OF r] receipt_at_present by (cases "found i") blast+
    with False facts show ?thesis by (simp add: listed)
  qed
  with fold show "discover S d = Inr found" by (auto simp: discover_def)
qed

section \<open>What a reconciliation is\<close>

definition settled :: "'j campaign_store \<Rightarrow> (string \<Rightarrow> 'j row option) \<Rightarrow> 'j campaign_index \<Rightarrow> 'j campaign_index" where
  "settled S found ix = ix\<lparr>ix_rows := map (\<lambda>s. the (merged found (rows_by_id (ix_rows ix)) (stage_id s))) (s_stages S)\<rparr>"

lemma index_row:
  assumes "plan_ok S" and "index_ok S ix" and "s \<in> set (s_stages S)"
  obtains r where "rows_by_id (ix_rows ix) (stage_id s) = Some r" and "row_ok S r s"
  using rows_by_id_stage [OF _ plan_distinct [OF assms(1)] assms(3)] assms(2) by (auto simp: index_ok_def)

lemma merged_present: "rows i \<noteq> None \<Longrightarrow> merged found rows i \<noteq> None"
  by (auto simp: merged_def split: option.splits)

lemma foldE_all:
  assumes "plan_ok S" and "ordered_stages (s_stages S) = Inr out" and "set out = set (s_stages S)"
    and "distinct (map stage_id out)" and "deps_first [] out"
  shows "foldE (merge_stage S found) rows out = Inr final \<longleftrightarrow> (\<forall>s \<in> set (s_stages S). stage_agrees S found rows s)
    \<and> final = (\<lambda>i. if i \<in> stage_id ` set (s_stages S) then merged found rows i else rows i)"
  using merge_pass_iff [of "[]" out S found rows final] assms by simp

lemma reconcile_iff:
  assumes plan: "plan_ok S" and dir: "map_of d ReceiptsDir \<noteq> None"
  shows "reconcile S d ix = Inr ix' \<longleftrightarrow> index_ok S ix
    \<and> (\<exists>found. receipts_are S d found \<and> (\<forall>s \<in> set (s_stages S). stage_agrees S found (rows_by_id (ix_rows ix)) s)
        \<and> ix' = settled S found ix)"
proof (cases "index_ok S ix")
  case False
  then show ?thesis by (simp add: reconcile_def valid_index_iff)
next
  case True
  let ?rows = "rows_by_id (ix_rows ix)"
  obtain out where out: "ordered_stages (s_stages S) = Inr out" "set out = set (s_stages S)"
      "distinct (map stage_id out)" "deps_first [] out"
    by (rule plan_order [OF plan])
  note pass = foldE_all [OF plan out]
  have lookups: "mapE (\<lambda>s. case if stage_id s \<in> stage_id ` set (s_stages S) then merged found ?rows (stage_id s) else ?rows (stage_id s) of
      None \<Rightarrow> Inl (UnknownStage (stage_id s)) | Some row \<Rightarrow> Inr row) (s_stages S)
    = Inr (map (\<lambda>s. the (merged found ?rows (stage_id s))) (s_stages S))" for found
  proof (rule mapE_eq_Inr_map)
    fix s assume s: "s \<in> set (s_stages S)"
    obtain r where "?rows (stage_id s) = Some r" by (rule index_row [OF plan True s])
    then have "merged found ?rows (stage_id s) \<noteq> None" by (intro merged_present) simp
    with s show "(case if stage_id s \<in> stage_id ` set (s_stages S) then merged found ?rows (stage_id s) else ?rows (stage_id s) of
      None \<Rightarrow> Inl (UnknownStage (stage_id s)) | Some row \<Rightarrow> Inr row) = Inr (the (merged found ?rows (stage_id s)))"
      by auto
  qed
  show ?thesis
    using True dir by (auto simp: reconcile_def valid_index_iff out(1) discover_iff pass lookups settled_def)
qed

lemma reconcile_nothing:
  assumes "map_of d ReceiptsDir = None"
  shows "reconcile S d ix = Inr ix' \<longleftrightarrow> index_ok S ix \<and> ix' = ix
    \<and> (\<forall>row \<in> set (ix_rows ix). row_receipt row = None
        \<and> (row_state row \<in> {''COMPLETE'', ''FAILED'', ''INCONCLUSIVE''} \<longrightarrow> row_input row = None))"
proof -
  let ?lost = "\<lambda>row. row_receipt row \<noteq> None
    \<or> row_state row \<in> {''COMPLETE'', ''FAILED'', ''INCONCLUSIVE''} \<and> row_input row \<noteq> None"
  have "reconcile S d ix = Inr ix' \<longleftrightarrow> index_ok S ix \<and> find ?lost (ix_rows ix) = None \<and> ix' = ix"
    by (cases "find ?lost (ix_rows ix)") (auto simp: reconcile_def valid_index_iff assms)
  then show ?thesis unfolding find_None_all by auto
qed

section \<open>Evidence\<close>

text \<open>
  A row is supported by a receipt when the receipt is on disk under the row's input digest, is
  authentic and belongs to this declaration and stage, carries the row's result, and when the
  input digest is that of the requirements as they are in the same index.
\<close>

definition supported :: "'j campaign_store \<Rightarrow> 'j campaign_dir \<Rightarrow> 'j campaign_index \<Rightarrow> stage \<Rightarrow> 'j row \<Rightarrow> bool" where
  "supported S d ix s r \<longleftrightarrow> (\<exists>h rc.
     row_input r = Some h \<and> map_of d (ReceiptAt (stage_id s) h) = Some (ReceiptFile rc (receipt_digest S rc))
     \<and> rc_declaration rc = s_declaration S \<and> rc_id rc = stage_id s \<and> rc_input rc = h
     \<and> row_state r = rc_state rc \<and> row_outcome r = rc_outcome rc \<and> row_outputs r = rc_outputs rc
     \<and> row_availability r = rc_availability rc \<and> row_verified_at r = Some (rc_verified_at rc)
     \<and> input_sha S s (rows_by_id (ix_rows ix)) = Inr h)"

lemma unique_pairs: "reject_duplicate_keys pairs = Inr out \<longleftrightarrow> out = pairs \<and> distinct (map fst pairs)"
  using reject_duplicate_keys_fold [of "[]" pairs out] by (simp add: reject_duplicate_keys_def)

lemma read_receipt_Inr:
  assumes "read_receipt S c s h = Inr r"
  obtains rc where "c = Some (ReceiptFile rc (receipt_digest S rc))" and "r = receipt_row rc"
    and "rc_declaration rc = s_declaration S" and "rc_id rc = stage_id s" and "rc_input rc = h"
    and "rc_state rc \<in> set committed_states" and "row_ok S r s" and "distinct (map fst (rc_data rc))"
  using assms by (auto simp: read_receipt_def row_ok_def unique_pairs split: option.splits campaign_file.splits sum.splits)

lemma receipt_at_Some:
  assumes "plan_ok S" and "s \<in> set (s_stages S)"
  shows "receipt_at S d (stage_id s) h = Some r \<longleftrightarrow> read_receipt S (map_of d (ReceiptAt (stage_id s) h)) s h = Inr r"
proof -
  have "by_id (s_stages S) (stage_id s) = Some s"
    using by_id_Some [OF plan_distinct [OF assms(1)]] assms(2) by simp
  then show ?thesis by (simp add: receipt_at_def split: sum.splits)
qed

lemma merge_row_id [simp]: "row_id (merge_row e r) = row_id r"
  by (simp add: merge_row_def)

lemma settled_rows:
  assumes plan: "plan_ok S" and ok: "index_ok S ix" and found: "receipts_are S d found" and s: "s \<in> set (s_stages S)"
  shows "rows_by_id (ix_rows (settled S found ix)) (stage_id s) = merged found (rows_by_id (ix_rows ix)) (stage_id s)"
proof -
  let ?f = "\<lambda>s. the (merged found (rows_by_id (ix_rows ix)) (stage_id s))"
  have ids: "row_id (?f t) = stage_id t \<and> merged found (rows_by_id (ix_rows ix)) (stage_id t) = Some (?f t)"
    if t: "t \<in> set (s_stages S)" for t
  proof -
    obtain e where e: "rows_by_id (ix_rows ix) (stage_id t) = Some e" "row_ok S e t" by (rule index_row [OF plan ok t])
    show ?thesis
    proof (cases "found (stage_id t)")
      case None
      with e row_ok_id show ?thesis by (simp add: merged_def)
    next
      case (Some r)
      from receipts_are_found [OF found Some] obtain h where "receipt_at S d (stage_id t) h = Some r" by blast
      then have "read_receipt S (map_of d (ReceiptAt (stage_id t) h)) t h = Inr r"
        unfolding receipt_at_Some [OF plan t] .
      then have "row_ok S r t" by (rule read_receipt_Inr)
      with e Some row_ok_id show ?thesis by (simp add: merged_def)
    qed
  qed
  have "rows_by_id (map ?f (s_stages S)) (stage_id s) = Some (?f s)"
    by (rule rows_by_id_map [OF plan_distinct [OF plan] s]) (use ids in blast)
  with ids [OF s] show ?thesis by (simp add: settled_def)
qed

lemma settled_input_sha:
  assumes plan: "plan_ok S" and ok: "index_ok S ix" and found: "receipts_are S d found" and s: "s \<in> set (s_stages S)"
  shows "input_sha S s (rows_by_id (ix_rows (settled S found ix))) = input_sha S s (merged found (rows_by_id (ix_rows ix)))"
proof (rule input_sha_cong)
  fix i assume "i \<in> set (requires s)"
  then obtain t where "t \<in> set (s_stages S)" "stage_id t = i" using plan_requires [OF plan s] by blast
  with settled_rows [OF plan ok found] show
    "rows_by_id (ix_rows (settled S found ix)) i = merged found (rows_by_id (ix_rows ix)) i" by blast
qed

lemma settled_supported:
  assumes plan: "plan_ok S" and ok: "index_ok S ix" and found: "receipts_are S d found"
    and agree: "\<forall>s \<in> set (s_stages S). stage_agrees S found (rows_by_id (ix_rows ix)) s"
    and s: "s \<in> set (s_stages S)" and r: "rows_by_id (ix_rows (settled S found ix)) (stage_id s) = Some r"
  shows "if row_receipt r = None then \<not> lost_receipt r else supported S d (settled S found ix) s r"
proof -
  obtain e where e: "rows_by_id (ix_rows ix) (stage_id s) = Some e" by (rule index_row [OF plan ok s])
  from r settled_rows [OF plan ok found s] have m: "merged found (rows_by_id (ix_rows ix)) (stage_id s) = Some r" by simp
  show ?thesis
  proof (cases "found (stage_id s)")
    case None
    with m e agree s have "r = e" "\<not> lost_receipt r" by (auto simp: merged_def stage_agrees_def)
    then show ?thesis by (auto simp: lost_receipt_def)
  next
    case (Some x)
    with m e have rx: "r = merge_row e x" by (simp add: merged_def)
    from receipts_are_found [OF found Some] obtain h where "receipt_at S d (stage_id s) h = Some x" by blast
    then have "read_receipt S (map_of d (ReceiptAt (stage_id s) h)) s h = Inr x"
      unfolding receipt_at_Some [OF plan s] .
    then obtain rc where rc: "map_of d (ReceiptAt (stage_id s) h) = Some (ReceiptFile rc (receipt_digest S rc))"
        "x = receipt_row rc" "rc_declaration rc = s_declaration S" "rc_id rc = stage_id s" "rc_input rc = h"
      by (rule read_receipt_Inr)
    from agree s e Some rc have "input_sha S s (merged found (rows_by_id (ix_rows ix))) = Inr h"
      by (auto simp: stage_agrees_def receipt_row_def)
    then have "input_sha S s (rows_by_id (ix_rows (settled S found ix))) = Inr h"
      by (simp only: settled_input_sha [OF plan ok found s])
    with rc rx show ?thesis by (auto simp: supported_def merge_row_def receipt_row_def)
  qed
qed

lemma no_receipts_supported:
  assumes "reconcile S d ix = Inr ix'" and "map_of d ReceiptsDir = None" and "rows_by_id (ix_rows ix') i = Some r"
  shows "row_receipt r = None"
proof -
  from assms(1) have "ix' = ix" "\<forall>row \<in> set (ix_rows ix). row_receipt row = None"
    unfolding reconcile_nothing [OF assms(2)] by blast+
  with map_of_SomeD [OF assms(3) [unfolded rows_by_id_def]] show ?thesis by auto
qed

lemma reconciled_row:
  assumes plan: "plan_ok S" and rec: "reconcile S d ix = Inr ix'" and s: "s \<in> set (s_stages S)"
  obtains r where "rows_by_id (ix_rows ix') (stage_id s) = Some r"
    and "map_of d ReceiptsDir \<noteq> None \<Longrightarrow> if row_receipt r = None then \<not> lost_receipt r else supported S d ix' s r"
proof (cases "map_of d ReceiptsDir = None")
  case True
  with rec have "index_ok S ix" "ix' = ix" unfolding reconcile_nothing [OF True] by blast+
  with True show thesis using index_row [OF plan _ s] that by metis
next
  case False
  with rec obtain found where f: "index_ok S ix" "receipts_are S d found"
      "\<forall>s \<in> set (s_stages S). stage_agrees S found (rows_by_id (ix_rows ix)) s" "ix' = settled S found ix"
    unfolding reconcile_iff [OF plan False] by blast
  obtain e where "rows_by_id (ix_rows ix) (stage_id s) = Some e" by (rule index_row [OF plan f(1) s])
  then have "merged found (rows_by_id (ix_rows ix)) (stage_id s) \<noteq> None" by (intro merged_present) simp
  then obtain r where r: "rows_by_id (ix_rows ix') (stage_id s) = Some r"
    using settled_rows [OF plan f(1,2) s] f(4) by auto
  with settled_supported [OF plan f(1,2,3) s] f(4) that show thesis by blast
qed

lemma supported_requires:
  assumes "plan_ok S" and "reconcile S d ix = Inr ix'" and "map_of d ReceiptsDir \<noteq> None"
    and "supported S d ix' s r" and "i \<in> set (requires s)" and "s \<in> set (s_stages S)"
  obtains t q where "t \<in> set (s_stages S)" and "stage_id t = i" and "rows_by_id (ix_rows ix') i = Some q"
    and "row_state q = ''COMPLETE''" and "supported S d ix' t q"
proof -
  from assms(4) obtain h where "input_sha S s (rows_by_id (ix_rows ix')) = Inr h" by (auto simp: supported_def)
  then obtain q where q: "rows_by_id (ix_rows ix') i = Some q" "row_state q = ''COMPLETE''"
    by (rule input_sha_requires) (rule assms(5))
  from plan_requires [OF assms(1,6,5)] obtain t where t: "t \<in> set (s_stages S)" "stage_id t = i" by blast
  obtain r' where "rows_by_id (ix_rows ix') (stage_id t) = Some r'"
      "if row_receipt r' = None then \<not> lost_receipt r' else supported S d ix' t r'"
    using reconciled_row [OF assms(1,2) t(1)] assms(3) by metis
  with q t that show thesis by (auto simp: lost_receipt_def split: if_splits)
qed

text \<open>
  C7. Evidence reaches all the way up. In an index that \<open>reconcile\<close> returns, a stage whose row
  refers to a receipt has that receipt on disk: authentic, of this declaration, stored under the
  digest of the stage's input as the index itself gives it, and with the result the row shows. And
  every stage it depends on, directly or through other stages, is complete in that index and has
  such a receipt of its own.
\<close>

theorem reconciled_evidence_is_complete:
  assumes "valid_plan w (s_plan S) = Inr ()" and "reconcile S d ix = Inr ix'" and "s \<in> set (s_stages S)"
    and "rows_by_id (ix_rows ix') (stage_id s) = Some r" and "row_receipt r \<noteq> None"
  shows "supported S d ix' s r \<and> (\<forall>i. (stage_id s, i) \<in> (dependency_edges (s_stages S))\<^sup>+ \<longrightarrow>
    (\<exists>t \<in> set (s_stages S). \<exists>q. stage_id t = i \<and> rows_by_id (ix_rows ix') i = Some q
      \<and> row_state q = ''COMPLETE'' \<and> supported S d ix' t q))"
proof
  note plan = plan_okI [OF assms(1)]
  have dir: "map_of d ReceiptsDir \<noteq> None"
    using no_receipts_supported [OF assms(2) _ assms(4)] assms(5) by blast
  show here: "supported S d ix' s r"
    using reconciled_row [OF plan assms(2,3)] dir assms(4,5) by (metis option.inject)
  note edges = dependency_edges_iff [OF plan_distinct [OF plan] valid_plan_Inr(2) [OF assms(1)]]
  show "\<forall>i. (stage_id s, i) \<in> (dependency_edges (s_stages S))\<^sup>+ \<longrightarrow>
    (\<exists>t \<in> set (s_stages S). \<exists>q. stage_id t = i \<and> rows_by_id (ix_rows ix') i = Some q
      \<and> row_state q = ''COMPLETE'' \<and> supported S d ix' t q)"
  proof (intro allI impI)
    fix i assume "(stage_id s, i) \<in> (dependency_edges (s_stages S))\<^sup>+"
    then show "\<exists>t \<in> set (s_stages S). \<exists>q. stage_id t = i \<and> rows_by_id (ix_rows ix') i = Some q
      \<and> row_state q = ''COMPLETE'' \<and> supported S d ix' t q"
    proof induction
      case (base i)
      then have "i \<in> set (requires s)"
        using edges plan_distinct [OF plan] assms(3) by (metis by_id_Some option.inject)
      from supported_requires [OF plan assms(2) dir here this assms(3)] show ?case by metis
    next
      case (step j i)
      then obtain t q where t: "t \<in> set (s_stages S)" "stage_id t = j" "supported S d ix' t q" by blast
      from step.hyps(2) t have "i \<in> set (requires t)"
        using edges plan_distinct [OF plan] by (metis by_id_Some option.inject)
      from supported_requires [OF plan assms(2) dir t(3) this t(1)] show ?case by metis
    qed
  qed
qed

section \<open>A second pass\<close>

lemma update_same: "map_of d k = Some v \<Longrightarrow> AList.update k v d = d"
  by (induction d) (auto split: if_splits)

lemma merge_dict_Cons: "merge_dict d (p # e) = merge_dict (AList.update (fst p) (snd p) d) e"
  by (simp add: merge_dict_def split: prod.split)

lemma merge_dict_same: "(\<And>k v. (k, v) \<in> set e \<Longrightarrow> map_of d k = Some v) \<Longrightarrow> merge_dict d e = d"
proof (induction e)
  case Nil
  show ?case by (simp add: merge_dict_def)
next
  case (Cons p e)
  from Cons.prems [of "fst p" "snd p"] have "AList.update (fst p) (snd p) d = d" by (intro update_same) simp
  with Cons show ?case by (simp add: merge_dict_Cons)
qed

lemma map_of_merge_dict: "distinct (map fst e) \<Longrightarrow> map_of (merge_dict d e) = map_of d ++ map_of e"
proof (induction e arbitrary: d)
  case Nil
  show ?case by (simp add: merge_dict_def)
next
  case (Cons p e)
  then have "map_of e (fst p) = None" by (simp add: map_of_eq_None_iff)
  with Cons show ?case
    by (auto simp: merge_dict_Cons update_conv' fun_eq_iff map_add_def split: option.split)
qed

lemma merge_row_twice:
  assumes "distinct (map fst (row_extra x))"
  shows "merge_row (merge_row e x) x = merge_row e x"
proof -
  have "merge_dict (merge_dict (row_extra e) (row_extra x)) (row_extra x) = merge_dict (row_extra e) (row_extra x)"
  proof (rule merge_dict_same)
    fix k v assume "(k, v) \<in> set (row_extra x)"
    with assms show "map_of (merge_dict (row_extra e) (row_extra x)) k = Some v"
      by (simp add: map_of_merge_dict map_of_is_SomeI)
  qed
  then show ?thesis by (simp add: merge_row_def)
qed

lemma map_add_absorbs: "m ++ n = n \<longleftrightarrow> dom m \<subseteq> dom n"
proof
  assume "m ++ n = n"
  then have "dom (m ++ n) = dom n" by simp
  then show "dom m \<subseteq> dom n" by auto
qed (auto simp: map_add_def fun_eq_iff dom_def split: option.split)

lemma receipts_are_same:
  assumes "receipts_are S d found" and "receipts_are S d found'"
  shows "found = found'"
proof
  have half: "f i = Some r \<Longrightarrow> g i = Some r" if "receipts_are S d f" "receipts_are S d g" for f g i r
  proof -
    assume "f i = Some r"
    with receipts_are_found [OF that(1)] obtain h where h: "receipt_at S d i h = Some r" by blast
    from receipts_are_file [OF that(2) receipt_at_present [OF h]] h show ?thesis by auto
  qed
  fix i
  show "found i = found' i"
    using half [OF assms, of i] half [OF assms(2,1), of i] by (metis option.exhaust)
qed

lemma row_ok_merge: "row_ok S (merge_row e x) s \<longleftrightarrow> row_ok S x s"
  by (simp add: row_checks in_inventory_def merge_row_def)

lemma found_row:
  assumes "plan_ok S" and "receipts_are S d found" and "s \<in> set (s_stages S)" and "found (stage_id s) = Some x"
  shows "row_ok S x s" and "distinct (map fst (row_extra x))" and "row_receipt x \<noteq> None"
    and "row_reason x \<noteq> None" and "row_deficits x \<noteq> None"
proof -
  from receipts_are_found [OF assms(2,4)] obtain h where "receipt_at S d (stage_id s) h = Some x" by blast
  then have "read_receipt S (map_of d (ReceiptAt (stage_id s) h)) s h = Inr x"
    unfolding receipt_at_Some [OF assms(1,3)] .
  then show "row_ok S x s" and "distinct (map fst (row_extra x))" and "row_receipt x \<noteq> None"
    and "row_reason x \<noteq> None" and "row_deficits x \<noteq> None"
    by (auto elim!: read_receipt_Inr simp: receipt_row_def)
qed

lemma agrees_merged:
  assumes "row_receipt x \<noteq> None" and "row_reason x \<noteq> None" and "row_deficits x \<noteq> None" and "distinct (map fst (row_extra x))"
  shows "agrees (merge_row e x) x = Inr () \<longleftrightarrow> dom (map_of (row_extra e)) \<subseteq> dom (map_of (row_extra x))"
  using assms
  by (auto simp: agrees_def merge_row_def same_result_def map_of_merge_dict map_add_absorbs Let_def)

text \<open>The authored data of the row of a stage with a receipt, beyond the data of the receipt.\<close>

definition stray_data :: "'j campaign_store \<Rightarrow> 'j campaign_dir \<Rightarrow> 'j campaign_index \<Rightarrow> stage \<Rightarrow> bool" where
  "stray_data S d ix s \<longleftrightarrow> (\<exists>e h x k. rows_by_id (ix_rows ix) (stage_id s) = Some e
     \<and> receipt_at S d (stage_id s) h = Some x \<and> k \<in> fst ` set (row_extra e) \<and> k \<notin> fst ` set (row_extra x))"

lemma stray_data_iff:
  assumes "receipts_are S d found" and "rows_by_id (ix_rows ix) (stage_id s) = Some e"
  shows "\<not> stray_data S d ix s \<longleftrightarrow>
    (\<forall>x. found (stage_id s) = Some x \<longrightarrow> dom (map_of (row_extra e)) \<subseteq> dom (map_of (row_extra x)))"
proof -
  have "(\<exists>h. receipt_at S d (stage_id s) h = Some x) \<longleftrightarrow> found (stage_id s) = Some x" for x
  proof
    assume "\<exists>h. receipt_at S d (stage_id s) h = Some x"
    then obtain h where h: "receipt_at S d (stage_id s) h = Some x" by blast
    from receipts_are_file [OF assms(1) receipt_at_present [OF h]] h show "found (stage_id s) = Some x" by auto
  qed (rule receipts_are_found [OF assms(1)])
  then have "stray_data S d ix s \<longleftrightarrow> (\<exists>x k. found (stage_id s) = Some x
      \<and> k \<in> fst ` set (row_extra e) \<and> k \<notin> fst ` set (row_extra x))"
    unfolding stray_data_def assms(2) by blast
  then show ?thesis unfolding dom_map_of_conv_image_fst by blast
qed

text \<open>
  Reconciling twice. When \<open>reconcile\<close> succeeds on an index, it accepts its own result and
  returns it unchanged, if and only if no row it filled in from a receipt had data under a key the
  receipt does not have: such a key survives the merge, and the second pass refuses it as
  conflicting.
\<close>

theorem reconcile_is_idempotent:
  assumes "valid_plan w (s_plan S) = Inr ()" and "reconcile S d ix = Inr ix'" and "map_of d ReceiptsDir \<noteq> None"
  shows "reconcile S d ix' = Inr ix' \<longleftrightarrow> \<not> (\<exists>s \<in> set (s_stages S). stray_data S d ix s)"
proof -
  note plan = plan_okI [OF assms(1)]
  let ?rows = "rows_by_id (ix_rows ix)" and ?rows' = "rows_by_id (ix_rows ix')"
  from assms(2) obtain found where ok: "index_ok S ix" and found: "receipts_are S d found"
    and agree: "\<forall>s \<in> set (s_stages S). stage_agrees S found ?rows s" and ix': "ix' = settled S found ix"
    unfolding reconcile_iff [OF plan assms(3)] by blast
  have row: "\<exists>e. ?rows (stage_id s) = Some e \<and> ?rows' (stage_id s) = merged found ?rows (stage_id s)
      \<and> merged found ?rows' (stage_id s) = merged found ?rows (stage_id s)
      \<and> row_ok S (the (merged found ?rows (stage_id s))) s
      \<and> (stage_agrees S found ?rows' s \<longleftrightarrow> \<not> stray_data S d ix s)" if s: "s \<in> set (s_stages S)" for s
  proof -
    obtain e where e: "?rows (stage_id s) = Some e" "row_ok S e s" by (rule index_row [OF plan ok s])
    have r': "?rows' (stage_id s) = merged found ?rows (stage_id s)"
      unfolding ix' by (rule settled_rows [OF plan ok found s])
    have again: "merged found ?rows' (stage_id t) = merged found ?rows (stage_id t)" if t: "t \<in> set (s_stages S)" for t
      using settled_rows [OF plan ok found t] merge_row_twice [OF found_row(2) [OF plan found t]]
      by (auto simp: merged_def ix' split: option.splits)
    have sha: "input_sha S s (merged found ?rows') = input_sha S s (merged found ?rows)"
      by (rule input_sha_cong) (use again plan_requires [OF plan s] in blast)
    show ?thesis
    proof (cases "found (stage_id s)")
      case None
      with e r' again [OF s] agree s stray_data_iff [OF found e(1)] show ?thesis
        by (auto simp: merged_def stage_agrees_def)
    next
      case (Some x)
      from agree [rule_format, OF s] e(1) Some obtain h where "input_sha S s (merged found ?rows) = Inr h" "row_input x = Some h"
        by (auto simp: stage_agrees_def)
      with Some r' e have "stage_agrees S found ?rows' s \<longleftrightarrow> agrees (merge_row e x) x = Inr ()"
        by (auto simp: stage_agrees_def merged_def sha)
      with Some e r' again [OF s] found_row [OF plan found s Some] stray_data_iff [OF found e(1)] show ?thesis
        by (auto simp: agrees_merged row_ok_merge merged_def)
    qed
  qed
  have "map (\<lambda>s. the (merged found ?rows' (stage_id s))) (s_stages S) = ix_rows ix'"
    using row by (auto simp: ix' settled_def)
  then have same: "settled S found ix' = ix'" by (simp add: settled_def)
  have "index_ok S ix'"
    using ok row by (auto simp: index_ok_def ix' settled_def list_all2_map1 list_all2_same)
  then have "reconcile S d ix' = Inr ix' \<longleftrightarrow> (\<forall>s \<in> set (s_stages S). stage_agrees S found ?rows' s)"
    unfolding reconcile_iff [OF plan assms(3)] using found receipts_are_same [OF found] same by metis
  with row show ?thesis by blast
qed

end
