(* ===== verification/Campaign_Recovery.thy ===== *)
theory Campaign_Recovery
  imports Campaign_Reconcile
begin

text \<open>
  The campaign store over time: calls of \<open>save\<close>, \<open>commit\<close> and \<open>approval\<close>, each of which may be cut
  short by a crash between two writes. What was published stays as it is; a committed result is
  found again by \<open>reconcile\<close>; and a crash in the middle of a commit.
\<close>

section \<open>The writes of the operations\<close>

fun touches :: "location \<Rightarrow> (location, 'j campaign_file) action \<Rightarrow> bool" where
  "touches x (Put f c) \<longleftrightarrow> x = f"
| "touches x (Rename f g) \<longleftrightarrow> x = f \<or> x = g"
| "touches x (Unlink f) \<longleftrightarrow> x = f"

lemma untouched: "\<forall>a \<in> set acts. \<not> touches x a \<Longrightarrow> map_of (after d acts) x = map_of d x"
proof (induction acts arbitrary: d)
  case (Cons a acts)
  then have "map_of (after (apply_action a d) acts) x = map_of (apply_action a d) x" by simp
  also have "\<dots> = map_of d x" using Cons.prems by (cases a) (auto split: option.splits)
  finally show ?case by simp
qed simp

lemma untouched_take: "\<forall>a \<in> set acts. \<not> touches x a \<Longrightarrow> map_of (after d (take k acts)) x = map_of d x"
  by (rule untouched) (auto dest: in_set_takeD)

fun published :: "location \<Rightarrow> bool" where
  "published (ReceiptAt i h) \<longleftrightarrow> True"
| "published (ApprovalAt i b) \<longleftrightarrow> True"
| "published _ \<longleftrightarrow> False"

definition publish_writes :: "location \<Rightarrow> 'j campaign_file \<Rightarrow> string \<Rightarrow> (location, 'j campaign_file) action list" where
  "publish_writes loc c tmp = parent_dirs loc @ [Put (TempOf loc tmp) Broken, Put (TempOf loc tmp) c,
     Put loc c, Unlink (TempOf loc tmp)]"

lemma for_io_act: "for_io act acts d = (acts, Inr ())"
  by (induction acts arbitrary: d) (simp_all add: return_io_def bind_io_def act_def)

lemma publish_new:
  assumes "published loc" and "map_of d loc = None"
  shows "publish_immutable loc c tmp d = (publish_writes loc c tmp, Inr c)"
  using assms
  by (cases loc) (simp_all add: publish_immutable_def publish_writes_def bind_io_def for_io_act act_def look_def
    return_io_def)

lemma published_write:
  assumes "published loc"
  shows "map_of (after d (publish_writes loc c tmp)) loc = Some c"
  using assms by (cases loc) (simp_all add: publish_writes_def)

lemma after_publish_same:
  assumes "published loc" and "x \<notin> {loc, TempOf loc tmp, ReceiptsDir}"
  shows "map_of (after d (take k (publish_writes loc c tmp))) x = map_of d x"
  by (rule untouched_take) (use assms in \<open>cases loc; auto simp: publish_writes_def\<close>)

text \<open>An operation writes nothing, publishes a new file, or replaces the index.\<close>

definition save_writes :: "'j campaign_file \<Rightarrow> string \<Rightarrow> (location, 'j campaign_file) action list" where
  "save_writes c tmp = [Put (TempOf StateJson tmp) Broken, Put (TempOf StateJson tmp) c,
     Rename (TempOf StateJson tmp) StateJson]"

lemma save_cases:
  obtains "fst (save S ix tmp d) = []" | c where "fst (save S ix tmp d) = save_writes c tmp"
proof (cases "valid_index S ix None")
  case (Inl e)
  then show thesis using that(1) by (simp add: save_def bind_io_def lift_io_def)
next
  case (Inr u)
  show thesis
  proof (cases "map_of d StateJson = Some (IndexFile ix (index_digest S ix))")
    case True
    then show thesis using that(1) Inr by (simp add: save_def bind_io_def lift_io_def look_def return_io_def Let_def)
  next
    case False
    then show thesis
      using that Inr by (cases "read_index S (map_of d StateJson)")
        (simp_all add: save_def bind_io_def lift_io_def look_def return_io_def Let_def atomic_def act_def save_writes_def)
  qed
qed

text \<open>The guards of \<open>commit\<close> before it looks at the disk.\<close>

definition committable :: "'j campaign_store \<Rightarrow> stage \<Rightarrow> 'j row \<Rightarrow> string \<Rightarrow> bool" where
  "committable S s row h \<longleftrightarrow> row_ok S row s \<and> row_state row \<in> set committed_states \<and> row_input row = Some h"

lemma commit_guard:
  "(\<exists>h. committable S s row h) \<or> (\<exists>e. \<forall>d. commit S s row now tmp d = ([], Inl e))"
proof (cases "valid_row S row s")
  case (Inl e)
  then show ?thesis by (auto simp: commit_def bind_io_def lift_io_def)
next
  case (Inr u)
  show ?thesis
  proof (cases "row_state row \<in> set committed_states")
    case False
    with Inr show ?thesis by (auto simp: commit_def bind_io_def lift_io_def)
  next
    case True
    with Inr show ?thesis
      by (cases "row_input row") (auto simp: commit_def bind_io_def lift_io_def committable_def row_ok_def)
  qed
qed

definition typed_outcome :: "string option \<Rightarrow> bool" where
  "typed_outcome x \<longleftrightarrow> (case x of None \<Rightarrow> False | Some y \<Rightarrow> y \<in> set campaign_outcomes)"

abbreviation signed_payload :: "'j campaign_store \<Rightarrow> stage \<Rightarrow> 'j row \<Rightarrow> string \<Rightarrow> string \<Rightarrow> 'j campaign_file" where
  "signed_payload S s row h now \<equiv> ReceiptFile (payload S s row h now) (receipt_digest S (payload S s row h now))"

lemma commit_again:
  assumes "committable S s row h" and "map_of d (ReceiptAt (stage_id s) h) = Some c"
  shows "commit S s row now tmp d = ([], bindE (read_receipt S (Some c) s h) (\<lambda>previous.
    bindE (compare_committed row previous) (\<lambda>_. Inr (stamped row (row_verified_at previous) (row_receipt previous)))))"
proof -
  have "is_sha256 h" using assms(1) row_ok_input by (auto simp: committable_def)
  with assms show ?thesis
    by (simp add: commit_def bind_io_def lift_io_def look_def return_io_def committable_def row_ok_def Let_def bindE_def
      del: compare_committed_iff split: sum.split)
qed

lemma commit_new:
  assumes "committable S s row h" and "map_of d (ReceiptAt (stage_id s) h) = None"
  shows "commit S s row now tmp d = (if typed_outcome (row_outcome row)
    then (publish_writes (ReceiptAt (stage_id s) h) (signed_payload S s row h now) tmp,
      bindE (read_receipt S (Some (signed_payload S s row h now)) s h) (\<lambda>previous.
      bindE (compare_committed row previous) (\<lambda>_. Inr (stamped row (Some now) (row_receipt previous)))))
    else ([], Inl UntypedOutcome))"
proof -
  let ?c = "signed_payload S s row h now" and ?path = "ReceiptAt (stage_id s) h"
  have "is_sha256 h" using assms(1) row_ok_input by (auto simp: committable_def)
  moreover have "publish_immutable ?path ?c tmp d = (publish_writes ?path ?c tmp, Inr ?c)"
    by (rule publish_new) (simp_all add: assms)
  moreover have "map_of (after d (publish_writes ?path ?c tmp)) ?path = Some ?c"
    by (rule published_write) simp
  moreover have "rc_outcome (payload S s row h now) = row_outcome row" "rc_verified_at (payload S s row h now) = now"
    by (simp_all add: payload_def)
  ultimately show ?thesis
    using assms
    by (simp add: commit_def bind_io_def lift_io_def look_def return_io_def committable_def row_ok_def Let_def bindE_def
      guardE_def typed_outcome_def del: compare_committed_iff split: sum.split option.split)
qed

section \<open>Runs with crashes\<close>

datatype 'j store_op = Save "'j campaign_index" string | Commit stage "'j row" string string
  | Approve stage string string "string option" 'j string string

fun op_writes :: "'j campaign_store \<Rightarrow> 'j store_op \<Rightarrow> 'j campaign_dir \<Rightarrow> (location, 'j campaign_file) action list" where
  "op_writes S (Save ix tmp) d = fst (save S ix tmp d)"
| "op_writes S (Commit s row now tmp) d = fst (commit S s row now tmp d)"
| "op_writes S (Approve s binding decision remark identities now tmp) d =
     fst (approval S s binding decision remark identities now tmp d)"

fun op_tmp :: "'j store_op \<Rightarrow> string" where
  "op_tmp (Save ix tmp) = tmp"
| "op_tmp (Commit s row now tmp) = tmp"
| "op_tmp (Approve s binding decision remark identities now tmp) = tmp"

text \<open>
  A step performs the first \<open>k\<close> writes of an operation: all of them, or as many as there were before
  a crash. \<open>mkstemp\<close> never takes a name that is in use.
\<close>

inductive store_step :: "'j campaign_store \<Rightarrow> 'j campaign_dir \<Rightarrow> 'j campaign_dir \<Rightarrow> bool" for S where
  step: "(\<And>loc. map_of d (TempOf loc (op_tmp op)) = None) \<Longrightarrow>
    store_step S d (after d (take k (op_writes S op d)))"

abbreviation store_run :: "'j campaign_store \<Rightarrow> 'j campaign_dir \<Rightarrow> 'j campaign_dir \<Rightarrow> bool" where
  "store_run S \<equiv> (store_step S)\<^sup>*\<^sup>*"

definition approval_of :: "'j campaign_store \<Rightarrow> stage \<Rightarrow> string \<Rightarrow> string \<Rightarrow> string option \<Rightarrow> 'j \<Rightarrow> string \<Rightarrow> 'j approval_receipt" where
  "approval_of S s binding decision remark identities now =
     \<lparr>ap_format = ''campaign-approval-receipt-v1'', ap_declaration = s_declaration S,
      ap_id = stage_id s, ap_binding = binding, ap_decision = decision, ap_note = remark,
      ap_identities = identities, ap_verified_at = now\<rparr>"

abbreviation signed_approval :: "'j campaign_store \<Rightarrow> stage \<Rightarrow> string \<Rightarrow> string \<Rightarrow> string option \<Rightarrow> 'j \<Rightarrow> string \<Rightarrow> 'j campaign_file" where
  "signed_approval S s binding decision remark identities now \<equiv>
     ApprovalFile (approval_of S s binding decision remark identities now)
       (approval_digest S (approval_of S s binding decision remark identities now))"

definition decidable_gate :: "stage \<Rightarrow> string \<Rightarrow> string \<Rightarrow> bool" where
  "decidable_gate s binding decision \<longleftrightarrow> stage_kind (body s) = ''approval''
     \<and> decision \<in> {''approve'', ''reject''} \<and> is_sha256 binding"

lemma approval_guard:
  assumes "\<not> decidable_gate s binding decision"
  shows "\<exists>e. approval S s binding decision remark identities now tmp d = ([], Inl e)"
proof (cases "stage_kind (body s) = ''approval'' \<and> decision \<in> {''approve'', ''reject''}")
  case True
  with assms have "\<not> is_sha256 binding" by (auto simp: decidable_gate_def)
  with True show ?thesis
    by (simp add: approval_def bind_io_def lift_io_def look_def Let_def read_approval_def guardE_def)
next
  case False
  then have "guardE (stage_kind (body s) = ''approval'' \<and> decision \<in> {''approve'', ''reject''}) InvalidDecision = Inl InvalidDecision"
    unfolding guardE_eq_Inl by blast
  then show ?thesis by (simp only: approval_def Let_def bind_io_def lift_io_def) simp
qed

lemma approval_again:
  assumes "decidable_gate s binding decision" and "map_of d (ApprovalAt (stage_id s) binding) = Some c"
  shows "approval S s binding decision remark identities now tmp d = ([], bindE (read_approval S s binding (Some c))
    (\<lambda>old. case old of None \<Rightarrow> Inl InvalidApproval | Some ap \<Rightarrow> same_decision ap decision identities))"
proof -
  have "read_approval S s binding (Some c) \<noteq> Inr None"
    by (auto simp: read_approval_def split: campaign_file.splits)
  with assms show ?thesis
    by (simp add: approval_def bind_io_def lift_io_def look_def Let_def decidable_gate_def guardE_def bindE_def
      split: sum.split option.split)
qed

lemma approval_new:
  assumes "decidable_gate s binding decision" and "map_of d (ApprovalAt (stage_id s) binding) = None"
  shows "approval S s binding decision remark identities now tmp d =
    (publish_writes (ApprovalAt (stage_id s) binding) (signed_approval S s binding decision remark identities now) tmp,
     bindE (read_approval S s binding (Some (signed_approval S s binding decision remark identities now)))
      (\<lambda>old. case old of None \<Rightarrow> Inl InvalidApproval | Some ap \<Rightarrow> same_decision ap decision identities))"
proof -
  let ?c = "signed_approval S s binding decision remark identities now" and ?path = "ApprovalAt (stage_id s) binding"
  have "publish_immutable ?path ?c tmp d = (publish_writes ?path ?c tmp, Inr ?c)"
    by (rule publish_new) (simp_all add: assms)
  moreover have "map_of (after d (publish_writes ?path ?c tmp)) ?path = Some ?c"
    by (rule published_write) simp
  moreover have "read_approval S s binding None = Inr None"
    using assms(1) by (simp add: read_approval_def decidable_gate_def)
  ultimately show ?thesis
    using assms
    by (simp add: approval_def bind_io_def lift_io_def raise_io_def look_def Let_def decidable_gate_def guardE_def bindE_def
      approval_of_def [symmetric] split: sum.split option.split)
qed

lemma writes_cases:
  obtains (nothing) "op_writes S op d = []"
    | (publish) loc c where "op_writes S op d = publish_writes loc c (op_tmp op)" and "published loc" and "map_of d loc = None"
    | (save) c where "op_writes S op d = save_writes c (op_tmp op)"
proof (cases op)
  case (Save ix tmp)
  then show thesis using that(1,3) by (cases rule: save_cases [of S ix tmp d]) simp_all
next
  case (Commit s row now tmp)
  show thesis
  proof (cases "\<exists>h. committable S s row h")
    case False
    then have "fst (commit S s row now tmp d) = []" using commit_guard [of S s row now tmp] by fastforce
    then show thesis using Commit that(1) by simp
  next
    case True
    then obtain h where h: "committable S s row h" by blast
    show thesis
    proof (cases "map_of d (ReceiptAt (stage_id s) h)")
      case (Some c)
      from commit_again [OF h this] show thesis using Commit that(1) by simp
    next
      case None
      from commit_new [OF h this, of now tmp] show thesis
        using Commit None that(1,2) by (cases "typed_outcome (row_outcome row)") auto
    qed
  qed
next
  case (Approve s binding decision remark identities now tmp)
  show thesis
  proof (cases "decidable_gate s binding decision")
    case False
    then have "fst (approval S s binding decision remark identities now tmp d) = []"
      using approval_guard [of s binding decision S remark identities now tmp d] by fastforce
    then show thesis using Approve that(1) by simp
  next
    case True
    show thesis
    proof (cases "map_of d (ApprovalAt (stage_id s) binding)")
      case (Some c)
      from approval_again [OF True this] show thesis using Approve that(1) by simp
    next
      case None
      from approval_new [OF True this, of S remark identities now tmp] show thesis using Approve None that(2) by auto
    qed
  qed
qed

section \<open>What no run changes\<close>

lemma step_keeps:
  assumes "store_step S d d'" and "map_of d x = Some c" and "published x"
  shows "map_of d' x = Some c"
  using assms(1)
proof cases
  case (step op k)
  show ?thesis
  proof (cases op d rule: writes_cases [where S = S])
    case nothing
    with step assms(2) show ?thesis by simp
  next
    case (publish loc c')
    with assms(2,3) have "x \<notin> {loc, TempOf loc (op_tmp op), ReceiptsDir}" by auto
    with after_publish_same [OF publish(2) this, of d k c'] publish(1) step(1) assms(2) show ?thesis by simp
  next
    case (save c')
    with assms(3) have "\<forall>a \<in> set (op_writes S op d). \<not> touches x a" by (auto simp: save_writes_def)
    then show ?thesis using step(1) assms(2) by (simp add: untouched_take)
  qed
qed

lemma run_keeps:
  assumes "store_run S d d'" and "map_of d x = Some c" and "published x"
  shows "map_of d' x = Some c"
  using assms by (induction rule: rtranclp_induct) (auto intro: step_keeps)

text \<open>A leftover temporary file, and the directory of receipts, stay as well.\<close>

lemma step_keeps_temp:
  assumes "store_step S d d'" and "map_of d (TempOf loc tmp) \<noteq> None" and "map_of d ReceiptsDir \<noteq> None"
  shows "map_of d' (TempOf loc tmp) \<noteq> None \<and> map_of d' ReceiptsDir \<noteq> None"
  using assms(1)
proof cases
  case (step op k)
  with assms(2) have other: "tmp \<noteq> op_tmp op" by auto
  show ?thesis
  proof (cases op d rule: writes_cases [where S = S])
    case nothing
    with step assms(2,3) show ?thesis by simp
  next
    case (publish l c')
    with other have "TempOf loc tmp \<notin> {l, TempOf l (op_tmp op), ReceiptsDir}" by auto
    from after_publish_same [OF publish(2) this, of d k c'] publish(1) step(1) assms(2)
    have "map_of d' (TempOf loc tmp) \<noteq> None" by simp
    moreover have "map_of (after d (take k (publish_writes l c' (op_tmp op)))) ReceiptsDir \<noteq> None"
    proof (cases l)
      case (ReceiptAt i h)
      then show ?thesis using assms(3) by (cases k) (simp_all add: publish_writes_def untouched_take)
    next
      case (ApprovalAt i b)
      then show ?thesis using assms(3) by (simp add: publish_writes_def untouched_take)
    qed (use publish(2) in simp_all)
    ultimately show ?thesis using publish(1) step(1) by simp
  next
    case (save c')
    with other have "\<forall>x \<in> {TempOf loc tmp, ReceiptsDir}. \<forall>a \<in> set (op_writes S op d). \<not> touches x a"
      by (auto simp: save_writes_def)
    then show ?thesis using step(1) assms(2,3) by (simp add: untouched_take)
  qed
qed

lemma run_keeps_temp:
  assumes "store_run S d d'" and "map_of d (TempOf loc tmp) \<noteq> None" and "map_of d ReceiptsDir \<noteq> None"
  shows "map_of d' (TempOf loc tmp) \<noteq> None \<and> map_of d' ReceiptsDir \<noteq> None"
  using assms by (induction rule: rtranclp_induct) (auto dest: step_keeps_temp)

section \<open>A committed result is final\<close>

definition same_commit :: "'j row \<Rightarrow> 'j row \<Rightarrow> bool" where
  "same_commit a b \<longleftrightarrow> row_state a = row_state b \<and> row_outcome a = row_outcome b
     \<and> (case row_reason a of None \<Rightarrow> [] | Some r \<Rightarrow> r) = (case row_reason b of None \<Rightarrow> [] | Some r \<Rightarrow> r)
     \<and> (case row_deficits a of None \<Rightarrow> [] | Some r \<Rightarrow> r) = (case row_deficits b of None \<Rightarrow> [] | Some r \<Rightarrow> r)
     \<and> row_outputs a = row_outputs b \<and> row_availability a = row_availability b
     \<and> row_observations a = row_observations b \<and> map_of (row_extra a) = map_of (row_extra b)"

lemma same_commit_result:
  assumes "same_result row previous"
  shows "same_result row2 previous \<longleftrightarrow> same_commit row2 row"
  using assms unfolding same_result_def same_commit_def by (metis option.inject)

lemma compare_conflict: "\<not> same_result row previous \<Longrightarrow> \<exists>e. compare_committed row previous = Inl (ConflictingCommitted e)"
  by (simp add: compare_committed_def same_result_def same_dict_iff bindE_def guardE_def)

lemma commit_Inr:
  assumes "commit S s row now tmp d = (acts, Inr row')"
  obtains h c previous where "committable S s row h" and "map_of (after d acts) (ReceiptAt (stage_id s) h) = Some c"
    and "read_receipt S (Some c) s h = Inr previous" and "same_result row previous"
    and "row' = stamped row (row_verified_at previous) (row_receipt previous)"
proof -
  from assms obtain h where h: "committable S s row h" using commit_guard [of S s row now tmp] by fastforce
  show thesis
  proof (cases "map_of d (ReceiptAt (stage_id s) h)")
    case (Some c)
    with assms commit_again [OF h Some, of now tmp] h that show thesis by auto
  next
    case None
    let ?c = "signed_payload S s row h now"
    from assms commit_new [OF h None, of now tmp] obtain previous where
        acts: "acts = publish_writes (ReceiptAt (stage_id s) h) ?c tmp"
      and prev: "read_receipt S (Some ?c) s h = Inr previous" "same_result row previous"
        "row' = stamped row (Some now) (row_receipt previous)"
      by (auto split: if_splits)
    from prev(1) have "row_verified_at previous = Some now"
    proof (rule read_receipt_Inr)
      fix rc assume "Some ?c = Some (ReceiptFile rc (receipt_digest S rc))" "previous = receipt_row rc"
      then show ?thesis by (simp add: receipt_row_def payload_def) auto
    qed
    with that [OF h _ prev(1,2)] prev(3) show thesis
      unfolding acts by (simp add: published_write)
  qed
qed

text \<open>
  A committed result is final. After \<open>commit\<close> has returned a row for a stage's input, whatever
  the store does next and wherever it crashes, a later commit of the same input writes nothing: it
  returns the time and the receipt of the first commit when the result is the same, and it raises
  a conflict when anything of the result differs.
\<close>

theorem committed_result_is_final:
  assumes "commit S s row now tmp d = (acts, Inr row')" and "store_run S (after d acts) d'"
    and "valid_row S row2 s = Inr ()" and "row_state row2 \<in> set committed_states" and "row_input row2 = row_input row"
  shows "\<exists>e. commit S s row2 now2 tmp2 d' = ([], if same_commit row2 row
      then Inr (stamped row2 (row_verified_at row') (row_receipt row')) else Inl (ConflictingCommitted e))"
proof -
  from assms(1) obtain h c previous where h: "committable S s row h"
    and c: "map_of (after d acts) (ReceiptAt (stage_id s) h) = Some c" "read_receipt S (Some c) s h = Inr previous"
    and prev: "same_result row previous" "row' = stamped row (row_verified_at previous) (row_receipt previous)"
    by (rule commit_Inr)
  have h2: "committable S s row2 h" using h assms(3-5) by (simp add: committable_def row_ok_def)
  have "map_of d' (ReceiptAt (stage_id s) h) = Some c" by (rule run_keeps [OF assms(2) c(1)]) simp
  from commit_again [OF h2 this, of now2 tmp2] c(2)
  have "commit S s row2 now2 tmp2 d' = ([], bindE (compare_committed row2 previous)
      (\<lambda>_. Inr (stamped row2 (row_verified_at previous) (row_receipt previous))))" by simp
  moreover have "row_verified_at row' = row_verified_at previous" "row_receipt row' = row_receipt previous"
    by (simp_all add: prev(2) stamped_def)
  ultimately show ?thesis
    using same_commit_result [OF prev(1), of row2] compare_conflict [of row2 previous]
    by (cases "same_commit row2 row") auto
qed

lemma decided:
  assumes "bindE (read_approval S s binding (Some c)) (\<lambda>old. case old of None \<Rightarrow> Inl InvalidApproval
    | Some ap \<Rightarrow> same_decision ap decision identities) = Inr ap"
  shows "read_approval S s binding (Some c) = Inr (Some ap)" and "same_decision ap decision identities = Inr ap"
  using assms by (auto simp: same_decision_def split: option.splits if_splits)

text \<open>
  A decision is final. Once \<open>approval\<close> has returned a receipt for a gate and a binding, in every
  later state of the disk the same call returns that receipt, the first note and time included, and
  a call with another decision or other identities raises; neither writes anything.
\<close>

theorem approval_is_final:
  assumes "approval S s binding decision remark identities now tmp d = (acts, Inr ap)"
    and "store_run S (after d acts) d'" and "decision2 \<in> {''approve'', ''reject''}"
  shows "approval S s binding decision2 remark2 identities2 now2 tmp2 d' =
    ([], if decision2 = decision \<and> identities2 = identities then Inr ap else Inl ConflictingApproval)"
proof -
  have gate: "decidable_gate s binding decision"
    using approval_guard [of s binding decision S remark identities now tmp d] assms(1) by auto
  then have gate2: "decidable_gate s binding decision2" using assms(3) by (auto simp: decidable_gate_def)
  obtain c where c: "map_of (after d acts) (ApprovalAt (stage_id s) binding) = Some c"
      "read_approval S s binding (Some c) = Inr (Some ap)" "same_decision ap decision identities = Inr ap"
  proof (cases "map_of d (ApprovalAt (stage_id s) binding)")
    case (Some c)
    from assms(1) [unfolded approval_again [OF gate Some]] have "acts = []" by simp
    with Some assms(1) [unfolded approval_again [OF gate Some]] decided [of S s binding c decision identities ap] that
    show thesis by simp
  next
    case None
    let ?c = "signed_approval S s binding decision remark identities now"
    from assms(1) [unfolded approval_new [OF gate None]]
    have "acts = publish_writes (ApprovalAt (stage_id s) binding) ?c tmp" by simp
    then have "map_of (after d acts) (ApprovalAt (stage_id s) binding) = Some ?c" by (simp add: published_write)
    with assms(1) [unfolded approval_new [OF gate None]] decided [of S s binding ?c decision identities ap] that
    show thesis by simp
  qed
  have "map_of d' (ApprovalAt (stage_id s) binding) = Some c" by (rule run_keeps [OF assms(2) c(1)]) simp
  from approval_again [OF gate2 this, of S remark2 identities2 now2 tmp2] c(2,3) show ?thesis
    by (auto simp: same_decision_def split: if_splits)
qed

section \<open>A crash inside a commit\<close>

lemma reconcile_blocked:
  assumes "map_of d ReceiptsDir \<noteq> None" and "map_of d (TempOf (ReceiptAt i h) tmp) \<noteq> None"
  shows "\<exists>e. reconcile S d ix = Inl e"
proof (cases "discover S d")
  case (Inl e)
  with assms(1) show ?thesis by (cases "valid_index S ix None") (auto simp: reconcile_def)
next
  case (Inr found)
  then have "receipts_are S d found" by (simp add: discover_iff)
  from receipts_are_file [OF this assms(2)] show ?thesis by simp
qed

text \<open>
  C30. A crash inside a commit blocks the campaign. When the first commit of a stage's input is cut
  short after \<open>mkstemp\<close> and before the temporary file is unlinked (even though the receipt may
  already be linked), then in every later state of the disk \<open>reconcile\<close> raises, on every index: the
  temporary file lies among the receipts, and no operation of the store removes it.
\<close>

theorem interrupted_commit_blocks_campaign:
  assumes "fst (commit S s row now tmp d) \<noteq> []"
    and "2 \<le> k" and "k < length (fst (commit S s row now tmp d))"
    and "store_run S (after d (take k (fst (commit S s row now tmp d)))) d'"
  shows "\<exists>e. reconcile S d' ix = Inl e"
proof -
  from assms(1) obtain h where h: "committable S s row h" using commit_guard [of S s row now tmp] by fastforce
  with assms(1) commit_again [OF h, of d _ now tmp] have none: "map_of d (ReceiptAt (stage_id s) h) = None"
    by (cases "map_of d (ReceiptAt (stage_id s) h)") auto
  from assms(1) commit_new [OF h none, of now tmp]
  have acts: "fst (commit S s row now tmp d) = publish_writes (ReceiptAt (stage_id s) h) (signed_payload S s row h now) tmp"
    by (auto split: if_splits)
  with assms(2,3) have "k = 2 \<or> k = 3 \<or> k = 4" by (auto simp: publish_writes_def)
  then have "map_of (after d (take k (fst (commit S s row now tmp d)))) (TempOf (ReceiptAt (stage_id s) h) tmp) \<noteq> None
      \<and> map_of (after d (take k (fst (commit S s row now tmp d)))) ReceiptsDir \<noteq> None"
    unfolding acts by (elim disjE) (simp_all add: publish_writes_def numeral_eq_Suc)
  then have "map_of d' (TempOf (ReceiptAt (stage_id s) h) tmp) \<noteq> None \<and> map_of d' ReceiptsDir \<noteq> None"
    using run_keeps_temp [OF assms(4)] by blast
  then show ?thesis using reconcile_blocked by blast
qed

section \<open>A committed result is found again\<close>

text \<open>Receipts lie in the directory of receipts; the operations keep it so from the empty disk.\<close>

definition parents_exist :: "'j campaign_dir \<Rightarrow> bool" where
  "parents_exist d \<longleftrightarrow> (\<forall>loc. in_receipts loc \<longrightarrow> map_of d loc \<noteq> None \<longrightarrow> map_of d ReceiptsDir \<noteq> None)"

lemma parents_exist_stays: "parents_exist d \<Longrightarrow> map_of d' ReceiptsDir \<noteq> None \<or>
    map_of d ReceiptsDir = None \<and> (\<forall>x. in_receipts x \<longrightarrow> map_of d' x = map_of d x) \<Longrightarrow> parents_exist d'"
  unfolding parents_exist_def by metis

lemma save_prefix_same:
  "in_receipts x \<or> x = ReceiptsDir \<Longrightarrow> map_of (after d (take k (save_writes c tmp))) x = map_of d x"
  by (rule untouched_take) (auto simp: save_writes_def)

lemma approval_prefix_same:
  "in_receipts x \<or> x = ReceiptsDir \<Longrightarrow> map_of (after d (take k (publish_writes (ApprovalAt i b) c tmp))) x = map_of d x"
  by (rule untouched_take) (auto simp: publish_writes_def)

lemma receipt_prefix_dir:
  "k = 0 \<or> map_of (after d (take k (publish_writes (ReceiptAt i h) c tmp))) ReceiptsDir \<noteq> None"
  by (cases k) (simp_all add: publish_writes_def untouched_take)

lemma step_parents:
  assumes "store_step S d d'" and "parents_exist d"
  shows "parents_exist d'"
  using assms(1)
proof cases
  case (step op k)
  show ?thesis
  proof (cases op d rule: writes_cases [where S = S])
    case nothing
    with step assms(2) show ?thesis by simp
  next
    case (save c)
    with assms(2) show ?thesis by (simp add: step(1) parents_exist_def save_prefix_same)
  next
    case (publish loc c)
    show ?thesis
    proof (cases loc)
      case (ReceiptAt i h)
      with publish(1) step(1) receipt_prefix_dir [of k d i h c "op_tmp op"] have "d' = d \<or> map_of d' ReceiptsDir \<noteq> None" by auto
      with assms(2) show ?thesis by (auto simp: parents_exist_def)
    next
      case (ApprovalAt i b)
      with assms(2) show ?thesis by (simp add: step(1) publish(1) parents_exist_def approval_prefix_same)
    qed (use publish(2) in simp_all)
  qed
qed

lemma reached_parents: "store_run S [] d \<Longrightarrow> parents_exist d"
proof (induction rule: rtranclp_induct)
  case base
  show ?case by (simp add: parents_exist_def)
qed (rule step_parents)

text \<open>An index that reconciliation leaves alone.\<close>

lemma stable_index:
  assumes plan: "plan_ok S" and rec: "reconcile S d ix = Inr ix" and parents: "parents_exist d"
    and complete: "\<forall>r \<in> set (ix_rows ix). row_state r = ''COMPLETE'' \<longrightarrow> row_input r \<noteq> None"
  obtains found where "index_ok S ix" and "receipts_are S d found"
    and "\<forall>s \<in> set (s_stages S). stage_agrees S found (rows_by_id (ix_rows ix)) s"
    and "\<forall>s \<in> set (s_stages S). merged found (rows_by_id (ix_rows ix)) (stage_id s) = rows_by_id (ix_rows ix) (stage_id s)"
proof (cases "map_of d ReceiptsDir = None")
  case True
  from rec have ok: "index_ok S ix" and none: "\<forall>row \<in> set (ix_rows ix). row_receipt row = None
        \<and> (row_state row \<in> {''COMPLETE'', ''FAILED'', ''INCONCLUSIVE''} \<longrightarrow> row_input row = None)"
    unfolding reconcile_nothing [OF True] by blast+
  have empty: "\<not> in_receipts loc" if "map_of d loc \<noteq> None" for loc
    using parents True that unfolding parents_exist_def by blast
  then have "receipts_are S d Map.empty"
    unfolding receipts_are_def by (metis in_receipts.simps(1) option.distinct(1))
  moreover have "stage_agrees S Map.empty (rows_by_id (ix_rows ix)) s" if s: "s \<in> set (s_stages S)" for s
  proof -
    obtain e where e: "rows_by_id (ix_rows ix) (stage_id s) = Some e" by (rule index_row [OF plan ok s])
    then have "e \<in> set (ix_rows ix)" unfolding rows_by_id_def by (auto dest: map_of_SomeD)
    with none complete have "\<not> lost_receipt e" by (auto simp: lost_receipt_def)
    with e show ?thesis by (simp add: stage_agrees_def)
  qed
  ultimately show thesis using that [OF ok] by (auto simp: merged_def split: option.split)
next
  case False
  with rec obtain found where f: "index_ok S ix" "receipts_are S d found"
      "\<forall>s \<in> set (s_stages S). stage_agrees S found (rows_by_id (ix_rows ix)) s" "ix = settled S found ix"
    unfolding reconcile_iff [OF plan False] by blast
  with settled_rows [OF plan f(1,2)] that show thesis by metis
qed

lemma merged_other: "i \<noteq> j \<Longrightarrow> merged (found(j \<mapsto> x)) rows i = merged found rows i"
  by (cases "rows i") (simp_all add: merged_def)

lemma stage_agrees_other:
  assumes agree: "stage_agrees S found rows t" and same: "found' (stage_id t) = found (stage_id t)"
    and deps: "\<And>i q. i \<in> set (requires t) \<Longrightarrow> merged found rows i = Some q \<Longrightarrow> row_state q = ''COMPLETE''
      \<Longrightarrow> merged found' rows i = merged found rows i"
  shows "stage_agrees S found' rows t"
proof (cases "found (stage_id t)")
  case None
  with agree same show ?thesis by (cases "rows (stage_id t)") (simp_all add: stage_agrees_def)
next
  case (Some x)
  from agree obtain e where e: "rows (stage_id t) = Some e" by (auto simp: stage_agrees_def split: option.splits)
  with agree Some obtain h where h: "input_sha S t (merged found rows) = Inr h" "row_input x = Some h"
      "agrees e x = Inr ()" by (auto simp: stage_agrees_def)
  have "input_sha S t (merged found' rows) = input_sha S t (merged found rows)"
  proof (rule input_sha_cong)
    fix i assume i: "i \<in> set (requires t)"
    from input_sha_requires [OF h(1) i] obtain q where "merged found rows i = Some q" "row_state q = ''COMPLETE''" .
    with deps i show "merged found' rows i = merged found rows i" by blast
  qed
  with h e Some same show ?thesis by (simp add: stage_agrees_def)
qed

text \<open>Publishing one receipt for a stage that had none.\<close>

lemma receipts_are_published:
  assumes plan: "plan_ok S" and s: "s \<in> set (s_stages S)" and found: "receipts_are S d found" and none: "found (stage_id s) = None"
    and read: "read_receipt S (Some c) s h = Inr x" and d': "d' = after d (publish_writes (ReceiptAt (stage_id s) h) c tmp)"
  shows "receipts_are S d' (found(stage_id s \<mapsto> x))"
proof -
  let ?path = "ReceiptAt (stage_id s) h"
  have files: "map_of d' loc = (if loc = ?path then Some c else if loc = TempOf ?path tmp then None
      else map_of d loc)" if "in_receipts loc" for loc
  proof -
    have "loc \<noteq> ReceiptsDir" using that by auto
    then show ?thesis by (simp add: d' publish_writes_def)
  qed
  have here: "receipt_at S d' (stage_id s) h = Some x"
    unfolding receipt_at_Some [OF plan s] using read by (simp add: files)
  have other: "i \<noteq> stage_id s \<and> receipt_at S d' i h' = found i \<and> found i \<noteq> None"
    if "map_of d (ReceiptAt i h') \<noteq> None" for i h'
  proof -
    from receipts_are_file [OF found that] obtain r where r: "receipt_at S d i h' = Some r" "found i = Some r" by auto
    with none have "i \<noteq> stage_id s" by auto
    then have "map_of d' (ReceiptAt i h') = map_of d (ReceiptAt i h')" by (simp add: files)
    then have "receipt_at S d' i h' = receipt_at S d i h'" by (simp only: receipt_at_def)
    with r \<open>i \<noteq> stage_id s\<close> show ?thesis by simp
  qed
  have receipts: "\<exists>i h' r. loc = ReceiptAt i h' \<and> receipt_at S d' i h' = Some r \<and> (found(stage_id s \<mapsto> x)) i = Some r"
    if "map_of d' loc \<noteq> None" "in_receipts loc" for loc
  proof (cases "loc = ?path")
    case True
    with here show ?thesis by simp
  next
    case False
    with that files [OF that(2)] have "map_of d loc \<noteq> None" by (auto split: if_splits)
    moreover from receipts_are_file [OF found this that(2)] obtain i h' where "loc = ReceiptAt i h'" by blast
    ultimately show ?thesis using other [of i h'] by auto
  qed
  show ?thesis
    unfolding receipts_are_def
  proof (intro conjI allI impI)
    fix i r assume "(found(stage_id s \<mapsto> x)) i = Some r"
    then show "\<exists>h'. receipt_at S d' i h' = Some r"
      using here receipts_are_found [OF found, of i r] receipt_at_present other by (metis fun_upd_apply option.inject)
  next
    fix i h1 h2 assume h: "map_of d' (ReceiptAt i h1) \<noteq> None" "map_of d' (ReceiptAt i h2) \<noteq> None"
    show "h1 = h2"
    proof (cases "i = stage_id s")
      case True
      with h other [of i h1] other [of i h2] show ?thesis by (auto simp: files split: if_splits)
    next
      case False
      with h receipts_are_unique [OF found, of i h1 h2] show ?thesis by (auto simp: files)
    qed
  qed (use receipts in blast)
qed

lemma merge_row_receipt: "row_receipt (merge_row e x) = row_receipt x"
  by (simp add: merge_row_def)

definition recovered :: "'j row \<Rightarrow> 'j row \<Rightarrow> 'j row \<Rightarrow> bool" where
  "recovered e committed r \<longleftrightarrow> same_commit r committed \<and> row_input r = row_input committed
     \<and> row_verified_at r = row_verified_at committed \<and> row_verification r = row_verification committed
     \<and> row_receipt r = row_receipt committed \<and> row_attempts r = row_attempts e"

lemma merge_recovers:
  assumes "same_result row x" and "distinct (map fst (row_extra x))" and "row_verification x = Some ''last_committed''"
    and "row_input x = row_input row" and "set (map fst (row_extra e)) \<subseteq> set (map fst (row_extra row))"
  shows "recovered e (stamped row (row_verified_at x) (row_receipt x)) (merge_row e x)"
proof -
  obtain reason deficits where given: "row_reason x = Some reason" "row_deficits x = Some deficits"
    using assms(1) unfolding same_result_def by metis
  have "dom (map_of (row_extra e)) \<subseteq> dom (map_of (row_extra row))"
    using assms(5) by (simp add: dom_map_of_conv_image_fst)
  then have "map_of (row_extra e) ++ map_of (row_extra x) = map_of (row_extra x)"
    using assms(1) by (simp add: map_add_absorbs same_result_def)
  then have "same_result (merge_row e x) x"
    using assms(1) given by (auto simp: same_result_def merge_row_def map_of_merge_dict assms(2))
  then have "same_commit (merge_row e x) row" by (simp add: same_commit_result [OF assms(1)])
  with assms(3,4) show ?thesis by (simp add: recovered_def same_commit_def stamped_def merge_row_def)
qed

lemma unreceipted:
  assumes "plan_ok S" and "receipts_are S d found" and "s \<in> set (s_stages S)"
    and "rows (stage_id s) = Some e" and "row_receipt e = None" and "merged found rows (stage_id s) = rows (stage_id s)"
  shows "found (stage_id s) = None"
proof (cases "found (stage_id s)")
  case (Some x)
  with assms(4,6) have "merge_row e x = e" by (simp add: merged_def)
  then have "row_receipt x = row_receipt e" by (metis merge_row_receipt)
  with found_row(3) [OF assms(1,2,3) Some] assms(5) show ?thesis by simp
qed

lemma same_stage: "plan_ok S \<Longrightarrow> s \<in> set (s_stages S) \<Longrightarrow> t \<in> set (s_stages S) \<Longrightarrow> stage_id s = stage_id t \<Longrightarrow> s = t"
  using by_id_Some [OF plan_distinct] by (metis option.inject)

lemma agreement_extends:
  assumes plan: "plan_ok S" and s: "s \<in> set (s_stages S)" and e: "rows (stage_id s) = Some e" "row_state e = ''RUNNING''"
    and none: "found (stage_id s) = None" and agree: "\<forall>t \<in> set (s_stages S). stage_agrees S found rows t"
    and stable: "\<forall>t \<in> set (s_stages S). merged found rows (stage_id t) = rows (stage_id t)"
    and sha: "input_sha S s rows = Inr h" and x: "row_input x = Some h" "agrees e x = Inr ()"
  shows "\<forall>t \<in> set (s_stages S). stage_agrees S (found(stage_id s \<mapsto> x)) rows t"
proof
  let ?found = "found(stage_id s \<mapsto> x)"
  have not_self: "row_state q = ''COMPLETE'' \<Longrightarrow> merged found rows i = Some q \<Longrightarrow> i \<noteq> stage_id s" for i q
    using e none by (auto simp: merged_def)
  fix t assume t: "t \<in> set (s_stages S)"
  show "stage_agrees S ?found rows t"
  proof (cases "stage_id t = stage_id s")
    case False
    show ?thesis
    proof (rule stage_agrees_other [where found = found])
      show "merged ?found rows i = merged found rows i" if "merged found rows i = Some q" "row_state q = ''COMPLETE''" for i q
        using not_self [OF that(2,1)] by (rule merged_other)
    qed (use agree t False in simp_all)
  next
    case True
    then have ts: "t = s" by (rule same_stage [OF plan t s])
    have "input_sha S s (merged ?found rows) = input_sha S s rows"
    proof (rule input_sha_cong)
      fix i assume i: "i \<in> set (requires s)"
      from input_sha_requires [OF sha i] obtain q where q: "rows i = Some q" "row_state q = ''COMPLETE''" .
      from plan_requires [OF plan s i] stable have "merged found rows i = rows i" by blast
      with q not_self merged_other show "merged ?found rows i = rows i" by metis
    qed
    with x sha e show ?thesis by (simp add: ts stage_agrees_def)
  qed
qed

text \<open>
  C5. A crash between a commit and the index loses nothing. Take a disk the store reached, an index
  that agrees with it, and a stage whose row in the index is still running. If \<open>commit\<close> returns a row
  for that stage and the index is not saved, the next \<open>reconcile\<close> of the old index succeeds: the
  stage's row has the committed result, time and receipt and keeps its attempts, and every other
  row is what it was.
\<close>

theorem committed_stage_is_recovered:
  assumes "valid_plan w (s_plan S) = Inr ()" and "store_run S [] d" and rec: "reconcile S d ix = Inr ix"
    and "\<forall>r \<in> set (ix_rows ix). row_state r = ''COMPLETE'' \<longrightarrow> row_input r \<noteq> None"
    and s: "s \<in> set (s_stages S)" and e: "rows_by_id (ix_rows ix) (stage_id s) = Some e"
    and running: "row_state e = ''RUNNING''" "row_receipt e = None" "row_input e = Some h"
    and sha: "input_sha S s (rows_by_id (ix_rows ix)) = Inr h" and row: "row_input row = Some h"
      "set (map fst (row_extra e)) \<subseteq> set (map fst (row_extra row))"
    and commit: "commit S s row now tmp d = (acts, Inr row')"
  shows "\<exists>ix'. reconcile S (after d acts) ix = Inr ix' \<and> (\<forall>t \<in> set (s_stages S). \<exists>r.
    rows_by_id (ix_rows ix') (stage_id t) = Some r
      \<and> (if t = s then recovered e row' r else rows_by_id (ix_rows ix) (stage_id t) = Some r))"
proof -
  note plan = plan_okI [OF assms(1)]
  let ?rows = "rows_by_id (ix_rows ix)" and ?path = "ReceiptAt (stage_id s) h"
  from stable_index [OF plan rec reached_parents [OF assms(2)] assms(4)] obtain found where
      ok: "index_ok S ix" and found: "receipts_are S d found"
    and agree: "\<forall>t \<in> set (s_stages S). stage_agrees S found ?rows t"
    and stable: "\<forall>t \<in> set (s_stages S). merged found ?rows (stage_id t) = ?rows (stage_id t)" .
  have none: "found (stage_id s) = None"
    by (rule unreceipted [where rows = ?rows, OF plan found s e running(2)]) (use stable s in blast)
  then have new: "map_of d ?path = None" using receipts_are_file [OF found, of ?path] by (cases "map_of d ?path") auto
  have h: "committable S s row h"
    using commit commit_guard [of S s row now tmp] row(1) by (fastforce simp: committable_def)
  from commit [unfolded commit_new [OF h new]] obtain x where
      acts: "acts = publish_writes ?path (signed_payload S s row h now) tmp"
    and x: "read_receipt S (Some (signed_payload S s row h now)) s h = Inr x" "same_result row x"
      "row' = stamped row (Some now) (row_receipt x)" by (auto split: if_splits)
  obtain rc where rc: "signed_payload S s row h now = ReceiptFile rc (receipt_digest S rc)" "x = receipt_row rc"
      "rc_input rc = h" "distinct (map fst (rc_data rc))" "row_ok S x s"
    using x(1) by (auto elim!: read_receipt_Inr)
  from rc(1,2) have time: "row_verified_at x = Some now" by (auto simp: receipt_row_def payload_def)
  let ?found = "found(stage_id s \<mapsto> x)"
  have found': "receipts_are S (after d acts) ?found"
    by (rule receipts_are_published [OF plan s found none x(1)]) (simp add: acts)
  have agree': "\<forall>t \<in> set (s_stages S). stage_agrees S ?found ?rows t"
    by (rule agreement_extends [where rows = ?rows, OF plan s e _ none agree stable sha]) (use running rc in \<open>simp_all add: agrees_def receipt_row_def Let_def\<close>)
  have dir: "map_of (after d acts) ReceiptsDir \<noteq> None" by (simp add: acts publish_writes_def)
  have "reconcile S (after d acts) ix = Inr (settled S ?found ix)"
    unfolding reconcile_iff [OF plan dir] using ok found' agree' by blast
  moreover have "\<exists>r. rows_by_id (ix_rows (settled S ?found ix)) (stage_id t) = Some r
      \<and> (if t = s then recovered e row' r else ?rows (stage_id t) = Some r)" if t: "t \<in> set (s_stages S)" for t
  proof (cases "t = s")
    case True
    have "recovered e row' (merge_row e x)"
      unfolding x(3) time [symmetric]
      by (rule merge_recovers [OF x(2)]) (use rc row in \<open>simp_all add: receipt_row_def\<close>)
    with True settled_rows [OF plan ok found' s] e show ?thesis by (simp add: merged_def)
  next
    case False
    then have "stage_id t \<noteq> stage_id s" using same_stage [OF plan t s] by blast
    moreover obtain r where "?rows (stage_id t) = Some r" by (rule index_row [OF plan ok t])
    ultimately show ?thesis using False settled_rows [OF plan ok found' t]
      merged_other [of "stage_id t" "stage_id s" found x ?rows] stable t by simp
  qed
  ultimately show ?thesis by blast
qed

section \<open>A concrete campaign on disk\<close>

definition release_stage :: stage where
  "release_stage = stage_of ''rel'' ''corpus'' [] (CorpusRelease ''p.yaml'')"

definition gate_stage :: stage where
  "gate_stage = stage_of ''ok'' ''release'' [''rel''] (Approval [''rel''])"

definition some_sha :: string where
  "some_sha = replicate 64 (CHR ''a'')"

definition two_stages :: campaign_plan where
  "two_stages = \<lparr>campaign_id = ''c1'', stages = [release_stage, gate_stage], recovery = None\<rparr>"

definition sample_store :: "json campaign_store" where
  "sample_store = \<lparr>s_plan = two_stages, s_declaration = some_sha, input_digest = \<lambda>_ _ _. some_sha,
     receipt_digest = \<lambda>_. some_sha, index_digest = \<lambda>_. some_sha, approval_digest = \<lambda>_. some_sha,
     iso_datetime = \<lambda>_. True\<rparr>"

definition running_row :: "json row" where
  "running_row = \<lparr>row_id = ''rel'', row_kind = ''corpus_release'', row_scope = ''corpus'', row_requires = [],
     row_state = ''RUNNING'', row_attempts = [JStr ''RUNNING''], row_observations = [], row_outputs = [],
     row_availability = JObj [], row_outcome = None, row_reason = None, row_deficits = None,
     row_input = Some some_sha, row_verified_at = None, row_verification = None, row_receipt = None, row_extra = []\<rparr>"

definition complete_row :: "json row" where
  "complete_row = running_row\<lparr>row_state := ''COMPLETE'',
     row_outputs := [\<lparr>o_kind = ''corpus_release'', o_identifier = ''r1'', o_sha = some_sha\<rparr>],
     row_outcome := Some ''READY_FOR_NEXT_STAGE'', row_extra := [(''measured'', JInt 3)]\<rparr>"

definition sample_index :: "json campaign_index" where
  "sample_index = (let ix = initial sample_store (JObj []) (JObj []) in
     ix\<lparr>ix_rows := running_row # tl (ix_rows ix)\<rparr>)"

definition sample_disk :: "json campaign_dir" where
  "sample_disk = after [] (fst (commit sample_store release_stage complete_row ''2026Z'' ''x1'' []))"

lemma two_stages_valid: "valid_plan here two_stages = Inr ()"
  by code_simp

lemma sample_commits:
  "snd (commit sample_store release_stage complete_row ''2026Z'' ''x1'' []) =
     Inr (stamped complete_row (Some ''2026Z'') (Some (receipt_reference ''rel'' (Some some_sha))))"
  by code_simp

lemma sample_agrees: "reconcile sample_store [] sample_index = Inr sample_index"
  by code_simp

definition gate_row :: "json row" where
  "gate_row = complete_row\<lparr>row_id := ''ok'', row_kind := ''approval'', row_scope := ''release'', row_requires := [''rel'']\<rparr>"

definition sample_receipt :: "stage \<Rightarrow> json row \<Rightarrow> json stage_receipt" where
  "sample_receipt s row = payload sample_store s row some_sha ''2026Z''"

definition gated_disk :: "json campaign_dir" where
  "gated_disk = [(ReceiptsDir, Directory),
     (ReceiptAt ''rel'' some_sha, ReceiptFile (sample_receipt release_stage complete_row) some_sha),
     (ReceiptAt ''ok'' some_sha, ReceiptFile (sample_receipt gate_stage gate_row) some_sha)]"

definition sample_after :: "json campaign_index" where
  "sample_after = sample_index\<lparr>ix_rows := [
     (receipt_row (sample_receipt release_stage complete_row))\<lparr>row_attempts := [JStr ''RUNNING'']\<rparr>,
     receipt_row (sample_receipt gate_stage gate_row)]\<rparr>"

lemma sample_reconciled: "reconcile sample_store gated_disk sample_index = Inr sample_after"
  by code_simp

lemma sample_plan_valid_here: "valid_plan here (s_plan sample_store) = Inr ()"
  by (simp add: sample_store_def two_stages_valid)

lemma sample_stages: "set (s_stages sample_store) = {release_stage, gate_stage}"
  by (simp add: sample_store_def two_stages_def)

lemma gate_receipt: "map_option (\<lambda>r. row_receipt r \<noteq> None) (rows_by_id (ix_rows sample_after) ''ok'') = Some True"
  by (simp add: rows_by_id_def sample_after_def receipt_row_def sample_receipt_def payload_def release_stage_def
    gate_stage_def stage_of_def)

theorem reconciled_evidence_is_complete_witness:
  "\<exists>t \<in> {release_stage, gate_stage}. \<exists>q. stage_id t = ''rel'' \<and> row_state q = ''COMPLETE''
    \<and> supported sample_store gated_disk sample_after t q"
proof -
  obtain r where r: "rows_by_id (ix_rows sample_after) (stage_id gate_stage) = Some r" "row_receipt r \<noteq> None"
    using gate_receipt by (auto simp: gate_stage_def stage_of_def)
  have "gate_stage \<in> set (s_stages sample_store)" by (simp add: sample_stages)
  from reconciled_evidence_is_complete [OF sample_plan_valid_here sample_reconciled this r]
  have all: "\<forall>i. (stage_id gate_stage, i) \<in> (dependency_edges (s_stages sample_store))\<^sup>+ \<longrightarrow>
    (\<exists>t \<in> set (s_stages sample_store). \<exists>q. stage_id t = i \<and> rows_by_id (ix_rows sample_after) i = Some q
      \<and> row_state q = ''COMPLETE'' \<and> supported sample_store gated_disk sample_after t q)" by blast
  have "(stage_id gate_stage, ''rel'') \<in> dependency_edges (s_stages sample_store)"
    unfolding dependency_edges_iff [OF valid_plan_Inr(1,2) [OF sample_plan_valid_here]] sample_stages
    by (simp add: gate_stage_def stage_of_def)
  with all show ?thesis unfolding sample_stages by blast
qed

lemma sample_no_data: "list_all (\<lambda>r. row_extra r = []) (ix_rows sample_index)"
  by code_simp

theorem reconcile_is_idempotent_witness:
  "reconcile sample_store gated_disk sample_after = Inr sample_after"
proof -
  have dir: "map_of gated_disk ReceiptsDir \<noteq> None" by code_simp
  have "\<not> stray_data sample_store gated_disk sample_index s" for s
  proof
    assume "stray_data sample_store gated_disk sample_index s"
    then obtain e k where e: "rows_by_id (ix_rows sample_index) (stage_id s) = Some e" "k \<in> fst ` set (row_extra e)"
      unfolding stray_data_def by blast
    from e(1) have "e \<in> set (ix_rows sample_index)" unfolding rows_by_id_def by (auto dest: map_of_SomeD)
    with e(2) sample_no_data show False by (simp add: list_all_iff)
  qed
  then show ?thesis
    using reconcile_is_idempotent [OF sample_plan_valid_here sample_reconciled dir] by blast
qed

abbreviation sample_commit :: "(json, json row) store_program" where
  "sample_commit \<equiv> commit sample_store release_stage complete_row ''2026Z'' ''x1''"

lemma sample_commit_eq: "sample_commit [] = (fst (sample_commit []),
    Inr (stamped complete_row (Some ''2026Z'') (Some (receipt_reference ''rel'' (Some some_sha)))))"
  using sample_commits by (cases "sample_commit []") simp

theorem committed_result_is_final_witness:
  "\<exists>e. commit sample_store release_stage (complete_row\<lparr>row_outputs := []\<rparr>) ''2027Z'' ''x2'' sample_disk
     = ([], Inl (ConflictingCommitted e))"
proof -
  let ?row = "complete_row\<lparr>row_outputs := []\<rparr>"
  have "valid_row sample_store ?row release_stage = Inr ()" "row_state ?row \<in> set committed_states" by code_simp+
  from committed_result_is_final [OF sample_commit_eq rtranclp.rtrancl_refl this]
  show ?thesis by (simp add: complete_row_def same_commit_def sample_disk_def)
qed

theorem approval_is_final_witness:
  "approval sample_store gate_stage some_sha ''reject'' None (JObj []) ''2027Z'' ''x2''
     (after [] (fst (approval sample_store gate_stage some_sha ''approve'' (Some ''ok'') (JObj []) ''2026Z'' ''x1'' [])))
   = ([], Inl ConflictingApproval)"
proof -
  let ?call = "approval sample_store gate_stage some_sha ''approve'' (Some ''ok'') (JObj []) ''2026Z'' ''x1'' []"
  have "(case snd ?call of Inl e \<Rightarrow> False | Inr ap \<Rightarrow> True)" by code_simp
  then obtain ap where "?call = (fst ?call, Inr ap)" by (cases ?call) (auto split: sum.splits)
  from approval_is_final [OF this rtranclp.rtrancl_refl, of "''reject''" None "JObj []" "''2027Z''" "''x2''"]
  show ?thesis by simp
qed

theorem interrupted_commit_blocks_campaign_witness:
  "\<exists>e. reconcile sample_store (after [] (take 4 (fst (sample_commit [])))) sample_index = Inl e"
proof -
  have "length (fst (sample_commit [])) = 5" by code_simp
  then show ?thesis
    by (intro interrupted_commit_blocks_campaign [where k = 4, OF _ _ _ rtranclp.rtrancl_refl]) auto
qed

theorem committed_stage_is_recovered_witness:
  "\<exists>ix' r. reconcile sample_store sample_disk sample_index = Inr ix' \<and> rows_by_id (ix_rows ix') ''rel'' = Some r
     \<and> recovered running_row (stamped complete_row (Some ''2026Z'') (Some (receipt_reference ''rel'' (Some some_sha)))) r"
proof -
  have complete: "\<forall>r \<in> set (ix_rows sample_index). row_state r = ''COMPLETE'' \<longrightarrow> row_input r \<noteq> None"
    unfolding list_all_iff [symmetric] by code_simp
  have s: "release_stage \<in> set (s_stages sample_store)" by (simp add: sample_stages)
  have id: "stage_id release_stage = ''rel''" by (simp add: release_stage_def stage_of_def)
  have e: "rows_by_id (ix_rows sample_index) (stage_id release_stage) = Some running_row"
    by (simp add: id sample_index_def rows_by_id_def running_row_def Let_def)
  have sha: "input_sha sample_store release_stage (rows_by_id (ix_rows sample_index)) = Inr some_sha"
    by (simp add: input_sha_def release_stage_def stage_of_def sample_store_def)
  from committed_stage_is_recovered [OF sample_plan_valid_here rtranclp.rtrancl_refl sample_agrees complete s e _ _ _ sha _ _ sample_commit_eq]
  show ?thesis using s id by (fastforce simp: running_row_def complete_row_def sample_disk_def)
qed

end
