(* ===== verification/Spdx.thy ===== *)
theory Spdx
  imports Lab_Prelude
begin

text \<open>
  \<open>_license_class\<close> of \<open>src/sparselab/corpus/rights.py\<close>: the tokenizer and the recursive-descent parser
  of license expressions, with the finite registry of recognised licenses. The parser is compared
  with a grammar; strings are ASCII.
\<close>

section \<open>Classes of licenses\<close>

datatype spdx_class = Permissive | Obligations | Unknown | Restricted

text \<open>The order in which a class outweighs another in a compound expression.\<close>

fun severity :: "spdx_class \<Rightarrow> nat" where
  "severity Permissive = 0"
| "severity Obligations = 1"
| "severity Unknown = 2"
| "severity Restricted = 3"

lemma severity_inject [simp]: "severity a = severity b \<longleftrightarrow> a = b"
  by (cases a; cases b) simp_all

instantiation spdx_class :: linorder
begin

definition less_eq_spdx_class :: "spdx_class \<Rightarrow> spdx_class \<Rightarrow> bool" where
  "less_eq_spdx_class a b \<longleftrightarrow> severity a \<le> severity b"

definition less_spdx_class :: "spdx_class \<Rightarrow> spdx_class \<Rightarrow> bool" where
  "less_spdx_class a b \<longleftrightarrow> severity a < severity b"

instance
  by standard (auto simp: less_eq_spdx_class_def less_spdx_class_def)

end

definition permissive_ids :: "string list" where
  "permissive_ids = [''MIT'', ''MIT-0'', ''Apache-2.0'', ''BSD-2-Clause'', ''BSD-3-Clause'', ''0BSD'', ''ISC'',
     ''Zlib'', ''Unlicense'', ''PSF-2.0'', ''Python-2.0'', ''CC0-1.0'', ''BSL-1.0'', ''Artistic-2.0'']"

definition attribution_ids :: "string list" where
  "attribution_ids = [''CC-BY-4.0'', ''CC-BY-3.0'', ''CC-BY-SA-4.0'', ''CC-BY-SA-3.0'', ''ODC-By-1.0'']"

definition copyleft_ids :: "string list" where
  "copyleft_ids = [''MPL-2.0'', ''GPL-2.0-only'', ''GPL-2.0'', ''GPL-2.0+'', ''GPL-2.0-or-later'',
     ''GPL-3.0-only'', ''GPL-3.0'', ''GPL-3.0+'', ''GPL-3.0-or-later'',
     ''LGPL-2.1-only'', ''LGPL-2.1'', ''LGPL-2.1+'', ''LGPL-2.1-or-later'',
     ''LGPL-3.0-only'', ''LGPL-3.0'', ''LGPL-3.0+'', ''LGPL-3.0-or-later'',
     ''AGPL-3.0-only'', ''AGPL-3.0'', ''AGPL-3.0+'', ''AGPL-3.0-or-later'']"

definition restricted_ids :: "string list" where
  "restricted_ids = [''CC-BY-NC-4.0'', ''CC-BY-NC-SA-4.0'', ''CC-BY-ND-4.0'', ''CC-BY-NC-ND-4.0'',
     ''CC-BY-NC-3.0'', ''CC-BY-NC-SA-3.0'', ''CC-BY-ND-3.0'', ''CC-BY-NC-ND-3.0'']"

definition license_of :: "string \<Rightarrow> spdx_class" where
  "license_of t = (if t \<in> set permissive_ids then Permissive
     else if t \<in> set attribution_ids \<or> t \<in> set copyleft_ids then Obligations
     else if t \<in> set restricted_ids then Restricted else Unknown)"

section \<open>Tokens\<close>

definition id_char :: "char \<Rightarrow> bool" where
  "id_char c \<longleftrightarrow> is_alnum c \<or> c = CHR ''.'' \<or> c = CHR ''-'' \<or> c = CHR ''+''"

text \<open>The literal \<open>k\<close> and then \<open>\b\<close>.\<close>

definition keyword :: "string \<Rightarrow> string \<Rightarrow> bool" where
  "keyword k s \<longleftrightarrow> take (length k) s = k \<and> \<not> list_ex word_char (take 1 (drop (length k) s))"

text \<open>The alternatives of \<open>_TOKEN\<close> at one position, in their order.\<close>

definition match_token :: "string \<Rightarrow> string option" where
  "match_token s = (
     if take 1 s = ''('' then Some ''(''
     else if take 1 s = '')'' then Some '')''
     else if keyword ''AND'' s then Some ''AND''
     else if keyword ''OR'' s then Some ''OR''
     else if keyword ''WITH'' s then Some ''WITH''
     else case s of [] \<Rightarrow> None
       | c # cs \<Rightarrow> if is_alnum c then Some (c # takeWhile id_char cs) else None)"

lemma match_token_nonempty: "match_token s = Some t \<Longrightarrow> t \<noteq> []"
  by (auto simp: match_token_def split: if_splits list.splits)

text \<open>\<open>findall\<close>: the next match at this position, or one character further.\<close>

function tokens :: "string \<Rightarrow> string list" where
  "tokens s = (if s = [] then [] else case match_token s of
     Some t \<Rightarrow> t # tokens (drop (length t) s) | None \<Rightarrow> tokens (tl s))"
  by pat_completeness auto
termination
  by (relation "measure length") (auto dest!: match_token_nonempty)

declare tokens.simps [simp del]

section \<open>The parser\<close>

datatype spdx_error = Malformed | NoFuel

type_synonym parse_result = "spdx_error + spdx_class set \<times> string list"

definition spdx_reserved :: "string list" where
  "spdx_reserved = [''AND'', ''OR'', ''WITH'', '')'']"

definition syscall_ids :: "string list" where
  "syscall_ids = [''GPL-2.0'', ''GPL-2.0-only'', ''GPL-2.0+'', ''GPL-2.0-or-later'']"

text \<open>
  The position in the token list is the list of the tokens that remain. \<open>atom\<close> calls \<open>disjunction\<close>
  for a parenthesis; \<open>conjunction\<close> and \<open>disjunction\<close> are the same loop over an operand parser and a
  separator. One fuel bounds the depth of the parentheses and the length of the loops;
  more than the number of tokens is enough (\<open>spdx_parser_returns\<close>).
\<close>

definition atom :: "(string list \<Rightarrow> parse_result) \<Rightarrow> string list \<Rightarrow> parse_result" where
  "atom disjunction ts = (case ts of
     [] \<Rightarrow> Inl Malformed
   | t # rest \<Rightarrow>
       if t = ''('' then bindE (disjunction rest) (\<lambda>(result, rest).
         case rest of [] \<Rightarrow> Inl Malformed
         | c # rest \<Rightarrow> if c \<noteq> '')'' then Inl Malformed else Inr (result, rest))
       else if t \<in> set spdx_reserved then Inl Malformed
       else if take 1 rest = [''WITH''] then
         (case tl rest of [] \<Rightarrow> Inl Malformed
          | e # rest \<Rightarrow> if e \<noteq> ''Linux-syscall-note'' \<or> t \<notin> set syscall_ids then Inr ({Unknown}, rest)
              else Inr ({license_of t}, rest))
       else Inr ({license_of t}, rest))"

fun operand_loop :: "string \<Rightarrow> (string list \<Rightarrow> parse_result) \<Rightarrow> nat \<Rightarrow> spdx_class set \<Rightarrow> string list \<Rightarrow> parse_result" where
  "operand_loop sep operand 0 result ts = Inl NoFuel"
| "operand_loop sep operand (Suc n) result ts = (if take 1 ts = [sep]
     then bindE (operand (tl ts)) (\<lambda>(more, rest). operand_loop sep operand n (result \<union> more) rest)
     else Inr (result, ts))"

definition operands :: "string \<Rightarrow> (string list \<Rightarrow> parse_result) \<Rightarrow> nat \<Rightarrow> string list \<Rightarrow> parse_result" where
  "operands sep operand n ts = bindE (operand ts) (\<lambda>(result, rest). operand_loop sep operand n result rest)"

primrec disjunction :: "nat \<Rightarrow> string list \<Rightarrow> parse_result" where
  "disjunction 0 = (\<lambda>ts. Inl NoFuel)"
| "disjunction (Suc n) = operands ''OR'' (operands ''AND'' (atom (disjunction n)) n) n"

abbreviation conjunction :: "nat \<Rightarrow> string list \<Rightarrow> parse_result" where
  "conjunction n \<equiv> operands ''AND'' (atom (disjunction n)) n"

definition license_class :: "string \<Rightarrow> spdx_class" where
  "license_class expression = (let ts = tokens expression in
     if ts = [] \<or> concat ts \<noteq> filter (\<lambda>c. \<not> is_space c) expression then Unknown
     else case disjunction (Suc (length ts)) ts of
       Inl e \<Rightarrow> Unknown
     | Inr (classes, rest) \<Rightarrow>
         if rest \<noteq> [] then Unknown
         else if Restricted \<in> classes then Restricted
         else if Unknown \<in> classes then Unknown
         else if Obligations \<in> classes then Obligations
         else Permissive)"

section \<open>The parser always returns\<close>

text \<open>Every parser consumes at least one token, so the fuel is enough.\<close>

definition consuming :: "(string list \<Rightarrow> parse_result) \<Rightarrow> bool" where
  "consuming p \<longleftrightarrow> (\<forall>ts c rest. p ts = Inr (c, rest) \<longrightarrow> length rest < length ts)"

definition fueled :: "nat \<Rightarrow> (string list \<Rightarrow> parse_result) \<Rightarrow> bool" where
  "fueled n p \<longleftrightarrow> (\<forall>ts. length ts < n \<longrightarrow> p ts \<noteq> Inl NoFuel)"

lemma consumingD: "consuming p \<Longrightarrow> p ts = Inr (c, rest) \<Longrightarrow> length rest < length ts"
  unfolding consuming_def by blast

lemma loop_consumes:
  "consuming p \<Longrightarrow> operand_loop sep p n acc ts = Inr (c, rest) \<Longrightarrow> length rest \<le> length ts"
proof (induction n arbitrary: acc ts)
  case (Suc n)
  show ?case
  proof (cases "take 1 ts = [sep]")
    case True
    with Suc.prems(2) obtain more rest' where p: "p (tl ts) = Inr (more, rest')"
        "operand_loop sep p n (acc \<union> more) rest' = Inr (c, rest)" by auto
    from consumingD [OF Suc.prems(1) p(1)] Suc.IH [OF Suc.prems(1) p(2)] show ?thesis by simp
  qed (use Suc.prems in simp)
qed simp

lemma operands_Inr:
  assumes "operands sep p n ts = Inr (c, rest)"
  obtains c' rest' where "p ts = Inr (c', rest')" and "operand_loop sep p n c' rest' = Inr (c, rest)"
  using assms by (auto simp: operands_def)

lemma operands_consume:
  assumes "consuming p"
  shows "consuming (operands sep p n)"
  unfolding consuming_def
proof (intro allI impI)
  fix ts c rest assume "operands sep p n ts = Inr (c, rest)"
  then obtain c' rest' where r: "p ts = Inr (c', rest')" "operand_loop sep p n c' rest' = Inr (c, rest)"
    by (rule operands_Inr)
  from consumingD [OF assms r(1)] loop_consumes [OF assms r(2)] show "length rest < length ts" by simp
qed

text \<open>The three ways an atom is read.\<close>

definition license_token :: "string \<Rightarrow> bool" where
  "license_token t \<longleftrightarrow> t \<noteq> ''('' \<and> t \<notin> set spdx_reserved"

definition exception_class :: "string \<Rightarrow> string \<Rightarrow> spdx_class" where
  "exception_class t e = (if e = ''Linux-syscall-note'' \<and> t \<in> set syscall_ids then license_of t else Unknown)"

lemma atom_paren: "atom d (''('' # ts) = bindE (d ts) (\<lambda>(result, rest).
    case rest of [] \<Rightarrow> Inl Malformed | c # rest \<Rightarrow> if c \<noteq> '')'' then Inl Malformed else Inr (result, rest))"
  by (simp add: atom_def)

lemma atom_exception: "license_token t \<Longrightarrow> atom d (t # ''WITH'' # e # rest) = Inr ({exception_class t e}, rest)"
  by (simp add: atom_def license_token_def exception_class_def)

lemma atom_license: "license_token t \<Longrightarrow> take 1 rest \<noteq> [''WITH''] \<Longrightarrow> atom d (t # rest) = Inr ({license_of t}, rest)"
  by (simp add: atom_def license_token_def)

lemma atom_bad: "t \<noteq> ''('' \<Longrightarrow> \<not> license_token t \<Longrightarrow> atom d (t # rest) = Inl Malformed"
  by (simp add: atom_def license_token_def)

lemma atom_dangling: "license_token t \<Longrightarrow> atom d [t, ''WITH''] = Inl Malformed"
  by (simp add: atom_def license_token_def)

lemma atom_cases:
  obtains (nil) "ts = []"
    | (paren) rest where "ts = ''('' # rest"
    | (bad) t rest where "ts = t # rest" "t \<noteq> ''(''" "\<not> license_token t"
    | (dangling) t where "ts = [t, ''WITH'']" "license_token t"
    | (exception) t e rest where "ts = t # ''WITH'' # e # rest" "license_token t"
    | (license) t rest where "ts = t # rest" "license_token t" "take 1 rest \<noteq> [''WITH'']"
proof (cases ts)
  case Nil
  then show ?thesis by (rule that(1))
next
  case (Cons t rest)
  show ?thesis
  proof (cases "t = ''('' \<or> \<not> license_token t")
    case True
    with Cons that(2,3) show ?thesis by blast
  next
    case False
    show ?thesis
    proof (cases "take 1 rest = [''WITH'']")
      case True
      then obtain ts' where rest: "rest = ''WITH'' # ts'" by (cases rest) auto
      from rest Cons False that(4,5) show ?thesis by (cases ts') blast+
    qed (use Cons False that(6) in blast)
  qed
qed

lemma atom_Inr:
  assumes "atom d ts = Inr (c, rest)"
  obtains (paren) inner where "ts = ''('' # inner" and "d inner = Inr (c, '')'' # rest)"
    | (exception) t e where "ts = t # ''WITH'' # e # rest" and "license_token t" and "c = {exception_class t e}"
    | (license) t where "ts = t # rest" and "license_token t" and "c = {license_of t}" and "take 1 rest \<noteq> [''WITH'']"
proof (cases rule: atom_cases [of ts])
  case nil
  with assms show ?thesis by (simp add: atom_def)
next
  case (paren inner)
  with assms obtain r ts' where "d inner = Inr (r, ts')" by (auto simp: atom_paren)
  with assms paren that(1) show ?thesis by (auto simp: atom_paren split: list.splits if_splits)
next
  case (bad t rest')
  with assms atom_bad show ?thesis by simp
next
  case (dangling t)
  with assms atom_dangling show ?thesis by simp
next
  case (exception t e rest')
  with assms that(2) atom_exception show ?thesis by simp
next
  case (license t rest')
  with assms that(3) atom_license show ?thesis by auto
qed

lemma atom_consumes:
  assumes "consuming d"
  shows "consuming (atom d)"
  unfolding consuming_def
proof (intro allI impI)
  fix ts c rest assume "atom d ts = Inr (c, rest)"
  then show "length rest < length ts"
    by (cases rule: atom_Inr) (auto dest: consumingD [OF assms])
qed

lemma disjunction_consumes: "consuming (disjunction n)"
  by (induction n) (simp_all add: consuming_def [of "\<lambda>ts. Inl NoFuel"] operands_consume atom_consumes)

lemma loop_fueled:
  assumes "consuming p" and "fueled m p" and "length ts < n" and "length ts \<le> m"
  shows "operand_loop sep p n acc ts \<noteq> Inl NoFuel"
  using assms(3,4)
proof (induction n arbitrary: acc ts)
  case (Suc n)
  show ?case
  proof (cases "take 1 ts = [sep]")
    case True
    then obtain t ts' where ts: "ts = t # ts'" by (cases ts) auto
    show ?thesis
    proof (cases "p ts'")
      case (Inl e)
      with assms(2) Suc.prems ts True show ?thesis by (auto simp: fueled_def)
    next
      case (Inr r)
      then obtain more rest where r: "p ts' = Inr (more, rest)" by (cases r) auto
      with Suc.IH [of rest "acc \<union> more"] consumingD [OF assms(1) r] Suc.prems ts True show ?thesis by simp
    qed
  qed simp
qed simp

lemma operands_fueled:
  assumes "consuming p" and "fueled (Suc n) p"
  shows "fueled (Suc n) (operands sep p n)"
  unfolding fueled_def
proof (intro allI impI)
  fix ts :: "string list" assume len: "length ts < Suc n"
  show "operands sep p n ts \<noteq> Inl NoFuel"
  proof (cases "p ts")
    case (Inl e)
    with assms(2) len show ?thesis by (auto simp: fueled_def operands_def)
  next
    case (Inr r)
    then obtain c rest where r: "p ts = Inr (c, rest)" by (cases r) auto
    from consumingD [OF assms(1) r] len have "length rest < n" by simp
    with loop_fueled [OF assms, of rest n sep c] r show ?thesis by (simp add: operands_def)
  qed
qed

lemma atom_fueled:
  assumes "fueled n d"
  shows "fueled (Suc n) (atom d)"
  unfolding fueled_def
proof (intro allI impI)
  fix ts :: "string list" assume len: "length ts < Suc n"
  show "atom d ts \<noteq> Inl NoFuel"
  proof (cases rule: atom_cases [of ts])
    case nil
    then show ?thesis by (simp add: atom_def)
  next
    case (paren rest)
    with assms len have "d rest \<noteq> Inl NoFuel" by (simp add: fueled_def)
    with paren show ?thesis by (auto simp: atom_paren bindE_eq_Inl split: list.splits if_splits)
  qed (simp_all add: atom_bad atom_dangling atom_exception atom_license)
qed

lemma disjunction_fueled: "fueled n (disjunction n)"
  by (induction n) (simp_all add: fueled_def [of 0] operands_fueled operands_consume atom_fueled atom_consumes
    disjunction_consumes)

text \<open>More fuel changes nothing once the fuel was enough.\<close>

definition extends :: "(string list \<Rightarrow> parse_result) \<Rightarrow> (string list \<Rightarrow> parse_result) \<Rightarrow> bool" where
  "extends p q \<longleftrightarrow> (\<forall>ts. p ts \<noteq> Inl NoFuel \<longrightarrow> q ts = p ts)"

lemma loop_extends:
  assumes "extends p q" and "operand_loop sep p n acc ts \<noteq> Inl NoFuel"
  shows "operand_loop sep q (Suc n) acc ts = operand_loop sep p n acc ts"
  using assms(2)
proof (induction n arbitrary: acc ts)
  case (Suc n)
  show ?case
  proof (cases "take 1 ts = [sep]")
    case True
    with Suc.prems have "p (tl ts) \<noteq> Inl NoFuel" by auto
    then have same: "q (tl ts) = p (tl ts)" using assms(1) by (simp add: extends_def)
    show ?thesis
    proof (cases "p (tl ts)")
      case (Inr r)
      then obtain more rest where "p (tl ts) = Inr (more, rest)" by (cases r) auto
      with same True Suc show ?thesis by (simp del: operand_loop.simps add: operand_loop.simps(2) [of _ _ "Suc n"] operand_loop.simps(2) [of _ _ n])
    qed (use same True in simp)
  qed simp
qed simp

lemma operands_extend:
  assumes "extends p q"
  shows "extends (operands sep p n) (operands sep q (Suc n))"
  unfolding extends_def
proof (intro allI impI)
  fix ts assume defined: "operands sep p n ts \<noteq> Inl NoFuel"
  then have "p ts \<noteq> Inl NoFuel" by (auto simp: operands_def)
  then have same: "q ts = p ts" using assms by (simp add: extends_def)
  show "operands sep q (Suc n) ts = operands sep p n ts"
  proof (cases "p ts")
    case (Inr r)
    then obtain c rest where "p ts = Inr (c, rest)" by (cases r) auto
    with same defined loop_extends [OF assms] show ?thesis
      by (simp del: operand_loop.simps add: operands_def)
  qed (use same in \<open>simp add: operands_def\<close>)
qed

lemma atom_extends:
  assumes "extends d e"
  shows "extends (atom d) (atom e)"
  unfolding extends_def
proof (intro allI impI)
  fix ts assume defined: "atom d ts \<noteq> Inl NoFuel"
  show "atom e ts = atom d ts"
  proof (cases rule: atom_cases [of ts])
    case (paren rest)
    with defined have "d rest \<noteq> Inl NoFuel" by (auto simp: atom_paren)
    with assms paren show ?thesis by (simp add: atom_paren extends_def)
  qed (simp_all add: atom_def [of _ "[]"] atom_bad atom_dangling atom_exception atom_license)
qed

lemma disjunction_extends: "extends (disjunction n) (disjunction (Suc n))"
proof (induction n)
  case 0
  show ?case by (simp add: extends_def)
next
  case (Suc n)
  from operands_extend [OF operands_extend [OF atom_extends [OF this]], of "''OR''" "''AND''" n n]
  show ?case by (simp only: disjunction.simps)
qed

lemma disjunction_more_fuel:
  "disjunction n ts \<noteq> Inl NoFuel \<Longrightarrow> disjunction (n + k) ts = disjunction n ts"
  using disjunction_extends by (induction k) (simp_all add: extends_def)

text \<open>
  C31. Parsing a license expression always returns. With more fuel than there are tokens the
  recursive-descent parser never runs out of it, and any larger fuel gives the same result.
\<close>

theorem spdx_parser_returns:
  "disjunction (Suc (length ts)) ts \<noteq> Inl NoFuel
   \<and> disjunction (Suc (length ts) + k) ts = disjunction (Suc (length ts)) ts"
proof -
  have "disjunction (Suc (length ts)) ts \<noteq> Inl NoFuel"
    using disjunction_fueled [of "Suc (length ts)"] unfolding fueled_def by blast
  with disjunction_more_fuel show ?thesis by blast
qed

section \<open>The grammar\<close>

datatype spdx_tree = License string | Exception string string | Both spdx_tree spdx_tree | Either spdx_tree spdx_tree

fun classes :: "spdx_tree \<Rightarrow> spdx_class set" where
  "classes (License t) = {license_of t}"
| "classes (Exception t e) = {exception_class t e}"
| "classes (Both a b) = classes a \<union> classes b"
| "classes (Either a b) = classes a \<union> classes b"

text \<open>Operands with a separator between them, grouped to the left.\<close>

inductive separated :: "string \<Rightarrow> (spdx_tree \<Rightarrow> spdx_tree \<Rightarrow> spdx_tree) \<Rightarrow> (string list \<Rightarrow> spdx_tree \<Rightarrow> bool)
    \<Rightarrow> string list \<Rightarrow> spdx_tree \<Rightarrow> bool" for sep node operand where
  one: "operand w t \<Longrightarrow> separated sep node operand w t"
| more: "separated sep node operand w t \<Longrightarrow> operand v u \<Longrightarrow> separated sep node operand (w @ sep # v) (node t u)"

lemma separated_mono [mono]: "p \<le> q \<Longrightarrow> separated sep node p \<le> separated sep node q"
proof (rule predicate2I)
  fix w t assume "p \<le> q" "separated sep node p w t"
  from this(2) show "separated sep node q w t"
    by induction (auto intro: separated.intros predicate2D [OF \<open>p \<le> q\<close>])
qed

inductive spdx_atom :: "string list \<Rightarrow> spdx_tree \<Rightarrow> bool" where
  license: "license_token t \<Longrightarrow> spdx_atom [t] (License t)"
| exception: "license_token t \<Longrightarrow> spdx_atom [t, ''WITH'', e] (Exception t e)"
| paren: "separated ''OR'' Either (separated ''AND'' Both spdx_atom) w t \<Longrightarrow> spdx_atom (''('' # w @ ['')'']) t"

abbreviation spdx_expression :: "string list \<Rightarrow> spdx_tree \<Rightarrow> bool" where
  "spdx_expression \<equiv> separated ''OR'' Either (separated ''AND'' Both spdx_atom)"

lemma classes_nonempty: "classes t \<noteq> {} \<and> finite (classes t)"
  by (induction t) auto

text \<open>Whatever the parser accepts is an expression with these classes.\<close>

definition sound :: "(string list \<Rightarrow> parse_result) \<Rightarrow> (string list \<Rightarrow> spdx_tree \<Rightarrow> bool) \<Rightarrow> bool" where
  "sound p g \<longleftrightarrow> (\<forall>ts c rest. p ts = Inr (c, rest) \<longrightarrow> (\<exists>w t. ts = w @ rest \<and> g w t \<and> c = classes t))"

lemma soundD: "sound p g \<Longrightarrow> p ts = Inr (c, rest) \<Longrightarrow> \<exists>w t. ts = w @ rest \<and> g w t \<and> c = classes t"
  unfolding sound_def by blast

lemma loop_sound:
  assumes "sound p g" and node: "\<And>a b. classes (node a b) = classes a \<union> classes b"
  shows "operand_loop sep p n (classes t) ts = Inr (c, rest) \<Longrightarrow> separated sep node g w t
    \<Longrightarrow> \<exists>v u. ts = v @ rest \<and> separated sep node g (w @ v) u \<and> c = classes u"
proof (induction n arbitrary: t ts w)
  case (Suc n)
  show ?case
  proof (cases "take 1 ts = [sep]")
    case True
    with Suc.prems(1) obtain more rest' where p: "p (tl ts) = Inr (more, rest')"
        "operand_loop sep p n (classes t \<union> more) rest' = Inr (c, rest)" by auto
    from soundD [OF assms(1) p(1)] obtain v u where v: "tl ts = v @ rest'" "g v u" "more = classes u" by blast
    from True v(1) have ts: "ts = sep # v @ rest'" by (cases ts) auto
    have "separated sep node g (w @ sep # v) (node t u)" by (rule separated.more [OF Suc.prems(2) v(2)])
    from Suc.IH [OF _ this, of rest'] p(2) v(3) node obtain v' u' where
      "rest' = v' @ rest" "separated sep node g ((w @ sep # v) @ v') u'" "c = classes u'" by auto
    with ts show ?thesis by (intro exI [of _ "sep # v @ v'"] exI [of _ u']) simp
  qed (use Suc.prems in auto)
qed simp

lemma operands_sound:
  assumes "sound p g" and "\<And>a b. classes (node a b) = classes a \<union> classes b"
  shows "sound (operands sep p n) (separated sep node g)"
  unfolding sound_def
proof (intro allI impI)
  fix ts c rest assume "operands sep p n ts = Inr (c, rest)"
  then obtain c' rest' where r: "p ts = Inr (c', rest')" "operand_loop sep p n c' rest' = Inr (c, rest)"
    by (rule operands_Inr)
  from soundD [OF assms(1) r(1)] obtain w t where w: "ts = w @ rest'" "g w t" "c' = classes t" by blast
  from loop_sound [OF assms, of sep n t rest' c rest w] r(2) w obtain v u where
    "rest' = v @ rest" "separated sep node g (w @ v) u" "c = classes u" by (auto intro: separated.one)
  with w(1) show "\<exists>w t. ts = w @ rest \<and> separated sep node g w t \<and> c = classes t" by fastforce
qed

lemma atom_sound:
  assumes "sound d spdx_expression"
  shows "sound (atom d) spdx_atom"
  unfolding sound_def
proof (intro allI impI)
  fix ts c rest assume "atom d ts = Inr (c, rest)"
  then show "\<exists>w t. ts = w @ rest \<and> spdx_atom w t \<and> c = classes t"
  proof (cases rule: atom_Inr)
    case (paren inner)
    from soundD [OF assms paren(2)] obtain w t where "inner = w @ '')'' # rest" "spdx_expression w t" "c = classes t" by blast
    with paren(1) show ?thesis by (intro exI [of _ "''('' # w @ ['')'']"] exI [of _ t]) (simp add: spdx_atom.paren)
  next
    case (exception t e)
    then show ?thesis by (intro exI [of _ "[t, ''WITH'', e]"] exI [of _ "Exception t e"]) (simp add: spdx_atom.exception)
  next
    case (license t)
    then show ?thesis by (intro exI [of _ "[t]"] exI [of _ "License t"]) (simp add: spdx_atom.license)
  qed
qed

lemma disjunction_sound: "sound (disjunction n) spdx_expression"
proof (induction n)
  case 0
  show ?case by (simp add: sound_def)
next
  case (Suc n)
  then show ?case by (simp add: operands_sound atom_sound)
qed

text \<open>Every expression is accepted with its classes, whatever follows that cannot continue it.\<close>

definition complete_on :: "(string list \<Rightarrow> parse_result) \<Rightarrow> (string list \<Rightarrow> bool) \<Rightarrow> string list \<Rightarrow> spdx_tree \<Rightarrow> bool" where
  "complete_on p follow w t \<longleftrightarrow> (\<forall>rest. follow rest \<longrightarrow> p (w @ rest) = Inr (classes t, rest))"

lemma loop_complete:
  assumes "separated sep node (\<lambda>w t. w \<noteq> [] \<and> complete_on p follow w t) w t"
    and node: "\<And>a b. classes (node a b) = classes a \<union> classes b" and follow: "\<And>ts. follow (sep # ts)"
  shows "\<exists>k. k < length w \<and> (\<forall>m rest. follow rest \<longrightarrow>
    operands sep p (k + m) (w @ rest) = operand_loop sep p m (classes t) rest)"
  using assms(1)
proof induction
  case (one w t)
  then show ?case by (intro exI [of _ 0]) (auto simp: operands_def complete_on_def)
next
  case (more w t v u)
  from more.IH obtain k where k: "k < length w"
    "\<And>m rest. follow rest \<Longrightarrow> operands sep p (k + m) (w @ rest) = operand_loop sep p m (classes t) rest" by blast
  show ?case
  proof (intro exI [of _ "Suc k"] conjI allI impI)
    show "Suc k < length (w @ sep # v)" using k(1) by simp
    fix m rest assume f: "follow rest"
    have "operands sep p (Suc k + m) ((w @ sep # v) @ rest) = operand_loop sep p (Suc m) (classes t) (sep # v @ rest)"
      using k(2) [of "sep # v @ rest" "Suc m"] follow by simp
    also have "\<dots> = operand_loop sep p m (classes (node t u)) rest"
      using more.hyps f by (simp add: complete_on_def node)
    finally show "operands sep p (Suc k + m) ((w @ sep # v) @ rest) = operand_loop sep p m (classes (node t u)) rest" .
  qed
qed

lemma operands_complete:
  assumes "separated sep node (\<lambda>w t. w \<noteq> [] \<and> complete_on p follow w t) w t"
    and "\<And>a b. classes (node a b) = classes a \<union> classes b" and "\<And>ts. follow (sep # ts)" and "length w \<le> n"
  shows "w \<noteq> [] \<and> complete_on (operands sep p n) (\<lambda>rest. follow rest \<and> take 1 rest \<noteq> [sep]) w t"
proof -
  obtain k where k: "k < length w" "\<forall>m rest. follow rest \<longrightarrow>
      operands sep p (k + m) (w @ rest) = operand_loop sep p m (classes t) rest"
    using loop_complete [OF assms(1-3)] by blast
  obtain m where "n = k + Suc m" using k(1) assms(4) less_imp_Suc_add [of k n] by auto
  with k(2) [rule_format, of _ "Suc m"] k(1) show ?thesis by (auto simp: complete_on_def)
qed

lemma separated_weaken:
  assumes "separated sep node g w t" and "\<And>v u. g v u \<Longrightarrow> length v \<le> length w \<Longrightarrow> h v u"
  shows "separated sep node h w t"
  using assms
proof induction
  case (more w t v u)
  have "separated sep node h w t" by (rule more.IH) (use more.prems in simp)
  moreover have "h v u" using more.hyps(2) more.prems by simp
  ultimately show ?case by (rule separated.more)
qed (auto intro: separated.one)

abbreviation ends_atom :: "string list \<Rightarrow> bool" where
  "ends_atom rest \<equiv> take 1 rest \<noteq> [''WITH'']"

abbreviation ends_conjunction :: "string list \<Rightarrow> bool" where
  "ends_conjunction rest \<equiv> ends_atom rest \<and> take 1 rest \<noteq> [''AND'']"

abbreviation ends_expression :: "string list \<Rightarrow> bool" where
  "ends_expression rest \<equiv> ends_conjunction rest \<and> take 1 rest \<noteq> [''OR'']"

abbreviation atom_read :: "nat \<Rightarrow> string list \<Rightarrow> spdx_tree \<Rightarrow> bool" where
  "atom_read n w t \<equiv> w \<noteq> [] \<and> complete_on (atom (disjunction n)) ends_atom w t"

lemma expression_read:
  assumes "separated ''OR'' Either (separated ''AND'' Both (atom_read n)) w t" and "length w \<le> n"
  shows "complete_on (disjunction (Suc n)) ends_expression w t"
proof -
  have "separated ''OR'' Either (\<lambda>w t. w \<noteq> [] \<and> complete_on (conjunction n) ends_conjunction w t) w t"
  proof (rule separated_weaken [OF assms(1)])
    fix v u assume "separated ''AND'' Both (atom_read n) v u" "length v \<le> length w"
    from operands_complete [OF this(1), of n] this(2) assms(2)
    show "v \<noteq> [] \<and> complete_on (conjunction n) ends_conjunction v u" by simp
  qed
  from operands_complete [OF this, of n] assms(2) show ?thesis by simp
qed

lemma spdx_atom_read: "spdx_atom w t \<Longrightarrow> length w \<le> n \<Longrightarrow> atom_read n w t"
proof (induction arbitrary: n rule: spdx_atom.induct)
  case (license t)
  then show ?case by (simp add: complete_on_def atom_license)
next
  case (exception t e)
  then show ?case by (simp add: complete_on_def atom_exception)
next
  case (paren w t)
  then obtain m where n: "n = Suc m" "length w \<le> m" by (cases n) auto
  have "separated ''OR'' Either (separated ''AND'' Both (atom_read m)) w t"
  proof (rule separated_weaken [OF paren.IH])
    fix v u assume v: "separated ''AND'' Both (\<lambda>w t. spdx_atom w t \<and> (\<forall>n. length w \<le> n \<longrightarrow> atom_read n w t)) v u"
      "length v \<le> length w"
    show "separated ''AND'' Both (atom_read m) v u"
      by (rule separated_weaken [OF v(1)]) (use v(2) n(2) in auto)
  qed
  from expression_read [OF this n(2)] have "disjunction n (w @ '')'' # rest) = Inr (classes t, '')'' # rest)" for rest
    by (simp add: n(1) complete_on_def)
  then show ?case by (simp add: complete_on_def atom_paren)
qed

lemma disjunction_complete:
  assumes "spdx_expression w t" and "length w \<le> n"
  shows "disjunction (Suc n) w = Inr (classes t, [])"
proof -
  have "separated ''OR'' Either (separated ''AND'' Both (atom_read n)) w t"
  proof (rule separated_weaken [OF assms(1)])
    fix v u assume v: "separated ''AND'' Both spdx_atom v u" "length v \<le> length w"
    show "separated ''AND'' Both (atom_read n) v u"
      by (rule separated_weaken [OF v(1)]) (use v(2) assms(2) spdx_atom_read in auto)
  qed
  from expression_read [OF this assms(2)] have "disjunction (Suc n) (w @ []) = Inr (classes t, [])"
    unfolding complete_on_def by (elim allE [of _ "[]"]) simp
  then show ?thesis by simp
qed

lemma expression_nonempty: "\<not> spdx_expression [] t"
proof
  assume "spdx_expression [] t"
  from disjunction_complete [OF this, of 0] show False by (simp add: operands_def atom_def)
qed

section \<open>The class of an expression\<close>

definition well_formed :: "string \<Rightarrow> spdx_tree \<Rightarrow> bool" where
  "well_formed expression t \<longleftrightarrow> spdx_expression (tokens expression) t
     \<and> concat (tokens expression) = filter (\<lambda>c. \<not> is_space c) expression"

lemma worst_class:
  assumes "finite C" and "C \<noteq> {}"
  shows "(if Restricted \<in> C then Restricted else if Unknown \<in> C then Unknown
    else if Obligations \<in> C then Obligations else Permissive) = Max C" (is "?worst = _")
proof (rule sym, rule Max_eqI [OF assms(1)])
  show "?worst \<in> C" using assms(2) by (metis (full_types) equals0I spdx_class.exhaust)
  show "c \<le> ?worst" if "c \<in> C" for c
    using that by (cases c) (auto simp: less_eq_spdx_class_def)
qed

lemma license_class_of:
  assumes "well_formed expression t"
  shows "license_class expression = Max (classes t)"
proof -
  let ?ts = "tokens expression"
  from assms have e: "spdx_expression ?ts t" "concat ?ts = filter (\<lambda>c. \<not> is_space c) expression"
    by (simp_all add: well_formed_def)
  then have "?ts \<noteq> []" using expression_nonempty by metis
  with e disjunction_complete [OF e(1), of "length ?ts"] worst_class classes_nonempty [of t]
  show ?thesis by (simp add: license_class_def Let_def)
qed

lemma license_class_none:
  assumes "\<nexists>t. well_formed expression t"
  shows "license_class expression = Unknown"
proof (cases "tokens expression = [] \<or> concat (tokens expression) \<noteq> filter (\<lambda>c. \<not> is_space c) expression")
  case False
  let ?ts = "tokens expression"
  have "\<nexists>cs. disjunction (Suc (length ?ts)) ?ts = Inr (cs, [])"
    using soundD [OF disjunction_sound, of "Suc (length ?ts)" ?ts _ "[]"] assms False
    by (auto simp: well_formed_def)
  with False show ?thesis by (auto simp: license_class_def Let_def split: sum.split)
qed (auto simp: license_class_def)

lemma license_class_good:
  "license_class expression \<in> {Permissive, Obligations}
    \<longleftrightarrow> (\<exists>t. well_formed expression t \<and> classes t \<subseteq> {Permissive, Obligations})"
proof (cases "\<exists>t. well_formed expression t")
  case True
  have "Max (classes t) \<in> {Permissive, Obligations} \<longleftrightarrow> classes t \<subseteq> {Permissive, Obligations}" for t
  proof -
    have good: "c \<in> {Permissive, Obligations} \<longleftrightarrow> c \<le> Obligations" for c
      by (cases c) (simp_all add: less_eq_spdx_class_def)
    have "Max (classes t) \<le> Obligations \<longleftrightarrow> (\<forall>c \<in> classes t. c \<le> Obligations)"
      using classes_nonempty by simp
    then show ?thesis unfolding subset_iff good by blast
  qed
  with True show ?thesis by (metis license_class_of)
qed (simp add: license_class_none)

text \<open>
  C21. A license expression has the worst class of its parts. If the expression is one of the
  grammar, it is classified as the most severe of the classes of all its licenses, alternatives
  of an \<open>OR\<close> included, whichever way it is read; every other string is unknown.
\<close>

theorem license_class_is_worst:
  "license_class expression = c \<longleftrightarrow>
     (if \<exists>t. well_formed expression t then \<exists>t. well_formed expression t \<and> c = Max (classes t) else c = Unknown)"
  using license_class_of license_class_none by metis

theorem license_class_is_worst_witness:
  "\<exists>t. well_formed ''MIT OR (GPL-2.0-only WITH Linux-syscall-note AND CC-BY-NC-4.0)'' t \<and> Max (classes t) = Restricted"
proof -
  have "license_class ''MIT OR (GPL-2.0-only WITH Linux-syscall-note AND CC-BY-NC-4.0)'' = Restricted" by code_simp
  then show ?thesis unfolding license_class_is_worst by (metis spdx_class.distinct)
qed

end
