(* ===== verification/Rights.thy ===== *)
theory Rights
  imports Spdx Project_Spec "HOL-Library.Product_Lexorder" "HOL-Library.Sublist"
begin

text \<open>
  \<open>src/sparselab/corpus/rights.py\<close>: whether a file may be used for training and how it may be
  redistributed, from the declared policy of its source, the license headers of the file and
  nested license metadata.

  A policy is a record and its validators are one function. Metadata documents are JSON values;
  a wrong type anywhere raises. A file is the list of its bytes, as characters; texts are ASCII, so
  decoding them changes nothing. \<open>PurePosixPath\<close> of a checked path has its parts, and
  \<open>safe_name\<close> of \<open>Project_Spec\<close> is the same check as \<open>_safe_path\<close>.
\<close>

section \<open>Policies\<close>

datatype eligibility = Eligible | EligibleWithObligations | ReviewRequired | Ineligible

datatype redistribution_mode = SourceTerms | MetadataOnly | DerivedOnly | NotRedistributable | RedistributionReview

datatype restriction_kind = Prohibited | Conditional

record training_restriction =
  tr_kind :: restriction_kind
  tr_basis :: string

record rights_policy =
  rp_training :: eligibility
  rp_redistribution :: redistribution_mode
  rp_spdx :: "string option"
  rp_references :: "string list"
  rp_notices :: "string list"
  rp_restriction :: "training_restriction option"
  rp_allowed :: "string list"
  rp_metadata :: "string option"

datatype rights_error = BlankBasis | UnsafeRightsPath | NotMetadataName | BlankSpdx | BlankEntry
  | ProhibitedNotIneligible | ConditionalEligible
  | NotAnObject | NotIterable | NodeName | UnrecognizedNode | BlankLicense | EntryPaths | FilesRoot
  | MetadataKey

definition safe_rights_path :: "string \<Rightarrow> rights_error + string" where
  "safe_rights_path p = (if safe_name p then Inr p else Inl UnsafeRightsPath)"

definition rstrip_slash :: "string \<Rightarrow> string" where
  "rstrip_slash s = rev (dropWhile (\<lambda>c. c = CHR ''/'') (rev s))"

definition path_name :: "string \<Rightarrow> string" where
  "path_name p = last (split_on CHR ''/'' p)"

definition valid_rights_policy :: "rights_policy \<Rightarrow> rights_error + unit" where
  "valid_rights_policy p =
     bindE (case rp_restriction p of None \<Rightarrow> Inr () | Some r \<Rightarrow> guardE (\<not> blank (tr_basis r)) BlankBasis) (\<lambda>_.
     bindE (case rp_metadata p of None \<Rightarrow> Inr ()
       | Some m \<Rightarrow> bindE (safe_rights_path m) (\<lambda>_. guardE (path_name m = ''license-metadata.json'') NotMetadataName)) (\<lambda>_.
     bindE (guardE (case rp_spdx p of None \<Rightarrow> True | Some e \<Rightarrow> \<not> blank e) BlankSpdx) (\<lambda>_.
     bindE (guardE (list_all (\<lambda>v. \<not> blank v) (rp_references p @ rp_notices p)) BlankEntry) (\<lambda>_.
     bindE (mapE (\<lambda>v. safe_rights_path (rstrip_slash v)) (rp_allowed p)) (\<lambda>_.
     case rp_restriction p of None \<Rightarrow> Inr () | Some r \<Rightarrow>
       if tr_kind r = Prohibited \<and> rp_training p \<noteq> Ineligible then Inl ProhibitedNotIneligible
       else if tr_kind r = Conditional \<and> rp_training p \<in> {Eligible, EligibleWithObligations} then Inl ConditionalEligible
       else Inr ())))))"

section \<open>Nested license metadata\<close>

text \<open>A match is the depth of the metadata file, the length of the scope and the license.\<close>

type_synonym license_match = "nat \<times> nat \<times> string"

definition under :: "string \<Rightarrow> string \<Rightarrow> bool" where
  "under scope path \<longleftrightarrow> scope = [] \<or> starts_with (scope @ ''/'') path"

definition add_match :: "string \<Rightarrow> string \<Rightarrow> json \<Rightarrow> bool \<Rightarrow> nat \<Rightarrow> rights_error + license_match list" where
  "add_match path scope license_id directory depth =
     (let l = (case license_id of JObj kvs \<Rightarrow> (case map_of kvs ''spdx'' of None \<Rightarrow> JNull | Some v \<Rightarrow> v) | v \<Rightarrow> v)
      in case l of
        JStr e \<Rightarrow> if blank e then Inl BlankLicense
          else Inr (if path = scope \<or> directory \<and> under scope path then [(depth, length scope, e)] else [])
      | _ \<Rightarrow> Inl BlankLicense)"

definition get_or :: "(string \<times> json) list \<Rightarrow> string \<Rightarrow> json \<Rightarrow> json" where
  "get_or kvs k fallback = (case map_of kvs k of None \<Rightarrow> fallback | Some v \<Rightarrow> v)"

text \<open>\<open>for x in v\<close>: a list, the characters of a string, the keys of an object.\<close>

definition iterate :: "json \<Rightarrow> rights_error + json list" where
  "iterate v = (case v of JList xs \<Rightarrow> Inr xs | JStr s \<Rightarrow> Inr (map (\<lambda>c. JStr [c]) s)
     | JObj kvs \<Rightarrow> Inr (map (\<lambda>(k, _). JStr k) kvs) | _ \<Rightarrow> Inl NotIterable)"

definition text_path :: "json \<Rightarrow> rights_error + string" where
  "text_path v = (case v of JStr s \<Rightarrow> Inr s | _ \<Rightarrow> Inl EntryPaths)"

definition join_scope :: "string \<Rightarrow> string \<Rightarrow> string" where
  "join_scope base name = (if base = [] then name else base @ ''/'' @ name)"

lemma size_map_of [termination_simp]: "map_of kvs k = Some v \<Longrightarrow> size v < Suc (size_list (size_prod (\<lambda>_. 0) size) kvs)"
  by (induction kvs) (auto split: if_splits)

lemma size_iterate: "iterate v = Inr xs \<Longrightarrow> x \<in> set xs \<Longrightarrow> size x \<le> size v"
  by (cases v) (auto simp: iterate_def dest: size_list_estimation' [of _ _ "size x" size])

lemma size_child:
  assumes "iterate (get_or kvs k (JList [])) = Inr cs" and "c \<in> set cs"
  shows "size c < Suc (size_list (size_prod (\<lambda>_. 0) size) kvs)"
proof (cases "map_of kvs k")
  case None
  with assms show ?thesis by (simp add: get_or_def iterate_def)
next
  case (Some v)
  with assms have "size c \<le> size v" by (auto simp: get_or_def intro: size_iterate)
  with size_map_of [OF Some] show ?thesis by simp
qed

lemma mapE_fundef_cong [fundef_cong]:
  "xs = ys \<Longrightarrow> (\<And>x. x \<in> set ys \<Longrightarrow> f x = g x) \<Longrightarrow> mapE f xs = mapE g ys"
  by (induction ys arbitrary: xs) auto

lemma bindE_fundef_cong [fundef_cong]:
  "r = s \<Longrightarrow> (\<And>x. s = Inr x \<Longrightarrow> f x = g x) \<Longrightarrow> bindE r f = bindE s g"
  by (cases s) auto

function walk :: "string \<Rightarrow> json \<Rightarrow> string \<Rightarrow> nat \<Rightarrow> rights_error + license_match list" where
  "walk path node base depth = (case node of
     JObj kvs \<Rightarrow>
       (let children = (\<lambda>scope. bindE (iterate (get_or kvs ''children'' (JList []))) (\<lambda>cs.
          bindE (mapE (\<lambda>c. walk path c scope depth) cs) (\<lambda>mss. Inr (concat mss)))) in
        case map_of kvs ''type'' of
          Some (JStr kind) \<Rightarrow>
            if kind = ''root'' then children base
            else if kind = ''directory'' \<or> kind = ''file'' then
              (case map_of kvs ''name'' of
                 Some (JStr name) \<Rightarrow>
                   bindE (if name = ''.'' then Inr base else bindE (safe_rights_path name) (\<lambda>n. Inr (join_scope base n))) (\<lambda>scope.
                   bindE (case map_of kvs ''license'' of None \<Rightarrow> Inr []
                     | Some l \<Rightarrow> add_match path scope l (kind = ''directory'') depth) (\<lambda>own.
                   bindE (children scope) (\<lambda>ms. Inr (own @ ms))))
               | _ \<Rightarrow> Inl NodeName)
            else if kind = ''group'' then
              (let license = get_or kvs ''license'' JNull in
               bindE (iterate (get_or kvs ''files'' (JList []))) (\<lambda>files.
               bindE (mapE (\<lambda>f. bindE (text_path f) (\<lambda>s. bindE (safe_rights_path s) (\<lambda>n.
                 add_match path (join_scope base n) license False depth))) files) (\<lambda>fs.
               bindE (iterate (get_or kvs ''directories'' (JList []))) (\<lambda>dirs.
               bindE (mapE (\<lambda>d. bindE (text_path d) (\<lambda>s. bindE (safe_rights_path (rstrip_slash s)) (\<lambda>n.
                 add_match path (join_scope base n) license True depth))) dirs) (\<lambda>ds.
               Inr (concat fs @ concat ds))))))
            else Inl UnrecognizedNode
        | _ \<Rightarrow> Inl UnrecognizedNode)
   | _ \<Rightarrow> Inl NotAnObject)"
  by pat_completeness auto
termination
  by (relation "measure (\<lambda>(path, node, base, depth). size node)")
     (auto intro: size_child)

declare walk.simps [simp del, code del]

lemmas walk_eqs [code] = walk.simps [where node = JNull, simplified] walk.simps [where node = "JBool b" for b, simplified]
  walk.simps [where node = "JInt i" for i, simplified] walk.simps [where node = "JStr s" for s, simplified]
  walk.simps [where node = "JList xs" for xs, simplified] walk.simps [where node = "JObj kvs" for kvs, unfolded json.case]

definition flat_path :: "string \<Rightarrow> string \<Rightarrow> nat \<Rightarrow> json \<Rightarrow> string \<Rightarrow> rights_error + license_match list" where
  "flat_path path base depth license relative =
     bindE (safe_rights_path (rstrip_slash relative)) (\<lambda>clean.
       add_match path (join_scope base clean) license (ends_with ''/'' relative) depth)"

text \<open>One entry of a flat \<open>files\<close> list.\<close>

definition flat_entry :: "string \<Rightarrow> string \<Rightarrow> nat \<Rightarrow> json \<Rightarrow> rights_error + license_match list" where
  "flat_entry path base depth entry = (case entry of
     JObj kvs \<Rightarrow>
       (let license = get_or kvs ''license'' (get_or kvs ''spdx_expression'' JNull);
            paths = get_or kvs ''paths'' (get_or kvs ''files'' (get_or kvs ''path'' (get_or kvs ''name'' JNull)))
        in case paths of
          JStr s \<Rightarrow> flat_path path base depth license s
        | JList xs \<Rightarrow> bindE (mapE (\<lambda>x. bindE (text_path x) (flat_path path base depth license)) xs) (\<lambda>mss. Inr (concat mss))
        | _ \<Rightarrow> Inl EntryPaths)
   | _ \<Rightarrow> Inl NotAnObject)"

text \<open>The matches of one metadata document; \<open>parent\<close> of a checked path drops its last part.\<close>

definition document_matches :: "string \<Rightarrow> string \<times> json \<Rightarrow> rights_error + license_match list" where
  "document_matches path = (\<lambda>(metadata_path, document).
     bindE (safe_rights_path metadata_path) (\<lambda>_.
     bindE (guardE (path_name metadata_path = ''license-metadata.json'') MetadataKey) (\<lambda>_.
     case document of
       JObj kvs \<Rightarrow>
         (let parents = butlast (split_on CHR ''/'' metadata_path);
              base = join_on CHR ''/'' parents;
              depth = length parents
          in case get_or kvs ''files'' JNull of
            JObj entries \<Rightarrow> walk path (JObj entries) base depth
          | JList entries \<Rightarrow> bindE (mapE (flat_entry path base depth) entries) (\<lambda>mss. Inr (concat mss))
          | _ \<Rightarrow> Inl FilesRoot)
     | _ \<Rightarrow> Inl NotAnObject)))"

definition metadata_matches :: "string \<Rightarrow> (string \<times> json) list \<Rightarrow> rights_error + license_match list" where
  "metadata_matches path nested = bindE (mapE (document_matches path) nested) (\<lambda>mss. Inr (concat mss))"

text \<open>The licenses at the greatest depth and, there, the longest scope.\<close>

definition most_specific :: "license_match list \<Rightarrow> string list" where
  "most_specific matches =
     (let best = Max (set (map (\<lambda>(d, n, _). (d, n)) matches))
      in remdups (map (\<lambda>(_, _, l). l) (filter (\<lambda>(d, n, _). (d, n) = best) matches)))"

definition metadata_expression :: "string \<Rightarrow> (string \<times> json) list \<Rightarrow> rights_error + string option \<times> bool" where
  "metadata_expression path nested = bindE (metadata_matches path nested) (\<lambda>matches.
     if matches = [] then Inr (None, False)
     else case most_specific matches of [l] \<Rightarrow> Inr (Some l, False) | _ \<Rightarrow> Inr (None, True))"

section \<open>License headers\<close>

text \<open>
  \<open>_SPDX_LINE.search\<close>: the leftmost occurrence of the literal, white space, a colon and a value up to the
  end of the line. The value starts at the first character that is not white space; if there is
  none, the expression matches the last white space that does not end a line.
\<close>

definition not_crlf :: "char \<Rightarrow> bool" where
  "not_crlf c \<longleftrightarrow> c \<noteq> CHR 0x0D \<and> c \<noteq> CHR 0x0A"

definition header_value :: "string \<Rightarrow> string option" where
  "header_value s = (case strip_left s of
     [] \<Rightarrow> (let spaces = filter not_crlf s in if spaces = [] then None else Some [last spaces])
   | rest \<Rightarrow> Some (takeWhile not_crlf rest))"

definition starts_with_ci :: "string \<Rightarrow> string \<Rightarrow> bool" where
  "starts_with_ci literal s \<longleftrightarrow> to_lower (take (length literal) s) = literal"

definition spdx_here :: "string \<Rightarrow> string option" where
  "spdx_here s = (let literal = ''spdx-license-identifier'' in
     if \<not> starts_with_ci literal s then None
     else case strip_left (drop (length literal) s) of
       [] \<Rightarrow> None
     | c # rest \<Rightarrow> if c = CHR '':'' then header_value rest else None)"

fun spdx_search :: "string \<Rightarrow> string option" where
  "spdx_search [] = None"
| "spdx_search (c # cs) = (case spdx_here (c # cs) of Some v \<Rightarrow> Some v | None \<Rightarrow> spdx_search cs)"

text \<open>The value without the end of a block comment, stripped.\<close>

definition uncomment :: "string \<Rightarrow> string" where
  "uncomment v = (let t = strip v in
     if ends_with ''*/'' t then strip (take (length t - 2) t)
     else if ends_with ''-->'' t then strip (take (length t - 3) t)
     else t)"

text \<open>\<open>_COPYRIGHT_LINE.search\<close>, with the character before the position.\<close>

fun copyright_search :: "bool \<Rightarrow> string \<Rightarrow> bool" where
  "copyright_search word_before [] = False"
| "copyright_search word_before (c # cs) =
     (\<not> word_before \<and> (starts_with_ci ''spdx-filecopyrighttext'' (c # cs)
        \<or> starts_with_ci ''copyright'' (c # cs) \<and> \<not> list_ex word_char (take 1 (drop 9 (c # cs))))
      \<or> copyright_search (word_char c) cs)"

definition header_lines :: "string \<Rightarrow> string \<Rightarrow> string list" where
  "header_lines path raw =
     (if list_ex (\<lambda>suffix. ends_with suffix path) [''.jsonl'', ''.json'', ''.parquet''] then []
      else take 30 (split_on CHR 0x0A raw))"

definition header_texts :: "string \<Rightarrow> string \<Rightarrow> string list" where
  "header_texts path raw = map strip (header_lines path raw)"

definition expressions :: "string list \<Rightarrow> string list" where
  "expressions texts = remdups (map uncomment (List.map_filter spdx_search texts))"

section \<open>Resolving a file\<close>

datatype rights_reason = ExternalBoundary "string list" | ConflictingEvidence | UnrecognizedExpression
  | RestrictiveLicense | TrainingRestricted restriction_kind string | PrivateCandidate | RecognizedTerms

record file_rights =
  fr_path :: string
  fr_detected :: "string option"
  fr_training :: eligibility
  fr_redistribution :: redistribution_mode
  fr_references :: "string list"
  fr_notices :: "string list"
  fr_restriction :: "training_restriction option"
  fr_flags :: "string list"
  fr_reasons :: "rights_reason list"

definition boundary_names :: "string list" where
  "boundary_names = [''vendor'', ''third_party'', ''third-party'', ''external'', ''generated'', ''bundled'', ''fixtures'']"

definition boundary_flags :: "string \<Rightarrow> string list" where
  "boundary_flags path =
     sort (remdups (filter (\<lambda>part. to_lower part \<in> set boundary_names) (split_on CHR ''/'' path)))"

definition boundary_allowed :: "rights_policy \<Rightarrow> string \<Rightarrow> bool" where
  "boundary_allowed policy path = list_ex (\<lambda>item. path = rstrip_slash item
     \<or> ends_with ''/'' item \<and> starts_with item path) (rp_allowed policy)"

text \<open>
  The evidence of a file: the license detected in it or in its metadata, and whether the sources of
  evidence contradict each other.
\<close>

definition detect :: "string list \<Rightarrow> string option \<times> bool \<Rightarrow> string option \<times> bool" where
  "detect found = (\<lambda>(metadata_license, metadata_conflict).
     let detected = (case found of [e] \<Rightarrow> Some e | _ \<Rightarrow> None)
     in case metadata_license of
       None \<Rightarrow> (detected, metadata_conflict)
     | Some m \<Rightarrow>
        (case detected of None \<Rightarrow> Some m | Some d \<Rightarrow> Some d,
         metadata_conflict \<or> (case detected of None \<Rightarrow> False | Some d \<Rightarrow> d \<noteq> m)))"

definition effective_expression :: "string option \<Rightarrow> rights_policy \<Rightarrow> string option" where
  "effective_expression detected policy =
     (case detected of None \<Rightarrow> rp_spdx policy | Some d \<Rightarrow> if d = [] then rp_spdx policy else Some d)"

definition classify :: "string option \<Rightarrow> spdx_class" where
  "classify effective = (case effective of None \<Rightarrow> Unknown | Some e \<Rightarrow> license_class e)"

definition review_reasons :: "rights_policy \<Rightarrow> string list \<Rightarrow> bool \<Rightarrow> bool \<Rightarrow> spdx_class \<Rightarrow> bool \<Rightarrow> rights_reason list" where
  "review_reasons policy flags allowed conflict classification prospective =
     (if flags \<noteq> [] \<and> \<not> allowed then [ExternalBoundary flags] else [])
     @ (if conflict then [ConflictingEvidence] else [])
     @ (if classification = Unknown \<and> \<not> prospective then [UnrecognizedExpression]
        else if classification = Restricted \<and> \<not> prospective then [RestrictiveLicense] else [])
     @ (case rp_restriction policy of None \<Rightarrow> [] | Some r \<Rightarrow> [TrainingRestricted (tr_kind r) (tr_basis r)])"

definition training_decision :: "rights_policy \<Rightarrow> rights_reason list \<Rightarrow> spdx_class \<Rightarrow> bool \<Rightarrow> eligibility" where
  "training_decision policy reasons classification prospective =
     (if rp_training policy = Ineligible
        \<or> (case rp_restriction policy of None \<Rightarrow> False | Some r \<Rightarrow> tr_kind r = Prohibited) then Ineligible
      else if rp_training policy = ReviewRequired \<or> reasons \<noteq> [] then ReviewRequired
      else if rp_training policy = EligibleWithObligations \<or> classification = Obligations
        \<or> prospective \<and> classification \<in> {Unknown, Restricted}
        \<or> classification = Permissive \<and> rp_notices policy = [] then EligibleWithObligations
      else Eligible)"

definition resolve_file_rights ::
  "rights_policy \<Rightarrow> string \<Rightarrow> string \<Rightarrow> (string \<times> json) list \<Rightarrow> bool \<Rightarrow> rights_error + file_rights" where
  "resolve_file_rights policy path raw nested prospective =
     bindE (safe_rights_path path) (\<lambda>_.
     bindE (metadata_expression path nested) (\<lambda>metadata.
     let flags = boundary_flags path;
         texts = header_texts path raw;
         found = expressions texts;
         (detected, metadata_conflict) = detect found metadata;
         classification = classify (effective_expression detected policy);
         reasons = review_reasons policy flags (boundary_allowed policy path)
           (1 < length found \<or> metadata_conflict) classification prospective
     in Inr \<lparr>fr_path = path, fr_detected = detected,
          fr_training = training_decision policy reasons classification prospective,
          fr_redistribution = (if reasons \<noteq> [] \<and> rp_redistribution policy = SourceTerms
            then RedistributionReview else rp_redistribution policy),
          fr_references = rp_references policy,
          fr_notices = rp_notices policy @ filter (copyright_search False) texts,
          fr_restriction = rp_restriction policy, fr_flags = flags,
          fr_reasons = (if reasons \<noteq> [] then reasons else if prospective then [PrivateCandidate] else [RecognizedTerms])\<rparr>))"

lemmas resolve_defs = resolve_file_rights_def safe_rights_path_def metadata_expression_def most_specific_def detect_def
  effective_expression_def classify_def review_reasons_def training_decision_def

section \<open>What the evidence says\<close>

text \<open>
  All the licenses that the file and the metadata nearest to it name: the specification has no
  notion of a detected license or of a conflict, only this set.
\<close>

definition evidence :: "string list \<Rightarrow> license_match list \<Rightarrow> string set" where
  "evidence texts matches = {uncomment v |t v. t \<in> set texts \<and> spdx_search t = Some v}
     \<union> {l |d n l. (d, n, l) \<in> set matches \<and> (\<forall>(d', n', l') \<in> set matches. d' < d \<or> d' = d \<and> n' \<le> n)}"

text \<open>The one license that governs the file: the named one, the declared one if none is named.\<close>

definition governs :: "string \<Rightarrow> string set \<Rightarrow> rights_policy \<Rightarrow> bool" where
  "governs e named policy \<longleftrightarrow> named = {e} \<and> e \<noteq> [] \<or> named \<subseteq> {[]} \<and> rp_spdx policy = Some e"

abbreviation may_train :: "eligibility \<Rightarrow> bool" where
  "may_train e \<equiv> e = Eligible \<or> e = EligibleWithObligations"

lemma Max_iff_all:
  fixes x :: "nat \<times> nat"
  assumes "finite K" and "x \<in> K"
  shows "x = Max K \<longleftrightarrow> (\<forall>k \<in> K. k \<le> x)"
  using assms by (metis Max_eqI Max_ge)

lemma most_specific_set:
  "set (most_specific matches)
    = {l |d n l. (d, n, l) \<in> set matches \<and> (\<forall>(d', n', l') \<in> set matches. d' < d \<or> d' = d \<and> n' \<le> n)}"
proof -
  let ?keys = "set (map (\<lambda>(d, n, _). (d, n)) matches)"
  have best: "(d, n) = Max ?keys \<longleftrightarrow> (\<forall>(d', n', l') \<in> set matches. d' < d \<or> d' = d \<and> n' \<le> n)"
    if "(d, n, l) \<in> set matches" for d n l
  proof -
    from that have "(d, n) \<in> ?keys" by force
    moreover have "d' < d \<or> d' \<le> d \<and> n' \<le> n \<longleftrightarrow> d' < d \<or> d' = d \<and> n' \<le> n" for d' n'
      by auto
    ultimately show ?thesis
      by (simp add: Max_iff_all less_eq_prod_simp split_beta)
  qed
  have "set (map (\<lambda>(_, _, l). l) (filter (\<lambda>(d, n, _). (d, n) = m) matches)) = {l |d n l. (d, n, l) \<in> set matches \<and> (d, n) = m}" for m
    by force
  then have "set (most_specific matches) = {l |d n l. (d, n, l) \<in> set matches \<and> (d, n) = Max ?keys}"
    unfolding most_specific_def Let_def set_remdups .
  then show ?thesis by (rule trans) (intro Collect_cong ex_cong1 conj_cong refl best)
qed

lemma expressions_set: "set (expressions texts) = {uncomment v |t v. t \<in> set texts \<and> spdx_search t = Some v}"
  by (induction texts) (auto simp: expressions_def map_filter_simps split: option.splits)

lemma evidence_found: "evidence texts matches = set (expressions texts) \<union> set (most_specific matches)"
  unfolding evidence_def expressions_set most_specific_set ..

lemma most_specific_empty [simp]: "most_specific matches = [] \<longleftrightarrow> matches = []"
proof
  let ?keys = "set (map (\<lambda>(d, n, _). (d, n)) matches)"
  assume none: "most_specific matches = []"
  show "matches = []"
  proof (rule ccontr)
    assume "matches \<noteq> []"
    then have "Max ?keys \<in> ?keys" by (intro Max_in) auto
    then obtain d n l where "(d, n, l) \<in> set matches" "(d, n) = Max ?keys" by auto
    with none show False by (auto simp: most_specific_def Let_def filter_empty_conv)
  qed
qed (simp add: most_specific_def)

abbreviation chosen :: "string list \<Rightarrow> string option \<times> bool" where
  "chosen specific \<equiv> (case specific of [] \<Rightarrow> (None, False) | [l] \<Rightarrow> (Some l, False) | _ \<Rightarrow> (None, True))"

lemma metadata_expression_Inr:
  "metadata_expression path nested = Inr r \<longleftrightarrow>
    (\<exists>matches. metadata_matches path nested = Inr matches \<and> r = chosen (most_specific matches))"
proof -
  have "(if matches = [] then Inr (None, False)
      else case most_specific matches of [l] \<Rightarrow> Inr (Some l, False) | _ \<Rightarrow> Inr (None, True)) = (Inr (chosen (most_specific matches)) :: rights_error + _)"
    for matches
    by (cases "matches = []") (auto simp: most_specific_def [of "[]"] dest: most_specific_empty [THEN iffD1] split: list.splits)
  then show ?thesis by (auto simp: metadata_expression_def)
qed

lemma found_cases:
  obtains (none) "xs = []" | (one) x where "xs = [x]" | (many) x y ys where "xs = x # y # ys"
  by (cases xs rule: list.exhaust; cases "tl xs" rule: list.exhaust) auto

lemma distinct_length: "distinct xs \<Longrightarrow> 1 < length xs \<Longrightarrow> \<not> set xs \<subseteq> {e}"
  by (cases xs rule: found_cases) auto

lemma detect_found:
  assumes "distinct found" and "distinct specific" and "detect found (chosen specific) = (d, conflict)"
  shows "1 < length found \<or> conflict \<longleftrightarrow> (\<nexists>e. set found \<union> set specific \<subseteq> {e})"
    and "set found \<union> set specific \<subseteq> {e} \<Longrightarrow> d = (if set found \<union> set specific = {} then None else Some e)"
proof -
  show "1 < length found \<or> conflict \<longleftrightarrow> (\<nexists>e. set found \<union> set specific \<subseteq> {e})"
  proof (cases "1 < length found \<or> 1 < length specific")
    case True
    with assms distinct_length have "\<nexists>e. set found \<union> set specific \<subseteq> {e}" by (metis le_sup_iff)
    moreover from True assms(3) have "1 < length found \<or> conflict"
      by (cases specific rule: found_cases) (auto simp: detect_def)
    ultimately show ?thesis by simp
  next
    case False
    with assms(3) show ?thesis
      by (cases found rule: found_cases; cases specific rule: found_cases) (auto simp: detect_def)
  qed
  assume "set found \<union> set specific \<subseteq> {e}"
  moreover from this assms(1,2) have "\<not> 1 < length found" "\<not> 1 < length specific"
    using distinct_length by (metis le_sup_iff)+
  ultimately show "d = (if set found \<union> set specific = {} then None else Some e)"
    using assms(3)
    by (cases found rule: found_cases; cases specific rule: found_cases) (auto simp: detect_def)
qed

lemma resolve_Inr:
  assumes "resolve_file_rights policy path raw nested prospective = Inr fr"
    and "metadata_matches path nested = Inr matches"
  obtains detected conflict where
    "detect (expressions (header_texts path raw)) (chosen (most_specific matches)) = (detected, conflict)"
    and "let c = classify (effective_expression detected policy);
             reasons = review_reasons policy (boundary_flags path) (boundary_allowed policy path)
               (1 < length (expressions (header_texts path raw)) \<or> conflict) c prospective
         in fr_training fr = training_decision policy reasons c prospective
           \<and> fr_redistribution fr = (if reasons \<noteq> [] \<and> rp_redistribution policy = SourceTerms
               then RedistributionReview else rp_redistribution policy)
           \<and> fr_detected fr = detected \<and> fr_flags fr = boundary_flags path"
proof -
  from assms(2) have "metadata_expression path nested = Inr (chosen (most_specific matches))"
    unfolding metadata_expression_Inr by blast
  with assms(1) show ?thesis
    by (cases "detect (expressions (header_texts path raw)) (chosen (most_specific matches))")
       (rule that, auto simp: resolve_file_rights_def Let_def)
qed

lemma no_reasons_iff:
  "review_reasons policy flags allowed conflict c prospective = [] \<longleftrightarrow>
    (flags = [] \<or> allowed) \<and> \<not> conflict \<and> (prospective \<or> c \<in> {Permissive, Obligations}) \<and> rp_restriction policy = None"
  by (cases c) (auto simp: review_reasons_def split: option.splits)

lemma may_train_iff:
  assumes "rp_restriction policy \<noteq> None \<Longrightarrow> reasons \<noteq> []"
  shows "may_train (training_decision policy reasons c prospective) \<longleftrightarrow> may_train (rp_training policy) \<and> reasons = []"
  using assms by (cases "rp_training policy") (auto simp: training_decision_def split: option.splits)

lemma governed_class:
  assumes "d = (if named = {} then None else Some e)" and "named \<subseteq> {e}"
  shows "classify (effective_expression d policy) \<in> {Permissive, Obligations}
    \<longleftrightarrow> (\<exists>e t. governs e named policy \<and> well_formed e t \<and> classes t \<subseteq> {Permissive, Obligations})"
proof -
  have "effective_expression d policy = Some e' \<longleftrightarrow> governs e' named policy" for e'
    using assms by (auto simp: effective_expression_def governs_def split: if_splits)
  moreover have "classify ex \<in> {Permissive, Obligations} \<longleftrightarrow>
      (\<exists>e t. ex = Some e \<and> well_formed e t \<and> classes t \<subseteq> {Permissive, Obligations})" for ex
    using license_class_good by (cases ex) (auto simp: classify_def)
  ultimately show ?thesis by simp
qed

text \<open>
  C18. A file is cleared for training only on clear evidence. With \<open>named\<close> the set of licenses
  that the header of the file and the nearest metadata state, the file may be used
  exactly if the policy of its source may, there is no training restriction, no part of its path is
  an external boundary that is not allowed, at most one license is named, and (outside a
  private candidate) the license that governs it is a well-formed expression all of whose
  parts, the alternatives included, are recognised and unrestricted. Without obligations it is
  only if the policy says so; and redistribution under the terms of the source needs the same evidence.
\<close>

theorem rights_are_conservative:
  assumes "resolve_file_rights policy path raw nested prospective = Inr fr"
    and "metadata_matches path nested = Inr matches"
    and "named = evidence (header_texts path raw) matches"
    and "clear \<longleftrightarrow> rp_restriction policy = None \<and> (boundary_flags path = [] \<or> boundary_allowed policy path)
      \<and> (\<exists>e. named \<subseteq> {e})
      \<and> (prospective \<or> (\<exists>e t. governs e named policy \<and> well_formed e t \<and> classes t \<subseteq> {Permissive, Obligations}))"
  shows "(may_train (fr_training fr) \<longleftrightarrow> may_train (rp_training policy) \<and> clear)
    \<and> (fr_training fr = Eligible \<longrightarrow> rp_training policy = Eligible)
    \<and> (fr_redistribution fr = SourceTerms \<longleftrightarrow> rp_redistribution policy = SourceTerms \<and> clear)"
proof -
  let ?found = "expressions (header_texts path raw)"
  from assms(1,2) obtain d conflict where d: "detect ?found (chosen (most_specific matches)) = (d, conflict)"
    and fr: "let c = classify (effective_expression d policy);
         reasons = review_reasons policy (boundary_flags path) (boundary_allowed policy path) (1 < length ?found \<or> conflict) c prospective
       in fr_training fr = training_decision policy reasons c prospective
         \<and> fr_redistribution fr = (if reasons \<noteq> [] \<and> rp_redistribution policy = SourceTerms
             then RedistributionReview else rp_redistribution policy)
         \<and> fr_detected fr = d \<and> fr_flags fr = boundary_flags path"
    by (rule resolve_Inr)
  define c where "c = classify (effective_expression d policy)"
  define reasons where "reasons = review_reasons policy (boundary_flags path) (boundary_allowed policy path)
    (1 < length ?found \<or> conflict) c prospective"
  from fr have fr: "fr_training fr = training_decision policy reasons c prospective"
    "fr_redistribution fr = (if reasons \<noteq> [] \<and> rp_redistribution policy = SourceTerms
       then RedistributionReview else rp_redistribution policy)"
    by (simp_all add: Let_def c_def reasons_def)
  have dist: "distinct ?found" "distinct (most_specific matches)"
    by (simp_all add: expressions_def most_specific_def Let_def)
  note found = detect_found [OF dist d, folded evidence_found, folded assms(3)]
  have clear: "reasons = [] \<longleftrightarrow> clear"
  proof (cases "\<exists>e. named \<subseteq> {e}")
    case True
    then obtain e where e: "named \<subseteq> {e}" by blast
    from found(1) True have "\<not> (1 < length ?found \<or> conflict)" by simp
    with governed_class [OF found(2) [OF e] e, of policy] True show ?thesis
      unfolding assms(4) reasons_def no_reasons_iff c_def by blast
  qed (use found(1) in \<open>auto simp: assms(4) reasons_def no_reasons_iff\<close>)
  have "may_train (fr_training fr) \<longleftrightarrow> may_train (rp_training policy) \<and> reasons = []"
    unfolding fr(1) by (rule may_train_iff) (simp add: reasons_def no_reasons_iff)
  moreover have "fr_training fr = Eligible \<longrightarrow> rp_training policy = Eligible"
    unfolding fr(1) by (cases "rp_training policy") (auto simp: training_decision_def)
  moreover have "fr_redistribution fr = SourceTerms \<longleftrightarrow> rp_redistribution policy = SourceTerms \<and> reasons = []"
    unfolding fr(2) by auto
  ultimately show ?thesis unfolding clear by blast
qed

definition sample_rights :: rights_policy where
  "sample_rights = \<lparr>rp_training = EligibleWithObligations, rp_redistribution = SourceTerms, rp_spdx = Some ''MIT'',
     rp_references = [''https://x/LICENSE''], rp_notices = [], rp_restriction = None, rp_allowed = [], rp_metadata = None\<rparr>"

definition sample_source :: string where
  "sample_source = ''// SPDX-License-Identifier: MIT OR Apache-2.0 */'' @ CHR 0x0A # ''// Copyright A''"

definition sample_metadata :: "(string \<times> json) list" where
  "sample_metadata = [(''license-metadata.json'', JObj [(''files'', JObj [(''type'', JStr ''root''), (''children'',
     JList [JObj [(''type'', JStr ''directory''), (''name'', JStr ''src''), (''license'', JObj [(''spdx'', JStr ''MIT OR Apache-2.0'')])]])])])]"

lemma sample_safe: "safe_name ''src/a.rs''" by code_simp
lemma sample_texts: "header_texts ''src/a.rs'' sample_source = [''// SPDX-License-Identifier: MIT OR Apache-2.0 */'', ''// Copyright A'']"
  by code_simp
lemma sample_found: "expressions (header_texts ''src/a.rs'' sample_source) = [''MIT OR Apache-2.0'']"
  unfolding sample_texts by code_simp
lemma sample_flags: "boundary_flags ''src/a.rs'' = []" by code_simp
lemma sample_class: "license_class ''MIT OR Apache-2.0'' = Permissive" by code_simp

theorem rights_are_conservative_witness:
  "(let named = evidence (header_texts ''src/a.rs'' sample_source) [(0, 3, ''MIT OR Apache-2.0'')] in
     (\<exists>e. named \<subseteq> {e}) \<and> (\<exists>e t. governs e named sample_rights \<and> well_formed e t \<and> classes t \<subseteq> {Permissive, Obligations}))"
proof -
  have m: "metadata_matches ''src/a.rs'' sample_metadata = Inr [(0, 3, ''MIT OR Apache-2.0'')]"
    by code_simp
  obtain fr where fr: "resolve_file_rights sample_rights ''src/a.rs'' sample_source sample_metadata False = Inr fr"
    "fr_training fr = EligibleWithObligations"
    using sample_safe sample_found sample_flags sample_class m
    by (simp add: resolve_defs sample_rights_def)
  from rights_are_conservative [OF fr(1) m refl refl] fr(2) show ?thesis by (simp add: Let_def)
qed

end
