(* ===== verification/Jsonl.thy ===== *)
theory Jsonl
  imports Json
begin

text \<open>
  \<open>src/sparselab/corpus/jsonl_records.py\<close>: records of a file with one JSON value per line, with the
  line number and byte offset of each, and the forward cursor that replays them by ordinal.

  A file is the list of its bytes, as characters. Decoding and parsing one line (\<open>raw.decode\<close> and
  \<open>json.loads\<close>) is the argument \<open>parse\<close>, the SHA-256 function the argument \<open>sha256\<close>. A generator is
  the list of what it yields and the error that ends it, if one does.
\<close>

section \<open>Physical lines\<close>

datatype jsonl_error = CapNotPositive | CapExceeded | BadUtf8 nat | MalformedJson nat | ShaDiffers
  | OrdinalOrder | BeyondInventory | ReplayChanged

type_synonym 'a generator = "'a list \<times> jsonl_error option"

text \<open>\<open>bytes.strip\<close> removes these.\<close>

definition byte_space :: "char \<Rightarrow> bool" where
  "byte_space c \<longleftrightarrow> of_char c = (32::nat) \<or> 9 \<le> (of_char c :: nat) \<and> (of_char c :: nat) \<le> 13"

definition blank_line :: "string \<Rightarrow> bool" where
  "blank_line raw \<longleftrightarrow> list_all byte_space raw"

text \<open>\<open>stream.readline(limit)\<close>: up to and including a line feed, at most \<open>limit\<close> bytes.\<close>

fun lf_line :: "string \<Rightarrow> string" where
  "lf_line [] = []"
| "lf_line (c # cs) = (if c = CHR 0x0A then [c] else c # lf_line cs)"

definition readline :: "nat option \<Rightarrow> string \<Rightarrow> string" where
  "readline limit s = (case limit of None \<Rightarrow> lf_line s | Some n \<Rightarrow> take n (lf_line s))"

lemma lf_line_prefix: "lf_line s @ drop (length (lf_line s)) s = s"
  by (induction s rule: lf_line.induct) auto

lemma lf_line_empty [simp]: "lf_line s = [] \<longleftrightarrow> s = []"
  by (cases s) auto

function physical_lines :: "nat option \<Rightarrow> nat \<Rightarrow> string \<Rightarrow> (nat \<times> string) generator" where
  "physical_lines cap n s =
     (let raw = readline (map_option Suc cap) s in
      if raw = [] then ([], None)
      else if (case cap of None \<Rightarrow> False | Some c \<Rightarrow> c < length raw) then ([], Some CapExceeded)
      else let (ls, e) = physical_lines cap (Suc n) (drop (length raw) s) in ((Suc n, raw) # ls, e))"
  by pat_completeness auto
termination
  by (relation "measure (\<lambda>(_, _, s). length s)") (auto simp: readline_def split: option.splits)

declare physical_lines.simps [simp del]

definition iter_lf_lines :: "int option \<Rightarrow> string \<Rightarrow> (nat \<times> string) generator" where
  "iter_lf_lines cap s = (case cap of
     None \<Rightarrow> physical_lines None 0 s
   | Some c \<Rightarrow> if c \<le> 0 then ([], Some CapNotPositive) else physical_lines (Some (nat c)) 0 s)"

section \<open>Records\<close>

record 'v jsonl_record =
  jr_line :: nat
  jr_value :: 'v
  jr_raw :: string
  jr_offset :: nat

type_synonym 'v parse = "string \<Rightarrow> (nat \<Rightarrow> jsonl_error) + 'v"

fun records_of :: "'v parse \<Rightarrow> nat \<Rightarrow> (nat \<times> string) generator \<Rightarrow> 'v jsonl_record generator" where
  "records_of parse offset ([], e) = ([], e)"
| "records_of parse offset ((n, raw) # ls, e) =
     (if blank_line raw then records_of parse (offset + length raw) (ls, e)
      else case parse raw of
        Inl err \<Rightarrow> ([], Some (err n))
      | Inr v \<Rightarrow> (let (rs, e') = records_of parse (offset + length raw) (ls, e)
                 in (\<lparr>jr_line = n, jr_value = v, jr_raw = raw, jr_offset = offset\<rparr> # rs, e')))"

definition iter_jsonl_records :: "'v parse \<Rightarrow> int option \<Rightarrow> string \<Rightarrow> 'v jsonl_record generator" where
  "iter_jsonl_records parse cap s = records_of parse 0 (iter_lf_lines cap s)"

text \<open>The whole-file digest is compared when the last line was read.\<close>

definition records_from_path :: "(string \<Rightarrow> string) \<Rightarrow> 'v parse \<Rightarrow> int option \<Rightarrow> string option \<Rightarrow> string \<Rightarrow> 'v jsonl_record generator" where
  "records_from_path sha256 parse cap expected s =
     (let (rs, e) = iter_jsonl_records parse cap s in
      (rs, if e = None \<and> (case expected of None \<Rightarrow> False | Some d \<Rightarrow> sha256 s \<noteq> d) then Some ShaDiffers else e))"

section \<open>The forward cursor\<close>

record 'v forward_rows =
  fw_rows :: "'v jsonl_record generator"
  fw_ordinal :: int
  fw_current :: "'v jsonl_record option"

text \<open>\<open>next\<close> on the generator: an error ends it.\<close>

fun next_row :: "'v jsonl_record generator \<Rightarrow> (jsonl_error + 'v jsonl_record) \<times> 'v jsonl_record generator" where
  "next_row (r # rs, e) = (Inr r, (rs, e))"
| "next_row ([], Some err) = (Inl err, ([], None))"
| "next_row ([], None) = (Inl BeyondInventory, ([], None))"

function advance :: "int \<Rightarrow> 'v forward_rows \<Rightarrow> (jsonl_error option) \<times> 'v forward_rows" where
  "advance ordinal c =
     (if fw_ordinal c < ordinal then
        (case next_row (fw_rows c) of
           (Inl err, g) \<Rightarrow> (Some err, c\<lparr>fw_rows := g\<rparr>)
         | (Inr r, g) \<Rightarrow> advance ordinal (c\<lparr>fw_rows := g, fw_ordinal := fw_ordinal c + 1, fw_current := Some r\<rparr>))
      else (None, c))"
  by pat_completeness auto
termination
  by (relation "measure (\<lambda>(ordinal, c). nat (ordinal - fw_ordinal c))") auto

declare advance.simps [simp del]

text \<open>\<open>ForwardRows.get\<close>; the assertion at its end cannot fail (\<open>got_current\<close> below).\<close>

definition forward_get :: "int \<Rightarrow> 'v forward_rows \<Rightarrow> (jsonl_error + 'v jsonl_record) \<times> 'v forward_rows" where
  "forward_get ordinal c =
     (if ordinal < 1 \<or> ordinal < fw_ordinal c then (Inl OrdinalOrder, c)
      else case advance ordinal c of
        (Some err, c') \<Rightarrow> (Inl err, c')
      | (None, c') \<Rightarrow> (Inr (the (fw_current c')), c'))"

text \<open>The body of a \<open>with forward_rows(...)\<close> block that replays these ordinals.\<close>

fun replay_gets :: "int list \<Rightarrow> 'v forward_rows \<Rightarrow> jsonl_error + 'v jsonl_record list \<times> 'v forward_rows" where
  "replay_gets [] c = Inr ([], c)"
| "replay_gets (i # is) c = (case forward_get i c of
     (Inl err, _) \<Rightarrow> Inl err
   | (Inr r, c') \<Rightarrow> bindE (replay_gets is c') (\<lambda>(rs, c''). Inr (r # rs, c'')))"

text \<open>
  \<open>forward_rows\<close>: rows the body did not ask for are read and parsed too, and then the file, which
  holds \<open>after\<close> by now, must still have the expected digest.
\<close>

definition forward_rows_block :: "(string \<Rightarrow> string) \<Rightarrow> 'v parse \<Rightarrow> int option \<Rightarrow> string \<Rightarrow> string \<Rightarrow> string \<Rightarrow> int list
    \<Rightarrow> jsonl_error + 'v jsonl_record list" where
  "forward_rows_block sha256 parse cap expected before after ordinals =
     bindE (replay_gets ordinals \<lparr>fw_rows = records_from_path sha256 parse cap None before, fw_ordinal = 0, fw_current = None\<rparr>)
       (\<lambda>(rs, c). case snd (fw_rows c) of
          Some err \<Rightarrow> Inl err
        | None \<Rightarrow> if sha256 after \<noteq> expected then Inl ReplayChanged else Inr rs)"


section \<open>What the reader yields\<close>

text \<open>Reference: the file cut after every line feed.\<close>

function lf_split :: "string \<Rightarrow> string list" where
  "lf_split s = (if s = [] then [] else lf_line s # lf_split (drop (length (lf_line s)) s))"
  by pat_completeness auto
termination
  by (relation "measure length") auto

declare lf_split.simps [simp del]

lemma lf_split_concat: "concat (lf_split s) = s"
proof (induction s rule: lf_split.induct)
  case (1 s)
  then show ?case using lf_line_prefix [of s] by (subst lf_split.simps) simp
qed

definition lf_only_last :: "string \<Rightarrow> bool" where
  "lf_only_last l \<longleftrightarrow> l \<noteq> [] \<and> CHR 0x0A \<notin> set (butlast l)"

lemma lf_line_only_last: "s \<noteq> [] \<Longrightarrow> lf_only_last (lf_line s)"
  by (induction s rule: lf_line.induct) (auto simp: lf_only_last_def)

lemma lf_line_last: "lf_line s \<noteq> s \<Longrightarrow> last (lf_line s) = CHR 0x0A"
  by (induction s rule: lf_line.induct) (auto split: if_splits)

lemma lf_split_lines:
  "(\<forall>l \<in> set (lf_split s). lf_only_last l) \<and> (\<forall>l \<in> set (butlast (lf_split s)). last l = CHR 0x0A)"
proof (induction s rule: lf_split.induct)
  case (1 s)
  show ?case
  proof (cases "s = []")
    case True
    then show ?thesis by (simp add: lf_split.simps)
  next
    case False
    let ?t = "drop (length (lf_line s)) s"
    have "last (lf_line s) = CHR 0x0A" if "lf_split ?t \<noteq> []"
    proof (rule lf_line_last, rule notI)
      assume "lf_line s = s"
      then have "?t = []" by simp
      with that show False by (simp add: lf_split.simps)
    qed
    with 1 False lf_line_only_last [of s] show ?thesis by (subst (1 2) lf_split.simps) auto
  qed
qed

lemma upt_from: "[a ..< Suc (a + n)] = a # [Suc a ..< Suc (a + n)]"
  by (rule upt_conv_Cons) simp

lemma physical_lines_complete:
  assumes "physical_lines cap n s = (ls, None)"
  shows "map snd ls = lf_split s \<and> map fst ls = [Suc n ..< Suc n + length ls]
    \<and> (\<forall>c. cap = Some c \<longrightarrow> (\<forall>l \<in> set (lf_split s). length l \<le> c))"
  using assms
proof (induction cap n s arbitrary: ls rule: physical_lines.induct)
  case (1 cap n s)
  let ?raw = "readline (map_option Suc cap) s"
  show ?case
  proof (cases "s = []")
    case True
    then have "physical_lines cap n s = ([], None)"
      by (subst physical_lines.simps) (simp add: readline_def split: option.splits)
    with 1(2) True show ?thesis by (simp add: lf_split.simps)
  next
    case False
    then have nonempty: "?raw \<noteq> []" by (auto simp: readline_def split: option.splits)
    have within: "\<not> (case cap of None \<Rightarrow> False | Some c \<Rightarrow> c < length ?raw)"
    proof
      assume over: "case cap of None \<Rightarrow> False | Some c \<Rightarrow> c < length ?raw"
      from 1(2) have "([], Some CapExceeded) = (ls, None)" by (subst (asm) physical_lines.simps) (simp add: nonempty over)
      then show False by simp
    qed
    then have raw: "?raw = lf_line s" and short: "\<forall>c. cap = Some c \<longrightarrow> length (lf_line s) \<le> c"
      by (auto simp: readline_def split: option.splits)
    obtain ls' e where rest: "physical_lines cap (Suc n) (drop (length ?raw) s) = (ls', e)"
      by (cases "physical_lines cap (Suc n) (drop (length ?raw) s)")
    from 1(2) have "((Suc n, ?raw) # ls', e) = (ls, None)"
      by (subst (asm) physical_lines.simps) (simp add: nonempty within rest)
    then have ls: "ls = (Suc n, ?raw) # ls'" and "e = None" by auto
    with rest have "physical_lines cap (Suc n) (drop (length ?raw) s) = (ls', None)" by simp
    from 1(1) [OF refl nonempty within this]
    have IH: "map snd ls' = lf_split (drop (length (lf_line s)) s)" "map fst ls' = [Suc (Suc n) ..< Suc (Suc n) + length ls']"
        "\<forall>c. cap = Some c \<longrightarrow> (\<forall>l \<in> set (lf_split (drop (length (lf_line s)) s)). length l \<le> c)"
      unfolding raw by simp_all
    have "lf_split s = lf_line s # lf_split (drop (length (lf_line s)) s)" using False by (subst lf_split.simps) simp
    with IH short show ?thesis by (simp add: ls raw upt_conv_Cons del: upt_Suc)
  qed
qed

text \<open>A cap that no line exceeds changes nothing.\<close>

lemma capped_lines:
  assumes "\<forall>l \<in> set (lf_split s). length l \<le> c"
  shows "physical_lines (Some c) n s = physical_lines None n s"
  using assms
proof (induction s arbitrary: n rule: lf_split.induct)
  case (1 s)
  show ?case
  proof (cases "s = []")
    case True
    then show ?thesis by (subst (1 2) physical_lines.simps) (simp add: readline_def)
  next
    case False
    with 1(2) have short: "length (lf_line s) \<le> c" "\<forall>l \<in> set (lf_split (drop (length (lf_line s)) s)). length l \<le> c"
      by (simp_all add: lf_split.simps [of s])
    from short(1) have "readline (Some (Suc c)) s = lf_line s" "readline None s = lf_line s" by (simp_all add: readline_def)
    with 1(1) [OF False short(2)] short(1) False show ?thesis by (subst (1 2) physical_lines.simps) (simp add: Let_def)
  qed
qed

text \<open>The records of complete lines are their nonblank ones, parsed, at their offsets.\<close>

definition located :: "'v parse \<Rightarrow> nat \<Rightarrow> nat \<Rightarrow> string list \<Rightarrow> nat \<Rightarrow> 'v jsonl_record \<Rightarrow> bool" where
  "located parse first offset lines i r \<longleftrightarrow> i < length lines \<and> jr_line r = first + i \<and> jr_raw r = lines ! i
     \<and> \<not> blank_line (lines ! i) \<and> jr_offset r = offset + length (concat (take i lines)) \<and> parse (lines ! i) = Inr (jr_value r)"

lemma located_Cons: "located parse (Suc first) (offset + length l) lines i r \<Longrightarrow> located parse first offset (l # lines) (Suc i) r"
  by (auto simp: located_def)

lemma filter_upt_Cons: "[i \<leftarrow> [0 ..< Suc n]. P i] = (if P 0 then [0] else []) @ map Suc [i \<leftarrow> [0 ..< n]. P (Suc i)]"
proof -
  have "[0 ..< Suc n] = 0 # map Suc [0 ..< n]" using upt_from [of 0 n] by (simp add: map_Suc_upt del: upt_Suc)
  then show ?thesis by (simp only: filter.simps(2) filter_map) (simp add: comp_def)
qed

lemma records_of_complete:
  assumes "records_of parse offset (ls, None) = (rs, None)" and "map fst ls = [first ..< first + length ls]"
  shows "list_all2 (located parse first offset (map snd ls)) [i \<leftarrow> [0 ..< length ls]. \<not> blank_line (snd (ls ! i))] rs"
  using assms
proof (induction ls arbitrary: first offset rs)
  case Nil
  then show ?case by simp
next
  case (Cons l ls)
  obtain n raw where l: "l = (n, raw)" by (cases l)
  from Cons.prems(2) have n: "n = first" and fsts: "map fst ls = [Suc first ..< Suc first + length ls]"
    by (simp_all add: l upt_from del: upt_Suc)
  let ?is = "[i \<leftarrow> [0 ..< length ls]. \<not> blank_line (snd (ls ! i))]"
  have split: "[i \<leftarrow> [0 ..< length (l # ls)]. \<not> blank_line (snd ((l # ls) ! i))]
      = (if blank_line raw then [] else [0]) @ map Suc ?is"
    unfolding list.size by (simp only: add_0_right add_Suc_right filter_upt_Cons) (simp add: l)
  obtain rs' where rs': "records_of parse (offset + length raw) (ls, None) = (rs', None)"
      "blank_line raw \<and> rs = rs' \<or> \<not> blank_line raw \<and> (\<exists>v. parse raw = Inr v
        \<and> rs = \<lparr>jr_line = n, jr_value = v, jr_raw = raw, jr_offset = offset\<rparr> # rs')"
    using Cons.prems(1) by (auto simp: l split: if_splits sum.splits prod.splits)
  from Cons.IH [OF rs'(1) fsts]
  have "list_all2 (located parse first offset (map snd (l # ls))) (map Suc ?is) rs'"
    by (auto simp: list_all2_map1 l intro: located_Cons elim!: list_all2_mono)
  moreover have "located parse first offset (map snd (l # ls)) 0 \<lparr>jr_line = n, jr_value = v, jr_raw = raw, jr_offset = offset\<rparr>"
    if "\<not> blank_line raw" "parse raw = Inr v" for v
    using that by (simp add: located_def n l)
  ultimately show ?case using rs'(2) unfolding split by auto
qed

lemma records_of_error: "records_of parse offset (ls, e) = (rs, None) \<Longrightarrow> e = None"
  by (induction ls arbitrary: offset rs) (auto split: if_splits sum.splits prod.splits)

lemma concat_piece:
  assumes "i < length ls"
  shows "take (length (ls ! i)) (drop (length (concat (take i ls))) (concat ls)) = ls ! i"
proof -
  have "concat ls = concat (take i ls) @ ls ! i @ concat (drop (Suc i) ls)"
    by (subst id_take_nth_drop [OF assms]) simp
  then show ?thesis by simp
qed

text \<open>
  C32. Records locate their bytes. When a file was read to its end, cut it after every line feed: each
  piece ends at its only line feed, the last one possibly at the end of the file, and the pieces
  joined are the file. The records are exactly the nonblank pieces, in order; each has the number of its
  line, the value parsed from it, and an offset at which the file has its raw bytes. With a cap,
  no line was longer than it.
\<close>

theorem records_locate_bytes:
  assumes "iter_jsonl_records parse cap s = (rs, None)"
  shows "concat (lf_split s) = s
    \<and> (\<forall>l \<in> set (lf_split s). lf_only_last l) \<and> (\<forall>l \<in> set (butlast (lf_split s)). last l = CHR 0x0A)
    \<and> list_all2 (\<lambda>i r. jr_line r = Suc i \<and> jr_raw r = lf_split s ! i \<and> parse (jr_raw r) = Inr (jr_value r)
          \<and> take (length (jr_raw r)) (drop (jr_offset r) s) = jr_raw r)
        [i \<leftarrow> [0 ..< length (lf_split s)]. \<not> blank_line (lf_split s ! i)] rs
    \<and> (\<forall>c. cap = Some c \<longrightarrow> (\<forall>l \<in> set (lf_split s). int (length l) \<le> c))"
proof -
  obtain ls e where lines: "iter_lf_lines cap s = (ls, e)" by (cases "iter_lf_lines cap s")
  with assms have records: "records_of parse 0 (ls, e) = (rs, None)" by (simp add: iter_jsonl_records_def)
  then have "e = None" by (rule records_of_error)
  with lines have phys: "physical_lines (map_option nat cap) 0 s = (ls, None)" and cap: "\<forall>c. cap = Some c \<longrightarrow> 0 < c"
    by (auto simp: iter_lf_lines_def split: option.splits if_splits)
  from physical_lines_complete [OF phys] have p: "map snd ls = lf_split s" "map fst ls = [1 ..< 1 + length ls]"
      "\<forall>c. map_option nat cap = Some c \<longrightarrow> (\<forall>l \<in> set (lf_split s). length l \<le> c)" by auto
  from records [unfolded \<open>e = None\<close>] have at: "list_all2 (located parse 1 0 (map snd ls)) [i \<leftarrow> [0 ..< length ls]. \<not> blank_line (snd (ls ! i))] rs"
    by (rule records_of_complete) (rule p(2))
  have here: "take (length (lf_split s ! i)) (drop (length (concat (take i (lf_split s)))) s) = lf_split s ! i"
    if "i < length (lf_split s)" for i
    using that concat_piece [of i "lf_split s"] by (simp add: lf_split_concat)
  from p(1) have len: "length (lf_split s) = length ls" by (metis length_map)
  have nth: "snd (ls ! i) = lf_split s ! i" if "i < length ls" for i
    using that by (simp add: p(1) [symmetric])
  have "list_all2 (\<lambda>i r. jr_line r = Suc i \<and> jr_raw r = lf_split s ! i \<and> parse (jr_raw r) = Inr (jr_value r)
          \<and> take (length (jr_raw r)) (drop (jr_offset r) s) = jr_raw r)
        [i \<leftarrow> [0 ..< length ls]. \<not> blank_line (snd (ls ! i))] rs"
    by (rule list_all2_mono [OF at]) (auto simp: located_def p(1) here)
  moreover have "[i \<leftarrow> [0 ..< length ls]. \<not> blank_line (snd (ls ! i))] = [i \<leftarrow> [0 ..< length ls]. \<not> blank_line (lf_split s ! i)]"
    by (rule filter_cong) (simp_all add: nth)
  ultimately show ?thesis using p(3) cap lf_split_lines [of s] by (fastforce simp: lf_split_concat len)
qed


definition sample_jsonl :: string where
  "sample_jsonl = [CHR ''a'', CHR 0x0A, CHR 0x20, CHR 0x0A, CHR ''b'']"

lemma sample_jsonl_records: "iter_jsonl_records (\<lambda>raw. Inr (hd raw)) (Some 2) sample_jsonl =
    ([\<lparr>jr_line = 1, jr_value = CHR ''a'', jr_raw = [CHR ''a'', CHR 0x0A], jr_offset = 0\<rparr>,
      \<lparr>jr_line = 3, jr_value = CHR ''b'', jr_raw = [CHR ''b''], jr_offset = 4\<rparr>], None)"
  by code_simp

theorem records_locate_bytes_witness:
  "lf_split sample_jsonl = [[CHR ''a'', CHR 0x0A], [CHR 0x20, CHR 0x0A], [CHR ''b'']] \<and> concat (lf_split sample_jsonl) = sample_jsonl
    \<and> [i \<leftarrow> [0 ..< 3]. \<not> blank_line (lf_split sample_jsonl ! i)] = [0, 2]"
proof -
  have "lf_split sample_jsonl = [[CHR ''a'', CHR 0x0A], [CHR 0x20, CHR 0x0A], [CHR ''b'']]" by code_simp
  moreover from this have "[i \<leftarrow> [0 ..< 3]. \<not> blank_line (lf_split sample_jsonl ! i)] = [0, 2]" by (simp only:) code_simp
  ultimately show ?thesis using records_locate_bytes [OF sample_jsonl_records] by simp
qed

section \<open>What the cursor replays\<close>

text \<open>The cursor over \<open>rs\<close> after its first \<open>k\<close> rows.\<close>

definition cursor :: "'v jsonl_record list \<Rightarrow> jsonl_error option \<Rightarrow> nat \<Rightarrow> 'v forward_rows" where
  "cursor rs e k = \<lparr>fw_rows = (drop k rs, e), fw_ordinal = int k,
     fw_current = (if k = 0 then None else Some (rs ! (k - 1)))\<rparr>"

lemma advance_cursor:
  assumes "k \<le> length rs" and "int k \<le> i" and "i \<le> int (length rs)"
  shows "advance i (cursor rs e k) = (None, cursor rs e (nat i))"
  using assms
proof (induction "nat i - k" arbitrary: k)
  case 0
  then have "i = int k" by linarith
  then show ?case by (subst advance.simps) (simp add: cursor_def)
next
  case (Suc d)
  then have k: "k < length rs" "int k < i" by linarith+
  have "next_row (drop k rs, e) = (Inr (rs ! k), (drop (Suc k) rs, e))"
    using k(1) by (simp add: Cons_nth_drop_Suc [symmetric])
  with k have "advance i (cursor rs e k) = advance i (cursor rs e (Suc k))"
    by (subst advance.simps) (simp add: cursor_def add.commute)
  also have "\<dots> = (None, cursor rs e (nat i))"
    by (rule Suc.hyps(1)) (use Suc k in linarith)+
  finally show ?case .
qed

lemma advance_beyond:
  assumes "k \<le> length rs" and "int (length rs) < i"
  shows "fst (advance i (cursor rs e k)) \<noteq> None"
  using assms
proof (induction "length rs - k" arbitrary: k)
  case 0
  then have "k = length rs" by simp
  with 0 show ?case by (subst advance.simps) (cases e; simp add: cursor_def)
next
  case (Suc d)
  then have k: "k < length rs" "int k < i" by linarith+
  have "next_row (drop k rs, e) = (Inr (rs ! k), (drop (Suc k) rs, e))"
    using k(1) by (simp add: Cons_nth_drop_Suc [symmetric])
  with k have "advance i (cursor rs e k) = advance i (cursor rs e (Suc k))"
    by (subst advance.simps) (simp add: cursor_def add.commute)
  moreover have "fst (advance i (cursor rs e (Suc k))) \<noteq> None"
    by (rule Suc.hyps(1)) (use Suc k in linarith)+
  ultimately show ?case by simp
qed

lemma got_current:
  assumes "k \<le> length rs"
  shows "forward_get i (cursor rs e k) = (Inr r, c) \<longleftrightarrow>
    1 \<le> i \<and> int k \<le> i \<and> i \<le> int (length rs) \<and> r = rs ! (nat i - 1) \<and> c = cursor rs e (nat i)"
proof (cases "1 \<le> i \<and> int k \<le> i")
  case True
  show ?thesis
  proof (cases "i \<le> int (length rs)")
    case inside: True
    from True inside have "advance i (cursor rs e k) = (None, cursor rs e (nat i))"
      by (intro advance_cursor assms) simp_all
    moreover have "fw_current (cursor rs e (nat i)) = Some (rs ! (nat i - 1))" "\<not> i < fw_ordinal (cursor rs e k)"
      using True by (simp_all add: cursor_def)
    ultimately show ?thesis using True inside by (auto simp: forward_get_def)
  next
    case False
    obtain err c' where "advance i (cursor rs e k) = (Some err, c')"
      using advance_beyond [OF assms, of i e] False by (cases "advance i (cursor rs e k)") auto
    with True False show ?thesis by (simp add: forward_get_def)
  qed
next
  case False
  then have "i < 1 \<or> i < fw_ordinal (cursor rs e k)" by (auto simp: cursor_def)
  with False show ?thesis by (auto simp: forward_get_def)
qed

lemma replay_gets_cursor:
  assumes "k \<le> length rs"
  shows "replay_gets is (cursor rs e k) = Inr (out, c) \<longleftrightarrow>
    (\<forall>i \<in> set is. 1 \<le> i \<and> int k \<le> i \<and> i \<le> int (length rs)) \<and> sorted is
    \<and> out = map (\<lambda>i. rs ! (nat i - 1)) is \<and> c = cursor rs e (if is = [] then k else nat (last is))"
  using assms
proof (induction "is" arbitrary: k out)
  case Nil
  then show ?case by auto
next
  case (Cons i "is")
  let ?get = "forward_get i (cursor rs e k)"
  show ?case
  proof (cases "1 \<le> i \<and> int k \<le> i \<and> i \<le> int (length rs)")
    case True
    then have "?get = (Inr (rs ! (nat i - 1)), cursor rs e (nat i))" using got_current [OF Cons.prems] by blast
    then have "replay_gets (i # is) (cursor rs e k) = Inr (out, c) \<longleftrightarrow>
        (\<exists>out'. replay_gets is (cursor rs e (nat i)) = Inr (out', c) \<and> out = rs ! (nat i - 1) # out')"
      by auto
    also have "\<dots> \<longleftrightarrow> (\<forall>j \<in> set is. 1 \<le> j \<and> i \<le> j \<and> j \<le> int (length rs)) \<and> sorted is
        \<and> out = rs ! (nat i - 1) # map (\<lambda>i. rs ! (nat i - 1)) is
        \<and> c = cursor rs e (if is = [] then nat i else nat (last is))"
    proof -
      have "replay_gets is (cursor rs e (nat i)) = Inr (out', c) \<longleftrightarrow>
          (\<forall>j \<in> set is. 1 \<le> j \<and> i \<le> j \<and> j \<le> int (length rs)) \<and> sorted is
          \<and> out' = map (\<lambda>i. rs ! (nat i - 1)) is \<and> c = cursor rs e (if is = [] then nat i else nat (last is))" for out'
      proof -
        from True have "nat i \<le> length rs" "int (nat i) = i" by linarith+
        with Cons.IH [of "nat i" out'] show ?thesis by (simp only:)
      qed
      then show ?thesis by blast
    qed
    also have "\<dots> \<longleftrightarrow> (\<forall>j \<in> set (i # is). 1 \<le> j \<and> int k \<le> j \<and> j \<le> int (length rs)) \<and> sorted (i # is)
        \<and> out = map (\<lambda>i. rs ! (nat i - 1)) (i # is) \<and> c = cursor rs e (if i # is = [] then k else nat (last (i # is)))"
      using True by (auto dest: order_trans)
    finally show ?thesis .
  next
    case False
    then obtain err c' where "?get = (Inl err, c')"
      using got_current [OF Cons.prems, of i e] by (cases ?get; cases "fst ?get") auto
    then show ?thesis using False by auto
  qed
qed

text \<open>
  Replay is indexing. A replay of ordinals succeeds exactly if every line of the file
  was readable, the ordinals ask for existing rows in ascending order (a row may be asked for again), and
  the file has the expected digest afterwards; and then it returned the rows of those ordinals,
  as a reader of the whole file numbers them.
\<close>

theorem replay_is_indexing:
  "forward_rows_block sha256 parse cap expected before after ordinals = Inr out \<longleftrightarrow>
    (\<exists>rs. iter_jsonl_records parse cap before = (rs, None) \<and> sha256 after = expected
      \<and> sorted ordinals \<and> set ordinals \<subseteq> {1 .. int (length rs)}
      \<and> out = map (\<lambda>i. rs ! (nat i - 1)) ordinals)"
proof -
  obtain rs e where whole: "iter_jsonl_records parse cap before = (rs, e)" by (cases "iter_jsonl_records parse cap before")
  then have "records_from_path sha256 parse cap None before = (rs, e)" by (simp add: records_from_path_def)
  then have start: "\<lparr>fw_rows = records_from_path sha256 parse cap None before, fw_ordinal = 0, fw_current = None\<rparr> = cursor rs e 0"
    by (simp add: cursor_def)
  have drained: "snd (fw_rows (cursor rs e k)) = e" for k by (simp add: cursor_def)
  have "forward_rows_block sha256 parse cap expected before after ordinals = Inr out \<longleftrightarrow>
      (\<exists>k. replay_gets ordinals (cursor rs e 0) = Inr (out, cursor rs e k)) \<and> e = None \<and> sha256 after = expected"
    unfolding forward_rows_block_def start
    by (auto simp: drained replay_gets_cursor split: option.splits if_splits)
  also have "\<dots> \<longleftrightarrow> e = None \<and> sha256 after = expected \<and> sorted ordinals \<and> set ordinals \<subseteq> {1 .. int (length rs)}
      \<and> out = map (\<lambda>i. rs ! (nat i - 1)) ordinals"
    by (auto simp: replay_gets_cursor subset_eq)
  finally show ?thesis using whole by auto
qed

end
