(* ===== verification/Git_Admission.thy ===== *)
theory Git_Admission
  imports Rights Jsonl
begin

text \<open>
  The Git part of \<open>verify_record_admission\<close> in \<open>src/sparselab/corpus/rights.py\<close>: every pinned file of a
  reviewed source has one decision, its bytes are the pinned ones, and it is screened as a whole.

  A manifest entry with exactly the keys the code asks for is a record; the SHA-256 function and the
  snapshot directory are arguments. The visitor callback has no effect on the result and is left out.
\<close>

section \<open>Patterns over bytes\<close>

text \<open>
  The byte patterns of the module as data. A position is the byte before it and the bytes after it;
  \<open>runs\<close> lists every position at which a match that starts here can end, so a search succeeds
  exactly if the list is not empty at some position, in whatever order the alternatives are tried.
\<close>

datatype pattern = Lit string | Class "char \<Rightarrow> bool" | Repeat nat "char \<Rightarrow> bool"
  | Between nat nat "char \<Rightarrow> bool" | Boundary
  | Then pattern pattern | Alt pattern pattern | Opt pattern

type_synonym position = "char option \<times> string"

definition word_at :: "char option \<Rightarrow> bool" where
  "word_at c = (case c of None \<Rightarrow> False | Some c \<Rightarrow> word_char c)"

definition head :: "string \<Rightarrow> char option" where
  "head s = (case s of [] \<Rightarrow> None | c # _ \<Rightarrow> Some c)"

text \<open>The position \<open>n > 0\<close> bytes further.\<close>

definition ahead :: "nat \<Rightarrow> position \<Rightarrow> position" where
  "ahead n = (\<lambda>(before, s). (if n = 0 then before else Some (s ! (n - 1)), drop n s))"

fun runs :: "pattern \<Rightarrow> position \<Rightarrow> position list" where
  "runs (Lit l) (before, s) = (if starts_with_ci l s then [ahead (length l) (before, s)] else [])"
| "runs (Class P) (before, s) = (case s of [] \<Rightarrow> [] | c # cs \<Rightarrow> if P c then [(Some c, cs)] else [])"
| "runs (Repeat least P) (before, s) =
     map (\<lambda>n. ahead n (before, s)) [least ..< Suc (length (takeWhile P s))]"
| "runs (Between least most P) (before, s) =
     map (\<lambda>n. ahead n (before, s)) [least ..< Suc (min most (length (takeWhile P s)))]"
| "runs Boundary (before, s) = (if word_at before \<noteq> word_at (head s) then [(before, s)] else [])"
| "runs (Then p q) x = concat (map (runs q) (runs p x))"
| "runs (Alt p q) x = runs p x @ runs q x"
| "runs (Opt p) x = runs p x @ [x]"

fun search :: "pattern \<Rightarrow> char option \<Rightarrow> string \<Rightarrow> bool" where
  "search p before s = (runs p (before, s) \<noteq> [] \<or> (case s of [] \<Rightarrow> False | c # cs \<Rightarrow> search p (Some c) cs))"

definition exactly :: "nat \<Rightarrow> (char \<Rightarrow> bool) \<Rightarrow> pattern" where
  "exactly n P = foldr (\<lambda>_. Then (Class P)) [1 ..< n] (Class P)"

abbreviation one_of :: "string \<Rightarrow> pattern" where
  "one_of cs \<equiv> Class (\<lambda>c. c \<in> set cs)"

abbreviation any_of :: "pattern list \<Rightarrow> pattern" where
  "any_of ps \<equiv> foldr Alt (butlast ps) (last ps)"

definition private_key :: pattern where
  "private_key = Then (Lit ''-----begin '') (Then (Opt (any_of [Lit ''rsa '', Lit ''ec '', Lit ''openssh '']))
     (Lit ''private key-----''))"

definition access_key :: pattern where
  "access_key = Then Boundary (Then (Lit ''akia'') (Then (exactly 16 is_alnum) Boundary))"

definition host_token :: pattern where
  "host_token = Then Boundary (Then (any_of [Lit ''ghp'', Lit ''gho'', Lit ''github_pat''])
     (Then (Lit ''_'') (Then (Repeat 30 word_char) Boundary)))"

definition social_number :: pattern where
  "social_number = Then Boundary (Then (exactly 3 is_digit) (Then (Lit ''-'') (Then (exactly 2 is_digit)
     (Then (Lit ''-'') (Then (exactly 4 is_digit) Boundary)))))"

definition password_value :: pattern where
  "password_value = Then Boundary (Then (any_of [Lit ''password'', Then (Lit ''api'') (Then (Opt (one_of ''_-'')) (Lit ''key'')),
       Then (Lit ''secret'') (Then (Opt (one_of ''_-'')) (Lit ''key''))])
     (Then (Repeat 0 byte_space) (Then (one_of '':='') (Then (Repeat 0 byte_space)
     (Then (Opt (one_of [CHR 0x27, CHR 0x22])) (Repeat 24 (\<lambda>c. is_alnum c \<or> c \<in> set ''/+_=''))))))) "

definition git_private :: pattern where
  "git_private = any_of [private_key, access_key, host_token, social_number, password_value]"

definition git_third_party :: pattern where
  "git_third_party = Then Boundary (Then (any_of [Then (Lit ''third'') (Then (one_of ''- '') (Lit ''party'')), Lit ''copied from'',
     Lit ''reproduced with permission'', Lit ''all rights reserved'', Lit ''fair use'', Lit ''copyright'', Lit ''courtesy of'']) Boundary)"

text \<open>\<open>bytes.splitlines()\<close>: a line ends at a line feed, a carriage return or both; there is no
  empty line after the last end.\<close>

function split_lines :: "string \<Rightarrow> string list" where
  "split_lines [] = []"
| "split_lines (c # cs) =
     (if c = CHR 0x0A then [] # split_lines cs
      else if c = CHR 0x0D then [] # split_lines (if take 1 cs = [CHR 0x0A] then tl cs else cs)
      else case split_lines cs of
        [] \<Rightarrow> [[c]]
      | l # ls \<Rightarrow> (c # l) # ls)"
  by pat_completeness auto
termination
  by (relation "measure length") auto

text \<open>The material conflict and the review flag of a whole file.\<close>

definition git_file_exceptions :: "string \<Rightarrow> string \<Rightarrow> bool \<times> bool" where
  "git_file_exceptions raw policy_spdx =
     (let expressions = map uncomment (List.map_filter spdx_search (split_lines raw))
      in (search git_private None raw \<or> list_ex (\<lambda>e. e \<noteq> policy_spdx) expressions,
          search git_third_party None raw))"

section \<open>Sources, snapshots and decisions\<close>

datatype admission_error = RightsInvalid rights_error | SourceProvenance | OutsideScope | InventoryIncomplete
  | InvalidDecision | ShaMismatch | BytesDiffer | MissingBytes | InvalidManualReview
  | MaterialException | LacksManualReview | UnexpectedlyEligible

record git_source =
  gs_version :: int
  gs_revision :: string
  gs_license_url :: string
  gs_rights :: rights_policy

record git_snapshot =
  sn_sha :: string
  sn_declared_id :: string
  sn_declared_revision :: string
  sn_files :: "(string \<times> string) list"

record git_issue =
  gi_field :: string
  gi_owner :: string
  gi_remedy :: string
  gi_impact :: string

record manual_review =
  mr_reviewer :: string
  mr_reviewed_on :: string
  mr_evidence_url :: string
  mr_finding :: string

record git_decision =
  gd_path :: string
  gd_sha :: string
  gd_decision :: string
  gd_reason :: string
  gd_issues :: "git_issue list"
  gd_manual :: "manual_review option"

record git_entry =
  ge_source :: string
  ge_snapshot :: string
  ge_revision :: string
  ge_label :: string
  ge_rights :: rights_policy
  ge_decisions :: "git_decision list"

record admitted =
  ad_rights :: file_rights
  ad_label :: string
  ad_policy_spdx :: "string option"
  ad_decision :: string
  ad_policy_id :: string
  ad_policy_sha :: string

text \<open>A file below the snapshot root is named by its source, snapshot digest and path.\<close>

datatype sample_node = SymbolicLink | RegularFile string

type_synonym snapshot_tree = "string \<times> string \<times> string \<Rightarrow> sample_node option"

definition read_sample :: "snapshot_tree \<Rightarrow> string \<Rightarrow> string \<Rightarrow> string \<Rightarrow> admission_error + string" where
  "read_sample tree source sha path = (case tree (source, sha, path) of
     None \<Rightarrow> Inl MissingBytes | Some SymbolicLink \<Rightarrow> Inl BytesDiffer | Some (RegularFile raw) \<Rightarrow> Inr raw)"

definition rights_of :: "rights_error + 'a \<Rightarrow> admission_error + 'a" where
  "rights_of r = (case r of Inl e \<Rightarrow> Inl (RightsInvalid e) | Inr x \<Rightarrow> Inr x)"

definition valid_provenance :: "git_entry \<Rightarrow> git_source \<Rightarrow> git_snapshot \<Rightarrow> bool" where
  "valid_provenance item src snap \<longleftrightarrow> gs_version src = 2 \<and> ge_snapshot item = sn_sha snap
     \<and> ge_revision item = gs_revision src \<and> sn_declared_id snap = ge_source item
     \<and> sn_declared_revision snap = gs_revision src \<and> \<not> blank (ge_label item)"

definition within_scope :: "git_entry \<Rightarrow> git_source \<Rightarrow> bool" where
  "within_scope item src \<longleftrightarrow> (let p = ge_rights item in
     rp_training p \<in> {Eligible, EligibleWithObligations} \<and> rp_redistribution p = MetadataOnly
     \<and> (case rp_spdx p of None \<Rightarrow> False | Some e \<Rightarrow> e \<noteq> [] \<and> sublist e (ge_label item))
     \<and> rp_references p \<noteq> [] \<and> rp_restriction p = None \<and> gs_license_url src \<in> set (rp_references p))"

text \<open>The decisions are for the pinned files: as many, distinct, with the same paths.\<close>

definition covers_files :: "git_entry \<Rightarrow> git_snapshot \<Rightarrow> bool" where
  "covers_files item snap \<longleftrightarrow> distinct (map fst (sn_files snap))
     \<and> length (ge_decisions item) = length (sn_files snap)
     \<and> set (map gd_path (ge_decisions item)) = set (map fst (sn_files snap))"

definition valid_decision :: "git_decision \<Rightarrow> bool" where
  "valid_decision d \<longleftrightarrow> gd_decision d \<in> {''qualify'', ''exclude'', ''quarantine''} \<and> \<not> blank (gd_reason d)
     \<and> list_all (\<lambda>i. \<not> blank (gi_field i) \<and> \<not> blank (gi_owner i) \<and> \<not> blank (gi_remedy i) \<and> \<not> blank (gi_impact i)) (gd_issues d)"

definition valid_manual :: "manual_review \<Rightarrow> bool" where
  "valid_manual r \<longleftrightarrow> \<not> blank (mr_reviewer r) \<and> \<not> blank (mr_reviewed_on r) \<and> \<not> blank (mr_evidence_url r)
     \<and> \<not> blank (mr_finding r) \<and> starts_with ''https://'' (mr_evidence_url r)"

text \<open>The first thirty lines, joined by line feeds and ended by one.\<close>

definition header_bytes :: "string \<Rightarrow> string" where
  "header_bytes raw = join_on CHR 0x0A (take 30 (split_lines raw)) @ [CHR 0x0A]"

definition decide_rights :: "git_entry \<Rightarrow> git_source \<Rightarrow> git_decision \<Rightarrow> string \<Rightarrow> admission_error + file_rights" where
  "decide_rights item src d raw =
     (let p = ge_rights item;
          (material, flagged) = git_file_exceptions raw (the (rp_spdx p)) in
      bindE (rights_of (resolve_file_rights p (gd_path d) (header_bytes raw) [] True)) (\<lambda>checked.
      bindE (guardE (case gd_manual d of None \<Rightarrow> True | Some r \<Rightarrow> valid_manual r) InvalidManualReview) (\<lambda>_.
      if gd_decision d = ''qualify'' then
        (if \<not> may_train (fr_training checked) \<or> fr_flags checked \<noteq> []
            \<or> fr_detected checked \<notin> {None, rp_spdx p} \<or> material then Inl MaterialException
         else if flagged \<and> gd_manual d = None then Inl LacksManualReview
         else Inr checked)
      else
        bindE (rights_of (valid_rights_policy (gs_rights src))) (\<lambda>_.
        bindE (rights_of (resolve_file_rights (gs_rights src) (gd_path d) (header_bytes raw) [] True)) (\<lambda>own.
        if may_train (fr_training own) then Inl UnexpectedlyEligible else Inr own)))))"

text \<open>One decision; the map of resolved files is extended by the file.\<close>

definition admit_file :: "(string \<Rightarrow> string) \<Rightarrow> snapshot_tree \<Rightarrow> string \<Rightarrow> string \<Rightarrow> git_entry \<Rightarrow> git_source \<Rightarrow> git_snapshot
    \<Rightarrow> (string \<times> string \<rightharpoonup> admitted) \<Rightarrow> git_decision \<Rightarrow> admission_error + (string \<times> string \<rightharpoonup> admitted)" where
  "admit_file sha256 tree policy_id policy_sha item src snap resolved d =
     bindE (guardE (valid_decision d) InvalidDecision) (\<lambda>_.
     bindE (guardE (map_of (sn_files snap) (gd_path d) = Some (gd_sha d)) ShaMismatch) (\<lambda>_.
     bindE (read_sample tree (ge_source item) (sn_sha snap) (gd_path d)) (\<lambda>raw.
     bindE (guardE (sha256 raw = gd_sha d) BytesDiffer) (\<lambda>_.
     bindE (decide_rights item src d raw) (\<lambda>rights.
     Inr (resolved((ge_source item, gd_path d) \<mapsto>
       \<lparr>ad_rights = rights, ad_label = ge_label item, ad_policy_spdx = rp_spdx (ge_rights item),
        ad_decision = gd_decision d, ad_policy_id = policy_id, ad_policy_sha = policy_sha\<rparr>)))))))"

definition admit_entry :: "(string \<Rightarrow> string) \<Rightarrow> snapshot_tree \<Rightarrow> string \<Rightarrow> string
    \<Rightarrow> (string \<rightharpoonup> git_source) \<Rightarrow> (string \<rightharpoonup> git_snapshot)
    \<Rightarrow> (string \<times> string \<rightharpoonup> admitted) \<Rightarrow> git_entry \<Rightarrow> admission_error + (string \<times> string \<rightharpoonup> admitted)" where
  "admit_entry sha256 tree policy_id policy_sha sources snapshots resolved item =
     (case (sources (ge_source item), snapshots (ge_source item)) of
       (Some src, Some snap) \<Rightarrow>
         bindE (guardE (valid_provenance item src snap) SourceProvenance) (\<lambda>_.
         bindE (rights_of (valid_rights_policy (ge_rights item))) (\<lambda>_.
         bindE (guardE (within_scope item src) OutsideScope) (\<lambda>_.
         bindE (guardE (covers_files item snap) InventoryIncomplete) (\<lambda>_.
         foldE (admit_file sha256 tree policy_id policy_sha item src snap) resolved (ge_decisions item)))))
     | _ \<Rightarrow> Inl SourceProvenance)"

text \<open>The loop over the Git entries, from the record admissions \<open>resolved\<close> before it.\<close>

definition admit_git :: "(string \<Rightarrow> string) \<Rightarrow> snapshot_tree \<Rightarrow> string \<Rightarrow> string
    \<Rightarrow> (string \<rightharpoonup> git_source) \<Rightarrow> (string \<rightharpoonup> git_snapshot)
    \<Rightarrow> (string \<times> string \<rightharpoonup> admitted) \<Rightarrow> git_entry list \<Rightarrow> admission_error + (string \<times> string \<rightharpoonup> admitted)" where
  "admit_git sha256 tree policy_id policy_sha sources snapshots =
     foldE (admit_entry sha256 tree policy_id policy_sha sources snapshots)"

section \<open>What is admitted\<close>

text \<open>What a decision about a file with these bytes and these resolved rights must satisfy.\<close>

definition screened :: "git_entry \<Rightarrow> git_decision \<Rightarrow> string \<Rightarrow> file_rights \<Rightarrow> bool" where
  "screened item d raw rights \<longleftrightarrow>
     (if gd_decision d = ''qualify'' then
        may_train (fr_training rights) \<and> fr_flags rights = []
        \<and> (\<forall>line \<in> set (split_lines raw). \<forall>v. spdx_search line = Some v \<longrightarrow> Some (uncomment v) = rp_spdx (ge_rights item))
        \<and> \<not> search git_private None raw
        \<and> (search git_third_party None raw \<longrightarrow> (\<exists>r. gd_manual d = Some r \<and> valid_manual r))
      else \<not> may_train (fr_training rights))"

lemma rights_of_Inr [simp]: "rights_of r = Inr x \<longleftrightarrow> r = Inr x"
  by (cases r) (simp_all add: rights_of_def)

lemma no_exceptions:
  assumes "git_file_exceptions raw e = (False, flagged)"
  shows "\<not> search git_private None raw" and "flagged \<longleftrightarrow> search git_third_party None raw"
    and "line \<in> set (split_lines raw) \<Longrightarrow> spdx_search line = Some v \<Longrightarrow> uncomment v = e"
  using assms expressions_set [of "split_lines raw"]
  by (auto simp: git_file_exceptions_def Let_def expressions_def list_ex_iff)

lemma decide_rights_screened:
  assumes "decide_rights item src d raw = Inr rights" and "rp_spdx (ge_rights item) \<noteq> None"
  shows "screened item d raw rights"
proof -
  obtain material flagged where e: "git_file_exceptions raw (the (rp_spdx (ge_rights item))) = (material, flagged)"
    by (cases "git_file_exceptions raw (the (rp_spdx (ge_rights item)))")
  show ?thesis
  proof (cases "gd_decision d = ''qualify''")
    case True
    with assms(1) e have q: "may_train (fr_training rights)" "fr_flags rights = []" "\<not> material"
        "flagged \<longrightarrow> gd_manual d \<noteq> None" "case gd_manual d of None \<Rightarrow> True | Some r \<Rightarrow> valid_manual r"
      by (auto simp: decide_rights_def Let_def split: if_splits)
    from e q(3) have e: "git_file_exceptions raw (the (rp_spdx (ge_rights item))) = (False, flagged)" by simp
    from q assms(2) no_exceptions(1,2) [OF e] no_exceptions(3) [OF e] True show ?thesis
      by (auto simp: screened_def split: option.splits)
  next
    case False
    with assms(1) e show ?thesis by (auto simp: decide_rights_def Let_def screened_def split: if_splits)
  qed
qed

lemma admit_file_Inr:
  assumes "admit_file sha256 tree policy_id policy_sha item src snap resolved d = Inr out"
    and "rp_spdx (ge_rights item) \<noteq> None"
  obtains raw a where "tree (ge_source item, sn_sha snap, gd_path d) = Some (RegularFile raw)"
    and "map_of (sn_files snap) (gd_path d) = Some (sha256 raw)" and "ad_decision a = gd_decision d"
    and "screened item d raw (ad_rights a)" and "out = resolved((ge_source item, gd_path d) \<mapsto> a)"
proof -
  from assms(1) obtain raw rights where r: "read_sample tree (ge_source item) (sn_sha snap) (gd_path d) = Inr raw"
      "map_of (sn_files snap) (gd_path d) = Some (sha256 raw)" "decide_rights item src d raw = Inr rights"
      "out = resolved((ge_source item, gd_path d) \<mapsto>
       \<lparr>ad_rights = rights, ad_label = ge_label item, ad_policy_spdx = rp_spdx (ge_rights item),
        ad_decision = gd_decision d, ad_policy_id = policy_id, ad_policy_sha = policy_sha\<rparr>)"
    by (auto simp: admit_file_def)
  from r(1) have "tree (ge_source item, sn_sha snap, gd_path d) = Some (RegularFile raw)"
    by (auto simp: read_sample_def split: option.splits sample_node.splits)
  from that [OF this r(2) _ _ r(4)] decide_rights_screened [OF r(3) assms(2)] show ?thesis by simp
qed

text \<open>The decision about a file is in the result.\<close>

definition decided :: "(string \<Rightarrow> string) \<Rightarrow> snapshot_tree \<Rightarrow> git_entry \<Rightarrow> git_snapshot
    \<Rightarrow> (string \<times> string \<rightharpoonup> admitted) \<Rightarrow> git_decision \<Rightarrow> bool" where
  "decided sha256 tree item snap out d \<longleftrightarrow> (\<exists>raw a. tree (ge_source item, sn_sha snap, gd_path d) = Some (RegularFile raw)
     \<and> map_of (sn_files snap) (gd_path d) = Some (sha256 raw) \<and> out (ge_source item, gd_path d) = Some a
     \<and> ad_decision a = gd_decision d \<and> screened item d raw (ad_rights a))"

lemma admit_files:
  assumes "foldE (admit_file sha256 tree policy_id policy_sha item src snap) resolved ds = Inr out"
    and "rp_spdx (ge_rights item) \<noteq> None" and "distinct (map gd_path ds)"
  shows "(\<forall>k. (\<forall>d \<in> set ds. k \<noteq> (ge_source item, gd_path d)) \<longrightarrow> out k = resolved k)
    \<and> (\<forall>d \<in> set ds. decided sha256 tree item snap out d)"
  using assms(1,3)
proof (induction ds arbitrary: resolved)
  case (Cons d ds)
  from Cons.prems(1) obtain mid where mid: "admit_file sha256 tree policy_id policy_sha item src snap resolved d = Inr mid"
      "foldE (admit_file sha256 tree policy_id policy_sha item src snap) mid ds = Inr out" by auto
  from Cons.IH [OF mid(2)] Cons.prems(2)
  have IH: "\<forall>k. (\<forall>d \<in> set ds. k \<noteq> (ge_source item, gd_path d)) \<longrightarrow> out k = mid k"
      "\<forall>d \<in> set ds. decided sha256 tree item snap out d" by auto
  obtain raw a where f: "tree (ge_source item, sn_sha snap, gd_path d) = Some (RegularFile raw)"
      "map_of (sn_files snap) (gd_path d) = Some (sha256 raw)" "ad_decision a = gd_decision d"
      "screened item d raw (ad_rights a)" "mid = resolved((ge_source item, gd_path d) \<mapsto> a)"
    by (rule admit_file_Inr [OF mid(1) assms(2)])
  from Cons.prems(2) have "\<forall>d' \<in> set ds. (ge_source item, gd_path d) \<noteq> (ge_source item, gd_path d')" by auto
  with IH(1) have "out (ge_source item, gd_path d) = mid (ge_source item, gd_path d)" by blast
  with f have "decided sha256 tree item snap out d" by (auto simp: decided_def)
  with IH f(5) show ?case by simp
qed simp

lemma covered_distinct:
  assumes "covers_files item snap"
  shows "distinct (map gd_path (ge_decisions item))"
proof (rule card_distinct)
  from assms have "card (set (map gd_path (ge_decisions item))) = length (sn_files snap)"
    using distinct_card [of "map fst (sn_files snap)"] by (simp add: covers_files_def)
  with assms show "card (set (map gd_path (ge_decisions item))) = length (map gd_path (ge_decisions item))"
    by (simp add: covers_files_def)
qed

text \<open>Every pinned file of the entry is decided.\<close>

definition entry_decided :: "(string \<Rightarrow> string) \<Rightarrow> snapshot_tree \<Rightarrow> (string \<rightharpoonup> git_snapshot)
    \<Rightarrow> (string \<times> string \<rightharpoonup> admitted) \<Rightarrow> git_entry \<Rightarrow> bool" where
  "entry_decided sha256 tree snapshots out item \<longleftrightarrow> (\<exists>snap. snapshots (ge_source item) = Some snap \<and> sn_sha snap = ge_snapshot item
     \<and> map fst (sn_files snap) \<in> {ps. distinct ps \<and> set ps = gd_path ` set (ge_decisions item)}
     \<and> distinct (map gd_path (ge_decisions item))
     \<and> (\<forall>d \<in> set (ge_decisions item). decided sha256 tree item snap out d))"

lemma admit_entry_Inr:
  assumes "admit_entry sha256 tree policy_id policy_sha sources snapshots resolved item = Inr out"
  shows "(\<forall>k. fst k \<noteq> ge_source item \<longrightarrow> out k = resolved k) \<and> entry_decided sha256 tree snapshots out item"
proof -
  from assms obtain src snap where s: "snapshots (ge_source item) = Some snap" "valid_provenance item src snap"
      "within_scope item src" "covers_files item snap"
      "foldE (admit_file sha256 tree policy_id policy_sha item src snap) resolved (ge_decisions item) = Inr out"
    by (auto simp: admit_entry_def split: option.splits)
  from s(3) have "rp_spdx (ge_rights item) \<noteq> None" by (auto simp: within_scope_def Let_def split: option.splits)
  from admit_files [OF s(5) this covered_distinct [OF s(4)]] covered_distinct [OF s(4)] s show ?thesis
    by (auto simp: entry_decided_def valid_provenance_def covers_files_def)
qed

lemma entry_decided_stays:
  assumes "entry_decided sha256 tree snapshots mid item" and "\<forall>k. fst k \<noteq> source \<longrightarrow> out k = mid k"
    and "ge_source item \<noteq> source"
  shows "entry_decided sha256 tree snapshots out item"
proof -
  from assms(2,3) have "decided sha256 tree item snap out d = decided sha256 tree item snap mid d" for snap d
    by (simp add: decided_def)
  with assms(1) show ?thesis by (simp add: entry_decided_def)
qed

lemma admit_git_Inr:
  assumes "admit_git sha256 tree policy_id policy_sha sources snapshots resolved items = Inr out"
    and "distinct (map ge_source items)"
  shows "(\<forall>k. fst k \<notin> ge_source ` set items \<longrightarrow> out k = resolved k)
    \<and> (\<forall>item \<in> set items. entry_decided sha256 tree snapshots out item)"
  using assms
proof (induction items arbitrary: out rule: rev_induct)
  case (snoc item items)
  from snoc.prems(1) obtain mid where mid: "admit_git sha256 tree policy_id policy_sha sources snapshots resolved items = Inr mid"
      "admit_entry sha256 tree policy_id policy_sha sources snapshots mid item = Inr out"
    by (auto simp: admit_git_def)
  from snoc.IH [OF mid(1)] snoc.prems(2)
  have IH: "\<forall>k. fst k \<notin> ge_source ` set items \<longrightarrow> mid k = resolved k"
      "\<forall>item \<in> set items. entry_decided sha256 tree snapshots mid item" by auto
  from snoc.prems(2) have new: "ge_source item' \<noteq> ge_source item" if "item' \<in> set items" for item'
    using that by (auto simp: rev_image_eqI)
  note last = admit_entry_Inr [OF mid(2), THEN conjunct1] admit_entry_Inr [OF mid(2), THEN conjunct2]
  have "entry_decided sha256 tree snapshots out item'" if "item' \<in> set items" for item'
    by (rule entry_decided_stays [OF _ last(1) new [OF that]]) (use IH(2) that in blast)
  with last IH(1) show ?case by simp
qed (simp add: admit_git_def)

definition file_screened :: "(string \<Rightarrow> string) \<Rightarrow> snapshot_tree \<Rightarrow> (string \<times> string \<rightharpoonup> admitted) \<Rightarrow> git_entry
    \<Rightarrow> string \<Rightarrow> string \<Rightarrow> git_decision \<Rightarrow> bool" where
  "file_screened sha256 tree out item path digest d \<longleftrightarrow> d \<in> set (ge_decisions item) \<and> gd_path d = path
     \<and> (\<exists>raw a. tree (ge_source item, ge_snapshot item, path) = Some (RegularFile raw) \<and> sha256 raw = digest
        \<and> out (ge_source item, path) = Some a \<and> ad_decision a = gd_decision d \<and> screened item d raw (ad_rights a))"

lemma entry_screens_files:
  assumes "entry_decided sha256 tree snapshots out item"
  obtains snap where "snapshots (ge_source item) = Some snap"
    and "\<forall>(path, digest) \<in> set (sn_files snap). \<exists>d. file_screened sha256 tree out item path digest d"
    and "distinct (map gd_path (ge_decisions item))"
proof -
  from assms obtain snap where snap: "snapshots (ge_source item) = Some snap"
      "sn_sha snap = ge_snapshot item" "distinct (map fst (sn_files snap))"
      "fst ` set (sn_files snap) = gd_path ` set (ge_decisions item)" "distinct (map gd_path (ge_decisions item))"
      "\<forall>d \<in> set (ge_decisions item). decided sha256 tree item snap out d"
    by (auto simp: entry_decided_def)
  have "\<exists>d. file_screened sha256 tree out item path digest d" if "(path, digest) \<in> set (sn_files snap)" for path digest
  proof -
    from that snap(4) obtain d where d: "d \<in> set (ge_decisions item)" "gd_path d = path"
      by (metis fst_conv imageE imageI)
    from that snap(3) have "map_of (sn_files snap) path = Some digest" by simp
    with snap(2,6) d have "file_screened sha256 tree out item path digest d"
      by (auto simp: decided_def file_screened_def)
    then show ?thesis ..
  qed
  with that snap(1,5) show ?thesis by blast
qed

text \<open>
  C20. No pinned Git file escapes review. After a successful admission, for every file of the snapshot
  of every admitted source: the bytes read (not through a link) have the pinned digest; there
  is exactly one decision for it and the result records that decision with its rights; a qualified file may be used for training, lies
  outside every boundary, has no line anywhere that names another license than the policy and no private
  material, and was reviewed by hand if it mentions third parties; an excluded or quarantined file may not be used. Results of other sources
  are left as they were.
\<close>

theorem every_git_file_is_screened:
  assumes "admit_git sha256 tree policy_id policy_sha sources snapshots resolved items = Inr out"
    and "distinct (map ge_source items)"
  shows "(\<forall>k. fst k \<notin> ge_source ` set items \<longrightarrow> out k = resolved k)
    \<and> (\<forall>item \<in> set items. \<exists>snap. snapshots (ge_source item) = Some snap
        \<and> (\<forall>(path, digest) \<in> set (sn_files snap). \<exists>d. file_screened sha256 tree out item path digest d
              \<and> (\<forall>d' \<in> set (ge_decisions item). gd_path d' = path \<longrightarrow> d' = d)))"
proof (intro conjI ballI)
  show "\<forall>k. fst k \<notin> ge_source ` set items \<longrightarrow> out k = resolved k"
    using admit_git_Inr [OF assms] by blast
  fix item assume "item \<in> set items"
  with admit_git_Inr [OF assms] have "entry_decided sha256 tree snapshots out item" by blast
  then obtain snap where snap: "snapshots (ge_source item) = Some snap"
      "\<forall>(path, digest) \<in> set (sn_files snap). \<exists>d. file_screened sha256 tree out item path digest d"
      "distinct (map gd_path (ge_decisions item))"
    by (rule entry_screens_files)
  from snap(3) have "d' = d" if "file_screened sha256 tree out item path digest d"
      "d' \<in> set (ge_decisions item)" "gd_path d' = path" for d d' path digest
    using that by (simp add: file_screened_def distinct_map inj_on_def)
  with snap(2) have "\<forall>(path, digest) \<in> set (sn_files snap). \<exists>d. file_screened sha256 tree out item path digest d
      \<and> (\<forall>d' \<in> set (ge_decisions item). gd_path d' = path \<longrightarrow> d' = d)"
    by fast
  with snap(1) show "\<exists>snap. snapshots (ge_source item) = Some snap
      \<and> (\<forall>(path, digest) \<in> set (sn_files snap). \<exists>d. file_screened sha256 tree out item path digest d
            \<and> (\<forall>d' \<in> set (ge_decisions item). gd_path d' = path \<longrightarrow> d' = d))"
    by blast
qed

definition sample_git_rights :: rights_policy where
  "sample_git_rights = sample_rights\<lparr>rp_redistribution := MetadataOnly\<rparr>"

definition sample_git_source :: git_source where
  "sample_git_source = \<lparr>gs_version = 2, gs_revision = ''r'', gs_license_url = ''https://x/LICENSE'',
     gs_rights = sample_rights\<lparr>rp_training := ReviewRequired\<rparr>\<rparr>"

definition sample_git_snapshot :: git_snapshot where
  "sample_git_snapshot = \<lparr>sn_sha = ''s'', sn_declared_id = ''g'', sn_declared_revision = ''r'', sn_files = [(''a'', ''x''), (''b'', ''y'')]\<rparr>"

definition sample_git_decisions :: "git_decision list" where
  "sample_git_decisions = [
     \<lparr>gd_path = ''b'', gd_sha = ''y'', gd_decision = ''exclude'', gd_reason = ''r'', gd_issues = [], gd_manual = None\<rparr>,
     \<lparr>gd_path = ''a'', gd_sha = ''x'', gd_decision = ''qualify'', gd_reason = ''r'', gd_issues = [], gd_manual = None\<rparr>]"

definition sample_git_entry :: git_entry where
  "sample_git_entry = \<lparr>ge_source = ''g'', ge_snapshot = ''s'', ge_revision = ''r'', ge_label = ''MIT'',
     ge_rights = sample_git_rights, ge_decisions = sample_git_decisions\<rparr>"

definition sample_git_tree :: snapshot_tree where
  "sample_git_tree = (\<lambda>k. if k = (''g'', ''s'', ''a'') then Some (RegularFile ''x'')
     else if k = (''g'', ''s'', ''b'') then Some (RegularFile ''y'') else None)"

lemma sample_screen: "git_file_exceptions ''x'' ''MIT'' = (False, False)" "git_file_exceptions ''y'' ''MIT'' = (False, False)"
  by code_simp+

lemma sample_headers: "header_bytes ''x'' = ''x'' @ [CHR 0x0A]" "header_bytes ''y'' = ''y'' @ [CHR 0x0A]"
  by code_simp+

lemma sample_classes: "license_class ''MIT'' = Permissive" by code_simp

lemma sample_names: "safe_name ''a''" "safe_name ''b''" "boundary_flags ''a'' = []" "boundary_flags ''b'' = []"
  "header_texts ''a'' (''x'' @ [CHR 0x0A]) = [''x'', []]" "header_texts ''b'' (''y'' @ [CHR 0x0A]) = [''y'', []]"
  "expressions [''x'', []] = []" "expressions [''y'', []] = []"
  by code_simp+

lemma sample_policies: "valid_rights_policy sample_git_rights = Inr ()" "valid_rights_policy (gs_rights sample_git_source) = Inr ()"
  "within_scope sample_git_entry sample_git_source" "valid_provenance sample_git_entry sample_git_source sample_git_snapshot"
  "covers_files sample_git_entry sample_git_snapshot" "list_all valid_decision sample_git_decisions"
  by code_simp+

lemma sample_rights_a: "\<exists>fr. resolve_file_rights sample_git_rights ''a'' (header_bytes ''x'') [] True = Inr fr
    \<and> may_train (fr_training fr) \<and> fr_flags fr = [] \<and> fr_detected fr = None"
  using sample_classes sample_names
  by (simp add: sample_headers [unfolded append_Cons append_Nil] resolve_defs metadata_matches_def sample_git_rights_def sample_rights_def)

lemma sample_rights_b: "\<exists>fr. resolve_file_rights (gs_rights sample_git_source) ''b'' (header_bytes ''y'') [] True = Inr fr
    \<and> \<not> may_train (fr_training fr)"
  using sample_classes sample_names
  by (simp add: sample_headers [unfolded append_Cons append_Nil] resolve_defs metadata_matches_def sample_git_source_def sample_rights_def)

lemma sample_rights_b': "\<exists>fr. resolve_file_rights sample_git_rights ''b'' (header_bytes ''y'') [] True = Inr fr"
  using sample_classes sample_names
  by (simp add: sample_headers [unfolded append_Cons append_Nil] resolve_defs metadata_matches_def sample_git_rights_def sample_rights_def)

lemma sample_admits: "\<exists>out. admit_git (\<lambda>s. s) sample_git_tree ''p'' ''d'' [''g'' \<mapsto> sample_git_source] [''g'' \<mapsto> sample_git_snapshot]
    Map.empty [sample_git_entry] = Inr out"
proof -
  obtain fa fb fb' where f: "resolve_file_rights sample_git_rights ''a'' (header_bytes ''x'') [] True = Inr fa"
      "may_train (fr_training fa)" "fr_flags fa = []" "fr_detected fa = None"
      "resolve_file_rights (gs_rights sample_git_source) ''b'' (header_bytes ''y'') [] True = Inr fb" "\<not> may_train (fr_training fb)"
      "resolve_file_rights sample_git_rights ''b'' (header_bytes ''y'') [] True = Inr fb'"
    using sample_rights_a sample_rights_b sample_rights_b' by auto
  have e: "ge_rights sample_git_entry = sample_git_rights" "ge_source sample_git_entry = ''g''" "ge_decisions sample_git_entry = sample_git_decisions"
      "the (rp_spdx sample_git_rights) = ''MIT''" "map_of (sn_files sample_git_snapshot) = [''a'' \<mapsto> ''x'', ''b'' \<mapsto> ''y'']"
      "sn_sha sample_git_snapshot = ''s''"
    by (simp_all add: sample_git_entry_def sample_git_rights_def sample_rights_def sample_git_snapshot_def fun_eq_iff)
  have t: "read_sample sample_git_tree ''g'' ''s'' ''a'' = Inr ''x''" "read_sample sample_git_tree ''g'' ''s'' ''b'' = Inr ''y''"
    by (simp_all add: read_sample_def sample_git_tree_def)
  from sample_policies(6) have ok: "list_all valid_decision sample_git_decisions" .
  have "rp_spdx sample_git_rights = Some ''MIT''" by (simp add: sample_git_rights_def sample_rights_def)
  with f e t ok sample_screen sample_policies show ?thesis
    by (simp add: admit_git_def admit_entry_def admit_file_def decide_rights_def sample_git_decisions_def)
qed

theorem every_git_file_is_screened_witness:
  "\<exists>out d. file_screened (\<lambda>s. s) sample_git_tree out sample_git_entry ''a'' ''x'' d"
proof -
  from sample_admits obtain out where "admit_git (\<lambda>s. s) sample_git_tree ''p'' ''d'' [''g'' \<mapsto> sample_git_source]
      [''g'' \<mapsto> sample_git_snapshot] Map.empty [sample_git_entry] = Inr out" ..
  from every_git_file_is_screened [OF this] show ?thesis
    by (auto simp: sample_git_snapshot_def sample_git_entry_def)
qed

end
