(* ===== verification/Row_Qualification.thy ===== *)
theory Row_Qualification
  imports Git_Admission
begin

text \<open>
  \<open>src/sparselab/corpus/row_qualification.py\<close>: the declared screening of dataset rows, their family
  provenance, and the evidence kept of the labels and notices of a row.

  A row is a JSON object with distinct keys; Python's \<open>None\<close> is \<open>JNull\<close>. Texts are ASCII, so lower case
  is case folding and encoding changes nothing. The digest of canonical JSON is the argument \<open>digest\<close>.
\<close>

section \<open>Declarations\<close>

type_synonym row = "(string \<times> json) list"

datatype row_profile = WebText | SyntheticText | CodeRows

record row_qualification =
  rq_profile :: row_profile
  rq_family :: "string list"
  rq_language :: "string option"
  rq_languages :: "string list"
  rq_license :: "string option"
  rq_labels :: "(string \<times> string) list"
  rq_repository :: "string option"
  rq_path :: "string option"
  rq_synthetic :: "string list"

record row_restriction =
  rr_basis :: string
  rr_evidence :: string

record row_use_policy =
  ru_restricted :: "(string \<times> row_restriction) list"

datatype qualification_error = FamilyCount | UnboundedName | DuplicateFamily | LanguagePair | CodeOnlyField
  | SyntheticOnlyField | SyntheticWithoutFields | CodeIncomplete | BadRestriction | MissingFamily | MissingSynthetic

definition row_permissive :: "string list" where
  "row_permissive = [''MIT'', ''Apache-2.0'', ''BSD-2-Clause'', ''BSD-3-Clause'', ''ISC'']"

definition bounded_name :: "string \<Rightarrow> bool" where
  "bounded_name name \<longleftrightarrow> length name \<le> 512 \<and> length (split_on CHR ''.'' name) \<le> 8
     \<and> list_all (\<lambda>part. part \<noteq> [] \<and> part = strip part \<and> length part \<le> 128 \<and> \<not> starts_with ''_sparselab'' part)
         (split_on CHR ''.'' name)"

text \<open>Truth of an optional string or of a collection in Python.\<close>

definition truthy :: "string option \<Rightarrow> bool" where
  "truthy v \<longleftrightarrow> v \<noteq> None \<and> v \<noteq> Some []"

definition optional_names :: "row_qualification \<Rightarrow> string list" where
  "optional_names q = List.map_filter id [rq_language q, rq_license q, rq_repository q, rq_path q]"

text \<open>The field constraint and the validator of \<open>RowQualification\<close>.\<close>

definition valid_qualification :: "row_qualification \<Rightarrow> qualification_error + unit" where
  "valid_qualification q =
     bindE (guardE (1 \<le> length (rq_family q) \<and> length (rq_family q) \<le> 8) FamilyCount) (\<lambda>_.
     bindE (guardE (list_all bounded_name (rq_family q @ rq_synthetic q @ optional_names q)) UnboundedName) (\<lambda>_.
     bindE (guardE (distinct (rq_family q)) DuplicateFamily) (\<lambda>_.
     bindE (guardE (truthy (rq_language q) = (rq_languages q \<noteq> []) \<and> list_all (\<lambda>v. \<not> blank v) (rq_languages q)) LanguagePair) (\<lambda>_.
     bindE (guardE (rq_profile q = CodeRows
         \<or> \<not> (truthy (rq_license q) \<or> rq_labels q \<noteq> [] \<or> truthy (rq_repository q) \<or> truthy (rq_path q))) CodeOnlyField) (\<lambda>_.
     bindE (guardE (rq_profile q = SyntheticText \<or> rq_synthetic q = []) SyntheticOnlyField) (\<lambda>_.
     bindE (guardE (rq_profile q \<noteq> SyntheticText \<or> rq_synthetic q \<noteq> []) SyntheticWithoutFields) (\<lambda>_.
     guardE (rq_profile q \<noteq> CodeRows
         \<or> truthy (rq_language q) \<and> truthy (rq_license q) \<and> truthy (rq_repository q) \<and> truthy (rq_path q)
           \<and> rq_labels q \<noteq> [] \<and> list_all (\<lambda>(k, v). \<not> blank k \<and> v \<in> set row_permissive) (rq_labels q)
           \<and> map Some (rq_family q) = [rq_repository q]) CodeIncomplete)))))))"

definition valid_row_use :: "row_use_policy \<Rightarrow> qualification_error + unit" where
  "valid_row_use u = guardE (length (ru_restricted u) \<le> 100000
     \<and> list_all (\<lambda>(d, r). is_sha256 d \<and> \<not> blank (rr_basis r) \<and> \<not> blank (rr_evidence r)
          \<and> length (rr_basis r) \<le> 4096 \<and> length (rr_evidence r) \<le> 4096) (ru_restricted u)) BadRestriction"

section \<open>Fields and provenance\<close>

definition value_present :: "json \<Rightarrow> bool" where
  "value_present v \<longleftrightarrow> v \<noteq> JNull \<and> (case v of JStr s \<Rightarrow> \<not> blank s | _ \<Rightarrow> True) \<and> v \<noteq> JList [] \<and> v \<noteq> JObj []"

fun resolve_segments :: "string list \<Rightarrow> json \<Rightarrow> json" where
  "resolve_segments [] v = v"
| "resolve_segments (s # ss) v = (case v of JObj kvs \<Rightarrow> resolve_segments ss (get_or kvs s JNull) | _ \<Rightarrow> JNull)"

definition field_value :: "row \<Rightarrow> string option \<Rightarrow> json" where
  "field_value r path = (case path of None \<Rightarrow> JNull | Some p \<Rightarrow> resolve_segments (split_on CHR ''.'' p) (JObj r))"

definition profile_name :: "row_profile \<Rightarrow> string" where
  "profile_name p = (case p of WebText \<Rightarrow> ''web_text'' | SyntheticText \<Rightarrow> ''synthetic_text'' | CodeRows \<Rightarrow> ''code'')"

definition family_values :: "row \<Rightarrow> row_qualification \<Rightarrow> json list" where
  "family_values r q = (let values = map (\<lambda>f. field_value r (Some f)) (rq_family q) in
     if rq_profile q = CodeRows then (case values of JStr s # rest \<Rightarrow> JStr (to_lower s) # rest | vs \<Rightarrow> vs) else values)"

definition family_hint :: "(json \<Rightarrow> string) \<Rightarrow> row \<Rightarrow> row_qualification \<Rightarrow> qualification_error + string" where
  "family_hint digest r q = (let values = family_values r q in
     bindE (guardE (list_all value_present values) MissingFamily) (\<lambda>_.
     Inr (profile_name (rq_profile q) @ ''-family:'' @ digest (JList values))))"

record row_attribution =
  ra_repository :: json
  ra_path :: json
  ra_label :: json
  ra_language :: json
  ra_expression :: "string option"

record row_provenance =
  pv_profile :: row_profile
  pv_family :: string
  pv_synthetic :: "(string \<times> string list) option"
  pv_attribution :: "row_attribution option"

text \<open>The keys of a dict built from a list: the first occurrence of each.\<close>

definition dict_keys :: "string list \<Rightarrow> string list" where
  "dict_keys ks = rev (remdups (rev ks))"

definition label_expression :: "row \<Rightarrow> row_qualification \<Rightarrow> string option" where
  "label_expression r q = (case field_value r (rq_license q) of JStr l \<Rightarrow> map_of (rq_labels q) l | _ \<Rightarrow> None)"

definition provenance :: "(json \<Rightarrow> string) \<Rightarrow> row \<Rightarrow> row_qualification \<Rightarrow> qualification_error + row_provenance" where
  "provenance digest r q =
     bindE (family_hint digest r q) (\<lambda>hint.
     let keys = dict_keys (rq_synthetic q); values = map (\<lambda>k. (k, field_value r (Some k))) keys in
     bindE (guardE (rq_profile q \<noteq> SyntheticText \<or> list_all (\<lambda>(_, v). value_present v) values) MissingSynthetic) (\<lambda>_.
     Inr \<lparr>pv_profile = rq_profile q, pv_family = hint,
        pv_synthetic = (if rq_profile q = SyntheticText then Some (digest (JObj values), keys) else None),
        pv_attribution = (if rq_profile q = CodeRows
          then Some \<lparr>ra_repository = field_value r (rq_repository q), ra_path = field_value r (rq_path q),
                 ra_label = field_value r (rq_license q), ra_language = field_value r (rq_language q),
                 ra_expression = label_expression r q\<rparr> else None)\<rparr>))"

section \<open>Screening\<close>

text \<open>\<open>_ADMISSION_PRIVATE\<close>: the first four alternatives of the pattern for files.\<close>

definition admission_private :: pattern where
  "admission_private = any_of [private_key, access_key, host_token, social_number]"

datatype row_conflict = EmptyText | PrivateContent | MissingProvenance | LanguagePolicy | TrainingUseRestriction
  | LicenseLabel | MissingRepository | UnsafeCodePath | VendorPath | FileNotice | GeneratedNotice
  | LegacyConflict string

definition code_path_parts :: "string \<Rightarrow> string list" where
  "code_path_parts p = filter (\<lambda>s. s \<noteq> [] \<and> s \<noteq> ''.'') (split_on CHR ''/'' p)"

definition unsafe_code_path :: "string \<Rightarrow> bool" where
  "unsafe_code_path p \<longleftrightarrow> code_path_parts p = [] \<or> starts_with ''/'' p \<or> CHR 0x5C \<in> set p
     \<or> list_ex (\<lambda>s. s \<in> {''.'', ''..''}) (split_on CHR ''/'' p)"

definition vendor_names :: "string list" where
  "vendor_names = [''vendor'', ''vendored'', ''node_modules'', ''third_party'', ''third-party'', ''generated'', ''dist'', ''build'']"

definition vendor_path :: "string \<Rightarrow> bool" where
  "vendor_path p \<longleftrightarrow> list_ex (\<lambda>s. to_lower s \<in> set vendor_names) (code_path_parts p)"

definition generated_notice :: "string \<Rightarrow> bool" where
  "generated_notice text \<longleftrightarrow> (let start = to_lower (take 4096 text) in
     sublist ''generated'' start
     \<and> list_ex (\<lambda>marker. sublist marker start) [''do not edit'', ''automatically generated'', ''auto-generated''])"

text \<open>
  The part of \<open>exceptions\<close> for code rows. Without a license expression the file screening is asked
  with the empty one, which only changes a finding that is then ignored.
\<close>

definition code_exceptions :: "row \<Rightarrow> row_qualification \<Rightarrow> string \<Rightarrow> row_use_policy option \<Rightarrow> row_conflict option \<times> string list" where
  "code_exceptions r q text row_use = (
     let expression = label_expression r q;
         (material, flags) = git_file_exceptions text (case expression of Some e \<Rightarrow> e | None \<Rightarrow> []) in
     if expression = None \<and> row_use = None then (Some LicenseLabel, [])
     else case (field_value r (rq_repository q), field_value r (rq_path q)) of
       (JStr repository, JStr path) \<Rightarrow>
         if blank repository then (Some MissingRepository, [])
         else if unsafe_code_path path then (Some UnsafeCodePath, [])
         else if vendor_path path then (Some VendorPath, [])
         else if material \<and> row_use = None then (Some FileNotice, [])
         else if generated_notice text then (Some GeneratedNotice, [])
         else (None, if flags \<and> row_use = None then [''code_notice_review''] else [])
     | _ \<Rightarrow> (Some MissingRepository, []))"

definition row_exceptions :: "(json \<Rightarrow> string) \<Rightarrow> row \<Rightarrow> row_qualification \<Rightarrow> string \<Rightarrow> row_use_policy option
    \<Rightarrow> row_conflict option \<times> string list" where
  "row_exceptions digest r q text_field row_use = (case get_or r text_field JNull of
     JStr text \<Rightarrow>
       if blank text then (Some EmptyText, [])
       else if search admission_private None text \<or> search git_private None text then (Some PrivateContent, [])
       else (case provenance digest r q of
         Inl _ \<Rightarrow> (Some MissingProvenance, [])
       | Inr _ \<Rightarrow>
           if truthy (rq_language q) \<and> field_value r (rq_language q) \<notin> JStr ` set (rq_languages q) then (Some LanguagePolicy, [])
           else if (case row_use of None \<Rightarrow> False | Some u \<Rightarrow> digest (JObj r) \<in> fst ` set (ru_restricted u)) then (Some TrainingUseRestriction, [])
           else if rq_profile q \<noteq> CodeRows then (None, [])
           else code_exceptions r q text row_use)
   | _ \<Rightarrow> (Some EmptyText, []))"

section \<open>Evidence of use\<close>

text \<open>Iterating a \<open>StringIO\<close>: its lines, without their line feeds.\<close>

definition text_lines :: "string \<Rightarrow> string list" where
  "text_lines s = map (\<lambda>l. if last l = CHR 0x0A then butlast l else l) (lf_split s)"

definition notice_line :: "string \<Rightarrow> bool" where
  "notice_line l \<longleftrightarrow> sublist ''copyright'' (to_lower l) \<or> sublist ''spdx-license-identifier:'' (to_lower l)"

fun collect_notices :: "nat \<Rightarrow> string list \<Rightarrow> (nat \<times> string) list \<times> bool \<Rightarrow> (nat \<times> string) list \<times> bool" where
  "collect_notices n [] (notices, truncated) = (notices, truncated)"
| "collect_notices n (l # ls) (notices, truncated) =
     (if \<not> notice_line l then collect_notices (Suc n) ls (notices, truncated)
      else if length notices = 64 then (notices, True)
      else collect_notices (Suc n) ls (notices @ [(n, take 1024 l)], truncated \<or> 1024 < length l))"

record use_evidence =
  ue_digest :: string
  ue_label :: json
  ue_recorded :: bool
  ue_notices :: "(nat \<times> string) list"
  ue_truncated :: bool
  ue_restriction :: "row_restriction option"

definition use_evidence_of :: "(json \<Rightarrow> string) \<Rightarrow> row \<Rightarrow> row_qualification \<Rightarrow> string \<Rightarrow> row_use_policy \<Rightarrow> use_evidence" where
  "use_evidence_of digest r q text_field u =
     (let label = field_value r (rq_license q);
          (notices, truncated) = (case get_or r text_field JNull of
             JStr text \<Rightarrow> collect_notices 1 (text_lines text) ([], False) | _ \<Rightarrow> ([], False))
      in \<lparr>ue_digest = digest (JObj r), ue_label = label, ue_recorded = value_present label,
          ue_notices = notices, ue_truncated = truncated,
          ue_restriction = map_of (ru_restricted u) (digest (JObj r))\<rparr>)"


section \<open>What the evidence holds\<close>

definition numbered_notices :: "nat \<Rightarrow> string list \<Rightarrow> (nat \<times> string) list" where
  "numbered_notices n ls = filter (\<lambda>(_, l). notice_line l) (zip [n ..< n + length ls] ls)"

lemma numbered_notices_Cons:
  "numbered_notices n (l # ls) = (if notice_line l then [(n, l)] else []) @ numbered_notices (Suc n) ls"
  by (simp add: numbered_notices_def upt_conv_Cons del: upt_Suc)

abbreviation cut_notice :: "nat \<times> string \<Rightarrow> nat \<times> string" where
  "cut_notice \<equiv> map_prod id (take 1024)"

text \<open>The notices kept are the first sixty-four, cut; the flag tells exactly if something was left out.\<close>

lemma collect_notices:
  assumes "length kept \<le> 64"
  shows "collect_notices n ls (map cut_notice kept, \<exists>(_, l) \<in> set kept. 1024 < length l) =
    (let found = kept @ numbered_notices n ls in
      (map cut_notice (take 64 found), 64 < length found \<or> (\<exists>(_, l) \<in> set (take 64 found). 1024 < length l)))"
  using assms
proof (induction ls arbitrary: n kept)
  case Nil
  then show ?case by (simp add: numbered_notices_def)
next
  case (Cons l ls)
  consider "\<not> notice_line l" | "notice_line l" "length kept = 64" | "notice_line l" "length kept < 64"
    using Cons.prems by linarith
  then show ?case
  proof cases
    case 1
    with Cons show ?thesis by (simp add: numbered_notices_Cons)
  next
    case 2
    then show ?thesis by (simp add: numbered_notices_Cons Let_def)
  next
    case 3
    from Cons.IH [of "kept @ [(n, l)]" "Suc n"] 3 show ?thesis by (simp add: numbered_notices_Cons Let_def disj_commute)
  qed
qed

text \<open>
  Notice evidence is exact. The evidence of a row keeps the first sixty-four of its lines that
  mention a copyright or a license identifier, each with its line number and its first 1024 characters, and it is
  marked truncated exactly if a line or the end of one was left out. It is bound to the digest of the
  row and holds the restriction on that digest, if there is one.
\<close>

theorem notice_evidence_is_exact:
  "let evidence = use_evidence_of digest r q text_field u;
       found = (case get_or r text_field JNull of JStr text \<Rightarrow> numbered_notices 1 (text_lines text) | _ \<Rightarrow> [])
   in ue_notices evidence = map cut_notice (take 64 found)
     \<and> (ue_truncated evidence \<longleftrightarrow> 64 < length found \<or> list_ex (\<lambda>(_, l). 1024 < length l) (take 64 found))
     \<and> ue_digest evidence = digest (JObj r) \<and> ue_restriction evidence = map_of (ru_restricted u) (digest (JObj r))"
proof -
  have "collect_notices 1 (text_lines t) ([], False) =
      (let found = numbered_notices 1 (text_lines t) in
        (map cut_notice (take 64 found), 64 < length found \<or> list_ex (\<lambda>(_, l). 1024 < length l) (take 64 found)))" for t
    using collect_notices [of "[]" 1 "text_lines t"] by (simp add: Let_def list_ex_iff split_def)
  then show ?thesis by (simp add: use_evidence_of_def Let_def split_def split: json.split)
qed

section \<open>What passes the screening\<close>

lemma search_Alt [simp]: "search (Alt p q) before s \<longleftrightarrow> search p before s \<or> search q before s"
  by (induction s arbitrary: before) (subst (1 2 3) search.simps, auto)+

text \<open>Everything the narrower pattern finds, the wider one finds.\<close>

lemma admission_private_narrower: "search admission_private before s \<Longrightarrow> search git_private before s"
  by (auto simp: admission_private_def git_private_def simp del: search.simps)

text \<open>What a code row without a finding is.\<close>

definition clean_code :: "row \<Rightarrow> row_qualification \<Rightarrow> string \<Rightarrow> bool \<Rightarrow> string list \<Rightarrow> bool" where
  "clean_code r q text attributed flags \<longleftrightarrow>
     (\<exists>repository path. field_value r (rq_repository q) = JStr repository \<and> \<not> blank repository
        \<and> field_value r (rq_path q) = JStr path \<and> code_path_parts path \<noteq> [] \<and> \<not> starts_with ''/'' path \<and> CHR 0x5C \<notin> set path
        \<and> ''..'' \<notin> set (split_on CHR ''/'' path) \<and> (\<forall>part \<in> set (code_path_parts path). to_lower part \<notin> set vendor_names))
     \<and> \<not> generated_notice text
     \<and> (if attributed then flags = []
        else (\<exists>e. label_expression r q = Some e \<and> e \<in> set row_permissive
               \<and> (\<forall>line \<in> set (split_lines text). \<forall>v. spdx_search line = Some v \<longrightarrow> uncomment v = e))
             \<and> (flags \<noteq> [] \<longleftrightarrow> search git_third_party None text))"

lemma label_permissive:
  assumes "valid_qualification q = Inr ()" and "rq_profile q = CodeRows" and "label_expression r q = Some e"
  shows "e \<in> set row_permissive"
proof -
  from assms(3) obtain l where "map_of (rq_labels q) l = Some e" by (auto simp: label_expression_def split: json.splits)
  then have "(l, e) \<in> set (rq_labels q)" by (rule map_of_SomeD)
  with assms(1,2) show ?thesis by (auto simp: valid_qualification_def list_all_iff)
qed

lemma code_exceptions_clean:
  assumes "code_exceptions r q text row_use = (None, flags)" and "valid_qualification q = Inr ()" and "rq_profile q = CodeRows"
  shows "clean_code r q text (row_use \<noteq> None) flags"
proof -
  let ?e = "case label_expression r q of Some e \<Rightarrow> e | None \<Rightarrow> []"
  obtain material flagged where e: "git_file_exceptions text ?e = (material, flagged)" by (cases "git_file_exceptions text ?e")
  from assms(1) obtain repository path where f: "field_value r (rq_repository q) = JStr repository" "field_value r (rq_path q) = JStr path"
    by (auto simp: code_exceptions_def e split: if_splits json.splits)
  from assms(1) have q: "\<not> blank repository" "\<not> unsafe_code_path path" "\<not> vendor_path path" "\<not> generated_notice text"
      "label_expression r q \<noteq> None \<or> row_use \<noteq> None" "\<not> material \<or> row_use \<noteq> None"
      "flags = (if flagged \<and> row_use = None then [''code_notice_review''] else [])"
    by (auto simp: code_exceptions_def e f split: if_splits)
  show ?thesis
  proof (cases row_use)
    case (Some u)
    with q f show ?thesis by (auto simp: clean_code_def unsafe_code_path_def vendor_path_def list_ex_iff)
  next
    case None
    with q obtain x where x: "label_expression r q = Some x" by auto
    with e None q have "git_file_exceptions text x = (False, flagged)" by simp
    note exc = no_exceptions(2,3) [OF this]
    from label_permissive [OF assms(2,3) x] x exc None q f show ?thesis
      by (auto simp: clean_code_def unsafe_code_path_def vendor_path_def list_ex_iff)
  qed
qed

text \<open>
  What passes the row screening is clean. If a valid declaration finds no conflict in a row, the
  row has a nonblank text without private material; every family field (and provenance field of synthetic
  text) is present; its language is an allowed one; no restriction names its digest; and a row of code has a
  repository and a safe path outside vendored and generated trees, no notice of generation, and, unless
  attribution is by record, a label that maps to a permissive license which no line of the text
  contradicts, with the review flag exactly if it mentions third parties.
\<close>

theorem passed_rows_are_clean:
  assumes "row_exceptions digest r q text_field row_use = (None, flags)" and "valid_qualification q = Inr ()"
  shows "\<exists>text. get_or r text_field JNull = JStr text \<and> \<not> blank text \<and> \<not> search git_private None text
    \<and> (\<exists>p. provenance digest r q = Inr p) \<and> list_all value_present (family_values r q)
    \<and> (rq_languages q = [] \<or> (\<exists>l \<in> set (rq_languages q). field_value r (rq_language q) = JStr l))
    \<and> (case row_use of None \<Rightarrow> True | Some u \<Rightarrow> map_of (ru_restricted u) (digest (JObj r)) = None)
    \<and> (if rq_profile q = CodeRows then clean_code r q text (row_use \<noteq> None) flags else flags = [])"
proof -
  from assms(1) obtain t where t: "get_or r text_field JNull = JStr t"
    by (auto simp: row_exceptions_def split: json.splits)
  from assms(1) have s: "\<not> blank t" "\<not> search git_private None t"
    by (auto simp: row_exceptions_def t split: if_splits)
  from assms(1) have p: "\<exists>p. provenance digest r q = Inr p"
    by (auto simp: row_exceptions_def t split: if_splits sum.splits)
  then have family: "list_all value_present (family_values r q)" by (auto simp: provenance_def family_hint_def Let_def)
  from assms(1) p have l: "truthy (rq_language q) \<longrightarrow> field_value r (rq_language q) \<in> JStr ` set (rq_languages q)"
      "case row_use of None \<Rightarrow> True | Some u \<Rightarrow> digest (JObj r) \<notin> fst ` set (ru_restricted u)"
    by (auto simp: row_exceptions_def t split: if_splits option.splits)
  from assms(2) have "truthy (rq_language q) = (rq_languages q \<noteq> [])" by (auto simp: valid_qualification_def)
  with l(1) have lang: "rq_languages q = [] \<or> (\<exists>l \<in> set (rq_languages q). field_value r (rq_language q) = JStr l)" by auto
  from l(2) have free: "case row_use of None \<Rightarrow> True | Some u \<Rightarrow> map_of (ru_restricted u) (digest (JObj r)) = None"
    by (auto simp: map_of_eq_None_iff split: option.splits)
  have "if rq_profile q = CodeRows then clean_code r q t (row_use \<noteq> None) flags else flags = []"
  proof (cases "rq_profile q = CodeRows")
    case True
    with assms(1) p have "code_exceptions r q t row_use = (None, flags)"
      by (auto simp: row_exceptions_def t split: if_splits)
    from code_exceptions_clean [OF this assms(2) True] True show ?thesis by simp
  next
    case False
    with assms(1) p show ?thesis by (auto simp: row_exceptions_def t split: if_splits)
  qed
  with t s p family lang free show ?thesis by blast
qed


definition sample_code_row :: row where
  "sample_code_row = [(''text'', JStr ''x''), (''repo'', JStr ''R''), (''file'', JObj [(''path'', JStr ''a.c'')]),
     (''license'', JStr ''mit''), (''lang'', JStr ''C'')]"

definition sample_code_rows :: row_qualification where
  "sample_code_rows = \<lparr>rq_profile = CodeRows, rq_family = [''repo''], rq_language = Some ''lang'', rq_languages = [''C''],
     rq_license = Some ''license'', rq_labels = [(''mit'', ''MIT'')], rq_repository = Some ''repo'', rq_path = Some ''file.path'',
     rq_synthetic = []\<rparr>"

lemma sample_code_valid: "valid_qualification sample_code_rows = Inr ()"
  by code_simp

lemma sample_code_passes: "row_exceptions (\<lambda>_. ''d'') sample_code_row sample_code_rows ''text'' None = (None, [])"
  by code_simp

theorem passed_rows_are_clean_witness:
  "clean_code sample_code_row sample_code_rows ''x'' False [] \<and> list_all value_present (family_values sample_code_row sample_code_rows)"
proof -
  have "get_or sample_code_row ''text'' JNull = JStr ''x''" "rq_profile sample_code_rows = CodeRows"
    by (simp_all add: sample_code_row_def sample_code_rows_def get_or_def)
  with passed_rows_are_clean [OF sample_code_passes sample_code_valid] show ?thesis by auto
qed

end
