(* ===== verification/Legacy_Rows.thy ===== *)
theory Legacy_Rows
  imports Row_Qualification
begin

text \<open>
  \<open>_admission_exceptions\<close> of \<open>src/sparselab/corpus/rights.py\<close> for the two sources with a policy of their own,
  Project Gutenberg and Wikimedia, with the parts of \<open>urllib.parse\<close> it uses.

  URLs and texts are ASCII. The check of an address in brackets (\<open>ipaddress\<close>) is the argument
  \<open>bracketed\<close>. A percent-encoded title is compared byte by byte.
\<close>

section \<open>Splitting a URL\<close>

record split_url =
  su_scheme :: string
  su_netloc :: string
  su_path :: string

definition scheme_char :: "char \<Rightarrow> bool" where
  "scheme_char c \<longleftrightarrow> is_alnum c \<or> c \<in> set ''+-.''"

text \<open>The part before the first occurrence, and the part after the last one.\<close>

definition before_char :: "char \<Rightarrow> string \<Rightarrow> string" where
  "before_char c s = takeWhile (\<lambda>x. x \<noteq> c) s"

definition after_last :: "char \<Rightarrow> string \<Rightarrow> string" where
  "after_last c s = rev (takeWhile (\<lambda>x. x \<noteq> c) (rev s))"

definition split_scheme :: "string \<Rightarrow> string \<times> string" where
  "split_scheme url = (let scheme = before_char CHR '':'' url in
     if CHR '':'' \<in> set url \<and> scheme \<noteq> [] \<and> (is_lower_alpha (hd scheme) \<or> is_upper_alpha (hd scheme)) \<and> list_all scheme_char scheme
     then (to_lower scheme, drop (Suc (length scheme)) url) else ([], url))"

text \<open>\<open>urlsplit\<close>; \<open>None\<close> is its \<open>ValueError\<close>.\<close>

definition urlsplit :: "(string \<Rightarrow> bool) \<Rightarrow> string \<Rightarrow> split_url option" where
  "urlsplit bracketed text =
     (let url = filter (\<lambda>c. c \<notin> {CHR 0x09, CHR 0x0D, CHR 0x0A}) (dropWhile (\<lambda>c. (of_char c :: nat) \<le> 32) text);
          (scheme, rest) = split_scheme url;
          (netloc, rest) = (if take 2 rest = ''//''
            then (takeWhile (\<lambda>c. c \<notin> set ''/?#'') (drop 2 rest), dropWhile (\<lambda>c. c \<notin> set ''/?#'') (drop 2 rest))
            else ([], rest))
      in if (CHR ''['' \<in> set netloc) \<noteq> (CHR '']'' \<in> set netloc) \<or> CHR ''['' \<in> set netloc \<and> \<not> bracketed netloc then None
         else Some \<lparr>su_scheme = scheme, su_netloc = netloc, su_path = before_char CHR ''?'' (before_char CHR ''#'' rest)\<rparr>)"

text \<open>\<open>(hostname or "").lower()\<close>\<close>

definition hostname :: "string \<Rightarrow> string" where
  "hostname netloc = (let info = after_last CHR ''@'' netloc in
     to_lower (if CHR ''['' \<in> set info then before_char CHR '']'' (tl (dropWhile (\<lambda>c. c \<noteq> CHR ''['') info))
       else before_char CHR '':'' info))"

definition hex_value :: "char \<Rightarrow> nat option" where
  "hex_value c = (let n = of_char c :: nat in
     if 48 \<le> n \<and> n \<le> 57 then Some (n - 48) else if 97 \<le> n \<and> n \<le> 102 then Some (n - 87)
     else if 65 \<le> n \<and> n \<le> 70 then Some (n - 55) else None)"

fun unquote :: "string \<Rightarrow> string" where
  "unquote (c # a # b # cs) = (case (hex_value a, hex_value b) of
       (Some x, Some y) \<Rightarrow> if c = CHR ''%'' then char_of (16 * x + y) # unquote cs else c # unquote (a # b # cs)
     | _ \<Rightarrow> c # unquote (a # b # cs))"
| "unquote cs = cs"

section \<open>Screening\<close>

definition remove_prefix :: "string \<Rightarrow> string \<Rightarrow> string" where
  "remove_prefix p s = (if starts_with p s then drop (length p) s else s)"

definition text_member :: "row \<Rightarrow> string \<Rightarrow> string option" where
  "text_member kvs k = (case get_or kvs k JNull of JStr s \<Rightarrow> Some s | _ \<Rightarrow> None)"

definition needE :: "'a option \<Rightarrow> string \<Rightarrow> row_conflict + 'a" where
  "needE v message = (case v of None \<Rightarrow> Inl (LegacyConflict message) | Some x \<Rightarrow> Inr x)"

definition refuse_if :: "bool \<Rightarrow> string \<Rightarrow> row_conflict + unit" where
  "refuse_if bad message = guardE (\<not> bad) (LegacyConflict message)"

definition gutenberg_hosts :: "string list" where
  "gutenberg_hosts = [''www.gutenberg.org'', ''gutenberg.org'']"

definition wikimedia_hosts :: "string list" where
  "wikimedia_hosts = [''wikipedia.com'', ''www.wikipedia.com'', ''wikipedia.org'', ''en.wikipedia.org'']"

text \<open>\<open>/ebooks/\d+(?:\.txt(?:\.utf-8)?)?\<close>\<close>

definition ebook_path :: "string \<Rightarrow> bool" where
  "ebook_path p \<longleftrightarrow> starts_with ''/ebooks/'' p
     \<and> (let rest = drop 8 p; digits = takeWhile is_digit rest in
        digits \<noteq> [] \<and> drop (length digits) rest \<in> {[], ''.txt'', ''.txt.utf-8''})"

definition gutenberg_scope :: "row \<Rightarrow> string \<Rightarrow> string \<Rightarrow> string \<Rightarrow> row_conflict + unit" where
  "gutenberg_scope r host path license =
     bindE (refuse_if (host \<notin> set gutenberg_hosts \<or> \<not> ebook_path path) ''source locator outside Gutenberg work scope'') (\<lambda>_.
     bindE (refuse_if (get_or r ''id'' JNull \<noteq> JStr (before_char CHR ''.'' (remove_prefix ''/ebooks/'' path)))
       ''Gutenberg book ID differs from source locator'') (\<lambda>_.
     refuse_if (to_lower (strip license) \<noteq> ''public domain'') ''Gutenberg source license conflicts with policy''))"

definition wikimedia_scope :: "row \<Rightarrow> string \<Rightarrow> string \<Rightarrow> string \<Rightarrow> string \<Rightarrow> row_conflict + unit" where
  "wikimedia_scope metadata title host path license =
     bindE (refuse_if (host \<notin> set wikimedia_hosts \<or> \<not> starts_with ''/wiki/'' path) ''source locator outside Wikimedia page scope'') (\<lambda>_.
     bindE (refuse_if (get_or metadata ''namespace'' JNull \<notin> {JInt 0, JStr ''0''}) ''Wikimedia record outside content namespace'') (\<lambda>_.
     bindE (refuse_if (map (\<lambda>c. if c = CHR ''_'' then CHR 0x20 else c) (unquote (remove_prefix ''/wiki/'' path)) \<noteq> title)
       ''Wikimedia title differs from page locator'') (\<lambda>_.
     refuse_if (\<not> sublist ''creativecommons.org/licenses/by-sa/4.0/'' (to_lower license))
       ''Wikimedia source license conflicts with policy'')))"

definition between_words :: "pattern \<Rightarrow> pattern" where
  "between_words p = Then Boundary (Then p Boundary)"

definition gutenberg_notice :: pattern where
  "gutenberg_notice = between_words (any_of [Lit ''by permission of'',
     Then (Lit ''printed from'') (Then (Between 0 60 (\<lambda>c. c \<noteq> CHR 0x0A)) (Lit ''by permission'')),
     Then (Lit ''permission to '') (any_of [Lit ''reprint'', Lit ''reproduce'', Lit ''publish'']),
     Lit ''copyright notice'', Lit ''all rights reserved''])"

definition personal_life :: pattern where
  "personal_life = between_words (Lit ''personal life'')"

definition self_harm :: pattern where
  "self_harm = between_words (Lit ''suicide'')"

definition biography :: pattern where
  "biography = between_words (any_of [Lit ''personal life'', Lit ''family life''])"

definition imported_text :: pattern where
  "imported_text = between_words (any_of [Lit ''description in seitz'', Lit ''imported text'', Lit ''copied from'', Lit ''public domain text''])"

definition legacy_text :: "bool \<Rightarrow> string \<Rightarrow> row_conflict + string list" where
  "legacy_text gutenberg text =
     bindE (guardE (\<not> search admission_private None text) PrivateContent) (\<lambda>_.
     if gutenberg then Inr (if search gutenberg_notice None text then [''gutenberg_rights_notice_context''] else [])
     else bindE (refuse_if (search personal_life None text \<and> search self_harm None text) ''sensitive biography and self-harm detail'') (\<lambda>_.
       Inr ((if search biography None text then [''biography_privacy_context''] else [])
          @ (if search imported_text None text then [''imported_text_context''] else []))))"

text \<open>The checks before those of the text; the result is the text.\<close>

definition legacy_scope :: "(string \<Rightarrow> bool) \<Rightarrow> bool \<Rightarrow> row \<Rightarrow> row_conflict + string" where
  "legacy_scope bracketed gutenberg r =
     bindE (needE (case get_or r ''metadata'' JNull of JObj kvs \<Rightarrow> Some kvs | _ \<Rightarrow> None) ''missing source metadata'') (\<lambda>metadata.
     bindE (needE (text_member metadata ''title'') ''missing source title'') (\<lambda>title.
     bindE (refuse_if (blank title) ''missing source title'') (\<lambda>_.
     bindE (refuse_if (get_or metadata ''language'' JNull \<notin> {JNull, JStr ''en''}) ''record outside English source policy'') (\<lambda>_.
     bindE (needE (text_member metadata ''url'') ''missing source locator'') (\<lambda>url.
     bindE (needE (urlsplit bracketed url) ''invalid source locator'') (\<lambda>parsed.
     bindE (refuse_if (su_scheme parsed \<noteq> ''https'' \<or> hostname (su_netloc parsed) = []) ''invalid source locator'') (\<lambda>_.
     bindE (needE (text_member metadata ''license'') ''missing source license claim'') (\<lambda>license.
     bindE (if gutenberg then gutenberg_scope r (hostname (su_netloc parsed)) (su_path parsed) license
       else wikimedia_scope metadata title (hostname (su_netloc parsed)) (su_path parsed) license) (\<lambda>_.
     bindE (needE (text_member r ''text'') ''empty or nontext source row'') (\<lambda>text.
     bindE (refuse_if (blank text) ''empty or nontext source row'') (\<lambda>_. Inr text)))))))))))"

definition legacy_exceptions :: "(string \<Rightarrow> bool) \<Rightarrow> bool \<Rightarrow> row \<Rightarrow> row_conflict option \<times> string list" where
  "legacy_exceptions bracketed gutenberg r =
     (case bindE (legacy_scope bracketed gutenberg r) (legacy_text gutenberg) of
        Inl c \<Rightarrow> (Some c, []) | Inr flags \<Rightarrow> (None, flags))"


section \<open>What passes\<close>

lemma needE_Inr [simp]: "needE v m = Inr x \<longleftrightarrow> v = Some x"
  by (auto simp: needE_def split: option.splits)

lemma refuse_if_Inr [simp]: "refuse_if bad m = Inr u \<longleftrightarrow> \<not> bad"
  by (simp add: refuse_if_def)

lemma text_member_Some [simp]: "text_member kvs k = Some s \<longleftrightarrow> get_or kvs k JNull = JStr s"
  by (auto simp: text_member_def split: json.splits)

lemma starts_with_split: "starts_with p s \<longleftrightarrow> (\<exists>t. s = p @ t)"
  by (metis append_eq_conv_conj starts_with_def append_take_drop_id)

text \<open>The digits of an ebook path are what precedes the first full stop.\<close>

lemma ebook_path_id:
  assumes "ebook_path p"
  obtains suffix where "p = ''/ebooks/'' @ before_char CHR ''.'' (remove_prefix ''/ebooks/'' p) @ suffix"
    and "suffix \<in> {[], ''.txt'', ''.txt.utf-8''}"
    and "before_char CHR ''.'' (remove_prefix ''/ebooks/'' p) \<noteq> []"
    and "list_all is_digit (before_char CHR ''.'' (remove_prefix ''/ebooks/'' p))"
proof -
  from assms obtain rest where p: "p = ''/ebooks/'' @ rest" by (auto simp: ebook_path_def starts_with_split)
  define digits where "digits = takeWhile is_digit rest"
  define suffix where "suffix = drop (length digits) rest"
  have rest: "rest = digits @ suffix" by (simp add: digits_def suffix_def dropWhile_eq_drop [symmetric])
  from assms have s: "suffix \<in> {[], ''.txt'', ''.txt.utf-8''}" "digits \<noteq> []"
    by (simp_all add: ebook_path_def p Let_def digits_def suffix_def)
  have digit: "list_all is_digit digits" using set_takeWhileD [of _ is_digit rest] by (auto simp: digits_def list_all_iff)
  then have "takeWhile (\<lambda>x. x \<noteq> CHR ''.'') digits = digits" by (intro takeWhile_eq_all_conv [THEN iffD2]) (auto simp: list_all_iff is_digit_def)
  moreover have "takeWhile (\<lambda>x. x \<noteq> CHR ''.'') suffix = []" using s(1) by auto
  moreover have "\<forall>x \<in> set digits. x \<noteq> CHR ''.''" using digit by (auto simp: list_all_iff is_digit_def)
  ultimately have "before_char CHR ''.'' rest = digits" by (simp add: before_char_def rest takeWhile_append2)
  moreover have "remove_prefix ''/ebooks/'' p = rest" by (simp add: remove_prefix_def p starts_with_def)
  ultimately have id: "before_char CHR ''.'' (remove_prefix ''/ebooks/'' p) = digits" by simp
  show ?thesis by (rule that [of suffix, unfolded id]) (use s digit p rest in simp_all)
qed

text \<open>
  Legacy rows stay in their scope. A row of one of the two historical sources in which nothing was found has an
  https locator on one of the allowed hosts, a nonblank text and nothing private in it. For Gutenberg the
  locator is the page of the book whose number is the row's own id, and the license claim is the public domain; for Wikimedia it is the
  page of the row's title in the content namespace under CC BY-SA 4.0, and the text does not join
  personal life with self-harm.
\<close>

theorem legacy_rows_stay_in_scope:
  assumes "legacy_exceptions bracketed gutenberg r = (None, flags)"
  shows "\<exists>metadata url license parsed t. get_or r ''metadata'' JNull = JObj metadata \<and> get_or metadata ''url'' JNull = JStr url
    \<and> urlsplit bracketed url = Some parsed \<and> su_scheme parsed = ''https'' \<and> get_or metadata ''license'' JNull = JStr license
    \<and> get_or r ''text'' JNull = JStr t \<and> \<not> blank t \<and> \<not> search admission_private None t
    \<and> (if gutenberg then hostname (su_netloc parsed) \<in> set gutenberg_hosts \<and> to_lower (strip license) = ''public domain''
          \<and> (\<exists>book suffix. get_or r ''id'' JNull = JStr book \<and> book \<noteq> [] \<and> list_all is_digit book
              \<and> su_path parsed = ''/ebooks/'' @ book @ suffix \<and> suffix \<in> {[], ''.txt'', ''.txt.utf-8''})
        else hostname (su_netloc parsed) \<in> set wikimedia_hosts \<and> \<not> (search personal_life None t \<and> search self_harm None t)
          \<and> sublist ''creativecommons.org/licenses/by-sa/4.0/'' (to_lower license)
          \<and> get_or metadata ''namespace'' JNull \<in> {JInt 0, JStr ''0''}
          \<and> (\<exists>page. su_path parsed = ''/wiki/'' @ page
              \<and> get_or metadata ''title'' JNull = JStr (map (\<lambda>c. if c = CHR ''_'' then CHR 0x20 else c) (unquote page))))"
proof -
  from assms obtain t where "legacy_scope bracketed gutenberg r = Inr t" and passed: "legacy_text gutenberg t = Inr flags"
    by (cases "legacy_scope bracketed gutenberg r") (auto simp: legacy_exceptions_def split: sum.splits)
  then obtain metadata title url license parsed where m: "get_or r ''metadata'' JNull = JObj metadata"
      "get_or metadata ''title'' JNull = JStr title" "get_or metadata ''url'' JNull = JStr url" "urlsplit bracketed url = Some parsed"
      "su_scheme parsed = ''https''" "get_or metadata ''license'' JNull = JStr license" "get_or r ''text'' JNull = JStr t" "\<not> blank t"
    and scope: "(if gutenberg then gutenberg_scope r (hostname (su_netloc parsed)) (su_path parsed) license
       else wikimedia_scope metadata title (hostname (su_netloc parsed)) (su_path parsed) license) = Inr ()"
    by (auto simp: legacy_scope_def simp del: search.simps split: json.splits)
  from passed have clean: "\<not> search admission_private None t"
      "\<not> gutenberg \<longrightarrow> \<not> (search personal_life None t \<and> search self_harm None t)"
    by (auto simp: legacy_text_def simp del: search.simps split: if_splits)
  show ?thesis
  proof (cases gutenberg)
    case True
    with scope have g: "hostname (su_netloc parsed) \<in> set gutenberg_hosts" "ebook_path (su_path parsed)" "to_lower (strip license) = ''public domain''"
        "get_or r ''id'' JNull = JStr (before_char CHR ''.'' (remove_prefix ''/ebooks/'' (su_path parsed)))"
      by (auto simp: gutenberg_scope_def)
    from g(2) obtain suffix where "su_path parsed = ''/ebooks/'' @ before_char CHR ''.'' (remove_prefix ''/ebooks/'' (su_path parsed)) @ suffix"
        "suffix \<in> {[], ''.txt'', ''.txt.utf-8''}" "before_char CHR ''.'' (remove_prefix ''/ebooks/'' (su_path parsed)) \<noteq> []"
        "list_all is_digit (before_char CHR ''.'' (remove_prefix ''/ebooks/'' (su_path parsed)))"
      by (rule ebook_path_id)
    with m g clean(1) True show ?thesis by (simp del: search.simps) blast
  next
    case False
    with scope obtain page where w: "hostname (su_netloc parsed) \<in> set wikimedia_hosts" "su_path parsed = ''/wiki/'' @ page"
        "get_or metadata ''namespace'' JNull \<in> {JInt 0, JStr ''0''}" "sublist ''creativecommons.org/licenses/by-sa/4.0/'' (to_lower license)"
        "map (\<lambda>c. if c = CHR ''_'' then CHR 0x20 else c) (unquote (remove_prefix ''/wiki/'' (su_path parsed))) = title"
      by (auto simp: wikimedia_scope_def starts_with_split)
    have "remove_prefix ''/wiki/'' (su_path parsed) = page" by (simp add: w remove_prefix_def starts_with_def)
    with m w clean False show ?thesis by (auto simp del: search.simps)
  qed
qed


definition sample_book :: row where
  "sample_book = [(''id'', JStr ''12''), (''text'', JStr ''x''), (''metadata'', JObj [(''title'', JStr ''T''),
     (''url'', JStr ''HTTPS://www.Gutenberg.org/ebooks/12.txt''), (''license'', JStr ''Public Domain'')])]"

lemma sample_book_passes: "legacy_exceptions (\<lambda>_. False) True sample_book = (None, [])"
  by code_simp

theorem legacy_rows_stay_in_scope_witness:
  "\<exists>book. \<exists>parsed::split_url. get_or sample_book ''id'' JNull = JStr book \<and> hostname (su_netloc parsed) \<in> set gutenberg_hosts
    \<and> (\<exists>suffix. su_path parsed = ''/ebooks/'' @ book @ suffix)"
  using legacy_rows_stay_in_scope [OF sample_book_passes] by (simp only: if_True) blast

end
