(* ===== verification/Record_Admission.thy ===== *)
theory Record_Admission
  imports Legacy_Rows
begin

text \<open>
  \<open>verify_record_admission\<close> of \<open>src/sparselab/corpus/rights.py\<close>: a versioned manifest of decisions is checked
  against the acquired rows of dataset sources and, in version 2, against the pinned files of Git sources.

  A manifest entry with exactly the keys the code asks for is a record; an optional key that may hold null is an
  option of an option, \<open>None\<close> the absent key and \<open>Some None\<close> the null. The functions the code gets from
  elsewhere are the fields of \<open>admission_env\<close>.
\<close>

section \<open>Data\<close>

record admission_env =
  ae_digest :: "json \<Rightarrow> string" \<comment> \<open>\<open>canonical_digest\<close>\<close>
  ae_sha256 :: "string \<Rightarrow> string"
  ae_parse :: "json parse"
  ae_bracketed :: "string \<Rightarrow> bool"
  ae_tree :: snapshot_tree
  ae_cap :: "int option"

record hf_source =
  hf_version :: int
  hf_uri :: string
  hf_revision :: string
  hf_qualification :: "row_qualification option"
  hf_text_field :: string

datatype declared_source = HfSource hf_source | GitSource git_source | OtherSource

record row_receipt =
  rc_index :: int
  rc_sha :: string

record row_shard =
  sh_output :: string
  sh_source_path :: string
  sh_source_sha :: string
  sh_selected :: "row_receipt list"

record row_snapshot = git_snapshot +
  rn_shards :: "row_shard list"

datatype evidence_value = Evidence use_evidence | OtherEvidence json

record row_decision =
  rd_index :: int
  rd_sha :: string
  rd_decision :: string
  rd_reason :: string
  rd_issues :: "git_issue list"
  rd_manual :: "manual_review option option"
  rd_evidence :: "evidence_value option"

record row_entry =
  re_source :: string
  re_snapshot :: string
  re_revision :: string
  re_sample_path :: string
  re_sample_sha :: string
  re_shard_path :: string
  re_shard_sha :: string
  re_label :: string
  re_rights :: rights_policy
  re_records :: "row_decision list"
  re_use :: "row_use_policy option"

datatype admission_entry = RowEntry row_entry | GitEntry git_entry

record admission_manifest =
  am_version :: int
  am_policy_id :: string
  am_policy_sha :: string
  am_sources :: "admission_entry list"

datatype record_error = ManifestInvalid | InventoryMismatch | EntryShape | MissingSnapshot | NotBoundedHf | LegacyOverride
  | UnsupportedProfile | InvalidUsePolicy | UseNeedsDeclared | ProvenanceMismatch | LacksPublicDomain
  | LacksLicenseBasis | NotOneShard | ShardMismatch | OutsideResearchScope | ShardNotQualified | DuplicateIndex
  | InvalidDecisionValue | InvalidReview | NotCovered | RowCount | LacksEnvelope | RowMismatch | InvalidQualification
  | EvidenceDiffers | EvidenceUnbound | QualifiedConflict row_conflict | LacksReview | MustQuarantine
  | RestrictionOutside | UnsupportedKind | Unreadable jsonl_error | FileAdmission admission_error

record admitted_rows =
  ar_rights :: file_rights
  ar_label :: string
  ar_spdx :: "string option"
  ar_decisions :: "row_decision list"
  ar_policy_id :: string
  ar_policy_sha :: string

datatype admission_profile = Gutenberg | Wikimedia | DeclaredRows

definition gutenberg_uri :: string where
  "gutenberg_uri = ''https://huggingface.co/datasets/common-pile/project_gutenberg_filtered''"

definition wikimedia_uri :: string where
  "wikimedia_uri = ''https://huggingface.co/datasets/common-pile/wikimedia_filtered''"

definition profile_of :: "hf_source \<Rightarrow> record_error + admission_profile" where
  "profile_of src =
     (if hf_uri src \<in> {gutenberg_uri, wikimedia_uri} \<and> hf_qualification src \<noteq> None then Inl LegacyOverride
      else if hf_uri src = gutenberg_uri then Inr Gutenberg
      else if hf_uri src = wikimedia_uri then Inr Wikimedia
      else if hf_qualification src \<noteq> None then Inr DeclaredRows
      else Inl UnsupportedProfile)"

definition file_errors :: "admission_error + 'a \<Rightarrow> record_error + 'a" where
  "file_errors r = (case r of Inl e \<Rightarrow> Inl (FileAdmission e) | Inr x \<Rightarrow> Inr x)"

lemma file_errors_Inr [simp]: "file_errors r = Inr x \<longleftrightarrow> r = Inr x"
  by (cases r) (simp_all add: file_errors_def)

section \<open>Decisions\<close>

definition valid_row_decision :: "row_decision \<Rightarrow> bool" where
  "valid_row_decision d \<longleftrightarrow> is_sha256 (rd_sha d) \<and> rd_decision d \<in> {''qualify'', ''exclude'', ''quarantine''} \<and> \<not> blank (rd_reason d)
     \<and> list_all (\<lambda>i. \<not> blank (gi_field i) \<and> \<not> blank (gi_owner i) \<and> \<not> blank (gi_remedy i) \<and> \<not> blank (gi_impact i)) (rd_issues d)"

definition add_decision :: "row_decision list \<Rightarrow> row_decision \<Rightarrow> record_error + row_decision list" where
  "add_decision indexed d =
     bindE (guardE (0 \<le> rd_index d \<and> rd_index d \<notin> rd_index ` set indexed) DuplicateIndex) (\<lambda>_.
     bindE (guardE (valid_row_decision d) InvalidDecisionValue) (\<lambda>_.
     bindE (guardE (case rd_manual d of Some (Some r) \<Rightarrow> valid_manual r | _ \<Rightarrow> True) InvalidReview) (\<lambda>_.
     Inr (indexed @ [d]))))"

definition decision_at :: "row_decision list \<Rightarrow> int \<Rightarrow> row_decision option" where
  "decision_at ds i = find (\<lambda>d. rd_index d = i) ds"

text \<open>The decisions are for the selected rows: as many, and every selected index is new and decided.\<close>

definition covers_rows :: "row_decision list \<Rightarrow> row_receipt list \<Rightarrow> bool" where
  "covers_rows ds selected \<longleftrightarrow> length ds = length selected \<and> distinct (map rc_index selected)
     \<and> list_all (\<lambda>r. rc_index r \<in> rd_index ` set ds) selected"

section \<open>One row\<close>

definition envelope_key :: string where
  "envelope_key = ''_sparselab_source''"

text \<open>\<open>re.fullmatch(re.escape(path) + r":\d+", provenance)\<close>\<close>

definition provenance_names :: "string \<Rightarrow> json \<Rightarrow> bool" where
  "provenance_names path v = (case v of
     JStr s \<Rightarrow> starts_with (path @ '':'') s \<and> drop (Suc (length path)) s \<noteq> [] \<and> list_all is_digit (drop (Suc (length path)) s)
   | _ \<Rightarrow> False)"

definition legacy_identity :: "row_entry \<Rightarrow> row \<Rightarrow> row \<Rightarrow> bool" where
  "legacy_identity item original envelope \<longleftrightarrow> (case get_or original ''id'' JNull of JStr _ \<Rightarrow> True | _ \<Rightarrow> False)
     \<and> get_or original ''id'' JNull = get_or envelope ''id'' JNull
     \<and> provenance_names (re_shard_path item)
         (case get_or original ''metadata'' JNull of JObj kvs \<Rightarrow> get_or kvs ''provenance'' JNull | _ \<Rightarrow> JNull)"

definition screen_row :: "admission_env \<Rightarrow> admission_profile \<Rightarrow> hf_source \<Rightarrow> row_use_policy option \<Rightarrow> row
    \<Rightarrow> record_error + row_conflict option \<times> string list" where
  "screen_row env profile src row_use original = (case (profile, hf_qualification src) of
     (DeclaredRows, Some q) \<Rightarrow>
       (case valid_qualification q of Inl _ \<Rightarrow> Inl InvalidQualification
        | Inr _ \<Rightarrow> Inr (row_exceptions (ae_digest env) original q (hf_text_field src) row_use))
   | (DeclaredRows, None) \<Rightarrow> Inl InvalidQualification
   | _ \<Rightarrow> Inr (legacy_exceptions (ae_bracketed env) (profile = Gutenberg) original))"

text \<open>Equality of Python values: \<open>True\<close> is 1, the order of keys does not matter.\<close>

fun py_equal :: "json \<Rightarrow> json \<Rightarrow> bool" where
  "py_equal (JBool a) w = (case w of JBool b \<Rightarrow> a = b | JInt i \<Rightarrow> i = (if a then 1 else 0) | _ \<Rightarrow> False)"
| "py_equal (JInt i) w = (case w of JBool b \<Rightarrow> i = (if b then 1 else 0) | JInt j \<Rightarrow> i = j | _ \<Rightarrow> False)"
| "py_equal (JList xs) w = (case w of JList ys \<Rightarrow> list_all2 (\<lambda>x y. py_equal x y) xs ys | _ \<Rightarrow> False)"
| "py_equal (JObj a) w = (case w of
     JObj b \<Rightarrow> length a = length b \<and> list_all (\<lambda>(k, v). case map_of b k of None \<Rightarrow> False | Some u \<Rightarrow> py_equal v u) a
   | _ \<Rightarrow> False)"
| "py_equal v w = (v = w)"

definition evidence_matches :: "evidence_value option \<Rightarrow> use_evidence \<Rightarrow> bool" where
  "evidence_matches v expected = (case v of
     Some (Evidence e) \<Rightarrow> py_equal (ue_label e) (ue_label expected) \<and> e\<lparr>ue_label := ue_label expected\<rparr> = expected
   | _ \<Rightarrow> False)"

definition check_evidence :: "admission_env \<Rightarrow> hf_source \<Rightarrow> row_use_policy option \<Rightarrow> row \<Rightarrow> row_decision \<Rightarrow> record_error + unit" where
  "check_evidence env src row_use original d = (case (row_use, hf_qualification src) of
     (Some u, Some q) \<Rightarrow> guardE (evidence_matches (rd_evidence d) (use_evidence_of (ae_digest env) original q (hf_text_field src) u)) EvidenceDiffers
   | (Some _, None) \<Rightarrow> Inl InvalidQualification
   | (None, _) \<Rightarrow> guardE (rd_evidence d = None) EvidenceUnbound)"

definition may_exclude :: "row_conflict \<Rightarrow> bool" where
  "may_exclude c \<longleftrightarrow> c \<in> {LegacyConflict ''Wikimedia record outside content namespace'', TrainingUseRestriction}"

definition check_decision :: "row_conflict option \<Rightarrow> string list \<Rightarrow> row_decision \<Rightarrow> record_error + unit" where
  "check_decision conflict flags d =
     (if rd_decision d = ''qualify'' then
        (case conflict of Some c \<Rightarrow> Inl (QualifiedConflict c)
         | None \<Rightarrow> guardE (flags = [] \<or> rd_manual d \<noteq> None) LacksReview)
      else case conflict of
        Some c \<Rightarrow> guardE (rd_decision d \<noteq> ''exclude'' \<or> may_exclude c) MustQuarantine
      | None \<Rightarrow> Inr ())"

definition row_bound :: "admission_env \<Rightarrow> admission_profile \<Rightarrow> hf_source \<Rightarrow> row_entry \<Rightarrow> row_receipt \<Rightarrow> row \<Rightarrow> row \<Rightarrow> row_decision \<Rightarrow> bool" where
  "row_bound env profile src item receipt original envelope d \<longleftrightarrow> (let h = ae_digest env (JObj original) in
     h = rc_sha receipt \<and> get_or envelope ''source_row_sha256'' JNull = JStr h \<and> h = rd_sha d
     \<and> get_or envelope ''dataset_revision'' JNull = JStr (hf_revision src)
     \<and> get_or envelope ''source_shard_path'' JNull = JStr (re_shard_path item)
     \<and> get_or envelope ''source_shard_sha256'' JNull = JStr (re_shard_sha item)
     \<and> (profile = DeclaredRows \<or> legacy_identity item original envelope))"

text \<open>The body of the loop over the rows.\<close>

definition check_row :: "admission_env \<Rightarrow> admission_profile \<Rightarrow> hf_source \<Rightarrow> row_entry \<Rightarrow> row_decision list
    \<Rightarrow> json jsonl_record \<Rightarrow> row_receipt \<Rightarrow> record_error + unit" where
  "check_row env profile src item indexed rec receipt = (case jr_value rec of
     JObj kvs \<Rightarrow> (case get_or kvs envelope_key JNull of
       JObj envelope \<Rightarrow>
         let original = filter (\<lambda>(k, _). k \<noteq> envelope_key) kvs in
         (case get_or envelope ''source_row_index'' JNull of
            JInt i \<Rightarrow> (case decision_at indexed i of
              Some d \<Rightarrow>
                bindE (guardE (i = rc_index receipt \<and> row_bound env profile src item receipt original envelope d) RowMismatch) (\<lambda>_.
                bindE (screen_row env profile src (re_use item) original) (\<lambda>(conflict, flags).
                bindE (check_evidence env src (re_use item) original d) (\<lambda>_.
                check_decision conflict flags d)))
            | None \<Rightarrow> Inl RowMismatch)
          | _ \<Rightarrow> Inl RowMismatch)
     | _ \<Rightarrow> Inl LacksEnvelope)
   | _ \<Rightarrow> Inl LacksEnvelope)"

text \<open>\<open>zip_longest\<close> of the rows of the sample and the receipts.\<close>

fun check_rows :: "(json jsonl_record \<Rightarrow> row_receipt \<Rightarrow> record_error + unit) \<Rightarrow> json jsonl_record generator \<Rightarrow> row_receipt list
    \<Rightarrow> record_error + unit" where
  "check_rows check ([], Some e) receipts = Inl (Unreadable e)"
| "check_rows check ([], None) receipts = guardE (receipts = []) RowCount"
| "check_rows check (r # rs, e) [] = Inl RowCount"
| "check_rows check (r # rs, e) (c # cs) = bindE (check r c) (\<lambda>_. check_rows check (rs, e) cs)"

section \<open>One source\<close>

text \<open>\<open>_MAX_RECORD_BYTES\<close>\<close>

definition max_record_bytes :: int where
  "max_record_bytes = 8 * 1024 ^ 2"

definition row_provenance_ok :: "row_entry \<Rightarrow> hf_source \<Rightarrow> row_snapshot \<Rightarrow> bool" where
  "row_provenance_ok item src snap \<longleftrightarrow> re_snapshot item = sn_sha snap \<and> re_revision item = hf_revision src
     \<and> sn_declared_id snap = re_source item \<and> sn_declared_revision snap = hf_revision src \<and> \<not> blank (re_label item)"

definition profile_basis :: "admission_profile \<Rightarrow> string \<Rightarrow> record_error + unit" where
  "profile_basis profile label = (case profile of
     Gutenberg \<Rightarrow> guardE (sublist ''public domain'' (map (\<lambda>c. if c = CHR ''-'' then CHR 0x20 else c) (to_lower label))) LacksPublicDomain
   | Wikimedia \<Rightarrow> guardE (sublist ''cc-by-sa-4.0'' (to_lower label)) LacksLicenseBasis
   | DeclaredRows \<Rightarrow> Inr ())"

definition one_shard :: "row_snapshot \<Rightarrow> record_error + row_shard \<times> string \<times> string" where
  "one_shard snap = (case (rn_shards snap, sn_files snap) of
     ([shard], [(path, sha)]) \<Rightarrow> Inr (shard, path, sha) | _ \<Rightarrow> Inl NotOneShard)"

definition shard_matches :: "row_entry \<Rightarrow> row_shard \<Rightarrow> string \<Rightarrow> string \<Rightarrow> bool" where
  "shard_matches item shard path sha \<longleftrightarrow> re_sample_path item = path \<and> re_sample_path item = sh_output shard
     \<and> re_sample_sha item = sha \<and> re_shard_path item = sh_source_path shard \<and> re_shard_sha item = sh_source_sha shard"

definition research_scope :: "admission_profile \<Rightarrow> rights_policy \<Rightarrow> bool" where
  "research_scope profile p \<longleftrightarrow> may_train (rp_training p) \<and> rp_redistribution p = MetadataOnly \<and> rp_references p \<noteq> []
     \<and> (profile = Gutenberg \<longrightarrow> rp_spdx p = None) \<and> (profile = Wikimedia \<longrightarrow> rp_spdx p = Some ''CC-BY-SA-4.0'')"

definition sample_reader :: "admission_env \<Rightarrow> string \<Rightarrow> string \<Rightarrow> json jsonl_record generator" where
  "sample_reader env sha raw = records_from_path (ae_sha256 env) (ae_parse env)
     (Some (case ae_cap env of None \<Rightarrow> max_record_bytes | Some c \<Rightarrow> min max_record_bytes c)) (Some sha) raw"

definition restrictions_inside :: "row_entry \<Rightarrow> row_receipt list \<Rightarrow> bool" where
  "restrictions_inside item selected \<longleftrightarrow> (case re_use item of
     None \<Rightarrow> True | Some u \<Rightarrow> list_all (\<lambda>(d, _). d \<in> rc_sha ` set selected) (ru_restricted u))"

definition admit_rows :: "admission_env \<Rightarrow> string \<Rightarrow> string \<Rightarrow> hf_source \<Rightarrow> row_snapshot \<Rightarrow> row_entry
    \<Rightarrow> record_error + string \<times> admitted_rows" where
  "admit_rows env policy_id policy_sha src snap item =
     bindE (guardE (hf_version src = 2) NotBoundedHf) (\<lambda>_.
     bindE (profile_of src) (\<lambda>profile.
     bindE (case re_use item of None \<Rightarrow> Inr () | Some u \<Rightarrow> guardE (valid_row_use u = Inr ()) InvalidUsePolicy) (\<lambda>_.
     bindE (guardE (re_use item = None \<or> profile = DeclaredRows) UseNeedsDeclared) (\<lambda>_.
     bindE (guardE (row_provenance_ok item src snap) ProvenanceMismatch) (\<lambda>_.
     bindE (profile_basis profile (re_label item)) (\<lambda>_.
     bindE (one_shard snap) (\<lambda>(shard, path, sha).
     bindE (guardE (shard_matches item shard path sha) ShardMismatch) (\<lambda>_.
     bindE (file_errors (rights_of (valid_rights_policy (re_rights item)))) (\<lambda>_.
     bindE (guardE (research_scope profile (re_rights item)) OutsideResearchScope) (\<lambda>_.
     bindE (file_errors (rights_of (resolve_file_rights (re_rights item) path [] [] True))) (\<lambda>rights.
     bindE (guardE (may_train (fr_training rights)) ShardNotQualified) (\<lambda>_.
     bindE (foldE add_decision [] (re_records item)) (\<lambda>indexed.
     bindE (guardE (covers_rows indexed (sh_selected shard)) NotCovered) (\<lambda>_.
     bindE (file_errors (read_sample (ae_tree env) (re_source item) (sn_sha snap) path)) (\<lambda>raw.
     bindE (check_rows (check_row env profile src item indexed) (sample_reader env sha raw) (sh_selected shard)) (\<lambda>_.
     bindE (guardE (restrictions_inside item (sh_selected shard)) RestrictionOutside) (\<lambda>_.
     Inr (path, \<lparr>ar_rights = rights, ar_label = re_label item, ar_spdx = rp_spdx (re_rights item), ar_decisions = indexed,
       ar_policy_id = policy_id, ar_policy_sha = policy_sha\<rparr>))))))))))))))))))"


section \<open>The manifest\<close>

fun entry_source :: "admission_entry \<Rightarrow> string" where
  "entry_source (RowEntry e) = re_source e"
| "entry_source (GitEntry e) = ge_source e"

type_synonym row_admissions = "string \<times> string \<rightharpoonup> admitted_rows"

definition valid_manifest :: "int \<Rightarrow> admission_manifest \<Rightarrow> bool" where
  "valid_manifest version m \<longleftrightarrow> am_version m = version \<and> \<not> blank (am_policy_id m) \<and> is_sha256 (am_policy_sha m)"

text \<open>The sources named by the entries are the declared ones, each named once.\<close>

definition same_inventory :: "admission_entry list \<Rightarrow> (string \<times> 'a) list \<Rightarrow> bool" where
  "same_inventory entries sources \<longleftrightarrow> entry_source ` set entries = fst ` set sources \<and> length entries = length sources"

definition admit_row_source :: "admission_env \<Rightarrow> admission_manifest \<Rightarrow> (string \<times> declared_source) list \<Rightarrow> (string \<times> row_snapshot) list
    \<Rightarrow> row_admissions \<Rightarrow> admission_entry \<Rightarrow> record_error + row_admissions" where
  "admit_row_source env m sources snapshots resolved item = (case item of
     GitEntry _ \<Rightarrow> Inl EntryShape
   | RowEntry e \<Rightarrow> (case map_of snapshots (re_source e) of
       None \<Rightarrow> Inl MissingSnapshot
     | Some snap \<Rightarrow> (case map_of sources (re_source e) of
         Some (HfSource src) \<Rightarrow>
           bindE (admit_rows env (am_policy_id m) (am_policy_sha m) src snap e) (\<lambda>(path, admitted).
           Inr (resolved((re_source e, path) \<mapsto> admitted)))
       | _ \<Rightarrow> Inl NotBoundedHf)))"

text \<open>\<open>_verify_record_admission_v1\<close>\<close>

definition admit_v1 :: "admission_env \<Rightarrow> admission_manifest \<Rightarrow> (string \<times> declared_source) list \<Rightarrow> (string \<times> row_snapshot) list
    \<Rightarrow> record_error + row_admissions" where
  "admit_v1 env m sources snapshots =
     bindE (guardE (valid_manifest 1 m) ManifestInvalid) (\<lambda>_.
     bindE (guardE (same_inventory (am_sources m) sources) InventoryMismatch) (\<lambda>_.
     foldE (admit_row_source env m sources snapshots) Map.empty (am_sources m)))"

datatype admission = Rows admitted_rows | File admitted

definition is_hf :: "(string \<times> declared_source) list \<Rightarrow> admission_entry \<Rightarrow> bool" where
  "is_hf sources item = (case map_of sources (entry_source item) of Some (HfSource _) \<Rightarrow> True | _ \<Rightarrow> False)"

definition is_git :: "(string \<times> declared_source) list \<Rightarrow> admission_entry \<Rightarrow> bool" where
  "is_git sources item = (case map_of sources (entry_source item) of Some (GitSource _) \<Rightarrow> True | _ \<Rightarrow> False)"

definition git_sources :: "(string \<times> declared_source) list \<Rightarrow> string \<rightharpoonup> git_source" where
  "git_sources sources = (\<lambda>k. case map_of sources k of Some (GitSource g) \<Rightarrow> Some g | _ \<Rightarrow> None)"

definition git_snapshots :: "(string \<times> row_snapshot) list \<Rightarrow> string \<rightharpoonup> git_snapshot" where
  "git_snapshots snapshots = (\<lambda>k. map_option git_snapshot.truncate (map_of snapshots k))"

text \<open>The body of the loop over the entries of Git sources.\<close>

definition admit_git_source :: "admission_env \<Rightarrow> admission_manifest \<Rightarrow> (string \<times> declared_source) list \<Rightarrow> (string \<times> row_snapshot) list
    \<Rightarrow> (string \<times> string \<rightharpoonup> admitted) \<Rightarrow> admission_entry \<Rightarrow> record_error + (string \<times> string \<rightharpoonup> admitted)" where
  "admit_git_source env m sources snapshots resolved item = (case item of
     RowEntry _ \<Rightarrow> Inl EntryShape
   | GitEntry e \<Rightarrow> file_errors (admit_entry (ae_sha256 env) (ae_tree env) (am_policy_id m) (am_policy_sha m)
       (git_sources sources) (git_snapshots snapshots) resolved e))"

text \<open>
  \<open>verify_record_admission\<close>. Files are admitted after all rows, to keys of other sources, so the result
  is the union of both.
\<close>

definition verify_record_admission :: "admission_env \<Rightarrow> admission_manifest \<Rightarrow> (string \<times> declared_source) list
    \<Rightarrow> (string \<times> row_snapshot) list \<Rightarrow> record_error + (string \<times> string \<rightharpoonup> admission)" where
  "verify_record_admission env m sources snapshots =
     (if am_version m = 1 then
        bindE (admit_v1 env m sources snapshots) (\<lambda>rows. Inr (\<lambda>k. map_option Rows (rows k)))
      else
        bindE (guardE (valid_manifest 2 m \<and> fst ` set sources = fst ` set snapshots) ManifestInvalid) (\<lambda>_.
        bindE (guardE (same_inventory (am_sources m) sources) InventoryMismatch) (\<lambda>_.
        let hf = filter (is_hf sources) (am_sources m); git = filter (is_git sources) (am_sources m);
            hf_ids = entry_source ` set hf in
        bindE (guardE (length hf + length git = length (am_sources m)) UnsupportedKind) (\<lambda>_.
        bindE (admit_v1 env (m\<lparr>am_version := 1, am_sources := hf\<rparr>) (filter (\<lambda>(k, _). k \<in> hf_ids) sources)
          (filter (\<lambda>(k, _). k \<in> hf_ids) snapshots)) (\<lambda>rows.
        bindE (foldE (admit_git_source env m sources snapshots) Map.empty git) (\<lambda>files.
        Inr (\<lambda>k. case files k of Some a \<Rightarrow> Some (File a) | None \<Rightarrow> map_option Rows (rows k))))))))"

section \<open>Every admitted row was decided\<close>

lemma add_decision_Inr [simp]:
  "add_decision indexed d = Inr out \<longleftrightarrow> 0 \<le> rd_index d \<and> rd_index d \<notin> rd_index ` set indexed \<and> valid_row_decision d
     \<and> (case rd_manual d of Some (Some r) \<Rightarrow> valid_manual r | _ \<Rightarrow> True) \<and> out = indexed @ [d]"
  by (auto simp: add_decision_def)

lemma fold_decisions:
  assumes "foldE add_decision start ds = Inr out" and "distinct (map rd_index start)"
  shows "out = start @ ds \<and> distinct (map rd_index out)
    \<and> (\<forall>d \<in> set ds. 0 \<le> rd_index d \<and> valid_row_decision d \<and> (case rd_manual d of Some (Some r) \<Rightarrow> valid_manual r | _ \<Rightarrow> True))"
  using assms
proof (induction ds arbitrary: start)
  case (Cons d ds)
  from Cons.prems(1) have d: "0 \<le> rd_index d" "rd_index d \<notin> rd_index ` set start" "valid_row_decision d"
      "case rd_manual d of Some (Some r) \<Rightarrow> valid_manual r | _ \<Rightarrow> True" "foldE add_decision (start @ [d]) ds = Inr out"
    by auto
  from Cons.prems(2) d(2) have "distinct (map rd_index (start @ [d]))" by simp
  note ih = Cons.IH [OF d(5) this]
  show ?case
  proof (intro conjI)
    show "out = start @ d # ds" using ih by simp
    show "distinct (map rd_index out)" using ih by blast
  qed (use ih d(1,3,4) in simp)
qed simp

lemma decision_at_Some: "decision_at ds i = Some d \<Longrightarrow> d \<in> set ds \<and> rd_index d = i"
  by (auto simp: decision_at_def find_Some_iff in_set_conv_nth)

text \<open>
  What a successful check of a row with its receipt shows. That a flagged row has a review means, as in the code, that its decision has the
  key of the review; the value under the key may be null.
\<close>

definition row_reviewed :: "admission_env \<Rightarrow> admission_profile \<Rightarrow> hf_source \<Rightarrow> row_entry
    \<Rightarrow> json jsonl_record \<Rightarrow> row_receipt \<Rightarrow> bool" where
  "row_reviewed env profile src item rec receipt \<longleftrightarrow> (\<exists>kvs d conflict flags.
     jr_value rec = JObj kvs \<and> d \<in> set (re_records item) \<and> rd_index d = rc_index receipt
     \<and> (let original = filter (\<lambda>(k, _). k \<noteq> envelope_key) kvs in
        ae_digest env (JObj original) = rd_sha d \<and> rd_sha d = rc_sha receipt
        \<and> screen_row env profile src (re_use item) original = Inr (conflict, flags))
     \<and> (rd_decision d = ''qualify'' \<longrightarrow> conflict = None \<and> (flags \<noteq> [] \<longrightarrow> rd_manual d \<noteq> None))
     \<and> (\<forall>c. conflict = Some c \<and> \<not> may_exclude c \<longrightarrow> rd_decision d = ''quarantine''))"

lemma check_decision_Inr:
  assumes "check_decision conflict flags d = Inr ()" and "valid_row_decision d"
  shows "rd_decision d = ''qualify'' \<longrightarrow> conflict = None \<and> (flags \<noteq> [] \<longrightarrow> rd_manual d \<noteq> None)"
    and "conflict = Some c \<and> \<not> may_exclude c \<longrightarrow> rd_decision d = ''quarantine''"
  using assms by (auto simp: check_decision_def valid_row_decision_def split: if_splits option.splits)

lemma check_row_reviewed:
  assumes "check_row env profile src item ds rec receipt = Inr ()" and "ds = re_records item" and "\<forall>d \<in> set ds. valid_row_decision d"
  shows "row_reviewed env profile src item rec receipt"
proof -
  from assms(1) obtain kvs envelope where k: "jr_value rec = JObj kvs" "get_or kvs envelope_key JNull = JObj envelope"
    by (auto simp: check_row_def split: json.splits)
  let ?o = "filter (\<lambda>(k, _). k \<noteq> envelope_key) kvs"
  from assms(1) obtain d where d: "decision_at ds (rc_index receipt) = Some d" "row_bound env profile src item receipt ?o envelope d"
      "bindE (screen_row env profile src (re_use item) ?o) (\<lambda>(conflict, flags).
                bindE (check_evidence env src (re_use item) ?o d) (\<lambda>_. check_decision conflict flags d)) = Inr ()"
    by (auto simp: check_row_def k Let_def split: json.splits option.splits)
  from d(3) obtain conflict flags where c: "screen_row env profile src (re_use item) ?o = Inr (conflict, flags)" "check_decision conflict flags d = Inr ()"
    by auto
  from decision_at_Some [OF d(1)] assms have m: "d \<in> set (re_records item)" "rd_index d = rc_index receipt" "valid_row_decision d" by auto
  from d(2) have "ae_digest env (JObj ?o) = rd_sha d" "rd_sha d = rc_sha receipt" by (auto simp: row_bound_def Let_def)
  with k(1) c(1) m check_decision_Inr [OF c(2) m(3)] show ?thesis unfolding row_reviewed_def Let_def by blast
qed

lemma check_rows_Inr:
  assumes "check_rows check (rs, e) cs = Inr ()"
  shows "e = None \<and> list_all2 (\<lambda>r c. check r c = Inr ()) rs cs"
  using assms
proof (induction rs arbitrary: cs)
  case Nil
  then show ?case by (cases e) auto
next
  case (Cons r rs)
  then show ?case by (cases cs) auto
qed

text \<open>The rows and the file of an admitted entry.\<close>

definition rows_reviewed :: "admission_env \<Rightarrow> hf_source \<Rightarrow> row_snapshot \<Rightarrow> row_entry \<Rightarrow> string \<Rightarrow> admitted_rows \<Rightarrow> bool" where
  "rows_reviewed env src snap item path a \<longleftrightarrow> (\<exists>profile shard raw rs.
     profile_of src = Inr profile \<and> rn_shards snap = [shard] \<and> sn_files snap = [(path, ae_sha256 env raw)]
     \<and> ae_tree env (re_source item, sn_sha snap, path) = Some (RegularFile raw)
     \<and> fst (sample_reader env (ae_sha256 env raw) raw) = rs
     \<and> list_all2 (row_reviewed env profile src item) rs (sh_selected shard)
     \<and> distinct (map rd_index (re_records item)) \<and> length (re_records item) = length rs
     \<and> may_train (fr_training (ar_rights a)) \<and> ar_decisions a = re_records item)"

lemma sample_reader_None: "sample_reader env sha raw = (rs, None) \<Longrightarrow> ae_sha256 env raw = sha"
  by (auto simp: sample_reader_def records_from_path_def split: prod.splits if_splits)

lemma admit_rows_Inr:
  assumes "admit_rows env policy_id policy_sha src snap item = Inr (path, a)"
  shows "rows_reviewed env src snap item path a"
proof -
  from assms have trains: "may_train (fr_training (ar_rights a))" by (auto simp: admit_rows_def)
  from assms obtain profile shard sha ds raw where a: "profile_of src = Inr profile" "one_shard snap = Inr (shard, path, sha)"
      "foldE add_decision [] (re_records item) = Inr ds" "covers_rows ds (sh_selected shard)"
      "read_sample (ae_tree env) (re_source item) (sn_sha snap) path = Inr raw"
      "check_rows (check_row env profile src item ds) (sample_reader env sha raw) (sh_selected shard) = Inr ()"
      "ar_decisions a = ds"
    by (auto simp: admit_rows_def)
  obtain rs e where r: "sample_reader env sha raw = (rs, e)" by (cases "sample_reader env sha raw")
  from fold_decisions [OF a(3)] have ds: "ds = re_records item" "distinct (map rd_index ds)" "\<forall>d \<in> set ds. valid_row_decision d" by auto
  from check_rows_Inr [OF a(6) [unfolded r]] have e: "e = None"
    and "list_all2 (\<lambda>r c. check_row env profile src item ds r c = Inr ()) rs (sh_selected shard)" by auto
  then have rows: "list_all2 (row_reviewed env profile src item) rs (sh_selected shard)"
    by (auto elim!: list_all2_mono intro: check_row_reviewed [OF _ ds(1,3)])
  from sample_reader_None [OF r [unfolded e]] have sha: "ae_sha256 env raw = sha" .
  from a(2) have shard: "rn_shards snap = [shard]" "sn_files snap = [(path, ae_sha256 env raw)]"
    by (auto simp: one_shard_def sha split: list.splits)
  from a(5) have tree: "ae_tree env (re_source item, sn_sha snap, path) = Some (RegularFile raw)"
    by (auto simp: read_sample_def split: option.splits sample_node.splits)
  from a(4) rows have "length ds = length rs" by (simp add: covers_rows_def list_all2_lengthD)
  with a(1,7) trains ds rows shard tree r sha show ?thesis by (auto simp: rows_reviewed_def)
qed


section \<open>The whole manifest\<close>

text \<open>What holds of an entry after a successful admission with the result \<open>out\<close>.\<close>

definition rows_admitted :: "admission_env \<Rightarrow> (string \<times> declared_source) list \<Rightarrow> (string \<times> row_snapshot) list
    \<Rightarrow> row_admissions \<Rightarrow> row_entry \<Rightarrow> bool" where
  "rows_admitted env sources snapshots rows e \<longleftrightarrow> (\<exists>src snap path a. map_of sources (re_source e) = Some (HfSource src)
     \<and> map_of snapshots (re_source e) = Some snap \<and> rows (re_source e, path) = Some a \<and> rows_reviewed env src snap e path a)"

definition files_admitted :: "admission_env \<Rightarrow> (string \<times> row_snapshot) list \<Rightarrow> (string \<times> string \<rightharpoonup> admitted) \<Rightarrow> git_entry \<Rightarrow> bool" where
  "files_admitted env snapshots files e \<longleftrightarrow> (\<exists>snap. map_of snapshots (ge_source e) = Some snap
     \<and> (\<forall>(path, digest) \<in> set (sn_files snap). \<exists>d. file_screened (ae_sha256 env) (ae_tree env) files e path digest d))"

definition entry_admitted :: "admission_env \<Rightarrow> (string \<times> declared_source) list \<Rightarrow> (string \<times> row_snapshot) list
    \<Rightarrow> (string \<times> string \<rightharpoonup> admission) \<Rightarrow> admission_entry \<Rightarrow> bool" where
  "entry_admitted env sources snapshots out item = (case item of
     RowEntry e \<Rightarrow> rows_admitted env sources snapshots (\<lambda>k. case out k of Some (Rows a) \<Rightarrow> Some a | _ \<Rightarrow> None) e
   | GitEntry e \<Rightarrow> files_admitted env snapshots (\<lambda>k. case out k of Some (File a) \<Rightarrow> Some a | _ \<Rightarrow> None) e)"

lemma inventory_distinct:
  assumes "same_inventory entries sources" and "distinct (map fst sources)"
  shows "distinct (map entry_source entries)"
proof (rule card_distinct)
  from assms distinct_card [OF assms(2)] show "card (set (map entry_source entries)) = length (map entry_source entries)"
    by (simp add: same_inventory_def)
qed

lemma map_of_filter_key: "map_of (filter (\<lambda>(k, _). P k) xs) k = (if P k then map_of xs k else None)"
  by (induction xs) auto

lemma admit_row_source_Inr:
  assumes "admit_row_source env m sources snapshots start item = Inr out"
  obtains e where "item = RowEntry e" and "rows_admitted env sources snapshots out e"
    and "\<forall>k. fst k \<noteq> re_source e \<longrightarrow> out k = start k"
proof -
  from assms obtain e where e: "item = RowEntry e" by (cases item) (auto simp: admit_row_source_def)
  from assms obtain src snap where s: "map_of sources (re_source e) = Some (HfSource src)" "map_of snapshots (re_source e) = Some snap"
    by (auto simp: admit_row_source_def e split: option.splits declared_source.splits)
  from assms obtain path a where "admit_rows env (am_policy_id m) (am_policy_sha m) src snap e = Inr (path, a)"
      and out: "out = start((re_source e, path) \<mapsto> a)"
    by (auto simp: admit_row_source_def e s)
  then have "rows_reviewed env src snap e path a" by (intro admit_rows_Inr)
  with s out have "rows_admitted env sources snapshots out e" by (auto simp: rows_admitted_def)
  with e out show ?thesis by (intro that) auto
qed

lemma rows_admitted_stays:
  assumes "rows_admitted env sources snapshots rows e" and "\<And>path a. rows (re_source e, path) = Some a \<Longrightarrow> rows' (re_source e, path) = Some a"
  shows "rows_admitted env sources snapshots rows' e"
  using assms unfolding rows_admitted_def by blast

lemma admit_row_sources:
  assumes "foldE (admit_row_source env m sources snapshots) start items = Inr out" and "distinct (map entry_source items)"
  shows "(\<forall>k. fst k \<notin> entry_source ` set items \<longrightarrow> out k = start k)
    \<and> (\<forall>item \<in> set items. \<exists>e. item = RowEntry e \<and> rows_admitted env sources snapshots out e)"
  using assms
proof (induction items arbitrary: start)
  case (Cons item items)
  from Cons.prems(1) obtain mid where mid: "admit_row_source env m sources snapshots start item = Inr mid"
      "foldE (admit_row_source env m sources snapshots) mid items = Inr out" by auto
  from Cons.IH [OF mid(2)] Cons.prems(2) have ih: "\<forall>k. fst k \<notin> entry_source ` set items \<longrightarrow> out k = mid k"
      "\<forall>item \<in> set items. \<exists>e. item = RowEntry e \<and> rows_admitted env sources snapshots out e" by auto
  obtain e where e: "item = RowEntry e" "rows_admitted env sources snapshots mid e" "\<forall>k. fst k \<noteq> re_source e \<longrightarrow> mid k = start k"
    by (rule admit_row_source_Inr [OF mid(1)])
  from Cons.prems(2) e(1) have "re_source e \<notin> entry_source ` set items" by simp
  with ih(1) have "out (re_source e, path) = mid (re_source e, path)" for path by simp
  with e(2) have "rows_admitted env sources snapshots out e" by (auto intro: rows_admitted_stays)
  with ih e(1,3) show ?case by auto
qed simp

lemma admit_git_sources:
  assumes "foldE (admit_git_source env m sources snapshots) start items = Inr out"
  shows "\<exists>gs. items = map GitEntry gs
    \<and> admit_git (ae_sha256 env) (ae_tree env) (am_policy_id m) (am_policy_sha m) (git_sources sources) (git_snapshots snapshots) start gs = Inr out"
  using assms
proof (induction items arbitrary: start)
  case Nil
  then show ?case by (simp add: admit_git_def)
next
  case (Cons item items)
  from Cons.prems obtain mid where mid: "admit_git_source env m sources snapshots start item = Inr mid"
      "foldE (admit_git_source env m sources snapshots) mid items = Inr out" by auto
  from mid(1) obtain g where g: "item = GitEntry g" by (cases item) (auto simp: admit_git_source_def)
  from Cons.IH [OF mid(2)] obtain gs where gs: "items = map GitEntry gs"
      "admit_git (ae_sha256 env) (ae_tree env) (am_policy_id m) (am_policy_sha m) (git_sources sources) (git_snapshots snapshots) mid gs = Inr out"
    by blast
  from mid(1) g gs(2) have "admit_git (ae_sha256 env) (ae_tree env) (am_policy_id m) (am_policy_sha m)
      (git_sources sources) (git_snapshots snapshots) start (g # gs) = Inr out"
    by (simp add: admit_git_def admit_git_source_def)
  with g gs(1) show ?case by (intro exI [of _ "g # gs"]) simp
qed

lemma files_admitted_from:
  assumes "entry_decided (ae_sha256 env) (ae_tree env) (git_snapshots snapshots) files g"
  shows "files_admitted env snapshots files g"
proof -
  obtain snap where "git_snapshots snapshots (ge_source g) = Some snap"
      "\<forall>(path, digest) \<in> set (sn_files snap). \<exists>d. file_screened (ae_sha256 env) (ae_tree env) files g path digest d"
    by (rule entry_screens_files [OF assms])
  then show ?thesis by (auto simp: files_admitted_def git_snapshots_def git_snapshot.defs)
qed

lemma admit_v1_Inr:
  assumes "admit_v1 env m sources snapshots = Inr rows" and "distinct (map entry_source (am_sources m))"
  shows "(\<forall>k. fst k \<notin> entry_source ` set (am_sources m) \<longrightarrow> rows k = None)
    \<and> (\<forall>item \<in> set (am_sources m). \<exists>e. item = RowEntry e \<and> rows_admitted env sources snapshots rows e)"
proof -
  from assms(1) have "foldE (admit_row_source env m sources snapshots) Map.empty (am_sources m) = Inr rows"
    by (auto simp: admit_v1_def)
  from admit_row_sources [OF this assms(2)] show ?thesis by simp
qed


lemma rows_admitted_filtered:
  assumes "rows_admitted env (filter (\<lambda>(k, _). k \<in> ids) sources) (filter (\<lambda>(k, _). k \<in> ids) snapshots) rows e"
  shows "rows_admitted env sources snapshots rows e"
proof -
  have "map_of sources k = Some v" if "map_of (filter (\<lambda>(k, _). k \<in> ids) sources) k = Some v" for k v
    using that by (simp add: map_of_filter_key split: if_splits)
  moreover have "map_of snapshots k = Some v" if "map_of (filter (\<lambda>(k, _). k \<in> ids) snapshots) k = Some v" for k v
    using that by (simp add: map_of_filter_key split: if_splits)
  ultimately show ?thesis using assms unfolding rows_admitted_def by blast
qed

lemma git_not_hf: "is_git sources item \<Longrightarrow> \<not> is_hf sources item"
  by (auto simp: is_git_def is_hf_def split: option.splits declared_source.splits)

lemma disjoint_filters:
  assumes "\<And>x. Q x \<Longrightarrow> \<not> P x"
  shows "length (filter P xs) + length (filter Q xs) \<le> length xs
    \<and> (length (filter P xs) + length (filter Q xs) = length xs \<longrightarrow> (\<forall>x \<in> set xs. P x \<or> Q x))"
  by (induction xs) (use assms in auto)

lemma hf_or_git:
  assumes "length (filter (is_hf sources) items) + length (filter (is_git sources) items) = length items" and "item \<in> set items"
  shows "is_hf sources item \<or> is_git sources item"
  using disjoint_filters [of "is_git sources" "is_hf sources" items] git_not_hf assms by blast

text \<open>
  Version 2: the entries are those of dataset sources and those of Git sources, and the two passes
  write to keys of different sources.
\<close>

lemma verify_v2:
  assumes "verify_record_admission env m sources snapshots = Inr out" and "am_version m \<noteq> 1" and "distinct (map fst sources)"
  obtains rows files gs where "same_inventory (am_sources m) sources"
    and "out = (\<lambda>k. case files k of Some a \<Rightarrow> Some (File a) | None \<Rightarrow> map_option Rows (rows k))"
    and "\<forall>item \<in> set (filter (is_hf sources) (am_sources m)). \<exists>e. item = RowEntry e \<and> rows_admitted env sources snapshots rows e"
    and "\<forall>k. fst k \<notin> ge_source ` set gs \<longrightarrow> files k = None"
    and "filter (is_git sources) (am_sources m) = map GitEntry gs" and "\<forall>g \<in> set gs. files_admitted env snapshots files g"
    and "\<forall>item \<in> set (am_sources m). is_hf sources item \<or> is_git sources item"
proof -
  let ?hf = "filter (is_hf sources) (am_sources m)" and ?git = "filter (is_git sources) (am_sources m)"
  let ?ids = "entry_source ` set ?hf"
  from assms(1,2) obtain rows files where v: "same_inventory (am_sources m) sources"
      "length ?hf + length ?git = length (am_sources m)"
      "admit_v1 env (m\<lparr>am_version := 1, am_sources := ?hf\<rparr>) (filter (\<lambda>(k, _). k \<in> ?ids) sources) (filter (\<lambda>(k, _). k \<in> ?ids) snapshots) = Inr rows"
      "foldE (admit_git_source env m sources snapshots) Map.empty ?git = Inr files"
      "out = (\<lambda>k. case files k of Some a \<Rightarrow> Some (File a) | None \<Rightarrow> map_option Rows (rows k))"
    unfolding verify_record_admission_def Let_def if_not_P [OF assms(2)] bindE_eq_Inr guardE_eq_Inr by blast
  from inventory_distinct [OF v(1) assms(3)] have d: "distinct (map entry_source (am_sources m))" .
  then have dhf: "distinct (map entry_source ?hf)" and dgit: "distinct (map entry_source ?git)" by (rule distinct_map_filter)+
  from admit_v1_Inr [OF v(3)] dhf
  have "\<forall>item \<in> set ?hf. \<exists>e. item = RowEntry e \<and> rows_admitted env (filter (\<lambda>(k, _). k \<in> ?ids) sources) (filter (\<lambda>(k, _). k \<in> ?ids) snapshots) rows e"
    by simp
  then have rows: "\<forall>item \<in> set ?hf. \<exists>e. item = RowEntry e \<and> rows_admitted env sources snapshots rows e"
    by (blast intro: rows_admitted_filtered)
  from admit_git_sources [OF v(4)] obtain gs where gs: "?git = map GitEntry gs"
      "admit_git (ae_sha256 env) (ae_tree env) (am_policy_id m) (am_policy_sha m) (git_sources sources) (git_snapshots snapshots) Map.empty gs = Inr files"
    by blast
  from dgit gs(1) have "distinct (map ge_source gs)" by (simp add: comp_def)
  from admit_git_Inr [OF gs(2) this] have files: "\<forall>k. fst k \<notin> ge_source ` set gs \<longrightarrow> files k = None"
      "\<forall>g \<in> set gs. files_admitted env snapshots files g"
    by (auto intro: files_admitted_from)
  have "is_hf sources item \<or> is_git sources item" if "item \<in> set (am_sources m)" for item
    using hf_or_git [OF v(2) that] .
  then have kinds: "\<forall>item \<in> set (am_sources m). is_hf sources item \<or> is_git sources item" by blast
  show ?thesis by (rule that [OF v(1) v(5) rows files(1) gs(1) files(2) kinds])
qed

text \<open>
  C19. Nothing declared escapes the admission. If a manifest is admitted, every declared source has an entry.
  For every dataset source, the one file of its snapshot was read, not through a link, to its end and has the pinned digest;
  its rows are the selected ones, one for one and in order; every row has a decision of its
  own that names the digest of the row; a row that qualifies has no finding, and its decision has the key of a review, with
  null as a possible value, if it is flagged; a row with a finding is quarantined, unless the finding allows to exclude it. For every Git source, every
  pinned file was screened.
\<close>

theorem nothing_escapes_admission:
  assumes "verify_record_admission env m sources snapshots = Inr out" and "distinct (map fst sources)"
  shows "entry_source ` set (am_sources m) = fst ` set sources
    \<and> list_all (entry_admitted env sources snapshots out) (am_sources m)"
proof (cases "am_version m = 1")
  case True
  with assms(1) obtain rows where r: "admit_v1 env m sources snapshots = Inr rows" "out = (\<lambda>k. map_option Rows (rows k))"
    by (auto simp: verify_record_admission_def)
  from r(1) have inv: "same_inventory (am_sources m) sources" by (auto simp: admit_v1_def)
  have "(\<lambda>k. case out k of Some (Rows a) \<Rightarrow> Some a | _ \<Rightarrow> None) = rows"
    by (auto simp: r(2) fun_eq_iff split: option.splits)
  with admit_v1_Inr [OF r(1) inventory_distinct [OF inv assms(2)]] inv show ?thesis
    by (auto simp: list_all_iff entry_admitted_def same_inventory_def split: admission_entry.splits)
next
  case False
  obtain rows files gs where v: "same_inventory (am_sources m) sources"
    "out = (\<lambda>k. case files k of Some a \<Rightarrow> Some (File a) | None \<Rightarrow> map_option Rows (rows k))"
    "\<forall>item \<in> set (filter (is_hf sources) (am_sources m)). \<exists>e. item = RowEntry e \<and> rows_admitted env sources snapshots rows e"
    "\<forall>k. fst k \<notin> ge_source ` set gs \<longrightarrow> files k = None"
    "filter (is_git sources) (am_sources m) = map GitEntry gs" "\<forall>g \<in> set gs. files_admitted env snapshots files g"
    "\<forall>item \<in> set (am_sources m). is_hf sources item \<or> is_git sources item"
    by (rule verify_v2 [OF assms(1) False assms(2)])
  have fs: "(\<lambda>k. case out k of Some (File a) \<Rightarrow> Some a | _ \<Rightarrow> None) = files"
    by (auto simp: v(2) fun_eq_iff split: option.splits admission.splits)
  have "entry_admitted env sources snapshots out item" if "item \<in> set (am_sources m)" for item
  proof (cases "is_hf sources item")
    case True
    with v(3) that obtain e where e: "item = RowEntry e" "rows_admitted env sources snapshots rows e" by auto
    have "re_source e \<notin> ge_source ` set gs"
    proof
      assume "re_source e \<in> ge_source ` set gs"
      then obtain g where "g \<in> set gs" "re_source e = ge_source g" by auto
      then have "GitEntry g \<in> set (filter (is_git sources) (am_sources m))" unfolding v(5) by simp
      then have "is_git sources (GitEntry g)" by simp
      with \<open>re_source e = ge_source g\<close> e(1) have "is_git sources item" by (simp add: is_git_def)
      with True git_not_hf show False by blast
    qed
    with v(4) have "files (re_source e, path) = None" for path by simp
    with e(2) have "rows_admitted env sources snapshots (\<lambda>k. case out k of Some (Rows a) \<Rightarrow> Some a | _ \<Rightarrow> None) e"
      by (intro rows_admitted_stays [OF e(2)]) (simp add: v(2))
    with e(1) show ?thesis by (simp add: entry_admitted_def)
  next
    case False
    with v(7) that have "is_git sources item" by blast
    with that have "item \<in> set (filter (is_git sources) (am_sources m))" by simp
    then have "item \<in> set (map GitEntry gs)" unfolding v(5) .
    with v(6) fs show ?thesis by (auto simp: entry_admitted_def)
  qed
  with v(1) show ?thesis by (simp add: list_all_iff same_inventory_def)
qed


section \<open>Reviews that are null\<close>

text \<open>Every review of the entry replaced by null.\<close>

definition erase_review :: "row_decision \<Rightarrow> row_decision" where
  "erase_review d = d\<lparr>rd_manual := map_option (\<lambda>_. None) (rd_manual d)\<rparr>"

definition erase_reviews :: "row_entry \<Rightarrow> row_entry" where
  "erase_reviews item = item\<lparr>re_records := map erase_review (re_records item)\<rparr>"

lemma erase_review_simps [simp]:
  "rd_index (erase_review d) = rd_index d" "rd_sha (erase_review d) = rd_sha d" "rd_decision (erase_review d) = rd_decision d"
  "rd_evidence (erase_review d) = rd_evidence d" "rd_manual (erase_review d) \<noteq> None \<longleftrightarrow> rd_manual d \<noteq> None"
  "valid_row_decision (erase_review d) = valid_row_decision d" "rd_manual (erase_review d) = map_option (\<lambda>_. None) (rd_manual d)"
  by (simp_all add: erase_review_def valid_row_decision_def)

lemma erase_reviews_simps [simp]:
  "re_source (erase_reviews item) = re_source item" "re_use (erase_reviews item) = re_use item"
  "re_label (erase_reviews item) = re_label item" "re_rights (erase_reviews item) = re_rights item"
  "re_records (erase_reviews item) = map erase_review (re_records item)" "re_shard_path (erase_reviews item) = re_shard_path item"
  "row_provenance_ok (erase_reviews item) = row_provenance_ok item" "shard_matches (erase_reviews item) = shard_matches item"
  "restrictions_inside (erase_reviews item) = restrictions_inside item"
  "row_bound env profile src (erase_reviews item) receipt original envelope d = row_bound env profile src item receipt original envelope d"
  by (simp_all add: erase_reviews_def fun_eq_iff row_provenance_ok_def shard_matches_def restrictions_inside_def
      row_bound_def legacy_identity_def)

lemma erased_fold:
  "foldE add_decision start ds = Inr out \<Longrightarrow>
    foldE add_decision (map erase_review start) (map erase_review ds) = Inr (map erase_review out)"
proof (induction ds arbitrary: start)
  case (Cons d ds)
  from Cons.prems have d: "0 \<le> rd_index d" "rd_index d \<notin> rd_index ` set start" "valid_row_decision d"
      "foldE add_decision (start @ [d]) ds = Inr out" by auto
  from Cons.IH [OF d(4)] d(1-3) have "add_decision (map erase_review start) (erase_review d) = Inr (map erase_review (start @ [d]))"
      "foldE add_decision (map erase_review (start @ [d])) (map erase_review ds) = Inr (map erase_review out)"
    by (auto simp: image_image split: option.splits)
  then show ?case by simp
qed simp

lemma erased_decision: "decision_at (map erase_review ds) i = map_option erase_review (decision_at ds i)"
  by (induction ds) (simp_all add: decision_at_def)

lemma erased_check: "check_decision conflict flags (erase_review d) = check_decision conflict flags d"
  by (auto simp: check_decision_def split: option.splits)

lemma erased_row_bound: "row_bound env profile src item receipt original envelope (erase_review d) = row_bound env profile src item receipt original envelope d"
  by (simp add: row_bound_def)

lemma erased_evidence: "check_evidence env src row_use original (erase_review d) = check_evidence env src row_use original d"
  by (simp add: check_evidence_def split: option.splits)

lemma erased_row: "check_row env profile src (erase_reviews item) (map erase_review ds) = check_row env profile src item ds"
  by (auto simp: fun_eq_iff check_row_def erased_decision erased_check erased_row_bound erased_evidence Let_def
      split: json.splits option.splits)

lemma erased_covers: "covers_rows (map erase_review ds) = covers_rows ds"
  by (simp add: covers_rows_def fun_eq_iff image_image)

text \<open>
  C33. A null review passes for a review. A flagged row may only qualify with a manual review, and
  a decision without the key is refused; but an admitted entry stays admitted, with the same rights, if every review in it is
  replaced by null: the check of its content skips null, and the check for its presence asks for the key only. The
  Git path refuses the same.
\<close>

theorem null_review_passes:
  assumes "admit_rows env policy_id policy_sha src snap item = Inr (path, a)"
  shows "admit_rows env policy_id policy_sha src snap (erase_reviews item)
      = Inr (path, a\<lparr>ar_decisions := map erase_review (re_records item)\<rparr>)
    \<and> list_all (\<lambda>d. rd_manual d \<in> {None, Some None}) (re_records (erase_reviews item))"
proof -
  from assms obtain profile shard sha rights ds raw where a: "profile_of src = Inr profile" "one_shard snap = Inr (shard, path, sha)"
      "foldE add_decision [] (re_records item) = Inr ds" "covers_rows ds (sh_selected shard)"
      "read_sample (ae_tree env) (re_source item) (sn_sha snap) path = Inr raw"
      "check_rows (check_row env profile src item ds) (sample_reader env sha raw) (sh_selected shard) = Inr ()"
      "resolve_file_rights (re_rights item) path [] [] True = Inr rights"
      "a = \<lparr>ar_rights = rights, ar_label = re_label item, ar_spdx = rp_spdx (re_rights item), ar_decisions = ds,
         ar_policy_id = policy_id, ar_policy_sha = policy_sha\<rparr>"
    by (auto simp: admit_rows_def)
  from fold_decisions [OF a(3)] have ds: "ds = re_records item" by simp
  from erased_fold [OF a(3)] ds have "foldE add_decision [] (map erase_review (re_records item)) = Inr (map erase_review (re_records item))"
    by simp
  with assms a ds have "admit_rows env policy_id policy_sha src snap (erase_reviews item)
      = Inr (path, a\<lparr>ar_decisions := map erase_review (re_records item)\<rparr>)"
    by (auto simp: admit_rows_def erased_row erased_covers)
  then show ?thesis by (auto simp: list_all_iff split: option.splits)
qed


section \<open>A sample admission\<close>

definition sample_sha :: string where
  "sample_sha = replicate 64 CHR ''0''"

text \<open>A row of code that mentions a copyright, as acquired.\<close>

definition sample_flagged_row :: row where
  "sample_flagged_row = [(''text'', JStr ''copyright''), (''repo'', JStr ''R''), (''file'', JObj [(''path'', JStr ''a.c'')]),
     (''license'', JStr ''mit''), (''lang'', JStr ''C'')]"

definition sample_envelope :: row where
  "sample_envelope = [(''source_row_index'', JInt 7), (''source_row_sha256'', JStr sample_sha), (''dataset_revision'', JStr ''r''),
     (''source_shard_path'', JStr ''p''), (''source_shard_sha256'', JStr ''h'')]"

definition sample_admission_env :: admission_env where
  "sample_admission_env = \<lparr>ae_digest = \<lambda>_. sample_sha, ae_sha256 = \<lambda>_. ''s'',
     ae_parse = \<lambda>_. Inr (JObj (sample_flagged_row @ [(envelope_key, JObj sample_envelope)])), ae_bracketed = \<lambda>_. False,
     ae_tree = (\<lambda>k. if k = (''d'', ''n'', ''f'') then Some (RegularFile ''row'') else None), ae_cap = None\<rparr>"

definition sample_hf :: hf_source where
  "sample_hf = \<lparr>hf_version = 2, hf_uri = ''u'', hf_revision = ''r'', hf_qualification = Some sample_code_rows, hf_text_field = ''text''\<rparr>"

definition sample_row_shard :: row_shard where
  "sample_row_shard = \<lparr>sh_output = ''f'', sh_source_path = ''p'', sh_source_sha = ''h'', sh_selected = [\<lparr>rc_index = 7, rc_sha = sample_sha\<rparr>]\<rparr>"

definition sample_row_snapshot :: row_snapshot where
  "sample_row_snapshot = \<lparr>sn_sha = ''n'', sn_declared_id = ''d'', sn_declared_revision = ''r'', sn_files = [(''f'', ''s'')], rn_shards = [sample_row_shard]\<rparr>"

definition sample_review :: manual_review where
  "sample_review = \<lparr>mr_reviewer = ''a'', mr_reviewed_on = ''b'', mr_evidence_url = ''https://c'', mr_finding = ''d''\<rparr>"

definition sample_row_decision :: row_decision where
  "sample_row_decision = \<lparr>rd_index = 7, rd_sha = sample_sha, rd_decision = ''qualify'', rd_reason = ''r'', rd_issues = [],
     rd_manual = Some (Some sample_review), rd_evidence = None\<rparr>"

definition sample_row_entry :: row_entry where
  "sample_row_entry = \<lparr>re_source = ''d'', re_snapshot = ''n'', re_revision = ''r'', re_sample_path = ''f'', re_sample_sha = ''s'',
     re_shard_path = ''p'', re_shard_sha = ''h'', re_label = ''MIT'', re_rights = sample_git_rights, re_records = [sample_row_decision], re_use = None\<rparr>"

lemma sample_flagged: "row_exceptions (\<lambda>_. sample_sha) sample_flagged_row sample_code_rows ''text'' None = (None, [''code_notice_review''])"
  by code_simp

lemma sample_reads: "sample_reader sample_admission_env ''s'' ''row''
    = ([\<lparr>jr_line = 1, jr_value = JObj (sample_flagged_row @ [(envelope_key, JObj sample_envelope)]), jr_raw = ''row'', jr_offset = 0\<rparr>], None)"
proof -
  have "lf_split ''row'' = [''row'']" "physical_lines None 0 ''row'' = ([(1, ''row'')], None)" "\<not> blank_line ''row''" by code_simp+
  with capped_lines [of "''row''" "nat max_record_bytes" 0] show ?thesis
    by (simp add: sample_reader_def sample_admission_env_def records_from_path_def iter_jsonl_records_def iter_lf_lines_def max_record_bytes_def)
qed

lemma sample_row_parts:
  "profile_of sample_hf = Inr DeclaredRows" "row_provenance_ok sample_row_entry sample_hf sample_row_snapshot"
  "one_shard sample_row_snapshot = Inr (sample_row_shard, ''f'', ''s'')" "shard_matches sample_row_entry sample_row_shard ''f'' ''s''"
  "research_scope DeclaredRows sample_git_rights" "foldE add_decision [] [sample_row_decision] = Inr [sample_row_decision]"
  "covers_rows [sample_row_decision] (sh_selected sample_row_shard)" "restrictions_inside sample_row_entry (sh_selected sample_row_shard)"
  by code_simp+

lemma sample_row_names: "safe_name ''f''" "boundary_flags ''f'' = []" "header_texts ''f'' [] = [[]]" "expressions [[]] = []"
  by code_simp+

lemma sample_row_rights: "\<exists>fr. resolve_file_rights sample_git_rights ''f'' [] [] True = Inr fr \<and> may_train (fr_training fr)"
  using sample_classes sample_row_names
  by (simp add: resolve_defs metadata_matches_def sample_git_rights_def sample_rights_def)

lemma sample_row_original: "filter (\<lambda>(k, _). k \<noteq> envelope_key) sample_flagged_row = sample_flagged_row"
  "get_or (sample_flagged_row @ [(envelope_key, JObj sample_envelope)]) envelope_key JNull = JObj sample_envelope"
  by code_simp+

lemma sample_row_bound: "row_bound sample_admission_env DeclaredRows sample_hf sample_row_entry \<lparr>rc_index = 7, rc_sha = sample_sha\<rparr>
    sample_flagged_row sample_envelope sample_row_decision"
  by code_simp

lemma sample_row_checks:
  "check_rows (check_row sample_admission_env DeclaredRows sample_hf sample_row_entry [sample_row_decision]) (sample_reader sample_admission_env ''s'' ''row'')
    (sh_selected sample_row_shard) = Inr ()"
proof -
  have "decision_at [sample_row_decision] 7 = Some sample_row_decision" "get_or sample_envelope ''source_row_index'' JNull = JInt 7"
      "check_decision None [''code_notice_review''] sample_row_decision = Inr ()"
      "check_evidence sample_admission_env sample_hf None sample_flagged_row sample_row_decision = Inr ()"
      "re_use sample_row_entry = None" "sh_selected sample_row_shard = [\<lparr>rc_index = 7, rc_sha = sample_sha\<rparr>]"
      "hf_qualification sample_hf = Some sample_code_rows" "hf_text_field sample_hf = ''text''"
    by code_simp+
  moreover have "screen_row sample_admission_env DeclaredRows sample_hf None sample_flagged_row = Inr (None, [''code_notice_review''])"
    using sample_flagged sample_code_valid by (simp add: screen_row_def sample_hf_def sample_admission_env_def)
  ultimately show ?thesis
    using sample_row_bound by (simp add: sample_reads check_row_def sample_row_original Let_def)
qed

lemma sample_rows_admitted: "\<exists>a. admit_rows sample_admission_env ''p'' sample_sha sample_hf sample_row_snapshot sample_row_entry = Inr (''f'', a)
    \<and> ar_decisions a = [sample_row_decision]"
proof -
  obtain fr where fr: "resolve_file_rights sample_git_rights ''f'' [] [] True = Inr fr" "may_train (fr_training fr)"
    using sample_row_rights by blast
  have e: "re_use sample_row_entry = None" "re_rights sample_row_entry = sample_git_rights" "re_records sample_row_entry = [sample_row_decision]"
      "hf_version sample_hf = 2" "re_source sample_row_entry = ''d''" "sn_sha sample_row_snapshot = ''n''"
    by (simp_all add: sample_row_entry_def sample_hf_def sample_row_snapshot_def)
  have r: "read_sample (ae_tree sample_admission_env) ''d'' ''n'' ''f'' = Inr ''row''" by (simp add: read_sample_def sample_admission_env_def)
  show ?thesis
    using fr sample_row_checks sample_row_parts sample_policies(1)
    by (simp add: admit_rows_def e r profile_basis_def rights_of_def file_errors_def del: foldE.simps)
qed


definition sample_manifest :: admission_manifest where
  "sample_manifest = \<lparr>am_version = 1, am_policy_id = ''p'', am_policy_sha = sample_sha, am_sources = [RowEntry sample_row_entry]\<rparr>"

lemma sample_verified: "\<exists>out. verify_record_admission sample_admission_env sample_manifest [(''d'', HfSource sample_hf)] [(''d'', sample_row_snapshot)] = Inr out"
proof -
  have "valid_manifest 1 sample_manifest" "same_inventory [RowEntry sample_row_entry] [(''d'', HfSource sample_hf)]" by code_simp+
  moreover have "re_source sample_row_entry = ''d''" by (simp add: sample_row_entry_def)
  moreover have "am_version sample_manifest = 1" "am_sources sample_manifest = [RowEntry sample_row_entry]"
      "am_policy_id sample_manifest = ''p''" "am_policy_sha sample_manifest = sample_sha"
    by (simp_all add: sample_manifest_def)
  ultimately show ?thesis
    using sample_rows_admitted by (auto simp: verify_record_admission_def admit_v1_def admit_row_source_def)
qed

theorem nothing_escapes_admission_witness:
  "\<exists>out. verify_record_admission sample_admission_env sample_manifest [(''d'', HfSource sample_hf)] [(''d'', sample_row_snapshot)] = Inr out
    \<and> entry_admitted sample_admission_env [(''d'', HfSource sample_hf)] [(''d'', sample_row_snapshot)] out (RowEntry sample_row_entry)"
proof -
  obtain out where out: "verify_record_admission sample_admission_env sample_manifest [(''d'', HfSource sample_hf)] [(''d'', sample_row_snapshot)] = Inr out"
    using sample_verified ..
  have "am_sources sample_manifest = [RowEntry sample_row_entry]" by (simp add: sample_manifest_def)
  with nothing_escapes_admission [OF out] out show ?thesis by auto
qed

theorem null_review_passes_witness:
  "\<exists>a. admit_rows sample_admission_env ''p'' sample_sha sample_hf sample_row_snapshot (erase_reviews sample_row_entry) = Inr (''f'', a)
    \<and> map rd_manual (ar_decisions a) = [Some None] \<and> map rd_decision (ar_decisions a) = [''qualify'']
    \<and> snd (row_exceptions (ae_digest sample_admission_env) sample_flagged_row sample_code_rows ''text'' None) \<noteq> []"
proof -
  obtain a where "admit_rows sample_admission_env ''p'' sample_sha sample_hf sample_row_snapshot sample_row_entry = Inr (''f'', a)"
    using sample_rows_admitted by blast
  from null_review_passes [OF this] sample_flagged show ?thesis
    by (auto simp: sample_row_entry_def sample_row_decision_def sample_admission_env_def)
qed

end
