(* ===== verification/Worker_Queue.thy ===== *)
theory Worker_Queue
  imports Lab_Interfaces Complex_Main "HOL-Library.Sublist" "HOL-Library.Char_ord" "HOL-Library.List_Lexorder" "HOL-Library.Product_Lexorder"
begin

text \<open>
  The controller queue: \<open>src/sparselab/workers/store.py\<close> (the tables and their transactions) and the
  scheduling and reconciliation decisions of \<open>src/sparselab/workers/controller.py\<close>.

  A transaction is a function from the tables to an error, which rolls back, or the new tables.
  Rows are kept in the order of insertion (the row id). Specifications occur only through their
  digests and scheduling fields; receipts keep the fields the controller reads. Processes, the
  transport and the relay act on the tables through these transactions only.
\<close>

section \<open>Tables\<close>

datatype queue_state = QUEUED | ASSIGNED | RUNNING | CANCEL_REQUESTED | CANCELLED | COMPLETE | FAILED | INTERRUPTED | UNKNOWN

datatype ingestion_state = PENDING | NOT_REQUIRED | INGESTED | INGESTION_ERROR

record attempt_receipt =
  rc_attempt :: "string option"
  rc_run :: "string option"
  rc_experiment :: "string option"
  rc_worker :: "string option"
  rc_spec :: "string option"
  rc_bundle :: "string option"
  rc_state :: "string option"
  rc_acknowledged :: bool
  rc_artifacts :: "string list"

record recovery_observation =
  ro_reason :: string
  ro_commit :: string
  ro_confirmed :: string
  ro_instance :: string

record attempt_row =
  at_id :: string
  at_experiment :: string
  at_run :: string
  at_worker :: "string option"
  at_status :: queue_state
  at_receipt :: "attempt_receipt option"
  at_terminal :: "attempt_receipt option"
  at_reason :: "string option"
  at_ingestion :: ingestion_state
  at_error :: "string option"
  at_recovery :: "recovery_observation option"

record scheduling_spec =
  sp_digest :: string
  sp_bundle :: string
  sp_bound :: "string option"
  sp_preferred :: "string option"

record experiment_row =
  ex_id :: string
  ex_spec :: scheduling_spec
  ex_status :: queue_state
  ex_submitted :: nat

text \<open>The tables, and the conflicting evidence retained as files, named by attempt and content.\<close>

record queue_db =
  q_experiments :: "experiment_row list"
  q_attempts :: "attempt_row list"
  q_conflicts :: "(string \<times> attempt_receipt) list"

datatype queue_error = IntegrityError | UnknownAttempt | UnknownRun | InvalidReceiptState | UnsafeIdentifier
  | InvalidObservation | AssignedIdentityMismatch | TerminalConflictsRecovery | ConflictingObservation
  | ExplicitReconciliation | NoDurableAttempt | ReceiptIdentity | NotAssigned | InvalidClock
  | ActiveParent | NotResumable | IngestionIncomplete | ConflictingEvidence | ControllerRunning

definition active_states :: "queue_state list" where
  "active_states = [ASSIGNED, RUNNING, CANCEL_REQUESTED]"

definition reconcilable_states :: "queue_state list" where
  "reconcilable_states = active_states @ [UNKNOWN]"

definition terminal_queue_states :: "queue_state list" where
  "terminal_queue_states = [CANCELLED, COMPLETE, FAILED, INTERRUPTED]"

definition terminal_receipt_states :: "string list" where
  "terminal_receipt_states = [''COMPLETE'', ''FAILED'', ''INTERRUPTED'', ''UNKNOWN'']"

definition find_attempt :: "queue_db \<Rightarrow> string \<Rightarrow> attempt_row option" where
  "find_attempt db a = find (\<lambda>r. at_id r = a) (q_attempts db)"

definition attempt_by_run :: "queue_db \<Rightarrow> string \<Rightarrow> attempt_row option" where
  "attempt_by_run db run = find (\<lambda>r. at_run r = run) (q_attempts db)"

text \<open>\<open>UPDATE attempts SET ... WHERE attempt_id = a\<close> and the update of the status of its experiment.\<close>

definition update_attempt :: "string \<Rightarrow> (attempt_row \<Rightarrow> attempt_row) \<Rightarrow> queue_db \<Rightarrow> queue_db" where
  "update_attempt a f db = db\<lparr>q_attempts := map (\<lambda>r. if at_id r = a then f r else r) (q_attempts db)\<rparr>"

definition update_experiment :: "string \<Rightarrow> queue_state \<Rightarrow> queue_db \<Rightarrow> queue_db" where
  "update_experiment a st db = (case find_attempt db a of
     None \<Rightarrow> db
   | Some r \<Rightarrow> db\<lparr>q_experiments := map (\<lambda>e. if ex_id e = at_experiment r then e\<lparr>ex_status := st\<rparr> else e) (q_experiments db)\<rparr>)"

definition set_status :: "string \<Rightarrow> queue_state \<Rightarrow> (attempt_row \<Rightarrow> attempt_row) \<Rightarrow> queue_db \<Rightarrow> queue_db" where
  "set_status a st f db = update_experiment a st (update_attempt a (\<lambda>r. (f r)\<lparr>at_status := st\<rparr>) db)"

text \<open>\<open>_identifier\<close>: \<open>[A-Za-z0-9][A-Za-z0-9._-]{0,127}\<close>, with \<open>fullmatch\<close>.\<close>

definition safe_identifier :: "string \<Rightarrow> bool" where
  "safe_identifier s \<longleftrightarrow> (case s of [] \<Rightarrow> False
     | c # cs \<Rightarrow> is_alnum c \<and> length cs \<le> 127 \<and> list_all (\<lambda>x. is_alnum x \<or> x \<in> set ''._-'') cs)"

section \<open>Transactions\<close>

record queue_entry =
  en_experiment :: string
  en_attempt :: string
  en_run :: string
  en_spec :: scheduling_spec

definition enqueue_one :: "nat \<Rightarrow> queue_db \<Rightarrow> queue_entry \<Rightarrow> queue_error + queue_db" where
  "enqueue_one now db e =
     (if en_experiment e \<in> ex_id ` set (q_experiments db) \<or> en_attempt e \<in> at_id ` set (q_attempts db)
        \<or> en_run e \<in> at_run ` set (q_attempts db) then Inl IntegrityError
      else Inr (db\<lparr>q_experiments := q_experiments db @ [\<lparr>ex_id = en_experiment e, ex_spec = en_spec e,
             ex_status = QUEUED, ex_submitted = now\<rparr>],
           q_attempts := q_attempts db @ [\<lparr>at_id = en_attempt e, at_experiment = en_experiment e, at_run = en_run e,
             at_worker = None, at_status = QUEUED, at_receipt = None, at_terminal = None, at_reason = None,
             at_ingestion = PENDING, at_error = None, at_recovery = None\<rparr>]\<rparr>))"

definition enqueue_many :: "nat \<Rightarrow> queue_entry list \<Rightarrow> queue_db \<Rightarrow> queue_error + queue_db" where
  "enqueue_many now entries db = foldE (enqueue_one now) db entries"

definition submitted_at :: "queue_db \<Rightarrow> attempt_row \<Rightarrow> nat" where
  "submitted_at db r = (case find (\<lambda>e. ex_id e = at_experiment r) (q_experiments db) of None \<Rightarrow> 0 | Some e \<Rightarrow> ex_submitted e)"

text \<open>The join with the experiments; by time of submission and then row id.\<close>

definition attempts :: "queue_state list \<Rightarrow> queue_db \<Rightarrow> attempt_row list" where
  "attempts statuses db = sort_key (submitted_at db)
     (filter (\<lambda>r. at_experiment r \<in> ex_id ` set (q_experiments db) \<and> at_status r \<in> set statuses) (q_attempts db))"

text \<open>The compare-and-set of \<open>assign\<close>; the result tells whether a row was updated.\<close>

definition assign :: "string \<Rightarrow> string \<Rightarrow> queue_db \<Rightarrow> bool \<times> queue_db" where
  "assign a worker db = (case find_attempt db a of
     Some r \<Rightarrow> if at_status r = QUEUED
       then (True, set_status a ASSIGNED (\<lambda>r. r\<lparr>at_worker := Some worker, at_reason := None\<rparr>) db)
       else (False, db)
   | None \<Rightarrow> (False, db))"

definition set_queued_reason :: "string \<Rightarrow> string option \<Rightarrow> queue_db \<Rightarrow> queue_db" where
  "set_queued_reason a reason = update_attempt a (\<lambda>r. if at_status r = QUEUED then r\<lparr>at_reason := reason\<rparr> else r)"

definition retain_recovery_conflict :: "string \<Rightarrow> attempt_receipt \<Rightarrow> queue_db \<Rightarrow> queue_db" where
  "retain_recovery_conflict a evidence db = db\<lparr>q_conflicts := List.insert (a, evidence) (q_conflicts db)\<rparr>"

definition set_receipt :: "string \<Rightarrow> attempt_receipt \<Rightarrow> queue_state \<Rightarrow> queue_db \<Rightarrow> queue_error + queue_db" where
  "set_receipt a receipt status db =
     (let is_terminal = (case rc_state receipt of None \<Rightarrow> False | Some s \<Rightarrow> s \<in> set terminal_receipt_states) in
      if (case rc_state receipt of None \<Rightarrow> False | Some s \<Rightarrow> s \<notin> set ([''PREPARED'', ''RUNNING''] @ terminal_receipt_states))
      then Inl InvalidReceiptState
      else case find_attempt db a of
        None \<Rightarrow> Inl UnknownAttempt
      | Some current \<Rightarrow>
          if at_recovery current \<noteq> None then
            (if \<not> is_terminal then Inr db
             else if \<not> safe_identifier a then Inl UnsafeIdentifier
             else Inr (update_attempt a (\<lambda>r. r\<lparr>at_error := Some ''CONFLICT: terminal evidence after confirmed recovery''\<rparr>)
                     (retain_recovery_conflict a receipt db)))
          else if at_terminal current \<noteq> None then Inr db
          else
            let status = (if at_status current = CANCEL_REQUESTED \<and> \<not> is_terminal then CANCEL_REQUESTED else status)
            in Inr (set_status a status (\<lambda>r. r\<lparr>at_receipt := Some receipt,
                 at_terminal := (if is_terminal then Some receipt else at_terminal r),
                 at_ingestion := (if is_terminal then PENDING else at_ingestion r),
                 at_error := (if is_terminal then None else at_error r)\<rparr>) db))"

definition experiment_spec :: "queue_db \<Rightarrow> attempt_row \<Rightarrow> scheduling_spec option" where
  "experiment_spec db r = map_option ex_spec (find (\<lambda>e. ex_id e = at_experiment r) (q_experiments db))"

definition record_recovery :: "(string \<Rightarrow> bool) \<Rightarrow> string \<Rightarrow> recovery_observation \<Rightarrow> string \<Rightarrow> string \<Rightarrow> string
    \<Rightarrow> queue_db \<Rightarrow> queue_error + queue_db" where
  "record_recovery zoned a observation worker spec_digest bundle_digest db =
     (if ro_reason observation \<noteq> ''HOSTED_WORKER_LOST'' \<or> \<not> is_sha256 (ro_commit observation)
        \<or> \<not> safe_identifier (ro_instance observation) then Inl InvalidObservation
      else if \<not> zoned (ro_confirmed observation) then Inl InvalidClock
      else case find_attempt db a of
        None \<Rightarrow> Inl UnknownAttempt
      | Some r \<Rightarrow>
          (case experiment_spec db r of
             None \<Rightarrow> Inl UnknownAttempt
           | Some spec \<Rightarrow>
               if at_worker r \<noteq> Some worker \<or> sp_digest spec \<noteq> spec_digest \<or> sp_bundle spec \<noteq> bundle_digest
               then Inl AssignedIdentityMismatch
               else if at_terminal r \<noteq> None then Inl TerminalConflictsRecovery
               else case at_recovery r of
                 Some recorded \<Rightarrow> if recorded \<noteq> observation then Inl ConflictingObservation else Inr db
               | None \<Rightarrow> Inr (set_status a UNKNOWN (\<lambda>r. r\<lparr>at_recovery := Some observation,
                     at_ingestion := PENDING, at_error := None\<rparr>) db)))"

definition in_conflict :: "attempt_row \<Rightarrow> bool" where
  "in_conflict r \<longleftrightarrow> (case at_error r of None \<Rightarrow> False | Some e \<Rightarrow> sublist ''CONFLICT'' e)"

definition has_outcome :: "attempt_row \<Rightarrow> bool" where
  "has_outcome r \<longleftrightarrow> at_terminal r \<noteq> None \<or> at_recovery r \<noteq> None"

definition mark_ingestion_complete :: "string \<Rightarrow> queue_db \<Rightarrow> queue_error + queue_db" where
  "mark_ingestion_complete a db =
     (if (case find_attempt db a of None \<Rightarrow> False | Some r \<Rightarrow> in_conflict r) then Inl ExplicitReconciliation
      else Inr (update_attempt a (\<lambda>r. if has_outcome r then r\<lparr>at_ingestion := INGESTED, at_error := None\<rparr> else r) db))"

definition mark_ingestion_not_required :: "string \<Rightarrow> queue_db \<Rightarrow> queue_db" where
  "mark_ingestion_not_required a = update_attempt a (\<lambda>r. if at_terminal r \<noteq> None
     then r\<lparr>at_ingestion := NOT_REQUIRED, at_error := None\<rparr> else r)"

text \<open>The exception is its type name and its message.\<close>

definition mark_ingestion_error :: "string \<Rightarrow> string \<Rightarrow> string \<Rightarrow> queue_db \<Rightarrow> queue_db" where
  "mark_ingestion_error a kind message = update_attempt a (\<lambda>r. if has_outcome r
     then r\<lparr>at_ingestion := INGESTION_ERROR, at_error := Some (kind @ '': '' @ message)\<rparr> else r)"

definition pending_ingestion :: "queue_db \<Rightarrow> attempt_row list" where
  "pending_ingestion db = sort_key (submitted_at db) (filter (\<lambda>r. at_experiment r \<in> ex_id ` set (q_experiments db)
     \<and> has_outcome r \<and> at_ingestion r \<in> {PENDING, INGESTION_ERROR} \<and> \<not> in_conflict r) (q_attempts db))"

definition mark_unknown_if_nonterminal :: "string \<Rightarrow> string \<Rightarrow> queue_db \<Rightarrow> queue_error + queue_db" where
  "mark_unknown_if_nonterminal a reason db = (case find_attempt db a of
     None \<Rightarrow> Inl UnknownAttempt
   | Some r \<Rightarrow> if at_terminal r \<noteq> None then Inr db
       else Inr (set_status a (if at_status r = CANCEL_REQUESTED then CANCEL_REQUESTED else UNKNOWN)
              (\<lambda>r. r\<lparr>at_reason := Some reason\<rparr>) db))"

definition cancel_target :: "attempt_row \<Rightarrow> queue_state" where
  "cancel_target r = (if at_status r = QUEUED then CANCELLED
     else if at_status r \<in> set terminal_queue_states \<or> at_terminal r \<noteq> None \<or> at_recovery r \<noteq> None then at_status r
     else CANCEL_REQUESTED)"

definition request_cancel :: "string \<Rightarrow> queue_db \<Rightarrow> queue_error + queue_state \<times> queue_db" where
  "request_cancel run db = (case attempt_by_run db run of
     None \<Rightarrow> Inl UnknownRun
   | Some r \<Rightarrow> Inr (cancel_target r, set_status (at_id r) (cancel_target r)
       (\<lambda>x. if at_status r = QUEUED then x\<lparr>at_ingestion := NOT_REQUIRED, at_error := None\<rparr> else x) db))"

section \<open>Decisions of the controller\<close>

text \<open>
  \<open>_eligible_worker\<close> for an attempt: the reconcilable attempts are read first; each registered worker is fenced,
  occupied, or judged by \<open>verdict\<close> (the static checks, the validation call and the capacity; its error is
  \<open>None\<close> for the silent refusal of a worker that is not the bound one); a refreshed capability has the
  registered worker and name. Of the candidates the preferred one, then the least name, is taken.
\<close>

record capability =
  cp_worker :: string
  cp_name :: string

definition fenced :: "attempt_row list \<Rightarrow> string \<Rightarrow> bool" where
  "fenced active w \<longleftrightarrow> list_ex (\<lambda>r. at_worker r = Some w \<and> at_recovery r \<noteq> None) active"

definition occupied :: "attempt_row list \<Rightarrow> string \<Rightarrow> bool" where
  "occupied active w \<longleftrightarrow> list_ex (\<lambda>r. at_worker r = Some w \<and> at_terminal r = None) active"

definition judge :: "attempt_row list \<Rightarrow> (capability \<Rightarrow> string option + unit) \<Rightarrow> capability
    \<Rightarrow> string option + capability" where
  "judge active verdict c =
     (if fenced active (cp_worker c) then Inl (Some (cp_name c @ '': confirmed-loss registration fenced''))
      else if occupied active (cp_worker c) then Inl (Some (cp_name c @ '': controller slot occupied''))
      else bindE (verdict c) (\<lambda>_. Inr c))"

definition choice_key :: "scheduling_spec \<Rightarrow> capability \<Rightarrow> nat \<times> string" where
  "choice_key spec c = (if sp_preferred spec = Some (cp_name c) then 0 else 1, cp_name c)"

fun least_choice :: "scheduling_spec \<Rightarrow> capability list \<Rightarrow> capability option" where
  "least_choice spec [] = None"
| "least_choice spec (c # cs) = (case least_choice spec cs of
     None \<Rightarrow> Some c
   | Some d \<Rightarrow> if choice_key spec d < choice_key spec c then Some d else Some c)"

definition join_reasons :: "string list \<Rightarrow> string" where
  "join_reasons reasons = (if concat reasons = [] \<and> length reasons \<le> 1 then ''no eligible worker''
     else concat (map (\<lambda>r. r @ ''; '') (butlast reasons)) @ (if reasons = [] then [] else last reasons))"

definition eligible_worker :: "attempt_row list \<Rightarrow> scheduling_spec \<Rightarrow> (capability \<Rightarrow> string option + unit)
    \<Rightarrow> capability list \<Rightarrow> capability option \<times> string option" where
  "eligible_worker active spec verdict capabilities =
     (let judged = map (judge active verdict) capabilities;
          choices = concat (map (\<lambda>j. case j of Inr c \<Rightarrow> [c] | _ \<Rightarrow> []) judged);
          reasons = concat (map (\<lambda>j. case j of Inl (Some r) \<Rightarrow> [r] | _ \<Rightarrow> []) judged)
      in case least_choice spec choices of
        None \<Rightarrow> (None, Some (join_reasons reasons))
      | Some c \<Rightarrow> (Some c, None))"

text \<open>\<open>_reconcile_receipt\<close>, without the delivery file of Colab.\<close>

definition receipt_mapping :: "string \<Rightarrow> queue_state option" where
  "receipt_mapping = map_of [(''PREPARED'', ASSIGNED), (''RUNNING'', RUNNING), (''COMPLETE'', COMPLETE),
     (''FAILED'', FAILED), (''INTERRUPTED'', INTERRUPTED), (''UNKNOWN'', UNKNOWN)]"

definition receipt_matches :: "attempt_row \<Rightarrow> scheduling_spec \<Rightarrow> attempt_receipt \<Rightarrow> bool" where
  "receipt_matches r spec receipt \<longleftrightarrow> rc_attempt receipt = Some (at_id r) \<and> rc_run receipt = Some (at_run r)
     \<and> rc_experiment receipt = Some (at_experiment r) \<and> rc_worker receipt = at_worker r
     \<and> rc_spec receipt = Some (sp_digest spec) \<and> rc_bundle receipt = Some (sp_bundle spec)"

definition reconcile_receipt :: "string \<Rightarrow> attempt_receipt \<Rightarrow> queue_db \<Rightarrow> queue_error + queue_db" where
  "reconcile_receipt run receipt db = (case attempt_by_run db run of
     None \<Rightarrow> Inl NoDurableAttempt
   | Some r \<Rightarrow> (case experiment_spec db r of
        None \<Rightarrow> Inl NoDurableAttempt
      | Some spec \<Rightarrow>
          if \<not> receipt_matches r spec receipt then Inl ReceiptIdentity
          else case (case rc_state receipt of None \<Rightarrow> None | Some s \<Rightarrow> receipt_mapping s) of
            None \<Rightarrow> Inl InvalidReceiptState
          | Some status \<Rightarrow> set_receipt (at_id r) receipt
              (if status = INTERRUPTED \<and> rc_acknowledged receipt then CANCELLED else status) db))"

text \<open>The checks of \<open>resume\<close> on the parent.\<close>

definition resumable :: "string \<Rightarrow> queue_db \<Rightarrow> queue_error + attempt_row" where
  "resumable run db = (case attempt_by_run db run of
     None \<Rightarrow> Inl UnknownRun
   | Some parent \<Rightarrow>
       if at_status parent \<in> set active_states then Inl ActiveParent
       else if at_status parent \<notin> {INTERRUPTED, CANCELLED, FAILED, UNKNOWN} then Inl NotResumable
       else if at_ingestion parent \<noteq> INGESTED then Inl IngestionIncomplete
       else if in_conflict parent then Inl ConflictingEvidence
       else Inr parent)"

section \<open>Interleaved processes\<close>

text \<open>
  Any number of schedulers run \<open>Controller.tick\<close> on one store. Each chooses a worker for a queued attempt from a
  reading of the table and later assigns it; \<open>decision\<close> holds what each scheduler has chosen and not assigned yet. Users cancel and
  recover, and receipts, failures and ingestion results arrive, in any order between these two steps.
  \<open>tick\<close> itself takes no lock. \<open>Controller.run\<close> and \<open>_wait_for_run\<close> hold the process lock of the store around it, a
  campaign calls it without: \<open>TakeLock\<close> and \<open>ReleaseLock\<close> are the ends of \<open>_process_lock\<close>, and a scheduler
  that leaves the lock, also by being killed, has nothing chosen any more. Receipts
  and reachability reports are about an assigned worker, as at every place the code calls them;
  the receipt handlers of the same attempt read its row again.
\<close>

record control =
  tables :: queue_db
  decision :: "nat \<Rightarrow> (string \<times> string) option"
  holder :: "nat option"

datatype queue_op =
    Enqueue nat "queue_entry list"
  | TakeLock nat
  | ReleaseLock nat
  | Choose nat string "capability \<Rightarrow> string option + unit" "capability list"
  | AssignChosen nat
  | Receive string attempt_receipt
  | Unreachable string string
  | Cancel string
  | Recover string recovery_observation string string string
  | IngestionComplete string
  | IngestionNotRequired string
  | IngestionFailed string string string

definition on_tables :: "control \<Rightarrow> queue_error + queue_db \<Rightarrow> queue_error + control" where
  "on_tables c r = bindE r (\<lambda>db. Inr (c\<lparr>tables := db\<rparr>))"

definition assigned_worker :: "queue_db \<Rightarrow> string \<Rightarrow> string option" where
  "assigned_worker db a = (case find_attempt db a of None \<Rightarrow> None | Some r \<Rightarrow> at_worker r)"

fun queue_step :: "(string \<Rightarrow> bool) \<Rightarrow> queue_op \<Rightarrow> control \<Rightarrow> queue_error + control" where
  "queue_step zoned (Enqueue now entries) c = on_tables c (enqueue_many now entries (tables c))"
| "queue_step zoned (TakeLock p) c = (if holder c \<noteq> None then Inl ControllerRunning else Inr (c\<lparr>holder := Some p\<rparr>))"
| "queue_step zoned (ReleaseLock p) c =
     (if holder c = Some p then Inr (c\<lparr>holder := None, decision := (decision c)(p := None)\<rparr>) else Inr c)"
| "queue_step zoned (Choose p a verdict capabilities) c = (case find_attempt (tables c) a of
     None \<Rightarrow> Inl UnknownAttempt
   | Some r \<Rightarrow> (case experiment_spec (tables c) r of
        None \<Rightarrow> Inl UnknownAttempt
      | Some spec \<Rightarrow>
          (case eligible_worker (attempts reconcilable_states (tables c)) spec verdict capabilities of
             (Some w, _) \<Rightarrow> Inr (c\<lparr>decision := (decision c)(p \<mapsto> (a, cp_worker w))\<rparr>)
           | (None, reason) \<Rightarrow> Inr (c\<lparr>tables := set_queued_reason a reason (tables c), decision := (decision c)(p := None)\<rparr>))))"
| "queue_step zoned (AssignChosen p) c = (case decision c p of
     None \<Rightarrow> Inl NotAssigned
   | Some (a, w) \<Rightarrow> Inr (c\<lparr>tables := snd (assign a w (tables c)), decision := (decision c)(p := None)\<rparr>))"
| "queue_step zoned (Receive run receipt) c =
     (if rc_worker receipt = None then Inl NotAssigned else on_tables c (reconcile_receipt run receipt (tables c)))"
| "queue_step zoned (Unreachable a reason) c =
     (if assigned_worker (tables c) a = None then Inl NotAssigned
      else on_tables c (mark_unknown_if_nonterminal a reason (tables c)))"
| "queue_step zoned (Cancel run) c = on_tables c (bindE (request_cancel run (tables c)) (\<lambda>(_, db). Inr db))"
| "queue_step zoned (Recover a observation w spec_digest bundle_digest) c =
     on_tables c (record_recovery zoned a observation w spec_digest bundle_digest (tables c))"
| "queue_step zoned (IngestionComplete a) c = on_tables c (mark_ingestion_complete a (tables c))"
| "queue_step zoned (IngestionNotRequired a) c = Inr (c\<lparr>tables := mark_ingestion_not_required a (tables c)\<rparr>)"
| "queue_step zoned (IngestionFailed a kind message) c = Inr (c\<lparr>tables := mark_ingestion_error a kind message (tables c)\<rparr>)"

definition empty_queue :: control where
  "empty_queue = \<lparr>tables = \<lparr>q_experiments = [], q_attempts = [], q_conflicts = []\<rparr>, decision = Map.empty, holder = None\<rparr>"

section \<open>What a step does to a row\<close>

text \<open>The status a receipt stands for.\<close>

definition receipt_status :: "attempt_receipt \<Rightarrow> queue_state option" where
  "receipt_status receipt = (case rc_state receipt of None \<Rightarrow> None | Some s \<Rightarrow>
     map_option (\<lambda>st. if st = INTERRUPTED \<and> rc_acknowledged receipt then CANCELLED else st) (receipt_mapping s))"

text \<open>The columns of a row fit together.\<close>

definition row_ok :: "attempt_row \<Rightarrow> bool" where
  "row_ok r \<longleftrightarrow> (case at_worker r of
     None \<Rightarrow> at_status r \<in> {QUEUED, CANCELLED} \<and> at_terminal r = None \<and> at_recovery r = None
   | Some w \<Rightarrow> (case at_terminal r of
        Some receipt \<Rightarrow> at_recovery r = None \<and> receipt_status receipt = Some (at_status r)
          \<and> rc_attempt receipt = Some (at_id r) \<and> rc_run receipt = Some (at_run r) \<and> rc_worker receipt = Some w
      | None \<Rightarrow> if at_recovery r = None then at_status r \<in> set reconcilable_states else at_status r = UNKNOWN))"

definition settled :: "attempt_row \<Rightarrow> bool" where
  "settled r \<longleftrightarrow> at_terminal r \<noteq> None \<or> at_recovery r \<noteq> None \<or> at_status r = CANCELLED"

definition row_step :: "attempt_row \<Rightarrow> attempt_row \<Rightarrow> bool" where
  "row_step r r' \<longleftrightarrow> at_id r' = at_id r \<and> at_experiment r' = at_experiment r \<and> at_run r' = at_run r
     \<and> (row_ok r \<longrightarrow> row_ok r')
     \<and> at_worker r' = at_worker r
     \<and> (at_terminal r \<noteq> None \<longrightarrow> at_terminal r' = at_terminal r)
     \<and> (settled r \<longrightarrow> at_status r' = at_status r \<and> at_terminal r' = at_terminal r \<and> at_recovery r' = at_recovery r)
     \<and> (at_status r = CANCEL_REQUESTED \<longrightarrow> settled r' \<or> at_status r' = CANCEL_REQUESTED)"

text \<open>Experiments and attempts are inserted in pairs and have the same status.\<close>

definition aligned :: "queue_db \<Rightarrow> bool" where
  "aligned db \<longleftrightarrow> distinct (map at_id (q_attempts db)) \<and> distinct (map at_run (q_attempts db))
     \<and> distinct (map at_experiment (q_attempts db))
     \<and> list_all2 (\<lambda>r e. at_experiment r = ex_id e \<and> at_status r = ex_status e) (q_attempts db) (q_experiments db)"

definition keeps_keys :: "(attempt_row \<Rightarrow> attempt_row) \<Rightarrow> bool" where
  "keeps_keys f \<longleftrightarrow> (\<forall>r. at_id (f r) = at_id r \<and> at_experiment (f r) = at_experiment r \<and> at_run (f r) = at_run r)"

lemma row_step_refl [simp]: "row_step r r"
  by (simp add: row_step_def)

lemma find_attempt_Some: "find_attempt db a = Some r \<Longrightarrow> r \<in> set (q_attempts db) \<and> at_id r = a"
  unfolding find_attempt_def by (rule find_Some_mem)

lemma find_attempt_None: "find_attempt db a = None \<longleftrightarrow> a \<notin> at_id ` set (q_attempts db)"
  by (auto simp: find_attempt_def find_None_all)

lemma the_attempt: "aligned db \<Longrightarrow> find_attempt db a = Some r \<Longrightarrow> r' \<in> set (q_attempts db) \<Longrightarrow> at_id r' = a \<Longrightarrow> r' = r"
  using find_attempt_Some [of db a r] by (auto simp: aligned_def distinct_map inj_on_def)

lemma the_run: "aligned db \<Longrightarrow> attempt_by_run db run = Some r \<Longrightarrow> find_attempt db (at_id r) = Some r \<and> r \<in> set (q_attempts db)"
proof -
  assume a: "aligned db" and "attempt_by_run db run = Some r"
  then have r: "r \<in> set (q_attempts db)" unfolding attempt_by_run_def using find_Some_mem by fast
  then obtain r' where r': "find_attempt db (at_id r) = Some r'"
    using find_attempt_None [of db "at_id r"] by (cases "find_attempt db (at_id r)") auto
  from the_attempt [OF a r' r refl] r' r show ?thesis by simp
qed

lemma update_attempt_simps [simp]:
  "q_attempts (update_attempt a f db) = map (\<lambda>r. if at_id r = a then f r else r) (q_attempts db)"
  "q_experiments (update_attempt a f db) = q_experiments db"
  by (simp_all add: update_attempt_def)

lemma update_experiment_attempts [simp]: "q_attempts (update_experiment a st db) = q_attempts db"
  by (simp add: update_experiment_def split: option.split)

lemma set_status_attempts [simp]:
  "q_attempts (set_status a st f db) = map (\<lambda>r. if at_id r = a then (f r)\<lparr>at_status := st\<rparr> else r) (q_attempts db)"
  by (simp add: set_status_def)

lemma keeps_keys_map:
  assumes "keeps_keys f"
  shows "at_id \<circ> (\<lambda>r. if at_id r = a then f r else r) = at_id"
    and "at_run \<circ> (\<lambda>r. if at_id r = a then f r else r) = at_run"
    and "at_experiment \<circ> (\<lambda>r. if at_id r = a then f r else r) = at_experiment"
  using assms by (simp_all add: keeps_keys_def fun_eq_iff)

lemma aligned_update:
  assumes "aligned db" and "keeps_keys f" and "\<And>r. at_status (f r) = at_status r"
  shows "aligned (update_attempt a f db)"
  using assms keeps_keys_map [OF assms(2)]
  by (auto simp: aligned_def list.rel_map keeps_keys_def elim!: list.rel_mono_strong)

lemma aligned_set_status:
  assumes "aligned db" and "keeps_keys f"
  shows "aligned (set_status a st f db)"
proof (cases "find_attempt db a")
  case None
  then have "\<forall>r \<in> set (q_attempts db). at_id r \<noteq> a" by (auto simp: find_attempt_None)
  then have "update_attempt a (\<lambda>r. (f r)\<lparr>at_status := st\<rparr>) db = db"
    by (simp add: update_attempt_def map_idI)
  with None assms(1) show ?thesis by (simp add: set_status_def update_experiment_def)
next
  case (Some r)
  let ?g = "\<lambda>r. (f r)\<lparr>at_status := st\<rparr>"
  have g: "keeps_keys ?g" using assms(2) by (simp add: keeps_keys_def)
  obtain r' where r': "find_attempt (update_attempt a ?g db) a = Some r'" "at_experiment r' = at_experiment r"
  proof -
    have "at_id ` set (q_attempts (update_attempt a ?g db)) = at_id ` set (q_attempts db)"
      by (simp only: update_attempt_simps set_map image_comp keeps_keys_map [OF g])
    with find_attempt_Some [OF Some] have "a \<in> at_id ` set (q_attempts (update_attempt a ?g db))" by auto
    then obtain r' where r': "find_attempt (update_attempt a ?g db) a = Some r'"
      using find_attempt_None [of "update_attempt a ?g db" a] by (cases "find_attempt (update_attempt a ?g db) a") auto
    from find_attempt_Some [OF this] obtain r'' where "r'' \<in> set (q_attempts db)" "at_id r'' = a" "r' = ?g r''"
      using g by (auto simp: keeps_keys_def split: if_splits)
    with the_attempt [OF assms(1) Some] g have "at_experiment r' = at_experiment r" by (simp add: keeps_keys_def)
    with r' that show ?thesis by blast
  qed
  have same: "at_id q = a \<longleftrightarrow> at_experiment q = at_experiment r" if "q \<in> set (q_attempts db)" for q
    using that find_attempt_Some [OF Some] assms(1) by (auto simp: aligned_def distinct_map inj_on_def)
  have "q_experiments (set_status a st f db)
      = map (\<lambda>e. if ex_id e = at_experiment r then e\<lparr>ex_status := st\<rparr> else e) (q_experiments db)"
    using r' by (simp add: set_status_def update_experiment_def)
  moreover have "list_all2 (\<lambda>r e. at_experiment r = ex_id e \<and> at_status r = ex_status e)
      (map (\<lambda>r. if at_id r = a then ?g r else r) (q_attempts db))
      (map (\<lambda>e. if ex_id e = at_experiment r then e\<lparr>ex_status := st\<rparr> else e) (q_experiments db))"
    using assms(1) unfolding aligned_def list.rel_map
    by (elim conjE list.rel_mono_strong) (use same g in \<open>auto simp: keeps_keys_def\<close>)
  ultimately show ?thesis using assms(1) keeps_keys_map [OF g] by (simp add: aligned_def)
qed

definition evolves :: "queue_db \<Rightarrow> queue_db \<Rightarrow> bool" where
  "evolves db db' \<longleftrightarrow> (aligned db \<longrightarrow> aligned db' \<and> list_all2 row_step (q_attempts db) (q_attempts db'))"

lemma evolves_refl [simp]: "evolves db db"
  by (simp add: evolves_def list_all2_refl)

lemma rows_step:
  assumes "aligned db" and "\<And>r. find_attempt db a = Some r \<Longrightarrow> row_step r (g r)"
  shows "list_all2 row_step (q_attempts db) (map (\<lambda>r. if at_id r = a then g r else r) (q_attempts db))"
proof -
  have "row_step r (g r)" if "r \<in> set (q_attempts db)" "at_id r = a" for r
  proof (cases "find_attempt db a")
    case None
    with that show ?thesis by (auto simp: find_attempt_None)
  next
    case (Some r')
    with the_attempt [OF assms(1) Some that] assms(2) show ?thesis by simp
  qed
  then show ?thesis by (auto simp: list.rel_map intro!: list.rel_refl_strong)
qed

lemma evolves_update:
  assumes "keeps_keys f" and "\<And>r. at_status (f r) = at_status r"
    and "\<And>r. find_attempt db a = Some r \<Longrightarrow> row_step r (f r)"
  shows "evolves db (update_attempt a f db)"
  using assms aligned_update rows_step by (simp add: evolves_def)

lemma evolves_set_status:
  assumes "keeps_keys f" and "\<And>r. find_attempt db a = Some r \<Longrightarrow> row_step r ((f r)\<lparr>at_status := st\<rparr>)"
  shows "evolves db (set_status a st f db)"
  using assms aligned_set_status rows_step [of db a "\<lambda>r. (f r)\<lparr>at_status := st\<rparr>"] by (simp add: evolves_def)

lemma evolves_attempts: "q_attempts db' = q_attempts db \<Longrightarrow> q_experiments db' = q_experiments db \<Longrightarrow> evolves db db'"
  by (simp add: evolves_def aligned_def list_all2_refl)

text \<open>Columns that a step leaves alone.\<close>

lemma row_step_same:
  assumes "at_id r' = at_id r" "at_experiment r' = at_experiment r" "at_run r' = at_run r" "at_worker r' = at_worker r"
    and "at_status r' = at_status r" "at_terminal r' = at_terminal r" "at_recovery r' = at_recovery r"
  shows "row_step r r'"
proof -
  have "row_ok r' = row_ok r" by (simp only: row_ok_def assms)
  with assms show ?thesis by (simp add: row_step_def settled_def)
qed

lemma receipt_status_range: "receipt_status receipt = Some st \<Longrightarrow> st \<in> {ASSIGNED, RUNNING, COMPLETE, FAILED, INTERRUPTED, UNKNOWN, CANCELLED}"
  by (auto simp: receipt_status_def receipt_mapping_def split: option.splits if_splits)

lemma row_ok_queued: "row_ok r \<Longrightarrow> at_status r = QUEUED \<Longrightarrow> at_worker r = None \<and> at_terminal r = None \<and> at_recovery r = None"
  using receipt_status_range
  by (fastforce simp: row_ok_def reconcilable_states_def active_states_def split: option.splits if_splits)

lemma set_queued_reason_evolves: "evolves db (set_queued_reason a reason db)"
  unfolding set_queued_reason_def by (rule evolves_update) (auto simp: keeps_keys_def intro: row_step_same)

lemma mark_ingestion_evolves:
  "mark_ingestion_complete a db = Inr db' \<Longrightarrow> evolves db db'"
  "evolves db (mark_ingestion_not_required a db)" "evolves db (mark_ingestion_error a kind message db)"
  unfolding mark_ingestion_complete_def mark_ingestion_not_required_def mark_ingestion_error_def
  by (auto simp: keeps_keys_def intro!: evolves_update row_step_same split: if_splits)

lemma mark_unknown_evolves:
  assumes "mark_unknown_if_nonterminal a reason db = Inr db'" and "assigned_worker db a \<noteq> None"
    and "\<forall>r \<in> set (q_attempts db). row_ok r"
  shows "evolves db db'"
proof -
  from assms(1) obtain r where r: "find_attempt db a = Some r" by (auto simp: mark_unknown_if_nonterminal_def split: option.splits)
  with assms find_attempt_Some [OF r] have ok: "row_ok r" "at_worker r \<noteq> None" by (auto simp: assigned_worker_def)
  show ?thesis
  proof (cases "at_terminal r")
    case None
    let ?st = "if at_status r = CANCEL_REQUESTED then CANCEL_REQUESTED else UNKNOWN"
    have "row_step r (r\<lparr>at_reason := Some reason, at_status := ?st\<rparr>)"
      using ok None by (auto simp: row_step_def row_ok_def settled_def reconcilable_states_def active_states_def)
    then have "evolves db (set_status a ?st (\<lambda>r. r\<lparr>at_reason := Some reason\<rparr>) db)"
      by (intro evolves_set_status) (auto simp: keeps_keys_def r)
    with assms(1) None r show ?thesis by (auto simp: mark_unknown_if_nonterminal_def)
  qed (use assms(1) r in \<open>simp add: mark_unknown_if_nonterminal_def\<close>)
qed

lemma request_cancel_evolves:
  assumes "request_cancel run db = Inr (st, db')" and "aligned db" and "\<forall>r \<in> set (q_attempts db). row_ok r"
  shows "evolves db db'"
proof -
  from assms(1) obtain r where r: "attempt_by_run db run = Some r" "st = cancel_target r"
      "db' = set_status (at_id r) (cancel_target r)
        (\<lambda>x. if at_status r = QUEUED then x\<lparr>at_ingestion := NOT_REQUIRED, at_error := None\<rparr> else x) db"
    by (auto simp: request_cancel_def split: option.splits)
  from the_run [OF assms(2) r(1)] assms(3) have f: "find_attempt db (at_id r) = Some r" "row_ok r" by auto
  have "row_step r (r\<lparr>at_status := cancel_target r\<rparr>)" if "at_status r \<noteq> QUEUED"
    using that f(2) by (auto simp: row_step_def row_ok_def settled_def cancel_target_def terminal_queue_states_def
        reconcilable_states_def active_states_def split: option.splits if_splits)
  moreover have "row_step r (r\<lparr>at_ingestion := NOT_REQUIRED, at_error := None, at_status := cancel_target r\<rparr>)" if "at_status r = QUEUED"
    using that row_ok_queued [OF f(2) that] by (auto simp: row_step_def row_ok_def settled_def cancel_target_def)
  ultimately show ?thesis
    unfolding r(3) by (intro evolves_set_status) (auto simp: keeps_keys_def f(1))
qed

lemma record_recovery_evolves:
  assumes "record_recovery zoned a observation w spec_digest bundle_digest db = Inr db'" and "\<forall>r \<in> set (q_attempts db). row_ok r"
  shows "evolves db db'"
proof -
  from assms(1) obtain r where r: "find_attempt db a = Some r" "at_worker r = Some w" "at_terminal r = None"
      "db' = (if at_recovery r = None then set_status a UNKNOWN (\<lambda>r. r\<lparr>at_recovery := Some observation,
                     at_ingestion := PENDING, at_error := None\<rparr>) db else db)"
    by (auto simp: record_recovery_def split: if_splits option.splits)
  from assms(2) find_attempt_Some [OF r(1)] have "row_ok r" by simp
  then have "row_step r (r\<lparr>at_recovery := Some observation, at_ingestion := PENDING, at_error := None, at_status := UNKNOWN\<rparr>)"
    if "at_recovery r = None"
    using that r(2,3) by (auto simp: row_step_def row_ok_def settled_def reconcilable_states_def active_states_def)
  then show ?thesis
    unfolding r(4) by (auto simp: keeps_keys_def r(1) intro!: evolves_set_status)
qed

lemma receipt_state_terminal:
  assumes "rc_state receipt = Some s" and "receipt_mapping s = Some st"
    and "st' = (if st = INTERRUPTED \<and> rc_acknowledged receipt then CANCELLED else st)"
  shows "receipt_status receipt = Some st'" and "s \<in> set ([''PREPARED'', ''RUNNING''] @ terminal_receipt_states)"
    and "s \<in> set terminal_receipt_states \<or> st' \<in> {ASSIGNED, RUNNING}"
  using assms by (auto simp: receipt_status_def receipt_mapping_def terminal_receipt_states_def split: if_splits)

lemma set_receipt_open:
  assumes "find_attempt db a = Some r" and "rc_state receipt = Some s" and "s \<in> set ([''PREPARED'', ''RUNNING''] @ terminal_receipt_states)"
    and "at_recovery r = None" and "at_terminal r = None" and "terminal \<longleftrightarrow> s \<in> set terminal_receipt_states"
  shows "set_receipt a receipt status db = Inr (set_status a (if at_status r = CANCEL_REQUESTED \<and> \<not> terminal then CANCEL_REQUESTED else status)
    (\<lambda>r. r\<lparr>at_receipt := Some receipt, at_terminal := (if terminal then Some receipt else at_terminal r),
        at_ingestion := (if terminal then PENDING else at_ingestion r), at_error := (if terminal then None else at_error r)\<rparr>) db)"
proof -
  from assms(3) have "(s \<notin> set ([''PREPARED'', ''RUNNING''] @ terminal_receipt_states)) = False" by blast
  then show ?thesis
    by (simp only: set_receipt_def Let_def assms(1,2,4,5,6) option.case if_False simp_thms)
qed

lemma receive_evolves:
  assumes "reconcile_receipt run receipt db = Inr db'" and "rc_worker receipt \<noteq> None"
    and "aligned db" and "\<forall>r \<in> set (q_attempts db). row_ok r"
  shows "evolves db db'"
proof -
  from assms(1) obtain r spec s st where r: "attempt_by_run db run = Some r" "receipt_matches r spec receipt"
      "rc_state receipt = Some s" "receipt_mapping s = Some st"
      "set_receipt (at_id r) receipt (if st = INTERRUPTED \<and> rc_acknowledged receipt then CANCELLED else st) db = Inr db'"
    by (auto simp: reconcile_receipt_def split: option.splits if_splits)
  define st' where "st' = (if st = INTERRUPTED \<and> rc_acknowledged receipt then CANCELLED else st)"
  note state = receipt_state_terminal [OF r(3,4) st'_def]
  from the_run [OF assms(3) r(1)] assms(4) have f: "find_attempt db (at_id r) = Some r" "row_ok r" by auto
  show ?thesis
  proof (cases "at_recovery r = None \<and> at_terminal r = None")
    case False
    have "evolves db (update_attempt (at_id r) (\<lambda>r. r\<lparr>at_error := Some e\<rparr>) (retain_recovery_conflict (at_id r) receipt db))" for e
    proof -
      have "evolves (retain_recovery_conflict (at_id r) receipt db)
          (update_attempt (at_id r) (\<lambda>r. r\<lparr>at_error := Some e\<rparr>) (retain_recovery_conflict (at_id r) receipt db))"
        by (rule evolves_update) (auto simp: keeps_keys_def intro: row_step_same)
      then show ?thesis by (simp add: evolves_def aligned_def retain_recovery_conflict_def)
    qed
    with r(5) f(1) state(2) r(3) False show ?thesis
      by (auto simp: set_receipt_def Let_def split: if_splits)
  next
    case True
    define terminal where "terminal \<longleftrightarrow> s \<in> set terminal_receipt_states"
    define new where "new = (if at_status r = CANCEL_REQUESTED \<and> \<not> terminal then CANCEL_REQUESTED else st')"
    let ?f = "\<lambda>r. r\<lparr>at_receipt := Some receipt, at_terminal := (if terminal then Some receipt else at_terminal r),
        at_ingestion := (if terminal then PENDING else at_ingestion r), at_error := (if terminal then None else at_error r)\<rparr>"
    from True have open_row: "at_recovery r = None" "at_terminal r = None" by simp_all
    from trans [OF r(5) [symmetric] set_receipt_open [OF f(1) r(3) state(2) open_row terminal_def]]
    have db': "db' = set_status (at_id r) new ?f db" unfolding new_def st'_def by (simp only: sum.inject)
    from r(2) assms(2) obtain w where w: "at_worker r = Some w" "rc_worker receipt = Some w"
      by (auto simp: receipt_matches_def)
    have "row_ok ((?f r)\<lparr>at_status := new\<rparr>)"
    proof (cases terminal)
      case t: True
      with state(1) r(2) w True show ?thesis by (simp add: row_ok_def new_def receipt_matches_def)
    next
      case False
      with state(3) w True show ?thesis
        by (auto simp: row_ok_def new_def terminal_def reconcilable_states_def active_states_def)
    qed
    moreover have "at_status r \<noteq> CANCELLED"
      using f(2) w True by (auto simp: row_ok_def reconcilable_states_def active_states_def)
    ultimately have "row_step r ((?f r)\<lparr>at_status := new\<rparr>)"
      using True by (auto simp: row_step_def settled_def new_def)
    then show ?thesis
      unfolding db' by (intro evolves_set_status) (auto simp: keeps_keys_def f(1))
  qed
qed

section \<open>The invariant of the interleaved processes\<close>

definition free_worker :: "queue_db \<Rightarrow> string \<Rightarrow> bool" where
  "free_worker db w \<longleftrightarrow> (\<forall>r \<in> set (q_attempts db). at_worker r = Some w \<longrightarrow> at_terminal r \<noteq> None)"

definition one_per_worker :: "queue_db \<Rightarrow> bool" where
  "one_per_worker db \<longleftrightarrow> (\<forall>r \<in> set (q_attempts db). \<forall>r' \<in> set (q_attempts db). at_worker r \<noteq> None \<longrightarrow> at_worker r = at_worker r'
     \<longrightarrow> at_terminal r = None \<longrightarrow> at_terminal r' = None \<longrightarrow> at_id r = at_id r')"

definition tables_ok :: "queue_db \<Rightarrow> bool" where
  "tables_ok db \<longleftrightarrow> aligned db \<and> (\<forall>r \<in> set (q_attempts db). row_ok r)"

definition control_ok :: "control \<Rightarrow> bool" where
  "control_ok c \<longleftrightarrow> tables_ok (tables c)"

text \<open>What holds in addition while workers are chosen under the lock only.\<close>

definition lock_ok :: "control \<Rightarrow> bool" where
  "lock_ok c \<longleftrightarrow> tables_ok (tables c) \<and> one_per_worker (tables c)
     \<and> (\<forall>p a w. decision c p = Some (a, w) \<longrightarrow> holder c = Some p \<and> free_worker (tables c) w)"

definition assigned_row :: "attempt_row \<Rightarrow> attempt_row \<Rightarrow> bool" where
  "assigned_row r r' \<longleftrightarrow> at_status r = QUEUED \<and> (\<exists>w. r' = r\<lparr>at_worker := Some w, at_reason := None, at_status := ASSIGNED\<rparr>)"

lemma list_all2_memD1: "list_all2 R xs ys \<Longrightarrow> x \<in> set xs \<Longrightarrow> \<exists>y \<in> set ys. R x y"
  by (induction rule: list_all2_induct) auto

lemma list_all2_memD2: "list_all2 R xs ys \<Longrightarrow> y \<in> set ys \<Longrightarrow> \<exists>x \<in> set xs. R x y"
  by (induction rule: list_all2_induct) auto

lemma evolves_free:
  assumes "evolves db db'" and "aligned db" and "free_worker db w"
  shows "free_worker db' w"
  unfolding free_worker_def
proof (intro ballI impI)
  fix r' assume "r' \<in> set (q_attempts db')" and w: "at_worker r' = Some w"
  with assms(1,2) obtain r where r: "r \<in> set (q_attempts db)" "row_step r r'"
    unfolding evolves_def by (blast dest: list_all2_memD2)
  with assms(3) w show "at_terminal r' \<noteq> None" by (auto simp: free_worker_def row_step_def)
qed

lemma evolves_ok:
  assumes "evolves db db'" and "tables_ok db"
  shows "tables_ok db'"
proof -
  from assms have e: "aligned db'" "list_all2 row_step (q_attempts db) (q_attempts db')"
    by (auto simp: evolves_def tables_ok_def)
  have "row_ok r'" if "r' \<in> set (q_attempts db')" for r'
    using list_all2_memD2 [OF e(2) that] assms(2) by (auto simp: tables_ok_def row_step_def)
  with e(1) show ?thesis by (simp add: tables_ok_def)
qed

lemma evolves_one:
  assumes "evolves db db'" and "aligned db" and "one_per_worker db"
  shows "one_per_worker db'"
  unfolding one_per_worker_def
proof (intro ballI impI)
  from assms have e: "list_all2 row_step (q_attempts db) (q_attempts db')" by (simp add: evolves_def)
  fix p' q' assume pq: "p' \<in> set (q_attempts db')" "q' \<in> set (q_attempts db')" "at_worker p' \<noteq> None"
    "at_worker p' = at_worker q'" "at_terminal p' = None" "at_terminal q' = None"
  from list_all2_memD2 [OF e pq(1)] list_all2_memD2 [OF e pq(2)] obtain p q
    where o: "p \<in> set (q_attempts db)" "row_step p p'" "q \<in> set (q_attempts db)" "row_step q q'" by blast
  then have k: "at_worker p' = at_worker p" "at_worker q' = at_worker q" "at_terminal p = None" "at_terminal q = None"
      "at_id p' = at_id p" "at_id q' = at_id q"
    using pq(5,6) unfolding row_step_def by (metis, metis, metis, metis, metis, metis)
  from assms(3) [unfolded one_per_worker_def, rule_format, OF o(1,3)] pq(3,4) k have "at_id p = at_id q" by simp
  with k show "at_id p' = at_id q'" by simp
qed

lemma occupied_free:
  assumes "tables_ok db" and "\<not> occupied (attempts reconcilable_states db) w"
  shows "free_worker db w"
  unfolding free_worker_def
proof (intro ballI impI)
  fix r assume r: "r \<in> set (q_attempts db)" "at_worker r = Some w"
  show "at_terminal r \<noteq> None"
  proof
    assume t: "at_terminal r = None"
    from assms(1) r(1) have "row_ok r" by (simp add: tables_ok_def)
    with r(2) t have "at_status r \<in> set reconcilable_states"
      by (auto simp: row_ok_def reconcilable_states_def active_states_def split: if_splits)
    moreover have "at_experiment r \<in> ex_id ` set (q_experiments db)"
    proof -
      from assms(1) have "list_all2 (\<lambda>r e. at_experiment r = ex_id e \<and> at_status r = ex_status e) (q_attempts db) (q_experiments db)"
        by (simp add: tables_ok_def aligned_def)
      from list_all2_memD1 [OF this r(1)] show ?thesis by auto
    qed
    ultimately have "r \<in> set (attempts reconcilable_states db)" using r(1) by (simp add: attempts_def)
    with assms(2) r(2) t show False by (auto simp: occupied_def list_ex_iff)
  qed
qed

lemma least_choice_mem: "least_choice spec cs = Some c \<Longrightarrow> c \<in> set cs"
  by (induction cs arbitrary: c) (auto split: option.splits if_splits)

lemma eligible_not_occupied:
  assumes "eligible_worker active spec verdict cs = (Some w, reason)"
  shows "\<not> occupied active (cp_worker w)" and "\<not> fenced active (cp_worker w)" and "w \<in> set cs"
proof -
  from assms have "least_choice spec (concat (map (\<lambda>j. case j of Inr c \<Rightarrow> [c] | _ \<Rightarrow> []) (map (judge active verdict) cs))) = Some w"
    unfolding eligible_worker_def Let_def by (simp split: option.splits)
  from least_choice_mem [OF this] have "w \<in> set (concat (map (\<lambda>j. case j of Inr c \<Rightarrow> [c] | _ \<Rightarrow> []) (map (judge active verdict) cs)))" .
  then obtain c where "c \<in> set cs" "judge active verdict c = Inr w" by (auto split: sum.splits)
  then show "\<not> occupied active (cp_worker w)" "\<not> fenced active (cp_worker w)" "w \<in> set cs"
    by (auto simp: judge_def split: if_splits)
qed

text \<open>Rows that are in the new table with only changes a step makes.\<close>

definition carries :: "queue_db \<Rightarrow> queue_db \<Rightarrow> bool" where
  "carries db db' \<longleftrightarrow> (\<forall>r \<in> set (q_attempts db). \<exists>r' \<in> set (q_attempts db'). row_step r r' \<or> assigned_row r r')"

lemma carries_refl [simp]: "carries db db"
  unfolding carries_def using row_step_refl by blast

lemma evolves_carries: "evolves db db' \<Longrightarrow> aligned db \<Longrightarrow> carries db db'"
  by (auto simp: evolves_def carries_def dest: list_all2_memD1)

lemma assign_effect:
  assumes "tables_ok db"
  shows "tables_ok (snd (assign a w db)) \<and> carries db (snd (assign a w db))
    \<and> (one_per_worker db \<and> free_worker db w \<longrightarrow> one_per_worker (snd (assign a w db)))"
proof (cases "\<exists>r. find_attempt db a = Some r \<and> at_status r = QUEUED")
  case False
  then show ?thesis using assms by (auto simp: assign_def split: option.split)
next
  case True
  then obtain r where r: "find_attempt db a = Some r" "at_status r = QUEUED" by blast
  let ?f = "\<lambda>r. r\<lparr>at_worker := Some w, at_reason := None\<rparr>" and ?db = "snd (assign a w db)"
  have db: "?db = set_status a ASSIGNED ?f db" using r by (simp add: assign_def)
  from assms have ok: "aligned db" "\<forall>r \<in> set (q_attempts db). row_ok r"
    by (simp_all add: tables_ok_def)
  have only: "r' = r" if "r' \<in> set (q_attempts db)" "at_id r' = a" for r'
    using the_attempt [OF ok(1) r(1) that] .
  have new: "r' = (?f r)\<lparr>at_status := ASSIGNED\<rparr> \<or> r' \<in> set (q_attempts db) \<and> at_id r' \<noteq> a"
    if "r' \<in> set (q_attempts ?db)" for r'
    using that only unfolding db by (auto split: if_splits)
  have "aligned ?db" unfolding db by (rule aligned_set_status [OF ok(1)]) (simp add: keeps_keys_def)
  moreover have "row_ok ((?f r)\<lparr>at_status := ASSIGNED\<rparr>)"
    using row_ok_queued [OF _ r(2)] ok(2) find_attempt_Some [OF r(1)]
    by (auto simp: row_ok_def [of "at_status_update _ _"] reconcilable_states_def active_states_def)
  then have "\<forall>r' \<in> set (q_attempts ?db). row_ok r'" using new ok(2) by blast
  moreover have "one_per_worker ?db" if one: "one_per_worker db" "free_worker db w"
    unfolding one_per_worker_def
  proof (intro ballI impI)
    fix p q assume pq: "p \<in> set (q_attempts ?db)" "q \<in> set (q_attempts ?db)" "at_worker p \<noteq> None"
      "at_worker p = at_worker q" "at_terminal p = None" "at_terminal q = None"
    have "at_worker p' \<noteq> Some w" if "p' \<in> set (q_attempts db)" "at_terminal p' = None" for p'
      using that one(2) by (auto simp: free_worker_def)
    with new [OF pq(1)] new [OF pq(2)] pq(3-6) one(1) [unfolded one_per_worker_def, rule_format, of p q]
    show "at_id p = at_id q" by auto
  qed
  moreover have "carries db ?db"
    unfolding carries_def
  proof
    fix r' assume r': "r' \<in> set (q_attempts db)"
    show "\<exists>r'' \<in> set (q_attempts ?db). row_step r' r'' \<or> assigned_row r' r''"
    proof (cases "at_id r' = a")
      case True
      with only [OF r'] r(2) have "assigned_row r' ((?f r')\<lparr>at_status := ASSIGNED\<rparr>)" by (auto simp: assigned_row_def)
      moreover have "(?f r')\<lparr>at_status := ASSIGNED\<rparr> \<in> set (q_attempts ?db)" unfolding db using r' True by force
      ultimately show ?thesis by blast
    next
      case False
      then have "r' \<in> set (q_attempts ?db)" unfolding db using r' by force
      then show ?thesis using row_step_refl by blast
    qed
  qed
  ultimately show ?thesis by (simp add: tables_ok_def)
qed

lemma enqueue_one_effect:
  assumes "enqueue_one now db e = Inr db'" and "tables_ok db"
  shows "tables_ok db' \<and> set (q_attempts db) \<subseteq> set (q_attempts db') \<and> (\<forall>w. free_worker db w \<longrightarrow> free_worker db' w)
    \<and> (one_per_worker db \<longrightarrow> one_per_worker db')"
proof -
  from assms(1) obtain row where row: "q_attempts db' = q_attempts db @ [row]" "at_worker row = None" "row_ok row"
      "at_id row \<notin> at_id ` set (q_attempts db)" "at_run row \<notin> at_run ` set (q_attempts db)"
      "at_experiment row \<notin> ex_id ` set (q_experiments db)"
      "\<exists>x. q_experiments db' = q_experiments db @ [x] \<and> at_experiment row = ex_id x \<and> at_status row = ex_status x"
    by (auto simp: enqueue_one_def row_ok_def split: if_splits)
  from assms(2) have al: "aligned db" by (simp add: tables_ok_def)
  then have "list_all2 (\<lambda>r e. at_experiment r = ex_id e \<and> at_status r = ex_status e) (q_attempts db) (q_experiments db)"
    by (simp add: aligned_def)
  then have "at_experiment ` set (q_attempts db) \<subseteq> ex_id ` set (q_experiments db)"
    by (auto dest!: list_all2_memD1)
  with row al have "aligned db'" by (auto simp: aligned_def intro!: list_all2_appendI)
  moreover have "one_per_worker db'" if "one_per_worker db"
    using that unfolding one_per_worker_def row(1) set_append list.set Ball_def
    by (metis Un_iff empty_iff insert_iff row(2))
  moreover have "free_worker db' w" if "free_worker db w" for w
    using that row(1,2) by (auto simp: free_worker_def)
  ultimately show ?thesis using assms(2) row(1,3) by (auto simp: tables_ok_def)
qed

lemma enqueue_many_effect:
  assumes "enqueue_many now entries db = Inr db'" and "tables_ok db"
  shows "tables_ok db' \<and> set (q_attempts db) \<subseteq> set (q_attempts db') \<and> (\<forall>w. free_worker db w \<longrightarrow> free_worker db' w)
    \<and> (one_per_worker db \<longrightarrow> one_per_worker db')"
proof (rule foldE_invariant [OF assms(1) [unfolded enqueue_many_def],
      where I = "\<lambda>x. tables_ok x \<and> set (q_attempts db) \<subseteq> set (q_attempts x) \<and> (\<forall>w. free_worker db w \<longrightarrow> free_worker x w)
        \<and> (one_per_worker db \<longrightarrow> one_per_worker x)"])
  fix x e x' assume I: "tables_ok x \<and> set (q_attempts db) \<subseteq> set (q_attempts x) \<and> (\<forall>w. free_worker db w \<longrightarrow> free_worker x w)
        \<and> (one_per_worker db \<longrightarrow> one_per_worker x)"
    and "enqueue_one now x e = Inr x'"
  from enqueue_one_effect [OF this(2)] I
  show "tables_ok x' \<and> set (q_attempts db) \<subseteq> set (q_attempts x') \<and> (\<forall>w. free_worker db w \<longrightarrow> free_worker x' w)
      \<and> (one_per_worker db \<longrightarrow> one_per_worker x')" by blast
qed (use assms(2) in simp)

lemma carries_subset: "set (q_attempts db) \<subseteq> set (q_attempts db') \<Longrightarrow> carries db db'"
  unfolding carries_def using row_step_refl by blast

lemma on_tables_Inr: "on_tables c r = Inr c' \<longleftrightarrow> (\<exists>db. r = Inr db \<and> c' = c\<lparr>tables := db\<rparr>)"
  by (auto simp: on_tables_def)

text \<open>What a transaction does that only moves rows, and what every step does.\<close>

definition step_effect :: "queue_db \<Rightarrow> queue_db \<Rightarrow> bool" where
  "step_effect db db' \<longleftrightarrow> tables_ok db' \<and> carries db db'"

definition keeps_free :: "queue_db \<Rightarrow> queue_db \<Rightarrow> bool" where
  "keeps_free db db' \<longleftrightarrow> (\<forall>w. free_worker db w \<longrightarrow> free_worker db' w) \<and> (one_per_worker db \<longrightarrow> one_per_worker db')"

lemma keeps_free_refl [simp]: "keeps_free db db"
  by (simp add: keeps_free_def)

lemma evolving_step:
  assumes "tables_ok db" and "evolves db db'"
  shows "step_effect db db' \<and> keeps_free db db'"
  using assms evolves_ok [OF assms(2)] evolves_free [OF assms(2)] evolves_one [OF assms(2)] evolves_carries [OF assms(2)]
  by (simp add: step_effect_def keeps_free_def tables_ok_def)

text \<open>A step that is no scheduling step neither chooses nor takes a free worker.\<close>

definition scheduling :: "queue_op \<Rightarrow> bool" where
  "scheduling op \<longleftrightarrow> (case op of TakeLock p \<Rightarrow> True | ReleaseLock p \<Rightarrow> True | Choose p a v cs \<Rightarrow> True | AssignChosen p \<Rightarrow> True | _ \<Rightarrow> False)"

lemma transaction_effect:
  assumes "queue_step zoned op c = Inr c'" and "tables_ok (tables c)" and "\<not> scheduling op"
  shows "step_effect (tables c) (tables c') \<and> keeps_free (tables c) (tables c') \<and> decision c' = decision c \<and> holder c' = holder c"
proof -
  from assms(2) have ok: "aligned (tables c)" "\<forall>r \<in> set (q_attempts (tables c)). row_ok r"
    by (simp_all add: tables_ok_def)
  show ?thesis
  proof (cases op)
    case (Enqueue now entries)
    with assms(1) obtain db where db: "enqueue_many now entries (tables c) = Inr db" "c' = c\<lparr>tables := db\<rparr>"
      by (auto simp: on_tables_Inr)
    from enqueue_many_effect [OF db(1) assms(2)] db(2) show ?thesis
      by (simp add: step_effect_def keeps_free_def carries_subset)
  next
    case (Receive run receipt)
    with assms(1) obtain db where db: "reconcile_receipt run receipt (tables c) = Inr db" "rc_worker receipt \<noteq> None" "c' = c\<lparr>tables := db\<rparr>"
      by (auto simp: on_tables_Inr split: if_splits)
    from evolving_step [OF assms(2) receive_evolves [OF db(1,2) ok]] db(3) show ?thesis by simp
  next
    case (Unreachable a reason)
    with assms(1) obtain db where db: "mark_unknown_if_nonterminal a reason (tables c) = Inr db" "assigned_worker (tables c) a \<noteq> None"
        "c' = c\<lparr>tables := db\<rparr>"
      by (auto simp: on_tables_Inr split: if_splits)
    from evolving_step [OF assms(2) mark_unknown_evolves [OF db(1,2) ok(2)]] db(3) show ?thesis by simp
  next
    case (Cancel run)
    with assms(1) obtain st db where db: "request_cancel run (tables c) = Inr (st, db)" "c' = c\<lparr>tables := db\<rparr>"
      by (auto simp: on_tables_Inr)
    from evolving_step [OF assms(2) request_cancel_evolves [OF db(1) ok]] db(2) show ?thesis by simp
  next
    case (Recover a observation w spec_digest bundle_digest)
    with assms(1) obtain db where db: "record_recovery zoned a observation w spec_digest bundle_digest (tables c) = Inr db"
        "c' = c\<lparr>tables := db\<rparr>"
      by (auto simp: on_tables_Inr)
    from evolving_step [OF assms(2) record_recovery_evolves [OF db(1) ok(2)]] db(2) show ?thesis by simp
  next
    case (IngestionComplete a)
    with assms(1) obtain db where db: "mark_ingestion_complete a (tables c) = Inr db" "c' = c\<lparr>tables := db\<rparr>"
      by (auto simp: on_tables_Inr)
    from evolving_step [OF assms(2) mark_ingestion_evolves(1) [OF db(1)]] db(2) show ?thesis by simp
  next
    case (IngestionNotRequired a)
    with assms(1) evolving_step [OF assms(2) mark_ingestion_evolves(2)] show ?thesis by auto
  next
    case (IngestionFailed a kind message)
    with assms(1) evolving_step [OF assms(2) mark_ingestion_evolves(3)] show ?thesis by auto
  qed (use assms(3) in \<open>simp_all add: scheduling_def\<close>)
qed

text \<open>A choice leaves the tables as they are but for the reason of a refused attempt; what is chosen is free.\<close>

lemma choose_effect:
  assumes "queue_step zoned (Choose p a verdict capabilities) c = Inr c'" and "tables_ok (tables c)"
  shows "step_effect (tables c) (tables c') \<and> keeps_free (tables c) (tables c') \<and> holder c' = holder c
    \<and> (\<exists>d. decision c' = (decision c)(p := d) \<and> (\<forall>b w. d = Some (b, w) \<longrightarrow> free_worker (tables c') w))"
proof -
  from assms(1) obtain r spec where r: "find_attempt (tables c) a = Some r" "experiment_spec (tables c) r = Some spec"
    by (auto split: option.splits)
  obtain choice reason where e: "eligible_worker (attempts reconcilable_states (tables c)) spec verdict capabilities = (choice, reason)"
    by (cases "eligible_worker (attempts reconcilable_states (tables c)) spec verdict capabilities")
  show ?thesis
  proof (cases choice)
    case None
    with assms(1) r e have c': "c' = c\<lparr>tables := set_queued_reason a reason (tables c), decision := (decision c)(p := None)\<rparr>" by simp
    from evolving_step [OF assms(2) set_queued_reason_evolves] show ?thesis by (auto simp: c')
  next
    case (Some w)
    with assms(1) r e have c': "c' = c\<lparr>decision := (decision c)(p \<mapsto> (a, cp_worker w))\<rparr>" by simp
    from occupied_free [OF assms(2) eligible_not_occupied(1)] e Some have "free_worker (tables c) (cp_worker w)" by simp
    then show ?thesis using assms(2) by (auto simp: c' step_effect_def)
  qed
qed

lemma queue_step_effect:
  assumes "queue_step zoned op c = Inr c'" and "control_ok c"
  shows "control_ok c' \<and> carries (tables c) (tables c')"
proof -
  from assms(2) have ok: "tables_ok (tables c)" by (simp add: control_ok_def)
  show ?thesis
  proof (cases "scheduling op")
    case False
    from transaction_effect [OF assms(1) ok False] show ?thesis by (simp add: control_ok_def step_effect_def)
  next
    case True
    consider (lock) p where "op = TakeLock p \<or> op = ReleaseLock p" | (choose) p a v cs where "op = Choose p a v cs" | (assign) p where "op = AssignChosen p"
      using True by (cases op) (auto simp: scheduling_def)
    then show ?thesis
    proof cases
      case lock
      with assms have "tables c' = tables c" by (auto split: if_splits)
      with ok show ?thesis by (simp add: control_ok_def)
    next
      case choose
      from choose_effect [OF assms(1) [unfolded choose] ok] show ?thesis by (simp add: control_ok_def step_effect_def)
    next
      case assign
      with assms(1) obtain a w where "tables c' = snd (assign a w (tables c))" by (auto split: option.splits)
      with assign_effect [OF ok] show ?thesis by (simp add: control_ok_def)
    qed
  qed
qed

section \<open>Outcomes and cancellations last\<close>

type_synonym outcome = "string \<times> queue_state \<times> attempt_receipt option \<times> recovery_observation option \<times> string option"

definition has_settled :: "outcome \<Rightarrow> queue_db \<Rightarrow> bool" where
  "has_settled out db \<longleftrightarrow> (\<exists>r \<in> set (q_attempts db). settled r
     \<and> out = (at_id r, at_status r, at_terminal r, at_recovery r, at_worker r))"

definition cancel_pending :: "string \<Rightarrow> queue_db \<Rightarrow> bool" where
  "cancel_pending a db \<longleftrightarrow> (\<exists>r \<in> set (q_attempts db). at_id r = a \<and> (at_status r = CANCEL_REQUESTED \<or> settled r))"

lemma settled_stays: "carries db db' \<Longrightarrow> tables_ok db \<Longrightarrow> has_settled out db \<Longrightarrow> has_settled out db'"
proof -
  assume c: "carries db db'" and ok: "tables_ok db" and "has_settled out db"
  then obtain r where r: "r \<in> set (q_attempts db)" "settled r"
      "out = (at_id r, at_status r, at_terminal r, at_recovery r, at_worker r)"
    by (auto simp: has_settled_def)
  from c r(1) obtain r' where r': "r' \<in> set (q_attempts db')" "row_step r r' \<or> assigned_row r r'" by (auto simp: carries_def)
  from ok r(1) have "row_ok r" by (simp add: tables_ok_def)
  with r(2) row_ok_queued have "at_status r \<noteq> QUEUED" by (auto simp: settled_def)
  with r' have s: "row_step r r'" by (auto simp: assigned_row_def)
  with r(2) have k: "at_id r' = at_id r" "at_status r' = at_status r" "at_terminal r' = at_terminal r"
      "at_recovery r' = at_recovery r" "at_worker r' = at_worker r"
    unfolding row_step_def by (metis, metis, metis, metis, metis)
  with r(2) have "settled r'" by (simp add: settled_def)
  with k r(3) r'(1) show ?thesis unfolding has_settled_def by (intro bexI [of _ r']) simp_all
qed

lemma cancel_stays: "carries db db' \<Longrightarrow> tables_ok db \<Longrightarrow> cancel_pending a db \<Longrightarrow> cancel_pending a db'"
proof -
  assume c: "carries db db'" and ok: "tables_ok db" and "cancel_pending a db"
  then obtain r where r: "r \<in> set (q_attempts db)" "at_id r = a" "at_status r = CANCEL_REQUESTED \<or> settled r"
    by (auto simp: cancel_pending_def)
  show ?thesis
  proof (cases "settled r")
    case True
    with r(1) have "has_settled (at_id r, at_status r, at_terminal r, at_recovery r, at_worker r) db"
      by (auto simp: has_settled_def)
    from settled_stays [OF c ok this] r(2) show ?thesis by (auto simp: has_settled_def cancel_pending_def)
  next
    case False
    with r(3) have st: "at_status r = CANCEL_REQUESTED" by simp
    from c r(1) obtain r' where r': "r' \<in> set (q_attempts db')" "row_step r r' \<or> assigned_row r r'" by (auto simp: carries_def)
    with st have s: "row_step r r'" by (auto simp: assigned_row_def)
    with st r(2) have "at_id r' = a" "settled r' \<or> at_status r' = CANCEL_REQUESTED" unfolding row_step_def by (metis, metis)
    with r'(1) show ?thesis by (auto simp: cancel_pending_def)
  qed
qed

lemma control_ok_tables: "control_ok c \<Longrightarrow> tables_ok (tables c)"
  by (simp add: control_ok_def)

interpretation queue: stable_machine "queue_step zoned" control_ok "\<lambda>_. True" "\<lambda>out c. has_settled out (tables c)" for zoned
proof unfold_locales
  fix c op c' assume ok: "control_ok c" and step: "queue_step zoned op c = Inr c'"
  from queue_step_effect [OF step ok] show "control_ok c'" ..
  show "has_settled out (tables c')" if "has_settled out (tables c)" for out
    using settled_stays [OF _ control_ok_tables [OF ok] that] queue_step_effect [OF step ok] by blast
qed

interpretation cancel: stable_machine "queue_step zoned" control_ok "\<lambda>_. True" "\<lambda>a c. cancel_pending a (tables c)" for zoned
proof unfold_locales
  fix c op c' a assume ok: "control_ok c" and step: "queue_step zoned op c = Inr c'" and "cancel_pending a (tables c)"
  then show "cancel_pending a (tables c')"
    using cancel_stays [OF _ control_ok_tables [OF ok]] queue_step_effect [OF step ok] by blast
qed

lemma cancel_requested:
  assumes "tables_ok db" and "request_cancel run db = Inr (st, db')" and "attempt_by_run db run = Some r"
  shows "cancel_pending (at_id r) db'"
proof -
  define g :: "attempt_row \<Rightarrow> attempt_row" where "g = (\<lambda>x. (if at_status r = QUEUED then x\<lparr>at_ingestion := NOT_REQUIRED, at_error := None\<rparr> else x)\<lparr>at_status := cancel_target r\<rparr>)"
  from assms(1,3) the_run have r: "r \<in> set (q_attempts db)" "row_ok r" by (auto simp: tables_ok_def)
  from assms(2,3) have "q_attempts db' = map (\<lambda>x. if at_id x = at_id r then g x else x) (q_attempts db)"
    by (auto simp: request_cancel_def g_def)
  with r(1) have "g r \<in> set (q_attempts db')" by force
  moreover have "at_id (g r) = at_id r" by (simp add: g_def)
  moreover have "at_status (g r) = CANCEL_REQUESTED \<or> settled (g r)"
    using r(2) by (auto simp: g_def cancel_target_def settled_def row_ok_def terminal_queue_states_def
        reconcilable_states_def active_states_def split: option.splits if_splits)
  ultimately show ?thesis by (auto simp: cancel_pending_def)
qed

definition run_queue :: "(string \<Rightarrow> bool) \<Rightarrow> control \<Rightarrow> queue_op list \<Rightarrow> control" where
  "run_queue zoned = run_ops (queue_step zoned)"

lemma empty_queue_ok: "control_ok empty_queue" "lock_ok empty_queue"
  by (simp_all add: control_ok_def lock_ok_def empty_queue_def tables_ok_def aligned_def one_per_worker_def)

lemma run_queue_ok: "control_ok c \<Longrightarrow> control_ok (run_queue zoned c ops)"
  unfolding run_queue_def by (rule queue.run_inv) (simp_all add: list_all_iff)

section \<open>Scheduling under the lock\<close>

text \<open>A run in which a worker is chosen only by the scheduler that holds the lock.\<close>

definition under_lock :: "control \<Rightarrow> queue_op \<Rightarrow> bool" where
  "under_lock c op \<longleftrightarrow> (case op of Choose p a v cs \<Rightarrow> holder c = Some p | _ \<Rightarrow> True)"

fun locked_run :: "(string \<Rightarrow> bool) \<Rightarrow> control \<Rightarrow> queue_op list \<Rightarrow> bool" where
  "locked_run zoned c [] \<longleftrightarrow> True"
| "locked_run zoned c (op # ops) \<longleftrightarrow> under_lock c op \<and> locked_run zoned (try_step (queue_step zoned) c op) ops"

lemma lock_ok_step:
  assumes "queue_step zoned op c = Inr c'" and "lock_ok c" and "under_lock c op"
  shows "lock_ok c'"
proof -
  from assms(2) have ok: "tables_ok (tables c)" "one_per_worker (tables c)"
    and pending: "\<And>p a w. decision c p = Some (a, w) \<Longrightarrow> holder c = Some p \<and> free_worker (tables c) w" by (simp_all add: lock_ok_def)
  show ?thesis
  proof (cases "scheduling op")
    case False
    from transaction_effect [OF assms(1) ok(1) False] ok(2) pending show ?thesis
      by (auto simp: lock_ok_def step_effect_def keeps_free_def)
  next
    case True
    consider (take_lock) p where "op = TakeLock p" | (release) p where "op = ReleaseLock p"
      | (choose) p a v cs where "op = Choose p a v cs" | (assign) p where "op = AssignChosen p"
      using True by (cases op) (auto simp: scheduling_def)
    then show ?thesis
    proof cases
      case take_lock
      with assms(1) have c': "holder c = None" "c' = c\<lparr>holder := Some p\<rparr>" by (auto split: if_splits)
      then show ?thesis using ok pending by (auto simp: lock_ok_def)
    next
      case release
      with assms(1) have "c' = (if holder c = Some p then c\<lparr>holder := None, decision := (decision c)(p := None)\<rparr> else c)"
        by (auto split: if_splits)
      then show ?thesis using ok pending by (fastforce simp: lock_ok_def)
    next
      case choose
      with assms(3) have holder: "holder c = Some p" by (simp add: under_lock_def)
      from choose_effect [OF assms(1) [unfolded choose] ok(1)] obtain d
        where d: "decision c' = (decision c)(p := d)" "\<And>b w. d = Some (b, w) \<Longrightarrow> free_worker (tables c') w"
          and kept: "step_effect (tables c) (tables c')" "keeps_free (tables c) (tables c')" "holder c' = holder c" by blast
      then show ?thesis using ok pending holder by (auto simp: lock_ok_def step_effect_def keeps_free_def)
    next
      case assign
      with assms(1) obtain a w where d: "decision c p = Some (a, w)"
          "c' = c\<lparr>tables := snd (assign a w (tables c)), decision := (decision c)(p := None)\<rparr>" by (auto split: option.splits)
      have "decision c' q = None" for q using pending [of q] pending [OF d(1)] by (cases "decision c q") (auto simp: d(2))
      then show ?thesis using assign_effect [OF ok(1), of a w] ok(2) pending [OF d(1)] by (simp add: lock_ok_def d(2))
    qed
  qed
qed

lemma locked_run_ok: "locked_run zoned c ops \<Longrightarrow> lock_ok c \<Longrightarrow> lock_ok (run_queue zoned c ops)"
  unfolding run_queue_def
  by (induction ops arbitrary: c) (auto simp: run_ops_Cons try_step_def intro: lock_ok_step split: sum.splits)

text \<open>
  C36. The tables stay well formed. After any interleaving of submissions, scheduling, receipts, losses of
  contact, cancellations, recoveries and ingestion results, the identifiers are unique, each
  experiment has the status of its one attempt, and the columns of each attempt agree: without a worker it is queued
  or cancelled, with terminal evidence it has the status of that evidence, which names the attempt and its worker, and a recovered
  attempt is unknown and has no terminal evidence.
\<close>

theorem queue_is_well_formed:
  "aligned (tables (run_queue zoned empty_queue ops)) \<and> list_all row_ok (q_attempts (tables (run_queue zoned empty_queue ops)))"
  using run_queue_ok [OF empty_queue_ok(1), of zoned ops] by (auto simp: control_ok_def tables_ok_def list_all_iff)

text \<open>
  C8. Under the lock a worker runs one attempt. In a run in which workers are chosen only by the scheduler that
  holds the process lock at that time, two attempts ever assigned to the same worker do not both lack terminal
  evidence; in particular a worker whose loss was confirmed is never assigned again. The choice is made from a past reading of
  the table; anything may happen before the assignment, also that the scheduler stops and others take the lock.
\<close>

theorem worker_runs_one_attempt:
  assumes "locked_run zoned empty_queue ops" and "c = run_queue zoned empty_queue ops"
    and "r \<in> set (q_attempts (tables c))" and "r' \<in> set (q_attempts (tables c))"
    and "at_worker r = Some w" and "at_worker r' = Some w" and "at_id r \<noteq> at_id r'"
  shows "at_terminal r \<noteq> None \<or> at_terminal r' \<noteq> None"
proof -
  have "one_per_worker (tables c)"
    using locked_run_ok [OF assms(1) empty_queue_ok(2)] assms(2) by (simp add: lock_ok_def)
  from this [unfolded one_per_worker_def, rule_format, OF assms(3,4)] assms(5-7) show ?thesis by auto
qed

text \<open>Choosing and assigning, seen from outside.\<close>

lemma choose_free:
  assumes "find_attempt (tables c) a = Some r" and "experiment_spec (tables c) r = Some spec"
    and "eligible_worker (attempts reconcilable_states (tables c)) spec verdict capabilities = (Some x, reason)"
  shows "try_step (queue_step zoned) c (Choose p a verdict capabilities) = c\<lparr>decision := (decision c)(p \<mapsto> (a, cp_worker x))\<rparr>"
  using assms by (simp add: try_step_def)

lemma assign_chosen:
  assumes "decision c p = Some (a, w)"
  shows "try_step (queue_step zoned) c (AssignChosen p) = c\<lparr>tables := snd (assign a w (tables c)), decision := (decision c)(p := None)\<rparr>"
  using assms by (simp add: try_step_def)

text \<open>
  C38. Without the lock a worker gets two attempts. Two schedulers, of which at most one holds the lock, choose the same free worker
  for two queued attempts before either has assigned its own. Both assignments succeed, since the table only compares
  that the attempt is still queued, and the worker has two attempts that are assigned and without evidence.
\<close>

theorem unlocked_schedulers_share_worker:
  assumes "aligned (tables c)" and "p \<noteq> q" and "a \<noteq> b"
    and "find_attempt (tables c) a = Some r" and "at_status r = QUEUED" and "experiment_spec (tables c) r = Some spec"
    and "find_attempt (tables c) b = Some r'" and "at_status r' = QUEUED" and "experiment_spec (tables c) r' = Some spec'"
    and "eligible_worker (attempts reconcilable_states (tables c)) spec verdict capabilities = (Some x, reason)"
    and "eligible_worker (attempts reconcilable_states (tables c)) spec' verdict' capabilities' = (Some x', reason')"
    and "cp_worker x = w" and "cp_worker x' = w"
    and "c' = run_queue zoned c [Choose p a verdict capabilities, Choose q b verdict' capabilities', AssignChosen p, AssignChosen q]"
  shows "find_attempt (tables c') a = Some (r\<lparr>at_worker := Some w, at_reason := None, at_status := ASSIGNED\<rparr>)
    \<and> find_attempt (tables c') b = Some (r'\<lparr>at_worker := Some w, at_reason := None, at_status := ASSIGNED\<rparr>)
    \<and> holder c' = holder c"
proof -
  let ?f = "\<lambda>r. r\<lparr>at_worker := Some w, at_reason := None\<rparr>" and ?db = "tables c"
  let ?db1 = "set_status a ASSIGNED ?f ?db"
  have keys: "keeps_keys (\<lambda>r. (?f r)\<lparr>at_status := ASSIGNED\<rparr>)" by (simp add: keeps_keys_def)
  have find: "find_attempt (set_status d ASSIGNED ?f db) e
      = map_option (\<lambda>r. if e = d then (?f r)\<lparr>at_status := ASSIGNED\<rparr> else r) (find_attempt db e)" for d e db
  proof -
    have "find (\<lambda>r. at_id r = e) (map (\<lambda>r. if at_id r = d then (?f r)\<lparr>at_status := ASSIGNED\<rparr> else r) rows)
        = map_option (\<lambda>r. if e = d then (?f r)\<lparr>at_status := ASSIGNED\<rparr> else r) (find (\<lambda>r. at_id r = e) rows)" for rows
      by (induction rows) auto
    then show ?thesis by (simp add: find_attempt_def)
  qed
  have one: "snd (assign a w ?db) = ?db1" using assms(4,5) by (simp add: assign_def)
  have b: "find_attempt ?db1 b = Some r'" using assms(3,7) by (simp add: find)
  then have two: "snd (assign b w ?db1) = set_status b ASSIGNED ?f ?db1" using assms(8) by (simp add: assign_def)
  let ?c1 = "c\<lparr>decision := (decision c)(p \<mapsto> (a, w))\<rparr>"
  let ?c2 = "?c1\<lparr>decision := (decision ?c1)(q \<mapsto> (b, w))\<rparr>"
  have steps: "try_step (queue_step zoned) c (Choose p a verdict capabilities) = ?c1"
      "try_step (queue_step zoned) ?c1 (Choose q b verdict' capabilities') = ?c2"
    using choose_free [OF assms(4,6,10)] choose_free [of ?c1, simplified, OF assms(7,9,11)] by (simp_all add: assms(12,13))
  have c': "c' = c\<lparr>tables := set_status b ASSIGNED ?f ?db1, decision := (decision c)(p := None, q := None)\<rparr>"
    unfolding assms(14) run_queue_def run_ops_Cons run_ops_Nil steps
    using assms(2) by (simp add: assign_chosen one two fun_upd_twist)
  show ?thesis using assms(3,4) b by (auto simp: c' find)
qed

text \<open>
  C9. An outcome is final. Once an attempt has terminal evidence, a confirmed recovery, or was cancelled before it
  was assigned, no later operation changes its status, its evidence, its recovery or its worker.
\<close>

theorem attempt_outcome_is_final:
  assumes "control_ok c" and "has_settled out (tables c)"
  shows "has_settled out (tables (run_queue zoned c ops))"
  unfolding run_queue_def by (rule queue.facts_last [OF assms(1) _ assms(2)]) (simp add: list_all_iff)

text \<open>
  A cancellation is not forgotten. After the cancellation of an attempt that has no outcome, whatever happens, the
  attempt stays in the state of a requested cancellation, or it has an outcome: a stale receipt, a lost contact or a new
  scheduling round never sets it back to running or queued.
\<close>

theorem cancellation_persists:
  assumes "control_ok c" and "request_cancel run (tables c) = Inr (st, db)" and "attempt_by_run (tables c) run = Some r"
  shows "cancel_pending (at_id r) (tables (run_queue zoned (c\<lparr>tables := db\<rparr>) ops))"
  unfolding run_queue_def
proof (rule cancel.facts_last)
  have "queue_step zoned (Cancel run) c = Inr (c\<lparr>tables := db\<rparr>)" using assms(2) by (simp add: on_tables_def)
  from queue_step_effect [OF this assms(1)] show "control_ok (c\<lparr>tables := db\<rparr>)" ..
  show "cancel_pending (at_id r) (tables (c\<lparr>tables := db\<rparr>))"
    using cancel_requested [OF control_ok_tables [OF assms(1)] assms(2,3)] by simp
qed (simp add: list_all_iff)

section \<open>A conflict that is lost\<close>

definition refusal :: string where
  "refusal = ''conflicting evidence requires explicit reconciliation''"

lemma conflict_texts:
  "sublist ''CONFLICT'' ''CONFLICT: terminal evidence after confirmed recovery''"
  "\<not> sublist ''CONFLICT'' (''ValueError'' @ '': '' @ refusal)"
  unfolding refusal_def by code_simp+

lemma find_update:
  assumes "find_attempt db a = Some r" and "keeps_keys f"
  shows "find_attempt (update_attempt a f db) a = Some (f r)"
proof -
  have "find (\<lambda>r. at_id r = a) (map (\<lambda>r. if at_id r = a then f r else r) rows) = map_option f (find (\<lambda>r. at_id r = a) rows)" for rows
    using assms(2) by (induction rows) (auto simp: keeps_keys_def)
  with assms(1) show ?thesis by (simp add: find_attempt_def)
qed

lemma run_of_attempt:
  assumes "aligned db" and "find_attempt db a = Some r"
  shows "attempt_by_run db (at_run r) = Some r"
proof -
  from find_attempt_Some [OF assms(2)] have r: "r \<in> set (q_attempts db)" ..
  then obtain r' where r': "attempt_by_run db (at_run r) = Some r'"
    by (cases "attempt_by_run db (at_run r)") (auto simp: attempt_by_run_def find_None_all)
  then have "r' \<in> set (q_attempts db)" "at_run r' = at_run r"
    unfolding attempt_by_run_def using find_Some_mem by fast+
  with r assms(1) have "r' = r" by (auto simp: aligned_def distinct_map inj_on_def)
  with r' show ?thesis by simp
qed

text \<open>
  C37. The controller erases a conflict it has just recorded. Terminal evidence for an attempt whose recovery was
  confirmed is recorded as a conflict, and completing the ingestion is refused. But the poll that called it
  stores the refusal as the new error of the attempt, and that text lacks the marker: the attempt is pending again, the next
  completion succeeds and clears the error, and the run can be resumed as if nothing had contradicted its recovery.
\<close>

theorem refused_completion_erases_conflict:
  assumes "tables_ok db" and "find_attempt db a = Some r" and "at_recovery r \<noteq> None"
    and "rc_state receipt = Some s" and "s \<in> set terminal_receipt_states" and "set_receipt a receipt status db = Inr db1"
    and "db2 = mark_ingestion_error a ''ValueError'' refusal db1"
  shows "mark_ingestion_complete a db1 = Inl ExplicitReconciliation
    \<and> a \<in> at_id ` set (pending_ingestion db2)
    \<and> (\<exists>db3 r3. mark_ingestion_complete a db2 = Inr db3 \<and> find_attempt db3 a = Some r3
         \<and> at_ingestion r3 = INGESTED \<and> at_error r3 = None \<and> resumable (at_run r) db3 = Inr r3)"
proof -
  let ?r1 = "r\<lparr>at_error := Some ''CONFLICT: terminal evidence after confirmed recovery''\<rparr>"
  let ?r2 = "r\<lparr>at_ingestion := INGESTION_ERROR, at_error := Some (''ValueError'' @ '': '' @ refusal)\<rparr>"
  let ?r3 = "r\<lparr>at_ingestion := INGESTED, at_error := None\<rparr>"
  have db1: "db1 = update_attempt a (\<lambda>r. r\<lparr>at_error := Some ''CONFLICT: terminal evidence after confirmed recovery''\<rparr>)
      (retain_recovery_conflict a receipt db)"
    using assms(2-6) by (auto simp: set_receipt_def Let_def split: if_splits)
  have f: "find_attempt (retain_recovery_conflict a receipt db) a = Some r"
    using assms(2) by (simp add: find_attempt_def retain_recovery_conflict_def)
  have f1: "find_attempt db1 a = Some ?r1" unfolding db1 by (rule find_update [OF f]) (simp add: keeps_keys_def)
  have out: "has_outcome r" "has_outcome ?r1" "has_outcome ?r2" using assms(3) by (simp_all add: has_outcome_def)
  have f2: "find_attempt db2 a = Some ?r2"
    using find_update [OF f1, of "\<lambda>r. if has_outcome r then r\<lparr>at_ingestion := INGESTION_ERROR,
        at_error := Some (''ValueError'' @ '': '' @ refusal)\<rparr> else r"] out
    by (simp add: assms(7) mark_ingestion_error_def keeps_keys_def del: append.simps)
  from assms(1) have "aligned (retain_recovery_conflict a receipt db)" by (simp add: tables_ok_def aligned_def retain_recovery_conflict_def)
  then have al1: "aligned db1" unfolding db1 by (rule aligned_update) (simp_all add: keeps_keys_def)
  then have al2: "aligned db2" unfolding assms(7) mark_ingestion_error_def by (rule aligned_update) (simp_all add: keeps_keys_def)
  have ex: "q_experiments db2 = q_experiments db"
    by (simp add: assms(7) db1 mark_ingestion_error_def retain_recovery_conflict_def)
  have "mark_ingestion_complete a db1 = Inl ExplicitReconciliation"
    using f1 conflict_texts(1) by (simp add: mark_ingestion_complete_def in_conflict_def)
  moreover have "?r2 \<in> set (pending_ingestion db2)"
  proof -
    from assms(1,2) have "r \<in> set (q_attempts db)" "list_all2 (\<lambda>r e. at_experiment r = ex_id e \<and> at_status r = ex_status e) (q_attempts db) (q_experiments db)"
      by (auto simp: tables_ok_def aligned_def dest: find_attempt_Some)
    then have "at_experiment r \<in> ex_id ` set (q_experiments db)" by (auto dest: list_all2_memD1)
    with find_attempt_Some [OF f2] ex out(3) conflict_texts(2) show ?thesis
      by (simp add: pending_ingestion_def in_conflict_def del: append.simps append_Cons)
  qed
  moreover from this find_attempt_Some [OF assms(2)] have "a \<in> at_id ` set (pending_ingestion db2)"
    by (metis (no_types, lifting) attempt_row.select_convs(1) attempt_row.surjective attempt_row.update_convs(9,10) image_eqI)
  moreover have "\<exists>db3. mark_ingestion_complete a db2 = Inr db3 \<and> find_attempt db3 a = Some ?r3 \<and> resumable (at_run r) db3 = Inr ?r3"
  proof -
    let ?g = "\<lambda>r. if has_outcome r then r\<lparr>at_ingestion := INGESTED, at_error := None\<rparr> else r"
    have f3: "find_attempt (update_attempt a ?g db2) a = Some ?r3"
      using find_update [OF f2, of ?g] out(3) by (simp add: keeps_keys_def)
    have "aligned (update_attempt a ?g db2)" by (rule aligned_update [OF al2]) (simp_all add: keeps_keys_def)
    from run_of_attempt [OF this f3] have "attempt_by_run (update_attempt a ?g db2) (at_run r) = Some ?r3" by simp
    moreover from assms(1) find_attempt_Some [OF assms(2)] have "row_ok r" by (simp add: tables_ok_def)
    with assms(3) have "at_status r = UNKNOWN" by (auto simp: row_ok_def split: option.splits)
    ultimately have "resumable (at_run r) (update_attempt a ?g db2) = Inr ?r3"
      by (simp add: resumable_def active_states_def in_conflict_def)
    with f2 f3 conflict_texts(2) show ?thesis
      by (simp add: mark_ingestion_complete_def in_conflict_def del: append.simps append_Cons)
  qed
  ultimately show ?thesis by force
qed

section \<open>Samples\<close>

definition sample_spec :: scheduling_spec where
  "sample_spec = \<lparr>sp_digest = ''d'', sp_bundle = ''b'', sp_bound = None, sp_preferred = None\<rparr>"

definition sample_entries :: "queue_entry list" where
  "sample_entries = [\<lparr>en_experiment = ''e1'', en_attempt = ''a1'', en_run = ''r1'', en_spec = sample_spec\<rparr>,
     \<lparr>en_experiment = ''e2'', en_attempt = ''a2'', en_run = ''r2'', en_spec = sample_spec\<rparr>]"

definition sample_receipt :: "string \<Rightarrow> string \<Rightarrow> attempt_receipt" where
  "sample_receipt n state = \<lparr>rc_attempt = Some (''a'' @ n), rc_run = Some (''r'' @ n), rc_experiment = Some (''e'' @ n),
     rc_worker = Some ''w'', rc_spec = Some ''d'', rc_bundle = Some ''b'', rc_state = Some state, rc_acknowledged = False, rc_artifacts = []\<rparr>"

definition sample_capability :: capability where
  "sample_capability = \<lparr>cp_worker = ''w'', cp_name = ''n''\<rparr>"

text \<open>The first attempt runs to its end on the worker, then the second is assigned to it and cancelled.\<close>

definition sample_run :: "queue_op list" where
  "sample_run = [Enqueue 0 sample_entries, TakeLock 0, Choose 0 ''a1'' (\<lambda>_. Inr ()) [sample_capability], AssignChosen 0,
     Receive ''r1'' (sample_receipt ''1'' ''RUNNING''), Receive ''r1'' (sample_receipt ''1'' ''COMPLETE''),
     Choose 0 ''a2'' (\<lambda>_. Inr ()) [sample_capability], AssignChosen 0, ReleaseLock 0]"

definition sample_rows :: "attempt_row list" where
  "sample_rows = q_attempts (tables (run_queue (\<lambda>_. True) empty_queue sample_run))"

lemma sample_rows_eq: "map (\<lambda>r. (at_id r, at_run r, at_worker r, at_status r, at_terminal r, at_recovery r)) sample_rows
    = [(''a1'', ''r1'', Some ''w'', COMPLETE, Some (sample_receipt ''1'' ''COMPLETE''), None), (''a2'', ''r2'', Some ''w'', ASSIGNED, None, None)]"
  by code_simp

lemma sample_members: "\<exists>p q. sample_rows = [p, q] \<and> at_id p = ''a1'' \<and> at_id q = ''a2'' \<and> at_run q = ''r2'' \<and> at_worker p = Some ''w'' \<and> at_worker q = Some ''w''
    \<and> at_status p = COMPLETE \<and> at_status q = ASSIGNED \<and> at_terminal p = Some (sample_receipt ''1'' ''COMPLETE'') \<and> at_terminal q = None \<and> at_recovery p = None"
  using sample_rows_eq by (cases sample_rows rule: list.exhaust; cases "tl sample_rows" rule: list.exhaust) auto

lemma sample_locked: "locked_run (\<lambda>_. True) empty_queue sample_run"
  by code_simp

theorem worker_runs_one_attempt_witness:
  "\<exists>p q. sample_rows = [p, q] \<and> at_id p \<noteq> at_id q \<and> (at_terminal p \<noteq> None \<or> at_terminal q \<noteq> None)"
proof -
  from sample_members obtain p q where pq: "sample_rows = [p, q]" "at_id p = ''a1''" "at_id q = ''a2''" "at_worker p = Some ''w''" "at_worker q = Some ''w''"
    by blast
  have mem: "p \<in> set sample_rows" "q \<in> set sample_rows" "at_id p \<noteq> at_id q" unfolding pq by simp_all
  from worker_runs_one_attempt [OF sample_locked refl, of p q "''w''", folded sample_rows_def,
      OF mem(1,2) pq(4,5) mem(3)] pq(1) mem(3)
  show ?thesis by (intro exI [of _ p] exI [of _ q] conjI)
qed

definition sample_control :: control where
  "sample_control = run_queue (\<lambda>_. True) empty_queue sample_run"

lemma sample_control_ok: "control_ok sample_control"
  unfolding sample_control_def by (rule run_queue_ok [OF empty_queue_ok(1)])

text \<open>The first scheduler holds the lock, the second does not.\<close>

definition sample_waiting :: control where
  "sample_waiting = run_queue (\<lambda>_. True) empty_queue [Enqueue 0 sample_entries, TakeLock 0]"

theorem unlocked_schedulers_share_worker_witness:
  "\<exists>p q. find_attempt (tables (run_queue (\<lambda>_. True) sample_waiting [Choose 0 ''a1'' (\<lambda>_. Inr ()) [sample_capability],
       Choose 1 ''a2'' (\<lambda>_. Inr ()) [sample_capability], AssignChosen 0, AssignChosen 1])) ''a1'' = Some p
     \<and> find_attempt (tables (run_queue (\<lambda>_. True) sample_waiting [Choose 0 ''a1'' (\<lambda>_. Inr ()) [sample_capability],
       Choose 1 ''a2'' (\<lambda>_. Inr ()) [sample_capability], AssignChosen 0, AssignChosen 1])) ''a2'' = Some q
     \<and> at_worker p = Some ''w'' \<and> at_worker q = Some ''w'' \<and> at_status p = ASSIGNED \<and> at_status q = ASSIGNED"
proof -
  have al: "aligned (tables sample_waiting)"
    unfolding sample_waiting_def using run_queue_ok [OF empty_queue_ok(1)] by (simp add: control_ok_def tables_ok_def)
  have rows: "map_option (\<lambda>r. (at_status r, experiment_spec (tables sample_waiting) r)) (find_attempt (tables sample_waiting) ''a1'') = Some (QUEUED, Some sample_spec)"
    "map_option (\<lambda>r. (at_status r, experiment_spec (tables sample_waiting) r)) (find_attempt (tables sample_waiting) ''a2'') = Some (QUEUED, Some sample_spec)"
    unfolding sample_waiting_def by code_simp+
  have choice: "eligible_worker (attempts reconcilable_states (tables sample_waiting)) sample_spec (\<lambda>_. Inr ()) [sample_capability] = (Some sample_capability, None)"
    unfolding sample_waiting_def by code_simp
  from rows obtain r r' where r: "find_attempt (tables sample_waiting) ''a1'' = Some r" "at_status r = QUEUED" "experiment_spec (tables sample_waiting) r = Some sample_spec"
      and r': "find_attempt (tables sample_waiting) ''a2'' = Some r'" "at_status r' = QUEUED" "experiment_spec (tables sample_waiting) r' = Some sample_spec" by auto
  have w: "cp_worker sample_capability = ''w''" by (simp add: sample_capability_def)
  from unlocked_schedulers_share_worker [OF al _ _ r r' choice choice w w refl, of 0 1 "\<lambda>_. True"] show ?thesis by simp
qed

text \<open>A late receipt and a cancellation do not change the finished attempt.\<close>

theorem attempt_outcome_is_final_witness:
  "has_settled (''a1'', COMPLETE, Some (sample_receipt ''1'' ''COMPLETE''), None, Some ''w'')
     (tables (run_queue (\<lambda>_. True) sample_control [Receive ''r1'' (sample_receipt ''1'' ''FAILED''), Cancel ''r1'', Unreachable ''a1'' ''x'']))"
proof (rule attempt_outcome_is_final [OF sample_control_ok])
  from sample_members obtain p q where pq: "sample_rows = [p, q]" "at_id p = ''a1''" "at_status p = COMPLETE"
      "at_terminal p = Some (sample_receipt ''1'' ''COMPLETE'')" "at_recovery p = None" "at_worker p = Some ''w''" by blast
  have "p \<in> set sample_rows" "settled p" unfolding settled_def pq by simp_all
  then have "has_settled (at_id p, at_status p, at_terminal p, at_recovery p, at_worker p) (tables sample_control)"
    unfolding has_settled_def sample_control_def sample_rows_def by blast
  then show "has_settled (''a1'', COMPLETE, Some (sample_receipt ''1'' ''COMPLETE''), None, Some ''w'') (tables sample_control)"
    by (simp only: pq)
qed

theorem cancellation_persists_witness:
  "\<exists>db. cancel_pending ''a2'' (tables (run_queue (\<lambda>_. True) (sample_control\<lparr>tables := db\<rparr>)
     [Receive ''r2'' (sample_receipt ''2'' ''RUNNING''), Unreachable ''a2'' ''x'']))"
proof -
  have "\<exists>r st db. attempt_by_run (tables sample_control) ''r2'' = Some r \<and> at_id r = ''a2''
      \<and> request_cancel ''r2'' (tables sample_control) = Inr (st, db)"
  proof -
    have "map_option at_id (attempt_by_run (tables sample_control) ''r2'') = Some ''a2''"
      unfolding sample_control_def by code_simp
    then show ?thesis by (auto simp: request_cancel_def)
  qed
  then obtain r st db where r: "attempt_by_run (tables sample_control) ''r2'' = Some r" "at_id r = ''a2''"
      "request_cancel ''r2'' (tables sample_control) = Inr (st, db)" by blast
  from cancellation_persists [OF sample_control_ok r(3,1)] r(2) show ?thesis by auto
qed

definition sample_observation :: recovery_observation where
  "sample_observation = \<lparr>ro_reason = ''HOSTED_WORKER_LOST'', ro_commit = replicate 64 CHR ''a'', ro_confirmed = ''t'', ro_instance = ''i''\<rparr>"

text \<open>The second attempt is recovered, and then its worker reports that it finished.\<close>

definition sample_recovered :: control where
  "sample_recovered = run_queue (\<lambda>_. True) sample_control [Recover ''a2'' sample_observation ''w'' ''d'' ''b'']"

theorem refused_completion_erases_conflict_witness:
  "\<exists>db1. set_receipt ''a2'' (sample_receipt ''2'' ''COMPLETE'') COMPLETE (tables sample_recovered) = Inr db1
     \<and> mark_ingestion_complete ''a2'' db1 = Inl ExplicitReconciliation
     \<and> ''a2'' \<in> at_id ` set (pending_ingestion (mark_ingestion_error ''a2'' ''ValueError'' refusal db1))"
proof -
  have ok: "tables_ok (tables sample_recovered)"
    unfolding sample_recovered_def by (rule control_ok_tables [OF run_queue_ok [OF sample_control_ok]])
  have "map_option (\<lambda>r. at_recovery r = None) (find_attempt (tables sample_recovered) ''a2'') = Some False"
    unfolding sample_recovered_def sample_control_def by code_simp
  then obtain r where r: "find_attempt (tables sample_recovered) ''a2'' = Some r" "at_recovery r \<noteq> None" by auto
  have s: "rc_state (sample_receipt ''2'' ''COMPLETE'') = Some ''COMPLETE''" "''COMPLETE'' \<in> set terminal_receipt_states"
    by (simp_all add: sample_receipt_def terminal_receipt_states_def)
  have "safe_identifier ''a2''" by code_simp
  with r s have "\<exists>db1. set_receipt ''a2'' (sample_receipt ''2'' ''COMPLETE'') COMPLETE (tables sample_recovered) = Inr db1"
    by (simp add: set_receipt_def Let_def)
  then obtain db1 where db1: "set_receipt ''a2'' (sample_receipt ''2'' ''COMPLETE'') COMPLETE (tables sample_recovered) = Inr db1" ..
  from refused_completion_erases_conflict [OF ok r s db1 refl] db1 show ?thesis by blast
qed

end
