(* ===== verification/Host_Work.thy ===== *)
theory Host_Work
  imports Lab_Prelude Complex_Main
begin

text \<open>
  \<open>src/sparselab/host_capacity.py\<close>: the plan of a bounded number of workers from what is measured on the
  host, and the pool that runs independent tasks and returns their results in order.

  Measurements are arguments (\<open>None\<close> where the probe raises). The pool is a step relation: the consumer of the
  iterator, the executor's threads and the tasks take their steps in any order. The instruction-set probe only feeds reports and is left out.
\<close>

section \<open>Planning\<close>

record host_work_plan =
  hw_operation :: string
  hw_logical :: "int option"
  hw_physical :: "int option"
  hw_affinity :: "int option"
  hw_available :: "int option"
  hw_total :: "int option"
  hw_reserve :: int
  hw_worker_memory :: int
  hw_cap :: "int option"
  hw_workers :: int

datatype host_error = EmptyOperation | BoundsNotPositive | CapNotPositive | NoMeasuredRam | InadequateRam | NoWorkers

text \<open>What the probes answer: the logical and physical processors (one probe), the size of the affinity set, and the
  available and total memory.\<close>

record host_probe =
  probe_cpus :: "(int option \<times> int option) option"
  probe_affinity :: "int option"
  probe_memory :: "(int \<times> int) option"

definition SHA_WORKER_BYTES :: int where
  "SHA_WORKER_BYTES = 8 * 1024 * 1024"

definition positive_or_none :: "int option \<Rightarrow> int option" where
  "positive_or_none v = (case v of None \<Rightarrow> None | Some n \<Rightarrow> if 0 < n then Some n else None)"

definition measured_available :: "host_probe \<Rightarrow> int option" where
  "measured_available h = (case probe_memory h of None \<Rightarrow> None
     | Some (available, ram) \<Rightarrow> if available = 0 then Some 0 else positive_or_none (Some available))"

definition known_cpus :: "int option \<Rightarrow> int option \<Rightarrow> int option \<Rightarrow> int list" where
  "known_cpus affinity physical logical =
     List.map_filter id [affinity, case physical of None \<Rightarrow> logical | Some p \<Rightarrow> Some p]"

definition plan_host_workers :: "host_probe \<Rightarrow> string \<Rightarrow> int \<Rightarrow> int \<Rightarrow> int option \<Rightarrow> host_error + host_work_plan" where
  "plan_host_workers h operation worker_memory reserve cap =
     (if operation = [] then Inl EmptyOperation
      else if \<not> 0 < worker_memory \<or> \<not> 0 < reserve then Inl BoundsNotPositive
      else if (case cap of None \<Rightarrow> False | Some c \<Rightarrow> \<not> 0 < c) then Inl CapNotPositive
      else
        let logical = (case probe_cpus h of None \<Rightarrow> None | Some (l, p) \<Rightarrow> positive_or_none l);
            physical = (case probe_cpus h of None \<Rightarrow> None | Some (l, p) \<Rightarrow> positive_or_none p);
            affinity = positive_or_none (probe_affinity h);
            available = measured_available h;
            cpus = known_cpus affinity physical logical;
            cpu_bound = (if cpus = [] then 1 else Min (set cpus));
            plan = (\<lambda>workers. \<lparr>hw_operation = operation, hw_logical = logical, hw_physical = physical, hw_affinity = affinity,
              hw_available = available, hw_total = (case probe_memory h of None \<Rightarrow> None | Some (a, t) \<Rightarrow> positive_or_none (Some t)),
              hw_reserve = reserve, hw_worker_memory = worker_memory, hw_cap = cap, hw_workers = workers\<rparr>)
        in case available of
          None \<Rightarrow> if operation \<noteq> ''sha256'' \<or> SHA_WORKER_BYTES < worker_memory then Inl NoMeasuredRam else Inr (plan 1)
        | Some a \<Rightarrow>
            let memory_bound = (a - reserve) div worker_memory
            in if memory_bound < 1 then Inl InadequateRam
               else Inr (plan (min cpu_bound (min memory_bound (case cap of None \<Rightarrow> cpu_bound | Some c \<Rightarrow> c)))))"

definition sha_work_plan :: "host_probe \<Rightarrow> int \<Rightarrow> host_error + host_work_plan" where
  "sha_work_plan h cap =
     (let ram = (case probe_memory h of None \<Rightarrow> 0 | Some (a, t) \<Rightarrow> if 0 < t then t else 0)
      in plan_host_workers h ''sha256'' SHA_WORKER_BYTES (max (1024 ^ 3) (ram div 10)) (Some cap))"

definition within_host :: "host_probe \<Rightarrow> int \<Rightarrow> int \<Rightarrow> int option \<Rightarrow> int \<Rightarrow> bool" where
  "within_host h worker_memory reserve cap n \<longleftrightarrow> 1 \<le> n
     \<and> (\<forall>c. cap = Some c \<longrightarrow> n \<le> c)
     \<and> (\<forall>a. probe_affinity h = Some a \<longrightarrow> 0 < a \<longrightarrow> n \<le> a)
     \<and> (\<forall>l p. probe_cpus h = Some (l, Some p) \<longrightarrow> 0 < p \<longrightarrow> n \<le> p)
     \<and> (\<forall>l p. probe_cpus h = Some (Some l, p) \<longrightarrow> 0 < l \<longrightarrow> positive_or_none p = None \<longrightarrow> n \<le> l)
     \<and> (\<forall>a t. probe_memory h = Some (a, t) \<longrightarrow> 0 \<le> a \<longrightarrow> reserve + n * worker_memory \<le> a)"

lemma known_cpus_set: "set (known_cpus a p l) = (case a of None \<Rightarrow> {} | Some n \<Rightarrow> {n})
    \<union> (case p of Some n \<Rightarrow> {n} | None \<Rightarrow> (case l of None \<Rightarrow> {} | Some n \<Rightarrow> {n}))"
  by (auto simp: known_cpus_def map_filter_simps split: option.splits)

lemma positive_or_none_Some: "positive_or_none v = Some n \<longleftrightarrow> v = Some n \<and> 0 < n"
  by (cases v) (auto simp: positive_or_none_def)

lemma memory_fits: "0 < (m :: int) \<Longrightarrow> n \<le> (a - r) div m \<longleftrightarrow> r + n * m \<le> a"
proof -
  assume m: "0 < m"
  define q where "q = (a - r) div m"
  from m have k: "(a - r) mod m < m" "0 \<le> (a - r) mod m" "a - r = q * m + (a - r) mod m" by (simp_all add: q_def)
  have "n * m \<le> q * m" if "n \<le> q" using that m by simp
  moreover have "q * m + m \<le> n * m" if "q < n"
    using mult_right_mono [of "q + 1" n m] that m by (simp add: distrib_right)
  ultimately show ?thesis unfolding q_def [symmetric] using k by linarith
qed

text \<open>
  Work is planned within the host. With positive bounds a plan has at least one worker and no more than the cap, the
  affinity set, the physical processors (the logical ones if those are unknown) and the memory left after the reserve allow; it is
  refused only where one worker is too many for the measured memory, or where memory is unknown and the work is not the small hashing kind.
\<close>

theorem plan_within_host:
  assumes "operation \<noteq> []" and "0 < m" and "0 < r" and "\<forall>c. cap = Some c \<longrightarrow> 0 < c" and "\<forall>a t. probe_memory h = Some (a, t) \<longrightarrow> 0 \<le> a"
  shows "case plan_host_workers h operation m r cap of
      Inr plan \<Rightarrow> within_host h m r cap (hw_workers plan)
    | Inl e \<Rightarrow> (case probe_memory h of Some (a, t) \<Rightarrow> a < r + m | None \<Rightarrow> operation \<noteq> ''sha256'' \<or> SHA_WORKER_BYTES < m)"
proof -
  let ?l = "case probe_cpus h of None \<Rightarrow> None | Some (l, p) \<Rightarrow> positive_or_none l"
  let ?p = "case probe_cpus h of None \<Rightarrow> None | Some (l, p) \<Rightarrow> positive_or_none p"
  let ?cpus = "known_cpus (positive_or_none (probe_affinity h)) ?p ?l"
  define cpu where "cpu = (if ?cpus = [] then 1 else Min (set ?cpus))"
  have pos: "\<forall>c \<in> set ?cpus. 1 \<le> c"
    by (auto simp: known_cpus_set positive_or_none_def split: option.splits if_splits)
  then have cpu: "1 \<le> cpu" "\<forall>c \<in> set ?cpus. cpu \<le> c" by (auto simp: cpu_def)
  have within: "within_host h m r cap n"
    if n: "1 \<le> n" "n \<le> cpu" "\<forall>c. cap = Some c \<longrightarrow> n \<le> c" "\<forall>a t. probe_memory h = Some (a, t) \<longrightarrow> 0 \<le> a \<longrightarrow> r + n * m \<le> a" for n
  proof -
    have "n \<le> c" if "c \<in> set ?cpus" for c using that cpu(2) n(2) by fastforce
    with n show ?thesis
      by (auto simp: within_host_def known_cpus_set positive_or_none_def)
  qed
  show ?thesis
  proof (cases "probe_memory h")
    case None
    with assms(1-4) within [of 1] cpu(1) show ?thesis
      by (auto simp: plan_host_workers_def Let_def measured_available_def split: option.split)
  next
    case (Some am)
    obtain a t where "am = (a, t)" by (cases am)
    with Some have mem: "probe_memory h = Some (a, t)" by simp
    with assms(5) have a: "0 \<le> a" "measured_available h = Some a"
      by (auto simp: measured_available_def positive_or_none_def)
    let ?b = "(a - r) div m" and ?c = "case cap of None \<Rightarrow> cpu | Some c \<Rightarrow> c"
    have fits: "n \<le> ?b \<longleftrightarrow> r + n * m \<le> a" for n by (rule memory_fits [OF assms(2)])
    show ?thesis
    proof (cases "?b < 1")
      case True
      with fits [of 1] have "a < r + m" by simp
      with True assms(1-4) mem a(2) show ?thesis
        by (auto simp: plan_host_workers_def Let_def split: option.split)
    next
      case False
      let ?n = "min cpu (min ?b ?c)"
      have "within_host h m r cap ?n"
        by (rule within) (use False cpu(1) assms(4) mem fits [of ?n] in \<open>auto split: option.splits\<close>)
      moreover have "\<exists>plan. plan_host_workers h operation m r cap = Inr plan \<and> hw_workers plan = ?n"
      proof -
        have "(case cap of None \<Rightarrow> False | Some c \<Rightarrow> \<not> 0 < c) = False" using assms(4) by (simp split: option.split)
        then show ?thesis
          unfolding plan_host_workers_def Let_def cpu_def [symmetric] a(2) option.case
          by (simp only: assms(1-3) False if_False simp_thms sum.inject) (simp add: cpu_def)
      qed
      ultimately show ?thesis by auto
    qed
  qed
qed

definition sample_host :: host_probe where
  "sample_host = \<lparr>probe_cpus = Some (Some 16, Some 8), probe_affinity = Some 4, probe_memory = Some (100, 200)\<rparr>"

theorem plan_within_host_witness:
  "case plan_host_workers sample_host ''pack'' 30 10 (Some 6) of
      Inr plan \<Rightarrow> hw_workers plan = 3 \<and> within_host sample_host 30 10 (Some 6) (hw_workers plan) | Inl e \<Rightarrow> False"
proof -
  have "case plan_host_workers sample_host ''pack'' 30 10 (Some 6) of Inr plan \<Rightarrow> hw_workers plan = 3 | Inl e \<Rightarrow> False"
    by (simp add: plan_host_workers_def sample_host_def measured_available_def positive_or_none_def known_cpus_def map_filter_simps)
  moreover from plan_within_host [of "''pack''" 30 10 "Some 6" sample_host]
  have "case plan_host_workers sample_host ''pack'' 30 10 (Some 6) of
      Inr plan \<Rightarrow> within_host sample_host 30 10 (Some 6) (hw_workers plan)
    | Inl e \<Rightarrow> (case probe_memory sample_host of Some (a, t) \<Rightarrow> a < 10 + 30 | None \<Rightarrow> ''pack'' \<noteq> ''sha256'' \<or> SHA_WORKER_BYTES < 30)"
    by (simp add: sample_host_def)
  ultimately show ?thesis by (auto split: sum.splits)
qed

section \<open>The ordered pool\<close>

text \<open>
  \<open>run_ordered\<close> with more than one worker. \<open>outstanding\<close> are the submitted tasks in their order; its head is the
  one whose result is awaited (the code takes it off the deque before it waits). The generator fills the pool, waits for the
  first task, hands its result over and is suspended until the consumer resumes or closes it. The executor starts
  waiting tasks first in first out, at most as many as there are threads, and they finish in any order. On any
  way out the waiting tasks are cancelled and the running ones joined.
\<close>

datatype task_state = Waiting | Working | Finished | Dropped

datatype 'e outcome_kind = Exhausted | Raised 'e | Abandoned

datatype 'e pool_phase = Filling | Awaiting | Suspended | Closing "'e outcome_kind" | Closed "'e outcome_kind"

record ('a, 'b, 'e) pool =
  items_left :: "'a list"
  outstanding :: "('a \<times> task_state) list"
  delivered :: "'b list"
  phase :: "'e pool_phase"

definition new_pool :: "'a list \<Rightarrow> ('a, 'b, 'e) pool" where
  "new_pool items = \<lparr>items_left = items, outstanding = [], delivered = [], phase = Filling\<rparr>"

definition set_task :: "nat \<Rightarrow> task_state \<Rightarrow> ('a, 'b, 'e) pool \<Rightarrow> ('a, 'b, 'e) pool" where
  "set_task i st p = p\<lparr>outstanding := (outstanding p)[i := (fst (outstanding p ! i), st)]\<rparr>"

definition submit :: "('a, 'b, 'e) pool \<Rightarrow> ('a, 'b, 'e) pool" where
  "submit p = (case items_left p of [] \<Rightarrow> p
     | x # xs \<Rightarrow> p\<lparr>items_left := xs, outstanding := outstanding p @ [(x, Waiting)]\<rparr>)"

definition working :: "('a, 'b, 'e) pool \<Rightarrow> nat" where
  "working p = length (filter (\<lambda>t. snd t = Working) (outstanding p))"

definition idle_tasks :: "('a, 'b, 'e) pool \<Rightarrow> bool" where
  "idle_tasks p \<longleftrightarrow> list_all (\<lambda>t. snd t \<noteq> Waiting \<and> snd t \<noteq> Working) (outstanding p)"

inductive pool_step :: "nat \<Rightarrow> ('a \<Rightarrow> 'e + 'b) \<Rightarrow> ('a, 'b, 'e) pool \<Rightarrow> ('a, 'b, 'e) pool \<Rightarrow> bool" for workers f where
  fill: "phase p = Filling \<Longrightarrow> length (outstanding p) < workers \<Longrightarrow> items_left p \<noteq> [] \<Longrightarrow> pool_step workers f p (submit p)"
| filled: "phase p = Filling \<Longrightarrow> length (outstanding p) = workers \<or> items_left p = [] \<Longrightarrow> pool_step workers f p (p\<lparr>phase := Awaiting\<rparr>)"
| start: "i < length (outstanding p) \<Longrightarrow> snd (outstanding p ! i) = Waiting \<Longrightarrow> \<forall>j < i. snd (outstanding p ! j) \<noteq> Waiting
    \<Longrightarrow> working p < workers \<Longrightarrow> pool_step workers f p (set_task i Working p)"
| finish: "i < length (outstanding p) \<Longrightarrow> snd (outstanding p ! i) = Working \<Longrightarrow> pool_step workers f p (set_task i Finished p)"
| deliver: "phase p = Awaiting \<Longrightarrow> outstanding p = (x, Finished) # ts \<Longrightarrow> f x = Inr y
    \<Longrightarrow> pool_step workers f p (p\<lparr>outstanding := ts, delivered := delivered p @ [y], phase := Suspended\<rparr>)"
| fail: "phase p = Awaiting \<Longrightarrow> outstanding p = (x, Finished) # ts \<Longrightarrow> f x = Inl e
    \<Longrightarrow> pool_step workers f p (p\<lparr>phase := Closing (Raised e)\<rparr>)"
| exhaust: "phase p = Awaiting \<Longrightarrow> outstanding p = [] \<Longrightarrow> pool_step workers f p (p\<lparr>phase := Closing Exhausted\<rparr>)"
| resume: "phase p = Suspended \<Longrightarrow> pool_step workers f p ((submit p)\<lparr>phase := Awaiting\<rparr>)"
| close: "phase p = Suspended \<Longrightarrow> pool_step workers f p (p\<lparr>phase := Closing Abandoned\<rparr>)"
| drop: "phase p = Closing out \<Longrightarrow> i < length (outstanding p) \<Longrightarrow> snd (outstanding p ! i) = Waiting
    \<Longrightarrow> pool_step workers f p (set_task i Dropped p)"
| closed: "phase p = Closing out \<Longrightarrow> idle_tasks p \<Longrightarrow> pool_step workers f p (p\<lparr>phase := Closed out\<rparr>)"

text \<open>The branch for a single worker: each result in turn, up to the first error.\<close>

fun run_serially :: "('a \<Rightarrow> 'e + 'b) \<Rightarrow> 'a list \<Rightarrow> 'b list \<times> 'e outcome_kind" where
  "run_serially f [] = ([], Exhausted)"
| "run_serially f (x # xs) = (case f x of Inl e \<Rightarrow> ([], Raised e)
     | Inr y \<Rightarrow> (let (ys, out) = run_serially f xs in (y # ys, out)))"

section \<open>What the pool delivers\<close>

definition idle_when_closed :: "('a, 'b, 'e) pool \<Rightarrow> bool" where
  "idle_when_closed p \<longleftrightarrow> (case phase p of Closed out \<Rightarrow> idle_tasks p | _ \<Rightarrow> True)"

text \<open>How the way out is justified by the results; and the items as delivered, outstanding and left ones.\<close>

definition justified :: "('a \<Rightarrow> 'e + 'b) \<Rightarrow> 'a list \<Rightarrow> 'e pool_phase \<Rightarrow> 'b list \<Rightarrow> bool" where
  "justified f items ph ys \<longleftrightarrow> (\<forall>out. ph = Closing out \<or> ph = Closed out \<longrightarrow>
     (case out of Exhausted \<Rightarrow> length ys = length items
      | Raised e \<Rightarrow> length ys < length items \<and> f (items ! length ys) = Inl e
      | Abandoned \<Rightarrow> True))"

definition split_items :: "('a \<Rightarrow> 'e + 'b) \<Rightarrow> 'a list \<Rightarrow> 'b list \<Rightarrow> 'a list \<Rightarrow> bool" where
  "split_items f items ys rest \<longleftrightarrow> (\<exists>got. items = got @ rest \<and> map f got = map Inr ys)"

definition full_enough :: "nat \<Rightarrow> 'e pool_phase \<Rightarrow> nat \<Rightarrow> 'a list \<Rightarrow> bool" where
  "full_enough workers ph n left \<longleftrightarrow> n \<le> workers
     \<and> (ph = Awaiting \<longrightarrow> left = [] \<or> n = workers)
     \<and> (ph = Suspended \<longrightarrow> n < workers \<and> (left = [] \<or> n = workers - 1))"

definition none_dropped :: "('a, 'b, 'e) pool \<Rightarrow> bool" where
  "none_dropped p \<longleftrightarrow> phase p \<in> {Filling, Awaiting, Suspended} \<longrightarrow> Dropped \<notin> snd ` set (outstanding p)"

definition pool_ok :: "nat \<Rightarrow> ('a \<Rightarrow> 'e + 'b) \<Rightarrow> 'a list \<Rightarrow> ('a, 'b, 'e) pool \<Rightarrow> bool" where
  "pool_ok workers f items p \<longleftrightarrow> 0 < workers
     \<and> split_items f items (delivered p) (map fst (outstanding p) @ items_left p)
     \<and> full_enough workers (phase p) (length (outstanding p)) (items_left p)
     \<and> idle_when_closed p \<and> none_dropped p \<and> justified f items (phase p) (delivered p)"

lemma set_task_simps [simp]:
  "items_left (set_task i st p) = items_left p" "delivered (set_task i st p) = delivered p" "phase (set_task i st p) = phase p"
  "length (outstanding (set_task i st p)) = length (outstanding p)"
  by (simp_all add: set_task_def)

lemma set_task_items [simp]: "map fst (outstanding (set_task i st p)) = map fst (outstanding p)"
  using list_update_id [of "map fst (outstanding p)" i]
  by (cases "i < length (outstanding p)") (simp_all add: set_task_def map_update list_update_beyond)

lemma working_le: "working p \<le> length (outstanding p)"
  by (simp add: working_def)

lemma submit_simps [simp]:
  "items_left (submit p) = tl (items_left p)"
  "delivered (submit p) = delivered p" "phase (submit p) = phase p"
  "map fst (outstanding (submit p)) @ tl (items_left p) = map fst (outstanding p) @ items_left p"
  "length (outstanding (submit p)) = length (outstanding p) + (if items_left p = [] then 0 else 1)"
  by (cases "items_left p"; simp add: submit_def)+

lemma pool_ok_new: "0 < workers \<Longrightarrow> pool_ok workers f items (new_pool items)"
  by (simp add: pool_ok_def new_pool_def split_items_def full_enough_def idle_when_closed_def none_dropped_def justified_def)

lemma idle_set_task:
  assumes "i < length (outstanding p)" and "snd (outstanding p ! i) = Waiting \<or> snd (outstanding p ! i) = Working"
  shows "\<not> idle_tasks p"
  using assms by (auto simp: idle_tasks_def list_all_length)

lemma task_step_ok:
  assumes "pool_ok workers f items p" and "i < length (outstanding p)"
    and "snd (outstanding p ! i) = Waiting \<or> snd (outstanding p ! i) = Working"
    and "st = Dropped \<Longrightarrow> phase p \<notin> {Filling, Awaiting, Suspended}"
  shows "pool_ok workers f items (set_task i st p)"
proof -
  from assms(1,4) have "none_dropped (set_task i st p)"
    by (auto simp: pool_ok_def none_dropped_def set_task_def dest!: set_update_subset_insert [THEN subsetD])
  moreover from idle_set_task [OF assms(2,3)] assms(1) have "idle_when_closed (set_task i st p)"
    by (simp add: pool_ok_def idle_when_closed_def split: pool_phase.splits)
  ultimately show ?thesis using assms(1) by (simp add: pool_ok_def)
qed

lemma submit_undropped: "Dropped \<in> snd ` set (outstanding (submit p)) \<longleftrightarrow> Dropped \<in> snd ` set (outstanding p)"
  by (cases "items_left p") (auto simp: submit_def)

lemma split_items_length: "split_items f items ys rest \<Longrightarrow> length items = length ys + length rest"
  by (auto simp: split_items_def dest: map_eq_imp_length_eq)

lemma split_items_head:
  assumes "split_items f items ys (x # rest)"
  shows "items ! length ys = x" and "length ys < length items" and "f x = Inr y \<Longrightarrow> split_items f items (ys @ [y]) rest"
proof -
  from assms obtain got where got: "items = got @ x # rest" "map f got = map Inr ys" by (auto simp: split_items_def)
  from map_eq_imp_length_eq [OF got(2)] have "length got = length ys" by simp
  with got(1) show "items ! length ys = x" "length ys < length items" by (simp_all add: nth_append)
  show "split_items f items (ys @ [y]) rest" if "f x = Inr y"
    unfolding split_items_def by (rule exI [of _ "got @ [x]"]) (use got that in simp)
qed

lemmas pool_defs = pool_ok_def full_enough_def idle_when_closed_def none_dropped_def justified_def

lemma pool_step_ok:
  assumes "pool_step workers f p q" and "pool_ok workers f items p"
  shows "pool_ok workers f items q"
  using assms
proof (cases rule: pool_step.cases)
  case fill
  with assms(2) submit_undropped [of p] show ?thesis by (simp add: pool_defs)
next
  case filled
  with assms(2) show ?thesis by (auto simp: pool_defs)
next
  case (start i)
  then show ?thesis using task_step_ok [OF assms(2), of i Working] by simp
next
  case (finish i)
  then show ?thesis using task_step_ok [OF assms(2), of i Finished] by simp
next
  case (drop out i)
  then show ?thesis using task_step_ok [OF assms(2), of i Dropped] by simp
next
  case (deliver x ts y)
  with assms(2) have "split_items f items (delivered p) (x # map fst ts @ items_left p)" by (simp add: pool_ok_def)
  from split_items_head(3) [OF this deliver(4)] deliver assms(2) show ?thesis by (auto simp: pool_defs)
next
  case (fail x ts e)
  with assms(2) have "split_items f items (delivered p) (x # map fst ts @ items_left p)" by (simp add: pool_ok_def)
  from split_items_head(1,2) [OF this] fail assms(2) show ?thesis by (simp add: pool_defs)
next
  case exhaust
  with assms(2) have "items_left p = []" by (auto simp: pool_defs)
  with exhaust assms(2) have "length (delivered p) = length items"
    using split_items_length [of f items "delivered p" "[]"] by (simp add: pool_ok_def)
  with exhaust assms(2) show ?thesis by (simp add: pool_defs)
next
  case resume
  with assms(2) submit_undropped [of p] show ?thesis by (auto simp: pool_defs)
next
  case close
  with assms(2) show ?thesis by (simp add: pool_defs)
next
  case (closed out)
  with assms(2) show ?thesis by (simp add: pool_defs idle_tasks_def)
qed

text \<open>The serial run, read off the same splitting of the items.\<close>

lemma serial_append: "map f got = map Inr ys \<Longrightarrow> run_serially f (got @ rest) = (let (zs, out) = run_serially f rest in (ys @ zs, out))"
proof (induction got arbitrary: ys)
  case (Cons x got)
  then obtain y ys' where ys: "ys = y # ys'" "f x = Inr y" "map f got = map Inr ys'" by (cases ys) auto
  with Cons.IH [OF ys(3)] show ?case by (simp add: Let_def split: prod.split)
qed simp

lemma closed_serially:
  assumes "pool_ok workers f items p" and "phase p = Closed out" and "out \<noteq> Abandoned"
  shows "run_serially f items = (delivered p, out)"
proof -
  let ?rest = "map fst (outstanding p) @ items_left p"
  from assms(1) obtain got where got: "items = got @ ?rest" "map f got = map Inr (delivered p)"
    by (auto simp: pool_ok_def split_items_def)
  from map_eq_imp_length_eq [OF got(2)] have len: "length got = length (delivered p)" by simp
  show ?thesis
  proof (cases out)
    case Exhausted
    with assms(1,2) have "length (delivered p) = length items" by (simp add: pool_ok_def justified_def)
    with got(1) len have "?rest = []" by simp
    then show ?thesis unfolding got(1) serial_append [OF got(2)] by (simp add: Exhausted)
  next
    case (Raised e)
    with assms(1,2) have e: "length (delivered p) < length items" "f (items ! length (delivered p)) = Inl e"
      by (simp_all add: pool_ok_def justified_def)
    from e(1) got(1) len obtain x xs where rest: "?rest = x # xs" by (cases ?rest) auto
    with e(2) got(1) len have "f x = Inl e" by (metis nth_append_length)
    then show ?thesis unfolding got(1) serial_append [OF got(2)] rest by (simp add: Raised)
  qed (use assms(3) in simp)
qed

abbreviation pool_reaches :: "nat \<Rightarrow> ('a \<Rightarrow> 'e + 'b) \<Rightarrow> ('a, 'b, 'e) pool \<Rightarrow> ('a, 'b, 'e) pool \<Rightarrow> bool" where
  "pool_reaches workers f \<equiv> (pool_step workers f)\<^sup>*\<^sup>*"

lemma pool_reaches_ok:
  assumes "pool_reaches workers f (new_pool items) p" and "0 < workers"
  shows "pool_ok workers f items p"
  using assms(1) by (induction rule: rtranclp_induct) (simp_all add: pool_ok_new assms(2) pool_step_ok)

text \<open>
  C10. The pool is the serial loop. However the threads interleave, the delivered results are those of the first
  items in their order, at most as many items are outstanding as there are workers, and they are the next ones; when the
  iterator has ended by itself, it delivered exactly what the serial loop delivers and ended as it
  ends, by exhaustion or with the first error in input order, and no task is waiting or running any more.
\<close>

theorem pool_is_serial:
  assumes "pool_reaches workers f (new_pool items) p" and "0 < workers"
  shows "map f (take (length (delivered p)) items) = map Inr (delivered p)
    \<and> map fst (outstanding p) = take (length (outstanding p)) (drop (length (delivered p)) items)
    \<and> length (outstanding p) \<le> workers
    \<and> (\<forall>out. phase p = Closed out \<longrightarrow> idle_tasks p \<and> (out = Abandoned \<or> run_serially f items = (delivered p, out)))"
proof -
  note ok = pool_reaches_ok [OF assms]
  from ok obtain got where got: "items = got @ map fst (outstanding p) @ items_left p" "map f got = map Inr (delivered p)"
    by (auto simp: pool_ok_def split_items_def)
  from map_eq_imp_length_eq [OF got(2)] have len: "length got = length (delivered p)" by simp
  have "map f (take (length (delivered p)) items) = map Inr (delivered p)"
    "map fst (outstanding p) = take (length (outstanding p)) (drop (length (delivered p)) items)"
    using got len by simp_all
  with ok closed_serially [OF ok] show ?thesis by (auto simp: pool_ok_def full_enough_def idle_when_closed_def)
qed

definition task_weight :: "task_state \<Rightarrow> nat" where
  "task_weight st = (case st of Waiting \<Rightarrow> 2 | Working \<Rightarrow> 1 | _ \<Rightarrow> 0)"

definition pool_weight :: "('a, 'b, 'e) pool \<Rightarrow> nat" where
  "pool_weight p = 6 * length (items_left p) + sum_list (map (\<lambda>t. 3 + task_weight (snd t)) (outstanding p))
     + (case phase p of Filling \<Rightarrow> 3 | Suspended \<Rightarrow> 3 | Awaiting \<Rightarrow> 2 | Closing out \<Rightarrow> 1 | Closed out \<Rightarrow> 0)"

lemma weight_set_task:
  assumes "i < length (outstanding p)" and "task_weight st < task_weight (snd (outstanding p ! i))"
  shows "pool_weight (set_task i st p) < pool_weight p"
proof -
  let ?w = "\<lambda>t. 3 + task_weight (snd t)"
  have "sum_list (map ?w (xs[i := (fst (xs ! i), st)])) < sum_list (map ?w xs)"
    if "i < length xs" "task_weight st < task_weight (snd (xs ! i))" for xs :: "('a \<times> task_state) list"
    using that by (induction xs arbitrary: i) (auto split: nat.splits)
  from this [OF assms] show ?thesis by (simp add: pool_weight_def set_task_def)
qed

lemma weight_submit: "items_left p \<noteq> [] \<Longrightarrow> pool_weight (submit p) < pool_weight p"
  by (cases "items_left p") (simp_all add: submit_def pool_weight_def task_weight_def)

lemma weight_resume: "phase p = Suspended \<Longrightarrow> pool_weight ((submit p)\<lparr>phase := Awaiting\<rparr>) < pool_weight p"
  by (cases "items_left p") (simp_all add: submit_def pool_weight_def task_weight_def)

lemma pool_step_weight: "pool_step workers f p q \<Longrightarrow> pool_weight q < pool_weight p"
proof (induction rule: pool_step.induct)
  case (fill p)
  then show ?case by (simp add: weight_submit)
next
  case (start i p)
  then show ?case by (intro weight_set_task) (simp_all add: task_weight_def)
next
  case (finish i p)
  then show ?case by (intro weight_set_task) (simp_all add: task_weight_def)
next
  case (drop p out i)
  then show ?case by (intro weight_set_task) (simp_all add: task_weight_def)
next
  case (resume p)
  then show ?case by (rule weight_resume)
qed (simp_all add: pool_weight_def)

text \<open>Steps that do not need the consumer.\<close>

lemma pool_progress:
  assumes "pool_ok workers f items p" and "phase p \<noteq> Suspended" and "\<forall>out. phase p \<noteq> Closed out"
  shows "\<exists>q. pool_step workers f p q"
proof (cases "idle_tasks p")
  case False
  then obtain i where i: "i < length (outstanding p)" "snd (outstanding p ! i) = Waiting \<or> snd (outstanding p ! i) = Working"
    by (auto simp: idle_tasks_def list_all_length)
  show ?thesis
  proof (cases "\<exists>i < length (outstanding p). snd (outstanding p ! i) = Working")
    case True
    then show ?thesis using pool_step.finish by blast
  next
    case none: False
    with i have some: "\<exists>i. i < length (outstanding p) \<and> snd (outstanding p ! i) = Waiting" by blast
    obtain k where k: "k < length (outstanding p)" "snd (outstanding p ! k) = Waiting"
        "\<forall>j < k. \<not> (j < length (outstanding p) \<and> snd (outstanding p ! j) = Waiting)"
      using exists_least_iff [THEN iffD1, OF some] by blast
    from none have "working p = 0" by (force simp: working_def filter_empty_conv in_set_conv_nth)
    with assms(1) have "working p < workers" by (simp add: pool_ok_def)
    with k pool_step.start [of k p workers f] show ?thesis by (metis order.strict_trans)
  qed
next
  case True
  show ?thesis
  proof (cases "phase p")
    case Filling
    then show ?thesis
      using pool_step.fill [of p workers f] pool_step.filled [of p workers f] assms(1)
      by (metis full_enough_def le_neq_implies_less pool_ok_def)
  next
    case Awaiting
    show ?thesis
    proof (cases "outstanding p")
      case Nil
      with Awaiting show ?thesis using pool_step.exhaust by blast
    next
      case (Cons t ts)
      obtain x st where t: "t = (x, st)" by (cases t)
      from assms(1) Awaiting True Cons t have "st = Finished"
        by (cases st) (auto simp: pool_ok_def none_dropped_def idle_tasks_def)
      with Cons t have head: "outstanding p = (x, Finished) # ts" by simp
      show ?thesis
      proof (cases "f x")
        case (Inl e)
        from pool_step.fail [where workers = workers, where f = f, OF Awaiting head Inl] show ?thesis by blast
      next
        case (Inr y)
        from pool_step.deliver [where workers = workers, where f = f, OF Awaiting head Inr] show ?thesis by blast
      qed
    qed
  next
    case (Closing out)
    with True show ?thesis using pool_step.closed by blast
  qed (use assms in auto)
qed

text \<open>
  C39. The pool never hangs. Every run of steps is finite; a pool that can make no step without its consumer is either waiting
  for the consumer, which can resume or close it, or closed. So if every task returns and the consumer keeps asking, the
  iterator ends.
\<close>

theorem pool_never_hangs:
  assumes "0 < workers"
  shows "wfP (\<lambda>q p. pool_reaches workers f (new_pool items) p \<and> pool_step workers f p q)
    \<and> (\<forall>p. pool_reaches workers f (new_pool items) p \<longrightarrow> (\<exists>q. pool_step workers f p q) \<or> (\<exists>out. phase p = Closed out))
    \<and> (\<forall>p. pool_reaches workers f (new_pool items) p \<and> phase p = Suspended \<longrightarrow>
         pool_step workers f p ((submit p)\<lparr>phase := Awaiting\<rparr>) \<and> pool_step workers f p (p\<lparr>phase := Closing Abandoned\<rparr>))"
proof (intro conjI allI impI)
  show "wfP (\<lambda>q p. pool_reaches workers f (new_pool items) p \<and> pool_step workers f p q)"
    by (rule wfp_if_convertible_to_nat [where f = pool_weight]) (use pool_step_weight in blast)
  fix p assume p: "pool_reaches workers f (new_pool items) p"
  show "(\<exists>q. pool_step workers f p q) \<or> (\<exists>out. phase p = Closed out)"
    using pool_progress [OF pool_reaches_ok [OF p assms]] pool_step.resume [of p workers f] by blast
next
  fix p assume "pool_reaches workers f (new_pool items) p \<and> phase p = Suspended"
  then show "pool_step workers f p ((submit p)\<lparr>phase := Awaiting\<rparr>)" "pool_step workers f p (p\<lparr>phase := Closing Abandoned\<rparr>)"
    by (simp_all add: pool_step.resume pool_step.close)
qed

text \<open>Two workers, two items; the second task finishes first.\<close>

definition sample_task :: "nat \<Rightarrow> string + nat" where
  "sample_task n = (if n = 0 then Inl ''zero'' else Inr (n + 1))"

abbreviation sample_pool :: "(nat \<times> task_state) list \<Rightarrow> nat list \<Rightarrow> nat list \<Rightarrow> string pool_phase \<Rightarrow> (nat, nat, string) pool" where
  "sample_pool out left ys ph \<equiv> \<lparr>items_left = left, outstanding = out, delivered = ys, phase = ph\<rparr>"

lemma sample_pool_run:
  "pool_reaches 2 sample_task (new_pool [5, 0]) (sample_pool [(0, Finished)] [] [6] (Closed (Raised ''zero'')))"
proof -
  let ?step = "pool_step 2 sample_task"
  note d = submit_def set_task_def working_def idle_tasks_def sample_task_def
  have "?step (new_pool [5, 0]) (sample_pool [(5, Waiting)] [0] [] Filling)"
    using pool_step.fill [of "new_pool [5, 0]" 2 sample_task] by (simp add: new_pool_def d)
  also have "?step\<^sup>*\<^sup>* \<dots> (sample_pool [(5, Waiting), (0, Waiting)] [] [] Filling)"
    using pool_step.fill [of "sample_pool [(5, Waiting)] [0] [] Filling" 2 sample_task] by (simp add: d)
  also have "?step \<dots> (sample_pool [(5, Waiting), (0, Waiting)] [] [] Awaiting)"
    using pool_step.filled [of "sample_pool [(5, Waiting), (0, Waiting)] [] [] Filling" 2 sample_task] by simp
  also have "?step \<dots> (sample_pool [(5, Working), (0, Waiting)] [] [] Awaiting)"
    using pool_step.start [of 0 "sample_pool [(5, Waiting), (0, Waiting)] [] [] Awaiting" 2 sample_task] by (simp add: d)
  also have "?step \<dots> (sample_pool [(5, Working), (0, Working)] [] [] Awaiting)"
    using pool_step.start [of 1 "sample_pool [(5, Working), (0, Waiting)] [] [] Awaiting" 2 sample_task] by (simp add: d)
  also have "?step \<dots> (sample_pool [(5, Working), (0, Finished)] [] [] Awaiting)"
    using pool_step.finish [of 1 "sample_pool [(5, Working), (0, Working)] [] [] Awaiting" 2 sample_task] by (simp add: d)
  also have "?step \<dots> (sample_pool [(5, Finished), (0, Finished)] [] [] Awaiting)"
    using pool_step.finish [of 0 "sample_pool [(5, Working), (0, Finished)] [] [] Awaiting" 2 sample_task] by (simp add: d)
  also have "?step \<dots> (sample_pool [(0, Finished)] [] [6] Suspended)"
    using pool_step.deliver [of "sample_pool [(5, Finished), (0, Finished)] [] [] Awaiting" 5 "[(0, Finished)]" sample_task 6 2] by (simp add: d)
  also have "?step \<dots> (sample_pool [(0, Finished)] [] [6] Awaiting)"
    using pool_step.resume [of "sample_pool [(0, Finished)] [] [6] Suspended" 2 sample_task] by (simp add: d)
  also have "?step \<dots> (sample_pool [(0, Finished)] [] [6] (Closing (Raised ''zero'')))"
    using pool_step.fail [of "sample_pool [(0, Finished)] [] [6] Awaiting" 0 "[]" sample_task "''zero''" 2] by (simp add: d)
  also have "?step \<dots> (sample_pool [(0, Finished)] [] [6] (Closed (Raised ''zero'')))"
    using pool_step.closed [of "sample_pool [(0, Finished)] [] [6] (Closing (Raised ''zero''))" _ 2 sample_task] by (simp add: d)
  finally show ?thesis .
qed

theorem pool_is_serial_witness: "run_serially sample_task [5, 0] = ([6], Raised ''zero'')"
  using pool_is_serial [OF sample_pool_run] by (simp del: run_serially.simps)

theorem pool_never_hangs_witness:
  "(\<exists>q. pool_step 2 sample_task (new_pool [5, 0]) q)"
  using pool_never_hangs [of 2 sample_task "[5, 0]"] by (auto simp: new_pool_def)

end
