(* ===== verification/Near_Duplicates.thy ===== *)
theory Near_Duplicates
  imports Lab_Prelude Complex_Main "HOL-Library.Char_ord" "HOL-Library.List_Lexorder" "HOL-Library.Product_Lexorder"
begin

text \<open>
  \<open>src/sparselab/corpus/near_duplicates.py\<close>: the screening of documents of different splits for common text.
  Sets of hashed three-word shingles, their MinHash bands, the posting lists of bands and of identical texts,
  the exact comparison of the proposed pairs, and the caps on all of it.

  Texts are ASCII. The hash of a shingle and the table of coefficients (both made from digests) are the fields of
  \<open>nd_hash\<close>. A similarity is the rational that the quotient of floats rounds. A \<open>defaultdict(list)\<close> is a
  function to lists.
\<close>

section \<open>Shingles and bands\<close>

record nd_hash =
  nd_shingle :: "string \<Rightarrow> int"
  nd_coefficient :: "nat \<Rightarrow> int"

record nd_document =
  nd_id :: string
  nd_split :: string
  nd_text :: string
  nd_sha :: string
  nd_source :: "string option"
  nd_location :: "string option"

record nd_caps =
  cap_documents :: int
  cap_text_bytes :: int
  cap_total_shingles :: int
  cap_shingles :: int
  cap_bucket :: int
  cap_comparisons :: int
  cap_candidates :: int
  cap_jaccard :: rat

datatype nd_error = InvalidCaps | DocumentCap | TextByteCap | DuplicateId | InvalidSplit | ShingleCap | TotalShingleCap
  | ComparisonCap | IdenticalCap | BucketCap | CandidateCap

definition nd_splits :: "string list" where
  "nd_splits = [''train'', ''validation'', ''test'']"

definition nd_prime :: int where
  "nd_prime = 2 ^ 61 - 1"

text \<open>\<open>re.findall(r"\w+", text)\<close>\<close>

function words_of :: "string \<Rightarrow> string list" where
  "words_of [] = []"
| "words_of (c # cs) = (if word_char c then (c # takeWhile word_char cs) # words_of (dropWhile word_char cs) else words_of cs)"
  by pat_completeness auto
termination
  by (relation "measure length") (simp_all add: le_imp_less_Suc length_dropWhile_le)

fun join_words :: "string list \<Rightarrow> string" where
  "join_words [] = []"
| "join_words [w] = w"
| "join_words (w # ws) = w @ [CHR 0x1F] @ join_words ws"

definition shingles_of :: "nd_hash \<Rightarrow> int \<Rightarrow> string \<Rightarrow> nd_error + int set" where
  "shingles_of h cap t =
     (let ws = words_of (to_lower t); width = min 3 (length ws) in
      if ws = [] then Inr {}
      else if cap < int (length ws - width + 1) then Inl ShingleCap
      else Inr (set (map (\<lambda>i. nd_shingle h (join_words (take width (drop i ws))) mod nd_prime) [0 ..< length ws - width + 1])))"

definition bands :: "nd_hash \<Rightarrow> int set \<Rightarrow> (nat \<times> int list) list" where
  "bands h s =
     (if s = {} then []
      else let signature = map (\<lambda>i. Min ((\<lambda>x. (nd_coefficient h (2 * i) * x + nd_coefficient h (2 * i + 1)) mod nd_prime) ` s)) [0 ..< 64]
        in map (\<lambda>b. (b, take 4 (drop (b * 4) signature))) [0 ..< 16])"

section \<open>Proposals\<close>

definition valid_caps :: "nd_caps \<Rightarrow> bool" where
  "valid_caps c \<longleftrightarrow> list_all (\<lambda>x. 1 \<le> x) [cap_documents c, cap_shingles c, cap_text_bytes c, cap_total_shingles c,
     cap_bucket c, cap_comparisons c, cap_candidates c] \<and> 0 < cap_jaccard c \<and> cap_jaccard c \<le> 1"

definition take_document :: "nd_caps \<Rightarrow> nd_document list \<times> nat \<Rightarrow> nd_document \<Rightarrow> nd_error + nd_document list \<times> nat" where
  "take_document c = (\<lambda>(rows, bytes) row.
     if cap_documents c \<le> int (length rows) then Inl DocumentCap
     else if cap_text_bytes c < int (bytes + length (nd_text row)) then Inl TextByteCap
     else Inr (rows @ [row], bytes + length (nd_text row)))"

record nd_state =
  ns_buckets :: "nat \<times> int list \<Rightarrow> nat list"
  ns_identical :: "string \<Rightarrow> nat list"
  ns_shingles :: "int set list"
  ns_pairs :: "(nat \<times> nat) set"
  ns_total :: nat

definition add_pair :: "nd_caps \<Rightarrow> nd_document list \<Rightarrow> nat \<Rightarrow> (nat \<times> nat) set \<Rightarrow> nat \<Rightarrow> nd_error + (nat \<times> nat) set" where
  "add_pair c rows i pairs j =
     (if nd_split (rows ! j) \<noteq> nd_split (rows ! i)
      then let pairs = insert (j, i) pairs in if cap_comparisons c < int (card pairs) then Inl ComparisonCap else Inr pairs
      else Inr pairs)"

definition post :: "nd_caps \<Rightarrow> nat \<Rightarrow> (nat \<times> int list \<Rightarrow> nat list) \<Rightarrow> nat \<times> int list \<Rightarrow> nd_error + (nat \<times> int list \<Rightarrow> nat list)" where
  "post c i buckets k = (let b = buckets(k := buckets k @ [i]) in
     if cap_bucket c < int (length (b k)) then Inl BucketCap else Inr b)"

definition index_document :: "nd_hash \<Rightarrow> nd_caps \<Rightarrow> nd_document list \<Rightarrow> nd_state \<Rightarrow> nat \<Rightarrow> nd_error + nd_state" where
  "index_document h c rows s i =
     (let row = rows ! i in
      bindE (guardE (nd_split row \<in> set nd_splits) InvalidSplit) (\<lambda>_.
      bindE (shingles_of h (cap_shingles c) (nd_text row)) (\<lambda>sh.
      let tally = ns_total s + card sh; keys = bands h sh;
          matches = ns_identical s (nd_sha row) @ concat (map (ns_buckets s) keys);
          same = (ns_identical s)(nd_sha row := ns_identical s (nd_sha row) @ [i])
      in bindE (guardE (int tally \<le> cap_total_shingles c) TotalShingleCap) (\<lambda>_.
      bindE (foldE (add_pair c rows i) (ns_pairs s) (sort (remdups matches))) (\<lambda>pairs.
      bindE (guardE (int (length (same (nd_sha row))) \<le> cap_bucket c) IdenticalCap) (\<lambda>_.
      bindE (foldE (post c i) (ns_buckets s) keys) (\<lambda>buckets.
      Inr \<lparr>ns_buckets = buckets, ns_identical = same, ns_shingles = ns_shingles s @ [sh], ns_pairs = pairs, ns_total = tally\<rparr>)))))))"

section \<open>Comparison\<close>

record near_pair =
  cd_left :: "string \<times> string \<times> string option \<times> string option \<times> string"
  cd_right :: "string \<times> string \<times> string option \<times> string option \<times> string"
  cd_jaccard :: rat
  cd_shared :: nat
  cd_union :: nat
  cd_identical :: bool

definition identity_of :: "nd_document \<Rightarrow> string \<times> string \<times> string option \<times> string option \<times> string" where
  "identity_of d = (nd_id d, nd_split d, nd_source d, nd_location d, nd_sha d)"

definition similarity :: "int set \<Rightarrow> int set \<Rightarrow> bool \<Rightarrow> rat" where
  "similarity a b exact = (if card (a \<union> b) \<noteq> 0 then of_nat (card (a \<inter> b)) / of_nat (card (a \<union> b)) else if exact then 1 else 0)"

definition compare_pair :: "nd_document list \<Rightarrow> int set list \<Rightarrow> nat \<times> nat \<Rightarrow> near_pair" where
  "compare_pair rows sh = (\<lambda>(l, r).
     let exact = (nd_sha (rows ! l) = nd_sha (rows ! r)) in
     \<lparr>cd_left = identity_of (rows ! l), cd_right = identity_of (rows ! r), cd_jaccard = similarity (sh ! l) (sh ! r) exact,
       cd_shared = card (sh ! l \<inter> sh ! r), cd_union = card (sh ! l \<union> sh ! r), cd_identical = exact\<rparr>)"

definition report_pair :: "nd_caps \<Rightarrow> nd_document list \<Rightarrow> int set list \<Rightarrow> near_pair list \<Rightarrow> nat \<times> nat \<Rightarrow> nd_error + near_pair list" where
  "report_pair c rows sh found p =
     (let x = compare_pair rows sh p in
      if cd_identical x \<or> cap_jaccard c \<le> cd_jaccard x
      then if cap_candidates c < int (length (found @ [x])) then Inl CandidateCap else Inr (found @ [x])
      else Inr found)"

record nd_report =
  rp_caps :: nd_caps
  rp_documents :: nat
  rp_comparisons :: nat
  rp_candidates :: "near_pair list"

definition candidates :: "nd_hash \<Rightarrow> nd_caps \<Rightarrow> nd_document list \<Rightarrow> nd_error + nd_report" where
  "candidates h c docs =
     bindE (guardE (valid_caps c) InvalidCaps) (\<lambda>_.
     bindE (foldE (take_document c) ([], 0) docs) (\<lambda>(taken, _).
     let rows = sort_key nd_id taken in
     bindE (guardE (distinct (map nd_id rows)) DuplicateId) (\<lambda>_.
     bindE (foldE (index_document h c rows) \<lparr>ns_buckets = \<lambda>_. [], ns_identical = \<lambda>_. [], ns_shingles = [], ns_pairs = {}, ns_total = 0\<rparr>
       [0 ..< length rows]) (\<lambda>s.
     bindE (foldE (report_pair c rows (ns_shingles s)) [] (sorted_list_of_set (ns_pairs s))) (\<lambda>found.
     Inr \<lparr>rp_caps = c, rp_documents = length rows, rp_comparisons = card (ns_pairs s), rp_candidates = found\<rparr>)))))"

section \<open>The loops\<close>

lemma take_documents:
  "foldE (take_document c) (rows0, n) docs = Inr (rows, m) \<Longrightarrow> rows = rows0 @ docs \<and> m = n + sum_list (map (length \<circ> nd_text) docs)
    \<and> (int (length rows0) \<le> cap_documents c \<longrightarrow> int (length rows) \<le> cap_documents c)
    \<and> (int n \<le> cap_text_bytes c \<longrightarrow> int m \<le> cap_text_bytes c)"
proof (induction docs arbitrary: rows0 n)
  case (Cons d docs)
  from Cons.prems have step: "\<not> cap_documents c \<le> int (length rows0)" "\<not> cap_text_bytes c < int (n + length (nd_text d))"
      "foldE (take_document c) (rows0 @ [d], n + length (nd_text d)) docs = Inr (rows, m)"
    by (auto simp: take_document_def split: if_splits)
  from Cons.IH [OF step(3)] step(1,2) show ?case by auto
qed simp

lemma add_pair_same: "nd_split (rows ! j) = nd_split (rows ! i) \<Longrightarrow> add_pair c rows i ps j = Inr ps"
  by (simp add: add_pair_def)

lemma add_pair_other:
  "add_pair c rows i ps j = Inr qs \<Longrightarrow> nd_split (rows ! j) \<noteq> nd_split (rows ! i)
    \<Longrightarrow> qs = insert (j, i) ps \<and> \<not> cap_comparisons c < int (card (insert (j, i) ps))"
  by (auto simp: add_pair_def Let_def split: if_splits)

lemma add_pairs:
  assumes "foldE (add_pair c rows i) ps js = Inr qs" and "finite ps"
  shows "qs = ps \<union> {(j, i) | j. j \<in> set js \<and> nd_split (rows ! j) \<noteq> nd_split (rows ! i)}
    \<and> (int (card ps) \<le> cap_comparisons c \<longrightarrow> int (card qs) \<le> cap_comparisons c)"
  using assms
proof (induction js arbitrary: ps)
  case (Cons j js)
  show ?case
  proof (cases "nd_split (rows ! j) = nd_split (rows ! i)")
    case True
    with Cons.prems(1) have "foldE (add_pair c rows i) ps js = Inr qs" by (simp add: add_pair_same)
    from Cons.IH [OF this Cons.prems(2)] True show ?thesis by auto
  next
    case False
    with Cons.prems(1) have step: "\<not> cap_comparisons c < int (card (insert (j, i) ps))" "foldE (add_pair c rows i) (insert (j, i) ps) js = Inr qs"
      by (auto dest: add_pair_other)
    from Cons.IH [OF step(2)] Cons.prems(2) step(1) False show ?thesis by auto
  qed
qed simp

lemma post_Inr: "post c i b k = Inr b' \<Longrightarrow> b' = b(k := b k @ [i]) \<and> int (length (b' k)) \<le> cap_bucket c"
  by (auto simp: post_def Let_def split: if_splits)

lemma posts:
  assumes "foldE (post c i) b keys = Inr b'" and "distinct keys"
  shows "b' k = (if k \<in> set keys then b k @ [i] else b k)"
  using assms
proof (induction keys arbitrary: b)
  case (Cons x keys)
  from Cons.prems(1) have "foldE (post c i) (b(x := b x @ [i])) keys = Inr b'" by (auto dest: post_Inr)
  from Cons.IH [OF this] Cons.prems(2) show ?case by (auto split: if_splits)
qed simp

lemma posts_capped:
  "foldE (post c i) b keys = Inr b' \<Longrightarrow> \<forall>k. int (length (b k)) \<le> cap_bucket c \<Longrightarrow> \<forall>k. int (length (b' k)) \<le> cap_bucket c"
proof (induction keys arbitrary: b)
  case (Cons x keys)
  from Cons.prems(1) obtain mid where mid: "post c i b x = Inr mid" "foldE (post c i) mid keys = Inr b'" by auto
  from post_Inr [OF mid(1)] Cons.prems(2) have "\<forall>k. int (length (mid k)) \<le> cap_bucket c" by auto
  from Cons.IH [OF mid(2) this] show ?case .
qed simp

lemma shingles_capped: "shingles_of h cap t = Inr s \<Longrightarrow> 0 \<le> cap \<Longrightarrow> int (card s) \<le> cap"
proof -
  assume s: "shingles_of h cap t = Inr s" and cap: "0 \<le> cap"
  define ws where "ws = words_of (to_lower t)"
  define f where "f i = nd_shingle h (join_words (take (min 3 (length ws)) (drop i ws))) mod nd_prime" for i
  have "ws = [] \<and> s = {} \<or> int (length ws - min 3 (length ws) + 1) \<le> cap \<and> s = set (map f [0 ..< length ws - min 3 (length ws) + 1])"
    using s unfolding shingles_of_def Let_def ws_def [symmetric] f_def by (auto split: if_splits)
  moreover have "card (set (map f [0 ..< n])) \<le> n" for n using card_length [of "map f [0 ..< n]"] by simp
  ultimately show ?thesis using cap by (metis card.empty of_nat_0 of_nat_mono order_trans)
qed

lemma length_filter_upt: "length (filter P [0 ..< n]) = card {i. i < n \<and> P i}"
proof -
  have "length (filter P [0 ..< n]) = card (set (filter P [0 ..< n]))" by (rule distinct_card [symmetric]) simp
  also have "set (filter P [0 ..< n]) = {i. i < n \<and> P i}" by auto
  finally show ?thesis .
qed

lemma distinct_bands: "distinct (bands h s)"
  by (auto simp: bands_def Let_def distinct_map inj_on_def)

lemma report_pair_Inr:
  "report_pair c rows sh found p = Inr out \<Longrightarrow>
    (if cd_identical (compare_pair rows sh p) \<or> cap_jaccard c \<le> cd_jaccard (compare_pair rows sh p)
     then out = found @ [compare_pair rows sh p] \<and> \<not> cap_candidates c < int (length (found @ [compare_pair rows sh p])) else out = found)"
  by (auto simp: report_pair_def Let_def split: if_splits)

lemma report_pairs:
  assumes "foldE (report_pair c rows sh) found ps = Inr out"
  shows "out = found @ filter (\<lambda>x. cd_identical x \<or> cap_jaccard c \<le> cd_jaccard x) (map (compare_pair rows sh) ps)
    \<and> (int (length found) \<le> cap_candidates c \<longrightarrow> int (length out) \<le> cap_candidates c)"
  using assms
proof (induction ps arbitrary: found)
  case (Cons p ps)
  show ?case
  proof (cases "cd_identical (compare_pair rows sh p) \<or> cap_jaccard c \<le> cd_jaccard (compare_pair rows sh p)")
    case False
    with Cons.prems have rest: "foldE (report_pair c rows sh) found ps = Inr out" by (auto dest: report_pair_Inr)
    from False have same: "filter (\<lambda>x. cd_identical x \<or> cap_jaccard c \<le> cd_jaccard x) (map (compare_pair rows sh) (p # ps))
        = filter (\<lambda>x. cd_identical x \<or> cap_jaccard c \<le> cd_jaccard x) (map (compare_pair rows sh) ps)" by simp
    show ?thesis unfolding same by (rule Cons.IH [OF rest])
  next
    case True
    with Cons.prems have step: "\<not> cap_candidates c < int (length (found @ [compare_pair rows sh p]))"
        "foldE (report_pair c rows sh) (found @ [compare_pair rows sh p]) ps = Inr out"
      by (auto dest: report_pair_Inr)
    note ih = Cons.IH [OF step(2)]
    from conjunct1 [OF ih] True have "out = found @ filter (\<lambda>x. cd_identical x \<or> cap_jaccard c \<le> cd_jaccard x) (map (compare_pair rows sh) (p # ps))" by simp
    moreover from conjunct2 [OF ih] step(1) have "int (length out) \<le> cap_candidates c" by simp
    ultimately show ?thesis by blast
  qed
qed simp

text \<open>What proposes a pair, and the state after some documents.\<close>

definition proposed :: "nd_hash \<Rightarrow> nd_document list \<Rightarrow> int set list \<Rightarrow> nat \<Rightarrow> nat \<Rightarrow> bool" where
  "proposed h rows sh i j \<longleftrightarrow> nd_split (rows ! i) \<noteq> nd_split (rows ! j)
     \<and> (nd_sha (rows ! i) = nd_sha (rows ! j) \<or> set (bands h (sh ! i)) \<inter> set (bands h (sh ! j)) \<noteq> {})"

definition index_ok :: "nd_hash \<Rightarrow> nd_caps \<Rightarrow> nd_document list \<Rightarrow> nat \<Rightarrow> nd_state \<Rightarrow> bool" where
  "index_ok h c rows i s \<longleftrightarrow> length (ns_shingles s) = i
     \<and> (\<forall>j < i. nd_split (rows ! j) \<in> set nd_splits \<and> shingles_of h (cap_shingles c) (nd_text (rows ! j)) = Inr (ns_shingles s ! j))
     \<and> (\<forall>k. ns_identical s k = filter (\<lambda>j. nd_sha (rows ! j) = k) [0 ..< i])
     \<and> (\<forall>k. ns_buckets s k = filter (\<lambda>j. k \<in> set (bands h (ns_shingles s ! j))) [0 ..< i])
     \<and> ns_pairs s = {(a, b). a < b \<and> b < i \<and> proposed h rows (ns_shingles s) a b}
     \<and> int (card (ns_pairs s)) \<le> cap_comparisons c
     \<and> ns_total s = sum_list (map card (ns_shingles s)) \<and> int (ns_total s) \<le> cap_total_shingles c
     \<and> (\<forall>k. int (length (ns_identical s k)) \<le> cap_bucket c) \<and> (\<forall>k. int (length (ns_buckets s k)) \<le> cap_bucket c)"

lemma finite_pairs: "finite {(a, b). a < b \<and> b < (n :: nat) \<and> P a b}"
  by (rule finite_subset [of _ "{..< n} \<times> {..< n}"]) auto

lemma index_document_ok:
  assumes "index_document h c rows s i = Inr s'" and "index_ok h c rows i s"
  shows "index_ok h c rows (Suc i) s'"
proof -
  let ?row = "rows ! i"
  obtain sh pairs buckets where st: "nd_split ?row \<in> set nd_splits" "shingles_of h (cap_shingles c) (nd_text ?row) = Inr sh"
      "foldE (add_pair c rows i) (ns_pairs s) (sort (remdups (ns_identical s (nd_sha ?row) @ concat (map (ns_buckets s) (bands h sh))))) = Inr pairs"
      "foldE (post c i) (ns_buckets s) (bands h sh) = Inr buckets"
      "s' = \<lparr>ns_buckets = buckets, ns_identical = (ns_identical s)(nd_sha ?row := ns_identical s (nd_sha ?row) @ [i]),
         ns_shingles = ns_shingles s @ [sh], ns_pairs = pairs, ns_total = ns_total s + card sh\<rparr>"
      "int (ns_total s + card sh) \<le> cap_total_shingles c" "int (length (ns_identical s (nd_sha ?row) @ [i])) \<le> cap_bucket c"
    using assms(1) by (auto simp: index_document_def Let_def)
  from assms(2) have len: "length (ns_shingles s) = i" and ident: "\<And>k. ns_identical s k = filter (\<lambda>j. nd_sha (rows ! j) = k) [0 ..< i]"
    and buck: "\<And>k. ns_buckets s k = filter (\<lambda>j. k \<in> set (bands h (ns_shingles s ! j))) [0 ..< i]"
    and ps: "ns_pairs s = {(a, b). a < b \<and> b < i \<and> proposed h rows (ns_shingles s) a b}"
    and cap: "int (card (ns_pairs s)) \<le> cap_comparisons c"
    and old: "\<And>j. j < i \<Longrightarrow> nd_split (rows ! j) \<in> set nd_splits \<and> shingles_of h (cap_shingles c) (nd_text (rows ! j)) = Inr (ns_shingles s ! j)"
    and total: "ns_total s = sum_list (map card (ns_shingles s))"
    and small: "\<forall>k. int (length (ns_identical s k)) \<le> cap_bucket c" "\<forall>k. int (length (ns_buckets s k)) \<le> cap_bucket c"
    by (auto simp: index_ok_def)
  have fin: "finite (ns_pairs s)" unfolding ps by (rule finite_pairs)
  let ?sh = "ns_shingles s @ [sh]"
  have get: "?sh ! j = (if j < i then ns_shingles s ! j else sh)" if "j < Suc i" for j using that len by (auto simp: nth_append)
  have same: "proposed h rows ?sh a b = proposed h rows (ns_shingles s) a b" if "a < b" "b < i" for a b
    using that len by (simp add: proposed_def nth_append)
  note ap = add_pairs [OF st(3) fin]
  have pairs: "pairs = {(a, b). a < b \<and> b < Suc i \<and> proposed h rows ?sh a b}"
  proof -
    have "{(j, i) | j. j \<in> set (sort (remdups (ns_identical s (nd_sha ?row) @ concat (map (ns_buckets s) (bands h sh))))) \<and> nd_split (rows ! j) \<noteq> nd_split ?row}
        = {(a, b). a < b \<and> b = i \<and> proposed h rows ?sh a b}"
      using len by (auto simp: ident buck proposed_def nth_append)
    moreover have "ns_pairs s = {(a, b). a < b \<and> b < i \<and> proposed h rows ?sh a b}" unfolding ps using same by auto
    ultimately show ?thesis using ap by auto
  qed
  have buckets: "buckets k = filter (\<lambda>j. k \<in> set (bands h (?sh ! j))) [0 ..< Suc i]" for k
  proof -
    have "filter (\<lambda>j. k \<in> set (bands h (?sh ! j))) [0 ..< i] = filter (\<lambda>j. k \<in> set (bands h (ns_shingles s ! j))) [0 ..< i]"
      by (rule filter_cong) (simp_all add: get)
    with posts [OF st(4) distinct_bands, of k] get [of i] show ?thesis by (simp add: buck)
  qed
  have all: "\<forall>j < Suc i. nd_split (rows ! j) \<in> set nd_splits \<and> shingles_of h (cap_shingles c) (nd_text (rows ! j)) = Inr (?sh ! j)"
    using old st(1,2) get by (simp add: less_Suc_eq)
  have "int (card pairs) \<le> cap_comparisons c" using ap cap by blast
  moreover have "\<forall>k. int (length (((ns_identical s)(nd_sha ?row := ns_identical s (nd_sha ?row) @ [i])) k)) \<le> cap_bucket c"
    using small(1) st(7) by simp
  moreover have "\<forall>k. int (length (buckets k)) \<le> cap_bucket c" by (rule posts_capped [OF st(4) small(2)])
  moreover have "ns_total s + card sh = sum_list (map card ?sh)" by (simp add: total)
  moreover have "\<forall>k. ((ns_identical s)(nd_sha ?row := ns_identical s (nd_sha ?row) @ [i])) k = filter (\<lambda>j. nd_sha (rows ! j) = k) [0 ..< Suc i]"
    by (simp add: ident)
  moreover have "length ?sh = Suc i" using len by simp
  ultimately show ?thesis using all buckets pairs st(6) unfolding index_ok_def st(5) nd_state.select_convs by blast
qed

section \<open>The screening\<close>

text \<open>The caps on the input, on the shingles and on the posting lists.\<close>

definition index_within :: "nd_hash \<Rightarrow> nd_caps \<Rightarrow> nd_document list \<Rightarrow> int set list \<Rightarrow> bool" where
  "index_within h c rows sh \<longleftrightarrow> int (length rows) \<le> cap_documents c \<and> int (sum_list (map (length \<circ> nd_text) rows)) \<le> cap_text_bytes c
     \<and> (\<forall>s \<in> set sh. int (card s) \<le> cap_shingles c) \<and> int (sum_list (map card sh)) \<le> cap_total_shingles c
     \<and> (\<forall>k. int (card {i. i < length rows \<and> nd_sha (rows ! i) = k}) \<le> cap_bucket c)
     \<and> (\<forall>k. int (card {i. i < length rows \<and> k \<in> set (bands h (sh ! i))}) \<le> cap_bucket c)"

definition reported :: "nd_caps \<Rightarrow> nd_document list \<Rightarrow> int set list \<Rightarrow> nat \<Rightarrow> nat \<Rightarrow> bool" where
  "reported c rows sh i j \<longleftrightarrow> nd_sha (rows ! i) = nd_sha (rows ! j) \<or> cap_jaccard c \<le> similarity (sh ! i) (sh ! j) False"

lemma screening:
  assumes "candidates h c docs = Inr r"
  defines "rows \<equiv> sort_key nd_id docs"
  obtains sh where "distinct (map nd_id rows)"
    "\<And>i. i < length rows \<Longrightarrow> nd_split (rows ! i) \<in> set nd_splits \<and> shingles_of h (cap_shingles c) (nd_text (rows ! i)) = Inr (sh ! i)"
    "rp_candidates r = map (compare_pair rows sh) (sorted_list_of_set {(i, j). i < j \<and> j < length rows \<and> proposed h rows sh i j \<and> reported c rows sh i j})"
    "rp_comparisons r = card {(i, j). i < j \<and> j < length rows \<and> proposed h rows sh i j}"
    "length sh = length rows \<and> index_within h c rows sh" "int (rp_comparisons r) \<le> cap_comparisons c"
    "int (length (rp_candidates r)) \<le> cap_candidates c" "0 < cap_jaccard c \<and> cap_jaccard c \<le> 1"
proof -
  from assms(1) obtain taken m where tk: "foldE (take_document c) ([], 0) docs = Inr (taken, m)"
    by (auto simp: candidates_def)
  then have "taken = docs" by (auto dest: take_documents)
  with assms(1) tk obtain s found where st: "valid_caps c" "foldE (take_document c) ([], 0) docs = Inr (docs, m)"
      "distinct (map nd_id rows)"
      "foldE (index_document h c rows) \<lparr>ns_buckets = \<lambda>_. [], ns_identical = \<lambda>_. [], ns_shingles = [], ns_pairs = {}, ns_total = 0\<rparr> [0 ..< length rows] = Inr s"
      "foldE (report_pair c rows (ns_shingles s)) [] (sorted_list_of_set (ns_pairs s)) = Inr found"
      "r = \<lparr>rp_caps = c, rp_documents = length rows, rp_comparisons = card (ns_pairs s), rp_candidates = found\<rparr>"
    by (auto simp: candidates_def Let_def rows_def)
  from st(1) have caps: "1 \<le> cap_documents c" "1 \<le> cap_comparisons c" "1 \<le> cap_candidates c" "0 < cap_jaccard c \<and> cap_jaccard c \<le> 1"
      "1 \<le> cap_text_bytes c" "1 \<le> cap_total_shingles c" "1 \<le> cap_bucket c" "1 \<le> cap_shingles c"
    by (simp_all add: valid_caps_def)
  let ?s0 = "\<lparr>ns_buckets = \<lambda>_. [], ns_identical = \<lambda>_. [], ns_shingles = [], ns_pairs = {}, ns_total = 0\<rparr> :: nd_state"
  have "foldE (index_document h c rows) ?s0 [0 ..< i] = Inr s' \<Longrightarrow> index_ok h c rows i s'" for i s'
  proof (induction i arbitrary: s')
    case 0
    with caps(2,6,7) show ?case by (auto simp: index_ok_def)
  next
    case (Suc i)
    then show ?case by (auto intro: index_document_ok)
  qed
  from this [OF st(4)] have ok: "index_ok h c rows (length rows) s" .
  define sh where "sh = ns_shingles s"
  have within: "length sh = length rows \<and> index_within h c rows sh"
  proof -
    have docs: "int (length docs) \<le> cap_documents c" "m = sum_list (map (length \<circ> nd_text) docs)" "int m \<le> cap_text_bytes c"
      using take_documents [OF st(2)] caps(1,5) by auto
    have "mset (map (length \<circ> nd_text) rows) = mset (map (length \<circ> nd_text) docs)" by (simp add: rows_def)
    then have "sum_list (map (length \<circ> nd_text) rows) = sum_list (map (length \<circ> nd_text) docs)" by (metis sum_mset_sum_list)
    moreover have "length sh = length rows" using ok by (simp add: index_ok_def sh_def)
    moreover have "int (card x) \<le> cap_shingles c" if "x \<in> set sh" for x
    proof -
      from that obtain j where j: "j < length rows" "x = sh ! j" using calculation(2) by (metis in_set_conv_nth)
      with ok have "shingles_of h (cap_shingles c) (nd_text (rows ! j)) = Inr x" by (simp add: index_ok_def sh_def)
      then show ?thesis using shingles_capped caps(8) by fastforce
    qed
    moreover have "int (sum_list (map card sh)) \<le> cap_total_shingles c" using ok by (simp add: index_ok_def sh_def)
    moreover have "int (card {i. i < length rows \<and> nd_sha (rows ! i) = k}) \<le> cap_bucket c" for k
      using ok unfolding index_ok_def by (metis length_filter_upt)
    moreover have "int (card {i. i < length rows \<and> k \<in> set (bands h (sh ! i))}) \<le> cap_bucket c" for k
      using ok unfolding index_ok_def sh_def by (metis length_filter_upt)
    moreover have "length rows = length docs" by (simp add: rows_def)
    ultimately show ?thesis using docs by (simp add: index_within_def)
  qed
  have pairs: "ns_pairs s = {(i, j). i < j \<and> j < length rows \<and> proposed h rows sh i j}" using ok by (simp add: index_ok_def sh_def)
  have q: "(cd_identical (compare_pair rows sh p) \<or> cap_jaccard c \<le> cd_jaccard (compare_pair rows sh p)) = (case p of (i, j) \<Rightarrow> reported c rows sh i j)" for p
    by (cases p) (auto simp: compare_pair_def Let_def reported_def similarity_def)
  have filt: "filter (\<lambda>x. cd_identical x \<or> cap_jaccard c \<le> cd_jaccard x) (map (compare_pair rows sh) ps)
      = map (compare_pair rows sh) (filter (\<lambda>(i, j). reported c rows sh i j) ps)" for ps
    by (simp add: filter_map comp_def q)
  note rp = report_pairs [OF st(5), folded sh_def, unfolded filt append_Nil]
  have top: "int (length found) \<le> cap_candidates c" using conjunct2 [OF rp] caps(3) by simp
  have "filter (\<lambda>(i, j). reported c rows sh i j) (sorted_list_of_set (ns_pairs s))
      = sorted_list_of_set {(i, j). i < j \<and> j < length rows \<and> proposed h rows sh i j \<and> reported c rows sh i j}"
  proof (rule sorted_distinct_set_unique)
    show "set (filter (\<lambda>(i, j). reported c rows sh i j) (sorted_list_of_set (ns_pairs s)))
        = set (sorted_list_of_set {(i, j). i < j \<and> j < length rows \<and> proposed h rows sh i j \<and> reported c rows sh i j})"
      unfolding pairs by (auto simp: finite_pairs)
  qed (simp_all add: sorted_wrt_filter finite_pairs)
  with conjunct1 [OF rp] have "rp_candidates r = map (compare_pair rows sh) (sorted_list_of_set {(i, j). i < j \<and> j < length rows \<and> proposed h rows sh i j \<and> reported c rows sh i j})"
    by (simp add: st(6))
  then show ?thesis
    by (rule that [of sh, OF st(3), rotated]) (use ok within caps top pairs in \<open>auto simp: index_ok_def sh_def st(6)\<close>)
qed

text \<open>
  C34. The screening reports exactly the proposed pairs that qualify. If it returns, the identifiers are distinct,
  every document has a known split and all its shingles were hashed, and the candidates are, in order, the pairs of
  documents of different splits that have the same text hash, or share a band and whose exact similarity reaches the threshold.
  Every cap is kept: on documents and their text, on the shingles of one document and of all, on the documents of one text hash
  and of one band, on comparisons and on candidates; nothing is cut off at a cap.
\<close>

theorem screening_is_exact:
  assumes "candidates h c docs = Inr r"
  shows "let rows = sort_key nd_id docs in distinct (map nd_id rows) \<and> (\<exists>sh.
      length sh = length rows
    \<and> (\<forall>i < length rows. nd_split (rows ! i) \<in> set nd_splits \<and> shingles_of h (cap_shingles c) (nd_text (rows ! i)) = Inr (sh ! i))
    \<and> rp_candidates r = map (compare_pair rows sh)
        (sorted_list_of_set {(i, j). i < j \<and> j < length rows \<and> proposed h rows sh i j \<and> reported c rows sh i j})
    \<and> rp_comparisons r = card {(i, j). i < j \<and> j < length rows \<and> proposed h rows sh i j}
    \<and> index_within h c rows sh)
    \<and> int (length docs) \<le> cap_documents c \<and> int (rp_comparisons r) \<le> cap_comparisons c
    \<and> int (length (rp_candidates r)) \<le> cap_candidates c"
proof -
  have docs: "int (length docs) \<le> cap_documents c"
    by (rule screening [OF assms]) (simp add: index_within_def)
  show ?thesis unfolding Let_def by (rule screening [OF assms]) (use docs in blast)
qed

lemma shingles_of_words: "words_of (to_lower t) = words_of (to_lower u) \<Longrightarrow> shingles_of h cap t = shingles_of h cap u"
  by (simp add: shingles_of_def Let_def)

lemma shingles_exist: "shingles_of h cap t = Inr s \<Longrightarrow> words_of (to_lower t) \<noteq> [] \<Longrightarrow> s \<noteq> {} \<and> finite s"
  by (auto simp: shingles_of_def Let_def split: if_splits)

lemma bands_exist: "s \<noteq> {} \<Longrightarrow> bands h s \<noteq> []"
  by (simp add: bands_def Let_def)

lemma similarity_self: "finite s \<Longrightarrow> s \<noteq> {} \<Longrightarrow> similarity s s b = 1"
  by (simp add: similarity_def)

definition same_words :: "nd_document \<Rightarrow> nd_document \<Rightarrow> bool" where
  "same_words d e \<longleftrightarrow> words_of (to_lower (nd_text d)) = words_of (to_lower (nd_text e)) \<and> words_of (to_lower (nd_text d)) \<noteq> []"

text \<open>
  C22. No document gets into two splits unnoticed. Two documents of different splits that have the same hash
  of their text, or the same words whatever their hashes, punctuation and capitals, are named together by a reported pair,
  in the second case with similarity one.
\<close>

theorem leaked_text_is_reported:
  assumes "candidates h c docs = Inr r" and "d \<in> set docs" and "e \<in> set docs" and "nd_split d \<noteq> nd_split e"
    and "nd_sha d = nd_sha e \<or> same_words d e"
  shows "\<exists>x \<in> set (rp_candidates r). {cd_left x, cd_right x} = {identity_of d, identity_of e} \<and> (same_words d e \<longrightarrow> cd_jaccard x = 1)"
proof -
  let ?rows = "sort_key nd_id docs"
  obtain sh where sh: "\<And>i. i < length ?rows \<Longrightarrow> nd_split (?rows ! i) \<in> set nd_splits \<and> shingles_of h (cap_shingles c) (nd_text (?rows ! i)) = Inr (sh ! i)"
    and found: "rp_candidates r = map (compare_pair ?rows sh)
      (sorted_list_of_set {(i, j). i < j \<and> j < length ?rows \<and> proposed h ?rows sh i j \<and> reported c ?rows sh i j})"
    and cap: "cap_jaccard c \<le> 1"
    by (rule screening [OF assms(1)]) blast
  have ordered: "\<exists>x \<in> set (rp_candidates r). {cd_left x, cd_right x} = {identity_of (?rows ! i), identity_of (?rows ! j)}
      \<and> (same_words (?rows ! i) (?rows ! j) \<longrightarrow> cd_jaccard x = 1)"
    if ij: "i < j" "j < length ?rows" "nd_split (?rows ! i) \<noteq> nd_split (?rows ! j)"
      "nd_sha (?rows ! i) = nd_sha (?rows ! j) \<or> same_words (?rows ! i) (?rows ! j)" for i j
  proof -
    have same: "sh ! i = sh ! j \<and> sh ! i \<noteq> {} \<and> finite (sh ! i)" if w: "same_words (?rows ! i) (?rows ! j)"
    proof -
      have "shingles_of h (cap_shingles c) (nd_text (?rows ! i)) = shingles_of h (cap_shingles c) (nd_text (?rows ! j))"
        using w by (intro shingles_of_words) (simp add: same_words_def)
      moreover have "shingles_of h (cap_shingles c) (nd_text (?rows ! i)) = Inr (sh ! i)" "shingles_of h (cap_shingles c) (nd_text (?rows ! j)) = Inr (sh ! j)"
        using sh [of i] sh [of j] ij(1,2) by simp_all
      ultimately have "sh ! i = sh ! j" "shingles_of h (cap_shingles c) (nd_text (?rows ! i)) = Inr (sh ! i)" by simp_all
      moreover have "words_of (to_lower (nd_text (?rows ! i))) \<noteq> []" using w by (auto simp: same_words_def)
      ultimately show ?thesis using shingles_exist by blast
    qed
    have "proposed h ?rows sh i j \<and> reported c ?rows sh i j"
    proof (cases "same_words (?rows ! i) (?rows ! j)")
      case True
      with same have s: "sh ! i = sh ! j" "sh ! i \<noteq> {}" "finite (sh ! i)" by auto
      with bands_exist [of "sh ! i" h] similarity_self [of "sh ! i" False] cap ij(3) show ?thesis
        by (simp add: proposed_def reported_def)
    next
      case False
      with ij(3,4) show ?thesis by (simp add: proposed_def reported_def)
    qed
    with ij(1,2) have "compare_pair ?rows sh (i, j) \<in> set (rp_candidates r)"
      unfolding found by (simp add: finite_pairs)
    moreover have "cd_jaccard (compare_pair ?rows sh (i, j)) = 1" if "same_words (?rows ! i) (?rows ! j)"
    proof -
      from same [OF that] have s: "sh ! i = sh ! j" "sh ! i \<noteq> {}" "finite (sh ! i)" by auto
      from similarity_self [OF s(3,2)] s(1) show ?thesis by (simp add: compare_pair_def Let_def)
    qed
    moreover have "{cd_left (compare_pair ?rows sh (i, j)), cd_right (compare_pair ?rows sh (i, j))} = {identity_of (?rows ! i), identity_of (?rows ! j)}"
      by (simp add: compare_pair_def Let_def)
    ultimately show ?thesis by blast
  qed
  from assms(2,3) obtain i j where ij: "i < length ?rows" "?rows ! i = d" "j < length ?rows" "?rows ! j = e"
    by (metis in_set_conv_nth set_sort)
  with assms(4) have "i < j \<or> j < i" by (metis linorder_neqE_nat)
  then show ?thesis
  proof
    assume "i < j"
    with ordered [of i j] ij assms(4,5) show ?thesis by simp
  next
    assume "j < i"
    moreover have "same_words e d \<longleftrightarrow> same_words d e" by (auto simp: same_words_def)
    moreover have "nd_sha e = nd_sha d \<or> same_words d e" using assms(5) by auto
    ultimately show ?thesis using ordered [of j i] ij assms(4) by (simp add: insert_commute)
  qed
qed

text \<open>An example: the same word in two splits.\<close>

definition sample_hash :: nd_hash where
  "sample_hash = \<lparr>nd_shingle = \<lambda>s. int (length s), nd_coefficient = \<lambda>_. 1\<rparr>"

definition sample_caps :: nd_caps where
  "sample_caps = \<lparr>cap_documents = 5, cap_text_bytes = 50, cap_total_shingles = 5, cap_shingles = 5, cap_bucket = 5,
     cap_comparisons = 5, cap_candidates = 5, cap_jaccard = 1 / 2\<rparr>"

definition sample_document :: "string \<Rightarrow> string \<Rightarrow> string \<Rightarrow> nd_document" where
  "sample_document i split t = \<lparr>nd_id = i, nd_split = split, nd_text = t, nd_sha = t, nd_source = None, nd_location = None\<rparr>"

definition leaked :: "nd_document list" where
  "leaked = [sample_document ''b'' ''test'' ''Hi.'', sample_document ''a'' ''train'' ''hi'']"

definition leaked_report :: nd_report where
  "leaked_report = \<lparr>rp_caps = sample_caps, rp_documents = 2, rp_comparisons = 1, rp_candidates = [\<lparr>
     cd_left = (''a'', ''train'', None, None, ''hi''), cd_right = (''b'', ''test'', None, None, ''Hi.''),
     cd_jaccard = 1, cd_shared = 1, cd_union = 1, cd_identical = False\<rparr>]\<rparr>"

lemma leaked_parts:
  "shingles_of sample_hash 5 ''Hi.'' = Inr {2}" "shingles_of sample_hash 5 ''hi'' = Inr {2}"
  "bands sample_hash {2} = map (\<lambda>b. (b, [3, 3, 3, 3])) [0 ..< 16]"
  "sort_key nd_id leaked = rev leaked" "foldE (take_document sample_caps) ([], 0) leaked = Inr (leaked, 5)"
  by code_simp+

lemma leaked_screened: "candidates sample_hash sample_caps leaked = Inr leaked_report"
  unfolding candidates_def leaked_parts(4,5) bindE_Inr prod.case Let_def
  by (simp add: leaked_def index_document_def sample_document_def leaked_parts(1-3) leaked_report_def upt_rec sample_caps_def
    valid_caps_def nd_splits_def add_pair_def post_def compare_pair_def report_pair_def identity_of_def similarity_def)

theorem screening_is_exact_witness:
  "distinct (map nd_id (sort_key nd_id leaked)) \<and> rp_comparisons leaked_report = 1 \<and> int (length leaked) \<le> 5"
  using screening_is_exact [OF leaked_screened] by (simp add: Let_def leaked_report_def sample_caps_def)

theorem leaked_text_is_reported_witness:
  "\<exists>x \<in> set (rp_candidates leaked_report). {cd_left x, cd_right x} = {identity_of (hd leaked), identity_of (last leaked)} \<and> cd_jaccard x = 1"
proof -
  have same: "same_words (hd leaked) (last leaked)" by code_simp
  have d: "hd leaked \<in> set leaked" "last leaked \<in> set leaked" "nd_split (hd leaked) \<noteq> nd_split (last leaked)"
    by (simp_all add: leaked_def sample_document_def)
  from leaked_text_is_reported [OF leaked_screened d disjI2 [OF same]] same show ?thesis by blast
qed

end
