(* ===== verification/Structure_Cleaning.thy ===== *)
theory Structure_Cleaning
  imports Lab_Prelude
begin

text \<open>
  \<open>src/sparselab/corpus/structure_cleaning.py\<close>: recognised wrappers (YAML front matter, the header and footer
  of Project Gutenberg) are removed by whole lines, and every retained or removed range is recorded.

  Texts are ASCII. The regular expressions are deterministic there and are written out as functions;
  \<open>unicodedata.normalize\<close>, SHA-256 and the test for the replacement character are the fields of \<open>clean_lib\<close>.
  The dict that is returned is the record \<open>cleaned\<close>.
\<close>

section \<open>Lines and recognisers\<close>

record clean_lib =
  cl_nfc :: "string \<Rightarrow> string"
  cl_sha256 :: "string \<Rightarrow> string"
  cl_replacement :: "string \<Rightarrow> bool"

definition normalizer_v2 :: string where
  "normalizer_v2 = ''normalizer-structure-v2''"

definition normalizer_v3 :: string where
  "normalizer_v3 = ''normalizer-structure-v3''"

definition lf :: char where
  "lf = CHR 0x0A"

text \<open>\<open>replace("\r\n", "\n").replace("\r", "\n")\<close>\<close>

fun crlf_to_lf :: "string \<Rightarrow> string" where
  "crlf_to_lf (c # d # cs) = (if c = CHR 0x0D \<and> d = lf then lf # crlf_to_lf cs else c # crlf_to_lf (d # cs))"
| "crlf_to_lf s = s"

definition to_lf :: "string \<Rightarrow> string" where
  "to_lf s = map (\<lambda>c. if c = CHR 0x0D then lf else c) (crlf_to_lf s)"

fun split_lf :: "string \<Rightarrow> string list" where
  "split_lf [] = [[]]"
| "split_lf (c # cs) = (if c = lf then [] # split_lf cs else case split_lf cs of p # ps \<Rightarrow> (c # p) # ps | [] \<Rightarrow> [[c]])"

definition whole_lines :: "string \<Rightarrow> string list" where
  "whole_lines t = (if t = [] then [] else let parts = split_lf t in
     map (\<lambda>p. p @ [lf]) (butlast parts) @ (if last parts \<noteq> [] then [last parts] else []))"

definition strip_right :: "string \<Rightarrow> string" where
  "strip_right s = rev (strip_left (rev s))"

definition drop_lf :: "string \<Rightarrow> string" where
  "drop_lf s = rev (dropWhile (\<lambda>c. c = lf) (rev s))"

text \<open>A literal prefix, ignoring case, and what follows it.\<close>

definition after_ci :: "string \<Rightarrow> string \<Rightarrow> string option" where
  "after_ci p s = (if length p \<le> length s \<and> to_lower (take (length p) s) = to_lower p then Some (drop (length p) s) else None)"

definition word_end :: "string \<Rightarrow> bool" where
  "word_end s \<longleftrightarrow> s = [] \<or> \<not> word_char (hd s)"

text \<open>\<open>_GUTENBERG_START\<close> and \<open>_GUTENBERG_END\<close>, for the words START and END\<close>

definition gutenberg_marker :: "string \<Rightarrow> string \<Rightarrow> bool" where
  "gutenberg_marker w s = (case after_ci ''***'' s of None \<Rightarrow> False | Some a \<Rightarrow>
     (case after_ci (w @ '' OF '') (strip_left a) of None \<Rightarrow> False | Some b \<Rightarrow>
     (case after_ci ''PROJECT GUTENBERG '' (case after_ci ''THE '' b of Some c \<Rightarrow> c | None \<Rightarrow> b) of None \<Rightarrow> False | Some c \<Rightarrow>
     (case (case after_ci ''EBOOK'' c of Some d \<Rightarrow> Some d | None \<Rightarrow> after_ci ''ETEXT'' c) of None \<Rightarrow> False | Some d \<Rightarrow>
       word_end d \<and> suffix ''***'' (strip_right d)))))"

definition gutenberg_credit :: "string \<Rightarrow> bool" where
  "gutenberg_credit s = (case after_ci ''Produced by'' (case after_ci ''This eBook was '' s of Some a \<Rightarrow> a | None \<Rightarrow> s) of
     None \<Rightarrow> False | Some b \<Rightarrow> word_end b)"

definition heading_line :: "string \<Rightarrow> bool" where
  "heading_line s \<longleftrightarrow> (let a = dropWhile is_space s; b = dropWhile (\<lambda>c. c = CHR ''#'') a in
     length (takeWhile is_space s) \<le> 3 \<and> length (takeWhile (\<lambda>c. c = CHR ''#'') a) \<in> {1..6}
     \<and> takeWhile is_space b \<noteq> [] \<and> dropWhile is_space b \<noteq> [])"

definition list_line :: "string \<Rightarrow> bool" where
  "list_line s \<longleftrightarrow> (let a = dropWhile is_space s; b = dropWhile is_digit a in
     a \<noteq> [] \<and> hd a \<in> set ''-*+'' \<and> takeWhile is_space (tl a) \<noteq> []
     \<or> takeWhile is_digit a \<noteq> [] \<and> b \<noteq> [] \<and> hd b \<in> set ''.)'' \<and> takeWhile is_space (tl b) \<noteq> [])"

text \<open>\<open>_FENCE\<close>: the character of the marker and its length\<close>

definition fence_marker :: "string \<Rightarrow> (char \<times> nat) option" where
  "fence_marker s = (case dropWhile is_space s of [] \<Rightarrow> None | c # cs \<Rightarrow>
     (let n = length (takeWhile (\<lambda>x. x = c) (c # cs)) in
      if c \<in> {CHR ''`'', CHR ''~''} \<and> 3 \<le> n then Some (c, n) else None))"

section \<open>Front matter\<close>

definition front_matter_keys :: "string list" where
  "front_matter_keys = [''title'', ''weight'', ''categories'', ''category'', ''tags'', ''date'', ''draft'', ''slug'', ''description'']"

definition pagerduty_keys :: "string list" where
  "pagerduty_keys = [''cover'', ''hero'', ''hero_alt_text'', ''style'', ''pdf'']"

datatype clean_flag = UnclosedHeader | AmbiguousHeader | ConfigurationYaml | AmbiguousCredit | AmbiguousGutenberg
  | AmbiguousMarkers | ExtractionDamage | MetadataOnly

text \<open>The key of a line of the header, or nothing for a line that is no key.\<close>

definition header_key :: "string \<Rightarrow> string option" where
  "header_key v = (let k = takeWhile (\<lambda>c. is_alnum c \<or> c = CHR ''_'' \<or> c = CHR ''-'') v; rest = drop (length k) v in
     if k \<noteq> [] \<and> (is_lower_alpha (hd k) \<or> is_upper_alpha (hd k)) \<and> rest \<noteq> [] \<and> hd rest = CHR '':'' then Some (to_lower k) else None)"

fun header_keys :: "string list \<Rightarrow> string list option" where
  "header_keys [] = Some []"
| "header_keys (l # ls) = (let v = strip l in
     if v = [] \<or> prefix ''#'' v \<or> prefix ''- '' v then header_keys ls
     else case header_key v of None \<Rightarrow> None | Some k \<Rightarrow> map_option ((#) k) (header_keys ls))"

definition front_matter_end :: "string list \<Rightarrow> string \<Rightarrow> string \<Rightarrow> nat option \<times> clean_flag option" where
  "front_matter_end ls source_id normalizer =
     (if ls = [] \<or> strip (hd ls) \<noteq> ''---'' then (None, None)
      else case find (\<lambda>n. strip (ls ! n) \<in> {''---'', ''...''}) [1 ..< min 81 (length ls)] of
        None \<Rightarrow> (None, Some UnclosedHeader)
      | Some closing \<Rightarrow> (case header_keys (take (closing - 1) (drop 1 ls)) of
          None \<Rightarrow> (None, Some AmbiguousHeader)
        | Some keys \<Rightarrow>
            let allowed = front_matter_keys @ (if normalizer = normalizer_v3 \<and> source_id = ''kml_scale_pagerduty'' then pagerduty_keys else [])
            in if keys = [] \<or> \<not> set keys \<subseteq> set allowed then (None, Some ConfigurationYaml) else (Some (closing + 1), None)))"

section \<open>Removal\<close>

datatype removal_reason = FrontMatter | GutenbergHeader | GutenbergCredit | GutenbergFooter

record removed_span =
  rm_start :: nat
  rm_end :: nat
  rm_reason :: removal_reason
  rm_sha :: string

record removal =
  rv_keep :: "bool list"
  rv_removed :: "removed_span list"
  rv_flags :: "clean_flag list"

definition remove_lines :: "clean_lib \<Rightarrow> string list \<Rightarrow> nat \<Rightarrow> nat \<Rightarrow> removal_reason \<Rightarrow> removal \<Rightarrow> removal" where
  "remove_lines lib ls a b reason s =
     (if b \<le> a then s
      else s\<lparr>rv_keep := map (\<lambda>(i, k). k \<and> \<not> (a \<le> i \<and> i < b)) (enumerate 0 (rv_keep s)),
        rv_removed := rv_removed s @ [\<lparr>rm_start = a + 1, rm_end = b, rm_reason = reason,
          rm_sha = cl_sha256 lib (concat (take (b - a) (drop a ls)))\<rparr>]\<rparr>)"

definition add_flag :: "clean_flag \<Rightarrow> removal \<Rightarrow> removal" where
  "add_flag f s = s\<lparr>rv_flags := rv_flags s @ [f]\<rparr>"

definition remove_front :: "clean_lib \<Rightarrow> string list \<Rightarrow> nat option \<times> clean_flag option \<Rightarrow> removal \<Rightarrow> removal" where
  "remove_front lib ls front s =
     (let s = (case snd front of Some f \<Rightarrow> add_flag f s | None \<Rightarrow> s) in
      case fst front of Some e \<Rightarrow> remove_lines lib ls 0 e FrontMatter s | None \<Rightarrow> s)"

definition remove_credit :: "clean_lib \<Rightarrow> string list \<Rightarrow> removal \<Rightarrow> removal" where
  "remove_credit lib ls s = (case find (\<lambda>n. strip (ls ! n) \<noteq> []) [0 ..< min 8 (length ls)] of
     None \<Rightarrow> s
   | Some first \<Rightarrow>
       if gutenberg_credit (strip (ls ! first))
       then (case find (\<lambda>n. strip (ls ! n) = []) [first + 1 ..< min (first + 12) (length ls)] of
           Some boundary \<Rightarrow>
             if sum_list (map length (take (boundary - first) (drop first ls))) \<le> 500 \<and> list_ex (\<lambda>l. strip l \<noteq> []) (drop (boundary + 1) ls)
             then remove_lines lib ls 0 (boundary + 1) GutenbergCredit s else add_flag AmbiguousCredit s
         | None \<Rightarrow> add_flag AmbiguousCredit s)
       else s)"

definition occurs_in :: "string \<Rightarrow> string \<Rightarrow> bool" where
  "occurs_in p s = list_ex (prefix p) (suffixes s)"

definition remove_gutenberg :: "clean_lib \<Rightarrow> string list \<Rightarrow> removal \<Rightarrow> removal" where
  "remove_gutenberg lib ls s =
     (let start = find (\<lambda>n. gutenberg_marker ''START'' (strip (ls ! n))) [0 ..< min 300 (length ls)];
          stop = find (\<lambda>n. gutenberg_marker ''END'' (strip (ls ! n))) [0 ..< length ls];
          s = (case start of Some n \<Rightarrow> remove_lines lib ls 0 (n + 1) GutenbergHeader s | None \<Rightarrow> remove_credit lib ls s);
          s = (if start = None \<and> list_ex (\<lambda>l. occurs_in ''project gutenberg'' (to_lower l)) (take 80 ls) then add_flag AmbiguousGutenberg s else s)
      in case stop of None \<Rightarrow> s
         | Some e \<Rightarrow> if (case start of None \<Rightarrow> True | Some n \<Rightarrow> n < e) then remove_lines lib ls e (length ls) GutenbergFooter s
             else add_flag AmbiguousMarkers s)"

section \<open>Retained lines\<close>

datatype block_kind = FenceOpen | FenceClose | Code | Heading | ListItem | Equation | Indented | Prose

record kept_span =
  ks_start :: nat
  ks_end :: nat
  ks_from :: nat
  ks_to :: nat

record text_block =
  bl_kind :: block_kind
  bl_line :: nat
  bl_from :: nat
  bl_to :: nat

record scan =
  sc_retained :: "kept_span list"
  sc_blocks :: "text_block list"
  sc_output :: "string list"
  sc_offset :: nat
  sc_fence :: "(char \<times> nat) option"
  sc_segment :: "nat option"
  sc_segment_offset :: nat

definition line_kind :: "(char \<times> nat) option \<Rightarrow> string \<Rightarrow> block_kind \<times> (char \<times> nat) option" where
  "line_kind fence s = (case fence_marker s of
     Some (c, n) \<Rightarrow> (case fence of
         None \<Rightarrow> (FenceOpen, Some (c, n))
       | Some (d, m) \<Rightarrow> if c = d \<and> m \<le> n then (FenceClose, None) else (Code, fence))
   | None \<Rightarrow>
       if fence \<noteq> None then (Code, fence)
       else if heading_line s then (Heading, fence)
       else if list_line s then (ListItem, fence)
       else if list_ex (\<lambda>p. prefix p (dropWhile is_space s)) [''$$'', [CHR 0x5C, CHR ''[''], [CHR 0x5C, CHR '']'']] then (Equation, fence)
       else if prefix ''    '' s \<or> prefix [CHR 0x09] s then (Indented, fence)
       else (Prose, fence))"

definition close_segment :: "nat \<Rightarrow> scan \<Rightarrow> scan" where
  "close_segment i s = (case sc_segment s of None \<Rightarrow> s
     | Some a \<Rightarrow> s\<lparr>sc_retained := sc_retained s @ [\<lparr>ks_start = a + 1, ks_end = i, ks_from = sc_segment_offset s, ks_to = sc_offset s\<rparr>],
         sc_segment := None\<rparr>)"

definition scan_line :: "scan \<Rightarrow> nat \<times> string \<times> bool \<Rightarrow> scan" where
  "scan_line s = (\<lambda>(i, l, k).
     if \<not> k then close_segment i s
     else let s = (if sc_segment s = None then s\<lparr>sc_segment := Some i, sc_segment_offset := sc_offset s\<rparr> else s);
          (kind, fence) = line_kind (sc_fence s) (drop_lf l)
       in s\<lparr>sc_fence := fence,
            sc_blocks := (if kind \<noteq> Prose
              then sc_blocks s @ [\<lparr>bl_kind = kind, bl_line = i + 1, bl_from = sc_offset s, bl_to = sc_offset s + length l\<rparr>] else sc_blocks s),
            sc_output := sc_output s @ [l], sc_offset := sc_offset s + length l\<rparr>)"

definition scan_lines :: "string list \<Rightarrow> bool list \<Rightarrow> scan" where
  "scan_lines ls keep = close_segment (length ls) (foldl scan_line
     \<lparr>sc_retained = [], sc_blocks = [], sc_output = [], sc_offset = 0, sc_fence = None, sc_segment = None, sc_segment_offset = 0\<rparr>
     (enumerate 0 (zip ls keep)))"

section \<open>Cleaning\<close>

datatype clean_error = UnsupportedNormalizer

record cleaned =
  cn_text :: string
  cn_retained :: "kept_span list"
  cn_removed :: "removed_span list"
  cn_blocks :: "text_block list"
  cn_flags :: "clean_flag list"
  cn_metadata_only :: bool

definition removal_of :: "clean_lib \<Rightarrow> string \<Rightarrow> string \<Rightarrow> string \<Rightarrow> removal" where
  "removal_of lib normalized source_id normalizer =
     (let ls = whole_lines normalized;
          s = remove_front lib ls (front_matter_end ls source_id normalizer) \<lparr>rv_keep = replicate (length ls) True, rv_removed = [], rv_flags = []\<rparr>;
          s = (if prefix ''project_gutenberg'' source_id \<or> normalizer = normalizer_v3 \<and> source_id = ''kml_scale_project_gutenberg''
            then remove_gutenberg lib ls s else s)
      in if cl_replacement lib normalized \<or> CHR 0x00 \<in> set normalized then add_flag ExtractionDamage s else s)"

definition clean_structure :: "clean_lib \<Rightarrow> string \<Rightarrow> string \<Rightarrow> string \<Rightarrow> clean_error + cleaned" where
  "clean_structure lib t source_id normalizer =
     (if normalizer \<notin> {normalizer_v2, normalizer_v3} then Inl UnsupportedNormalizer
      else let normalized = cl_nfc lib (to_lf t); ls = whole_lines normalized;
             rv = removal_of lib normalized source_id normalizer; s = scan_lines ls (rv_keep rv);
             result = concat (sc_output s)
        in if fst (front_matter_end ls source_id normalizer) \<noteq> None \<and> strip result = []
           then Inr \<lparr>cn_text = normalized, cn_retained = [\<lparr>ks_start = 1, ks_end = length ls, ks_from = 0, ks_to = length normalized\<rparr>],
             cn_removed = [], cn_blocks = sc_blocks s, cn_flags = rv_flags rv @ [MetadataOnly], cn_metadata_only = True\<rparr>
           else Inr \<lparr>cn_text = result, cn_retained = sc_retained s, cn_removed = rv_removed rv, cn_blocks = sc_blocks s,
             cn_flags = rv_flags rv, cn_metadata_only = False\<rparr>)"

section \<open>Lines\<close>

lemma split_lf_joins:
  "split_lf t \<noteq> [] \<and> concat (map (\<lambda>p. p @ [lf]) (butlast (split_lf t))) @ last (split_lf t) = t"
proof (induction t)
  case (Cons c t)
  then show ?case by (cases "split_lf t") auto
qed simp

lemma whole_lines_concat: "concat (whole_lines t) = t"
  using split_lf_joins [of t] by (auto simp: whole_lines_def Let_def)

text \<open>The text of a range of lines, counted from one.\<close>

definition raw_text :: "string list \<Rightarrow> nat \<Rightarrow> nat \<Rightarrow> string" where
  "raw_text ls a b = concat (take (Suc b - a) (drop (a - 1) ls))"

definition slice :: "nat \<Rightarrow> nat \<Rightarrow> string \<Rightarrow> string" where
  "slice a b t = take (b - a) (drop a t)"

section \<open>What is removed\<close>

definition covers_line :: "removed_span list \<Rightarrow> nat \<Rightarrow> bool" where
  "covers_line sps n \<longleftrightarrow> list_ex (\<lambda>sp. rm_start sp \<le> n \<and> n \<le> rm_end sp) sps"

definition removal_ok :: "clean_lib \<Rightarrow> string list \<Rightarrow> removal \<Rightarrow> bool" where
  "removal_ok lib ls s \<longleftrightarrow> length (rv_keep s) = length ls
     \<and> (\<forall>i < length ls. rv_keep s ! i \<longleftrightarrow> \<not> covers_line (rv_removed s) (Suc i))
     \<and> (\<forall>sp \<in> set (rv_removed s). 1 \<le> rm_start sp \<and> rm_start sp \<le> rm_end sp \<and> rm_end sp \<le> length ls
         \<and> rm_sha sp = cl_sha256 lib (raw_text ls (rm_start sp) (rm_end sp)))"

lemma remove_lines_ok: "removal_ok lib ls s \<Longrightarrow> b \<le> length ls \<Longrightarrow> removal_ok lib ls (remove_lines lib ls a b reason s)"
  by (auto simp: removal_ok_def remove_lines_def nth_enumerate_eq covers_line_def raw_text_def Suc_diff_le Suc_le_eq less_Suc_eq_le)

lemma add_flag_ok [simp]: "removal_ok lib ls (add_flag f s) = removal_ok lib ls s"
  by (simp add: removal_ok_def add_flag_def)

lemma find_upt: "find P [a ..< b] = Some n \<Longrightarrow> a \<le> n \<and> n < b \<and> P n"
  by (drule find_Some_mem) simp

lemma front_matter_bound:
  assumes "front_matter_end ls src norm = (Some e, f)"
  shows "2 \<le> e \<and> e \<le> length ls \<and> strip (hd ls) = ''---'' \<and> ls \<noteq> []"
  using assms by (auto simp: front_matter_end_def Let_def split: if_splits option.splits dest!: find_upt)

lemma remove_front_ok:
  assumes "removal_ok lib ls s" and "\<forall>e. fst front = Some e \<longrightarrow> e \<le> length ls"
  shows "removal_ok lib ls (remove_front lib ls front s)"
  using assms by (auto simp: remove_front_def Let_def remove_lines_ok split: option.splits)

lemma remove_credit_ok: "removal_ok lib ls s \<Longrightarrow> removal_ok lib ls (remove_credit lib ls s)"
  by (auto simp: remove_credit_def intro!: remove_lines_ok split: option.splits dest!: find_upt)

lemma remove_gutenberg_ok: "removal_ok lib ls s \<Longrightarrow> removal_ok lib ls (remove_gutenberg lib ls s)"
  by (auto simp: remove_gutenberg_def Let_def intro!: remove_lines_ok remove_credit_ok split: option.splits dest!: find_upt)

lemma removal_of_ok: "removal_ok lib (whole_lines t) (removal_of lib t src norm)"
proof -
  let ?ls = "whole_lines t"
  have "removal_ok lib ?ls \<lparr>rv_keep = replicate (length ?ls) True, rv_removed = [], rv_flags = []\<rparr>"
    by (simp add: removal_ok_def covers_line_def)
  moreover have "\<forall>e. fst (front_matter_end ?ls src norm) = Some e \<longrightarrow> e \<le> length ?ls"
    using front_matter_bound [of ?ls src norm] by (cases "front_matter_end ?ls src norm") auto
  ultimately have "removal_ok lib ?ls (remove_front lib ?ls (front_matter_end ?ls src norm)
      \<lparr>rv_keep = replicate (length ?ls) True, rv_removed = [], rv_flags = []\<rparr>)" by (rule remove_front_ok)
  then show ?thesis by (simp add: removal_of_def Let_def remove_gutenberg_ok)
qed

section \<open>What is retained\<close>

definition kept_text :: "string list \<Rightarrow> bool list \<Rightarrow> nat \<Rightarrow> string" where
  "kept_text ls keep i = concat (map ((!) ls) (filter ((!) keep) [0 ..< i]))"

lemma kept_text_simps [simp]:
  "kept_text ls keep 0 = []"
  "kept_text ls keep (Suc i) = kept_text ls keep i @ (if keep ! i then ls ! i else [])"
  by (simp_all add: kept_text_def)

lemma kept_text_span: "a \<le> b \<Longrightarrow> \<forall>j. a \<le> j \<and> j < b \<longrightarrow> keep ! j
    \<Longrightarrow> kept_text ls keep b = kept_text ls keep a @ concat (map ((!) ls) [a ..< b])"
  by (induction b rule: dec_induct) auto

lemma kept_text_prefix: "a \<le> b \<Longrightarrow> prefix (kept_text ls keep a) (kept_text ls keep b)"
  by (induction b rule: dec_induct) auto

lemma slice_of_kept:
  assumes "a \<le> b" and "b \<le> n" and "\<forall>j. a \<le> j \<and> j < b \<longrightarrow> keep ! j"
  shows "slice (length (kept_text ls keep a)) (length (kept_text ls keep b)) (kept_text ls keep n) = concat (map ((!) ls) [a ..< b])"
proof -
  from kept_text_prefix [OF assms(2), of ls keep] obtain rest where "kept_text ls keep n = kept_text ls keep b @ rest" by (auto simp: prefix_def)
  with kept_text_span [OF assms(1,3), of ls] show ?thesis by (simp add: slice_def)
qed

definition span_lines :: "kept_span \<Rightarrow> nat list" where
  "span_lines sp = [ks_start sp - 1 ..< ks_end sp]"

definition span_ok :: "string list \<Rightarrow> bool list \<Rightarrow> kept_span \<Rightarrow> bool" where
  "span_ok ls keep sp \<longleftrightarrow> 1 \<le> ks_start sp \<and> ks_start sp \<le> ks_end sp
     \<and> ks_from sp = length (kept_text ls keep (ks_start sp - 1)) \<and> ks_to sp = length (kept_text ls keep (ks_end sp))"

definition block_ok :: "string list \<Rightarrow> bool list \<Rightarrow> nat \<Rightarrow> text_block \<Rightarrow> bool" where
  "block_ok ls keep i bl \<longleftrightarrow> 1 \<le> bl_line bl \<and> bl_line bl \<le> i \<and> keep ! (bl_line bl - 1)
     \<and> bl_from bl = length (kept_text ls keep (bl_line bl - 1)) \<and> bl_to bl = length (kept_text ls keep (bl_line bl))"

definition scan_ok :: "string list \<Rightarrow> bool list \<Rightarrow> nat \<Rightarrow> scan \<Rightarrow> bool" where
  "scan_ok ls keep i s \<longleftrightarrow> concat (sc_output s) = kept_text ls keep i \<and> sc_offset s = length (kept_text ls keep i)
     \<and> (\<forall>bl \<in> set (sc_blocks s). block_ok ls keep i bl)
     \<and> (\<forall>sp \<in> set (sc_retained s). span_ok ls keep sp)
     \<and> concat (map span_lines (sc_retained s)) @ (case sc_segment s of Some a \<Rightarrow> [a ..< i] | None \<Rightarrow> []) = filter ((!) keep) [0 ..< i]
     \<and> (case sc_segment s of Some a \<Rightarrow> a < i \<and> sc_segment_offset s = length (kept_text ls keep a) | None \<Rightarrow> True)"

lemma close_segment_ok:
  assumes "scan_ok ls keep i s"
  shows "scan_ok ls keep i (close_segment i s) \<and> sc_segment (close_segment i s) = None"
  using assms by (cases "sc_segment s") (auto simp: scan_ok_def close_segment_def span_ok_def span_lines_def)

lemma block_ok_mono: "block_ok ls keep i bl \<Longrightarrow> block_ok ls keep (Suc i) bl"
  by (simp add: block_ok_def)

lemma scan_line_ok:
  assumes "scan_ok ls keep i s"
  shows "scan_ok ls keep (Suc i) (scan_line s (i, ls ! i, keep ! i))"
proof (cases "keep ! i")
  case False
  with close_segment_ok [OF assms] show ?thesis by (auto simp: scan_line_def scan_ok_def intro: block_ok_mono)
next
  case True
  obtain kind fence where k: "line_kind (sc_fence s) (drop_lf (ls ! i)) = (kind, fence)" by (cases "line_kind (sc_fence s) (drop_lf (ls ! i))") auto
  show ?thesis
  proof (cases "sc_segment s")
    case None
    with True k assms show ?thesis
      by (auto simp: scan_line_def scan_ok_def block_ok_def Let_def)
  next
    case (Some a)
    with True k assms show ?thesis
      by (auto simp: scan_line_def scan_ok_def block_ok_def Let_def)
  qed
qed

lemma scan_lines_ok:
  assumes "length keep = length ls"
  shows "scan_ok ls keep (length ls) (scan_lines ls keep) \<and> sc_segment (scan_lines ls keep) = None"
proof -
  let ?s0 = "\<lparr>sc_retained = [], sc_blocks = [], sc_output = [], sc_offset = 0, sc_fence = None, sc_segment = None, sc_segment_offset = 0\<rparr>"
  have "scan_ok ls keep i (foldl scan_line ?s0 (map (\<lambda>i. (i, ls ! i, keep ! i)) [0 ..< i]))" for i
  proof (induction i)
    case (Suc i)
    then show ?case by (simp add: scan_line_ok)
  qed (simp add: scan_ok_def)
  moreover have "enumerate 0 (zip ls keep) = map (\<lambda>i. (i, ls ! i, keep ! i)) [0 ..< length ls]"
    using assms by (intro nth_equalityI) (simp_all add: nth_enumerate_eq)
  ultimately have "scan_ok ls keep (length ls) (foldl scan_line ?s0 (enumerate 0 (zip ls keep)))" by simp
  from close_segment_ok [OF this] show ?thesis by (simp add: scan_lines_def)
qed

lemma lines_of_range:
  assumes "1 \<le> a" and "b \<le> length ls"
  shows "concat (map ((!) ls) [a - 1 ..< b]) = raw_text ls a b"
proof -
  have "map ((!) ls) [a - 1 ..< b] = take (b - (a - 1)) (drop (a - 1) ls)"
    using assms(2) by (intro nth_equalityI) auto
  moreover have "b - (a - 1) = Suc b - a" using assms(1) by simp
  ultimately show ?thesis by (simp add: raw_text_def)
qed

lemma span_text:
  assumes "scan_ok ls keep (length ls) s" and "sc_segment s = None" and "sp \<in> set (sc_retained s)"
  shows "slice (ks_from sp) (ks_to sp) (concat (sc_output s)) = raw_text ls (ks_start sp) (ks_end sp)"
    and "ks_end sp \<le> length ls"
proof -
  from assms have sp: "span_ok ls keep sp" and out: "concat (sc_output s) = kept_text ls keep (length ls)"
    and all: "concat (map span_lines (sc_retained s)) = filter ((!) keep) [0 ..< length ls]" by (auto simp: scan_ok_def)
  have mem: "j < length ls \<and> keep ! j" if "j \<in> set (span_lines sp)" for j
  proof -
    from that assms(3) have "j \<in> set (concat (map span_lines (sc_retained s)))" by auto
    then show ?thesis unfolding all by simp
  qed
  from sp have "ks_start sp - 1 \<le> ks_end sp - 1" "0 < ks_end sp" by (auto simp: span_ok_def)
  with mem [of "ks_end sp - 1"] show e: "ks_end sp \<le> length ls" by (cases "ks_end sp") (auto simp: span_lines_def)
  have "slice (length (kept_text ls keep (ks_start sp - 1))) (length (kept_text ls keep (ks_end sp))) (kept_text ls keep (length ls))
      = concat (map ((!) ls) [ks_start sp - 1 ..< ks_end sp])"
    by (rule slice_of_kept) (use sp mem e in \<open>auto simp: span_ok_def span_lines_def\<close>)
  with sp have "slice (ks_from sp) (ks_to sp) (kept_text ls keep (length ls)) = concat (map ((!) ls) [ks_start sp - 1 ..< ks_end sp])"
    by (simp add: span_ok_def)
  with lines_of_range [of "ks_start sp" "ks_end sp" ls] sp e out
  show "slice (ks_from sp) (ks_to sp) (concat (sc_output s)) = raw_text ls (ks_start sp) (ks_end sp)" by (simp add: span_ok_def)
qed

lemma block_text:
  assumes "scan_ok ls keep (length ls) s" and "bl \<in> set (sc_blocks s)"
  shows "slice (bl_from bl) (bl_to bl) (concat (sc_output s)) = ls ! (bl_line bl - 1) \<and> 1 \<le> bl_line bl \<and> bl_line bl \<le> length ls"
proof -
  from assms have bl: "block_ok ls keep (length ls) bl" and out: "concat (sc_output s) = kept_text ls keep (length ls)" by (auto simp: scan_ok_def)
  then obtain j where j: "bl_line bl = Suc j" "keep ! j" "Suc j \<le> length ls" "bl_from bl = length (kept_text ls keep j)"
      "bl_to bl = length (kept_text ls keep (Suc j))"
    by (cases "bl_line bl") (auto simp: block_ok_def)
  have "slice (length (kept_text ls keep j)) (length (kept_text ls keep (Suc j))) (kept_text ls keep (length ls)) = concat (map ((!) ls) [j ..< Suc j])"
    by (rule slice_of_kept) (use j in \<open>auto simp: less_Suc_eq\<close>)
  with j out show ?thesis by simp
qed

lemma nested_concat: "concat (map f (concat (map g xs))) = concat (map (\<lambda>x. concat (map f (g x))) xs)"
  by (induction xs) simp_all

section \<open>Provenance\<close>

text \<open>
  C23. The provenance of a cleaned text is exact. In a result that is not metadata alone, the lines of the
  retained spans are, in order and once each, the lines that no removed span covers, and the text is made
  of them; the offsets of every retained span and of every block cut the lines they name out of the
  text; every removed span lies in the text and has the digest of its lines.
\<close>

theorem cleaning_provenance_is_exact:
  assumes "clean_structure lib t src norm = Inr r" and "\<not> cn_metadata_only r"
  defines "ls \<equiv> whole_lines (cl_nfc lib (to_lf t))"
  shows "concat ls = cl_nfc lib (to_lf t)
    \<and> concat (map span_lines (cn_retained r)) = filter (\<lambda>i. \<not> covers_line (cn_removed r) (Suc i)) [0 ..< length ls]
    \<and> cn_text r = concat (map (\<lambda>sp. raw_text ls (ks_start sp) (ks_end sp)) (cn_retained r))
    \<and> (\<forall>sp \<in> set (cn_retained r). slice (ks_from sp) (ks_to sp) (cn_text r) = raw_text ls (ks_start sp) (ks_end sp))
    \<and> (\<forall>bl \<in> set (cn_blocks r). 1 \<le> bl_line bl \<and> bl_line bl \<le> length ls
         \<and> slice (bl_from bl) (bl_to bl) (cn_text r) = ls ! (bl_line bl - 1))
    \<and> (\<forall>sp \<in> set (cn_removed r). 1 \<le> rm_start sp \<and> rm_start sp \<le> rm_end sp \<and> rm_end sp \<le> length ls
         \<and> rm_sha sp = cl_sha256 lib (raw_text ls (rm_start sp) (rm_end sp)))"
proof -
  define rv where "rv = removal_of lib (cl_nfc lib (to_lf t)) src norm"
  define s where "s = scan_lines ls (rv_keep rv)"
  from assms(1,2) have r: "cn_text r = concat (sc_output s)" "cn_retained r = sc_retained s" "cn_removed r = rv_removed rv" "cn_blocks r = sc_blocks s"
    by (auto simp: clean_structure_def Let_def rv_def s_def ls_def split: if_splits)
  have rm: "removal_ok lib ls rv" unfolding rv_def ls_def by (rule removal_of_ok)
  then have "length (rv_keep rv) = length ls" by (simp add: removal_ok_def)
  from scan_lines_ok [OF this] have ok: "scan_ok ls (rv_keep rv) (length ls) s" and none: "sc_segment s = None" by (simp_all add: s_def)
  have spans: "concat (map span_lines (sc_retained s)) = filter (\<lambda>i. \<not> covers_line (rv_removed rv) (Suc i)) [0 ..< length ls]"
  proof -
    have "filter ((!) (rv_keep rv)) [0 ..< length ls] = filter (\<lambda>i. \<not> covers_line (rv_removed rv) (Suc i)) [0 ..< length ls]"
      by (rule filter_cong) (use rm in \<open>simp_all add: removal_ok_def\<close>)
    with ok none show ?thesis by (simp add: scan_ok_def)
  qed
  have "concat (sc_output s) = concat (map ((!) ls) (concat (map span_lines (sc_retained s))))"
    using ok none by (simp add: scan_ok_def kept_text_def)
  also have "\<dots> = concat (map (\<lambda>sp. concat (map ((!) ls) (span_lines sp))) (sc_retained s))"
    by (rule nested_concat)
  also have "\<dots> = concat (map (\<lambda>sp. raw_text ls (ks_start sp) (ks_end sp)) (sc_retained s))"
  proof (rule arg_cong [where f = concat], rule map_cong [OF refl])
    fix sp assume sp: "sp \<in> set (sc_retained s)"
    with ok have "1 \<le> ks_start sp" by (auto simp: scan_ok_def span_ok_def)
    then show "concat (map ((!) ls) (span_lines sp)) = raw_text ls (ks_start sp) (ks_end sp)"
      unfolding span_lines_def using span_text(2) [OF ok none sp] by (rule lines_of_range)
  qed
  finally have text_ok: "concat (sc_output s) = concat (map (\<lambda>sp. raw_text ls (ks_start sp) (ks_end sp)) (sc_retained s))" .
  have "concat ls = cl_nfc lib (to_lf t)" unfolding ls_def by (rule whole_lines_concat)
  moreover have "\<forall>sp \<in> set (sc_retained s). slice (ks_from sp) (ks_to sp) (concat (sc_output s)) = raw_text ls (ks_start sp) (ks_end sp)"
    using span_text(1) [OF ok none] by blast
  moreover have "\<forall>bl \<in> set (sc_blocks s). 1 \<le> bl_line bl \<and> bl_line bl \<le> length ls
      \<and> slice (bl_from bl) (bl_to bl) (concat (sc_output s)) = ls ! (bl_line bl - 1)"
    using block_text [OF ok] by blast
  ultimately show ?thesis unfolding r using spans text_ok rm unfolding removal_ok_def by blast
qed

text \<open>The front matter stays covered by a removed span.\<close>

lemma remove_lines_covers: "covers_line (rv_removed s) n \<Longrightarrow> covers_line (rv_removed (remove_lines lib ls a b reason s)) n"
  by (simp add: remove_lines_def covers_line_def)

lemma add_flag_removed [simp]: "rv_removed (add_flag f s) = rv_removed s"
  by (simp add: add_flag_def)

lemma remove_credit_covers: "covers_line (rv_removed s) n \<Longrightarrow> covers_line (rv_removed (remove_credit lib ls s)) n"
  by (simp add: remove_credit_def remove_lines_covers split: option.split)

lemma remove_gutenberg_covers: "covers_line (rv_removed s) n \<Longrightarrow> covers_line (rv_removed (remove_gutenberg lib ls s)) n"
  by (simp add: remove_gutenberg_def Let_def remove_lines_covers remove_credit_covers split: option.split)

lemma front_covered:
  assumes "front_matter_end (whole_lines t) src norm = (Some e, f)" and "2 \<le> e"
  shows "covers_line (rv_removed (removal_of lib t src norm)) 1"
proof -
  have "covers_line (rv_removed (remove_front lib (whole_lines t) (Some e, f) s)) 1" for s
    using assms(2) by (simp add: remove_front_def Let_def remove_lines_def covers_line_def)
  then show ?thesis using assms(1) by (simp add: removal_of_def Let_def remove_gutenberg_covers)
qed

lemma shorter_than_raw:
  assumes "\<not> keep ! 0" and "0 < j" and "j \<le> length ls"
  shows "length (kept_text ls keep j) + length (hd ls) \<le> length (concat (take j ls))"
  using assms(2,3)
proof (induction j)
  case (Suc j)
  show ?case
  proof (cases j)
    case 0
    with assms(1) Suc.prems show ?thesis by (cases ls) simp_all
  next
    case (Suc i)
    with Suc.IH Suc.prems show ?thesis by (simp add: take_Suc_conv_app_nth)
  qed
qed simp

text \<open>
  C35. The blocks of a result that is metadata alone are misplaced. The text of such a result is the whole
  text again, but its blocks keep their offsets in the cleaned text: each of them starts before the line that it names.
\<close>

theorem metadata_blocks_misplaced:
  assumes "clean_structure lib t src norm = Inr r" and "cn_metadata_only r" and "bl \<in> set (cn_blocks r)"
  shows "cn_text r = concat (whole_lines (cl_nfc lib (to_lf t))) \<and> bl_line bl \<le> length (whole_lines (cl_nfc lib (to_lf t)))
    \<and> bl_from bl < length (concat (take (bl_line bl - 1) (whole_lines (cl_nfc lib (to_lf t)))))"
proof -
  define ls where "ls = whole_lines (cl_nfc lib (to_lf t))"
  define rv where "rv = removal_of lib (cl_nfc lib (to_lf t)) src norm"
  define s where "s = scan_lines ls (rv_keep rv)"
  from assms(1,2) obtain e f where r: "cn_text r = cl_nfc lib (to_lf t)" "cn_blocks r = sc_blocks s" "front_matter_end ls src norm = (Some e, f)"
    by (cases "front_matter_end ls src norm") (auto simp: clean_structure_def Let_def rv_def s_def ls_def split: if_splits)
  have rm: "removal_ok lib ls rv" unfolding rv_def ls_def by (rule removal_of_ok)
  then have "length (rv_keep rv) = length ls" by (simp add: removal_ok_def)
  from scan_lines_ok [OF this] have ok: "scan_ok ls (rv_keep rv) (length ls) s" by (simp add: s_def)
  with assms(3) r(2) have bl: "block_ok ls (rv_keep rv) (length ls) bl" by (auto simp: scan_ok_def)
  from front_matter_bound [OF r(3)] have e: "2 \<le> e" "ls \<noteq> []" "hd ls \<noteq> []" by (auto simp: strip_def)
  have "covers_line (rv_removed rv) 1" unfolding rv_def by (rule front_covered) (use r(3) e(1) in \<open>simp_all add: ls_def\<close>)
  with rm e(2) have first: "\<not> rv_keep rv ! 0" by (simp add: removal_ok_def)
  from bl obtain j where j: "bl_line bl = Suc j" "rv_keep rv ! j" "Suc j \<le> length ls" "bl_from bl = length (kept_text ls (rv_keep rv) j)"
    by (cases "bl_line bl") (auto simp: block_ok_def)
  from j(2) first have "0 < j" by (cases j) auto
  from shorter_than_raw [OF first this, of ls] j(3) have "length (kept_text ls (rv_keep rv) j) + length (hd ls) \<le> length (concat (take j ls))" by simp
  moreover from e(3) have "0 < length (hd ls)" by simp
  ultimately have "length (kept_text ls (rv_keep rv) j) < length (concat (take j ls))" by linarith
  with j r(1) show ?thesis unfolding ls_def [symmetric] using whole_lines_concat [of "cl_nfc lib (to_lf t)"] by (simp add: ls_def)
qed

text \<open>Examples: a document with front matter and a heading, and one whose body is an indented blank line.\<close>

definition plain_lib :: clean_lib where
  "plain_lib = \<lparr>cl_nfc = \<lambda>s. s, cl_sha256 = \<lambda>s. s, cl_replacement = \<lambda>_. False\<rparr>"

definition titled :: "string \<Rightarrow> string" where
  "titled body = ''---'' @ [lf] @ ''title: x'' @ [lf] @ ''---'' @ [lf] @ body"

definition titled_heading :: cleaned where
  "titled_heading = \<lparr>cn_text = ''# Hi'' @ [lf],
     cn_retained = [\<lparr>ks_start = 4, ks_end = 4, ks_from = 0, ks_to = 5\<rparr>],
     cn_removed = [\<lparr>rm_start = 1, rm_end = 3, rm_reason = FrontMatter, rm_sha = titled []\<rparr>],
     cn_blocks = [\<lparr>bl_kind = Heading, bl_line = 4, bl_from = 0, bl_to = 5\<rparr>], cn_flags = [], cn_metadata_only = False\<rparr>"

definition titled_blank :: cleaned where
  "titled_blank = \<lparr>cn_text = titled (''    '' @ [lf]),
     cn_retained = [\<lparr>ks_start = 1, ks_end = 4, ks_from = 0, ks_to = 22\<rparr>], cn_removed = [],
     cn_blocks = [\<lparr>bl_kind = Indented, bl_line = 4, bl_from = 0, bl_to = 5\<rparr>], cn_flags = [MetadataOnly], cn_metadata_only = True\<rparr>"

lemma titled_heading_cleaned: "clean_structure plain_lib (titled (''# Hi'' @ [lf])) ''docs'' normalizer_v2 = Inr titled_heading"
  by code_simp

lemma titled_blank_cleaned: "clean_structure plain_lib (titled (''    '' @ [lf])) ''docs'' normalizer_v2 = Inr titled_blank"
  by code_simp

theorem cleaning_provenance_is_exact_witness:
  "cn_text titled_heading = concat (map (\<lambda>sp. raw_text (whole_lines (titled (''# Hi'' @ [lf]))) (ks_start sp) (ks_end sp)) (cn_retained titled_heading))"
proof -
  have n: "cl_nfc plain_lib (to_lf (titled (''# Hi'' @ [lf]))) = titled (''# Hi'' @ [lf])" by code_simp
  have "\<not> cn_metadata_only titled_heading" by (simp add: titled_heading_def)
  from cleaning_provenance_is_exact [OF titled_heading_cleaned this] show ?thesis unfolding n by blast
qed

theorem metadata_blocks_misplaced_witness:
  "length (cn_blocks titled_blank) = 1 \<and> bl_from (hd (cn_blocks titled_blank))
    < length (concat (take (bl_line (hd (cn_blocks titled_blank)) - 1) (whole_lines (titled (''    '' @ [lf])))))"
proof -
  have n: "cl_nfc plain_lib (to_lf (titled (''    '' @ [lf]))) = titled (''    '' @ [lf])" by code_simp
  have b: "cn_metadata_only titled_blank" "hd (cn_blocks titled_blank) \<in> set (cn_blocks titled_blank)" "length (cn_blocks titled_blank) = 1"
    by (simp_all add: titled_blank_def)
  from metadata_blocks_misplaced [OF titled_blank_cleaned b(1,2)] b(3) show ?thesis unfolding n by blast
qed

end
