(* ===== verification/External_Sort.thy ===== *)
theory External_Sort
  imports Lab_Prelude
begin

text \<open>
  \<open>write_rows\<close> and \<open>external_sort\<close> of \<open>src/sparselab/corpus/split_runs.py\<close>: records are written as sorted
  runs of a bounded buffer, and at most thirty-two files at a time are merged until one is left.

  A file is the list of its lines. The encoding of a record as a line (canonical JSON and a line feed), its inverse
  and the SHA-256 function are the fields of \<open>row_codec\<close>; the order of keys is any linear order. Python's
  \<open>list.sort\<close> is the stable \<open>sort_key\<close>; \<open>heapq.merge\<close> yields the least head, of the first iterator among equals.
\<close>

section \<open>Writing\<close>

record 'r row_codec =
  rc_encode :: "'r \<Rightarrow> string"
  rc_decode :: "string \<Rightarrow> 'r"
  rc_sha256 :: "string \<Rightarrow> string"

datatype run_name = RunFile nat | MergeFile nat nat

record run_file =
  rf_name :: run_name
  rf_lines :: "string list"

record write_receipt =
  wr_name :: run_name
  wr_sha :: string
  wr_rows :: nat
  wr_bytes :: nat

definition line_bytes :: "string list \<Rightarrow> nat" where
  "line_bytes ls = sum_list (map length ls)"

text \<open>\<open>_write_raw\<close>: the receipt of a written file.\<close>

definition write_raw :: "'r row_codec \<Rightarrow> run_file \<Rightarrow> write_receipt" where
  "write_raw codec f = \<lparr>wr_name = rf_name f, wr_sha = rc_sha256 codec (concat (rf_lines f)),
     wr_rows = length (rf_lines f), wr_bytes = line_bytes (rf_lines f)\<rparr>"

section \<open>Runs\<close>

record 'k run_state =
  rs_files :: "run_file list"
  rs_batch :: "('k \<times> string) list"
  rs_size :: nat

definition sorted_run :: "nat \<Rightarrow> ('k::linorder \<times> string) list \<Rightarrow> run_file" where
  "sorted_run n batch = \<lparr>rf_name = RunFile n, rf_lines = map snd (sort_key fst batch)\<rparr>"

definition take_record :: "'r row_codec \<Rightarrow> ('r \<Rightarrow> 'k::linorder) \<Rightarrow> int \<Rightarrow> 'k run_state \<Rightarrow> 'r \<Rightarrow> 'k run_state" where
  "take_record codec key buffer s r =
     (let raw = rc_encode codec r; batch = rs_batch s @ [(key r, raw)]; size = rs_size s + length raw in
      if buffer \<le> int size
      then \<lparr>rs_files = rs_files s @ [sorted_run (length (rs_files s)) batch], rs_batch = [], rs_size = 0\<rparr>
      else s\<lparr>rs_batch := batch, rs_size := size\<rparr>)"

definition initial_runs :: "'r row_codec \<Rightarrow> ('r \<Rightarrow> 'k::linorder) \<Rightarrow> int \<Rightarrow> 'r list \<Rightarrow> run_file list" where
  "initial_runs codec key buffer rs =
     (let s = foldl (take_record codec key buffer) (\<lparr>rs_files = [], rs_batch = [], rs_size = 0\<rparr> :: 'k run_state) rs in
      if rs_batch s \<noteq> [] \<or> rs_files s = [] then rs_files s @ [sorted_run (length (rs_files s)) (rs_batch s)] else rs_files s)"

section \<open>Merging\<close>

text \<open>The position of the least head, the first among equals.\<close>

fun least_head :: "('a \<Rightarrow> 'k::linorder) \<Rightarrow> 'a list list \<Rightarrow> nat option" where
  "least_head f [] = None"
| "least_head f (xs # xss) = (case (xs, least_head f xss) of
     ([], None) \<Rightarrow> None
   | ([], Some i) \<Rightarrow> Some (Suc i)
   | (x # _, None) \<Rightarrow> Some 0
   | (x # _, Some i) \<Rightarrow> if f (hd (xss ! i)) < f x then Some (Suc i) else Some 0)"

lemma least_head_None: "least_head f xss = None \<longleftrightarrow> concat xss = []"
  by (induction xss) (auto split: list.splits option.splits)

lemma least_head_Some:
  assumes "least_head f xss = Some i"
  shows "i < length xss \<and> xss ! i \<noteq> [] \<and> (\<forall>j < i. xss ! j \<noteq> [] \<longrightarrow> f (hd (xss ! i)) < f (hd (xss ! j)))
    \<and> (\<forall>j < length xss. xss ! j \<noteq> [] \<longrightarrow> f (hd (xss ! i)) \<le> f (hd (xss ! j)))"
  using assms
proof (induction xss arbitrary: i)
  case (Cons xs xss)
  show ?case
  proof (cases "least_head f xss")
    case None
    then have "\<forall>j < length xss. xss ! j = []" by (simp add: least_head_None)
    with Cons.prems None show ?thesis by (auto simp: nth_Cons split: list.splits nat.splits)
  next
    case (Some k)
    note IH = Cons.IH [OF Some]
    show ?thesis
    proof (cases xs)
      case Nil
      with Cons.prems Some IH show ?thesis by (auto simp: nth_Cons split: nat.splits)
    next
      case (Cons x _)
      show ?thesis
      proof (cases "f (hd (xss ! k)) < f x")
        case True
        with Cons Cons.prems Some IH show ?thesis by (auto simp: nth_Cons split: nat.splits)
      next
        case False
        with Cons Cons.prems Some have i: "i = 0" by simp
        have "f x \<le> f (hd (xss ! j))" if "j < length xss" "xss ! j \<noteq> []" for j
          using IH that False by (meson dual_order.trans not_less)
        with i Cons show ?thesis by (auto simp: nth_Cons split: nat.splits)
      qed
    qed
  qed
qed simp

lemma size_update_tl:
  assumes "i < length xss" and "xss ! i \<noteq> []"
  shows "length (concat (xss[i := tl (xss ! i)])) < length (concat xss)"
proof -
  have "concat xss = concat (take i xss) @ xss ! i @ concat (drop (Suc i) xss)"
    by (subst id_take_nth_drop [OF assms(1)]) simp
  moreover have "concat (xss[i := tl (xss ! i)]) = concat (take i xss) @ tl (xss ! i) @ concat (drop (Suc i) xss)"
    by (simp add: upd_conv_take_nth_drop [OF assms(1)])
  ultimately show ?thesis using assms(2) by (simp add: length_tl)
qed

function merge_heads :: "('a \<Rightarrow> 'k::linorder) \<Rightarrow> 'a list list \<Rightarrow> 'a list" where
  "merge_heads f xss = (case least_head f xss of
     None \<Rightarrow> [] | Some i \<Rightarrow> hd (xss ! i) # merge_heads f (xss[i := tl (xss ! i)]))"
  by pat_completeness auto
termination
proof (relation "measure (\<lambda>(f, xss). length (concat xss))", rule wf_measure)
  fix f :: "'a \<Rightarrow> 'k::linorder" and xss i
  assume "least_head f xss = Some i"
  with least_head_Some [OF this] show "((f, xss[i := tl (xss ! i)]), f, xss) \<in> measure (\<lambda>(f, xss). length (concat xss))"
    using size_update_tl [of i xss] unfolding in_measure prod.case by blast
qed

declare merge_heads.simps [simp del]

text \<open>\<open>range(0, len(paths), FAN_IN)\<close>\<close>

definition fan_in :: nat where
  "fan_in = 32"

definition merge_group :: "'r row_codec \<Rightarrow> ('r \<Rightarrow> 'k::linorder) \<Rightarrow> run_file list \<Rightarrow> string list" where
  "merge_group codec key fs = merge_heads (\<lambda>line. key (rc_decode codec line)) (map rf_lines fs)"

definition merge_generation :: "'r row_codec \<Rightarrow> ('r \<Rightarrow> 'k::linorder) \<Rightarrow> nat \<Rightarrow> run_file list \<Rightarrow> run_file list" where
  "merge_generation codec key g fs =
     map (\<lambda>(start, fs). \<lparr>rf_name = MergeFile g (fan_in * start), rf_lines = merge_group codec key fs\<rparr>)
       (enumerate 0 (groups_of fan_in fs))"

lemma length_merge_generation: "length (merge_generation codec key g fs) = (length fs + 31) div 32"
  by (simp add: merge_generation_def length_groups fan_in_def)

text \<open>The loop: all files ever written and the paths left, with the generations done.\<close>

function merge_all :: "'r row_codec \<Rightarrow> ('r \<Rightarrow> 'k::linorder) \<Rightarrow> nat \<Rightarrow> run_file list \<Rightarrow> run_file list \<Rightarrow> run_file list \<times> run_file list \<times> nat" where
  "merge_all codec key g written fs =
     (if length fs \<le> 1 then (written, fs, g)
      else let merged = merge_generation codec key g fs in merge_all codec key (Suc g) (written @ merged) merged)"
  by pat_completeness auto
termination
proof (relation "measure (\<lambda>(codec, key, g, written, fs). length fs)", rule wf_measure)
  fix codec :: "'r row_codec" and key :: "'r \<Rightarrow> 'k::linorder" and g written fs merged
  assume "\<not> length fs \<le> 1" and "merged = merge_generation codec key g fs"
  then have "length merged = (length fs + 31) div 32" "length fs + 31 < length fs * 32" by (simp_all add: length_merge_generation)
  then have "length merged < length fs" using less_mult_imp_div_less [of "length fs + 31" "length fs" 32] by simp
  then show "((codec, key, Suc g, written @ merged, merged), codec, key, g, written, fs) \<in> measure (\<lambda>(codec, key, g, written, fs). length fs)"
    by simp
qed

declare merge_all.simps [simp del]

record sort_result =
  sr_receipt :: write_receipt
  sr_lines :: "string list"
  sr_runs :: nat
  sr_generations :: nat
  sr_written :: nat

definition external_sort :: "'r row_codec \<Rightarrow> ('r \<Rightarrow> 'k::linorder) \<Rightarrow> int \<Rightarrow> 'r list \<Rightarrow> sort_result" where
  "external_sort codec key buffer rs =
     (let runs = initial_runs codec key buffer rs; (written, fs, g) = merge_all codec key 0 runs runs in
      \<lparr>sr_receipt = write_raw codec (hd fs), sr_lines = rf_lines (hd fs), sr_runs = length runs, sr_generations = g,
       sr_written = sum_list (map (\<lambda>f. line_bytes (rf_lines f)) written)\<rparr>)"


section \<open>Stable sorting of parts\<close>

lemma sort_key_map_agree:
  assumes "\<forall>x \<in> set xs. f (g x) = h x"
  shows "map g (sort_key h xs) = sort_key f (map g xs)"
proof -
  have "map g (insort_key h x ys) = insort_key f (g x) (map g ys)" if "f (g x) = h x" "\<forall>y \<in> set ys. f (g y) = h y" for x ys
    using that by (induction ys) auto
  with assms show ?thesis by (induction xs) auto
qed

lemma sort_key_parts: "sort_key f (concat (map (sort_key f) xss)) = sort_key f (concat xss)"
proof (rule properties_for_sort_key)
  show "mset (sort_key f (concat xss)) = mset (concat (map (sort_key f) xss))" by (induction xss) simp_all
  show "filter (\<lambda>x. f k = f x) (sort_key f (concat xss)) = filter (\<lambda>x. f k = f x) (concat (map (sort_key f) xss))" for k
  proof -
    have "filter (\<lambda>x. f k = f x) (sort_key f xs) = filter (\<lambda>x. f k = f x) xs" for xs
      using sort_key_stable [of f "f k" xs] by (simp add: eq_commute)
    then show ?thesis by (simp add: filter_concat comp_def)
  qed
qed (rule sorted_sort_key)

lemma sort_key_first:
  assumes "\<forall>u \<in> set us. f x < f u" and "\<forall>v \<in> set vs. f x \<le> f v"
  shows "sort_key f (us @ x # vs) = x # sort_key f (us @ vs)"
proof (rule properties_for_sort_key)
  show "filter (\<lambda>y. f k = f y) (x # sort_key f (us @ vs)) = filter (\<lambda>y. f k = f y) (us @ x # vs)" for k
  proof -
    have "filter (\<lambda>y. f k = f y) (sort_key f (us @ vs)) = filter (\<lambda>y. f k = f y) (us @ vs)"
      using sort_key_stable [of f "f k" "us @ vs"] by (simp add: eq_commute)
    moreover have "filter (\<lambda>y. f k = f y) us = []" if "f k = f x" using assms(1) that by (auto simp: filter_empty_conv)
    ultimately show ?thesis by (cases "f k = f x") simp_all
  qed
  show "sorted (map f (x # sort_key f (us @ vs)))" using assms by (auto intro: less_imp_le)
qed simp

lemma sorted_hd_least: "sorted (map f xs) \<Longrightarrow> y \<in> set xs \<Longrightarrow> f (hd xs) \<le> f y"
  by (cases xs) auto

text \<open>Merging sorted iterators sorts their concatenation.\<close>

lemma merge_heads_sorts:
  assumes "\<forall>xs \<in> set xss. sorted (map f xs)"
  shows "merge_heads f xss = sort_key f (concat xss)"
  using assms
proof (induction f xss rule: merge_heads.induct)
  case (1 f xss)
  show ?case
  proof (cases "least_head f xss")
    case None
    then have "concat xss = []" by (simp only: least_head_None)
    with None show ?thesis by (subst merge_heads.simps) (simp del: concat_eq_Nil_conv)
  next
    case (Some i)
    note l = least_head_Some [OF Some]
    let ?x = "hd (xss ! i)" and ?us = "concat (take i xss)" and ?vs = "tl (xss ! i) @ concat (drop (Suc i) xss)"
    from l have i: "i < length xss" "xss ! i \<noteq> []" by auto
    have sorted_nth: "sorted (map f (xss ! j))" if "j < length xss" for j using 1(2) that by simp
    have "\<forall>xs \<in> set (xss[i := tl (xss ! i)]). sorted (map f xs)"
      using 1(2) sorted_nth [OF i(1)] set_update_subset_insert [of xss i "tl (xss ! i)"]
      by (metis in_mono insert_iff map_tl sorted_tl)
    from 1(1) [OF Some this] have "merge_heads f xss = ?x # sort_key f (concat (xss[i := tl (xss ! i)]))"
      by (subst merge_heads.simps) (simp add: Some)
    also have "concat (xss[i := tl (xss ! i)]) = ?us @ ?vs" by (simp add: upd_conv_take_nth_drop [OF i(1)])
    also have "?x # sort_key f (?us @ ?vs) = sort_key f (?us @ ?x # ?vs)"
    proof (rule sort_key_first [symmetric])
      show "\<forall>u \<in> set ?us. f ?x < f u"
      proof
        fix u assume "u \<in> set ?us"
        then obtain xs where "xs \<in> set (take i xss)" "u \<in> set xs" by auto
        then obtain j where j: "j < i" "j < length xss" "u \<in> set (xss ! j)" by (auto simp: in_set_conv_nth [of xs])
        then have "xss ! j \<noteq> []" by auto
        with l j(1) have "f ?x < f (hd (xss ! j))" by blast
        also have "\<dots> \<le> f u" by (rule sorted_hd_least [OF sorted_nth [OF j(2)] j(3)])
        finally show "f ?x < f u" .
      qed
      show "\<forall>v \<in> set ?vs. f ?x \<le> f v"
      proof
        fix v assume "v \<in> set ?vs"
        with list.set_sel(2) [OF i(2)] obtain xs where xs: "xs \<in> set xss" "v \<in> set xs"
          using i(1) by (auto dest: in_set_dropD nth_mem)
        then obtain j where j: "j < length xss" "v \<in> set (xss ! j)" by (auto simp: in_set_conv_nth [of xs])
        then have "xss ! j \<noteq> []" by auto
        with l j(1) have "f ?x \<le> f (hd (xss ! j))" by blast
        also have "\<dots> \<le> f v" by (rule sorted_hd_least [OF sorted_nth [OF j(1)] j(2)])
        finally show "f ?x \<le> f v" .
      qed
    qed
    also have "?us @ ?x # ?vs = concat xss" by (subst (4) id_take_nth_drop [OF i(1)]) (simp add: i(2))
    finally show ?thesis .
  qed
qed

section \<open>The runs\<close>

text \<open>
  The files of \<open>s\<close> are sorted consecutive parts of the encoded records so far, and the rest is in the
  buffer, which has the recorded size.
\<close>

definition runs_ok :: "'r row_codec \<Rightarrow> ('r \<Rightarrow> 'k::linorder) \<Rightarrow> 'r list \<Rightarrow> 'k run_state \<Rightarrow> bool" where
  "runs_ok codec key rs s \<longleftrightarrow> (\<exists>parts. map rf_lines (rs_files s) = map (sort_key (\<lambda>l. key (rc_decode codec l))) parts
     \<and> concat parts @ map snd (rs_batch s) = map (rc_encode codec) rs)
     \<and> (\<forall>p \<in> set (rs_batch s). fst p = key (rc_decode codec (snd p))) \<and> rs_size s = line_bytes (map snd (rs_batch s))"

lemma sorted_run_lines:
  assumes "\<forall>p \<in> set batch. fst p = f (snd p)"
  shows "rf_lines (sorted_run n batch) = sort_key f (map snd batch)"
  using sort_key_map_agree [of batch f snd fst] assms by (simp add: sorted_run_def)

lemma take_record_ok:
  assumes "runs_ok codec key rs s" and "rc_decode codec (rc_encode codec r) = r"
  shows "runs_ok codec key (rs @ [r]) (take_record codec key buffer s r)"
proof -
  let ?f = "\<lambda>l. key (rc_decode codec l)" and ?batch = "rs_batch s @ [(key r, rc_encode codec r)]"
  from assms(1) obtain parts where p: "map rf_lines (rs_files s) = map (sort_key ?f) parts"
      "concat parts @ map snd (rs_batch s) = map (rc_encode codec) rs" "\<forall>p \<in> set (rs_batch s). fst p = ?f (snd p)"
      "rs_size s = line_bytes (map snd (rs_batch s))"
    by (auto simp: runs_ok_def)
  from p(3) assms(2) have keys: "\<forall>p \<in> set ?batch. fst p = ?f (snd p)" by simp
  show ?thesis
  proof (cases "buffer \<le> int (rs_size s + length (rc_encode codec r))")
    case True
    have "rf_lines (sorted_run n ?batch) = sort_key ?f (map snd ?batch)" for n by (rule sorted_run_lines [OF keys])
    then have "map rf_lines (rs_files s @ [sorted_run n ?batch]) = map (sort_key ?f) (parts @ [map snd ?batch])" for n
      using p(1) by simp
    moreover have "concat (parts @ [map snd ?batch]) = map (rc_encode codec) (rs @ [r])" using p(2) by simp
    moreover have "take_record codec key buffer s r
        = \<lparr>rs_files = rs_files s @ [sorted_run (length (rs_files s)) ?batch], rs_batch = [], rs_size = 0\<rparr>"
      using True by (simp add: take_record_def Let_def)
    ultimately show ?thesis unfolding runs_ok_def
      by (intro conjI exI [of _ "parts @ [map snd ?batch]"]) (simp_all add: line_bytes_def)
  next
    case False
    with p keys show ?thesis by (auto simp: runs_ok_def take_record_def Let_def line_bytes_def)
  qed
qed

lemma take_records_ok:
  assumes "\<forall>r \<in> set rs. rc_decode codec (rc_encode codec r) = r" and "runs_ok codec key rs0 s"
  shows "runs_ok codec key (rs0 @ rs) (foldl (take_record codec key buffer) s rs)"
  using assms
proof (induction rs arbitrary: s rs0)
  case (Cons r rs)
  with take_record_ok [of codec key rs0 s r buffer] Cons.IH [of "rs0 @ [r]"] show ?case by simp
qed simp

lemma no_runs_ok: "runs_ok codec key [] \<lparr>rs_files = [], rs_batch = [], rs_size = 0\<rparr>"
  by (simp add: runs_ok_def line_bytes_def)

text \<open>The first files: sorted parts that make up all the records.\<close>

lemma initial_runs_parts:
  assumes "\<forall>r \<in> set rs. rc_decode codec (rc_encode codec r) = r"
  obtains parts where "map rf_lines (initial_runs codec key buffer rs) = map (sort_key (\<lambda>l. key (rc_decode codec l))) parts"
    and "concat parts = map (rc_encode codec) rs" and "initial_runs codec key buffer rs \<noteq> []"
proof -
  let ?f = "\<lambda>l. key (rc_decode codec l)"
  let ?s = "foldl (take_record codec key buffer) \<lparr>rs_files = [], rs_batch = [], rs_size = 0\<rparr> rs"
  from take_records_ok [OF assms no_runs_ok [of codec key], of buffer] obtain parts where
      p: "map rf_lines (rs_files ?s) = map (sort_key ?f) parts" "concat parts @ map snd (rs_batch ?s) = map (rc_encode codec) rs"
      "\<forall>p \<in> set (rs_batch ?s). fst p = ?f (snd p)"
    by (auto simp: runs_ok_def)
  show ?thesis
  proof (cases "rs_batch ?s \<noteq> [] \<or> rs_files ?s = []")
    case True
    then have runs: "initial_runs codec key buffer rs = rs_files ?s @ [sorted_run (length (rs_files ?s)) (rs_batch ?s)]"
      by (simp add: initial_runs_def Let_def)
    show ?thesis
      by (rule that [of "parts @ [map snd (rs_batch ?s)]"]) (use p runs sorted_run_lines [OF p(3)] in simp_all)
  next
    case False
    then have runs: "initial_runs codec key buffer rs = rs_files ?s" by (simp add: initial_runs_def Let_def)
    show ?thesis by (rule that [of parts]) (use p runs False in simp_all)
  qed
qed

section \<open>The generations\<close>

lemma merge_generation_lines:
  assumes "\<forall>f \<in> set fs. sorted (map (\<lambda>l. key (rc_decode codec l)) (rf_lines f))"
  shows "map rf_lines (merge_generation codec key g fs)
    = map (\<lambda>fs. sort_key (\<lambda>l. key (rc_decode codec l)) (concat (map rf_lines fs))) (groups_of fan_in fs)"
proof -
  have "concat (groups_of fan_in fs) = fs" by (rule groups_of_concat) (simp add: fan_in_def)
  then have "set grp \<subseteq> set fs" if "grp \<in> set (groups_of fan_in fs)" for grp
    using that by (metis UN_upper set_concat)
  with assms have "merge_group codec key grp = sort_key (\<lambda>l. key (rc_decode codec l)) (concat (map rf_lines grp))"
    if "grp \<in> set (groups_of fan_in fs)" for grp
    using that unfolding merge_group_def by (intro merge_heads_sorts) auto
  moreover have "map rf_lines (merge_generation codec key g fs) = map (merge_group codec key) (groups_of fan_in fs)"
  proof -
    have "map (h \<circ> snd) (enumerate 0 xs) = map h xs" for h :: "run_file list \<Rightarrow> string list" and xs
      by (simp only: map_map [symmetric] map_snd_enumerate)
    then show ?thesis by (simp add: merge_generation_def case_prod_unfold comp_def)
  qed
  ultimately show ?thesis by simp
qed

text \<open>All bytes of the files.\<close>

definition total_bytes :: "run_file list \<Rightarrow> nat" where
  "total_bytes fs = sum_list (map (\<lambda>f. line_bytes (rf_lines f)) fs)"

lemma line_bytes_simps [simp]:
  "line_bytes [] = 0" "line_bytes (xs @ ys) = line_bytes xs + line_bytes ys"
  by (simp_all add: line_bytes_def)

lemma line_bytes_sort [simp]: "line_bytes (sort_key f ls) = line_bytes ls"
  unfolding line_bytes_def by (metis mset_map mset_sort sum_mset_sum_list)

lemma line_bytes_concat: "line_bytes (concat lss) = sum_list (map line_bytes lss)"
  by (induction lss) simp_all

lemma total_bytes_lines: "total_bytes fs = line_bytes (concat (map rf_lines fs))"
  by (simp add: total_bytes_def line_bytes_concat comp_def)

lemma ceiling_le:
  fixes n m :: nat
  shows "(n + 31) div 32 \<le> m \<longleftrightarrow> n \<le> 32 * m"
  using div_less_iff_less_mult [of 32 "n + 31" "Suc m"] by (simp add: less_Suc_eq_le) linarith

lemma ceiling_power:
  fixes n :: nat
  shows "(n + 31) div 32 \<le> 32 ^ k \<longleftrightarrow> n \<le> 32 ^ Suc k"
  unfolding ceiling_le by simp

text \<open>One generation keeps the stable order of all lines, their bytes, and sorted files.\<close>

lemma merge_generation_ok:
  fixes codec :: "'r row_codec" and key :: "'r \<Rightarrow> 'k::linorder"
  defines "f \<equiv> \<lambda>l. key (rc_decode codec l)"
  assumes "\<forall>x \<in> set fs. sorted (map f (rf_lines x))"
  shows "\<forall>x \<in> set (merge_generation codec key g fs). sorted (map f (rf_lines x))"
    and "sort_key f (concat (map rf_lines (merge_generation codec key g fs))) = sort_key f (concat (map rf_lines fs))"
    and "total_bytes (merge_generation codec key g fs) = total_bytes fs"
proof -
  have groups: "concat (groups_of fan_in fs) = fs" by (rule groups_of_concat) (simp add: fan_in_def)
  note lines = merge_generation_lines [of fs key codec g, folded f_def, OF assms(2)]
  have parts: "map rf_lines (merge_generation codec key g fs) = map (sort_key f) (map (\<lambda>grp. concat (map rf_lines grp)) (groups_of fan_in fs))"
    using lines by simp
  have whole: "concat (map (\<lambda>grp. concat (map rf_lines grp)) (groups_of fan_in fs)) = concat (map rf_lines fs)"
  proof -
    have "concat (map (\<lambda>grp. concat (map rf_lines grp)) gs) = concat (map rf_lines (concat gs))" for gs
      by (induction gs) simp_all
    from this [of "groups_of fan_in fs"] show ?thesis unfolding groups .
  qed
  show "\<forall>x \<in> set (merge_generation codec key g fs). sorted (map f (rf_lines x))"
  proof
    fix x assume "x \<in> set (merge_generation codec key g fs)"
    then have "rf_lines x \<in> set (map rf_lines (merge_generation codec key g fs))" by simp
    then show "sorted (map f (rf_lines x))" unfolding parts by auto
  qed
  show "sort_key f (concat (map rf_lines (merge_generation codec key g fs))) = sort_key f (concat (map rf_lines fs))"
    unfolding parts sort_key_parts whole ..
  have "line_bytes (concat (map (sort_key f) xss)) = line_bytes (concat xss)" for xss by (induction xss) simp_all
  then show "total_bytes (merge_generation codec key g fs) = total_bytes fs"
    unfolding total_bytes_lines parts whole [symmetric] .
qed

lemma merge_all_ok:
  assumes "merge_all codec key g written fs = (out, ends, g')" and "fs \<noteq> []"
    and "\<forall>x \<in> set fs. sorted (map (\<lambda>l. key (rc_decode codec l)) (rf_lines x))"
  shows "\<exists>x k. ends = [x] \<and> rf_lines x = sort_key (\<lambda>l. key (rc_decode codec l)) (concat (map rf_lines fs)) \<and> g' = g + k
    \<and> total_bytes out = total_bytes written + k * total_bytes fs
    \<and> length fs \<le> 32 ^ k \<and> (0 < k \<longrightarrow> 32 ^ (k - 1) < length fs)"
  using assms
proof (induction codec key g written fs rule: merge_all.induct)
  case (1 codec key g written fs)
  let ?f = "\<lambda>l. key (rc_decode codec l)"
  show ?case
  proof (cases "length fs \<le> 1")
    case True
    with 1(3) obtain x where x: "fs = [x]" by (cases fs) auto
    with 1(2) True have "out = written \<and> ends = [x] \<and> g' = g" by (subst (asm) merge_all.simps) auto
    with 1(4) x show ?thesis by (intro exI [of _ x] exI [of _ 0]) (simp add: sort_key_id_if_sorted)
  next
    case False
    let ?m = "merge_generation codec key g fs"
    note ok = merge_generation_ok [OF 1(4), of g]
    have "?m \<noteq> []" using False length_merge_generation [of codec key g fs] by (cases ?m) auto
    moreover from 1(2) False have "merge_all codec key (Suc g) (written @ ?m) ?m = (out, ends, g')"
      by (subst (asm) merge_all.simps) (simp add: Let_def)
    ultimately obtain x k where x: "ends = [x]" "rf_lines x = sort_key ?f (concat (map rf_lines ?m))" "g' = Suc g + k"
        "total_bytes out = total_bytes (written @ ?m) + k * total_bytes ?m" "length ?m \<le> 32 ^ k" "0 < k \<longrightarrow> 32 ^ (k - 1) < length ?m"
      using 1(1) [OF False refl] ok(1) by auto
    have up: "length fs \<le> 32 ^ Suc k" using x(5) unfolding length_merge_generation ceiling_power .
    have low: "32 ^ k < length fs"
    proof (cases k)
      case 0
      with False show ?thesis by simp
    next
      case (Suc j)
      with x(6) have "\<not> (length fs + 31) div 32 \<le> 32 ^ j" unfolding length_merge_generation by simp
      then show ?thesis unfolding ceiling_power Suc by simp
    qed
    have "total_bytes (written @ ?m) = total_bytes written + total_bytes ?m" by (simp add: total_bytes_def)
    with x ok(2,3) up low show ?thesis by (intro exI [of _ x] exI [of _ "Suc k"]) simp
  qed
qed


section \<open>The whole sort\<close>

text \<open>
  C24. The external sort is the stable sort. If decoding a line gives its record back, the file that is left
  holds the lines of the records in the order of one stable sort in memory, whatever the size of the
  buffer; the receipt counts its rows and bytes and has its digest. The number of generations is the number of
  digits of the runs in base thirty-two, and every byte is written once per generation and once before.
\<close>

theorem external_sort_is_sort:
  assumes "\<forall>r \<in> set rs. rc_decode codec (rc_encode codec r) = r"
  shows "let out = external_sort codec key buffer rs; ls = map (rc_encode codec) (sort_key key rs) in
    sr_lines out = ls \<and> wr_sha (sr_receipt out) = rc_sha256 codec (concat ls)
    \<and> wr_rows (sr_receipt out) = length rs \<and> wr_bytes (sr_receipt out) = line_bytes ls
    \<and> sr_runs out \<le> 32 ^ sr_generations out \<and> (sr_generations out = 0 \<or> 32 ^ (sr_generations out - 1) < sr_runs out)
    \<and> sr_written out = Suc (sr_generations out) * line_bytes ls"
proof -
  let ?f = "\<lambda>l. key (rc_decode codec l)" and ?runs = "initial_runs codec key buffer rs"
  obtain parts where p: "map rf_lines ?runs = map (sort_key ?f) parts" "concat parts = map (rc_encode codec) rs" "?runs \<noteq> []"
    by (rule initial_runs_parts [OF assms])
  have sorted: "\<forall>x \<in> set ?runs. sorted (map ?f (rf_lines x))"
  proof
    fix x assume "x \<in> set ?runs"
    then have "rf_lines x \<in> set (map rf_lines ?runs)" by simp
    then show "sorted (map ?f (rf_lines x))" unfolding p(1) by auto
  qed
  have lines: "sort_key ?f (concat (map rf_lines ?runs)) = map (rc_encode codec) (sort_key key rs)"
    unfolding p(1) sort_key_parts p(2) by (rule sort_key_map_agree [symmetric]) (use assms in simp)
  have bytes: "total_bytes ?runs = line_bytes (map (rc_encode codec) (sort_key key rs))"
    unfolding total_bytes_lines lines [symmetric] line_bytes_sort ..
  obtain out ends g where m: "merge_all codec key 0 ?runs ?runs = (out, ends, g)" by (cases "merge_all codec key 0 ?runs ?runs") auto
  from merge_all_ok [OF m p(3) sorted] obtain x where x: "ends = [x]" "rf_lines x = map (rc_encode codec) (sort_key key rs)"
      "total_bytes out = total_bytes ?runs + g * total_bytes ?runs" "length ?runs \<le> 32 ^ g" "0 < g \<longrightarrow> 32 ^ (g - 1) < length ?runs"
    unfolding lines by auto
  then show ?thesis by (auto simp: external_sort_def Let_def m write_raw_def bytes total_bytes_def [symmetric])
qed

definition buffer_ok :: "int \<Rightarrow> 'k run_state \<Rightarrow> bool" where
  "buffer_ok buffer s \<longleftrightarrow> int (rs_size s) < buffer \<and> rs_size s = line_bytes (map snd (rs_batch s))"

lemma take_record_buffer: "0 < buffer \<Longrightarrow> buffer_ok buffer s \<Longrightarrow> buffer_ok buffer (take_record codec key buffer s r)"
  by (simp add: buffer_ok_def take_record_def Let_def line_bytes_def)

text \<open>What the buffer holds in memory: fewer bytes than its size before each record.\<close>

theorem sort_buffer_is_bounded:
  assumes "0 < buffer"
  shows "buffer_ok buffer (foldl (take_record codec key buffer) \<lparr>rs_files = [], rs_batch = [], rs_size = 0\<rparr> rs)"
proof -
  have "buffer_ok buffer s \<Longrightarrow> buffer_ok buffer (foldl (take_record codec key buffer) s rs)" for s
    by (induction rs arbitrary: s) (simp_all add: take_record_buffer assms)
  moreover have "buffer_ok buffer \<lparr>rs_files = [], rs_batch = [], rs_size = 0\<rparr>" using assms by (simp add: buffer_ok_def line_bytes_def)
  ultimately show ?thesis by blast
qed

definition sample_codec :: "string row_codec" where
  "sample_codec = \<lparr>rc_encode = \<lambda>s. s @ [CHR 0x0A], rc_decode = butlast, rc_sha256 = \<lambda>s. s\<rparr>"

theorem external_sort_is_sort_witness:
  "sr_lines (external_sort sample_codec length 4 [''bb'', ''a'', ''cc'', ''d'']) = map (\<lambda>s. s @ [CHR 0x0A]) [''a'', ''d'', ''bb'', ''cc'']
    \<and> sr_runs (external_sort sample_codec length 4 [''bb'', ''a'', ''cc'', ''d'']) \<le> 32 ^ sr_generations (external_sort sample_codec length 4 [''bb'', ''a'', ''cc'', ''d''])"
proof -
  have "\<forall>r \<in> set [''bb'', ''a'', ''cc'', ''d'']. rc_decode sample_codec (rc_encode sample_codec r) = r" by (simp add: sample_codec_def)
  from external_sort_is_sort [OF this, of length 4] show ?thesis by (simp add: Let_def) (simp add: sample_codec_def)
qed

theorem sort_buffer_is_bounded_witness:
  "int (rs_size (foldl (take_record sample_codec length 4) \<lparr>rs_files = [], rs_batch = [], rs_size = 0\<rparr> [''a''])) < 4"
  using sort_buffer_is_bounded [of 4 sample_codec length "[''a'']"] by (simp add: buffer_ok_def)

end
