(* ===== verification/Story_Packing.thy ===== *)
theory Story_Packing
  imports Complex_Main Lab_Prelude
begin

text \<open>
  \<open>src/sparselab/data/story_packing.py\<close> and \<open>checkpoint_exposure\<close> of \<open>src/sparselab/training/exposure.py\<close>:
  groups of whole documents as updates of comparable size, in two layouts with the same targets.

  Token ids are integers, positions natural numbers. \<open>numpy.searchsorted\<close> is used on ascending arrays
  only, where it counts the smaller (\<open>left\<close>) or the smaller and equal entries (\<open>right\<close>). The canonical digest of the offsets
  is an argument.
\<close>

section \<open>Construction\<close>

datatype story_layout = StoryLayout | ContiguousLayout

datatype story_error = EmptyIds | InvalidBounds | NoTerminalEos | BudgetNotPositive | UpdatesNotPositive | InvalidCursor | InvalidExposure

record story_dataset =
  sd_ids :: "int list"
  sd_seq :: nat
  sd_eos :: int
  sd_layout :: story_layout
  sd_targets :: nat
  sd_ends :: "nat list"
  sd_groups :: "nat list"

definition scan_slice :: nat where
  "scan_slice = 1048576"

text \<open>\<open>np.flatnonzero(slice == eos) + offset + 1\<close>\<close>

definition slice_ends :: "int \<Rightarrow> nat \<Rightarrow> int list \<Rightarrow> nat list" where
  "slice_ends eos offset xs = map (\<lambda>i. i + offset + 1) (filter (\<lambda>i. xs ! i = eos) [0 ..< length xs])"

fun scan_ends :: "int \<Rightarrow> nat \<Rightarrow> int list list \<Rightarrow> nat list" where
  "scan_ends eos offset [] = []"
| "scan_ends eos offset (xs # xss) = slice_ends eos offset xs @ scan_ends eos (offset + scan_slice) xss"

definition add_group :: "nat \<Rightarrow> nat list \<Rightarrow> nat \<Rightarrow> nat list" where
  "add_group targets groups e = (if targets \<le> e - last groups then groups @ [e] else groups)"

definition group_offsets :: "nat \<Rightarrow> nat list \<Rightarrow> nat \<Rightarrow> nat list" where
  "group_offsets targets ends n = (let groups = foldl (add_group targets) [0] ends in
     if last groups \<noteq> n then groups @ [n] else groups)"

definition story_dataset_of :: "int list \<Rightarrow> int \<Rightarrow> int \<Rightarrow> story_layout \<Rightarrow> int \<Rightarrow> story_error + story_dataset" where
  "story_dataset_of ids seq_len eos layout targets =
     bindE (guardE (ids \<noteq> []) EmptyIds) (\<lambda>_.
     bindE (guardE (0 < seq_len \<and> 0 < targets) InvalidBounds) (\<lambda>_.
     bindE (guardE (last ids = eos) NoTerminalEos) (\<lambda>_.
     let ends = scan_ends eos 0 (groups_of scan_slice ids) in
     Inr \<lparr>sd_ids = ids, sd_seq = nat seq_len, sd_eos = eos, sd_layout = layout, sd_targets = nat targets,
       sd_ends = ends, sd_groups = group_offsets (nat targets) ends (length ids)\<rparr>)))"

definition story_count :: "story_dataset \<Rightarrow> nat" where
  "story_count d = length (sd_groups d) - 1"

section \<open>Budgets\<close>

definition searchsorted_left :: "nat list \<Rightarrow> nat \<Rightarrow> nat" where
  "searchsorted_left xs v = length (takeWhile (\<lambda>x. x < v) xs)"

definition searchsorted_right :: "nat list \<Rightarrow> nat \<Rightarrow> nat" where
  "searchsorted_right xs v = length (takeWhile (\<lambda>x. x \<le> v) xs)"

definition horizon :: "story_dataset \<Rightarrow> int \<Rightarrow> story_error + nat" where
  "horizon d budget =
     (if budget \<le> 0 then Inl BudgetNotPositive
      else let passes = nat budget div length (sd_ids d); tail = nat budget mod length (sd_ids d) in
        Inr (passes * story_count d + (if tail \<noteq> 0 then searchsorted_left (sd_groups d) tail else 0)))"

definition targets_for_updates :: "story_dataset \<Rightarrow> int \<Rightarrow> story_error + nat" where
  "targets_for_updates d updates =
     (if updates \<le> 0 then Inl UpdatesNotPositive
      else Inr (nat updates div story_count d * length (sd_ids d) + sd_groups d ! (nat updates mod story_count d)))"

section \<open>Rows of one update\<close>

record story_row =
  st_inputs :: "int list"
  st_labels :: "int list"

definition padded_row :: "story_dataset \<Rightarrow> nat \<Rightarrow> nat \<Rightarrow> story_row" where
  "padded_row d start stop =
     (let count = stop - start;
          inputs = (replicate (sd_seq d) (sd_eos d))[0 := if start = 0 then sd_eos d else sd_ids d ! (start - 1)]
      in \<lparr>st_inputs = take 1 inputs @ take (count - 1) (drop start (sd_ids d)) @ drop (max 1 count) inputs,
          st_labels = take count (drop start (sd_ids d)) @ drop count (replicate (sd_seq d) (- 100))\<rparr>)"

text \<open>\<open>while start < boundary\<close>\<close>

function rows_to :: "story_dataset \<Rightarrow> nat \<Rightarrow> nat \<Rightarrow> story_row list" where
  "rows_to d start boundary =
     (if start < boundary \<and> 0 < sd_seq d
      then let stop = min (start + sd_seq d) boundary in padded_row d start stop # rows_to d stop boundary
      else [])"
  by pat_completeness auto
termination
  by (relation "measure (\<lambda>(d, start, boundary). boundary - start)") auto

declare rows_to.simps [simp del]

fun rows_over :: "story_dataset \<Rightarrow> nat \<Rightarrow> nat list \<Rightarrow> story_row list" where
  "rows_over d start [] = []"
| "rows_over d start (b # bs) = rows_to d start b @ rows_over d (max start b) bs"

definition story_boundaries :: "story_dataset \<Rightarrow> nat \<Rightarrow> nat \<Rightarrow> nat list" where
  "story_boundaries d start stop = (case sd_layout d of
     StoryLayout \<Rightarrow> (let lo = searchsorted_right (sd_ends d) start; hi = searchsorted_right (sd_ends d) stop in
       take (hi - lo) (drop lo (sd_ends d)) @ [stop])
   | ContiguousLayout \<Rightarrow> [stop])"

definition update_rows :: "story_dataset \<Rightarrow> int \<Rightarrow> int \<Rightarrow> story_error + story_row list" where
  "update_rows d g remaining =
     (if \<not> (0 \<le> g \<and> g < int (story_count d)) \<or> remaining \<le> 0 then Inl InvalidCursor
      else let start = sd_groups d ! nat g; stop = min (sd_groups d ! Suc (nat g)) (start + nat remaining) in
        Inr (rows_over d start (story_boundaries d start stop)))"

section \<open>Costs and exposure\<close>

record layout_cost =
  lc_rows :: nat
  lc_max_rows :: nat
  lc_max_group :: nat
  lc_padded :: int
  lc_max_padded :: int

definition ceiling_rows :: "nat \<Rightarrow> nat \<Rightarrow> nat" where
  "ceiling_rows seq n = (n + seq - 1) div seq"

fun differences :: "nat list \<Rightarrow> nat list" where
  "differences (a # b # xs) = (b - a) # differences (b # xs)"
| "differences _ = []"

fun running_sums :: "nat \<Rightarrow> nat list \<Rightarrow> nat list" where
  "running_sums s [] = [s]"
| "running_sums s (x # xs) = s # running_sums (s + x) xs"

definition layout_rows :: "story_dataset \<Rightarrow> story_layout \<Rightarrow> nat list" where
  "layout_rows d layout = (case layout of
     ContiguousLayout \<Rightarrow> map (ceiling_rows (sd_seq d)) (differences (sd_groups d))
   | StoryLayout \<Rightarrow>
       (let cumulative = running_sums 0 (map (ceiling_rows (sd_seq d)) (differences (0 # sd_ends d)));
            indices = map (searchsorted_right (sd_ends d)) (sd_groups d)
        in differences (map (\<lambda>i. cumulative ! i) indices)))"

text \<open>\<open>argmax\<close>: the first position of the maximum.\<close>

definition layout_costs :: "story_dataset \<Rightarrow> story_layout \<Rightarrow> layout_cost" where
  "layout_costs d layout =
     (let rows = layout_rows d layout; targets = differences (sd_groups d);
          padded = map (\<lambda>(r, t). int r * int (sd_seq d) - int t) (zip rows targets)
      in \<lparr>lc_rows = sum_list rows, lc_max_rows = Max (set rows), lc_max_group = length (takeWhile (\<lambda>r. r \<noteq> Max (set rows)) rows),
          lc_padded = sum_list padded, lc_max_padded = Max (set padded)\<rparr>)"

record pass_supply =
  su_raw :: nat
  su_full :: nat
  su_eligible :: nat
  su_skipped :: nat
  su_trailing :: nat
  su_targets :: nat

definition story_supply :: "story_dataset \<Rightarrow> pass_supply" where
  "story_supply d = \<lparr>su_raw = length (sd_ids d), su_full = story_count d, su_eligible = story_count d,
     su_skipped = 0, su_trailing = 0, su_targets = length (sd_ids d)\<rparr>"

record exposure =
  ex_targets :: int
  ex_passes :: rat
  ex_epoch :: int
  ex_next :: int
  ex_completed :: int
  ex_next_eligible :: int
  ex_update_seconds :: "rat option"
  ex_loop_seconds :: "rat option"
  ex_invocation :: rat

text \<open>\<open>tokens / targets\<close> is the rational it rounds.\<close>

definition checkpoint_exposure :: "pass_supply \<Rightarrow> int \<Rightarrow> int \<Rightarrow> int \<Rightarrow> rat \<Rightarrow> rat \<Rightarrow> rat \<Rightarrow> bool \<Rightarrow> bool \<Rightarrow> story_error + exposure" where
  "checkpoint_exposure s tokens epoch next_block wall invocation update wall_complete updates_complete =
     (let blocks = int (su_eligible s) in
      if blocks \<le> 0 \<or> su_targets s = 0 \<or> \<not> (0 \<le> next_block \<and> next_block \<le> blocks) then Inl InvalidExposure
      else Inr \<lparr>ex_targets = tokens, ex_passes = of_int tokens / of_nat (su_targets s), ex_epoch = epoch, ex_next = next_block,
        ex_completed = epoch + next_block div blocks, ex_next_eligible = next_block mod blocks,
        ex_update_seconds = (if updates_complete then Some update else None),
        ex_loop_seconds = (if wall_complete then Some wall else None), ex_invocation = invocation\<rparr>)"


section \<open>Documents and groups\<close>

text \<open>Scanning by slices finds the end of every document.\<close>

lemma slice_ends_append: "slice_ends eos offset (xs @ ys) = slice_ends eos offset xs @ slice_ends eos (offset + length xs) ys"
proof -
  have "filter (\<lambda>i. (xs @ ys) ! i = eos) [0 ..< length (xs @ ys)]
      = filter (\<lambda>i. xs ! i = eos) [0 ..< length xs] @ map (\<lambda>i. i + length xs) (filter (\<lambda>i. ys ! i = eos) [0 ..< length ys])"
  proof -
    have "map (\<lambda>i. i + length xs) [0 ..< length ys] = [length xs ..< length xs + length ys]"
      by (simp add: map_add_upt add.commute)
    then have "[0 ..< length (xs @ ys)] = [0 ..< length xs] @ map (\<lambda>i. i + length xs) [0 ..< length ys]"
      by (simp only: length_append upt_add_eq_append [OF le0])
    moreover have "filter (\<lambda>i. (xs @ ys) ! i = eos) [0 ..< length xs] = filter (\<lambda>i. xs ! i = eos) [0 ..< length xs]"
      by (rule filter_cong) (simp_all add: nth_append)
    ultimately show ?thesis by (simp only: filter_append filter_map) (simp add: comp_def nth_append)
  qed
  then show ?thesis by (simp add: slice_ends_def comp_def add_ac)
qed

lemma scan_ends_all: "scan_ends eos offset (groups_of scan_slice xs) = slice_ends eos offset xs"
proof (induction scan_slice xs arbitrary: offset rule: groups_of.induct)
  case (1 xs)
  show ?case
  proof (cases "xs = []")
    case True
    then show ?thesis by (simp add: groups_of.simps slice_ends_def)
  next
    case False
    have pos: "scan_slice \<noteq> 0" by (simp add: scan_slice_def)
    have "slice_ends eos offset xs = slice_ends eos offset (take scan_slice xs @ drop scan_slice xs)" by simp
    also have "\<dots> = slice_ends eos offset (take scan_slice xs) @ slice_ends eos (offset + scan_slice) (drop scan_slice xs)"
      unfolding slice_ends_append by (cases "scan_slice \<le> length xs") (simp_all add: min_def slice_ends_def)
    finally show ?thesis using 1 False pos by (subst groups_of.simps) simp
  qed
qed

lemma sorted_slice_ends: "sorted_wrt (<) (slice_ends eos offset xs)"
  unfolding slice_ends_def by (simp add: sorted_wrt_map sorted_wrt_filter)

lemma in_slice_ends: "e \<in> set (slice_ends eos 0 ids) \<longleftrightarrow> 0 < e \<and> e \<le> length ids \<and> ids ! (e - 1) = eos"
  by (cases e) (auto simp: slice_ends_def)

lemma last_slice_ends:
  assumes "ids \<noteq> []" and "last ids = eos"
  shows "slice_ends eos 0 ids \<noteq> [] \<and> last (slice_ends eos 0 ids) = length ids"
proof -
  have "slice_ends eos 0 (butlast ids @ [last ids]) = slice_ends eos 0 (butlast ids) @ [length ids]"
    unfolding slice_ends_append using assms by (simp add: slice_ends_def)
  then show ?thesis using assms(1) by simp
qed

text \<open>Groups: ascending from zero to the end, cut at ends of documents.\<close>

definition groups_ok :: "nat list \<Rightarrow> nat list \<Rightarrow> bool" where
  "groups_ok ends gs \<longleftrightarrow> gs \<noteq> [] \<and> hd gs = 0 \<and> sorted_wrt (<) gs \<and> set gs \<subseteq> insert 0 (set ends)"

lemma below_last:
  fixes xs :: "nat list"
  shows "sorted_wrt (<) xs \<Longrightarrow> y \<in> set xs \<Longrightarrow> y \<le> last xs"
  by (induction xs) (auto split: if_splits intro: less_imp_le)

lemma sorted_wrt_snoc: "sorted_wrt (<) (xs @ [x]) \<longleftrightarrow> sorted_wrt (<) xs \<and> (xs = [] \<or> last xs < (x :: nat))"
  by (auto simp: sorted_wrt_append dest: last_in_set below_last le_less_trans)

lemma add_groups_ok:
  assumes "groups_ok all gs" and "sorted_wrt (<) ends" and "\<forall>e \<in> set ends. last gs < e" and "set ends \<subseteq> set all" and "0 < targets"
  shows "groups_ok all (foldl (add_group targets) gs ends) \<and> (ends = [] \<or> last (foldl (add_group targets) gs ends) \<le> last ends)
    \<and> last gs \<le> last (foldl (add_group targets) gs ends)"
  using assms
proof (induction ends arbitrary: gs)
  case (Cons e ends)
  from Cons.prems have e: "last gs < e" "\<forall>x \<in> set ends. e < x" by auto
  let ?gs = "add_group targets gs e"
  have ok: "groups_ok all ?gs" and l: "last gs \<le> last ?gs" "last ?gs \<le> e"
    using Cons.prems(1,4) e(1) by (auto simp: groups_ok_def add_group_def sorted_wrt_snoc)
  with e Cons.prems have "groups_ok all (foldl (add_group targets) ?gs ends) \<and> (ends = [] \<or> last (foldl (add_group targets) ?gs ends) \<le> last ends)
      \<and> last ?gs \<le> last (foldl (add_group targets) ?gs ends)"
    by (intro Cons.IH) auto
  with l show ?case by (cases ends) auto
qed simp

lemma group_offsets_ok:
  assumes "sorted_wrt (<) ends" and "\<forall>e \<in> set ends. 0 < e" and "ends \<noteq> []" and "last ends = n" and "0 < targets"
  shows "groups_ok ends (group_offsets targets ends n) \<and> last (group_offsets targets ends n) = n"
proof -
  have "groups_ok ends [0]" by (simp add: groups_ok_def)
  from add_groups_ok [OF this assms(1) _ subset_refl assms(5)] assms
  have "groups_ok ends (foldl (add_group targets) [0] ends)" "last (foldl (add_group targets) [0] ends) \<le> n" by auto
  moreover have "n \<in> set ends" using assms(3,4) by auto
  ultimately show ?thesis by (auto simp: group_offsets_def Let_def groups_ok_def sorted_wrt_snoc)
qed

definition story_ok :: "story_dataset \<Rightarrow> bool" where
  "story_ok d \<longleftrightarrow> sd_ids d \<noteq> [] \<and> 0 < sd_seq d \<and> sd_ends d = slice_ends (sd_eos d) 0 (sd_ids d)
     \<and> last (sd_ids d) = sd_eos d \<and> groups_ok (sd_ends d) (sd_groups d) \<and> last (sd_groups d) = length (sd_ids d)"

lemma story_dataset_ok:
  assumes "story_dataset_of ids seq_len eos layout targets = Inr d"
  shows "story_ok d \<and> sd_ids d = ids \<and> sd_eos d = eos \<and> sd_layout d = layout \<and> sd_seq d = nat seq_len"
proof -
  from assms have d: "ids \<noteq> []" "0 < seq_len" "0 < targets" "last ids = eos"
      "d = \<lparr>sd_ids = ids, sd_seq = nat seq_len, sd_eos = eos, sd_layout = layout, sd_targets = nat targets,
         sd_ends = slice_ends eos 0 ids, sd_groups = group_offsets (nat targets) (slice_ends eos 0 ids) (length ids)\<rparr>"
    by (auto simp: story_dataset_of_def Let_def scan_ends_all)
  have "groups_ok (slice_ends eos 0 ids) (group_offsets (nat targets) (slice_ends eos 0 ids) (length ids))
      \<and> last (group_offsets (nat targets) (slice_ends eos 0 ids) (length ids)) = length ids"
    using last_slice_ends [OF d(1,4)] d(3) by (intro group_offsets_ok sorted_slice_ends) (auto simp: in_slice_ends)
  with d show ?thesis by (simp add: story_ok_def)
qed


section \<open>Budgets and updates\<close>

lemma sorted_takeWhile:
  fixes xs :: "nat list"
  assumes "sorted_wrt (<) xs" and "\<And>x y. x \<le> y \<Longrightarrow> P y \<Longrightarrow> P x" and "j < length xs"
  shows "P (xs ! j) \<longleftrightarrow> j < length (takeWhile P xs)"
  using assms(1,3)
proof (induction xs arbitrary: j)
  case (Cons x xs)
  show ?case
  proof (cases j)
    case (Suc k)
    with Cons.prems have "x < xs ! k" by auto
    with assms(2) [of x "xs ! k"] Cons Suc show ?thesis by auto
  qed simp
qed simp

lemma left_iff: "sorted_wrt (<) xs \<Longrightarrow> j < length xs \<Longrightarrow> xs ! j < v \<longleftrightarrow> j < searchsorted_left xs v"
  unfolding searchsorted_left_def by (rule sorted_takeWhile) auto

lemma right_iff: "sorted_wrt (<) xs \<Longrightarrow> j < length xs \<Longrightarrow> xs ! j \<le> v \<longleftrightarrow> j < searchsorted_right xs v"
  unfolding searchsorted_right_def by (rule sorted_takeWhile) auto

lemma story_groups:
  assumes "story_ok d"
  shows "sorted_wrt (<) (sd_groups d)" and "sd_groups d ! 0 = 0" and "sd_groups d ! story_count d = length (sd_ids d)"
    and "length (sd_groups d) = Suc (story_count d)" and "0 < story_count d" and "0 < length (sd_ids d)"
proof -
  from assms have g: "sd_groups d \<noteq> []" "hd (sd_groups d) = 0" "sorted_wrt (<) (sd_groups d)" "last (sd_groups d) = length (sd_ids d)" "sd_ids d \<noteq> []"
    by (auto simp: story_ok_def groups_ok_def)
  then show "sorted_wrt (<) (sd_groups d)" "sd_groups d ! 0 = 0" "sd_groups d ! story_count d = length (sd_ids d)"
    "length (sd_groups d) = Suc (story_count d)" "0 < length (sd_ids d)"
    by (auto simp: story_count_def hd_conv_nth last_conv_nth)
  from g show "0 < story_count d" by (cases "sd_groups d"; cases "tl (sd_groups d)") (auto simp: story_count_def)
qed

lemma group_below:
  assumes "story_ok d" and "j < story_count d"
  shows "sd_groups d ! j < length (sd_ids d)"
  using sorted_wrt_nth_less [OF story_groups(1) [OF assms(1)] assms(2)] story_groups(3,4) [OF assms(1)] by simp

text \<open>
  The horizon is the least number of updates whose targets reach the budget. For a dataset that the
  constructor accepted and positive arguments both functions return, and so many updates of a fresh run have
  at least the targets of a budget exactly if they are at least the horizon of the budget.
\<close>

theorem horizon_is_least:
  assumes "story_dataset_of ids seq_len eos layout targets = Inr d" and "0 < budget" and "0 < updates"
  shows "\<exists>h t. horizon d budget = Inr h \<and> targets_for_updates d updates = Inr t \<and> (budget \<le> int t \<longleftrightarrow> int h \<le> updates)"
proof -
  from story_dataset_ok [OF assms(1)] have ok: "story_ok d" by simp
  note g = story_groups [OF ok]
  let ?n = "length (sd_ids d)" and ?c = "story_count d"
  define p r where "p = nat budget div ?n" and "r = nat budget mod ?n"
  define q j where "q = nat updates div ?c" and "j = nat updates mod ?c"
  define l where "l = (if r \<noteq> 0 then searchsorted_left (sd_groups d) r else 0)"
  have b: "nat budget = p * ?n + r" "r < ?n" using g(6) by (simp_all add: p_def r_def)
  have u: "nat updates = q * ?c + j" "j < ?c" using g(5) by (simp_all add: q_def j_def)
  have jl: "r \<le> sd_groups d ! j \<longleftrightarrow> l \<le> j"
    using left_iff [OF g(1), of j r] u(2) g(4) by (auto simp: l_def not_less [symmetric])
  have "\<not> ?c < searchsorted_left (sd_groups d) r" using left_iff [OF g(1), of ?c r] g(3,4) b(2) by simp
  then have lc: "l \<le> ?c" by (simp add: l_def)
  have off: "sd_groups d ! j < ?n" by (rule group_below [OF ok u(2)])
  have "p * ?n + r \<le> q * ?n + sd_groups d ! j \<longleftrightarrow> p * ?c + l \<le> q * ?c + j"
  proof (cases p q rule: linorder_cases)
    case less
    then have "Suc p * ?n \<le> q * ?n" "Suc p * ?c \<le> q * ?c" by (intro mult_le_mono1; simp)+
    with b(2) lc show ?thesis by simp
  next
    case equal
    with jl show ?thesis by simp
  next
    case greater
    then have "Suc q * ?n \<le> p * ?n" "Suc q * ?c \<le> p * ?c" by (intro mult_le_mono1; simp)+
    with off u(2) show ?thesis by simp
  qed
  moreover have "horizon d budget = Inr (p * ?c + l)" "targets_for_updates d updates = Inr (q * ?n + sd_groups d ! j)"
    using assms(2,3) by (simp_all add: horizon_def targets_for_updates_def Let_def p_def r_def q_def j_def l_def)
  moreover have "budget \<le> int x \<longleftrightarrow> p * ?n + r \<le> x" "int x \<le> updates \<longleftrightarrow> x \<le> q * ?c + j" for x
    using assms(2,3) unfolding b(1) [symmetric] u(1) [symmetric] by linarith+
  ultimately show ?thesis by simp
qed

section \<open>What an update delivers\<close>

text \<open>The pairs of a context token and a target that a row trains on.\<close>

definition delivered :: "story_row \<Rightarrow> (int \<times> int) list" where
  "delivered r = filter (\<lambda>(_, y). y \<noteq> - 100) (zip (st_inputs r) (st_labels r))"

definition story_pair :: "story_dataset \<Rightarrow> nat \<Rightarrow> int \<times> int" where
  "story_pair d i = (if i = 0 then sd_eos d else sd_ids d ! (i - 1), sd_ids d ! i)"

lemma padded_row_eq:
  assumes "start < stop" and "stop \<le> start + sd_seq d"
  shows "padded_row d start stop =
    \<lparr>st_inputs = fst (story_pair d start) # take (stop - start - 1) (drop start (sd_ids d)) @ replicate (sd_seq d - (stop - start)) (sd_eos d),
     st_labels = take (stop - start) (drop start (sd_ids d)) @ replicate (sd_seq d - (stop - start)) (- 100)\<rparr>"
proof -
  obtain seq where seq: "sd_seq d = Suc seq" using assms by (cases "sd_seq d") auto
  have "max 1 (stop - start) = Suc (stop - start - 1)" using assms(1) by simp
  then show ?thesis using assms by (simp add: padded_row_def Let_def seq story_pair_def Suc_diff_le)
qed

lemma padded_row_delivers:
  assumes "start < stop" and "stop \<le> length (sd_ids d)" and "stop \<le> start + sd_seq d" and "- 100 \<notin> set (sd_ids d)"
  shows "delivered (padded_row d start stop) = map (story_pair d) [start ..< stop]"
    and "length (st_inputs (padded_row d start stop)) = sd_seq d" and "length (st_labels (padded_row d start stop)) = sd_seq d"
proof -
  let ?c = "stop - start"
  let ?x = "fst (story_pair d start) # take (?c - 1) (drop start (sd_ids d))" and ?y = "take ?c (drop start (sd_ids d))"
  have len: "length ?x = ?c" "length ?y = ?c" using assms(1,2) by simp_all
  then have "zip (?x @ replicate (sd_seq d - ?c) (sd_eos d)) (?y @ replicate (sd_seq d - ?c) (- 100))
      = zip ?x ?y @ replicate (sd_seq d - ?c) (sd_eos d, - 100)"
    by (simp only: zip_append zip_replicate) simp
  moreover have pairs: "zip ?x ?y = map (story_pair d) [start ..< stop]"
  proof (rule nth_equalityI)
    fix i assume "i < length (zip ?x ?y)"
    with len have i: "i < ?c" by simp
    with assms(1,2) len show "zip ?x ?y ! i = map (story_pair d) [start ..< stop] ! i"
      by (cases i) (simp_all add: story_pair_def)
  qed (use len in simp)
  moreover have "filter (\<lambda>(_, y). y \<noteq> - 100) (map (story_pair d) [start ..< stop]) = map (story_pair d) [start ..< stop]"
  proof -
    have "snd (story_pair d i) \<noteq> - 100" if "i \<in> set [start ..< stop]" for i
    proof -
      from that assms(2) have "sd_ids d ! i \<in> set (sd_ids d)" by simp
      with assms(4) show ?thesis by (auto simp: story_pair_def)
    qed
    then show ?thesis by (auto intro!: filter_True simp: split_def)
  qed
  moreover have "filter (\<lambda>(_, y). y \<noteq> - 100) (replicate k (sd_eos d, - 100 :: int)) = []" for k by (induction k) simp_all
  ultimately show "delivered (padded_row d start stop) = map (story_pair d) [start ..< stop]"
    unfolding delivered_def padded_row_eq [OF assms(1,3)] story_row.select_convs by (simp only: append_Cons [symmetric] filter_append) simp
  show "length (st_inputs (padded_row d start stop)) = sd_seq d" "length (st_labels (padded_row d start stop)) = sd_seq d"
    unfolding padded_row_eq [OF assms(1,3)] using assms(1-3) by simp_all
qed

text \<open>What several rows deliver.\<close>

definition rows_deliver :: "story_dataset \<Rightarrow> story_row list \<Rightarrow> nat \<Rightarrow> nat \<Rightarrow> bool" where
  "rows_deliver d rows start stop \<longleftrightarrow> concat (map delivered rows) = map (story_pair d) [start ..< stop]
     \<and> (\<forall>r \<in> set rows. length (st_inputs r) = sd_seq d \<and> length (st_labels r) = sd_seq d)"

lemma rows_deliver_append:
  assumes "rows_deliver d xs a b" and "rows_deliver d ys b c" and "a \<le> b" and "b \<le> c"
  shows "rows_deliver d (xs @ ys) a c"
proof -
  from assms(3,4) have "[a ..< c] = [a ..< b] @ [b ..< c]" by (metis le_add_diff_inverse upt_add_eq_append)
  with assms(1,2) show ?thesis by (auto simp: rows_deliver_def)
qed

lemma rows_to_deliver:
  assumes "start \<le> boundary" and "boundary \<le> length (sd_ids d)" and "0 < sd_seq d" and "- 100 \<notin> set (sd_ids d)"
  shows "rows_deliver d (rows_to d start boundary) start boundary"
  using assms(1)
proof (induction "boundary - start" arbitrary: start rule: less_induct)
  case less
  show ?case
  proof (cases "start < boundary")
    case False
    with less.prems have "start = boundary" by simp
    then show ?thesis by (subst rows_to.simps) (simp add: rows_deliver_def)
  next
    case True
    let ?stop = "min (start + sd_seq d) boundary"
    have s: "start < ?stop" "?stop \<le> boundary" "?stop \<le> start + sd_seq d" "?stop \<le> length (sd_ids d)"
      using True assms(2,3) by auto
    have row: "rows_deliver d [padded_row d start ?stop] start ?stop"
      using padded_row_delivers [OF s(1,4,3) assms(4)] by (simp add: rows_deliver_def)
    from s have "boundary - ?stop < boundary - start" by linarith
    then have rest: "rows_deliver d (rows_to d ?stop boundary) ?stop boundary" by (rule less.hyps) (rule s(2))
    have "rows_to d start boundary = [padded_row d start ?stop] @ rows_to d ?stop boundary"
      using True assms(3) by (subst rows_to.simps) (simp add: Let_def)
    with rows_deliver_append [OF row rest] s show ?thesis by simp
  qed
qed

lemma rows_over_deliver:
  assumes "sorted (start # bs)" and "\<forall>b \<in> set bs. b \<le> length (sd_ids d)" and "bs \<noteq> []" and "0 < sd_seq d" and "- 100 \<notin> set (sd_ids d)"
  shows "rows_deliver d (rows_over d start bs) start (last bs)"
  using assms(1-3)
proof (induction bs arbitrary: start)
  case (Cons b bs)
  then have b: "start \<le> b" "b \<le> length (sd_ids d)" "sorted (b # bs)" by auto
  note first = rows_to_deliver [OF b(1,2) assms(4,5)]
  show ?case
  proof (cases "bs = []")
    case True
    with first b(1) show ?thesis by simp
  next
    case False
    with Cons.IH [OF b(3)] Cons.prems(2) have "rows_deliver d (rows_over d b bs) b (last bs)" by simp
    from rows_deliver_append [OF first this b(1)] b False show ?thesis by (simp add: max_absorb2)
  qed
qed simp

text \<open>The boundaries of an update ascend from its start to its end.\<close>

lemma slice_between:
  assumes "sorted_wrt (<) ends" and "e \<in> set (take (searchsorted_right ends stop - searchsorted_right ends start) (drop (searchsorted_right ends start) ends))"
  shows "start < e \<and> e \<le> stop"
proof -
  let ?lo = "searchsorted_right ends start" and ?hi = "searchsorted_right ends stop"
  from assms(2) obtain k where k: "k < length (take (?hi - ?lo) (drop ?lo ends))" "e = take (?hi - ?lo) (drop ?lo ends) ! k"
    by (auto simp: in_set_conv_nth)
  then have j: "?lo + k < ?hi" "?lo + k < length ends" "e = ends ! (?lo + k)" by auto
  with right_iff [OF assms(1) j(2), of stop] right_iff [OF assms(1) j(2), of start] show ?thesis by simp
qed

lemma story_boundaries_sorted:
  assumes "story_ok d" and "start \<le> stop"
  shows "sorted (start # story_boundaries d start stop)" and "\<forall>b \<in> set (story_boundaries d start stop). b \<le> stop"
    and "story_boundaries d start stop \<noteq> [] \<and> last (story_boundaries d start stop) = stop"
proof -
  let ?mid = "take (searchsorted_right (sd_ends d) stop - searchsorted_right (sd_ends d) start) (drop (searchsorted_right (sd_ends d) start) (sd_ends d))"
  from assms(1) have ends: "sorted_wrt (<) (sd_ends d)" by (simp add: story_ok_def sorted_slice_ends)
  then have "sorted_wrt (<) ?mid" by (intro sorted_wrt_take sorted_wrt_drop)
  then have "sorted ?mid" by (rule sorted_wrt_mono_rel [rotated]) simp
  with slice_between [OF ends, of _ stop start] assms(2)
  have mid: "sorted (start # ?mid @ [stop])" by (auto simp: sorted_append intro: less_imp_le)
  then show "sorted (start # story_boundaries d start stop)" "\<forall>b \<in> set (story_boundaries d start stop). b \<le> stop"
    "story_boundaries d start stop \<noteq> [] \<and> last (story_boundaries d start stop) = stop"
    using assms(2) by (auto simp: story_boundaries_def Let_def sorted_append split: story_layout.splits)
qed

lemma update_rows_deliver:
  assumes "story_ok d" and "- 100 \<notin> set (sd_ids d)" and "g < story_count d" and "0 < remaining"
  shows "\<exists>rows. update_rows d (int g) remaining = Inr rows
    \<and> rows_deliver d rows (sd_groups d ! g) (min (sd_groups d ! Suc g) (sd_groups d ! g + nat remaining))"
proof -
  let ?start = "sd_groups d ! g" and ?stop = "min (sd_groups d ! Suc g) (sd_groups d ! g + nat remaining)"
  note sg = story_groups [OF assms(1)]
  have "?start < sd_groups d ! Suc g" using sorted_wrt_nth_less [OF sg(1)] sg(4) assms(3) by simp
  then have le: "?start \<le> ?stop" by simp
  have "sd_groups d ! Suc g \<le> length (sd_ids d)"
  proof (cases "Suc g = story_count d")
    case True
    with sg(3) show ?thesis by simp
  next
    case False
    with assms(3) group_below [OF assms(1), of "Suc g"] show ?thesis by simp
  qed
  then have top: "?stop \<le> length (sd_ids d)" by simp
  from assms(1) have seq: "0 < sd_seq d" by (simp add: story_ok_def)
  note bs = story_boundaries_sorted [OF assms(1) le]
  have "\<forall>b \<in> set (story_boundaries d ?start ?stop). b \<le> length (sd_ids d)" using bs(2) top by (meson order_trans)
  from rows_over_deliver [OF bs(1) this conjunct1 [OF bs(3)] seq assms(2)]
  have "rows_deliver d (rows_over d ?start (story_boundaries d ?start ?stop)) ?start ?stop" unfolding conjunct2 [OF bs(3)] .
  then show ?thesis using assms(3,4) unfolding update_rows_def Let_def by simp
qed

lemma consecutive_slices:
  assumes "\<forall>g < k. offs g \<le> offs (Suc g)"
  shows "concat (map (\<lambda>g. map f [offs g ..< offs (Suc g)]) [0 ..< k]) = map f [offs 0 ..< offs k] \<and> offs 0 \<le> offs k"
  using assms
proof (induction k)
  case (Suc k)
  then have "concat (map (\<lambda>g. map f [offs g ..< offs (Suc g)]) [0 ..< k]) = map f [offs 0 ..< offs k]" "offs 0 \<le> offs k" "offs k \<le> offs (Suc k)"
    by auto
  then show ?case using upt_add_eq_append [of "offs 0" "offs k" "offs (Suc k) - offs k"] by simp
qed simp

lemma take_slice: "take n (map f [a ..< b]) = map f [a ..< min b (a + n)]"
  by (cases "a + n \<le> b") (simp_all add: take_map min_def)

lemma story_pairs_all:
  assumes "sd_ids d \<noteq> []"
  shows "map (story_pair d) [0 ..< length (sd_ids d)] = zip (sd_eos d # butlast (sd_ids d)) (sd_ids d)"
  by (rule nth_equalityI) (use assms in \<open>auto simp: story_pair_def nth_Cons' nth_butlast\<close>)

text \<open>
  The group that starts at a position, read off the tokens: it ends after an end-of-story token, as early as it has its targets, or at
  the end of the tokens.
\<close>

definition story_group :: "int list \<Rightarrow> int \<Rightarrow> nat \<Rightarrow> nat \<Rightarrow> nat \<Rightarrow> bool" where
  "story_group ids eos targets a b \<longleftrightarrow> a < b \<and> b \<le> length ids \<and> ids ! (b - 1) = eos \<and> (a + targets \<le> b \<or> b = length ids)
     \<and> (\<forall>e. a < e \<and> e < b \<and> ids ! (e - 1) = eos \<longrightarrow> e < a + targets)"

definition group_step :: "nat set \<Rightarrow> nat \<Rightarrow> nat \<Rightarrow> nat \<Rightarrow> bool" where
  "group_step ends targets a b \<longleftrightarrow> a < b \<and> b \<in> ends \<and> a + targets \<le> b \<and> (\<forall>e \<in> ends. a < e \<and> e < b \<longrightarrow> e < a + targets)"

definition groups_upto :: "nat set \<Rightarrow> nat \<Rightarrow> nat set \<Rightarrow> nat list \<Rightarrow> bool" where
  "groups_upto ends targets seen gs \<longleftrightarrow> gs \<noteq> [] \<and> last gs \<in> insert 0 seen \<and> (\<forall>e \<in> seen. last gs < e \<longrightarrow> e < last gs + targets)
     \<and> (\<forall>g. Suc g < length gs \<longrightarrow> group_step ends targets (gs ! g) (gs ! Suc g))"

lemma last_step: "gs \<noteq> [] \<Longrightarrow> Suc g < length (gs @ [e]) \<Longrightarrow>
    Suc g < length gs \<and> (gs @ [e]) ! g = gs ! g \<and> (gs @ [e]) ! Suc g = gs ! Suc g \<or> (gs @ [e]) ! g = last gs \<and> (gs @ [e]) ! Suc g = e"
proof -
  assume gs: "gs \<noteq> []" and g: "Suc g < length (gs @ [e])"
  show ?thesis
  proof (cases "Suc g < length gs")
    case False
    with g have "length gs = Suc g" by simp
    then show ?thesis using gs by (simp add: nth_append last_conv_nth)
  qed (simp add: nth_append)
qed

lemma add_group_upto:
  assumes "groups_upto (set (seen @ e # rest)) targets (set seen) gs" and "sorted_wrt (<) (0 # seen @ e # rest)"
  shows "groups_upto (set (seen @ e # rest)) targets (set (seen @ [e])) (add_group targets gs e)"
proof -
  from assms(1) have gs: "gs \<noteq> []" "last gs \<in> insert 0 (set seen)" "\<forall>x \<in> set seen. last gs < x \<longrightarrow> x < last gs + targets"
      "\<forall>g. Suc g < length gs \<longrightarrow> group_step (set (seen @ e # rest)) targets (gs ! g) (gs ! Suc g)" by (auto simp: groups_upto_def)
  from assms(2) have order: "\<forall>x \<in> set seen. x < e" "\<forall>x \<in> set rest. e < x" "0 < e" by (auto simp: sorted_wrt_append)
  with gs(2) have e: "last gs < e" by auto
  show ?thesis
  proof (cases "targets \<le> e - last gs")
    case False
    with gs e show ?thesis by (auto simp: groups_upto_def add_group_def)
  next
    case True
    have "group_step (set (seen @ e # rest)) targets (last gs) e"
      using True e gs(3) order(2) by (auto simp: group_step_def)
    then have "group_step (set (seen @ e # rest)) targets ((gs @ [e]) ! g) ((gs @ [e]) ! Suc g)" if "Suc g < length (gs @ [e])" for g
      using last_step [OF gs(1) that] gs(4) by auto
    then show ?thesis using True order(1) by (auto simp: groups_upto_def add_group_def)
  qed
qed

lemma add_groups_upto:
  "groups_upto (set (seen @ rest)) targets (set seen) gs \<Longrightarrow> sorted_wrt (<) (0 # seen @ rest)
    \<Longrightarrow> groups_upto (set (seen @ rest)) targets (set (seen @ rest)) (foldl (add_group targets) gs rest)"
proof (induction rest arbitrary: seen gs)
  case (Cons e rest)
  from Cons.IH [of "seen @ [e]" "add_group targets gs e"] add_group_upto [OF Cons.prems] Cons.prems(2) show ?case by simp
qed simp

lemma group_offsets_groups:
  assumes "sorted_wrt (<) (0 # ends)" and "ends \<noteq> []" and "last ends = n" and "g < length (group_offsets targets ends n) - 1"
  shows "(let a = group_offsets targets ends n ! g; b = group_offsets targets ends n ! Suc g in
    a < b \<and> b \<in> set ends \<and> (a + targets \<le> b \<or> b = n) \<and> (\<forall>e \<in> set ends. a < e \<and> e < b \<longrightarrow> e < a + targets))"
proof -
  define gs where "gs = foldl (add_group targets) [0] ends"
  have "groups_upto (set ends) targets {} [0]" by (simp add: groups_upto_def)
  then have "groups_upto (set ends) targets (set ends) gs" using add_groups_upto [of "[]" ends targets "[0]"] assms(1) by (simp add: gs_def)
  then have gs: "gs \<noteq> []" "last gs \<in> insert 0 (set ends)" "\<forall>x \<in> set ends. last gs < x \<longrightarrow> x < last gs + targets"
      "\<forall>g. Suc g < length gs \<longrightarrow> group_step (set ends) targets (gs ! g) (gs ! Suc g)" by (auto simp: groups_upto_def)
  have n: "n \<in> set ends" using assms(2,3) by auto
  have "last gs \<le> n" using gs(2) below_last [of "0 # ends"] assms(1-3) by auto
  show ?thesis
  proof (cases "last gs = n")
    case True
    then have "group_offsets targets ends n = gs" by (simp add: group_offsets_def gs_def Let_def)
    with gs(4) assms(4) show ?thesis by (auto simp: group_step_def Let_def)
  next
    case False
    with \<open>last gs \<le> n\<close> have less: "last gs < n" by simp
    have out: "group_offsets targets ends n = gs @ [n]" using False by (simp add: group_offsets_def gs_def Let_def)
    from assms(4) have "Suc g < length (gs @ [n])" by (simp add: out)
    from last_step [OF gs(1) this] show ?thesis
      unfolding out using gs(3,4) less n by (auto simp: group_step_def Let_def)
  qed
qed

lemma story_dataset_groups:
  assumes "story_dataset_of ids seq_len eos layout targets = Inr d"
  shows "sd_groups d = group_offsets (nat targets) (slice_ends eos 0 ids) (length ids)"
    and "g < story_count d \<Longrightarrow> story_group ids eos (nat targets) (sd_groups d ! g) (sd_groups d ! Suc g)"
proof -
  from assms have d: "ids \<noteq> []" "last ids = eos" "sd_groups d = group_offsets (nat targets) (slice_ends eos 0 ids) (length ids)"
    by (auto simp: story_dataset_of_def Let_def scan_ends_all)
  show "sd_groups d = group_offsets (nat targets) (slice_ends eos 0 ids) (length ids)" by (rule d(3))
  assume "g < story_count d"
  then have g: "g < length (group_offsets (nat targets) (slice_ends eos 0 ids) (length ids)) - 1" by (simp add: story_count_def d(3))
  have "sorted_wrt (<) (0 # slice_ends eos 0 ids)" using sorted_slice_ends by (simp add: in_slice_ends)
  from group_offsets_groups [OF this _ _ g] last_slice_ends [OF d(1,2)]
  show "story_group ids eos (nat targets) (sd_groups d ! g) (sd_groups d ! Suc g)"
    unfolding d(3) by (auto simp: story_group_def in_slice_ends Let_def)
qed

text \<open>One dataset, one update.\<close>

lemma update_delivers_group:
  assumes "story_dataset_of ids seq_len eos layout targets = Inr d" and "- 100 \<notin> set ids" and "g < story_count d" and "0 < remaining"
  shows "\<exists>rows. update_rows d (int g) remaining = Inr rows
    \<and> concat (map delivered rows) = take (nat remaining) (drop (sd_groups d ! g) (take (sd_groups d ! Suc g) (zip (eos # butlast ids) ids)))
    \<and> (\<forall>r \<in> set rows. length (st_inputs r) = nat seq_len \<and> length (st_labels r) = nat seq_len)"
proof -
  from story_dataset_ok [OF assms(1)] have ok: "story_ok d" and d: "sd_ids d = ids" "sd_eos d = eos" "sd_seq d = nat seq_len" by auto
  let ?a = "sd_groups d ! g" and ?b = "sd_groups d ! Suc g"
  have b: "?b \<le> length ids" using story_dataset_groups(2) [OF assms(1,3)] by (simp add: story_group_def)
  obtain rows where rows: "update_rows d (int g) remaining = Inr rows" "rows_deliver d rows ?a (min ?b (?a + nat remaining))"
    using update_rows_deliver [OF ok _ assms(3,4)] assms(2) d(1) by auto
  have "drop ?a (take ?b (zip (eos # butlast ids) ids)) = map (story_pair d) [?a ..< ?b]"
  proof -
    have "zip (eos # butlast ids) ids = map (story_pair d) [0 ..< length ids]"
      using story_pairs_all [of d] story_groups(6) [OF ok] by (simp add: d)
    then show ?thesis using b by (simp add: take_map drop_map)
  qed
  then have "take (nat remaining) (drop ?a (take ?b (zip (eos # butlast ids) ids))) = map (story_pair d) [?a ..< min ?b (?a + nat remaining)]"
    by (simp only: take_slice)
  with rows show ?thesis by (auto simp: rows_deliver_def d)
qed

lemma groups_partition:
  assumes "sorted_wrt (<) gs" and "length gs = Suc k" and "gs ! 0 = 0" and "gs ! k = length xs"
  shows "concat (map (\<lambda>g. drop (gs ! g) (take (gs ! Suc g) xs)) [0 ..< k]) = xs"
proof -
  have mono: "\<forall>g < k. gs ! g \<le> gs ! Suc g" using sorted_wrt_nth_less [OF assms(1)] assms(2) by (simp add: less_imp_le)
  have below: "gs ! Suc g \<le> length xs" if "g < k" for g
    using sorted_wrt_nth_less [OF assms(1), of "Suc g" k] assms(2,4) that by (cases "Suc g = k") (auto simp: less_imp_le)
  have "drop (gs ! g) (take (gs ! Suc g) xs) = map (\<lambda>i. xs ! i) [gs ! g ..< gs ! Suc g]" if "g < k" for g
    by (rule nth_equalityI) (use below [OF that] in simp_all)
  then have slices: "map (\<lambda>g. drop (gs ! g) (take (gs ! Suc g) xs)) [0 ..< k] = map (\<lambda>g. map (\<lambda>i. xs ! i) [gs ! g ..< gs ! Suc g]) [0 ..< k]"
    by (intro map_cong) simp_all
  show ?thesis unfolding slices conjunct1 [OF consecutive_slices [OF mono, of "\<lambda>i. xs ! i"]] assms(3,4) by (rule map_nth)
qed

text \<open>
  C25. Both layouts train on the same. Of two datasets that the constructor made of the same tokens, in the two layouts,
  the groups are the same intervals: they cover the tokens, each ends after an end-of-story token, as early as it has the
  targets of an update. With any remaining budget an update delivers, in either layout, exactly the tokens of its interval up to the
  budget as targets, each once and in order, each with the stored token before it as context (the first with the end-of-story
  token), in rows of the sequence length; and the updates of a pass deliver all stored tokens once.
\<close>

theorem layouts_deliver_the_same:
  assumes "story_dataset_of ids seq_len eos StoryLayout targets = Inr d" and "story_dataset_of ids seq_len eos ContiguousLayout targets = Inr d'"
    and "- 100 \<notin> set ids"
  shows "sd_groups d' = sd_groups d \<and> story_count d' = story_count d
    \<and> sd_groups d ! 0 = 0 \<and> sd_groups d ! story_count d = length ids
    \<and> (\<forall>g < story_count d. story_group ids eos (nat targets) (sd_groups d ! g) (sd_groups d ! Suc g))
    \<and> (\<forall>g remaining. g < story_count d \<and> 0 < remaining \<longrightarrow>
        (\<exists>rows rows'. update_rows d (int g) remaining = Inr rows \<and> update_rows d' (int g) remaining = Inr rows'
          \<and> concat (map delivered rows) = take (nat remaining) (drop (sd_groups d ! g) (take (sd_groups d ! Suc g) (zip (eos # butlast ids) ids)))
          \<and> concat (map delivered rows') = concat (map delivered rows)
          \<and> (\<forall>r \<in> set rows \<union> set rows'. length (st_inputs r) = nat seq_len \<and> length (st_labels r) = nat seq_len)))
    \<and> concat (map (\<lambda>g. drop (sd_groups d ! g) (take (sd_groups d ! Suc g) (zip (eos # butlast ids) ids))) [0 ..< story_count d])
        = zip (eos # butlast ids) ids"
proof -
  have same: "sd_groups d' = sd_groups d" by (simp add: story_dataset_groups(1) [OF assms(1)] story_dataset_groups(1) [OF assms(2)])
  then have count: "story_count d' = story_count d" by (simp add: story_count_def)
  from story_dataset_ok [OF assms(1)] have ok: "story_ok d" and d: "sd_ids d = ids" by auto
  note sg = story_groups [OF ok, unfolded d]
  have "length (zip (eos # butlast ids) ids) = length ids" using sg(6) by simp
  with groups_partition [OF sg(1,4,2), of "zip (eos # butlast ids) ids"] sg(3)
  have pass: "concat (map (\<lambda>g. drop (sd_groups d ! g) (take (sd_groups d ! Suc g) (zip (eos # butlast ids) ids))) [0 ..< story_count d])
      = zip (eos # butlast ids) ids" by simp
  have update: "\<exists>rows rows'. update_rows d (int g) remaining = Inr rows \<and> update_rows d' (int g) remaining = Inr rows'
          \<and> concat (map delivered rows) = take (nat remaining) (drop (sd_groups d ! g) (take (sd_groups d ! Suc g) (zip (eos # butlast ids) ids)))
          \<and> concat (map delivered rows') = concat (map delivered rows)
          \<and> (\<forall>r \<in> set rows \<union> set rows'. length (st_inputs r) = nat seq_len \<and> length (st_labels r) = nat seq_len)"
    if "g < story_count d" "0 < remaining" for g remaining
  proof -
    from update_delivers_group [OF assms(1,3) that] obtain rows where rows: "update_rows d (int g) remaining = Inr rows"
        "concat (map delivered rows) = take (nat remaining) (drop (sd_groups d ! g) (take (sd_groups d ! Suc g) (zip (eos # butlast ids) ids)))"
        "\<forall>r \<in> set rows. length (st_inputs r) = nat seq_len \<and> length (st_labels r) = nat seq_len" by blast
    from update_delivers_group [OF assms(2,3), unfolded same count, OF that] obtain rows' where rows': "update_rows d' (int g) remaining = Inr rows'"
        "concat (map delivered rows') = take (nat remaining) (drop (sd_groups d ! g) (take (sd_groups d ! Suc g) (zip (eos # butlast ids) ids)))"
        "\<forall>r \<in> set rows'. length (st_inputs r) = nat seq_len \<and> length (st_labels r) = nat seq_len" by blast
    show ?thesis by (intro exI [of _ rows] exI [of _ rows'] conjI) (use rows rows' in auto)
  qed
  show ?thesis using same count sg(2,3) story_dataset_groups(2) [OF assms(1)] update pass by blast
qed

text \<open>An example: two documents, five stored tokens, groups of at least three targets.\<close>

definition two_stories :: "story_layout \<Rightarrow> story_dataset" where
  "two_stories layout = \<lparr>sd_ids = [5, 7, 0, 6, 0], sd_seq = 2, sd_eos = 0, sd_layout = layout, sd_targets = 3,
     sd_ends = [3, 5], sd_groups = [0, 3, 5]\<rparr>"

lemma two_stories_accepted: "story_dataset_of [5, 7, 0, 6, 0] 2 0 layout 3 = Inr (two_stories layout)"
proof -
  have "slice_ends 0 0 [5, 7, 0, 6, 0 :: int] = [3, 5]" by code_simp
  then show ?thesis
    by (simp add: story_dataset_of_def Let_def scan_ends_all two_stories_def group_offsets_def add_group_def)
qed

theorem horizon_is_least_witness:
  "\<exists>h t. horizon (two_stories StoryLayout) 7 = Inr h \<and> targets_for_updates (two_stories StoryLayout) 3 = Inr t \<and> (7 \<le> int t \<longleftrightarrow> int h \<le> 3)"
  using horizon_is_least [OF two_stories_accepted [of StoryLayout], of 7 3] by simp

theorem layouts_deliver_the_same_witness:
  "\<exists>rows rows'. update_rows (two_stories StoryLayout) 0 2 = Inr rows \<and> update_rows (two_stories ContiguousLayout) 0 2 = Inr rows'
    \<and> concat (map delivered rows) = [(0, 5), (5, 7)] \<and> concat (map delivered rows') = [(0, 5), (5, 7)]
    \<and> story_group [5, 7, 0, 6, 0] 0 3 3 5"
proof -
  have c: "story_count (two_stories StoryLayout) = 2" "sd_groups (two_stories StoryLayout) = [0, 3, 5]"
    by (simp_all add: story_count_def two_stories_def)
  have "- 100 \<notin> set [5, 7, 0, 6, 0 :: int]" by simp
  note both = layouts_deliver_the_same [OF two_stories_accepted two_stories_accepted this, unfolded c]
  have "\<forall>g < 2. story_group [5, 7, 0, 6, 0] 0 (nat 3) ([0, 3, 5] ! g) ([0, 3, 5] ! Suc g)" using both by blast
  from this [rule_format, of 1] have last: "story_group [5, 7, 0, 6, 0] 0 3 3 5" by simp
  have "(0 :: nat) < 2 \<and> (0 :: int) < 2" by simp
  with both obtain rows rows' where "update_rows (two_stories StoryLayout) (int 0) 2 = Inr rows" "update_rows (two_stories ContiguousLayout) (int 0) 2 = Inr rows'"
      "concat (map delivered rows) = take (nat 2) (drop ([0, 3, 5] ! 0) (take ([0, 3, 5] ! Suc 0) (zip (0 # butlast [5, 7, 0, 6, 0]) [5, 7, 0, 6, 0])))"
      "concat (map delivered rows') = concat (map delivered rows)" by blast
  then show ?thesis using last by (intro exI [of _ rows] exI [of _ rows']) (simp add: numeral_2_eq_2)
qed

section \<open>Costs\<close>

lemma rows_to_length: "0 < sd_seq d \<Longrightarrow> length (rows_to d start boundary) = ceiling_rows (sd_seq d) (boundary - start)"
proof (induction "boundary - start" arbitrary: start rule: less_induct)
  case less
  show ?case
  proof (cases "start < boundary")
    case False
    then show ?thesis using less.prems by (subst rows_to.simps) (simp add: ceiling_rows_def)
  next
    case True
    let ?s = "sd_seq d" and ?n = "boundary - start"
    let ?stop = "min (start + ?s) boundary"
    have step: "length (rows_to d start boundary) = Suc (length (rows_to d ?stop boundary))"
      using True less.prems by (subst rows_to.simps) (simp add: Let_def)
    have "length (rows_to d ?stop boundary) = ceiling_rows ?s (boundary - ?stop)"
      by (rule less.hyps) (use True less.prems in auto)
    also have "\<dots> = ceiling_rows ?s (?n - ?s)" by (simp add: min_def)
    finally have rest: "length (rows_to d ?stop boundary) = ceiling_rows ?s (?n - ?s)" .
    have "ceiling_rows ?s ?n = Suc (ceiling_rows ?s (?n - ?s))"
      unfolding ceiling_rows_def by (rule ceiling_step) (use True less.prems in simp_all)
    with step rest True show ?thesis by simp
  qed
qed

lemma ceiling_rows_mono: "m \<le> n \<Longrightarrow> ceiling_rows seq m \<le> ceiling_rows seq n"
  unfolding ceiling_rows_def by (intro div_le_mono) simp

lemma rows_over_length:
  assumes "sorted (start # bs)" and "0 < sd_seq d"
  shows "length (rows_over d start bs) = sum_list (map (ceiling_rows (sd_seq d)) (differences (start # bs)))"
  using assms(1) by (induction bs arbitrary: start) (simp_all add: rows_to_length assms(2) max_absorb2)

text \<open>A clipped update has at most the rows of the whole update.\<close>

lemma rows_over_clipped:
  assumes "sorted (start # bs)" and "bs \<noteq> []" and "start \<le> s" and "s \<le> last bs" and "0 < sd_seq d"
  shows "length (rows_over d start (filter (\<lambda>b. b \<le> s) (butlast bs) @ [s])) \<le> length (rows_over d start bs)"
  using assms(1-4)
proof (induction bs arbitrary: start)
  case (Cons b bs)
  show ?case
  proof (cases "bs = []")
    case True
    with Cons.prems show ?thesis by (simp add: rows_to_length assms(5) ceiling_rows_mono)
  next
    case False
    from Cons.prems have sb: "start \<le> b" "sorted (b # bs)" by auto
    show ?thesis
    proof (cases "b \<le> s")
      case True
      with Cons.IH [of b] Cons.prems sb False show ?thesis by (simp add: max_absorb2)
    next
      case le: False
      then have none: "filter (\<lambda>x. x \<le> s) (butlast bs) = []"
        using sb(2) by (auto simp: filter_empty_conv dest!: in_set_butlastD)
      from le have "ceiling_rows (sd_seq d) (s - start) \<le> ceiling_rows (sd_seq d) (b - start)" by (intro ceiling_rows_mono) simp
      with le none False show ?thesis by (simp add: rows_to_length assms(5))
    qed
  qed
qed simp

lemma sorted_filter_prefix: "sorted_wrt (<) xs \<Longrightarrow> takeWhile (\<lambda>x. x \<le> (v :: nat)) xs = filter (\<lambda>x. x \<le> v) xs"
proof (induction xs)
  case (Cons a xs)
  have "filter (\<lambda>x. x \<le> v) xs = []" if "\<not> a \<le> v" using Cons.prems that by (fastforce simp: filter_empty_conv)
  with Cons show ?case by simp
qed simp

lemma between_filter:
  assumes "sorted_wrt (<) ends" and "start \<le> stop"
  shows "take (searchsorted_right ends stop - searchsorted_right ends start) (drop (searchsorted_right ends start) ends)
    = filter (\<lambda>e. start < e \<and> e \<le> stop) ends"
  using assms(1)
proof (induction ends)
  case (Cons e ends)
  show ?case
  proof (cases "e \<le> start")
    case True
    with Cons assms(2) show ?thesis by (simp add: searchsorted_right_def)
  next
    case False
    have "takeWhile (\<lambda>x. x \<le> stop) (e # ends) = filter (\<lambda>x. x \<le> stop) (e # ends)"
      using Cons.prems by (intro sorted_filter_prefix)
    then have "take (searchsorted_right (e # ends) stop) (e # ends) = filter (\<lambda>x. x \<le> stop) (e # ends)"
      by (metis searchsorted_right_def takeWhile_eq_take)
    moreover have "filter (\<lambda>x. x \<le> stop) (e # ends) = filter (\<lambda>x. start < x \<and> x \<le> stop) (e # ends)"
      using Cons.prems False by (intro filter_cong) auto
    moreover have "searchsorted_right (e # ends) start = 0" using False by (simp add: searchsorted_right_def)
    ultimately show ?thesis by simp
  qed
qed (simp add: searchsorted_right_def)

lemma length_differences [simp]: "length (differences xs) = length xs - 1"
  by (induction xs rule: differences.induct) simp_all

lemma differences_nth: "Suc g < length xs \<Longrightarrow> differences xs ! g = xs ! Suc g - xs ! g"
proof (induction xs arbitrary: g rule: differences.induct)
  case (1 a b xs)
  then show ?case by (cases g) simp_all
qed simp_all

lemma differences_slice: "take k (drop n (differences xs)) = differences (take (Suc k) (drop n xs))"
proof (rule nth_equalityI)
  fix i assume "i < length (take k (drop n (differences xs)))"
  then have "i < k" "i < length xs - Suc n" by simp_all
  then have "i < k" "Suc (n + i) < length xs" by linarith+
  then show "take k (drop n (differences xs)) ! i = differences (take (Suc k) (drop n xs)) ! i" by (simp add: differences_nth)
qed simp

lemma differences_last: "xs \<noteq> [] \<Longrightarrow> last xs = b \<Longrightarrow> differences (xs @ [b]) = differences xs @ [0]"
  by (induction xs rule: differences.induct) simp_all

lemma running_sums_nth: "i \<le> length xs \<Longrightarrow> running_sums s xs ! i = s + sum_list (take i xs)"
proof (induction xs arbitrary: s i)
  case (Cons x xs)
  then show ?case by (cases i) simp_all
qed simp

text \<open>The documents of a group are a slice of all documents.\<close>

lemma group_documents:
  assumes "story_ok d" and "g < story_count d"
  defines "a \<equiv> sd_groups d ! g" and "b \<equiv> sd_groups d ! Suc g"
  defines "mid \<equiv> filter (\<lambda>e. a < e \<and> e \<le> b) (sd_ends d)"
  shows "a < b" and "last (a # mid) = b" and "sorted (a # mid)"
    and "differences (a # mid) = take (searchsorted_right (sd_ends d) b - searchsorted_right (sd_ends d) a)
      (drop (searchsorted_right (sd_ends d) a) (differences (0 # sd_ends d)))"
proof -
  note sg = story_groups [OF assms(1)]
  from assms(1) have ends: "sorted_wrt (<) (sd_ends d)" "\<forall>e \<in> set (sd_ends d). 0 < e"
    by (auto simp: story_ok_def sorted_slice_ends in_slice_ends)
  from assms(1) have sub: "set (sd_groups d) \<subseteq> insert 0 (set (sd_ends d))" unfolding story_ok_def groups_ok_def by blast
  show ab: "a < b" using sorted_wrt_nth_less [OF sg(1), of g "Suc g"] sg(4) assms(2) by (simp add: a_def b_def)
  have "a \<in> set (sd_groups d)" "b \<in> set (sd_groups d)" using sg(4) assms(2) by (simp_all add: a_def b_def)
  with sub have a: "a = 0 \<or> a \<in> set (sd_ends d)" and b: "b \<in> set (sd_ends d)" using ab by auto
  have "sorted_wrt (<) mid" unfolding mid_def using ends(1) by (rule sorted_wrt_filter)
  then show sorted: "sorted (a # mid)" by (auto simp: mid_def intro: sorted_wrt_mono_rel [rotated] less_imp_le)
  from ab b have "b \<in> set mid" by (simp add: mid_def)
  with below_last [OF \<open>sorted_wrt (<) mid\<close> this] have "b \<le> last mid" "mid \<noteq> []" by auto
  moreover from this(2) have "last mid \<le> b" using last_in_set [of mid] by (simp add: mid_def)
  ultimately show "last (a # mid) = b" by simp
  let ?lo = "searchsorted_right (sd_ends d) a" and ?hi = "searchsorted_right (sd_ends d) b"
  have first: "(0 # sd_ends d) ! ?lo = a \<and> ?lo \<le> length (sd_ends d)"
  proof (cases "a = 0")
    case True
    have "takeWhile (\<lambda>x. x = 0) (sd_ends d) = []" using ends(2) by (cases "sd_ends d") auto
    with True show ?thesis by (simp add: searchsorted_right_def)
  next
    case False
    with a have "a \<in> set (sd_ends d)" by simp
    then obtain j where j: "j < length (sd_ends d)" "sd_ends d ! j = a" by (auto simp: in_set_conv_nth)
    have "j < ?lo" using right_iff [OF ends(1) j(1), of a] j(2) by simp
    moreover have "\<not> Suc j < ?lo"
    proof
      assume above: "Suc j < ?lo"
      have "?lo \<le> length (sd_ends d)" by (simp add: searchsorted_right_def length_takeWhile_le)
      with above have "Suc j < length (sd_ends d)" by simp
      with right_iff [OF ends(1) this, of a] above sorted_wrt_nth_less [OF ends(1), of j "Suc j"] j show False by simp
    qed
    ultimately have "?lo = Suc j" by simp
    with j show ?thesis by simp
  qed
  then have "a # drop ?lo (sd_ends d) = drop ?lo (0 # sd_ends d)"
    using Cons_nth_drop_Suc [of ?lo "0 # sd_ends d"] by simp
  then show "differences (a # mid) = take (?hi - ?lo) (drop ?lo (differences (0 # sd_ends d)))"
    unfolding mid_def between_filter [OF ends(1) less_imp_le [OF ab], symmetric] differences_slice
    by (simp only: take_Suc_Cons [symmetric])
qed

text \<open>The computed row counts are those of the rows.\<close>

lemma layout_rows_length: "story_ok d \<Longrightarrow> length (layout_rows d layout) = story_count d"
  by (simp add: layout_rows_def Let_def story_count_def split: story_layout.split)

lemma layout_rows_nth:
  assumes "story_ok d" and "g < story_count d"
  defines "a \<equiv> sd_groups d ! g" and "b \<equiv> sd_groups d ! Suc g"
  shows "layout_rows d (sd_layout d) ! g = length (rows_over d a (story_boundaries d a b))"
proof -
  note doc = group_documents [OF assms(1,2), folded a_def b_def]
  from assms(1) have seq: "0 < sd_seq d" and ends: "sorted_wrt (<) (sd_ends d)" by (simp_all add: story_ok_def sorted_slice_ends)
  note len = story_groups(4) [OF assms(1)]
  let ?lo = "searchsorted_right (sd_ends d) a" and ?hi = "searchsorted_right (sd_ends d) b"
  let ?mid = "filter (\<lambda>e. a < e \<and> e \<le> b) (sd_ends d)"
  show ?thesis
  proof (cases "sd_layout d")
    case ContiguousLayout
    with assms(2) len doc(1) seq show ?thesis
      by (simp add: layout_rows_def story_boundaries_def differences_nth rows_to_length a_def b_def)
  next
    case StoryLayout
    let ?C = "map (ceiling_rows (sd_seq d)) (differences (0 # sd_ends d))"
    have bound: "searchsorted_right (sd_ends d) x \<le> length ?C" for x by (simp add: searchsorted_right_def length_takeWhile_le)
    have "?lo \<le> ?hi" using doc(1) right_iff [OF ends, of "?hi" a] right_iff [OF ends, of "?hi" b] bound [of a] by (cases "?lo \<le> ?hi") auto
    then have split: "sum_list (take ?hi ?C) = sum_list (take ?lo ?C) + sum_list (take (?hi - ?lo) (drop ?lo ?C))"
      using take_add [of ?lo "?hi - ?lo" ?C] by simp
    have "layout_rows d StoryLayout ! g = sum_list (take ?hi ?C) - sum_list (take ?lo ?C)"
      using assms(2) len bound by (simp add: layout_rows_def Let_def differences_nth running_sums_nth a_def b_def)
    also have "\<dots> = sum_list (map (ceiling_rows (sd_seq d)) (differences (a # ?mid)))"
      unfolding split doc(4) by (simp add: take_map drop_map)
    also have "\<dots> = sum_list (map (ceiling_rows (sd_seq d)) (differences (a # ?mid @ [b])))"
      using differences_last [of "a # ?mid" b] doc(2) seq by (simp add: ceiling_rows_def)
    also have "\<dots> = length (rows_over d a (?mid @ [b]))"
    proof (rule rows_over_length [symmetric])
      show "sorted (a # ?mid @ [b])" using doc(1,3) by (auto simp: sorted_append)
    qed (rule seq)
    finally show ?thesis using StoryLayout doc(1)
      by (simp add: story_boundaries_def Let_def between_filter [OF ends])
  qed
qed

lemma clipped_rows:
  assumes "story_ok d" and "g < story_count d"
  defines "a \<equiv> sd_groups d ! g" and "b \<equiv> sd_groups d ! Suc g"
  assumes "a \<le> s" and "s \<le> b"
  shows "length (rows_over d a (story_boundaries d a s)) \<le> length (rows_over d a (story_boundaries d a b))"
proof -
  note doc = group_documents [OF assms(1,2), folded a_def b_def]
  from assms(1) have seq: "0 < sd_seq d" and ends: "sorted_wrt (<) (sd_ends d)" by (simp_all add: story_ok_def sorted_slice_ends)
  note bs = story_boundaries_sorted [OF assms(1) less_imp_le [OF doc(1)]]
  have "story_boundaries d a s = filter (\<lambda>e. e \<le> s) (butlast (story_boundaries d a b)) @ [s]"
  proof (cases "sd_layout d")
    case StoryLayout
    have "filter (\<lambda>e. a < e \<and> e \<le> s) (sd_ends d) = filter (\<lambda>e. e \<le> s) (filter (\<lambda>e. a < e \<and> e \<le> b) (sd_ends d))"
      unfolding filter_filter by (rule filter_cong) (use assms(6) in auto)
    with StoryLayout doc(1) assms(5) show ?thesis
      by (simp add: story_boundaries_def Let_def between_filter [OF ends])
  qed (simp add: story_boundaries_def)
  with rows_over_clipped [OF bs(1) conjunct1 [OF bs(3)] assms(5) _ seq] bs(3) assms(6) show ?thesis by simp
qed

lemma first_of_maximum:
  fixes xs :: "nat list"
  assumes "xs \<noteq> []"
  shows "length (takeWhile (\<lambda>r. r \<noteq> Max (set xs)) xs) < length xs
    \<and> xs ! length (takeWhile (\<lambda>r. r \<noteq> Max (set xs)) xs) = Max (set xs)"
proof -
  let ?k = "length (takeWhile (\<lambda>r. r \<noteq> Max (set xs)) xs)"
  have "Max (set xs) \<in> set xs" using assms by simp
  then have "takeWhile (\<lambda>r. r \<noteq> Max (set xs)) xs \<noteq> xs" by (metis (mono_tags) set_takeWhileD)
  then have "?k \<noteq> length xs" by (metis takeWhile_eq_take take_all order_refl)
  with length_takeWhile_le [of "\<lambda>r. r \<noteq> Max (set xs)" xs] have "?k < length xs" by (rule le_neq_implies_less)
  with nth_length_takeWhile [OF this] show ?thesis by simp
qed

lemma padding_of_row:
  assumes "length (st_inputs r) = n" and "length (st_labels r) = n"
  shows "length (filter (\<lambda>y. y = - 100) (st_labels r)) + length (delivered r) = n"
proof -
  have "length (delivered r) = length (filter (\<lambda>y. y \<noteq> - 100) (map snd (zip (st_inputs r) (st_labels r))))"
    by (simp add: delivered_def filter_map comp_def split_def)
  also have "map snd (zip (st_inputs r) (st_labels r)) = st_labels r" using assms by (simp add: map_snd_zip)
  finally show ?thesis using sum_length_filter_compl [of "\<lambda>y. y = - 100" "st_labels r"] assms(2) by simp
qed

lemma padding_of_rows:
  assumes "\<forall>r \<in> set rows. length (st_inputs r) = n \<and> length (st_labels r) = n"
  shows "(\<Sum>r \<leftarrow> rows. length (filter (\<lambda>y. y = - 100) (st_labels r))) + length (concat (map delivered rows)) = length rows * n"
  using assms
proof (induction rows)
  case (Cons r rows)
  with padding_of_row [of r n] show ?case by simp
qed simp

text \<open>
  The costs of a layout, which are computed without making rows, are those of the rows. For a dataset
  that the constructor accepted, whatever its layout: the number of rows of a pass, the largest number of rows
  of an update, also of the clipped last one, the group that has it, and the number of slots without a target.
\<close>

theorem layout_costs_are_exact:
  assumes "story_dataset_of ids seq_len eos layout targets = Inr d" and "- 100 \<notin> set ids"
  shows "\<exists>rows. (\<forall>g < story_count d. update_rows d (int g) (int (length ids)) = Inr (rows g))
    \<and> lc_rows (layout_costs d layout) = (\<Sum>g < story_count d. length (rows g))
    \<and> lc_max_group (layout_costs d layout) < story_count d
    \<and> length (rows (lc_max_group (layout_costs d layout))) = lc_max_rows (layout_costs d layout)
    \<and> (\<forall>g remaining. g < story_count d \<and> 0 < remaining \<longrightarrow>
        (\<exists>rs. update_rows d (int g) remaining = Inr rs \<and> length rs \<le> lc_max_rows (layout_costs d layout)))
    \<and> lc_padded (layout_costs d layout)
        = int (\<Sum>g < story_count d. \<Sum>r \<leftarrow> rows g. length (filter (\<lambda>y. y = - 100) (st_labels r)))"
proof -
  from story_dataset_ok [OF assms(1)] have ok: "story_ok d" and d: "sd_ids d = ids" "sd_layout d = layout" by auto
  note sg = story_groups [OF ok]
  from assms(2) have clean: "- 100 \<notin> set (sd_ids d)" by (simp add: d)
  let ?c = "story_count d" and ?offs = "\<lambda>g. sd_groups d ! g" and ?L = "layout_rows d layout"
  define rows where "rows g = rows_over d (?offs g) (story_boundaries d (?offs g) (?offs (Suc g)))" for g
  have len: "length ?L = ?c" by (rule layout_rows_length [OF ok])
  have L: "?L ! g = length (rows g)" if "g < ?c" for g
    using layout_rows_nth [OF ok that] by (simp add: rows_def d)
  have below: "?offs g < ?offs (Suc g)" "?offs (Suc g) \<le> length ids" if "g < ?c" for g
    using group_documents(1) [OF ok that] group_below [OF ok, of "Suc g"] that sg(3) by (auto simp: d le_less dest: Suc_lessI)
  have upd: "update_rows d (int g) remaining = Inr (rows_over d (?offs g) (story_boundaries d (?offs g) (min (?offs (Suc g)) (?offs g + nat remaining))))"
    if "g < ?c" "0 < remaining" for g remaining
    using that by (simp add: update_rows_def Let_def)
  have whole: "update_rows d (int g) (int (length ids)) = Inr (rows g)" if "g < ?c" for g
    using upd [OF that, of "int (length ids)"] below [OF that] sg(6) by (simp add: rows_def d min_def)
  have ne: "?L \<noteq> []" using len sg(5) by auto
  have most: "length (rows g) \<le> Max (set ?L)" if "g < ?c" for g
    using L [OF that] nth_mem [of g ?L] len that by (simp add: L [OF that, symmetric])
  have clip: "\<exists>rs. update_rows d (int g) remaining = Inr rs \<and> length rs \<le> Max (set ?L)" if "g < ?c" "0 < remaining" for g remaining
    using upd [OF that] clipped_rows [OF ok that(1), of "min (?offs (Suc g)) (?offs g + nat remaining)"]
      below(1) [OF that(1)] most [OF that(1)] by (simp add: rows_def)
  have slots: "int (?L ! g) * int (sd_seq d) - int (?offs (Suc g) - ?offs g)
      = int (\<Sum>r \<leftarrow> rows g. length (filter (\<lambda>y. y = - 100) (st_labels r)))" if "g < ?c" for g
  proof -
    from update_rows_deliver [OF ok clean that, of "int (length ids)"] whole [OF that] sg(6) below [OF that]
    have rd: "rows_deliver d (rows g) (?offs g) (?offs (Suc g))" by (simp add: d min_def)
    with padding_of_rows [of "rows g" "sd_seq d"]
    have "(\<Sum>r \<leftarrow> rows g. length (filter (\<lambda>y. y = - 100) (st_labels r))) + (?offs (Suc g) - ?offs g) = length (rows g) * sd_seq d"
      by (simp add: rows_deliver_def)
    then have "int (\<Sum>r \<leftarrow> rows g. length (filter (\<lambda>y. y = - 100) (st_labels r))) + int (?offs (Suc g) - ?offs g)
        = int (length (rows g)) * int (sd_seq d)"
      by (simp only: of_nat_add [symmetric] of_nat_mult [symmetric])
    then show ?thesis unfolding L [OF that] by simp
  qed
  have total: "sum_list ?L = (\<Sum>g < ?c. length (rows g))"
    unfolding sum_list_sum_nth len atLeast0LessThan by (rule sum.cong) (simp_all add: L)
  have "lc_padded (layout_costs d layout) = (\<Sum>g < ?c. int (?L ! g) * int (sd_seq d) - int (?offs (Suc g) - ?offs g))"
    using sg(4) by (simp add: layout_costs_def Let_def sum_list_sum_nth len atLeast0LessThan differences_nth min_def)
  then have padded: "lc_padded (layout_costs d layout)
      = int (\<Sum>g < ?c. \<Sum>r \<leftarrow> rows g. length (filter (\<lambda>y. y = - 100) (st_labels r)))"
    by (simp add: slots)
  note fst = first_of_maximum [OF ne]
  have costs: "lc_rows (layout_costs d layout) = sum_list ?L" "lc_max_rows (layout_costs d layout) = Max (set ?L)"
    "lc_max_group (layout_costs d layout) = length (takeWhile (\<lambda>r. r \<noteq> Max (set ?L)) ?L)"
    by (simp_all add: layout_costs_def Let_def)
  from fst have arg: "length (takeWhile (\<lambda>r. r \<noteq> Max (set ?L)) ?L) < ?c" "length (rows (length (takeWhile (\<lambda>r. r \<noteq> Max (set ?L)) ?L))) = Max (set ?L)"
    using len L by auto
  show ?thesis unfolding costs using whole total arg clip padded by (intro exI [of _ rows]) simp
qed

theorem layout_costs_are_exact_witness:
  "\<exists>rows. update_rows (two_stories StoryLayout) 1 5 = Inr (rows 1) \<and> 3 = (\<Sum>g < (2::nat). length (rows g))"
proof -
  have c: "story_count (two_stories StoryLayout) = 2" by (simp add: story_count_def two_stories_def)
  have k: "lc_rows (layout_costs (two_stories StoryLayout) StoryLayout) = 3" by code_simp
  have "- 100 \<notin> set [5, 7, 0, 6, 0 :: int]" by simp
  from layout_costs_are_exact [OF two_stories_accepted [of StoryLayout] this] obtain rows where
    r: "\<forall>g < 2. update_rows (two_stories StoryLayout) (int g) (int (length [5, 7, 0, 6, 0 :: int])) = Inr (rows g)"
      "3 = (\<Sum>g < (2::nat). length (rows g))"
    unfolding c k by blast
  from r(1) [rule_format, of 1] r(2) show ?thesis by (intro exI [of _ rows] conjI) simp_all
qed

end
