(* ===== verification/Mixture_Index.thy ===== *)
theory Mixture_Index
  imports Lab_Prelude Complex_Main "HOL-Library.Char_ord" "HOL-Library.List_Lexorder" "HOL-Library.Product_Lexorder"
begin

text \<open>
  \<open>src/sparselab/corpus/mixture_index.py\<close>: the index of the documents of a release from which a training mixture is
  made. The family inventory assigns every kept document to a family and a stratum, the lineage of the train view
  selects documents, and candidates of a stratum come in the order of their rank.

  The tables are lists: a row of \<open>docs\<close> carries the parsed document that its offset points to, \<open>encoded\<close> is the
  list whose positions are the ordinals. Text columns compare as strings. The documents, the rows of the inventory
  and those of the lineage are given parsed; \<open>None\<close> is a row of another shape.
\<close>

section \<open>Tables\<close>

record mix_document =
  md_id :: string
  md_split :: string
  md_content :: string
  md_source :: string
  md_domains :: "string list"
  md_dropped :: bool
  md_rights :: "string option"
  md_text :: string

text \<open>A row of \<open>docs\<close>: the columns \<open>family\<close>, \<open>stratum\<close> and \<open>rank\<close> are set together with \<open>inventoried\<close>.\<close>

record mix_row =
  mr_doc :: mix_document
  mr_inventory :: "(string \<times> string \<times> string) option"
  mr_selected :: bool

record family_row =
  iv_document :: string
  iv_family :: string
  iv_split :: string
  iv_stratum :: string
  iv_content :: string

record mix_tables =
  mt_docs :: "mix_row list"
  mt_families :: "string \<Rightarrow> string option"
  mt_contents :: "string \<Rightarrow> (string \<times> string) option"

datatype mix_error = InvalidInventory | UnknownDocument | InventoryDisagrees | FamilyLeaks | ContentLeaks | ContentStrata
  | InventoryIncomplete | TrainViewMismatch | RightsMissing | EncodedCap | ExclusionCap | FloorNotMet string
  | QuotaImpossible string | QuotaUnfilled string

abbreviation row_id :: "mix_row \<Rightarrow> string" where
  "row_id r \<equiv> md_id (mr_doc r)"

text \<open>\<open>INSERT OR REPLACE\<close>: the last document of an identifier counts.\<close>

definition load_document :: "mix_row list \<Rightarrow> mix_document \<Rightarrow> mix_row list" where
  "load_document rows d = (if md_dropped d then rows
     else filter (\<lambda>r. row_id r \<noteq> md_id d) rows @ [\<lparr>mr_doc = d, mr_inventory = None, mr_selected = False\<rparr>])"

definition load_documents :: "mix_document list \<Rightarrow> mix_row list" where
  "load_documents ds = foldl load_document [] ds"

definition find_row :: "mix_row list \<Rightarrow> string \<Rightarrow> mix_row option" where
  "find_row rows i = find (\<lambda>r. row_id r = i) rows"

definition change_row :: "string \<Rightarrow> (mix_row \<Rightarrow> mix_row) \<Rightarrow> mix_row list \<Rightarrow> mix_row list" where
  "change_row i f rows = map (\<lambda>r. if row_id r = i then f r else r) rows"

section \<open>Inventory\<close>

definition inventory_shape :: "family_row \<Rightarrow> bool" where
  "inventory_shape iv \<longleftrightarrow> list_all (\<lambda>s. s \<noteq> []) [iv_document iv, iv_family iv, iv_split iv, iv_stratum iv, iv_content iv]
     \<and> iv_split iv \<in> {''train'', ''validation'', ''test''}"

definition release_agrees :: "(string \<Rightarrow> string option) \<Rightarrow> mix_document \<Rightarrow> family_row \<Rightarrow> bool" where
  "release_agrees strata d iv \<longleftrightarrow> md_split d = iv_split iv \<and> md_content d = iv_content iv \<and> strata (md_source d) = Some (iv_stratum iv)
     \<and> iv_stratum iv \<in> set (md_domains d)"

definition keep_first :: "string \<Rightarrow> 'v \<Rightarrow> (string \<Rightarrow> 'v option) \<Rightarrow> string \<Rightarrow> 'v option" where
  "keep_first k v m = (if m k = None then m(k \<mapsto> v) else m)"

definition inventory_row :: "(string \<Rightarrow> string option) \<Rightarrow> (family_row \<Rightarrow> string) \<Rightarrow> mix_tables \<Rightarrow> family_row option \<Rightarrow> mix_error + mix_tables" where
  "inventory_row strata rank t row = (case row of
     None \<Rightarrow> Inl InvalidInventory
   | Some iv \<Rightarrow>
       if \<not> inventory_shape iv then Inl InvalidInventory
       else (case find_row (mt_docs t) (iv_document iv) of
         None \<Rightarrow> Inl UnknownDocument
       | Some r \<Rightarrow>
           if mr_inventory r \<noteq> None then Inl UnknownDocument
           else if \<not> release_agrees strata (mr_doc r) iv then Inl InventoryDisagrees
           else if mt_families t (iv_family iv) \<notin> {None, Some (iv_split iv)} then Inl FamilyLeaks
           else bindE (case mt_contents t (iv_content iv) of None \<Rightarrow> Inr ()
               | Some (split, stratum) \<Rightarrow>
                   if split \<noteq> iv_split iv then Inl ContentLeaks else if stratum \<noteq> iv_stratum iv then Inl ContentStrata else Inr ()) (\<lambda>_.
             Inr \<lparr>mt_docs = change_row (iv_document iv) (\<lambda>r. r\<lparr>mr_inventory := Some (iv_family iv, iv_stratum iv, rank iv)\<rparr>) (mt_docs t),
               mt_families = keep_first (iv_family iv) (iv_split iv) (mt_families t),
               mt_contents = keep_first (iv_content iv) (iv_split iv, iv_stratum iv) (mt_contents t)\<rparr>)))"

definition inventory :: "(string \<Rightarrow> string option) \<Rightarrow> (family_row \<Rightarrow> string) \<Rightarrow> mix_row list \<Rightarrow> family_row option list \<Rightarrow> mix_error + mix_row list" where
  "inventory strata rank docs rows =
     bindE (foldE (inventory_row strata rank) \<lparr>mt_docs = docs, mt_families = Map.empty, mt_contents = Map.empty\<rparr> rows) (\<lambda>t.
     if list_ex (\<lambda>r. mr_inventory r = None) (mt_docs t) then Inl InventoryIncomplete else Inr (mt_docs t))"

section \<open>Selection and candidates\<close>

definition select_row :: "mix_row list \<Rightarrow> string \<Rightarrow> mix_error + mix_row list" where
  "select_row docs i = (case find_row docs i of
     None \<Rightarrow> Inl TrainViewMismatch
   | Some r \<Rightarrow> if md_split (mr_doc r) \<noteq> ''train'' then Inl TrainViewMismatch
       else Inr (change_row i (\<lambda>r. r\<lparr>mr_selected := True\<rparr>) docs))"

definition select_documents :: "mix_row list \<Rightarrow> string list \<Rightarrow> mix_error + mix_row list" where
  "select_documents docs lineage =
     bindE (foldE select_row docs lineage) (\<lambda>docs.
     if list_ex (\<lambda>r. md_split (mr_doc r) = ''train'' \<and> \<not> mr_selected r) docs then Inl TrainViewMismatch
     else if list_ex (\<lambda>r. mr_selected r \<and> md_rights (mr_doc r) \<notin> {Some ''eligible'', Some ''eligible_with_obligations''}) docs
       then Inl RightsMissing else Inr docs)"

definition row_key :: "mix_row \<Rightarrow> string \<times> string" where
  "row_key r = (case mr_inventory r of Some (_, _, rank) \<Rightarrow> (rank, row_id r) | None \<Rightarrow> ([], row_id r))"

definition in_stratum :: "string \<Rightarrow> mix_row \<Rightarrow> bool" where
  "in_stratum stratum r \<longleftrightarrow> mr_selected r \<and> (case mr_inventory r of Some (_, s, _) \<Rightarrow> s = stratum | None \<Rightarrow> False)"

definition candidate_rows :: "mix_row list \<Rightarrow> string \<Rightarrow> (string \<times> string) option \<Rightarrow> mix_row list" where
  "candidate_rows docs stratum frontier =
     sort_key row_key (filter (\<lambda>r. in_stratum stratum r \<and> (case frontier of Some k \<Rightarrow> k | None \<Rightarrow> ([], [])) < row_key r) docs)"

section \<open>The inventory is a function of families and contents\<close>

text \<open>What a row wants of the rows before it.\<close>

definition inventory_of :: "(family_row \<Rightarrow> string) \<Rightarrow> family_row list \<Rightarrow> mix_row \<Rightarrow> mix_row" where
  "inventory_of rank ps r = r\<lparr>mr_inventory := map_option (\<lambda>iv. (iv_family iv, iv_stratum iv, rank iv)) (find (\<lambda>iv. iv_document iv = row_id r) ps)\<rparr>"

definition tables_of :: "(family_row \<Rightarrow> string) \<Rightarrow> mix_row list \<Rightarrow> family_row list \<Rightarrow> mix_tables" where
  "tables_of rank docs ps = \<lparr>mt_docs = map (inventory_of rank ps) docs,
     mt_families = \<lambda>f. map_option iv_split (find (\<lambda>iv. iv_family iv = f) ps),
     mt_contents = \<lambda>c. map_option (\<lambda>iv. (iv_split iv, iv_stratum iv)) (find (\<lambda>iv. iv_content iv = c) ps)\<rparr>"

definition consistent :: "(string \<Rightarrow> string option) \<Rightarrow> mix_row list \<Rightarrow> family_row list \<Rightarrow> bool" where
  "consistent strata docs ps \<longleftrightarrow> distinct (map iv_document ps)
     \<and> (\<forall>iv \<in> set ps. inventory_shape iv \<and> (\<exists>r \<in> set docs. row_id r = iv_document iv \<and> release_agrees strata (mr_doc r) iv))
     \<and> (\<forall>a \<in> set ps. \<forall>b \<in> set ps. iv_family a = iv_family b \<longrightarrow> iv_split a = iv_split b)
     \<and> (\<forall>a \<in> set ps. \<forall>b \<in> set ps. iv_content a = iv_content b \<longrightarrow> iv_split a = iv_split b \<and> iv_stratum a = iv_stratum b)"

lemma tables_docs: "mt_docs (tables_of rank docs ps) = map (inventory_of rank ps) docs"
  by (simp add: tables_of_def)

lemma find_append: "find P (xs @ ys) = (case find P xs of None \<Rightarrow> find P ys | Some x \<Rightarrow> Some x)"
  by (induction xs) simp_all

definition fresh_rows :: "mix_row list \<Rightarrow> bool" where
  "fresh_rows docs \<longleftrightarrow> distinct (map row_id docs) \<and> (\<forall>r \<in> set docs. mr_inventory r = None \<and> \<not> mr_selected r)"

lemma load_documents_fresh: "fresh_rows (load_documents ds)"
proof -
  have "fresh_rows rows \<Longrightarrow> fresh_rows (foldl load_document rows ds)" for rows
  proof (induction ds arbitrary: rows)
    case (Cons d ds)
    from Cons.prems have "distinct (map row_id (filter (\<lambda>r. row_id r \<noteq> md_id d) rows))" by (simp add: fresh_rows_def distinct_map_filter)
    with Cons.prems have "fresh_rows (load_document rows d)" by (auto simp: fresh_rows_def load_document_def)
    then show ?case by (simp add: Cons.IH)
  qed simp
  from this [of "[]"] show ?thesis unfolding load_documents_def by (simp add: fresh_rows_def)
qed

lemma find_row_map: "(\<And>r. row_id (f r) = row_id r) \<Longrightarrow> find_row (map f docs) i = map_option f (find_row docs i)"
  by (induction docs) (simp_all add: find_row_def)

lemma row_id_inventory [simp]: "row_id (inventory_of rank ps r) = row_id r"
  by (simp add: inventory_of_def)

lemma find_row_Some: "distinct (map row_id docs) \<Longrightarrow> find_row docs i = Some r \<longleftrightarrow> r \<in> set docs \<and> row_id r = i"
  by (induction docs) (auto simp: find_row_def)

lemma find_row_None: "find_row docs i = None \<longleftrightarrow> (\<forall>r \<in> set docs. row_id r \<noteq> i)"
  by (simp add: find_row_def find_None_all)

lemma guard_if: "(if \<not> P then Inl e else r) = Inr t \<longleftrightarrow> P \<and> r = Inr t"
  by simp

lemma bind_unit: "bindE r (\<lambda>_ :: unit. Inr x) = Inr t \<longleftrightarrow> r = Inr () \<and> x = t"
  by (cases r) auto

lemma pairs_snoc:
  assumes "\<And>a. R a a" and "\<And>a b. R a b \<Longrightarrow> R b a"
  shows "(\<forall>a \<in> set (xs @ [x]). \<forall>b \<in> set (xs @ [x]). R a b) \<longleftrightarrow> (\<forall>a \<in> set xs. \<forall>b \<in> set xs. R a b) \<and> (\<forall>a \<in> set xs. R a x)"
  using assms by auto

lemma all_given_snoc: "(\<exists>ys. xs @ [Some y] = map Some ys \<and> P ys) \<longleftrightarrow> (\<exists>ys. xs = map Some ys \<and> P (ys @ [y]))"
proof
  assume "\<exists>ys. xs @ [Some y] = map Some ys \<and> P ys"
  then obtain ys where "xs @ [Some y] = map Some ys" "P ys" by blast
  then show "\<exists>ys. xs = map Some ys \<and> P (ys @ [y])" by (cases ys rule: rev_cases) auto
next
  assume "\<exists>ys. xs = map Some ys \<and> P (ys @ [y])"
  then obtain ys where "xs = map Some ys" "P (ys @ [y])" by blast
  then show "\<exists>ys. xs @ [Some y] = map Some ys \<and> P ys" by (intro exI [of _ "ys @ [y]"]) simp
qed

lemma inventory_step:
  assumes "fresh_rows docs" and "consistent strata docs ps"
  shows "inventory_row strata rank (tables_of rank docs ps) (Some iv) = Inr t
    \<longleftrightarrow> consistent strata docs (ps @ [iv]) \<and> t = tables_of rank docs (ps @ [iv])"
proof -
  let ?t = "tables_of rank docs ps"
  from assms(1) have dist: "distinct (map row_id docs)" and none: "\<And>r. r \<in> set docs \<Longrightarrow> mr_inventory r = None" by (auto simp: fresh_rows_def)
  have find: "find_row (mt_docs ?t) (iv_document iv) = map_option (inventory_of rank ps) (find_row docs (iv_document iv))"
    by (simp add: tables_of_def find_row_map)
  have fams: "mt_families ?t (iv_family iv) \<in> {None, Some (iv_split iv)} \<longleftrightarrow> (\<forall>a \<in> set ps. iv_family a = iv_family iv \<longrightarrow> iv_split a = iv_split iv)"
  proof (cases "find (\<lambda>a. iv_family a = iv_family iv) ps")
    case (Some a)
    from find_Some_mem [OF Some] assms(2)
    have a: "a \<in> set ps" "iv_family a = iv_family iv" "\<And>b. b \<in> set ps \<Longrightarrow> iv_family b = iv_family iv \<Longrightarrow> iv_split b = iv_split a"
      unfolding consistent_def by (blast, blast, metis)
    from Some have "mt_families ?t (iv_family iv) \<in> {None, Some (iv_split iv)} \<longleftrightarrow> iv_split a = iv_split iv" by (simp add: tables_of_def)
    also have "\<dots> \<longleftrightarrow> (\<forall>b \<in> set ps. iv_family b = iv_family iv \<longrightarrow> iv_split b = iv_split iv)" using a by metis
    finally show ?thesis .
  next
    case None
    then show ?thesis by (simp add: tables_of_def find_None_all)
  qed
  have conts: "(case mt_contents ?t (iv_content iv) of None \<Rightarrow> Inr () | Some (split, stratum) \<Rightarrow>
      if split \<noteq> iv_split iv then Inl ContentLeaks else if stratum \<noteq> iv_stratum iv then Inl ContentStrata else Inr ()) = Inr u
      \<longleftrightarrow> (\<forall>a \<in> set ps. iv_content a = iv_content iv \<longrightarrow> iv_split a = iv_split iv \<and> iv_stratum a = iv_stratum iv)" for u
  proof (cases "find (\<lambda>a. iv_content a = iv_content iv) ps")
    case (Some a)
    from find_Some_mem [OF Some] assms(2)
    have a: "a \<in> set ps" "iv_content a = iv_content iv"
        "\<And>b. b \<in> set ps \<Longrightarrow> iv_content b = iv_content iv \<Longrightarrow> iv_split b = iv_split a \<and> iv_stratum b = iv_stratum a"
      unfolding consistent_def by (blast, blast, metis)
    from Some have "mt_contents ?t (iv_content iv) = Some (iv_split a, iv_stratum a)" by (simp add: tables_of_def)
    then have "(case mt_contents ?t (iv_content iv) of None \<Rightarrow> Inr () | Some (split, stratum) \<Rightarrow>
        if split \<noteq> iv_split iv then Inl ContentLeaks else if stratum \<noteq> iv_stratum iv then Inl ContentStrata else Inr ()) = Inr u
        \<longleftrightarrow> iv_split a = iv_split iv \<and> iv_stratum a = iv_stratum iv" by simp
    also have "\<dots> \<longleftrightarrow> (\<forall>b \<in> set ps. iv_content b = iv_content iv \<longrightarrow> iv_split b = iv_split iv \<and> iv_stratum b = iv_stratum iv)" using a by metis
    finally show ?thesis .
  next
    case None
    then have "mt_contents ?t (iv_content iv) = None" by (simp add: tables_of_def)
    with None show ?thesis by (simp add: find_None_all)
  qed
  have docs: "change_row (iv_document iv) (\<lambda>r. r\<lparr>mr_inventory := Some (iv_family iv, iv_stratum iv, rank iv)\<rparr>) (mt_docs ?t) = mt_docs (tables_of rank docs (ps @ [iv]))"
    if "\<forall>a \<in> set ps. iv_document a \<noteq> iv_document iv"
  proof -
    from that have "find (\<lambda>a. iv_document a = iv_document iv) ps = None" by (simp add: find_None_all)
    then show ?thesis by (auto simp: change_row_def tables_of_def inventory_of_def find_append split: option.split)
  qed
  have maps: "keep_first (iv_family iv) (iv_split iv) (mt_families ?t) = mt_families (tables_of rank docs (ps @ [iv]))"
    "keep_first (iv_content iv) (iv_split iv, iv_stratum iv) (mt_contents ?t) = mt_contents (tables_of rank docs (ps @ [iv]))"
    by (auto simp: keep_first_def tables_of_def find_append fun_eq_iff split: option.split)
  show ?thesis
  proof (cases "find_row docs (iv_document iv)")
    case None
    then have "inventory_row strata rank ?t (Some iv) \<noteq> Inr t" by (simp add: inventory_row_def find)
    moreover from None have "\<not> consistent strata docs (ps @ [iv])" by (auto simp: find_row_None consistent_def)
    ultimately show ?thesis by simp
  next
    case (Some r)
    then have r: "r \<in> set docs" "row_id r = iv_document iv" by (simp_all add: find_row_Some dist)
    have once: "mr_inventory (inventory_of rank ps r) = None \<longleftrightarrow> (\<forall>a \<in> set ps. iv_document a \<noteq> iv_document iv)"
      by (simp add: inventory_of_def find_None_all r(2))
    have agr: "release_agrees strata (mr_doc (inventory_of rank ps r)) iv \<longleftrightarrow> (\<exists>x \<in> set docs. row_id x = iv_document iv \<and> release_agrees strata (mr_doc x) iv)"
    proof -
      have only: "x = r" if "x \<in> set docs" "row_id x = iv_document iv" for x
        using that Some find_row_Some [OF dist, of "iv_document iv" x] by simp
      have "mr_doc (inventory_of rank ps r) = mr_doc r" by (simp add: inventory_of_def)
      with r only show ?thesis by metis
    qed
    have cons: "consistent strata docs (ps @ [iv]) \<longleftrightarrow> inventory_shape iv \<and> (\<forall>a \<in> set ps. iv_document a \<noteq> iv_document iv)
        \<and> (\<exists>x \<in> set docs. row_id x = iv_document iv \<and> release_agrees strata (mr_doc x) iv)
        \<and> (\<forall>a \<in> set ps. iv_family a = iv_family iv \<longrightarrow> iv_split a = iv_split iv)
        \<and> (\<forall>a \<in> set ps. iv_content a = iv_content iv \<longrightarrow> iv_split a = iv_split iv \<and> iv_stratum a = iv_stratum iv)"
    proof -
      have fam: "(\<forall>a \<in> set (ps @ [iv]). \<forall>b \<in> set (ps @ [iv]). iv_family a = iv_family b \<longrightarrow> iv_split a = iv_split b)
          \<longleftrightarrow> (\<forall>a \<in> set ps. \<forall>b \<in> set ps. iv_family a = iv_family b \<longrightarrow> iv_split a = iv_split b) \<and> (\<forall>a \<in> set ps. iv_family a = iv_family iv \<longrightarrow> iv_split a = iv_split iv)"
        by (rule pairs_snoc) simp_all
      have con: "(\<forall>a \<in> set (ps @ [iv]). \<forall>b \<in> set (ps @ [iv]). iv_content a = iv_content b \<longrightarrow> iv_split a = iv_split b \<and> iv_stratum a = iv_stratum b)
          \<longleftrightarrow> (\<forall>a \<in> set ps. \<forall>b \<in> set ps. iv_content a = iv_content b \<longrightarrow> iv_split a = iv_split b \<and> iv_stratum a = iv_stratum b)
            \<and> (\<forall>a \<in> set ps. iv_content a = iv_content iv \<longrightarrow> iv_split a = iv_split iv \<and> iv_stratum a = iv_stratum iv)"
        by (rule pairs_snoc) simp_all
      have dis: "distinct (map iv_document (ps @ [iv])) \<longleftrightarrow> distinct (map iv_document ps) \<and> (\<forall>a \<in> set ps. iv_document a \<noteq> iv_document iv)"
        by (simp add: image_iff) metis
      have mem: "(\<forall>x \<in> set (ps @ [iv]). Q x) \<longleftrightarrow> (\<forall>x \<in> set ps. Q x) \<and> Q iv" for Q by auto
      show ?thesis using assms(2) unfolding consistent_def unfolding fam con dis unfolding mem by argo
    qed
    let ?next = "\<lparr>mt_docs = change_row (iv_document iv) (\<lambda>r. r\<lparr>mr_inventory := Some (iv_family iv, iv_stratum iv, rank iv)\<rparr>) (mt_docs ?t),
        mt_families = keep_first (iv_family iv) (iv_split iv) (mt_families ?t),
        mt_contents = keep_first (iv_content iv) (iv_split iv, iv_stratum iv) (mt_contents ?t)\<rparr>"
    have succ: "(\<forall>a \<in> set ps. iv_document a \<noteq> iv_document iv) \<longrightarrow> ?next = tables_of rank docs (ps @ [iv])"
      unfolding maps by (intro impI) (simp add: docs)
    have "inventory_row strata rank ?t (Some iv) = Inr t \<longleftrightarrow> inventory_shape iv \<and> mr_inventory (inventory_of rank ps r) = None
        \<and> release_agrees strata (mr_doc (inventory_of rank ps r)) iv \<and> mt_families ?t (iv_family iv) \<in> {None, Some (iv_split iv)}
        \<and> (case mt_contents ?t (iv_content iv) of None \<Rightarrow> Inr () | Some (split, stratum) \<Rightarrow>
            if split \<noteq> iv_split iv then Inl ContentLeaks else if stratum \<noteq> iv_stratum iv then Inl ContentStrata else Inr ()) = Inr ()
        \<and> ?next = t"
      unfolding inventory_row_def option.case find Some option.map(2) guard_if bind_unit ..
    then show ?thesis unfolding cons once agr fams conts using succ by argo
  qed
qed

lemma consistent_prefix: "consistent strata docs (ps @ [iv]) \<Longrightarrow> consistent strata docs ps"
  unfolding consistent_def set_append map_append distinct_append by blast

lemma inventory_fold:
  assumes "fresh_rows docs"
  shows "foldE (inventory_row strata rank) (tables_of rank docs []) rows = Inr t
    \<longleftrightarrow> (\<exists>ivs. rows = map Some ivs \<and> consistent strata docs ivs \<and> t = tables_of rank docs ivs)"
proof (induction rows arbitrary: t rule: rev_induct)
  case Nil
  show ?case by (auto simp: consistent_def)
next
  case (snoc row rows)
  show ?case
  proof (cases row)
    case None
    then show ?thesis by (auto simp: inventory_row_def append_eq_map_conv)
  next
    case (Some iv)
    have "foldE (inventory_row strata rank) (tables_of rank docs []) (rows @ [row]) = Inr t
        \<longleftrightarrow> (\<exists>ivs. rows = map Some ivs \<and> consistent strata docs ivs \<and> inventory_row strata rank (tables_of rank docs ivs) (Some iv) = Inr t)"
      by (auto simp: snoc.IH Some)
    also have "\<dots> \<longleftrightarrow> (\<exists>ivs. rows = map Some ivs \<and> consistent strata docs (ivs @ [iv]) \<and> t = tables_of rank docs (ivs @ [iv]))"
      using inventory_step [OF assms] consistent_prefix by blast
    also have "\<dots> \<longleftrightarrow> (\<exists>ivs. rows @ [row] = map Some ivs \<and> consistent strata docs ivs \<and> t = tables_of rank docs ivs)"
      unfolding Some all_given_snoc ..
    finally show ?thesis .
  qed
qed

lemma inventory_Inr:
  "inventory strata rank (load_documents ds) rows = Inr docs \<longleftrightarrow>
    (\<exists>ivs. rows = map Some ivs \<and> consistent strata (load_documents ds) ivs
      \<and> iv_document ` set ivs = row_id ` set (load_documents ds) \<and> docs = map (inventory_of rank ivs) (load_documents ds))"
proof -
  let ?docs = "load_documents ds"
  have init: "\<lparr>mt_docs = ?docs, mt_families = Map.empty, mt_contents = Map.empty\<rparr> = tables_of rank ?docs []"
    using load_documents_fresh [of ds] by (auto simp: tables_of_def inventory_of_def fresh_rows_def map_idI)
  have all: "\<not> list_ex (\<lambda>r. mr_inventory r = None) (map (inventory_of rank ivs) ?docs) \<longleftrightarrow> row_id ` set ?docs \<subseteq> iv_document ` set ivs" for ivs
    by (auto simp: list_ex_iff inventory_of_def find_None_all subset_iff image_iff) metis+
  have sub: "iv_document ` set ivs \<subseteq> row_id ` set ?docs" if "consistent strata ?docs ivs" for ivs
  proof
    fix i assume "i \<in> iv_document ` set ivs"
    then obtain iv where iv: "iv \<in> set ivs" "i = iv_document iv" by blast
    with that obtain r where "r \<in> set ?docs" "row_id r = i" unfolding consistent_def by blast
    then show "i \<in> row_id ` set ?docs" by blast
  qed
  have "inventory strata rank ?docs rows = Inr docs \<longleftrightarrow> (\<exists>ivs. rows = map Some ivs \<and> consistent strata ?docs ivs
      \<and> (if list_ex (\<lambda>r. mr_inventory r = None) (mt_docs (tables_of rank ?docs ivs)) then Inl InventoryIncomplete
          else Inr (mt_docs (tables_of rank ?docs ivs))) = Inr docs)"
    unfolding inventory_def init bindE_eq_Inr inventory_fold [OF load_documents_fresh] by blast
  also have "\<dots> \<longleftrightarrow> (\<exists>ivs. rows = map Some ivs \<and> consistent strata ?docs ivs
      \<and> \<not> list_ex (\<lambda>r. mr_inventory r = None) (map (inventory_of rank ivs) ?docs) \<and> docs = map (inventory_of rank ivs) ?docs)"
    unfolding tables_docs by (auto split: if_splits)
  finally show ?thesis unfolding all using sub by blast
qed

text \<open>
  C29. The inventory is accepted exactly if it is one. For the documents of a release the inventory is accepted
  if and only if all rows have the shape, they name every kept document once, every row agrees with
  its document and its source's stratum, no family and no content lies in two splits, and no content in two
  strata; then every document has the family, stratum and rank of its row.
\<close>

theorem inventory_accepted_iff:
  "inventory strata rank (load_documents ds) rows = Inr docs \<longleftrightarrow>
    (\<exists>ivs. rows = map Some ivs \<and> consistent strata (load_documents ds) ivs
      \<and> iv_document ` set ivs = row_id ` set (load_documents ds) \<and> docs = map (inventory_of rank ivs) (load_documents ds))"
  by (rule inventory_Inr)

section \<open>The train view\<close>

lemma select_fold:
  assumes "distinct (map row_id docs)"
  shows "foldE select_row docs lineage = Inr docs' \<longleftrightarrow>
    (\<forall>i \<in> set lineage. \<exists>r \<in> set docs. row_id r = i \<and> md_split (mr_doc r) = ''train'')
    \<and> docs' = map (\<lambda>r. r\<lparr>mr_selected := mr_selected r \<or> row_id r \<in> set lineage\<rparr>) docs"
  using assms
proof (induction lineage arbitrary: docs)
  case (Cons i lineage)
  let ?docs = "change_row i (\<lambda>r. r\<lparr>mr_selected := True\<rparr>) docs"
  have ids: "map row_id ?docs = map row_id docs" by (simp add: change_row_def)
  have step: "select_row docs i = Inr d \<longleftrightarrow> (\<exists>r \<in> set docs. row_id r = i \<and> md_split (mr_doc r) = ''train'') \<and> d = ?docs" for d
  proof (cases "find_row docs i")
    case None
    then have "select_row docs i = Inl TrainViewMismatch" by (simp add: select_row_def)
    with None show ?thesis by (simp add: find_row_None)
  next
    case (Some r)
    then have "r \<in> set docs" "row_id r = i" "\<And>x. x \<in> set docs \<Longrightarrow> row_id x = i \<Longrightarrow> x = r"
      using Cons.prems by (auto simp: find_row_Some distinct_map dest: inj_onD)
    then have "(\<exists>x \<in> set docs. row_id x = i \<and> md_split (mr_doc x) = ''train'') \<longleftrightarrow> md_split (mr_doc r) = ''train''" by metis
    then show ?thesis unfolding select_row_def Some option.case by auto
  qed
  have trains: "(\<exists>r \<in> set ?docs. row_id r = j \<and> md_split (mr_doc r) = ''train'') \<longleftrightarrow> (\<exists>r \<in> set docs. row_id r = j \<and> md_split (mr_doc r) = ''train'')" for j
    unfolding change_row_def set_map bex_simps by (intro bex_cong refl) simp
  have marks: "map (\<lambda>r. r\<lparr>mr_selected := mr_selected r \<or> row_id r \<in> set lineage\<rparr>) ?docs
      = map (\<lambda>r. r\<lparr>mr_selected := mr_selected r \<or> row_id r \<in> set (i # lineage)\<rparr>) docs"
    by (auto simp: change_row_def)
  show ?case unfolding foldE.simps bindE_eq_Inr step
    using Cons.IH [of ?docs] Cons.prems ids trains marks by auto
qed auto

definition training_allowed :: "mix_row \<Rightarrow> bool" where
  "training_allowed r \<longleftrightarrow> md_rights (mr_doc r) \<in> {Some ''eligible'', Some ''eligible_with_obligations''}"

lemma select_documents_iff:
  assumes "distinct (map row_id docs)" and "\<forall>r \<in> set docs. \<not> mr_selected r"
  shows "select_documents docs lineage = Inr docs' \<longleftrightarrow>
    set lineage = row_id ` {r \<in> set docs. md_split (mr_doc r) = ''train''}
    \<and> (\<forall>r \<in> set docs. md_split (mr_doc r) = ''train'' \<longrightarrow> training_allowed r)
    \<and> docs' = map (\<lambda>r. r\<lparr>mr_selected := (md_split (mr_doc r) = ''train'')\<rparr>) docs"
proof -
  let ?marked = "map (\<lambda>r. r\<lparr>mr_selected := mr_selected r \<or> row_id r \<in> set lineage\<rparr>) docs"
  have unique: "r = x" if "r \<in> set docs" "x \<in> set docs" "row_id r = row_id x" for r x
    using assms(1) that by (auto simp: distinct_map dest: inj_onD)
  have "select_documents docs lineage = Inr docs' \<longleftrightarrow> (\<forall>i \<in> set lineage. \<exists>r \<in> set docs. row_id r = i \<and> md_split (mr_doc r) = ''train'')
      \<and> (\<forall>r \<in> set docs. md_split (mr_doc r) = ''train'' \<longrightarrow> row_id r \<in> set lineage)
      \<and> (\<forall>r \<in> set docs. row_id r \<in> set lineage \<longrightarrow> training_allowed r) \<and> docs' = ?marked"
    unfolding select_documents_def bindE_eq_Inr select_fold [OF assms(1)] using assms(2)
    by (auto simp: list_ex_iff training_allowed_def)
  also have "\<dots> \<longleftrightarrow> set lineage = row_id ` {r \<in> set docs. md_split (mr_doc r) = ''train''}
      \<and> (\<forall>r \<in> set docs. md_split (mr_doc r) = ''train'' \<longrightarrow> training_allowed r) \<and> docs' = ?marked"
    using unique by (auto; metis)
  also have "\<dots> \<longleftrightarrow> set lineage = row_id ` {r \<in> set docs. md_split (mr_doc r) = ''train''}
      \<and> (\<forall>r \<in> set docs. md_split (mr_doc r) = ''train'' \<longrightarrow> training_allowed r)
      \<and> docs' = map (\<lambda>r. r\<lparr>mr_selected := (md_split (mr_doc r) = ''train'')\<rparr>) docs"
  proof -
    have marked: "?marked = map (\<lambda>r. r\<lparr>mr_selected := (md_split (mr_doc r) = ''train'')\<rparr>) docs"
      if l: "set lineage = row_id ` {r \<in> set docs. md_split (mr_doc r) = ''train''}"
    proof (rule map_cong [OF refl])
      fix r assume r: "r \<in> set docs"
      have "row_id r \<in> set lineage \<longleftrightarrow> md_split (mr_doc r) = ''train''"
      proof
        assume "row_id r \<in> set lineage"
        then obtain x where "x \<in> set docs" "md_split (mr_doc x) = ''train''" "row_id r = row_id x" unfolding l by auto
        with unique [OF r, of x] show "md_split (mr_doc r) = ''train''" by simp
      next
        assume "md_split (mr_doc r) = ''train''"
        with r show "row_id r \<in> set lineage" unfolding l by blast
      qed
      moreover have "\<not> mr_selected r" using r assms(2) by blast
      ultimately show "r\<lparr>mr_selected := mr_selected r \<or> row_id r \<in> set lineage\<rparr> = r\<lparr>mr_selected := (md_split (mr_doc r) = ''train'')\<rparr>" by simp
    qed
    show ?thesis by (intro conj_cong refl) (erule marked [THEN arg_cong [where f = "(=) docs'"]])
  qed
  finally show ?thesis .
qed

section \<open>Candidates resume\<close>

lemma after_element:
  fixes k :: "'a \<Rightarrow> 'k::linorder"
  assumes "sorted (map k xs)" and "distinct (map k xs)" and "xs = ys @ y # zs"
  shows "filter (\<lambda>x. k y < k x) xs = zs"
proof -
  from assms(1,3) have "\<forall>x \<in> set ys. k x \<le> k y" "\<forall>x \<in> set zs. k y \<le> k x" by (auto simp: sorted_append)
  moreover from assms(2,3) have "k y \<notin> k ` set ys" "k y \<notin> k ` set zs" by auto
  ultimately have "\<forall>x \<in> set ys. k x < k y" "\<forall>x \<in> set zs. k y < k x" by (metis image_eqI order.not_eq_order_implies_strict)+
  then show ?thesis unfolding assms(3) by (auto simp: filter_empty_conv intro!: filter_True)
qed

text \<open>The candidates after the frontier of one of them are those that follow it.\<close>

lemma candidates_resume:
  assumes "distinct (map row_id docs)" and "candidate_rows docs stratum cursor = ys @ y # zs"
  shows "candidate_rows docs stratum (Some (row_key y)) = zs"
proof -
  define from_key where "from_key = (case cursor of None \<Rightarrow> ([], []) | Some k \<Rightarrow> k)"
  let ?all = "candidate_rows docs stratum cursor"
  have rows: "?all = sort_key row_key (filter (\<lambda>r. in_stratum stratum r \<and> from_key < row_key r) docs)"
    by (simp add: candidate_rows_def from_key_def)
  have "distinct (map row_key (filter (\<lambda>r. in_stratum stratum r \<and> from_key < row_key r) docs))"
    using assms(1) by (auto simp: distinct_map inj_on_def row_key_def split: option.splits)
  then have d: "distinct (map row_key ?all)"
    unfolding rows by (simp add: distinct_map)
  have "from_key < row_key y"
  proof -
    from assms(2) have "y \<in> set ?all" by simp
    then show ?thesis by (simp add: rows)
  qed
  then have "filter (\<lambda>r. in_stratum stratum r \<and> row_key y < row_key r) docs
      = filter (\<lambda>r. row_key y < row_key r) (filter (\<lambda>r. in_stratum stratum r \<and> from_key < row_key r) docs)"
    unfolding filter_filter by (intro filter_cong) auto
  then have "candidate_rows docs stratum (Some (row_key y)) = filter (\<lambda>r. row_key y < row_key r) ?all"
    unfolding rows by (simp add: candidate_rows_def filter_sort [symmetric])
  also have "\<dots> = zs" by (rule after_element [OF _ d assms(2)]) (simp add: rows)
  finally show ?thesis .
qed

end
