(* ===== verification/Mixture_Schedule.thy ===== *)
theory Mixture_Schedule
  imports Mixture_Index
begin

text \<open>
  \<open>_schedule\<close> of \<open>src/sparselab/corpus/mixture.py\<close> with \<open>MixtureFrontier\<close> of \<open>mixture_pipeline.py\<close>: the token
  schedule of a training mixture. Candidates of a stratum are taken in order of rank, encoded in batches, and emitted until
  the quota is filled; checkpoints let a later process go on.

  A process is a computation with a trace: the events that the index records and the calls of \<open>checkpoint\<close> with
  the state they see. \<open>commit_trace\<close> makes the committed segments from a trace, \<open>restore\<close> the state from the segments.
  Texts are ASCII. The tokenizer, the token cache, the sizes of the JSON rows and the part of the decision to commit
  that depends on the clock and on byte counts are arguments. The index is a \<open>MixtureIndex\<close>, which
  has no \<open>record_family\<close>, so \<open>direct\<close> is false.
\<close>

section \<open>State\<close>

datatype exclusion = DuplicateContent | ZeroTargets

record mix_encoded =
  me_id :: string
  me_source :: string
  me_family :: string
  me_tokens :: "int list"
  me_stratum :: string

record mix_scheduled =
  so_id :: string
  so_family :: string
  so_source :: string
  so_stratum :: string
  so_exposure :: nat
  so_end :: int
  so_tokens :: "int list"

text \<open>The state of a checkpoint.\<close>

record mix_progress =
  pg_cursor :: "(string \<times> string) option"
  pg_exposure :: nat
  pg_ordinal :: nat
  pg_available :: int
  pg_done :: "string list"
  pg_totals :: "string \<Rightarrow> int"
  pg_unique :: "string \<Rightarrow> int"
  pg_available_unique :: "string \<Rightarrow> int"
  pg_available_content :: "string \<Rightarrow> int"
  pg_families :: "string \<Rightarrow> int"
  pg_sources :: "string \<Rightarrow> int"
  pg_candidates :: "string \<Rightarrow> int"
  pg_selected :: "string \<Rightarrow> int"
  pg_records :: nat
  pg_excluded_bytes :: int

record mix_core =
  mc_progress :: mix_progress
  mc_seen :: "string set"
  mc_encoded :: "mix_encoded list"
  mc_excluded :: "(string \<times> exclusion) list"
  mc_output :: "mix_scheduled list"

record mix_env =
  env_docs :: "mix_row list"
  env_quotas :: "(string \<times> int) list"
  env_max :: nat
  env_floors :: "(string \<Rightarrow> int) option"
  env_eos :: int
  env_encode :: "string \<Rightarrow> int list"
  env_exclusion_size :: "string \<times> exclusion \<Rightarrow> int"
  env_row_size :: "mix_encoded \<Rightarrow> int"
  env_limit :: int

datatype mix_event = SeenContent string | AppendRow mix_encoded | ResetSeen

datatype mix_trace = Recorded mix_event | Checkpoint bool string mix_core

type_synonym 'a traced = "mix_trace list \<times> (mix_error + 'a)"

definition bindT :: "'a traced \<Rightarrow> ('a \<Rightarrow> 'b traced) \<Rightarrow> 'b traced" where
  "bindT m f = (case m of (tr, Inl e) \<Rightarrow> (tr, Inl e) | (tr, Inr x) \<Rightarrow> (case f x of (tr', r) \<Rightarrow> (tr @ tr', r)))"

fun foldT :: "('s \<Rightarrow> 'a \<Rightarrow> 's traced) \<Rightarrow> 's \<Rightarrow> 'a list \<Rightarrow> 's traced" where
  "foldT f s [] = ([], Inr s)"
| "foldT f s (x # xs) = bindT (f s x) (\<lambda>s. foldT f s xs)"

definition batch_documents :: nat where
  "batch_documents = 256"

definition batch_bytes :: int where
  "batch_bytes = 8388608"

definition row_cap :: int where
  "row_cap = 67108864"

definition exclusion_cap :: int where
  "exclusion_cap = 134217728"

definition progress :: "(mix_progress \<Rightarrow> mix_progress) \<Rightarrow> mix_core \<Rightarrow> mix_core" where
  "progress f c = c\<lparr>mc_progress := f (mc_progress c)\<rparr>"

definition bump :: "string \<Rightarrow> int \<Rightarrow> (string \<Rightarrow> int) \<Rightarrow> string \<Rightarrow> int" where
  "bump k n m = m(k := m k + n)"

section \<open>Documents\<close>

definition exclude :: "mix_env \<Rightarrow> string \<times> exclusion \<Rightarrow> mix_core \<Rightarrow> mix_error + mix_core" where
  "exclude env row c =
     (let bytes = pg_excluded_bytes (mc_progress c) + env_exclusion_size env row in
      if exclusion_cap < bytes then Inl ExclusionCap
      else Inr (progress (\<lambda>p. p\<lparr>pg_excluded_bytes := bytes\<rparr>) c\<lparr>mc_excluded := mc_excluded c @ [row]\<rparr>))"

definition process_document :: "mix_env \<Rightarrow> string \<Rightarrow> mix_core \<Rightarrow> string \<Rightarrow> string \<Rightarrow> string \<Rightarrow> int list \<Rightarrow> mix_core traced" where
  "process_document env stratum c i source family ids =
     (if ids = [] then ([], exclude env (i, ZeroTargets) c)
      else let row = \<lparr>me_id = i, me_source = source, me_family = family, me_tokens = ids @ [env_eos env], me_stratum = stratum\<rparr> in
        ([Recorded (AppendRow row)],
         if row_cap < env_row_size env row then Inl EncodedCap
         else Inr (progress (\<lambda>p. p\<lparr>pg_selected := bump stratum 1 (pg_selected p), pg_available := pg_available p + int (length ids) + 1,
             pg_available_content := bump stratum (int (length ids)) (pg_available_content p)\<rparr>) c\<lparr>mc_encoded := mc_encoded c @ [row]\<rparr>)))"

datatype pending_document = PendingDuplicate string | PendingFresh string string string string "int list option"

definition process_pending :: "mix_env \<Rightarrow> string \<Rightarrow> mix_core \<Rightarrow> pending_document \<Rightarrow> mix_core traced" where
  "process_pending env stratum c d = (case d of
     PendingDuplicate i \<Rightarrow> ([], exclude env (i, DuplicateContent) c)
   | PendingFresh i source family t cached \<Rightarrow>
       process_document env stratum c i source family (case cached of Some ids \<Rightarrow> ids | None \<Rightarrow> env_encode env t))"

definition flush :: "mix_env \<Rightarrow> string \<Rightarrow> mix_core \<Rightarrow> pending_document list \<Rightarrow> mix_core traced" where
  "flush env stratum c pending =
     (if pending = [] then ([], Inr c)
      else bindT (foldT (process_pending env stratum) c pending) (\<lambda>c. ([Checkpoint False stratum c], Inr c)))"

definition row_family :: "mix_row \<Rightarrow> string" where
  "row_family r = (case mr_inventory r of Some (f, _, _) \<Rightarrow> f | None \<Rightarrow> [])"

definition buffered_bytes :: "mix_row \<Rightarrow> int list option \<Rightarrow> int" where
  "buffered_bytes r cached = max (case cached of None \<Rightarrow> int (length (md_text (mr_doc r))) | Some ids \<Rightarrow> 36 * int (length ids)) 0
     + int (length (row_id r)) + int (length (md_source (mr_doc r))) + int (length (row_family r))"

text \<open>The body of the candidate loop on the state, the pending batch and its bytes.\<close>

type_synonym batch = "mix_core \<times> pending_document list \<times> int"

definition flush_when :: "mix_env \<Rightarrow> string \<Rightarrow> bool \<Rightarrow> batch \<Rightarrow> batch traced" where
  "flush_when env stratum full = (\<lambda>(c, pending, bytes).
     if full then bindT (flush env stratum c pending) (\<lambda>c. ([], Inr (c, [], 0))) else ([], Inr (c, pending, bytes)))"

definition add_candidate :: "mix_env \<Rightarrow> (string \<Rightarrow> int list option) \<Rightarrow> string \<Rightarrow> batch \<Rightarrow> mix_row \<Rightarrow> batch traced" where
  "add_candidate env cache stratum = (\<lambda>(c, pending, bytes) r.
     let d = mr_doc r; cached = cache (md_content d);
         c = progress (\<lambda>p. p\<lparr>pg_cursor := Some (row_key r), pg_candidates := bump stratum 1 (pg_candidates p)\<rparr>) c;
         duplicate = (md_content d \<in> mc_seen c);
         c = c\<lparr>mc_seen := insert (md_content d) (mc_seen c)\<rparr>
     in bindT (if duplicate then ([], Inr ()) else ([Recorded (SeenContent (md_content d))], Inr ())) (\<lambda>_.
     if duplicate then ([], Inr (c, pending @ [PendingDuplicate (md_id d)], bytes + int (length (md_id d))))
     else if batch_bytes < buffered_bytes r cached
     then bindT (process_document env stratum c (md_id d) (md_source d) (row_family r) (case cached of Some ids \<Rightarrow> ids | None \<Rightarrow> env_encode env (md_text d)))
       (\<lambda>c. ([Checkpoint False stratum c], Inr (c, pending, bytes)))
     else ([], Inr (c, pending @ [PendingFresh (md_id d) (md_source d) (row_family r) (md_text d) cached], bytes + buffered_bytes r cached))))"

definition take_candidate :: "mix_env \<Rightarrow> (string \<Rightarrow> int list option) \<Rightarrow> string \<Rightarrow> batch \<Rightarrow> mix_row \<Rightarrow> batch traced" where
  "take_candidate env cache stratum = (\<lambda>(c, pending, bytes) r.
     bindT (flush_when env stratum (pending \<noteq> [] \<and> (batch_documents \<le> length pending
         \<or> batch_bytes < bytes + buffered_bytes r (cache (md_content (mr_doc r))))) (c, pending, bytes)) (\<lambda>b.
     bindT (add_candidate env cache stratum b r) (\<lambda>(c, pending, bytes).
     flush_when env stratum (batch_documents \<le> length pending \<or> batch_bytes \<le> bytes) (c, pending, bytes))))"

definition take_candidates :: "mix_env \<Rightarrow> (string \<Rightarrow> int list option) \<Rightarrow> string \<Rightarrow> mix_core \<Rightarrow> mix_row list \<Rightarrow> mix_core traced" where
  "take_candidates env cache stratum c rows =
     bindT (foldT (take_candidate env cache stratum) (c, [], 0) rows) (\<lambda>(c, pending, _). flush env stratum c pending)"

section \<open>Emission\<close>

definition emit :: "mix_env \<Rightarrow> string \<Rightarrow> int \<Rightarrow> nat \<Rightarrow> mix_encoded \<Rightarrow> mix_core \<Rightarrow> mix_core" where
  "emit env stratum quota exposure d c =
     (let remaining = quota - pg_totals (mc_progress c) stratum in
      if remaining \<le> 0 then c
      else let n = min (int (length (me_tokens d))) remaining;
             tokens = (if n = int (length (me_tokens d)) then take (nat n) (me_tokens d) else take (nat (n - 1)) (me_tokens d) @ [env_eos env])
        in progress (\<lambda>p. p\<lparr>pg_totals := bump stratum n (pg_totals p), pg_sources := bump (me_source d) n (pg_sources p),
               pg_unique := (if exposure = 1 then bump stratum n (pg_unique p) else pg_unique p), pg_records := pg_records p + 1\<rparr>)
             c\<lparr>mc_output := mc_output c @ [\<lparr>so_id = me_id d, so_family = me_family d, so_source = me_source d, so_stratum = stratum,
               so_exposure = exposure, so_end = n - 1, so_tokens = tokens\<rparr>]\<rparr>)"

text \<open>\<open>index.encoded(stratum, after)\<close>: ordinals count from one over all strata.\<close>

definition encoded_after :: "mix_core \<Rightarrow> string \<Rightarrow> nat \<Rightarrow> (nat \<times> mix_encoded) list" where
  "encoded_after c stratum after = filter (\<lambda>(n, d). me_stratum d = stratum \<and> after < n) (enumerate 1 (mc_encoded c))"

fun emit_rows :: "mix_env \<Rightarrow> string \<Rightarrow> int \<Rightarrow> nat \<Rightarrow> mix_core \<Rightarrow> (nat \<times> mix_encoded) list \<Rightarrow> mix_core traced" where
  "emit_rows env stratum quota exposure c [] = ([], Inr c)"
| "emit_rows env stratum quota exposure c ((n, d) # ds) =
     (if quota \<le> pg_totals (mc_progress c) stratum then ([], Inr c)
      else let c = progress (\<lambda>p. p\<lparr>pg_ordinal := n\<rparr>) (emit env stratum quota exposure d c) in
        bindT (if pg_records (mc_progress c) mod batch_documents = 0 then ([Checkpoint False stratum c], Inr ()) else ([], Inr ())) (\<lambda>_.
        emit_rows env stratum quota exposure c ds))"

fun emit_exposures :: "mix_env \<Rightarrow> string \<Rightarrow> int \<Rightarrow> mix_core \<Rightarrow> (nat \<times> nat) list \<Rightarrow> mix_core traced" where
  "emit_exposures env stratum quota c [] = ([], Inr c)"
| "emit_exposures env stratum quota c ((exposure, after) # es) =
     (let c = progress (\<lambda>p. p\<lparr>pg_exposure := exposure\<rparr>) c in
      bindT (emit_rows env stratum quota exposure c (encoded_after c stratum after)) (\<lambda>c.
      if pg_totals (mc_progress c) stratum = quota then ([], Inr c) else emit_exposures env stratum quota c es))"

text \<open>The exposures that are left, with the ordinal after which each starts.\<close>

definition exposures_from :: "mix_env \<Rightarrow> mix_progress \<Rightarrow> (nat \<times> nat) list" where
  "exposures_from env p = (let start = (if pg_exposure p = 0 then 1 else pg_exposure p) in
     map (\<lambda>e. (e, if e = start then pg_ordinal p else 0)) [start ..< env_max env + 1])"

section \<open>Strata\<close>

definition check_supply :: "mix_env \<Rightarrow> string \<Rightarrow> int \<Rightarrow> mix_core \<Rightarrow> mix_error + mix_core" where
  "check_supply env stratum quota c =
     (let p = mc_progress c in
      if (case env_floors env of Some fl \<Rightarrow> pg_available_content p stratum < fl stratum | None \<Rightarrow> False) then Inl (FloorNotMet stratum)
      else if pg_available p * int (env_max env) < quota then Inl (QuotaImpossible stratum)
      else Inr (progress (\<lambda>p. p\<lparr>pg_available_unique := (pg_available_unique p)(stratum := pg_available p),
        pg_families := (pg_families p)(stratum := int (card (me_family ` {d \<in> set (mc_encoded c). me_stratum d = stratum})))\<rparr>) c))"

definition finish_stratum :: "mix_env \<Rightarrow> string \<times> int \<Rightarrow> mix_core \<Rightarrow> mix_core traced" where
  "finish_stratum env = (\<lambda>(stratum, quota) c.
     bindT ([], check_supply env stratum quota c) (\<lambda>c.
     bindT (emit_exposures env stratum quota c (exposures_from env (mc_progress c))) (\<lambda>c.
     if pg_totals (mc_progress c) stratum \<noteq> quota then ([], Inl (QuotaUnfilled stratum))
     else let c = progress (\<lambda>p. p\<lparr>pg_done := pg_done p @ [stratum]\<rparr>) c in ([Checkpoint True stratum c], Inr c))))"

definition start_stratum :: "mix_core \<Rightarrow> mix_core" where
  "start_stratum c = progress (\<lambda>p. p\<lparr>pg_cursor := None, pg_exposure := 0, pg_ordinal := 0, pg_available := 0\<rparr>) c"

text \<open>The cursor that opens without a frontier empties the table of contents seen.\<close>

definition open_candidates :: "mix_env \<Rightarrow> string \<Rightarrow> mix_core \<Rightarrow> mix_core \<times> mix_row list" where
  "open_candidates env stratum c =
     (if pg_exposure (mc_progress c) \<noteq> 0 then (c, [])
      else (if pg_cursor (mc_progress c) = None then c\<lparr>mc_seen := {}\<rparr> else c, candidate_rows (env_docs env) stratum (pg_cursor (mc_progress c))))"

definition run_stratum :: "mix_env \<Rightarrow> (string \<Rightarrow> int list option) \<Rightarrow> string option \<Rightarrow> mix_core \<Rightarrow> string \<times> int \<Rightarrow> mix_core traced" where
  "run_stratum env cache resumed c = (\<lambda>(stratum, quota).
     if stratum \<in> set (pg_done (mc_progress c)) then ([], Inr c)
     else bindT (if resumed = Some stratum then ([], Inr c) else ([Recorded ResetSeen], Inr (start_stratum c))) (\<lambda>c.
       let (c, rows) = open_candidates env stratum c in
       bindT (take_candidates env cache stratum c rows) (finish_stratum env (stratum, quota))))"

definition run_schedule :: "mix_env \<Rightarrow> (string \<Rightarrow> int list option) \<Rightarrow> string option \<Rightarrow> mix_core \<Rightarrow> mix_core traced" where
  "run_schedule env cache resumed c = foldT (run_stratum env cache resumed) c (sort_key fst (env_quotas env))"

section \<open>Commits\<close>

record mix_commit =
  cm_stratum :: string
  cm_progress :: mix_progress
  cm_output :: "mix_scheduled list"
  cm_excluded :: "(string \<times> exclusion) list"
  cm_events :: "mix_event list"

record mix_frontier =
  fr_commits :: "mix_commit list"
  fr_output :: nat
  fr_excluded :: nat
  fr_events :: "mix_event list"
  fr_calls :: nat

definition empty_core :: mix_core where
  "empty_core = \<lparr>mc_progress = \<lparr>pg_cursor = None, pg_exposure = 0, pg_ordinal = 0, pg_available = 0, pg_done = [], pg_totals = \<lambda>_. 0,
     pg_unique = \<lambda>_. 0, pg_available_unique = \<lambda>_. 0, pg_available_content = \<lambda>_. 0, pg_families = \<lambda>_. 0, pg_sources = \<lambda>_. 0,
     pg_candidates = \<lambda>_. 0, pg_selected = \<lambda>_. 0, pg_records = 0, pg_excluded_bytes = 0\<rparr>,
     mc_seen = {}, mc_encoded = [], mc_excluded = [], mc_output = []\<rparr>"

definition committed_progress :: "mix_commit list \<Rightarrow> mix_progress" where
  "committed_progress cs = (if cs = [] then mc_progress empty_core else cm_progress (last cs))"

text \<open>\<open>late\<close> stands for the two conditions on bytes and time, by the number of the call.\<close>

definition commit_due :: "mix_env \<Rightarrow> (nat \<Rightarrow> bool) \<Rightarrow> mix_frontier \<Rightarrow> bool \<Rightarrow> mix_progress \<Rightarrow> bool" where
  "commit_due env late f force p \<longleftrightarrow> force
     \<or> env_limit env \<le> (\<Sum>(s, _) \<leftarrow> env_quotas env. pg_candidates p s) - (\<Sum>(s, _) \<leftarrow> env_quotas env. pg_candidates (committed_progress (fr_commits f)) s)
     \<or> env_limit env \<le> int (pg_records p) - int (pg_records (committed_progress (fr_commits f)))
     \<or> late (fr_calls f)"

definition commit_item :: "mix_env \<Rightarrow> (nat \<Rightarrow> bool) \<Rightarrow> mix_frontier \<Rightarrow> mix_trace \<Rightarrow> mix_frontier" where
  "commit_item env late f item = (case item of
     Recorded e \<Rightarrow> f\<lparr>fr_events := fr_events f @ [e]\<rparr>
   | Checkpoint force stratum c \<Rightarrow>
       let f' = f\<lparr>fr_calls := Suc (fr_calls f)\<rparr> in
       if commit_due env late f force (mc_progress c)
       then f'\<lparr>fr_commits := fr_commits f @ [\<lparr>cm_stratum = stratum, cm_progress = mc_progress c, cm_output = drop (fr_output f) (mc_output c),
           cm_excluded = drop (fr_excluded f) (mc_excluded c), cm_events = fr_events f\<rparr>],
         fr_output := length (mc_output c), fr_excluded := length (mc_excluded c), fr_events := []\<rparr>
       else f')"

definition restore_event :: "mix_env \<Rightarrow> string set \<times> mix_encoded list \<Rightarrow> mix_event \<Rightarrow> mix_error + string set \<times> mix_encoded list" where
  "restore_event env = (\<lambda>(seen, rows) e. case e of
     SeenContent k \<Rightarrow> Inr (insert k seen, rows)
   | AppendRow d \<Rightarrow> if row_cap < env_row_size env d then Inl EncodedCap else Inr (seen, rows @ [d])
   | ResetSeen \<Rightarrow> Inr ({}, rows))"

definition restore :: "mix_env \<Rightarrow> mix_commit list \<Rightarrow> mix_error + mix_core" where
  "restore env cs = bindE (foldE (restore_event env) ({}, []) (concat (map cm_events cs))) (\<lambda>(seen, rows).
     Inr \<lparr>mc_progress = committed_progress cs, mc_seen = seen, mc_encoded = rows, mc_excluded = concat (map cm_excluded cs),
       mc_output = concat (map cm_output cs)\<rparr>)"

text \<open>One process: restoring, then the schedule with its commits.\<close>

definition resumed_of :: "mix_commit list \<Rightarrow> string option" where
  "resumed_of cs = (if cs = [] then None else Some (cm_stratum (last cs)))"

definition frontier_of :: "mix_commit list \<Rightarrow> mix_core \<Rightarrow> mix_frontier" where
  "frontier_of cs c = \<lparr>fr_commits = cs, fr_output = length (mc_output c), fr_excluded = length (mc_excluded c), fr_events = [], fr_calls = 0\<rparr>"

definition run_process :: "mix_env \<Rightarrow> (string \<Rightarrow> int list option) \<Rightarrow> (nat \<Rightarrow> bool) \<Rightarrow> mix_commit list \<Rightarrow> mix_commit list \<times> (mix_error + mix_core)" where
  "run_process env cache late cs = (case restore env cs of
     Inl e \<Rightarrow> (cs, Inl e)
   | Inr c \<Rightarrow> (case run_schedule env cache (resumed_of cs) c of (tr, r) \<Rightarrow>
       (fr_commits (foldl (commit_item env late) (frontier_of cs c) tr), r)))"

section \<open>Computations\<close>

lemma bindT_simps [simp]:
  "bindT (tr, Inl e) f = (tr, Inl e)" "bindT (tr, Inr x) f = (tr @ fst (f x), snd (f x))"
  by (simp_all add: bindT_def split: prod.split)

lemma snd_bindT: "snd (bindT m f) = bindE (snd m) (\<lambda>x. snd (f x))"
  by (cases m; cases "snd m") auto

lemma fst_bindT: "fst (bindT m f) = fst m @ (case snd m of Inl _ \<Rightarrow> [] | Inr x \<Rightarrow> fst (f x))"
  by (cases m; cases "snd m") auto

lemma snd_foldT: "snd (foldT f s xs) = foldE (\<lambda>s x. snd (f s x)) s xs"
  by (induction xs arbitrary: s) (simp_all add: snd_bindT)

lemma bindE_assoc: "bindE (bindE r f) g = bindE r (\<lambda>x. bindE (f x) g)"
  by (cases r) simp_all

lemma bindE_return [simp]: "bindE r Inr = r"
  by (cases r) simp_all

lemma in_bindT: "x \<in> set (fst (bindT m f)) \<longleftrightarrow> x \<in> set (fst m) \<or> (\<exists>y. snd m = Inr y \<and> x \<in> set (fst (f y)))"
  by (auto simp: fst_bindT split: sum.splits)

section \<open>Batches do not matter\<close>

text \<open>The candidate loop without batches and checkpoints.\<close>

definition note_candidate :: "string \<Rightarrow> mix_row \<Rightarrow> mix_core \<Rightarrow> mix_core" where
  "note_candidate stratum r c = (progress (\<lambda>p. p\<lparr>pg_cursor := Some (row_key r), pg_candidates := bump stratum 1 (pg_candidates p)\<rparr>) c)
     \<lparr>mc_seen := insert (md_content (mr_doc r)) (mc_seen c)\<rparr>"

definition plain_candidate :: "mix_env \<Rightarrow> string \<Rightarrow> mix_core \<Rightarrow> mix_row \<Rightarrow> mix_error + mix_core" where
  "plain_candidate env stratum c r =
     (if md_content (mr_doc r) \<in> mc_seen c then exclude env (row_id r, DuplicateContent) (note_candidate stratum r c)
      else snd (process_document env stratum (note_candidate stratum r c) (row_id r) (md_source (mr_doc r)) (row_family r)
        (env_encode env (md_text (mr_doc r)))))"

definition cache_sound :: "mix_env \<Rightarrow> (string \<Rightarrow> int list option) \<Rightarrow> bool" where
  "cache_sound env cache \<longleftrightarrow> (\<forall>r \<in> set (env_docs env). \<forall>ids. cache (md_content (mr_doc r)) = Some ids \<longrightarrow> ids = env_encode env (md_text (mr_doc r)))"

abbreviation pending_result :: "mix_env \<Rightarrow> string \<Rightarrow> mix_core \<Rightarrow> pending_document list \<Rightarrow> mix_error + mix_core" where
  "pending_result env stratum c pending \<equiv> foldE (\<lambda>c d. snd (process_pending env stratum c d)) c pending"

lemma snd_flush: "snd (flush env stratum c pending) = pending_result env stratum c pending"
  by (simp add: flush_def snd_bindT snd_foldT)

lemma exclude_note: "exclude env x (note_candidate stratum r c) = bindE (exclude env x c) (\<lambda>c. Inr (note_candidate stratum r c))"
  by (simp add: exclude_def note_candidate_def progress_def Let_def)

lemma process_document_note: "snd (process_document env stratum (note_candidate stratum' r c) i source family ids)
    = bindE (snd (process_document env stratum c i source family ids)) (\<lambda>c. Inr (note_candidate stratum' r c))"
  by (simp add: process_document_def exclude_note) (simp add: note_candidate_def progress_def Let_def)

lemma process_pending_note: "snd (process_pending env stratum (note_candidate stratum' r c) d)
    = bindE (snd (process_pending env stratum c d)) (\<lambda>c. Inr (note_candidate stratum' r c))"
  by (cases d) (simp_all add: process_pending_def exclude_note process_document_note)

lemma pending_result_note: "pending_result env stratum (note_candidate stratum' r c) pending
    = bindE (pending_result env stratum c pending) (\<lambda>c. Inr (note_candidate stratum' r c))"
  by (induction pending arbitrary: c) (simp_all add: process_pending_note bindE_assoc)

lemma exclude_seen: "exclude env x c = Inr c' \<Longrightarrow> mc_seen c' = mc_seen c"
  by (auto simp: exclude_def progress_def Let_def split: if_splits)

lemma process_document_seen: "snd (process_document env stratum c i source family ids) = Inr c' \<Longrightarrow> mc_seen c' = mc_seen c"
  by (auto simp: process_document_def progress_def Let_def split: if_splits dest: exclude_seen)

lemma process_pending_seen: "snd (process_pending env stratum c d) = Inr c' \<Longrightarrow> mc_seen c' = mc_seen c"
  by (cases d) (auto simp: process_pending_def dest: exclude_seen process_document_seen)

lemma pending_result_seen: "pending_result env stratum c pending = Inr c' \<Longrightarrow> mc_seen c' = mc_seen c"
  by (induction pending arbitrary: c) (auto dest: process_pending_seen)

text \<open>What one round of the loop makes of the state that the pending batch stands for.\<close>

definition pending_of :: "mix_env \<Rightarrow> (string \<Rightarrow> int list option) \<Rightarrow> mix_core \<Rightarrow> mix_row \<Rightarrow> pending_document" where
  "pending_of env cache c r = (if md_content (mr_doc r) \<in> mc_seen c then PendingDuplicate (row_id r)
     else PendingFresh (row_id r) (md_source (mr_doc r)) (row_family r) (md_text (mr_doc r)) (cache (md_content (mr_doc r))))"

lemma plain_is_pending:
  assumes "cache_sound env cache" and "r \<in> set (env_docs env)"
  shows "plain_candidate env stratum c r = snd (process_pending env stratum (note_candidate stratum r c) (pending_of env cache c r))"
  using assms by (auto simp: plain_candidate_def process_pending_def pending_of_def cache_sound_def split: option.split)

lemma plain_after_pending:
  assumes "cache_sound env cache" and "r \<in> set (env_docs env)"
  shows "bindE (pending_result env stratum c pending) (\<lambda>c. plain_candidate env stratum c r)
    = pending_result env stratum (note_candidate stratum r c) (pending @ [pending_of env cache c r])"
proof (cases "pending_result env stratum c pending")
  case (Inr c')
  then have "pending_of env cache c' r = pending_of env cache c r" by (simp add: pending_of_def pending_result_seen [OF Inr])
  with Inr show ?thesis by (simp add: plain_is_pending [OF assms] pending_result_note)
qed (simp add: pending_result_note)

abbreviation batch_result :: "mix_env \<Rightarrow> string \<Rightarrow> batch \<Rightarrow> mix_error + mix_core" where
  "batch_result env stratum b \<equiv> pending_result env stratum (fst b) (fst (snd b))"

lemma flush_snapshot: "Checkpoint f s x \<in> set (fst (flush env stratum c pending)) \<Longrightarrow> \<not> f \<and> s = stratum \<and> pending \<noteq> [] \<and> pending_result env stratum c pending = Inr x"
proof -
  have silent: "Checkpoint f s x \<notin> set (fst (process_document env stratum c i source family ids))" for c i source family ids
    by (simp add: process_document_def Let_def)
  have "Checkpoint f s x \<notin> set (fst (process_pending env stratum c d))" for c d
    by (cases d) (simp_all add: process_pending_def silent)
  then have "Checkpoint f s x \<notin> set (fst (foldT (process_pending env stratum) c ds))" for ds
    by (induction ds arbitrary: c) (simp_all add: in_bindT)
  then show "Checkpoint f s x \<in> set (fst (flush env stratum c pending)) \<Longrightarrow> \<not> f \<and> s = stratum \<and> pending \<noteq> [] \<and> pending_result env stratum c pending = Inr x"
    by (auto simp: flush_def in_bindT snd_foldT split: if_splits)
qed

lemma flush_when_result:
  shows "bindE (snd (flush_when env stratum full b)) (batch_result env stratum) = batch_result env stratum b"
    and "snd (flush_when env stratum full b) = Inr b' \<Longrightarrow> 0 \<le> snd (snd b) \<Longrightarrow> 0 \<le> snd (snd b')"
    and "snd (flush_when env stratum full b) = Inr b' \<Longrightarrow> full \<Longrightarrow> fst (snd b') = []"
    and "Checkpoint f s x \<in> set (fst (flush_when env stratum full b)) \<Longrightarrow> \<not> f \<and> s = stratum \<and> batch_result env stratum b = Inr x \<and> fst (snd b) \<noteq> []"
  by (cases b; auto simp: flush_when_def snd_bindT snd_flush bindE_assoc in_bindT split: if_splits dest: flush_snapshot)+

lemma add_candidate_cases:
  assumes "cache_sound env cache" and "r \<in> set (env_docs env)"
  shows "add_candidate env cache stratum (c, pending, bytes) r =
    (if md_content (mr_doc r) \<in> mc_seen c
     then ([], Inr (note_candidate stratum r c, pending @ [pending_of env cache c r], bytes + int (length (row_id r))))
     else bindT ([Recorded (SeenContent (md_content (mr_doc r)))], Inr ()) (\<lambda>_.
       if batch_bytes < buffered_bytes r (cache (md_content (mr_doc r)))
       then bindT (process_pending env stratum (note_candidate stratum r c) (pending_of env cache c r))
         (\<lambda>c. ([Checkpoint False stratum c], Inr (c, pending, bytes)))
       else ([], Inr (note_candidate stratum r c, pending @ [pending_of env cache c r], bytes + buffered_bytes r (cache (md_content (mr_doc r)))))))"
  by (simp add: add_candidate_def Let_def note_candidate_def progress_def pending_of_def process_pending_def)

lemma process_pending_silent: "Checkpoint f s x \<notin> set (fst (process_pending env stratum c d))"
  by (cases d) (simp_all add: process_pending_def process_document_def Let_def)

lemma add_candidate_result:
  assumes "cache_sound env cache" and "r \<in> set (env_docs env)" and "batch_bytes < buffered_bytes r (cache (md_content (mr_doc r))) \<longrightarrow> fst (snd b) = []"
  shows "bindE (snd (add_candidate env cache stratum b r)) (batch_result env stratum) = bindE (batch_result env stratum b) (\<lambda>c. plain_candidate env stratum c r)"
    and "snd (add_candidate env cache stratum b r) = Inr b' \<Longrightarrow> 0 \<le> snd (snd b) \<Longrightarrow> 0 \<le> snd (snd b')"
    and "Checkpoint f s x \<in> set (fst (add_candidate env cache stratum b r))
      \<Longrightarrow> \<not> f \<and> s = stratum \<and> bindE (batch_result env stratum b) (\<lambda>c. plain_candidate env stratum c r) = Inr x"
proof -
  obtain c pending bytes where b: "b = (c, pending, bytes)" by (cases b)
  note cases = add_candidate_cases [OF assms(1,2), of stratum c pending bytes]
  note plain = plain_after_pending [OF assms(1,2), of stratum c pending]
  have size: "0 \<le> buffered_bytes r cached" for cached by (simp add: buffered_bytes_def)
  show "bindE (snd (add_candidate env cache stratum b r)) (batch_result env stratum) = bindE (batch_result env stratum b) (\<lambda>c. plain_candidate env stratum c r)"
    using assms(3) plain unfolding b cases by (simp add: snd_bindT bindE_assoc)
  show "snd (add_candidate env cache stratum b r) = Inr b' \<Longrightarrow> 0 \<le> snd (snd b) \<Longrightarrow> 0 \<le> snd (snd b')"
    unfolding b cases using size [of "cache (md_content (mr_doc r))"] by (auto simp: snd_bindT split: if_splits)
  show "Checkpoint f s x \<in> set (fst (add_candidate env cache stratum b r))
      \<Longrightarrow> \<not> f \<and> s = stratum \<and> bindE (batch_result env stratum b) (\<lambda>c. plain_candidate env stratum c r) = Inr x"
    using assms(3) plain unfolding b cases by (auto simp: in_bindT process_pending_silent split: if_splits)
qed

lemma take_candidate_result:
  assumes "cache_sound env cache" and "r \<in> set (env_docs env)" and "0 \<le> snd (snd b)"
  shows "bindE (snd (take_candidate env cache stratum b r)) (batch_result env stratum) = bindE (batch_result env stratum b) (\<lambda>c. plain_candidate env stratum c r)"
    and "snd (take_candidate env cache stratum b r) = Inr b' \<Longrightarrow> 0 \<le> snd (snd b')"
    and "Checkpoint f s x \<in> set (fst (take_candidate env cache stratum b r))
      \<Longrightarrow> \<not> f \<and> s = stratum \<and> (fst (snd b) \<noteq> [] \<and> batch_result env stratum b = Inr x
        \<or> bindE (batch_result env stratum b) (\<lambda>c. plain_candidate env stratum c r) = Inr x)"
proof -
  obtain c pending bytes where b: "b = (c, pending, bytes)" by (cases b)
  let ?size = "buffered_bytes r (cache (md_content (mr_doc r)))"
  define full where "full \<longleftrightarrow> pending \<noteq> [] \<and> (batch_documents \<le> length pending \<or> batch_bytes < bytes + ?size)"
  let ?first = "flush_when env stratum full b" and ?add = "\<lambda>b. add_candidate env cache stratum b r"
  let ?last = "\<lambda>(c, pending, bytes). flush_when env stratum (batch_documents \<le> length pending \<or> batch_bytes \<le> bytes) (c, pending, bytes)"
  have run: "take_candidate env cache stratum b r = bindT ?first (\<lambda>b. bindT (?add b) ?last)"
    by (simp add: take_candidate_def b full_def)
  have room: "batch_bytes < ?size \<longrightarrow> fst (snd b') = []" if "snd ?first = Inr b'" for b'
  proof
    assume big: "batch_bytes < ?size"
    show "fst (snd b') = []"
    proof (cases full)
      case True
      with flush_when_result(3) [OF that] show ?thesis by blast
    next
      case False
      with big assms(3) have "pending = []" by (auto simp: full_def b)
      with False that show ?thesis by (auto simp: flush_when_def b)
    qed
  qed
  have last: "bindE (snd (?last b')) (batch_result env stratum) = batch_result env stratum b'" for b'
    by (cases b') (simp only: prod.case flush_when_result(1))
  note add = add_candidate_result [where stratum = stratum, OF assms(1,2) room]
  show "bindE (snd (take_candidate env cache stratum b r)) (batch_result env stratum) = bindE (batch_result env stratum b) (\<lambda>c. plain_candidate env stratum c r)"
  proof (cases "snd ?first")
    case (Inl e)
    with flush_when_result(1) [of env stratum full b] have "batch_result env stratum b = Inl e" by simp
    with Inl show ?thesis by (simp add: run snd_bindT)
  next
    case (Inr b')
    with flush_when_result(1) [of env stratum full b] have "batch_result env stratum b = batch_result env stratum b'" by simp
    with Inr add(1) [OF Inr] show ?thesis by (simp add: run snd_bindT bindE_assoc last)
  qed
  show "0 \<le> snd (snd b')" if "snd (take_candidate env cache stratum b r) = Inr b'"
  proof -
    from that obtain b1 b2 where r: "snd ?first = Inr b1" "snd (?add b1) = Inr b2" "snd (?last b2) = Inr b'"
      unfolding run snd_bindT bindE_eq_Inr by blast
    from flush_when_result(2) [OF r(1) assms(3)] have "0 \<le> snd (snd b1)" .
    from add(2) [OF r(1,2) this] have "0 \<le> snd (snd b2)" .
    with r(3) flush_when_result(2) [of env stratum _ b2 b'] show ?thesis by (cases b2) auto
  qed
  assume snap: "Checkpoint f s x \<in> set (fst (take_candidate env cache stratum b r))"
  show "\<not> f \<and> s = stratum \<and> (fst (snd b) \<noteq> [] \<and> batch_result env stratum b = Inr x
      \<or> bindE (batch_result env stratum b) (\<lambda>c. plain_candidate env stratum c r) = Inr x)"
    using snap unfolding run in_bindT
  proof (elim disjE exE conjE)
    assume "Checkpoint f s x \<in> set (fst ?first)"
    from flush_when_result(4) [OF this] show ?thesis by blast
  next
    fix b' assume b': "snd ?first = Inr b'" and "Checkpoint f s x \<in> set (fst (?add b'))"
    from add(3) [OF this] flush_when_result(1) [of env stratum full b] b' show ?thesis by simp
  next
    fix b' b'' assume b': "snd ?first = Inr b'" and b'': "snd (?add b') = Inr b''" and s: "Checkpoint f s x \<in> set (fst (?last b''))"
    from s have "\<not> f \<and> s = stratum \<and> batch_result env stratum b'' = Inr x" by (cases b'') (auto dest: flush_when_result(4))
    with add(1) [OF b'] b'' flush_when_result(1) [of env stratum full b] b' show ?thesis by simp
  qed
qed

lemma take_rows:
  assumes "cache_sound env cache" and "set rows \<subseteq> set (env_docs env)" and "0 \<le> snd (snd b)"
  shows "bindE (snd (foldT (take_candidate env cache stratum) b rows)) (batch_result env stratum)
      = bindE (batch_result env stratum b) (\<lambda>c. foldE (plain_candidate env stratum) c rows)"
  using assms(2,3)
proof (induction rows arbitrary: b)
  case (Cons r rows)
  let ?m = "take_candidate env cache stratum b r"
  from Cons.prems have r: "r \<in> set (env_docs env)" "set rows \<subseteq> set (env_docs env)" by auto
  note one = take_candidate_result [where stratum = stratum, OF assms(1) r(1) Cons.prems(2)]
  have later: "bindE (batch_result env stratum b) (\<lambda>c. foldE (plain_candidate env stratum) c (r # rows))
      = bindE (bindE (batch_result env stratum b) (\<lambda>c. plain_candidate env stratum c r)) (\<lambda>c. foldE (plain_candidate env stratum) c rows)"
    by (simp only: foldE.simps bindE_assoc)
  show ?case
  proof (cases "snd ?m")
    case (Inl e)
    with one(1) have "bindE (batch_result env stratum b) (\<lambda>c. plain_candidate env stratum c r) = Inl e" by simp
    with Inl later show ?thesis by (simp add: snd_bindT)
  next
    case (Inr b')
    with one(1) have "bindE (batch_result env stratum b) (\<lambda>c. plain_candidate env stratum c r) = batch_result env stratum b'" by simp
    with Inr later Cons.IH [OF r(2) one(2) [OF Inr]] show ?thesis by (simp add: snd_bindT)
  qed
qed simp

lemma take_rows_snapshot:
  assumes "cache_sound env cache" and "set rows \<subseteq> set (env_docs env)" and "0 \<le> snd (snd b)"
    and "Checkpoint f s x \<in> set (fst (foldT (take_candidate env cache stratum) b rows))"
  shows "\<not> f \<and> s = stratum
      \<and> (\<exists>ys zs. rows = ys @ zs \<and> (ys \<noteq> [] \<or> fst (snd b) \<noteq> []) \<and> bindE (batch_result env stratum b) (\<lambda>c. foldE (plain_candidate env stratum) c ys) = Inr x)"
  using assms(2-4)
proof (induction rows arbitrary: b)
  case (Cons r rows)
  let ?m = "take_candidate env cache stratum b r"
  from Cons.prems have r: "r \<in> set (env_docs env)" "set rows \<subseteq> set (env_docs env)" by auto
  note one = take_candidate_result [where stratum = stratum, OF assms(1) r(1) Cons.prems(2)]
  from Cons.prems(3) have "Checkpoint f s x \<in> set (fst ?m)
      \<or> (\<exists>b'. snd ?m = Inr b' \<and> Checkpoint f s x \<in> set (fst (foldT (take_candidate env cache stratum) b' rows)))"
    by (simp add: in_bindT)
  then show ?case
  proof (elim disjE exE conjE)
    assume "Checkpoint f s x \<in> set (fst ?m)"
    from one(3) [OF this] show ?thesis
    proof (elim conjE disjE)
      assume "\<not> f" "s = stratum" "fst (snd b) \<noteq> []" "batch_result env stratum b = Inr x"
      then show ?thesis by (intro conjI) (simp_all, metis append_Nil foldE.simps(1))
    next
      assume "\<not> f" "s = stratum" "bindE (batch_result env stratum b) (\<lambda>c. plain_candidate env stratum c r) = Inr x"
      moreover from this(3) have "bindE (batch_result env stratum b) (\<lambda>c. foldE (plain_candidate env stratum) c [r]) = Inr x" by simp
      moreover have "r # rows = [r] @ rows" by simp
      ultimately show ?thesis by blast
    qed
  next
    fix b' assume b': "snd ?m = Inr b'" and snap: "Checkpoint f s x \<in> set (fst (foldT (take_candidate env cache stratum) b' rows))"
    from Cons.IH [OF r(2) one(2) [OF b'] snap] obtain ys zs where ys: "\<not> f" "s = stratum" "rows = ys @ zs"
        "bindE (batch_result env stratum b') (\<lambda>c. foldE (plain_candidate env stratum) c ys) = Inr x" by blast
    from one(1) b' have "bindE (batch_result env stratum b) (\<lambda>c. plain_candidate env stratum c r) = batch_result env stratum b'" by simp
    with ys(4) have "bindE (batch_result env stratum b) (\<lambda>c. foldE (plain_candidate env stratum) c (r # ys)) = Inr x"
      by (simp only: foldE.simps bindE_assoc [symmetric])
    moreover from ys(3) have "r # rows = (r # ys) @ zs" by simp
    ultimately show ?thesis using ys(1,2) by blast
  qed
qed simp

lemma take_candidates_result:
  assumes "cache_sound env cache" and "set rows \<subseteq> set (env_docs env)"
  shows "snd (take_candidates env cache stratum c rows) = foldE (plain_candidate env stratum) c rows"
    and "Checkpoint f s x \<in> set (fst (take_candidates env cache stratum c rows)) \<Longrightarrow> \<not> f \<and> s = stratum
      \<and> (\<exists>ys zs. rows = ys @ zs \<and> ys \<noteq> [] \<and> foldE (plain_candidate env stratum) c ys = Inr x)"
proof -
  let ?m = "foldT (take_candidate env cache stratum) (c, [], 0) rows"
  have sum: "bindE (snd ?m) (batch_result env stratum) = foldE (plain_candidate env stratum) c rows"
    using take_rows [OF assms, of "(c, [], 0)" stratum] by simp
  have def: "take_candidates env cache stratum c rows = bindT ?m (\<lambda>b. flush env stratum (fst b) (fst (snd b)))"
    by (simp add: take_candidates_def split_def)
  show "snd (take_candidates env cache stratum c rows) = foldE (plain_candidate env stratum) c rows"
    unfolding def snd_bindT snd_flush sum ..
  assume "Checkpoint f s x \<in> set (fst (take_candidates env cache stratum c rows))"
  then have "Checkpoint f s x \<in> set (fst ?m) \<or> (\<exists>b. snd ?m = Inr b \<and> Checkpoint f s x \<in> set (fst (flush env stratum (fst b) (fst (snd b)))))"
    unfolding def by (simp add: in_bindT)
  then show "\<not> f \<and> s = stratum \<and> (\<exists>ys zs. rows = ys @ zs \<and> ys \<noteq> [] \<and> foldE (plain_candidate env stratum) c ys = Inr x)"
  proof (elim disjE exE conjE)
    assume "Checkpoint f s x \<in> set (fst ?m)"
    from take_rows_snapshot [OF assms _ this] show ?thesis by simp
  next
    fix b assume b: "snd ?m = Inr b" and "Checkpoint f s x \<in> set (fst (flush env stratum (fst b) (fst (snd b))))"
    from flush_snapshot [OF this(2)] have x: "\<not> f" "s = stratum" "fst (snd b) \<noteq> []" "batch_result env stratum b = Inr x" by auto
    from b x(3) have "rows \<noteq> []" by (cases rows) auto
    moreover from sum b x(4) have "foldE (plain_candidate env stratum) c rows = Inr x" by simp
    ultimately show ?thesis using x(1,2) by (intro conjI exI [of _ rows] exI [of _ "[]"]) simp_all
  qed
qed

section \<open>Emission goes on where it stopped\<close>

definition same_stock :: "mix_core \<Rightarrow> mix_core \<Rightarrow> bool" where
  "same_stock c d \<longleftrightarrow> mc_encoded d = mc_encoded c \<and> pg_available (mc_progress d) = pg_available (mc_progress c)
     \<and> pg_available_content (mc_progress d) = pg_available_content (mc_progress c)
     \<and> pg_available_unique (mc_progress d) = pg_available_unique (mc_progress c)
     \<and> pg_families (mc_progress d) = pg_families (mc_progress c) \<and> pg_done (mc_progress d) = pg_done (mc_progress c)"

lemma same_stock_refl [simp]: "same_stock c c"
  by (simp add: same_stock_def)

lemma same_stock_trans: "same_stock c d \<Longrightarrow> same_stock d e \<Longrightarrow> same_stock c e"
  by (simp add: same_stock_def)

lemma emit_keeps: "same_stock c (emit env stratum quota e d c) \<and> pg_exposure (mc_progress (emit env stratum quota e d c)) = pg_exposure (mc_progress c)"
  by (simp add: emit_def same_stock_def progress_def Let_def)

lemma ordinal_keeps: "same_stock c (progress (\<lambda>p. p\<lparr>pg_ordinal := n\<rparr>) c) \<and> pg_exposure (mc_progress (progress (\<lambda>p. p\<lparr>pg_ordinal := n\<rparr>) c)) = pg_exposure (mc_progress c)"
  by (simp add: same_stock_def progress_def)

lemma emit_rows_keeps: "snd (emit_rows env stratum quota e c ds) = Inr c' \<Longrightarrow> same_stock c c' \<and> pg_exposure (mc_progress c') = pg_exposure (mc_progress c)"
proof (induction ds arbitrary: c)
  case (Cons nd ds)
  obtain n d where nd: "nd = (n, d)" by (cases nd)
  let ?c = "progress (\<lambda>p. p\<lparr>pg_ordinal := n\<rparr>) (emit env stratum quota e d c)"
  have one: "same_stock c ?c \<and> pg_exposure (mc_progress ?c) = pg_exposure (mc_progress c)"
    using emit_keeps [of c env stratum quota e d] ordinal_keeps [of "emit env stratum quota e d c" n] same_stock_trans by metis
  show ?case
  proof (cases "quota \<le> pg_totals (mc_progress c) stratum")
    case False
    with Cons.prems have "snd (emit_rows env stratum quota e ?c ds) = Inr c'" by (simp add: nd snd_bindT Let_def)
    from Cons.IH [OF this] one same_stock_trans show ?thesis by metis
  qed (use Cons.prems in \<open>simp add: nd\<close>)
qed simp

lemma emit_rows_snapshot:
  "Checkpoint f s x \<in> set (fst (emit_rows env stratum quota e c ds)) \<Longrightarrow> \<not> f \<and> s = stratum \<and> same_stock c x
    \<and> pg_exposure (mc_progress x) = pg_exposure (mc_progress c)
    \<and> (\<exists>ys d zs. ds = ys @ (pg_ordinal (mc_progress x), d) # zs \<and> snd (emit_rows env stratum quota e c ds) = snd (emit_rows env stratum quota e x zs))"
proof (induction ds arbitrary: c)
  case (Cons nd ds)
  obtain n d where nd: "nd = (n, d)" by (cases nd)
  let ?c = "progress (\<lambda>p. p\<lparr>pg_ordinal := n\<rparr>) (emit env stratum quota e d c)"
  have one: "same_stock c ?c" "pg_exposure (mc_progress ?c) = pg_exposure (mc_progress c)"
    using emit_keeps [of c env stratum quota e d] ordinal_keeps [of "emit env stratum quota e d c" n] same_stock_trans by metis+
  from Cons.prems have more: "\<not> quota \<le> pg_totals (mc_progress c) stratum" by (auto simp: nd)
  then have rest: "snd (emit_rows env stratum quota e c (nd # ds)) = snd (emit_rows env stratum quota e ?c ds)" by (simp add: nd Let_def snd_bindT)
  from Cons.prems more have "Checkpoint f s x = Checkpoint False stratum ?c \<or> Checkpoint f s x \<in> set (fst (emit_rows env stratum quota e ?c ds))"
    by (auto simp: nd Let_def in_bindT split: if_splits)
  then show ?case
  proof
    assume "Checkpoint f s x = Checkpoint False stratum ?c"
    then have x: "\<not> f" "s = stratum" "x = ?c" by simp_all
    have "pg_ordinal (mc_progress ?c) = n" by (simp add: progress_def)
    then have "nd # ds = [] @ (pg_ordinal (mc_progress ?c), d) # ds" by (simp add: nd)
    with x one rest show ?thesis by blast
  next
    assume "Checkpoint f s x \<in> set (fst (emit_rows env stratum quota e ?c ds))"
    from Cons.IH [OF this] obtain ys d' zs where ih: "\<not> f" "s = stratum" "same_stock ?c x" "pg_exposure (mc_progress x) = pg_exposure (mc_progress ?c)"
        "ds = ys @ (pg_ordinal (mc_progress x), d') # zs" "snd (emit_rows env stratum quota e ?c ds) = snd (emit_rows env stratum quota e x zs)" by blast
    then have "nd # ds = (nd # ys) @ (pg_ordinal (mc_progress x), d') # zs" by simp
    moreover have "same_stock c x" by (rule same_stock_trans [OF one(1) ih(3)])
    moreover have "pg_exposure (mc_progress x) = pg_exposure (mc_progress c)" using ih(4) one(2) by simp
    moreover have "snd (emit_rows env stratum quota e c (nd # ds)) = snd (emit_rows env stratum quota e x zs)" using rest ih(6) by simp
    ultimately show ?thesis using ih(1,2) by blast
  qed
qed simp

lemma emit_exposures_keeps: "snd (emit_exposures env stratum quota c es) = Inr d \<Longrightarrow> same_stock c d"
proof (induction es arbitrary: c)
  case (Cons ea es)
  obtain e a where ea: "ea = (e, a)" by (cases ea)
  let ?c = "progress (\<lambda>p. p\<lparr>pg_exposure := e\<rparr>) c"
  have c: "same_stock c ?c" by (simp add: same_stock_def progress_def)
  from Cons.prems obtain b where b: "snd (emit_rows env stratum quota e ?c (encoded_after ?c stratum a)) = Inr b"
      "b = d \<or> snd (emit_exposures env stratum quota b es) = Inr d"
    by (auto simp: ea Let_def snd_bindT split: if_splits)
  from emit_rows_keeps [OF b(1)] c same_stock_trans have "same_stock c b" by metis
  with b(2) Cons.IH same_stock_trans show ?case by metis
qed simp

lemma encoded_after_resume:
  assumes "mc_encoded x = mc_encoded c" and "encoded_after c stratum a = ys @ (n, d) # zs"
  shows "encoded_after x stratum n = zs"
proof -
  let ?all = "encoded_after c stratum a"
  have "sorted (map fst (enumerate 1 (mc_encoded c)))" "distinct (map fst (enumerate 1 (mc_encoded c)))"
    by (simp_all only: map_fst_enumerate sorted_upt distinct_upt)
  then have order: "sorted (map fst ?all)" "distinct (map fst ?all)"
    unfolding encoded_after_def by (simp_all add: sorted_filter distinct_map_filter)
  have "(n, d) \<in> set ?all" unfolding assms(2) by simp
  then have "a < n" by (auto simp: encoded_after_def)
  then have "encoded_after x stratum n = filter (\<lambda>y. fst (n, d) < fst y) ?all"
    unfolding encoded_after_def assms(1) filter_filter by (intro filter_cong) auto
  also have "\<dots> = zs" by (rule after_element [OF order assms(2)])
  finally show ?thesis .
qed

definition later :: "nat \<Rightarrow> nat \<Rightarrow> (nat \<times> nat) list" where
  "later e m = map (\<lambda>x. (x, 0)) [e ..< m]"

lemma later_step: "later e m = (if e < m then (e, 0) # later (Suc e) m else [])"
  by (simp add: later_def upt_conv_Cons)

lemma exposures_later:
  "exposures_from env p = (let e = (if pg_exposure p = 0 then 1 else pg_exposure p) in
     if e < env_max env + 1 then (e, pg_ordinal p) # later (Suc e) (env_max env + 1) else [])"
  by (auto simp: exposures_from_def later_def Let_def upt_conv_Cons)

lemma emit_exposures_snapshot:
  "Checkpoint f s x \<in> set (fst (emit_exposures env stratum quota c ((e, a) # later (Suc e) m))) \<Longrightarrow> e < m \<Longrightarrow> \<not> f \<and> s = stratum \<and> same_stock c x
    \<and> e \<le> pg_exposure (mc_progress x) \<and> pg_exposure (mc_progress x) < m
    \<and> snd (emit_exposures env stratum quota c ((e, a) # later (Suc e) m))
      = snd (emit_exposures env stratum quota x ((pg_exposure (mc_progress x), pg_ordinal (mc_progress x)) # later (Suc (pg_exposure (mc_progress x))) m))"
proof (induction "m - e" arbitrary: e a c)
  case (Suc k)
  let ?c = "progress (\<lambda>p. p\<lparr>pg_exposure := e\<rparr>) c"
  let ?rest = "\<lambda>c. if pg_totals (mc_progress c) stratum = quota then ([], Inr c) else emit_exposures env stratum quota c (later (Suc e) m)"
  have c: "same_stock c ?c" "pg_exposure (mc_progress ?c) = e" by (simp_all add: same_stock_def progress_def)
  have run: "emit_exposures env stratum quota d ((e, b) # later (Suc e) m)
      = bindT (emit_rows env stratum quota e (progress (\<lambda>p. p\<lparr>pg_exposure := e\<rparr>) d) (encoded_after (progress (\<lambda>p. p\<lparr>pg_exposure := e\<rparr>) d) stratum b)) ?rest" for d b
    by (simp add: Let_def)
  from Suc.prems(1) have "Checkpoint f s x \<in> set (fst (emit_rows env stratum quota e ?c (encoded_after ?c stratum a)))
      \<or> (\<exists>d. snd (emit_rows env stratum quota e ?c (encoded_after ?c stratum a)) = Inr d \<and> pg_totals (mc_progress d) stratum \<noteq> quota
          \<and> Checkpoint f s x \<in> set (fst (emit_exposures env stratum quota d (later (Suc e) m))))"
    unfolding run in_bindT by (auto split: if_splits)
  then show ?case
  proof (elim disjE exE conjE)
    assume "Checkpoint f s x \<in> set (fst (emit_rows env stratum quota e ?c (encoded_after ?c stratum a)))"
    from emit_rows_snapshot [OF this] c obtain ys d zs where x: "\<not> f" "s = stratum" "same_stock ?c x" "pg_exposure (mc_progress x) = e"
        "encoded_after ?c stratum a = ys @ (pg_ordinal (mc_progress x), d) # zs"
        "snd (emit_rows env stratum quota e ?c (encoded_after ?c stratum a)) = snd (emit_rows env stratum quota e x zs)" by auto
    have "encoded_after x stratum (pg_ordinal (mc_progress x)) = zs"
      by (rule encoded_after_resume [OF _ x(5)]) (use x(3) in \<open>simp add: same_stock_def\<close>)
    moreover have "progress (\<lambda>p. p\<lparr>pg_exposure := e\<rparr>) x = x" using x(4) by (simp add: progress_def)
    ultimately have "snd (emit_exposures env stratum quota x ((e, pg_ordinal (mc_progress x)) # later (Suc e) m))
        = snd (emit_exposures env stratum quota c ((e, a) # later (Suc e) m))"
      unfolding run snd_bindT x(6) by simp
    with x(1-4) same_stock_trans [OF c(1)] Suc.prems(2) show ?thesis by simp
  next
    fix d assume d: "snd (emit_rows env stratum quota e ?c (encoded_after ?c stratum a)) = Inr d" "pg_totals (mc_progress d) stratum \<noteq> quota"
      and snap: "Checkpoint f s x \<in> set (fst (emit_exposures env stratum quota d (later (Suc e) m)))"
    from snap have less: "Suc e < m" by (auto simp: later_step [of "Suc e" m] split: if_splits)
    then have l: "later (Suc e) m = (Suc e, 0) # later (Suc (Suc e)) m" by (simp add: later_step [of "Suc e" m])
    from Suc.hyps(2) have "k = m - Suc e" by simp
    from Suc.hyps(1) [OF this snap [unfolded l] less] have ih: "\<not> f" "s = stratum" "same_stock d x" "Suc e \<le> pg_exposure (mc_progress x)" "pg_exposure (mc_progress x) < m"
        "snd (emit_exposures env stratum quota d (later (Suc e) m))
          = snd (emit_exposures env stratum quota x ((pg_exposure (mc_progress x), pg_ordinal (mc_progress x)) # later (Suc (pg_exposure (mc_progress x))) m))"
      unfolding l by blast+
    have "snd (emit_exposures env stratum quota c ((e, a) # later (Suc e) m)) = snd (emit_exposures env stratum quota d (later (Suc e) m))"
      unfolding run snd_bindT d(1) using d(2) by simp
    moreover have "same_stock c x" using emit_rows_keeps [OF d(1)] c(1) ih(3) same_stock_trans by metis
    ultimately show ?thesis using ih by simp
  qed
qed simp

section \<open>A stratum goes on where it stopped\<close>

definition floor_met :: "mix_env \<Rightarrow> string \<Rightarrow> mix_core \<Rightarrow> bool" where
  "floor_met env stratum c \<longleftrightarrow> (\<forall>fl. env_floors env = Some fl \<longrightarrow> fl stratum \<le> pg_available_content (mc_progress c) stratum)"

definition record_supply :: "string \<Rightarrow> mix_core \<Rightarrow> mix_core" where
  "record_supply stratum c = progress (\<lambda>p. p\<lparr>pg_available_unique := (pg_available_unique p)(stratum := pg_available p),
     pg_families := (pg_families p)(stratum := int (card (me_family ` {d \<in> set (mc_encoded c). me_stratum d = stratum})))\<rparr>) c"

lemma check_supply_Inr: "check_supply env stratum quota c = Inr c'
    \<longleftrightarrow> floor_met env stratum c \<and> quota \<le> pg_available (mc_progress c) * int (env_max env) \<and> c' = record_supply stratum c"
  by (cases "env_floors env") (auto simp: check_supply_def floor_met_def record_supply_def Let_def)

lemma record_supply_again: "same_stock (record_supply stratum c) x \<Longrightarrow> record_supply stratum x = x"
  by (cases x; cases "mc_progress x") (simp add: record_supply_def same_stock_def progress_def fun_upd_idem)

lemma check_supply_again: "check_supply env stratum quota c = Inr c' \<Longrightarrow> same_stock c' x \<Longrightarrow> check_supply env stratum quota x = Inr x"
  unfolding check_supply_Inr by (simp add: record_supply_again) (simp add: floor_met_def same_stock_def record_supply_def progress_def)

lemma check_supply_keeps: "check_supply env stratum quota c = Inr c' \<Longrightarrow> pg_done (mc_progress c') = pg_done (mc_progress c)
    \<and> exposures_from env (mc_progress c') = exposures_from env (mc_progress c)"
  unfolding check_supply_Inr by (elim conjE, hypsubst) (simp add: record_supply_def progress_def exposures_from_def Let_def)

lemma finish_snapshot:
  assumes "Checkpoint f s x \<in> set (fst (finish_stratum env (stratum, quota) c))"
  shows "s = stratum \<and> (if f then snd (finish_stratum env (stratum, quota) c) = Inr x \<and> pg_done (mc_progress x) = pg_done (mc_progress c) @ [stratum]
    else pg_exposure (mc_progress x) \<noteq> 0 \<and> pg_done (mc_progress x) = pg_done (mc_progress c)
      \<and> snd (finish_stratum env (stratum, quota) x) = snd (finish_stratum env (stratum, quota) c))"
proof -
  let ?last = "\<lambda>c. if pg_totals (mc_progress c) stratum \<noteq> quota then ([], Inl (QuotaUnfilled stratum))
     else let c = progress (\<lambda>p. p\<lparr>pg_done := pg_done p @ [stratum]\<rparr>) c in ([Checkpoint True stratum c], Inr c)"
  let ?emit = "\<lambda>c. emit_exposures env stratum quota c (exposures_from env (mc_progress c))"
  from assms obtain c1 where c1: "check_supply env stratum quota c = Inr c1" "Checkpoint f s x \<in> set (fst (bindT (?emit c1) ?last))"
    by (auto simp: finish_stratum_def in_bindT)
  have run: "snd (finish_stratum env (stratum, quota) c) = bindE (snd (?emit c1)) (\<lambda>c. snd (?last c))"
    by (simp add: finish_stratum_def snd_bindT c1(1))
  define e where "e = (if pg_exposure (mc_progress c1) = 0 then 1 else pg_exposure (mc_progress c1))"
  have es: "exposures_from env (mc_progress c1) = (if e < env_max env + 1 then (e, pg_ordinal (mc_progress c1)) # later (Suc e) (env_max env + 1) else [])"
    by (simp add: exposures_later e_def Let_def)
  from c1(2) have "Checkpoint f s x \<in> set (fst (?emit c1)) \<or> (\<exists>d. snd (?emit c1) = Inr d \<and> pg_totals (mc_progress d) stratum = quota
      \<and> Checkpoint f s x = Checkpoint True stratum (progress (\<lambda>p. p\<lparr>pg_done := pg_done p @ [stratum]\<rparr>) d))"
    by (auto simp: in_bindT Let_def split: if_splits)
  then show ?thesis
  proof (elim disjE exE conjE)
    assume snap: "Checkpoint f s x \<in> set (fst (?emit c1))"
    then have less: "e < env_max env + 1" by (auto simp: es split: if_splits)
    from emit_exposures_snapshot [OF snap [unfolded es if_P [OF less]] less]
    have x: "\<not> f" "s = stratum" "same_stock c1 x" "e \<le> pg_exposure (mc_progress x)" "pg_exposure (mc_progress x) < env_max env + 1"
      "snd (?emit c1) = snd (emit_exposures env stratum quota x ((pg_exposure (mc_progress x), pg_ordinal (mc_progress x)) # later (Suc (pg_exposure (mc_progress x))) (env_max env + 1)))"
      unfolding es if_P [OF less] by blast+
    have pos: "pg_exposure (mc_progress x) \<noteq> 0" using x(4) by (auto simp: e_def split: if_splits)
    then have "exposures_from env (mc_progress x) = (pg_exposure (mc_progress x), pg_ordinal (mc_progress x)) # later (Suc (pg_exposure (mc_progress x))) (env_max env + 1)"
      using x(5) by (simp add: exposures_later Let_def)
    then have "snd (?emit x) = snd (?emit c1)" using x(6) by simp
    then have "snd (finish_stratum env (stratum, quota) x) = snd (finish_stratum env (stratum, quota) c)"
      unfolding run by (simp add: finish_stratum_def snd_bindT check_supply_again [OF c1(1) x(3)])
    with x(1-3) pos check_supply_keeps [OF c1(1)] show ?thesis by (simp add: same_stock_def)
  next
    fix d assume d: "snd (?emit c1) = Inr d" "pg_totals (mc_progress d) stratum = quota"
      "Checkpoint f s x = Checkpoint True stratum (progress (\<lambda>p. p\<lparr>pg_done := pg_done p @ [stratum]\<rparr>) d)"
    have "same_stock c1 d" by (rule emit_exposures_keeps [OF d(1)])
    with d check_supply_keeps [OF c1(1)] show ?thesis unfolding run by (simp add: same_stock_def Let_def progress_def)
  qed
qed

text \<open>The strata without cache, batches and checkpoints.\<close>

definition plain_stratum :: "mix_env \<Rightarrow> string option \<Rightarrow> mix_core \<Rightarrow> string \<times> int \<Rightarrow> mix_error + mix_core" where
  "plain_stratum env resumed c = (\<lambda>(stratum, quota).
     if stratum \<in> set (pg_done (mc_progress c)) then Inr c
     else let (c, rows) = open_candidates env stratum (if resumed = Some stratum then c else start_stratum c) in
       bindE (foldE (plain_candidate env stratum) c rows) (\<lambda>c. snd (finish_stratum env (stratum, quota) c)))"

definition plain_schedule :: "mix_env \<Rightarrow> string option \<Rightarrow> mix_core \<Rightarrow> mix_error + mix_core" where
  "plain_schedule env resumed c = foldE (plain_stratum env resumed) c (sort_key fst (env_quotas env))"

lemma open_candidates_docs: "set (snd (open_candidates env stratum c)) \<subseteq> set (env_docs env)"
  by (auto simp: open_candidates_def candidate_rows_def)

lemma run_stratum_result:
  assumes "cache_sound env cache"
  shows "snd (run_stratum env cache resumed c x) = plain_stratum env resumed c x"
proof (cases x)
  case (Pair stratum quota)
  have "snd (bindT (take_candidates env cache stratum (fst q) (snd q)) (finish_stratum env (stratum, quota)))
      = bindE (foldE (plain_candidate env stratum) (fst q) (snd q)) (\<lambda>c. snd (finish_stratum env (stratum, quota) c))"
    if "q = open_candidates env stratum d" for q d
    unfolding snd_bindT that take_candidates_result(1) [OF assms open_candidates_docs] ..
  then show ?thesis by (simp add: run_stratum_def plain_stratum_def Pair snd_bindT split_def Let_def)
qed

lemma run_schedule_result: "cache_sound env cache \<Longrightarrow> snd (run_schedule env cache resumed c) = plain_schedule env resumed c"
  by (simp add: run_schedule_def plain_schedule_def snd_foldT run_stratum_result)

section \<open>Snapshots\<close>

text \<open>A stratum from a state that has it open.\<close>

definition go_on :: "mix_env \<Rightarrow> string \<Rightarrow> int \<Rightarrow> mix_core \<Rightarrow> mix_error + mix_core" where
  "go_on env stratum quota c = bindE (foldE (plain_candidate env stratum) (fst (open_candidates env stratum c)) (snd (open_candidates env stratum c)))
     (\<lambda>c. snd (finish_stratum env (stratum, quota) c))"

lemma plain_stratum_cases: "plain_stratum env resumed c (stratum, quota) = (if stratum \<in> set (pg_done (mc_progress c)) then Inr c
    else go_on env stratum quota (if resumed = Some stratum then c else start_stratum c))"
  by (simp add: plain_stratum_def go_on_def split_def Let_def)

lemma exclude_progress: "exclude env x c = Inr c' \<Longrightarrow> pg_done (mc_progress c') = pg_done (mc_progress c)
    \<and> pg_cursor (mc_progress c') = pg_cursor (mc_progress c) \<and> pg_exposure (mc_progress c') = pg_exposure (mc_progress c)"
  by (auto simp: exclude_def progress_def Let_def split: if_splits)

lemma process_document_progress: "snd (process_document env stratum c i source family ids) = Inr c' \<Longrightarrow> pg_done (mc_progress c') = pg_done (mc_progress c)
    \<and> pg_cursor (mc_progress c') = pg_cursor (mc_progress c) \<and> pg_exposure (mc_progress c') = pg_exposure (mc_progress c)"
  by (auto simp: process_document_def progress_def Let_def split: if_splits dest: exclude_progress)

lemma plain_candidate_progress:
  assumes "plain_candidate env stratum c r = Inr c'"
  shows "pg_done (mc_progress c') = pg_done (mc_progress c)" "pg_cursor (mc_progress c') = Some (row_key r)"
    "pg_exposure (mc_progress c') = pg_exposure (mc_progress c)"
proof -
  have "pg_done (mc_progress c') = pg_done (mc_progress (note_candidate stratum r c)) \<and> pg_cursor (mc_progress c') = pg_cursor (mc_progress (note_candidate stratum r c))
      \<and> pg_exposure (mc_progress c') = pg_exposure (mc_progress (note_candidate stratum r c))"
    using assms by (auto simp: plain_candidate_def split: if_splits dest: exclude_progress process_document_progress)
  then show "pg_done (mc_progress c') = pg_done (mc_progress c)" "pg_cursor (mc_progress c') = Some (row_key r)"
    "pg_exposure (mc_progress c') = pg_exposure (mc_progress c)"
    by (simp_all add: note_candidate_def progress_def)
qed

lemma plain_candidates_progress:
  "foldE (plain_candidate env stratum) c rows = Inr c' \<Longrightarrow> pg_done (mc_progress c') = pg_done (mc_progress c)
    \<and> pg_exposure (mc_progress c') = pg_exposure (mc_progress c) \<and> (rows \<noteq> [] \<longrightarrow> pg_cursor (mc_progress c') = Some (row_key (last rows)))"
proof (induction rows arbitrary: c)
  case (Cons r rows)
  from Cons.prems obtain b where b: "plain_candidate env stratum c r = Inr b" "foldE (plain_candidate env stratum) b rows = Inr c'" by auto
  from Cons.IH [OF b(2)] plain_candidate_progress [OF b(1)] b(2) show ?case by (cases rows) auto
qed simp

lemma open_keeps [simp]: "mc_progress (fst (open_candidates env stratum c)) = mc_progress c"
  by (simp add: open_candidates_def)

lemma start_keeps [simp]: "pg_done (mc_progress (start_stratum c)) = pg_done (mc_progress c)"
  by (simp add: start_stratum_def progress_def)

lemma batch_snapshot:
  assumes "distinct (map row_id (env_docs env))" and "snd (open_candidates env stratum c) = ys @ zs" and "ys \<noteq> []"
    and "foldE (plain_candidate env stratum) (fst (open_candidates env stratum c)) ys = Inr x"
  shows "go_on env stratum quota x = go_on env stratum quota c \<and> pg_cursor (mc_progress x) \<noteq> None \<and> pg_done (mc_progress x) = pg_done (mc_progress c)"
proof -
  from plain_candidates_progress [OF assms(4)] assms(3) have x: "pg_done (mc_progress x) = pg_done (mc_progress c)"
    "pg_exposure (mc_progress x) = pg_exposure (mc_progress c)" "pg_cursor (mc_progress x) = Some (row_key (last ys))" by simp_all
  from assms(2,3) have zero: "pg_exposure (mc_progress c) = 0" by (auto simp: open_candidates_def split: if_splits)
  with assms(2) have "candidate_rows (env_docs env) stratum (pg_cursor (mc_progress c)) = butlast ys @ last ys # zs"
    using assms(3) by (simp add: open_candidates_def)
  from candidates_resume [OF assms(1) this] have "open_candidates env stratum x = (x, zs)"
    using x zero by (simp add: open_candidates_def)
  then have "go_on env stratum quota x = go_on env stratum quota c"
    using assms(2,4) by (simp add: go_on_def)
  with x show ?thesis by simp
qed

lemma finish_done: "snd (finish_stratum env (stratum, quota) c) = Inr d \<Longrightarrow> pg_done (mc_progress d) = pg_done (mc_progress c) @ [stratum]"
proof -
  assume "snd (finish_stratum env (stratum, quota) c) = Inr d"
  then obtain c1 c2 where c: "check_supply env stratum quota c = Inr c1" "snd (emit_exposures env stratum quota c1 (exposures_from env (mc_progress c1))) = Inr c2"
      "d = progress (\<lambda>p. p\<lparr>pg_done := pg_done p @ [stratum]\<rparr>) c2"
    by (auto simp: finish_stratum_def snd_bindT Let_def split: if_splits)
  from check_supply_keeps [OF c(1)] emit_exposures_keeps [OF c(2)] show ?thesis by (simp add: c(3) same_stock_def progress_def)
qed

lemma go_on_done: "go_on env stratum quota c = Inr d \<Longrightarrow> pg_done (mc_progress d) = pg_done (mc_progress c) @ [stratum]"
proof -
  assume "go_on env stratum quota c = Inr d"
  then obtain b where b: "foldE (plain_candidate env stratum) (fst (open_candidates env stratum c)) (snd (open_candidates env stratum c)) = Inr b"
      "snd (finish_stratum env (stratum, quota) b) = Inr d"
    by (auto simp: go_on_def)
  from plain_candidates_progress [OF b(1)] finish_done [OF b(2)] show ?thesis by simp
qed

definition part_way :: "mix_progress \<Rightarrow> bool" where
  "part_way p \<longleftrightarrow> pg_cursor p \<noteq> None \<or> pg_exposure p \<noteq> 0"

lemma stratum_snapshot:
  assumes "cache_sound env cache" and "distinct (map row_id (env_docs env))"
    and "Checkpoint f s x \<in> set (fst (run_stratum env cache resumed c (stratum, quota)))"
  shows "s = stratum \<and> stratum \<notin> set (pg_done (mc_progress c))
    \<and> (if f then plain_stratum env resumed c (stratum, quota) = Inr x \<and> pg_done (mc_progress x) = pg_done (mc_progress c) @ [stratum]
      else part_way (mc_progress x) \<and> pg_done (mc_progress x) = pg_done (mc_progress c) \<and> go_on env stratum quota x = plain_stratum env resumed c (stratum, quota))"
proof -
  define d where "d = (if resumed = Some stratum then c else start_stratum c)"
  let ?c = "fst (open_candidates env stratum d)" and ?rows = "snd (open_candidates env stratum d)"
  from assms(3) have new: "stratum \<notin> set (pg_done (mc_progress c))" by (auto simp: run_stratum_def)
  have done_d: "pg_done (mc_progress d) = pg_done (mc_progress c)" by (simp add: d_def)
  from assms(3) new have "Checkpoint f s x \<in> set (fst (bindT (take_candidates env cache stratum ?c ?rows) (finish_stratum env (stratum, quota))))"
    by (auto simp: run_stratum_def d_def split_def Let_def split: if_splits)
  then have "Checkpoint f s x \<in> set (fst (take_candidates env cache stratum ?c ?rows))
      \<or> (\<exists>b. snd (take_candidates env cache stratum ?c ?rows) = Inr b \<and> Checkpoint f s x \<in> set (fst (finish_stratum env (stratum, quota) b)))"
    by (simp add: in_bindT)
  moreover note result = take_candidates_result [where c = ?c and stratum = stratum, OF assms(1) open_candidates_docs [of env stratum d]]
  have plain: "plain_stratum env resumed c (stratum, quota) = go_on env stratum quota d" by (simp add: plain_stratum_cases new d_def)
  ultimately show ?thesis
  proof (elim disjE exE conjE)
    assume "Checkpoint f s x \<in> set (fst (take_candidates env cache stratum ?c ?rows))"
    from result(2) [OF this] obtain ys zs where x: "\<not> f" "s = stratum" "?rows = ys @ zs" "ys \<noteq> []" "foldE (plain_candidate env stratum) ?c ys = Inr x" by blast
    from batch_snapshot [OF assms(2) x(3-5)] new done_d plain x(1,2) show ?thesis by (simp add: part_way_def)
  next
    fix b assume b: "snd (take_candidates env cache stratum ?c ?rows) = Inr b" and snap: "Checkpoint f s x \<in> set (fst (finish_stratum env (stratum, quota) b))"
    from b result(1) have b: "foldE (plain_candidate env stratum) ?c ?rows = Inr b" by simp
    with plain_candidates_progress [OF this] have go: "go_on env stratum quota d = snd (finish_stratum env (stratum, quota) b)"
      and done_b: "pg_done (mc_progress b) = pg_done (mc_progress c)" by (simp_all add: go_on_def done_d)
    have "go_on env stratum quota x = snd (finish_stratum env (stratum, quota) x)" if "pg_exposure (mc_progress x) \<noteq> 0"
      using that by (simp add: go_on_def open_candidates_def)
    with finish_snapshot [OF snap] go plain new done_b show ?thesis by (auto simp: part_way_def)
  qed
qed

end
