(* ===== verification/Mixture_Recovery.thy ===== *)
theory Mixture_Recovery
  imports Mixture_Schedule
begin

text \<open>
  Crash recovery of the training mixture: a process that stops anywhere leaves a prefix of the committed segments, and the process
  that goes on from it ends as a process that was never interrupted.
\<close>

section \<open>The schedule goes on where it stopped\<close>

text \<open>What a resumed state promises: the strata before the resumed one are done.\<close>

definition fits :: "(string \<times> int) list \<Rightarrow> string option \<Rightarrow> mix_core \<Rightarrow> bool" where
  "fits xs resumed c \<longleftrightarrow> (\<forall>r. resumed = Some r \<longrightarrow> r \<notin> set (pg_done (mc_progress c)) \<longrightarrow>
     fst ` set (takeWhile (\<lambda>y. fst y \<noteq> r) xs) \<subseteq> set (pg_done (mc_progress c)) \<and> part_way (mc_progress c))"

definition idle :: "(string \<times> int) list \<Rightarrow> string option \<Rightarrow> mix_core \<Rightarrow> bool" where
  "idle xs resumed c \<longleftrightarrow> (\<forall>r. resumed = Some r \<longrightarrow> r \<notin> fst ` set xs \<or> r \<in> set (pg_done (mc_progress c)))"

lemma plain_stratum_done: "plain_stratum env resumed c (stratum, quota) = Inr d
    \<Longrightarrow> stratum \<in> set (pg_done (mc_progress d)) \<and> set (pg_done (mc_progress c)) \<subseteq> set (pg_done (mc_progress d))"
  by (auto simp: plain_stratum_cases split: if_splits dest: go_on_done)

lemma idle_irrelevant: "idle xs r c \<Longrightarrow> idle xs r' c \<Longrightarrow> foldE (plain_stratum env r) c xs = foldE (plain_stratum env r') c xs"
proof (induction xs arbitrary: c)
  case (Cons y xs)
  obtain stratum quota where y: "y = (stratum, quota)" by (cases y)
  have "plain_stratum env r c y = plain_stratum env r' c y"
    using Cons.prems by (auto simp: y plain_stratum_cases idle_def)
  moreover have "foldE (plain_stratum env r) d xs = foldE (plain_stratum env r') d xs" if "plain_stratum env r' c y = Inr d" for d
  proof (rule Cons.IH)
    from plain_stratum_done [OF that [unfolded y]] have grow: "set (pg_done (mc_progress c)) \<subseteq> set (pg_done (mc_progress d))" ..
    then show "idle xs r d" "idle xs r' d" using Cons.prems by (auto simp: idle_def)
  qed
  ultimately show ?case by (cases "plain_stratum env r' c y") simp_all
qed simp

lemma fits_tail:
  assumes "fits ((stratum, quota) # xs) resumed c" and "plain_stratum env resumed c (stratum, quota) = Inr d"
  shows "fits xs resumed d"
proof (cases "stratum \<in> set (pg_done (mc_progress c))")
  case True
  with assms show ?thesis by (auto simp: plain_stratum_cases fits_def split: if_splits)
next
  case False
  from plain_stratum_done [OF assms(2)] have d: "stratum \<in> set (pg_done (mc_progress d))" "set (pg_done (mc_progress c)) \<subseteq> set (pg_done (mc_progress d))" by simp_all
  show ?thesis unfolding fits_def
  proof (intro allI impI)
    fix r assume r: "resumed = Some r" "r \<notin> set (pg_done (mc_progress d))"
    with d have "r \<notin> set (pg_done (mc_progress c))" "r \<noteq> stratum" by auto
    with assms(1) r(1) False show "fst ` set (takeWhile (\<lambda>y. fst y \<noteq> r) xs) \<subseteq> set (pg_done (mc_progress d)) \<and> part_way (mc_progress d)"
      by (auto simp: fits_def)
  qed
qed

lemma fits_head: "fits ((stratum, quota) # xs) resumed c \<Longrightarrow> stratum \<notin> set (pg_done (mc_progress c)) \<Longrightarrow> distinct (map fst ((stratum, quota) # xs))
    \<Longrightarrow> set (pg_done (mc_progress c)) \<union> {stratum} \<subseteq> set (pg_done (mc_progress d)) \<Longrightarrow> idle xs resumed d \<and> idle xs (Some stratum) d"
proof -
  assume fit: "fits ((stratum, quota) # xs) resumed c" and new: "stratum \<notin> set (pg_done (mc_progress c))"
    and dist: "distinct (map fst ((stratum, quota) # xs))" and d: "set (pg_done (mc_progress c)) \<union> {stratum} \<subseteq> set (pg_done (mc_progress d))"
  have "r \<in> set (pg_done (mc_progress d))" if r: "resumed = Some r" for r
  proof (cases "r \<in> set (pg_done (mc_progress c)) \<or> r = stratum")
    case True
    with d show ?thesis by blast
  next
    case False
    with fit r have "fst ` set (takeWhile (\<lambda>y. fst y \<noteq> r) ((stratum, quota) # xs)) \<subseteq> set (pg_done (mc_progress c))" by (simp add: fits_def)
    with False new show ?thesis by auto
  qed
  with dist d show ?thesis by (simp add: idle_def)
qed

lemma strata_snapshot:
  assumes "cache_sound env cache" and "distinct (map row_id (env_docs env))"
    and "distinct (map fst xs)" and "fits xs resumed c" and "Checkpoint f s x \<in> set (fst (foldT (run_stratum env cache resumed) c xs))"
  shows "set (pg_done (mc_progress c)) \<subseteq> set (pg_done (mc_progress x)) \<and> s \<in> fst ` set xs \<and> fits xs (Some s) x
    \<and> foldE (plain_stratum env (Some s)) x xs = foldE (plain_stratum env resumed) c xs"
  using assms(3-5)
proof (induction xs arbitrary: c)
  case (Cons y xs)
  obtain stratum quota where y: "y = (stratum, quota)" by (cases y)
  note plain = run_stratum_result [OF assms(1), of resumed c y]
  from Cons.prems(3) have "Checkpoint f s x \<in> set (fst (run_stratum env cache resumed c y))
      \<or> (\<exists>d. plain_stratum env resumed c y = Inr d \<and> Checkpoint f s x \<in> set (fst (foldT (run_stratum env cache resumed) d xs)))"
    by (simp add: in_bindT plain)
  then show ?case
  proof (elim disjE exE conjE)
    assume "Checkpoint f s x \<in> set (fst (run_stratum env cache resumed c y))"
    note snap = stratum_snapshot [OF assms(1,2) this [unfolded y]]
    then have s: "s = stratum" "stratum \<notin> set (pg_done (mc_progress c))" by simp_all
    note idle = fits_head [OF Cons.prems(2) [unfolded y] s(2) Cons.prems(1) [unfolded y]]
    show ?thesis
    proof (cases f)
      case True
      with snap have x: "plain_stratum env resumed c y = Inr x" "pg_done (mc_progress x) = pg_done (mc_progress c) @ [stratum]" by (simp_all add: y)
      then have "plain_stratum env (Some stratum) x y = Inr x" by (simp add: y plain_stratum_cases)
      moreover have "idle xs resumed x" "idle xs (Some stratum) x" using idle [of x] x(2) by simp_all
      ultimately show ?thesis using x idle_irrelevant [of xs "Some stratum" x resumed env] by (auto simp: y s(1) fits_def)
    next
      case False
      with snap have x: "part_way (mc_progress x)" "pg_done (mc_progress x) = pg_done (mc_progress c)"
          "go_on env stratum quota x = plain_stratum env resumed c (stratum, quota)" by simp_all
      have go: "plain_stratum env (Some stratum) x y = plain_stratum env resumed c y" using x(2,3) s(2) by (simp add: y plain_stratum_cases)
      have "foldE (plain_stratum env (Some stratum)) d xs = foldE (plain_stratum env resumed) d xs" if "plain_stratum env resumed c y = Inr d" for d
        using plain_stratum_done [OF that [unfolded y]] idle [of d] by (intro idle_irrelevant) simp_all
      then have "foldE (plain_stratum env (Some stratum)) x (y # xs) = foldE (plain_stratum env resumed) c (y # xs)"
        using go by (cases "plain_stratum env resumed c y") simp_all
      with x s show ?thesis by (simp add: y fits_def)
    qed
  next
    fix d assume d: "plain_stratum env resumed c y = Inr d" and snap: "Checkpoint f s x \<in> set (fst (foldT (run_stratum env cache resumed) d xs))"
    have grow: "stratum \<in> set (pg_done (mc_progress d))" "set (pg_done (mc_progress c)) \<subseteq> set (pg_done (mc_progress d))"
      using plain_stratum_done [OF d [unfolded y]] by simp_all
    from Cons.prems(1) have dist: "distinct (map fst xs)" "stratum \<notin> fst ` set xs" by (simp_all add: y)
    note ih = Cons.IH [OF dist(1) fits_tail [OF Cons.prems(2) [unfolded y] d [unfolded y]] snap]
    have skip: "plain_stratum env (Some s) x y = Inr x" using ih grow by (auto simp: y plain_stratum_cases)
    have "s \<noteq> stratum" using ih dist(2) by auto
    with ih grow have "fits (y # xs) (Some s) x" by (auto simp: y fits_def)
    with ih grow skip d show ?thesis by auto
  qed
qed simp

section \<open>The journal tells the state\<close>

text \<open>A trace from a state, with the state at its end when it ends well: every checkpoint has the tables that the recorded events give, and
  exclusions and output only grow.\<close>

definition grows_to :: "mix_core \<Rightarrow> mix_core \<Rightarrow> bool" where
  "grows_to c d \<longleftrightarrow> mc_seen d = mc_seen c \<and> mc_encoded d = mc_encoded c \<and> prefix (mc_output c) (mc_output d) \<and> prefix (mc_excluded c) (mc_excluded d)"

definition with_tables :: "string set \<times> mix_encoded list \<Rightarrow> mix_core \<Rightarrow> mix_core" where
  "with_tables t c = c\<lparr>mc_seen := fst t, mc_encoded := snd t\<rparr>"

fun coherent :: "mix_env \<Rightarrow> mix_core \<Rightarrow> mix_trace list \<Rightarrow> mix_core option \<Rightarrow> bool" where
  "coherent env c [] r \<longleftrightarrow> (\<forall>d. r = Some d \<longrightarrow> grows_to c d)"
| "coherent env c (Recorded e # tr) r \<longleftrightarrow> (case restore_event env (mc_seen c, mc_encoded c) e of
     Inl _ \<Rightarrow> tr = [] \<and> r = None
   | Inr t \<Rightarrow> coherent env (with_tables t c) tr r)"
| "coherent env c (Checkpoint f s x # tr) r \<longleftrightarrow> grows_to c x \<and> coherent env x tr r"

definition runs :: "mix_env \<Rightarrow> ('a \<Rightarrow> mix_core) \<Rightarrow> mix_core \<Rightarrow> 'a traced \<Rightarrow> bool" where
  "runs env g c m \<longleftrightarrow> coherent env c (fst m) (case snd m of Inl _ \<Rightarrow> None | Inr x \<Rightarrow> Some (g x))"

lemma grows_to_refl [simp]: "grows_to c c"
  by (simp add: grows_to_def)

lemma grows_to_trans: "grows_to c d \<Longrightarrow> grows_to d e \<Longrightarrow> grows_to c e"
  unfolding grows_to_def by (metis prefix_order.trans)

lemma grows_to_tables: "grows_to c d \<Longrightarrow> grows_to (with_tables t c) (with_tables t d)"
  by (simp add: grows_to_def with_tables_def)

lemma coherent_grows: "grows_to c d \<Longrightarrow> coherent env d tr r \<Longrightarrow> coherent env c tr r"
proof (induction tr arbitrary: c d)
  case Nil
  then show ?case by (auto intro: grows_to_trans)
next
  case (Cons i tr)
  show ?case
  proof (cases i)
    case (Recorded e)
    from Cons.prems(1) have same: "mc_seen d = mc_seen c" "mc_encoded d = mc_encoded c" by (simp_all add: grows_to_def)
    show ?thesis
    proof (cases "restore_event env (mc_seen c, mc_encoded c) e")
      case (Inr t)
      with Cons.prems(2) Recorded same have "coherent env (with_tables t d) tr r" by simp
      from Cons.IH [OF grows_to_tables [OF Cons.prems(1)] this] Inr Recorded show ?thesis by simp
    qed (use Cons.prems(2) Recorded same in simp)
  next
    case (Checkpoint f s x)
    with Cons.prems show ?thesis by (auto intro: grows_to_trans)
  qed
qed

lemma coherent_append: "coherent env c tr (Some d) \<Longrightarrow> coherent env d tr' r \<Longrightarrow> coherent env c (tr @ tr') r"
proof (induction tr arbitrary: c)
  case Nil
  then show ?case by (auto intro: coherent_grows)
next
  case (Cons i tr)
  then show ?case by (cases i) (auto split: sum.splits)
qed

lemma runs_bind: "runs env g c m \<Longrightarrow> (\<And>x. snd m = Inr x \<Longrightarrow> runs env h (g x) (f x)) \<Longrightarrow> runs env h c (bindT m f)"
proof (cases "snd m")
  case (Inr x)
  assume m: "runs env g c m" and f: "\<And>x. snd m = Inr x \<Longrightarrow> runs env h (g x) (f x)"
  from m Inr have "coherent env c (fst m) (Some (g x))" by (simp add: runs_def)
  from coherent_append [OF this f [OF Inr, unfolded runs_def]] Inr show ?thesis by (simp add: runs_def fst_bindT snd_bindT)
qed (simp add: runs_def fst_bindT snd_bindT)

lemma runs_silent: "runs env g c ([], r) \<longleftrightarrow> (\<forall>x. r = Inr x \<longrightarrow> grows_to c (g x))"
  by (cases r) (simp_all add: runs_def)

lemma runs_fold: "(\<And>s x. x \<in> set xs \<Longrightarrow> runs env g (g s) (f s x)) \<Longrightarrow> runs env g (g s) (foldT f s xs)"
  by (induction xs arbitrary: s) (auto simp: runs_silent intro: runs_bind)

lemma runs_grows: "grows_to c d \<Longrightarrow> runs env g d m \<Longrightarrow> runs env g c m"
  unfolding runs_def by (rule coherent_grows)

lemma grows_to_progress [simp]: "grows_to c (progress f c)" "grows_to c (c\<lparr>mc_progress := p\<rparr>)"
  by (simp_all add: grows_to_def progress_def)

lemma exclude_grows: "exclude env x c = Inr d \<Longrightarrow> grows_to c d"
  by (auto simp: exclude_def grows_to_def progress_def Let_def split: if_splits)

lemma runs_document: "runs env (\<lambda>x. x) c (process_document env stratum c i source family ids)"
  by (auto simp: process_document_def runs_def Let_def restore_event_def with_tables_def progress_def grows_to_def split: sum.split dest: exclude_grows)

lemma runs_pending: "runs env (\<lambda>x. x) c (process_pending env stratum c d)"
  by (cases d) (auto simp: process_pending_def runs_silent runs_document dest: exclude_grows)

lemma runs_flush: "runs env (\<lambda>x. x) c (flush env stratum c pending)"
proof -
  have "runs env (\<lambda>x. x) c (foldT (process_pending env stratum) c pending)"
    by (rule runs_fold [where g = "\<lambda>x. x"]) (rule runs_pending)
  then show ?thesis unfolding flush_def by (auto intro!: runs_bind simp: runs_silent) (simp add: runs_def)
qed

lemma runs_flush_when: "runs env fst (fst b) (flush_when env stratum full b)"
  by (cases b) (auto simp: flush_when_def runs_silent intro!: runs_bind [OF runs_flush])

lemma note_grows: "grows_to (with_tables (insert (md_content (mr_doc r)) (mc_seen c), mc_encoded c) c) (note_candidate stratum r c)"
  by (simp add: grows_to_def with_tables_def note_candidate_def progress_def)

lemma runs_add:
  assumes "cache_sound env cache" and "r \<in> set (env_docs env)"
  shows "runs env fst (fst b) (add_candidate env cache stratum b r)"
proof -
  obtain c pending bytes where b: "b = (c, pending, bytes)" by (cases b)
  show ?thesis
  proof (cases "md_content (mr_doc r) \<in> mc_seen c")
    case True
    then have "insert (md_content (mr_doc r)) (mc_seen c) = mc_seen c" by blast
    then have "grows_to c (note_candidate stratum r c)" by (simp add: grows_to_def note_candidate_def progress_def)
    with True show ?thesis by (simp add: b add_candidate_cases [OF assms] runs_silent)
  next
    case False
    let ?t = "with_tables (insert (md_content (mr_doc r)) (mc_seen c), mc_encoded c) c"
    let ?rest = "if batch_bytes < buffered_bytes r (cache (md_content (mr_doc r)))
       then bindT (process_pending env stratum (note_candidate stratum r c) (pending_of env cache c r))
         (\<lambda>c. ([Checkpoint False stratum c], Inr (c, pending, bytes)))
       else ([], Inr (note_candidate stratum r c, pending @ [pending_of env cache c r], bytes + buffered_bytes r (cache (md_content (mr_doc r)))))"
    have seen: "runs env (\<lambda>_. ?t) c ([Recorded (SeenContent (md_content (mr_doc r)))], Inr ())"
      by (simp add: runs_def restore_event_def)
    have last: "runs env fst d ([Checkpoint False stratum d], Inr (d, pending, bytes))" for d by (simp add: runs_def)
    have "runs env fst (note_candidate stratum r c) ?rest"
      by (auto simp: runs_silent intro: runs_bind [OF runs_pending last])
    from runs_grows [OF note_grows this] have "runs env fst ?t ?rest" .
    with runs_bind [OF seen, where h = fst and f = "\<lambda>_. ?rest"] False show ?thesis by (simp add: b add_candidate_cases [OF assms])
  qed
qed

lemma runs_take:
  assumes "cache_sound env cache" and "r \<in> set (env_docs env)"
  shows "runs env fst (fst b) (take_candidate env cache stratum b r)"
proof -
  obtain c pending bytes where b: "b = (c, pending, bytes)" by (cases b)
  have "runs env fst (fst b') (case b' of (c, pending, bytes) \<Rightarrow> flush_when env stratum (full pending bytes) (c, pending, bytes))" for b' full
    using runs_flush_when [of env b' stratum] by (cases b') simp
  then show ?thesis unfolding b take_candidate_def prod.case
    using runs_flush_when [of env "(c, pending, bytes)"] by (intro runs_bind [where g = fst] runs_add [OF assms]) auto
qed

lemma runs_candidates:
  assumes "cache_sound env cache" and "set rows \<subseteq> set (env_docs env)"
  shows "runs env (\<lambda>x. x) c (take_candidates env cache stratum c rows)"
proof -
  have "runs env fst (fst b) (foldT (take_candidate env cache stratum) b rows)" for b
    by (rule runs_fold [where g = fst]) (use assms in \<open>auto intro: runs_take\<close>)
  from this [of "(c, [], 0)"] have "runs env fst c (foldT (take_candidate env cache stratum) (c, [], 0) rows)" by simp
  then show ?thesis unfolding take_candidates_def by (rule runs_bind) (auto simp: split_def runs_flush)
qed

lemma emit_grows: "grows_to c (emit env stratum quota e d c)"
  by (simp add: emit_def grows_to_def progress_def Let_def)

lemma runs_rows: "runs env (\<lambda>x. x) c (emit_rows env stratum quota e c ds)"
proof (induction ds arbitrary: c)
  case (Cons nd ds)
  obtain n d where nd: "nd = (n, d)" by (cases nd)
  let ?c = "progress (\<lambda>p. p\<lparr>pg_ordinal := n\<rparr>) (emit env stratum quota e d c)"
  let ?check = "if pg_records (mc_progress ?c) mod batch_documents = 0 then ([Checkpoint False stratum ?c], Inr ()) else ([], Inr ())"
  have c: "grows_to c ?c" by (rule grows_to_trans [OF emit_grows grows_to_progress(1)])
  have "runs env (\<lambda>_. ?c) ?c ?check" by (simp add: runs_def)
  from runs_grows [OF c runs_bind [OF this, where h = "\<lambda>x. x" and f = "\<lambda>_. emit_rows env stratum quota e ?c ds"]] Cons.IH
  have "runs env (\<lambda>x. x) c (bindT ?check (\<lambda>_. emit_rows env stratum quota e ?c ds))" by blast
  then show ?case by (simp add: nd Let_def runs_silent)
qed (simp add: runs_silent)

lemma runs_exposures: "runs env (\<lambda>x. x) c (emit_exposures env stratum quota c es)"
proof (induction es arbitrary: c)
  case (Cons ea es)
  obtain e a where ea: "ea = (e, a)" by (cases ea)
  let ?c = "progress (\<lambda>p. p\<lparr>pg_exposure := e\<rparr>) c"
  let ?rest = "\<lambda>c. if pg_totals (mc_progress c) stratum = quota then ([], Inr c) else emit_exposures env stratum quota c es"
  have "runs env (\<lambda>x. x) c (?rest c)" for c using Cons.IH by (simp add: runs_silent)
  then have "runs env (\<lambda>x. x) ?c (bindT (emit_rows env stratum quota e ?c (encoded_after ?c stratum a)) ?rest)"
    by (rule runs_bind [OF runs_rows])
  from runs_grows [OF grows_to_progress(1) this] show ?case by (simp add: ea Let_def)
qed (simp add: runs_silent)

lemma runs_finish: "runs env (\<lambda>x. x) c (finish_stratum env x c)"
proof -
  obtain stratum quota where x: "x = (stratum, quota)" by (cases x)
  have "runs env (\<lambda>x. x) c ([], check_supply env stratum quota c)"
    by (auto simp: runs_silent check_supply_Inr record_supply_def)
  then show ?thesis unfolding x finish_stratum_def prod.case
    by (intro runs_bind [where g = "\<lambda>x. x"] runs_exposures) (simp_all add: runs_silent runs_def Let_def)
qed

lemma runs_stratum:
  assumes "cache_sound env cache" and "resumed = Some stratum \<Longrightarrow> stratum \<notin> set (pg_done (mc_progress c)) \<Longrightarrow> part_way (mc_progress c)"
  shows "runs env (\<lambda>x. x) c (run_stratum env cache resumed c (stratum, quota))"
proof (cases "stratum \<in> set (pg_done (mc_progress c))")
  case True
  then show ?thesis by (simp add: run_stratum_def runs_silent)
next
  case False
  let ?go = "\<lambda>c. bindT (take_candidates env cache stratum (fst (open_candidates env stratum c)) (snd (open_candidates env stratum c))) (finish_stratum env (stratum, quota))"
  have go: "runs env (\<lambda>x. x) (fst (open_candidates env stratum d)) (?go d)" for d
    by (rule runs_bind [OF runs_candidates [OF assms(1) open_candidates_docs] runs_finish])
  show ?thesis
  proof (cases "resumed = Some stratum")
    case True
    with assms(2) False have "fst (open_candidates env stratum c) = c" by (auto simp: open_candidates_def part_way_def)
    with go [of c] True False show ?thesis by (simp add: run_stratum_def split_def Let_def)
  next
    case resumed: False
    let ?s = "start_stratum c"
    have reset: "runs env (\<lambda>_. with_tables ({}, mc_encoded c) c) c ([Recorded ResetSeen], Inr ())"
      by (simp add: runs_def restore_event_def)
    have "grows_to (with_tables ({}, mc_encoded c) c) (fst (open_candidates env stratum ?s))"
      by (simp add: open_candidates_def start_stratum_def grows_to_def with_tables_def progress_def)
    from runs_grows [OF this go] have "runs env (\<lambda>x. x) (with_tables ({}, mc_encoded c) c) (?go ?s)" .
    then have "runs env (\<lambda>x. x) c (bindT ([Recorded ResetSeen], Inr ()) (\<lambda>_. ?go ?s))"
      by (intro runs_bind [OF reset])
    then show ?thesis using resumed False by (simp add: run_stratum_def split_def Let_def)
  qed
qed

lemma runs_strata:
  assumes "cache_sound env cache" and "fits xs resumed c"
  shows "runs env (\<lambda>x. x) c (foldT (run_stratum env cache resumed) c xs)"
  using assms(2)
proof (induction xs arbitrary: c)
  case (Cons y xs)
  obtain stratum quota where y: "y = (stratum, quota)" by (cases y)
  have one: "runs env (\<lambda>x. x) c (run_stratum env cache resumed c y)"
    unfolding y by (rule runs_stratum [OF assms(1)]) (use Cons.prems in \<open>simp add: fits_def y\<close>)
  have "fits xs resumed d" if "snd (run_stratum env cache resumed c y) = Inr d" for d
    using fits_tail [OF Cons.prems [unfolded y]] that by (simp add: y run_stratum_result [OF assms(1)])
  with one show ?case unfolding foldT.simps by (intro runs_bind [OF one] Cons.IH)
qed (simp add: runs_silent)

section \<open>Commits\<close>

text \<open>A frontier that stands for a state: its commits restore a state, and its events lead from there.\<close>

definition holds :: "mix_env \<Rightarrow> mix_frontier \<Rightarrow> mix_core \<Rightarrow> bool" where
  "holds env f v \<longleftrightarrow> (\<exists>y. restore env (fr_commits f) = Inr y
     \<and> foldE (restore_event env) (mc_seen y, mc_encoded y) (fr_events f) = Inr (mc_seen v, mc_encoded v)
     \<and> fr_output f = length (mc_output y) \<and> fr_excluded f = length (mc_excluded y)
     \<and> prefix (mc_output y) (mc_output v) \<and> prefix (mc_excluded y) (mc_excluded v))"

lemma restore_Inr: "restore env cs = Inr y \<longleftrightarrow> foldE (restore_event env) ({}, []) (concat (map cm_events cs)) = Inr (mc_seen y, mc_encoded y)
    \<and> mc_progress y = committed_progress cs \<and> mc_excluded y = concat (map cm_excluded cs) \<and> mc_output y = concat (map cm_output cs)"
  by (cases y) (auto simp: restore_def split: prod.splits)

lemma prefix_drop: "prefix xs ys \<Longrightarrow> xs @ drop (length xs) ys = ys"
  by (auto simp: prefix_def)

lemma restore_snoc:
  assumes "restore env cs = Inr y" and "foldE (restore_event env) (mc_seen y, mc_encoded y) es = Inr (mc_seen x, mc_encoded x)"
    and "prefix (mc_output y) (mc_output x)" and "prefix (mc_excluded y) (mc_excluded x)"
  shows "restore env (cs @ [\<lparr>cm_stratum = s, cm_progress = mc_progress x, cm_output = drop (length (mc_output y)) (mc_output x),
      cm_excluded = drop (length (mc_excluded y)) (mc_excluded x), cm_events = es\<rparr>]) = Inr x"
  using assms(1,2) prefix_drop [OF assms(3)] prefix_drop [OF assms(4)] unfolding restore_Inr by (simp add: committed_progress_def)

lemma holds_recorded: "holds env f v \<Longrightarrow> restore_event env (mc_seen v, mc_encoded v) e = Inr t \<Longrightarrow> holds env (commit_item env late f (Recorded e)) (with_tables t v)"
  unfolding holds_def by (auto simp: commit_item_def with_tables_def)

lemma commit_recorded [simp]: "fr_commits (commit_item env late f (Recorded e)) = fr_commits f"
  by (simp add: commit_item_def)

lemma holds_checkpoint:
  assumes "holds env f v" and "grows_to v x"
  shows "holds env (commit_item env late f (Checkpoint fl s x)) x"
    and "fr_commits (commit_item env late f (Checkpoint fl s x)) = fr_commits f \<and> \<not> fl
      \<or> resumed_of (fr_commits (commit_item env late f (Checkpoint fl s x))) = Some s
        \<and> restore env (fr_commits (commit_item env late f (Checkpoint fl s x))) = Inr x"
proof -
  from assms(1) obtain y where y: "restore env (fr_commits f) = Inr y" "fr_output f = length (mc_output y)" "fr_excluded f = length (mc_excluded y)"
      "foldE (restore_event env) (mc_seen y, mc_encoded y) (fr_events f) = Inr (mc_seen x, mc_encoded x)"
      "prefix (mc_output y) (mc_output x)" "prefix (mc_excluded y) (mc_excluded x)"
    using assms(2) unfolding holds_def grows_to_def by (metis prefix_order.trans)
  note new = restore_snoc [OF y(1,4-6), where s = s]
  show "holds env (commit_item env late f (Checkpoint fl s x)) x"
  proof (cases "commit_due env late f fl (mc_progress x)")
    case True
    then show ?thesis using new y(2,3) by (simp add: commit_item_def Let_def holds_def)
  next
    case False
    then show ?thesis using y by (auto simp: commit_item_def Let_def holds_def)
  qed
  show "fr_commits (commit_item env late f (Checkpoint fl s x)) = fr_commits f \<and> \<not> fl
      \<or> resumed_of (fr_commits (commit_item env late f (Checkpoint fl s x))) = Some s
        \<and> restore env (fr_commits (commit_item env late f (Checkpoint fl s x))) = Inr x"
    using new y(2,3) by (auto simp: commit_item_def Let_def resumed_of_def commit_due_def)
qed

lemma holds_before: "coherent env v (ts @ Checkpoint fl s x # rest) r \<Longrightarrow> holds env f v \<Longrightarrow> \<exists>w. holds env (foldl (commit_item env late) f ts) w \<and> grows_to w x"
proof (induction ts arbitrary: v f)
  case (Cons i ts)
  show ?case
  proof (cases i)
    case (Recorded e)
    with Cons.prems(1) obtain t where t: "restore_event env (mc_seen v, mc_encoded v) e = Inr t" "coherent env (with_tables t v) (ts @ Checkpoint fl s x # rest) r"
      by (auto split: sum.splits)
    from Cons.IH [OF t(2) holds_recorded [OF Cons.prems(2) t(1)]] Recorded show ?thesis by simp
  next
    case (Checkpoint g u z)
    with Cons.prems(1) have z: "grows_to v z" "coherent env z (ts @ Checkpoint fl s x # rest) r" by simp_all
    from Cons.IH [OF z(2) holds_checkpoint(1) [OF Cons.prems(2) z(1)]] Checkpoint show ?thesis by simp
  qed
qed auto

lemma commits_are_snapshots:
  "coherent env v (ts @ rest) r \<Longrightarrow> holds env f v \<Longrightarrow> fr_commits (foldl (commit_item env late) f ts) = fr_commits f
    \<or> (\<exists>fl s x. Checkpoint fl s x \<in> set ts \<and> resumed_of (fr_commits (foldl (commit_item env late) f ts)) = Some s
        \<and> restore env (fr_commits (foldl (commit_item env late) f ts)) = Inr x)"
proof (induction ts arbitrary: rest rule: rev_induct)
  case (snoc i ts)
  let ?f = "foldl (commit_item env late) f ts"
  from snoc.prems have ih: "fr_commits ?f = fr_commits f
    \<or> (\<exists>fl s x. Checkpoint fl s x \<in> set ts \<and> resumed_of (fr_commits ?f) = Some s \<and> restore env (fr_commits ?f) = Inr x)"
    using snoc.IH [of "i # rest"] by simp
  show ?case
  proof (cases i)
    case (Recorded e)
    with ih show ?thesis by auto
  next
    case (Checkpoint fl s x)
    with snoc.prems holds_before [of env v ts fl s x rest r f late] obtain w where "holds env ?f w" "grows_to w x" by auto
    from holds_checkpoint(2) [OF this, of late fl s] ih Checkpoint show ?thesis by auto
  qed
qed simp

section \<open>Crashes\<close>

definition mix_env_ok :: "mix_env \<Rightarrow> bool" where
  "mix_env_ok env \<longleftrightarrow> distinct (map row_id (env_docs env)) \<and> distinct (map fst (env_quotas env))"

text \<open>The segments that any number of crashed processes leave: each one goes on from the segments of the one before, with a cache and clock
  of its own, and stops after any part of its trace.\<close>

inductive_set left_behind :: "mix_env \<Rightarrow> mix_commit list set" for env where
  nothing: "[] \<in> left_behind env"
| crash: "cs \<in> left_behind env \<Longrightarrow> restore env cs = Inr c \<Longrightarrow> cache_sound env cache
    \<Longrightarrow> fst (run_schedule env cache (resumed_of cs) c) = ts @ rest
    \<Longrightarrow> fr_commits (foldl (commit_item env late) (frontier_of cs c) ts) \<in> left_behind env"

lemma frontier_holds: "restore env cs = Inr c \<Longrightarrow> holds env (frontier_of cs c) c"
  by (simp add: holds_def frontier_of_def)

lemma sorted_quotas: "mix_env_ok env \<Longrightarrow> distinct (map fst (sort_key fst (env_quotas env)))"
  by (simp add: mix_env_ok_def distinct_map)

lemma schedule_coherent:
  assumes "cache_sound env cache" and "fits (sort_key fst (env_quotas env)) resumed c"
  shows "coherent env c (fst (run_schedule env cache resumed c)) (case snd (run_schedule env cache resumed c) of Inl _ \<Rightarrow> None | Inr d \<Rightarrow> Some d)"
  using runs_strata [OF assms] unfolding runs_def run_schedule_def .

lemma left_behind_goes_on:
  assumes "mix_env_ok env" and "cs \<in> left_behind env"
  shows "\<exists>c. restore env cs = Inr c \<and> fits (sort_key fst (env_quotas env)) (resumed_of cs) c
    \<and> plain_schedule env (resumed_of cs) c = plain_schedule env None empty_core"
  using assms(2)
proof induction
  case nothing
  have "restore env [] = Inr empty_core" by (simp add: restore_def committed_progress_def empty_core_def)
  then show ?case by (simp add: resumed_of_def fits_def)
next
  case (crash cs c cache ts rest late)
  let ?cs = "fr_commits (foldl (commit_item env late) (frontier_of cs c) ts)"
  from crash have c: "fits (sort_key fst (env_quotas env)) (resumed_of cs) c" "plain_schedule env (resumed_of cs) c = plain_schedule env None empty_core" by auto
  from schedule_coherent [OF crash.hyps(3) c(1)] have "\<exists>r. coherent env c (ts @ rest) r" unfolding crash.hyps(4) by blast
  then obtain r where "coherent env c (ts @ rest) r" ..
  from commits_are_snapshots [OF this frontier_holds [OF crash.hyps(2)], of late] show ?case
  proof (elim disjE exE conjE)
    assume "?cs = fr_commits (frontier_of cs c)"
    then have "?cs = cs" by (simp add: frontier_of_def)
    with c crash.hyps(2) show ?thesis by simp
  next
    fix fl s x assume snap: "Checkpoint fl s x \<in> set ts" and x: "resumed_of ?cs = Some s" "restore env ?cs = Inr x"
    from snap crash.hyps(4) have "Checkpoint fl s x \<in> set (fst (foldT (run_stratum env cache (resumed_of cs)) c (sort_key fst (env_quotas env))))"
      by (simp add: run_schedule_def)
    from strata_snapshot [OF crash.hyps(3) _ sorted_quotas [OF assms(1)] c(1) this] assms(1)
    show ?thesis using x c(2) by (simp add: mix_env_ok_def plain_schedule_def)
  qed
qed

lemma finish_ends: "snd (finish_stratum env x c) = Inr d \<Longrightarrow> \<exists>tr. fst (finish_stratum env x c) = tr @ [Checkpoint True (fst x) d]"
  by (cases x) (auto simp: finish_stratum_def snd_bindT fst_bindT Let_def split: if_splits)

lemma stratum_ends:
  assumes "snd (run_stratum env cache resumed c y) = Inr d"
  shows "fst (run_stratum env cache resumed c y) = [] \<and> d = c \<or> (\<exists>tr. fst (run_stratum env cache resumed c y) = tr @ [Checkpoint True (fst y) d])"
proof (cases "fst y \<in> set (pg_done (mc_progress c))")
  case True
  with assms show ?thesis by (cases y) (simp add: run_stratum_def)
next
  case False
  define pre :: "mix_core traced" where "pre = (if resumed = Some (fst y) then ([], Inr c) else ([Recorded ResetSeen], Inr (start_stratum c)))"
  define m where "m c = take_candidates env cache (fst y) (fst (open_candidates env (fst y) c)) (snd (open_candidates env (fst y) c))" for c
  have run: "run_stratum env cache resumed c y = bindT pre (\<lambda>c. bindT (m c) (finish_stratum env y))"
    using False by (cases y) (simp add: run_stratum_def split_def Let_def pre_def m_def)
  from assms obtain a b where "snd pre = Inr a" "snd (m a) = Inr b" "snd (finish_stratum env y b) = Inr d" by (auto simp: run snd_bindT)
  with finish_ends [of env y b d] show ?thesis by (auto simp: run fst_bindT)
qed

lemma strata_end: "snd (foldT (run_stratum env cache resumed) c xs) = Inr d
    \<Longrightarrow> fst (foldT (run_stratum env cache resumed) c xs) = [] \<and> d = c \<or> (\<exists>tr s. fst (foldT (run_stratum env cache resumed) c xs) = tr @ [Checkpoint True s d])"
proof (induction xs arbitrary: c)
  case (Cons y xs)
  from Cons.prems obtain b where b: "snd (run_stratum env cache resumed c y) = Inr b" "snd (foldT (run_stratum env cache resumed) b xs) = Inr d"
    by (auto simp: snd_bindT)
  have run: "fst (foldT (run_stratum env cache resumed) c (y # xs)) = fst (run_stratum env cache resumed c y) @ fst (foldT (run_stratum env cache resumed) b xs)"
    by (simp add: fst_bindT b(1))
  from Cons.IH [OF b(2)] stratum_ends [OF b(1)] show ?case unfolding run by auto
qed simp

lemma restore_nothing [simp]: "restore env [] = Inr empty_core"
  by (simp add: restore_def committed_progress_def empty_core_def)

lemma process_result:
  assumes "mix_env_ok env" and "cs \<in> left_behind env" and "cache_sound env cache"
  shows "snd (run_process env cache late cs) = plain_schedule env None empty_core"
proof -
  obtain c where "restore env cs = Inr c" "plain_schedule env (resumed_of cs) c = plain_schedule env None empty_core"
    using left_behind_goes_on [OF assms(1,2)] by blast
  then show ?thesis by (simp add: run_process_def split_def run_schedule_result [OF assms(3)])
qed

text \<open>
  C2. A training mixture that was interrupted any number of times, at any point between its commits, with any sound token caches and any
  timing of the commits, ends as an uninterrupted one: the same schedule, or the same error; and what is stored then restores
  to that result.\<close>

theorem resumed_schedule_is_uninterrupted:
  assumes "mix_env_ok env" and "cs \<in> left_behind env" and "cache_sound env cache"
  shows "snd (run_process env cache late cs) = snd (run_process env (\<lambda>_. None) (\<lambda>_. False) [])
    \<and> (\<forall>d. snd (run_process env cache late cs) = Inr d \<longrightarrow> restore env (fst (run_process env cache late cs)) = Inr d)"
proof -
  obtain c where c: "restore env cs = Inr c" "fits (sort_key fst (env_quotas env)) (resumed_of cs) c"
      "plain_schedule env (resumed_of cs) c = plain_schedule env None empty_core"
    using left_behind_goes_on [OF assms(1,2)] by blast
  have none: "cache_sound env (\<lambda>_. None)" by (simp add: cache_sound_def)
  let ?run = "run_schedule env cache (resumed_of cs) c"
  have result: "snd (run_process env cache late cs) = snd ?run"
    "fst (run_process env cache late cs) = fr_commits (foldl (commit_item env late) (frontier_of cs c) (fst ?run))"
    by (simp_all add: run_process_def c(1) split_def)
  have "restore env (fst (run_process env cache late cs)) = Inr d" if d: "snd ?run = Inr d" for d
  proof -
    from strata_end [OF d [unfolded run_schedule_def]] show ?thesis
    proof (elim disjE exE conjE)
      assume "fst (foldT (run_stratum env cache (resumed_of cs)) c (sort_key fst (env_quotas env))) = []" "d = c"
      then show ?thesis using c(1) by (simp add: result(2) run_schedule_def frontier_of_def)
    next
      fix tr s assume "fst (foldT (run_stratum env cache (resumed_of cs)) c (sort_key fst (env_quotas env))) = tr @ [Checkpoint True s d]"
      then have tr: "fst ?run = tr @ [Checkpoint True s d]" by (simp add: run_schedule_def)
      from schedule_coherent [OF assms(3) c(2)] have "coherent env c (tr @ Checkpoint True s d # []) (Some d)" by (simp add: tr d)
      from holds_before [OF this frontier_holds [OF c(1)], of late] obtain w
        where "holds env (foldl (commit_item env late) (frontier_of cs c) tr) w" "grows_to w d" by blast
      from holds_checkpoint(2) [OF this, of late True s] show ?thesis by (simp add: result(2) tr)
    qed
  qed
  with result process_result [OF assms] process_result [OF assms(1) left_behind.nothing none] show ?thesis by simp
qed

section \<open>What the schedule holds\<close>

text \<open>The accounts of a state: the totals are the tokens of the output, and every row of the output ends with the end mark.\<close>

definition ends_with :: "int \<Rightarrow> int list \<Rightarrow> bool" where
  "ends_with e ts \<longleftrightarrow> ts \<noteq> [] \<and> last ts = e"

definition scheduled_ok :: "mix_env \<Rightarrow> mix_scheduled \<Rightarrow> bool" where
  "scheduled_ok env w \<longleftrightarrow> ends_with (env_eos env) (so_tokens w) \<and> so_end w = int (length (so_tokens w)) - 1
     \<and> 1 \<le> so_exposure w \<and> so_exposure w \<le> env_max env"

definition stratum_tokens :: "string \<Rightarrow> mix_scheduled list \<Rightarrow> int" where
  "stratum_tokens stratum ws = (\<Sum>w \<leftarrow> filter (\<lambda>w. so_stratum w = stratum) ws. int (length (so_tokens w)))"

definition balanced :: "mix_env \<Rightarrow> mix_core \<Rightarrow> bool" where
  "balanced env c \<longleftrightarrow> (\<forall>t. pg_totals (mc_progress c) t = stratum_tokens t (mc_output c))
     \<and> (\<forall>e \<in> set (mc_encoded c). ends_with (env_eos env) (me_tokens e)) \<and> (\<forall>w \<in> set (mc_output c). scheduled_ok env w)"

text \<open>One step inside a stratum: it keeps the accounts and leaves the other totals alone.\<close>

definition keeps_books :: "mix_env \<Rightarrow> string \<Rightarrow> mix_core \<Rightarrow> mix_core \<Rightarrow> bool" where
  "keeps_books env stratum c d \<longleftrightarrow> (balanced env c \<longrightarrow> balanced env d) \<and> (\<forall>t. t \<noteq> stratum \<longrightarrow> pg_totals (mc_progress d) t = pg_totals (mc_progress c) t)"

lemma keeps_books_refl [simp]: "keeps_books env stratum c c"
  by (simp add: keeps_books_def)

lemma keeps_books_trans: "keeps_books env stratum c d \<Longrightarrow> keeps_books env stratum d e \<Longrightarrow> keeps_books env stratum c e"
  by (simp add: keeps_books_def)

lemma keeps_books_aside: "mc_output d = mc_output c \<Longrightarrow> pg_totals (mc_progress d) = pg_totals (mc_progress c)
    \<Longrightarrow> set (mc_encoded d) \<subseteq> set (mc_encoded c) \<union> {e. ends_with (env_eos env) (me_tokens e)} \<Longrightarrow> keeps_books env stratum c d"
  by (auto simp: keeps_books_def balanced_def)

lemma exclude_books: "exclude env x c = Inr d \<Longrightarrow> keeps_books env stratum c d"
  by (rule keeps_books_aside) (auto simp: exclude_def progress_def Let_def split: if_splits)

lemma document_books: "snd (process_document env stratum' c i source family ids) = Inr d \<Longrightarrow> keeps_books env stratum c d"
  by (cases "ids = []") (simp add: process_document_def exclude_books, rule keeps_books_aside,
    auto simp: process_document_def progress_def Let_def ends_with_def split: if_splits)

lemma candidate_books: "plain_candidate env stratum' c r = Inr d \<Longrightarrow> keeps_books env stratum c d"
proof -
  assume d: "plain_candidate env stratum' c r = Inr d"
  have "keeps_books env stratum c (note_candidate stratum' r c)"
    by (rule keeps_books_aside) (simp_all add: note_candidate_def progress_def)
  moreover have "keeps_books env stratum (note_candidate stratum' r c) d"
    using d by (auto simp: plain_candidate_def split: if_splits intro: exclude_books document_books)
  ultimately show ?thesis by (rule keeps_books_trans)
qed

lemma candidates_books: "foldE (plain_candidate env stratum') c rows = Inr d \<Longrightarrow> keeps_books env stratum c d"
  by (induction rows arbitrary: c) (auto intro: keeps_books_trans candidate_books)

lemma cut_tokens:
  assumes "ends_with e ts" and "0 < n" and "n \<le> length ts"
  shows "ends_with e (if n = length ts then take n ts else take (n - 1) ts @ [e])"
    and "length (if n = length ts then take n ts else take (n - 1) ts @ [e]) = n"
  using assms by (auto simp: ends_with_def)

lemma emit_books:
  assumes "1 \<le> e" and "e \<le> env_max env" and "d \<in> set (mc_encoded c)"
  shows "keeps_books env stratum c (emit env stratum quota e d c)"
proof (cases "quota - pg_totals (mc_progress c) stratum \<le> 0")
  case False
  define n where "n = min (length (me_tokens d)) (nat (quota - pg_totals (mc_progress c) stratum))"
  define tokens where "tokens = (if n = length (me_tokens d) then take n (me_tokens d) else take (n - 1) (me_tokens d) @ [env_eos env])"
  have n: "min (int (length (me_tokens d))) (quota - pg_totals (mc_progress c) stratum) = int n" using False unfolding n_def by linarith
  define w where "w = \<lparr>so_id = me_id d, so_family = me_family d, so_source = me_source d, so_stratum = stratum, so_exposure = e, so_end = int n - 1, so_tokens = tokens\<rparr>"
  let ?c = "emit env stratum quota e d c"
  have out: "mc_output ?c = mc_output c @ [w]" and enc: "mc_encoded ?c = mc_encoded c"
    and totals: "pg_totals (mc_progress ?c) = bump stratum (int n) (pg_totals (mc_progress c))"
    using False n by (simp_all add: emit_def Let_def progress_def w_def tokens_def nat_diff_distrib)
  have "balanced env ?c" if bal: "balanced env c"
  proof -
    from bal assms(3) have e: "ends_with (env_eos env) (me_tokens d)" by (simp add: balanced_def)
    then have "0 < n" using False by (simp add: n_def ends_with_def)
    from cut_tokens [OF e this] have "ends_with (env_eos env) tokens" "length tokens = n" by (simp_all add: tokens_def n_def)
    with bal assms(1,2) show ?thesis unfolding balanced_def out enc totals
      by (simp add: scheduled_ok_def w_def stratum_tokens_def bump_def)
  qed
  then show ?thesis by (simp add: keeps_books_def totals bump_def)
qed (simp add: emit_def)

lemma aside_progress: "(\<And>p. pg_totals (f p) = pg_totals p) \<Longrightarrow> keeps_books env stratum c (progress f c)"
  by (rule keeps_books_aside) (simp_all add: progress_def)

lemma rows_books:
  "snd (emit_rows env stratum quota e c ds) = Inr d \<Longrightarrow> 1 \<le> e \<Longrightarrow> e \<le> env_max env \<Longrightarrow> snd ` set ds \<subseteq> set (mc_encoded c) \<Longrightarrow> keeps_books env stratum c d"
proof (induction ds arbitrary: c)
  case (Cons nd ds)
  obtain n x where nd: "nd = (n, x)" by (cases nd)
  let ?c = "progress (\<lambda>p. p\<lparr>pg_ordinal := n\<rparr>) (emit env stratum quota e x c)"
  have one: "keeps_books env stratum c ?c"
    by (rule keeps_books_trans [OF emit_books aside_progress]) (use Cons.prems in \<open>simp_all add: nd\<close>)
  have "mc_encoded ?c = mc_encoded c" using emit_keeps [of c env stratum quota e x] by (simp add: same_stock_def progress_def)
  then have enc: "snd ` set ds \<subseteq> set (mc_encoded ?c)" using Cons.prems(4) by simp
  show ?case
  proof (cases "quota \<le> pg_totals (mc_progress c) stratum")
    case False
    with Cons.prems(1) have "snd (emit_rows env stratum quota e ?c ds) = Inr d" by (simp add: nd snd_bindT Let_def)
    from keeps_books_trans [OF one Cons.IH [OF this Cons.prems(2,3) enc]] show ?thesis .
  qed (use Cons.prems(1) in \<open>simp add: nd\<close>)
qed simp

lemma encoded_after_stock: "snd ` set (encoded_after c stratum a) \<subseteq> set (mc_encoded c)"
proof -
  have "snd ` set (enumerate 1 xs) = set xs" for xs :: "mix_encoded list" by (metis list.set_map map_snd_enumerate)
  then show ?thesis unfolding encoded_after_def by fastforce
qed

lemma exposures_books:
  "snd (emit_exposures env stratum quota c es) = Inr d \<Longrightarrow> \<forall>e \<in> fst ` set es. 1 \<le> e \<and> e \<le> env_max env \<Longrightarrow> keeps_books env stratum c d"
proof (induction es arbitrary: c)
  case (Cons ea es)
  obtain e a where ea: "ea = (e, a)" by (cases ea)
  let ?c = "progress (\<lambda>p. p\<lparr>pg_exposure := e\<rparr>) c"
  from Cons.prems(1) obtain b where b: "snd (emit_rows env stratum quota e ?c (encoded_after ?c stratum a)) = Inr b"
      "b = d \<or> snd (emit_exposures env stratum quota b es) = Inr d"
    by (auto simp: ea Let_def snd_bindT split: if_splits)
  have "keeps_books env stratum c ?c" by (rule aside_progress) simp
  moreover have "keeps_books env stratum ?c b" by (rule rows_books [OF b(1)]) (use Cons.prems(2) encoded_after_stock in \<open>auto simp: ea\<close>)
  moreover have "keeps_books env stratum b d" using b(2) Cons.IH [of b] Cons.prems(2) by auto
  ultimately show ?case using keeps_books_trans by blast
qed simp

lemma finish_books:
  assumes "snd (finish_stratum env (stratum, quota) c) = Inr d"
  shows "keeps_books env stratum c d \<and> pg_totals (mc_progress d) stratum = quota"
proof -
  from assms obtain c1 c2 where c: "check_supply env stratum quota c = Inr c1" "snd (emit_exposures env stratum quota c1 (exposures_from env (mc_progress c1))) = Inr c2"
      "d = progress (\<lambda>p. p\<lparr>pg_done := pg_done p @ [stratum]\<rparr>) c2" "pg_totals (mc_progress c2) stratum = quota"
    by (auto simp: finish_stratum_def snd_bindT Let_def split: if_splits)
  have "keeps_books env stratum c c1" using c(1) by (auto simp: check_supply_Inr record_supply_def intro!: aside_progress)
  moreover have "keeps_books env stratum c1 c2" by (rule exposures_books [OF c(2)]) (auto simp: exposures_from_def Let_def)
  moreover have "keeps_books env stratum c2 d" unfolding c(3) by (rule aside_progress) simp
  ultimately have "keeps_books env stratum c d" using keeps_books_trans by blast
  with c(3,4) show ?thesis by (simp add: progress_def)
qed

lemma stratum_books:
  assumes "plain_stratum env resumed c (stratum, quota) = Inr d"
  shows "keeps_books env stratum c d \<and> (stratum \<notin> set (pg_done (mc_progress c)) \<longrightarrow> pg_totals (mc_progress d) stratum = quota)"
proof (cases "stratum \<in> set (pg_done (mc_progress c))")
  case False
  let ?s = "if resumed = Some stratum then c else start_stratum c"
  from assms False obtain b where b: "foldE (plain_candidate env stratum) (fst (open_candidates env stratum ?s)) (snd (open_candidates env stratum ?s)) = Inr b"
      "snd (finish_stratum env (stratum, quota) b) = Inr d"
    by (auto simp: plain_stratum_cases go_on_def)
  have "keeps_books env stratum c (fst (open_candidates env stratum ?s))"
    by (rule keeps_books_aside) (simp_all add: open_candidates_def start_stratum_def progress_def)
  with candidates_books [OF b(1)] finish_books [OF b(2)] keeps_books_trans show ?thesis by blast
qed (use assms in \<open>simp add: plain_stratum_cases\<close>)

definition filled :: "(string \<times> int) list \<Rightarrow> mix_core \<Rightarrow> bool" where
  "filled xs c \<longleftrightarrow> (\<forall>(t, q) \<in> set xs. t \<in> set (pg_done (mc_progress c)) \<longrightarrow> pg_totals (mc_progress c) t = q)"

lemma strata_filled:
  assumes "distinct (map fst ys)"
  shows "foldE (plain_stratum env resumed) c xs = Inr d \<Longrightarrow> set xs \<subseteq> set ys \<Longrightarrow> balanced env c \<Longrightarrow> filled ys c
    \<Longrightarrow> balanced env d \<and> filled ys d \<and> fst ` set xs \<union> set (pg_done (mc_progress c)) \<subseteq> set (pg_done (mc_progress d))"
proof (induction xs arbitrary: c)
  case (Cons y xs)
  obtain stratum quota where y: "y = (stratum, quota)" by (cases y)
  from Cons.prems(1) obtain b where b: "plain_stratum env resumed c (stratum, quota) = Inr b" "foldE (plain_stratum env resumed) b xs = Inr d"
    by (auto simp: y)
  note books = stratum_books [OF b(1)]
  have bal: "balanced env b" using books Cons.prems(3) by (simp add: keeps_books_def)
  have grow: "stratum \<in> set (pg_done (mc_progress b))" "set (pg_done (mc_progress c)) \<subseteq> set (pg_done (mc_progress b))"
    using plain_stratum_done [OF b(1)] by simp_all
  have done_b: "set (pg_done (mc_progress b)) \<subseteq> insert stratum (set (pg_done (mc_progress c)))"
    using b(1) by (auto simp: plain_stratum_cases split: if_splits dest!: go_on_done)
  have "pg_totals (mc_progress b) t = q" if t: "(t, q) \<in> set ys" "t \<in> set (pg_done (mc_progress b))" for t q
  proof (cases "t = stratum \<and> stratum \<notin> set (pg_done (mc_progress c))")
    case True
    have "(stratum, quota) \<in> set ys" using Cons.prems(2) by (simp add: y)
    with t(1) True assms have "q = quota" by (auto dest: eq_key_imp_eq_value)
    with True books show ?thesis by simp
  next
    case False
    with t(2) done_b have old: "t \<in> set (pg_done (mc_progress c))" by auto
    with Cons.prems(4) t(1) have "pg_totals (mc_progress c) t = q" by (auto simp: filled_def)
    moreover have "pg_totals (mc_progress b) t = pg_totals (mc_progress c) t"
    proof (cases "t = stratum")
      case True
      with old b(1) show ?thesis by (simp add: plain_stratum_cases)
    qed (use books in \<open>simp add: keeps_books_def\<close>)
    ultimately show ?thesis by simp
  qed
  then have "filled ys b" by (auto simp: filled_def)
  from Cons.IH [OF b(2) _ bal this] Cons.prems(2) grow show ?case by (auto simp: y)
qed simp

lemma schedule_books:
  assumes "mix_env_ok env" and "plain_schedule env None empty_core = Inr d"
  shows "balanced env d \<and> filled (env_quotas env) d \<and> fst ` set (env_quotas env) \<subseteq> set (pg_done (mc_progress d))"
proof -
  have "balanced env empty_core" "filled (env_quotas env) empty_core"
    by (simp_all add: balanced_def filled_def empty_core_def stratum_tokens_def)
  from strata_filled [OF _ assms(2) [unfolded plain_schedule_def] _ this] assms(1) show ?thesis by (simp add: mix_env_ok_def)
qed

text \<open>
  C26. When the schedule of a training mixture ends well, after any interruptions, every stratum has exactly the tokens of its quota,
  every row ends with the end mark at the recorded position, and the exposure number that each row records is
  positive and within the maximum.
\<close>

theorem schedule_fills_quotas:
  assumes "mix_env_ok env" and "cs \<in> left_behind env" and "cache_sound env cache"
    and "snd (run_process env cache late cs) = Inr d" and "(stratum, quota) \<in> set (env_quotas env)"
  shows "stratum_tokens stratum (mc_output d) = quota \<and> list_all (scheduled_ok env) (mc_output d)"
proof -
  from process_result [OF assms(1-3)] assms(4) have "plain_schedule env None empty_core = Inr d" by simp
  from schedule_books [OF assms(1) this] assms(5) show ?thesis by (fastforce simp: balanced_def filled_def list_all_iff)
qed

definition sample_row :: "string \<Rightarrow> string \<Rightarrow> string \<Rightarrow> string \<Rightarrow> mix_row" where
  "sample_row i stratum content t = \<lparr>mr_doc = \<lparr>md_id = i, md_split = ''train'', md_content = content, md_source = ''s'', md_domains = [],
     md_dropped = False, md_rights = None, md_text = t\<rparr>, mr_inventory = Some (''f'' @ i, stratum, i), mr_selected = True\<rparr>"

definition sample_env :: mix_env where
  "sample_env = \<lparr>env_docs = [sample_row ''1'' ''a'' ''k'' ''x'', sample_row ''2'' ''a'' ''k'' ''x''],
     env_quotas = [(''a'', 3)], env_max = 2, env_floors = None, env_eos = 0, env_encode = map (\<lambda>c. int (of_char c)),
     env_exclusion_size = (\<lambda>_. 1), env_row_size = (\<lambda>_. 1), env_limit = 10\<rparr>"

definition sample_trace :: "mix_trace list" where
  "sample_trace = fst (run_schedule sample_env (\<lambda>_. None) None empty_core)"

definition sample_left :: "mix_commit list" where
  "sample_left = fr_commits (foldl (commit_item sample_env (\<lambda>_. True)) (frontier_of [] empty_core) (take 4 sample_trace))"

lemma sample_ok: "mix_env_ok sample_env" "cache_sound sample_env (\<lambda>_. None)" "sample_left \<in> left_behind sample_env"
proof -
  show "mix_env_ok sample_env" by (simp add: mix_env_ok_def sample_env_def sample_row_def)
  show "cache_sound sample_env (\<lambda>_. None)" by (simp add: cache_sound_def)
  show "sample_left \<in> left_behind sample_env"
    unfolding sample_left_def
    by (rule left_behind.crash [where cache = "\<lambda>_. None" and rest = "drop 4 sample_trace"])
      (simp_all add: left_behind.nothing restore_nothing resumed_of_def cache_sound_def sample_trace_def)
qed

lemma sample_left_length: "length sample_left = 1"
  by code_simp

lemma sample_output: "map_sum id (\<lambda>d. map (\<lambda>w. (so_id w, so_exposure w, so_tokens w)) (mc_output d)) (snd (run_schedule sample_env (\<lambda>_. None) None empty_core))
    = Inr [(''1'', 1, [120, 0]), (''1'', 2, [0])]"
  by code_simp

lemma resumed_schedule_is_uninterrupted_witness:
  "snd (run_process sample_env (\<lambda>_. None) (\<lambda>_. True) sample_left) = snd (run_process sample_env (\<lambda>_. None) (\<lambda>_. False) []) \<and> length sample_left = 1"
  using resumed_schedule_is_uninterrupted [OF sample_ok(1,3,2)] sample_left_length by blast

lemma schedule_fills_quotas_witness:
  "stratum_tokens ''a'' (mc_output (projr (snd (run_process sample_env (\<lambda>_. None) (\<lambda>_. True) sample_left)))) = 3
    \<and> map (\<lambda>w. (so_id w, so_exposure w, so_tokens w)) (mc_output (projr (snd (run_process sample_env (\<lambda>_. None) (\<lambda>_. True) sample_left))))
      = [(''1'', 1, [120, 0]), (''1'', 2, [0])]"
proof -
  have "snd (run_process sample_env (\<lambda>_. None) (\<lambda>_. True) sample_left) = snd (run_schedule sample_env (\<lambda>_. None) None empty_core)"
    unfolding process_result [OF sample_ok(1,3,2)] run_schedule_result [OF sample_ok(2)] ..
  then obtain d where d: "snd (run_process sample_env (\<lambda>_. None) (\<lambda>_. True) sample_left) = Inr d"
      "map (\<lambda>w. (so_id w, so_exposure w, so_tokens w)) (mc_output d) = [(''1'', 1, [120, 0]), (''1'', 2, [0])]"
    using sample_output by (cases "snd (run_schedule sample_env (\<lambda>_. None) None empty_core)") auto
  have "(''a'', 3) \<in> set (env_quotas sample_env)" by (simp add: sample_env_def)
  from schedule_fills_quotas [OF sample_ok(1,3,2) d(1) this] d show ?thesis by simp
qed

end
