(* ===== verification/Split_Freeze.thy ===== *)
theory Split_Freeze
  imports Mixture_Index
begin

text \<open>
  \<open>src/sparselab/corpus/split_freeze.py\<close>: the frozen splits of a corpus. The reviewed merges make families of the
  documents, the families of a stratum are dealt to train, validation and test by weight in the order of
  a digest, an earlier release keeps its assignments, and the family inventory of the release is filtered from the candidates.

  \<open>_freeze_splits\<close> is modelled from the rows of the verified inventory and the admitted decisions on; verification of
  files, the receipt and its publication are not. A document and a row of an inventory are those of \<open>Mixture_Index\<close>;
  \<open>None\<close> is a row of another shape, or a hint that is not a string.
\<close>

section \<open>Declaration\<close>

definition dealt_splits :: "string list" where
  "dealt_splits = [''train'', ''validation'', ''test'']"

record freeze_row =
  fz_id :: string
  fz_source :: string
  fz_location :: string
  fz_index :: "int option"
  fz_hint :: "string option"
  fz_content :: string

datatype freeze_decision = FileDecision string | RowDecisions "int option \<Rightarrow> string option"

datatype freeze_error = InvalidDeclaration | InvalidWeights | DuplicateIdentity | InvalidPrior | PriorDiffers | PriorSpans | PriorContentSpans
  | PriorIncomplete | InvalidMerge | NoFileDecision | NoRowDecision | UnresolvedFamily | UnknownSource | PriorContentFamily
  | FamilySpansStrata | TooFewFamilies string | PriorStratum | PriorQuota | PriorAccounting | NotCovered | MissingAssignment
  | ContentDuplicate | PriorContentSplit | CandidatesDiffer | CandidateDisagrees

record freeze_input =
  fi_sources :: "string list"
  fi_strata :: "(string \<times> string) list"
  fi_weights :: "(int \<times> int \<times> int) option"
  fi_prior :: "(mix_document list \<times> family_row option list) option"
  fi_rows :: "freeze_row list"
  fi_merges :: "(string \<times> string option list) option list"
  fi_admitted :: "string \<times> string \<Rightarrow> freeze_decision option"
  fi_digest :: "string \<Rightarrow> string \<Rightarrow> string"

definition stratum_name :: "string \<Rightarrow> bool" where
  "stratum_name s \<longleftrightarrow> s \<noteq> [] \<and> length s \<le> 64 \<and> is_lower_alpha (hd s)
     \<and> list_all (\<lambda>c. is_lower_alpha c \<or> is_digit c \<or> c = CHR ''_'' \<or> c = CHR ''-'') (tl s)"

definition strata_ok :: "freeze_input \<Rightarrow> bool" where
  "strata_ok inp \<longleftrightarrow> set (map fst (fi_strata inp)) = set (fi_sources inp) \<and> list_all (stratum_name \<circ> snd) (fi_strata inp)"

definition split_weights :: "(int \<times> int \<times> int) option \<Rightarrow> freeze_error + nat list" where
  "split_weights w = (case w of
     None \<Rightarrow> Inr [8, 1, 1]
   | Some (a, b, c) \<Rightarrow> if a \<le> 0 \<or> b \<le> 0 \<or> c \<le> 0 \<or> 10000 < a + b + c then Inl InvalidWeights else Inr [nat a, nat b, nat c])"

text \<open>\<open>_counts\<close>: whole shares, and the rest to the largest remainders.\<close>

definition share_counts :: "nat \<Rightarrow> nat list \<Rightarrow> nat list" where
  "share_counts n ws =
     (let floors = map (\<lambda>w. n * w div sum_list ws) ws; remainders = map (\<lambda>w. n * w mod sum_list ws) ws;
          order = sort_key (\<lambda>i. (- int (remainders ! i), i)) [0 ..< 3]
      in foldl (\<lambda>fs i. fs[i := Suc (fs ! i)]) floors (take (n - sum_list floors) order))"

section \<open>The earlier release\<close>

record prior_state =
  pr_families :: "string \<Rightarrow> string option"
  pr_strata :: "string \<Rightarrow> string option"
  pr_content :: "string \<Rightarrow> (string \<times> string) option"
  pr_seen :: "string list"

definition no_prior :: prior_state where
  "no_prior = \<lparr>pr_families = Map.empty, pr_strata = Map.empty, pr_content = Map.empty, pr_seen = []\<rparr>"

definition prior_row :: "mix_document list \<Rightarrow> prior_state \<Rightarrow> family_row option \<Rightarrow> freeze_error + prior_state" where
  "prior_row kept p row = (case row of None \<Rightarrow> Inl InvalidPrior | Some iv \<Rightarrow>
     if iv_document iv \<in> set (pr_seen p) \<or> iv_split iv \<notin> set dealt_splits \<or> iv_family iv = [] then Inl InvalidPrior
     else (case find (\<lambda>d. md_id d = iv_document iv) kept of
       None \<Rightarrow> Inl PriorDiffers
     | Some d \<Rightarrow>
         if md_split d \<noteq> iv_split iv \<or> md_content d \<noteq> iv_content iv \<or> iv_stratum iv \<notin> set (md_domains d) then Inl PriorDiffers
         else if pr_families p (iv_family iv) \<noteq> None
             \<and> (pr_families p (iv_family iv) \<noteq> Some (iv_split iv) \<or> pr_strata p (iv_family iv) \<noteq> Some (iv_stratum iv)) then Inl PriorSpans
         else if pr_content p (iv_content iv) \<notin> {None, Some (iv_family iv, iv_split iv)} then Inl PriorContentSpans
         else Inr \<lparr>pr_families = (pr_families p)(iv_family iv \<mapsto> iv_split iv), pr_strata = (pr_strata p)(iv_family iv \<mapsto> iv_stratum iv),
             pr_content = (pr_content p)(iv_content iv \<mapsto> (iv_family iv, iv_split iv)), pr_seen = iv_document iv # pr_seen p\<rparr>))"

definition prior_family_splits :: "(mix_document list \<times> family_row option list) option \<Rightarrow> freeze_error + prior_state" where
  "prior_family_splits prior = (case prior of None \<Rightarrow> Inr no_prior | Some (docs, rows) \<Rightarrow>
     let kept = filter (\<lambda>d. \<not> md_dropped d) docs in
     if \<not> distinct (map md_id kept) then Inl DuplicateIdentity
     else bindE (foldE (prior_row kept) no_prior rows) (\<lambda>p.
       if set (pr_seen p) = set (map md_id kept) then Inr p else Inl PriorIncomplete))"

section \<open>Families\<close>

definition add_merge :: "string option set \<Rightarrow> (string option \<Rightarrow> string option) \<Rightarrow> (string \<times> string option list) option
    \<Rightarrow> freeze_error + (string option \<Rightarrow> string option)" where
  "add_merge hints merged m = (case m of None \<Rightarrow> Inl InvalidMerge | Some (family, members) \<Rightarrow>
     if blank family \<or> length members < 2 \<or> \<not> distinct members \<or> list_ex (\<lambda>h. h \<notin> hints \<or> merged h \<noteq> None) members then Inl InvalidMerge
     else Inr (foldl (\<lambda>m h. m(h \<mapsto> family)) merged members))"

definition admission_state :: "freeze_input \<Rightarrow> freeze_row \<Rightarrow> freeze_error + string" where
  "admission_state inp row = (case fi_admitted inp (fz_source row, takeWhile (\<lambda>c. c \<noteq> CHR ''#'') (fz_location row)) of
     None \<Rightarrow> Inl NoFileDecision
   | Some (FileDecision s) \<Rightarrow> Inr s
   | Some (RowDecisions f) \<Rightarrow> (case f (fz_index row) of None \<Rightarrow> Inl NoRowDecision | Some s \<Rightarrow> Inr s))"

text \<open>The stratum and the reviewed family of a row; \<open>None\<close> if it is not qualified.\<close>

definition row_place :: "freeze_input \<Rightarrow> prior_state \<Rightarrow> (string option \<Rightarrow> string option) \<Rightarrow> freeze_row \<Rightarrow> freeze_error + (string \<times> string) option" where
  "row_place inp prior merged row = bindE (admission_state inp row) (\<lambda>s.
     if s \<noteq> ''qualify'' then Inr None
     else (case fz_hint row of None \<Rightarrow> Inl UnresolvedFamily | Some hint \<Rightarrow>
       if prefix ''unresolved-family:'' hint then Inl UnresolvedFamily
       else (case map_of (fi_strata inp) (fz_source row) of None \<Rightarrow> Inl UnknownSource | Some stratum \<Rightarrow>
         let family = (case merged (Some hint) of Some f \<Rightarrow> f | None \<Rightarrow> hint) in
         if (case pr_content prior (fz_content row) of Some (f, _) \<Rightarrow> f \<noteq> family | None \<Rightarrow> False) then Inl PriorContentFamily
         else Inr (Some (stratum, family)))))"

record freeze_state =
  fs_families :: "(string \<times> string) list"
  fs_assigned :: "string \<Rightarrow> string option"
  fs_family :: "string \<Rightarrow> (string \<times> string) option"
  fs_eligible :: nat

definition place_step :: "freeze_input \<Rightarrow> prior_state \<Rightarrow> (string option \<Rightarrow> string option) \<Rightarrow> freeze_state \<Rightarrow> freeze_row \<Rightarrow> freeze_error + freeze_state" where
  "place_step inp prior merged st row = bindE (row_place inp prior merged row) (\<lambda>p. case p of
     None \<Rightarrow> Inr (st\<lparr>fs_assigned := (fs_assigned st)(fz_id row \<mapsto> ''test'')\<rparr>)
   | Some sf \<Rightarrow> Inr (st\<lparr>fs_families := (if sf \<in> set (fs_families st) then fs_families st else fs_families st @ [sf]),
       fs_family := (fs_family st)(fz_id row \<mapsto> sf), fs_eligible := Suc (fs_eligible st)\<rparr>))"

definition no_rows :: freeze_state where
  "no_rows = \<lparr>fs_families = [], fs_assigned = Map.empty, fs_family = Map.empty, fs_eligible = 0\<rparr>"

definition one_stratum :: "(string \<times> string) list \<Rightarrow> bool" where
  "one_stratum families \<longleftrightarrow> list_all (\<lambda>(s, f). list_all (\<lambda>(s', f'). f' = f \<longrightarrow> s' = s) families) families"

section \<open>Dealing\<close>

definition names_of :: "freeze_input \<Rightarrow> (string \<times> string) list \<Rightarrow> string \<Rightarrow> string list" where
  "names_of inp families stratum = sort_key (\<lambda>f. (fi_digest inp stratum f, f)) (map snd (filter (\<lambda>(s, f). s = stratum) families))"

fun deal :: "(string \<Rightarrow> string option) \<Rightarrow> nat \<Rightarrow> nat \<Rightarrow> nat \<Rightarrow> string list \<Rightarrow> (string \<times> string) list" where
  "deal pinned t v i [] = []"
| "deal pinned t v i (f # fs) = (case pinned f of
     Some s \<Rightarrow> (f, s) # deal pinned t v i fs
   | None \<Rightarrow> (f, if i < t then ''train'' else if i < t + v then ''validation'' else ''test'') # deal pinned t v (Suc i) fs)"

definition stratum_plan :: "freeze_input \<Rightarrow> nat list \<Rightarrow> prior_state \<Rightarrow> (string \<times> string) list \<Rightarrow> string \<Rightarrow> freeze_error + (string \<times> string) list" where
  "stratum_plan inp ws prior families stratum =
     (let names = names_of inp families stratum; n = length names; planned = share_counts n ws; pinned = filter (\<lambda>f. pr_families prior f \<noteq> None) names;
          remaining = map (\<lambda>i. int (planned ! i) - int (length (filter (\<lambda>f. pr_families prior f = Some (dealt_splits ! i)) pinned))) [0 ..< 3]
      in if n < sum_list ws then Inl (TooFewFamilies stratum)
      else if list_ex (\<lambda>f. pr_strata prior f \<noteq> Some stratum) pinned then Inl PriorStratum
      else if list_ex (\<lambda>r. r < 0) remaining then Inl PriorQuota
      else if sum_list remaining \<noteq> int n - int (length pinned) then Inl PriorAccounting
      else Inr (deal (pr_families prior) (nat (remaining ! 0)) (nat (remaining ! 1)) 0 names))"

text \<open>The documents of a stratum's families get the splits of the plan.\<close>

definition assign_stratum :: "freeze_input \<Rightarrow> nat list \<Rightarrow> prior_state \<Rightarrow> freeze_state \<Rightarrow> (string \<Rightarrow> string option) \<Rightarrow> string
    \<Rightarrow> freeze_error + (string \<Rightarrow> string option)" where
  "assign_stratum inp ws prior st assigned stratum = bindE (stratum_plan inp ws prior (fs_families st) stratum) (\<lambda>plan.
     Inr (\<lambda>d. case fs_family st d of
       Some (s, f) \<Rightarrow> if s = stratum \<and> map_of plan f \<noteq> None then map_of plan f else assigned d
     | None \<Rightarrow> assigned d))"

definition check_content :: "prior_state \<Rightarrow> freeze_state \<Rightarrow> (string \<Rightarrow> string option) \<Rightarrow> (string \<Rightarrow> string option) \<Rightarrow> freeze_row
    \<Rightarrow> freeze_error + (string \<Rightarrow> string option)" where
  "check_content prior st assigned seen row = (case assigned (fz_id row) of None \<Rightarrow> Inl MissingAssignment | Some s \<Rightarrow>
     if fs_family st (fz_id row) = None then Inr seen
     else if seen (fz_content row) \<notin> {None, Some s} then Inl ContentDuplicate
     else if (case pr_content prior (fz_content row) of Some (_, s') \<Rightarrow> s' \<noteq> s | None \<Rightarrow> False) then Inl PriorContentSplit
     else Inr (seen(fz_content row \<mapsto> s)))"

record frozen =
  fr_assigned :: "string \<Rightarrow> string option"
  fr_family :: "string \<Rightarrow> (string \<times> string) option"
  fr_counts :: "(string \<times> nat list) list"
  fr_candidates :: "family_row list"

definition candidates_of :: "freeze_state \<Rightarrow> (string \<Rightarrow> string option) \<Rightarrow> freeze_row list \<Rightarrow> family_row list" where
  "candidates_of st assigned rows = concat (map (\<lambda>row. case fs_family st (fz_id row) of
       None \<Rightarrow> []
     | Some (s, f) \<Rightarrow> [\<lparr>iv_document = fz_id row, iv_family = f, iv_split = the (assigned (fz_id row)), iv_stratum = s, iv_content = fz_content row\<rparr>])
     (sort_key fz_id rows))"

definition freeze_splits :: "freeze_input \<Rightarrow> freeze_error + frozen" where
  "freeze_splits inp =
     (if \<not> strata_ok inp then Inl InvalidDeclaration
      else bindE (split_weights (fi_weights inp)) (\<lambda>ws.
      bindE (prior_family_splits (fi_prior inp)) (\<lambda>prior.
      if \<not> distinct (map fz_id (fi_rows inp)) then Inl DuplicateIdentity
      else bindE (foldE (add_merge (fz_hint ` set (fi_rows inp))) Map.empty (fi_merges inp)) (\<lambda>merged.
      bindE (foldE (place_step inp prior merged) no_rows (fi_rows inp)) (\<lambda>st.
      if \<not> one_stratum (fs_families st) then Inl FamilySpansStrata
      else let strata = sort (remdups (map snd (fi_strata inp))) in
      bindE (foldE (assign_stratum inp ws prior st) (fs_assigned st) strata) (\<lambda>assigned.
      if list_ex (\<lambda>row. assigned (fz_id row) = None) (fi_rows inp) then Inl NotCovered
      else bindE (foldE (check_content prior st assigned) Map.empty (fi_rows inp)) (\<lambda>_.
      Inr \<lparr>fr_assigned = assigned, fr_family = fs_family st,
        fr_counts = map (\<lambda>s. (s, share_counts (length (names_of inp (fs_families st) s)) ws)) strata,
        fr_candidates = candidates_of st assigned (fi_rows inp)\<rparr>)))))))"

text \<open>\<open>_finalize_family_inventory\<close>: the candidates of the kept documents of the release.\<close>

definition finalize_row :: "family_row list \<Rightarrow> mix_document \<Rightarrow> freeze_error + family_row list" where
  "finalize_row rows d = (case find (\<lambda>iv. iv_document iv = md_id d) rows of
     None \<Rightarrow> Inl CandidatesDiffer
   | Some iv \<Rightarrow> if iv_split iv \<noteq> md_split d \<or> iv_content iv \<noteq> md_content d \<or> iv_stratum iv \<notin> set (md_domains d) then Inl CandidateDisagrees
       else Inr (if md_dropped d then [] else [iv]))"

definition finalize_inventory :: "family_row list \<Rightarrow> mix_document list \<Rightarrow> freeze_error + family_row list" where
  "finalize_inventory rows docs =
     (if \<not> distinct (map iv_document rows) \<or> \<not> distinct (map md_id docs) then Inl DuplicateIdentity
      else if set (map iv_document rows) \<noteq> set (map md_id docs) then Inl CandidatesDiffer
      else bindE (mapE (finalize_row rows) (sort_key md_id docs)) (\<lambda>out. Inr (concat out)))"

section \<open>Shares\<close>

lemma bump_all: "distinct is \<Longrightarrow> set is \<subseteq> {..< length fs} \<Longrightarrow> m < length fs
    \<Longrightarrow> foldl (\<lambda>fs i. fs[i := Suc (fs ! i)]) fs is ! m = fs ! m + (if m \<in> set is then 1 else 0)"
  by (induction "is" arbitrary: fs) (auto simp: nth_list_update)

lemma bump_length [simp]: "length (foldl (\<lambda>fs i. fs[i := Suc (fs ! i)]) fs is) = length fs"
  by (induction "is" arbitrary: fs) simp_all

lemma three_elements: "length xs = 3 \<Longrightarrow> \<exists>i j l. xs = [i, j, l]"
  by (auto simp: length_Suc_conv numeral_3_eq_3)

lemma three_sum: "length xs = 3 \<Longrightarrow> sum_list xs = xs ! 0 + xs ! 1 + (xs ! 2 :: nat)"
  by (auto dest!: three_elements)

lemma three_sorted:
  fixes k :: "nat \<Rightarrow> int"
  obtains i j l where "sort_key (\<lambda>i. (k i, i)) [0 ..< 3] = [i, j, l]" "{i, j, l} = {0, 1, 2}" "distinct [i, j, l]" "k i \<le> k j" "k j \<le> k l"
proof -
  let ?xs = "sort_key (\<lambda>i. (k i, i)) [0 ..< 3]"
  have "length ?xs = 3" by simp
  then obtain i j l where xs: "?xs = [i, j, l]" using three_elements by blast
  have "set ?xs = {0, 1, 2}" by auto
  moreover have "distinct ?xs" by simp
  moreover have "sorted (map (\<lambda>i. (k i, i)) ?xs)" by simp
  ultimately show ?thesis using that [of i j l] unfolding xs by auto
qed

lemma near_share: "r < d \<Longrightarrow> (q \<Longrightarrow> 0 < r) \<Longrightarrow> \<bar>int (f + (if q then 1 else 0)) * int d - int (f * d + r)\<bar> < int d"
  by (auto simp: algebra_simps)

lemma counts_fair:
  assumes d: "0 < a + b + c"
  shows "length (share_counts n [a, b, c]) = 3" and "sum_list (share_counts n [a, b, c]) = n"
    and "m < 3 \<Longrightarrow> \<bar>int (share_counts n [a, b, c] ! m) * int (a + b + c) - int (n * [a, b, c] ! m)\<bar> < int (a + b + c)"
proof -
  let ?ws = "[a, b, c]"
  define d where "d = a + b + c"
  have dw: "sum_list ?ws = d" by (simp add: d_def)
  have dpos: "0 < d" using d by (simp add: d_def)
  define fl where "fl = map (\<lambda>w. n * w div d) ?ws"
  define rm where "rm = map (\<lambda>w. n * w mod d) ?ws"
  have share: "fl ! m * d + rm ! m = n * ?ws ! m" "rm ! m < d" if "m < 3" for m
  proof -
    from that have "m < length ?ws" by simp
    then have "fl ! m = n * ?ws ! m div d" "rm ! m = n * ?ws ! m mod d" by (simp_all only: fl_def rm_def nth_map)
    then show "fl ! m * d + rm ! m = n * ?ws ! m" "rm ! m < d" using dpos by simp_all
  qed
  define k where "k = n - sum_list fl"
  have "sum_list fl * d + sum_list rm = n * a + n * b + n * c"
    using share(1) [of 0] share(1) [of 1] share(1) [of 2] by (simp add: fl_def rm_def add_mult_distrib)
  then have total: "sum_list fl * d + sum_list rm = n * d" by (simp add: d_def add_mult_distrib2)
  then have "sum_list fl * d \<le> n * d" by linarith
  then have "sum_list fl \<le> n" using dpos by simp
  then have n: "n = sum_list fl + k" by (simp add: k_def)
  with total have rest: "sum_list rm = k * d" by (simp add: add_mult_distrib)
  have sum_rm: "sum_list rm = rm ! 0 + rm ! 1 + rm ! 2" by (simp add: rm_def)
  have "rm ! 0 < d" "rm ! 1 < d" "rm ! 2 < d" by (simp_all add: share)
  with sum_rm have "sum_list rm < 3 * d" by linarith
  then have k: "k < 3" unfolding rest by simp
  obtain i j l where order: "sort_key (\<lambda>i. (- int (rm ! i), i)) [0 ..< 3] = [i, j, l]" "{i, j, l} = {0, 1, 2}" "distinct [i, j, l]"
      "rm ! j \<le> rm ! i" "rm ! l \<le> rm ! j"
  proof (rule three_sorted [of "\<lambda>i. - int (rm ! i)"])
    fix i j l assume "sort_key (\<lambda>i. (- int (rm ! i), i)) [0 ..< 3] = [i, j, l]" "{i, j, l} = {0, 1, 2}" "distinct [i, j, l]"
      "- int (rm ! i) \<le> - int (rm ! j)" "- int (rm ! j) \<le> - int (rm ! l)"
    then show thesis unfolding neg_le_iff_le of_nat_le_iff by (rule that)
  qed
  have "i \<in> {0, 1, 2}" "j \<in> {0, 1, 2}" "l \<in> {0, 1, 2}" unfolding order(2) [symmetric] by simp_all
  then have idx: "i < 3" "j < 3" "l < 3" by auto
  have perm: "f i + f j + f l = f 0 + f 1 + f (2 :: nat)" for f :: "nat \<Rightarrow> nat"
  proof -
    have "f i + f j + f l = sum f {i, j, l}" using order(3) by simp
    also have "\<dots> = f 0 + f 1 + f 2" unfolding order(2) by simp
    finally show ?thesis .
  qed
  let ?top = "take k [i, j, l]"
  have counts: "share_counts n ?ws = foldl (\<lambda>fs i. fs[i := Suc (fs ! i)]) fl ?top"
    unfolding share_counts_def Let_def dw fl_def [symmetric] rm_def [symmetric] k_def [symmetric] order(1) ..
  have len: "length fl = 3" by (simp add: fl_def)
  show "length (share_counts n ?ws) = 3" unfolding counts by (simp add: len)
  have top: "distinct ?top" "set ?top \<subseteq> {..< length fl}" using order(3) idx k by (auto simp: len take_Cons' )
  have nth: "share_counts n ?ws ! m = fl ! m + (if m \<in> set ?top then 1 else 0)" if "m < 3" for m
    unfolding counts by (rule bump_all [OF top]) (simp add: len that)
  have cases_k: "k = 0 \<or> k = 1 \<or> k = 2" using k by auto
  have "sum_list (share_counts n ?ws) = share_counts n ?ws ! 0 + share_counts n ?ws ! 1 + share_counts n ?ws ! 2"
    by (rule three_sum) fact
  also have "\<dots> = share_counts n ?ws ! i + share_counts n ?ws ! j + share_counts n ?ws ! l" using perm [of "\<lambda>m. share_counts n ?ws ! m"] by simp
  also have "\<dots> = fl ! i + fl ! j + fl ! l + k"
    using cases_k order(3) by (auto simp: nth idx)
  also have "\<dots> = n" using perm [of "\<lambda>m. fl ! m"] n three_sum [OF len] by linarith
  finally show "sum_list (share_counts n ?ws) = n" .
  have pos: "0 < rm ! m" if "m \<in> set ?top" for m
  proof -
    have sum: "rm ! i + rm ! j + rm ! l = k * d" using perm [of "\<lambda>m. rm ! m"] rest sum_rm by linarith
    from dpos sum cases_k order(4,5) share(2) [OF idx(1)] have "0 < k \<Longrightarrow> 0 < rm ! i" "1 < k \<Longrightarrow> 0 < rm ! j" by auto
    with that cases_k show ?thesis by auto
  qed
  assume m: "m < 3"
  have "\<bar>int (fl ! m + (if m \<in> set ?top then 1 else 0)) * int d - int (fl ! m * d + rm ! m)\<bar> < int d"
    by (rule near_share [OF share(2) [OF m]]) (rule pos)
  then show "\<bar>int (share_counts n ?ws ! m) * int (a + b + c) - int (n * ?ws ! m)\<bar> < int (a + b + c)"
    unfolding nth [OF m] d_def [symmetric] share(1) [OF m, symmetric] .
qed

section \<open>Rows\<close>

text \<open>What the loop over the rows leaves.\<close>

definition rows_placed :: "(freeze_row \<Rightarrow> freeze_error + (string \<times> string) option) \<Rightarrow> freeze_state \<Rightarrow> freeze_row set \<Rightarrow> bool" where
  "rows_placed place st rows \<longleftrightarrow> (\<forall>r \<in> rows. place r = Inr (fs_family st (fz_id r))
       \<and> fs_assigned st (fz_id r) = (if fs_family st (fz_id r) = None then Some ''test'' else None))
     \<and> set (fs_families st) = {sf. \<exists>r \<in> rows. fs_family st (fz_id r) = Some sf}
     \<and> dom (fs_assigned st) \<union> dom (fs_family st) \<subseteq> fz_id ` rows \<and> distinct (fs_families st)"

lemma place_step_placed:
  assumes "rows_placed (row_place inp prior merged) st rows" and "fz_id r \<notin> fz_id ` rows" and "place_step inp prior merged st r = Inr st'"
  shows "rows_placed (row_place inp prior merged) st' (insert r rows)"
proof -
  from assms(3) obtain p where p: "row_place inp prior merged r = Inr p" by (auto simp: place_step_def)
  have old: "fz_id x \<noteq> fz_id r" if "x \<in> rows" for x using assms(2) that by (metis imageI)
  have none: "fs_assigned st (fz_id r) = None" "fs_family st (fz_id r) = None"
    using assms(1,2) unfolding rows_placed_def by blast+
  show ?thesis
  proof (cases p)
    case None
    with p assms(3) have st': "st' = st\<lparr>fs_assigned := (fs_assigned st)(fz_id r \<mapsto> ''test'')\<rparr>" by (simp add: place_step_def)
    have "{x. \<exists>y \<in> insert r rows. fs_family st' (fz_id y) = Some x} = {x. \<exists>y \<in> rows. fs_family st (fz_id y) = Some x}"
      using none unfolding st' by auto
    moreover have "\<forall>x \<in> insert r rows. row_place inp prior merged x = Inr (fs_family st' (fz_id x))
       \<and> fs_assigned st' (fz_id x) = (if fs_family st' (fz_id x) = None then Some ''test'' else None)"
      using assms(1) p None old none unfolding st' rows_placed_def by auto
    moreover have "dom (fs_assigned st') \<union> dom (fs_family st') \<subseteq> fz_id ` insert r rows"
      using assms(1) unfolding st' rows_placed_def by auto
    ultimately show ?thesis using assms(1) unfolding st' rows_placed_def by simp
  next
    case (Some sf)
    with p assms(3) have st': "st' = st\<lparr>fs_families := (if sf \<in> set (fs_families st) then fs_families st else fs_families st @ [sf]),
       fs_family := (fs_family st)(fz_id r \<mapsto> sf), fs_eligible := Suc (fs_eligible st)\<rparr>" by (simp add: place_step_def)
    have "set (fs_families st') = insert sf (set (fs_families st))" "distinct (fs_families st')"
      using assms(1) unfolding st' rows_placed_def by auto
    moreover have "{x. \<exists>y \<in> insert r rows. fs_family st' (fz_id y) = Some x} = insert sf {x. \<exists>y \<in> rows. fs_family st (fz_id y) = Some x}"
      using old unfolding st' by auto
    moreover have "\<forall>x \<in> insert r rows. row_place inp prior merged x = Inr (fs_family st' (fz_id x))
       \<and> fs_assigned st' (fz_id x) = (if fs_family st' (fz_id x) = None then Some ''test'' else None)"
      using assms(1) p Some old none unfolding st' rows_placed_def by auto
    moreover have "dom (fs_assigned st') \<union> dom (fs_family st') \<subseteq> fz_id ` insert r rows"
      using assms(1) unfolding st' rows_placed_def by auto
    ultimately show ?thesis using assms(1) unfolding rows_placed_def by auto
  qed
qed

lemma rows_fold: "foldE (place_step inp prior merged) st xs = Inr st' \<Longrightarrow> rows_placed (row_place inp prior merged) st rows
    \<Longrightarrow> distinct (map fz_id xs) \<Longrightarrow> fz_id ` set xs \<inter> fz_id ` rows = {} \<Longrightarrow> rows_placed (row_place inp prior merged) st' (rows \<union> set xs)"
proof (induction xs arbitrary: st rows)
  case (Cons r xs)
  from Cons.prems(1) obtain s where s: "place_step inp prior merged st r = Inr s" "foldE (place_step inp prior merged) s xs = Inr st'" by auto
  from Cons.prems(4) have new: "fz_id r \<notin> fz_id ` rows" by auto
  have "fz_id ` set xs \<inter> fz_id ` insert r rows = {}" using Cons.prems(3,4) by auto
  from Cons.IH [OF s(2) place_step_placed [OF Cons.prems(2) new s(1)] _ this] Cons.prems(3) show ?case by simp
qed simp

lemma rows_result:
  assumes "foldE (place_step inp prior merged) no_rows rows = Inr st" and "distinct (map fz_id rows)"
  shows "rows_placed (row_place inp prior merged) st (set rows)"
  using rows_fold [OF assms(1) _ assms(2), of "{}"] by (simp add: rows_placed_def no_rows_def)

lemma one_stratum_iff: "one_stratum families \<longleftrightarrow> (\<forall>s s' f. (s, f) \<in> set families \<longrightarrow> (s', f) \<in> set families \<longrightarrow> s' = s)"
  by (auto simp: one_stratum_def list_all_iff)

section \<open>Plans\<close>

lemma deal_names [simp]: "map fst (deal pinned t v i fs) = fs"
  by (induction fs arbitrary: i) (simp_all split: option.split)

lemma deal_pinned: "(f, s) \<in> set (deal pinned t v i fs) \<Longrightarrow> pinned f \<noteq> None \<Longrightarrow> pinned f = Some s"
  by (induction fs arbitrary: i) (auto split: option.splits)

lemma deal_splits: "(f, s) \<in> set (deal pinned t v i fs) \<Longrightarrow> pinned f = None \<Longrightarrow> s \<in> set dealt_splits"
  by (induction fs arbitrary: i) (auto simp: dealt_splits_def split: option.splits if_splits)

definition plan_count :: "(string \<times> string) list \<Rightarrow> string \<Rightarrow> nat" where
  "plan_count plan s = length (filter (\<lambda>(f, x). x = s) plan)"

definition pinned_count :: "(string \<Rightarrow> string option) \<Rightarrow> string option \<Rightarrow> string list \<Rightarrow> nat" where
  "pinned_count pinned s fs = length (filter (\<lambda>f. pinned f = s) fs)"

text \<open>The places that the families without a pin take.\<close>

definition places :: "(nat \<Rightarrow> bool) \<Rightarrow> nat \<Rightarrow> nat \<Rightarrow> nat" where
  "places P i k = length (filter P [i ..< i + k])"

lemma places_Suc: "places P i (Suc k) = (if P i then 1 else 0) + places P (Suc i) k"
proof -
  have "[i ..< i + Suc k] = i # [Suc i ..< Suc i + k]" by (simp add: upt_conv_Cons)
  then show ?thesis by (simp add: places_def)
qed

definition dealt :: "nat \<Rightarrow> nat \<Rightarrow> nat \<Rightarrow> string" where
  "dealt t v i = (if i < t then ''train'' else if i < t + v then ''validation'' else ''test'')"

lemma deal_counts: "plan_count (deal pinned t v i fs) s = pinned_count pinned (Some s) fs + places (\<lambda>j. dealt t v j = s) i (pinned_count pinned None fs)"
proof (induction fs arbitrary: i)
  case Nil
  show ?case by (simp add: plan_count_def pinned_count_def places_def)
next
  case (Cons f fs)
  show ?case
  proof (cases "pinned f")
    case None
    then have "deal pinned t v i (f # fs) = (f, dealt t v i) # deal pinned t v (Suc i) fs" by (simp add: dealt_def)
    moreover have "pinned_count pinned None (f # fs) = Suc (pinned_count pinned None fs)" "pinned_count pinned (Some s) (f # fs) = pinned_count pinned (Some s) fs"
      using None by (simp_all add: pinned_count_def)
    ultimately show ?thesis using Cons.IH [of "Suc i"] by (simp add: plan_count_def places_Suc)
  next
    case (Some x)
    then have "pinned_count pinned None (f # fs) = pinned_count pinned None fs" by (simp add: pinned_count_def)
    then show ?thesis using Cons.IH [of i] Some by (simp add: plan_count_def pinned_count_def)
  qed
qed

lemma deal_exact:
  assumes "t + v + w = pinned_count pinned None fs"
  shows "plan_count (deal pinned t v 0 fs) ''train'' = pinned_count pinned (Some ''train'') fs + t"
    and "plan_count (deal pinned t v 0 fs) ''validation'' = pinned_count pinned (Some ''validation'') fs + v"
    and "plan_count (deal pinned t v 0 fs) ''test'' = pinned_count pinned (Some ''test'') fs + w"
proof -
  have "[0 ..< t + v + w] = [0 ..< t] @ [t ..< t + v] @ [t + v ..< t + v + w]"
    by (metis append.assoc le_add1 le_add2 add.commute upt_add_eq_append zero_le)
  then have parts: "places P 0 (pinned_count pinned None fs)
      = length (filter P [0 ..< t]) + length (filter P [t ..< t + v]) + length (filter P [t + v ..< t + v + w])" for P
    by (simp add: places_def assms [symmetric])
  have all: "length (filter P xs) = length xs" if "\<And>j. j \<in> set xs \<Longrightarrow> P j" for P and xs :: "nat list" using that by (simp add: filter_True)
  have no: "length (filter P xs) = 0" if "\<And>j. j \<in> set xs \<Longrightarrow> \<not> P j" for P and xs :: "nat list" using that by (simp add: filter_False)
  have "length (filter (\<lambda>j. dealt t v j = ''train'') [0 ..< t]) = t" "length (filter (\<lambda>j. dealt t v j = ''train'') [t ..< t + v]) = 0"
    "length (filter (\<lambda>j. dealt t v j = ''train'') [t + v ..< t + v + w]) = 0"
    by (subst all; simp add: dealt_def) (subst no; simp add: dealt_def)+
  then show "plan_count (deal pinned t v 0 fs) ''train'' = pinned_count pinned (Some ''train'') fs + t" by (simp add: deal_counts parts)
  have "length (filter (\<lambda>j. dealt t v j = ''validation'') [t ..< t + v]) = v" "length (filter (\<lambda>j. dealt t v j = ''validation'') [0 ..< t]) = 0"
    "length (filter (\<lambda>j. dealt t v j = ''validation'') [t + v ..< t + v + w]) = 0"
    by (subst all; simp add: dealt_def) (subst no; simp add: dealt_def)+
  then show "plan_count (deal pinned t v 0 fs) ''validation'' = pinned_count pinned (Some ''validation'') fs + v" by (simp add: deal_counts parts)
  have "length (filter (\<lambda>j. dealt t v j = ''test'') [t + v ..< t + v + w]) = w" "length (filter (\<lambda>j. dealt t v j = ''test'') [0 ..< t]) = 0"
    "length (filter (\<lambda>j. dealt t v j = ''test'') [t ..< t + v]) = 0"
    by (subst all; simp add: dealt_def) (subst no; simp add: dealt_def)+
  then show "plan_count (deal pinned t v 0 fs) ''test'' = pinned_count pinned (Some ''test'') fs + w" by (simp add: deal_counts parts)
qed

text \<open>A plan keeps what is pinned and has the planned counts.\<close>

lemma plan_result:
  assumes "stratum_plan inp ws prior families stratum = Inr plan" and "length ws = 3"
  shows "map fst plan = names_of inp families stratum" and "m < 3 \<Longrightarrow> plan_count plan (dealt_splits ! m) = share_counts (length (names_of inp families stratum)) ws ! m"
    and "(f, s) \<in> set plan \<Longrightarrow> pr_families prior f = Some s \<or> pr_families prior f = None \<and> s \<in> set dealt_splits"
    and "f \<in> set (names_of inp families stratum) \<Longrightarrow> pr_families prior f \<noteq> None \<Longrightarrow> pr_strata prior f = Some stratum"
proof -
  let ?names = "names_of inp families stratum" and ?pin = "pr_families prior"
  let ?n = "length ?names"
  define left where "left i = int (share_counts ?n ws ! i) - int (length (filter (\<lambda>f. ?pin f = Some (dealt_splits ! i)) (filter (\<lambda>f. ?pin f \<noteq> None) ?names)))" for i
  have "length (filter (\<lambda>f. ?pin f = Some s) (filter (\<lambda>f. ?pin f \<noteq> None) fs)) = pinned_count ?pin (Some s) fs" for s fs
    by (induction fs) (auto simp: pinned_count_def)
  then have left: "left i = int (share_counts ?n ws ! i) - int (pinned_count ?pin (Some (dealt_splits ! i)) ?names)" for i by (simp add: left_def)
  from assms(1) have ok: "list_all (\<lambda>f. pr_strata prior f = Some stratum) (filter (\<lambda>f. ?pin f \<noteq> None) ?names)"
      "0 \<le> left 0" "0 \<le> left 1" "0 \<le> left 2" "left 0 + left 1 + left 2 = int ?n - int (length (filter (\<lambda>f. ?pin f \<noteq> None) ?names))"
      "plan = deal ?pin (nat (left 0)) (nat (left 1)) 0 ?names"
    unfolding stratum_plan_def Let_def left_def by (auto simp: list_ex_iff list_all_iff upt_conv_Cons numeral_3_eq_3 numeral_2_eq_2 split: if_splits)
  have free: "int ?n - int (length (filter (\<lambda>f. ?pin f \<noteq> None) ?names)) = int (pinned_count ?pin None ?names)"
    using sum_length_filter_compl [of "\<lambda>f. ?pin f = None" ?names] by (simp add: pinned_count_def)
  show "map fst plan = ?names" by (simp add: ok(6))
  show "(f, s) \<in> set plan \<Longrightarrow> ?pin f = Some s \<or> ?pin f = None \<and> s \<in> set dealt_splits"
    unfolding ok(6) using deal_pinned deal_splits by fastforce
  show "f \<in> set ?names \<Longrightarrow> ?pin f \<noteq> None \<Longrightarrow> pr_strata prior f = Some stratum"
    using ok(1) by (simp add: list_all_iff)
  have sum: "nat (left 0) + nat (left 1) + nat (left 2) = pinned_count ?pin None ?names" using ok(2-5) free by linarith
  note exact = deal_exact [OF sum, folded ok(6)]
  have "int (pinned_count ?pin (Some (dealt_splits ! i)) ?names) + left i = int (share_counts ?n ws ! i)" for i by (simp add: left)
  from this [of 0] this [of 1] this [of 2] ok(2-4) have counted: "int (plan_count plan (dealt_splits ! i)) = int (share_counts ?n ws ! i)" if "i \<in> {0, 1, 2}" for i
    using that by (auto simp: dealt_splits_def exact)
  assume "m < 3"
  then have "m \<in> {0, 1, 2}" by auto
  from counted [OF this] show "plan_count plan (dealt_splits ! m) = share_counts ?n ws ! m" by simp
qed

section \<open>Frozen splits\<close>

lemma strata_fold: "foldE (assign_stratum inp ws prior st) a strata = Inr a' \<Longrightarrow> distinct strata \<Longrightarrow>
    (\<forall>s \<in> set strata. \<exists>plan. stratum_plan inp ws prior (fs_families st) s = Inr plan
      \<and> (\<forall>d f. fs_family st d = Some (s, f) \<longrightarrow> f \<in> fst ` set plan \<longrightarrow> a' d = map_of plan f))
    \<and> (\<forall>d. fst ` set_option (fs_family st d) \<inter> set strata = {} \<longrightarrow> a' d = a d)"
proof (induction strata arbitrary: a)
  case (Cons s strata)
  from Cons.prems(1) obtain b where b: "assign_stratum inp ws prior st a s = Inr b" "foldE (assign_stratum inp ws prior st) b strata = Inr a'" by auto
  from b(1) obtain plan where plan: "stratum_plan inp ws prior (fs_families st) s = Inr plan"
      "b = (\<lambda>d. case fs_family st d of Some (s', f) \<Rightarrow> if s' = s \<and> map_of plan f \<noteq> None then map_of plan f else a d | None \<Rightarrow> a d)"
    by (auto simp: assign_stratum_def)
  from Cons.IH [OF b(2)] Cons.prems(2) have
    ih: "\<forall>s \<in> set strata. \<exists>plan. stratum_plan inp ws prior (fs_families st) s = Inr plan
      \<and> (\<forall>d f. fs_family st d = Some (s, f) \<longrightarrow> f \<in> fst ` set plan \<longrightarrow> a' d = map_of plan f)"
    and other: "\<And>d. fst ` set_option (fs_family st d) \<inter> set strata = {} \<Longrightarrow> a' d = b d" by simp_all
  have "a' d = map_of plan f" if "fs_family st d = Some (s, f)" "f \<in> fst ` set plan" for d f
    using other [of d] that Cons.prems(2) by (auto simp: plan(2) map_of_eq_None_iff)
  moreover have "a' d = a d" if "fst ` set_option (fs_family st d) \<inter> set (s # strata) = {}" for d
    using other [of d] that by (auto simp: plan(2) split: option.splits)
  ultimately show ?case using ih plan(1) by (auto simp del: not_None_eq)
qed simp

lemma content_fold: "foldE (check_content prior st assigned) seen rows = Inr seen' \<Longrightarrow>
    (\<forall>c. seen c \<noteq> None \<longrightarrow> seen' c = seen c)
    \<and> (\<forall>row \<in> set rows. fs_family st (fz_id row) \<noteq> None \<longrightarrow> assigned (fz_id row) \<noteq> None \<and> seen' (fz_content row) = assigned (fz_id row)
        \<and> (\<forall>f s. pr_content prior (fz_content row) = Some (f, s) \<longrightarrow> assigned (fz_id row) = Some s))"
proof (induction rows arbitrary: seen)
  case (Cons row rows)
  from Cons.prems obtain mid where mid: "check_content prior st assigned seen row = Inr mid" "foldE (check_content prior st assigned) mid rows = Inr seen'" by auto
  note ih = Cons.IH [OF mid(2)]
  from mid(1) obtain s where s: "assigned (fz_id row) = Some s" by (auto simp: check_content_def split: option.splits)
  show ?case
  proof (cases "fs_family st (fz_id row) = None")
    case True
    with mid(1) s have "mid = seen" by (simp add: check_content_def)
    with ih True show ?thesis by simp
  next
    case False
    with mid(1) s have step: "seen (fz_content row) \<in> {None, Some s}" "mid = seen(fz_content row \<mapsto> s)"
      "\<forall>f s'. pr_content prior (fz_content row) = Some (f, s') \<longrightarrow> s' = s"
      by (auto simp: check_content_def split: if_splits option.splits)
    then have "seen' (fz_content row) = Some s" using ih by simp
    with step s ih show ?thesis by auto
  qed
qed simp

text \<open>What an accepted earlier inventory pins.\<close>

definition pins :: "prior_state \<Rightarrow> family_row option set \<Rightarrow> bool" where
  "pins p rows \<longleftrightarrow> (\<forall>iv. Some iv \<in> rows \<longrightarrow> pr_families p (iv_family iv) = Some (iv_split iv) \<and> pr_content p (iv_content iv) = Some (iv_family iv, iv_split iv))
     \<and> ran (pr_families p) \<subseteq> set dealt_splits"

lemma prior_row_Inr:
  assumes "prior_row kept p row = Inr p'"
  obtains iv where "row = Some iv" "pr_families p (iv_family iv) \<in> {None, Some (iv_split iv)}" "iv_split iv \<in> set dealt_splits"
    "pr_content p (iv_content iv) \<in> {None, Some (iv_family iv, iv_split iv)}" "pr_families p' = (pr_families p)(iv_family iv \<mapsto> iv_split iv)"
    "pr_content p' = (pr_content p)(iv_content iv \<mapsto> (iv_family iv, iv_split iv))"
  using assms by (cases row) (auto simp: prior_row_def split: if_splits option.splits)

lemma prior_row_pins:
  assumes "prior_row kept p row = Inr p'" and "pins p rows"
  shows "pins p' (insert row rows)"
proof (rule prior_row_Inr [OF assms(1)])
  fix iv assume iv: "row = Some iv" "pr_families p (iv_family iv) \<in> {None, Some (iv_split iv)}" "iv_split iv \<in> set dealt_splits"
    "pr_content p (iv_content iv) \<in> {None, Some (iv_family iv, iv_split iv)}" "pr_families p' = (pr_families p)(iv_family iv \<mapsto> iv_split iv)"
    "pr_content p' = (pr_content p)(iv_content iv \<mapsto> (iv_family iv, iv_split iv))"
  have "pr_families p' (iv_family x) = Some (iv_split x) \<and> pr_content p' (iv_content x) = Some (iv_family x, iv_split x)" if "Some x \<in> insert row rows" for x
  proof (cases "x = iv")
    case True
    then show ?thesis by (simp add: iv(5,6))
  next
    case False
    with that iv(1) assms(2) have old: "pr_families p (iv_family x) = Some (iv_split x)" "pr_content p (iv_content x) = Some (iv_family x, iv_split x)"
      by (auto simp: pins_def)
    then show ?thesis using iv(2,4) by (auto simp: iv(5,6))
  qed
  moreover have "ran (pr_families p') \<subseteq> set dealt_splits"
    using assms(2) iv(3) unfolding iv(5) pins_def by (auto simp: ran_def split: if_splits)
  ultimately show ?thesis by (simp add: pins_def)
qed

lemma prior_fold: "foldE (prior_row kept) p rows = Inr p' \<Longrightarrow> pins p seen \<Longrightarrow> pins p' (seen \<union> set rows)"
proof (induction rows arbitrary: p seen)
  case (Cons row rows)
  from Cons.prems(1) obtain q where q: "prior_row kept p row = Inr q" "foldE (prior_row kept) q rows = Inr p'" by auto
  from Cons.IH [OF q(2) prior_row_pins [OF q(1) Cons.prems(2)]] show ?case by simp
qed simp

lemma prior_pins: "prior_family_splits prior = Inr p \<Longrightarrow> pins p (case prior of None \<Rightarrow> {} | Some (docs, rows) \<Rightarrow> set rows)"
proof (cases prior)
  case None
  assume "prior_family_splits prior = Inr p"
  with None have "p = no_prior" by (simp add: prior_family_splits_def)
  then show ?thesis by (simp add: None pins_def no_prior_def)
next
  case (Some x)
  obtain docs rows where x: "x = (docs, rows)" by (cases x)
  assume "prior_family_splits prior = Inr p"
  then have "foldE (prior_row (filter (\<lambda>d. \<not> md_dropped d) docs)) no_prior rows = Inr p"
    by (auto simp: Some x prior_family_splits_def Let_def split: if_splits)
  moreover have "pins no_prior {}" by (simp add: pins_def no_prior_def)
  ultimately show ?thesis using prior_fold by (fastforce simp: Some x)
qed

lemma freeze_parts:
  assumes "freeze_splits inp = Inr r"
  obtains ws prior merged st where "split_weights (fi_weights inp) = Inr ws" "prior_family_splits (fi_prior inp) = Inr prior"
    "strata_ok inp" "distinct (map fz_id (fi_rows inp))" "foldE (add_merge (fz_hint ` set (fi_rows inp))) Map.empty (fi_merges inp) = Inr merged"
    "foldE (place_step inp prior merged) no_rows (fi_rows inp) = Inr st" "one_stratum (fs_families st)" "fr_family r = fs_family st"
    "foldE (assign_stratum inp ws prior st) (fs_assigned st) (sort (remdups (map snd (fi_strata inp)))) = Inr (fr_assigned r)"
    "\<forall>row \<in> set (fi_rows inp). fr_assigned r (fz_id row) \<noteq> None"
    "\<exists>seen. foldE (check_content prior st (fr_assigned r)) Map.empty (fi_rows inp) = Inr seen"
    "fr_candidates r = candidates_of st (fr_assigned r) (fi_rows inp)"
  using assms by (auto simp: freeze_splits_def Let_def list_ex_iff split: if_splits intro: that)

lemma split_weights_three: "split_weights w = Inr ws \<Longrightarrow> \<exists>a b c. ws = [a, b, c] \<and> 0 < a + b + c"
  by (auto simp: split_weights_def split: option.splits if_splits)

lemma row_place_stratum: "row_place inp prior merged row = Inr (Some (s, f)) \<Longrightarrow> map_of (fi_strata inp) (fz_source row) = Some s
    \<and> (\<exists>hint. fz_hint row = Some hint \<and> f = (case merged (Some hint) of Some f \<Rightarrow> f | None \<Rightarrow> hint))
    \<and> (\<forall>f' s'. pr_content prior (fz_content row) = Some (f', s') \<longrightarrow> f' = f)"
  by (auto simp: row_place_def Let_def split: if_splits option.splits)

lemma names_set: "set (names_of inp families s) = {f. (s, f) \<in> set families}"
  by (force simp: names_of_def)

lemma names_distinct: "distinct families \<Longrightarrow> distinct (names_of inp families s)"
  by (auto simp: names_of_def distinct_map inj_on_def)

text \<open>The dealing that a result rests on.\<close>

lemma freeze_dealing:
  assumes "freeze_splits inp = Inr r"
  obtains ws prior merged families plan where "split_weights (fi_weights inp) = Inr ws" "prior_family_splits (fi_prior inp) = Inr prior"
    "\<And>row. row \<in> set (fi_rows inp) \<Longrightarrow> row_place inp prior merged row = Inr (fr_family r (fz_id row))"
    "foldE (add_merge (fz_hint ` set (fi_rows inp))) Map.empty (fi_merges inp) = Inr merged"
    "\<And>s. s \<in> snd ` set (fi_strata inp) \<Longrightarrow> stratum_plan inp ws prior families s = Inr (plan s)"
    "\<And>row. row \<in> set (fi_rows inp) \<Longrightarrow> fr_family r (fz_id row) = None \<Longrightarrow> fr_assigned r (fz_id row) = Some ''test''"
    "\<And>row s f. row \<in> set (fi_rows inp) \<Longrightarrow> fr_family r (fz_id row) = Some (s, f) \<Longrightarrow> s \<in> snd ` set (fi_strata inp) \<and> f \<in> fst ` set (plan s)
      \<and> fr_assigned r (fz_id row) = map_of (plan s) f"
    "distinct families" "one_stratum families" "set families = {sf. \<exists>row \<in> set (fi_rows inp). fr_family r (fz_id row) = Some sf}"
proof (rule freeze_parts [OF assms])
  fix ws prior merged st
  assume parts: "split_weights (fi_weights inp) = Inr ws" "prior_family_splits (fi_prior inp) = Inr prior"
    "strata_ok inp" "distinct (map fz_id (fi_rows inp))" "foldE (add_merge (fz_hint ` set (fi_rows inp))) Map.empty (fi_merges inp) = Inr merged"
    "foldE (place_step inp prior merged) no_rows (fi_rows inp) = Inr st" "one_stratum (fs_families st)" "fr_family r = fs_family st"
    "foldE (assign_stratum inp ws prior st) (fs_assigned st) (sort (remdups (map snd (fi_strata inp)))) = Inr (fr_assigned r)"
  let ?strata = "sort (remdups (map snd (fi_strata inp)))"
  from rows_result [OF parts(6,4)] have placed: "rows_placed (row_place inp prior merged) st (set (fi_rows inp))" .
  have strata: "set ?strata = snd ` set (fi_strata inp)" by simp
  from strata_fold [OF parts(9)] have
    dealt: "\<forall>s \<in> snd ` set (fi_strata inp). \<exists>plan. stratum_plan inp ws prior (fs_families st) s = Inr plan
      \<and> (\<forall>d f. fs_family st d = Some (s, f) \<longrightarrow> f \<in> fst ` set plan \<longrightarrow> fr_assigned r d = map_of plan f)"
    and other: "\<And>d. fst ` set_option (fs_family st d) \<inter> snd ` set (fi_strata inp) = {} \<Longrightarrow> fr_assigned r d = fs_assigned st d"
    unfolding strata by simp_all
  from bchoice [OF dealt] obtain plan where plan: "\<forall>s \<in> snd ` set (fi_strata inp). stratum_plan inp ws prior (fs_families st) s = Inr (plan s)
      \<and> (\<forall>d f. fs_family st d = Some (s, f) \<longrightarrow> f \<in> fst ` set (plan s) \<longrightarrow> fr_assigned r d = map_of (plan s) f)" by blast
  obtain a b c where ws: "ws = [a, b, c]" using split_weights_three [OF parts(1)] by blast
  have names: "fst ` set (plan s) = {f. (s, f) \<in> set (fs_families st)}" if "s \<in> snd ` set (fi_strata inp)" for s
  proof -
    from plan that have "stratum_plan inp ws prior (fs_families st) s = Inr (plan s)" by blast
    from plan_result(1) [OF this] have "map fst (plan s) = names_of inp (fs_families st) s" by (simp add: ws)
    then show ?thesis using names_set by (metis list.set_map)
  qed
  have place: "row_place inp prior merged row = Inr (fr_family r (fz_id row))" if "row \<in> set (fi_rows inp)" for row
    using placed that unfolding parts(8) rows_placed_def by blast
  have member: "s \<in> snd ` set (fi_strata inp) \<and> f \<in> fst ` set (plan s) \<and> fr_assigned r (fz_id row) = map_of (plan s) f"
    if row: "row \<in> set (fi_rows inp)" "fr_family r (fz_id row) = Some (s, f)" for row s f
  proof -
    from place [OF row(1)] row(2) row_place_stratum have "map_of (fi_strata inp) (fz_source row) = Some s" by metis
    from map_of_SomeD [OF this] have s: "s \<in> snd ` set (fi_strata inp)" by force
    have "(s, f) \<in> set (fs_families st)" using placed row unfolding parts(8) rows_placed_def by blast
    with names [OF s] have "f \<in> fst ` set (plan s)" by simp
    with s plan row(2) show ?thesis unfolding parts(8) by blast
  qed
  have excluded: "fr_assigned r (fz_id row) = Some ''test''" if "row \<in> set (fi_rows inp)" "fr_family r (fz_id row) = None" for row
    using other [of "fz_id row"] placed that unfolding parts(8) rows_placed_def by simp
  have planned: "stratum_plan inp ws prior (fs_families st) s = Inr (plan s)" if "s \<in> snd ` set (fi_strata inp)" for s
    using plan that by blast
  have fams: "set (fs_families st) = {sf. \<exists>row \<in> set (fi_rows inp). fr_family r (fz_id row) = Some sf}" "distinct (fs_families st)"
    using placed unfolding parts(8) rows_placed_def by blast+
  show thesis by (rule that) (fact parts place planned excluded member fams)+
qed

text \<open>
  What the inputs say of a row: the admission qualifies it, by the decision on its file or on the row, and the reviewed merges, or else
  its own hint, name its family.
\<close>

definition row_qualifies :: "freeze_input \<Rightarrow> freeze_row \<Rightarrow> bool" where
  "row_qualifies inp row \<longleftrightarrow> (case fi_admitted inp (fz_source row, takeWhile (\<lambda>c. c \<noteq> CHR ''#'') (fz_location row)) of
     None \<Rightarrow> False
   | Some (FileDecision s) \<Rightarrow> s = ''qualify''
   | Some (RowDecisions f) \<Rightarrow> f (fz_index row) = Some ''qualify'')"

definition reviewed_family :: "freeze_input \<Rightarrow> freeze_row \<Rightarrow> string \<Rightarrow> bool" where
  "reviewed_family inp row f \<longleftrightarrow> (\<exists>members. Some (f, members) \<in> set (fi_merges inp) \<and> fz_hint row \<in> set members)
     \<or> fz_hint row = Some f \<and> (\<forall>g members. Some (g, members) \<in> set (fi_merges inp) \<longrightarrow> Some f \<notin> set members)"

lemma merged_members: "foldl (\<lambda>m h. m(h \<mapsto> f)) m hs x = (if x \<in> set hs then Some f else m x)"
  by (induction hs arbitrary: m) simp_all

lemma merges_members: "foldE (add_merge hints) m ms = Inr m' \<Longrightarrow> m' h = Some f \<longleftrightarrow> m h = Some f \<or> (\<exists>members. Some (f, members) \<in> set ms \<and> h \<in> set members)"
proof (induction ms arbitrary: m)
  case (Cons x ms)
  from Cons.prems obtain mid where mid: "add_merge hints m x = Inr mid" "foldE (add_merge hints) mid ms = Inr m'" by auto
  from mid(1) obtain g members where x: "x = Some (g, members)" "mid = foldl (\<lambda>m h. m(h \<mapsto> g)) m members" "\<forall>h \<in> set members. m h = None"
    by (auto simp: add_merge_def list_ex_iff split: option.splits if_splits)
  have "mid h = Some f \<longleftrightarrow> m h = Some f \<or> f = g \<and> h \<in> set members" using x(3) by (auto simp: x(2) merged_members)
  then show ?case using Cons.IH [OF mid(2)] by (auto simp: x(1))
qed simp

lemma row_place_qualifies:
  assumes "row_place inp prior merged row = Inr p"
  shows "row_qualifies inp row \<longleftrightarrow> p \<noteq> None"
proof -
  from assms obtain d where d: "admission_state inp row = Inr d" by (auto simp: row_place_def)
  then have "row_qualifies inp row \<longleftrightarrow> d = ''qualify''"
    by (auto simp: row_qualifies_def admission_state_def split: option.splits freeze_decision.splits)
  with assms d show ?thesis by (auto simp: row_place_def Let_def split: if_splits option.splits)
qed

lemma row_place_placed:
  assumes "row_place inp prior merged row = Inr p" and "foldE (add_merge hints) Map.empty (fi_merges inp) = Inr merged"
  shows "p = Some (s, f) \<longleftrightarrow> row_qualifies inp row \<and> map_of (fi_strata inp) (fz_source row) = Some s \<and> reviewed_family inp row f"
proof -
  from assms(1) obtain d where d: "admission_state inp row = Inr d" by (auto simp: row_place_def)
  have quals: "row_qualifies inp row \<longleftrightarrow> d = ''qualify''"
    using d by (auto simp: row_qualifies_def admission_state_def split: option.splits freeze_decision.splits)
  show ?thesis
  proof (cases "d = ''qualify''")
    case False
    with assms(1) d quals show ?thesis by (auto simp: row_place_def)
  next
    case True
    with assms(1) d obtain hint stratum where here: "fz_hint row = Some hint" "map_of (fi_strata inp) (fz_source row) = Some stratum"
        "p = Some (stratum, case merged (Some hint) of Some f \<Rightarrow> f | None \<Rightarrow> hint)"
      by (auto simp: row_place_def Let_def split: if_splits option.splits)
    have merge: "(\<exists>members. Some (g, members) \<in> set (fi_merges inp) \<and> Some hint \<in> set members) \<longleftrightarrow> merged (Some hint) = Some g" for g
      by (simp add: merges_members [OF assms(2)])
    then have alone: "(\<forall>g members. Some (g, members) \<in> set (fi_merges inp) \<longrightarrow> Some hint \<notin> set members) \<longleftrightarrow> merged (Some hint) = None"
      by (metis not_Some_eq)
    have "reviewed_family inp row f \<longleftrightarrow> merged (Some hint) = Some f \<or> hint = f \<and> merged (Some hint) = None"
      unfolding reviewed_family_def here(1) merge using alone by (cases "hint = f") simp_all
    then have "reviewed_family inp row f \<longleftrightarrow> f = (case merged (Some hint) of Some f \<Rightarrow> f | None \<Rightarrow> hint)"
      by (auto split: option.splits)
    then show ?thesis using True quals here by auto
  qed
qed

text \<open>The family of a row in the result is the one that the inputs name.\<close>

lemma freeze_family:
  assumes "freeze_splits inp = Inr r" and "a \<in> set (fi_rows inp)"
  shows "fr_family r (fz_id a) = Some (s, f) \<longleftrightarrow> row_qualifies inp a \<and> map_of (fi_strata inp) (fz_source a) = Some s \<and> reviewed_family inp a f"
proof (rule freeze_dealing [OF assms(1)])
  fix prior merged
  assume "\<And>row. row \<in> set (fi_rows inp) \<Longrightarrow> row_place inp prior merged row = Inr (fr_family r (fz_id row))"
    and "foldE (add_merge (fz_hint ` set (fi_rows inp))) Map.empty (fi_merges inp) = Inr merged"
  then show ?thesis using row_place_placed assms(2) by blast
qed

lemma freeze_placed:
  assumes "freeze_splits inp = Inr r" and "a \<in> set (fi_rows inp)" and "fr_family r (fz_id a) \<noteq> None"
  obtains s f where "fr_family r (fz_id a) = Some (s, f)" "\<And>g. reviewed_family inp a g \<longleftrightarrow> g = f"
proof -
  obtain s f where fam: "fr_family r (fz_id a) = Some (s, f)" using assms(3) by auto
  note here = freeze_family [OF assms(1,2), of s, unfolded fam]
  have "reviewed_family inp a g \<longleftrightarrow> g = f" for g using here [of f] here [of g] by auto
  with fam show thesis by (rule that)
qed

lemma freeze_qualified:
  assumes "freeze_splits inp = Inr r" and "a \<in> set (fi_rows inp)"
  shows "row_qualifies inp a \<longleftrightarrow> fr_family r (fz_id a) \<noteq> None"
proof (rule freeze_dealing [OF assms(1)])
  fix prior merged
  assume "\<And>row. row \<in> set (fi_rows inp) \<Longrightarrow> row_place inp prior merged row = Inr (fr_family r (fz_id row))"
  then have "row_place inp prior merged a = Inr (fr_family r (fz_id a))" using assms(2) by blast
  then show ?thesis by (rule row_place_qualifies)
qed

lemma content_once:
  assumes "freeze_splits inp = Inr r" and "a \<in> set (fi_rows inp)" and "b \<in> set (fi_rows inp)" and "fr_family r (fz_id a) \<noteq> None" and "fr_family r (fz_id b) \<noteq> None"
    and "fz_content a = fz_content b"
  shows "fr_assigned r (fz_id a) = fr_assigned r (fz_id b)"
proof (rule freeze_parts [OF assms(1)])
  fix ws prior merged st
  assume st: "fr_family r = fs_family st" and "\<exists>seen. foldE (check_content prior st (fr_assigned r)) Map.empty (fi_rows inp) = Inr seen"
  then obtain seen where "foldE (check_content prior st (fr_assigned r)) Map.empty (fi_rows inp) = Inr seen" by blast
  from content_fold [OF this] have "fr_assigned r (fz_id x) = seen (fz_content x)" if "x \<in> set (fi_rows inp)" "fr_family r (fz_id x) \<noteq> None" for x
    using that by (simp add: st)
  with assms(2-6) show ?thesis by metis
qed

lemma family_once:
  assumes "freeze_splits inp = Inr r" and "a \<in> set (fi_rows inp)" and "b \<in> set (fi_rows inp)"
    and "fr_family r (fz_id a) = Some (s, f)" and "fr_family r (fz_id b) = Some (s', f)"
  shows "fr_family r (fz_id a) = fr_family r (fz_id b) \<and> fr_assigned r (fz_id a) = fr_assigned r (fz_id b)"
proof (rule freeze_dealing [OF assms(1)])
  fix families plan
  assume member: "\<And>row s f. row \<in> set (fi_rows inp) \<Longrightarrow> fr_family r (fz_id row) = Some (s, f) \<Longrightarrow> s \<in> snd ` set (fi_strata inp)
      \<and> f \<in> fst ` set (plan s) \<and> fr_assigned r (fz_id row) = map_of (plan s) f"
    and one: "one_stratum families" and fams: "set families = {sf. \<exists>row \<in> set (fi_rows inp). fr_family r (fz_id row) = Some sf}"
  note fam = assms(4,5)
  then have "(s, f) \<in> set families" "(s', f) \<in> set families" using assms(2,3) unfolding fams by blast+
  with one have "s' = s" unfolding one_stratum_iff by blast
  then show ?thesis using fam member [OF assms(2) fam(1)] member [OF assms(3) fam(2)] by simp
qed

lemma freeze_pinned:
  assumes "freeze_splits inp = Inr r" and "fi_prior inp = Some (docs, old)" and "Some iv \<in> set old" and "a \<in> set (fi_rows inp)"
    and "fr_family r (fz_id a) = Some (s, f)" and "f = iv_family iv \<or> fz_content a = iv_content iv"
  shows "fr_assigned r (fz_id a) = Some (iv_split iv)"
proof (rule freeze_dealing [OF assms(1)])
  fix ws prior merged families plan
  assume ws: "split_weights (fi_weights inp) = Inr ws" and prior: "prior_family_splits (fi_prior inp) = Inr prior"
    and place: "\<And>row. row \<in> set (fi_rows inp) \<Longrightarrow> row_place inp prior merged row = Inr (fr_family r (fz_id row))"
    and planned: "\<And>s. s \<in> snd ` set (fi_strata inp) \<Longrightarrow> stratum_plan inp ws prior families s = Inr (plan s)"
    and member: "\<And>row s f. row \<in> set (fi_rows inp) \<Longrightarrow> fr_family r (fz_id row) = Some (s, f) \<Longrightarrow> s \<in> snd ` set (fi_strata inp)
      \<and> f \<in> fst ` set (plan s) \<and> fr_assigned r (fz_id row) = map_of (plan s) f"
  from prior_pins [OF prior] assms(2,3) have pin: "pr_families prior (iv_family iv) = Some (iv_split iv)"
      "pr_content prior (iv_content iv) = Some (iv_family iv, iv_split iv)" by (auto simp: pins_def)
  note fam = assms(5)
  from place [OF assms(4)] have here: "row_place inp prior merged a = Inr (Some (s, f))" unfolding fam .
  have f: "f = iv_family iv"
    using assms(6) row_place_stratum [OF here] pin(2) by auto
  from member [OF assms(4) fam] have s: "s \<in> snd ` set (fi_strata inp)" and "f \<in> fst ` set (plan s)" and a: "fr_assigned r (fz_id a) = map_of (plan s) f" by simp_all
  then obtain x where x: "map_of (plan s) f = Some x" by (metis not_None_eq map_of_eq_None_iff)
  obtain a' b' c' where three: "ws = [a', b', c']" using split_weights_three [OF ws] by blast
  from plan_result(3) [OF planned [OF s] _ map_of_SomeD [OF x]] pin(1) have "x = iv_split iv" by (simp add: three f)
  then show ?thesis by (simp add: a x)
qed

lemma freeze_total:
  assumes "freeze_splits inp = Inr r" and "a \<in> set (fi_rows inp)"
  shows "(fr_family r (fz_id a) = None \<longrightarrow> fr_assigned r (fz_id a) = Some ''test'') \<and> (\<exists>s \<in> set dealt_splits. fr_assigned r (fz_id a) = Some s)"
proof (rule freeze_dealing [OF assms(1)])
  fix ws prior merged families plan
  assume ws: "split_weights (fi_weights inp) = Inr ws" and prior: "prior_family_splits (fi_prior inp) = Inr prior"
    and planned: "\<And>s. s \<in> snd ` set (fi_strata inp) \<Longrightarrow> stratum_plan inp ws prior families s = Inr (plan s)"
    and excluded: "\<And>row. row \<in> set (fi_rows inp) \<Longrightarrow> fr_family r (fz_id row) = None \<Longrightarrow> fr_assigned r (fz_id row) = Some ''test''"
    and member: "\<And>row s f. row \<in> set (fi_rows inp) \<Longrightarrow> fr_family r (fz_id row) = Some (s, f) \<Longrightarrow> s \<in> snd ` set (fi_strata inp)
      \<and> f \<in> fst ` set (plan s) \<and> fr_assigned r (fz_id row) = map_of (plan s) f"
  show ?thesis
  proof (cases "fr_family r (fz_id a)")
    case None
    with excluded [OF assms(2)] show ?thesis by (simp add: dealt_splits_def)
  next
    case (Some sf)
    obtain s f where sf: "sf = (s, f)" by (cases sf)
    from member [OF assms(2) Some [unfolded sf]] have s: "s \<in> snd ` set (fi_strata inp)" and "f \<in> fst ` set (plan s)"
      and a: "fr_assigned r (fz_id a) = map_of (plan s) f" by simp_all
    then obtain x where x: "map_of (plan s) f = Some x" by (metis not_None_eq map_of_eq_None_iff)
    obtain a' b' c' where three: "ws = [a', b', c']" using split_weights_three [OF ws] by blast
    from plan_result(3) [OF planned [OF s] _ map_of_SomeD [OF x]] have "pr_families prior f = Some x \<or> x \<in> set dealt_splits" by (auto simp: three)
    moreover have "ran (pr_families prior) \<subseteq> set dealt_splits" using prior_pins [OF prior] by (simp add: pins_def)
    ultimately have "x \<in> set dealt_splits" by (auto simp: ran_def)
    then show ?thesis using a x Some by simp
  qed
qed

text \<open>
  C3. Frozen splits do not leak. When the splits are frozen, every document of the inventory has one split. A document takes part
  exactly if the admission qualifies it, with the stratum of its source and the family that the reviewed merges, or else its own hint,
  name; a document that is not qualified is held out; two qualified documents of one reviewed family, or of one content, have
  the same split; and what the earlier release had in a split, by family or by content, stays there.
\<close>

theorem frozen_splits_never_leak:
  assumes "freeze_splits inp = Inr r" and "a \<in> set (fi_rows inp)" and "b \<in> set (fi_rows inp)"
  shows "(\<exists>s \<in> set dealt_splits. fr_assigned r (fz_id a) = Some s)
    \<and> (\<forall>s f. fr_family r (fz_id a) = Some (s, f) \<longleftrightarrow>
        row_qualifies inp a \<and> map_of (fi_strata inp) (fz_source a) = Some s \<and> reviewed_family inp a f)
    \<and> (row_qualifies inp a \<longrightarrow> (\<exists>f. reviewed_family inp a f))
    \<and> (\<not> row_qualifies inp a \<longrightarrow> fr_assigned r (fz_id a) = Some ''test'')
    \<and> (\<forall>f. row_qualifies inp a \<and> row_qualifies inp b \<and> reviewed_family inp a f \<and> reviewed_family inp b f
        \<longrightarrow> fr_assigned r (fz_id a) = fr_assigned r (fz_id b))
    \<and> (row_qualifies inp a \<and> row_qualifies inp b \<and> fz_content a = fz_content b \<longrightarrow> fr_assigned r (fz_id a) = fr_assigned r (fz_id b))
    \<and> (\<forall>docs old iv. fi_prior inp = Some (docs, old) \<and> Some iv \<in> set old \<and> row_qualifies inp a
          \<and> (reviewed_family inp a (iv_family iv) \<or> fz_content a = iv_content iv)
        \<longrightarrow> fr_assigned r (fz_id a) = Some (iv_split iv))"
proof -
  note quals = freeze_qualified [OF assms(1,2)] freeze_qualified [OF assms(1,3)]
  have family: "fr_assigned r (fz_id a) = fr_assigned r (fz_id b)"
    if qual: "row_qualifies inp a" "row_qualifies inp b" and f: "reviewed_family inp a f" "reviewed_family inp b f" for f
  proof (rule freeze_placed [OF assms(1,2) quals(1) [THEN iffD1, OF qual(1)]])
    fix s g assume a: "fr_family r (fz_id a) = Some (s, g)" "\<And>h. reviewed_family inp a h \<longleftrightarrow> h = g"
    show ?thesis
    proof (rule freeze_placed [OF assms(1,3) quals(2) [THEN iffD1, OF qual(2)]])
      fix s' g' assume b: "fr_family r (fz_id b) = Some (s', g')" "\<And>h. reviewed_family inp b h \<longleftrightarrow> h = g'"
      show ?thesis using family_once [OF assms a(1), of s'] b(1) f unfolding a(2) b(2) by simp
    qed
  qed
  have prior: "fr_assigned r (fz_id a) = Some (iv_split iv)"
    if old: "fi_prior inp = Some (docs, old)" "Some iv \<in> set old" and qual: "row_qualifies inp a"
      and same: "reviewed_family inp a (iv_family iv) \<or> fz_content a = iv_content iv" for docs old iv
  proof (rule freeze_placed [OF assms(1,2) quals(1) [THEN iffD1, OF qual]])
    fix s f assume a: "fr_family r (fz_id a) = Some (s, f)" "\<And>h. reviewed_family inp a h \<longleftrightarrow> h = f"
    show ?thesis using freeze_pinned [OF assms(1) old assms(2) a(1)] same unfolding a(2) by blast
  qed
  have named: "\<exists>f. reviewed_family inp a f" if "row_qualifies inp a"
    by (rule freeze_placed [OF assms(1,2) quals(1) [THEN iffD1, OF that]]) blast
  show ?thesis
  proof (intro conjI)
    show "\<forall>s f. fr_family r (fz_id a) = Some (s, f) \<longleftrightarrow>
        row_qualifies inp a \<and> map_of (fi_strata inp) (fz_source a) = Some s \<and> reviewed_family inp a f"
      using freeze_family [OF assms(1,2)] by blast
    show "row_qualifies inp a \<and> row_qualifies inp b \<and> fz_content a = fz_content b \<longrightarrow> fr_assigned r (fz_id a) = fr_assigned r (fz_id b)"
      using content_once [OF assms] quals by blast
  qed (use freeze_total [OF assms(1,2)] quals(1) family prior named in blast)+
qed

section \<open>Fair shares\<close>

definition families_in :: "freeze_input \<Rightarrow> frozen \<Rightarrow> string \<Rightarrow> string set" where
  "families_in inp r stratum = {f. \<exists>row \<in> set (fi_rows inp). fr_family r (fz_id row) = Some (stratum, f)}"

definition families_split :: "freeze_input \<Rightarrow> frozen \<Rightarrow> string \<Rightarrow> string \<Rightarrow> string set" where
  "families_split inp r stratum s = {f. \<exists>row \<in> set (fi_rows inp). fr_family r (fz_id row) = Some (stratum, f) \<and> fr_assigned r (fz_id row) = Some s}"

lemma plan_count_card:
  assumes "distinct (map fst plan)"
  shows "plan_count plan s = card {f. map_of plan f = Some s}"
proof -
  have "{f. map_of plan f = Some s} = fst ` {y \<in> set plan. snd y = s}"
    using assms by (force simp: map_of_eq_Some_iff)
  also have "card \<dots> = card {y \<in> set plan. snd y = s}"
    using assms by (intro card_image) (auto simp: inj_on_def distinct_map)
  also have "\<dots> = length (filter (\<lambda>(f, x). x = s) plan)"
    using distinct_length_filter [OF distinct_map [THEN iffD1, OF assms, THEN conjunct1], of "\<lambda>(f, x). x = s"] by (simp add: split_def Collect_conj_eq Int_commute)
  finally show ?thesis by (simp add: plan_count_def)
qed

lemma freeze_shares:
  assumes "freeze_splits inp = Inr r" and "split_weights (fi_weights inp) = Inr ws" and "stratum \<in> snd ` set (fi_strata inp)" and "m < 3"
  shows "card (families_split inp r stratum (dealt_splits ! m)) = share_counts (card (families_in inp r stratum)) ws ! m"
proof (rule freeze_dealing [OF assms(1)])
  fix ws' prior families plan
  assume "split_weights (fi_weights inp) = Inr ws'"
    and planned: "\<And>s. s \<in> snd ` set (fi_strata inp) \<Longrightarrow> stratum_plan inp ws' prior families s = Inr (plan s)"
    and member: "\<And>row s f. row \<in> set (fi_rows inp) \<Longrightarrow> fr_family r (fz_id row) = Some (s, f) \<Longrightarrow> s \<in> snd ` set (fi_strata inp)
      \<and> f \<in> fst ` set (plan s) \<and> fr_assigned r (fz_id row) = map_of (plan s) f"
    and distinct: "distinct families" and fams: "set families = {sf. \<exists>row \<in> set (fi_rows inp). fr_family r (fz_id row) = Some sf}"
  with assms(2) have ws: "ws' = ws" by simp
  obtain a b c where three: "ws = [a, b, c]" using split_weights_three [OF assms(2)] by blast
  let ?names = "names_of inp families stratum"
  have "stratum_plan inp ws prior families stratum = Inr (plan stratum)" using planned [OF assms(3)] ws by simp
  from plan_result(1,2) [OF this] three assms(4) have plan: "map fst (plan stratum) = ?names"
      "plan_count (plan stratum) (dealt_splits ! m) = share_counts (length ?names) ws ! m" by simp_all
  have names: "set ?names = families_in inp r stratum" by (auto simp: names_set fams families_in_def)
  have dist: "distinct ?names" by (rule names_distinct [OF distinct])
  have "families_split inp r stratum (dealt_splits ! m) = {f. map_of (plan stratum) f = Some (dealt_splits ! m)}"
  proof (intro equalityI subsetI)
    fix f assume "f \<in> families_split inp r stratum (dealt_splits ! m)"
    then show "f \<in> {f. map_of (plan stratum) f = Some (dealt_splits ! m)}" using member by (auto simp: families_split_def)
  next
    fix f assume f: "f \<in> {f. map_of (plan stratum) f = Some (dealt_splits ! m)}"
    then have "f \<in> fst ` set (plan stratum)" using map_of_SomeD by force
    then have "f \<in> set ?names" unfolding plan(1) [symmetric] by simp
    then obtain row where row: "row \<in> set (fi_rows inp)" "fr_family r (fz_id row) = Some (stratum, f)" unfolding names families_in_def by blast
    with member [OF row] f show "f \<in> families_split inp r stratum (dealt_splits ! m)" by (auto simp: families_split_def)
  qed
  moreover have "card (families_in inp r stratum) = length ?names" unfolding names [symmetric] by (rule distinct_card [OF dist])
  ultimately show ?thesis using plan_count_card [of "plan stratum"] plan dist by simp
qed

text \<open>
  C28. The shares are fair. In every stratum the number of families that a split gets differs by less than one from its exact share by
  weight, also when families of an earlier release are pinned.
\<close>

theorem frozen_shares_are_fair:
  assumes "freeze_splits inp = Inr r" and "split_weights (fi_weights inp) = Inr ws" and "stratum \<in> snd ` set (fi_strata inp)" and "m < 3"
  shows "\<bar>int (card (families_split inp r stratum (dealt_splits ! m))) * int (sum_list ws) - int (card (families_in inp r stratum) * ws ! m)\<bar> < int (sum_list ws)"
proof -
  obtain a b c where ws: "ws = [a, b, c]" "0 < a + b + c" using split_weights_three [OF assms(2)] by blast
  have sum: "sum_list ws = a + b + c" by (simp add: ws(1))
  show ?thesis unfolding freeze_shares [OF assms] sum unfolding ws(1) by (rule counts_fair(3) [OF ws(2) assms(4)])
qed

section \<open>The family inventory\<close>

lemma candidate_row:
  assumes "freeze_splits inp = Inr r" and "iv \<in> set (fr_candidates r)"
  obtains row where "row \<in> set (fi_rows inp)" "iv_document iv = fz_id row" "iv_content iv = fz_content row"
    "fr_family r (fz_id row) = Some (iv_stratum iv, iv_family iv)" "fr_assigned r (fz_id row) = Some (iv_split iv)"
proof (rule freeze_parts [OF assms(1)])
  fix st assume st: "fr_family r = fs_family st" "\<forall>row \<in> set (fi_rows inp). fr_assigned r (fz_id row) \<noteq> None"
    "fr_candidates r = candidates_of st (fr_assigned r) (fi_rows inp)"
  from assms(2) obtain row s f where row: "row \<in> set (fi_rows inp)" "fs_family st (fz_id row) = Some (s, f)"
    "iv = \<lparr>iv_document = fz_id row, iv_family = f, iv_split = the (fr_assigned r (fz_id row)), iv_stratum = s, iv_content = fz_content row\<rparr>"
    unfolding st(3) candidates_of_def by (auto split: option.splits)
  show thesis by (rule that [OF row(1)]) (use row st(2) in \<open>auto simp: st(1)\<close>)
qed

lemma merges_named: "foldE (add_merge hints) merged ms = Inr merged' \<Longrightarrow> [] \<notin> ran merged \<Longrightarrow> [] \<notin> ran merged'"
proof (induction ms arbitrary: merged)
  case (Cons m ms)
  from Cons.prems(1) obtain mid where mid: "add_merge hints merged m = Inr mid" "foldE (add_merge hints) mid ms = Inr merged'" by auto
  have fold: "[] \<notin> ran (foldl (\<lambda>m h. m(h \<mapsto> f)) mm hs)" if "f \<noteq> []" "[] \<notin> ran mm" for f hs and mm :: "string option \<Rightarrow> string option"
    using that(2) by (induction hs arbitrary: mm) (auto simp: ran_def that(1))
  from mid(1) obtain f members where "\<not> blank f" "mid = foldl (\<lambda>m h. m(h \<mapsto> f)) merged members"
    by (auto simp: add_merge_def split: option.splits if_splits)
  moreover have "f \<noteq> []" if "\<not> blank f" for f using that by (auto simp: blank_def)
  ultimately have "[] \<notin> ran mid" using fold Cons.prems(2) by blast
  from Cons.IH [OF mid(2) this] show ?case .
qed simp

lemma placed_row:
  assumes "freeze_splits inp = Inr r" and "row \<in> set (fi_rows inp)" and "fr_family r (fz_id row) = Some (s, f)"
  shows "map_of (fi_strata inp) (fz_source row) = Some s" and "s \<noteq> []" and "fz_hint row \<noteq> Some [] \<Longrightarrow> f \<noteq> []"
proof -
  have "map_of (fi_strata inp) (fz_source row) = Some s \<and> s \<noteq> [] \<and> (fz_hint row \<noteq> Some [] \<longrightarrow> f \<noteq> [])"
  proof (rule freeze_dealing [OF assms(1)])
    fix prior merged
    assume place: "\<And>row. row \<in> set (fi_rows inp) \<Longrightarrow> row_place inp prior merged row = Inr (fr_family r (fz_id row))"
      and merges: "foldE (add_merge (fz_hint ` set (fi_rows inp))) Map.empty (fi_merges inp) = Inr merged"
    have merged: "[] \<notin> ran merged" by (rule merges_named [OF merges]) simp
    from row_place_stratum [OF place [OF assms(2), unfolded assms(3)]] obtain hint
      where here: "map_of (fi_strata inp) (fz_source row) = Some s" "fz_hint row = Some hint" "f = (case merged (Some hint) of Some f \<Rightarrow> f | None \<Rightarrow> hint)" by blast
    have "strata_ok inp" using assms(1) by (auto simp: freeze_splits_def split: if_splits)
    with map_of_SomeD [OF here(1)] have "stratum_name s" by (auto simp: strata_ok_def list_all_iff)
    with here merged show ?thesis by (auto simp: stratum_name_def ran_def split: option.splits)
  qed
  then show "map_of (fi_strata inp) (fz_source row) = Some s" and "s \<noteq> []" and "fz_hint row \<noteq> Some [] \<Longrightarrow> f \<noteq> []" by blast+
qed

text \<open>What is filtered from the candidates.\<close>

definition finalized :: "mix_document \<Rightarrow> family_row \<Rightarrow> bool" where
  "finalized d iv \<longleftrightarrow> \<not> md_dropped d \<and> md_id d = iv_document iv \<and> md_split d = iv_split iv \<and> md_content d = iv_content iv \<and> iv_stratum iv \<in> set (md_domains d)"

lemma finalize_row_Inr:
  assumes "finalize_row rows d = Inr out"
  obtains "md_dropped d" "out = []" | iv where "out = [iv]" "iv \<in> set rows" "finalized d iv"
  using assms by (auto simp: finalize_row_def finalized_def split: option.splits if_splits dest!: find_Some_mem)

lemma finalize_fold:
  "mapE (finalize_row rows) ds = Inr out \<Longrightarrow> map iv_document (concat out) = map md_id (filter (\<lambda>d. \<not> md_dropped d) ds)
    \<and> (\<forall>iv \<in> set (concat out). iv \<in> set rows \<and> (\<exists>d \<in> set ds. finalized d iv))"
proof (induction ds arbitrary: out)
  case (Cons d ds)
  from Cons.prems obtain y ys where y: "finalize_row rows d = Inr y" "mapE (finalize_row rows) ds = Inr ys" "out = y # ys" by auto
  note ih = Cons.IH [OF y(2)]
  from y(1) show ?case
  proof (rule finalize_row_Inr)
    assume "md_dropped d" "y = []"
    with ih y(3) show ?thesis by simp
  next
    fix iv assume iv: "y = [iv]" "iv \<in> set rows" "finalized d iv"
    then have "\<not> md_dropped d" "md_id d = iv_document iv" by (simp_all add: finalized_def)
    with ih y(3) iv show ?thesis by simp
  qed
qed simp

lemma finalize_result:
  assumes "finalize_inventory rows docs = Inr out"
  shows "distinct (map md_id docs)" and "distinct (map iv_document out)" and "iv_document ` set out = md_id ` {d \<in> set docs. \<not> md_dropped d}"
    and "iv \<in> set out \<Longrightarrow> iv \<in> set rows \<and> (\<exists>d \<in> set docs. finalized d iv)"
proof -
  from assms obtain ys where ys: "distinct (map md_id docs)" "mapE (finalize_row rows) (sort_key md_id docs) = Inr ys" "out = concat ys"
    by (auto simp: finalize_inventory_def split: if_splits)
  note fold = finalize_fold [OF ys(2), folded ys(3)]
  show "distinct (map md_id docs)" by (rule ys(1))
  have "distinct (map md_id (sort_key md_id docs))" using ys(1) by (simp add: distinct_map)
  then show "distinct (map iv_document out)" unfolding conjunct1 [OF fold] by (rule distinct_map_filter)
  have "iv_document ` set out = set (map iv_document out)" by simp
  also have "\<dots> = md_id ` {d \<in> set docs. \<not> md_dropped d}" unfolding conjunct1 [OF fold] by simp
  finally show "iv_document ` set out = md_id ` {d \<in> set docs. \<not> md_dropped d}" .
  show "iv \<in> set out \<Longrightarrow> iv \<in> set rows \<and> (\<exists>d \<in> set docs. finalized d iv)" using fold by auto
qed

section \<open>A small corpus\<close>

definition sample_freeze :: freeze_input where
  "sample_freeze = \<lparr>fi_sources = [''s''], fi_strata = [(''s'', ''w'')], fi_weights = Some (1, 1, 1),
     fi_prior = Some ([\<lparr>md_id = ''0'', md_split = ''validation'', md_content = ''k'', md_source = ''s'', md_domains = [''w''], md_dropped = False,
         md_rights = None, md_text = []\<rparr>],
       [Some \<lparr>iv_document = ''0'', iv_family = ''c'', iv_split = ''validation'', iv_stratum = ''w'', iv_content = ''k''\<rparr>]),
     fi_rows = [\<lparr>fz_id = ''1'', fz_source = ''s'', fz_location = ''x#1'', fz_index = None, fz_hint = Some ''a'', fz_content = ''l''\<rparr>,
       \<lparr>fz_id = ''2'', fz_source = ''s'', fz_location = ''x'', fz_index = None, fz_hint = Some ''b'', fz_content = ''m''\<rparr>,
       \<lparr>fz_id = ''3'', fz_source = ''s'', fz_location = ''x'', fz_index = None, fz_hint = Some ''c'', fz_content = ''k''\<rparr>,
       \<lparr>fz_id = ''4'', fz_source = ''s'', fz_location = ''y'', fz_index = None, fz_hint = Some ''d'', fz_content = ''n''\<rparr>,
       \<lparr>fz_id = ''5'', fz_source = ''s'', fz_location = ''x'', fz_index = None, fz_hint = Some ''e'', fz_content = ''p''\<rparr>],
     fi_merges = [Some (''a'', [Some ''a'', Some ''e''])],
     fi_admitted = (\<lambda>(s, p). Some (FileDecision (if p = ''x'' then ''qualify'' else ''exclude''))), fi_digest = (\<lambda>s f. f)\<rparr>"

definition sample_frozen :: frozen where
  "sample_frozen = projr (freeze_splits sample_freeze)"

lemma sample_shape: "map_sum id (\<lambda>r. (map (fr_family r) [''1'', ''3'', ''5''], map (fr_assigned r) [''1'', ''2'', ''3'', ''4'', ''5''], fr_counts r)) (freeze_splits sample_freeze)
    = Inr ([Some (''w'', ''a''), Some (''w'', ''c''), Some (''w'', ''a'')], [Some ''train'', Some ''test'', Some ''validation'', Some ''test'', Some ''train''], [(''w'', [1, 1, 1])])"
  by code_simp

lemma sample_freezes: "freeze_splits sample_freeze = Inr sample_frozen"
  using sample_shape by (cases "freeze_splits sample_freeze") (simp_all add: sample_frozen_def)

abbreviation sample_fz :: "nat \<Rightarrow> freeze_row" where
  "sample_fz i \<equiv> fi_rows sample_freeze ! i"

lemma sample_fz: "sample_fz 0 \<in> set (fi_rows sample_freeze)" "sample_fz 2 \<in> set (fi_rows sample_freeze)" "sample_fz 4 \<in> set (fi_rows sample_freeze)"
  "fz_id (sample_fz 0) = ''1''" "fz_id (sample_fz 2) = ''3''" "fz_id (sample_fz 4) = ''5''"
  "sample_fz 3 \<in> set (fi_rows sample_freeze)" "fz_id (sample_fz 3) = ''4''"
  by (simp_all add: sample_freeze_def)

lemma sample_fz_source: "map_of (fi_strata sample_freeze) (fz_source (sample_fz 4)) = Some ''w''"
  by (simp add: sample_freeze_def)

lemma sample_qualified: "row_qualifies sample_freeze (sample_fz 0)" "row_qualifies sample_freeze (sample_fz 2)"
  "\<not> row_qualifies sample_freeze (sample_fz 3)" "row_qualifies sample_freeze (sample_fz 4)"
  by (simp_all add: sample_freeze_def row_qualifies_def)

lemma sample_reviewed: "reviewed_family sample_freeze (sample_fz 0) ''a''" "reviewed_family sample_freeze (sample_fz 2) ''c''"
  "reviewed_family sample_freeze (sample_fz 4) ''a''"
  by (simp_all add: sample_freeze_def reviewed_family_def)

lemma frozen_splits_never_leak_witness:
  "fr_assigned sample_frozen ''1'' = fr_assigned sample_frozen ''5'' \<and> fr_assigned sample_frozen ''3'' = Some ''validation''
    \<and> fr_assigned sample_frozen ''4'' = Some ''test'' \<and> fr_family sample_frozen ''5'' = Some (''w'', ''a'')"
proof -
  note qual = sample_qualified
  let ?old = "[Some \<lparr>iv_document = ''0'', iv_family = ''c'', iv_split = ''validation'', iv_stratum = ''w'', iv_content = ''k''\<rparr>]"
  obtain docs where old: "fi_prior sample_freeze = Some (docs, ?old)" by (simp add: sample_freeze_def)
  have "fr_assigned sample_frozen ''1'' = fr_assigned sample_frozen ''5''"
    using frozen_splits_never_leak [OF sample_freezes sample_fz(1,3)] qual sample_reviewed by (fastforce simp: sample_fz)
  moreover have "fr_assigned sample_frozen ''3'' = Some ''validation''"
    using frozen_splits_never_leak [OF sample_freezes sample_fz(2,2)] old qual(2) sample_reviewed(2) by (fastforce simp: sample_fz)
  moreover have "fr_assigned sample_frozen ''4'' = Some ''test''"
    using frozen_splits_never_leak [OF sample_freezes sample_fz(7,7)] qual(3) by (simp add: sample_fz)
  moreover have "fr_family sample_frozen ''5'' = Some (''w'', ''a'')"
    using frozen_splits_never_leak [OF sample_freezes sample_fz(3,3)] qual(4) sample_reviewed(3) by (simp add: sample_fz sample_fz_source)
  ultimately show ?thesis by blast
qed

lemma frozen_shares_are_fair_witness:
  "\<bar>int (card (families_split sample_freeze sample_frozen ''w'' ''validation'')) * 3 - int (card (families_in sample_freeze sample_frozen ''w''))\<bar> < 3"
  using frozen_shares_are_fair [OF sample_freezes, of "[1, 1, 1]" "''w''" 1] by (simp add: sample_freeze_def split_weights_def dealt_splits_def)

end
