(* ===== verification/Spec2Isabelle.thy ===== *)
theory Spec2Isabelle
  imports Address_Hash Stage_History Attempt_Budget Project_Spec Transport_Budget Transport_Runs
    Campaign_Policy Campaign_Plan Packing Leases Retention Split_Lookup Selection Chunk_Recovery Campaign_Recovery Record_Admission Worker_Queue Host_Work Near_Duplicates Structure_Cleaning External_Sort Story_Packing
    Mixture_Recovery Split_Freeze
begin

text \<open>
  Tiny Sparse Lab: the decisions of the laboratory, verified.

  The program (\<open>src/src/sparselab\<close>, Python) prepares text corpora, trains small language models
  and records what it did. Its own logic is not the tensor code but the bookkeeping around it:
  what may be downloaded, what an attempt may spend, which stage may follow which, when a corpus
  is ready, which array positions are supervised. This development models that logic.

  Parts and theories, in dependency order:

  \<^item> \<open>Lab_Prelude\<close>: the error monad of the models (\<open>bindE\<close>, \<open>mapE\<close>, \<open>foldE\<close> over \<open>error + 'a\<close>: a
    raise or early return is \<open>Inl\<close>) and shared lemmas on lists, sums and options.
  \<^item> \<open>Lab_Interfaces\<close>: the locales the components share: \<open>guarded_machine\<close> (calls that raise
    leave the state alone; an invariant of the calls is one of all runs), \<open>stable_machine\<close> (with
    facts no call takes back), \<open>budget_ledger\<close>, \<open>append_log\<close>, \<open>row_hash\<close>. Every one is interpreted on the code's models.
  \<^item> \<open>Json\<close>: JSON values and duplicate keys (\<open>canonical.py\<close>).
  \<^item> \<open>Address_Hash\<close>: rows of hashed memory tables (\<open>address_hash.py\<close>, \<open>data/byte_hash.py\<close>).
  \<^item> \<open>Stage_History\<close>: the state machine of a run's stages (\<open>training/stages.py\<close>).
  \<^item> \<open>Attempt_Budget\<close>: the ledger of one training attempt (\<open>training/attempt_budget.py\<close>).
  \<^item> \<open>Project_Spec\<close>: the declaration of a corpus project (\<open>corpus/project.py\<close>).
  \<^item> \<open>Transport_Budget\<close>, \<open>Transport_Runs\<close>: the ledger of acquired bytes of such a project
    (\<open>corpus/transport_budget.py\<close>): the operations, then what holds over runs of them.
  \<^item> \<open>Campaign_Policy\<close>: corpus readiness (\<open>campaign/policy.py\<close>).
  \<^item> \<open>Campaign_Plan\<close>: campaign stages, approvals and their order (\<open>campaign/plan.py\<close>, with
    \<open>declaration_context.py\<close> and \<open>Artifact\<close> of \<open>experiments/plan.py\<close>); a readiness stage carries a
    policy of \<open>Campaign_Policy\<close>.
  \<^item> \<open>Packing\<close>: token arrays, masks and training blocks (\<open>data/packing.py\<close>), with the byte
    addresses of \<open>Address_Hash\<close>.
  \<^item> \<open>Leases\<close>: resource leases of worker processes over \<open>flock\<close> (\<open>workers/leases.py\<close>).
  \<^item> \<open>Retention\<close>: which checkpoints are kept, with projection and pruning
    (\<open>training/retention.py\<close>, parts of \<open>training/checkpoints.py\<close> and \<open>config/models.py\<close>).
  \<^item> \<open>Split_Lookup\<close>: the packed table of split assignments and its bisection
    (\<open>corpus/split_lookup.py\<close>).
  \<^item> \<open>Selection\<close>: exact selection of datasets for an evaluation share (\<open>corpus/selection.py\<close>).
  \<^item> \<open>Jsonl\<close>: records of a file with one JSON value per line, and their forward replay
    (\<open>corpus/jsonl_records.py\<close>).
  \<^item> \<open>Spdx\<close>, \<open>Rights\<close>, \<open>Git_Admission\<close>: the rights of corpus files (\<open>corpus/rights.py\<close>): the
    parser and classes of license expressions, the decision about one file from its policy, header
    and nested metadata, and the admission of every pinned file of the Git sources.
  \<^item> \<open>Row_Qualification\<close>, \<open>Legacy_Rows\<close>, \<open>Record_Admission\<close>: the screening of dataset rows by their
    declaration (\<open>corpus/row_qualification.py\<close>) and, for two historical sources, by their locators, and
    the admission of a whole manifest of decisions (\<open>verify_record_admission\<close> in \<open>corpus/rights.py\<close>).
  \<^item> \<open>Structure_Cleaning\<close>: the removal of recognised wrappers from a text with the record of every range
    (\<open>corpus/structure_cleaning.py\<close>).
  \<^item> \<open>Near_Duplicates\<close>: the screening of documents of different splits for common text
    (\<open>corpus/near_duplicates.py\<close>).
  \<^item> \<open>External_Sort\<close>: sorting the rows of a split through bounded runs and merges of at most
    thirty-two files (\<open>external_sort\<close> in \<open>corpus/split_runs.py\<close>).
  \<^item> \<open>Story_Packing\<close>: groups of whole documents as updates of comparable size in two layouts, with
    their budgets and costs (\<open>data/story_packing.py\<close>), and the exposure of a checkpoint
    (\<open>training/exposure.py\<close>).
  \<^item> \<open>Mixture_Index\<close>, \<open>Mixture_Schedule\<close>, \<open>Mixture_Recovery\<close>: the token schedule of a training mixture
    (\<open>corpus/mixture_index.py\<close>, \<open>_schedule\<close> of \<open>corpus/mixture.py\<close> and \<open>MixtureFrontier\<close> of \<open>corpus/mixture_pipeline.py\<close>):
    the index of documents, the schedule as computations with a trace of journal events and checkpoints, and
    what is left of it after crashes.
  \<^item> \<open>Split_Freeze\<close>: reviewed families of documents and their splits by weight, with the assignments of an
    earlier release, and the family inventory of a release (\<open>corpus/split_freeze.py\<close>); the index of a mixture
    reads that inventory.
  \<^item> \<open>Worker_Queue\<close>: the controller's queue of attempts (\<open>workers/store.py\<close>, and the choice of a worker,
    receipts and resumption of \<open>workers/controller.py\<close>), as interleaved transactions.
  \<^item> \<open>Host_Work\<close>: the plan of parallel work on the host and the ordered pool (\<open>host_capacity.py\<close>).
  \<^item> \<open>Disk_Program\<close>: programs over one directory whose atomic writes a crash can cut short, and
    weakest preconditions with a crash condition. The two durable stores are written in it:
    \<^item> \<open>Chunks\<close>, \<open>Chunk_Programs\<close>, \<open>Chunk_Recovery\<close>: the staging directory of data preparation
      (\<open>data/preparation_chunks.py\<close>): the programs, their assertions, runs with crashes;
    \<^item> \<open>Campaign_Store\<close>, \<open>Campaign_Reconcile\<close>, \<open>Campaign_Recovery\<close>: index, receipts and approvals of
      a campaign (\<open>campaign/state.py\<close>): the operations, what reconciliation decides, runs with
      crashes. The stages and their order are those of \<open>Campaign_Plan\<close>.

  Correspondence. A pydantic model or a dataclass is a record or a datatype with the source's
  fields, and its validators are one function that raises the first error, in the order of the
  validators. A SQLite transaction is a function from the stored state to \<open>error + result \<times> state\<close>:
  a raise rolls back. A dict whose keys may be absent is a record of options. Python integers are
  \<open>int\<close> (or \<open>nat\<close> for counts the code cannot make negative), times are rationals. Digests, UTF-8
  encoding, the tokenizer, the probes of a worker, clock readings and free disk space are arguments of the definitions;
  a claim that needs an injective digest says so. A file of the durable stores is its parsed record
  or unreadable; a directory is an association list, and every write is one action of a list, so
  a crash is a prefix of that list.

  Fuel and bounds. The depth-first check of transforms runs with one more unit of fuel than there
  are transforms and the ancestor walk of an approval with one more than the number of
  requirements of the plan; both are proved to be enough
  (\<open>transform_inputs_accepted_iff_acyclic\<close>, \<open>ancestors_of_stage\<close>), so the value for no fuel never
  occurs; the same holds of the license parser with one unit more than there are tokens. The selection table is bounded by the code at 100000 states. Chunk names have six digits: the claims on
  staging take sources of fewer than \<open>10^6\<close> records, and the reading loop has fuel for \<open>10^9\<close> chunks
  although a directory never holds more than the six digits can name. All other recursions terminate by the size of their argument.

  What the theorems show, by part: no run of the two ledgers exceeds its limits, gives a charge
  back, or accepts a label or an ended shard again; the stage machine only appends and completes
  only through its gate; the order of stages and the traversal of transforms decide exactly what
  they should; readiness is the conjunction of its thresholds; packed arrays are aligned cuts of
  the token stream and the promised supply of supervised targets is what the blocks deliver;
  addresses stay in their table and fit 64 bits; conflicting leases exclude each other; pruning
  loses no checkpoint the full history would keep; the packed table is the map of its rows; the
  selection is the least feasible one; a license expression has the class of its worst part, a
  file may be used exactly on unanimous evidence, and no selected row and no pinned file of an admitted manifest escapes
  its decision, but a null passes for the review of a flagged row; the recorded ranges of a cleaned text are exact, except the
  blocks of a text that is metadata alone; the screening reports exactly the
  proposed pairs that qualify, among them all with equal words; the external sort is one stable
  sort whatever its buffer; both layouts of stories train on the same tokens and cost the rows that were announced; the family inventory of a mixture is accepted exactly
  if it is one, an interrupted schedule ends as an uninterrupted one whatever its batches, caches and commits, and
  its strata have exactly their quotas; frozen splits never separate a family or a content, keep what an earlier release
  assigned and give fair shares, and the inventory made from them is one the mixture accepts; under the controller lock a worker
  holds one unfinished attempt, and schedulers without it can give it two; outcomes are final and cancellations last, but a conflict with a
  confirmed recovery can be erased by the controller itself; the ordered pool is the serial loop
  and never hangs. For the two stores: whatever write a crash cuts short, the
  staging directory opens again with whole chunks and the finished arrays are the source; a
  committed stage result is found again, never changes, and every receipt in a reconciled index is
  backed by receipts of all its requirements; and the two places where a crash does lock the
  program out are proved as such.

  Not modelled: tensors, optimisers and engines (floating point over torch and mlx), readers and
  file formats, process control, the remote protocol and relay of workers, the command line and the dashboard; the streaming
  collector and the published cache of \<open>data/packing.py\<close>; the scratch directories of preparation
  workers (\<open>adopt\<close>), the binding collision check and the cleanup of a published staging directory;
  the campaign engine above its store; the prefetching threads, token cache, signatures and receipt of a mixture; the verification of the inputs of split freezing and the publication of its bundle. The manifest lists every part with its reason.
\<close>

section \<open>From a declared project to its ledger\<close>

text \<open>What a source needs so that its bytes are accounted for.\<close>

definition accounted :: "source_declaration \<Rightarrow> effect_kind option \<Rightarrow> bool" where
  "accounted s e \<longleftrightarrow> e = Some ReuseOnly \<or> redistribution s = Some ''rejected''
     \<or> source_kind s \<in> set exempt_kinds \<or> hf_bounded s \<noteq> None \<or> git_bounded s \<noteq> None"

definition acquires :: "source_declaration \<Rightarrow> effect_kind option \<Rightarrow> bool" where
  "acquires s e \<longleftrightarrow> e \<noteq> Some ReuseOnly \<and> (hf_bounded s \<noteq> None \<or> git_bounded s \<noteq> None)"

definition declared_effect :: "project \<Rightarrow> source_declaration \<Rightarrow> effect_kind option" where
  "declared_effect p s = (case config_source_effects (p_config p) of
     None \<Rightarrow> None | Some es \<Rightarrow> map_option se_effect (effects_by_id es (source_id s)))"

lemma effects_by_id_total:
  "i \<in> set (map se_source_id es) \<Longrightarrow> effects_by_id es i \<noteq> None"
  by (simp add: effects_by_id_def map_of_eq_None_iff image_image)

lemma consistent_lookup:
  assumes "effects_consistent dg p = Inr ()" and "s \<in> set (p_sources p)"
  shows "lookup_effect p s = Inr (declared_effect p s)"
proof (cases "config_source_effects (p_config p)")
  case None
  then show ?thesis by (simp add: lookup_effect_def declared_effect_def)
next
  case (Some es)
  with assms(1) have "set (map se_source_id es) = set (map source_id (p_sources p))"
    by (auto simp: effects_consistent_def split: if_splits)
  with assms(2) have "source_id s \<in> set (map se_source_id es)" by simp
  from effects_by_id_total [OF this] Some show ?thesis
    by (auto simp: lookup_effect_def declared_effect_def)
qed

definition can_open :: "project \<Rightarrow> bool \<Rightarrow> bool" where
  "can_open p ledger_exists \<longleftrightarrow> config_transport_budget (p_config p) \<noteq> None \<and> \<not> ledger_exists
     \<and> (\<forall>s \<in> set (p_sources p). accounted s (declared_effect p s))
     \<and> (\<exists>s \<in> set (p_sources p). acquires s (declared_effect p s))"

lemma foldE_unit_iff: "foldE (\<lambda>_ x. f x) () xs = Inr () \<longleftrightarrow> (\<forall>x \<in> set xs. f x = Inr ())"
  by (induction xs) (auto simp: bindE_def split: sum.splits)

lemma validate_scope_iff:
  assumes "effects_consistent dg p = Inr ()"
  shows "validate_scope p = Inr () \<longleftrightarrow> (\<forall>s \<in> set (p_sources p). accounted s (declared_effect p s))"
  unfolding validate_scope_def foldE_unit_iff
  by (intro ball_cong refl) (simp add: consistent_lookup [OF assms] accounted_def)

lemma foldE_unit_error: "foldE (\<lambda>_ x. f x) () xs = Inl e \<Longrightarrow> \<exists>x \<in> set xs. f x = Inl e"
  by (induction xs) (auto simp: bindE_def split: sum.splits)

lemma validate_scope_error:
  assumes "effects_consistent dg p = Inr ()" and "validate_scope p = Inl e"
  shows "e = UnaccountedSource"
proof -
  from foldE_unit_error [OF assms(2) [unfolded validate_scope_def]] obtain s where
    "s \<in> set (p_sources p)" "bindE (lookup_effect p s) (\<lambda>e. if e = Some ReuseOnly then Inr ()
       else if redistribution s = Some ''rejected'' \<or> source_kind s \<in> set exempt_kinds then Inr ()
       else if hf_bounded s = None \<and> git_bounded s = None then Inl UnaccountedSource else Inr ()) = Inl e"
    by blast
  then show ?thesis by (simp add: consistent_lookup [OF assms(1)] split: if_splits)
qed

lemma acquiring_source:
  "list_ex (\<lambda>(e, s). (e = None \<or> e = Some Acquire) \<and> (hf_bounded s \<noteq> None \<or> git_bounded s \<noteq> None))
     (zip (map f xs) xs) \<longleftrightarrow> (\<exists>s \<in> set xs. acquires s (f s))"
proof -
  have "e = None \<or> e = Some Acquire \<longleftrightarrow> e \<noteq> Some ReuseOnly" for e :: "effect_kind option"
    by (cases e) (auto intro: effect_kind.exhaust)
  then show ?thesis by (induction xs) (simp_all add: acquires_def)
qed

text \<open>
  A declared project can open its ledger exactly when its bytes are accounted for. For a
  project whose source effects are consistent, creating the transport ledger never meets a
  missing effect, and it succeeds if and only if the project has a budget, no ledger exists yet,
  every source that is not reused, rejected or local has bounded objects, and some source is
  acquired; the new ledger is empty, enforced and ends after the declared time.
\<close>

theorem declared_project_opens_ledger:
  assumes "effects_consistent dg p = Inr ()"
  shows "case initialize digest now p ledger_exists of
      Inr st \<Rightarrow> can_open p ledger_exists \<and> transfers st = [] \<and> source_charged st = 0 \<and> metadata_charged st = 0
        \<and> \<not> observes_network st
        \<and> (\<exists>sp. config_transport_budget (p_config p) = Some sp \<and> deadline st = now + of_int (max_wall_seconds sp))
    | Inl e \<Rightarrow> \<not> can_open p ledger_exists
        \<and> e \<in> {NoBudget, UnaccountedSource, NothingBounded, LedgerAlreadyExists}"
proof (cases "config_transport_budget (p_config p)")
  case None
  then show ?thesis by (simp add: initialize_def can_open_def)
next
  case (Some sp)
  note lookup = consistent_lookup [OF assms]
  show ?thesis
  proof (cases "validate_scope p")
    case (Inl e)
    then have "\<not> (\<forall>s \<in> set (p_sources p). accounted s (declared_effect p s))"
      using validate_scope_iff [OF assms] by simp
    moreover have "e = UnaccountedSource" by (rule validate_scope_error [OF assms Inl])
    ultimately show ?thesis by (simp add: initialize_def can_open_def Some Inl)
  next
    case (Inr u)
    have "mapE (lookup_effect p) (p_sources p) = Inr (map (declared_effect p) (p_sources p))"
      by (rule mapE_eq_Inr_map) (rule lookup)
    moreover have "\<forall>s \<in> set (p_sources p). accounted s (declared_effect p s)"
      using validate_scope_iff [OF assms] Inr by simp
    moreover have "list_ex (\<lambda>(e, s). (e = None \<or> e = Some Acquire) \<and> (hf_bounded s \<noteq> None \<or> git_bounded s \<noteq> None))
        (zip (map (declared_effect p) (p_sources p)) (p_sources p))
      \<longleftrightarrow> (\<exists>s \<in> set (p_sources p). acquires s (declared_effect p s))"
      by (rule acquiring_source)
    ultimately show ?thesis
      by (simp add: initialize_def can_open_def Some Inr observes_network_def)
  qed
qed

theorem declared_project_opens_ledger_witness:
  "can_open sample_project False"
proof -
  have "effects_consistent (\<lambda>_. ''s'') sample_project = Inr ()"
    by (simp add: effects_consistent_def sample_project_def)
  from declared_project_opens_ledger [OF this, where digest = "\<lambda>_. ''b''" and now = 10 and ledger_exists = False] show ?thesis
    by (simp add: sample_initialized)
qed

section \<open>From frozen splits to a mixture\<close>

lemma load_documents_kept:
  assumes "distinct (map md_id ds)"
  shows "load_documents ds = map (\<lambda>d. \<lparr>mr_doc = d, mr_inventory = None, mr_selected = False\<rparr>) (filter (\<lambda>d. \<not> md_dropped d) ds)"
proof -
  have "foldl load_document rows ds = rows @ map (\<lambda>d. \<lparr>mr_doc = d, mr_inventory = None, mr_selected = False\<rparr>) (filter (\<lambda>d. \<not> md_dropped d) ds)"
    if "distinct (map md_id ds)" "row_id ` set rows \<inter> md_id ` set ds = {}" for rows
    using that
  proof (induction ds arbitrary: rows)
    case (Cons d ds)
    have "md_id d \<notin> row_id ` set rows" using Cons.prems(2) by auto
    then have "filter (\<lambda>r. row_id r \<noteq> md_id d) rows = rows" by (metis (mono_tags, lifting) filter_True imageI)
    moreover from Cons.prems have "distinct (map md_id ds)" "row_id ` (if md_dropped d then set rows else insert \<lparr>mr_doc = d, mr_inventory = None, mr_selected = False\<rparr> (set rows)) \<inter> md_id ` set ds = {}"
      by auto
    ultimately show ?case using Cons.IH by (cases "md_dropped d") (auto simp: load_document_def)
  qed simp
  from this [OF assms, of "[]"] show ?thesis by (simp add: load_documents_def)
qed

text \<open>
  C27. The family inventory that is filtered from the candidates of frozen splits is accepted by the index of a mixture, if the mixture has
  the strata of the frozen splits, the documents of the release keep the sources of the inventory, contents of kept documents
  are distinct (duplicates are dropped), and identifiers, contents and hints are not empty: every kept document then has its row.
\<close>

theorem finalized_inventory_is_accepted:
  assumes "freeze_splits inp = Inr r" and "finalize_inventory (fr_candidates r) docs = Inr rows"
    and "\<forall>d \<in> set docs. \<forall>row \<in> set (fi_rows inp). fz_id row = md_id d \<longrightarrow> fz_source row = md_source d"
    and "distinct (map md_content (filter (\<lambda>d. \<not> md_dropped d) docs))"
    and "\<forall>row \<in> set (fi_rows inp). fz_id row \<noteq> [] \<and> fz_content row \<noteq> [] \<and> fz_hint row \<noteq> Some []"
  shows "inventory (map_of (fi_strata inp)) key (load_documents docs) (map Some rows)
    = Inr (map (inventory_of key rows) (load_documents docs))"
proof -
  note out = finalize_result [OF assms(2)]
  have loaded: "mr_doc ` set (load_documents docs) = {d \<in> set docs. \<not> md_dropped d}"
    unfolding load_documents_kept [OF out(1)] by force
  have row: "inventory_shape iv \<and> (\<exists>x \<in> set (load_documents docs). row_id x = iv_document iv \<and> release_agrees (map_of (fi_strata inp)) (mr_doc x) iv)"
    if "iv \<in> set rows" for iv
  proof -
    from out(4) [OF that] obtain d where d: "iv \<in> set (fr_candidates r)" "d \<in> set docs" "finalized d iv" by blast
    from candidate_row [OF assms(1) d(1)] obtain f where f: "f \<in> set (fi_rows inp)" "iv_document iv = fz_id f" "iv_content iv = fz_content f"
        "fr_family r (fz_id f) = Some (iv_stratum iv, iv_family iv)" "fr_assigned r (fz_id f) = Some (iv_split iv)" by blast
    note placed = placed_row [OF assms(1) f(1,4)]
    have "iv_split iv \<in> set dealt_splits" using freeze_total [OF assms(1) f(1)] f(5) by auto
    then have shape: "inventory_shape iv"
      using assms(5) f(1-3) placed(2,3) by (auto simp: inventory_shape_def dealt_splits_def)
    have "fz_source f = md_source d" using assms(3) d(2,3) f(1,2) by (auto simp: finalized_def)
    then have "release_agrees (map_of (fi_strata inp)) d iv" using d(3) placed(1) by (simp add: release_agrees_def finalized_def)
    moreover have "d \<in> mr_doc ` set (load_documents docs)" using d(2,3) unfolding loaded by (simp add: finalized_def)
    ultimately show ?thesis using shape d(3) by (auto simp: finalized_def)
  qed
  have family: "iv_split a = iv_split b" if ab: "a \<in> set rows" "b \<in> set rows" "iv_family a = iv_family b" for a b
  proof -
    from candidate_row [OF assms(1)] out(4) [OF ab(1)] obtain f where f: "f \<in> set (fi_rows inp)" "fr_family r (fz_id f) = Some (iv_stratum a, iv_family a)" "fr_assigned r (fz_id f) = Some (iv_split a)"
      by metis
    from candidate_row [OF assms(1)] out(4) [OF ab(2)] obtain g where g: "g \<in> set (fi_rows inp)" "fr_family r (fz_id g) = Some (iv_stratum b, iv_family a)" "fr_assigned r (fz_id g) = Some (iv_split b)"
      by (metis ab(3))
    from family_once [OF assms(1) f(1) g(1) f(2) g(2)] f(3) g(3) show ?thesis by simp
  qed
  have content: "a = b" if "a \<in> set rows" "b \<in> set rows" "iv_content a = iv_content b" for a b
  proof -
    from out(4) [OF that(1)] out(4) [OF that(2)] obtain d e where de: "d \<in> set docs" "finalized d a" "e \<in> set docs" "finalized e b" by blast
    with assms(4) that(3) have "d = e" by (auto simp: distinct_map inj_on_def finalized_def)
    with de have "iv_document a = iv_document b" by (simp add: finalized_def)
    with out(2) that(1,2) show ?thesis by (auto simp: distinct_map inj_on_def)
  qed
  have "consistent (map_of (fi_strata inp)) (load_documents docs) rows"
    unfolding consistent_def using out(2) row family content by blast
  moreover have "iv_document ` set rows = row_id ` set (load_documents docs)"
    unfolding out(3) loaded [symmetric] image_image ..
  ultimately show ?thesis unfolding inventory_Inr by blast
qed

definition sample_release :: "mix_document list" where
  "sample_release = map (\<lambda>(i, s, c). \<lparr>md_id = i, md_split = s, md_content = c, md_source = ''s'', md_domains = [''w''], md_dropped = False, md_rights = None, md_text = []\<rparr>)
     [(''1'', ''train'', ''l''), (''2'', ''test'', ''m''), (''3'', ''validation'', ''k''), (''5'', ''train'', ''p'')]"

definition sample_inventory :: "family_row list" where
  "sample_inventory = projr (finalize_inventory (fr_candidates sample_frozen) sample_release)"

lemma sample_finalizes: "finalize_inventory (fr_candidates sample_frozen) sample_release = Inr sample_inventory" "map iv_document sample_inventory = [''1'', ''2'', ''3'', ''5'']"
proof -
  have "map_sum id (map iv_document) (bindE (freeze_splits sample_freeze) (\<lambda>r. finalize_inventory (fr_candidates r) sample_release)) = Inr [''1'', ''2'', ''3'', ''5'']"
    by code_simp
  then have "map_sum id (map iv_document) (finalize_inventory (fr_candidates sample_frozen) sample_release) = Inr [''1'', ''2'', ''3'', ''5'']"
    by (simp add: sample_freezes)
  then show "finalize_inventory (fr_candidates sample_frozen) sample_release = Inr sample_inventory" "map iv_document sample_inventory = [''1'', ''2'', ''3'', ''5'']"
    unfolding sample_inventory_def by (cases "finalize_inventory (fr_candidates sample_frozen) sample_release"; simp)+
qed

lemma finalized_inventory_is_accepted_witness:
  "inventory (map_of (fi_strata sample_freeze)) iv_family (load_documents sample_release) (map Some sample_inventory)
    = Inr (map (inventory_of iv_family sample_inventory) (load_documents sample_release)) \<and> length sample_inventory = 4"
proof -
  have "length sample_inventory = length (map iv_document sample_inventory)" by simp
  then have "length sample_inventory = 4" unfolding sample_finalizes(2) by simp
  moreover have "\<forall>d \<in> set sample_release. \<forall>row \<in> set (fi_rows sample_freeze). fz_id row = md_id d \<longrightarrow> fz_source row = md_source d"
    "distinct (map md_content (filter (\<lambda>d. \<not> md_dropped d) sample_release))"
    "\<forall>row \<in> set (fi_rows sample_freeze). fz_id row \<noteq> [] \<and> fz_content row \<noteq> [] \<and> fz_hint row \<noteq> Some []"
    by (simp_all add: sample_release_def sample_freeze_def)
  ultimately show ?thesis using finalized_inventory_is_accepted [OF sample_freezes sample_finalizes(1)] by blast
qed

end
